(* ===== verification/Prelude.thy ===== *)
theory Prelude
  imports Main "HOL-Library.Word"
begin

unbundle bit_operations_syntax

text \<open>
  Shared vocabulary of the development: the integer types of \<open>base/types.hh\<close>, the
  results of code that can fail, the \<open>Flags\<close> template of \<open>base/flags.hh\<close>, and the
  generic facts on words, lists and options that the component theories use.

  \<^item> \<open>Addr\<close> is \<open>uint64_t\<close>, hence a 64-bit word with wrap-around.  \<open>Tick\<close> is
    \<open>int64_t\<close>; its overflow is undefined behaviour in C++ and no code relies on it, so
    ticks are mathematical integers and \<open>MaxTick\<close> is the largest representable one.
  \<^item> \<open>assert\<close>, \<open>panic\<close> and \<open>fatal\<close> stop the simulator.  An operation that can
    reach one returns a \<open>res\<close>: \<open>Inl\<close> of the way it stops, or \<open>Inr\<close> of its result.
    \<open>Undefined\<close> stands for executions the language gives no meaning (an iterator
    moved past the ends of a list, a use of an erased iterator).
  \<^item> assertions are those of the default builds (\<open>m5.opt\<close>, \<open>m5.debug\<close>), where
    \<open>assert\<close> is active.
\<close>

section \<open>Types\<close>

type_synonym Addr = "64 word"
type_synonym Tick = int
type_synonym byte = "8 word"

definition MaxTick :: Tick where
  "MaxTick = 0x7fffffffffffffff"

definition MaxAddr :: Addr where
  "MaxAddr = -1"

definition InvalidThreadID :: int where
  "InvalidThreadID = -1"

section \<open>Results\<close>

datatype sim_error = AssertFail | Panic | Fatal | Undefined

type_synonym 'a res = "sim_error + 'a"

fun bind_res :: "'a res \<Rightarrow> ('a \<Rightarrow> 'b res) \<Rightarrow> 'b res" where
  "bind_res (Inl e) k = Inl e"
| "bind_res (Inr x) k = k x"

definition guard_res :: "sim_error \<Rightarrow> bool \<Rightarrow> 'a res \<Rightarrow> 'a res" where
  "guard_res e b k = (if b then k else Inl e)"

fun is_ok :: "'a res \<Rightarrow> bool" where
  "is_ok (Inl e) = False"
| "is_ok (Inr x) = True"

section \<open>The template \<open>Flags\<close>\<close>

text \<open>A \<open>Flags<T>\<close> is its underlying word; the methods are functions of that word.\<close>

definition flags_isSet :: "'a::len word \<Rightarrow> 'a word \<Rightarrow> bool" where
  "flags_isSet f m \<longleftrightarrow> f AND m \<noteq> 0"

definition flags_allSet :: "'a::len word \<Rightarrow> 'a word \<Rightarrow> bool" where
  "flags_allSet f m \<longleftrightarrow> f AND m = m"

definition flags_noneSet :: "'a::len word \<Rightarrow> 'a word \<Rightarrow> bool" where
  "flags_noneSet f m \<longleftrightarrow> f AND m = 0"

definition flags_clear :: "'a::len word \<Rightarrow> 'a word \<Rightarrow> 'a word" where
  "flags_clear f m = f AND NOT m"

definition flags_set :: "'a::len word \<Rightarrow> 'a word \<Rightarrow> 'a word" where
  "flags_set f m = f OR m"

definition flags_set_val :: "'a::len word \<Rightarrow> 'a word \<Rightarrow> bool \<Rightarrow> 'a word" where
  "flags_set_val f m val = (f AND NOT m) OR (if val then m else 0)"

definition flags_update :: "'a::len word \<Rightarrow> 'a word \<Rightarrow> 'a word \<Rightarrow> 'a word" where
  "flags_update f fl m = (f AND NOT m) OR (fl AND m)"

section \<open>Facts about results\<close>

named_theorems res_simps \<open>case analysis of fallible computations\<close>
named_theorems flag_simps \<open>which flags are set after an update\<close>

lemma bind_res_Inr [res_simps]:
  "bind_res m k = Inr y \<longleftrightarrow> (\<exists>x. m = Inr x \<and> k x = Inr y)"
  by (cases m) auto

lemma bind_res_return [simp]: "bind_res x Inr = x"
  by (cases x) simp_all

lemma bind_res_Inl [res_simps]:
  "bind_res m k = Inl e \<longleftrightarrow> m = Inl e \<or> (\<exists>x. m = Inr x \<and> k x = Inl e)"
  by (cases m) auto

lemma guard_res_Inr [res_simps]: "guard_res e b k = Inr y \<longleftrightarrow> b \<and> k = Inr y"
  by (simp add: guard_res_def)

lemma guard_res_True [simp]: "guard_res e True k = k"
  by (simp add: guard_res_def)

lemma guard_res_False [simp]: "guard_res e False k = Inl e"
  by (simp add: guard_res_def)

lemma is_ok_iff: "is_ok r \<longleftrightarrow> (\<exists>x. r = Inr x)"
  by (cases r) auto

section \<open>Facts about flags\<close>

lemma flags_isSet_zero [flag_simps, simp]: "\<not> flags_isSet 0 m"
  by (simp add: flags_isSet_def)

lemma flags_isSet_mask_zero [flag_simps, simp]: "\<not> flags_isSet f 0"
  by (simp add: flags_isSet_def)

lemma flags_isSet_numeral [flag_simps]:
  "flags_isSet (numeral a :: 'a::len word) (numeral b) \<longleftrightarrow> numeral a AND (numeral b :: 'a word) \<noteq> 0"
  "flags_isSet (1 :: 'a word) (numeral b) \<longleftrightarrow> 1 AND (numeral b :: 'a word) \<noteq> 0"
  "flags_isSet (numeral a :: 'a word) 1 \<longleftrightarrow> numeral a AND (1 :: 'a word) \<noteq> 0"
  "flags_isSet (1 :: 'a word) 1"
  by (simp_all add: flags_isSet_def)

lemma flags_isSet_set [flag_simps]:
  "flags_isSet (flags_set f m) n \<longleftrightarrow> flags_isSet f n \<or> flags_isSet m n"
  by (simp add: flags_isSet_def flags_set_def bit.conj_disj_distrib2 or_eq_0_iff)

lemma flags_isSet_clear [flag_simps]:
  "flags_isSet (flags_clear f m) n \<longleftrightarrow> flags_isSet f (n AND NOT m)"
  by (simp add: flags_isSet_def flags_clear_def ac_simps)

lemma flags_set_val_eq:
  "flags_set_val f m v = (if v then flags_set (flags_clear f m) m else flags_clear f m)"
  by (simp add: flags_set_val_def flags_set_def flags_clear_def)

lemma flags_isSet_set_val [flag_simps]:
  "flags_isSet (flags_set_val f m v) n \<longleftrightarrow>
     flags_isSet f (n AND NOT m) \<or> (v \<and> flags_isSet m n)"
  by (simp add: flags_set_val_eq flags_isSet_set flags_isSet_clear)

lemma flags_noneSet_iff [flag_simps]: "flags_noneSet f m \<longleftrightarrow> \<not> flags_isSet f m"
  by (simp add: flags_noneSet_def flags_isSet_def)

lemma flags_update_as_set_clear:
  "flags_update f fl m = flags_set (flags_clear f m) (fl AND m)"
  by (simp add: flags_update_def flags_set_def flags_clear_def)

section \<open>Facts about alignment\<close>

text \<open>
  \<open>x & ~(2^n - 1)\<close> clears the \<open>n\<close> low bits; it is the division and multiplication
  by \<open>2^n\<close>, never exceeds \<open>x\<close>, and is idempotent.
\<close>

lemma align_shift: "(a :: 'a::len word) AND NOT (mask n) = push_bit n (drop_bit n a)"
  by (rule bit_word_eqI) (auto simp: bit_simps)

lemma align_div_mult: "(a :: 'a::len word) div 2 ^ n * 2 ^ n = a AND NOT (mask n)"
  by (simp add: align_shift push_bit_eq_mult drop_bit_eq_div)

lemma align_le: "(a :: 'a::len word) AND NOT (mask n) \<le> a"
  by (rule word_and_le2)

lemma align_idem: "((a :: 'a::len word) AND NOT (mask n)) AND NOT (mask n) = a AND NOT (mask n)"
  by (simp add: and.assoc)

lemma align_low_bits: "((a :: 'a::len word) AND NOT (mask n)) AND mask n = 0"
  by (simp add: and.assoc)

lemma align_split: "(a AND NOT (mask n)) + (a AND mask n) = (a :: 'a::len word)"
  by (metis align_shift bits_ident take_bit_eq_mask)

end
