(* ===== verification/Request.thy ===== *)
theory Request
  imports Prelude
begin

unbundle bit_operations_syntax

text \<open>
  The class \<open>Request\<close> of \<open>mem/request.hh\<close>: one memory access as its requester
  sees it.  The class keeps every field beside a word of private flags that says which
  fields hold a value, and its accessors assert the flag of the field they read.  Here
  an object is a record; fields that C++ leaves uninitialised start as zero and are
  guarded by the same flags as in the source.
\<close>

section \<open>Flag constants\<close>

definition REQ_ASI_BITS :: "32 word" where "REQ_ASI_BITS = 0x000000FF"
definition REQ_INST_FETCH :: "32 word" where "REQ_INST_FETCH = 0x00000100"
definition REQ_PHYSICAL :: "32 word" where "REQ_PHYSICAL = 0x00000200"
definition REQ_VPTE :: "32 word" where "REQ_VPTE = 0x00000400"
definition REQ_ALTMODE :: "32 word" where "REQ_ALTMODE = 0x00000800"
definition REQ_UNCACHEABLE :: "32 word" where "REQ_UNCACHEABLE = 0x00001000"
definition REQ_MMAPED_IPR :: "32 word" where "REQ_MMAPED_IPR = 0x00002000"
definition REQ_NO_ALIGN_FAULT :: "32 word" where "REQ_NO_ALIGN_FAULT = 0x00020000"
definition REQ_NO_HALF_WORD_ALIGN_FAULT :: "32 word" where
  "REQ_NO_HALF_WORD_ALIGN_FAULT = 0x00040000"
definition REQ_NO_ACCESS :: "32 word" where "REQ_NO_ACCESS = 0x00080000"
definition REQ_LOCKED :: "32 word" where "REQ_LOCKED = 0x00100000"
definition REQ_LLSC :: "32 word" where "REQ_LLSC = 0x00200000"
definition REQ_MEM_SWAP :: "32 word" where "REQ_MEM_SWAP = 0x00400000"
definition REQ_MEM_SWAP_COND :: "32 word" where "REQ_MEM_SWAP_COND = 0x00800000"
definition REQ_PREFETCH :: "32 word" where "REQ_PREFETCH = 0x01000000"
definition REQ_PF_EXCLUSIVE :: "32 word" where "REQ_PF_EXCLUSIVE = 0x02000000"
definition REQ_EVICT_NEXT :: "32 word" where "REQ_EVICT_NEXT = 0x04000000"
definition REQ_STICKY_FLAGS :: "32 word" where "REQ_STICKY_FLAGS = REQ_INST_FETCH"

definition REQ_VALID_SIZE :: "8 word" where "REQ_VALID_SIZE = 0x01"
definition REQ_VALID_PADDR :: "8 word" where "REQ_VALID_PADDR = 0x02"
definition REQ_VALID_VADDR :: "8 word" where "REQ_VALID_VADDR = 0x04"
definition REQ_VALID_PC :: "8 word" where "REQ_VALID_PC = 0x10"
definition REQ_VALID_CONTEXT_ID :: "8 word" where "REQ_VALID_CONTEXT_ID = 0x20"
definition REQ_VALID_THREAD_ID :: "8 word" where "REQ_VALID_THREAD_ID = 0x40"
definition REQ_VALID_EXTRA_DATA :: "8 word" where "REQ_VALID_EXTRA_DATA = 0x80"
definition REQ_STICKY_PRIVATE_FLAGS :: "8 word" where
  "REQ_STICKY_PRIVATE_FLAGS = REQ_VALID_CONTEXT_ID OR REQ_VALID_THREAD_ID"

lemmas req_flag_defs =
  REQ_ASI_BITS_def REQ_INST_FETCH_def REQ_PHYSICAL_def REQ_VPTE_def REQ_ALTMODE_def
  REQ_UNCACHEABLE_def REQ_MMAPED_IPR_def REQ_NO_ALIGN_FAULT_def
  REQ_NO_HALF_WORD_ALIGN_FAULT_def REQ_NO_ACCESS_def REQ_LOCKED_def REQ_LLSC_def
  REQ_MEM_SWAP_def REQ_MEM_SWAP_COND_def REQ_PREFETCH_def REQ_PF_EXCLUSIVE_def
  REQ_EVICT_NEXT_def REQ_STICKY_FLAGS_def REQ_VALID_SIZE_def REQ_VALID_PADDR_def
  REQ_VALID_VADDR_def REQ_VALID_PC_def REQ_VALID_CONTEXT_ID_def REQ_VALID_THREAD_ID_def
  REQ_VALID_EXTRA_DATA_def REQ_STICKY_PRIVATE_FLAGS_def

section \<open>The object and its constructors\<close>

record Request =
  r_paddr :: Addr
  r_size :: int
  r_flags :: "32 word"
  r_privateFlags :: "8 word"
  r_time :: Tick
  r_asid :: int
  r_vaddr :: Addr
  r_extraData :: "64 word"
  r_contextId :: int
  r_threadId :: int
  r_pc :: Addr

definition Request_new :: Request where
  "Request_new = \<lparr>r_paddr = 0, r_size = 0, r_flags = 0, r_privateFlags = 0, r_time = 0,
     r_asid = 0, r_vaddr = 0, r_extraData = 0, r_contextId = 0, r_threadId = 0, r_pc = 0\<rparr>"

definition req_setThreadContext :: "int \<Rightarrow> int \<Rightarrow> Request \<Rightarrow> Request" where
  "req_setThreadContext context_id tid r =
     r\<lparr>r_contextId := context_id, r_threadId := tid,
       r_privateFlags := flags_set (r_privateFlags r)
                           (REQ_VALID_CONTEXT_ID OR REQ_VALID_THREAD_ID)\<rparr>"

definition req_setPhys :: "Addr \<Rightarrow> int \<Rightarrow> 32 word \<Rightarrow> Tick \<Rightarrow> Request \<Rightarrow> Request res" where
  "req_setPhys paddr sz fl t r =
     guard_res AssertFail (sz \<ge> 0)
       (Inr (r\<lparr>r_paddr := paddr, r_size := sz, r_time := t,
          r_flags := flags_set (flags_clear (r_flags r) (NOT REQ_STICKY_FLAGS)) fl,
          r_privateFlags :=
            flags_set (flags_clear (r_privateFlags r) (NOT REQ_STICKY_PRIVATE_FLAGS))
              (REQ_VALID_PADDR OR REQ_VALID_SIZE)\<rparr>))"

definition req_setVirt ::
  "Tick \<Rightarrow> int \<Rightarrow> Addr \<Rightarrow> int \<Rightarrow> 32 word \<Rightarrow> Addr \<Rightarrow> Request \<Rightarrow> Request res" where
  "req_setVirt curTick asid vaddr sz fl pc r =
     guard_res AssertFail (sz \<ge> 0)
       (Inr (r\<lparr>r_asid := asid, r_vaddr := vaddr, r_size := sz, r_pc := pc, r_time := curTick,
          r_flags := flags_set (flags_clear (r_flags r) (NOT REQ_STICKY_FLAGS)) fl,
          r_privateFlags :=
            flags_set (flags_clear (r_privateFlags r) (NOT REQ_STICKY_PRIVATE_FLAGS))
              (REQ_VALID_VADDR OR REQ_VALID_SIZE OR REQ_VALID_PC)\<rparr>))"

definition Request_phys :: "Addr \<Rightarrow> int \<Rightarrow> 32 word \<Rightarrow> Tick \<Rightarrow> Request res" where
  "Request_phys paddr sz fl t = req_setPhys paddr sz fl t Request_new"

definition Request_phys_pc :: "Addr \<Rightarrow> int \<Rightarrow> 32 word \<Rightarrow> Tick \<Rightarrow> Addr \<Rightarrow> Request res" where
  "Request_phys_pc paddr sz fl t pc =
     bind_res (req_setPhys paddr sz fl t Request_new)
       (\<lambda>r. Inr (r\<lparr>r_privateFlags := flags_set (r_privateFlags r) REQ_VALID_PC, r_pc := pc\<rparr>))"

definition Request_virt ::
  "Tick \<Rightarrow> int \<Rightarrow> Addr \<Rightarrow> int \<Rightarrow> 32 word \<Rightarrow> Addr \<Rightarrow> int \<Rightarrow> int \<Rightarrow> Request res" where
  "Request_virt curTick asid vaddr sz fl pc cid tid =
     bind_res (req_setVirt curTick asid vaddr sz fl pc Request_new)
       (\<lambda>r. Inr (req_setThreadContext cid tid r))"

definition req_setPaddr :: "Addr \<Rightarrow> Request \<Rightarrow> Request res" where
  "req_setPaddr paddr r =
     guard_res AssertFail (flags_isSet (r_privateFlags r) REQ_VALID_VADDR)
       (Inr (r\<lparr>r_paddr := paddr,
               r_privateFlags := flags_set (r_privateFlags r) REQ_VALID_PADDR\<rparr>))"

text \<open>
  \<open>split_addr < _vaddr + _size\<close> is computed at 64 bits, the sizes of the two halves
  are converted back to the 32-bit \<open>int\<close> field.
\<close>

definition to_int32 :: "64 word \<Rightarrow> int" where
  "to_int32 w = sint (ucast w :: 32 word)"

definition req_splitOnVaddr :: "Addr \<Rightarrow> Request \<Rightarrow> (Request \<times> Request) res" where
  "req_splitOnVaddr split_addr r =
     guard_res AssertFail (flags_isSet (r_privateFlags r) REQ_VALID_VADDR)
       (guard_res AssertFail (flags_noneSet (r_privateFlags r) REQ_VALID_PADDR)
         (guard_res AssertFail
            (split_addr > r_vaddr r \<and> split_addr < r_vaddr r + word_of_int (r_size r))
            (let req1 = r\<lparr>r_size := to_int32 (split_addr - r_vaddr r)\<rparr>;
                 req2 = r\<lparr>r_vaddr := split_addr, r_size := r_size r - r_size req1\<rparr>
             in Inr (req1, req2))))"

section \<open>Accessors\<close>

definition req_hasPaddr :: "Request \<Rightarrow> bool" where
  "req_hasPaddr r = flags_isSet (r_privateFlags r) REQ_VALID_PADDR"

definition req_getPaddr :: "Request \<Rightarrow> Addr res" where
  "req_getPaddr r =
     guard_res AssertFail (flags_isSet (r_privateFlags r) REQ_VALID_PADDR) (Inr (r_paddr r))"

definition req_hasSize :: "Request \<Rightarrow> bool" where
  "req_hasSize r = flags_isSet (r_privateFlags r) REQ_VALID_SIZE"

definition req_getSize :: "Request \<Rightarrow> int res" where
  "req_getSize r =
     guard_res AssertFail (flags_isSet (r_privateFlags r) REQ_VALID_SIZE) (Inr (r_size r))"

definition req_getTime :: "Request \<Rightarrow> Tick res" where
  "req_getTime r =
     guard_res AssertFail
       (flags_isSet (r_privateFlags r) (REQ_VALID_PADDR OR REQ_VALID_VADDR)) (Inr (r_time r))"

definition req_setTime :: "Tick \<Rightarrow> Request \<Rightarrow> Request res" where
  "req_setTime t r =
     guard_res AssertFail
       (flags_isSet (r_privateFlags r) (REQ_VALID_PADDR OR REQ_VALID_VADDR))
       (Inr (r\<lparr>r_time := t\<rparr>))"

definition req_getFlags :: "Request \<Rightarrow> (32 word) res" where
  "req_getFlags r =
     guard_res AssertFail
       (flags_isSet (r_privateFlags r) (REQ_VALID_PADDR OR REQ_VALID_VADDR)) (Inr (r_flags r))"

definition req_setFlags :: "32 word \<Rightarrow> Request \<Rightarrow> Request res" where
  "req_setFlags fl r =
     guard_res AssertFail
       (flags_isSet (r_privateFlags r) (REQ_VALID_PADDR OR REQ_VALID_VADDR))
       (Inr (r\<lparr>r_flags := flags_set (r_flags r) fl\<rparr>))"

definition req_getVaddr :: "Request \<Rightarrow> Addr res" where
  "req_getVaddr r =
     guard_res AssertFail (flags_isSet (r_privateFlags r) REQ_VALID_VADDR) (Inr (r_vaddr r))"

definition req_getAsid :: "Request \<Rightarrow> int res" where
  "req_getAsid r =
     guard_res AssertFail (flags_isSet (r_privateFlags r) REQ_VALID_VADDR) (Inr (r_asid r))"

definition req_getAsi :: "Request \<Rightarrow> byte res" where
  "req_getAsi r =
     guard_res AssertFail (flags_isSet (r_privateFlags r) REQ_VALID_VADDR)
       (Inr (ucast (r_flags r AND REQ_ASI_BITS)))"

definition req_extraDataValid :: "Request \<Rightarrow> bool" where
  "req_extraDataValid r = flags_isSet (r_privateFlags r) REQ_VALID_EXTRA_DATA"

definition req_getExtraData :: "Request \<Rightarrow> (64 word) res" where
  "req_getExtraData r =
     guard_res AssertFail (flags_isSet (r_privateFlags r) REQ_VALID_EXTRA_DATA)
       (Inr (r_extraData r))"

definition req_setExtraData :: "64 word \<Rightarrow> Request \<Rightarrow> Request" where
  "req_setExtraData x r =
     r\<lparr>r_extraData := x, r_privateFlags := flags_set (r_privateFlags r) REQ_VALID_EXTRA_DATA\<rparr>"

definition req_hasContextId :: "Request \<Rightarrow> bool" where
  "req_hasContextId r = flags_isSet (r_privateFlags r) REQ_VALID_CONTEXT_ID"

definition req_contextId :: "Request \<Rightarrow> int res" where
  "req_contextId r =
     guard_res AssertFail (flags_isSet (r_privateFlags r) REQ_VALID_CONTEXT_ID)
       (Inr (r_contextId r))"

definition req_threadId :: "Request \<Rightarrow> int res" where
  "req_threadId r =
     guard_res AssertFail (flags_isSet (r_privateFlags r) REQ_VALID_THREAD_ID)
       (Inr (r_threadId r))"

definition req_hasPC :: "Request \<Rightarrow> bool" where
  "req_hasPC r = flags_isSet (r_privateFlags r) REQ_VALID_PC"

definition req_getPC :: "Request \<Rightarrow> Addr res" where
  "req_getPC r =
     guard_res AssertFail (flags_isSet (r_privateFlags r) REQ_VALID_PC) (Inr (r_pc r))"

definition req_isUncacheable :: "Request \<Rightarrow> bool" where
  "req_isUncacheable r = flags_isSet (r_flags r) REQ_UNCACHEABLE"

definition req_isInstFetch :: "Request \<Rightarrow> bool" where
  "req_isInstFetch r = flags_isSet (r_flags r) REQ_INST_FETCH"

definition req_isPrefetch :: "Request \<Rightarrow> bool" where
  "req_isPrefetch r = flags_isSet (r_flags r) REQ_PREFETCH"

definition req_isLLSC :: "Request \<Rightarrow> bool" where
  "req_isLLSC r = flags_isSet (r_flags r) REQ_LLSC"

definition req_isLocked :: "Request \<Rightarrow> bool" where
  "req_isLocked r = flags_isSet (r_flags r) REQ_LOCKED"

definition req_isSwap :: "Request \<Rightarrow> bool" where
  "req_isSwap r = flags_isSet (r_flags r) (REQ_MEM_SWAP OR REQ_MEM_SWAP_COND)"

definition req_isCondSwap :: "Request \<Rightarrow> bool" where
  "req_isCondSwap r = flags_isSet (r_flags r) REQ_MEM_SWAP_COND"

definition req_isMmapedIpr :: "Request \<Rightarrow> bool" where
  "req_isMmapedIpr r = flags_isSet (r_flags r) REQ_MMAPED_IPR"

definition req_isMisaligned :: "Request \<Rightarrow> bool" where
  "req_isMisaligned r =
     (if flags_isSet (r_flags r) REQ_NO_ALIGN_FAULT then False
      else if r_vaddr r AND 1 \<noteq> 0 then True
      else if flags_isSet (r_flags r) REQ_NO_HALF_WORD_ALIGN_FAULT then False
      else if r_vaddr r AND 2 \<noteq> 0 then True
      else False)"

lemmas req_accessor_defs =
  req_hasPaddr_def req_getPaddr_def req_hasSize_def req_getSize_def req_getTime_def
  req_setTime_def req_getFlags_def req_setFlags_def req_getVaddr_def req_getAsid_def
  req_getAsi_def req_extraDataValid_def req_getExtraData_def req_setExtraData_def
  req_hasContextId_def req_contextId_def req_threadId_def req_hasPC_def req_getPC_def
  req_isUncacheable_def req_isInstFetch_def req_isPrefetch_def req_isLLSC_def
  req_isLocked_def req_isSwap_def req_isCondSwap_def req_isMmapedIpr_def

section \<open>Facts\<close>

lemma Request_phys_ok:
  assumes "0 \<le> sz"
  shows "Request_phys paddr sz fl t =
    Inr (Request_new\<lparr>r_paddr := paddr, r_size := sz, r_time := t, r_flags := fl,
           r_privateFlags := REQ_VALID_PADDR OR REQ_VALID_SIZE\<rparr>)"
  using assms
  by (simp add: Request_phys_def req_setPhys_def Request_new_def flags_set_def flags_clear_def)

lemma setPhys_keeps_context:
  assumes "req_setPhys paddr sz fl t r = Inr r'"
  shows "req_hasContextId r' = req_hasContextId r" "req_hasPC r' = False"
    "req_getPaddr r' = Inr paddr" "req_getSize r' = Inr sz"
    "req_isInstFetch r' \<longleftrightarrow> req_isInstFetch r \<or> flags_isSet fl REQ_INST_FETCH"
  using assms
  by (auto simp: req_setPhys_def res_simps req_accessor_defs flag_simps req_flag_defs)

text \<open>
  The two halves of a split cover the original range: consecutive, non-empty, and of
  the original total size.
\<close>

lemma to_int32_small:
  assumes "uint x < 2 ^ 31"
  shows "to_int32 x = uint x"
proof -
  have "signed_take_bit 31 (uint x) = uint x"
    by (rule signed_take_bit_int_eq_self)
      (use assms in \<open>auto intro: order.trans [OF _ unsigned_greater_eq]\<close>)
  then show ?thesis
    using assms by (simp add: to_int32_def sint_uint unsigned_ucast_eq take_bit_int_eq_self)
qed

lemma split_offset:
  fixes v s :: Addr
  assumes "s > v" and "s < v + word_of_int z" and "0 \<le> z" and "z < 2 ^ 31"
    and "uint v + z < 2 ^ 64"
  shows "0 < uint (s - v)" and "uint (s - v) < z"
proof -
  have "uint (v + word_of_int z) = uint v + z"
    using assms by (simp add: uint_word_ariths uint_word_of_int)
  then show "uint (s - v) < z" "0 < uint (s - v)"
    using assms(1,2) by (simp_all add: word_less_def uint_sub_if_size)
qed

lemma splitOnVaddr_covers:
  assumes "req_splitOnVaddr s r = Inr (r1, r2)" and "r_size r < 2 ^ 31" and "0 \<le> r_size r"
    and "uint (r_vaddr r) + r_size r < 2 ^ 64"
  shows "r_vaddr r1 = r_vaddr r" and "0 < r_size r1" and "0 < r_size r2"
    and "r_vaddr r2 = r_vaddr r1 + word_of_int (r_size r1)"
    and "r_size r1 + r_size r2 = r_size r"
proof -
  from assms(1) have s: "s > r_vaddr r" "s < r_vaddr r + word_of_int (r_size r)"
    and r1: "r1 = r\<lparr>r_size := to_int32 (s - r_vaddr r)\<rparr>"
    and r2: "r2 = r\<lparr>r_vaddr := s, r_size := r_size r - r_size r1\<rparr>"
    by (auto simp: req_splitOnVaddr_def res_simps Let_def)
  note off = split_offset [OF s assms(3,2,4)]
  have "to_int32 (s - r_vaddr r) = uint (s - r_vaddr r)"
    using off assms(2) by (intro to_int32_small) simp
  with off r1 r2 show "r_vaddr r1 = r_vaddr r" "0 < r_size r1" "0 < r_size r2"
    "r_vaddr r2 = r_vaddr r1 + word_of_int (r_size r1)" "r_size r1 + r_size r2 = r_size r"
    by simp_all
qed

end
