(* ===== verification/Packet.thy ===== *)
theory Packet
  imports Request
begin

unbundle bit_operations_syntax

text \<open>
  \<open>mem/packet.hh\<close> and \<open>mem/packet.cc\<close>: the command enumeration \<open>MemCmd\<close> with its
  attribute table, the \<open>Packet\<close> that carries a command between two memory objects,
  and the label stack of a \<open>PrintReq\<close>.

  A packet is a record.  Its data pointer is the array it points to, \<open>None\<close> for NULL;
  a byte of the array is \<open>None\<close> while nothing has been stored in it (the arrays of
  \<open>allocate\<close> are uninitialised).  The pointed-to request is held by value.  The opaque
  sender state is a number that names the object of the sender.
\<close>

section \<open>\<open>MemCmd\<close>\<close>

datatype Command =
    InvalidCmd | ReadReq | ReadResp | ReadRespWithInvalidate | WriteReq | WriteResp
  | Writeback | SoftPFReq | HardPFReq | SoftPFResp | HardPFResp | WriteInvalidateReq
  | WriteInvalidateResp | UpgradeReq | SCUpgradeReq | UpgradeResp | SCUpgradeFailReq
  | UpgradeFailResp | ReadExReq | ReadExResp | LoadLockedReq | StoreCondReq | StoreCondResp
  | SwapReq | SwapResp | MessageReq | MessageResp | NetworkNackError | InvalidDestError
  | BadAddressError | PrintReq

datatype Attribute =
    IsRead | IsWrite | IsUpgrade | IsPrefetch | IsInvalidate | NeedsExclusive | IsRequest
  | IsResponse | NeedsResponse | IsSWPrefetch | IsHWPrefetch | IsLlsc | HasData | IsError
  | IsPrint

record CommandInfo =
  ci_attributes :: "Attribute list"
  ci_response :: Command
  ci_str :: string

fun commandInfo :: "Command \<Rightarrow> CommandInfo" where
  "commandInfo InvalidCmd = \<lparr>ci_attributes = [], ci_response = InvalidCmd, ci_str = ''InvalidCmd''\<rparr>"
| "commandInfo ReadReq = \<lparr>ci_attributes = [IsRead, IsRequest, NeedsResponse],
     ci_response = ReadResp, ci_str = ''ReadReq''\<rparr>"
| "commandInfo ReadResp = \<lparr>ci_attributes = [IsRead, IsResponse, HasData],
     ci_response = InvalidCmd, ci_str = ''ReadResp''\<rparr>"
| "commandInfo ReadRespWithInvalidate =
     \<lparr>ci_attributes = [IsRead, IsResponse, HasData, IsInvalidate],
     ci_response = InvalidCmd, ci_str = ''ReadRespWithInvalidate''\<rparr>"
| "commandInfo WriteReq =
     \<lparr>ci_attributes = [IsWrite, NeedsExclusive, IsRequest, NeedsResponse, HasData],
     ci_response = WriteResp, ci_str = ''WriteReq''\<rparr>"
| "commandInfo WriteResp = \<lparr>ci_attributes = [IsWrite, NeedsExclusive, IsResponse],
     ci_response = InvalidCmd, ci_str = ''WriteResp''\<rparr>"
| "commandInfo Writeback = \<lparr>ci_attributes = [IsWrite, NeedsExclusive, IsRequest, HasData],
     ci_response = InvalidCmd, ci_str = ''Writeback''\<rparr>"
| "commandInfo SoftPFReq = \<lparr>ci_attributes = [IsRead, IsRequest, IsSWPrefetch, NeedsResponse],
     ci_response = SoftPFResp, ci_str = ''SoftPFReq''\<rparr>"
| "commandInfo HardPFReq = \<lparr>ci_attributes = [IsRead, IsRequest, IsHWPrefetch, NeedsResponse],
     ci_response = HardPFResp, ci_str = ''HardPFReq''\<rparr>"
| "commandInfo SoftPFResp = \<lparr>ci_attributes = [IsRead, IsResponse, IsSWPrefetch, HasData],
     ci_response = InvalidCmd, ci_str = ''SoftPFResp''\<rparr>"
| "commandInfo HardPFResp = \<lparr>ci_attributes = [IsRead, IsResponse, IsHWPrefetch, HasData],
     ci_response = InvalidCmd, ci_str = ''HardPFResp''\<rparr>"
| "commandInfo WriteInvalidateReq =
     \<lparr>ci_attributes = [IsWrite, NeedsExclusive, IsInvalidate, IsRequest, HasData, NeedsResponse],
     ci_response = WriteInvalidateResp, ci_str = ''WriteInvalidateReq''\<rparr>"
| "commandInfo WriteInvalidateResp = \<lparr>ci_attributes = [IsWrite, NeedsExclusive, IsResponse],
     ci_response = InvalidCmd, ci_str = ''WriteInvalidateResp''\<rparr>"
| "commandInfo UpgradeReq =
     \<lparr>ci_attributes = [IsInvalidate, NeedsExclusive, IsUpgrade, IsRequest, NeedsResponse],
     ci_response = UpgradeResp, ci_str = ''UpgradeReq''\<rparr>"
| "commandInfo SCUpgradeReq =
     \<lparr>ci_attributes = [IsInvalidate, NeedsExclusive, IsUpgrade, IsLlsc, IsRequest, NeedsResponse],
     ci_response = UpgradeResp, ci_str = ''SCUpgradeReq''\<rparr>"
| "commandInfo UpgradeResp = \<lparr>ci_attributes = [NeedsExclusive, IsUpgrade, IsResponse],
     ci_response = InvalidCmd, ci_str = ''UpgradeResp''\<rparr>"
| "commandInfo SCUpgradeFailReq =
     \<lparr>ci_attributes = [IsInvalidate, NeedsExclusive, IsLlsc, IsRequest, NeedsResponse],
     ci_response = UpgradeFailResp, ci_str = ''SCUpgradeFailReq''\<rparr>"
| "commandInfo UpgradeFailResp = \<lparr>ci_attributes = [NeedsExclusive, IsResponse],
     ci_response = InvalidCmd, ci_str = ''UpgradeFailResp''\<rparr>"
| "commandInfo ReadExReq =
     \<lparr>ci_attributes = [IsRead, NeedsExclusive, IsInvalidate, IsRequest, NeedsResponse],
     ci_response = ReadExResp, ci_str = ''ReadExReq''\<rparr>"
| "commandInfo ReadExResp = \<lparr>ci_attributes = [IsRead, NeedsExclusive, IsResponse, HasData],
     ci_response = InvalidCmd, ci_str = ''ReadExResp''\<rparr>"
| "commandInfo LoadLockedReq = \<lparr>ci_attributes = [IsRead, IsLlsc, IsRequest, NeedsResponse],
     ci_response = ReadResp, ci_str = ''LoadLockedReq''\<rparr>"
| "commandInfo StoreCondReq =
     \<lparr>ci_attributes = [IsWrite, NeedsExclusive, IsLlsc, IsRequest, NeedsResponse, HasData],
     ci_response = StoreCondResp, ci_str = ''StoreCondReq''\<rparr>"
| "commandInfo StoreCondResp = \<lparr>ci_attributes = [IsWrite, NeedsExclusive, IsLlsc, IsResponse],
     ci_response = InvalidCmd, ci_str = ''StoreCondResp''\<rparr>"
| "commandInfo SwapReq =
     \<lparr>ci_attributes = [IsRead, IsWrite, NeedsExclusive, IsRequest, HasData, NeedsResponse],
     ci_response = SwapResp, ci_str = ''SwapReq''\<rparr>"
| "commandInfo SwapResp = \<lparr>ci_attributes = [IsRead, IsWrite, NeedsExclusive, IsResponse, HasData],
     ci_response = InvalidCmd, ci_str = ''SwapResp''\<rparr>"
| "commandInfo MessageReq = \<lparr>ci_attributes = [IsWrite, IsRequest, NeedsResponse, HasData],
     ci_response = MessageResp, ci_str = ''MessageReq''\<rparr>"
| "commandInfo MessageResp = \<lparr>ci_attributes = [IsWrite, IsResponse],
     ci_response = InvalidCmd, ci_str = ''MessageResp''\<rparr>"
| "commandInfo NetworkNackError = \<lparr>ci_attributes = [IsResponse, IsError],
     ci_response = InvalidCmd, ci_str = ''NetworkNackError''\<rparr>"
| "commandInfo InvalidDestError = \<lparr>ci_attributes = [IsResponse, IsError],
     ci_response = InvalidCmd, ci_str = ''InvalidDestError''\<rparr>"
| "commandInfo BadAddressError = \<lparr>ci_attributes = [IsResponse, IsError],
     ci_response = InvalidCmd, ci_str = ''BadAddressError''\<rparr>"
| "commandInfo PrintReq = \<lparr>ci_attributes = [IsRequest, IsPrint],
     ci_response = InvalidCmd, ci_str = ''PrintReq''\<rparr>"

definition testCmdAttrib :: "Command \<Rightarrow> Attribute \<Rightarrow> bool" where
  "testCmdAttrib c a \<longleftrightarrow> a \<in> set (ci_attributes (commandInfo c))"

definition cmd_isRead :: "Command \<Rightarrow> bool" where
  "cmd_isRead c = testCmdAttrib c IsRead"
definition cmd_isWrite :: "Command \<Rightarrow> bool" where
  "cmd_isWrite c = testCmdAttrib c IsWrite"
definition cmd_isUpgrade :: "Command \<Rightarrow> bool" where
  "cmd_isUpgrade c = testCmdAttrib c IsUpgrade"
definition cmd_isRequest :: "Command \<Rightarrow> bool" where
  "cmd_isRequest c = testCmdAttrib c IsRequest"
definition cmd_isResponse :: "Command \<Rightarrow> bool" where
  "cmd_isResponse c = testCmdAttrib c IsResponse"
definition cmd_needsExclusive :: "Command \<Rightarrow> bool" where
  "cmd_needsExclusive c = testCmdAttrib c NeedsExclusive"
definition cmd_needsResponse :: "Command \<Rightarrow> bool" where
  "cmd_needsResponse c = testCmdAttrib c NeedsResponse"
definition cmd_isInvalidate :: "Command \<Rightarrow> bool" where
  "cmd_isInvalidate c = testCmdAttrib c IsInvalidate"
definition cmd_hasData :: "Command \<Rightarrow> bool" where
  "cmd_hasData c = testCmdAttrib c HasData"
definition cmd_isReadWrite :: "Command \<Rightarrow> bool" where
  "cmd_isReadWrite c \<longleftrightarrow> cmd_isRead c \<and> cmd_isWrite c"
definition cmd_isLLSC :: "Command \<Rightarrow> bool" where
  "cmd_isLLSC c = testCmdAttrib c IsLlsc"
definition cmd_isError :: "Command \<Rightarrow> bool" where
  "cmd_isError c = testCmdAttrib c IsError"
definition cmd_isPrint :: "Command \<Rightarrow> bool" where
  "cmd_isPrint c = testCmdAttrib c IsPrint"

definition responseCommand :: "Command \<Rightarrow> Command" where
  "responseCommand c = ci_response (commandInfo c)"

definition cmd_toString :: "Command \<Rightarrow> string" where
  "cmd_toString c = ci_str (commandInfo c)"

lemmas cmd_defs = testCmdAttrib_def cmd_isRead_def cmd_isWrite_def cmd_isUpgrade_def
  cmd_isRequest_def cmd_isResponse_def cmd_needsExclusive_def cmd_needsResponse_def
  cmd_isInvalidate_def cmd_hasData_def cmd_isReadWrite_def cmd_isLLSC_def cmd_isError_def
  cmd_isPrint_def responseCommand_def cmd_toString_def

section \<open>\<open>Packet\<close>\<close>

definition PKT_PUBLIC_FLAGS :: "32 word" where "PKT_PUBLIC_FLAGS = 0x00000000"
definition PKT_PRIVATE_FLAGS :: "32 word" where "PKT_PRIVATE_FLAGS = 0x00007F0F"
definition PKT_COPY_FLAGS :: "32 word" where "PKT_COPY_FLAGS = 0x0000000F"
definition PKT_SHARED :: "32 word" where "PKT_SHARED = 0x00000001"
definition PKT_EXPRESS_SNOOP :: "32 word" where "PKT_EXPRESS_SNOOP = 0x00000002"
definition PKT_SUPPLY_EXCLUSIVE :: "32 word" where "PKT_SUPPLY_EXCLUSIVE = 0x00000004"
definition PKT_MEM_INHIBIT :: "32 word" where "PKT_MEM_INHIBIT = 0x00000008"
definition PKT_VALID_ADDR :: "32 word" where "PKT_VALID_ADDR = 0x00000100"
definition PKT_VALID_SIZE :: "32 word" where "PKT_VALID_SIZE = 0x00000200"
definition PKT_VALID_SRC :: "32 word" where "PKT_VALID_SRC = 0x00000400"
definition PKT_VALID_DST :: "32 word" where "PKT_VALID_DST = 0x00000800"
definition PKT_STATIC_DATA :: "32 word" where "PKT_STATIC_DATA = 0x00001000"
definition PKT_DYNAMIC_DATA :: "32 word" where "PKT_DYNAMIC_DATA = 0x00002000"
definition PKT_ARRAY_DATA :: "32 word" where "PKT_ARRAY_DATA = 0x00004000"

lemmas pkt_flag_defs = PKT_PUBLIC_FLAGS_def PKT_PRIVATE_FLAGS_def PKT_COPY_FLAGS_def
  PKT_SHARED_def PKT_EXPRESS_SNOOP_def PKT_SUPPLY_EXCLUSIVE_def PKT_MEM_INHIBIT_def
  PKT_VALID_ADDR_def PKT_VALID_SIZE_def PKT_VALID_SRC_def PKT_VALID_DST_def
  PKT_STATIC_DATA_def PKT_DYNAMIC_DATA_def PKT_ARRAY_DATA_def

type_synonym pkt_data = "byte option list"

record Packet =
  p_flags :: "32 word"
  p_cmd :: Command
  p_req :: Request
  p_data :: "pkt_data option"
  p_addr :: Addr
  p_size :: "32 word"
  p_src :: int
  p_dest :: int
  p_origCmd :: Command
  p_time :: Tick
  p_finishTime :: Tick
  p_firstWordTime :: Tick
  p_senderState :: "nat option"

definition Broadcast :: int where "Broadcast = -1"

text \<open>The queries of a packet that forward to its command.\<close>

definition pkt_isRead :: "Packet \<Rightarrow> bool" where "pkt_isRead p = cmd_isRead (p_cmd p)"
definition pkt_isWrite :: "Packet \<Rightarrow> bool" where "pkt_isWrite p = cmd_isWrite (p_cmd p)"
definition pkt_isUpgrade :: "Packet \<Rightarrow> bool" where "pkt_isUpgrade p = cmd_isUpgrade (p_cmd p)"
definition pkt_isRequest :: "Packet \<Rightarrow> bool" where "pkt_isRequest p = cmd_isRequest (p_cmd p)"
definition pkt_isResponse :: "Packet \<Rightarrow> bool" where
  "pkt_isResponse p = cmd_isResponse (p_cmd p)"
definition pkt_needsExclusive :: "Packet \<Rightarrow> bool" where
  "pkt_needsExclusive p = cmd_needsExclusive (p_cmd p)"
definition pkt_needsResponse :: "Packet \<Rightarrow> bool" where
  "pkt_needsResponse p = cmd_needsResponse (p_cmd p)"
definition pkt_isInvalidate :: "Packet \<Rightarrow> bool" where
  "pkt_isInvalidate p = cmd_isInvalidate (p_cmd p)"
definition pkt_hasData :: "Packet \<Rightarrow> bool" where "pkt_hasData p = cmd_hasData (p_cmd p)"
definition pkt_isReadWrite :: "Packet \<Rightarrow> bool" where
  "pkt_isReadWrite p = cmd_isReadWrite (p_cmd p)"
definition pkt_isLLSC :: "Packet \<Rightarrow> bool" where "pkt_isLLSC p = cmd_isLLSC (p_cmd p)"
definition pkt_isError :: "Packet \<Rightarrow> bool" where "pkt_isError p = cmd_isError (p_cmd p)"
definition pkt_isPrint :: "Packet \<Rightarrow> bool" where "pkt_isPrint p = cmd_isPrint (p_cmd p)"

lemmas pkt_query_defs = pkt_isRead_def pkt_isWrite_def pkt_isUpgrade_def pkt_isRequest_def
  pkt_isResponse_def pkt_needsExclusive_def pkt_needsResponse_def pkt_isInvalidate_def
  pkt_hasData_def pkt_isReadWrite_def pkt_isLLSC_def pkt_isError_def pkt_isPrint_def

text \<open>Snoop and control flags.\<close>

definition assertMemInhibit :: "Packet \<Rightarrow> Packet" where
  "assertMemInhibit p = p\<lparr>p_flags := flags_set (p_flags p) PKT_MEM_INHIBIT\<rparr>"
definition memInhibitAsserted :: "Packet \<Rightarrow> bool" where
  "memInhibitAsserted p = flags_isSet (p_flags p) PKT_MEM_INHIBIT"
definition assertShared :: "Packet \<Rightarrow> Packet" where
  "assertShared p = p\<lparr>p_flags := flags_set (p_flags p) PKT_SHARED\<rparr>"
definition sharedAsserted :: "Packet \<Rightarrow> bool" where
  "sharedAsserted p = flags_isSet (p_flags p) PKT_SHARED"
definition setExpressSnoop :: "Packet \<Rightarrow> Packet" where
  "setExpressSnoop p = p\<lparr>p_flags := flags_set (p_flags p) PKT_EXPRESS_SNOOP\<rparr>"
definition isExpressSnoop :: "Packet \<Rightarrow> bool" where
  "isExpressSnoop p = flags_isSet (p_flags p) PKT_EXPRESS_SNOOP"
definition setSupplyExclusive :: "Packet \<Rightarrow> Packet" where
  "setSupplyExclusive p = p\<lparr>p_flags := flags_set (p_flags p) PKT_SUPPLY_EXCLUSIVE\<rparr>"
definition isSupplyExclusive :: "Packet \<Rightarrow> bool" where
  "isSupplyExclusive p = flags_isSet (p_flags p) PKT_SUPPLY_EXCLUSIVE"

lemmas snoop_defs = assertMemInhibit_def memInhibitAsserted_def assertShared_def
  sharedAsserted_def setExpressSnoop_def isExpressSnoop_def setSupplyExclusive_def
  isSupplyExclusive_def

text \<open>Network errors, source, destination, address and size.\<close>

definition setNacked :: "Packet \<Rightarrow> Packet res" where
  "setNacked p = guard_res AssertFail (pkt_isResponse p) (Inr (p\<lparr>p_cmd := NetworkNackError\<rparr>))"

definition setBadAddress :: "Packet \<Rightarrow> Packet res" where
  "setBadAddress p = guard_res AssertFail (pkt_isResponse p) (Inr (p\<lparr>p_cmd := BadAddressError\<rparr>))"

definition wasNacked :: "Packet \<Rightarrow> bool" where
  "wasNacked p \<longleftrightarrow> p_cmd p = NetworkNackError"

definition hadBadAddress :: "Packet \<Rightarrow> bool" where
  "hadBadAddress p \<longleftrightarrow> p_cmd p = BadAddressError"

definition copyError :: "Packet \<Rightarrow> Packet \<Rightarrow> Packet res" where
  "copyError other p = guard_res AssertFail (pkt_isError other) (Inr (p\<lparr>p_cmd := p_cmd other\<rparr>))"

definition isSrcValid :: "Packet \<Rightarrow> bool" where
  "isSrcValid p = flags_isSet (p_flags p) PKT_VALID_SRC"

definition getSrc :: "Packet \<Rightarrow> int res" where
  "getSrc p = guard_res AssertFail (flags_isSet (p_flags p) PKT_VALID_SRC) (Inr (p_src p))"

definition setSrc :: "int \<Rightarrow> Packet \<Rightarrow> Packet" where
  "setSrc s p = p\<lparr>p_src := s, p_flags := flags_set (p_flags p) PKT_VALID_SRC\<rparr>"

definition clearSrc :: "Packet \<Rightarrow> Packet" where
  "clearSrc p = p\<lparr>p_flags := flags_clear (p_flags p) PKT_VALID_SRC\<rparr>"

definition isDestValid :: "Packet \<Rightarrow> bool" where
  "isDestValid p = flags_isSet (p_flags p) PKT_VALID_DST"

definition getDest :: "Packet \<Rightarrow> int res" where
  "getDest p = guard_res AssertFail (flags_isSet (p_flags p) PKT_VALID_DST) (Inr (p_dest p))"

definition setDest :: "int \<Rightarrow> Packet \<Rightarrow> Packet" where
  "setDest d p = p\<lparr>p_dest := d, p_flags := flags_set (p_flags p) PKT_VALID_DST\<rparr>"

definition getAddr :: "Packet \<Rightarrow> Addr res" where
  "getAddr p = guard_res AssertFail (flags_isSet (p_flags p) PKT_VALID_ADDR) (Inr (p_addr p))"

definition getSize :: "Packet \<Rightarrow> (32 word) res" where
  "getSize p = guard_res AssertFail (flags_isSet (p_flags p) PKT_VALID_SIZE) (Inr (p_size p))"

definition getOffset :: "int \<Rightarrow> Packet \<Rightarrow> Addr res" where
  "getOffset blkSize p = bind_res (getAddr p) (\<lambda>a. Inr (a AND word_of_int (blkSize - 1)))"

text \<open>Constructors.\<close>

definition Packet_base :: "Tick \<Rightarrow> Request \<Rightarrow> Command \<Rightarrow> int \<Rightarrow> Packet" where
  "Packet_base curTick req cmd dest =
     \<lparr>p_flags = PKT_VALID_DST, p_cmd = cmd, p_req = req, p_data = None, p_addr = 0, p_size = 0,
      p_src = 0, p_dest = dest, p_origCmd = InvalidCmd, p_time = curTick, p_finishTime = 0,
      p_firstWordTime = 0, p_senderState = None\<rparr>"

definition Packet_new :: "Tick \<Rightarrow> Request \<Rightarrow> Command \<Rightarrow> int \<Rightarrow> Packet" where
  "Packet_new curTick req cmd dest =
     (let p = Packet_base curTick req cmd dest;
          p = (if req_hasPaddr req
               then p\<lparr>p_addr := r_paddr req, p_flags := flags_set (p_flags p) PKT_VALID_ADDR\<rparr>
               else p)
      in if req_hasSize req
         then p\<lparr>p_size := word_of_int (r_size req),
                p_flags := flags_set (p_flags p) PKT_VALID_SIZE\<rparr>
         else p)"

definition Packet_new_blk :: "Tick \<Rightarrow> Request \<Rightarrow> Command \<Rightarrow> int \<Rightarrow> int \<Rightarrow> Packet" where
  "Packet_new_blk curTick req cmd dest blkSize =
     (let p = Packet_base curTick req cmd dest;
          p = (if req_hasPaddr req
               then p\<lparr>p_addr := r_paddr req AND NOT (word_of_int (blkSize - 1)),
                      p_flags := flags_set (p_flags p) PKT_VALID_ADDR\<rparr>
               else p)
      in p\<lparr>p_size := word_of_int blkSize, p_flags := flags_set (p_flags p) PKT_VALID_SIZE\<rparr>)"

definition Packet_copy :: "Tick \<Rightarrow> Packet \<Rightarrow> bool \<Rightarrow> Packet" where
  "Packet_copy curTick pkt clearFlags =
     (let fl = (if clearFlags then 0 else flags_set 0 (p_flags pkt AND PKT_COPY_FLAGS));
          fl = flags_set fl (p_flags pkt AND
                 (PKT_VALID_ADDR OR PKT_VALID_SIZE OR PKT_VALID_SRC OR PKT_VALID_DST));
          fl = flags_set fl (p_flags pkt AND PKT_STATIC_DATA)
      in \<lparr>p_flags = fl, p_cmd = p_cmd pkt, p_req = p_req pkt,
          p_data = (if flags_isSet (p_flags pkt) PKT_STATIC_DATA then p_data pkt else None),
          p_addr = p_addr pkt, p_size = p_size pkt, p_src = p_src pkt, p_dest = p_dest pkt,
          p_origCmd = InvalidCmd, p_time = curTick, p_finishTime = 0, p_firstWordTime = 0,
          p_senderState = p_senderState pkt\<rparr>)"

definition deleteData :: "Packet \<Rightarrow> Packet" where
  "deleteData p =
     p\<lparr>p_flags := flags_clear (p_flags p)
                    (PKT_STATIC_DATA OR PKT_DYNAMIC_DATA OR PKT_ARRAY_DATA),
       p_data := None\<rparr>"

definition reinitFromRequest :: "Packet \<Rightarrow> Packet res" where
  "reinitFromRequest p =
     guard_res AssertFail (req_hasPaddr (p_req p))
       (bind_res (req_getPaddr (p_req p)) (\<lambda>a.
        bind_res (req_getSize (p_req p)) (\<lambda>sz.
        bind_res (req_getTime (p_req p)) (\<lambda>t.
          Inr (deleteData (p\<lparr>p_addr := a, p_size := word_of_int sz, p_time := t,
                             p_flags := flags_set 0 (PKT_VALID_ADDR OR PKT_VALID_SIZE)\<rparr>))))))"

definition makeResponse :: "Packet \<Rightarrow> Packet res" where
  "makeResponse p =
     guard_res AssertFail (pkt_needsResponse p)
       (guard_res AssertFail (pkt_isRequest p)
         (let p = p\<lparr>p_origCmd := p_cmd p\<rparr>;
              p = p\<lparr>p_cmd := responseCommand (p_cmd p)\<rparr>;
              p = p\<lparr>p_flags := flags_clear (p_flags p) PKT_EXPRESS_SNOOP\<rparr>;
              p = p\<lparr>p_dest := p_src p\<rparr>;
              p = p\<lparr>p_flags := flags_set_val (p_flags p) PKT_VALID_DST
                                  (flags_isSet (p_flags p) PKT_VALID_SRC)\<rparr>
          in Inr (p\<lparr>p_flags := flags_clear (p_flags p) PKT_VALID_SRC\<rparr>)))"

definition makeAtomicResponse :: "Packet \<Rightarrow> Packet res" where
  "makeAtomicResponse p = makeResponse p"

definition makeTimingResponse :: "Packet \<Rightarrow> Packet res" where
  "makeTimingResponse p = makeResponse p"

definition reinitNacked :: "Packet \<Rightarrow> Packet res" where
  "reinitNacked p =
     guard_res AssertFail (wasNacked p)
       (let p = p\<lparr>p_cmd := p_origCmd p\<rparr>
        in guard_res AssertFail (pkt_needsResponse p) (Inr (setDest Broadcast p)))"

definition pkt_setSize :: "32 word \<Rightarrow> Packet \<Rightarrow> Packet res" where
  "pkt_setSize sz p =
     guard_res AssertFail (\<not> flags_isSet (p_flags p) PKT_VALID_SIZE)
       (Inr (p\<lparr>p_size := sz, p_flags := flags_set (p_flags p) PKT_VALID_SIZE\<rparr>))"

text \<open>Payload.\<close>

definition DATA_FLAGS :: "32 word" where
  "DATA_FLAGS = PKT_STATIC_DATA OR PKT_DYNAMIC_DATA OR PKT_ARRAY_DATA"

definition dataStatic :: "pkt_data \<Rightarrow> Packet \<Rightarrow> Packet res" where
  "dataStatic d p =
     guard_res AssertFail (flags_noneSet (p_flags p) DATA_FLAGS)
       (Inr (p\<lparr>p_data := Some d, p_flags := flags_set (p_flags p) PKT_STATIC_DATA\<rparr>))"

definition dataDynamicArray :: "pkt_data \<Rightarrow> Packet \<Rightarrow> Packet res" where
  "dataDynamicArray d p =
     guard_res AssertFail (flags_noneSet (p_flags p) DATA_FLAGS)
       (Inr (p\<lparr>p_data := Some d,
               p_flags := flags_set (p_flags p) (PKT_DYNAMIC_DATA OR PKT_ARRAY_DATA)\<rparr>))"

definition dataDynamic :: "pkt_data \<Rightarrow> Packet \<Rightarrow> Packet res" where
  "dataDynamic d p =
     guard_res AssertFail (flags_noneSet (p_flags p) DATA_FLAGS)
       (Inr (p\<lparr>p_data := Some d, p_flags := flags_set (p_flags p) PKT_DYNAMIC_DATA\<rparr>))"

text \<open>
  \<open>getPtr\<close> returns the array; following a NULL pointer or copying outside the arrays
  is undefined.
\<close>

definition getPtr :: "Packet \<Rightarrow> pkt_data res" where
  "getPtr p =
     guard_res AssertFail (flags_isSet (p_flags p) (PKT_STATIC_DATA OR PKT_DYNAMIC_DATA))
       (case p_data p of None \<Rightarrow> Inl Undefined | Some d \<Rightarrow> Inr d)"

definition memcpy_at :: "pkt_data \<Rightarrow> nat \<Rightarrow> pkt_data \<Rightarrow> nat \<Rightarrow> nat \<Rightarrow> pkt_data res" where
  "memcpy_at dst doff src soff n =
     guard_res Undefined (doff + n \<le> length dst \<and> soff + n \<le> length src)
       (Inr (take doff dst @ take n (drop soff src) @ drop (doff + n) dst))"

definition setData :: "pkt_data \<Rightarrow> nat \<Rightarrow> Packet \<Rightarrow> Packet res" where
  "setData src soff p =
     bind_res (getPtr p) (\<lambda>d.
     bind_res (getSize p) (\<lambda>n.
     bind_res (memcpy_at d 0 src soff (unat n)) (\<lambda>d'. Inr (p\<lparr>p_data := Some d'\<rparr>))))"

definition setDataFromBlock :: "pkt_data \<Rightarrow> int \<Rightarrow> Packet \<Rightarrow> Packet res" where
  "setDataFromBlock blk blkSize p =
     bind_res (getOffset blkSize p) (\<lambda>off. setData blk (unat off) p)"

definition writeData :: "pkt_data \<Rightarrow> nat \<Rightarrow> Packet \<Rightarrow> pkt_data res" where
  "writeData dst doff p =
     bind_res (getPtr p) (\<lambda>d.
     bind_res (getSize p) (\<lambda>n. memcpy_at dst doff d 0 (unat n)))"

definition writeDataToBlock :: "pkt_data \<Rightarrow> int \<Rightarrow> Packet \<Rightarrow> pkt_data res" where
  "writeDataToBlock blk blkSize p =
     bind_res (getOffset blkSize p) (\<lambda>off. writeData blk (unat off) p)"

definition allocate :: "Packet \<Rightarrow> Packet res" where
  "allocate p =
     (case p_data p of
        Some d \<Rightarrow>
          guard_res AssertFail (flags_isSet (p_flags p) (PKT_STATIC_DATA OR PKT_DYNAMIC_DATA))
            (Inr p)
      | None \<Rightarrow>
          guard_res AssertFail (flags_noneSet (p_flags p) (PKT_STATIC_DATA OR PKT_DYNAMIC_DATA))
            (bind_res (getSize p) (\<lambda>n.
              Inr (p\<lparr>p_flags := flags_set (p_flags p) (PKT_DYNAMIC_DATA OR PKT_ARRAY_DATA),
                     p_data := Some (replicate (unat n) None)\<rparr>))))"

text \<open>
  \<open>checkFunctional\<close> against a value \<open>[addr, addr + size)\<close> with contents \<open>data\<close>.
  The result is the returned flag, the packet, the contents afterwards, and whether the
  object was printed for a \<open>PrintReq\<close>.
\<close>

definition checkFunctional ::
  "Packet \<Rightarrow> Addr \<Rightarrow> int \<Rightarrow> pkt_data option \<Rightarrow> (bool \<times> Packet \<times> pkt_data option \<times> bool) res"
where
  "checkFunctional p addr sz data =
     bind_res (getAddr p) (\<lambda>func_start.
     bind_res (getSize p) (\<lambda>n.
     (let func_end = func_start + ucast n - 1;
          val_start = addr;
          val_end = val_start + word_of_int sz - 1
      in if func_start > val_end \<or> val_start > func_end then Inr (False, p, data, False)
         else if pkt_isPrint p then Inr (False, p, data, True)
         else (case data of
           None \<Rightarrow> Inr (False, p, data, False)
         | Some d \<Rightarrow>
             (let offset = to_int32 (func_start - val_start)
              in if pkt_isRead p then
                   (if func_start \<ge> val_start \<and> func_end \<le> val_end then
                      bind_res (allocate p) (\<lambda>p.
                      bind_res (getPtr p) (\<lambda>pd.
                      bind_res (memcpy_at pd 0 d (nat offset) (unat n)) (\<lambda>pd'.
                      bind_res (makeResponse (p\<lparr>p_data := Some pd'\<rparr>)) (\<lambda>p'.
                        Inr (True, p', data, False)))))
                    else Inl Panic)
                 else if pkt_isWrite p then
                   bind_res (getPtr p) (\<lambda>pd.
                     (if offset \<ge> 0 then
                        bind_res (memcpy_at d (nat offset) pd 0
                                    (unat (min func_end val_end - func_start) + 1)) (\<lambda>d'.
                          Inr (False, p, Some d', False))
                      else
                        bind_res (memcpy_at d 0 pd (nat (- offset))
                                    (unat (min func_end val_end - val_start) + 1)) (\<lambda>d'.
                          Inr (False, p, Some d', False))))
                 else Inl Panic)))))"

definition checkFunctional_pkt ::
  "Packet \<Rightarrow> Packet \<Rightarrow> (bool \<times> Packet \<times> Packet \<times> bool) res" where
  "checkFunctional_pkt p other =
     bind_res (if pkt_hasData other then bind_res (getPtr other) (\<lambda>d. Inr (Some d)) else Inr None)
       (\<lambda>data.
     bind_res (getAddr other) (\<lambda>a.
     bind_res (getSize other) (\<lambda>n.
     bind_res (checkFunctional p a (sint n) data) (\<lambda>(b, p', data', pr).
       Inr (b, p', (case data' of None \<Rightarrow> other | Some d \<Rightarrow> other\<lparr>p_data := Some d\<rparr>), pr)))))"

section \<open>Facts about the command table\<close>

lemma cmd_table_response:
  "cmd_needsResponse c \<Longrightarrow> cmd_isRequest c \<and> cmd_isResponse (responseCommand c)"
  by (cases c) (simp_all add: cmd_defs)

text \<open>
  The command table is consistent.  No command is both a request and a response; a
  command that needs a response is a request and its response command is a response that
  itself needs none; the response keeps the direction of the transfer (read, write) and
  the need for an exclusive copy, carries data exactly when data flows to the requester,
  and a request that carries data is a write.
\<close>

theorem commandInfo_consistent:
  "(\<forall>c. \<not> (cmd_isRequest c \<and> cmd_isResponse c)) \<and>
   (\<forall>c. cmd_needsResponse c \<longrightarrow>
      cmd_isRequest c \<and> cmd_isResponse (responseCommand c) \<and>
      \<not> cmd_needsResponse (responseCommand c) \<and>
      cmd_isRead (responseCommand c) = cmd_isRead c \<and>
      cmd_isWrite (responseCommand c) = cmd_isWrite c \<and>
      cmd_needsExclusive (responseCommand c) = cmd_needsExclusive c \<and>
      cmd_hasData (responseCommand c) = cmd_isRead c) \<and>
   (\<forall>c. cmd_isRequest c \<and> cmd_hasData c \<longrightarrow> cmd_isWrite c)"
proof (intro conjI allI impI)
  fix c
  show "\<not> (cmd_isRequest c \<and> cmd_isResponse c)" by (cases c) (simp_all add: cmd_defs)
next
  fix c assume "cmd_needsResponse c"
  then show "cmd_isRequest c" "cmd_isResponse (responseCommand c)"
    "\<not> cmd_needsResponse (responseCommand c)"
    "cmd_isRead (responseCommand c) = cmd_isRead c"
    "cmd_isWrite (responseCommand c) = cmd_isWrite c"
    "cmd_needsExclusive (responseCommand c) = cmd_needsExclusive c"
    "cmd_hasData (responseCommand c) = cmd_isRead c"
    by (cases c; simp add: cmd_defs)+
next
  fix c assume "cmd_isRequest c \<and> cmd_hasData c"
  then show "cmd_isWrite c" by (cases c) (simp_all add: cmd_defs)
qed

theorem commandInfo_consistent_witness:
  "cmd_needsResponse HardPFReq \<and> responseCommand HardPFReq = HardPFResp \<and>
   cmd_isRead HardPFResp = cmd_isRead HardPFReq \<and> cmd_hasData HardPFResp = cmd_isRead HardPFReq"
proof -
  have h: "cmd_needsResponse HardPFReq" and r: "responseCommand HardPFReq = HardPFResp"
    by (simp_all add: cmd_defs)
  show ?thesis using commandInfo_consistent h r by metis
qed

section \<open>Facts about packets\<close>

lemma Packet_new_simps [simp]:
  "p_cmd (Packet_new t r c d) = c" "p_req (Packet_new t r c d) = r"
  "p_dest (Packet_new t r c d) = d" "p_data (Packet_new t r c d) = None"
  "p_time (Packet_new t r c d) = t"
  by (simp_all add: Packet_new_def Packet_base_def Let_def)

lemma Packet_new_addr:
  "req_hasPaddr r \<Longrightarrow> getAddr (Packet_new t r c d) = Inr (r_paddr r)"
  "req_hasSize r \<Longrightarrow> getSize (Packet_new t r c d) = Inr (word_of_int (r_size r))"
  by (auto simp: Packet_new_def Packet_base_def Let_def getAddr_def getSize_def flag_simps
      pkt_flag_defs)

lemma getAddr_Inr: "getAddr p = Inr a \<longleftrightarrow> flags_isSet (p_flags p) PKT_VALID_ADDR \<and> a = p_addr p"
  by (auto simp: getAddr_def res_simps)

lemma makeResponse_ok:
  assumes "makeResponse p = Inr p'"
  shows "pkt_needsResponse p" "p_cmd p' = responseCommand (p_cmd p)" "p_origCmd p' = p_cmd p"
    "\<not> isExpressSnoop p'" "\<not> isSrcValid p'" "isDestValid p' = isSrcValid p" "p_dest p' = p_src p"
    "p_data p' = p_data p" "p_addr p' = p_addr p" "p_size p' = p_size p"
    "p_req p' = p_req p" "p_senderState p' = p_senderState p"
    "sharedAsserted p' = sharedAsserted p" "memInhibitAsserted p' = memInhibitAsserted p"
  using assms
  by (auto simp: makeResponse_def res_simps Let_def snoop_defs isSrcValid_def isDestValid_def
      flag_simps pkt_flag_defs)

lemma makeResponse_total:
  "pkt_needsResponse p \<Longrightarrow> \<exists>p'. makeResponse p = Inr p'"
  using cmd_table_response [of "p_cmd p"]
  by (simp add: makeResponse_def pkt_query_defs Let_def)

text \<open>
  A request that was answered with a network nack can be sent again.  Turning a
  request that needs a response into a response always succeeds, marking that response
  nacked succeeds, and \<open>reinitNacked\<close> then restores the original command and routes
  the packet by address again, leaving address, size, data and request as they were.
\<close>

theorem nack_resend_roundtrip:
  assumes "pkt_needsResponse p"
  shows "\<exists>q r s. makeResponse p = Inr q \<and> setNacked q = Inr r \<and> reinitNacked r = Inr s \<and>
           pkt_isResponse q \<and> wasNacked r \<and>
           p_cmd s = p_cmd p \<and> getDest s = Inr Broadcast \<and> p_addr s = p_addr p \<and>
           p_size s = p_size p \<and> p_data s = p_data p \<and> p_req s = p_req p"
proof -
  obtain q where q: "makeResponse p = Inr q" using makeResponse_total [OF assms] by blast
  note qf = makeResponse_ok [OF q]
  have resp: "pkt_isResponse q"
    using assms qf(2) cmd_table_response by (simp add: pkt_query_defs)
  define r where "r = q\<lparr>p_cmd := NetworkNackError\<rparr>"
  have r: "setNacked q = Inr r" using resp by (simp add: setNacked_def r_def)
  define s where "s = setDest Broadcast (r\<lparr>p_cmd := p_origCmd r\<rparr>)"
  have s: "reinitNacked r = Inr s"
    using assms qf(3) by (simp add: reinitNacked_def wasNacked_def r_def s_def pkt_query_defs)
  have "p_cmd s = p_cmd p" "getDest s = Inr Broadcast" "p_addr s = p_addr p"
    "p_size s = p_size p" "p_data s = p_data p" "p_req s = p_req p"
    using qf by (simp_all add: s_def r_def setDest_def getDest_def flag_simps pkt_flag_defs)
  with q r s resp show ?thesis by (auto simp: r_def wasNacked_def)
qed

definition example_read :: Packet where
  "example_read = Packet_new 0 (Request_new\<lparr>r_paddr := 0x1040, r_size := 8, r_privateFlags := 3\<rparr>)
     ReadReq Broadcast"

theorem nack_resend_roundtrip_witness:
  "pkt_needsResponse example_read \<and>
   (\<exists>q r s. makeResponse example_read = Inr q \<and> setNacked q = Inr r \<and> reinitNacked r = Inr s \<and>
      p_cmd s = ReadReq \<and> p_addr s = 0x1040)"
proof -
  have h: "pkt_needsResponse example_read"
    by (simp add: example_read_def pkt_query_defs cmd_defs)
  have "p_cmd example_read = ReadReq" "p_addr example_read = 0x1040"
    by (simp_all add: example_read_def Packet_new_def Packet_base_def Let_def req_hasPaddr_def
        req_flag_defs flag_simps)
  then show ?thesis using h nack_resend_roundtrip [OF h] by auto
qed

section \<open>Facts about payloads\<close>

lemma memcpy_at_ok:
  "memcpy_at dst doff src soff n = Inr d \<longleftrightarrow>
     doff + n \<le> length dst \<and> soff + n \<le> length src \<and>
     d = take doff dst @ take n (drop soff src) @ drop (doff + n) dst"
  by (auto simp: memcpy_at_def res_simps)

lemma memcpy_at_length: "memcpy_at dst doff src soff n = Inr d \<Longrightarrow> length d = length dst"
  by (auto simp: memcpy_at_ok)

lemma memcpy_at_nth:
  assumes "memcpy_at dst doff src soff n = Inr d" and "i < length dst"
  shows "d ! i = (if doff \<le> i \<and> i < doff + n then src ! (soff + (i - doff)) else dst ! i)"
  using assms by (auto simp: memcpy_at_ok nth_append)

lemma memcpy_at_total:
  "doff + n \<le> length dst \<Longrightarrow> soff + n \<le> length src \<Longrightarrow>
     \<exists>d. memcpy_at dst doff src soff n = Inr d"
  by (simp add: memcpy_at_def)

text \<open>
  Payload round trip between a packet and a cache block.  If writing a packet's bytes
  into a block succeeds, then reading the block back into a packet of the same address
  and size returns exactly those bytes, and every byte of the block outside the packet's
  range is unchanged.
\<close>

theorem block_data_roundtrip:
  assumes w: "writeDataToBlock blk blkSize p = Inr blk'"
    and len: "getSize p = Inr n" "p_data p = Some d" "length d = unat n"
  shows "setDataFromBlock blk' blkSize p = Inr p \<and> length blk' = length blk \<and>
    (\<forall>off i. getOffset blkSize p = Inr off \<longrightarrow> i < length blk \<longrightarrow>
       \<not> (unat off \<le> i \<and> i < unat off + unat n) \<longrightarrow> blk' ! i = blk ! i)"
proof -
  from w obtain off where off: "getOffset blkSize p = Inr off"
    and "writeData blk (unat off) p = Inr blk'"
    by (auto simp: writeDataToBlock_def res_simps)
  then have ptr: "getPtr p = Inr d" and cp: "memcpy_at blk (unat off) d 0 (unat n) = Inr blk'"
    using len by (auto simp: writeData_def res_simps getPtr_def)
  have "memcpy_at d 0 blk' (unat off) (unat n) = Inr d"
    using cp len(3) by (auto simp: memcpy_at_ok)
  then have "setDataFromBlock blk' blkSize p = Inr p"
    using off ptr len(1,2) by (simp add: setDataFromBlock_def setData_def)
  moreover have "length blk' = length blk" using cp by (rule memcpy_at_length)
  moreover have "blk' ! i = blk ! i" if "i < length blk" "\<not> (unat off \<le> i \<and> i < unat off + unat n)"
    for i using memcpy_at_nth [OF cp that(1)] that(2) by simp
  ultimately show ?thesis using off by simp
qed

definition example_write :: Packet where
  "example_write =
     (Packet_new 0 (Request_new\<lparr>r_paddr := 2, r_size := 2, r_privateFlags := 3\<rparr>) WriteReq Broadcast)
       \<lparr>p_data := Some [Some 7, Some 9], p_flags := 0x2F00\<rparr>"

theorem block_data_roundtrip_witness:
  "\<exists>blk'. writeDataToBlock [Some 0, Some 0, Some 0, Some 0] 4 example_write = Inr blk' \<and>
     setDataFromBlock blk' 4 example_write = Inr example_write"
proof -
  have d: "p_data example_write = Some [Some 7, Some 9]" "getSize example_write = Inr 2"
    "getAddr example_write = Inr 2" "getPtr example_write = Inr [Some 7, Some 9]"
    by (simp_all add: example_write_def Packet_new_def Packet_base_def Let_def getSize_def
        getAddr_def getPtr_def req_hasSize_def req_hasPaddr_def flag_simps pkt_flag_defs req_flag_defs)
  have w: "writeDataToBlock [Some 0, Some 0, Some 0, Some 0] 4 example_write = Inr [Some 0, Some 0, Some 7, Some 9]"
    by (simp add: writeDataToBlock_def writeData_def getOffset_def d memcpy_at_def)
  show ?thesis using w block_data_roundtrip [OF w d(2,1)] by auto
qed

end
