(* ===== verification/Mshr.thy ===== *)
theory Mshr
  imports Packet
begin

unbundle bit_operations_syntax

text \<open>
  Miss status holding registers, \<open>mem/cache/mshr.{hh,cc}\<close>.

  A packet's \<open>senderState\<close> may point to a register of the cache above, whose
  \<open>downstreamPending\<close> flag is set and cleared from here; so all the registers of the
  memory hierarchy live in one heap, a list, and a \<open>MSHR*\<close> is an index into it.  A
  \<open>senderState\<close> outside the heap is not a register (\<open>dynamic_cast\<close> gives NULL).
  Packets are values: a packet of a target is the copy the register holds, and the
  packet a snoop hands in is returned with the flags the method sets.
\<close>

section \<open>Targets\<close>

datatype Source = FromCPU | FromSnoop | FromPrefetcher

record Target =
  t_recvTime :: Tick
  t_readyTime :: Tick
  t_order :: int
  t_pkt :: Packet
  t_source :: Source
  t_markedPending :: bool
  t_needsResponse :: bool
  t_reqNull :: bool

definition Target_new :: "Tick \<Rightarrow> Packet \<Rightarrow> Tick \<Rightarrow> int \<Rightarrow> Source \<Rightarrow> bool \<Rightarrow> Target" where
  "Target_new curTick pkt readyTime order source markedPending =
     \<lparr>t_recvTime = curTick, t_readyTime = readyTime, t_order = order, t_pkt = pkt,
      t_source = source, t_markedPending = markedPending,
      t_needsResponse = pkt_needsResponse pkt, t_reqNull = False\<rparr>"

record TargetList =
  tl_list :: "Target list"
  tl_needsExclusive :: bool
  tl_hasUpgrade :: bool

definition TargetList_new :: TargetList where
  "TargetList_new = \<lparr>tl_list = [], tl_needsExclusive = False, tl_hasUpgrade = False\<rparr>"

definition tl_resetFlags :: "TargetList \<Rightarrow> TargetList" where
  "tl_resetFlags l = l\<lparr>tl_needsExclusive := False, tl_hasUpgrade := False\<rparr>"

definition tl_isReset :: "TargetList \<Rightarrow> bool" where
  "tl_isReset l \<longleftrightarrow> \<not> tl_needsExclusive l \<and> \<not> tl_hasUpgrade l"

section \<open>Registers\<close>

record MSHR =
  m_readyTime :: Tick
  m_order :: int
  m_addr :: Addr
  m_size :: int
  m_inService :: bool
  m_isForward :: bool
  m_isUncacheable :: bool
  m_downstreamPending :: bool
  m_pendingInvalidate :: bool
  m_pendingShared :: bool
  m_threadNum :: int
  m_ntargets :: "16 word"
  m_targets :: TargetList
  m_deferredTargets :: TargetList

type_synonym heap = "MSHR list"

text \<open>The constructor sets five fields; the others are given the value 0.\<close>

definition MSHR_new :: MSHR where
  "MSHR_new = \<lparr>m_readyTime = 0, m_order = 0, m_addr = 0, m_size = 0, m_inService = False,
     m_isForward = False, m_isUncacheable = False, m_downstreamPending = False,
     m_pendingInvalidate = False, m_pendingShared = False, m_threadNum = InvalidThreadID,
     m_ntargets = 0, m_targets = TargetList_new, m_deferredTargets = TargetList_new\<rparr>"

definition upd_mshr :: "nat \<Rightarrow> (MSHR \<Rightarrow> MSHR) \<Rightarrow> heap \<Rightarrow> heap" where
  "upd_mshr i f h = h[i := f (h ! i)]"

definition sender_mshr :: "Packet \<Rightarrow> heap \<Rightarrow> nat option" where
  "sender_mshr pkt h =
     (case p_senderState pkt of None \<Rightarrow> None | Some s \<Rightarrow> if s < length h then Some s else None)"

definition m_needsExclusive :: "MSHR \<Rightarrow> bool" where
  "m_needsExclusive m = tl_needsExclusive (m_targets m)"

definition getNumTargets :: "MSHR \<Rightarrow> int" where
  "getNumTargets m = uint (m_ntargets m)"

definition hasTargets :: "MSHR \<Rightarrow> bool" where
  "hasTargets m \<longleftrightarrow> tl_list (m_targets m) \<noteq> []"

definition getTarget :: "MSHR \<Rightarrow> Target res" where
  "getTarget m = guard_res AssertFail (hasTargets m) (Inr (hd (tl_list (m_targets m))))"

definition popTarget :: "MSHR \<Rightarrow> MSHR res" where
  "popTarget m =
     (case tl_list (m_targets m) of
        [] \<Rightarrow> Inl Undefined
      | _ # ts \<Rightarrow> Inr (m\<lparr>m_ntargets := m_ntargets m - 1,
                          m_targets := (m_targets m)\<lparr>tl_list := ts\<rparr>\<rparr>))"

definition isForwardNoResponse :: "MSHR \<Rightarrow> bool res" where
  "isForwardNoResponse m =
     (if getNumTargets m \<noteq> 1 then Inr False
      else bind_res (getTarget m) (\<lambda>tgt. Inr (t_source tgt = FromCPU \<and> \<not> t_needsResponse tgt)))"

section \<open>Operations on target lists\<close>

definition tl_push :: "Tick \<Rightarrow> Packet \<Rightarrow> Tick \<Rightarrow> int \<Rightarrow> Source \<Rightarrow> bool \<Rightarrow> TargetList \<Rightarrow> TargetList" where
  "tl_push curTick pkt readyTime order source markPending l =
     (let l = (if source \<noteq> FromSnoop
                then l\<lparr>tl_needsExclusive := tl_needsExclusive l \<or> pkt_needsExclusive pkt,
                        tl_hasUpgrade := tl_hasUpgrade l \<or> pkt_isUpgrade pkt\<rparr>
                else l)
      in l\<lparr>tl_list := tl_list l @ [Target_new curTick pkt readyTime order source markPending]\<rparr>)"

definition mark_upstream :: "Packet \<Rightarrow> heap \<Rightarrow> heap res" where
  "mark_upstream pkt h =
     (case sender_mshr pkt h of
        None \<Rightarrow> Inr h
      | Some s \<Rightarrow> guard_res AssertFail (\<not> m_downstreamPending (h ! s))
                    (Inr (upd_mshr s (\<lambda>m. m\<lparr>m_downstreamPending := True\<rparr>) h)))"

text \<open>\<open>TargetList::add\<close> on the target list of register \<open>i\<close> selected by get and put.\<close>

definition add_target ::
  "Tick \<Rightarrow> nat \<Rightarrow> bool \<Rightarrow> Packet \<Rightarrow> Tick \<Rightarrow> int \<Rightarrow> Source \<Rightarrow> bool \<Rightarrow> heap \<Rightarrow> heap res" where
  "add_target curTick i deferred pkt readyTime order source markPending h =
     bind_res (if markPending then mark_upstream pkt h else Inr h) (\<lambda>h.
       Inr (upd_mshr i (\<lambda>m. if deferred
              then m\<lparr>m_deferredTargets := tl_push curTick pkt readyTime order source markPending (m_deferredTargets m)\<rparr>
              else m\<lparr>m_targets := tl_push curTick pkt readyTime order source markPending (m_targets m)\<rparr>) h))"

definition replace_upgrade :: "Target \<Rightarrow> Target" where
  "replace_upgrade t =
     (if p_cmd (t_pkt t) = UpgradeReq then t\<lparr>t_pkt := (t_pkt t)\<lparr>p_cmd := ReadExReq\<rparr>\<rparr>
      else if p_cmd (t_pkt t) = SCUpgradeReq then t\<lparr>t_pkt := (t_pkt t)\<lparr>p_cmd := SCUpgradeFailReq\<rparr>\<rparr>
      else t)"

definition replaceUpgrades :: "TargetList \<Rightarrow> TargetList" where
  "replaceUpgrades l =
     (if \<not> tl_hasUpgrade l then l
      else l\<lparr>tl_list := map replace_upgrade (tl_list l), tl_hasUpgrade := False\<rparr>)"

text \<open>
  \<open>TargetList::clearDownstreamPending\<close> calls itself on the targets of the registers it
  clears.  The recursion is depth first, so it is a loop over a list of targets still to
  visit; it ends because every register it enters has its flag cleared.
\<close>

function clear_pending :: "Target list \<Rightarrow> heap \<Rightarrow> heap res" where
  "clear_pending [] h = Inr h"
| "clear_pending (t # ts) h =
     (if t_markedPending t
      then (case sender_mshr (t_pkt t) h of
              None \<Rightarrow> clear_pending ts h
            | Some s \<Rightarrow>
                if m_downstreamPending (h ! s)
                then clear_pending (tl_list (m_targets (h ! s)) @ ts)
                       (upd_mshr s (\<lambda>m. m\<lparr>m_downstreamPending := False\<rparr>) h)
                else Inl AssertFail)
      else clear_pending ts h)"
  by pat_completeness auto

lemma clear_flag_decreases:
  assumes "s < length h" and "m_downstreamPending (h ! s)"
  shows "length (filter m_downstreamPending (upd_mshr s (\<lambda>m. m\<lparr>m_downstreamPending := False\<rparr>) h)) <
    length (filter m_downstreamPending h)"
proof -
  have h: "h = take s h @ h ! s # drop (Suc s) h" using assms(1) by (rule id_take_nth_drop)
  have "upd_mshr s (\<lambda>m. m\<lparr>m_downstreamPending := False\<rparr>) h =
      take s h @ (h ! s)\<lparr>m_downstreamPending := False\<rparr> # drop (Suc s) h"
    using assms(1) by (simp add: upd_mshr_def upd_conv_take_nth_drop)
  moreover have "length (filter m_downstreamPending h) =
      length (filter m_downstreamPending (take s h)) + 1 + length (filter m_downstreamPending (drop (Suc s) h))"
    using assms(2) by (subst h) simp
  ultimately show ?thesis by simp
qed

lemma sender_mshr_less: "sender_mshr pkt h = Some s \<Longrightarrow> s < length h"
  by (auto simp: sender_mshr_def split: option.splits if_splits)

termination clear_pending
  by (relation "measures [\<lambda>(ts, h). length (filter m_downstreamPending h), \<lambda>(ts, h). length ts]")
    (auto simp: clear_flag_decreases dest: sender_mshr_less)

section \<open>Operations on registers\<close>

definition mshr_allocate :: "Tick \<Rightarrow> nat \<Rightarrow> Addr \<Rightarrow> int \<Rightarrow> Packet \<Rightarrow> Tick \<Rightarrow> int \<Rightarrow> heap \<Rightarrow> heap res" where
  "mshr_allocate curTick i addr sz target whenReady order h =
     (let h = upd_mshr i (\<lambda>m. m\<lparr>m_addr := addr, m_size := sz, m_readyTime := whenReady, m_order := order,
                m_isForward := False, m_isUncacheable := req_isUncacheable (p_req target),
                m_inService := False, m_downstreamPending := False, m_threadNum := 0, m_ntargets := 1\<rparr>) h
      in guard_res AssertFail (tl_isReset (m_targets (h ! i)))
         (let source = (if p_cmd target = HardPFReq then FromPrefetcher else FromCPU)
          in bind_res (add_target curTick i False target whenReady order source True h) (\<lambda>h.
             guard_res AssertFail (tl_isReset (m_deferredTargets (h ! i)))
               (Inr (upd_mshr i (\<lambda>m. m\<lparr>m_pendingInvalidate := False, m_pendingShared := False\<rparr>) h)))))"

definition mshr_clearDownstreamPending :: "nat \<Rightarrow> heap \<Rightarrow> heap res" where
  "mshr_clearDownstreamPending i h =
     guard_res AssertFail (m_downstreamPending (h ! i))
       (let h = upd_mshr i (\<lambda>m. m\<lparr>m_downstreamPending := False\<rparr>) h
        in clear_pending (tl_list (m_targets (h ! i))) h)"

definition mshr_markInService :: "nat \<Rightarrow> heap \<Rightarrow> (bool \<times> heap) res" where
  "mshr_markInService i h =
     guard_res AssertFail (\<not> m_inService (h ! i))
     (bind_res (isForwardNoResponse (h ! i)) (\<lambda>fwd.
        if fwd
        then guard_res AssertFail (getNumTargets (h ! i) = 1)
             (bind_res (popTarget (h ! i)) (\<lambda>m. Inr (True, h[i := m])))
        else (let h = upd_mshr i (\<lambda>m. m\<lparr>m_inService := True\<rparr>) h
              in if \<not> m_downstreamPending (h ! i)
                 then bind_res (clear_pending (tl_list (m_targets (h ! i))) h) (\<lambda>h. Inr (False, h))
                 else Inr (False, h))))"

definition mshr_deallocate :: "MSHR \<Rightarrow> MSHR res" where
  "mshr_deallocate m =
     guard_res AssertFail (tl_list (m_targets m) = [])
     (let m = m\<lparr>m_targets := tl_resetFlags (m_targets m)\<rparr>
      in guard_res AssertFail (tl_isReset (m_deferredTargets m))
         (guard_res AssertFail (m_ntargets m = 0) (Inr (m\<lparr>m_inService := False\<rparr>))))"

definition mshr_allocateTarget :: "Tick \<Rightarrow> nat \<Rightarrow> Packet \<Rightarrow> Tick \<Rightarrow> int \<Rightarrow> heap \<Rightarrow> heap res" where
  "mshr_allocateTarget curTick i pkt whenReady order h =
     guard_res AssertFail (p_cmd pkt \<noteq> HardPFReq)
     (let m = h ! i
      in bind_res
           (if m_inService m \<and>
               (tl_list (m_deferredTargets m) \<noteq> [] \<or> m_pendingInvalidate m \<or>
                (\<not> tl_needsExclusive (m_targets m) \<and> pkt_needsExclusive pkt))
            then add_target curTick i True pkt whenReady order FromCPU True h
            else add_target curTick i False pkt whenReady order FromCPU (\<not> m_inService m) h)
           (\<lambda>h. Inr (upd_mshr i (\<lambda>m. m\<lparr>m_ntargets := m_ntargets m + 1\<rparr>) h)))"

definition null_last_req :: "TargetList \<Rightarrow> TargetList" where
  "null_last_req l = l\<lparr>tl_list := butlast (tl_list l) @ [(last (tl_list l))\<lparr>t_reqNull := True\<rparr>]\<rparr>"

definition mshr_handleSnoop :: "Tick \<Rightarrow> nat \<Rightarrow> Packet \<Rightarrow> int \<Rightarrow> heap \<Rightarrow> (bool \<times> Packet \<times> heap) res" where
  "mshr_handleSnoop curTick i pkt order h =
     (let m = h ! i
      in if \<not> m_inService m \<or> (isExpressSnoop pkt \<and> m_downstreamPending m)
         then Inr (False, pkt,
                if pkt_needsExclusive pkt
                then upd_mshr i (\<lambda>m. m\<lparr>m_targets := replaceUpgrades (m_targets m),
                       m_deferredTargets := replaceUpgrades (m_deferredTargets m)\<rparr>) h
                else h)
         else
           (let h = (if pkt_needsExclusive pkt
                     then upd_mshr i (\<lambda>m. m\<lparr>m_deferredTargets := replaceUpgrades (m_deferredTargets m)\<rparr>) h
                     else h);
                m = h ! i
            in if m_pendingInvalidate m then Inr (True, pkt, h)
               else if tl_needsExclusive (m_targets m) \<or> pkt_needsExclusive pkt
               then bind_res (add_target curTick i False (Packet_copy curTick pkt True) curTick order FromSnoop
                                (m_downstreamPending m \<and> tl_needsExclusive (m_targets m)) h) (\<lambda>h.
                    let h = upd_mshr i (\<lambda>m. m\<lparr>m_ntargets := m_ntargets m + 1\<rparr>) h;
                        (pkt', h) = (if tl_needsExclusive (m_targets (h ! i))
                                     then (setSupplyExclusive (assertMemInhibit pkt), h)
                                     else (pkt, upd_mshr i (\<lambda>m. m\<lparr>m_targets := null_last_req (m_targets m)\<rparr>) h));
                        h = (if pkt_needsExclusive pkt
                             then upd_mshr i (\<lambda>m. m\<lparr>m_pendingInvalidate := True\<rparr>) h else h)
                    in Inr (True, pkt', h))
               else Inr (True, assertShared pkt, upd_mshr i (\<lambda>m. m\<lparr>m_pendingShared := True\<rparr>) h)))"

definition mshr_promoteDeferredTargets :: "Tick \<Rightarrow> MSHR \<Rightarrow> (bool \<times> MSHR) res" where
  "mshr_promoteDeferredTargets curTick m =
     guard_res AssertFail (tl_list (m_targets m) = [])
     (case tl_list (m_deferredTargets m) of
        [] \<Rightarrow> Inr (False, m)
      | t # ts \<Rightarrow>
          let m = m\<lparr>m_targets := m_deferredTargets m, m_deferredTargets := m_targets m\<rparr>
          in guard_res AssertFail (int (length (t # ts)) = uint (m_ntargets m))
             (Inr (True, m\<lparr>m_deferredTargets := tl_resetFlags (m_deferredTargets m),
                m_pendingInvalidate := False, m_pendingShared := False, m_order := t_order t,
                m_readyTime := max curTick (t_readyTime t)\<rparr>)))"

definition mshr_handleFill :: "nat \<Rightarrow> Packet \<Rightarrow> heap \<Rightarrow> (Packet \<times> heap) res" where
  "mshr_handleFill i pkt h =
     (let m = h ! i;
          pkt = (if m_pendingShared m then assertShared pkt else pkt)
      in if \<not> sharedAsserted pkt \<and> \<not> m_pendingInvalidate m \<and> tl_needsExclusive (m_deferredTargets m)
         then guard_res AssertFail (\<not> tl_needsExclusive (m_targets m))
              (guard_res AssertFail (\<not> m_downstreamPending m)
                 (let h = upd_mshr i (\<lambda>m. m\<lparr>m_targets := (m_targets m)\<lparr>tl_needsExclusive := True\<rparr>\<rparr>) h
                  in bind_res (clear_pending (tl_list (m_deferredTargets m)) h) (\<lambda>h.
                     Inr (pkt, upd_mshr i (\<lambda>m. m\<lparr>
                       m_targets := (m_targets m)\<lparr>tl_list := tl_list (m_targets m) @ tl_list (m_deferredTargets m)\<rparr>,
                       m_deferredTargets := tl_resetFlags ((m_deferredTargets m)\<lparr>tl_list := []\<rparr>)\<rparr>) h))))
         else Inr (pkt, h))"

fun tl_checkFunctional :: "Packet \<Rightarrow> Target list \<Rightarrow> (bool \<times> Packet \<times> Target list) res" where
  "tl_checkFunctional pkt [] = Inr (False, pkt, [])"
| "tl_checkFunctional pkt (t # ts) =
     bind_res (checkFunctional_pkt pkt (t_pkt t)) (\<lambda>(done, pkt, other, _).
       let t = t\<lparr>t_pkt := other\<rparr>
       in if done then Inr (True, pkt, t # ts)
          else bind_res (tl_checkFunctional pkt ts) (\<lambda>(b, pkt, ts). Inr (b, pkt, t # ts)))"

definition mshr_checkFunctional :: "Packet \<Rightarrow> MSHR \<Rightarrow> (bool \<times> Packet \<times> MSHR) res" where
  "mshr_checkFunctional pkt m =
     (if pkt_isPrint pkt
      then bind_res (checkFunctional pkt (m_addr m) (m_size m) None) (\<lambda>(_, pkt, _, _). Inr (False, pkt, m))
      else bind_res (tl_checkFunctional pkt (tl_list (m_targets m))) (\<lambda>(b, pkt, ts).
           let m = m\<lparr>m_targets := (m_targets m)\<lparr>tl_list := ts\<rparr>\<rparr>
           in if b then Inr (True, pkt, m)
              else bind_res (tl_checkFunctional pkt (tl_list (m_deferredTargets m))) (\<lambda>(b, pkt, ts).
                   Inr (b, pkt, m\<lparr>m_deferredTargets := (m_deferredTargets m)\<lparr>tl_list := ts\<rparr>\<rparr>))))"

section \<open>Heaps up to the pending flags\<close>

text \<open>
  Marking and clearing changes nothing but the \<open>downstreamPending\<close> flags; \<open>erase_dp\<close>
  forgets them, so two heaps with equal images agree on everything else.
\<close>

definition erase_dp :: "heap \<Rightarrow> heap" where
  "erase_dp h = map (\<lambda>m. m\<lparr>m_downstreamPending := False\<rparr>) h"

lemma length_erase_dp [simp]: "length (erase_dp h) = length h"
  by (simp add: erase_dp_def)

lemma length_upd_mshr [simp]: "length (upd_mshr i f h) = length h"
  by (simp add: upd_mshr_def)

lemma nth_upd_mshr: "i < length h \<Longrightarrow> upd_mshr i f h ! j = (if j = i then f (h ! i) else h ! j)"
  by (simp add: upd_mshr_def)

lemma erase_upd_dp [simp]: "erase_dp (upd_mshr s (\<lambda>m. m\<lparr>m_downstreamPending := b\<rparr>) h) = erase_dp h"
proof (cases "s < length h")
  case True
  then show ?thesis by (simp add: erase_dp_def upd_mshr_def map_update list_update_same_conv)
next
  case False
  then show ?thesis by (simp add: upd_mshr_def not_less list_update_beyond)
qed

lemma erase_dp_nth:
  assumes "erase_dp h' = erase_dp h" and "i < length h"
  shows "(h' ! i)\<lparr>m_downstreamPending := False\<rparr> = (h ! i)\<lparr>m_downstreamPending := False\<rparr>"
proof -
  have "length h' = length h" using assms(1) by (metis length_erase_dp)
  then show ?thesis using arg_cong [OF assms(1), of "\<lambda>xs. xs ! i"] assms(2) by (simp add: erase_dp_def)
qed

lemma erase_dp_upd:
  assumes "erase_dp h' = erase_dp h"
    and "\<And>m. (f m)\<lparr>m_downstreamPending := False\<rparr> = (f (m\<lparr>m_downstreamPending := False\<rparr>))\<lparr>m_downstreamPending := False\<rparr>"
  shows "erase_dp (upd_mshr i f h') = erase_dp (upd_mshr i f h)"
proof (cases "i < length h")
  case True
  have "(f (h' ! i))\<lparr>m_downstreamPending := False\<rparr> = (f (h ! i))\<lparr>m_downstreamPending := False\<rparr>"
    using assms(2) erase_dp_nth [OF assms(1) True] by metis
  then show ?thesis using assms(1) by (simp add: upd_mshr_def erase_dp_def map_update)
next
  case False
  moreover have "\<not> i < length h'" using assms(1) False by (metis length_erase_dp)
  ultimately show ?thesis using assms(1) by (simp add: upd_mshr_def not_less list_update_beyond)
qed

lemma mark_upstream_erase: "mark_upstream pkt h = Inr h' \<Longrightarrow> erase_dp h' = erase_dp h"
  by (auto simp: mark_upstream_def res_simps split: option.splits)

lemma clear_pending_erase: "clear_pending ts h = Inr h' \<Longrightarrow> erase_dp h' = erase_dp h"
proof (induction ts h rule: clear_pending.induct)
  case (2 t ts h)
  show ?case
  proof (cases "t_markedPending t")
    case True
    show ?thesis
    proof (cases "sender_mshr (t_pkt t) h")
      case None
      then show ?thesis using 2(1) [OF True None] 2(4) True by simp
    next
      case (Some s)
      then show ?thesis using 2(2) [OF True Some] 2(4) True by (simp split: if_splits)
    qed
  next
    case False
    then show ?thesis using 2(3) 2(4) by simp
  qed
qed simp

definition push_in :: "Tick \<Rightarrow> bool \<Rightarrow> Packet \<Rightarrow> Tick \<Rightarrow> int \<Rightarrow> Source \<Rightarrow> bool \<Rightarrow> MSHR \<Rightarrow> MSHR" where
  "push_in now deferred pkt rt ord src mark m =
     (if deferred then m\<lparr>m_deferredTargets := tl_push now pkt rt ord src mark (m_deferredTargets m)\<rparr>
      else m\<lparr>m_targets := tl_push now pkt rt ord src mark (m_targets m)\<rparr>)"

lemma add_target_eq:
  "add_target now i deferred pkt rt ord src mark h =
     bind_res (if mark then mark_upstream pkt h else Inr h)
       (\<lambda>h. Inr (upd_mshr i (push_in now deferred pkt rt ord src mark) h))"
  unfolding add_target_def push_in_def by simp

lemma push_in_dp:
  "(push_in now d pkt rt ord src mark m)\<lparr>m_downstreamPending := False\<rparr> =
   (push_in now d pkt rt ord src mark (m\<lparr>m_downstreamPending := False\<rparr>))\<lparr>m_downstreamPending := False\<rparr>"
  by (cases m) (simp add: push_in_def)

lemma add_target_erase:
  assumes "add_target now i d pkt rt ord src mark h = Inr h'"
  shows "erase_dp h' = erase_dp (upd_mshr i (push_in now d pkt rt ord src mark) h)"
proof -
  obtain h1 where h1: "(if mark then mark_upstream pkt h else Inr h) = Inr h1"
    "h' = upd_mshr i (push_in now d pkt rt ord src mark) h1"
    using assms by (auto simp: add_target_eq res_simps split: if_splits)
  have "erase_dp h1 = erase_dp h" using h1(1) mark_upstream_erase by (auto split: if_splits)
  then show ?thesis unfolding h1(2) by (rule erase_dp_upd) (rule push_in_dp)
qed

section \<open>Invariant of a register\<close>

text \<open>
  The count is the number of targets, deferred or not; targets are deferred only behind a
  request in service; a list that holds a request for an exclusive copy says so, and the
  deferred list knows its upgrades and has no flag set when it is empty.
\<close>

definition excl_ok :: "TargetList \<Rightarrow> bool" where
  "excl_ok l \<longleftrightarrow> (\<forall>t \<in> set (tl_list l). t_source t \<noteq> FromSnoop \<and> pkt_needsExclusive (t_pkt t) \<longrightarrow> tl_needsExclusive l)"

definition upg_ok :: "TargetList \<Rightarrow> bool" where
  "upg_ok l \<longleftrightarrow> (\<forall>t \<in> set (tl_list l). t_source t \<noteq> FromSnoop \<and> p_cmd (t_pkt t) \<in> {UpgradeReq, SCUpgradeReq} \<longrightarrow> tl_hasUpgrade l)"

definition mshr_ok :: "MSHR \<Rightarrow> bool" where
  "mshr_ok m \<longleftrightarrow>
     m_ntargets m = of_nat (length (tl_list (m_targets m)) + length (tl_list (m_deferredTargets m))) \<and>
     (tl_list (m_deferredTargets m) \<noteq> [] \<longrightarrow> m_inService m) \<and>
     (tl_list (m_deferredTargets m) = [] \<longrightarrow> tl_isReset (m_deferredTargets m)) \<and>
     excl_ok (m_targets m) \<and> excl_ok (m_deferredTargets m) \<and> upg_ok (m_deferredTargets m)"

lemma mshr_ok_dp [simp]: "mshr_ok (m\<lparr>m_downstreamPending := b\<rparr>) = mshr_ok m"
  by (simp add: mshr_ok_def)

lemma mshr_ok_new: "mshr_ok MSHR_new"
  by (simp add: mshr_ok_def MSHR_new_def TargetList_new_def tl_isReset_def excl_ok_def upg_ok_def)

lemma mshr_ok_erase:
  assumes "erase_dp h' = erase_dp h" and "i < length h"
  shows "mshr_ok (h' ! i) = mshr_ok (h ! i)"
  using erase_dp_nth [OF assms] by (metis mshr_ok_dp)

lemma tl_push_list [simp]:
  "tl_list (tl_push now pkt rt ord src mark l) = tl_list l @ [Target_new now pkt rt ord src mark]"
  by (simp add: tl_push_def Let_def)

lemma tl_push_ok:
  shows "excl_ok l \<Longrightarrow> excl_ok (tl_push now pkt rt ord src mark l)"
    and "upg_ok l \<Longrightarrow> upg_ok (tl_push now pkt rt ord src mark l)"
  by (auto simp: excl_ok_def upg_ok_def tl_push_def Let_def Target_new_def pkt_isUpgrade_def cmd_defs)

lemma replace_upgrade_keeps:
  "t_source (replace_upgrade t) = t_source t"
  "pkt_needsExclusive (t_pkt (replace_upgrade t)) = pkt_needsExclusive (t_pkt t)"
  "p_cmd (t_pkt (replace_upgrade t)) \<notin> {UpgradeReq, SCUpgradeReq}"
  by (auto simp: replace_upgrade_def pkt_needsExclusive_def cmd_defs)

lemma replaceUpgrades_ok:
  "excl_ok l \<Longrightarrow> excl_ok (replaceUpgrades l)" "upg_ok l \<Longrightarrow> upg_ok (replaceUpgrades l)"
  "tl_needsExclusive (replaceUpgrades l) = tl_needsExclusive l"
  "length (tl_list (replaceUpgrades l)) = length (tl_list l)"
  "tl_list (replaceUpgrades l) = [] \<longleftrightarrow> tl_list l = []" "tl_isReset l \<Longrightarrow> tl_isReset (replaceUpgrades l)"
  using replace_upgrade_keeps
  by (auto simp: excl_ok_def upg_ok_def replaceUpgrades_def tl_isReset_def)

lemma mshr_ok_replace:
  assumes "mshr_ok m"
  shows "mshr_ok (m\<lparr>m_targets := replaceUpgrades (m_targets m)\<rparr>)"
    "mshr_ok (m\<lparr>m_deferredTargets := replaceUpgrades (m_deferredTargets m)\<rparr>)"
  using assms by (simp_all add: mshr_ok_def replaceUpgrades_ok)

section \<open>What the operations keep\<close>

text \<open>
  The common shape: one register changes, well formed afterwards and in service as before,
  and of the others at most the pending flags.
\<close>

definition reg_upd :: "nat \<Rightarrow> heap \<Rightarrow> heap \<Rightarrow> bool" where
  "reg_upd i h h' \<longleftrightarrow> length h' = length h \<and>
     (\<forall>j < length h. j \<noteq> i \<longrightarrow> (h' ! j)\<lparr>m_downstreamPending := False\<rparr> = (h ! j)\<lparr>m_downstreamPending := False\<rparr>) \<and>
     mshr_ok (h' ! i) \<and> m_inService (h' ! i) = m_inService (h ! i)"

lemma reg_updI:
  assumes "erase_dp h' = erase_dp (upd_mshr i f h)" and "i < length h" and "mshr_ok (f (h ! i))"
    and "m_inService (f (h ! i)) = m_inService (h ! i)"
  shows "reg_upd i h h'"
proof -
  have len: "length h' = length h" using arg_cong [OF assms(1), of length] by simp
  have nth: "(h' ! j)\<lparr>m_downstreamPending := False\<rparr> = (upd_mshr i f h ! j)\<lparr>m_downstreamPending := False\<rparr>"
    if "j < length h" for j
    using erase_dp_nth [OF assms(1)] that by simp
  have i: "(h' ! i)\<lparr>m_downstreamPending := False\<rparr> = (f (h ! i))\<lparr>m_downstreamPending := False\<rparr>"
    using nth [OF assms(2)] assms(2) by (simp add: nth_upd_mshr)
  have "m_inService (h' ! i) = m_inService (f (h ! i))" using arg_cong [OF i, of m_inService] by simp
  moreover have "mshr_ok (h' ! i)" using assms(3) i by (metis mshr_ok_dp)
  ultimately show ?thesis
    using len nth assms(2,4) by (simp add: reg_upd_def nth_upd_mshr)
qed

lemma upd_upd: "upd_mshr i g (upd_mshr i f h) = upd_mshr i (\<lambda>m. g (f m)) h"
  by (cases "i < length h") (simp_all add: upd_mshr_def not_less list_update_beyond)

lemma push_in_ok:
  assumes "mshr_ok m" and "d \<longrightarrow> m_inService m"
  shows "mshr_ok ((push_in now d pkt rt ord src mark m)\<lparr>m_ntargets := m_ntargets m + 1\<rparr>)"
  using assms by (cases d) (auto simp: mshr_ok_def push_in_def tl_push_ok)

definition incr_targets :: "MSHR \<Rightarrow> MSHR" where
  "incr_targets m = m\<lparr>m_ntargets := m_ntargets m + 1\<rparr>"

lemma incr_push:
  assumes "add_target now i d pkt rt ord src mark h = Inr h1"
  shows "erase_dp (upd_mshr i incr_targets h1) =
    erase_dp (upd_mshr i (\<lambda>m. incr_targets (push_in now d pkt rt ord src mark m)) h)"
  using erase_dp_upd [OF add_target_erase [OF assms], of incr_targets i]
  by (simp add: upd_upd incr_targets_def)

lemma allocateTarget_ok:
  assumes "i < length h" and "mshr_ok (h ! i)" and "mshr_allocateTarget now i pkt rt ord h = Inr h'"
  shows "reg_upd i h h'"
proof -
  define d where "d \<longleftrightarrow> m_inService (h ! i) \<and> (tl_list (m_deferredTargets (h ! i)) \<noteq> [] \<or>
    m_pendingInvalidate (h ! i) \<or> (\<not> tl_needsExclusive (m_targets (h ! i)) \<and> pkt_needsExclusive pkt))"
  obtain h1 mark where h1: "add_target now i d pkt rt ord FromCPU mark h = Inr h1" "h' = upd_mshr i incr_targets h1"
    using assms(3) by (cases d) (auto simp: d_def mshr_allocateTarget_def res_simps Let_def incr_targets_def [abs_def])
  have "d \<longrightarrow> m_inService (h ! i)" by (simp add: d_def)
  from push_in_ok [OF assms(2) this, of now pkt rt ord FromCPU mark]
  have "mshr_ok (incr_targets (push_in now d pkt rt ord FromCPU mark (h ! i)))"
    by (cases d) (simp_all add: incr_targets_def push_in_def)
  then show ?thesis
    using incr_push [OF h1(1)] h1(2)
    by (intro reg_updI [OF _ assms(1), where f = "\<lambda>m. incr_targets (push_in now d pkt rt ord FromCPU mark m)"])
      (simp_all add: push_in_def incr_targets_def)
qed

lemma popTarget_ok:
  assumes "mshr_ok m" and "popTarget m = Inr m'"
  shows "mshr_ok m'" "m_inService m' = m_inService m"
  using assms by (auto simp: popTarget_def mshr_ok_def excl_ok_def split: list.splits)

lemma promoteDeferredTargets_ok:
  assumes "mshr_ok m" and "mshr_promoteDeferredTargets now m = Inr (b, m')"
  shows "mshr_ok m'" "m_inService m' = m_inService m"
    "b \<longleftrightarrow> tl_list (m_deferredTargets m) \<noteq> []" "b \<Longrightarrow> tl_list (m_targets m') = tl_list (m_deferredTargets m)"
  using assms
  by (auto simp: mshr_promoteDeferredTargets_def mshr_ok_def excl_ok_def upg_ok_def tl_isReset_def
      tl_resetFlags_def res_simps Let_def split: list.splits)

lemma null_last_req_ok:
  assumes "tl_list l \<noteq> []"
  shows "length (tl_list (null_last_req l)) = length (tl_list l)" "excl_ok (null_last_req l) = excl_ok l"
proof -
  obtain ts t where l: "tl_list l = ts @ [t]" using assms by (metis rev_exhaust)
  show "length (tl_list (null_last_req l)) = length (tl_list l)"
    "excl_ok (null_last_req l) = excl_ok l"
    by (simp_all add: null_last_req_def l excl_ok_def)
qed

lemma handleFill_ok:
  assumes "i < length h" and "mshr_ok (h ! i)" and "mshr_handleFill i pkt h = Inr (pkt', h')"
  shows "reg_upd i h h'"
proof (cases "h' = h")
  case True
  then show ?thesis using assms(2) by (simp add: reg_upd_def)
next
  case False
  define f where "f = (\<lambda>m. m\<lparr>m_targets := (m_targets m)\<lparr>tl_needsExclusive := True\<rparr>\<rparr> :: MSHR)"
  define g where "g = (\<lambda>m. m\<lparr>m_targets := (m_targets m)\<lparr>tl_list := tl_list (m_targets m) @ tl_list (m_deferredTargets m)\<rparr>,
     m_deferredTargets := tl_resetFlags ((m_deferredTargets m)\<lparr>tl_list := []\<rparr>)\<rparr> :: MSHR)"
  obtain h1 where h1: "clear_pending (tl_list (m_deferredTargets (h ! i))) (upd_mshr i f h) = Inr h1"
    "h' = upd_mshr i g h1"
    using assms(3) False by (auto simp: mshr_handleFill_def Let_def res_simps f_def g_def split: if_splits)
  have "erase_dp h' = erase_dp (upd_mshr i (\<lambda>m. g (f m)) h)"
    unfolding h1(2) upd_upd [symmetric]
    by (rule erase_dp_upd [OF clear_pending_erase [OF h1(1)]]) (simp add: g_def)
  moreover have "mshr_ok (g (f (h ! i)))"
    using assms(2) by (auto simp: mshr_ok_def f_def g_def tl_resetFlags_def tl_isReset_def excl_ok_def upg_ok_def)
  ultimately show ?thesis
    by (intro reg_updI [where f = "\<lambda>m. g (f m)", OF _ assms(1)]) (simp_all add: f_def g_def)
qed


lemma reg_upd_simple:
  assumes "i < length h" and "mshr_ok (f (h ! i))" and "m_inService (f (h ! i)) = m_inService (h ! i)"
  shows "reg_upd i h (upd_mshr i f h)"
  by (rule reg_updI [where f = f, OF refl assms])

lemma snoop_add_ok:
  assumes "i < length h" and "mshr_ok (h ! i)"
    and "add_target now i False cp now ord FromSnoop mark h = Inr h1"
    and "\<And>m. g m \<in> {m, m\<lparr>m_targets := null_last_req (m_targets m)\<rparr>}"
    and "\<And>m. (g m)\<lparr>m_downstreamPending := False\<rparr> = (g (m\<lparr>m_downstreamPending := False\<rparr>))\<lparr>m_downstreamPending := False\<rparr>"
  shows "reg_upd i h (upd_mshr i g (upd_mshr i incr_targets h1))"
    "reg_upd i h (upd_mshr i (\<lambda>m. (g m)\<lparr>m_pendingInvalidate := True\<rparr>) (upd_mshr i incr_targets h1))"
proof -
  define F where "F = (\<lambda>m. incr_targets (push_in now False cp now ord FromSnoop mark m))"
  define P where "P = (\<lambda>m. m\<lparr>m_pendingInvalidate := True\<rparr> :: MSHR)"
  have e: "erase_dp (upd_mshr i incr_targets h1) = erase_dp (upd_mshr i F h)"
    unfolding F_def by (rule incr_push [OF assms(3)])
  have ok1: "mshr_ok (F (h ! i))" "tl_list (m_targets (F (h ! i))) \<noteq> []" "m_inService (F (h ! i)) = m_inService (h ! i)"
    using push_in_ok [OF assms(2), of False] by (simp_all add: F_def incr_targets_def push_in_def)
  then have ok: "mshr_ok (g (F (h ! i)))" "m_inService (g (F (h ! i))) = m_inService (h ! i)"
    using assms(4) [of "F (h ! i)"] null_last_req_ok [OF ok1(2)] by (auto simp: mshr_ok_def)
  have e1: "erase_dp (upd_mshr i g (upd_mshr i incr_targets h1)) = erase_dp (upd_mshr i (\<lambda>m. g (F m)) h)"
    using erase_dp_upd [where f = g and i = i, OF e assms(5)] by (simp only: upd_upd)
  show "reg_upd i h (upd_mshr i g (upd_mshr i incr_targets h1))"
    by (rule reg_updI [where f = "\<lambda>m. g (F m)", OF e1 assms(1) ok])
  have "erase_dp (upd_mshr i P (upd_mshr i g (upd_mshr i incr_targets h1))) =
      erase_dp (upd_mshr i P (upd_mshr i (\<lambda>m. g (F m)) h))"
    by (rule erase_dp_upd [OF e1]) (simp add: P_def)
  then have e2: "erase_dp (upd_mshr i (\<lambda>m. P (g m)) (upd_mshr i incr_targets h1)) =
      erase_dp (upd_mshr i (\<lambda>m. P (g (F m))) h)"
    by (simp only: upd_upd)
  show "reg_upd i h (upd_mshr i (\<lambda>m. (g m)\<lparr>m_pendingInvalidate := True\<rparr>) (upd_mshr i incr_targets h1))"
    using reg_updI [where f = "\<lambda>m. P (g (F m))", OF e2 assms(1)] ok by (simp add: P_def mshr_ok_def)
qed


lemma upd_id: "upd_mshr i (\<lambda>m. m) h = h"
  by (simp add: upd_mshr_def)

text \<open>The three outcomes of a snoop that follows the request of the register.\<close>

lemma handleSnoop_cases:
  assumes "\<not> (\<not> m_inService (h ! i) \<or> (isExpressSnoop pkt \<and> m_downstreamPending (h ! i)))"
    and "h1 = (if pkt_needsExclusive pkt
      then upd_mshr i (\<lambda>m. m\<lparr>m_deferredTargets := replaceUpgrades (m_deferredTargets m)\<rparr>) h else h)"
    and "mshr_handleSnoop now i pkt ord h = Inr (b, pkt', h')"
  obtains "m_pendingInvalidate (h1 ! i)" "h' = h1" "b"
  | "\<not> pkt_needsExclusive pkt" "h' = upd_mshr i (\<lambda>m. m\<lparr>m_pendingShared := True\<rparr>) h1" "b" "pkt' = assertShared pkt"
  | cp mark h2 g where "add_target now i False cp now ord FromSnoop mark h1 = Inr h2"
    "g = (\<lambda>m. m) \<or> g = (\<lambda>m. m\<lparr>m_targets := null_last_req (m_targets m)\<rparr>)" "b"
    "h' = upd_mshr i g (upd_mshr i incr_targets h2) \<and> \<not> pkt_needsExclusive pkt \<or>
     h' = upd_mshr i (\<lambda>m. (g m)\<lparr>m_pendingInvalidate := True\<rparr>) (upd_mshr i incr_targets h2) \<and> pkt_needsExclusive pkt"
proof -
  define m where "m = h1 ! i"
  define N where "N = (\<lambda>m. m\<lparr>m_targets := null_last_req (m_targets m)\<rparr> :: MSHR)"
  define P where "P = (\<lambda>m. m\<lparr>m_pendingInvalidate := True\<rparr> :: MSHR)"
  define cp where "cp = Packet_copy now pkt True"
  define mark where "mark \<longleftrightarrow> m_downstreamPending m \<and> tl_needsExclusive (m_targets m)"
  have eq: "mshr_handleSnoop now i pkt ord h =
    (if m_pendingInvalidate m then Inr (True, pkt, h1)
     else if tl_needsExclusive (m_targets m) \<or> pkt_needsExclusive pkt
     then bind_res (add_target now i False cp now ord FromSnoop mark h1) (\<lambda>h2.
       let h3 = upd_mshr i incr_targets h2;
           (pkt', h4) = (if tl_needsExclusive (m_targets (h3 ! i)) then (setSupplyExclusive (assertMemInhibit pkt), h3)
             else (pkt, upd_mshr i N h3));
           h5 = (if pkt_needsExclusive pkt then upd_mshr i P h4 else h4)
       in Inr (True, pkt', h5))
     else Inr (True, assertShared pkt, upd_mshr i (\<lambda>m. m\<lparr>m_pendingShared := True\<rparr>) h1))"
    unfolding mshr_handleSnoop_def Let_def m_def cp_def mark_def N_def P_def incr_targets_def [abs_def]
    unfolding if_not_P [OF assms(1)] unfolding assms(2) [symmetric] by (rule refl)
  consider (1) "m_pendingInvalidate m"
    | (2) "\<not> m_pendingInvalidate m" "\<not> (tl_needsExclusive (m_targets m) \<or> pkt_needsExclusive pkt)"
    | (3) "\<not> m_pendingInvalidate m" "tl_needsExclusive (m_targets m) \<or> pkt_needsExclusive pkt" by blast
  then show thesis
  proof cases
    case 1
    then have "mshr_handleSnoop now i pkt ord h = Inr (True, pkt, h1)" by (simp only: eq if_True)
    then show thesis using assms(3) 1 by (intro that(1)) (simp_all add: m_def)
  next
    case 2
    then have "mshr_handleSnoop now i pkt ord h =
        Inr (True, assertShared pkt, upd_mshr i (\<lambda>m. m\<lparr>m_pendingShared := True\<rparr>) h1)"
      by (simp only: eq if_False)
    then show thesis using assms(3) 2 by (intro that(2)) simp_all
  next
    case 3
    then have "mshr_handleSnoop now i pkt ord h =
      bind_res (add_target now i False cp now ord FromSnoop mark h1) (\<lambda>h2.
       let h3 = upd_mshr i incr_targets h2;
           (pkt', h4) = (if tl_needsExclusive (m_targets (h3 ! i)) then (setSupplyExclusive (assertMemInhibit pkt), h3)
             else (pkt, upd_mshr i N h3));
           h5 = (if pkt_needsExclusive pkt then upd_mshr i P h4 else h4)
       in Inr (True, pkt', h5))"
      by (simp only: eq if_False if_True)
    with assms(3) obtain h2 pk h4 where h2: "add_target now i False cp now ord FromSnoop mark h1 = Inr h2"
      "(pk, h4) = (if tl_needsExclusive (m_targets (upd_mshr i incr_targets h2 ! i))
         then (setSupplyExclusive (assertMemInhibit pkt), upd_mshr i incr_targets h2)
         else (pkt, upd_mshr i N (upd_mshr i incr_targets h2)))"
      "b" "h' = (if pkt_needsExclusive pkt then upd_mshr i P h4 else h4)"
      by (cases "add_target now i False cp now ord FromSnoop mark h1") (auto simp: Let_def split: prod.splits)
    define g where "g = (if tl_needsExclusive (m_targets (upd_mshr i incr_targets h2 ! i)) then (\<lambda>m. m) else N)"
    have h4: "h4 = upd_mshr i g (upd_mshr i incr_targets h2)"
      using h2(2) by (simp add: g_def upd_id split: if_splits)
    have "h' = upd_mshr i g (upd_mshr i incr_targets h2) \<and> \<not> pkt_needsExclusive pkt \<or>
        h' = upd_mshr i (\<lambda>m. (g m)\<lparr>m_pendingInvalidate := True\<rparr>) (upd_mshr i incr_targets h2) \<and> pkt_needsExclusive pkt"
      using h2(4) unfolding h4 P_def upd_upd by auto
    then show thesis
      using that(3) [OF h2(1) _ h2(3), of g] by (simp add: g_def N_def)
  qed
qed

lemma handleSnoop_ok:
  assumes "i < length h" and "mshr_ok (h ! i)" and "mshr_handleSnoop now i pkt ord h = Inr (b, pkt', h')"
  shows "reg_upd i h h'"
proof (cases "\<not> m_inService (h ! i) \<or> (isExpressSnoop pkt \<and> m_downstreamPending (h ! i))")
  case True
  then have "h' = h \<or> h' = upd_mshr i (\<lambda>m. m\<lparr>m_targets := replaceUpgrades (m_targets m),
      m_deferredTargets := replaceUpgrades (m_deferredTargets m)\<rparr>) h"
    using assms(3) by (auto simp: mshr_handleSnoop_def Let_def split: if_splits)
  then show ?thesis
    using assms(1,2) mshr_ok_replace(2) [OF mshr_ok_replace(1) [OF assms(2)]]
    by (auto intro!: reg_upd_simple) (auto simp: reg_upd_def)
next
  case False
  define h1 where "h1 = (if pkt_needsExclusive pkt
    then upd_mshr i (\<lambda>m. m\<lparr>m_deferredTargets := replaceUpgrades (m_deferredTargets m)\<rparr>) h else h)"
  have len: "i < length h1" using assms(1) by (simp add: h1_def)
  have h1: "reg_upd i h h1" "mshr_ok (h1 ! i)"
    using assms(1,2) mshr_ok_replace(2) [OF assms(2)]
    by (auto simp: h1_def nth_upd_mshr intro!: reg_upd_simple) (auto simp: reg_upd_def)
  have trans: "reg_upd i h h'" if "reg_upd i h1 h'"
    using that h1(1) by (auto simp: reg_upd_def)
  from False h1_def assms(3) show ?thesis
  proof (cases rule: handleSnoop_cases)
    case 1
    then show ?thesis using h1(1) by simp
  next
    case 2
    have "mshr_ok ((h1 ! i)\<lparr>m_pendingShared := True\<rparr>)" using h1(2) by (simp add: mshr_ok_def)
    then have "reg_upd i h1 h'" unfolding 2(2) by (intro reg_upd_simple len) simp_all
    then show ?thesis by (rule trans)
  next
    case (3 cp mark h2 g)
    then show ?thesis
      using snoop_add_ok [OF len h1(2) 3(1), of g] by (auto intro!: trans)
  qed
qed

end
