(* ===== verification/Mshr_Queue.thy ===== *)
theory Mshr_Queue
  imports Mshr
begin

text \<open>
  The queue of miss registers, \<open>mem/cache/mshr_queue.{hh,cc}\<close>: the registers are a
  segment of the heap of \<open>Mshr\<close>, and the three lists hold their indexes.  The
  iterators a register keeps into the lists are the positions of its index.
\<close>

section \<open>State\<close>

record MSHRQueue =
  q_allocatedList :: "nat list"
  q_readyList :: "nat list"
  q_freeList :: "nat list"
  q_numEntries :: int
  q_numReserve :: int
  q_allocated :: int
  q_inServiceEntries :: int
  q_index :: int

text \<open>The constructor, with its registers placed at \<open>base\<close> in the heap.\<close>

definition MSHRQueue_new :: "nat \<Rightarrow> int \<Rightarrow> int \<Rightarrow> int \<Rightarrow> MSHRQueue" where
  "MSHRQueue_new base num_entries reserve index =
     \<lparr>q_allocatedList = [], q_readyList = [],
      q_freeList = [base ..< base + nat (num_entries + reserve - 1)],
      q_numEntries = num_entries + reserve - 1, q_numReserve = reserve,
      q_allocated = 0, q_inServiceEntries = 0, q_index = index\<rparr>"

section \<open>Lookup\<close>

fun findMatch :: "heap \<Rightarrow> Addr \<Rightarrow> nat list \<Rightarrow> nat option" where
  "findMatch h addr [] = None"
| "findMatch h addr (i # is) = (if m_addr (h ! i) = addr then Some i else findMatch h addr is)"

definition q_findMatch :: "heap \<Rightarrow> Addr \<Rightarrow> MSHRQueue \<Rightarrow> nat option" where
  "q_findMatch h addr q = findMatch h addr (q_allocatedList q)"

definition q_findMatches :: "heap \<Rightarrow> Addr \<Rightarrow> MSHRQueue \<Rightarrow> bool \<times> nat list" where
  "q_findMatches h addr q =
     (let matches = filter (\<lambda>i. m_addr (h ! i) = addr) (q_allocatedList q) in (matches \<noteq> [], matches))"

fun checkFunctional_loop :: "Packet \<Rightarrow> Addr \<Rightarrow> nat list \<Rightarrow> heap \<Rightarrow> (bool \<times> Packet \<times> heap) res" where
  "checkFunctional_loop pkt blk_addr [] h = Inr (False, pkt, h)"
| "checkFunctional_loop pkt blk_addr (i # is) h =
     (if m_addr (h ! i) = blk_addr
      then bind_res (mshr_checkFunctional pkt (h ! i)) (\<lambda>(b, pkt, m).
             let h = h[i := m]
             in if b then Inr (True, pkt, h) else checkFunctional_loop pkt blk_addr is h)
      else checkFunctional_loop pkt blk_addr is h)"

definition q_checkFunctional :: "Packet \<Rightarrow> Addr \<Rightarrow> MSHRQueue \<Rightarrow> heap \<Rightarrow> (bool \<times> Packet \<times> heap) res" where
  "q_checkFunctional pkt blk_addr q h = checkFunctional_loop pkt blk_addr (q_allocatedList q) h"

fun findPending :: "heap \<Rightarrow> Addr \<Rightarrow> int \<Rightarrow> nat list \<Rightarrow> nat option" where
  "findPending h addr sz [] = None"
| "findPending h addr sz (i # is) =
     (let m = h ! i
      in if m_addr m < addr
         then (if m_addr m + word_of_int (m_size m) > addr then Some i else findPending h addr sz is)
         else (if addr + word_of_int sz > m_addr m then Some i else findPending h addr sz is))"

definition q_findPending :: "heap \<Rightarrow> Addr \<Rightarrow> int \<Rightarrow> MSHRQueue \<Rightarrow> nat option" where
  "q_findPending h addr sz q = findPending h addr sz (q_readyList q)"

definition q_havePending :: "MSHRQueue \<Rightarrow> bool" where
  "q_havePending q \<longleftrightarrow> q_readyList q \<noteq> []"

definition q_isFull :: "MSHRQueue \<Rightarrow> bool" where
  "q_isFull q \<longleftrightarrow> q_allocated q > q_numEntries q - q_numReserve q"

definition q_getNextMSHR :: "Tick \<Rightarrow> heap \<Rightarrow> MSHRQueue \<Rightarrow> nat option" where
  "q_getNextMSHR curTick h q =
     (case q_readyList q of
        [] \<Rightarrow> None
      | i # _ \<Rightarrow> if m_readyTime (h ! i) > curTick then None else Some i)"

definition q_nextMSHRReadyTime :: "heap \<Rightarrow> MSHRQueue \<Rightarrow> Tick" where
  "q_nextMSHRReadyTime h q = (case q_readyList q of [] \<Rightarrow> MaxTick | i # _ \<Rightarrow> m_readyTime (h ! i))"

section \<open>Operations\<close>

fun insert_ready :: "heap \<Rightarrow> nat \<Rightarrow> nat list \<Rightarrow> nat list res" where
  "insert_ready h i [] = Inl AssertFail"
| "insert_ready h i (j # js) =
     (if m_readyTime (h ! j) > m_readyTime (h ! i) then Inr (i # j # js)
      else bind_res (insert_ready h i js) (\<lambda>r. Inr (j # r)))"

definition addToReadyList :: "heap \<Rightarrow> nat \<Rightarrow> nat list \<Rightarrow> nat list res" where
  "addToReadyList h i ready =
     (if ready = [] \<or> m_readyTime (h ! last ready) \<le> m_readyTime (h ! i) then Inr (ready @ [i])
      else insert_ready h i ready)"

definition q_allocate ::
  "Tick \<Rightarrow> Addr \<Rightarrow> int \<Rightarrow> Packet \<Rightarrow> Tick \<Rightarrow> int \<Rightarrow> MSHRQueue \<Rightarrow> heap \<Rightarrow> (nat \<times> MSHRQueue \<times> heap) res" where
  "q_allocate curTick addr sz pkt when_ready order q h =
     (case q_freeList q of
        [] \<Rightarrow> Inl AssertFail
      | i # free \<Rightarrow>
          guard_res AssertFail (getNumTargets (h ! i) = 0)
          (let q = q\<lparr>q_freeList := free\<rparr>
           in bind_res (mshr_allocate curTick i addr sz pkt when_ready order h) (\<lambda>h.
              let q = q\<lparr>q_allocatedList := q_allocatedList q @ [i]\<rparr>
              in bind_res (addToReadyList h i (q_readyList q)) (\<lambda>ready.
                 Inr (i, q\<lparr>q_readyList := ready, q_allocated := q_allocated q + 1\<rparr>, h)))))"

definition q_deallocateOne :: "nat \<Rightarrow> MSHRQueue \<Rightarrow> heap \<Rightarrow> (MSHRQueue \<times> heap) res" where
  "q_deallocateOne i q h =
     guard_res Undefined (i \<in> set (q_allocatedList q))
     (let q = q\<lparr>q_allocatedList := remove1 i (q_allocatedList q), q_freeList := i # q_freeList q,
                q_allocated := q_allocated q - 1\<rparr>
      in bind_res (if m_inService (h ! i) then Inr (q\<lparr>q_inServiceEntries := q_inServiceEntries q - 1\<rparr>)
                   else guard_res Undefined (i \<in> set (q_readyList q))
                          (Inr (q\<lparr>q_readyList := remove1 i (q_readyList q)\<rparr>))) (\<lambda>q.
         bind_res (mshr_deallocate (h ! i)) (\<lambda>m. Inr (q, h[i := m]))))"

definition q_deallocate :: "nat \<Rightarrow> MSHRQueue \<Rightarrow> heap \<Rightarrow> (MSHRQueue \<times> heap) res" where
  "q_deallocate i q h = q_deallocateOne i q h"

definition q_moveToFront :: "nat \<Rightarrow> MSHRQueue \<Rightarrow> heap \<Rightarrow> MSHRQueue res" where
  "q_moveToFront i q h =
     (if \<not> m_inService (h ! i)
      then guard_res AssertFail (i \<in> set (q_readyList q))
             (Inr (q\<lparr>q_readyList := i # remove1 i (q_readyList q)\<rparr>))
      else Inr q)"

definition q_markInService :: "nat \<Rightarrow> MSHRQueue \<Rightarrow> heap \<Rightarrow> (MSHRQueue \<times> heap) res" where
  "q_markInService i q h =
     bind_res (mshr_markInService i h) (\<lambda>(gone, h).
       if gone then q_deallocate i q h
       else guard_res Undefined (i \<in> set (q_readyList q))
              (Inr (q\<lparr>q_readyList := remove1 i (q_readyList q),
                      q_inServiceEntries := q_inServiceEntries q + 1\<rparr>, h)))"

definition q_markPending :: "nat \<Rightarrow> MSHRQueue \<Rightarrow> heap \<Rightarrow> (MSHRQueue \<times> heap) res" where
  "q_markPending i q h =
     guard_res AssertFail (m_inService (h ! i))
     (let h = upd_mshr i (\<lambda>m. m\<lparr>m_inService := False\<rparr>) h;
          q = q\<lparr>q_inServiceEntries := q_inServiceEntries q - 1\<rparr>
      in bind_res (addToReadyList h i (q_readyList q)) (\<lambda>ready. Inr (q\<lparr>q_readyList := ready\<rparr>, h)))"

text \<open>\<open>squash\<close>: the loop over the allocated registers, and the loop that pops the targets.\<close>

fun pop_all :: "int \<Rightarrow> nat \<Rightarrow> MSHR \<Rightarrow> MSHR res" where
  "pop_all threadNum 0 m = Inr m"
| "pop_all threadNum (Suc n) m =
     bind_res (popTarget m) (\<lambda>m. guard_res AssertFail (threadNum = 0) (pop_all threadNum n m))"

fun squash_loop :: "int \<Rightarrow> nat list \<Rightarrow> MSHRQueue \<Rightarrow> heap \<Rightarrow> (MSHRQueue \<times> heap) res" where
  "squash_loop threadNum [] q h = Inr (q, h)"
| "squash_loop threadNum (i # is) q h =
     (if m_threadNum (h ! i) = threadNum
      then bind_res (pop_all threadNum (length (tl_list (m_targets (h ! i)))) (h ! i)) (\<lambda>m.
             let h = h[i := m]
             in guard_res AssertFail (\<not> hasTargets m)
                (guard_res AssertFail (m_ntargets m = 0)
                   (if \<not> m_inService m
                    then bind_res (q_deallocateOne i q h) (\<lambda>(q, h). squash_loop threadNum is q h)
                    else squash_loop threadNum is q h)))
      else squash_loop threadNum is q h)"

definition q_squash :: "int \<Rightarrow> MSHRQueue \<Rightarrow> heap \<Rightarrow> (MSHRQueue \<times> heap) res" where
  "q_squash threadNum q h = squash_loop threadNum (q_allocatedList q) q h"

section \<open>Invariant\<close>

definition reg_free :: "MSHR \<Rightarrow> bool" where
  "reg_free m \<longleftrightarrow> tl_list (m_targets m) = [] \<and> tl_list (m_deferredTargets m) = [] \<and>
     tl_isReset (m_targets m) \<and> tl_isReset (m_deferredTargets m) \<and> m_ntargets m = 0 \<and> \<not> m_inService m"

text \<open>The 16-bit count of targets does not wrap.\<close>

definition few_targets :: "MSHR \<Rightarrow> bool" where
  "few_targets m \<longleftrightarrow> length (tl_list (m_targets m)) + length (tl_list (m_deferredTargets m)) < 2 ^ 16"

definition q_inv :: "nat set \<Rightarrow> MSHRQueue \<Rightarrow> heap \<Rightarrow> bool" where
  "q_inv R q h \<longleftrightarrow> R \<subseteq> {..<length h} \<and>
     distinct (q_allocatedList q @ q_freeList q) \<and> set (q_allocatedList q) \<union> set (q_freeList q) = R \<and>
     distinct (q_readyList q) \<and> set (q_readyList q) = {i \<in> set (q_allocatedList q). \<not> m_inService (h ! i)} \<and>
     q_allocated q = int (length (q_allocatedList q)) \<and>
     q_inServiceEntries q = int (length (filter (\<lambda>i. m_inService (h ! i)) (q_allocatedList q))) \<and>
     (\<forall>i \<in> R. mshr_ok (h ! i) \<and> few_targets (h ! i)) \<and> (\<forall>i \<in> set (q_freeList q). reg_free (h ! i))"

lemma q_inv_less: "q_inv R q h \<Longrightarrow> i \<in> set (q_allocatedList q) \<Longrightarrow> i < length h"
  by (auto simp: q_inv_def)

lemma q_inv_reg: "q_inv R q h \<Longrightarrow> i \<in> R \<Longrightarrow> mshr_ok (h ! i) \<and> few_targets (h ! i)"
  by (simp add: q_inv_def)

lemma q_inv_alloc:
  assumes "q_inv R q h" and "i \<in> set (q_allocatedList q)"
  shows "i < length h" "mshr_ok (h ! i)" "few_targets (h ! i)"
proof -
  have "i \<in> R" using assms by (auto simp: q_inv_def)
  then show "mshr_ok (h ! i)" "few_targets (h ! i)" using q_inv_reg [OF assms(1)] by simp_all
qed (rule q_inv_less [OF assms])

text \<open>A change of the heap that keeps every register's view of the queue.\<close>

lemma q_inv_heap:
  assumes "q_inv R q h" and "length h' = length h"
    and "\<And>i. i \<in> R \<Longrightarrow> m_inService (h' ! i) = m_inService (h ! i) \<and> mshr_ok (h' ! i) \<and> few_targets (h' ! i)"
    and "\<And>i. i \<in> set (q_freeList q) \<Longrightarrow> reg_free (h' ! i)"
  shows "q_inv R q h'"
proof -
  have alloc: "set (q_allocatedList q) \<subseteq> R" using assms(1) by (auto simp: q_inv_def)
  have "{i \<in> set (q_allocatedList q). \<not> m_inService (h' ! i)} = {i \<in> set (q_allocatedList q). \<not> m_inService (h ! i)}"
    using assms(3) alloc by auto
  moreover have "filter (\<lambda>i. m_inService (h' ! i)) (q_allocatedList q) = filter (\<lambda>i. m_inService (h ! i)) (q_allocatedList q)"
    using assms(3) alloc by (intro filter_cong) auto
  ultimately show ?thesis using assms unfolding q_inv_def by auto
qed

lemma dp_fields:
  assumes "(m' :: MSHR)\<lparr>m_downstreamPending := False\<rparr> = m\<lparr>m_downstreamPending := False\<rparr>"
  shows "m_inService m' = m_inService m" "mshr_ok m' = mshr_ok m" "few_targets m' = few_targets m"
    "reg_free m' = reg_free m" "m_addr m' = m_addr m" "m_readyTime m' = m_readyTime m"
proof -
  show "mshr_ok m' = mshr_ok m" using assms by (metis mshr_ok_dp)
qed (use arg_cong [OF assms, of m_inService] arg_cong [OF assms, of m_targets] arg_cong [OF assms, of m_ntargets]
      arg_cong [OF assms, of m_deferredTargets] arg_cong [OF assms, of m_addr] arg_cong [OF assms, of m_readyTime]
    in \<open>simp_all add: few_targets_def reg_free_def\<close>)

lemma q_inv_upstream:
  assumes "q_inv R q h" and "erase_dp h' = erase_dp h"
  shows "q_inv R q h'"
proof (rule q_inv_heap [OF assms(1)])
  show "length h' = length h" using assms(2) by (metis length_erase_dp)
  have R: "i < length h" if "i \<in> R" for i using that assms(1) by (auto simp: q_inv_def)
  show "m_inService (h' ! i) = m_inService (h ! i) \<and> mshr_ok (h' ! i) \<and> few_targets (h' ! i)" if "i \<in> R" for i
    using that assms(1) dp_fields [OF erase_dp_nth [OF assms(2) R [OF that]]] by (simp add: q_inv_def)
  show "reg_free (h' ! i)" if "i \<in> set (q_freeList q)" for i
  proof -
    have "i \<in> R" using that assms(1) by (auto simp: q_inv_def)
    then show ?thesis using that assms(1) dp_fields(4) [OF erase_dp_nth [OF assms(2) R]] by (simp add: q_inv_def)
  qed
qed

lemma q_inv_reg_upd:
  assumes "q_inv R q h" and "i \<in> set (q_allocatedList q)" and "reg_upd i h h'" and "few_targets (h' ! i)"
  shows "q_inv R q h'"
proof (rule q_inv_heap [OF assms(1)])
  show "length h' = length h" using assms(3) by (simp add: reg_upd_def)
  have R: "j < length h" if "j \<in> R" for j using that assms(1) by (auto simp: q_inv_def)
  show "m_inService (h' ! j) = m_inService (h ! j) \<and> mshr_ok (h' ! j) \<and> few_targets (h' ! j)" if j: "j \<in> R" for j
  proof (cases "j = i")
    case True
    then show ?thesis using assms(3,4) by (simp add: reg_upd_def)
  next
    case False
    then have "(h' ! j)\<lparr>m_downstreamPending := False\<rparr> = (h ! j)\<lparr>m_downstreamPending := False\<rparr>"
      using assms(3) R [OF j] by (simp add: reg_upd_def)
    from dp_fields [OF this] show ?thesis using j assms(1) by (simp add: q_inv_def)
  qed
  show "reg_free (h' ! j)" if j: "j \<in> set (q_freeList q)" for j
  proof -
    have "j \<in> R" "j \<noteq> i" using j assms(1,2) by (auto simp: q_inv_def)
    then have "(h' ! j)\<lparr>m_downstreamPending := False\<rparr> = (h ! j)\<lparr>m_downstreamPending := False\<rparr>"
      using assms(3) R by (simp add: reg_upd_def)
    from dp_fields(4) [OF this] show ?thesis using j assms(1) by (simp add: q_inv_def)
  qed
qed

section \<open>The ready list\<close>

lemma insert_ready_set:
  "insert_ready h i js = Inr r \<Longrightarrow> set r = insert i (set js) \<and> (distinct js \<and> i \<notin> set js \<longrightarrow> distinct r) \<and> length r = Suc (length js)"
  by (induction js arbitrary: r) (auto simp: res_simps split: if_splits)

lemma insert_ready_total:
  "j \<in> set js \<Longrightarrow> m_readyTime (h ! j) > m_readyTime (h ! i) \<Longrightarrow> \<exists>r. insert_ready h i js = Inr r"
  by (induction js) auto

lemma addToReadyList_total: "\<exists>r. addToReadyList h i js = Inr r"
proof (cases "js = [] \<or> m_readyTime (h ! last js) \<le> m_readyTime (h ! i)")
  case False
  then have "last js \<in> set js" "m_readyTime (h ! last js) > m_readyTime (h ! i)" by auto
  from insert_ready_total [OF this] False show ?thesis by (simp add: addToReadyList_def)
qed (simp add: addToReadyList_def)

lemma addToReadyList_set:
  assumes "addToReadyList h i js = Inr r"
  shows "set r = insert i (set js)" "distinct js \<Longrightarrow> i \<notin> set js \<Longrightarrow> distinct r"
  using assms insert_ready_set [of h i js r] by (auto simp: addToReadyList_def split: if_splits)

lemma insert_ready_sorted:
  "insert_ready h i js = Inr r \<Longrightarrow> sorted (map (\<lambda>j. m_readyTime (h ! j)) js) \<Longrightarrow>
    sorted (map (\<lambda>j. m_readyTime (h ! j)) r)"
proof (induction js arbitrary: r)
  case (Cons j js)
  show ?case
  proof (cases "m_readyTime (h ! j) > m_readyTime (h ! i)")
    case True
    then have "r = i # j # js" using Cons.prems(1) by simp
    then show ?thesis using True Cons.prems(2) by (auto intro: order.trans less_imp_le)
  next
    case False
    then obtain r' where r': "insert_ready h i js = Inr r'" "r = j # r'"
      using Cons.prems(1) by (auto simp: res_simps)
    then show ?thesis using Cons.IH [OF r'(1)] Cons.prems(2) insert_ready_set [OF r'(1)] False by auto
  qed
qed simp

section \<open>What the operations keep\<close>

lemma mshr_allocate_eff:
  assumes "mshr_allocate now i a sz pkt t ord h = Inr h'" and "i < length h" and "reg_free (h ! i)"
  obtains M where "erase_dp h' = erase_dp (h[i := M])" "mshr_ok M" "few_targets M" "\<not> m_inService M"
    "m_addr M = a" "m_readyTime M = t"
proof -
  define f where "f = (\<lambda>m. m\<lparr>m_addr := a, m_size := sz, m_readyTime := t, m_order := ord,
     m_isForward := False, m_isUncacheable := req_isUncacheable (p_req pkt),
     m_inService := False, m_downstreamPending := False, m_threadNum := 0, m_ntargets := 1\<rparr> :: MSHR)"
  define g where "g = (\<lambda>m. m\<lparr>m_pendingInvalidate := False, m_pendingShared := False\<rparr> :: MSHR)"
  define src where "src = (if p_cmd pkt = HardPFReq then FromPrefetcher else FromCPU)"
  define P where "P = push_in now False pkt t ord src True"
  obtain h1 where h1: "add_target now i False pkt t ord src True (upd_mshr i f h) = Inr h1" "h' = upd_mshr i g h1"
    using assms(1) unfolding mshr_allocate_def Let_def f_def [symmetric] g_def [symmetric] src_def [symmetric]
    by (auto simp: res_simps)
  have "erase_dp (upd_mshr i g h1) = erase_dp (upd_mshr i g (upd_mshr i P (upd_mshr i f h)))"
    unfolding P_def by (rule erase_dp_upd [OF add_target_erase [OF h1(1)]]) (simp add: g_def)
  then have e: "erase_dp h' = erase_dp (h[i := g (P (f (h ! i)))])"
    using assms(2) by (simp add: h1(2) upd_mshr_def)
  have "mshr_ok (g (P (f (h ! i))))" "few_targets (g (P (f (h ! i))))"
    using assms(3)
    by (auto simp: reg_free_def mshr_ok_def few_targets_def f_def g_def P_def push_in_def excl_ok_def upg_ok_def
        tl_push_def Target_new_def src_def Let_def)
  then show thesis using that [OF e] by (simp add: f_def g_def P_def push_in_def)
qed

lemma q_inv_allocate:
  assumes "q_inv R q h" and "q_allocate now a sz pkt t ord q h = Inr (i, q', h')"
  shows "q_inv R q' h'" "m_addr (h' ! i) = a" "i \<in> set (q_allocatedList q')"
    "set (q_allocatedList q') = insert i (set (q_allocatedList q))" "i \<in> set (q_readyList q')"
proof -
  obtain free h1 ready where free: "q_freeList q = i # free"
    and h': "mshr_allocate now i a sz pkt t ord h = Inr h'"
    and ready: "addToReadyList h' i (q_readyList q) = Inr ready"
    and q': "q' = q\<lparr>q_freeList := free, q_allocatedList := q_allocatedList q @ [i], q_readyList := ready,
               q_allocated := q_allocated q + 1\<rparr>"
    using assms(2) by (auto simp: q_allocate_def res_simps Let_def split: list.splits)
  have i: "i \<in> R" "i < length h" "reg_free (h ! i)" "i \<notin> set (q_allocatedList q)" "i \<notin> set free"
    using assms(1) free by (auto simp: q_inv_def)
  obtain M where M: "erase_dp h' = erase_dp (h[i := M])" "mshr_ok M" "few_targets M" "\<not> m_inService M" "m_addr M = a"
    using mshr_allocate_eff [OF h' i(2,3)] by metis
  have nir: "i \<notin> set (q_readyList q)" using assms(1) i(4) by (auto simp: q_inv_def)
  have "q_inv R q' (h[i := M])"
    using assms(1) i M free addToReadyList_set [OF ready] nir unfolding q_inv_def q'
    by (auto simp: nth_list_update intro!: arg_cong [where f = length] filter_cong)
  then show "q_inv R q' h'" using q_inv_upstream M(1) by blast
  have "(h' ! i)\<lparr>m_downstreamPending := False\<rparr> = M\<lparr>m_downstreamPending := False\<rparr>"
    using erase_dp_nth [OF M(1), of i] i(2) by simp
  then show "m_addr (h' ! i) = a" using dp_fields(5) M(5) by metis
qed (use assms(2) in \<open>auto simp: q_allocate_def res_simps Let_def addToReadyList_set split: list.splits\<close>)

lemma length_filter_remove1:
  "i \<in> set xs \<Longrightarrow> length (filter P xs) = length (filter P (remove1 i xs)) + (if P i then 1 else 0)"
  by (induction xs) auto

lemma of_nat_16_eq_0:
  assumes "(of_nat n :: 16 word) = 0" and "n < 2 ^ 16"
  shows "n = 0"
proof -
  have "unat (of_nat n :: 16 word) = n" using assms(2) by (simp add: unsigned_of_nat take_bit_nat_eq_self)
  then show ?thesis using assms(1) by simp
qed

lemma mshr_deallocate_free:
  assumes "mshr_ok m" and "few_targets m" and "mshr_deallocate m = Inr m'"
  shows "reg_free m'" "mshr_ok m'" "few_targets m'"
proof -
  have d: "tl_list (m_targets m) = []" "tl_isReset (m_deferredTargets m)" "m_ntargets m = 0"
    "m' = m\<lparr>m_targets := tl_resetFlags (m_targets m), m_inService := False\<rparr>"
    using assms(3) by (auto simp: mshr_deallocate_def res_simps Let_def)
  have "(of_nat (length (tl_list (m_deferredTargets m))) :: 16 word) = 0"
    using assms(1) d(1,3) by (simp add: mshr_ok_def)
  then have "length (tl_list (m_deferredTargets m)) = 0"
    using assms(2) by (intro of_nat_16_eq_0) (simp_all add: few_targets_def)
  then show "reg_free m'" "mshr_ok m'" "few_targets m'"
    using d by (simp_all add: reg_free_def mshr_ok_def few_targets_def tl_resetFlags_def tl_isReset_def excl_ok_def upg_ok_def)
qed

lemma q_inv_deallocate:
  assumes "q_inv R q h" and "q_deallocateOne i q h = Inr (q', h')"
  shows "q_inv R q' h'"
proof -
  obtain m where m: "i \<in> set (q_allocatedList q)" "mshr_deallocate (h ! i) = Inr m" "h' = h[i := m]"
    and q': "q' = (if m_inService (h ! i)
      then q\<lparr>q_allocatedList := remove1 i (q_allocatedList q), q_freeList := i # q_freeList q,
              q_allocated := q_allocated q - 1, q_inServiceEntries := q_inServiceEntries q - 1\<rparr>
      else q\<lparr>q_allocatedList := remove1 i (q_allocatedList q), q_freeList := i # q_freeList q,
              q_allocated := q_allocated q - 1, q_readyList := remove1 i (q_readyList q)\<rparr>)"
    using assms(2) by (auto simp: q_deallocateOne_def res_simps Let_def split: if_splits)
  have R: "i \<in> R" "i < length h" using assms(1) m(1) by (auto simp: q_inv_def)
  then have free: "reg_free m" "mshr_ok m" "few_targets m"
    using mshr_deallocate_free [OF _ _ m(2)] assms(1) by (auto simp: q_inv_def)
  then have ns: "\<not> m_inService m" by (simp add: reg_free_def)
  have d: "distinct (q_allocatedList q)" "i \<notin> set (q_freeList q)" using assms(1) m(1) by (auto simp: q_inv_def)
  have flt: "filter (\<lambda>j. m_inService (h[i := m] ! j)) (remove1 i (q_allocatedList q)) =
      filter (\<lambda>j. m_inService (h ! j)) (remove1 i (q_allocatedList q))"
    using d(1) by (intro filter_cong) (auto simp: nth_list_update)
  show ?thesis
    using assms(1) m(1) R free ns d flt
      length_filter_remove1 [OF m(1), of "\<lambda>_. True"] length_filter_remove1 [OF m(1), of "\<lambda>j. m_inService (h ! j)"]
    unfolding q_inv_def q' m(3) by (auto simp: nth_list_update)
qed


lemma mshr_markInService_eff:
  assumes "mshr_markInService i h = Inr (b, h')" and "i < length h"
  shows "\<not> m_inService (h ! i)"
    and "b \<Longrightarrow> \<exists>m. popTarget (h ! i) = Inr m \<and> h' = h[i := m]"
    and "\<not> b \<Longrightarrow> erase_dp h' = erase_dp (upd_mshr i (\<lambda>m. m\<lparr>m_inService := True\<rparr>) h)"
  using assms clear_pending_erase
  by (auto simp: mshr_markInService_def res_simps Let_def split: if_splits)

lemma q_inv_set_service:
  assumes "q_inv R q h" and "i \<in> set (q_readyList q)"
  shows "q_inv R (q\<lparr>q_readyList := remove1 i (q_readyList q), q_inServiceEntries := q_inServiceEntries q + 1\<rparr>)
    (upd_mshr i (\<lambda>m. m\<lparr>m_inService := True\<rparr>) h)"
proof -
  let ?h = "upd_mshr i (\<lambda>m. m\<lparr>m_inService := True\<rparr>) h"
  have i: "i \<in> set (q_allocatedList q)" "\<not> m_inService (h ! i)" "i < length h" "i \<in> R" "i \<notin> set (q_freeList q)"
    using assms by (auto simp: q_inv_def)
  have d: "distinct (q_allocatedList q)" using assms(1) by (simp add: q_inv_def)
  have "filter (\<lambda>j. m_inService (?h ! j)) (remove1 i (q_allocatedList q)) =
      filter (\<lambda>j. m_inService (h ! j)) (remove1 i (q_allocatedList q))"
    using d i(3) by (intro filter_cong) (auto simp: nth_upd_mshr)
  then have "length (filter (\<lambda>j. m_inService (?h ! j)) (q_allocatedList q)) =
      Suc (length (filter (\<lambda>j. m_inService (h ! j)) (q_allocatedList q)))"
    using length_filter_remove1 [OF i(1), of "\<lambda>j. m_inService (?h ! j)"]
      length_filter_remove1 [OF i(1), of "\<lambda>j. m_inService (h ! j)"] i(2,3) by (simp add: nth_upd_mshr)
  moreover have "mshr_ok ((h ! i)\<lparr>m_inService := True\<rparr>)" "few_targets ((h ! i)\<lparr>m_inService := True\<rparr>)"
    using q_inv_reg [OF assms(1) i(4)] by (simp_all add: mshr_ok_def few_targets_def)
  ultimately show ?thesis
    using assms i unfolding q_inv_def by (auto simp: nth_upd_mshr)
qed

lemma q_inv_markInService:
  assumes "q_inv R q h" and "q_markInService i q h = Inr (q', h')" and "i \<in> set (q_allocatedList q)"
  shows "q_inv R q' h'"
proof -
  have len: "i < length h" by (rule q_inv_less [OF assms(1,3)])
  obtain b h1 where m: "mshr_markInService i h = Inr (b, h1)"
    and rest: "(if b then q_deallocate i q h1 else guard_res Undefined (i \<in> set (q_readyList q))
       (Inr (q\<lparr>q_readyList := remove1 i (q_readyList q), q_inServiceEntries := q_inServiceEntries q + 1\<rparr>, h1))) = Inr (q', h')"
    using assms(2) by (auto simp: q_markInService_def res_simps)
  note eff = mshr_markInService_eff [OF m len]
  show ?thesis
  proof (cases b)
    case True
    then obtain t where t: "popTarget (h ! i) = Inr t" "h1 = h[i := t]" using eff(2) by blast
    have ok: "mshr_ok (h ! i)" "few_targets (h ! i)" using assms(1,3) by (auto simp: q_inv_def)
    have "reg_upd i h h1"
      using popTarget_ok [OF ok(1) t(1)] len by (simp add: reg_upd_def t(2))
    moreover have "few_targets (h1 ! i)"
      using t ok(2) len by (auto simp: few_targets_def popTarget_def split: list.splits)
    ultimately have "q_inv R q h1" by (rule q_inv_reg_upd [OF assms(1,3)])
    then show ?thesis using rest True q_inv_deallocate by (simp add: q_deallocate_def)
  next
    case False
    then have r: "i \<in> set (q_readyList q)" "h' = h1"
      "q' = q\<lparr>q_readyList := remove1 i (q_readyList q), q_inServiceEntries := q_inServiceEntries q + 1\<rparr>"
      using rest by (auto simp: res_simps)
    show ?thesis unfolding r(2,3)
      by (rule q_inv_upstream [OF q_inv_set_service [OF assms(1) r(1)] eff(3) [OF False]])
  qed
qed

lemma q_inv_markPending:
  assumes "q_inv R q h" and "q_markPending i q h = Inr (q', h')" and "i \<in> set (q_allocatedList q)"
    and "tl_list (m_deferredTargets (h ! i)) = []"
  shows "q_inv R q' h'"
proof -
  let ?h = "upd_mshr i (\<lambda>m. m\<lparr>m_inService := False\<rparr>) h"
  obtain ready where r: "m_inService (h ! i)" "addToReadyList ?h i (q_readyList q) = Inr ready" "h' = ?h"
    "q' = q\<lparr>q_inServiceEntries := q_inServiceEntries q - 1, q_readyList := ready\<rparr>"
    using assms(2) by (auto simp: q_markPending_def res_simps Let_def)
  have i: "i < length h" "i \<in> R" "i \<notin> set (q_freeList q)" "i \<notin> set (q_readyList q)" "distinct (q_allocatedList q)"
    using assms(1,3) r(1) by (auto simp: q_inv_def)
  have "filter (\<lambda>j. m_inService (?h ! j)) (remove1 i (q_allocatedList q)) =
      filter (\<lambda>j. m_inService (h ! j)) (remove1 i (q_allocatedList q))"
    using i(1,5) by (intro filter_cong) (auto simp: nth_upd_mshr)
  then have "length (filter (\<lambda>j. m_inService (h ! j)) (q_allocatedList q)) =
      Suc (length (filter (\<lambda>j. m_inService (?h ! j)) (q_allocatedList q)))"
    using length_filter_remove1 [OF assms(3), of "\<lambda>j. m_inService (?h ! j)"]
      length_filter_remove1 [OF assms(3), of "\<lambda>j. m_inService (h ! j)"] r(1) i(1) by (simp add: nth_upd_mshr)
  moreover have "mshr_ok ((h ! i)\<lparr>m_inService := False\<rparr>)" "few_targets ((h ! i)\<lparr>m_inService := False\<rparr>)"
    using q_inv_reg [OF assms(1) i(2)] assms(4) by (simp_all add: mshr_ok_def few_targets_def)
  ultimately show ?thesis
    using assms(1,3) i r(1) addToReadyList_set [OF r(2)] unfolding q_inv_def r(3,4) by (auto simp: nth_upd_mshr)
qed

lemma q_inv_moveToFront:
  assumes "q_inv R q h" and "q_moveToFront i q h = Inr q'"
  shows "q_inv R q' h"
  using assms by (auto simp: q_moveToFront_def q_inv_def res_simps split: if_splits)

section \<open>Two queues in one heap\<close>

text \<open>An operation on the registers of \<open>R\<close> changes at most pending flags of the others.\<close>

definition touches :: "nat set \<Rightarrow> heap \<Rightarrow> heap \<Rightarrow> bool" where
  "touches R h h' \<longleftrightarrow> length h' = length h \<and>
     (\<forall>j < length h. j \<notin> R \<longrightarrow> (h' ! j)\<lparr>m_downstreamPending := False\<rparr> = (h ! j)\<lparr>m_downstreamPending := False\<rparr>)"

lemma touches_refl [simp]: "touches R h h"
  by (simp add: touches_def)

lemma touches_trans: "touches R h h' \<Longrightarrow> touches R h' h'' \<Longrightarrow> touches R h h''"
  by (simp add: touches_def)

lemma touches_set: "i \<in> R \<Longrightarrow> touches R h (h[i := m])"
  by (auto simp: touches_def) (metis nth_list_update_neq)

lemma touches_erase:
  assumes "erase_dp h' = erase_dp h"
  shows "touches R h h'"
proof -
  have "length h' = length h" using assms by (metis length_erase_dp)
  then show ?thesis using erase_dp_nth [OF assms] by (simp add: touches_def)
qed

lemma q_inv_touches:
  assumes "q_inv R q h" and "touches S h h'" and "R \<inter> S = {}"
  shows "q_inv R q h'"
proof (rule q_inv_heap [OF assms(1)])
  show "length h' = length h" using assms(2) by (simp add: touches_def)
  have f: "(h' ! i)\<lparr>m_downstreamPending := False\<rparr> = (h ! i)\<lparr>m_downstreamPending := False\<rparr>" if "i \<in> R" for i
    using that assms by (auto simp: touches_def q_inv_def)
  show "m_inService (h' ! i) = m_inService (h ! i) \<and> mshr_ok (h' ! i) \<and> few_targets (h' ! i)" if "i \<in> R" for i
    using dp_fields [OF f [OF that]] that assms(1) by (simp add: q_inv_def)
  show "reg_free (h' ! i)" if "i \<in> set (q_freeList q)" for i
  proof -
    have "i \<in> R" using that assms(1) by (auto simp: q_inv_def)
    then show ?thesis using dp_fields(4) [OF f] that assms(1) by (simp add: q_inv_def)
  qed
qed

lemma q_allocate_touches:
  assumes "q_inv R q h" and "q_allocate now a sz pkt t ord q h = Inr (i, q', h')"
  shows "touches R h h'"
proof -
  obtain free where i: "q_freeList q = i # free" and h': "mshr_allocate now i a sz pkt t ord h = Inr h'"
    using assms(2) by (auto simp: q_allocate_def res_simps Let_def split: list.splits)
  have "i \<in> R" "i < length h" "reg_free (h ! i)" using assms(1) i by (auto simp: q_inv_def)
  then show ?thesis
    using mshr_allocate_eff [OF h'] touches_erase touches_set touches_trans by metis
qed

lemma q_deallocate_touches:
  assumes "q_inv R q h" and "q_deallocateOne i q h = Inr (q', h')"
  shows "touches R h h'"
proof -
  have "i \<in> set (q_allocatedList q)" "\<exists>m. h' = h[i := m]"
    using assms(2) by (auto simp: q_deallocateOne_def res_simps Let_def split: if_splits)
  moreover have "i \<in> R" using calculation(1) assms(1) by (auto simp: q_inv_def)
  ultimately show ?thesis using touches_set by auto
qed

lemma q_markInService_touches:
  assumes "q_inv R q h" and "q_markInService i q h = Inr (q', h')" and "i \<in> set (q_allocatedList q)"
  shows "touches R h h'"
proof -
  obtain b h1 where m: "mshr_markInService i h = Inr (b, h1)"
    and rest: "b \<Longrightarrow> q_deallocateOne i q h1 = Inr (q', h')" "\<not> b \<Longrightarrow> h' = h1"
    using assms(2) by (auto simp: q_markInService_def q_deallocate_def res_simps split: if_splits)
  have R: "i \<in> R" using assms(1,3) by (auto simp: q_inv_def)
  note eff = mshr_markInService_eff [OF m q_inv_less [OF assms(1,3)]]
  have "touches R h h1"
    by (cases b) (use eff(2,3) touches_erase touches_set [OF R] touches_trans in \<open>(metis upd_mshr_def)+\<close>)
  moreover have "\<exists>m. h' = h1[i := m]" if b
    using rest(1) [OF that] by (auto simp: q_deallocateOne_def res_simps Let_def split: if_splits)
  ultimately show ?thesis using rest(2) touches_set [OF R] touches_trans by (cases b) metis+
qed

text \<open>When a register is free and the sender's register is not already waiting, allocation succeeds.\<close>

definition upstream_idle :: "Packet \<Rightarrow> heap \<Rightarrow> bool" where
  "upstream_idle pkt h = (case sender_mshr pkt h of None \<Rightarrow> True | Some s \<Rightarrow> \<not> m_downstreamPending (h ! s))"

lemma mshr_allocate_total:
  assumes "reg_free (h ! i)" and "i < length h" and "upstream_idle pkt h"
  shows "\<exists>h'. mshr_allocate now i a sz pkt t ord h = Inr h'"
proof -
  define f where "f = (\<lambda>m. m\<lparr>m_addr := a, m_size := sz, m_readyTime := t, m_order := ord,
     m_isForward := False, m_isUncacheable := req_isUncacheable (p_req pkt),
     m_inService := False, m_downstreamPending := False, m_threadNum := 0, m_ntargets := 1\<rparr> :: MSHR)"
  define h1 where "h1 = upd_mshr i f h"
  have t1: "m_targets (h1 ! i) = m_targets (h ! i)" "m_deferredTargets (h1 ! i) = m_deferredTargets (h ! i)"
    using assms(2) by (simp_all add: h1_def nth_upd_mshr f_def)
  have "\<exists>h2. mark_upstream pkt h1 = Inr h2 \<and> length h2 = length h1 \<and>
      m_deferredTargets (h2 ! i) = m_deferredTargets (h1 ! i)"
  proof (cases "sender_mshr pkt h1")
    case (Some s)
    then have s: "s < length h" "sender_mshr pkt h = Some s"
      using sender_mshr_less [OF Some] by (auto simp: h1_def sender_mshr_def split: option.splits if_splits)
    then have "\<not> m_downstreamPending (h1 ! s)"
      using assms(2,3) by (cases "s = i") (auto simp: upstream_idle_def h1_def upd_mshr_def f_def)
    then show ?thesis
      using Some s(1) by (auto simp: mark_upstream_def h1_def nth_upd_mshr)
  qed (simp add: mark_upstream_def)
  then obtain h2 where "mark_upstream pkt h1 = Inr h2" "length h2 = length h1"
    "m_deferredTargets (h2 ! i) = m_deferredTargets (h1 ! i)" by blast
  then show ?thesis
    using assms(1,2) t1 unfolding mshr_allocate_def Let_def f_def [symmetric] h1_def [symmetric]
    by (auto simp: add_target_def reg_free_def nth_upd_mshr h1_def)
qed

lemma q_allocate_total:
  assumes "q_inv R q h" and "q_freeList q \<noteq> []" and "upstream_idle pkt h"
  shows "\<exists>i q' h'. q_allocate now a sz pkt t ord q h = Inr (i, q', h')"
proof -
  obtain i free where i: "q_freeList q = i # free" using assms(2) by (cases "q_freeList q") auto
  have r: "reg_free (h ! i)" "i < length h" using assms(1) i by (auto simp: q_inv_def)
  obtain h' where h': "mshr_allocate now i a sz pkt t ord h = Inr h'" using mshr_allocate_total [OF r assms(3)] by blast
  obtain ready where "addToReadyList h' i (q_readyList q) = Inr ready" using addToReadyList_total by blast
  then show ?thesis using r h' i by (auto simp: q_allocate_def reg_free_def getNumTargets_def)
qed

section \<open>Reachable states\<close>

text \<open>
  The histories of a queue of \<open>n\<close> entries with reserve \<open>r\<close>: its own operations, those of
  its registers, and changes of pending flags by the caches below and above.  A request
  is marked pending again only after its deferred targets were promoted, as the cache's
  \<open>handleResponse\<close> does; the number of targets of a register stays below \<open>2^16\<close>.
\<close>

inductive mq_reach :: "int \<Rightarrow> int \<Rightarrow> MSHRQueue \<Rightarrow> heap \<Rightarrow> bool" for n r where
  init: "mq_reach n r (MSHRQueue_new 0 n r idx) (replicate (nat (n + r - 1)) MSHR_new @ others)"
| allocate: "mq_reach n r q h \<Longrightarrow> q_allocate now a sz pkt t ord q h = Inr (i, q', h') \<Longrightarrow> mq_reach n r q' h'"
| deallocate: "mq_reach n r q h \<Longrightarrow> q_deallocate i q h = Inr (q', h') \<Longrightarrow> mq_reach n r q' h'"
| service: "mq_reach n r q h \<Longrightarrow> i \<in> set (q_allocatedList q) \<Longrightarrow> q_markInService i q h = Inr (q', h') \<Longrightarrow>
    mq_reach n r q' h'"
| pending: "mq_reach n r q h \<Longrightarrow> i \<in> set (q_allocatedList q) \<Longrightarrow> tl_list (m_deferredTargets (h ! i)) = [] \<Longrightarrow>
    q_markPending i q h = Inr (q', h') \<Longrightarrow> mq_reach n r q' h'"
| front: "mq_reach n r q h \<Longrightarrow> q_moveToFront i q h = Inr q' \<Longrightarrow> mq_reach n r q' h"
| target: "mq_reach n r q h \<Longrightarrow> i \<in> set (q_allocatedList q) \<Longrightarrow>
    mshr_allocateTarget now i pkt t ord h = Inr h' \<Longrightarrow> few_targets (h' ! i) \<Longrightarrow> mq_reach n r q h'"
| snoop: "mq_reach n r q h \<Longrightarrow> i \<in> set (q_allocatedList q) \<Longrightarrow>
    mshr_handleSnoop now i pkt ord h = Inr (b, pkt', h') \<Longrightarrow> few_targets (h' ! i) \<Longrightarrow> mq_reach n r q h'"
| fill: "mq_reach n r q h \<Longrightarrow> i \<in> set (q_allocatedList q) \<Longrightarrow>
    mshr_handleFill i pkt h = Inr (pkt', h') \<Longrightarrow> few_targets (h' ! i) \<Longrightarrow> mq_reach n r q h'"
| promote: "mq_reach n r q h \<Longrightarrow> i \<in> set (q_allocatedList q) \<Longrightarrow>
    mshr_promoteDeferredTargets now (h ! i) = Inr (b, m) \<Longrightarrow> few_targets m \<Longrightarrow> mq_reach n r q (h[i := m])"
| pop: "mq_reach n r q h \<Longrightarrow> i \<in> set (q_allocatedList q) \<Longrightarrow> popTarget (h ! i) = Inr m \<Longrightarrow> mq_reach n r q (h[i := m])"
| flags: "mq_reach n r q h \<Longrightarrow> erase_dp h' = erase_dp h \<Longrightarrow> mq_reach n r q h'"

lemma reg_upd_set:
  "i < length h \<Longrightarrow> mshr_ok m \<Longrightarrow> m_inService m = m_inService (h ! i) \<Longrightarrow> reg_upd i h (h[i := m])"
  by (simp add: reg_upd_def)

lemma mq_reach_inv: "mq_reach n r q h \<Longrightarrow> q_inv {..<nat (n + r - 1)} q h \<and>
  q_numEntries q = n + r - 1 \<and> q_numReserve q = r"
proof (induction rule: mq_reach.induct)
  case (init idx others)
  have "reg_free MSHR_new" "few_targets MSHR_new"
    by (simp_all add: reg_free_def few_targets_def MSHR_new_def TargetList_new_def tl_isReset_def)
  then show ?case
    using mshr_ok_new by (auto simp: MSHRQueue_new_def q_inv_def nth_append)
next
  case (allocate q h now a sz pkt t ord i q' h')
  then have "q_numEntries q' = q_numEntries q \<and> q_numReserve q' = q_numReserve q"
    by (auto simp: q_allocate_def res_simps Let_def split: list.splits)
  then show ?case using allocate q_inv_allocate(1) by metis
next
  case (deallocate q h i q' h')
  then have "q_numEntries q' = q_numEntries q \<and> q_numReserve q' = q_numReserve q"
    by (auto simp: q_deallocate_def q_deallocateOne_def res_simps Let_def split: if_splits)
  then show ?case using deallocate q_inv_deallocate unfolding q_deallocate_def by metis
next
  case (service q h i q' h')
  then have "q_numEntries q' = q_numEntries q \<and> q_numReserve q' = q_numReserve q"
    by (auto simp: q_markInService_def q_deallocate_def q_deallocateOne_def res_simps Let_def split: if_splits)
  then show ?case using service q_inv_markInService by metis
next
  case (pending q h i q' h')
  then have "q_numEntries q' = q_numEntries q \<and> q_numReserve q' = q_numReserve q"
    by (auto simp: q_markPending_def res_simps Let_def)
  then show ?case using pending q_inv_markPending by metis
next
  case (front q h i q')
  then have "q_numEntries q' = q_numEntries q \<and> q_numReserve q' = q_numReserve q"
    by (auto simp: q_moveToFront_def res_simps split: if_splits)
  then show ?case using front q_inv_moveToFront by metis
next
  case (target q h i now pkt t ord h')
  have "i < length h" "mshr_ok (h ! i)" using target.IH target.hyps(2) q_inv_alloc by blast+
  then show ?case using target allocateTarget_ok q_inv_reg_upd by metis
next
  case (snoop q h i now pkt ord b pkt' h')
  have "i < length h" "mshr_ok (h ! i)" using snoop.IH snoop.hyps(2) q_inv_alloc by blast+
  then show ?case using snoop handleSnoop_ok q_inv_reg_upd by metis
next
  case (fill q h i pkt pkt' h')
  have "i < length h" "mshr_ok (h ! i)" using fill.IH fill.hyps(2) q_inv_alloc by blast+
  then show ?case using fill handleFill_ok q_inv_reg_upd by metis
next
  case (promote q h i now b m)
  have i: "i < length h" "mshr_ok (h ! i)" using promote.IH promote.hyps(2) q_inv_alloc by blast+
  have "reg_upd i h (h[i := m])"
    using promoteDeferredTargets_ok(1,2) [OF i(2) promote(3)] by (rule reg_upd_set [OF i(1)])
  then show ?case using promote q_inv_reg_upd i(1) by (metis nth_list_update_eq)
next
  case (pop q h i m)
  have i: "i < length h" "mshr_ok (h ! i)" "few_targets (h ! i)" using pop.IH pop.hyps(2) q_inv_alloc by blast+
  have "reg_upd i h (h[i := m])" using popTarget_ok [OF i(2) pop(3)] by (rule reg_upd_set [OF i(1)])
  moreover have "few_targets m" using i(3) pop(3) by (auto simp: few_targets_def popTarget_def split: list.splits)
  ultimately show ?case using pop q_inv_reg_upd i(1) by (metis nth_list_update_eq)
next
  case (flags q h h')
  then show ?case using q_inv_upstream by metis
qed

section \<open>Properties\<close>

text \<open>
  C13: The miss queue.  In every state a queue of \<open>n\<close> entries and reserve \<open>r\<close> can reach,
  each of its \<open>n + r - 1\<close> registers is on exactly one of the allocated and free lists;
  the ready list holds exactly the allocated registers whose request has not been sent;
  the counters are the sizes they stand for; a free register has no targets; targets are
  deferred only behind a request in service, and every register counts its targets; and a
  queue that is not full has at least \<open>r\<close> free registers.
\<close>

theorem mshr_queue_reachable:
  assumes "mq_reach n r q h" and "1 \<le> n" and "1 \<le> r"
  shows "distinct (q_allocatedList q @ q_freeList q) \<and>
    set (q_allocatedList q @ q_freeList q) = {..<nat (n + r - 1)} \<and>
    distinct (q_readyList q) \<and> set (q_readyList q) = {i \<in> set (q_allocatedList q). \<not> m_inService (h ! i)} \<and>
    q_allocated q = int (length (q_allocatedList q)) \<and>
    q_inServiceEntries q = int (length (q_allocatedList q)) - int (length (q_readyList q)) \<and>
    (\<forall>i \<in> set (q_freeList q). reg_free (h ! i)) \<and> (\<forall>i < nat (n + r - 1). mshr_ok (h ! i)) \<and>
    (\<not> q_isFull q \<longrightarrow> r \<le> int (length (q_freeList q)))"
proof -
  have inv: "q_inv {..<nat (n + r - 1)} q h" and ent: "q_numEntries q = n + r - 1" "q_numReserve q = r"
    using mq_reach_inv [OF assms(1)] by simp_all
  have d: "distinct (q_allocatedList q @ q_freeList q)"
    and s: "set (q_allocatedList q @ q_freeList q) = {..<nat (n + r - 1)}"
    and rd: "distinct (q_readyList q)" "set (q_readyList q) = {i \<in> set (q_allocatedList q). \<not> m_inService (h ! i)}"
    using inv by (auto simp: q_inv_def)
  have len: "length (q_allocatedList q) + length (q_freeList q) = nat (n + r - 1)"
    using distinct_card [OF d] s by simp
  have "set (q_readyList q) = set (filter (\<lambda>i. \<not> m_inService (h ! i)) (q_allocatedList q))" using rd by auto
  then have "length (q_readyList q) = length (filter (\<lambda>i. \<not> m_inService (h ! i)) (q_allocatedList q))"
    using d rd(1) by (metis distinct_append distinct_card distinct_filter)
  then have "q_inServiceEntries q = int (length (q_allocatedList q)) - int (length (q_readyList q))"
    using inv sum_length_filter_compl [of "\<lambda>i. m_inService (h ! i)" "q_allocatedList q"] by (simp add: q_inv_def)
  moreover have "r \<le> int (length (q_freeList q))" if "\<not> q_isFull q"
    using that len ent inv assms(2,3) by (auto simp: q_isFull_def q_inv_def)
  ultimately show ?thesis using inv d s rd by (simp add: q_inv_def)
qed

theorem mshr_queue_reachable_witness:
  "\<not> q_isFull (MSHRQueue_new 0 4 2 0) \<and> 2 \<le> int (length (q_freeList (MSHRQueue_new 0 4 2 0)))"
proof -
  have "mq_reach 4 2 (MSHRQueue_new 0 4 2 0) (replicate 5 MSHR_new)"
    using mq_reach.init [of 4 2 0 "[]"] by simp
  from mshr_queue_reachable [OF this] show ?thesis
    by (simp add: q_isFull_def MSHRQueue_new_def)
qed

text \<open>
  The list of requests to send.  Adding a register never runs into the assertion that
  closes the loop, whatever the list; it adds exactly that register, and a list ordered
  by ready time stays ordered.
\<close>

theorem ready_list_order:
  "\<exists>r. addToReadyList h i js = Inr r \<and> set r = insert i (set js) \<and> length r = Suc (length js) \<and>
    (sorted (map (\<lambda>j. m_readyTime (h ! j)) js) \<longrightarrow> sorted (map (\<lambda>j. m_readyTime (h ! j)) r))"
proof -
  obtain r where r: "addToReadyList h i js = Inr r" using addToReadyList_total by blast
  have "sorted (map (\<lambda>j. m_readyTime (h ! j)) r)" if "sorted (map (\<lambda>j. m_readyTime (h ! j)) js)"
  proof (cases "js = [] \<or> m_readyTime (h ! last js) \<le> m_readyTime (h ! i)")
    case True
    then have "r = js @ [i]" using r by (auto simp: addToReadyList_def)
    moreover have "m_readyTime (h ! j) \<le> m_readyTime (h ! i)" if "j \<in> set js" for j
    proof -
      have ne: "js \<noteq> []" using that by auto
      then have "sorted (map (\<lambda>j. m_readyTime (h ! j)) (butlast js @ [last js]))" using \<open>sorted _\<close> by simp
      then have "\<forall>k \<in> set (butlast js). m_readyTime (h ! k) \<le> m_readyTime (h ! last js)"
        by (simp add: sorted_append del: append_butlast_last_id)
      moreover have "j \<in> set (butlast js) \<or> j = last js"
        using that ne by (metis append_butlast_last_id rotate1.simps(2) set_ConsD set_rotate1)
      ultimately show ?thesis using True ne by auto
    qed
    ultimately show ?thesis using that by (auto simp: sorted_append)
  next
    case False
    then show ?thesis using r insert_ready_sorted that by (simp add: addToReadyList_def)
  qed
  moreover have "length r = Suc (length js)"
    using r insert_ready_set [of h i js r] by (auto simp: addToReadyList_def split: if_splits)
  ultimately show ?thesis using r addToReadyList_set(1) [OF r] by blast
qed

theorem ready_list_order_witness:
  "\<exists>r. addToReadyList [MSHR_new\<lparr>m_readyTime := 5\<rparr>, MSHR_new\<lparr>m_readyTime := 9\<rparr>, MSHR_new\<lparr>m_readyTime := 7\<rparr>] 2 [0, 1] = Inr r \<and>
     set r = {0, 1, 2} \<and> length r = 3"
  using ready_list_order [of "[MSHR_new\<lparr>m_readyTime := 5\<rparr>, MSHR_new\<lparr>m_readyTime := 9\<rparr>, MSHR_new\<lparr>m_readyTime := 7\<rparr>]" 2 "[0, 1]"]
  by (auto simp: insert_commute)

end
