(* ===== verification/Timing_Port.thy ===== *)
theory Timing_Port
  imports Packet
begin

text \<open>
  The outgoing side of a port, \<open>mem/tport.{hh,cc}\<close>: packets waiting for the time at
  which they may be sent, and the event that sends them.

  \<open>sendEvent\<close> is the time the event is scheduled for, \<open>None\<close> when it is not.  The
  scheduler's assertions (an event is scheduled once, and not in the past) are part of
  \<open>tp_schedule\<close> and \<open>tp_reschedule\<close>.  The peer's \<open>recvTiming\<close>, which \<open>sendTiming\<close> calls
  and which may call back into this port, is an argument of the operations that send.
  \<open>ms\<close> is the length of a millisecond in ticks, a global of the simulator.
\<close>

section \<open>State\<close>

record SimpleTimingPort =
  tp_transmitList :: "(Tick \<times> Packet) list"
  tp_sendEvent :: "Tick option"
  tp_drainEvent :: bool
  tp_waitingOnRetry :: bool
  tp_drained :: nat

definition SimpleTimingPort_new :: SimpleTimingPort where
  "SimpleTimingPort_new = \<lparr>tp_transmitList = [], tp_sendEvent = None, tp_drainEvent = False,
     tp_waitingOnRetry = False, tp_drained = 0\<rparr>"

section \<open>Scheduling\<close>

definition tp_schedule :: "Tick \<Rightarrow> Tick \<Rightarrow> SimpleTimingPort \<Rightarrow> SimpleTimingPort res" where
  "tp_schedule curTick t s =
     guard_res AssertFail (curTick \<le> t)
       (guard_res AssertFail (tp_sendEvent s = None) (Inr (s\<lparr>tp_sendEvent := Some t\<rparr>)))"

definition tp_reschedule :: "Tick \<Rightarrow> Tick \<Rightarrow> SimpleTimingPort \<Rightarrow> SimpleTimingPort res" where
  "tp_reschedule curTick t s =
     guard_res AssertFail (curTick \<le> t)
       (guard_res AssertFail (tp_sendEvent s \<noteq> None) (Inr (s\<lparr>tp_sendEvent := Some t\<rparr>)))"

definition deferredPacketReady :: "Tick \<Rightarrow> SimpleTimingPort \<Rightarrow> bool" where
  "deferredPacketReady curTick s =
     (case tp_transmitList s of [] \<Rightarrow> False | (t, _) # _ \<Rightarrow> t \<le> curTick)"

definition deferredPacketReadyTime :: "SimpleTimingPort \<Rightarrow> Tick" where
  "deferredPacketReadyTime s = (case tp_transmitList s of [] \<Rightarrow> MaxTick | (t, _) # _ \<Rightarrow> t)"

definition schedSendEvent :: "Tick \<Rightarrow> Tick \<Rightarrow> SimpleTimingPort \<Rightarrow> SimpleTimingPort res" where
  "schedSendEvent curTick t s =
     (if tp_waitingOnRetry s then guard_res AssertFail (tp_sendEvent s = None) (Inr s)
      else (case tp_sendEvent s of
              None \<Rightarrow> tp_schedule curTick t s
            | Some u \<Rightarrow> if u > t then tp_reschedule curTick t s else Inr s))"

fun insert_middle :: "Tick \<Rightarrow> Packet \<Rightarrow> (Tick \<times> Packet) list \<Rightarrow> ((Tick \<times> Packet) list) res" where
  "insert_middle t pkt [] = Inl AssertFail"
| "insert_middle t pkt (d # ds) =
     (if t < fst d then Inr ((t, pkt) # d # ds)
      else bind_res (insert_middle t pkt ds) (\<lambda>r. Inr (d # r)))"

definition schedSendTiming :: "Tick \<Rightarrow> Tick \<Rightarrow> Packet \<Rightarrow> Tick \<Rightarrow> SimpleTimingPort \<Rightarrow> SimpleTimingPort res" where
  "schedSendTiming ms curTick pkt t s =
     guard_res AssertFail (t > curTick)
     (guard_res AssertFail (t < curTick + ms)
       (case tp_transmitList s of
          [] \<Rightarrow> schedSendEvent curTick t (s\<lparr>tp_transmitList := [(t, pkt)]\<rparr>)
        | d # ds \<Rightarrow>
            if t < fst d then schedSendEvent curTick t (s\<lparr>tp_transmitList := (t, pkt) # d # ds\<rparr>)
            else if t \<ge> fst (last (d # ds)) then Inr (s\<lparr>tp_transmitList := (d # ds) @ [(t, pkt)]\<rparr>)
            else bind_res (insert_middle t pkt ds) (\<lambda>ds. Inr (s\<lparr>tp_transmitList := d # ds\<rparr>))))"

section \<open>Sending\<close>

type_synonym send_fun = "Packet \<Rightarrow> SimpleTimingPort \<Rightarrow> (bool \<times> SimpleTimingPort) res"

definition sendDeferredPacket :: "send_fun \<Rightarrow> Tick \<Rightarrow> SimpleTimingPort \<Rightarrow> SimpleTimingPort res" where
  "sendDeferredPacket sendTiming curTick s =
     (case tp_transmitList s of
        [] \<Rightarrow> Inl AssertFail
      | (t, pkt) # rest \<Rightarrow>
          guard_res AssertFail (t \<le> curTick)
          (bind_res (sendTiming pkt (s\<lparr>tp_transmitList := rest\<rparr>)) (\<lambda>(success, s).
           bind_res
             (if success
              then bind_res
                     (case tp_transmitList s of
                        [] \<Rightarrow> Inr s
                      | (u, _) # _ \<Rightarrow>
                          if tp_sendEvent s = None
                          then tp_schedule curTick (if u \<le> curTick then curTick + 1 else u) s
                          else Inr s) (\<lambda>s.
                   Inr (if tp_transmitList s = [] \<and> tp_drainEvent s \<and> tp_sendEvent s = None
                        then s\<lparr>tp_drained := tp_drained s + 1, tp_drainEvent := False\<rparr> else s))
              else guard_res AssertFail (tp_sendEvent s = None)
                     (Inr (s\<lparr>tp_transmitList := (t, pkt) # tp_transmitList s\<rparr>))) (\<lambda>s.
           Inr (s\<lparr>tp_waitingOnRetry := \<not> success\<rparr>)))))"

text \<open>The event fires at its time and is no longer scheduled when its action runs.\<close>

definition tp_processSendEvent :: "send_fun \<Rightarrow> Tick \<Rightarrow> SimpleTimingPort \<Rightarrow> SimpleTimingPort res" where
  "tp_processSendEvent sendTiming curTick s =
     guard_res AssertFail (\<not> tp_waitingOnRetry s) (sendDeferredPacket sendTiming curTick s)"

definition tp_recvRetry :: "send_fun \<Rightarrow> Tick \<Rightarrow> SimpleTimingPort \<Rightarrow> SimpleTimingPort res" where
  "tp_recvRetry sendTiming curTick s =
     guard_res AssertFail (tp_waitingOnRetry s) (sendDeferredPacket sendTiming curTick s)"

definition tp_drain :: "SimpleTimingPort \<Rightarrow> nat \<times> SimpleTimingPort" where
  "tp_drain s =
     (if length (tp_transmitList s) = 0 \<and> tp_sendEvent s = None then (0, s)
      else (1, s\<lparr>tp_drainEvent := True\<rparr>))"

section \<open>Receiving\<close>

fun transmit_checkFunctional ::
  "Packet \<Rightarrow> (Tick \<times> Packet) list \<Rightarrow> (bool \<times> Packet \<times> (Tick \<times> Packet) list) res" where
  "transmit_checkFunctional pkt [] = Inr (False, pkt, [])"
| "transmit_checkFunctional pkt ((t, target) # ds) =
     bind_res (checkFunctional_pkt pkt target) (\<lambda>(done, pkt, target, _).
       if done then Inr (True, pkt, (t, target) # ds)
       else bind_res (transmit_checkFunctional pkt ds) (\<lambda>(b, pkt, ds). Inr (b, pkt, (t, target) # ds)))"

definition tp_checkFunctional :: "Packet \<Rightarrow> SimpleTimingPort \<Rightarrow> (bool \<times> Packet \<times> SimpleTimingPort) res" where
  "tp_checkFunctional pkt s =
     bind_res (transmit_checkFunctional pkt (tp_transmitList s)) (\<lambda>(b, pkt, ds).
       Inr (b, pkt, s\<lparr>tp_transmitList := ds\<rparr>))"

text \<open>\<open>recvFunctional\<close> and \<open>recvTiming\<close>, with the derived class's \<open>recvAtomic\<close> as an argument.\<close>

definition tp_recvFunctional ::
  "(Packet \<Rightarrow> (Tick \<times> Packet) res) \<Rightarrow> Packet \<Rightarrow> SimpleTimingPort \<Rightarrow> (Packet \<times> SimpleTimingPort) res" where
  "tp_recvFunctional recvAtomic pkt s =
     bind_res (tp_checkFunctional pkt s) (\<lambda>(done, pkt, s).
       if \<not> done then bind_res (recvAtomic pkt) (\<lambda>(_, pkt). Inr (pkt, s)) else Inr (pkt, s))"

definition tp_recvTiming ::
  "(Packet \<Rightarrow> (Tick \<times> Packet) res) \<Rightarrow> Tick \<Rightarrow> Tick \<Rightarrow> Packet \<Rightarrow> SimpleTimingPort \<Rightarrow> (bool \<times> SimpleTimingPort) res" where
  "tp_recvTiming recvAtomic ms curTick pkt s =
     (if memInhibitAsserted pkt then Inr (True, s)
      else (let needsResponse = pkt_needsResponse pkt
            in bind_res (recvAtomic pkt) (\<lambda>(latency, pkt).
               if needsResponse
               then guard_res AssertFail (pkt_isResponse pkt)
                      (bind_res (schedSendTiming ms curTick pkt (curTick + latency) s) (\<lambda>s. Inr (True, s)))
               else Inr (True, s))))"

section \<open>Order of the list\<close>

definition by_time :: "(Tick \<times> Packet) list \<Rightarrow> bool" where
  "by_time ds \<longleftrightarrow> sorted (map fst ds)"

text \<open>A packet goes behind the packets for the same or an earlier tick.\<close>

definition insert_packet :: "Tick \<Rightarrow> Packet \<Rightarrow> (Tick \<times> Packet) list \<Rightarrow> (Tick \<times> Packet) list" where
  "insert_packet t pkt ds = filter (\<lambda>d. fst d \<le> t) ds @ (t, pkt) # filter (\<lambda>d. t < fst d) ds"

lemma by_time_Cons: "by_time (d # ds) \<longleftrightarrow> (\<forall>x \<in> set ds. fst d \<le> fst x) \<and> by_time ds"
  by (simp add: by_time_def)

lemma by_time_insert: "by_time ds \<Longrightarrow> by_time (insert_packet t pkt ds)"
  by (auto simp: insert_packet_def by_time_def sorted_append sorted_map intro: sorted_wrt_filter)

lemma insert_packet_all_later: "\<forall>d \<in> set ds. t < fst d \<Longrightarrow> insert_packet t pkt ds = (t, pkt) # ds"
  by (auto simp: insert_packet_def filter_id_conv filter_empty_conv not_le)

lemma insert_packet_all_earlier: "\<forall>d \<in> set ds. fst d \<le> t \<Longrightarrow> insert_packet t pkt ds = ds @ [(t, pkt)]"
  by (auto simp: insert_packet_def filter_id_conv filter_empty_conv not_less)

lemma by_time_last:
  assumes "by_time ds" and "d \<in> set ds"
  shows "fst d \<le> fst (last ds)"
  using assms by (induction ds) (auto simp: by_time_Cons split: if_splits)

lemma insert_middle_eq:
  assumes "by_time ds" and "ds \<noteq> []" and "t < fst (last ds)"
  shows "insert_middle t pkt ds = Inr (insert_packet t pkt ds)"
  using assms
proof (induction ds)
  case (Cons d ds)
  show ?case
  proof (cases "t < fst d")
    case True
    then have "\<forall>x \<in> set (d # ds). t < fst x" using Cons.prems(1) by (auto simp: by_time_Cons)
    then show ?thesis using True insert_packet_all_later by simp
  next
    case False
    then have "ds \<noteq> []" using Cons.prems(3) by auto
    then have "insert_middle t pkt ds = Inr (insert_packet t pkt ds)"
      using Cons False by (auto simp: by_time_Cons)
    then show ?thesis using False by (simp add: insert_packet_def)
  qed
qed simp

section \<open>Invariant\<close>

text \<open>
  A scheduled event finds a packet that is due, and is no later than the first packet
  or the next tick; no event is scheduled while the port waits for a retry.
\<close>

definition event_ok :: "Tick \<Rightarrow> SimpleTimingPort \<Rightarrow> bool" where
  "event_ok now s \<longleftrightarrow> by_time (tp_transmitList s) \<and>
     (\<forall>t. tp_sendEvent s = Some t \<longrightarrow> \<not> tp_waitingOnRetry s \<and> tp_transmitList s \<noteq> [] \<and> now \<le> t \<and>
        fst (hd (tp_transmitList s)) \<le> t \<and> t \<le> max (fst (hd (tp_transmitList s))) (now + 1))"

definition tp_inv :: "Tick \<Rightarrow> SimpleTimingPort \<Rightarrow> bool" where
  "tp_inv now s \<longleftrightarrow> event_ok now s \<and>
     (tp_waitingOnRetry s \<longrightarrow> tp_transmitList s \<noteq> [] \<and> fst (hd (tp_transmitList s)) \<le> now) \<and>
     (tp_transmitList s \<noteq> [] \<longrightarrow> tp_waitingOnRetry s \<or> tp_sendEvent s \<noteq> None)"

lemma insert_packet_not_Nil [simp]: "insert_packet t pkt ds \<noteq> []"
  by (simp add: insert_packet_def)

lemma hd_insert_packet:
  "by_time ds \<Longrightarrow> hd (insert_packet t pkt ds) = (if ds \<noteq> [] \<and> fst (hd ds) \<le> t then hd ds else (t, pkt))"
  by (cases ds) (auto simp: insert_packet_def by_time_Cons filter_empty_conv hd_append)

text \<open>\<open>schedSendTiming\<close> always returns for a time it accepts, and keeps the list in order.\<close>

lemma schedSendTiming_spec:
  assumes "event_ok now s" and "now < t" and "t < now + ms"
  obtains s' where "schedSendTiming ms now pkt t s = Inr s'" "event_ok now s'"
    "tp_transmitList s' = insert_packet t pkt (tp_transmitList s)"
    "tp_waitingOnRetry s' = tp_waitingOnRetry s" "tp_drainEvent s' = tp_drainEvent s" "tp_drained s' = tp_drained s"
    "tp_sendEvent s = None \<Longrightarrow> \<not> tp_waitingOnRetry s \<Longrightarrow> tp_transmitList s = [] \<Longrightarrow> tp_sendEvent s' \<noteq> None"
    "tp_sendEvent s \<noteq> None \<Longrightarrow> tp_sendEvent s' \<noteq> None"
proof -
  have bt: "by_time (tp_transmitList s)" using assms(1) by (simp add: event_ok_def)
  show thesis
  proof (cases "tp_transmitList s = [] \<or> t < fst (hd (tp_transmitList s))")
    case True
    then have ins: "insert_packet t pkt (tp_transmitList s) = (t, pkt) # tp_transmitList s"
      using bt by (intro insert_packet_all_later) (cases "tp_transmitList s"; fastforce simp: by_time_Cons)
    define s1 where "s1 = s\<lparr>tp_transmitList := (t, pkt) # tp_transmitList s\<rparr>"
    have eq: "schedSendTiming ms now pkt t s = schedSendEvent now t s1"
      using True assms(2,3) by (cases "tp_transmitList s") (auto simp: schedSendTiming_def s1_def)
    have bt1: "by_time ((t, pkt) # tp_transmitList s)" using by_time_insert [OF bt, of t pkt] by (simp add: ins)
    show thesis
    proof (cases "tp_waitingOnRetry s")
      case w: True
      then have "tp_sendEvent s = None" using assms(1) by (auto simp: event_ok_def)
      then have "schedSendEvent now t s1 = Inr s1" using w by (simp add: schedSendEvent_def s1_def)
      then show thesis using that [of s1] eq w \<open>tp_sendEvent s = None\<close> bt1 ins by (simp add: s1_def event_ok_def)
    next
      case nw: False
      have "u > t" if "tp_sendEvent s = Some u" for u
        using that assms(1,2) True by (auto simp: event_ok_def)
      then have "schedSendEvent now t s1 = Inr (s1\<lparr>tp_sendEvent := Some t\<rparr>)"
        using nw assms(2) by (auto simp: schedSendEvent_def tp_schedule_def tp_reschedule_def s1_def split: option.splits)
      then show thesis using that [of "s1\<lparr>tp_sendEvent := Some t\<rparr>"] eq nw assms(2) bt1 ins
        by (simp add: s1_def event_ok_def)
    qed
  next
    case False
    then obtain d ds where l: "tp_transmitList s = d # ds" "fst d \<le> t" by (cases "tp_transmitList s") auto
    define s1 where "s1 = s\<lparr>tp_transmitList := insert_packet t pkt (d # ds)\<rparr>"
    have ev: "event_ok now s1"
      using assms(1) l by_time_insert [of "d # ds" t pkt] hd_insert_packet [of "d # ds" t pkt]
      by (auto simp: event_ok_def s1_def)
    have eq: "schedSendTiming ms now pkt t s = Inr s1"
    proof (cases "t \<ge> fst (last (d # ds))")
      case True
      then have "\<forall>x \<in> set (d # ds). fst x \<le> t" using by_time_last bt l(1) by (metis order.trans)
      from insert_packet_all_earlier [OF this] show ?thesis
        using True l assms(2,3) by (simp add: schedSendTiming_def s1_def)
    next
      case F: False
      then have "ds \<noteq> []" using l(2) by auto
      then have "insert_middle t pkt ds = Inr (insert_packet t pkt ds)"
        using F bt l(1) by (intro insert_middle_eq) (auto simp: by_time_Cons)
      then show ?thesis
        using F l assms(2,3) by (simp add: schedSendTiming_def s1_def insert_packet_def)
    qed
    show thesis by (rule that [OF eq ev]) (use l in \<open>simp_all add: s1_def\<close>)
  qed
qed

section \<open>Runs\<close>

text \<open>
  A peer that accepts a packet may schedule further packets on the port before it
  returns; one that refuses it leaves the port alone.
\<close>

fun sched_all :: "Tick \<Rightarrow> Tick \<Rightarrow> (Packet \<times> Tick) list \<Rightarrow> SimpleTimingPort \<Rightarrow> SimpleTimingPort res" where
  "sched_all ms now [] s = Inr s"
| "sched_all ms now ((pkt, t) # ps) s = bind_res (schedSendTiming ms now pkt t s) (sched_all ms now ps)"

definition peer_ok :: "Tick \<Rightarrow> Tick \<Rightarrow> send_fun \<Rightarrow> bool" where
  "peer_ok ms now send \<longleftrightarrow> (\<forall>pkt s b s'. send pkt s = Inr (b, s') \<longrightarrow>
     (if b then \<exists>ps. sched_all ms now ps s = Inr s' else s' = s))"

inductive tp_reach :: "Tick \<Rightarrow> Tick \<Rightarrow> SimpleTimingPort \<Rightarrow> bool" for ms where
  init: "tp_reach ms now SimpleTimingPort_new"
| time: "tp_reach ms now s \<Longrightarrow> now \<le> now' \<Longrightarrow> \<forall>t. tp_sendEvent s = Some t \<longrightarrow> now' \<le> t \<Longrightarrow> tp_reach ms now' s"
| sched: "tp_reach ms now s \<Longrightarrow> schedSendTiming ms now pkt t s = Inr s' \<Longrightarrow> tp_reach ms now s'"
| fire: "tp_reach ms now s \<Longrightarrow> tp_sendEvent s = Some now \<Longrightarrow> peer_ok ms now send \<Longrightarrow>
    tp_processSendEvent send now (s\<lparr>tp_sendEvent := None\<rparr>) = Inr s' \<Longrightarrow> tp_reach ms now s'"
| retry: "tp_reach ms now s \<Longrightarrow> peer_ok ms now send \<Longrightarrow> tp_recvRetry send now s = Inr s' \<Longrightarrow> tp_reach ms now s'"
| drain: "tp_reach ms now s \<Longrightarrow> tp_drain s = (n, s') \<Longrightarrow> tp_reach ms now s'"

lemma schedSendTiming_eff:
  assumes "event_ok now s" and "schedSendTiming ms now pkt t s = Inr s'"
  shows "event_ok now s'" "tp_waitingOnRetry s' = tp_waitingOnRetry s"
    "tp_transmitList s' = insert_packet t pkt (tp_transmitList s)"
    "tp_sendEvent s \<noteq> None \<Longrightarrow> tp_sendEvent s' \<noteq> None"
    "\<not> tp_waitingOnRetry s \<Longrightarrow> tp_transmitList s = [] \<Longrightarrow> tp_sendEvent s' \<noteq> None"
proof -
  have t: "now < t" "t < now + ms" using assms(2) by (auto simp: schedSendTiming_def res_simps)
  obtain s1 where s1: "schedSendTiming ms now pkt t s = Inr s1" "event_ok now s1"
    "tp_transmitList s1 = insert_packet t pkt (tp_transmitList s)"
    "tp_waitingOnRetry s1 = tp_waitingOnRetry s"
    "tp_sendEvent s = None \<Longrightarrow> \<not> tp_waitingOnRetry s \<Longrightarrow> tp_transmitList s = [] \<Longrightarrow> tp_sendEvent s1 \<noteq> None"
    "tp_sendEvent s \<noteq> None \<Longrightarrow> tp_sendEvent s1 \<noteq> None"
    by (rule schedSendTiming_spec [OF assms(1) t, of pkt]) blast
  moreover have "s1 = s'" using s1(1) assms(2) by simp
  ultimately show "event_ok now s'" "tp_waitingOnRetry s' = tp_waitingOnRetry s"
    "tp_transmitList s' = insert_packet t pkt (tp_transmitList s)"
    "tp_sendEvent s \<noteq> None \<Longrightarrow> tp_sendEvent s' \<noteq> None"
    "\<not> tp_waitingOnRetry s \<Longrightarrow> tp_transmitList s = [] \<Longrightarrow> tp_sendEvent s' \<noteq> None"
    by auto
qed

lemma sched_all_eff:
  assumes "sched_all ms now ps s = Inr s'" and "event_ok now s"
  shows "event_ok now s' \<and> tp_waitingOnRetry s' = tp_waitingOnRetry s"
  using assms
proof (induction ps arbitrary: s)
  case (Cons p ps)
  then show ?case by (cases p) (auto simp: res_simps dest: schedSendTiming_eff)
qed simp

text \<open>What sending keeps: the port ends waiting for a retry with its packet, or ready.\<close>

lemma sendDeferredPacket_inv:
  assumes "peer_ok ms now send" and "sendDeferredPacket send now s = Inr s'"
    and "event_ok now s" and "tp_sendEvent s = None"
  shows "tp_inv now s'"
proof -
  obtain t pkt rest where l0: "tp_transmitList s = (t, pkt) # rest"
    using assms(2) by (cases "tp_transmitList s") (auto simp: sendDeferredPacket_def)
  then obtain b s1 where l: "tp_transmitList s = (t, pkt) # rest" "t \<le> now"
    and s1: "send pkt (s\<lparr>tp_transmitList := rest\<rparr>) = Inr (b, s1)"
    using assms(2) by (auto simp: sendDeferredPacket_def bind_res_Inr guard_res_Inr)
  have e0: "event_ok now (s\<lparr>tp_transmitList := rest\<rparr>)"
    using assms(3,4) l by (simp add: event_ok_def by_time_Cons)
  show ?thesis
  proof (cases b)
    case True
    obtain ps where ps: "sched_all ms now ps (s\<lparr>tp_transmitList := rest\<rparr>) = Inr s1"
      using assms(1) s1 True unfolding peer_ok_def by (metis (full_types))
    have e1: "event_ok now s1" using sched_all_eff [OF ps e0] by simp
    have bt: "by_time (tp_transmitList s1)" using e1 by (simp add: event_ok_def)
    show ?thesis
    proof (cases "tp_transmitList s1 = [] \<or> tp_sendEvent s1 \<noteq> None")
      case T: True
      then have "tp_transmitList s' = tp_transmitList s1 \<and> tp_sendEvent s' = tp_sendEvent s1 \<and> \<not> tp_waitingOnRetry s'"
        using assms(2) l s1 True
        by (cases "tp_transmitList s1") (auto simp: sendDeferredPacket_def)
      then show ?thesis using e1 T by (auto simp: tp_inv_def event_ok_def)
    next
      case F: False
      then obtain u q qs where u: "tp_transmitList s1 = (u, q) # qs" by (cases "tp_transmitList s1") auto
      then have "s' = s1\<lparr>tp_sendEvent := Some (if u \<le> now then now + 1 else u), tp_waitingOnRetry := False\<rparr>"
        using assms(2) l s1 True F by (auto simp: sendDeferredPacket_def tp_schedule_def)
      then show ?thesis using bt u by (auto simp: tp_inv_def event_ok_def)
    qed
  next
    case False
    then have "s1 = s\<lparr>tp_transmitList := rest\<rparr>" using assms(1) s1 by (simp add: peer_ok_def)
    then have "s' = s\<lparr>tp_waitingOnRetry := True\<rparr>"
      using assms(2,4) l s1 False by (auto simp: sendDeferredPacket_def)
    then show ?thesis using assms(3,4) l by (simp add: tp_inv_def event_ok_def)
  qed
qed

lemma tp_reach_inv: "tp_reach ms now s \<Longrightarrow> tp_inv now s"
proof (induction rule: tp_reach.induct)
  case (init now)
  then show ?case by (simp add: tp_inv_def event_ok_def SimpleTimingPort_new_def by_time_def)
next
  case (time now s now')
  then show ?case by (auto simp: tp_inv_def event_ok_def)
next
  case (sched now s pkt t s')
  have "event_ok now s" using sched.IH by (simp add: tp_inv_def)
  note eff = schedSendTiming_eff [OF this sched.hyps(2)]
  have bt: "by_time (tp_transmitList s)" using sched.IH by (simp add: tp_inv_def event_ok_def)
  show ?case using eff sched.IH hd_insert_packet [OF bt, of t pkt] unfolding tp_inv_def
    by (cases "tp_transmitList s = []") (auto simp: tp_inv_def schedSendTiming_def res_simps)
next
  case (fire now s send s')
  have "tp_inv now s'"
    using fire by (intro sendDeferredPacket_inv [OF fire.hyps(3)])
      (auto simp: tp_processSendEvent_def res_simps tp_inv_def event_ok_def)
  then show ?case .
next
  case (retry now s send s')
  then show ?case by (intro sendDeferredPacket_inv [OF retry.hyps(2)])
      (auto simp: tp_recvRetry_def res_simps tp_inv_def event_ok_def)
next
  case (drain now s n s')
  then show ?case by (auto simp: tp_drain_def tp_inv_def event_ok_def split: if_splits)
qed

section \<open>Properties\<close>

text \<open>
  C14: The outgoing port.  In every state a port can reach, whatever its peer accepts,
  refuses or sends back while it is called: the packets are ordered by their ticks; a
  packet that waits is never forgotten, the port either waits for a retry or its event is
  scheduled for the first packet's tick, at the latest for the next tick; no event is
  scheduled while it waits for a retry; and when the event fires the first packet is due,
  so that none of the assertions of sending can fail.
\<close>

theorem port_never_stuck:
  assumes "tp_reach ms now s"
  shows "by_time (tp_transmitList s) \<and>
    (tp_transmitList s \<noteq> [] \<longrightarrow> tp_waitingOnRetry s \<or>
       (\<exists>t. tp_sendEvent s = Some t \<and> now \<le> t \<and> t \<le> max (fst (hd (tp_transmitList s))) (now + 1))) \<and>
    (tp_waitingOnRetry s \<longrightarrow> tp_sendEvent s = None) \<and>
    (tp_sendEvent s = Some now \<longrightarrow> (\<exists>s'. tp_processSendEvent (\<lambda>_ s. Inr (b, s)) now (s\<lparr>tp_sendEvent := None\<rparr>) = Inr s'))"
proof -
  have inv: "tp_inv now s" by (rule tp_reach_inv [OF assms])
  have "\<exists>s'. tp_processSendEvent (\<lambda>_ s. Inr (b, s)) now (s\<lparr>tp_sendEvent := None\<rparr>) = Inr s'"
    if "tp_sendEvent s = Some now"
    using inv that by (cases "tp_transmitList s")
      (auto simp: tp_processSendEvent_def sendDeferredPacket_def tp_inv_def event_ok_def tp_schedule_def split: list.splits)
  then show ?thesis using inv by (auto simp: tp_inv_def event_ok_def)
qed

text \<open>
  Deferred packets.  Scheduling a packet for a tick in the future puts it behind every
  packet for the same or an earlier tick and before every later one; packets for the same
  tick leave in the order in which they were scheduled.
\<close>

theorem schedSendTiming_stable:
  assumes "tp_reach ms now s" and "now < t" and "t < now + ms"
  shows "\<exists>s'. schedSendTiming ms now pkt t s = Inr s' \<and>
    tp_transmitList s' = filter (\<lambda>d. fst d \<le> t) (tp_transmitList s) @ (t, pkt) #
      filter (\<lambda>d. t < fst d) (tp_transmitList s)"
proof -
  have "event_ok now s" using tp_reach_inv [OF assms(1)] by (simp add: tp_inv_def)
  then obtain s' where "schedSendTiming ms now pkt t s = Inr s'"
    "tp_transmitList s' = insert_packet t pkt (tp_transmitList s)"
    by (rule schedSendTiming_spec [OF _ assms(2,3), of s pkt])
  then show ?thesis by (auto simp: insert_packet_def)
qed

lemma demo_port_reach:
  "tp_reach 100 0 (SimpleTimingPort_new\<lparr>tp_transmitList := [(5, example_read)], tp_sendEvent := Some 5\<rparr>)"
  by (rule tp_reach.sched [OF tp_reach.init, of 100 0 example_read 5])
    (simp add: schedSendTiming_def schedSendEvent_def tp_schedule_def SimpleTimingPort_new_def)

theorem port_never_stuck_witness:
  "\<exists>s s'. tp_reach 100 5 s \<and> tp_sendEvent s = Some 5 \<and> tp_transmitList s \<noteq> [] \<and>
     tp_processSendEvent (\<lambda>_ s. Inr (False, s)) 5 (s\<lparr>tp_sendEvent := None\<rparr>) = Inr s'"
proof -
  let ?s = "SimpleTimingPort_new\<lparr>tp_transmitList := [(5, example_read)], tp_sendEvent := Some 5\<rparr>"
  have "tp_reach 100 5 ?s" by (rule tp_reach.time [OF demo_port_reach]) simp_all
  then show ?thesis using port_never_stuck [of 100 5 ?s False] by auto
qed

theorem schedSendTiming_stable_witness:
  "\<exists>s'. schedSendTiming 100 0 example_write 5
      (SimpleTimingPort_new\<lparr>tp_transmitList := [(5, example_read)], tp_sendEvent := Some 5\<rparr>) = Inr s' \<and>
    tp_transmitList s' = [(5, example_read), (5, example_write)]"
  using schedSendTiming_stable [OF demo_port_reach, of 5 example_write] by simp

end
