(* ===== verification/Cache_Base.thy ===== *)
theory Cache_Base
  imports Mshr_Queue Timing_Port
begin

unbundle bit_operations_syntax

text \<open>
  The part of a cache that does not depend on its tags, \<open>mem/cache/base.{hh,cc}\<close>: the two
  queues of miss registers, the reasons for which the cache refuses requests, its ports
  and its counters.

  The registers of both queues, and those of other caches a packet's \<open>senderState\<close> may
  point to, form one heap.  Each port extends \<open>SimpleTimingPort\<close>; \<open>cp_retries\<close> holds the
  ticks of the retry events it has scheduled.  \<open>FULL_SYSTEM\<close> is off, as in the build of
  the repository (\<open>compile.sh\<close>).  The counters of the statistics package are functions of
  their indexes; derived formulas and the registration of statistics are not modelled.
\<close>

section \<open>State\<close>

datatype MSHRQueueIndex = MSHRQueue_MSHRs | MSHRQueue_WriteBuffer

datatype BlockedCause = Blocked_NoMSHRs | Blocked_NoWBBuffers | Blocked_NoTargets | NUM_BLOCKED_CAUSES

fun cause_index :: "BlockedCause \<Rightarrow> nat" where
  "cause_index Blocked_NoMSHRs = 0"
| "cause_index Blocked_NoWBBuffers = 1"
| "cause_index Blocked_NoTargets = 2"
| "cause_index NUM_BLOCKED_CAUSES = 3"

fun queue_cause :: "MSHRQueueIndex \<Rightarrow> BlockedCause" where
  "queue_cause MSHRQueue_MSHRs = Blocked_NoMSHRs"
| "queue_cause MSHRQueue_WriteBuffer = Blocked_NoWBBuffers"

record CachePort =
  cp_port :: SimpleTimingPort
  cp_blocked :: bool
  cp_mustSendRetry :: bool
  cp_retries :: "Tick list"

definition CachePort_new :: CachePort where
  "CachePort_new = \<lparr>cp_port = SimpleTimingPort_new, cp_blocked = False, cp_mustSendRetry = False, cp_retries = []\<rparr>"

record BaseCacheParams =
  cpar_mshrs :: int
  cpar_write_buffers :: int
  cpar_block_size :: nat
  cpar_latency :: int
  cpar_tgts_per_mshr :: int
  cpar_forward_snoops :: bool
  cpar_max_miss_count :: int
  cpar_num_cpus :: int

record BaseCache =
  c_cpuSidePort :: CachePort
  c_memSidePort :: CachePort
  c_mshrQueue :: MSHRQueue
  c_writeBuffer :: MSHRQueue
  c_heap :: heap
  c_blkSize :: nat
  c_hitLatency :: int
  c_numTarget :: int
  c_forwardSnoops :: bool
  c_blocked :: "8 word"
  c_order :: int
  c_blockedCycle :: Tick
  c_noTargetMSHR :: "nat option"
  c_missCount :: int
  c_numCpus :: int
  c_exit :: bool
  c_hits :: "Command \<Rightarrow> nat \<Rightarrow> nat"
  c_misses :: "Command \<Rightarrow> nat \<Rightarrow> nat"
  c_mshr_hits :: "Command \<Rightarrow> nat"
  c_mshr_misses :: "Command \<Rightarrow> nat"
  c_blocked_causes :: "nat \<Rightarrow> nat"
  c_blocked_cycles :: "nat \<Rightarrow> Tick"
  c_writebacks :: nat
  c_prefetchHits :: nat

text \<open>
  The constructor.  It leaves \<open>order\<close> and \<open>blockedCycle\<close> without a value, so they are
  arguments here; the queues' registers come first in the heap, those of other caches
  behind them.
\<close>

definition BaseCache_new :: "BaseCacheParams \<Rightarrow> int \<Rightarrow> Tick \<Rightarrow> heap \<Rightarrow> BaseCache" where
  "BaseCache_new p order0 cycle0 others =
     (let n = nat (cpar_mshrs p + 4 - 1); w = nat (cpar_write_buffers p + (cpar_mshrs p + 1000) - 1)
      in \<lparr>c_cpuSidePort = CachePort_new, c_memSidePort = CachePort_new,
          c_mshrQueue = MSHRQueue_new 0 (cpar_mshrs p) 4 0,
          c_writeBuffer = MSHRQueue_new n (cpar_write_buffers p) (cpar_mshrs p + 1000) 1,
          c_heap = replicate (n + w) MSHR_new @ others,
          c_blkSize = cpar_block_size p, c_hitLatency = cpar_latency p, c_numTarget = cpar_tgts_per_mshr p,
          c_forwardSnoops = cpar_forward_snoops p, c_blocked = 0, c_order = order0, c_blockedCycle = cycle0,
          c_noTargetMSHR = None, c_missCount = cpar_max_miss_count p, c_numCpus = cpar_num_cpus p,
          c_exit = False, c_hits = (\<lambda>_ _. 0), c_misses = (\<lambda>_ _. 0), c_mshr_hits = (\<lambda>_. 0),
          c_mshr_misses = (\<lambda>_. 0), c_blocked_causes = (\<lambda>_. 0), c_blocked_cycles = (\<lambda>_. 0),
          c_writebacks = 0, c_prefetchHits = 0\<rparr>)"

fun c_queue :: "MSHRQueueIndex \<Rightarrow> BaseCache \<Rightarrow> MSHRQueue" where
  "c_queue MSHRQueue_MSHRs c = c_mshrQueue c"
| "c_queue MSHRQueue_WriteBuffer c = c_writeBuffer c"

fun c_set_queue :: "MSHRQueueIndex \<Rightarrow> MSHRQueue \<Rightarrow> BaseCache \<Rightarrow> BaseCache" where
  "c_set_queue MSHRQueue_MSHRs q c = c\<lparr>c_mshrQueue := q\<rparr>"
| "c_set_queue MSHRQueue_WriteBuffer q c = c\<lparr>c_writeBuffer := q\<rparr>"

section \<open>Ports\<close>

definition cp_setBlocked :: "CachePort \<Rightarrow> CachePort res" where
  "cp_setBlocked p =
     guard_res AssertFail (\<not> cp_blocked p) (Inr (p\<lparr>cp_blocked := True, cp_mustSendRetry := False\<rparr>))"

definition cp_clearBlocked :: "Tick \<Rightarrow> CachePort \<Rightarrow> CachePort res" where
  "cp_clearBlocked curTick p =
     guard_res AssertFail (cp_blocked p)
       (let p = p\<lparr>cp_blocked := False\<rparr>
        in Inr (if cp_mustSendRetry p
                then p\<lparr>cp_mustSendRetry := False, cp_retries := cp_retries p @ [curTick + 1]\<rparr> else p))"

definition requestBus :: "Tick \<Rightarrow> Tick \<Rightarrow> CachePort \<Rightarrow> CachePort res" where
  "requestBus curTick time p =
     (if \<not> tp_waitingOnRetry (cp_port p)
      then bind_res (schedSendEvent curTick time (cp_port p)) (\<lambda>s. Inr (p\<lparr>cp_port := s\<rparr>))
      else Inr p)"

definition respond :: "Tick \<Rightarrow> Tick \<Rightarrow> Packet \<Rightarrow> Tick \<Rightarrow> CachePort \<Rightarrow> CachePort res" where
  "respond ms curTick pkt time p =
     bind_res (schedSendTiming ms curTick pkt time (cp_port p)) (\<lambda>s. Inr (p\<lparr>cp_port := s\<rparr>))"

definition recvRetryCommon :: "CachePort \<Rightarrow> (bool \<times> CachePort) res" where
  "recvRetryCommon p =
     guard_res AssertFail (tp_waitingOnRetry (cp_port p))
       (Inr (False, p\<lparr>cp_port := (cp_port p)\<lparr>tp_waitingOnRetry := False\<rparr>\<rparr>))"

definition cp_checkFunctional :: "Packet \<Rightarrow> CachePort \<Rightarrow> (bool \<times> Packet \<times> CachePort) res" where
  "cp_checkFunctional pkt p =
     bind_res (tp_checkFunctional pkt (cp_port p)) (\<lambda>(b, pkt, s). Inr (b, pkt, p\<lparr>cp_port := s\<rparr>))"

text \<open>
  Draining asks both ports; the cache's own \<open>drainEvent\<close> is set but never read.  A change of the
  address ranges is passed on by the other port (\<open>tell\<close>).
\<close>

definition bc_drain :: "BaseCache \<Rightarrow> nat \<times> BaseCache" where
  "bc_drain c =
     (case tp_drain (cp_port (c_memSidePort c)) of (n, m) \<Rightarrow>
      case tp_drain (cp_port (c_cpuSidePort c)) of (k, p) \<Rightarrow>
        (n + k, c\<lparr>c_memSidePort := (c_memSidePort c)\<lparr>cp_port := m\<rparr>, c_cpuSidePort := (c_cpuSidePort c)\<lparr>cp_port := p\<rparr>\<rparr>))"

definition bc_init :: "bool \<Rightarrow> bool \<Rightarrow> ('w \<Rightarrow> 'w) \<Rightarrow> 'w \<Rightarrow> 'w res" where
  "bc_init hasCpuSide hasMemSide tell w = guard_res Panic (hasCpuSide \<and> hasMemSide) (Inr (tell w))"

definition cp_recvStatusChange :: "bool \<Rightarrow> ('w \<Rightarrow> 'w) \<Rightarrow> 'w \<Rightarrow> 'w" where
  "cp_recvStatusChange rangeChange tell w = (if rangeChange then tell w else w)"

definition cp_deviceBlockSize :: "BaseCache \<Rightarrow> nat" where
  "cp_deviceBlockSize c = c_blkSize c"

section \<open>Blocking\<close>

definition isBlocked :: "BaseCache \<Rightarrow> bool" where
  "isBlocked c \<longleftrightarrow> c_blocked c \<noteq> 0"

definition setBlocked :: "Tick \<Rightarrow> BlockedCause \<Rightarrow> BaseCache \<Rightarrow> BaseCache res" where
  "setBlocked curTick cause c =
     (let flag = push_bit (cause_index cause) 1
      in bind_res
           (if c_blocked c = 0
            then (let c = c\<lparr>c_blocked_causes := (c_blocked_causes c)
                              (cause_index cause := c_blocked_causes c (cause_index cause) + 1),
                            c_blockedCycle := curTick\<rparr>
                  in bind_res (cp_setBlocked (c_cpuSidePort c)) (\<lambda>p. Inr (c\<lparr>c_cpuSidePort := p\<rparr>)))
            else Inr c) (\<lambda>c.
         Inr (c\<lparr>c_blocked := c_blocked c OR flag\<rparr>)))"

definition clearBlocked :: "Tick \<Rightarrow> BlockedCause \<Rightarrow> BaseCache \<Rightarrow> BaseCache res" where
  "clearBlocked curTick cause c =
     (let flag = push_bit (cause_index cause) 1;
          c = c\<lparr>c_blocked := c_blocked c AND NOT flag\<rparr>
      in if c_blocked c = 0
         then (let c = c\<lparr>c_blocked_cycles := (c_blocked_cycles c)
                           (cause_index cause := c_blocked_cycles c (cause_index cause) + (curTick - c_blockedCycle c))\<rparr>
               in bind_res (cp_clearBlocked curTick (c_cpuSidePort c)) (\<lambda>p. Inr (c\<lparr>c_cpuSidePort := p\<rparr>)))
         else Inr c)"

definition requestMemSideBus :: "Tick \<Rightarrow> Tick \<Rightarrow> BaseCache \<Rightarrow> BaseCache res" where
  "requestMemSideBus curTick time c =
     bind_res (requestBus curTick time (c_memSidePort c)) (\<lambda>p. Inr (c\<lparr>c_memSidePort := p\<rparr>))"

section \<open>Buffers\<close>

definition blockAlign :: "BaseCache \<Rightarrow> Addr \<Rightarrow> Addr" where
  "blockAlign c addr = addr AND NOT (of_nat (c_blkSize c) - 1)"

definition allocateBufferInternal ::
  "Tick \<Rightarrow> MSHRQueueIndex \<Rightarrow> Addr \<Rightarrow> int \<Rightarrow> Packet \<Rightarrow> Tick \<Rightarrow> bool \<Rightarrow> BaseCache \<Rightarrow> (nat \<times> BaseCache) res" where
  "allocateBufferInternal curTick ix addr sz pkt time reqBus c =
     bind_res (q_allocate curTick addr sz pkt time (c_order c) (c_queue ix c) (c_heap c)) (\<lambda>(i, q, h).
       let c = c_set_queue ix q (c\<lparr>c_order := c_order c + 1, c_heap := h\<rparr>)
       in bind_res (if q_isFull q then setBlocked curTick (queue_cause ix) c else Inr c) (\<lambda>c.
          bind_res (if reqBus then requestMemSideBus curTick time c else Inr c) (\<lambda>c.
          Inr (i, c))))"

definition markInServiceInternal :: "Tick \<Rightarrow> MSHRQueueIndex \<Rightarrow> nat \<Rightarrow> BaseCache \<Rightarrow> BaseCache res" where
  "markInServiceInternal curTick ix i c =
     (let wasFull = q_isFull (c_queue ix c)
      in bind_res (q_markInService i (c_queue ix c) (c_heap c)) (\<lambda>(q, h).
         let c = c_set_queue ix q (c\<lparr>c_heap := h\<rparr>)
         in if wasFull \<and> \<not> q_isFull q then clearBlocked curTick (queue_cause ix) c else Inr c))"

definition allocateMissBuffer :: "Tick \<Rightarrow> Packet \<Rightarrow> Tick \<Rightarrow> bool \<Rightarrow> BaseCache \<Rightarrow> (nat \<times> BaseCache) res" where
  "allocateMissBuffer curTick pkt time reqBus c =
     guard_res AssertFail (\<not> req_isUncacheable (p_req pkt))
     (bind_res (getAddr pkt) (\<lambda>a.
        allocateBufferInternal curTick MSHRQueue_MSHRs (blockAlign c a) (int (c_blkSize c)) pkt time reqBus c))"

definition allocateWriteBuffer :: "Tick \<Rightarrow> Packet \<Rightarrow> Tick \<Rightarrow> bool \<Rightarrow> BaseCache \<Rightarrow> (nat \<times> BaseCache) res" where
  "allocateWriteBuffer curTick pkt time reqBus c =
     guard_res AssertFail (pkt_isWrite pkt \<and> \<not> pkt_isRead pkt)
     (bind_res (getAddr pkt) (\<lambda>a. bind_res (getSize pkt) (\<lambda>sz.
        allocateBufferInternal curTick MSHRQueue_WriteBuffer a (sint sz) pkt time reqBus c)))"

definition allocateUncachedReadBuffer :: "Tick \<Rightarrow> Packet \<Rightarrow> Tick \<Rightarrow> bool \<Rightarrow> BaseCache \<Rightarrow> (nat \<times> BaseCache) res" where
  "allocateUncachedReadBuffer curTick pkt time reqBus c =
     guard_res AssertFail (req_isUncacheable (p_req pkt))
     (guard_res AssertFail (pkt_isRead pkt)
     (bind_res (getAddr pkt) (\<lambda>a. bind_res (getSize pkt) (\<lambda>sz.
        allocateBufferInternal curTick MSHRQueue_MSHRs a (sint sz) pkt time reqBus c))))"

section \<open>Counters\<close>

text \<open>
  The counter of a command and a context.  The remainder of \<open>-1\<close> in C is \<open>-1\<close> unless there
  is one processor; a vector statistic asserts that its index is in range.
\<close>

definition stat_bucket :: "Command \<Rightarrow> int \<Rightarrow> BaseCache \<Rightarrow> nat res" where
  "stat_bucket cmd cid c =
     (if cmd = Writeback then guard_res AssertFail (cid = -1) (Inr 0)
      else guard_res AssertFail (0 \<le> cid \<or> cid = -1 \<and> c_numCpus c = 1) (Inr (nat (cid mod c_numCpus c))))"

definition incMissCount :: "Packet \<Rightarrow> int \<Rightarrow> BaseCache \<Rightarrow> BaseCache res" where
  "incMissCount pkt cid c =
     bind_res (stat_bucket (p_cmd pkt) cid c) (\<lambda>k.
       let cmd = p_cmd pkt;
           c = c\<lparr>c_misses := (c_misses c)(cmd := (c_misses c cmd)(k := c_misses c cmd k + 1))\<rparr>
       in Inr (if c_missCount c \<noteq> 0
               then (let c = c\<lparr>c_missCount := c_missCount c - 1\<rparr>
                     in if c_missCount c = 0 then c\<lparr>c_exit := True\<rparr> else c)
               else c))"

definition incHitCount :: "Packet \<Rightarrow> int \<Rightarrow> BaseCache \<Rightarrow> BaseCache res" where
  "incHitCount pkt cid c =
     bind_res (stat_bucket (p_cmd pkt) cid c) (\<lambda>k.
       let cmd = p_cmd pkt
       in Inr (c\<lparr>c_hits := (c_hits c)(cmd := (c_hits c cmd)(k := c_hits c cmd k + 1))\<rparr>))"

section \<open>Invariant\<close>

text \<open>
  The queues own disjoint segments of the heap; the cache refuses requests exactly when
  a queue is full or a register has no room for targets, and its processor-side port
  knows.
\<close>

fun c_regs :: "MSHRQueueIndex \<Rightarrow> BaseCache \<Rightarrow> nat set" where
  "c_regs MSHRQueue_MSHRs c = {..<nat (q_numEntries (c_mshrQueue c))}"
| "c_regs MSHRQueue_WriteBuffer c =
     {nat (q_numEntries (c_mshrQueue c)) ..< nat (q_numEntries (c_mshrQueue c)) + nat (q_numEntries (c_writeBuffer c))}"

definition queues_ok :: "BaseCache \<Rightarrow> bool" where
  "queues_ok c \<longleftrightarrow> (\<forall>ix. q_inv (c_regs ix c) (c_queue ix c) (c_heap c) \<and>
     1 \<le> q_numReserve (c_queue ix c) \<and> q_numReserve (c_queue ix c) \<le> q_numEntries (c_queue ix c))"

definition blocked_for :: "BlockedCause \<Rightarrow> BaseCache \<Rightarrow> bool" where
  "blocked_for cause c = bit (c_blocked c) (cause_index cause)"

definition blocked_ok :: "BaseCache \<Rightarrow> bool" where
  "blocked_ok c \<longleftrightarrow> cp_blocked (c_cpuSidePort c) = isBlocked c \<and>
     (\<forall>ix. blocked_for (queue_cause ix) c = q_isFull (c_queue ix c)) \<and>
     blocked_for Blocked_NoTargets c = (c_noTargetMSHR c \<noteq> None) \<and>
     c_blocked c AND mask 3 = c_blocked c"

lemma all_queues: "(\<forall>ix. P ix) \<longleftrightarrow> P MSHRQueue_MSHRs \<and> P MSHRQueue_WriteBuffer"
  by (metis MSHRQueueIndex.exhaust)

lemma c_queue_set [simp]:
  "c_queue ix (c_set_queue ix' q c) = (if ix = ix' then q else c_queue ix c)"
  "c_heap (c_set_queue ix q c) = c_heap c" "c_blocked (c_set_queue ix q c) = c_blocked c"
  "c_cpuSidePort (c_set_queue ix q c) = c_cpuSidePort c" "c_memSidePort (c_set_queue ix q c) = c_memSidePort c"
  "c_noTargetMSHR (c_set_queue ix q c) = c_noTargetMSHR c" "c_blkSize (c_set_queue ix q c) = c_blkSize c"
  by (cases ix; cases ix'; simp)+

text \<open>Setting and clearing a reason.\<close>

lemma cause_less: "cause \<noteq> NUM_BLOCKED_CAUSES \<Longrightarrow> cause_index cause < 3"
  by (cases cause) simp_all

lemma cause_index_inj [simp]: "cause_index a = cause_index b \<longleftrightarrow> a = b"
  by (cases a; cases b; simp)

definition bits_ok :: "BaseCache \<Rightarrow> bool" where
  "bits_ok c \<longleftrightarrow> cp_blocked (c_cpuSidePort c) = isBlocked c \<and> c_blocked c AND mask 3 = c_blocked c"

definition same_queues :: "BaseCache \<Rightarrow> BaseCache \<Rightarrow> bool" where
  "same_queues c c' \<longleftrightarrow> (\<forall>ix. c_queue ix c' = c_queue ix c) \<and> c_heap c' = c_heap c \<and>
     c_noTargetMSHR c' = c_noTargetMSHR c \<and> c_blkSize c' = c_blkSize c"

lemma same_queues_regs: "same_queues c c' \<Longrightarrow> c_regs ix c' = c_regs ix c"
  unfolding same_queues_def all_queues by (cases ix) simp_all

lemma same_queues_ok: "same_queues c c' \<Longrightarrow> queues_ok c \<Longrightarrow> queues_ok c'"
  using same_queues_regs [of c c'] by (simp add: queues_ok_def same_queues_def)

lemma bit_push_1: "bit (2 ^ m :: 8 word) n \<longleftrightarrow> m = n \<and> n < 8"
  by (auto simp: bit_simps)

lemma setBlocked_spec:
  assumes "bits_ok c" and "cause \<noteq> NUM_BLOCKED_CAUSES"
  obtains c' where "setBlocked now cause c = Inr c'" "bits_ok c'" "same_queues c c'"
    "\<And>x. blocked_for x c' = (blocked_for x c \<or> x = cause)" "c_memSidePort c' = c_memSidePort c"
proof -
  define fl :: "8 word" where "fl = push_bit (cause_index cause) 1"
  have fl: "fl \<noteq> 0" "fl AND mask 3 = fl"
    using assms(2) by (cases cause; simp add: fl_def push_bit_eq_mult mask_eq_exp_minus_1)+
  obtain c1 where c1: "setBlocked now cause c = Inr (c1\<lparr>c_blocked := c_blocked c1 OR fl\<rparr>)"
    "same_queues c c1" "c_blocked c1 = c_blocked c" "cp_blocked (c_cpuSidePort c1)" "c_memSidePort c1 = c_memSidePort c"
    using assms(1) by (cases "c_blocked c = 0")
      (auto simp: setBlocked_def cp_setBlocked_def bits_ok_def isBlocked_def same_queues_def all_queues Let_def fl_def)
  have "c_blocked c OR fl \<noteq> 0" "(c_blocked c OR fl) AND mask 3 = c_blocked c OR fl"
    using fl assms(1) by (simp_all add: or_eq_0_iff bit.conj_disj_distrib2 bits_ok_def)
  then show thesis
  proof (intro that [OF c1(1)])
    show "blocked_for x (c1\<lparr>c_blocked := c_blocked c1 OR fl\<rparr>) = (blocked_for x c \<or> x = cause)" for x
      using cause_less [OF assms(2)] c1(3) by (auto simp: blocked_for_def bit_or_iff fl_def bit_push_1)
  qed (use c1 in \<open>auto simp: bits_ok_def isBlocked_def same_queues_def all_queues\<close>)
qed

lemma clearBlocked_spec:
  assumes "bits_ok c" and "blocked_for cause c"
  obtains c' where "clearBlocked now cause c = Inr c'" "bits_ok c'" "same_queues c c'"
    "\<And>x. blocked_for x c' = (blocked_for x c \<and> x \<noteq> cause)" "c_memSidePort c' = c_memSidePort c"
proof -
  define fl :: "8 word" where "fl = push_bit (cause_index cause) 1"
  have nz: "c_blocked c \<noteq> 0" using assms(2) by (auto simp: blocked_for_def)
  obtain c' where c': "clearBlocked now cause c = Inr c'" "same_queues c c'" "c_blocked c' = c_blocked c AND NOT fl"
    "cp_blocked (c_cpuSidePort c') \<longleftrightarrow> c_blocked c AND NOT fl \<noteq> 0" "c_memSidePort c' = c_memSidePort c"
    using assms(1) nz by (cases "c_blocked c AND NOT fl = 0")
      (auto simp: clearBlocked_def cp_clearBlocked_def bits_ok_def isBlocked_def same_queues_def all_queues Let_def fl_def)
  show thesis
  proof (rule that [OF c'(1)])
    have "(c_blocked c AND NOT fl) AND mask 3 = c_blocked c AND NOT fl"
      using assms(1) by (metis and.assoc and.commute bits_ok_def)
    then show "bits_ok c'" using c' by (simp add: bits_ok_def isBlocked_def)
    show "blocked_for x c' = (blocked_for x c \<and> x \<noteq> cause)" for x
      using c'(3) by (cases x; cases cause; simp add: blocked_for_def bit_and_iff bit_not_iff fl_def bit_push_1)
  qed (use c' in auto)
qed

lemma setBlocked_eff:
  assumes "bits_ok c" and "cause \<noteq> NUM_BLOCKED_CAUSES" and "setBlocked now cause c = Inr c'"
  shows "bits_ok c'" "same_queues c c'" "\<And>x. blocked_for x c' = (blocked_for x c \<or> x = cause)"
  by (rule setBlocked_spec [OF assms(1,2), of now]; use assms(3) in simp)+

lemma clearBlocked_eff:
  assumes "bits_ok c" and "blocked_for cause c" and "clearBlocked now cause c = Inr c'"
  shows "bits_ok c'" "same_queues c c'" "\<And>x. blocked_for x c' = (blocked_for x c \<and> x \<noteq> cause)"
  by (rule clearBlocked_spec [OF assms(1,2), of now]; use assms(3) in simp)+

lemma same_queues_refl [simp]: "same_queues c c"
  by (simp add: same_queues_def)

lemma same_queues_trans: "same_queues c c' \<Longrightarrow> same_queues c' c'' \<Longrightarrow> same_queues c c''"
  by (simp add: same_queues_def)

lemma requestMemSideBus_eff:
  assumes "requestMemSideBus now t c = Inr c'"
  shows "same_queues c c'" "c_blocked c' = c_blocked c" "c_cpuSidePort c' = c_cpuSidePort c"
  using assms by (auto simp: requestMemSideBus_def res_simps same_queues_def all_queues)

lemma requestMemSideBus_total: "now \<le> t \<Longrightarrow> \<exists>c'. requestMemSideBus now t c = Inr c'"
  by (auto simp: requestMemSideBus_def requestBus_def schedSendEvent_def tp_schedule_def tp_reschedule_def
      split: option.splits)

section \<open>What the operations keep\<close>

definition cache_ok :: "BaseCache \<Rightarrow> bool" where
  "cache_ok c \<longleftrightarrow> queues_ok c \<and> blocked_ok c"

lemma q_allocate_counts:
  assumes "q_allocate now a sz pkt t ord q h = Inr (i, q', h')"
  shows "q_numEntries q' = q_numEntries q" "q_numReserve q' = q_numReserve q" "q_allocated q' = q_allocated q + 1"
  using assms by (auto simp: q_allocate_def res_simps Let_def split: list.splits)

lemma q_markInService_counts:
  assumes "q_markInService i q h = Inr (q', h')"
  shows "q_numEntries q' = q_numEntries q" "q_numReserve q' = q_numReserve q" "q_allocated q' \<le> q_allocated q"
  using assms by (auto simp: q_markInService_def q_deallocate_def q_deallocateOne_def res_simps Let_def split: if_splits)

text \<open>Replacing one queue after an operation on its own registers.\<close>

lemma c_regs_disjoint: "ix \<noteq> ix' \<Longrightarrow> c_regs ix c \<inter> c_regs ix' c = {}"
  by (cases ix; cases ix') auto

lemma c_regs_set:
  assumes "q_numEntries q = q_numEntries (c_queue ix c)"
  shows "c_regs ix' (c_set_queue ix q (c\<lparr>c_order := n, c_heap := h\<rparr>)) = c_regs ix' c"
    "c_regs ix' (c_set_queue ix q (c\<lparr>c_heap := h\<rparr>)) = c_regs ix' c"
  using assms by (cases ix; cases ix'; simp)+

lemma queues_ok_set:
  assumes "queues_ok c" and "q_inv (c_regs ix c) q h" and "touches (c_regs ix c) (c_heap c) h"
    and "q_numEntries q = q_numEntries (c_queue ix c)" and "q_numReserve q = q_numReserve (c_queue ix c)"
  shows "queues_ok (c_set_queue ix q (c\<lparr>c_order := n, c_heap := h\<rparr>))"
    "queues_ok (c_set_queue ix q (c\<lparr>c_heap := h\<rparr>))"
proof -
  have other: "q_inv (c_regs ix' c) (c_queue ix' c) h" if "ix' \<noteq> ix" for ix'
    using assms(1,3) c_regs_disjoint [OF that] q_inv_touches unfolding queues_ok_def by blast
  have q: "c_queue ix' (c\<lparr>c_order := n, c_heap := h\<rparr>) = c_queue ix' c" "c_queue ix' (c\<lparr>c_heap := h\<rparr>) = c_queue ix' c" for ix'
    by (cases ix'; simp)+
  show "queues_ok (c_set_queue ix q (c\<lparr>c_order := n, c_heap := h\<rparr>))" "queues_ok (c_set_queue ix q (c\<lparr>c_heap := h\<rparr>))"
    using assms(1,2,4,5) other unfolding queues_ok_def c_regs_set [OF assms(4)] by (simp_all add: q)
qed

lemma queue_cause_simps [simp]:
  "queue_cause ix \<noteq> NUM_BLOCKED_CAUSES" "queue_cause ix \<noteq> Blocked_NoTargets" "Blocked_NoTargets \<noteq> queue_cause ix"
  "queue_cause ix = queue_cause ix' \<longleftrightarrow> ix = ix'"
  by (cases ix; cases ix'; simp)+

lemma blocked_ok_iff:
  "blocked_ok c \<longleftrightarrow> bits_ok c \<and> (\<forall>ix. blocked_for (queue_cause ix) c = q_isFull (c_queue ix c)) \<and>
     blocked_for Blocked_NoTargets c = (c_noTargetMSHR c \<noteq> None)"
  by (auto simp: blocked_ok_def bits_ok_def)

lemma allocateBufferInternal_total:
  assumes "cache_ok c" and "q_freeList (c_queue ix c) \<noteq> []" and "upstream_idle pkt (c_heap c)" and "now \<le> t"
  obtains i c' q' h' where "allocateBufferInternal now ix a sz pkt t b c = Inr (i, c')"
    "q_allocate now a sz pkt t (c_order c) (c_queue ix c) (c_heap c) = Inr (i, q', h')"
proof -
  obtain i q' h' where q: "q_allocate now a sz pkt t (c_order c) (c_queue ix c) (c_heap c) = Inr (i, q', h')"
    using q_allocate_total [OF _ assms(2,3)] assms(1) unfolding cache_ok_def queues_ok_def by metis
  define c1 where "c1 = c_set_queue ix q' (c\<lparr>c_order := c_order c + 1, c_heap := h'\<rparr>)"
  have "bits_ok c1" using assms(1) by (simp add: c1_def cache_ok_def blocked_ok_iff bits_ok_def isBlocked_def)
  then obtain c2 where c2: "(if q_isFull q' then setBlocked now (queue_cause ix) c1 else Inr c1) = Inr c2"
    using setBlocked_spec [of c1 "queue_cause ix" now] by (metis queue_cause_simps(1))
  obtain c3 where "(if b then requestMemSideBus now t c2 else Inr c2) = Inr c3"
    using requestMemSideBus_total [OF assms(4), of c2] by (cases b) auto
  then have "allocateBufferInternal now ix a sz pkt t b c = Inr (i, c3)"
    using q c2 by (simp add: allocateBufferInternal_def c1_def [symmetric])
  then show thesis by (rule that [OF _ q])
qed

lemma allocateBufferInternal_ok:
  assumes "cache_ok c" and "allocateBufferInternal now ix a sz pkt t b c = Inr (i, c')"
  shows "cache_ok c'" "m_addr (c_heap c' ! i) = a" "i \<in> set (q_allocatedList (c_queue ix c'))"
    "c_blkSize c' = c_blkSize c"
proof -
  obtain q' h' c2 where q: "q_allocate now a sz pkt t (c_order c) (c_queue ix c) (c_heap c) = Inr (i, q', h')"
    and c2: "(if q_isFull q' then setBlocked now (queue_cause ix)
        (c_set_queue ix q' (c\<lparr>c_order := c_order c + 1, c_heap := h'\<rparr>))
      else Inr (c_set_queue ix q' (c\<lparr>c_order := c_order c + 1, c_heap := h'\<rparr>))) = Inr c2"
    and c3: "(if b then requestMemSideBus now t c2 else Inr c2) = Inr c'"
    using assms(2) by (auto simp: allocateBufferInternal_def Let_def bind_res_Inr)
  define c1 where "c1 = c_set_queue ix q' (c\<lparr>c_order := c_order c + 1, c_heap := h'\<rparr>)"
  have inv: "q_inv (c_regs ix c) (c_queue ix c) (c_heap c)" using assms(1) by (simp add: cache_ok_def queues_ok_def)
  note cnt = q_allocate_counts [OF q]
  have ok1: "queues_ok c1" unfolding c1_def
    by (rule queues_ok_set) (use assms(1) q_inv_allocate(1) [OF inv q] q_allocate_touches [OF inv q] cnt in \<open>auto simp: cache_ok_def\<close>)
  have b1: "bits_ok c1" using assms(1) by (simp add: c1_def cache_ok_def blocked_ok_iff bits_ok_def isBlocked_def)
  have q1: "c_queue ix' c1 = (if ix' = ix then q' else c_queue ix' c)" for ix' by (cases ix') (simp_all add: c1_def)
  have full: "q_isFull (c_queue ix c) \<Longrightarrow> q_isFull q'" using cnt by (simp add: q_isFull_def)
  have "same_queues c1 c2 \<and> bits_ok c2 \<and> (\<forall>x. blocked_for x c2 = (blocked_for x c1 \<or> q_isFull q' \<and> x = queue_cause ix))"
  proof (cases "q_isFull q'")
    case True
    then have "setBlocked now (queue_cause ix) c1 = Inr c2" using c2 by (simp add: c1_def)
    from setBlocked_eff [OF b1 queue_cause_simps(1) this] show ?thesis using True by simp
  qed (use c2 b1 in \<open>simp add: c1_def\<close>)
  then have c2': "same_queues c1 c2" "bits_ok c2"
    "\<And>x. blocked_for x c2 = (blocked_for x c \<or> q_isFull q' \<and> x = queue_cause ix)"
    by (simp_all add: c1_def blocked_for_def)
  have c3': "same_queues c1 c'" "bits_ok c'" "\<And>x. blocked_for x c' = (blocked_for x c \<or> q_isFull q' \<and> x = queue_cause ix)"
    using c3 c2' requestMemSideBus_eff [of now t c2 c'] same_queues_trans [OF c2'(1)]
    by (auto simp: bits_ok_def isBlocked_def blocked_for_def split: if_splits)
  have q': "c_queue ix' c' = (if ix' = ix then q' else c_queue ix' c)" for ix'
    using c3'(1) q1 by (simp add: same_queues_def)
  have "c_noTargetMSHR c' = c_noTargetMSHR c" using c3'(1) by (simp add: same_queues_def c1_def)
  then have "blocked_ok c'"
    using assms(1) c3'(2,3) full q' by (auto simp: blocked_ok_iff cache_ok_def)
  then show "cache_ok c'" using same_queues_ok [OF c3'(1) ok1] by (simp add: cache_ok_def)
  have "c_heap c' = h'" "c_blkSize c' = c_blkSize c" using c3'(1) by (simp_all add: same_queues_def c1_def)
  then show "m_addr (c_heap c' ! i) = a" "i \<in> set (q_allocatedList (c_queue ix c'))" "c_blkSize c' = c_blkSize c"
    using q_inv_allocate(2,3) [OF inv q] by (simp_all add: q')
qed

text \<open>
  After an operation that takes nothing into a queue: the reason for blocking is cleared
  when the queue was full and is no longer.
\<close>

lemma release_queue:
  assumes "cache_ok c" and "q_inv (c_regs ix c) q' h'" and "touches (c_regs ix c) (c_heap c) h'"
    and "q_numEntries q' = q_numEntries (c_queue ix c)" "q_numReserve q' = q_numReserve (c_queue ix c)"
      "q_allocated q' \<le> q_allocated (c_queue ix c)"
  obtains c' where
    "(if q_isFull (c_queue ix c) \<and> \<not> q_isFull q'
      then clearBlocked now (queue_cause ix) (c_set_queue ix q' (c\<lparr>c_heap := h'\<rparr>))
      else Inr (c_set_queue ix q' (c\<lparr>c_heap := h'\<rparr>))) = Inr c'"
    "cache_ok c'" "same_queues (c_set_queue ix q' (c\<lparr>c_heap := h'\<rparr>)) c'" "c_memSidePort c' = c_memSidePort c"
proof -
  define c1 where "c1 = c_set_queue ix q' (c\<lparr>c_heap := h'\<rparr>)"
  have ok1: "queues_ok c1" unfolding c1_def
    by (rule queues_ok_set) (use assms in \<open>auto simp: cache_ok_def\<close>)
  have b1: "bits_ok c1" using assms(1) by (simp add: c1_def cache_ok_def blocked_ok_iff bits_ok_def isBlocked_def)
  have f1: "blocked_for x c1 = blocked_for x c" for x by (simp add: c1_def blocked_for_def)
  have q1: "c_queue ix' c1 = (if ix' = ix then q' else c_queue ix' c)" for ix' by (cases ix') (simp_all add: c1_def)
  have full: "q_isFull q' \<Longrightarrow> q_isFull (c_queue ix c)" using assms(4-6) by (simp add: q_isFull_def)
  have b: "blocked_for (queue_cause ix') c = q_isFull (c_queue ix' c)" for ix'
    using assms(1) by (simp add: cache_ok_def blocked_ok_iff)
  obtain c' where c': "(if q_isFull (c_queue ix c) \<and> \<not> q_isFull q' then clearBlocked now (queue_cause ix) c1 else Inr c1) = Inr c'"
    "same_queues c1 c'" "bits_ok c'" "c_memSidePort c' = c_memSidePort c1"
    "\<And>x. blocked_for x c' = (blocked_for x c \<and> \<not> (q_isFull (c_queue ix c) \<and> \<not> q_isFull q' \<and> x = queue_cause ix))"
  proof (cases "q_isFull (c_queue ix c) \<and> \<not> q_isFull q'")
    case True
    then have "blocked_for (queue_cause ix) c1" using f1 b by simp
    from clearBlocked_spec [OF b1 this, of now] show thesis using that f1 True by metis
  qed (use that [of c1] b1 f1 in auto)
  have q'': "c_queue ix' c' = (if ix' = ix then q' else c_queue ix' c)" for ix'
    using c'(2) q1 by (simp add: same_queues_def)
  have "c_noTargetMSHR c' = c_noTargetMSHR c" using c'(2) by (simp add: same_queues_def c1_def)
  then have "blocked_ok c'"
    using assms(1) c'(3,5) full b q'' by (auto simp: blocked_ok_iff cache_ok_def)
  then have "cache_ok c'" using same_queues_ok [OF c'(2) ok1] by (simp add: cache_ok_def)
  then show thesis using that [OF c'(1) [unfolded c1_def]] c'(2,4) by (simp add: c1_def)
qed

lemma markInServiceInternal_ok:
  assumes "cache_ok c" and "markInServiceInternal now ix i c = Inr c'" and "i \<in> set (q_allocatedList (c_queue ix c))"
  shows "cache_ok c'"
proof -
  obtain q' h' where q: "q_markInService i (c_queue ix c) (c_heap c) = Inr (q', h')"
    and c': "(if q_isFull (c_queue ix c) \<and> \<not> q_isFull q'
      then clearBlocked now (queue_cause ix) (c_set_queue ix q' (c\<lparr>c_heap := h'\<rparr>))
      else Inr (c_set_queue ix q' (c\<lparr>c_heap := h'\<rparr>))) = Inr c'"
    using assms(2) by (auto simp: markInServiceInternal_def Let_def bind_res_Inr)
  have inv: "q_inv (c_regs ix c) (c_queue ix c) (c_heap c)" using assms(1) by (simp add: cache_ok_def queues_ok_def)
  show ?thesis
    using release_queue [OF assms(1) q_inv_markInService [OF inv q assms(3)] q_markInService_touches [OF inv q assms(3)]
        q_markInService_counts [OF q], of now] c' by (metis sum.inject(2))
qed

text \<open>A register with its last target gone is freed.\<close>

lemma release_register:
  assumes "cache_ok c" and "i \<in> set (q_allocatedList (c_queue ix c))" and "tl_list (m_targets (c_heap c ! i)) = [t]"
    and "tl_list (m_deferredTargets (c_heap c ! i)) = []"
  obtains m q h where "popTarget (c_heap c ! i) = Inr m" "tl_list (m_targets m) = []" "tl_list (m_deferredTargets m) = []"
    "q_deallocate i (c_queue ix c) ((c_heap c)[i := m]) = Inr (q, h)" "q_inv (c_regs ix c) q h" "touches (c_regs ix c) (c_heap c) h"
    "q_numEntries q = q_numEntries (c_queue ix c)" "q_numReserve q = q_numReserve (c_queue ix c)"
    "q_allocated q = q_allocated (c_queue ix c) - 1" "i \<notin> set (q_allocatedList q)"
proof -
  let ?q = "c_queue ix c" and ?m = "c_heap c ! i"
  have inv: "q_inv (c_regs ix c) ?q (c_heap c)" using assms(1) unfolding cache_ok_def queues_ok_def by simp
  note alloc = q_inv_alloc [OF inv assms(2)]
  have R: "i \<in> c_regs ix c" using inv assms(2) by (auto simp: q_inv_def)
  define m where "m = ?m\<lparr>m_ntargets := m_ntargets ?m - 1, m_targets := (m_targets ?m)\<lparr>tl_list := []\<rparr>\<rparr>"
  have pop: "popTarget ?m = Inr m" using assms(3) by (simp add: popTarget_def m_def)
  note mok = popTarget_ok [OF alloc(2) pop]
  have few: "few_targets m" using alloc(3) by (simp add: few_targets_def m_def)
  have inv1: "q_inv (c_regs ix c) ?q ((c_heap c)[i := m])"
    by (rule q_inv_reg_upd [OF inv assms(2) reg_upd_set [OF alloc(1) mok]]) (use few alloc(1) in simp)
  have none: "tl_isReset (m_deferredTargets ?m)" "m_ntargets ?m = 1" using alloc(2) assms(3,4) by (auto simp: mshr_ok_def)
  obtain m' where m': "mshr_deallocate m = Inr m'" using none by (simp add: mshr_deallocate_def m_def Let_def)
  have ready: "\<not> m_inService m \<Longrightarrow> i \<in> set (q_readyList ?q)" using inv assms(2) mok(2) by (simp add: q_inv_def)
  obtain q h where d: "q_deallocateOne i ?q ((c_heap c)[i := m]) = Inr (q, h)"
    "q_allocated q = q_allocated ?q - 1" "q_numEntries q = q_numEntries ?q" "q_numReserve q = q_numReserve ?q"
    "q_allocatedList q = remove1 i (q_allocatedList ?q)"
    using m' ready alloc(1) assms(2) by (cases "m_inService m") (auto simp: q_deallocateOne_def Let_def)
  have "touches (c_regs ix c) (c_heap c) h"
    by (rule touches_trans [OF touches_set [OF R] q_deallocate_touches [OF inv1 d(1)]])
  moreover have "distinct (q_allocatedList ?q)" using inv by (simp add: q_inv_def)
  ultimately show thesis
    using pop d q_inv_deallocate [OF inv1 d(1)] assms(4)
    by (intro that [of m q h]) (simp_all add: q_deallocate_def m_def)
qed

text \<open>A queue that is not full has a free register.\<close>

lemma free_register:
  assumes "cache_ok c" and "\<not> q_isFull (c_queue ix c)"
  shows "q_freeList (c_queue ix c) \<noteq> []"
proof
  assume none: "q_freeList (c_queue ix c) = []"
  have inv: "q_inv (c_regs ix c) (c_queue ix c) (c_heap c)" "1 \<le> q_numReserve (c_queue ix c)"
    using assms(1) by (simp_all add: cache_ok_def queues_ok_def)
  then have "set (q_allocatedList (c_queue ix c)) = c_regs ix c" "distinct (q_allocatedList (c_queue ix c))"
    using none by (simp_all add: q_inv_def)
  then have "length (q_allocatedList (c_queue ix c)) = card (c_regs ix c)" by (metis distinct_card)
  also have "card (c_regs ix c) = nat (q_numEntries (c_queue ix c))" by (cases ix) simp_all
  finally show False using assms(2) inv by (auto simp: q_isFull_def q_inv_def split: if_splits)
qed

text \<open>A cache is drained when neither port has a packet or an event; draining keeps the invariant.\<close>

lemma bc_drain_spec:
  "fst (bc_drain c) = 0 \<longleftrightarrow> tp_transmitList (cp_port (c_memSidePort c)) = [] \<and> tp_sendEvent (cp_port (c_memSidePort c)) = None \<and>
     tp_transmitList (cp_port (c_cpuSidePort c)) = [] \<and> tp_sendEvent (cp_port (c_cpuSidePort c)) = None"
  "fst (bc_drain c) = 0 \<Longrightarrow> snd (bc_drain c) = c"
  by (auto simp: bc_drain_def tp_drain_def split: if_splits)

lemma bc_drain_ok: "cache_ok c \<Longrightarrow> cache_ok (snd (bc_drain c))"
proof -
  assume c: "cache_ok c"
  let ?c = "snd (bc_drain c)"
  have "same_queues c ?c" "c_blocked ?c = c_blocked c" "cp_blocked (c_cpuSidePort ?c) = cp_blocked (c_cpuSidePort c)"
    by (auto simp: bc_drain_def same_queues_def all_queues split: prod.splits)
  then show "cache_ok ?c" using c same_queues_ok [of c ?c]
    by (auto simp: cache_ok_def blocked_ok_def same_queues_def isBlocked_def blocked_for_def)
qed

section \<open>Reachable states\<close>

text \<open>
  The histories of a cache: allocating buffers, marking a register as sent, and blocking
  for a register without room for targets, as the access and response paths do it.
\<close>

definition params_ok :: "BaseCacheParams \<Rightarrow> bool" where
  "params_ok p \<longleftrightarrow> 1 \<le> cpar_mshrs p \<and> 1 \<le> cpar_write_buffers p"

inductive bc_reach :: "BaseCacheParams \<Rightarrow> BaseCache \<Rightarrow> bool" for p where
  init: "bc_reach p (BaseCache_new p order0 cycle0 others)"
| miss: "bc_reach p c \<Longrightarrow> allocateMissBuffer now pkt t b c = Inr (i, c') \<Longrightarrow> bc_reach p c'"
| buffered_write: "bc_reach p c \<Longrightarrow> allocateWriteBuffer now pkt t b c = Inr (i, c') \<Longrightarrow> bc_reach p c'"
| uncached: "bc_reach p c \<Longrightarrow> allocateUncachedReadBuffer now pkt t b c = Inr (i, c') \<Longrightarrow> bc_reach p c'"
| service: "bc_reach p c \<Longrightarrow> i \<in> set (q_allocatedList (c_queue ix c)) \<Longrightarrow> markInServiceInternal now ix i c = Inr c' \<Longrightarrow>
    bc_reach p c'"
| no_targets: "bc_reach p c \<Longrightarrow> setBlocked now Blocked_NoTargets (c\<lparr>c_noTargetMSHR := Some i\<rparr>) = Inr c' \<Longrightarrow> bc_reach p c'"
| targets: "bc_reach p c \<Longrightarrow> c_noTargetMSHR c = Some i \<Longrightarrow> clearBlocked now Blocked_NoTargets c = Inr c' \<Longrightarrow>
    bc_reach p (c'\<lparr>c_noTargetMSHR := None\<rparr>)"
| drain: "bc_reach p c \<Longrightarrow> bc_drain c = (n, c') \<Longrightarrow> bc_reach p c'"

lemma BaseCache_new_ok:
  assumes "params_ok p"
  shows "cache_ok (BaseCache_new p order0 cycle0 others)"
proof -
  let ?n = "nat (cpar_mshrs p + 4 - 1)" and ?w = "nat (cpar_write_buffers p + (cpar_mshrs p + 1000) - 1)"
  have r: "reg_free MSHR_new" "few_targets MSHR_new" "mshr_ok MSHR_new"
    using mshr_ok_new by (simp_all add: reg_free_def few_targets_def MSHR_new_def TargetList_new_def tl_isReset_def)
  have h: "(replicate (?n + ?w) MSHR_new @ others) ! i = MSHR_new" if "i < ?n + ?w" for i
    using that by (simp add: nth_append)
  have "q_inv {..<?n} (MSHRQueue_new 0 (cpar_mshrs p) 4 0) (replicate (?n + ?w) MSHR_new @ others)"
    using r h by (auto simp: q_inv_def MSHRQueue_new_def)
  moreover have "q_inv {?n..<?n + ?w} (MSHRQueue_new ?n (cpar_write_buffers p) (cpar_mshrs p + 1000) 1)
      (replicate (?n + ?w) MSHR_new @ others)"
    using r h by (auto simp: q_inv_def MSHRQueue_new_def)
  ultimately have "queues_ok (BaseCache_new p order0 cycle0 others)"
    using assms unfolding queues_ok_def all_queues params_ok_def
    by (simp add: BaseCache_new_def Let_def) (simp add: MSHRQueue_new_def)
  moreover have "blocked_ok (BaseCache_new p order0 cycle0 others)"
    using assms unfolding blocked_ok_def all_queues params_ok_def
    by (simp add: BaseCache_new_def Let_def isBlocked_def blocked_for_def CachePort_new_def q_isFull_def MSHRQueue_new_def)
  ultimately show ?thesis by (simp add: cache_ok_def)
qed

lemma bc_reach_ok: "bc_reach p c \<Longrightarrow> params_ok p \<Longrightarrow> cache_ok c"
proof (induction rule: bc_reach.induct)
  case (init order0 cycle0 others)
  then show ?case by (rule BaseCache_new_ok)
next
  case (miss c now pkt t b i c')
  then show ?case using allocateBufferInternal_ok(1) by (auto simp: allocateMissBuffer_def res_simps)
next
  case (buffered_write c now pkt t b i c')
  then show ?case using allocateBufferInternal_ok(1) by (auto simp: allocateWriteBuffer_def res_simps)
next
  case (uncached c now pkt t b i c')
  then show ?case using allocateBufferInternal_ok(1) by (auto simp: allocateUncachedReadBuffer_def res_simps)
next
  case (service c i ix now c')
  then show ?case using markInServiceInternal_ok by blast
next
  case (no_targets c now i c')
  let ?c = "c\<lparr>c_noTargetMSHR := Some i\<rparr>"
  have q: "c_queue ix ?c = c_queue ix c" "c_regs ix ?c = c_regs ix c" "blocked_for x ?c = blocked_for x c" for ix x
    by (cases ix; simp add: blocked_for_def)+
  have b: "bits_ok ?c" using no_targets by (simp add: cache_ok_def blocked_ok_iff bits_ok_def isBlocked_def)
  note eff = setBlocked_eff [OF b _ no_targets.hyps(2)]
  have "queues_ok ?c" using no_targets q by (simp add: cache_ok_def queues_ok_def)
  then have "queues_ok c'" using same_queues_ok eff(2) by blast
  moreover have "blocked_ok c'"
    using no_targets q eff by (auto simp: cache_ok_def blocked_ok_iff same_queues_def)
  ultimately show ?case by (simp add: cache_ok_def)
next
  case (targets c i now c')
  have b: "bits_ok c" "blocked_for Blocked_NoTargets c" using targets by (simp_all add: cache_ok_def blocked_ok_iff)
  note eff = clearBlocked_eff [OF b targets.hyps(3)]
  let ?c = "c'\<lparr>c_noTargetMSHR := None\<rparr>"
  have q: "c_queue ix ?c = c_queue ix c'" "c_regs ix ?c = c_regs ix c'" "blocked_for x ?c = blocked_for x c'" for ix x
    by (cases ix; simp add: blocked_for_def)+
  have "queues_ok ?c" using targets same_queues_ok [OF eff(2)] q by (simp add: cache_ok_def queues_ok_def)
  moreover have "blocked_ok ?c"
    using targets q eff by (auto simp: cache_ok_def blocked_ok_iff same_queues_def bits_ok_def isBlocked_def)
  ultimately show ?case by (simp add: cache_ok_def)
next
  case (drain c n c')
  then show ?case using bc_drain_ok [of c] by simp
qed

section \<open>Properties\<close>

text \<open>
  C15: Blocking.  After any sequence of buffer allocations, sent requests, and blocking
  and unblocking for a register without room for targets, the processor-side port refuses
  requests exactly when the miss queue is full, the write buffer is full, or some register
  has no room for targets; both queues are well formed.
\<close>

theorem cache_blocks_iff_full:
  assumes "bc_reach p c" and "params_ok p"
  shows "(cp_blocked (c_cpuSidePort c) \<longleftrightarrow>
      q_isFull (c_mshrQueue c) \<or> q_isFull (c_writeBuffer c) \<or> c_noTargetMSHR c \<noteq> None) \<and> queues_ok c"
proof -
  have ok: "cache_ok c" by (rule bc_reach_ok [OF assms])
  then have b: "cp_blocked (c_cpuSidePort c) \<longleftrightarrow> c_blocked c \<noteq> 0" "c_blocked c AND mask 3 = c_blocked c"
    by (simp_all add: cache_ok_def blocked_ok_def isBlocked_def)
  have "c_blocked c \<noteq> 0 \<longleftrightarrow> (\<exists>n < 3. bit (c_blocked c) n)"
  proof
    assume "c_blocked c \<noteq> 0"
    then obtain n where "bit (c_blocked c) n" by (auto simp: bit_eq_iff)
    moreover then have "n < 3" using b(2) by (metis bit_and_iff bit_mask_iff)
    ultimately show "\<exists>n < 3. bit (c_blocked c) n" by blast
  qed auto
  also have "\<dots> \<longleftrightarrow> blocked_for Blocked_NoMSHRs c \<or> blocked_for Blocked_NoWBBuffers c \<or> blocked_for Blocked_NoTargets c"
    by (auto simp: blocked_for_def numeral_eq_Suc less_Suc_eq)
  finally show ?thesis
    using ok b(1) by (simp add: cache_ok_def blocked_ok_iff all_queues)
qed

theorem cache_blocks_iff_full_witness:
  "\<not> cp_blocked (c_cpuSidePort (BaseCache_new \<lparr>cpar_mshrs = 10, cpar_write_buffers = 8, cpar_block_size = 64,
      cpar_latency = 3, cpar_tgts_per_mshr = 5, cpar_forward_snoops = True, cpar_max_miss_count = 0,
      cpar_num_cpus = 1\<rparr> 0 0 [])) \<and>
   q_inv {..<13} (MSHRQueue_new 0 10 4 0) (replicate (13 + 1017) MSHR_new)"
proof -
  let ?p = "\<lparr>cpar_mshrs = 10, cpar_write_buffers = 8, cpar_block_size = 64,
      cpar_latency = 3, cpar_tgts_per_mshr = 5, cpar_forward_snoops = True, cpar_max_miss_count = 0, cpar_num_cpus = 1\<rparr>"
  have "params_ok ?p" by (simp add: params_ok_def)
  note props = cache_blocks_iff_full [OF bc_reach.init [of ?p 0 0 "[]"] this]
  have "\<not> cp_blocked (c_cpuSidePort (BaseCache_new ?p 0 0 []))"
    using props by (simp add: BaseCache_new_def q_isFull_def MSHRQueue_new_def)
  moreover have "q_inv {..<13} (MSHRQueue_new 0 10 4 0) (replicate (13 + 1017) MSHR_new)"
    using props unfolding queues_ok_def all_queues by (simp add: BaseCache_new_def MSHRQueue_new_def)
  ultimately show ?thesis by blast
qed

text \<open>
  A request that the port lets in is accepted.  When the processor-side port of a
  reachable cache is not blocked, a cacheable request from a sender that is not already
  waiting always gets a register: the allocation does not run out of registers and no
  assertion fails, the register is for the block of the request, and a lookup of that
  block finds one.
\<close>

theorem cache_accepts_miss:
  assumes "bc_reach p c" and "params_ok p" and "\<not> cp_blocked (c_cpuSidePort c)"
    and "\<not> req_isUncacheable (p_req pkt)" and "getAddr pkt = Inr a"
    and "upstream_idle pkt (c_heap c)" and "now \<le> t"
  shows "\<exists>i c'. allocateMissBuffer now pkt t b c = Inr (i, c') \<and> m_addr (c_heap c' ! i) = blockAlign c a \<and>
    i \<in> set (q_allocatedList (c_mshrQueue c')) \<and> q_findMatch (c_heap c') (blockAlign c a) (c_mshrQueue c') \<noteq> None"
proof -
  have ok: "cache_ok c" by (rule bc_reach_ok [OF assms(1,2)])
  then have "c_blocked c = 0" using assms(3) by (simp add: cache_ok_def blocked_ok_iff bits_ok_def isBlocked_def)
  then have nf: "\<not> q_isFull (c_mshrQueue c)"
    using ok by (simp add: cache_ok_def blocked_ok_iff all_queues blocked_for_def)
  have "q_freeList (c_queue MSHRQueue_MSHRs c) \<noteq> []" using free_register [OF ok, of MSHRQueue_MSHRs] nf by simp
  then obtain i c' where al: "allocateBufferInternal now MSHRQueue_MSHRs (blockAlign c a) (int (c_blkSize c)) pkt t b c = Inr (i, c')"
    by (rule allocateBufferInternal_total [OF ok _ assms(6,7)])
  note res = allocateBufferInternal_ok [OF ok al]
  have "findMatch h x is \<noteq> None" if "i \<in> set is" "m_addr (h ! i) = x" for h x "is"
    using that by (induction "is") auto
  then have "q_findMatch (c_heap c') (blockAlign c a) (c_mshrQueue c') \<noteq> None"
    using res(2,3) by (simp add: q_findMatch_def)
  then show ?thesis using al res assms(4,5) by (simp add: allocateMissBuffer_def)
qed

theorem cache_accepts_miss_witness:
  "\<exists>i c'. allocateMissBuffer 0 example_read 3 True (BaseCache_new \<lparr>cpar_mshrs = 10, cpar_write_buffers = 8,
      cpar_block_size = 64, cpar_latency = 3, cpar_tgts_per_mshr = 5, cpar_forward_snoops = True,
      cpar_max_miss_count = 0, cpar_num_cpus = 1\<rparr> 0 0 []) = Inr (i, c') \<and>
    i \<in> set (q_allocatedList (c_mshrQueue c'))"
proof -
  let ?p = "\<lparr>cpar_mshrs = 10, cpar_write_buffers = 8, cpar_block_size = 64,
      cpar_latency = 3, cpar_tgts_per_mshr = 5, cpar_forward_snoops = True, cpar_max_miss_count = 0, cpar_num_cpus = 1\<rparr>"
  have ok: "params_ok ?p" by (simp add: params_ok_def)
  have "\<not> cp_blocked (c_cpuSidePort (BaseCache_new ?p 0 0 []))" by (simp add: BaseCache_new_def CachePort_new_def)
  moreover have "\<not> req_isUncacheable (p_req example_read)" "getAddr example_read = Inr (p_addr example_read)"
    "upstream_idle example_read (c_heap (BaseCache_new ?p 0 0 []))"
    by (simp_all add: example_read_def Packet_new_def Packet_base_def Let_def upstream_idle_def sender_mshr_def getAddr_def
        req_isUncacheable_def req_hasPaddr_def req_flag_defs Request_new_def flag_simps pkt_flag_defs)
  ultimately show ?thesis
    using cache_accepts_miss [OF bc_reach.init [of ?p 0 0 "[]"] ok, of example_read "p_addr example_read" 0 3 True] by auto
qed

end
