(* ===== verification/Cache_Blk.thy ===== *)
theory Cache_Blk
  imports Packet
begin

unbundle bit_operations_syntax

text \<open>
  A cache block, \<open>mem/cache/blk.hh\<close>: its status bits and the list of load-locks that
  decides whether a store conditional succeeds.  The block's data is the slice of the tag
  store's data array it points to.
\<close>

section \<open>Status bits and fields\<close>

definition BlkValid :: "32 word" where "BlkValid = 0x01"
definition BlkWritable :: "32 word" where "BlkWritable = 0x02"
definition BlkReadable :: "32 word" where "BlkReadable = 0x04"
definition BlkDirty :: "32 word" where "BlkDirty = 0x08"
definition BlkReferenced :: "32 word" where "BlkReferenced = 0x10"
definition BlkHWPrefetched :: "32 word" where "BlkHWPrefetched = 0x20"
definition BlkHWPrefetchFlag :: "32 word" where "BlkHWPrefetchFlag = 0x40"

lemmas blk_flag_defs = BlkValid_def BlkWritable_def BlkReadable_def BlkDirty_def BlkReferenced_def
  BlkHWPrefetched_def BlkHWPrefetchFlag_def

record CacheBlk =
  blk_asid :: int
  blk_tag :: Addr
  blk_data :: pkt_data
  blk_size :: nat
  blk_status :: "32 word"
  blk_whenReady :: Tick
  blk_set :: int
  blk_isTouched :: bool
  blk_refCount :: int
  blk_contextSrc :: int
  blk_lockList :: "int list"

definition CacheBlk_new :: CacheBlk where
  "CacheBlk_new = \<lparr>blk_asid = -1, blk_tag = 0, blk_data = [], blk_size = 0, blk_status = 0,
     blk_whenReady = 0, blk_set = -1, blk_isTouched = False, blk_refCount = 0,
     blk_contextSrc = -1, blk_lockList = []\<rparr>"

text \<open>\<open>operator=\<close> copies neither \<open>isTouched\<close>, nor \<open>contextSrc\<close>, nor the locks.\<close>

definition blk_assign :: "CacheBlk \<Rightarrow> CacheBlk \<Rightarrow> CacheBlk" where
  "blk_assign rhs b = b\<lparr>blk_asid := blk_asid rhs, blk_tag := blk_tag rhs, blk_data := blk_data rhs,
     blk_size := blk_size rhs, blk_status := blk_status rhs, blk_whenReady := blk_whenReady rhs,
     blk_set := blk_set rhs, blk_refCount := blk_refCount rhs\<rparr>"

section \<open>Queries\<close>

definition blk_isWritable :: "CacheBlk \<Rightarrow> bool" where
  "blk_isWritable b = flags_allSet (blk_status b) (BlkWritable OR BlkValid)"

definition blk_isReadable :: "CacheBlk \<Rightarrow> bool" where
  "blk_isReadable b = flags_allSet (blk_status b) (BlkReadable OR BlkValid)"

definition blk_isValid :: "CacheBlk \<Rightarrow> bool" where
  "blk_isValid b = flags_isSet (blk_status b) BlkValid"

definition blk_isDirty :: "CacheBlk \<Rightarrow> bool" where
  "blk_isDirty b = flags_isSet (blk_status b) BlkDirty"

definition blk_isReferenced :: "CacheBlk \<Rightarrow> bool" where
  "blk_isReferenced b = flags_isSet (blk_status b) BlkReferenced"

definition blk_wasPrefetched :: "CacheBlk \<Rightarrow> bool" where
  "blk_wasPrefetched b = flags_isSet (blk_status b) BlkHWPrefetched"

section \<open>Load locks\<close>

definition trackLoadLocked :: "Packet \<Rightarrow> CacheBlk \<Rightarrow> CacheBlk res" where
  "trackLoadLocked pkt b =
     guard_res AssertFail (pkt_isLLSC pkt)
       (bind_res (req_contextId (p_req pkt)) (\<lambda>c. Inr (b\<lparr>blk_lockList := c # blk_lockList b\<rparr>)))"

definition clearLoadLocks :: "CacheBlk \<Rightarrow> CacheBlk" where
  "clearLoadLocks b = b\<lparr>blk_lockList := []\<rparr>"

fun lock_matches :: "Request \<Rightarrow> int list \<Rightarrow> bool res" where
  "lock_matches req [] = Inr False"
| "lock_matches req (c # cs) =
     bind_res (req_contextId req) (\<lambda>r. if c = r then Inr True else lock_matches req cs)"

definition checkWrite :: "Packet \<Rightarrow> CacheBlk \<Rightarrow> (bool \<times> Packet \<times> CacheBlk) res" where
  "checkWrite pkt b =
     (if pkt_isLLSC pkt
      then bind_res (lock_matches (p_req pkt) (blk_lockList b)) (\<lambda>success.
             Inr (success,
                  pkt\<lparr>p_req := req_setExtraData (if success then 1 else 0) (p_req pkt)\<rparr>,
                  clearLoadLocks b))
      else Inr (True, pkt, clearLoadLocks b))"

section \<open>Load-locked and store-conditional\<close>

lemma lock_matches_eq:
  "req_hasContextId req \<Longrightarrow> lock_matches req cs = Inr (r_contextId req \<in> set cs)"
  by (induction cs) (auto simp: req_contextId_def req_hasContextId_def)

text \<open>
  The accesses to one block: load-locked and store-conditional by a context, and plain
  stores.  The meaning of a history is the set of contexts whose reservation holds.
\<close>

datatype lock_event = LoadLocked int | StoreCond int | PlainStore

fun reserved :: "lock_event list \<Rightarrow> int set" where
  "reserved [] = {}"
| "reserved (LoadLocked c # es) = insert c (reserved es)"
| "reserved (StoreCond c # es) = {}"
| "reserved (PlainStore # es) = {}"

text \<open>The packet of an event, and the block after a history, newest event first.\<close>

definition event_pkt :: "lock_event \<Rightarrow> Packet" where
  "event_pkt e = (case e of
      LoadLocked c \<Rightarrow> Packet_base 0 (req_setThreadContext c 0 Request_new) LoadLockedReq Broadcast
    | StoreCond c \<Rightarrow> Packet_base 0 (req_setThreadContext c 0 Request_new) StoreCondReq Broadcast
    | PlainStore \<Rightarrow> Packet_base 0 Request_new WriteReq Broadcast)"

fun run_event :: "lock_event \<Rightarrow> CacheBlk \<Rightarrow> (bool \<times> CacheBlk) res" where
  "run_event (LoadLocked c) b =
     bind_res (trackLoadLocked (event_pkt (LoadLocked c)) b) (\<lambda>b. Inr (True, b))"
| "run_event e b =
     bind_res (checkWrite (event_pkt e) b) (\<lambda>(ok, _, b). Inr (ok, b))"

fun run_history :: "lock_event list \<Rightarrow> CacheBlk \<Rightarrow> CacheBlk res" where
  "run_history [] b = Inr b"
| "run_history (e # es) b =
     bind_res (run_history es b) (\<lambda>b. bind_res (run_event e b) (\<lambda>(_, b). Inr b))"

lemma event_pkt_simps [simp]:
  "pkt_isLLSC (event_pkt (LoadLocked c))" "pkt_isLLSC (event_pkt (StoreCond c))"
  "\<not> pkt_isLLSC (event_pkt PlainStore)"
  "req_hasContextId (p_req (event_pkt (LoadLocked c)))" "req_hasContextId (p_req (event_pkt (StoreCond c)))"
  "r_contextId (p_req (event_pkt (LoadLocked c))) = c" "r_contextId (p_req (event_pkt (StoreCond c))) = c"
  by (simp_all add: event_pkt_def pkt_isLLSC_def cmd_isLLSC_def testCmdAttrib_def Packet_base_def
      req_hasContextId_def req_setThreadContext_def Request_new_def flag_simps req_flag_defs)

lemma run_event_simps:
  "run_event (LoadLocked c) b = Inr (True, b\<lparr>blk_lockList := c # blk_lockList b\<rparr>)"
  "run_event (StoreCond c) b = Inr (c \<in> set (blk_lockList b), clearLoadLocks b)"
  "run_event PlainStore b = Inr (True, clearLoadLocks b)"
  using event_pkt_simps(4) [of c] lock_matches_eq [OF event_pkt_simps(5) [of c], of "blk_lockList b"]
  by (simp_all add: trackLoadLocked_def checkWrite_def req_contextId_def req_hasContextId_def)

lemma run_history_reserved:
  assumes "blk_lockList b = []"
  obtains b' where "run_history es b = Inr b'" "set (blk_lockList b') = reserved es"
proof -
  have "\<exists>b'. run_history es b = Inr b' \<and> set (blk_lockList b') = reserved es"
  proof (induction es)
    case (Cons e es)
    then obtain b' where "run_history es b = Inr b'" "set (blk_lockList b') = reserved es" by blast
    then show ?case
      by (cases e) (simp_all add: run_event_simps clearLoadLocks_def del: run_event.simps)
  qed (simp add: assms)
  then show thesis using that by blast
qed

text \<open>
  Load-locked and store-conditional.  After any sequence of load-locked,
  store-conditional and plain store accesses to a block that starts without locks, a
  store-conditional by context \<open>c\<close> succeeds exactly when \<open>c\<close> has performed a load-locked
  after the last store of any kind, and a plain store always proceeds; either clears
  every reservation.
\<close>

theorem store_conditional_spec:
  assumes "blk_lockList b = []"
  shows "\<exists>b'. run_history es b = Inr b' \<and>
    run_event (StoreCond c) b' = Inr (c \<in> reserved es, clearLoadLocks b') \<and>
    run_event PlainStore b' = Inr (True, clearLoadLocks b')"
  by (rule run_history_reserved [OF assms, of es]) (auto simp: run_event_simps simp del: run_event.simps)

theorem store_conditional_spec_witness:
  "\<exists>b'. run_history [LoadLocked 2, PlainStore, LoadLocked 1] CacheBlk_new = Inr b' \<and>
    run_event (StoreCond 2) b' = Inr (True, clearLoadLocks b') \<and>
    run_event (StoreCond 1) b' = Inr (False, clearLoadLocks b')"
  using store_conditional_spec [of CacheBlk_new "[LoadLocked 2, PlainStore, LoadLocked 1]" 2]
    store_conditional_spec [of CacheBlk_new "[LoadLocked 2, PlainStore, LoadLocked 1]" 1]
  by (auto simp: CacheBlk_new_def simp del: run_event.simps run_history.simps)

end
