(* ===== verification/Bitmath.thy ===== *)
theory Bitmath
  imports Prelude "HOL-Library.Char_ord"
begin

unbundle bit_operations_syntax

text \<open>
  The integer helpers of \<open>base/intmath.hh\<close>, \<open>base/intmath.cc\<close> and
  \<open>base/bitfield.hh\<close>.  Templates are modelled at the type \<open>uint64_t\<close>, at which the
  memory system uses them; \<open>isPrime\<close> and \<open>prevPrime\<close> at \<open>int\<close>.  Shift distances and
  bit numbers are naturals.
\<close>

section \<open>\<open>base/bitfield.hh\<close>\<close>

definition bf_mask :: "nat \<Rightarrow> 64 word" where
  "bf_mask nbits = (if nbits = 64 then -1 else push_bit nbits 1 - 1)"

definition bf_bits :: "64 word \<Rightarrow> nat \<Rightarrow> nat \<Rightarrow> 64 word" where
  "bf_bits val hi lo =
     (let nbits = hi - lo + 1 in drop_bit lo val AND bf_mask nbits)"

definition bf_bit :: "64 word \<Rightarrow> nat \<Rightarrow> 64 word" where
  "bf_bit val b = bf_bits val b b"

definition bf_mbits :: "64 word \<Rightarrow> nat \<Rightarrow> nat \<Rightarrow> 64 word" where
  "bf_mbits val hi lo = val AND (bf_mask (hi + 1) AND NOT (bf_mask lo))"

definition bf_mask_range :: "nat \<Rightarrow> nat \<Rightarrow> 64 word" where
  "bf_mask_range hi lo = bf_mbits (-1) hi lo"

definition bf_sext :: "nat \<Rightarrow> 64 word \<Rightarrow> 64 word" where
  "bf_sext n val =
     (let sign_bit = bf_bits val (n - 1) (n - 1)
      in if sign_bit \<noteq> 0 then val OR NOT (bf_mask n) else val)"

definition bf_insertBits :: "64 word \<Rightarrow> nat \<Rightarrow> nat \<Rightarrow> 64 word \<Rightarrow> 64 word" where
  "bf_insertBits val hi lo bit_val =
     (let bmask = push_bit lo (bf_mask (hi - lo + 1))
      in (push_bit lo bit_val AND bmask) OR (val AND NOT bmask))"

definition bf_insertBit :: "64 word \<Rightarrow> nat \<Rightarrow> 64 word \<Rightarrow> 64 word" where
  "bf_insertBit val b bit_val = bf_insertBits val b b bit_val"

text \<open>One step of the searches below: test a field, then advance by half the width.\<close>

definition msb_step :: "nat \<Rightarrow> bool \<Rightarrow> nat \<times> 64 word \<Rightarrow> nat \<times> 64 word" where
  "msb_step k b = (\<lambda>(y, x). if b then (y + k, drop_bit k x) else (y, x))"

definition findMsbSet :: "64 word \<Rightarrow> nat" where
  "findMsbSet val =
     (if val = 0 then 0
      else
       (let s = (0, val);
            s = msb_step 32 (bf_bits (snd s) 63 32 \<noteq> 0) s;
            s = msb_step 16 (bf_bits (snd s) 31 16 \<noteq> 0) s;
            s = msb_step 8 (bf_bits (snd s) 15 8 \<noteq> 0) s;
            s = msb_step 4 (bf_bits (snd s) 7 4 \<noteq> 0) s;
            s = msb_step 2 (bf_bits (snd s) 3 2 \<noteq> 0) s
        in if bf_bits (snd s) 1 1 \<noteq> 0 then fst s + 1 else fst s))"

definition findLsbSet :: "64 word \<Rightarrow> nat" where
  "findLsbSet val =
     (if val = 0 then 64
      else
       (let s = (0, val);
            s = msb_step 32 (bf_bits (snd s) 31 0 = 0) s;
            s = msb_step 16 (bf_bits (snd s) 15 0 = 0) s;
            s = msb_step 8 (bf_bits (snd s) 7 0 = 0) s;
            s = msb_step 4 (bf_bits (snd s) 3 0 = 0) s;
            s = msb_step 2 (bf_bits (snd s) 1 0 = 0) s
        in if bf_bits (snd s) 0 0 = 0 then fst s + 1 else fst s))"

section \<open>\<open>base/intmath.hh\<close>\<close>

definition leastSigBit :: "64 word \<Rightarrow> 64 word" where
  "leastSigBit n = n AND NOT (n - 1)"

definition isPowerOf2 :: "64 word \<Rightarrow> bool" where
  "isPowerOf2 n \<longleftrightarrow> n \<noteq> 0 \<and> leastSigBit n = n"

definition floorLog2 :: "64 word \<Rightarrow> nat res" where
  "floorLog2 x =
     guard_res AssertFail (x > 0)
       (let s = (0, x);
            s = msb_step 32 (snd s AND 0xffffffff00000000 \<noteq> 0) s;
            s = msb_step 16 (snd s AND 0x00000000ffff0000 \<noteq> 0) s;
            s = msb_step 8 (snd s AND 0x000000000000ff00 \<noteq> 0) s;
            s = msb_step 4 (snd s AND 0x00000000000000f0 \<noteq> 0) s;
            s = msb_step 2 (snd s AND 0x000000000000000c \<noteq> 0) s
        in Inr (if snd s AND 0x0000000000000002 \<noteq> 0 then fst s + 1 else fst s))"

definition ceilLog2 :: "64 word \<Rightarrow> nat res" where
  "ceilLog2 n =
     (if n = 1 then Inr 0 else bind_res (floorLog2 (n - 1)) (\<lambda>y. Inr (y + 1)))"

definition floorPow2 :: "64 word \<Rightarrow> (64 word) res" where
  "floorPow2 n = bind_res (floorLog2 n) (\<lambda>y. Inr (push_bit y 1))"

definition ceilPow2 :: "64 word \<Rightarrow> (64 word) res" where
  "ceilPow2 n = bind_res (ceilLog2 n) (\<lambda>y. Inr (push_bit y 1))"

definition divCeil :: "64 word \<Rightarrow> 64 word \<Rightarrow> (64 word) res" where
  "divCeil a b = guard_res Undefined (b \<noteq> 0) (Inr ((a + b - 1) div b))"

definition roundUp :: "64 word \<Rightarrow> int \<Rightarrow> 64 word" where
  "roundUp val align = (let m = word_of_int align - 1 in (val + m) AND NOT m)"

definition roundDown :: "64 word \<Rightarrow> int \<Rightarrow> 64 word" where
  "roundDown val align = (let m = word_of_int align - 1 in val AND NOT m)"

definition isHex :: "char \<Rightarrow> bool" where
  "isHex c \<longleftrightarrow>
     (CHR ''0'' \<le> c \<and> c \<le> CHR ''9'') \<or> (CHR ''A'' \<le> c \<and> c \<le> CHR ''F'') \<or>
     (CHR ''a'' \<le> c \<and> c \<le> CHR ''f'')"

definition isOct :: "char \<Rightarrow> bool" where
  "isOct c \<longleftrightarrow> CHR ''0'' \<le> c \<and> c \<le> CHR ''7''"

definition isDec :: "char \<Rightarrow> bool" where
  "isDec c \<longleftrightarrow> CHR ''0'' \<le> c \<and> c \<le> CHR ''9''"

definition hex2Int :: "char \<Rightarrow> int" where
  "hex2Int c =
     (if CHR ''0'' \<le> c \<and> c \<le> CHR ''9'' then of_char c - of_char CHR ''0''
      else if CHR ''A'' \<le> c \<and> c \<le> CHR ''F'' then (of_char c - of_char CHR ''A'') + 10
      else if CHR ''a'' \<le> c \<and> c \<le> CHR ''f'' then (of_char c - of_char CHR ''a'') + 10
      else 0)"

text \<open>The loop of \<open>isPrime\<close> from a value of \<open>i\<close> on.\<close>

lemma int_le_square: "(i :: int) \<le> i * i"
  by (cases "i \<le> 0") (auto intro: order.trans [OF _ zero_le_square] mult_le_cancel_left1 [THEN iffD2])

function isPrime_loop :: "int \<Rightarrow> int \<Rightarrow> bool" where
  "isPrime_loop n i =
     (if i * i \<le> n then
        (if n mod i = 0 \<or> n mod (i + 2) = 0 then False else isPrime_loop n (i + 6))
      else True)"
  by pat_completeness auto
termination
proof (relation "measure (\<lambda>(n, i). nat (n - i + 1))")
  fix n i :: int
  assume "i * i \<le> n"
  then have "i \<le> n" using int_le_square [of i] by linarith
  then show "((n, i + 6), (n, i)) \<in> measure (\<lambda>(n, i). nat (n - i + 1))" by simp
qed simp

declare isPrime_loop.simps [simp del]

definition isPrime :: "int \<Rightarrow> bool" where
  "isPrime n \<longleftrightarrow> (if n = 2 \<or> n = 3 then True else isPrime_loop n 5)"

lemma isPrime_small: "n < 25 \<Longrightarrow> isPrime n"
  by (simp add: isPrime_def isPrime_loop.simps [of n 5])

section \<open>\<open>base/intmath.cc\<close>\<close>

text \<open>
  The endless loop of \<open>prevPrime\<close>; \<open>four\<close> says that \<open>decr\<close> is 4, otherwise it is 2
  (\<open>decr = 6 - decr\<close> toggles between the two).
\<close>

function prevPrime_loop :: "int \<Rightarrow> bool \<Rightarrow> int" where
  "prevPrime_loop n four =
     (if isPrime n then n else prevPrime_loop (n - (if four then 4 else 2)) (\<not> four))"
  by pat_completeness auto
termination
proof (relation "measure (\<lambda>(n, four). nat n)")
  fix n :: int and four
  assume "\<not> isPrime n"
  then have "n \<ge> 25" using isPrime_small by force
  then show "((n - (if four then 4 else 2), \<not> four), (n, four)) \<in> measure (\<lambda>(n, four). nat n)"
    by simp
qed simp

declare prevPrime_loop.simps [simp del]

definition prevPrime :: "int \<Rightarrow> int" where
  "prevPrime n =
     (let n = (if n mod 2 = 0 then n - 1 else n);
          decr = n mod 3
      in if decr = 0 then prevPrime_loop (n - 2) False
         else prevPrime_loop n (decr = 1))"

section \<open>Facts about bit fields\<close>

lemma bf_mask_eq: "n \<le> 64 \<Longrightarrow> bf_mask n = mask n"
  by (auto simp: bf_mask_def mask_eq_exp_minus_1 push_bit_of_1 mask_full [symmetric]
      simp flip: mask_full [where 'a = 64])

lemma bf_bits_take_drop:
  assumes "lo \<le> hi" and "hi < 64"
  shows "bf_bits v hi lo = take_bit (hi - lo + 1) (drop_bit lo v)"
  using assms by (simp add: bf_bits_def bf_mask_eq take_bit_eq_mask)

text \<open>
  Field insertion and extraction are inverse.  After \<open>insertBits(val, hi, lo, x)\<close>
  the field reads back as the low bits of \<open>x\<close>, and every bit outside the field is that
  of \<open>val\<close>.
\<close>

theorem insertBits_bits_roundtrip:
  assumes "lo \<le> hi" and "hi < 64"
  shows "bf_bits (bf_insertBits v hi lo x) hi lo = take_bit (hi - lo + 1) x \<and>
    (\<forall>k. \<not> (lo \<le> k \<and> k \<le> hi) \<longrightarrow> bit (bf_insertBits v hi lo x) k = bit v k)"
proof -
  have b: "bit (bf_insertBits v hi lo x) k =
      (if lo \<le> k \<and> k \<le> hi then k < 64 \<and> bit x (k - lo) else bit v k)" for k
    using assms
    by (auto simp: bf_insertBits_def Let_def bf_mask_eq bit_simps dest: bit_imp_le_length)
  have "bf_bits (bf_insertBits v hi lo x) hi lo = take_bit (hi - lo + 1) x"
    by (rule bit_word_eqI) (use assms in \<open>auto simp: bf_bits_take_drop bit_simps b dest: bit_imp_le_length\<close>)
  then show ?thesis using b by simp
qed

theorem insertBits_bits_roundtrip_witness:
  "bf_bits (bf_insertBits 0xff00 7 4 0xa) 7 4 = 0xa"
  using insertBits_bits_roundtrip [of 4 7 "0xff00" "0xa"] by simp

section \<open>Facts about the binary logarithm\<close>

text \<open>
  Invariant of the binary search: the part still to be searched has at most \<open>w\<close> bits,
  and together with the \<open>y\<close> positions skipped it is the leading part of \<open>X\<close>.
\<close>

definition log_inv :: "64 word \<Rightarrow> nat \<Rightarrow> nat \<times> 64 word \<Rightarrow> bool" where
  "log_inv X w = (\<lambda>(y, x). 0 < unat x \<and> unat x < 2 ^ w \<and> 2 ^ y * unat x \<le> unat X \<and>
     unat X < 2 ^ y * (unat x + 1))"

lemma unat_less_exp64: "unat (x :: 64 word) < 2 ^ 64"
  using unsigned_less [of x] by simp

lemma high_half_test:
  fixes x :: "64 word"
  assumes "unat x < 2 ^ (2 * k)"
  shows "x AND push_bit k (mask k) \<noteq> 0 \<longleftrightarrow> 2 ^ k \<le> unat x"
proof -
  have d: "unat (drop_bit k x) = unat x div 2 ^ k"
    by (simp add: unat_drop_bit_eq drop_bit_nat_def)
  have "x AND push_bit k (mask k) = push_bit k (take_bit k (drop_bit k x))"
    by (rule bit_word_eqI) (auto simp: bit_simps)
  also have "take_bit k (drop_bit k x) = drop_bit k x"
  proof -
    have "unat x div 2 ^ k < 2 ^ k"
      using assms by (simp add: less_mult_imp_div_less mult_2 power_add)
    then show ?thesis by (simp add: word_unat_eq_iff unsigned_take_bit_eq d take_bit_nat_eq_self)
  qed
  finally have "x AND push_bit k (mask k) = 0 \<longleftrightarrow> push_bit k (drop_bit k x) = 0" by simp
  also have "\<dots> \<longleftrightarrow> drop_bit k x = 0"
  proof
    assume "push_bit k (drop_bit k x) = 0"
    then have "drop_bit k (push_bit k (drop_bit k x)) = 0" by simp
    moreover have "drop_bit k (push_bit k (drop_bit k x)) = drop_bit k x"
      by (rule bit_word_eqI) (auto simp: bit_simps dest: bit_imp_le_length)
    ultimately show "drop_bit k x = 0" by simp
  qed simp
  also have "\<dots> \<longleftrightarrow> unat x div 2 ^ k = 0" using d by (metis unat_0 word_unat_eq_iff)
  also have "\<dots> \<longleftrightarrow> unat x < 2 ^ k" by (simp add: div_eq_0_iff)
  finally show ?thesis by (simp add: not_less)
qed

lemma msb_step_inv:
  assumes "log_inv X (2 * k) s" and "b \<longleftrightarrow> 2 ^ k \<le> unat (snd s)"
  shows "log_inv X k (msb_step k b s)"
proof (cases s)
  case (Pair y x)
  show ?thesis
  proof (cases b)
    case False
    then show ?thesis using assms Pair by (simp add: log_inv_def msb_step_def)
  next
    case True
    define q where "q = unat x div 2 ^ k"
    have q: "unat (drop_bit k x) = q" by (simp add: q_def unat_drop_bit_eq drop_bit_nat_def)
    have "2 ^ k \<le> unat x" "unat x < 2 ^ k * 2 ^ k"
      using assms True Pair by (simp_all add: log_inv_def mult_2 power_add)
    then have q_range: "0 < q" "q < 2 ^ k"
      by (simp_all add: q_def div_greater_zero_iff less_mult_imp_div_less)
    have "2 ^ k * q \<le> unat x" by (simp add: q_def)
    then have "2 ^ y * (2 ^ k * q) \<le> 2 ^ y * unat x" by (rule mult_le_mono2)
    moreover have X: "2 ^ y * unat x \<le> unat X" "unat X < 2 ^ y * (unat x + 1)"
      using assms(1) Pair unfolding log_inv_def by simp_all
    ultimately have lo: "2 ^ (y + k) * q \<le> unat X" by (simp only: power_add mult.assoc order.trans)
    have "unat x + 1 \<le> 2 ^ k * (q + 1)"
      using dividend_less_times_div [of "2 ^ k" "unat x"] by (simp add: q_def algebra_simps)
    then have "2 ^ y * (unat x + 1) \<le> 2 ^ y * (2 ^ k * (q + 1))" by (rule mult_le_mono2)
    with X(2) have "unat X < 2 ^ (y + k) * (q + 1)"
      by (simp only: power_add mult.assoc)
    with lo q_range show ?thesis using True Pair by (simp add: log_inv_def msb_step_def q)
  qed
qed

lemma high_half_masks:
  "(0xffffffff00000000 :: 64 word) = push_bit 32 (mask 32)"
  "(0x00000000ffff0000 :: 64 word) = push_bit 16 (mask 16)"
  "(0x000000000000ff00 :: 64 word) = push_bit 8 (mask 8)"
  "(0x00000000000000f0 :: 64 word) = push_bit 4 (mask 4)"
  "(0x000000000000000c :: 64 word) = push_bit 2 (mask 2)"
  "(0x0000000000000002 :: 64 word) = push_bit 1 (mask 1)"
  by (simp_all add: mask_eq_exp_minus_1)

lemma log_inv_one:
  assumes "log_inv X 1 (y, x)"
  shows "2 ^ y \<le> unat X" "unat X < 2 ^ (y + 1)"
proof -
  have "unat x = 1" using assms by (simp add: log_inv_def)
  then show "2 ^ y \<le> unat X" "unat X < 2 ^ (y + 1)" using assms by (simp_all add: log_inv_def)
qed

lemma log_inv_finish:
  assumes "log_inv X 2 s"
  shows "let y = (if snd s AND push_bit 1 (mask 1) \<noteq> 0 then fst s + 1 else fst s)
    in 2 ^ y \<le> unat X \<and> unat X < 2 ^ (y + 1)"
proof -
  obtain y x where s: "s = (y, x)" by fastforce
  have i: "log_inv X 1 (msb_step 1 (x AND push_bit 1 (mask 1) \<noteq> 0) (y, x))"
    using assms high_half_test [of x 1] by (intro msb_step_inv) (simp_all add: s log_inv_def)
  show ?thesis
  proof (cases "x AND push_bit 1 (mask 1) \<noteq> 0")
    case True
    with i have "log_inv X 1 (y + 1, drop_bit 1 x)" unfolding msb_step_def by simp
    from log_inv_one [OF this] True show ?thesis by (simp add: s)
  next
    case False
    with i have "log_inv X 1 (y, x)" unfolding msb_step_def by simp
    from log_inv_one [OF this] False show ?thesis by (simp add: s)
  qed
qed

lemma floorLog2_aux:
  assumes "x \<noteq> 0"
  shows "\<exists>y. floorLog2 x = Inr y \<and> 2 ^ y \<le> unat x \<and> unat x < 2 ^ (y + 1)"
proof -
  let ?t = "\<lambda>k s. snd s AND push_bit k (mask k) \<noteq> (0 :: 64 word)"
  define s0 where "s0 = (0 :: nat, x)"
  define s1 where "s1 = msb_step 32 (?t 32 s0) s0"
  define s2 where "s2 = msb_step 16 (?t 16 s1) s1"
  define s3 where "s3 = msb_step 8 (?t 8 s2) s2"
  define s4 where "s4 = msb_step 4 (?t 4 s3) s3"
  define s5 where "s5 = msb_step 2 (?t 2 s4) s4"
  have step: "log_inv x k (msb_step k (?t k s) s)" if "log_inv x (2 * k) s" for k s
    using that by (intro msb_step_inv high_half_test) (auto simp: log_inv_def)
  have "log_inv x 64 s0"
    using assms unat_less_exp64 [of x] by (simp add: s0_def log_inv_def unat_gt_0)
  then have "log_inv x 32 s1" unfolding s1_def by (intro step) simp
  then have "log_inv x 16 s2" unfolding s2_def by (intro step) simp
  then have "log_inv x 8 s3" unfolding s3_def by (intro step) simp
  then have "log_inv x 4 s4" unfolding s4_def by (intro step) simp
  then have "log_inv x 2 s5" unfolding s5_def by (intro step) simp
  note fin = log_inv_finish [OF this, unfolded Let_def]
  have "floorLog2 x = Inr (if ?t 1 s5 then fst s5 + 1 else fst s5)"
    unfolding floorLog2_def Let_def high_half_masks s5_def s4_def s3_def s2_def s1_def s0_def
    using assms by (simp only: word_neq_0_conv guard_res_True)
  with fin show ?thesis by blast
qed

text \<open>
  \<open>floorLog2\<close> is the integer binary logarithm: it asserts on zero, and for every
  other argument returns the \<open>y\<close> with \<open>2^y \<le> x < 2^(y+1)\<close>.
\<close>

theorem floorLog2_correct:
  "floorLog2 0 = Inl AssertFail \<and>
   (\<forall>x. x \<noteq> 0 \<longrightarrow> (\<exists>y. floorLog2 x = Inr y \<and> 2 ^ y \<le> unat x \<and> unat x < 2 ^ (y + 1)))"
  using floorLog2_aux by (simp add: floorLog2_def)

theorem floorLog2_correct_witness:
  "\<exists>y. floorLog2 98 = Inr y \<and> 2 ^ y \<le> (98 :: nat) \<and> 98 < (2 :: nat) ^ (y + 1)"
proof -
  have "(98 :: 64 word) \<noteq> 0" and "unat (98 :: 64 word) = 98" by simp_all
  then show ?thesis using floorLog2_correct by metis
qed

section \<open>Facts about primes\<close>

definition prime_number :: "int \<Rightarrow> bool" where
  "prime_number n \<longleftrightarrow> 1 < n \<and> (\<forall>d. 1 < d \<longrightarrow> d dvd n \<longrightarrow> d = n)"

lemma isPrime_loop_divisor:
  "\<not> isPrime_loop n i \<Longrightarrow> 5 \<le> i \<Longrightarrow> \<exists>d. 1 < d \<and> d < n \<and> d dvd n"
proof (induction n i rule: isPrime_loop.induct)
  case (1 n i)
  from 1(2) have le: "i * i \<le> n" by (auto simp: isPrime_loop.simps [of n i] split: if_splits)
  have "5 * i \<le> i * i" using 1(3) by (intro mult_right_mono) auto
  then have small: "i + 2 < n" "i < n" using le 1(3) by linarith+
  show ?case
  proof (cases "n mod i = 0 \<or> n mod (i + 2) = 0")
    case True
    then have "i dvd n \<or> (i + 2) dvd n" by (simp add: dvd_eq_mod_eq_0)
    then show ?thesis using small 1(3) by (elim disjE) (auto intro: exI [of _ i] exI [of _ "i + 2"])
  next
    case False
    then show ?thesis
      using 1(1) [OF le False] 1(2,3) le by (simp add: isPrime_loop.simps [of n i])
  qed
qed

lemma isPrime_loop_tested:
  "isPrime_loop n i \<Longrightarrow> 5 \<le> i \<Longrightarrow> (i + 6 * int k) * (i + 6 * int k) \<le> n \<Longrightarrow>
     \<not> (i + 6 * int k) dvd n \<and> \<not> (i + 6 * int k + 2) dvd n"
proof (induction k arbitrary: i)
  case 0
  then show ?case by (auto simp: isPrime_loop.simps [of n i] dvd_eq_mod_eq_0 split: if_splits)
next
  case (Suc k)
  have "i * i \<le> (i + 6 * int (Suc k)) * (i + 6 * int (Suc k))"
    using Suc.prems(2) by (intro mult_mono) auto
  then have "i * i \<le> n" using Suc.prems(3) by linarith
  then have "isPrime_loop n (i + 6)"
    using Suc.prems(1) by (auto simp: isPrime_loop.simps [of n i] split: if_splits)
  with Suc.IH [of "i + 6"] Suc.prems(2,3) show ?case by (simp add: algebra_simps)
qed

lemma small_divisor:
  fixes n d :: int
  assumes "1 < d" "d < n" "d dvd n"
  obtains e where "1 < e" "e * e \<le> n" "e dvd n"
proof -
  from assms obtain c where c: "n = d * c" by (elim dvdE)
  have "1 < c" using assms c by (cases "c \<le> 1") (auto simp: mult_le_cancel_left_pos
      dest: mult_left_mono [of c 1 d])
  show thesis
  proof (cases "d \<le> c")
    case True
    then have "d * d \<le> d * c" using assms(1) by (intro mult_left_mono) auto
    then show thesis using that [of d] assms c by simp
  next
    case False
    then have "c * c \<le> d * c" using \<open>1 < c\<close> by (intro mult_right_mono) auto
    then show thesis using that [of c] \<open>1 < c\<close> c by simp
  qed
qed

lemma coprime_6_form:
  fixes e :: int
  assumes "1 < e" "\<not> 2 dvd e" "\<not> 3 dvd e"
  obtains k where "e = 5 + 6 * int k \<or> e = 5 + 6 * int k + 2"
proof -
  have m: "e mod 6 = 1 \<or> e mod 6 = 5" and "e \<ge> 5" using assms by presburger+
  define k where "k = nat ((e - 5) div 6)"
  have "int k = (e - 5) div 6" using \<open>e \<ge> 5\<close> by (simp add: k_def)
  with m have "e = 5 + 6 * int k \<or> e = 5 + 6 * int k + 2" by presburger
  then show thesis by (rule that)
qed

text \<open>
  \<open>isPrime\<close> decides primality for the numbers it is meant for, those divisible by
  neither 2 nor 3.
\<close>

theorem isPrime_correct:
  assumes "1 < n" and "\<not> 2 dvd n" and "\<not> 3 dvd n"
  shows "isPrime n \<longleftrightarrow> prime_number n"
proof
  assume p: "isPrime n"
  have l: "isPrime_loop n 5" using p assms by (auto simp: isPrime_def split: if_splits)
  show "prime_number n"
  proof (rule ccontr)
    assume "\<not> prime_number n"
    then obtain d where "1 < d" "d dvd n" "d \<noteq> n" using assms(1) by (auto simp: prime_number_def)
    moreover then have "d < n" using zdvd_imp_le [of d n] assms(1) by simp
    ultimately obtain e where e: "1 < e" "e * e \<le> n" "e dvd n" using small_divisor by metis
    have "\<not> 2 dvd e" "\<not> 3 dvd e" using e(3) assms(2,3) dvd_trans by blast+
    then obtain k where k: "e = 5 + 6 * int k \<or> e = 5 + 6 * int k + 2"
      using e(1) coprime_6_form by metis
    have "(5 + 6 * int k) * (5 + 6 * int k) \<le> e * e" using k by (intro mult_mono) auto
    then have "(5 + 6 * int k) * (5 + 6 * int k) \<le> n" using e(2) by linarith
    from isPrime_loop_tested [OF l _ this] k e(3) show False by auto
  qed
next
  assume "prime_number n"
  then have "\<not> (\<exists>d. 1 < d \<and> d < n \<and> d dvd n)" by (auto simp: prime_number_def)
  then show "isPrime n" using isPrime_loop_divisor [of n 5] by (auto simp: isPrime_def)
qed

theorem isPrime_correct_witness: "isPrime 35 \<longleftrightarrow> prime_number 35"
proof -
  have "(1::int) < 35" "\<not> (2::int) dvd 35" "\<not> (3::int) dvd 35" by simp_all
  then show ?thesis by (rule isPrime_correct)
qed

text \<open>
  \<open>prevPrime\<close> can return a composite number.  It always returns, but for 25 it
  steps to 21, which is divisible by 3; \<open>isPrime\<close>, which tests neither 2 nor 3, accepts
  it.
\<close>

theorem prevPrime_composite: "prevPrime 25 = 21 \<and> isPrime 21 \<and> \<not> prime_number 21"
proof -
  have "isPrime 21" by (rule isPrime_small) simp
  moreover have "\<not> isPrime 25" by (simp add: isPrime_def isPrime_loop.simps [of 25 5])
  moreover have "\<not> prime_number 21"
    by (auto simp: prime_number_def intro!: exI [of _ 3])
  ultimately show ?thesis
    by (simp add: prevPrime_def prevPrime_loop.simps [of 25] prevPrime_loop.simps [of 21])
qed

end
