(* ===== verification/LRU_Tags.thy ===== *)
theory LRU_Tags
  imports Cache_Blk Bitmath
begin

unbundle bit_operations_syntax

text \<open>
  The set-associative tag store with least-recently-used replacement,
  \<open>mem/cache/tags/{cacheset,lru}.{cc,hh}\<close>.

  The array \<open>blks\<close> of blocks is a list, a \<open>CacheBlk*\<close> an index into it, and a
  \<open>CacheSet\<close> the list of the indexes of its blocks, most recently used first.  The
  counters of 32-bit sizes are naturals (a cache holds far fewer than \<open>2^32\<close> bytes).
  \<open>numCpus\<close> is what the cache's method of that name returns.
\<close>

section \<open>State\<close>

record LRU =
  lru_numSets :: nat
  lru_blkSize :: nat
  lru_assoc :: nat
  lru_hitLatency :: nat
  lru_sets :: "nat list list"
  lru_blks :: "CacheBlk list"
  lru_setShift :: nat
  lru_tagShift :: nat
  lru_setMask :: Addr
  lru_blkMask :: Addr
  lru_numCpus :: int
  lru_warmedUp :: bool
  lru_warmupBound :: int
  lru_warmupCycle :: Tick
  lru_tagsInUse :: int
  lru_totalRefs :: int
  lru_sampledRefs :: int
  lru_replacements :: nat
  lru_occupancies :: "int list"

definition lru_block :: "nat \<Rightarrow> nat \<Rightarrow> nat \<Rightarrow> CacheBlk" where
  "lru_block blkSize i j = CacheBlk_new\<lparr>blk_data := replicate blkSize None, blk_status := 0,
     blk_tag := of_nat j, blk_whenReady := 0, blk_isTouched := False, blk_size := blkSize,
     blk_set := int i\<rparr>"

definition LRU_new :: "nat \<Rightarrow> nat \<Rightarrow> nat \<Rightarrow> nat \<Rightarrow> int \<Rightarrow> LRU res" where
  "LRU_new numSets blkSize assoc hitLatency numCpus =
     (if blkSize < 4 \<or> \<not> isPowerOf2 (of_nat blkSize) then Inl Fatal
      else if numSets \<le> 0 \<or> \<not> isPowerOf2 (of_nat numSets) then Inl Fatal
      else if assoc \<le> 0 then Inl Fatal
      else if hitLatency \<le> 0 then Inl Fatal
      else bind_res (floorLog2 (of_nat blkSize)) (\<lambda>setShift.
           bind_res (floorLog2 (of_nat numSets)) (\<lambda>l.
             Inr \<lparr>lru_numSets = numSets, lru_blkSize = blkSize, lru_assoc = assoc,
                  lru_hitLatency = hitLatency,
                  lru_sets = map (\<lambda>i. [i * assoc ..< i * assoc + assoc]) [0..<numSets],
                  lru_blks = concat (map (\<lambda>i. map (lru_block blkSize i) [0..<assoc]) [0..<numSets]),
                  lru_setShift = setShift, lru_tagShift = setShift + l,
                  lru_setMask = of_nat numSets - 1, lru_blkMask = of_nat blkSize - 1,
                  lru_numCpus = numCpus, lru_warmedUp = False,
                  lru_warmupBound = int (numSets * assoc), lru_warmupCycle = 0,
                  lru_tagsInUse = 0, lru_totalRefs = 0, lru_sampledRefs = 0, lru_replacements = 0,
                  lru_occupancies = replicate (nat numCpus + 1) 0\<rparr>)))"

section \<open>Addresses\<close>

definition extractTag :: "LRU \<Rightarrow> Addr \<Rightarrow> Addr" where
  "extractTag l addr = drop_bit (lru_tagShift l) addr"

definition extractSet :: "LRU \<Rightarrow> Addr \<Rightarrow> nat" where
  "extractSet l addr = unat (drop_bit (lru_setShift l) addr AND lru_setMask l)"

definition extractBlkOffset :: "LRU \<Rightarrow> Addr \<Rightarrow> nat" where
  "extractBlkOffset l addr = unat (addr AND lru_blkMask l)"

definition blkAlign :: "LRU \<Rightarrow> Addr \<Rightarrow> Addr" where
  "blkAlign l addr = addr AND NOT (lru_blkMask l)"

definition regenerateBlkAddr :: "LRU \<Rightarrow> Addr \<Rightarrow> nat \<Rightarrow> Addr" where
  "regenerateBlkAddr l tag st = push_bit (lru_tagShift l) tag OR push_bit (lru_setShift l) (of_nat st)"

definition getBlockSize :: "LRU \<Rightarrow> nat" where
  "getBlockSize l = lru_blkSize l"

definition getHitLatency :: "LRU \<Rightarrow> nat" where
  "getHitLatency l = lru_hitLatency l"

section \<open>Sets\<close>

fun findBlk :: "CacheBlk list \<Rightarrow> Addr \<Rightarrow> nat list \<Rightarrow> nat option" where
  "findBlk blks tag [] = None"
| "findBlk blks tag (i # is) =
     (if blk_tag (blks ! i) = tag \<and> blk_isValid (blks ! i) then Some i else findBlk blks tag is)"

text \<open>
  \<open>moveToHead\<close>: shift the entries up by one until the one that moves is overwritten.  The
  list holds the entries from position \<open>i\<close> on.
\<close>

fun shift_until :: "nat \<Rightarrow> nat \<Rightarrow> nat list \<Rightarrow> nat list res" where
  "shift_until blk nxt [] = Inl AssertFail"
| "shift_until blk nxt (tmp # rest) =
     (if tmp = blk then Inr (nxt # rest)
      else bind_res (shift_until blk tmp rest) (\<lambda>r. Inr (nxt # r)))"

definition moveToHead :: "nat \<Rightarrow> nat list \<Rightarrow> nat list res" where
  "moveToHead blk s =
     (case s of
        [] \<Rightarrow> Inl Undefined
      | h # _ \<Rightarrow> if h = blk then Inr s else shift_until blk blk s)"

section \<open>Operations\<close>

definition upd_blk :: "nat \<Rightarrow> (CacheBlk \<Rightarrow> CacheBlk) \<Rightarrow> LRU \<Rightarrow> LRU" where
  "upd_blk i f l = l\<lparr>lru_blks := (lru_blks l)[i := f (lru_blks l ! i)]\<rparr>"

definition move_in_set :: "nat \<Rightarrow> nat \<Rightarrow> LRU \<Rightarrow> LRU res" where
  "move_in_set st i l =
     bind_res (moveToHead i (lru_sets l ! st)) (\<lambda>s. Inr (l\<lparr>lru_sets := (lru_sets l)[st := s]\<rparr>))"

definition lru_findBlock :: "LRU \<Rightarrow> Addr \<Rightarrow> nat option" where
  "lru_findBlock l addr = findBlk (lru_blks l) (extractTag l addr) (lru_sets l ! extractSet l addr)"

definition int_of_tick :: "Tick \<Rightarrow> int" where
  "int_of_tick t = sint (word_of_int t :: 32 word)"

definition accessBlock :: "Tick \<Rightarrow> Addr \<Rightarrow> LRU \<Rightarrow> (nat option \<times> int \<times> LRU) res" where
  "accessBlock curTick addr l =
     (let st = extractSet l addr
      in case findBlk (lru_blks l) (extractTag l addr) (lru_sets l ! st) of
           None \<Rightarrow> Inr (None, int (lru_hitLatency l), l)
         | Some i \<Rightarrow>
             bind_res (move_in_set st i l) (\<lambda>l.
               let b = lru_blks l ! i;
                   lat = (if blk_whenReady b > curTick \<and>
                             blk_whenReady b - curTick > int (lru_hitLatency l)
                          then int_of_tick (blk_whenReady b - curTick) else int (lru_hitLatency l))
               in Inr (Some i, lat, upd_blk i (\<lambda>b. b\<lparr>blk_refCount := blk_refCount b + 1\<rparr>) l)))"

text \<open>The occupancy counter of a context, \<open>-1\<close> for none.\<close>

definition add_occupancy :: "int \<Rightarrow> int \<Rightarrow> LRU \<Rightarrow> LRU res" where
  "add_occupancy context_src d l =
     (let i = (if context_src \<noteq> -1 then context_src mod lru_numCpus l else lru_numCpus l)
      in guard_res Undefined (0 < lru_numCpus l \<and> -1 \<le> context_src)
           (Inr (l\<lparr>lru_occupancies := (lru_occupancies l)[nat i := lru_occupancies l ! nat i + d]\<rparr>)))"

definition lru_findVictim :: "Addr \<Rightarrow> LRU \<Rightarrow> (nat \<times> LRU) res" where
  "lru_findVictim addr l =
     (let i = lru_sets l ! extractSet l addr ! (lru_assoc l - 1); b = lru_blks l ! i
      in if blk_isValid b
         then (let l = l\<lparr>lru_replacements := lru_replacements l + 1,
                         lru_totalRefs := lru_totalRefs l + blk_refCount b,
                         lru_sampledRefs := lru_sampledRefs l + 1\<rparr>;
                   l = upd_blk i (\<lambda>b. b\<lparr>blk_refCount := 0\<rparr>) l
               in bind_res (add_occupancy (blk_contextSrc b) (-1) l) (\<lambda>l.
                    Inr (i, if blk_contextSrc b \<noteq> -1
                            then upd_blk i (\<lambda>b. b\<lparr>blk_contextSrc := -1\<rparr>) l else l)))
         else Inr (i, l))"

definition lru_insertBlock :: "Tick \<Rightarrow> Addr \<Rightarrow> nat \<Rightarrow> int \<Rightarrow> LRU \<Rightarrow> LRU res" where
  "lru_insertBlock curTick addr i context_src l =
     (let l = (if \<not> blk_isTouched (lru_blks l ! i)
               then (let l = upd_blk i (\<lambda>b. b\<lparr>blk_isTouched := True\<rparr>)
                               (l\<lparr>lru_tagsInUse := lru_tagsInUse l + 1\<rparr>)
                     in if \<not> lru_warmedUp l \<and> lru_tagsInUse l \<ge> lru_warmupBound l
                        then l\<lparr>lru_warmedUp := True, lru_warmupCycle := curTick\<rparr> else l)
               else l);
          l = upd_blk i (\<lambda>b. b\<lparr>blk_tag := extractTag l addr\<rparr>) l
      in bind_res (add_occupancy context_src 1 l) (\<lambda>l.
         let l = upd_blk i (\<lambda>b. b\<lparr>blk_contextSrc := context_src\<rparr>) l
         in move_in_set (extractSet l addr) i l))"

definition lru_invalidateBlk :: "nat option \<Rightarrow> LRU \<Rightarrow> LRU res" where
  "lru_invalidateBlk p l =
     (case p of
        None \<Rightarrow> Inr l
      | Some i \<Rightarrow>
          let src = blk_contextSrc (lru_blks l ! i);
              l = upd_blk i (\<lambda>b. clearLoadLocks (b\<lparr>blk_status := 0, blk_isTouched := False\<rparr>)) l;
              l = l\<lparr>lru_tagsInUse := lru_tagsInUse l - 1\<rparr>
          in bind_res (add_occupancy src (-1) l) (\<lambda>l.
               Inr (if src \<noteq> -1 then upd_blk i (\<lambda>b. b\<lparr>blk_contextSrc := -1\<rparr>) l else l)))"

definition lru_cleanupRefs :: "LRU \<Rightarrow> LRU" where
  "lru_cleanupRefs l =
     fold (\<lambda>b l. if blk_isValid b
                 then l\<lparr>lru_totalRefs := lru_totalRefs l + blk_refCount b,
                        lru_sampledRefs := lru_sampledRefs l + 1\<rparr> else l) (lru_blks l) l"

section \<open>Invariant\<close>

definition lru_geom :: "LRU \<Rightarrow> bool" where
  "lru_geom l \<longleftrightarrow> (\<exists>s t. s + t < 64 \<and> lru_blkSize l = 2 ^ s \<and> lru_numSets l = 2 ^ t \<and>
     lru_setShift l = s \<and> lru_tagShift l = s + t \<and> lru_setMask l = mask t \<and> lru_blkMask l = mask s)"

text \<open>The tag of a block and whether it is valid, and the blocks of a set.\<close>

definition tagv :: "LRU \<Rightarrow> nat \<Rightarrow> Addr \<times> bool" where
  "tagv l i = (blk_tag (lru_blks l ! i), blk_isValid (lru_blks l ! i))"

definition set_range :: "LRU \<Rightarrow> nat \<Rightarrow> nat set" where
  "set_range l st = {st * lru_assoc l ..< st * lru_assoc l + lru_assoc l}"

definition lru_inv :: "LRU \<Rightarrow> bool" where
  "lru_inv l \<longleftrightarrow> lru_geom l \<and> 0 < lru_assoc l \<and> 0 < lru_numCpus l \<and>
     length (lru_occupancies l) = nat (lru_numCpus l) + 1 \<and>
     length (lru_blks l) = lru_numSets l * lru_assoc l \<and> length (lru_sets l) = lru_numSets l \<and>
     (\<forall>st < lru_numSets l. distinct (lru_sets l ! st) \<and> set (lru_sets l ! st) = set_range l st) \<and>
     (\<forall>st < lru_numSets l. \<forall>i \<in> set_range l st. \<forall>j \<in> set_range l st.
        snd (tagv l i) \<and> snd (tagv l j) \<and> fst (tagv l i) = fst (tagv l j) \<longrightarrow> i = j) \<and>
     (\<forall>b \<in> set (lru_blks l). -1 \<le> blk_contextSrc b)"

definition same_geom :: "LRU \<Rightarrow> LRU \<Rightarrow> bool" where
  "same_geom l l' \<longleftrightarrow> lru_numSets l' = lru_numSets l \<and> lru_blkSize l' = lru_blkSize l \<and>
     lru_assoc l' = lru_assoc l \<and> lru_hitLatency l' = lru_hitLatency l \<and> lru_setShift l' = lru_setShift l \<and>
     lru_tagShift l' = lru_tagShift l \<and> lru_setMask l' = lru_setMask l \<and> lru_blkMask l' = lru_blkMask l \<and>
     lru_numCpus l' = lru_numCpus l \<and> length (lru_occupancies l') = length (lru_occupancies l) \<and>
     length (lru_blks l') = length (lru_blks l)"

lemma same_geom_refl [simp]: "same_geom l l"
  by (simp add: same_geom_def)

lemma same_geom_trans: "same_geom l l' \<Longrightarrow> same_geom l' l'' \<Longrightarrow> same_geom l l''"
  by (simp add: same_geom_def)

lemma same_geom_addr:
  assumes "same_geom l l'"
  shows "extractTag l' a = extractTag l a" "extractSet l' a = extractSet l a"
    "set_range l' st = set_range l st" "lru_geom l' = lru_geom l"
  using assms by (simp_all add: same_geom_def extractTag_def extractSet_def set_range_def lru_geom_def)

lemma extractSet_less: "lru_geom l \<Longrightarrow> extractSet l a < lru_numSets l"
  by (auto simp: lru_geom_def extractSet_def and_mask_less_size word_less_nat_alt [symmetric]
      take_bit_eq_mask [symmetric] unsigned_take_bit_eq)

lemma lru_set_member:
  assumes "lru_inv l" and "st < lru_numSets l" and "i \<in> set_range l st"
  shows "i < length (lru_blks l)"
proof -
  have "Suc st * lru_assoc l \<le> lru_numSets l * lru_assoc l" using assms(2) by (intro mult_right_mono) simp_all
  then show ?thesis using assms(1,3) by (simp add: lru_inv_def set_range_def)
qed

text \<open>What is kept by an operation that changes neither tags nor validity.\<close>

lemma lru_inv_cong:
  assumes "lru_inv l" and "same_geom l l'" and "lru_sets l' = lru_sets l"
    and "\<And>i. i < length (lru_blks l) \<Longrightarrow> tagv l' i = tagv l i"
    and "\<forall>b \<in> set (lru_blks l'). -1 \<le> blk_contextSrc b"
  shows "lru_inv l'"
proof -
  have t: "tagv l' i = tagv l i" if "st < lru_numSets l" "i \<in> set_range l st" for st i
    using assms(4) lru_set_member [OF assms(1) that] by simp
  show ?thesis
    using assms(1,2,3,5) t unfolding lru_inv_def same_geom_addr [OF assms(2)]
    by (simp add: same_geom_def)
qed

section \<open>Facts about the parts\<close>

lemma findBlk_Some:
  assumes "findBlk bs t xs = Some i"
  shows "i \<in> set xs" "blk_tag (bs ! i) = t" "blk_isValid (bs ! i)"
  using assms by (induction xs) (auto split: if_splits)

lemma findBlk_None: "findBlk bs t xs = None \<longleftrightarrow> (\<forall>i \<in> set xs. \<not> (blk_tag (bs ! i) = t \<and> blk_isValid (bs ! i)))"
  by (induction xs) (auto split: if_splits)

lemma findBlk_unique:
  assumes "i \<in> set xs" and "blk_tag (bs ! i) = t" and "blk_isValid (bs ! i)"
    and "\<And>j. j \<in> set xs \<Longrightarrow> blk_tag (bs ! j) = t \<Longrightarrow> blk_isValid (bs ! j) \<Longrightarrow> j = i"
  shows "findBlk bs t xs = Some i"
proof (cases "findBlk bs t xs")
  case None
  then show ?thesis using assms(1-3) by (simp add: findBlk_None)
next
  case (Some j)
  then show ?thesis using assms(4) findBlk_Some by blast
qed

text \<open>The lookup of an address depends on the set of blocks only, not on their order.\<close>

lemma lru_findBlock_iff:
  assumes "lru_inv l"
  shows "lru_findBlock l a = Some i \<longleftrightarrow>
    i \<in> set_range l (extractSet l a) \<and> tagv l i = (extractTag l a, True)"
proof -
  define st where "st = extractSet l a"
  have st: "st < lru_numSets l" using assms extractSet_less by (simp add: st_def lru_inv_def)
  have r: "set (lru_sets l ! st) = set_range l st" using assms st by (simp add: lru_inv_def)
  have u: "j = i" if "j \<in> set_range l st" "i \<in> set_range l st" "snd (tagv l j)" "snd (tagv l i)"
    "fst (tagv l j) = fst (tagv l i)" for i j
    using assms st that unfolding lru_inv_def by blast
  show ?thesis unfolding lru_findBlock_def st_def [symmetric]
  proof
    assume "findBlk (lru_blks l) (extractTag l a) (lru_sets l ! st) = Some i"
    from findBlk_Some [OF this] show "i \<in> set_range l st \<and> tagv l i = (extractTag l a, True)"
      using r by (simp add: tagv_def)
  next
    assume "i \<in> set_range l st \<and> tagv l i = (extractTag l a, True)"
    then show "findBlk (lru_blks l) (extractTag l a) (lru_sets l ! st) = Some i"
      using r u by (intro findBlk_unique) (auto simp: tagv_def)
  qed
qed

lemma lru_findBlock_valid:
  assumes "lru_inv l" and "lru_findBlock l a = Some i"
  shows "i < length (lru_blks l)" "blk_isValid (lru_blks l ! i)" "blk_tag (lru_blks l ! i) = extractTag l a"
proof -
  have "extractSet l a < lru_numSets l" using assms(1) extractSet_less by (simp add: lru_inv_def)
  then show "i < length (lru_blks l)"
    using assms lru_set_member lru_findBlock_iff by blast
qed (use assms lru_findBlock_iff in \<open>auto simp: tagv_def\<close>)

lemma shift_until_eq: "x \<in> set s \<Longrightarrow> shift_until x n s = Inr (n # remove1 x s)"
  by (induction s arbitrary: n) auto

lemma moveToHead_eq:
  assumes "x \<in> set s"
  shows "moveToHead x s = Inr (x # remove1 x s)"
proof (cases s)
  case (Cons h t)
  then show ?thesis using assms shift_until_eq [OF assms, of x]
    by (simp add: moveToHead_def del: shift_until.simps)
qed (use assms in simp)

lemma tagv_upd:
  assumes "\<And>b. blk_tag (f b) = blk_tag b \<and> blk_isValid (f b) = blk_isValid b"
  shows "j < length (lru_blks l) \<Longrightarrow> tagv (upd_blk i f l) j = tagv l j"
  using assms by (cases "i = j") (auto simp: tagv_def upd_blk_def)

lemma upd_blk_geom [simp]: "same_geom l (upd_blk i f l)" "lru_sets (upd_blk i f l) = lru_sets l"
  by (simp_all add: upd_blk_def same_geom_def)

lemma upd_blk_inv:
  assumes "lru_inv l" and "\<And>b. blk_tag (f b) = blk_tag b \<and> blk_isValid (f b) = blk_isValid b"
    and "\<And>b. -1 \<le> blk_contextSrc b \<Longrightarrow> -1 \<le> blk_contextSrc (f b)"
  shows "lru_inv (upd_blk i f l)"
proof (rule lru_inv_cong [OF assms(1)])
  show "\<forall>b \<in> set (lru_blks (upd_blk i f l)). -1 \<le> blk_contextSrc b"
  proof (cases "i < length (lru_blks l)")
    case True
    then show ?thesis
      using assms(1,3) set_update_subset_insert [of "lru_blks l" i "f (lru_blks l ! i)"]
      by (auto simp: upd_blk_def lru_inv_def)
  next
    case False
    then have "(lru_blks l)[i := f (lru_blks l ! i)] = lru_blks l" by (simp only: list_update_beyond not_less)
    then show ?thesis using assms(1) unfolding upd_blk_def lru_inv_def by simp
  qed
qed (use assms(2) in \<open>simp_all add: tagv_upd\<close>)

lemma upd_blk_nth: "i < length (lru_blks l) \<Longrightarrow> lru_blks (upd_blk i f l) ! i = f (lru_blks l ! i)"
  by (simp add: upd_blk_def)

lemma move_in_set_ok:
  assumes "lru_inv l" and "st < lru_numSets l" and "i \<in> set_range l st"
  shows "move_in_set st i l = Inr (l\<lparr>lru_sets := (lru_sets l)[st := i # remove1 i (lru_sets l ! st)]\<rparr>)"
    and "lru_inv (l\<lparr>lru_sets := (lru_sets l)[st := i # remove1 i (lru_sets l ! st)]\<rparr>)"
proof -
  have m: "i \<in> set (lru_sets l ! st)" "distinct (lru_sets l ! st)" "st < length (lru_sets l)"
    using assms by (simp_all add: lru_inv_def)
  then show "move_in_set st i l = Inr (l\<lparr>lru_sets := (lru_sets l)[st := i # remove1 i (lru_sets l ! st)]\<rparr>)"
    by (simp add: move_in_set_def moveToHead_eq)
  let ?l = "l\<lparr>lru_sets := (lru_sets l)[st := i # remove1 i (lru_sets l ! st)]\<rparr>"
  have "distinct (lru_sets ?l ! k) \<and> set (lru_sets ?l ! k) = set (lru_sets l ! k)" if "k < lru_numSets l" for k
    using m that assms(1) by (cases "k = st") (auto simp: lru_inv_def)
  moreover have "tagv ?l = tagv l" "set_range ?l = set_range l" "lru_geom ?l = lru_geom l"
    by (auto simp: tagv_def set_range_def lru_geom_def)
  ultimately show "lru_inv ?l" using assms(1) unfolding lru_inv_def by simp
qed

lemma add_occupancy_ok:
  assumes "lru_inv l" and "-1 \<le> c"
  obtains occ where "add_occupancy c d l = Inr (l\<lparr>lru_occupancies := occ\<rparr>)"
    "length occ = length (lru_occupancies l)"
  using assms by (intro that) (auto simp: add_occupancy_def Let_def lru_inv_def)

lemma occupancies_inv: 
  assumes "lru_inv l" and "length occ = length (lru_occupancies l)"
  shows "lru_inv (l\<lparr>lru_occupancies := occ\<rparr>)"
  using assms by (intro lru_inv_cong [OF assms(1)]) (auto simp: same_geom_def tagv_def lru_inv_def)

section \<open>Victims\<close>

lemma set_order_last:
  assumes "lru_inv l" and "st < lru_numSets l"
  shows "lru_sets l ! st ! (lru_assoc l - 1) = last (lru_sets l ! st)"
    "lru_sets l ! st ! (lru_assoc l - 1) \<in> set_range l st"
proof -
  have s: "distinct (lru_sets l ! st)" "set (lru_sets l ! st) = set_range l st" "0 < lru_assoc l"
    using assms by (simp_all add: lru_inv_def)
  then have len: "length (lru_sets l ! st) = lru_assoc l"
    using distinct_card [OF s(1)] by (simp add: set_range_def)
  then have "lru_sets l ! st \<noteq> []" using s(3) by auto
  then show "lru_sets l ! st ! (lru_assoc l - 1) = last (lru_sets l ! st)"
    using len by (simp add: last_conv_nth)
  have "lru_sets l ! st ! (lru_assoc l - 1) \<in> set (lru_sets l ! st)"
    using len s(3) by (intro nth_mem) simp
  then show "lru_sets l ! st ! (lru_assoc l - 1) \<in> set_range l st" using s(2) by simp
qed

lemma lru_findVictim_ok:
  assumes "lru_inv l"
  obtains i l' where "lru_findVictim a l = Inr (i, l')" "i = last (lru_sets l ! extractSet l a)"
    "i \<in> set_range l (extractSet l a)" "lru_inv l'" "same_geom l l'" "lru_sets l' = lru_sets l"
    "\<And>j. j < length (lru_blks l) \<Longrightarrow> tagv l' j = tagv l j"
proof -
  have st: "extractSet l a < lru_numSets l" using assms extractSet_less by (simp add: lru_inv_def)
  define i where "i = lru_sets l ! extractSet l a ! (lru_assoc l - 1)"
  have i: "i = last (lru_sets l ! extractSet l a)" "i \<in> set_range l (extractSet l a)"
    using set_order_last [OF assms st] by (simp_all add: i_def)
  have len: "i < length (lru_blks l)" by (rule lru_set_member [OF assms st i(2)])
  show thesis
  proof (cases "blk_isValid (lru_blks l ! i)")
    case False
    then have "lru_findVictim a l = Inr (i, l)"
      unfolding lru_findVictim_def Let_def i_def [symmetric] by simp
    from that [OF this i assms] show thesis by simp
  next
    case True
    define l1 where "l1 = upd_blk i (\<lambda>b. b\<lparr>blk_refCount := 0\<rparr>) (l\<lparr>lru_replacements := lru_replacements l + 1,
      lru_totalRefs := lru_totalRefs l + blk_refCount (lru_blks l ! i),
      lru_sampledRefs := lru_sampledRefs l + 1\<rparr>)"
    have s1: "same_geom l l1" "lru_sets l1 = lru_sets l" by (simp_all add: l1_def upd_blk_def same_geom_def)
    have t1: "tagv l1 j = tagv l j" if "j < length (lru_blks l)" for j
      using that by (cases "i = j") (simp_all add: l1_def upd_blk_def tagv_def blk_isValid_def)
    have "\<forall>b \<in> set (lru_blks l). -1 \<le> blk_contextSrc b" using assms by (simp add: lru_inv_def)
    then have c1: "\<forall>b \<in> set (lru_blks l1). -1 \<le> blk_contextSrc b"
      using len by (auto simp: l1_def upd_blk_def dest!: subsetD [OF set_update_subset_insert])
    have inv1: "lru_inv l1" by (rule lru_inv_cong [OF assms s1 t1 c1])
    have src: "-1 \<le> blk_contextSrc (lru_blks l ! i)" using assms len by (simp add: lru_inv_def)
    obtain occ where occ: "add_occupancy (blk_contextSrc (lru_blks l ! i)) (-1) l1 = Inr (l1\<lparr>lru_occupancies := occ\<rparr>)"
      "length occ = length (lru_occupancies l1)"
      by (rule add_occupancy_ok [OF inv1 src])
    define l2 where "l2 = l1\<lparr>lru_occupancies := occ\<rparr>"
    have inv2: "lru_inv l2" unfolding l2_def by (rule occupancies_inv [OF inv1 occ(2)])
    define f where "f = (\<lambda>b. b\<lparr>blk_contextSrc := -1\<rparr> :: CacheBlk)"
    have f: "blk_tag (f b) = blk_tag b \<and> blk_isValid (f b) = blk_isValid b" "-1 \<le> blk_contextSrc (f b)" for b
      by (simp_all add: f_def blk_isValid_def)
    define l3 where "l3 = (if blk_contextSrc (lru_blks l ! i) \<noteq> -1 then upd_blk i f l2 else l2)"
    have "lru_findVictim a l = Inr (i, l3)"
      using True occ(1) unfolding lru_findVictim_def Let_def i_def [symmetric] l1_def [symmetric]
      by (simp add: l3_def l2_def f_def)
    moreover have "lru_inv l3" unfolding l3_def using upd_blk_inv [OF inv2, of f i] f inv2 by simp
    moreover have "same_geom l l3" "lru_sets l3 = lru_sets l"
      using s1 occ(2) by (auto simp: l3_def l2_def upd_blk_def same_geom_def)
    moreover have "tagv l3 j = tagv l j" if "j < length (lru_blks l)" for j
    proof -
      have "j < length (lru_blks l2)" using that s1(1) by (simp add: l2_def same_geom_def)
      then have "tagv l3 j = tagv l2 j" using tagv_upd [of f j l2 i] f(1) by (simp add: l3_def)
      also have "\<dots> = tagv l1 j" by (simp add: l2_def tagv_def)
      finally show ?thesis using t1 [OF that] by simp
    qed
    ultimately show thesis using i by (intro that [of i l3])
  qed
qed

section \<open>Accesses\<close>

text \<open>A hit moves the block to the front of its set and changes no tag.\<close>

lemma accessBlock_hit:
  assumes "lru_inv l" and "lru_findBlock l a = Some i"
  obtains lat l' where "accessBlock now a l = Inr (Some i, lat, l')" "lru_inv l'" "same_geom l l'"
    "lru_sets l' = (lru_sets l)[extractSet l a := i # remove1 i (lru_sets l ! extractSet l a)]"
    "\<And>j. j < length (lru_blks l) \<Longrightarrow> tagv l' j = tagv l j"
proof -
  let ?st = "extractSet l a"
  let ?l = "l\<lparr>lru_sets := (lru_sets l)[?st := i # remove1 i (lru_sets l ! ?st)]\<rparr>"
  have st: "?st < lru_numSets l" "i \<in> set_range l ?st"
    using assms extractSet_less lru_findBlock_iff by (auto simp: lru_inv_def)
  note m = move_in_set_ok [OF assms(1) st]
  define f where "f = (\<lambda>b. b\<lparr>blk_refCount := blk_refCount b + 1\<rparr> :: CacheBlk)"
  have f: "blk_tag (f b) = blk_tag b \<and> blk_isValid (f b) = blk_isValid b" "blk_contextSrc (f b) = blk_contextSrc b" for b
    by (simp_all add: f_def blk_isValid_def)
  obtain lat where "accessBlock now a l = Inr (Some i, lat, upd_blk i f ?l)"
    using assms(2) m(1) unfolding accessBlock_def Let_def lru_findBlock_def f_def by simp
  moreover have "lru_inv (upd_blk i f ?l)" using f by (intro upd_blk_inv m(2)) auto
  moreover have "tagv (upd_blk i f ?l) j = tagv l j" if "j < length (lru_blks l)" for j
    using tagv_upd [of f j ?l i] f(1) that by (simp add: tagv_def)
  moreover have "same_geom l (upd_blk i f ?l)" by (simp add: upd_blk_def same_geom_def)
  ultimately show thesis by (intro that [of lat "upd_blk i f ?l"]) simp_all
qed

lemma accessBlock_miss:
  "lru_findBlock l a = None \<Longrightarrow> accessBlock now a l = Inr (None, int (lru_hitLatency l), l)"
  by (simp add: accessBlock_def lru_findBlock_def Let_def)

text \<open>A sequence of accesses, and the blocks they hit.\<close>

fun run_accesses :: "Tick \<Rightarrow> Addr list \<Rightarrow> LRU \<Rightarrow> LRU res" where
  "run_accesses now [] l = Inr l"
| "run_accesses now (a # as) l =
     bind_res (accessBlock now a l) (\<lambda>(_, _, l). run_accesses now as l)"

lemma find_same:
  assumes "lru_inv l" and "lru_inv l'" and "same_geom l l'"
    and "\<And>j. j < length (lru_blks l) \<Longrightarrow> tagv l' j = tagv l j"
  shows "lru_findBlock l' a = lru_findBlock l a"
proof -
  have st: "extractSet l a < lru_numSets l" using assms(1) extractSet_less by (simp add: lru_inv_def)
  have "lru_findBlock l' a = Some i \<longleftrightarrow> lru_findBlock l a = Some i" for i
    unfolding lru_findBlock_iff [OF assms(1)] lru_findBlock_iff [OF assms(2)] same_geom_addr [OF assms(3)]
    using assms(4) lru_set_member [OF assms(1) st] by auto
  then show ?thesis by (metis option.exhaust)
qed

definition recency :: "nat list \<Rightarrow> nat list \<Rightarrow> nat list" where
  "recency ids order = rev (remdups ids) @ filter (\<lambda>x. x \<notin> set ids) order"

lemma remdups_snoc: "remdups (xs @ [x]) = remdups (removeAll x xs) @ [x]"
  by (induction xs) auto

lemma removeAll_remdups: "removeAll x (remdups xs) = remdups (removeAll x xs)"
  by (induction xs) auto

lemma removeAll_rev: "removeAll x (rev xs) = rev (removeAll x xs)"
  by (induction xs) auto

lemma removeAll_filter: "removeAll x (filter P xs) = filter (\<lambda>y. y \<noteq> x \<and> P y) xs"
  by (induction xs) auto

lemma recency_snoc:
  assumes "distinct order"
  shows "recency (ids @ [x]) order = x # remove1 x (recency ids order)"
proof -
  have "distinct (recency ids order)" using assms by (auto simp: recency_def)
  then have "remove1 x (recency ids order) = removeAll x (recency ids order)"
    by (rule distinct_remove1_removeAll)
  also have "\<dots> = rev (remdups (removeAll x ids)) @ filter (\<lambda>y. y \<noteq> x \<and> y \<notin> set ids) order"
    using removeAll_remdups [of x ids] by (simp add: recency_def removeAll_rev removeAll_filter)
  finally show ?thesis by (simp add: recency_def remdups_snoc)
qed


lemma recency_fold: "distinct order \<Longrightarrow> fold (\<lambda>x xs. x # remove1 x xs) ids order = recency ids order"
proof (induction ids rule: rev_induct)
  case Nil
  then show ?case by (simp add: recency_def)
qed (simp add: recency_snoc)

lemma run_accesses_hits:
  assumes "lru_inv l" and "\<forall>a \<in> set as. extractSet l a = st \<and> lru_findBlock l a \<noteq> None" and "st < lru_numSets l"
  obtains l' where "run_accesses now as l = Inr l'" "lru_inv l'" "same_geom l l'"
    "lru_sets l' ! st = fold (\<lambda>x xs. x # remove1 x xs) (map (\<lambda>a. the (lru_findBlock l a)) as) (lru_sets l ! st)"
  using assms
proof (induction as arbitrary: l thesis)
  case Nil
  then show ?case by simp
next
  case (Cons a as)
  then obtain i where i: "lru_findBlock l a = Some i" "extractSet l a = st" by auto
  obtain lat l1 where l1: "accessBlock now a l = Inr (Some i, lat, l1)" "lru_inv l1" "same_geom l l1"
    "lru_sets l1 = (lru_sets l)[st := i # remove1 i (lru_sets l ! st)]"
    "\<And>j. j < length (lru_blks l) \<Longrightarrow> tagv l1 j = tagv l j"
    using accessBlock_hit [OF Cons.prems(2) i(1)] i(2) by metis
  have find: "lru_findBlock l1 x = lru_findBlock l x" for x
    by (rule find_same [OF Cons.prems(2) l1(2,3,5)])
  have st: "st < length (lru_sets l)" "st < lru_numSets l1"
    using Cons.prems(2,4) l1(3) by (simp_all add: lru_inv_def same_geom_def)
  show ?case
  proof (rule Cons.IH [OF _ l1(2)])
    show "\<forall>x \<in> set as. extractSet l1 x = st \<and> lru_findBlock l1 x \<noteq> None"
      using Cons.prems(3) find same_geom_addr [OF l1(3)] by simp
    fix l' assume l': "run_accesses now as l1 = Inr l'" "lru_inv l'" "same_geom l1 l'"
      "lru_sets l' ! st = fold (\<lambda>x xs. x # remove1 x xs) (map (\<lambda>a. the (lru_findBlock l1 a)) as) (lru_sets l1 ! st)"
    show thesis
      by (rule Cons.prems(1) [of l'])
        (use l' l1 i(1) st find in \<open>simp_all add: same_geom_trans [OF l1(3)]\<close>)
  qed (rule st)
qed

text \<open>
  C9: Replacement order.  When the accesses \<open>as\<close> all hit blocks of one set, the set
  afterwards lists the accessed blocks from the most recently to the least recently
  accessed one, followed by the blocks that were not accessed in their old order; the
  victim chosen next is the last of that list, so an accessed block is evicted only when
  every block of the set has been accessed since, or none of the others was.
\<close>

theorem lru_replacement_order:
  assumes "lru_inv l" and "st < lru_numSets l" and "extractSet l v = st"
    and "\<forall>a \<in> set as. extractSet l a = st \<and> lru_findBlock l a \<noteq> None"
  shows "\<exists>l' i l''. run_accesses now as l = Inr l' \<and> lru_inv l' \<and>
    lru_sets l' ! st = recency (map (\<lambda>a. the (lru_findBlock l a)) as) (lru_sets l ! st) \<and>
    lru_findVictim v l' = Inr (i, l'') \<and> i = last (lru_sets l' ! st)"
proof -
  obtain l' where l': "run_accesses now as l = Inr l'" "lru_inv l'" "same_geom l l'"
    "lru_sets l' ! st = fold (\<lambda>x xs. x # remove1 x xs) (map (\<lambda>a. the (lru_findBlock l a)) as) (lru_sets l ! st)"
    by (rule run_accesses_hits [OF assms(1,4,2)])
  have d: "distinct (lru_sets l ! st)" using assms(1,2) by (simp add: lru_inv_def)
  obtain i l'' where v: "lru_findVictim v l' = Inr (i, l'')" "i = last (lru_sets l' ! st)"
    using lru_findVictim_ok [OF l'(2), of v] assms(3) same_geom_addr(2) [OF l'(3)] by metis
  show ?thesis using l' v by (auto simp: recency_fold [OF d])
qed

section \<open>Filling a block\<close>

lemma set_range_unique: "i \<in> set_range l st \<Longrightarrow> i \<in> set_range l st' \<Longrightarrow> st = st'"
proof -
  assume i: "i \<in> set_range l st" "i \<in> set_range l st'"
  have "i div lru_assoc l = k" if "i \<in> set_range l k" for k
    using that by (intro div_nat_eqI) (auto simp: set_range_def mult.commute)
  with i show ?thesis by blast
qed

lemma lru_inv_retag:
  assumes "lru_inv l" and "same_geom l l'" and "lru_sets l' = lru_sets l"
    and "\<And>j. j < length (lru_blks l) \<Longrightarrow> j \<noteq> i \<Longrightarrow> tagv l' j = tagv l j"
    and "\<forall>b \<in> set (lru_blks l'). -1 \<le> blk_contextSrc b"
    and "i \<in> set_range l st" and "st < lru_numSets l"
    and "\<And>j. j \<in> set_range l st \<Longrightarrow> j \<noteq> i \<Longrightarrow> tagv l j \<noteq> (fst (tagv l' i), True)"
  shows "lru_inv l'"
proof -
  have "p = q" if k: "k < lru_numSets l" and pq: "p \<in> set_range l k" "q \<in> set_range l k"
    "snd (tagv l' p)" "snd (tagv l' q)" "fst (tagv l' p) = fst (tagv l' q)" for k p q
  proof (rule ccontr)
    assume ne: "p \<noteq> q"
    have mem: "x < length (lru_blks l)" if "x \<in> set_range l k" for x
      by (rule lru_set_member [OF assms(1) k that])
    consider "p = i" | "q = i" | "p \<noteq> i" "q \<noteq> i" by blast
    then show False
    proof cases
      case 1
      then have "k = st" using pq(1) assms(6) set_range_unique by blast
      then show False using 1 ne pq assms(4) [of q] assms(8) [of q] mem [OF pq(2)]
        by (metis prod.collapse)
    next
      case 2
      then have "k = st" using pq(2) assms(6) set_range_unique by blast
      then show False using 2 ne pq assms(4) [of p] assms(8) [of p] mem [OF pq(1)]
        by (metis prod.collapse)
    next
      case 3
      then have "tagv l' p = tagv l p" "tagv l' q = tagv l q" using assms(4) mem pq(1,2) by auto
      then show False using assms(1) k pq ne unfolding lru_inv_def by metis
    qed
  qed
  then show ?thesis
    using assms(1,2,3,5) unfolding lru_inv_def same_geom_addr [OF assms(2)] by (simp add: same_geom_def)
qed

lemma ctx_update:
  assumes "\<forall>b \<in> set bs. -1 \<le> blk_contextSrc b" and "i < length bs"
    and "blk_contextSrc x = blk_contextSrc (bs ! i)"
  shows "\<forall>b \<in> set (bs[i := x]). -1 \<le> blk_contextSrc b"
proof
  fix b assume "b \<in> set (bs[i := x])"
  then have "b = x \<or> b \<in> set bs" using set_update_subset_insert by fastforce
  then show "-1 \<le> blk_contextSrc b" using assms nth_mem [OF assms(2)] by auto
qed

lemma lru_insertBlock_ok:
  assumes inv: "lru_inv l" and i: "i \<in> set_range l (extractSet l a)" and src: "-1 \<le> src"
    and new: "\<And>j. j \<in> set_range l (extractSet l a) \<Longrightarrow> j \<noteq> i \<Longrightarrow> tagv l j \<noteq> (extractTag l a, True)"
  obtains l' where "lru_insertBlock now a i src l = Inr l'" "lru_inv l'" "same_geom l l'"
    "tagv l' i = (extractTag l a, snd (tagv l i))"
    "\<And>j. j < length (lru_blks l) \<Longrightarrow> j \<noteq> i \<Longrightarrow> tagv l' j = tagv l j"
proof -
  define st where "st = extractSet l a"
  have st: "st < lru_numSets l" using inv extractSet_less by (simp add: st_def lru_inv_def)
  have len: "i < length (lru_blks l)" using lru_set_member [OF inv st] i by (simp add: st_def)
  have ctx: "\<forall>b \<in> set (lru_blks l). -1 \<le> blk_contextSrc b" using inv by (simp add: lru_inv_def)
  define l1 where "l1 = (if \<not> blk_isTouched (lru_blks l ! i)
     then (let l = upd_blk i (\<lambda>b. b\<lparr>blk_isTouched := True\<rparr>) (l\<lparr>lru_tagsInUse := lru_tagsInUse l + 1\<rparr>)
           in if \<not> lru_warmedUp l \<and> lru_tagsInUse l \<ge> lru_warmupBound l
              then l\<lparr>lru_warmedUp := True, lru_warmupCycle := now\<rparr> else l)
     else l)"
  define l2 where "l2 = upd_blk i (\<lambda>b. b\<lparr>blk_tag := extractTag l1 a\<rparr>) l1"
  have g1: "same_geom l l1" "lru_sets l1 = lru_sets l"
    by (simp_all add: l1_def upd_blk_def same_geom_def Let_def)
  have blks1: "\<exists>t. lru_blks l1 = (lru_blks l)[i := (lru_blks l ! i)\<lparr>blk_isTouched := t\<rparr>]"
  proof (cases "blk_isTouched (lru_blks l ! i)")
    case True
    then have "(lru_blks l ! i)\<lparr>blk_isTouched := True\<rparr> = lru_blks l ! i"
      by (cases "lru_blks l ! i") simp
    with True show ?thesis by (metis l1_def list_update_id)
  next
    case False
    then show ?thesis by (intro exI [of _ True]) (simp add: l1_def upd_blk_def Let_def)
  qed
  have tag1: "extractTag l1 a = extractTag l a" by (rule same_geom_addr(1) [OF g1(1)])
  have g2: "same_geom l l2" "lru_sets l2 = lru_sets l"
    using same_geom_trans [OF g1(1) upd_blk_geom(1)] g1(2) by (simp_all add: l2_def)
  have t2: "tagv l2 i = (extractTag l a, snd (tagv l i))"
    using blks1 len by (auto simp: l2_def upd_blk_def tagv_def tag1 blk_isValid_def)
  have t2': "tagv l2 j = tagv l j" if "j < length (lru_blks l)" "j \<noteq> i" for j
    using blks1 that by (auto simp: l2_def upd_blk_def tagv_def)
  have c2: "\<forall>b \<in> set (lru_blks l2). -1 \<le> blk_contextSrc b"
  proof -
    obtain t where "lru_blks l1 = (lru_blks l)[i := (lru_blks l ! i)\<lparr>blk_isTouched := t\<rparr>]"
      using blks1 by blast
    then show ?thesis
      using ctx_update [OF ctx len, of "(lru_blks l ! i)\<lparr>blk_isTouched := t, blk_tag := extractTag l1 a\<rparr>"] len
      by (simp add: l2_def upd_blk_def)
  qed
  have inv2: "lru_inv l2"
    by (rule lru_inv_retag [OF inv g2 t2' c2, of i st]) (use i new st t2 in \<open>simp_all add: st_def\<close>)
  obtain occ where occ: "add_occupancy src 1 l2 = Inr (l2\<lparr>lru_occupancies := occ\<rparr>)"
    "length occ = length (lru_occupancies l2)"
    by (rule add_occupancy_ok [OF inv2 src])
  define l3 where "l3 = upd_blk i (\<lambda>b. b\<lparr>blk_contextSrc := src\<rparr>) (l2\<lparr>lru_occupancies := occ\<rparr>)"
  have inv3: "lru_inv l3" unfolding l3_def
    using src by (intro upd_blk_inv occupancies_inv inv2 occ(2)) (simp_all add: blk_isValid_def)
  have g3: "same_geom l l3" using g2 occ(2) by (simp add: l3_def upd_blk_def same_geom_def)
  have t3: "tagv l3 j = tagv l2 j" if "j < length (lru_blks l)" for j
    using that g2(1) by (cases "i = j") (simp_all add: l3_def upd_blk_def tagv_def same_geom_def blk_isValid_def)
  have st3: "extractSet l3 a = st" "st < lru_numSets l3" "i \<in> set_range l3 st"
    using same_geom_addr [OF g3] i st g3 by (simp_all add: st_def same_geom_def)
  note m = move_in_set_ok [OF inv3 st3(2,3)]
  have "lru_insertBlock now a i src l = move_in_set st i l3"
    unfolding lru_insertBlock_def unfolding l1_def [symmetric] unfolding Let_def
    using occ(1) st3(1) by (simp add: l2_def [symmetric] l3_def [symmetric])
  then show thesis using m g3 t3 t2 t2' len
    by (intro that [of "l3\<lparr>lru_sets := (lru_sets l3)[st := i # remove1 i (lru_sets l3 ! st)]\<rparr>"])
      (simp_all add: same_geom_def tagv_def)
qed


text \<open>Inserting an address that is not cached and giving the block a valid status.\<close>

lemma lru_insert_status:
  assumes "lru_inv l" and "lru_findBlock l a = None" and "-1 \<le> src" and "flags_isSet status BlkValid"
    and "i \<in> set_range l (extractSet l a)"
  obtains l2 l3 where "lru_insertBlock now a i src l = Inr l2" "l3 = upd_blk i (\<lambda>b. b\<lparr>blk_status := status\<rparr>) l2"
    "same_geom l l2" "lru_inv l3" "lru_findBlock l3 a = Some i" "tagv l3 i = (extractTag l a, True)"
    "\<And>x. (extractTag l x, extractSet l x) \<noteq> (extractTag l a, extractSet l a) \<Longrightarrow>
       lru_findBlock l3 x = (if lru_findBlock l x = Some i then None else lru_findBlock l x)"
proof -
  define st where "st = extractSet l a"
  have st: "st < lru_numSets l" using assms(1) extractSet_less by (simp add: st_def lru_inv_def)
  have mem: "j < length (lru_blks l)" if "j \<in> set_range l k" "k < lru_numSets l" for j k
    by (rule lru_set_member [OF assms(1) that(2,1)])
  have new: "tagv l j \<noteq> (extractTag l a, True)" if "j \<in> set_range l (extractSet l a)" for j
    using that assms(2) lru_findBlock_iff [OF assms(1), of a] by auto
  obtain l2 where ins: "lru_insertBlock now a i src l = Inr l2" "lru_inv l2" "same_geom l l2"
    "tagv l2 i = (extractTag l a, snd (tagv l i))"
    "\<And>j. j < length (lru_blks l) \<Longrightarrow> j \<noteq> i \<Longrightarrow> tagv l2 j = tagv l j"
    using lru_insertBlock_ok [OF assms(1,5,3) new, of now] by metis
  define l3 where "l3 = upd_blk i (\<lambda>b. b\<lparr>blk_status := status\<rparr>) l2"
  have g: "same_geom l l3" using same_geom_trans [OF ins(3) upd_blk_geom(1)] by (simp add: l3_def)
  have i: "i < length (lru_blks l)" using mem assms(5) st by (simp add: st_def)
  have t3: "tagv l3 i = (extractTag l a, True)"
    using ins(3,4) i assms(4) by (simp add: l3_def upd_blk_def tagv_def same_geom_def blk_isValid_def)
  have t3': "tagv l3 j = tagv l j" if "j < length (lru_blks l)" "j \<noteq> i" for j
    using that ins(5) by (simp add: l3_def upd_blk_def tagv_def)
  have inv3: "lru_inv l3"
  proof (rule lru_inv_retag [OF ins(2), of l3 i st])
    have c: "\<forall>b \<in> set (lru_blks l2). -1 \<le> blk_contextSrc b" using ins(2) by (simp add: lru_inv_def)
    have "i < length (lru_blks l2)" using i ins(3) by (simp add: same_geom_def)
    from ctx_update [OF c this, of "(lru_blks l2 ! i)\<lparr>blk_status := status\<rparr>"]
    show "\<forall>b \<in> set (lru_blks l3). -1 \<le> blk_contextSrc b" by (simp add: l3_def upd_blk_def)
    show "tagv l2 j \<noteq> (fst (tagv l3 i), True)" if "j \<in> set_range l2 st" "j \<noteq> i" for j
      using that new ins(5) mem st t3 same_geom_addr [OF ins(3)] by (simp add: st_def)
  qed (use assms(5) st same_geom_addr [OF ins(3)] ins(3) in \<open>auto simp: l3_def upd_blk_def tagv_def same_geom_def st_def\<close>)
  have found: "lru_findBlock l3 x = Some j \<longleftrightarrow> j \<noteq> i \<and> lru_findBlock l x = Some j"
    if ne: "(extractTag l x, extractSet l x) \<noteq> (extractTag l a, st)" for x j
  proof -
    have k: "extractSet l x < lru_numSets l" using assms(1) extractSet_less by (simp add: lru_inv_def)
    have "\<not> (i \<in> set_range l (extractSet l x) \<and> tagv l3 i = (extractTag l x, True))"
      using ne t3 assms(5) set_range_unique by (auto simp: st_def)
    then show ?thesis
      unfolding lru_findBlock_iff [OF inv3] lru_findBlock_iff [OF assms(1)] same_geom_addr [OF g]
      using t3' mem [OF _ k] by metis
  qed
  have "lru_findBlock l3 a = Some i"
    unfolding lru_findBlock_iff [OF inv3] same_geom_addr [OF g] using t3 assms(5) by simp
  moreover have "lru_findBlock l3 x = (if lru_findBlock l x = Some i then None else lru_findBlock l x)"
    if "(extractTag l x, extractSet l x) \<noteq> (extractTag l a, extractSet l a)" for x
    using found [OF that [folded st_def]] by (metis not_Some_eq)
  ultimately show thesis by (intro that [OF ins(1) l3_def ins(3) inv3 _ t3])
qed

text \<open>
  What a fill does: choose a victim for the address, insert the block, and let the caller
  set the status.
\<close>

definition lru_fill :: "Tick \<Rightarrow> Addr \<Rightarrow> int \<Rightarrow> 32 word \<Rightarrow> LRU \<Rightarrow> (nat \<times> LRU) res" where
  "lru_fill now a src status l =
     bind_res (lru_findVictim a l) (\<lambda>(i, l).
     bind_res (lru_insertBlock now a i src l) (\<lambda>l.
       Inr (i, upd_blk i (\<lambda>b. b\<lparr>blk_status := status\<rparr>) l)))"

text \<open>
  C10: Filling and finding.  Filling an address that is not cached chooses the least
  recently used block of its set; afterwards the address is found at that block, every
  other cached address is still found where it was unless it lay in the victim, and an
  address that lay in the victim is not found any more.  The tag store stays well formed.
\<close>

theorem lru_fill_find:
  assumes "lru_inv l" and "lru_findBlock l a = None" and "-1 \<le> src" and "flags_isSet status BlkValid"
  shows "\<exists>i l'. lru_fill now a src status l = Inr (i, l') \<and> lru_inv l' \<and>
    i = last (lru_sets l ! extractSet l a) \<and> lru_findBlock l' a = Some i \<and>
    (\<forall>x. (extractTag l x, extractSet l x) \<noteq> (extractTag l a, extractSet l a) \<longrightarrow>
       lru_findBlock l' x = (if lru_findBlock l x = Some i then None else lru_findBlock l x))"
proof -
  obtain i l1 where v: "lru_findVictim a l = Inr (i, l1)" "i = last (lru_sets l ! extractSet l a)"
    "i \<in> set_range l (extractSet l a)" "lru_inv l1" "same_geom l l1"
    "\<And>j. j < length (lru_blks l) \<Longrightarrow> tagv l1 j = tagv l j"
    using lru_findVictim_ok [OF assms(1), of a] by metis
  note same = same_geom_addr [OF v(5)] find_same [OF assms(1) v(4,5,6)]
  have i: "i \<in> set_range l1 (extractSet l1 a)" "lru_findBlock l1 a = None" using v(3) assms(2) same by simp_all
  obtain l2 l3 where "lru_insertBlock now a i src l1 = Inr l2" "l3 = upd_blk i (\<lambda>b. b\<lparr>blk_status := status\<rparr>) l2"
    "lru_inv l3" "lru_findBlock l3 a = Some i"
    "\<And>x. (extractTag l1 x, extractSet l1 x) \<noteq> (extractTag l1 a, extractSet l1 a) \<Longrightarrow>
       lru_findBlock l3 x = (if lru_findBlock l1 x = Some i then None else lru_findBlock l1 x)"
    by (rule lru_insert_status [OF v(4) i(2) assms(3,4) i(1), of now]) blast
  then show ?thesis using v(1,2) same by (auto simp: lru_fill_def)
qed

text \<open>Invalidation of a block that is found.\<close>

lemma lru_invalidate_found:
  assumes "lru_inv l" and "lru_findBlock l a = Some i"
  obtains l' where "lru_invalidateBlk (Some i) l = Inr l'" "lru_inv l'" "same_geom l l'" "lru_findBlock l' a = None"
    "blk_status (lru_blks l' ! i) = 0" "\<And>j. j \<noteq> i \<Longrightarrow> lru_blks l' ! j = lru_blks l ! j"
proof -
  note fnd = lru_findBlock_iff [OF assms(1), THEN iffD1, OF assms(2)]
  have i: "i < length (lru_blks l)" by (rule lru_findBlock_valid [OF assms])
  have st: "extractSet l a < lru_numSets l" using assms(1) extractSet_less by (simp add: lru_inv_def)
  define src where "src = blk_contextSrc (lru_blks l ! i)"
  have ctx: "\<forall>b \<in> set (lru_blks l). -1 \<le> blk_contextSrc b" using assms(1) by (simp add: lru_inv_def)
  then have src: "-1 \<le> src" using i by (simp add: src_def)
  define n where "n = nat (if src \<noteq> -1 then src mod lru_numCpus l else lru_numCpus l)"
  define l1 where "l1 = (upd_blk i (\<lambda>b. clearLoadLocks (b\<lparr>blk_status := 0, blk_isTouched := False\<rparr>)) l)
    \<lparr>lru_tagsInUse := lru_tagsInUse l - 1, lru_occupancies := (lru_occupancies l)[n := lru_occupancies l ! n - 1]\<rparr>"
  define l' where "l' = (if src \<noteq> -1 then upd_blk i (\<lambda>b. b\<lparr>blk_contextSrc := -1\<rparr>) l1 else l1)"
  have eq: "lru_invalidateBlk (Some i) l = Inr l'"
    using src assms(1) by (simp add: lru_invalidateBlk_def add_occupancy_def Let_def src_def [symmetric] lru_inv_def l'_def l1_def
        n_def upd_blk_def)
  have other: "lru_blks l' ! j = lru_blks l ! j" if "j \<noteq> i" for j
    using that by (simp add: l'_def l1_def upd_blk_def)
  have own: "blk_status (lru_blks l' ! i) = 0" "blk_tag (lru_blks l' ! i) = blk_tag (lru_blks l ! i)"
    "-1 \<le> blk_contextSrc (lru_blks l' ! i)" "length (lru_blks l') = length (lru_blks l)"
    using i src by (simp_all add: l'_def l1_def upd_blk_def clearLoadLocks_def src_def [symmetric])
  have geom: "same_geom l l'" "lru_sets l' = lru_sets l" by (simp_all add: l'_def l1_def upd_blk_def same_geom_def)
  have c': "\<forall>b \<in> set (lru_blks l'). -1 \<le> blk_contextSrc b"
    using ctx own(3,4) other by (metis in_set_conv_nth)
  have uniq: "tagv l j \<noteq> (fst (tagv l' i), True)" if "j \<in> set_range l (extractSet l a)" "j \<noteq> i" for j
    using that fnd assms(1) st own(2) unfolding lru_inv_def by (auto simp: tagv_def)
  have inv: "lru_inv l'"
    by (rule lru_inv_retag [OF assms(1) geom _ c' conjunct1 [OF fnd] st uniq]) (simp_all add: other tagv_def)
  have "lru_findBlock l' a \<noteq> Some j" for j
  proof
    assume j: "lru_findBlock l' a = Some j"
    then have "blk_isValid (lru_blks l' ! j)" by (rule lru_findBlock_valid [OF inv])
    then have "j \<noteq> i" using own(1) by (auto simp: blk_isValid_def flag_simps)
    moreover have "lru_findBlock l a = Some j"
      using j other [OF \<open>j \<noteq> i\<close>] same_geom_addr [OF geom(1)]
      unfolding lru_findBlock_iff [OF inv] lru_findBlock_iff [OF assms(1)] by (simp add: tagv_def)
    ultimately show False using assms(2) by simp
  qed
  then have none: "lru_findBlock l' a = None" by (meson not_None_eq)
  show thesis by (rule that [OF eq inv geom(1) none own(1) other])
qed

section \<open>Construction\<close>

lemma isPowerOf2_exp: "s < 64 \<Longrightarrow> isPowerOf2 (2 ^ s)"
proof -
  assume s: "s < 64"
  have "(2 ^ s :: 64 word) AND NOT (mask s) = 2 ^ s"
    by (rule bit_word_eqI) (auto simp: bit_simps)
  moreover have "(2 ^ s :: 64 word) \<noteq> 0" using s by (simp add: exp_eq_zero_iff)
  ultimately show ?thesis
    by (simp add: isPowerOf2_def leastSigBit_def mask_eq_exp_minus_1)
qed

lemma unat_exp:
  assumes "s < 64"
  shows "unat (2 ^ s :: 64 word) = 2 ^ s"
  using assms unsigned_of_nat [of "2 ^ s", where 'b = 64 and 'a = nat] by simp

lemma lru_blocks_new:
  assumes "b \<in> set (concat (map (\<lambda>i. map (lru_block bs i) [0..<k]) [0..<n]))"
  shows "\<not> blk_isValid b" "blk_contextSrc b = -1"
  using assms by (auto simp: lru_block_def CacheBlk_new_def blk_isValid_def)

lemma length_lru_blocks: "length (concat (map (\<lambda>i. map (lru_block bs i) [0..<k]) [0..<n])) = n * k"
  by (induction n) simp_all

lemma LRU_new_inv:
  assumes "s + t < 64" and "2 \<le> s" and "0 < assoc" and "0 < lat" and "0 < cpus"
  obtains l where "LRU_new (2 ^ t) (2 ^ s) assoc lat cpus = Inr l" "lru_inv l"
    "\<And>a. lru_findBlock l a = None" "lru_numSets l = 2 ^ t" "lru_assoc l = assoc"
proof -
  have "(4 :: nat) = 2 ^ 2" by simp
  also have "\<dots> \<le> 2 ^ s" using assms(2) by (intro power_increasing) simp_all
  finally have four: "\<not> (2 ^ s < (4 :: nat))" by simp
  have log: "floorLog2 (2 ^ n) = Inr n" if "n < 64" for n
  proof -
    from floorLog2_aux [of "2 ^ n"] that obtain y where
      y: "floorLog2 (2 ^ n) = Inr y" "2 ^ y \<le> unat (2 ^ n :: 64 word)" "unat (2 ^ n :: 64 word) < 2 ^ (y + 1)"
      by (auto simp: exp_eq_zero_iff)
    then have "(2 :: nat) ^ y \<le> 2 ^ n" "(2 :: nat) ^ n < 2 ^ (y + 1)" using that by (simp_all only: unat_exp)
    then have "y \<le> n" "n < y + 1" by (simp_all only: power_increasing_iff power_strict_increasing_iff one_less_numeral_iff semiring_norm)
    then show ?thesis using y(1) by simp
  qed
  define bs where "bs = concat (map (\<lambda>i. map (lru_block (2 ^ s) i) [0..<assoc]) [0..<2 ^ t])"
  obtain l where l: "LRU_new (2 ^ t) (2 ^ s) assoc lat cpus = Inr l" "lru_blks l = bs"
    "lru_sets l = map (\<lambda>i. [i * assoc ..< i * assoc + assoc]) [0..<2 ^ t]"
    "lru_numSets l = 2 ^ t" "lru_blkSize l = 2 ^ s" "lru_assoc l = assoc" "lru_setShift l = s"
    "lru_tagShift l = s + t" "lru_setMask l = mask t" "lru_blkMask l = mask s" "lru_numCpus l = cpus"
    "lru_occupancies l = replicate (nat cpus + 1) 0"
    using assms four isPowerOf2_exp [of s] isPowerOf2_exp [of t] log [of s] log [of t]
    by (simp add: LRU_new_def bs_def mask_eq_exp_minus_1)
  have len: "length bs = 2 ^ t * assoc" by (simp add: bs_def length_lru_blocks)
  have inval: "\<not> snd (tagv l i)" if "i < length bs" for i
    using lru_blocks_new(1) nth_mem [OF that] l(2) unfolding bs_def tagv_def by simp
  have geom: "lru_geom l" unfolding lru_geom_def using assms(1) l by blast
  have rng: "i < length bs" if "st < 2 ^ t" "i \<in> set_range l st" for st i
  proof -
    have "Suc st * assoc \<le> 2 ^ t * assoc" using that(1) by (intro mult_right_mono) simp_all
    then show ?thesis using that(2) l len by (simp add: set_range_def)
  qed
  have sets: "distinct (lru_sets l ! st) \<and> set (lru_sets l ! st) = set_range l st" if "st < 2 ^ t" for st
    using that by (simp add: l(3,6) set_range_def)
  have ctx: "-1 \<le> blk_contextSrc b" if "b \<in> set bs" for b
    using lru_blocks_new(2) [OF that [unfolded bs_def]] by simp
  have inv: "lru_inv l"
    unfolding lru_inv_def l(2,4,6,11,12) using geom assms(3,5) len sets inval rng ctx l(3)
    by (intro conjI allI impI ballI) (simp, simp, simp, simp, simp, simp, blast, blast, blast, simp)
  have "lru_findBlock l a = None" for a
  proof -
    have st: "extractSet l a < 2 ^ t" using extractSet_less [OF geom] l(4) by simp
    have "lru_findBlock l a \<noteq> Some i" for i
      using inval [OF rng [OF st, of i]] lru_findBlock_iff [OF inv, of a i] by auto
    then show ?thesis by (cases "lru_findBlock l a") auto
  qed
  then show thesis using that l(1,4,6) inv by blast
qed

lemma lru_regenerate:
  assumes "lru_inv l"
  shows "regenerateBlkAddr l (extractTag l x) (extractSet l x) = blkAlign l x"
    "extractTag l (blkAlign l x) = extractTag l x" "extractSet l (blkAlign l x) = extractSet l x"
proof -
  from assms obtain s t where g: "s + t < 64" "lru_setShift l = s" "lru_tagShift l = s + t"
    "lru_setMask l = mask t" "lru_blkMask l = mask s"
    by (auto simp: lru_inv_def lru_geom_def)
  have re: "push_bit (s + t) (drop_bit (s + t) x) OR push_bit s (drop_bit s x AND mask t) = x AND NOT (mask s)"
  proof (rule bit_word_eqI)
    fix n assume "n < LENGTH(64)"
    then show "bit (push_bit (s + t) (drop_bit (s + t) x) OR push_bit s (drop_bit s x AND mask t)) n =
        bit (x AND NOT (mask s)) n"
      by (cases "n < s + t") (auto simp: bit_simps)
  qed
  then show "regenerateBlkAddr l (extractTag l x) (extractSet l x) = blkAlign l x"
    using g by (simp add: regenerateBlkAddr_def extractTag_def extractSet_def blkAlign_def)
  have "drop_bit (s + t) (x AND NOT (mask s)) = drop_bit (s + t) x" "drop_bit s (x AND NOT (mask s)) = drop_bit s x"
    by (rule bit_word_eqI; auto simp: bit_simps dest: bit_imp_le_length)+
  then show "extractTag l (blkAlign l x) = extractTag l x" "extractSet l (blkAlign l x) = extractSet l x"
    by (simp_all add: g extractTag_def extractSet_def blkAlign_def)
qed

text \<open>
  Addresses.  Tag and set index determine the block: rebuilding an address from them
  gives its block address, and two addresses agree on both exactly when they lie in the
  same block.
\<close>

theorem lru_address_roundtrip:
  assumes "lru_inv l"
  shows "regenerateBlkAddr l (extractTag l a) (extractSet l a) = blkAlign l a \<and>
    (extractTag l a = extractTag l b \<and> extractSet l a = extractSet l b \<longleftrightarrow> blkAlign l a = blkAlign l b)"
  using lru_regenerate [OF assms] by metis

section \<open>Witnesses\<close>

theorem lru_address_roundtrip_witness:
  "\<exists>l. LRU_new (2 ^ 7) (2 ^ 6) 2 1 1 = Inr l \<and>
     regenerateBlkAddr l (extractTag l 74565) (extractSet l 74565) = blkAlign l 74565"
proof -
  obtain l where "LRU_new (2 ^ 7) (2 ^ 6) 2 1 1 = Inr l" "lru_inv l"
    by (rule LRU_new_inv [of 6 7 2 1 1]) auto
  then show ?thesis using lru_address_roundtrip [of l 74565] by blast
qed

theorem lru_fill_find_witness:
  "\<exists>l i l'. LRU_new (2 ^ 7) (2 ^ 6) 2 1 1 = Inr l \<and> lru_fill 0 4096 0 7 l = Inr (i, l') \<and>
     lru_findBlock l' 4096 = Some i \<and> lru_inv l'"
proof -
  obtain l where "LRU_new (2 ^ 7) (2 ^ 6) 2 1 1 = Inr l" "lru_inv l" "lru_findBlock l 4096 = None"
    by (rule LRU_new_inv [of 6 7 2 1 1]) auto
  moreover have "flags_isSet (7 :: 32 word) BlkValid" by (simp add: flags_isSet_def BlkValid_def)
  ultimately show ?thesis using lru_fill_find [of l 4096 0 7 0] by auto
qed

text \<open>A cache with a single set of two valid blocks, those of the addresses 64 and 128.\<close>

definition demo_lru :: LRU where
  "demo_lru = \<lparr>lru_numSets = 1, lru_blkSize = 64, lru_assoc = 2, lru_hitLatency = 1, lru_sets = [[0, 1]],
     lru_blks = [CacheBlk_new\<lparr>blk_tag := 1, blk_status := 1\<rparr>, CacheBlk_new\<lparr>blk_tag := 2, blk_status := 1\<rparr>],
     lru_setShift = 6, lru_tagShift = 6, lru_setMask = 0, lru_blkMask = 63, lru_numCpus = 1,
     lru_warmedUp = False, lru_warmupBound = 2, lru_warmupCycle = 0, lru_tagsInUse = 2, lru_totalRefs = 0,
     lru_sampledRefs = 0, lru_replacements = 0, lru_occupancies = [0, 0]\<rparr>"

lemma demo_lru_inv: "lru_inv demo_lru"
proof -
  have "lru_geom demo_lru"
    unfolding lru_geom_def demo_lru_def
    by (intro exI [of _ 6] exI [of _ 0]) (simp add: mask_eq_exp_minus_1)
  moreover have "set_range demo_lru 0 = {0, 1}" by (auto simp: demo_lru_def set_range_def)
  ultimately show ?thesis
    unfolding lru_inv_def
    by (auto simp: demo_lru_def tagv_def CacheBlk_new_def)
qed

theorem lru_replacement_order_witness:
  "\<exists>l' l''. run_accesses 0 [128, 64, 128, 64] demo_lru = Inr l' \<and> lru_findVictim 192 l' = Inr (1, l'')"
proof -
  have s: "extractSet demo_lru a = 0" "lru_sets demo_lru ! 0 = [0, 1]" "lru_numSets demo_lru = 1" for a
    by (simp_all add: extractSet_def demo_lru_def)
  have f: "lru_findBlock demo_lru 64 = Some 0" "lru_findBlock demo_lru 128 = Some 1"
    by (simp_all add: lru_findBlock_def extractTag_def extractSet_def demo_lru_def CacheBlk_new_def
        blk_isValid_def flag_simps BlkValid_def drop_bit_eq_div)
  show ?thesis
    using lru_replacement_order [OF demo_lru_inv, of 0 192 "[128, 64, 128, 64]" 0] s f
    by (auto simp: recency_def)
qed

end
