(* ===== verification/Prefetch_Interface.thy ===== *)
theory Prefetch_Interface
  imports Prelude
begin

unbundle bit_operations_syntax

text \<open>
  The C interface between the simulator and a user-written prefetcher
  (\<open>prefetcher/interface.hh\<close>), with the simulator's implementation of its callbacks
  in \<open>m5/src/mem/cache/prefetch/proxy.cc\<close>.

  The callbacks reach the cache through the singleton \<open>_pp\<close>; here the part of the
  simulator they see is a record \<open>pf_sim\<close> over an arbitrary cache state, and the cache's
  methods are a record of functions \<open>cache_ops\<close>.  The locale \<open>prefetch_cache\<close> states
  what the callbacks rely on; it is interpreted on the tag store and miss queue of the
  cache model.
\<close>

section \<open>Constants and types of \<open>interface.hh\<close>\<close>

definition BLOCK_SIZE :: Addr where "BLOCK_SIZE = 64"
definition MAX_QUEUE_SIZE :: nat where "MAX_QUEUE_SIZE = 100"
definition MAX_PHYS_MEM_ADDR :: Addr where "MAX_PHYS_MEM_ADDR = 256 * 1024 * 1024 - 1"

record AccessStat =
  st_pc :: Addr
  st_mem_addr :: Addr
  st_time :: Tick
  st_miss :: bool

section \<open>The simulator as the callbacks see it\<close>

record 'c cache_ops =
  co_inCache :: "'c \<Rightarrow> Addr \<Rightarrow> bool"
  co_inMissQueue :: "'c \<Rightarrow> Addr \<Rightarrow> bool"
  co_getPrefetchBit :: "'c \<Rightarrow> Addr \<Rightarrow> bool"
  co_setPrefetchBit :: "Addr \<Rightarrow> 'c \<Rightarrow> 'c"
  co_clearPrefetchBit :: "Addr \<Rightarrow> 'c \<Rightarrow> 'c"

text \<open>
  \<open>sim_lists\<close> are the lists \<open>_addresses\<close> and \<open>_delays\<close> point to, \<open>None\<close> for the
  NULL pointers before the first call; \<open>sim_queue\<close> is the length of the prefetch queue.
\<close>

record 'c pf_sim =
  sim_cache :: 'c
  sim_queue :: nat
  sim_latency :: Tick
  sim_lists :: "(Addr list \<times> Tick list) option"

definition issue_prefetch :: "Addr \<Rightarrow> 'c pf_sim \<Rightarrow> 'c pf_sim res" where
  "issue_prefetch addr s =
     (case sim_lists s of
        None \<Rightarrow> Inl AssertFail
      | Some (addresses, delays) \<Rightarrow>
          if addr \<le> MAX_PHYS_MEM_ADDR
          then Inr (s\<lparr>sim_lists := Some (addresses @ [addr AND NOT (BLOCK_SIZE - 1)],
                                         delays @ [sim_latency s])\<rparr>)
          else Inl Fatal)"

definition get_prefetch_bit :: "'c cache_ops \<Rightarrow> Addr \<Rightarrow> 'c pf_sim \<Rightarrow> bool" where
  "get_prefetch_bit ops addr s =
     co_getPrefetchBit ops (sim_cache s) (addr AND NOT (BLOCK_SIZE - 1))"

definition set_prefetch_bit :: "'c cache_ops \<Rightarrow> Addr \<Rightarrow> 'c pf_sim \<Rightarrow> 'c pf_sim" where
  "set_prefetch_bit ops addr s =
     s\<lparr>sim_cache := co_setPrefetchBit ops (addr AND NOT (BLOCK_SIZE - 1)) (sim_cache s)\<rparr>"

definition clear_prefetch_bit :: "'c cache_ops \<Rightarrow> Addr \<Rightarrow> 'c pf_sim \<Rightarrow> 'c pf_sim" where
  "clear_prefetch_bit ops addr s =
     s\<lparr>sim_cache := co_clearPrefetchBit ops (addr AND NOT (BLOCK_SIZE - 1)) (sim_cache s)\<rparr>"

definition in_cache :: "'c cache_ops \<Rightarrow> Addr \<Rightarrow> 'c pf_sim \<Rightarrow> bool" where
  "in_cache ops addr s = co_inCache ops (sim_cache s) (addr AND NOT (BLOCK_SIZE - 1))"

definition in_mshr_queue :: "'c cache_ops \<Rightarrow> Addr \<Rightarrow> 'c pf_sim \<Rightarrow> bool" where
  "in_mshr_queue ops addr s = co_inMissQueue ops (sim_cache s) (addr AND NOT (BLOCK_SIZE - 1))"

definition current_queue_size :: "'c pf_sim \<Rightarrow> nat" where
  "current_queue_size s = sim_queue s"

section \<open>The contract of the cache\<close>

locale prefetch_cache =
  fixes ops :: "'c cache_ops" and inv :: "'c \<Rightarrow> bool"
  assumes set_bit:
    "inv c \<Longrightarrow> co_getPrefetchBit ops (co_setPrefetchBit ops a c) a = co_inCache ops c a"
  and clear_bit: "inv c \<Longrightarrow> \<not> co_getPrefetchBit ops (co_clearPrefetchBit ops a c) a"
  and bit_inCache: "inv c \<Longrightarrow> co_getPrefetchBit ops c a \<Longrightarrow> co_inCache ops c a"
  and set_inCache: "inv c \<Longrightarrow> co_inCache ops (co_setPrefetchBit ops a c) b = co_inCache ops c b"
  and set_inMissQueue:
    "inv c \<Longrightarrow> co_inMissQueue ops (co_setPrefetchBit ops a c) b = co_inMissQueue ops c b"
  and clear_inCache:
    "inv c \<Longrightarrow> co_inCache ops (co_clearPrefetchBit ops a c) b = co_inCache ops c b"
  and inv_set: "inv c \<Longrightarrow> inv (co_setPrefetchBit ops a c)"
  and inv_clear: "inv c \<Longrightarrow> inv (co_clearPrefetchBit ops a c)"
begin

lemma get_after_set:
  "inv (sim_cache s) \<Longrightarrow> get_prefetch_bit ops a (set_prefetch_bit ops a s) = in_cache ops a s"
  by (simp add: get_prefetch_bit_def set_prefetch_bit_def in_cache_def set_bit)

lemma get_after_clear:
  "inv (sim_cache s) \<Longrightarrow> \<not> get_prefetch_bit ops a (clear_prefetch_bit ops a s)"
  by (simp add: get_prefetch_bit_def clear_prefetch_bit_def clear_bit)

lemma tagged_is_cached: "inv (sim_cache s) \<Longrightarrow> get_prefetch_bit ops a s \<Longrightarrow> in_cache ops a s"
  by (simp add: get_prefetch_bit_def in_cache_def bit_inCache)

lemma set_keeps_view:
  assumes "inv (sim_cache s)"
  shows "in_cache ops b (set_prefetch_bit ops a s) = in_cache ops b s"
    and "in_mshr_queue ops b (set_prefetch_bit ops a s) = in_mshr_queue ops b s"
    and "inv (sim_cache (set_prefetch_bit ops a s))"
  using assms
  by (simp_all add: in_cache_def in_mshr_queue_def set_prefetch_bit_def set_inCache
      set_inMissQueue inv_set)

end

section \<open>Facts about the callbacks\<close>

lemma block_mask_eq: "NOT (BLOCK_SIZE - 1) = NOT (mask 6)"
  by (simp add: BLOCK_SIZE_def mask_eq_exp_minus_1)

lemma issue_prefetch_ok:
  assumes "sim_lists s = Some (as, ds)" and "a \<le> MAX_PHYS_MEM_ADDR"
  shows "issue_prefetch a s =
    Inr (s\<lparr>sim_lists := Some (as @ [a AND NOT (mask 6)], ds @ [sim_latency s])\<rparr>)"
  using assms by (simp add: issue_prefetch_def block_mask_eq)

lemma callbacks_ignore_lists [simp]:
  "in_cache ops a (s\<lparr>sim_lists := l\<rparr>) = in_cache ops a s"
  "in_mshr_queue ops a (s\<lparr>sim_lists := l\<rparr>) = in_mshr_queue ops a s"
  "current_queue_size (s\<lparr>sim_lists := l\<rparr>) = current_queue_size s"
  by (simp_all add: in_cache_def in_mshr_queue_def current_queue_size_def)

end
