(* ===== verification/Cache.thy ===== *)
theory Cache
  imports Cache_Base LRU_Tags Prefetch_Interface
begin

unbundle bit_operations_syntax

text \<open>
  The cache over the LRU tag store, \<open>mem/cache/cache.hh\<close> and the access, fill and
  snoop-state parts of \<open>mem/cache/cache_impl.hh\<close>.

  A \<open>BlkType*\<close> is \<open>TagBlk i\<close> for a block of the tag store or \<open>TempBlk\<close> for the
  temporary block.  The host is little endian, as for the byte comparison of
  \<open>cmpAndSwap\<close>.  Comparing bytes that were never written is undefined.
\<close>

section \<open>State\<close>

record Cache =
  cc_base :: BaseCache
  cc_tags :: LRU
  cc_tempBlock :: CacheBlk

datatype BlkPtr = TagBlk nat | TempBlk

definition Cache_new :: "BaseCache \<Rightarrow> LRU \<Rightarrow> Cache" where
  "Cache_new b l = \<lparr>cc_base = b, cc_tags = l,
     cc_tempBlock = CacheBlk_new\<lparr>blk_data := replicate (c_blkSize b) None\<rparr>\<rparr>"

fun the_blk :: "BlkPtr \<Rightarrow> Cache \<Rightarrow> CacheBlk" where
  "the_blk (TagBlk i) c = lru_blks (cc_tags c) ! i"
| "the_blk TempBlk c = cc_tempBlock c"

fun set_blk :: "BlkPtr \<Rightarrow> (CacheBlk \<Rightarrow> CacheBlk) \<Rightarrow> Cache \<Rightarrow> Cache" where
  "set_blk (TagBlk i) f c = c\<lparr>cc_tags := upd_blk i f (cc_tags c)\<rparr>"
| "set_blk TempBlk f c = c\<lparr>cc_tempBlock := f (cc_tempBlock c)\<rparr>"

section \<open>Queries and the prefetch bit\<close>

definition outstandingMisses :: "Cache \<Rightarrow> bool" where
  "outstandingMisses c \<longleftrightarrow> q_allocated (c_mshrQueue (cc_base c)) \<noteq> 0"

definition cache_findBlock :: "Cache \<Rightarrow> Addr \<Rightarrow> BlkPtr option" where
  "cache_findBlock c addr = map_option TagBlk (lru_findBlock (cc_tags c) addr)"

definition cache_inCache :: "Cache \<Rightarrow> Addr \<Rightarrow> bool" where
  "cache_inCache c addr \<longleftrightarrow> lru_findBlock (cc_tags c) addr \<noteq> None"

definition cache_inMissQueue :: "Cache \<Rightarrow> Addr \<Rightarrow> bool" where
  "cache_inMissQueue c addr \<longleftrightarrow> q_findMatch (c_heap (cc_base c)) addr (c_mshrQueue (cc_base c)) \<noteq> None"

definition cache_getPrefetchBit :: "Cache \<Rightarrow> Addr \<Rightarrow> bool" where
  "cache_getPrefetchBit c addr =
     (case cache_findBlock c addr of
        None \<Rightarrow> False
      | Some b \<Rightarrow> flags_isSet (blk_status (the_blk b c)) BlkHWPrefetchFlag)"

definition cache_setPrefetchBit :: "Addr \<Rightarrow> Cache \<Rightarrow> Cache" where
  "cache_setPrefetchBit addr c =
     (case cache_findBlock c addr of
        None \<Rightarrow> c
      | Some b \<Rightarrow> set_blk b (\<lambda>k. k\<lparr>blk_status := flags_set (blk_status k) BlkHWPrefetchFlag\<rparr>) c)"

definition cache_clearPrefetchBit :: "Addr \<Rightarrow> Cache \<Rightarrow> Cache" where
  "cache_clearPrefetchBit addr c =
     (case cache_findBlock c addr of
        None \<Rightarrow> c
      | Some b \<Rightarrow> set_blk b (\<lambda>k. k\<lparr>blk_status := flags_clear (blk_status k) BlkHWPrefetchFlag\<rparr>) c)"

definition cache_prefetch_ops :: "Cache cache_ops" where
  "cache_prefetch_ops = \<lparr>co_inCache = cache_inCache, co_inMissQueue = cache_inMissQueue,
     co_getPrefetchBit = cache_getPrefetchBit, co_setPrefetchBit = cache_setPrefetchBit,
     co_clearPrefetchBit = cache_clearPrefetchBit\<rparr>"

section \<open>Satisfying a request from a block\<close>

text \<open>\<open>tags->invalidateBlk\<close> on either kind of block.\<close>

fun invalidate_ptr :: "BlkPtr \<Rightarrow> Cache \<Rightarrow> Cache res" where
  "invalidate_ptr (TagBlk i) c =
     bind_res (lru_invalidateBlk (Some i) (cc_tags c)) (\<lambda>l. Inr (c\<lparr>cc_tags := l\<rparr>))"
| "invalidate_ptr TempBlk c =
     (let src = blk_contextSrc (cc_tempBlock c);
          b = clearLoadLocks ((cc_tempBlock c)\<lparr>blk_status := 0, blk_isTouched := False\<rparr>);
          l = (cc_tags c)\<lparr>lru_tagsInUse := lru_tagsInUse (cc_tags c) - 1\<rparr>
      in bind_res (add_occupancy src (-1) l) (\<lambda>l.
           Inr (c\<lparr>cc_tags := l, cc_tempBlock := (if src \<noteq> -1 then b\<lparr>blk_contextSrc := -1\<rparr> else b)\<rparr>)))"

definition le_bytes :: "nat \<Rightarrow> 64 word \<Rightarrow> pkt_data" where
  "le_bytes n w = map (\<lambda>i. Some (ucast (drop_bit (8 * i) w))) [0..<n]"

definition memcmp_eq :: "pkt_data \<Rightarrow> pkt_data \<Rightarrow> nat \<Rightarrow> bool res" where
  "memcmp_eq a b n =
     guard_res Undefined (n \<le> length a \<and> n \<le> length b \<and> None \<notin> set (take n a) \<and> None \<notin> set (take n b))
       (Inr (take n a = take n b))"

definition cmpAndSwap :: "BlkPtr \<Rightarrow> Packet \<Rightarrow> Cache \<Rightarrow> (Packet \<times> Cache) res" where
  "cmpAndSwap p pkt c =
     bind_res (getAddr pkt) (\<lambda>addr.
     bind_res (getSize pkt) (\<lambda>sz.
       let off = extractBlkOffset (cc_tags c) addr; n = unat sz; old = blk_data (the_blk p c)
       in guard_res AssertFail (8 \<ge> n)
          (bind_res (writeData (replicate 8 None) 0 pkt) (\<lambda>overwrite_val.
           bind_res (setData old off pkt) (\<lambda>pkt.
           bind_res
             (if req_isCondSwap (p_req pkt)
              then bind_res (req_getExtraData (p_req pkt)) (\<lambda>cond.
                     if n = 8 then memcmp_eq (le_bytes 8 cond) (drop off old) 8
                     else if n = 4 then memcmp_eq (le_bytes 4 cond) (drop off old) 4
                     else Inl Panic)
              else Inr True) (\<lambda>overwrite_mem.
           if overwrite_mem
           then bind_res (memcpy_at old off overwrite_val 0 n) (\<lambda>d.
                  Inr (pkt, set_blk p (\<lambda>b. b\<lparr>blk_data := d, blk_status := blk_status b OR BlkDirty\<rparr>) c))
           else Inr (pkt, c)))))))"

definition satisfyCpuSideRequest :: "BlkPtr \<Rightarrow> Packet \<Rightarrow> Cache \<Rightarrow> (Packet \<times> Cache) res" where
  "satisfyCpuSideRequest p pkt c =
     (let blkSize = int (c_blkSize (cc_base c))
      in bind_res (getOffset blkSize pkt) (\<lambda>off.
         bind_res (getSize pkt) (\<lambda>sz.
         guard_res AssertFail (off + ucast sz \<le> word_of_int blkSize)
           (if p_cmd pkt = SwapReq then cmpAndSwap p pkt c
            else if pkt_isWrite pkt
            then bind_res (checkWrite pkt (the_blk p c)) (\<lambda>(ok, pkt, b).
                   let c = set_blk p (\<lambda>_. b) c
                   in if ok
                      then bind_res (writeDataToBlock (blk_data b) blkSize pkt) (\<lambda>d.
                             Inr (pkt, set_blk p (\<lambda>b. b\<lparr>blk_data := d, blk_status := blk_status b OR BlkDirty\<rparr>) c))
                      else Inr (pkt, c))
            else if pkt_isRead pkt
            then bind_res (if pkt_isLLSC pkt
                           then bind_res (trackLoadLocked pkt (the_blk p c)) (\<lambda>b. Inr (set_blk p (\<lambda>_. b) c))
                           else Inr c) (\<lambda>c.
                 bind_res (setDataFromBlock (blk_data (the_blk p c)) blkSize pkt) (\<lambda>pkt.
                   if sz = word_of_int blkSize
                   then (if pkt_needsExclusive pkt
                         then bind_res (invalidate_ptr p c) (\<lambda>c. Inr (pkt, c))
                         else Inr (assertShared pkt,
                                   set_blk p (\<lambda>b. b\<lparr>blk_status := blk_status b AND NOT BlkWritable\<rparr>) c))
                   else Inr (pkt, c)))
            else guard_res AssertFail (pkt_isUpgrade pkt)
                   (bind_res (invalidate_ptr p c) (\<lambda>c. Inr (pkt, c)))))))"

section \<open>Replacement\<close>

definition writebackBlk :: "Tick \<Rightarrow> BlkPtr \<Rightarrow> Cache \<Rightarrow> (Packet \<times> Cache) res" where
  "writebackBlk curTick p c =
     (let b = the_blk p c; blkSize = c_blkSize (cc_base c)
      in guard_res AssertFail (blk_isValid b \<and> blk_isDirty b)
         (let c = c\<lparr>cc_base := (cc_base c)\<lparr>c_writebacks := c_writebacks (cc_base c) + 1\<rparr>\<rparr>
          in bind_res (Request_phys (regenerateBlkAddr (cc_tags c) (blk_tag b) (nat (blk_set b))) (int blkSize) 0 curTick)
               (\<lambda>req.
             bind_res (allocate (Packet_new curTick req Writeback (-1))) (\<lambda>wb.
             bind_res (getPtr wb) (\<lambda>d.
             bind_res (memcpy_at d 0 (blk_data b) 0 blkSize) (\<lambda>d.
               Inr (wb\<lparr>p_data := Some d\<rparr>,
                    set_blk p (\<lambda>b. b\<lparr>blk_status := blk_status b AND NOT BlkDirty\<rparr>) c)))))))"

definition allocateBlock :: "Tick \<Rightarrow> Addr \<Rightarrow> Cache \<Rightarrow> (nat option \<times> Packet list \<times> Cache) res" where
  "allocateBlock curTick addr c =
     bind_res (lru_findVictim addr (cc_tags c)) (\<lambda>(i, l).
       let c = c\<lparr>cc_tags := l\<rparr>; b = lru_blks l ! i
       in if blk_isValid b
          then (let repl_addr = regenerateBlkAddr l (blk_tag b) (nat (blk_set b))
                in case q_findMatch (c_heap (cc_base c)) repl_addr (c_mshrQueue (cc_base c)) of
                     Some m \<Rightarrow>
                       guard_res AssertFail (\<not> blk_isWritable b)
                         (guard_res AssertFail (m_needsExclusive (c_heap (cc_base c) ! m)) (Inr (None, [], c)))
                   | None \<Rightarrow>
                       if blk_isDirty b
                       then bind_res (writebackBlk curTick (TagBlk i) c) (\<lambda>(wb, c). Inr (Some i, [wb], c))
                       else Inr (Some i, [], c))
          else Inr (Some i, [], c))"

definition request_ctx :: "Request \<Rightarrow> int res" where
  "request_ctx req = (if req_hasContextId req then req_contextId req else Inr (-1))"

definition handleFill :: "Tick \<Rightarrow> Packet \<Rightarrow> BlkPtr option \<Rightarrow> Cache \<Rightarrow> (BlkPtr \<times> Packet list \<times> Cache) res" where
  "handleFill curTick pkt blk c =
     bind_res (getAddr pkt) (\<lambda>addr.
     bind_res
       (case blk of
          None \<Rightarrow>
            guard_res AssertFail (pkt_hasData pkt)
            (bind_res (allocateBlock curTick addr c) (\<lambda>(v, wbs, c).
               case v of
                 None \<Rightarrow>
                   guard_res AssertFail (\<not> blk_isValid (cc_tempBlock c))
                     (Inr (TempBlk, wbs, set_blk TempBlk (\<lambda>b. b\<lparr>blk_set := int (extractSet (cc_tags c) addr),
                        blk_tag := extractTag (cc_tags c) addr\<rparr>) c))
               | Some i \<Rightarrow>
                   bind_res (request_ctx (p_req pkt)) (\<lambda>cid.
                   bind_res (lru_insertBlock curTick addr i cid (cc_tags c)) (\<lambda>l.
                     Inr (TagBlk i, wbs, c\<lparr>cc_tags := l\<rparr>)))))
        | Some p \<Rightarrow>
            guard_res AssertFail (blk_tag (the_blk p c) = extractTag (cc_tags c) addr)
              (guard_res AssertFail (pkt_hasData pkt \<or> blk_isValid (the_blk p c)) (Inr (p, [], c))))
       (\<lambda>(p, wbs, c).
          let st = BlkValid OR BlkReadable;
              st = (if \<not> sharedAsserted pkt
                    then (if memInhibitAsserted pkt then st OR BlkWritable OR BlkDirty else st OR BlkWritable)
                    else st);
              c = set_blk p (\<lambda>b. b\<lparr>blk_status := st\<rparr>) c
          in bind_res
               (if pkt_isRead pkt
                then bind_res (getPtr pkt) (\<lambda>d.
                     bind_res (memcpy_at (blk_data (the_blk p c)) 0 d 0 (c_blkSize (cc_base c))) (\<lambda>d.
                       Inr (set_blk p (\<lambda>b. b\<lparr>blk_data := d\<rparr>) c)))
                else Inr c) (\<lambda>c.
             Inr (p, wbs, set_blk p (\<lambda>b. b\<lparr>blk_whenReady := p_finishTime pkt\<rparr>) c))))"

section \<open>Accesses from the processor side\<close>

definition count_hit :: "Packet \<Rightarrow> int \<Rightarrow> Cache \<Rightarrow> Cache res" where
  "count_hit pkt cid c = bind_res (incHitCount pkt cid (cc_base c)) (\<lambda>b. Inr (c\<lparr>cc_base := b\<rparr>))"

definition count_miss :: "Packet \<Rightarrow> int \<Rightarrow> Cache \<Rightarrow> Cache res" where
  "count_miss pkt cid c = bind_res (incMissCount pkt cid (cc_base c)) (\<lambda>b. Inr (c\<lparr>cc_base := b\<rparr>))"

text \<open>What \<open>access\<close> returns and leaves in its reference arguments.\<close>

record access_result =
  ar_satisfied :: bool
  ar_blk :: "BlkPtr option"
  ar_lat :: int
  ar_writebacks :: "Packet list"
  ar_pkt :: Packet
  ar_cache :: Cache

text \<open>The special case of a writeback that found no writable block.\<close>

definition access_writeback ::
  "Tick \<Rightarrow> Packet \<Rightarrow> Addr \<Rightarrow> int \<Rightarrow> int \<Rightarrow> nat option \<Rightarrow> Cache \<Rightarrow> access_result res" where
  "access_writeback curTick pkt addr cid lat blk c =
     bind_res (getSize pkt) (\<lambda>sz.
     guard_res AssertFail (c_blkSize (cc_base c) = unat sz)
     (bind_res
        (case blk of
           Some i \<Rightarrow> Inr (Some i, [], c)
         | None \<Rightarrow>
             bind_res (allocateBlock curTick addr c) (\<lambda>(v, wbs, c).
               case v of
                 None \<Rightarrow> Inr (None, wbs, c)
               | Some i \<Rightarrow>
                   bind_res (request_ctx (p_req pkt)) (\<lambda>cid.
                   bind_res (lru_insertBlock curTick addr i cid (cc_tags c)) (\<lambda>l.
                     Inr (Some i, wbs, set_blk (TagBlk i) (\<lambda>b. b\<lparr>blk_status := BlkValid OR BlkReadable\<rparr>)
                       (c\<lparr>cc_tags := l\<rparr>))))))
        (\<lambda>(v, wbs, c).
           case v of
             None \<Rightarrow>
               bind_res (count_miss pkt cid c) (\<lambda>c.
                 Inr \<lparr>ar_satisfied = False, ar_blk = None, ar_lat = lat, ar_writebacks = wbs, ar_pkt = pkt, ar_cache = c\<rparr>)
           | Some i \<Rightarrow>
               bind_res (getPtr pkt) (\<lambda>d.
               bind_res (memcpy_at (blk_data (the_blk (TagBlk i) c)) 0 d 0 (c_blkSize (cc_base c))) (\<lambda>d.
               guard_res AssertFail (\<not> pkt_needsResponse pkt)
               (bind_res (count_hit pkt cid
                    (set_blk (TagBlk i) (\<lambda>b. b\<lparr>blk_data := d, blk_status := blk_status b OR BlkDirty\<rparr>) c)) (\<lambda>c.
                  Inr \<lparr>ar_satisfied = True, ar_blk = Some (TagBlk i), ar_lat = lat, ar_writebacks = wbs,
                       ar_pkt = pkt, ar_cache = c\<rparr>)))))))"

definition cache_access :: "Tick \<Rightarrow> Packet \<Rightarrow> Cache \<Rightarrow> access_result res" where
  "cache_access curTick pkt c =
     (if req_isUncacheable (p_req pkt)
      then Inr \<lparr>ar_satisfied = False, ar_blk = None, ar_lat = c_hitLatency (cc_base c), ar_writebacks = [],
                ar_pkt = pkt, ar_cache = c\<rparr>
      else
        bind_res (request_ctx (p_req pkt)) (\<lambda>cid.
        bind_res (getAddr pkt) (\<lambda>addr.
        bind_res (accessBlock curTick addr (cc_tags c)) (\<lambda>(blk, lat, l).
          let c = c\<lparr>cc_tags := l\<rparr>
          in case blk of
               Some i \<Rightarrow>
                 if (if pkt_needsExclusive pkt then blk_isWritable (the_blk (TagBlk i) c)
                     else blk_isReadable (the_blk (TagBlk i) c))
                 then bind_res (count_hit pkt cid c) (\<lambda>c.
                      bind_res (satisfyCpuSideRequest (TagBlk i) pkt c) (\<lambda>(pkt, c).
                        Inr \<lparr>ar_satisfied = True, ar_blk = Some (TagBlk i), ar_lat = lat, ar_writebacks = [],
                             ar_pkt = pkt, ar_cache = c\<rparr>))
                 else if p_cmd pkt = Writeback then access_writeback curTick pkt addr cid lat (Some i) c
                 else bind_res (count_miss pkt cid c) (\<lambda>c.
                        Inr \<lparr>ar_satisfied = False, ar_blk = Some (TagBlk i), ar_lat = lat, ar_writebacks = [],
                             ar_pkt = pkt, ar_cache = c\<rparr>)
             | None \<Rightarrow>
                 if p_cmd pkt = Writeback then access_writeback curTick pkt addr cid lat None c
                 else bind_res (count_miss pkt cid c) (\<lambda>c.
                        if pkt_isLLSC pkt \<and> pkt_isWrite pkt
                        then Inr \<lparr>ar_satisfied = True, ar_blk = None, ar_lat = lat, ar_writebacks = [],
                                  ar_pkt = pkt\<lparr>p_req := req_setExtraData 0 (p_req pkt)\<rparr>, ar_cache = c\<rparr>
                        else Inr \<lparr>ar_satisfied = False, ar_blk = None, ar_lat = lat, ar_writebacks = [],
                                  ar_pkt = pkt, ar_cache = c\<rparr>)))))"

definition getBusPacket :: "Tick \<Rightarrow> Packet \<Rightarrow> BlkPtr option \<Rightarrow> bool \<Rightarrow> Cache \<Rightarrow> (Packet option) res" where
  "getBusPacket curTick cpu_pkt blk needsExclusive c =
     (let blkValid = (case blk of None \<Rightarrow> False | Some p \<Rightarrow> blk_isValid (the_blk p c))
      in if req_isUncacheable (p_req cpu_pkt) then guard_res AssertFail (blk = None) (Inr None)
         else if \<not> blkValid \<and> (p_cmd cpu_pkt = Writeback \<or> pkt_isUpgrade cpu_pkt) then Inr None
         else guard_res AssertFail (pkt_needsResponse cpu_pkt)
           (bind_res
              (if blkValid
               then guard_res AssertFail (needsExclusive \<and> \<not> blk_isWritable (the_blk (the blk) c))
                      (Inr (if pkt_isLLSC cpu_pkt then SCUpgradeReq else UpgradeReq))
               else Inr (if needsExclusive then ReadExReq else ReadReq)) (\<lambda>cmd.
            bind_res (allocate (Packet_new_blk curTick (p_req cpu_pkt) cmd Broadcast (int (c_blkSize (cc_base c))))) (\<lambda>pkt.
              Inr (Some pkt)))))"

section \<open>The prefetch bit\<close>

lemma prefetch_flag_keeps:
  "blk_isValid (k\<lparr>blk_status := flags_set (blk_status k) BlkHWPrefetchFlag\<rparr>) = blk_isValid k"
  "blk_isValid (k\<lparr>blk_status := flags_clear (blk_status k) BlkHWPrefetchFlag\<rparr>) = blk_isValid k"
  by (simp_all add: blk_isValid_def flag_simps blk_flag_defs)

text \<open>An update of a block that keeps tag, validity and context is invisible to lookups.\<close>

lemma set_blk_lookup:
  assumes "lru_inv (cc_tags c)"
    and "\<And>b. blk_tag (f b) = blk_tag b \<and> blk_isValid (f b) = blk_isValid b \<and> blk_contextSrc (f b) = blk_contextSrc b"
  shows "lru_inv (cc_tags (set_blk p f c))"
    "lru_findBlock (cc_tags (set_blk p f c)) a = lru_findBlock (cc_tags c) a"
proof -
  have "lru_inv (cc_tags (set_blk p f c)) \<and> lru_findBlock (cc_tags (set_blk p f c)) a = lru_findBlock (cc_tags c) a"
  proof (cases p)
    case (TagBlk i)
    have inv: "lru_inv (upd_blk i f (cc_tags c))" by (rule upd_blk_inv [OF assms(1)]) (simp_all add: assms(2))
    have "lru_findBlock (upd_blk i f (cc_tags c)) a = lru_findBlock (cc_tags c) a"
      by (rule find_same [OF assms(1) inv]) (simp_all add: tagv_upd assms(2))
    then show ?thesis using inv by (simp add: TagBlk)
  qed (simp add: assms(1))
  then show "lru_inv (cc_tags (set_blk p f c))"
    "lru_findBlock (cc_tags (set_blk p f c)) a = lru_findBlock (cc_tags c) a" by simp_all
qed

lemma set_blk_base [simp]: "cc_base (set_blk p f c) = cc_base c"
  by (cases p) simp_all

lemma the_blk_set:
  "p = TempBlk \<or> (\<exists>i < length (lru_blks (cc_tags c)). p = TagBlk i) \<Longrightarrow> the_blk p (set_blk p f c) = f (the_blk p c)"
  by (auto simp: upd_blk_def)

lemma prefetch_bit_update:
  assumes "lru_inv (cc_tags c)"
    and "\<And>b. blk_tag (f b) = blk_tag b \<and> blk_isValid (f b) = blk_isValid b \<and> blk_contextSrc (f b) = blk_contextSrc b"
    and "d = (case cache_findBlock c a of None \<Rightarrow> c | Some p \<Rightarrow> set_blk p f c)"
  shows "lru_inv (cc_tags d)" "cache_inCache d x = cache_inCache c x" "cache_inMissQueue d x = cache_inMissQueue c x"
    "cache_getPrefetchBit d a \<longleftrightarrow> (\<exists>p. cache_findBlock c a = Some p \<and> flags_isSet (blk_status (f (the_blk p c))) BlkHWPrefetchFlag)"
proof -
  show "lru_inv (cc_tags d)" "cache_inCache d x = cache_inCache c x" "cache_inMissQueue d x = cache_inMissQueue c x"
    using set_blk_lookup [OF assms(1,2)] assms(1,3)
    by (simp_all add: cache_inCache_def cache_inMissQueue_def split: option.split)
  show "cache_getPrefetchBit d a \<longleftrightarrow> (\<exists>p. cache_findBlock c a = Some p \<and> flags_isSet (blk_status (f (the_blk p c))) BlkHWPrefetchFlag)"
  proof (cases "lru_findBlock (cc_tags c) a")
    case (Some i)
    then have "d = set_blk (TagBlk i) f c" "cache_findBlock c a = Some (TagBlk i)"
      using assms(3) by (simp_all add: cache_findBlock_def)
    moreover have "i < length (lru_blks (cc_tags c))" by (rule lru_findBlock_valid [OF assms(1) Some])
    ultimately show ?thesis
      using set_blk_lookup(2) [OF assms(1,2), of "TagBlk i" a] Some the_blk_set [of "TagBlk i" c f]
      by (simp add: cache_getPrefetchBit_def cache_findBlock_def)
  qed (use assms(3) in \<open>simp add: cache_findBlock_def cache_getPrefetchBit_def\<close>)
qed

lemmas set_prefetch_bit_update = prefetch_bit_update
  [where f = "\<lambda>k. k\<lparr>blk_status := flags_set (blk_status k) BlkHWPrefetchFlag\<rparr>", OF _ _ cache_setPrefetchBit_def]

lemmas clear_prefetch_bit_update = prefetch_bit_update
  [where f = "\<lambda>k. k\<lparr>blk_status := flags_clear (blk_status k) BlkHWPrefetchFlag\<rparr>", OF _ _ cache_clearPrefetchBit_def]

interpretation lru_cache: prefetch_cache cache_prefetch_ops "\<lambda>c. lru_inv (cc_tags c)"
proof unfold_locales
  fix c :: Cache and a b :: Addr
  assume inv: "lru_inv (cc_tags c)"
  note up = set_prefetch_bit_update [OF inv] clear_prefetch_bit_update [OF inv]
  have in_find: "cache_inCache c a \<longleftrightarrow> (\<exists>p. cache_findBlock c a = Some p)"
    by (auto simp: cache_inCache_def cache_findBlock_def)
  have flag: "flags_isSet BlkHWPrefetchFlag BlkHWPrefetchFlag" "\<not> flags_isSet (flags_clear s BlkHWPrefetchFlag) BlkHWPrefetchFlag" for s
    by (simp_all add: flag_simps blk_flag_defs)
  show "co_getPrefetchBit cache_prefetch_ops (co_setPrefetchBit cache_prefetch_ops a c) a = co_inCache cache_prefetch_ops c a"
    using up(4) [of a] in_find flag by (simp add: cache_prefetch_ops_def prefetch_flag_keeps flag_simps)
  show "\<not> co_getPrefetchBit cache_prefetch_ops (co_clearPrefetchBit cache_prefetch_ops a c) a"
    using up(8) [of a] flag by (simp add: cache_prefetch_ops_def prefetch_flag_keeps)
  show "co_inCache cache_prefetch_ops (co_setPrefetchBit cache_prefetch_ops a c) b = co_inCache cache_prefetch_ops c b"
    "co_inMissQueue cache_prefetch_ops (co_setPrefetchBit cache_prefetch_ops a c) b = co_inMissQueue cache_prefetch_ops c b"
    "co_inCache cache_prefetch_ops (co_clearPrefetchBit cache_prefetch_ops a c) b = co_inCache cache_prefetch_ops c b"
    "lru_inv (cc_tags (co_setPrefetchBit cache_prefetch_ops a c))"
    "lru_inv (cc_tags (co_clearPrefetchBit cache_prefetch_ops a c))"
    using up by (simp_all add: cache_prefetch_ops_def prefetch_flag_keeps)
  show "co_inCache cache_prefetch_ops c a" if "co_getPrefetchBit cache_prefetch_ops c a"
    using that by (auto simp: cache_prefetch_ops_def cache_getPrefetchBit_def cache_inCache_def cache_findBlock_def split: option.splits)
qed

end
