(* ===== verification/Cache_Access.thy ===== *)
theory Cache_Access
  imports Cache
begin

unbundle bit_operations_syntax

text \<open>
  Correctness of the cache's data path: what evictions, hits and fills of the model in
  \<open>Cache\<close> do to the blocks.  An eviction writes dirty data back to the address it
  belongs to, a hit returns what was written, and a fill makes the data of the response
  available.
\<close>

section \<open>Invariant\<close>

text \<open>The contents of a block, without its counters.\<close>

definition same_payload :: "CacheBlk \<Rightarrow> CacheBlk \<Rightarrow> bool" where
  "same_payload b b' \<longleftrightarrow> blk_tag b' = blk_tag b \<and> blk_data b' = blk_data b \<and> blk_status b' = blk_status b \<and>
     blk_set b' = blk_set b \<and> blk_lockList b' = blk_lockList b"

lemma same_payload_refl [simp]: "same_payload b b"
  by (simp add: same_payload_def)

lemma same_payload_valid:
  "same_payload b b' \<Longrightarrow> blk_isValid b' = blk_isValid b \<and> blk_isDirty b' = blk_isDirty b \<and>
     blk_isWritable b' = blk_isWritable b \<and> blk_isReadable b' = blk_isReadable b"
  by (simp add: same_payload_def blk_isValid_def blk_isDirty_def blk_isWritable_def blk_isReadable_def)

text \<open>
  Every block has its data, and knows the set it is in.
\<close>

definition blocks_ok :: "LRU \<Rightarrow> bool" where
  "blocks_ok l \<longleftrightarrow> (\<forall>i < length (lru_blks l). length (blk_data (lru_blks l ! i)) = lru_blkSize l \<and>
     blk_set (lru_blks l ! i) = int (i div lru_assoc l))"

definition tags_ok :: "Cache \<Rightarrow> bool" where
  "tags_ok c \<longleftrightarrow> lru_inv (cc_tags c) \<and> blocks_ok (cc_tags c) \<and>
     c_blkSize (cc_base c) = lru_blkSize (cc_tags c) \<and> lru_blkSize (cc_tags c) < 2 ^ 31 \<and>
     length (blk_data (cc_tempBlock c)) = lru_blkSize (cc_tags c)"

lemma upd_blk_other: "j \<noteq> i \<Longrightarrow> lru_blks (upd_blk i f l) ! j = lru_blks l ! j"
  by (simp add: upd_blk_def)

lemma nth_upd_blk:
  "j < length (lru_blks l) \<Longrightarrow> lru_blks (upd_blk i f l) ! j = (if j = i then f (lru_blks l ! i) else lru_blks l ! j)"
  by (simp add: upd_blk_def)

lemma upd_blk_length [simp]: "length (lru_blks (upd_blk i f l)) = length (lru_blks l)"
  by (simp add: upd_blk_def)

lemma upd_blk_payload:
  assumes "\<And>b. same_payload b (f b)" and "j < length (lru_blks l)"
  shows "same_payload (lru_blks l ! j) (lru_blks (upd_blk i f l) ! j)"
  using assms by (cases "j = i") (auto simp: upd_blk_def)

lemma same_payload_trans: "same_payload a b \<Longrightarrow> same_payload b c \<Longrightarrow> same_payload a c"
  by (simp add: same_payload_def)

lemma add_occupancy_blks:
  "add_occupancy s d l = Inr l' \<Longrightarrow> lru_blks l' = lru_blks l \<and> lru_sets l' = lru_sets l \<and> same_geom l l'"
  by (auto simp: add_occupancy_def res_simps Let_def same_geom_def)

lemma lru_findVictim_payload:
  assumes "lru_findVictim a l = Inr (i, l')" and "j < length (lru_blks l)"
  shows "same_payload (lru_blks l ! j) (lru_blks l' ! j)"
proof -
  have u: "same_payload b (b\<lparr>blk_refCount := 0\<rparr>)" "same_payload b (b\<lparr>blk_contextSrc := -1\<rparr>)" for b
    by (simp_all add: same_payload_def)
  let ?l1 = "upd_blk i (\<lambda>b. b\<lparr>blk_refCount := 0\<rparr>) (l\<lparr>lru_replacements := lru_replacements l + 1,
                         lru_totalRefs := lru_totalRefs l + blk_refCount (lru_blks l ! i),
                         lru_sampledRefs := lru_sampledRefs l + 1\<rparr>)"
  have r1: "same_payload (lru_blks l ! j) (lru_blks ?l1 ! j)"
    using upd_blk_payload [of "\<lambda>b. b\<lparr>blk_refCount := 0\<rparr>" j "l\<lparr>lru_replacements := lru_replacements l + 1,
                         lru_totalRefs := lru_totalRefs l + blk_refCount (lru_blks l ! i),
                         lru_sampledRefs := lru_sampledRefs l + 1\<rparr>" i] u(1) assms(2) by simp
  consider "l' = l" | l2 where "lru_blks l2 = lru_blks ?l1" "l' = l2" |
    l2 where "lru_blks l2 = lru_blks ?l1" "l' = upd_blk i (\<lambda>b. b\<lparr>blk_contextSrc := -1\<rparr>) l2"
    using assms(1) by (auto simp: lru_findVictim_def Let_def res_simps split: if_splits dest!: add_occupancy_blks)
  then show ?thesis
  proof cases
    case 3
    have "same_payload (lru_blks l2 ! j) (lru_blks l' ! j)"
      unfolding 3(2) by (rule upd_blk_payload [OF u(2)]) (simp add: 3(1) assms(2))
    then show ?thesis using same_payload_trans [OF r1] 3(1) by simp
  qed (use r1 in auto)
qed

lemma accessBlock_payload:
  assumes "accessBlock now a l = Inr (b, lat, l')" and "j < length (lru_blks l)"
  shows "same_payload (lru_blks l ! j) (lru_blks l' ! j)"
proof -
  have "l' = l \<or> (\<exists>i s. l' = upd_blk i (\<lambda>b. b\<lparr>blk_refCount := blk_refCount b + 1\<rparr>) (l\<lparr>lru_sets := s\<rparr>))"
    using assms(1) by (auto simp: accessBlock_def Let_def res_simps move_in_set_def split: option.splits)
  moreover have "same_payload b (b\<lparr>blk_refCount := blk_refCount b + 1\<rparr>)" for b by (simp add: same_payload_def)
  moreover have "j < length (lru_blks (l\<lparr>lru_sets := s\<rparr>))" for s using assms(2) by simp
  ultimately show ?thesis using upd_blk_payload by fastforce
qed

lemma blocks_ok_payload:
  assumes "blocks_ok l" and "same_geom l l'"
    and "\<And>j. j < length (lru_blks l) \<Longrightarrow> length (blk_data (lru_blks l' ! j)) = length (blk_data (lru_blks l ! j)) \<and>
      blk_set (lru_blks l' ! j) = blk_set (lru_blks l ! j)"
  shows "blocks_ok l'"
  using assms by (simp add: blocks_ok_def same_geom_def)

section \<open>Evicting a block\<close>

text \<open>A new packet with a buffer of its own.\<close>

lemma fresh_packet:
  assumes "n < 2 ^ 31"
  obtains req wb where "Request_phys a (int n) 0 now = Inr req" "allocate (Packet_new now req cmd d) = Inr wb"
    "getPtr wb = Inr (replicate n None)" "p_addr wb = a" "p_cmd wb = cmd" "getAddr wb = Inr a"
    "getSize wb = Inr (of_nat n)" "\<not> req_isUncacheable (p_req wb)" "\<not> req_hasContextId (p_req wb)" "p_senderState wb = None"
proof -
  define r where "r = Request_new\<lparr>r_paddr := a, r_size := int n, r_time := now, r_flags := 0,
    r_privateFlags := REQ_VALID_PADDR OR REQ_VALID_SIZE\<rparr>"
  have r: "Request_phys a (int n) 0 now = Inr r" using Request_phys_ok [of "int n"] by (simp add: r_def)
  have v: "req_hasPaddr r" "req_hasSize r" "r_paddr r = a" "r_size r = int n" "\<not> req_isUncacheable r" "\<not> req_hasContextId r"
    by (simp_all add: r_def req_hasPaddr_def req_hasSize_def req_isUncacheable_def req_hasContextId_def req_flag_defs flag_simps)
  define p where "p = Packet_new now r cmd d"
  have f: "p_flags p = flags_set (flags_set PKT_VALID_DST PKT_VALID_ADDR) PKT_VALID_SIZE" "p_addr p = a" "p_size p = of_nat n"
    "p_data p = None" "p_cmd p = cmd" "p_req p = r" "p_senderState p = None"
    using v by (simp_all add: p_def Packet_new_def Packet_base_def Let_def)
  have n: "unat (of_nat n :: 32 word) = n" using assms by (simp add: unsigned_of_nat take_bit_nat_eq_self)
  show thesis
    by (rule that [OF r, of "p\<lparr>p_flags := flags_set (p_flags p) (PKT_DYNAMIC_DATA OR PKT_ARRAY_DATA),
         p_data := Some (replicate n None)\<rparr>"])
      (use f n v in \<open>simp_all add: p_def [symmetric] allocate_def getSize_def getAddr_def getPtr_def flag_simps pkt_flag_defs\<close>)
qed

text \<open>The block of a cached address knows that address.\<close>

lemma found_block_addr:
  assumes "tags_ok c" and "lru_findBlock (cc_tags c) v = Some i"
  shows "regenerateBlkAddr (cc_tags c) (blk_tag (lru_blks (cc_tags c) ! i)) (nat (blk_set (lru_blks (cc_tags c) ! i))) =
    blkAlign (cc_tags c) v"
proof -
  let ?l = "cc_tags c"
  have inv: "lru_inv ?l" using assms(1) by (simp add: tags_ok_def)
  note f = lru_findBlock_valid [OF inv assms(2)]
  have "i \<in> set_range ?l (extractSet ?l v)" using lru_findBlock_iff [OF inv] assms(2) by blast
  then have "i div lru_assoc ?l = extractSet ?l v"
    by (intro div_nat_eqI) (auto simp: set_range_def mult.commute)
  then have "nat (blk_set (lru_blks ?l ! i)) = extractSet ?l v" using assms(1) f(1) by (simp add: tags_ok_def blocks_ok_def)
  then show ?thesis using f(3) lru_regenerate(1) [OF inv, of v] by simp
qed

lemma writebackBlk_ok:
  assumes "length (blk_data (the_blk p c)) = c_blkSize (cc_base c)" and "c_blkSize (cc_base c) < 2 ^ 31"
    and "blk_isValid (the_blk p c)" and "blk_isDirty (the_blk p c)"
  obtains wb where "writebackBlk now p c = Inr (wb, set_blk p (\<lambda>b. b\<lparr>blk_status := blk_status b AND NOT BlkDirty\<rparr>)
      (c\<lparr>cc_base := (cc_base c)\<lparr>c_writebacks := c_writebacks (cc_base c) + 1\<rparr>\<rparr>))"
    "p_cmd wb = Writeback" "p_data wb = Some (blk_data (the_blk p c))"
    "getAddr wb = Inr (regenerateBlkAddr (cc_tags c) (blk_tag (the_blk p c)) (nat (blk_set (the_blk p c))))"
    "getSize wb = Inr (of_nat (c_blkSize (cc_base c)))" "p_senderState wb = None"
proof -
  let ?n = "c_blkSize (cc_base c)" and ?a = "regenerateBlkAddr (cc_tags c) (blk_tag (the_blk p c)) (nat (blk_set (the_blk p c)))"
  let ?c = "c\<lparr>cc_base := (cc_base c)\<lparr>c_writebacks := c_writebacks (cc_base c) + 1\<rparr>\<rparr>"
  obtain req wb where wb: "Request_phys ?a (int ?n) 0 now = Inr req" "allocate (Packet_new now req Writeback (-1)) = Inr wb"
    "getPtr wb = Inr (replicate ?n None)" "p_cmd wb = Writeback" "getAddr wb = Inr ?a" "getSize wb = Inr (of_nat ?n)" "p_senderState wb = None"
    by (rule fresh_packet [OF assms(2)]) blast
  have "memcpy_at (replicate ?n None) 0 (blk_data (the_blk p c)) 0 ?n = Inr (blk_data (the_blk p c))"
    using assms(1) by (simp add: memcpy_at_def)
  then have "writebackBlk now p c = Inr (wb\<lparr>p_data := Some (blk_data (the_blk p c))\<rparr>,
      set_blk p (\<lambda>b. b\<lparr>blk_status := blk_status b AND NOT BlkDirty\<rparr>) ?c)"
    using assms(3,4) wb unfolding writebackBlk_def Let_def by simp
  then show thesis by (rule that) (use wb in \<open>simp_all add: getAddr_def getSize_def\<close>)
qed

text \<open>What replacing a block that is free to go does.\<close>

lemma allocateBlock_ok:
  assumes "tags_ok c" and "lru_findBlock (cc_tags c) v = Some i" and "i = last (lru_sets (cc_tags c) ! extractSet (cc_tags c) a)"
    and "\<not> cache_inMissQueue c (blkAlign (cc_tags c) v)"
  obtains wbs c' where "allocateBlock now a c = Inr (Some i, wbs, c')"
    "if blk_isDirty (lru_blks (cc_tags c) ! i)
     then \<exists>wb. wbs = [wb] \<and> p_cmd wb = Writeback \<and> getAddr wb = Inr (blkAlign (cc_tags c) v) \<and>
            p_data wb = Some (blk_data (lru_blks (cc_tags c) ! i))
     else wbs = []"
proof -
  let ?l = "cc_tags c"
  have inv: "lru_inv ?l" using assms(1) by (simp add: tags_ok_def)
  note f = lru_findBlock_valid [OF inv assms(2)]
  obtain l' where l': "lru_findVictim a ?l = Inr (i, l')" "lru_inv l'" "same_geom ?l l'"
    using lru_findVictim_ok [OF inv, of a] assms(3) by metis
  have pay: "same_payload (lru_blks ?l ! i) (lru_blks l' ! i)" by (rule lru_findVictim_payload [OF l'(1) f(1)])
  define c1 where "c1 = c\<lparr>cc_tags := l'\<rparr>"
  have b1: "the_blk (TagBlk i) c1 = lru_blks l' ! i" "cc_base c1 = cc_base c" "cc_tags c1 = l'" by (simp_all add: c1_def)
  have rg: "regenerateBlkAddr l' x y = regenerateBlkAddr ?l x y" for x y
    using l'(3) by (simp add: same_geom_def regenerateBlkAddr_def)
  have addr: "regenerateBlkAddr l' (blk_tag (lru_blks l' ! i)) (nat (blk_set (lru_blks l' ! i))) = blkAlign ?l v"
    using found_block_addr [OF assms(1,2)] pay by (simp add: rg same_payload_def)
  have none: "q_findMatch (c_heap (cc_base c)) (blkAlign ?l v) (c_mshrQueue (cc_base c)) = None"
    using assms(4) by (simp add: cache_inMissQueue_def)
  have valid: "blk_isValid (lru_blks l' ! i)" using f(2) same_payload_valid [OF pay] by simp
  show thesis
  proof (cases "blk_isDirty (lru_blks ?l ! i)")
    case True
    have "length (blk_data (the_blk (TagBlk i) c1)) = c_blkSize (cc_base c1)" "c_blkSize (cc_base c1) < 2 ^ 31"
      using assms(1) f(1) pay by (simp_all add: b1 tags_ok_def blocks_ok_def same_payload_def)
    moreover have "blk_isValid (the_blk (TagBlk i) c1)" "blk_isDirty (the_blk (TagBlk i) c1)"
      using valid True same_payload_valid [OF pay] by (simp_all add: b1)
    ultimately obtain wb c2 where wb: "writebackBlk now (TagBlk i) c1 = Inr (wb, c2)" "p_cmd wb = Writeback"
      "p_data wb = Some (blk_data (the_blk (TagBlk i) c1))" "getAddr wb = Inr (blkAlign ?l v)"
      by (rule writebackBlk_ok [of "TagBlk i" c1 now]) (simp add: b1 addr)
    have "blk_isDirty (lru_blks l' ! i)" using True same_payload_valid [OF pay] by simp
    then have "allocateBlock now a c = Inr (Some i, [wb], c2)"
      using l'(1) valid none wb(1) by (simp add: allocateBlock_def addr c1_def)
    then show thesis by (rule that) (use True wb pay in \<open>simp add: b1 same_payload_def\<close>)
  next
    case False
    then have "\<not> blk_isDirty (lru_blks l' ! i)" using same_payload_valid [OF pay] by simp
    then have "allocateBlock now a c = Inr (Some i, [], c1)"
      using l'(1) valid none by (simp add: allocateBlock_def addr c1_def)
    then show thesis by (rule that) (use False in simp)
  qed
qed

text \<open>
  C16: Dirty data is not lost.  When a miss to \<open>a\<close> replaces the block of a cached address
  \<open>v\<close> that has no outstanding miss, the replacement succeeds, and exactly when the block
  is dirty a writeback is produced: for the block address of \<open>v\<close>, with the data the block
  held.
\<close>

theorem eviction_writes_back:
  assumes "tags_ok c" and "lru_findBlock (cc_tags c) v = Some i"
    and "i = last (lru_sets (cc_tags c) ! extractSet (cc_tags c) a)"
    and "\<not> cache_inMissQueue c (blkAlign (cc_tags c) v)"
  shows "\<exists>wbs c'. allocateBlock now a c = Inr (Some i, wbs, c') \<and>
    (if blk_isDirty (lru_blks (cc_tags c) ! i)
     then \<exists>wb. wbs = [wb] \<and> p_cmd wb = Writeback \<and> getAddr wb = Inr (blkAlign (cc_tags c) v) \<and>
            p_data wb = Some (blk_data (lru_blks (cc_tags c) ! i))
     else wbs = [])"
  by (rule allocateBlock_ok [OF assms, of now]) blast

section \<open>Hits\<close>

text \<open>An update of one block that keeps what lookups see of it.\<close>

definition keeps_identity :: "CacheBlk \<Rightarrow> CacheBlk \<Rightarrow> bool" where
  "keeps_identity b b' \<longleftrightarrow> blk_tag b' = blk_tag b \<and> blk_isValid b' = blk_isValid b \<and>
     blk_contextSrc b' = blk_contextSrc b \<and> blk_set b' = blk_set b \<and> length (blk_data b') = length (blk_data b)"

lemma set_blk_ok:
  assumes "tags_ok c" and "keeps_identity (the_blk p c) (f (the_blk p c))"
  shows "tags_ok (set_blk p f c)" "lru_findBlock (cc_tags (set_blk p f c)) a = lru_findBlock (cc_tags c) a"
proof -
  define g where "g = (\<lambda>b. if b = the_blk p c then f b else b)"
  have eq: "set_blk p f c = set_blk p g c" by (cases p) (simp_all add: g_def upd_blk_def)
  have g: "blk_tag (g b) = blk_tag b \<and> blk_isValid (g b) = blk_isValid b \<and> blk_contextSrc (g b) = blk_contextSrc b"
    "blk_set (g b) = blk_set b" "length (blk_data (g b)) = length (blk_data b)" for b
    using assms(2) by (simp_all add: g_def keeps_identity_def)
  have inv: "lru_inv (cc_tags c)" using assms(1) by (simp add: tags_ok_def)
  note look = set_blk_lookup [OF inv g(1), of p]
  have "blocks_ok (cc_tags (set_blk p g c))"
  proof (cases p)
    case (TagBlk i)
    have "blocks_ok (upd_blk i g (cc_tags c))"
      by (rule blocks_ok_payload [of "cc_tags c"])
        (use assms(1) g in \<open>simp_all add: tags_ok_def nth_upd_blk\<close>)
    then show ?thesis by (simp add: TagBlk)
  qed (use assms(1) in \<open>simp add: tags_ok_def\<close>)
  moreover have "lru_blkSize (cc_tags (set_blk p g c)) = lru_blkSize (cc_tags c)"
    "length (blk_data (cc_tempBlock (set_blk p g c))) = length (blk_data (cc_tempBlock c))"
    using g(3) by (cases p; simp add: upd_blk_def)+
  ultimately show "tags_ok (set_blk p f c)" using assms(1) look(1) unfolding eq tags_ok_def by simp
  show "lru_findBlock (cc_tags (set_blk p f c)) a = lru_findBlock (cc_tags c) a" unfolding eq by (rule look(2))
qed

text \<open>The request a packet makes, and its buffer.\<close>

definition pkt_at :: "Addr \<Rightarrow> nat \<Rightarrow> Packet \<Rightarrow> bool" where
  "pkt_at a n pkt \<longleftrightarrow> getAddr pkt = Inr a \<and> getSize pkt = Inr (of_nat n) \<and> n < 2 ^ 31 \<and>
     (\<exists>d. getPtr pkt = Inr d \<and> length d = n)"

lemma pkt_at_size: "pkt_at a n pkt \<Longrightarrow> unat (of_nat n :: 32 word) = n"
  by (auto simp: pkt_at_def unsigned_of_nat take_bit_nat_eq_self)

lemma block_mask:
  assumes "tags_ok c"
  shows "word_of_int (int (c_blkSize (cc_base c)) - 1) = lru_blkMask (cc_tags c)"
    "(word_of_int (int (c_blkSize (cc_base c))) :: Addr) = of_nat (lru_blkSize (cc_tags c))"
proof -
  from assms obtain s where s: "s < 64" "lru_blkSize (cc_tags c) = 2 ^ s" "lru_blkMask (cc_tags c) = mask s"
    "c_blkSize (cc_base c) = lru_blkSize (cc_tags c)"
    by (auto simp: tags_ok_def lru_inv_def lru_geom_def)
  show "word_of_int (int (c_blkSize (cc_base c)) - 1) = lru_blkMask (cc_tags c)"
    unfolding s(2,3,4) mask_eq_exp_minus_1 by simp
  show "(word_of_int (int (c_blkSize (cc_base c))) :: Addr) = of_nat (lru_blkSize (cc_tags c))" unfolding s(4) by simp
qed

lemma in_block_guard:
  assumes "tags_ok c" and "pkt_at a n pkt" and "extractBlkOffset (cc_tags c) a + n \<le> lru_blkSize (cc_tags c)"
  shows "getOffset (int (c_blkSize (cc_base c))) pkt = Inr (a AND lru_blkMask (cc_tags c))"
    "(a AND lru_blkMask (cc_tags c)) + ucast (of_nat n :: 32 word) \<le> word_of_int (int (c_blkSize (cc_base c)))"
proof -
  show "getOffset (int (c_blkSize (cc_base c))) pkt = Inr (a AND lru_blkMask (cc_tags c))"
    using assms(2) block_mask(1) [OF assms(1)] by (simp add: getOffset_def pkt_at_def)
  have sz: "lru_blkSize (cc_tags c) < 2 ^ 31" using assms(1) by (simp add: tags_ok_def)
  have u: "unat (of_nat n :: 64 word) = n" "unat (of_nat (lru_blkSize (cc_tags c)) :: 64 word) = lru_blkSize (cc_tags c)"
    using assms(2) sz by (simp_all add: pkt_at_def unsigned_of_nat take_bit_nat_eq_self)
  have w: "ucast (of_nat n :: 32 word) = (of_nat n :: 64 word)"
    by (rule word_unat_eq_iff [THEN iffD2]) (use assms(2) in \<open>simp add: pkt_at_def unsigned_of_nat unsigned_ucast_eq take_bit_nat_eq_self\<close>)
  have "unat ((a AND lru_blkMask (cc_tags c)) + of_nat n) = extractBlkOffset (cc_tags c) a + n"
    using assms(3) sz u(1) by (simp add: unat_word_ariths extractBlkOffset_def)
  then show "(a AND lru_blkMask (cc_tags c)) + ucast (of_nat n :: 32 word) \<le> word_of_int (int (c_blkSize (cc_base c)))"
    unfolding block_mask(2) [OF assms(1)] w word_le_nat_alt u(2) using assms(3) by simp
qed

text \<open>A hit: the block moves to the front of its set, the counter goes up, the block answers.\<close>

definition may_access :: "Packet \<Rightarrow> CacheBlk \<Rightarrow> bool" where
  "may_access pkt b = (if pkt_needsExclusive pkt then blk_isWritable b else blk_isReadable b)"

definition countable_pkt :: "Packet \<Rightarrow> Cache \<Rightarrow> bool" where
  "countable_pkt pkt c \<longleftrightarrow> \<not> req_isUncacheable (p_req pkt) \<and>
     (\<exists>cid k. request_ctx (p_req pkt) = Inr cid \<and> stat_bucket (p_cmd pkt) cid (cc_base c) = Inr k)"

lemma countable_pkt_cong:
  assumes "c_numCpus (cc_base c') = c_numCpus (cc_base c)" and "countable_pkt pkt c"
  shows "countable_pkt pkt c'"
proof -
  have "stat_bucket cmd cid (cc_base c') = stat_bucket cmd cid (cc_base c)" for cmd cid
    using assms(1) by (simp add: stat_bucket_def)
  then show ?thesis using assms(2) by (simp add: countable_pkt_def)
qed

lemma access_hit:
  assumes "tags_ok c" and "countable_pkt pkt c" and "getAddr pkt = Inr a"
    and "lru_findBlock (cc_tags c) a = Some i" and "may_access pkt (lru_blks (cc_tags c) ! i)"
  obtains lat c1 where "cache_access now pkt c = bind_res (satisfyCpuSideRequest (TagBlk i) pkt c1) (\<lambda>(pkt, c).
      Inr \<lparr>ar_satisfied = True, ar_blk = Some (TagBlk i), ar_lat = lat, ar_writebacks = [], ar_pkt = pkt, ar_cache = c\<rparr>)"
    "tags_ok c1" "\<And>x. lru_findBlock (cc_tags c1) x = lru_findBlock (cc_tags c) x" "same_geom (cc_tags c) (cc_tags c1)"
    "\<And>j. j < length (lru_blks (cc_tags c)) \<Longrightarrow> same_payload (lru_blks (cc_tags c) ! j) (lru_blks (cc_tags c1) ! j)"
    "c_numCpus (cc_base c1) = c_numCpus (cc_base c)" "c_blkSize (cc_base c1) = c_blkSize (cc_base c)"
proof -
  have inv: "lru_inv (cc_tags c)" using assms(1) by (simp add: tags_ok_def)
  obtain lat l' where l': "accessBlock now a (cc_tags c) = Inr (Some i, lat, l')" "lru_inv l'" "same_geom (cc_tags c) l'"
    "\<And>j. j < length (lru_blks (cc_tags c)) \<Longrightarrow> tagv l' j = tagv (cc_tags c) j"
    by (rule accessBlock_hit [OF inv assms(4), of now]) blast
  note pay = accessBlock_payload [OF l'(1)]
  have i: "i < length (lru_blks (cc_tags c))" by (rule lru_findBlock_valid [OF inv assms(4)])
  have ok: "may_access pkt (lru_blks l' ! i)"
    using assms(5) same_payload_valid [OF pay [OF i]] by (simp add: may_access_def)
  obtain cid k where ctx: "request_ctx (p_req pkt) = Inr cid" "stat_bucket (p_cmd pkt) cid (cc_base c) = Inr k"
    "\<not> req_isUncacheable (p_req pkt)" using assms(2) by (auto simp: countable_pkt_def)
  define c1 where "c1 = c\<lparr>cc_tags := l', cc_base := (cc_base c)\<lparr>c_hits := (c_hits (cc_base c))
     (p_cmd pkt := (c_hits (cc_base c) (p_cmd pkt))(k := c_hits (cc_base c) (p_cmd pkt) k + 1))\<rparr>\<rparr>"
  have "count_hit pkt cid (c\<lparr>cc_tags := l'\<rparr>) = Inr c1"
    using ctx(2) by (simp add: count_hit_def incHitCount_def c1_def Let_def)
  then have "cache_access now pkt c = bind_res (satisfyCpuSideRequest (TagBlk i) pkt c1) (\<lambda>(pkt, c).
      Inr \<lparr>ar_satisfied = True, ar_blk = Some (TagBlk i), ar_lat = lat, ar_writebacks = [], ar_pkt = pkt, ar_cache = c\<rparr>)"
    using ctx assms(3) l'(1) ok by (simp add: cache_access_def may_access_def Let_def)
  moreover have "tags_ok c1"
  proof -
    have "blocks_ok l'"
      by (rule blocks_ok_payload [OF _ l'(3)]) (use assms(1) pay in \<open>auto simp: tags_ok_def same_payload_def\<close>)
    then show ?thesis using assms(1) l'(2,3) by (simp add: tags_ok_def c1_def same_geom_def)
  qed
  moreover have "lru_findBlock (cc_tags c1) x = lru_findBlock (cc_tags c) x" for x
    using find_same [OF inv l'(2,3,4)] by (simp add: c1_def)
  ultimately show thesis using l'(3) pay by (intro that [of c1 lat]) (simp_all add: c1_def)
qed

text \<open>The bytes of a block an access covers.\<close>

definition bytes_at :: "Cache \<Rightarrow> nat \<Rightarrow> Addr \<Rightarrow> nat \<Rightarrow> pkt_data" where
  "bytes_at c i a n = take n (drop (extractBlkOffset (cc_tags c) a) (blk_data (lru_blks (cc_tags c) ! i)))"

definition fits :: "Cache \<Rightarrow> Addr \<Rightarrow> nat \<Rightarrow> bool" where
  "fits c a n \<longleftrightarrow> extractBlkOffset (cc_tags c) a + n \<le> lru_blkSize (cc_tags c)"

lemma dirty_keeps_valid:
  "flags_isSet (s OR BlkDirty) BlkValid = flags_isSet s BlkValid"
  "flags_allSet (s OR BlkDirty) (BlkWritable OR BlkValid) = flags_allSet s (BlkWritable OR BlkValid)"
  "flags_allSet (s OR BlkDirty) (BlkReadable OR BlkValid) = flags_allSet s (BlkReadable OR BlkValid)"
  by (simp_all add: flags_isSet_def flags_allSet_def blk_flag_defs bit.conj_disj_distrib2)

lemma satisfy_write:
  assumes "tags_ok c" and "pkt_at a n pkt" and "fits c a n" and "p_cmd pkt = WriteReq"
    and "lru_findBlock (cc_tags c) a = Some i"
  obtains c' where "satisfyCpuSideRequest (TagBlk i) pkt c = Inr (pkt, c')" "tags_ok c'"
    "\<And>x. lru_findBlock (cc_tags c') x = lru_findBlock (cc_tags c) x" "Inr (bytes_at c' i a n) = getPtr pkt"
    "same_geom (cc_tags c) (cc_tags c')" "cc_base c' = cc_base c"
    "blk_isWritable (lru_blks (cc_tags c') ! i) = blk_isWritable (lru_blks (cc_tags c) ! i)"
    "blk_isReadable (lru_blks (cc_tags c') ! i) = blk_isReadable (lru_blks (cc_tags c) ! i)"
    "blk_isDirty (lru_blks (cc_tags c') ! i)" "\<And>j. j \<noteq> i \<Longrightarrow> lru_blks (cc_tags c') ! j = lru_blks (cc_tags c) ! j"
proof -
  let ?off = "extractBlkOffset (cc_tags c) a"
  have inv: "lru_inv (cc_tags c)" using assms(1) by (simp add: tags_ok_def)
  have i: "i < length (lru_blks (cc_tags c))" by (rule lru_findBlock_valid [OF inv assms(5)])
  define b where "b = lru_blks (cc_tags c) ! i"
  obtain d where d: "getPtr pkt = Inr d" "length d = n" using assms(2) by (auto simp: pkt_at_def)
  have len: "length (blk_data b) = lru_blkSize (cc_tags c)" using assms(1) i by (simp add: tags_ok_def blocks_ok_def b_def)
  note g = in_block_guard [OF assms(1,2)] pkt_at_size [OF assms(2)]
  define d' where "d' = take ?off (blk_data b) @ d @ drop (?off + n) (blk_data b)"
  have w: "writeDataToBlock (blk_data b) (int (c_blkSize (cc_base c))) pkt = Inr d'"
    using g assms(2,3) d len by (simp add: writeDataToBlock_def writeData_def fits_def pkt_at_def memcpy_at_def
        extractBlkOffset_def d'_def)
  define f where "f = (\<lambda>b. b\<lparr>blk_lockList := [], blk_data := d', blk_status := blk_status b OR BlkDirty\<rparr> :: CacheBlk)"
  define c' where "c' = set_blk (TagBlk i) f c"
  have kinds: "pkt_isWrite pkt" "\<not> pkt_isLLSC pkt" using assms(4) by (simp_all add: pkt_query_defs cmd_defs)
  have "satisfyCpuSideRequest (TagBlk i) pkt c = Inr (pkt, c')"
    using g assms(2,3,4) kinds w i
    by (simp add: satisfyCpuSideRequest_def fits_def pkt_at_def checkWrite_def clearLoadLocks_def c'_def f_def b_def [symmetric] upd_blk_def Let_def)
  moreover have "keeps_identity (the_blk (TagBlk i) c) (f (the_blk (TagBlk i) c))"
    using len d(2) assms(3) dirty_keeps_valid(1)
    by (simp add: keeps_identity_def f_def d'_def b_def blk_isValid_def fits_def)
  note ok = set_blk_ok [where f = f, OF assms(1) this, folded c'_def]
  have b': "lru_blks (cc_tags c') ! i = b\<lparr>blk_lockList := [], blk_data := d', blk_status := blk_status b OR BlkDirty\<rparr>"
    using i by (simp add: c'_def nth_upd_blk b_def f_def)
  have geom: "same_geom (cc_tags c) (cc_tags c')" by (simp add: c'_def)
  then have "bytes_at c' i a n = d"
    using len d(2) assms(3) by (simp add: bytes_at_def b' d'_def fits_def extractBlkOffset_def same_geom_def)
  ultimately show thesis
    using ok b' dirty_keeps_valid geom d(1)
    by (intro that [of c']) (auto simp: c'_def b_def blk_isWritable_def blk_isReadable_def blk_isDirty_def upd_blk_other
        flags_isSet_def bit.conj_disj_distrib2 blk_flag_defs)
qed

text \<open>A read of a whole block by a cache above leaves a shared copy.\<close>

definition downgrade :: "CacheBlk \<Rightarrow> CacheBlk" where
  "downgrade b = b\<lparr>blk_status := blk_status b AND NOT BlkWritable\<rparr>"

lemma and_one_bit: "(x :: 32 word) AND 1 \<noteq> 3"
proof
  assume "x AND 1 = 3"
  then have "bit (x AND 1) 1 = bit (3 :: 32 word) 1" by simp
  then show False by (simp add: bit_and_iff)
qed

lemma downgrade_keeps:
  "blk_isValid (downgrade b) = blk_isValid b" "\<not> blk_isWritable (downgrade b)"
  "blk_isDirty (downgrade b) = blk_isDirty b" "blk_isReadable (downgrade b) = blk_isReadable b"
  "keeps_identity b (downgrade b)"
  by (simp_all add: downgrade_def blk_isValid_def blk_isWritable_def blk_isDirty_def blk_isReadable_def keeps_identity_def
      flags_isSet_def flags_allSet_def blk_flag_defs and.assoc and_one_bit)

lemma downgrade_fun: "(\<lambda>k. k\<lparr>blk_status := blk_status k AND NOT BlkWritable\<rparr>) = downgrade"
  by (simp add: fun_eq_iff downgrade_def)

lemma satisfy_read_ptr:
  assumes "tags_ok c" and "pkt_at a n pkt" and "fits c a n" and "p_cmd pkt = ReadReq"
    and "length (blk_data (the_blk p c)) = lru_blkSize (cc_tags c)"
  obtains pkt' c' where "satisfyCpuSideRequest p pkt c = Inr (pkt', c')"
    "p_data pkt' = Some (take n (drop (extractBlkOffset (cc_tags c) a) (blk_data (the_blk p c))))"
    "p_cmd pkt' = ReadReq" "getAddr pkt' = Inr a" "pkt_at a n pkt'" "p_req pkt' = p_req pkt"
    "c' \<in> {c, set_blk p downgrade c}"
proof -
  let ?bytes = "take n (drop (extractBlkOffset (cc_tags c) a) (blk_data (the_blk p c)))"
  obtain d where d: "getPtr pkt = Inr d" "length d = n" using assms(2) by (auto simp: pkt_at_def)
  note g = in_block_guard [OF assms(1,2)] pkt_at_size [OF assms(2)]
  define pkt1 where "pkt1 = pkt\<lparr>p_data := Some ?bytes\<rparr>"
  have r: "setDataFromBlock (blk_data (the_blk p c)) (int (c_blkSize (cc_base c))) pkt = Inr pkt1"
    using g assms(2,3,5) d by (simp add: setDataFromBlock_def setData_def fits_def pkt_at_def memcpy_at_def
        extractBlkOffset_def pkt1_def)
  have kinds: "\<not> pkt_isWrite pkt" "\<not> pkt_isLLSC pkt" "pkt_isRead pkt" "\<not> pkt_needsExclusive pkt1"
    using assms(4) by (simp_all add: pkt_query_defs cmd_defs pkt1_def)
  have "\<exists>pkt' c'. satisfyCpuSideRequest p pkt c = Inr (pkt', c') \<and> pkt' \<in> {pkt1, assertShared pkt1} \<and>
      c' \<in> {c, set_blk p downgrade c}"
    using g assms(2,3,4) kinds r by (auto simp: satisfyCpuSideRequest_def fits_def pkt_at_def Let_def downgrade_fun)
  moreover have "p_data q = Some ?bytes \<and> p_cmd q = ReadReq \<and> getAddr q = Inr a \<and> pkt_at a n q \<and> p_req q = p_req pkt"
    if "q \<in> {pkt1, assertShared pkt1}" for q
    using that assms(2-5) d
    by (auto simp: pkt1_def snoop_defs pkt_at_def getAddr_Inr getSize_def getPtr_def flag_simps pkt_flag_defs fits_def res_simps)
  ultimately show thesis using that by blast
qed

lemma satisfy_read:
  assumes "tags_ok c" and "pkt_at a n pkt" and "fits c a n" and "p_cmd pkt = ReadReq"
    and "lru_findBlock (cc_tags c) a = Some i"
  obtains pkt' c' where "satisfyCpuSideRequest (TagBlk i) pkt c = Inr (pkt', c')" "p_data pkt' = Some (bytes_at c i a n)"
    "p_cmd pkt' = ReadReq" "getAddr pkt' = Inr a" "pkt_at a n pkt'" "p_req pkt' = p_req pkt"
    "c' \<in> {c, set_blk (TagBlk i) downgrade c}"
proof -
  have "i < length (lru_blks (cc_tags c))" using lru_findBlock_valid [OF _ assms(5)] assms(1) by (simp add: tags_ok_def)
  then have "length (blk_data (the_blk (TagBlk i) c)) = lru_blkSize (cc_tags c)"
    using assms(1) by (simp add: tags_ok_def blocks_ok_def)
  then show thesis by (rule satisfy_read_ptr [OF assms(1-4)]) (use that in \<open>simp add: bytes_at_def\<close>)
qed

text \<open>
  C17: A cache returns what was written.  After a write hit, a read hit of the same bytes
  returns exactly the data written; the write marks the block dirty, moves no block and
  changes no other block's contents.
\<close>

theorem cache_write_then_read:
  assumes "tags_ok c" and "lru_findBlock (cc_tags c) a = Some i" and "fits c a n"
    and "blk_isWritable (lru_blks (cc_tags c) ! i)" and "blk_isReadable (lru_blks (cc_tags c) ! i)"
    and "pkt_at a n w" and "p_cmd w = WriteReq" and "countable_pkt w c"
    and "pkt_at a n r" and "p_cmd r = ReadReq" and "countable_pkt r c"
  shows "\<exists>x y. cache_access now w c = Inr x \<and> ar_satisfied x \<and> tags_ok (ar_cache x) \<and>
    blk_isDirty (lru_blks (cc_tags (ar_cache x)) ! i) \<and>
    (\<forall>j < length (lru_blks (cc_tags c)). j \<noteq> i \<longrightarrow>
       same_payload (lru_blks (cc_tags c) ! j) (lru_blks (cc_tags (ar_cache x)) ! j)) \<and>
    cache_access now' r (ar_cache x) = Inr y \<and> ar_satisfied y \<and> p_data (ar_pkt y) = p_data w"
proof -
  have inv: "lru_inv (cc_tags c)" using assms(1) by (simp add: tags_ok_def)
  have i: "i < length (lru_blks (cc_tags c))" by (rule lru_findBlock_valid [OF inv assms(2)])
  have ga: "getAddr w = Inr a" "getAddr r = Inr a" using assms(6,9) by (simp_all add: pkt_at_def)
  have perm: "may_access w (lru_blks (cc_tags c) ! i)"
    using assms(4,7) by (simp add: may_access_def pkt_query_defs cmd_defs)
  obtain lat c1 where acc: "cache_access now w c = bind_res (satisfyCpuSideRequest (TagBlk i) w c1) (\<lambda>(pkt, c).
      Inr \<lparr>ar_satisfied = True, ar_blk = Some (TagBlk i), ar_lat = lat, ar_writebacks = [], ar_pkt = pkt, ar_cache = c\<rparr>)"
    and c1: "tags_ok c1" "\<And>x. lru_findBlock (cc_tags c1) x = lru_findBlock (cc_tags c) x" "same_geom (cc_tags c) (cc_tags c1)"
      "\<And>j. j < length (lru_blks (cc_tags c)) \<Longrightarrow> same_payload (lru_blks (cc_tags c) ! j) (lru_blks (cc_tags c1) ! j)"
      "c_numCpus (cc_base c1) = c_numCpus (cc_base c)"
    by (rule access_hit [OF assms(1,8) ga(1) assms(2) perm, of now]) blast
  have fits1: "fits c1 a n" using assms(3) c1(3) by (simp add: fits_def same_geom_def extractBlkOffset_def)
  have find1: "lru_findBlock (cc_tags c1) a = Some i" using c1(2) assms(2) by simp
  obtain c2 where sat: "satisfyCpuSideRequest (TagBlk i) w c1 = Inr (w, c2)" and c2: "tags_ok c2"
    "\<And>x. lru_findBlock (cc_tags c2) x = lru_findBlock (cc_tags c1) x" "Inr (bytes_at c2 i a n) = getPtr w"
    "same_geom (cc_tags c1) (cc_tags c2)" "cc_base c2 = cc_base c1"
    "blk_isReadable (lru_blks (cc_tags c2) ! i) = blk_isReadable (lru_blks (cc_tags c1) ! i)"
    "blk_isDirty (lru_blks (cc_tags c2) ! i)" "\<And>j. j \<noteq> i \<Longrightarrow> lru_blks (cc_tags c2) ! j = lru_blks (cc_tags c1) ! j"
    by (rule satisfy_write [OF c1(1) assms(6) fits1 assms(7) find1]) blast
  have perm2: "may_access r (lru_blks (cc_tags c2) ! i)"
    using assms(5,10) c2(6) same_payload_valid [OF c1(4) [OF i]] by (simp add: may_access_def pkt_query_defs cmd_defs)
  have cnt2: "countable_pkt r c2"
    by (rule countable_pkt_cong [OF _ assms(11)]) (simp add: c1(5) c2(5))
  obtain lat' c3 where acc': "cache_access now' r c2 = bind_res (satisfyCpuSideRequest (TagBlk i) r c3) (\<lambda>(pkt, c).
      Inr \<lparr>ar_satisfied = True, ar_blk = Some (TagBlk i), ar_lat = lat', ar_writebacks = [], ar_pkt = pkt, ar_cache = c\<rparr>)"
    and c3: "tags_ok c3" "\<And>x. lru_findBlock (cc_tags c3) x = lru_findBlock (cc_tags c2) x" "same_geom (cc_tags c2) (cc_tags c3)"
      "\<And>j. j < length (lru_blks (cc_tags c2)) \<Longrightarrow> same_payload (lru_blks (cc_tags c2) ! j) (lru_blks (cc_tags c3) ! j)"
    by (rule access_hit [OF c2(1) cnt2 ga(2) _ perm2, of now']) (use c2(2) find1 in auto)
  have fits3: "fits c3 a n" using fits1 c2(4) c3(3) by (simp add: fits_def same_geom_def extractBlkOffset_def)
  have find3: "lru_findBlock (cc_tags c3) a = Some i" using c2(2) c3(2) find1 by simp
  obtain r' c4 where sat': "satisfyCpuSideRequest (TagBlk i) r c3 = Inr (r', c4)" "p_data r' = Some (bytes_at c3 i a n)"
    by (rule satisfy_read [OF c3(1) assms(9) fits3 assms(10) find3]) blast
  have len2: "i < length (lru_blks (cc_tags c2))" using i c1(3) c2(4) by (simp add: same_geom_def)
  have "bytes_at c3 i a n = bytes_at c2 i a n"
    using c3(3) c3(4) [OF len2] by (simp add: bytes_at_def same_payload_def same_geom_def extractBlkOffset_def)
  then have "p_data r' = p_data w"
    using sat'(2) c2(3) by (auto simp: getPtr_def guard_res_def split: if_splits option.splits)
  then show ?thesis using acc acc' sat sat'(1) c1(4) c2(1,7,8) by simp
qed

section \<open>Fills\<close>

text \<open>What every replacement keeps, whatever it returns.\<close>

definition same_config :: "BaseCache \<Rightarrow> BaseCache \<Rightarrow> bool" where
  "same_config b b' \<longleftrightarrow> (\<exists>n. b' = b\<lparr>c_writebacks := n\<rparr>)"

lemma same_config_refl [simp]: "same_config b b"
  unfolding same_config_def by (rule exI [of _ "c_writebacks b"]) simp

lemma same_config_view:
  assumes "same_config b b'"
  shows "c_blkSize b' = c_blkSize b" "c_numCpus b' = c_numCpus b" "c_heap b' = c_heap b" "c_queue ix b' = c_queue ix b"
  using assms by (cases ix; auto simp: same_config_def)+

lemma tags_ok_cong:
  assumes "tags_ok c" and "lru_inv l'" and "same_geom (cc_tags c) l'"
    and "\<And>j. j < length (lru_blks (cc_tags c)) \<Longrightarrow> length (blk_data (lru_blks l' ! j)) = length (blk_data (lru_blks (cc_tags c) ! j)) \<and>
      blk_set (lru_blks l' ! j) = blk_set (lru_blks (cc_tags c) ! j)"
  shows "tags_ok (c\<lparr>cc_tags := l'\<rparr>)"
  using assms blocks_ok_payload [OF _ assms(3,4)] by (simp add: tags_ok_def same_geom_def)

lemma clean_keeps:
  "keeps_identity b (b\<lparr>blk_status := blk_status b AND NOT BlkDirty\<rparr>)"
proof -
  have "flags_isSet (blk_status b AND NOT BlkDirty) BlkValid = flags_isSet (blk_status b) BlkValid"
    using flags_isSet_clear [of "blk_status b" BlkDirty BlkValid] by (simp add: flags_clear_def blk_flag_defs)
  then show ?thesis by (simp add: keeps_identity_def blk_isValid_def)
qed

lemma writebackBlk_keeps:
  assumes "tags_ok c" and "writebackBlk now p c = Inr (wb, c')"
  shows "tags_ok c'" "\<And>x. lru_findBlock (cc_tags c') x = lru_findBlock (cc_tags c) x"
    "same_geom (cc_tags c) (cc_tags c')" "same_config (cc_base c) (cc_base c')"
    "lru_sets (cc_tags c') = lru_sets (cc_tags c)"
proof -
  define c1 where "c1 = c\<lparr>cc_base := (cc_base c)\<lparr>c_writebacks := c_writebacks (cc_base c) + 1\<rparr>\<rparr>"
  define f where "f = (\<lambda>b. b\<lparr>blk_status := blk_status b AND NOT BlkDirty\<rparr> :: CacheBlk)"
  have c': "c' = set_blk p f c1" using assms(2) by (auto simp: writebackBlk_def res_simps c1_def f_def Let_def)
  have ok1: "tags_ok c1" "cc_tags c1 = cc_tags c" using assms(1) by (simp_all add: c1_def tags_ok_def)
  have "keeps_identity (the_blk p c1) (f (the_blk p c1))" using clean_keeps by (simp add: f_def)
  note ok = set_blk_ok [where f = f, OF ok1(1) this]
  show "tags_ok c'" "\<And>x. lru_findBlock (cc_tags c') x = lru_findBlock (cc_tags c) x" using ok ok1(2) by (simp_all add: c')
  show "same_geom (cc_tags c) (cc_tags c')" "lru_sets (cc_tags c') = lru_sets (cc_tags c)"
    using ok1(2) by (cases p; simp add: c')+
  show "same_config (cc_base c) (cc_base c')" unfolding same_config_def by (auto simp: c' c1_def)
qed

lemma allocateBlock_keeps:
  assumes "tags_ok c" and "allocateBlock now a c = Inr (v, wbs, c')"
  shows "tags_ok c'" "\<And>x. lru_findBlock (cc_tags c') x = lru_findBlock (cc_tags c) x"
    "same_geom (cc_tags c) (cc_tags c')" "same_config (cc_base c) (cc_base c')"
    "v = Some i \<Longrightarrow> i \<in> set_range (cc_tags c) (extractSet (cc_tags c) a)"
proof -
  have inv: "lru_inv (cc_tags c)" using assms(1) by (simp add: tags_ok_def)
  obtain k l' where l': "lru_findVictim a (cc_tags c) = Inr (k, l')" "k \<in> set_range (cc_tags c) (extractSet (cc_tags c) a)"
    "lru_inv l'" "same_geom (cc_tags c) l'" "\<And>j. j < length (lru_blks (cc_tags c)) \<Longrightarrow> tagv l' j = tagv (cc_tags c) j"
    using lru_findVictim_ok [OF inv, of a] by metis
  have ok1: "tags_ok (c\<lparr>cc_tags := l'\<rparr>)"
    by (rule tags_ok_cong [OF assms(1) l'(3,4)]) (use lru_findVictim_payload [OF l'(1)] in \<open>auto simp: same_payload_def\<close>)
  have find1: "lru_findBlock l' x = lru_findBlock (cc_tags c) x" for x by (rule find_same [OF inv l'(3,4,5)])
  have r: "v = None \<or> v = Some k" "c' = c\<lparr>cc_tags := l'\<rparr> \<or> (\<exists>wb. writebackBlk now (TagBlk k) (c\<lparr>cc_tags := l'\<rparr>) = Inr (wb, c'))"
    using assms(2) l'(1) by (auto simp: allocateBlock_def res_simps Let_def split: if_splits option.splits)
  show "v = Some i \<Longrightarrow> i \<in> set_range (cc_tags c) (extractSet (cc_tags c) a)" using r(1) l'(2) by auto
  have "tags_ok c' \<and> (\<forall>x. lru_findBlock (cc_tags c') x = lru_findBlock (cc_tags c) x) \<and>
      same_geom (cc_tags c) (cc_tags c') \<and> same_config (cc_base c) (cc_base c')"
    using r(2)
  proof
    assume "\<exists>wb. writebackBlk now (TagBlk k) (c\<lparr>cc_tags := l'\<rparr>) = Inr (wb, c')"
    then obtain wb where "writebackBlk now (TagBlk k) (c\<lparr>cc_tags := l'\<rparr>) = Inr (wb, c')" ..
    note w = writebackBlk_keeps [OF ok1 this]
    show ?thesis using w find1 same_geom_trans [OF l'(4)] by simp
  qed (use ok1 find1 l'(4) in simp)
  then show "tags_ok c'" "\<And>x. lru_findBlock (cc_tags c') x = lru_findBlock (cc_tags c) x"
    "same_geom (cc_tags c) (cc_tags c')" "same_config (cc_base c) (cc_base c')" by simp_all
qed

lemma lru_insertBlock_payload:
  assumes "lru_insertBlock now a i src l = Inr l'" and "j < length (lru_blks l)"
  shows "blk_data (lru_blks l' ! j) = blk_data (lru_blks l ! j)" "blk_set (lru_blks l' ! j) = blk_set (lru_blks l ! j)"
proof -
  have u: "blk_data (lru_blks (upd_blk i f m) ! j) = blk_data (lru_blks m ! j) \<and> blk_set (lru_blks (upd_blk i f m) ! j) = blk_set (lru_blks m ! j)"
    if "\<And>b. blk_data (f b) = blk_data b \<and> blk_set (f b) = blk_set b" "j < length (lru_blks m)" for f m
    using that by (simp add: nth_upd_blk)
  define l1 where "l1 = (if \<not> blk_isTouched (lru_blks l ! i)
     then (let l = upd_blk i (\<lambda>b. b\<lparr>blk_isTouched := True\<rparr>) (l\<lparr>lru_tagsInUse := lru_tagsInUse l + 1\<rparr>)
           in if \<not> lru_warmedUp l \<and> lru_tagsInUse l \<ge> lru_warmupBound l
              then l\<lparr>lru_warmedUp := True, lru_warmupCycle := now\<rparr> else l)
     else l)"
  define l2 where "l2 = upd_blk i (\<lambda>b. b\<lparr>blk_tag := extractTag l1 a\<rparr>) l1"
  obtain l3 where l3: "add_occupancy src 1 l2 = Inr l3"
    and m: "move_in_set (extractSet (upd_blk i (\<lambda>b. b\<lparr>blk_contextSrc := src\<rparr>) l3) a) i
        (upd_blk i (\<lambda>b. b\<lparr>blk_contextSrc := src\<rparr>) l3) = Inr l'"
    using assms(1) unfolding lru_insertBlock_def unfolding l1_def [symmetric] unfolding Let_def
    unfolding l2_def [symmetric] by (auto simp: res_simps)
  have b1: "length (lru_blks l1) = length (lru_blks l)" "blk_data (lru_blks l1 ! j) = blk_data (lru_blks l ! j)"
    "blk_set (lru_blks l1 ! j) = blk_set (lru_blks l ! j)"
    using u [of "\<lambda>b. b\<lparr>blk_isTouched := True\<rparr>" "l\<lparr>lru_tagsInUse := lru_tagsInUse l + 1\<rparr>"] assms(2)
    by (simp_all add: l1_def Let_def)
  have b3: "lru_blks l3 = lru_blks l2" using add_occupancy_blks [OF l3] by simp
  have b': "lru_blks l' = lru_blks (upd_blk i (\<lambda>b. b\<lparr>blk_contextSrc := src\<rparr>) l3)" using m by (auto simp: move_in_set_def res_simps)
  show "blk_data (lru_blks l' ! j) = blk_data (lru_blks l ! j)" "blk_set (lru_blks l' ! j) = blk_set (lru_blks l ! j)"
    using u [of "\<lambda>b. b\<lparr>blk_contextSrc := src\<rparr>" l3] u [of "\<lambda>b. b\<lparr>blk_tag := extractTag l1 a\<rparr>" l1] b1 assms(2)
    by (simp_all add: b' b3 l2_def)
qed

text \<open>The status a fill gives the block.\<close>

definition fill_status :: "Packet \<Rightarrow> 32 word" where
  "fill_status pkt =
     (let st = BlkValid OR BlkReadable
      in if \<not> sharedAsserted pkt
         then (if memInhibitAsserted pkt then st OR BlkWritable OR BlkDirty else st OR BlkWritable)
         else st)"

lemma fill_status_flags:
  "flags_isSet (fill_status pkt) BlkValid"
  "flags_allSet (fill_status pkt) (BlkReadable OR BlkValid)"
  "flags_allSet (fill_status pkt) (BlkWritable OR BlkValid) \<longleftrightarrow> \<not> sharedAsserted pkt"
  "flags_isSet (fill_status pkt) BlkDirty \<longleftrightarrow> \<not> sharedAsserted pkt \<and> memInhibitAsserted pkt"
  by (simp_all add: fill_status_def Let_def flags_isSet_def flags_allSet_def blk_flag_defs)

lemma insert_fill:
  assumes "tags_ok c" and "lru_findBlock (cc_tags c) a = None" and "-1 \<le> src"
    and "i \<in> set_range (cc_tags c) (extractSet (cc_tags c) a)" and "length d = lru_blkSize (cc_tags c)"
  obtains l2 c3 where "lru_insertBlock now a i src (cc_tags c) = Inr l2"
    "c3 = set_blk (TagBlk i) (\<lambda>b. b\<lparr>blk_whenReady := t\<rparr>) (set_blk (TagBlk i) (\<lambda>b. b\<lparr>blk_data := d\<rparr>)
       (set_blk (TagBlk i) (\<lambda>b. b\<lparr>blk_status := fill_status pkt\<rparr>) (c\<lparr>cc_tags := l2\<rparr>)))"
    "tags_ok c3" "lru_findBlock (cc_tags c3) a = Some i" "blk_data (lru_blks (cc_tags c3) ! i) = d"
    "blk_status (lru_blks (cc_tags c3) ! i) = fill_status pkt"
    "length (blk_data (lru_blks l2 ! i)) = lru_blkSize (cc_tags c)" "i < length (lru_blks l2)"
    "\<And>x. (extractTag (cc_tags c) x, extractSet (cc_tags c) x) \<noteq> (extractTag (cc_tags c) a, extractSet (cc_tags c) a) \<Longrightarrow>
       lru_findBlock (cc_tags c3) x = (if lru_findBlock (cc_tags c) x = Some i then None else lru_findBlock (cc_tags c) x)"
proof -
  have inv: "lru_inv (cc_tags c)" using assms(1) by (simp add: tags_ok_def)
  obtain l2 l3 where ins: "lru_insertBlock now a i src (cc_tags c) = Inr l2"
    "l3 = upd_blk i (\<lambda>b. b\<lparr>blk_status := fill_status pkt\<rparr>) l2" "same_geom (cc_tags c) l2" "lru_inv l3"
    "lru_findBlock l3 a = Some i"
    "\<And>x. (extractTag (cc_tags c) x, extractSet (cc_tags c) x) \<noteq> (extractTag (cc_tags c) a, extractSet (cc_tags c) a) \<Longrightarrow>
       lru_findBlock l3 x = (if lru_findBlock (cc_tags c) x = Some i then None else lru_findBlock (cc_tags c) x)"
    by (rule lru_insert_status [OF inv assms(2,3) fill_status_flags(1) assms(4), where now = now]) blast
  have i: "i < length (lru_blks (cc_tags c))"
    using lru_set_member [OF inv _ assms(4)] inv extractSet_less by (simp add: lru_inv_def)
  have i2: "i < length (lru_blks l2)" using i ins(3) by (simp add: same_geom_def)
  have pay: "blk_data (lru_blks l2 ! j) = blk_data (lru_blks (cc_tags c) ! j)" "blk_set (lru_blks l2 ! j) = blk_set (lru_blks (cc_tags c) ! j)"
    if "j < length (lru_blks (cc_tags c))" for j
    using lru_insertBlock_payload [OF ins(1) that] by auto
  have g3: "same_geom (cc_tags c) l3" unfolding ins(2) by (rule same_geom_trans [OF ins(3) upd_blk_geom(1)])
  define c1 where "c1 = c\<lparr>cc_tags := l3\<rparr>"
  have ok1: "tags_ok c1" unfolding c1_def
    by (rule tags_ok_cong [OF assms(1) ins(4) g3]) (use pay ins(2,3) in \<open>auto simp: nth_upd_blk same_geom_def\<close>)
  have dl: "length (blk_data (lru_blks (cc_tags c) ! j)) = lru_blkSize (cc_tags c)" if "j < length (lru_blks (cc_tags c))" for j
    using assms(1) that by (simp add: tags_ok_def blocks_ok_def)
  have b1: "the_blk (TagBlk i) c1 = (lru_blks l2 ! i)\<lparr>blk_status := fill_status pkt\<rparr>"
    using i2 by (simp add: c1_def ins(2) nth_upd_blk)
  define f where "f = (\<lambda>b. b\<lparr>blk_data := d\<rparr> :: CacheBlk)"
  define g where "g = (\<lambda>b. b\<lparr>blk_whenReady := t\<rparr> :: CacheBlk)"
  have kf: "keeps_identity (the_blk (TagBlk i) c1) (f (the_blk (TagBlk i) c1))"
    using b1 pay(1) [OF i] dl [OF i] assms(5) by (simp add: keeps_identity_def f_def blk_isValid_def)
  note okf = set_blk_ok [where f = f, OF ok1 kf]
  have kg: "keeps_identity (the_blk (TagBlk i) (set_blk (TagBlk i) f c1)) (g (the_blk (TagBlk i) (set_blk (TagBlk i) f c1)))"
    by (simp add: keeps_identity_def g_def blk_isValid_def)
  note okg = set_blk_ok [where f = g, OF okf(1) kg]
  define c3 where "c3 = set_blk (TagBlk i) g (set_blk (TagBlk i) f c1)"
  have eq: "c3 = set_blk (TagBlk i) (\<lambda>b. b\<lparr>blk_whenReady := t\<rparr>) (set_blk (TagBlk i) (\<lambda>b. b\<lparr>blk_data := d\<rparr>)
       (set_blk (TagBlk i) (\<lambda>b. b\<lparr>blk_status := fill_status pkt\<rparr>) (c\<lparr>cc_tags := l2\<rparr>)))"
    by (simp add: c3_def f_def g_def c1_def ins(2))
  have b3: "lru_blks (cc_tags c3) ! i = (lru_blks l2 ! i)\<lparr>blk_status := fill_status pkt, blk_data := d, blk_whenReady := t\<rparr>"
    using i2 by (simp add: c3_def f_def g_def c1_def ins(2) nth_upd_blk)
  show thesis
    by (rule that [OF ins(1) eq]) (use okg(1) okf(2) okg(2) ins(5,6) b3 i2 pay(1) [OF i] dl [OF i] in \<open>simp_all add: c3_def [symmetric]\<close>,
        simp_all add: c3_def c1_def okg(2) okf(2))
qed

lemma handleFill_new:
  assumes "tags_ok c" and "lru_findBlock (cc_tags c) a = None" and "getAddr f = Inr a" and "pkt_isRead f" and "pkt_hasData f"
    and "getPtr f = Inr d" and "length d = lru_blkSize (cc_tags c)" and "request_ctx (p_req f) = Inr cid" and "-1 \<le> cid"
    and "allocateBlock now a c = Inr (Some i, wbs, c1)"
  obtains c' where "handleFill now f None c = Inr (TagBlk i, wbs, c')" "tags_ok c'" "lru_findBlock (cc_tags c') a = Some i"
    "blk_data (lru_blks (cc_tags c') ! i) = d" "blk_status (lru_blks (cc_tags c') ! i) = fill_status f"
    "same_config (cc_base c) (cc_base c')" "extractBlkOffset (cc_tags c') x = extractBlkOffset (cc_tags c) x"
    "lru_blkSize (cc_tags c') = lru_blkSize (cc_tags c)"
    "\<And>x. (extractTag (cc_tags c) x, extractSet (cc_tags c) x) \<noteq> (extractTag (cc_tags c) a, extractSet (cc_tags c) a) \<Longrightarrow>
       lru_findBlock (cc_tags c') x = (if lru_findBlock (cc_tags c) x = Some i then None else lru_findBlock (cc_tags c) x)"
    "same_geom (cc_tags c) (cc_tags c')"
proof -
  note al = allocateBlock_keeps [OF assms(1,10)]
  note same = same_geom_addr [OF al(3)]
  have bs: "lru_blkSize (cc_tags c1) = lru_blkSize (cc_tags c)" using al(3) by (simp add: same_geom_def)
  have none: "lru_findBlock (cc_tags c1) a = None" using al(2) assms(2) by simp
  have i: "i \<in> set_range (cc_tags c1) (extractSet (cc_tags c1) a)" using al(5) same by simp
  obtain l2 c3 where ins: "lru_insertBlock now a i cid (cc_tags c1) = Inr l2"
    and c3: "c3 = set_blk (TagBlk i) (\<lambda>b. b\<lparr>blk_whenReady := p_finishTime f\<rparr>) (set_blk (TagBlk i) (\<lambda>b. b\<lparr>blk_data := d\<rparr>)
       (set_blk (TagBlk i) (\<lambda>b. b\<lparr>blk_status := fill_status f\<rparr>) (c1\<lparr>cc_tags := l2\<rparr>)))"
    and ok: "tags_ok c3" "lru_findBlock (cc_tags c3) a = Some i" "blk_data (lru_blks (cc_tags c3) ! i) = d"
      "blk_status (lru_blks (cc_tags c3) ! i) = fill_status f"
      "length (blk_data (lru_blks l2 ! i)) = lru_blkSize (cc_tags c1)" "i < length (lru_blks l2)"
      "\<And>x. (extractTag (cc_tags c1) x, extractSet (cc_tags c1) x) \<noteq> (extractTag (cc_tags c1) a, extractSet (cc_tags c1) a) \<Longrightarrow>
       lru_findBlock (cc_tags c3) x = (if lru_findBlock (cc_tags c1) x = Some i then None else lru_findBlock (cc_tags c1) x)"
    using insert_fill [OF al(1) none assms(9) i, of d now "p_finishTime f" f] assms(7) bs by metis
  have n: "c_blkSize (cc_base c1) = length d" using al(1) assms(7) bs by (simp add: tags_ok_def)
  have "handleFill now f None c = Inr (TagBlk i, wbs, c3)"
    unfolding handleFill_def fill_status_def [symmetric] Let_def
    using assms(3,4,5,6,8,10) ins ok(5,6) n assms(7) bs
    by (simp add: c3 nth_upd_blk memcpy_at_def fill_status_def Let_def)
  moreover have "extractBlkOffset (cc_tags c3) x = extractBlkOffset (cc_tags c) x"
    "lru_blkSize (cc_tags c3) = lru_blkSize (cc_tags c)" "same_config (cc_base c) (cc_base c3)"
    "same_geom (cc_tags c) (cc_tags c3)"
  proof -
    have "same_geom (cc_tags c1) l2"
      using lru_insertBlock_ok [OF _ i assms(9), of now] al(1) none ins lru_findBlock_iff [of "cc_tags c1" a]
      by (auto simp: tags_ok_def)
    then show "same_geom (cc_tags c) (cc_tags c3)" using same_geom_trans [OF al(3)] by (simp add: c3 same_geom_def upd_blk_def)
    then show "extractBlkOffset (cc_tags c3) x = extractBlkOffset (cc_tags c) x"
      "lru_blkSize (cc_tags c3) = lru_blkSize (cc_tags c)" by (simp_all add: same_geom_def extractBlkOffset_def)
    show "same_config (cc_base c) (cc_base c3)" using al(4) by (simp add: c3)
  qed
  ultimately show thesis
    using ok(1,2,3,4,7) same al(2) by (intro that [of c3]) simp_all
qed

text \<open>
  A fill makes the block available.  When a response with the data of a block that is
  not cached arrives and a frame for it is free, the block is found afterwards in that
  frame with exactly the data of the response; it is readable, writable unless another
  cache shares it, and dirty exactly when an owner gave it up; a read of bytes of the block
  then hits and returns those bytes of the response.
\<close>

theorem fill_then_read:
  assumes "tags_ok c" and "lru_findBlock (cc_tags c) a = None" and "getAddr f = Inr a" and "pkt_isRead f" and "pkt_hasData f"
    and "getPtr f = Inr d" and "length d = lru_blkSize (cc_tags c)" and "request_ctx (p_req f) = Inr cid" and "-1 \<le> cid"
    and "allocateBlock now a c = Inr (Some i, wbs, c1)"
    and "pkt_at a n r" and "fits c a n" and "p_cmd r = ReadReq" and "countable_pkt r c"
  shows "\<exists>c' y. handleFill now f None c = Inr (TagBlk i, wbs, c') \<and> tags_ok c' \<and> lru_findBlock (cc_tags c') a = Some i \<and>
    blk_isReadable (lru_blks (cc_tags c') ! i) \<and>
    (blk_isWritable (lru_blks (cc_tags c') ! i) \<longleftrightarrow> \<not> sharedAsserted f) \<and>
    (blk_isDirty (lru_blks (cc_tags c') ! i) \<longleftrightarrow> \<not> sharedAsserted f \<and> memInhibitAsserted f) \<and>
    cache_access now' r c' = Inr y \<and> ar_satisfied y \<and>
    p_data (ar_pkt y) = Some (take n (drop (extractBlkOffset (cc_tags c) a) d))"
proof -
  obtain c' where c': "handleFill now f None c = Inr (TagBlk i, wbs, c')" "tags_ok c'" "lru_findBlock (cc_tags c') a = Some i"
    "blk_data (lru_blks (cc_tags c') ! i) = d" "blk_status (lru_blks (cc_tags c') ! i) = fill_status f"
    "same_config (cc_base c) (cc_base c')" "extractBlkOffset (cc_tags c') a = extractBlkOffset (cc_tags c) a"
    "lru_blkSize (cc_tags c') = lru_blkSize (cc_tags c)"
    by (rule handleFill_new [OF assms(1-10)]) blast
  have flags: "blk_isReadable (lru_blks (cc_tags c') ! i)"
    "blk_isWritable (lru_blks (cc_tags c') ! i) \<longleftrightarrow> \<not> sharedAsserted f"
    "blk_isDirty (lru_blks (cc_tags c') ! i) \<longleftrightarrow> \<not> sharedAsserted f \<and> memInhibitAsserted f"
    using c'(5) fill_status_flags by (simp_all add: blk_isReadable_def blk_isWritable_def blk_isDirty_def)
  have perm: "may_access r (lru_blks (cc_tags c') ! i)"
    using flags(1) assms(13) by (simp add: may_access_def pkt_query_defs cmd_defs)
  have cnt: "countable_pkt r c'" by (rule countable_pkt_cong [OF _ assms(14)]) (rule same_config_view(2) [OF c'(6)])
  have ga: "getAddr r = Inr a" using assms(11) by (simp add: pkt_at_def)
  have inv: "lru_inv (cc_tags c')" using c'(2) by (simp add: tags_ok_def)
  obtain lat c2 where acc: "cache_access now' r c' = bind_res (satisfyCpuSideRequest (TagBlk i) r c2) (\<lambda>(pkt, c).
      Inr \<lparr>ar_satisfied = True, ar_blk = Some (TagBlk i), ar_lat = lat, ar_writebacks = [], ar_pkt = pkt, ar_cache = c\<rparr>)"
    and c2: "tags_ok c2" "\<And>x. lru_findBlock (cc_tags c2) x = lru_findBlock (cc_tags c') x" "same_geom (cc_tags c') (cc_tags c2)"
      "\<And>j. j < length (lru_blks (cc_tags c')) \<Longrightarrow> same_payload (lru_blks (cc_tags c') ! j) (lru_blks (cc_tags c2) ! j)"
    by (rule access_hit [OF c'(2) cnt ga c'(3) perm, of now']) blast
  have fits2: "fits c2 a n"
    using assms(12) c2(3) c'(7,8) by (simp add: fits_def same_geom_def extractBlkOffset_def)
  have find2: "lru_findBlock (cc_tags c2) a = Some i" using c2(2) c'(3) by simp
  obtain r' c3 where sat: "satisfyCpuSideRequest (TagBlk i) r c2 = Inr (r', c3)" "p_data r' = Some (bytes_at c2 i a n)"
    by (rule satisfy_read [OF c2(1) assms(11) fits2 assms(13) find2]) blast
  have "bytes_at c2 i a n = take n (drop (extractBlkOffset (cc_tags c) a) d)"
    using c2(3) c2(4) [OF lru_findBlock_valid(1) [OF inv c'(3)]] c'(4,7)
    by (simp add: bytes_at_def same_payload_def same_geom_def extractBlkOffset_def)
  then show ?thesis using c'(1,2,3) flags acc sat by simp
qed

section \<open>Witnesses\<close>

text \<open>A cache with one set of two blocks of four bytes, for the addresses 4 and 8.\<close>

definition demo_blk :: "Addr \<Rightarrow> byte \<Rightarrow> CacheBlk" where
  "demo_blk t x = CacheBlk_new\<lparr>blk_tag := t, blk_status := 15, blk_set := 0, blk_data := replicate 4 (Some x)\<rparr>"

definition demo_tags :: LRU where
  "demo_tags = \<lparr>lru_numSets = 1, lru_blkSize = 4, lru_assoc = 2, lru_hitLatency = 1, lru_sets = [[0, 1]],
     lru_blks = [demo_blk 1 17, demo_blk 2 34], lru_setShift = 2, lru_tagShift = 2, lru_setMask = 0, lru_blkMask = 3,
     lru_numCpus = 1, lru_warmedUp = False, lru_warmupBound = 2, lru_warmupCycle = 0, lru_tagsInUse = 2,
     lru_totalRefs = 0, lru_sampledRefs = 0, lru_replacements = 0, lru_occupancies = [0, 2]\<rparr>"

definition demo_cache :: Cache where
  "demo_cache = Cache_new (BaseCache_new \<lparr>cpar_mshrs = 4, cpar_write_buffers = 4, cpar_block_size = 4, cpar_latency = 1,
     cpar_tgts_per_mshr = 4, cpar_forward_snoops = False, cpar_max_miss_count = 0, cpar_num_cpus = 1\<rparr> 0 0 []) demo_tags"

definition demo_packet :: "Command \<Rightarrow> Addr \<Rightarrow> nat \<Rightarrow> pkt_data \<Rightarrow> Packet" where
  "demo_packet cmd a n d = (Packet_new 0 (Request_new\<lparr>r_paddr := a, r_size := int n, r_privateFlags := 3\<rparr>) cmd Broadcast)
     \<lparr>p_data := Some d, p_flags := PKT_VALID_DST OR PKT_VALID_ADDR OR PKT_VALID_SIZE OR PKT_DYNAMIC_DATA\<rparr>"

lemma demo_tags_inv: "lru_inv demo_tags"
proof -
  have "lru_geom demo_tags"
    unfolding lru_geom_def demo_tags_def by (intro exI [of _ 2] exI [of _ 0]) (simp add: mask_eq_exp_minus_1)
  moreover have "set_range demo_tags 0 = {0, 1}" by (auto simp: demo_tags_def set_range_def)
  ultimately show ?thesis
    unfolding lru_inv_def by (auto simp: demo_tags_def demo_blk_def tagv_def CacheBlk_new_def)
qed

lemma demo_cache_simps:
  "cc_tags demo_cache = demo_tags" "c_blkSize (cc_base demo_cache) = 4" "c_numCpus (cc_base demo_cache) = 1"
  "q_allocatedList (c_mshrQueue (cc_base demo_cache)) = []" "cc_tempBlock demo_cache = CacheBlk_new\<lparr>blk_data := replicate 4 None\<rparr>"
  by (simp_all add: demo_cache_def Cache_new_def BaseCache_new_def Let_def MSHRQueue_new_def)

lemma demo_cache_ok: "tags_ok demo_cache"
proof -
  have "blocks_ok demo_tags"
    by (auto simp: blocks_ok_def demo_tags_def demo_blk_def less_Suc_eq numeral_2_eq_2)
  then show ?thesis
    unfolding tags_ok_def demo_cache_simps using demo_tags_inv by (simp add: demo_tags_def)
qed

lemma demo_lookup:
  "lru_findBlock demo_tags 4 = Some 0" "lru_findBlock demo_tags 8 = Some 1" "lru_findBlock demo_tags 16 = None"
  "extractBlkOffset demo_tags 4 = 0" "extractBlkOffset demo_tags 16 = 0" "extractSet demo_tags x = 0" "blkAlign demo_tags 8 = 8"
  by (simp_all add: lru_findBlock_def extractTag_def extractSet_def extractBlkOffset_def blkAlign_def demo_tags_def demo_blk_def
      CacheBlk_new_def blk_isValid_def flag_simps BlkValid_def drop_bit_eq_div)

lemma demo_packet_at:
  assumes "length d = n" and "n < 2 ^ 31"
  shows "pkt_at a n (demo_packet cmd a n d)" "p_cmd (demo_packet cmd a n d) = cmd" "p_data (demo_packet cmd a n d) = Some d"
    "request_ctx (p_req (demo_packet cmd a n d)) = Inr (-1)" "getPtr (demo_packet cmd a n d) = Inr d"
    "cmd \<noteq> Writeback \<Longrightarrow> countable_pkt (demo_packet cmd a n d) demo_cache"
  using assms
  by (simp_all add: demo_packet_def Packet_new_def Packet_base_def Let_def pkt_at_def getAddr_def getSize_def getPtr_def
      req_hasPaddr_def req_hasSize_def req_hasContextId_def req_isUncacheable_def Request_new_def request_ctx_def req_flag_defs
      flag_simps pkt_flag_defs countable_pkt_def stat_bucket_def demo_cache_simps)

theorem eviction_writes_back_witness:
  "\<exists>wb c'. allocateBlock 0 16 demo_cache = Inr (Some 1, [wb], c') \<and> p_cmd wb = Writeback \<and> getAddr wb = Inr 8 \<and>
     p_data wb = Some (replicate 4 (Some 34))"
proof -
  have "blk_isDirty (lru_blks demo_tags ! 1)" "blk_data (lru_blks demo_tags ! 1) = replicate 4 (Some 34)"
    by (simp_all add: demo_tags_def demo_blk_def blk_isDirty_def flag_simps BlkDirty_def)
  moreover have "lru_sets demo_tags ! 0 = [0, 1]" by (simp add: demo_tags_def)
  ultimately show ?thesis
    using eviction_writes_back [OF demo_cache_ok, of 8 1 16 0]
    by (auto simp: demo_cache_simps demo_lookup cache_inMissQueue_def q_findMatch_def)
qed

theorem cache_write_then_read_witness:
  "\<exists>x y. cache_access 0 (demo_packet WriteReq 4 2 [Some 7, Some 9]) demo_cache = Inr x \<and>
     cache_access 1 (demo_packet ReadReq 4 2 [None, None]) (ar_cache x) = Inr y \<and>
     p_data (ar_pkt y) = Some [Some 7, Some 9]"
proof -
  have perm: "blk_isWritable (lru_blks demo_tags ! 0)" "blk_isReadable (lru_blks demo_tags ! 0)" "fits demo_cache 4 2"
    by (simp_all add: demo_tags_def demo_blk_def blk_isWritable_def blk_isReadable_def flags_allSet_def blk_flag_defs
        fits_def demo_cache_simps extractBlkOffset_def)
  have l: "length [Some 7, Some 9 :: byte option] = 2" "length [None, None :: byte option] = 2" "(2::nat) < 2 ^ 31" by simp_all
  show ?thesis
    using cache_write_then_read [OF demo_cache_ok, of 4 0 2 "demo_packet WriteReq 4 2 [Some 7, Some 9]"
        "demo_packet ReadReq 4 2 [None, None]" 0 1]
      demo_packet_at [OF l(1,3), where a = 4 and cmd = WriteReq] demo_packet_at [OF l(2,3), where a = 4 and cmd = ReadReq] perm
    by (auto simp: demo_cache_simps demo_lookup)
qed

theorem fill_then_read_witness:
  "\<exists>wbs c' y. handleFill 0 (demo_packet ReadResp 16 4 [Some 1, Some 2, Some 3, Some 4]) None demo_cache = Inr (TagBlk 1, wbs, c') \<and>
     cache_access 1 (demo_packet ReadReq 16 2 [None, None]) c' = Inr y \<and> p_data (ar_pkt y) = Some [Some 1, Some 2]"
proof -
  let ?f = "demo_packet ReadResp 16 4 [Some 1, Some 2, Some 3, Some 4]" and ?r = "demo_packet ReadReq 16 2 [None, None]"
  have s: "lru_sets demo_tags ! 0 = [0, 1]" "lru_blkSize demo_tags = 4" by (simp_all add: demo_tags_def)
  obtain wbs c1 where al: "allocateBlock 0 16 demo_cache = Inr (Some 1, wbs, c1)"
    by (rule allocateBlock_ok [OF demo_cache_ok, of 8 1 16 0])
      (simp_all add: demo_cache_simps demo_lookup s cache_inMissQueue_def q_findMatch_def)
  have l: "length [Some 1, Some 2, Some 3, Some 4 :: byte option] = 4" "(4::nat) < 2 ^ 31"
    "length [None, None :: byte option] = 2" "(2::nat) < 2 ^ 31" by simp_all
  note f = demo_packet_at [OF l(1,2), where a = 16 and cmd = ReadResp] and r = demo_packet_at [OF l(3,4), where a = 16 and cmd = ReadReq]
  have "pkt_isRead ?f" "pkt_hasData ?f" using f(2) by (simp_all add: pkt_query_defs cmd_defs)
  moreover have "getAddr ?f = Inr 16" using f(1) by (simp add: pkt_at_def)
  moreover have "fits demo_cache 16 2" by (simp add: fits_def demo_cache_simps demo_lookup s)
  ultimately show ?thesis
    using fill_then_read [OF demo_cache_ok, of 16 ?f "[Some 1, Some 2, Some 3, Some 4]" "-1" 0 1 wbs c1 2 ?r 1] al f r
    by (auto simp: demo_cache_simps demo_lookup s)
qed

end
