(* ===== verification/Prefetch_Base.thy ===== *)
theory Prefetch_Base
  imports Packet Bitmath
begin

unbundle bit_operations_syntax

text \<open>
  \<open>mem/cache/prefetch/base.cc\<close>: the prefetch queue every hardware prefetcher of the
  simulator shares.  A cache notifies the prefetcher of its accesses; the virtual method
  \<open>calculatePrefetch\<close> of the subclass proposes addresses, the base class turns them into
  request packets and queues them, and the cache takes them out one by one.

  An iterator into the queue is a position.  Positions that leave the list (the
  decrement of \<open>end()\<close> of an empty list, the use of an erased iterator) and reading past
  the end of a list are \<open>Undefined\<close>.  \<open>deassertMemSideBusRequest\<close> is an empty method
  of the cache and has no counterpart.  Statistics counters are naturals.
\<close>

section \<open>State\<close>

record pf_params =
  prefetcher_size :: nat
  prefetch_past_page :: bool
  prefetch_serial_squash :: bool
  prefetch_data_accesses_only :: bool
  prefetch_degree :: int
  prefetch_latency :: Tick
  prefetch_use_cpu_id :: bool

record base_pf =
  pf :: "Packet list"
  pf_size :: nat
  pf_blkSize :: int
  pf_pageStop :: bool
  pf_serialSquash :: bool
  pf_onlyData :: bool
  pfIdentified :: nat
  pfBufferHit :: nat
  pfRemovedFull :: nat
  pfRemovedMSHR :: nat
  pfIssued :: nat
  pfSpanPage :: int
  pfSquashed :: nat

definition BasePrefetcher :: "pf_params \<Rightarrow> base_pf" where
  "BasePrefetcher p =
     \<lparr>pf = [], pf_size = prefetcher_size p, pf_blkSize = 0,
      pf_pageStop = (\<not> prefetch_past_page p), pf_serialSquash = prefetch_serial_squash p,
      pf_onlyData = prefetch_data_accesses_only p,
      pfIdentified = 0, pfBufferHit = 0, pfRemovedFull = 0, pfRemovedMSHR = 0, pfIssued = 0,
      pfSpanPage = 0, pfSquashed = 0\<rparr>"

definition pf_setCache :: "int \<Rightarrow> base_pf \<Rightarrow> base_pf" where
  "pf_setCache blockSize b = b\<lparr>pf_blkSize := blockSize\<rparr>"

section \<open>Operations\<close>

text \<open>\<open>x & ~(Addr)(blkSize-1)\<close>\<close>

definition blk_align :: "int \<Rightarrow> Addr \<Rightarrow> Addr" where
  "blk_align blkSize a = a AND NOT (word_of_int (blkSize - 1))"

fun in_pf :: "int \<Rightarrow> Addr \<Rightarrow> Packet list \<Rightarrow> (nat option) res" where
  "in_pf blkSize address [] = Inr None"
| "in_pf blkSize address (p # ps) =
     bind_res (getAddr p) (\<lambda>a.
       if a AND NOT (word_of_int (blkSize - 1)) = address then Inr (Some 0)
       else bind_res (in_pf blkSize address ps) (\<lambda>r. Inr (map_option Suc r)))"

definition inPrefetch :: "Addr \<Rightarrow> base_pf \<Rightarrow> (nat option) res" where
  "inPrefetch address b = in_pf (pf_blkSize b) address (pf b)"

definition VMPageSize :: int where "VMPageSize = 2 ^ 13"

definition samePage :: "Addr \<Rightarrow> Addr \<Rightarrow> bool" where
  "samePage a b \<longleftrightarrow> roundDown a VMPageSize = roundDown b VMPageSize"

definition getPacket :: "base_pf \<Rightarrow> Packet option \<times> base_pf" where
  "getPacket b =
     (case pf b of
        [] \<Rightarrow> (None, b)
      | p # ps \<Rightarrow> (Some p, b\<lparr>pf := ps, pfIssued := pfIssued b + 1\<rparr>))"

definition havePending :: "base_pf \<Rightarrow> bool" where
  "havePending b \<longleftrightarrow> pf b \<noteq> []"

definition currentQueueSize :: "base_pf \<Rightarrow> nat" where
  "currentQueueSize b = length (pf b)"

definition nextPrefetchReadyTime :: "base_pf \<Rightarrow> Tick" where
  "nextPrefetchReadyTime b = (case pf b of [] \<Rightarrow> MaxTick | p # _ \<Rightarrow> p_time p)"

definition erase_at :: "nat \<Rightarrow> 'a list \<Rightarrow> 'a list" where
  "erase_at i xs = take i xs @ drop (Suc i) xs"

text \<open>First block of \<open>notify\<close>: a miss to a queued prefetch removes it from the queue.\<close>

definition notify_remove_hit :: "Addr \<Rightarrow> base_pf \<Rightarrow> base_pf res" where
  "notify_remove_hit blk_addr b =
     bind_res (inPrefetch blk_addr b) (\<lambda>it.
       (case it of
          None \<Rightarrow> Inr b
        | Some i \<Rightarrow> Inr (b\<lparr>pfRemovedMSHR := pfRemovedMSHR b + 1, pf := erase_at i (pf b)\<rparr>)))"

text \<open>
  Second block: squashing.  \<open>iter = pf.end(); iter--\<close> leaves an empty list, and the body
  of the loop ends by decrementing the iterator it has just erased, so the block has a
  defined result only when the queue is not empty and its last packet is earlier than
  \<open>time\<close>; then it changes nothing.
\<close>

definition notify_squash :: "Tick \<Rightarrow> base_pf \<Rightarrow> base_pf res" where
  "notify_squash time b =
     (if pf_serialSquash b then
        (if pf b = [] then Inl Undefined
         else if p_time (last (pf b)) \<ge> time then Inl Undefined
         else Inr b)
      else Inr b)"

text \<open>The packet built for one candidate address.\<close>

definition make_prefetch :: "Tick \<Rightarrow> int \<Rightarrow> Packet \<Rightarrow> Tick \<Rightarrow> Addr \<Rightarrow> Packet res" where
  "make_prefetch curTick blkSize pkt tm addr =
     bind_res (Request_phys addr blkSize 0 curTick) (\<lambda>prefetchReq.
     bind_res (allocate (Packet_new curTick prefetchReq HardPFReq Broadcast)) (\<lambda>prefetch.
     bind_res (if req_hasContextId (p_req pkt)
               then bind_res (req_contextId (p_req pkt)) (\<lambda>c.
                    bind_res (req_threadId (p_req pkt)) (\<lambda>t.
                      Inr (prefetch\<lparr>p_req := req_setThreadContext c t (p_req prefetch)\<rparr>)))
               else Inr prefetch) (\<lambda>prefetch.
       Inr (prefetch\<lparr>p_time := tm\<rparr>))))"

text \<open>Third block: insert the candidates, dropping the head of a full queue.\<close>

fun notify_insert ::
  "Tick \<Rightarrow> Packet \<Rightarrow> Tick \<Rightarrow> Addr list \<Rightarrow> Tick list \<Rightarrow> base_pf \<Rightarrow> base_pf res" where
  "notify_insert curTick pkt time [] ds b = Inr b"
| "notify_insert curTick pkt time (a # as) [] b = Inl Undefined"
| "notify_insert curTick pkt time (a # as) (d # ds) b =
     (let b = b\<lparr>pfIdentified := pfIdentified b + 1\<rparr>
      in bind_res (inPrefetch a b) (\<lambda>it.
           if it \<noteq> None
           then notify_insert curTick pkt time as ds (b\<lparr>pfBufferHit := pfBufferHit b + 1\<rparr>)
           else bind_res (make_prefetch curTick (pf_blkSize b) pkt (time + d) a) (\<lambda>prefetch.
             bind_res
               (if length (pf b) = pf_size b
                then (case pf b of
                        [] \<Rightarrow> Inl Undefined
                      | _ # ps \<Rightarrow> Inr (b\<lparr>pfRemovedFull := pfRemovedFull b + 1, pf := ps\<rparr>))
                else Inr b) (\<lambda>b.
               notify_insert curTick pkt time as ds (b\<lparr>pf := pf b @ [prefetch]\<rparr>)))))"

text \<open>
  \<open>notify\<close>, with the subclass's \<open>calculatePrefetch\<close> as an argument: a function of the
  base object, the subclass's own state and the packet.
\<close>

type_synonym 'e calc = "base_pf \<Rightarrow> 'e \<Rightarrow> Packet \<Rightarrow> (base_pf \<times> 'e \<times> Addr list \<times> Tick list) res"

definition notify ::
  "'e calc \<Rightarrow> Tick \<Rightarrow> Packet \<Rightarrow> Tick \<Rightarrow> base_pf \<Rightarrow> 'e \<Rightarrow> (Tick \<times> base_pf \<times> 'e) res" where
  "notify calc curTick pkt time b e =
     bind_res
       (if \<not> req_isUncacheable (p_req pkt) \<and>
           \<not> (req_isInstFetch (p_req pkt) \<and> pf_onlyData b)
        then bind_res (getAddr pkt) (\<lambda>addr.
             bind_res (notify_remove_hit (addr AND NOT (word_of_int (pf_blkSize b - 1))) b) (\<lambda>b.
             bind_res (notify_squash time b) (\<lambda>b.
             bind_res (calc b e pkt) (\<lambda>(b, e, addresses, delays).
             bind_res (notify_insert curTick pkt time addresses delays b) (\<lambda>b.
               Inr (b, e))))))
        else Inr (b, e))
       (\<lambda>(b, e). Inr ((case pf b of [] \<Rightarrow> 0 | p # _ \<Rightarrow> p_time p), b, e))"

definition base_prefetchComplete :: "Packet \<Rightarrow> base_pf \<Rightarrow> base_pf" where
  "base_prefetchComplete pkt b = b"

section \<open>Invariant of the queue\<close>

definition blk_aligned :: "int \<Rightarrow> Addr \<Rightarrow> bool" where
  "blk_aligned blkSize a \<longleftrightarrow> a AND NOT (word_of_int (blkSize - 1)) = a"

definition pf_pkt_ok :: "int \<Rightarrow> Packet \<Rightarrow> bool" where
  "pf_pkt_ok blkSize p \<longleftrightarrow> flags_isSet (p_flags p) PKT_VALID_ADDR \<and> blk_aligned blkSize (p_addr p) \<and>
     p_cmd p = HardPFReq \<and> p_data p \<noteq> None \<and> \<not> req_isUncacheable (p_req p) \<and> p_senderState p = None"

definition pf_inv :: "base_pf \<Rightarrow> bool" where
  "pf_inv b \<longleftrightarrow> (\<exists>k < 31. pf_blkSize b = 2 ^ k) \<and> 0 < pf_size b \<and> length (pf b) \<le> pf_size b \<and>
     (\<forall>p \<in> set (pf b). pf_pkt_ok (pf_blkSize b) p) \<and> distinct (map p_addr (pf b))"

text \<open>The queue as its clients see it, and the effect of one candidate on it.\<close>

definition pf_queue :: "base_pf \<Rightarrow> Addr list" where
  "pf_queue b = map p_addr (pf b)"

definition enqueue :: "nat \<Rightarrow> Addr \<Rightarrow> Addr list \<Rightarrow> Addr list" where
  "enqueue n a q =
     (if a \<in> set q then q else (if length q = n then tl q else q) @ [a])"

lemma enqueue_mem: "a \<in> set q \<Longrightarrow> enqueue n a q = q"
  by (simp add: enqueue_def)

text \<open>Objects that differ in statistics only.\<close>

definition same_queue :: "base_pf \<Rightarrow> base_pf \<Rightarrow> bool" where
  "same_queue b b' \<longleftrightarrow> pf b' = pf b \<and> pf_size b' = pf_size b \<and> pf_blkSize b' = pf_blkSize b \<and>
     pf_pageStop b' = pf_pageStop b \<and> pf_serialSquash b' = pf_serialSquash b \<and>
     pf_onlyData b' = pf_onlyData b"

definition ctx_ok :: "Packet \<Rightarrow> bool" where
  "ctx_ok pkt \<longleftrightarrow> (req_hasContextId (p_req pkt) \<longrightarrow>
     flags_isSet (r_privateFlags (p_req pkt)) REQ_VALID_THREAD_ID)"

lemma pf_inv_same_queue: "same_queue b b' \<Longrightarrow> pf_inv b \<Longrightarrow> pf_inv b'"
  by (simp add: same_queue_def pf_inv_def)

lemma word_of_int_mask: "(word_of_int (2 ^ k - 1) :: 'a::len word) = mask k"
  by (simp add: mask_eq_exp_minus_1)

lemma in_pf_spec:
  assumes "\<forall>p \<in> set ps. pf_pkt_ok bs p"
  obtains (absent) "in_pf bs a ps = Inr None" "a \<notin> p_addr ` set ps"
  | (present) i where "in_pf bs a ps = Inr (Some i)" "i < length ps" "p_addr (ps ! i) = a"
  using assms
proof (induction ps arbitrary: thesis)
  case Nil
  then show ?case by simp
next
  case (Cons p ps)
  have p: "getAddr p = Inr (p_addr p)" "p_addr p AND NOT (word_of_int (bs - 1)) = p_addr p"
    using Cons.prems(3) by (simp_all add: pf_pkt_ok_def getAddr_def blk_aligned_def)
  show ?case
  proof (cases "p_addr p = a")
    case True
    then show ?thesis using p by (intro Cons.prems(2) [of 0]) simp_all
  next
    case False
    show ?thesis
    proof (rule Cons.IH)
      assume "in_pf bs a ps = Inr None" "a \<notin> p_addr ` set ps"
      then show thesis using p False by (intro Cons.prems(1)) auto
    next
      fix i assume "in_pf bs a ps = Inr (Some i)" "i < length ps" "p_addr (ps ! i) = a"
      then show thesis using p False by (intro Cons.prems(2) [of "Suc i"]) simp_all
    qed (use Cons.prems(3) in simp)
  qed
qed

lemma map_erase_at: "map f (erase_at i xs) = erase_at i (map f xs)"
  by (simp add: erase_at_def take_map drop_map)

lemma erase_at_subset: "set (erase_at i xs) \<subseteq> set xs" "length (erase_at i xs) \<le> length xs"
  by (auto simp: erase_at_def dest: in_set_takeD in_set_dropD)

lemma erase_at_distinct:
  assumes "distinct xs" and "i < length xs"
  shows "erase_at i xs = removeAll (xs ! i) xs"
proof -
  have xs: "xs = take i xs @ xs ! i # drop (Suc i) xs" using assms(2) by (rule id_take_nth_drop)
  have "distinct (take i xs @ xs ! i # drop (Suc i) xs)" using assms(1) xs by metis
  then have "xs ! i \<notin> set (take i xs)" "xs ! i \<notin> set (drop (Suc i) xs)" by auto
  then have "removeAll (xs ! i) (take i xs @ xs ! i # drop (Suc i) xs) = erase_at i xs"
    by (simp add: erase_at_def removeAll_id)
  then show ?thesis using xs by metis
qed

lemma notify_remove_hit_ok:
  assumes "pf_inv b"
  obtains b' where "notify_remove_hit a b = Inr b'" "pf_inv b'"
    "pf_queue b' = removeAll a (pf_queue b)" "same_queue (b\<lparr>pf := pf b'\<rparr>) b'"
proof -
  have ok: "\<forall>p \<in> set (pf b). pf_pkt_ok (pf_blkSize b) p" and d: "distinct (map p_addr (pf b))"
    using assms by (simp_all add: pf_inv_def)
  from ok show thesis
  proof (cases rule: in_pf_spec [of "pf b" "pf_blkSize b" a])
    case absent
    then show thesis using assms
      by (intro that [of b]) (simp_all add: notify_remove_hit_def inPrefetch_def pf_queue_def removeAll_id
          same_queue_def)
  next
    case (present i)
    let ?b = "b\<lparr>pfRemovedMSHR := pfRemovedMSHR b + 1, pf := erase_at i (pf b)\<rparr>"
    have q: "map p_addr (erase_at i (pf b)) = removeAll a (map p_addr (pf b))"
      using erase_at_distinct [OF d, of i] present(2,3) by (simp add: map_erase_at)
    have "pf_inv ?b"
      using assms unfolding pf_inv_def
      by (auto simp: q distinct_removeAll dest: subsetD [OF erase_at_subset(1)]
          intro: order.trans [OF erase_at_subset(2)])
    then show thesis using present q
      by (intro that [of ?b]) (simp_all add: notify_remove_hit_def inPrefetch_def pf_queue_def same_queue_def)
  qed
qed

lemma make_prefetch_ok:
  assumes "0 \<le> bs" and "ctx_ok pkt" and "blk_aligned bs a"
  obtains p where "make_prefetch t bs pkt tm a = Inr p" "pf_pkt_ok bs p" "p_addr p = a" "p_time p = tm"
proof -
  define r where "r = Request_new\<lparr>r_paddr := a, r_size := bs, r_time := t, r_flags := 0,
    r_privateFlags := REQ_VALID_PADDR OR REQ_VALID_SIZE\<rparr>"
  have r: "Request_phys a bs 0 t = Inr r" using Request_phys_ok [OF assms(1)] by (simp add: r_def)
  have v: "req_hasPaddr r" "req_hasSize r" "r_paddr r = a"
    by (simp_all add: r_def req_hasPaddr_def req_hasSize_def req_flag_defs flag_simps)
  define p0 where "p0 = Packet_new t r HardPFReq Broadcast"
  have f: "p_flags p0 = flags_set (flags_set PKT_VALID_DST PKT_VALID_ADDR) PKT_VALID_SIZE"
    "p_addr p0 = a" using v by (simp_all add: p0_def Packet_new_def Packet_base_def Let_def)
  have f0: "p_req (Packet_new t r HardPFReq Broadcast) = r" "p_senderState (Packet_new t r HardPFReq Broadcast) = None"
    by (simp_all add: Packet_new_def Packet_base_def Let_def)
  have cacheable: "\<not> req_isUncacheable r" "\<not> req_isUncacheable (req_setThreadContext x y r)" for x y
    by (simp_all add: r_def req_isUncacheable_def req_setThreadContext_def req_flag_defs flag_simps)
  obtain p1 where p1: "allocate p0 = Inr p1" "p_addr p1 = a" "p_cmd p1 = HardPFReq"
    "p_data p1 \<noteq> None" "flags_isSet (p_flags p1) PKT_VALID_ADDR" "p_req p1 = r" "p_senderState p1 = None"
    using f Packet_new_addr(2) [OF v(2)] f0
    by (simp add: allocate_def p0_def flag_simps pkt_flag_defs)
  have "\<exists>p2. (if req_hasContextId (p_req pkt)
               then bind_res (req_contextId (p_req pkt)) (\<lambda>c.
                    bind_res (req_threadId (p_req pkt)) (\<lambda>t.
                      Inr (p1\<lparr>p_req := req_setThreadContext c t (p_req p1)\<rparr>)))
               else Inr p1) = Inr p2 \<and> pf_pkt_ok bs p2 \<and> p_addr p2 = a"
    using p1 assms(2,3) cacheable
    by (auto simp: ctx_ok_def req_hasContextId_def req_contextId_def req_threadId_def pf_pkt_ok_def)
  then obtain p2 where "make_prefetch t bs pkt tm a = Inr (p2\<lparr>p_time := tm\<rparr>)" "pf_pkt_ok bs p2" "p_addr p2 = a"
    using r p1(1) by (auto simp: make_prefetch_def p0_def [symmetric])
  then show thesis by (intro that [of "p2\<lparr>p_time := tm\<rparr>"]) (simp_all add: pf_pkt_ok_def)
qed

text \<open>The room made for a new packet, and the queue with the packet added.\<close>

lemma pf_inv_push:
  assumes "pf_inv b" and "a \<notin> set (pf_queue b)" and "pf_pkt_ok (pf_blkSize b) p" and "p_addr p = a"
  obtains b' where
    "(if length (pf b) = pf_size b
      then (case pf b of [] \<Rightarrow> Inl Undefined
            | _ # ps \<Rightarrow> Inr (b\<lparr>pfRemovedFull := pfRemovedFull b + 1, pf := ps\<rparr>))
      else Inr b) = Inr b'"
    "pf_inv (b'\<lparr>pf := pf b' @ [p]\<rparr>)"
    "pf_queue (b'\<lparr>pf := pf b' @ [p]\<rparr>) = enqueue (pf_size b) a (pf_queue b)"
    "pf_size b' = pf_size b" "pf_blkSize b' = pf_blkSize b"
proof (cases "length (pf b) = pf_size b")
  case True
  with assms(1) obtain x ps where ps: "pf b = x # ps" by (cases "pf b") (auto simp: pf_inv_def)
  let ?b = "b\<lparr>pfRemovedFull := pfRemovedFull b + 1, pf := ps\<rparr>"
  have "pf_inv (?b\<lparr>pf := pf ?b @ [p]\<rparr>)"
    using assms ps True by (auto simp: pf_inv_def pf_queue_def)
  then show thesis using True ps assms
    by (intro that [of ?b]) (auto simp: pf_queue_def enqueue_def)
next
  case False
  with assms have "pf_inv (b\<lparr>pf := pf b @ [p]\<rparr>)"
    by (auto simp: pf_inv_def pf_queue_def)
  then show thesis using False assms
    by (intro that [of b]) (auto simp: pf_queue_def enqueue_def)
qed

lemma notify_insert_ok:
  assumes "pf_inv b" and "length as = length ds" and "ctx_ok pkt"
    and "\<forall>a \<in> set as. blk_aligned (pf_blkSize b) a"
  shows "\<exists>b'. notify_insert t pkt tm as ds b = Inr b' \<and> pf_inv b' \<and>
    pf_queue b' = fold (enqueue (pf_size b)) as (pf_queue b)"
  using assms
proof (induction t pkt tm as ds b rule: notify_insert.induct)
  case (3 t pkt tm a as d ds b)
  define b1 where "b1 = b\<lparr>pfIdentified := Suc (pfIdentified b)\<rparr>"
  have b1: "pf_inv b1" "pf_blkSize b1 = pf_blkSize b" "pf_size b1 = pf_size b" "pf_queue b1 = pf_queue b"
    using 3(3) by (simp_all add: b1_def pf_inv_def pf_queue_def)
  have "\<forall>p \<in> set (pf b1). pf_pkt_ok (pf_blkSize b1) p" using b1(1) by (simp add: pf_inv_def)
  then show ?case
  proof (cases rule: in_pf_spec [of "pf b1" "pf_blkSize b1" a])
    case (present i)
    have "a \<in> set (pf_queue b1)"
      using nth_mem [OF present(2)] present(3) by (auto simp: pf_queue_def)
    then have mem: "a \<in> set (pf_queue b)" by (simp add: b1(4))
    have it: "inPrefetch a b1 = Inr (Some i)" using present(1) by (simp add: inPrefetch_def)
    define b2 where "b2 = b1\<lparr>pfBufferHit := pfBufferHit b1 + 1\<rparr>"
    have "\<exists>b'. notify_insert t pkt tm as ds b2 = Inr b' \<and> pf_inv b' \<and>
        pf_queue b' = fold (enqueue (pf_size b2)) as (pf_queue b2)"
      using 3(1) [of b1 "Some i"] 3(3-6) b1
      by (auto simp: b1_def b2_def pf_inv_def pf_queue_def)
    moreover have "notify_insert t pkt tm (a # as) (d # ds) b = notify_insert t pkt tm as ds b2"
      using it by (simp add: b1_def [symmetric] b2_def Let_def)
    moreover have "pf_queue b2 = pf_queue b" "pf_size b2 = pf_size b"
      using b1 by (simp_all add: b2_def pf_queue_def)
    ultimately show ?thesis using enqueue_mem [OF mem] by simp
  next
    case absent
    have it: "inPrefetch a b1 = Inr None" using absent(1) by (simp add: inPrefetch_def)
    have new: "a \<notin> set (pf_queue b1)" using absent(2) by (simp add: pf_queue_def)
    have "0 \<le> pf_blkSize b1" "blk_aligned (pf_blkSize b1) a"
      using b1 3(6) by (auto simp: pf_inv_def)
    from make_prefetch_ok [OF this(1) 3(5) this(2), of t "tm + d"]
    obtain p where p: "make_prefetch t (pf_blkSize b1) pkt (tm + d) a = Inr p"
      "pf_pkt_ok (pf_blkSize b1) p" "p_addr p = a" by metis
    from pf_inv_push [OF b1(1) new p(2,3)] obtain b2 where b2:
      "(if length (pf b1) = pf_size b1
        then (case pf b1 of [] \<Rightarrow> Inl Undefined
            | _ # ps \<Rightarrow> Inr (b1\<lparr>pfRemovedFull := pfRemovedFull b1 + 1, pf := ps\<rparr>))
        else Inr b1) = Inr b2"
      "pf_inv (b2\<lparr>pf := pf b2 @ [p]\<rparr>)"
      "pf_queue (b2\<lparr>pf := pf b2 @ [p]\<rparr>) = enqueue (pf_size b1) a (pf_queue b1)"
      "pf_size b2 = pf_size b1" "pf_blkSize b2 = pf_blkSize b1" by metis
    define b3 where "b3 = b2\<lparr>pf := pf b2 @ [p]\<rparr>"
    have "notify_insert t pkt tm (a # as) (d # ds) b = notify_insert t pkt tm as ds b3"
      using it p(1) b2(1) by (simp add: b1_def [symmetric] b3_def Let_def)
    moreover have "\<exists>b'. notify_insert t pkt tm as ds b3 = Inr b' \<and> pf_inv b' \<and>
        pf_queue b' = fold (enqueue (pf_size b3)) as (pf_queue b3)"
      using 3(2) [of b1 None b2 p] 3(4-6) b1 b2 by (simp add: b1_def [symmetric] b3_def)
    moreover have "pf_queue b3 = enqueue (pf_size b) a (pf_queue b)" "pf_size b3 = pf_size b"
      using b1 b2 by (simp_all add: b3_def)
    ultimately show ?thesis by simp
  qed
qed auto

section \<open>The contract of \<open>calculatePrefetch\<close>\<close>

text \<open>
  What \<open>notify\<close> relies on: the method returns, it proposes as many delays as addresses,
  the addresses are block aligned, and it does not touch the queue.  \<open>einv\<close> is the
  invariant of the subclass, \<open>pre\<close> what it asks of the packet.
\<close>

locale prefetch_engine =
  fixes calc :: "'e calc" and einv :: "'e \<Rightarrow> bool" and pre :: "base_pf \<Rightarrow> Packet \<Rightarrow> bool"
  assumes calc_ok: "pf_inv b \<Longrightarrow> einv e \<Longrightarrow> pre b pkt \<Longrightarrow> getAddr pkt = Inr a \<Longrightarrow>
    \<exists>b' e' as ds. calc b e pkt = Inr (b', e', as, ds) \<and> same_queue b b' \<and> einv e' \<and>
      length as = length ds \<and> (\<forall>x \<in> set as. blk_aligned (pf_blkSize b) x)"
  and pre_frame: "pf_blkSize b' = pf_blkSize b \<Longrightarrow> pre b pkt \<Longrightarrow> pre b' pkt"
begin

lemma notify_refines:
  assumes "pf_inv b" and "einv e" and "pre b pkt" and "getAddr pkt = Inr a" and "ctx_ok pkt"
    and "\<not> pf_serialSquash b" and "\<not> req_isUncacheable (p_req pkt)" and "\<not> pf_onlyData b"
  obtains as ds b1 b2 e' r b' where
    "same_queue (b\<lparr>pf := pf b1\<rparr>) b1"
    "pf_queue b1 = removeAll (a AND NOT (word_of_int (pf_blkSize b - 1))) (pf_queue b)"
    "calc b1 e pkt = Inr (b2, e', as, ds)"
    "notify calc t pkt tm b e = Inr (r, b', e')" "pf_inv b'" "einv e'"
    "pf_queue b' = fold (enqueue (pf_size b)) as (pf_queue b1)"
proof -
  obtain b1 where b1: "notify_remove_hit (a AND NOT (word_of_int (pf_blkSize b - 1))) b = Inr b1"
    "pf_inv b1" "pf_queue b1 = removeAll (a AND NOT (word_of_int (pf_blkSize b - 1))) (pf_queue b)"
    "same_queue (b\<lparr>pf := pf b1\<rparr>) b1"
    using notify_remove_hit_ok [OF assms(1)] by metis
  have same: "pf_size b1 = pf_size b" "pf_blkSize b1 = pf_blkSize b" "pf_serialSquash b1 = pf_serialSquash b"
    using b1(4) by (simp_all add: same_queue_def)
  from calc_ok [OF b1(2) assms(2) pre_frame [OF same(2) assms(3)] assms(4)]
  obtain b2 e' as ds where c: "calc b1 e pkt = Inr (b2, e', as, ds)" "same_queue b1 b2" "einv e'"
    "length as = length ds" "\<forall>x \<in> set as. blk_aligned (pf_blkSize b1) x" by blast
  have b2: "pf_inv b2" "pf_queue b2 = pf_queue b1" "pf_size b2 = pf_size b1"
    "pf_blkSize b2 = pf_blkSize b1"
    using pf_inv_same_queue [OF c(2) b1(2)] c(2) by (simp_all add: same_queue_def pf_queue_def)
  from notify_insert_ok [OF b2(1) c(4) assms(5), of t tm] c(5) b2(4)
  obtain b3 where b3: "notify_insert t pkt tm as ds b2 = Inr b3" "pf_inv b3"
    "pf_queue b3 = fold (enqueue (pf_size b2)) as (pf_queue b2)" by auto
  have "notify calc t pkt tm b e = Inr ((case pf b3 of [] \<Rightarrow> 0 | p # _ \<Rightarrow> p_time p), b3, e')"
    using assms(4,6,7,8) b1(1) same c(1) b3(1) by (simp add: notify_def notify_squash_def)
  then show thesis using that b1 b2 b3 c same by simp
qed

end

end
