(* ===== verification/Prefetchers.thy ===== *)
theory Prefetchers
  imports Prefetch_Base Prefetch_Interface
begin

unbundle bit_operations_syntax

text \<open>
  The built-in prefetchers of the simulator, \<open>mem/cache/prefetch/{sequential,tagged,ghb,
  stride,cppinterface,outer_impl}.cc\<close>: each is a \<open>calculatePrefetch\<close> method over the
  queue of \<open>Prefetch_Base\<close>.  The constructor's parameters are one record, the tables a
  subclass keeps are its state.

  A C \<open>int\<close> product that overflows is \<open>Undefined\<close>; a 64-bit difference stored in an
  \<open>int\<close> is truncated to 32 bits and added back sign-extended.
\<close>

section \<open>Parameters\<close>

record pf_conf =
  pc_latency :: Tick
  pc_degree :: int
  pc_useContextId :: bool

definition pf_conf_of :: "pf_params \<Rightarrow> pf_conf" where
  "pf_conf_of p = \<lparr>pc_latency = prefetch_latency p, pc_degree = prefetch_degree p,
     pc_useContextId = prefetch_use_cpu_id p\<rparr>"

definition int_mul :: "int \<Rightarrow> int \<Rightarrow> int res" where
  "int_mul x y = guard_res Undefined (- (2 ^ 31) \<le> x * y \<and> x * y < 2 ^ 31) (Inr (x * y))"

section \<open>Sequential prefetcher\<close>

definition seq_calculatePrefetch :: "'c cache_ops \<Rightarrow> 'c \<Rightarrow> pf_conf \<Rightarrow> unit calc" where
  "seq_calculatePrefetch ops cache cf b e pkt =
     bind_res (getAddr pkt) (\<lambda>a.
       let addr = (a AND NOT (word_of_int (pf_blkSize b - 1))) + word_of_int (pf_blkSize b)
       in if pc_useContextId cf \<and> \<not> req_hasContextId (p_req pkt) then Inr (b, e, [], [])
          else if req_isPrefetch (p_req pkt) then Inr (b, e, [], [])
          else if co_inCache ops cache addr then Inr (b, e, [], [])
          else Inr (b, e, [addr], [pc_latency cf]))"

section \<open>The loop over the degree\<close>

text \<open>
  \<open>for (int d = 1; d <= degree; d++)\<close> of the tagged, global-history and stride
  prefetchers: propose \<open>blk_addr + d * stride\<close> until the page is left.
\<close>

function degree_loop ::
  "pf_conf \<Rightarrow> int \<Rightarrow> Addr \<Rightarrow> int \<Rightarrow> Addr list \<Rightarrow> Tick list \<Rightarrow> base_pf \<Rightarrow>
    (base_pf \<times> Addr list \<times> Tick list) res" where
  "degree_loop cf stride blk_addr d addresses delays b =
     (if d \<le> pc_degree cf then
        bind_res (int_mul d stride) (\<lambda>offset.
          let new_addr = blk_addr + word_of_int offset
          in if pf_pageStop b \<and> \<not> samePage blk_addr new_addr
             then Inr (b\<lparr>pfSpanPage := pfSpanPage b + (pc_degree cf - d + 1)\<rparr>, addresses, delays)
             else degree_loop cf stride blk_addr (d + 1) (addresses @ [new_addr])
                    (delays @ [pc_latency cf]) b)
      else Inr (b, addresses, delays))"
  by pat_completeness auto
termination
  by (relation "measure (\<lambda>(cf, _, _, d, _). nat (pc_degree cf + 1 - d))") auto

declare degree_loop.simps [simp del]

section \<open>Tagged prefetcher\<close>

definition tagged_calculatePrefetch :: "pf_conf \<Rightarrow> unit calc" where
  "tagged_calculatePrefetch cf b e pkt =
     bind_res (getAddr pkt) (\<lambda>a.
       let blkAddr = a AND NOT (word_of_int (pf_blkSize b - 1))
       in if pc_useContextId cf \<and> \<not> req_hasContextId (p_req pkt) then Inr (b, e, [], [])
          else bind_res (degree_loop cf (pf_blkSize b) blkAddr 1 [] [] b)
                 (\<lambda>(b, as, ds). Inr (b, e, as, ds)))"

section \<open>Global history buffer prefetcher\<close>

definition Max_Contexts :: int where "Max_Contexts = 64"

record ghb_pf =
  secondLastMissAddr :: "Addr list"
  lastMissAddr :: "Addr list"

definition pf_ctx_id :: "pf_conf \<Rightarrow> Packet \<Rightarrow> int res" where
  "pf_ctx_id cf pkt =
     bind_res (if pc_useContextId cf then req_contextId (p_req pkt) else Inr 0) (\<lambda>ctx_id.
       guard_res AssertFail (ctx_id < Max_Contexts)
         (guard_res Undefined (0 \<le> ctx_id) (Inr ctx_id)))"

definition ghb_calculatePrefetch :: "pf_conf \<Rightarrow> ghb_pf calc" where
  "ghb_calculatePrefetch cf b g pkt =
     (if pc_useContextId cf \<and> \<not> req_hasContextId (p_req pkt) then Inr (b, g, [], [])
      else bind_res (getAddr pkt) (\<lambda>a.
        let blk_addr = a AND NOT (word_of_int (pf_blkSize b - 1))
        in bind_res (pf_ctx_id cf pkt) (\<lambda>ctx_id.
             let c = nat ctx_id;
                 new_stride = (ucast (blk_addr - lastMissAddr g ! c) :: 32 word);
                 old_stride = (ucast (lastMissAddr g ! c - secondLastMissAddr g ! c) :: 32 word);
                 g = g\<lparr>secondLastMissAddr := (secondLastMissAddr g)[c := lastMissAddr g ! c],
                       lastMissAddr := (lastMissAddr g)[c := blk_addr]\<rparr>
             in if new_stride = old_stride
                then bind_res (degree_loop cf (sint new_stride) blk_addr 1 [] [] b)
                       (\<lambda>(b, as, ds). Inr (b, g, as, ds))
                else Inr (b, g, [], []))))"

section \<open>Stride prefetcher\<close>

definition Max_Conf :: int where "Max_Conf = 2 ^ 31 - 1"
definition Min_Conf :: int where "Min_Conf = - (2 ^ 31)"

record StrideEntry =
  se_instAddr :: Addr
  se_missAddr :: Addr
  se_stride :: "32 word"
  se_confidence :: int

type_synonym stride_pf = "StrideEntry list list"

fun stride_find :: "Addr \<Rightarrow> StrideEntry list \<Rightarrow> nat option" where
  "stride_find pc [] = None"
| "stride_find pc (x # xs) =
     (if se_instAddr x = pc then Some 0 else map_option Suc (stride_find pc xs))"

text \<open>The update of an entry that is hit, and the scan for the least confidence.\<close>

definition stride_hit :: "32 word \<Rightarrow> Addr \<Rightarrow> StrideEntry \<Rightarrow> StrideEntry" where
  "stride_hit new_stride blk_addr x =
     (let stride_match = (new_stride = se_stride x);
          x = (if stride_match \<and> new_stride \<noteq> 0
               then (if se_confidence x < Max_Conf
                     then x\<lparr>se_confidence := se_confidence x + 1\<rparr> else x)
               else (let x = x\<lparr>se_stride := new_stride\<rparr>
                     in if se_confidence x > Min_Conf then x\<lparr>se_confidence := 0\<rparr> else x))
      in x\<lparr>se_missAddr := blk_addr\<rparr>)"

fun min_conf_pos :: "StrideEntry list \<Rightarrow> nat \<Rightarrow> nat \<Rightarrow> int \<Rightarrow> nat" where
  "min_conf_pos [] i min_pos min_conf = min_pos"
| "min_conf_pos (x # xs) i min_pos min_conf =
     (if se_confidence x < min_conf
      then min_conf_pos xs (Suc i) i (se_confidence x)
      else min_conf_pos xs (Suc i) min_pos min_conf)"

definition stride_evict :: "StrideEntry list \<Rightarrow> StrideEntry list" where
  "stride_evict tab =
     (if length tab \<ge> 256
      then (case tab of
              [] \<Rightarrow> tab
            | x # xs \<Rightarrow> erase_at (min_conf_pos xs 1 0 (se_confidence x)) tab)
      else tab)"

definition stride_calculatePrefetch :: "pf_conf \<Rightarrow> stride_pf calc" where
  "stride_calculatePrefetch cf b table pkt =
     (if \<not> req_hasPC (p_req pkt) then Inr (b, table, [], [])
      else if pc_useContextId cf \<and> \<not> req_hasContextId (p_req pkt) then Inr (b, table, [], [])
      else bind_res (getAddr pkt) (\<lambda>a.
        let blk_addr = a AND NOT (word_of_int (pf_blkSize b - 1))
        in bind_res (req_getPC (p_req pkt)) (\<lambda>pc.
           bind_res (pf_ctx_id cf pkt) (\<lambda>ctx_id.
             let c = nat ctx_id; tab = table ! c
             in case stride_find pc tab of
                  Some i \<Rightarrow>
                    let new_stride = (ucast (blk_addr - se_missAddr (tab ! i)) :: 32 word);
                        x = stride_hit new_stride blk_addr (tab ! i);
                        table = table[c := tab[i := x]]
                    in if se_confidence x \<le> 0 then Inr (b, table, [], [])
                       else bind_res (degree_loop cf (sint new_stride) blk_addr 1 [] [] b)
                              (\<lambda>(b, as, ds). Inr (b, table, as, ds))
                | None \<Rightarrow>
                    Inr (b, table[c := stride_evict tab @
                           [\<lparr>se_instAddr = pc, se_missAddr = blk_addr, se_stride = 0,
                             se_confidence = 0\<rparr>]], [], [])))))"

section \<open>The C++ interface prefetcher\<close>

text \<open>
  \<open>InterfacePrefetcher\<close> with the sample \<open>Prefetcher\<close> of \<open>outer_impl.cc\<close>.  The pointers
  \<open>addr_list\<close> and \<open>delay_list\<close> are \<open>None\<close> outside a call; the \<open>Prefetcher\<close>
  object, created at the first use, only remembers the block size.
\<close>

record if_pf =
  if_prefetcher :: "int option"
  if_lists :: "(Addr list \<times> Tick list) option"

definition if_queuePrefetch :: "pf_conf \<Rightarrow> Addr \<Rightarrow> if_pf \<Rightarrow> if_pf res" where
  "if_queuePrefetch cf addr f =
     (case if_lists f of
        None \<Rightarrow> Inl AssertFail
      | Some (as, ds) \<Rightarrow> Inr (f\<lparr>if_lists := Some (as @ [addr], ds @ [pc_latency cf])\<rparr>))"

definition if_inQueue :: "Addr \<Rightarrow> base_pf \<Rightarrow> bool res" where
  "if_inQueue addr b = bind_res (inPrefetch addr b) (\<lambda>it. Inr (it \<noteq> None))"

definition if_setPrefetchBit :: "'c cache_ops \<Rightarrow> Addr \<Rightarrow> bool \<Rightarrow> 'c \<Rightarrow> 'c" where
  "if_setPrefetchBit ops addr v c =
     (if v then co_setPrefetchBit ops addr c else co_clearPrefetchBit ops addr c)"

fun outer_loop :: "pf_conf \<Rightarrow> Addr \<Rightarrow> int \<Rightarrow> int list \<Rightarrow> if_pf \<Rightarrow> if_pf res" where
  "outer_loop cf address blkSize [] f = Inr f"
| "outer_loop cf address blkSize (i # is) f =
     bind_res (int_mul blkSize i) (\<lambda>m.
     bind_res (if_queuePrefetch cf (address + word_of_int m) f)
       (outer_loop cf address blkSize is))"

definition outer_notify :: "pf_conf \<Rightarrow> bool \<Rightarrow> Addr \<Rightarrow> int \<Rightarrow> if_pf \<Rightarrow> if_pf res" where
  "outer_notify cf hit address blkSize f =
     (if \<not> hit then outer_loop cf address blkSize [1..8] f else Inr f)"

definition if_calculatePrefetch :: "'c cache_ops \<Rightarrow> 'c \<Rightarrow> pf_conf \<Rightarrow> if_pf calc" where
  "if_calculatePrefetch ops cache cf b f pkt =
     (if pc_useContextId cf \<and> \<not> req_hasContextId (p_req pkt) then Inr (b, f, [], [])
      else if \<not> req_hasPC (p_req pkt) then Inr (b, f, [], [])
      else (let blkSize = (case if_prefetcher f of None \<Rightarrow> pf_blkSize b | Some n \<Rightarrow> n);
                f = f\<lparr>if_prefetcher := Some blkSize, if_lists := Some ([], [])\<rparr>
            in bind_res (getAddr pkt) (\<lambda>address.
               bind_res (req_getPC (p_req pkt)) (\<lambda>_.
               bind_res (outer_notify cf (co_inCache ops cache address) address blkSize f) (\<lambda>f.
                 case if_lists f of
                   None \<Rightarrow> Inl Undefined
                 | Some (as, ds) \<Rightarrow> Inr (b, f\<lparr>if_lists := None\<rparr>, as, ds))))))"

section \<open>Aligned addresses and strides\<close>

lemma blk_aligned_iff: "blk_aligned (2 ^ k) a \<longleftrightarrow> 2 ^ k dvd a"
proof -
  have "a AND NOT (mask k) = a \<longleftrightarrow> a AND mask k = 0"
    using align_split [of a k] align_low_bits [of a k] by (metis add.right_neutral)
  then show ?thesis
    unfolding blk_aligned_def word_of_int_mask
    by (simp add: take_bit_eq_mask [symmetric] take_bit_eq_0_iff)
qed

lemma blk_aligned_align: "blk_aligned (2 ^ k) (a AND NOT (word_of_int (2 ^ k - 1)))"
  unfolding blk_aligned_def word_of_int_mask by (rule align_idem)

text \<open>The stride of two aligned addresses, truncated to an \<open>int\<close>, keeps them aligned.\<close>

lemma word_of_int_dvd: "2 ^ k dvd i \<Longrightarrow> 2 ^ k dvd (word_of_int i :: 64 word)"
  by (elim dvdE) simp

lemma stride_dvd:
  assumes "2 ^ k dvd (x :: 64 word)" and "k < 31"
  shows "2 ^ k dvd sint (ucast x :: 32 word)"
proof -
  have "take_bit k (sint (ucast x :: 32 word)) = take_bit k (uint x)"
    using assms(2) by (simp add: sint_uint unsigned_ucast_eq take_bit_signed_take_bit min_def)
  also have "\<dots> = 0"
    using assms(1) by (metis unsigned_take_bit_eq unsigned_0 take_bit_eq_0_iff)
  finally show ?thesis by (simp only: take_bit_eq_0_iff)
qed

lemma stride_multiple_aligned:
  assumes "2 ^ k dvd (a :: 64 word)" and "2 ^ k dvd (s :: int)"
  shows "blk_aligned (2 ^ k) (a + word_of_int (d * s))"
  using assms by (simp add: blk_aligned_iff word_of_int_dvd del: of_int_mult)

section \<open>What the loop proposes\<close>

text \<open>
  The candidates are the multiples of the stride in order, cut at the first one outside
  the page when the prefetcher stops at pages; the candidates cut off are counted.
\<close>

definition stride_stream :: "Addr \<Rightarrow> int \<Rightarrow> int \<Rightarrow> int \<Rightarrow> Addr list" where
  "stride_stream a s d n = map (\<lambda>k. a + word_of_int (k * s)) [d..n]"

lemma stride_stream_aligned:
  assumes "2 ^ k dvd (a :: 64 word)" and "2 ^ k dvd (s :: int)" and "x \<in> set (stride_stream a s d n)"
  shows "blk_aligned (2 ^ k) x"
  using assms(3) stride_multiple_aligned [OF assms(1,2)] unfolding stride_stream_def by auto

definition page_cut :: "bool \<Rightarrow> Addr \<Rightarrow> Addr list \<Rightarrow> Addr list" where
  "page_cut stop a xs = (if stop then takeWhile (samePage a) xs else xs)"

lemma page_cut_Cons:
  "page_cut stop a (x # xs) = (if stop \<and> \<not> samePage a x then [] else x # page_cut stop a xs)"
  by (simp add: page_cut_def)

lemma page_cut_subset: "set (page_cut stop a xs) \<subseteq> set xs"
  by (auto simp: page_cut_def dest: set_takeWhileD)

lemma page_cut_length: "length (page_cut stop a xs) \<le> length xs"
  by (simp add: page_cut_def length_takeWhile_le)

lemma stride_stream_rec:
  "stride_stream a s d n =
     (if d \<le> n then (a + word_of_int (d * s)) # stride_stream a s (d + 1) n else [])"
  by (simp add: stride_stream_def upto_rec1)

lemma stride_stream_length: "length (stride_stream a s d n) = nat (n - d + 1)"
  by (simp add: stride_stream_def)

definition span_page :: "int \<Rightarrow> base_pf \<Rightarrow> base_pf" where
  "span_page n b = b\<lparr>pfSpanPage := pfSpanPage b + n\<rparr>"

lemma span_page_0: "span_page 0 b = b"
  by (simp add: span_page_def)

lemma span_page_same: "same_queue b (span_page n b)"
  by (simp add: span_page_def same_queue_def)

lemma degree_loop_spec:
  assumes "\<And>k. d \<le> k \<Longrightarrow> k \<le> pc_degree cf \<Longrightarrow> - (2 ^ 31) \<le> k * s \<and> k * s < 2 ^ 31"
  shows "degree_loop cf s a d as ds b =
    (let new = page_cut (pf_pageStop b) a (stride_stream a s d (pc_degree cf))
     in Inr (span_page (int (length (stride_stream a s d (pc_degree cf))) - int (length new)) b,
             as @ new, ds @ replicate (length new) (pc_latency cf)))"
  using assms
proof (induction cf s a d as ds b rule: degree_loop.induct)
  case (1 cf s a d as ds b)
  show ?case
  proof (cases "d \<le> pc_degree cf")
    case False
    then have "stride_stream a s d (pc_degree cf) = []" by (simp add: stride_stream_rec)
    with False show ?thesis by (simp add: degree_loop.simps page_cut_def span_page_0)
  next
    case True
    define x where "x = a + word_of_int (d * s)"
    have m: "int_mul d s = Inr (d * s)" using 1(2) [of d] True by (simp add: int_mul_def)
    have st: "stride_stream a s d (pc_degree cf) = x # stride_stream a s (d + 1) (pc_degree cf)"
      using True by (subst stride_stream_rec) (simp add: x_def)
    show ?thesis
    proof (cases "pf_pageStop b \<and> \<not> samePage a x")
      case cut: True
      have "int (Suc (length (stride_stream a s (d + 1) (pc_degree cf)))) = pc_degree cf - d + 1"
        using True by (simp add: stride_stream_length)
      then show ?thesis unfolding st page_cut_Cons using cut True m
        by (subst degree_loop.simps) (simp add: x_def span_page_def Let_def algebra_simps)
    next
      case False
      have "degree_loop cf s a d as ds b =
          degree_loop cf s a (d + 1) (as @ [x]) (ds @ [pc_latency cf]) b"
        using False True m by (subst degree_loop.simps) (auto simp: x_def Let_def)
      then show ?thesis unfolding st page_cut_Cons
        using 1(1) [OF True, of x "d * s"] 1(2) False x_def by (auto simp: Let_def)
    qed
  qed
qed

section \<open>The prefetchers meet the contract of the queue\<close>

lemma pf_inv_blkSize:
  assumes "pf_inv b"
  obtains k where "k < 31" "pf_blkSize b = 2 ^ k"
  using assms by (auto simp: pf_inv_def)

lemma same_queue_refl: "same_queue b b"
  by (simp add: same_queue_def)

lemma seq_calc_eq:
  assumes "getAddr pkt = Inr a"
  shows "seq_calculatePrefetch ops cache cf b e pkt =
    (let next_addr = (a AND NOT (word_of_int (pf_blkSize b - 1))) + word_of_int (pf_blkSize b);
         new = (if (pc_useContextId cf \<and> \<not> req_hasContextId (p_req pkt)) \<or>
                   req_isPrefetch (p_req pkt) \<or> co_inCache ops cache next_addr then [] else [next_addr])
     in Inr (b, e, new, replicate (length new) (pc_latency cf)))"
  using assms by (simp add: seq_calculatePrefetch_def Let_def)

interpretation seq: prefetch_engine "seq_calculatePrefetch ops cache cf" "\<lambda>_. True" "\<lambda>_ _. True"
  for ops :: "'c cache_ops" and cache :: 'c and cf
proof
  fix b e pkt a
  assume "pf_inv b" and a: "getAddr pkt = Inr a"
  from pf_inv_blkSize [OF this(1)] obtain k where k: "pf_blkSize b = 2 ^ k" by metis
  have "blk_aligned (2 ^ k) ((a AND NOT (word_of_int (2 ^ k - 1))) + word_of_int (2 ^ k))"
    using blk_aligned_align [of k a] by (simp add: blk_aligned_iff)
  then show "\<exists>b' e' as ds. seq_calculatePrefetch ops cache cf b e pkt = Inr (b', e', as, ds) \<and>
      same_queue b b' \<and> True \<and> length as = length ds \<and> (\<forall>x \<in> set as. blk_aligned (pf_blkSize b) x)"
    using k by (auto simp: seq_calc_eq [OF a] Let_def same_queue_refl)
qed simp

lemma multiples_bound:
  fixes s :: int
  assumes "\<bar>s\<bar> < 2 ^ 28" and "1 \<le> k" and "k \<le> 7"
  shows "- (2 ^ 31) \<le> k * s \<and> k * s < 2 ^ 31"
proof -
  have "\<bar>k * s\<bar> = k * \<bar>s\<bar>" using assms(2) by (simp add: abs_mult)
  also have "\<dots> \<le> 7 * 2 ^ 28" using assms by (intro mult_mono) auto
  finally show ?thesis by auto
qed

lemma stride_bound:
  assumes "(a :: 64 word) < 2 ^ 28" and "b < 2 ^ 28"
  shows "\<bar>sint (ucast (a - b) :: 32 word)\<bar> < 2 ^ 28"
proof -
  have "uint a < 268435456" "uint b < 268435456"
    using assms by (simp_all add: word_less_def)
  then have diff: "- 268435456 < uint a - uint b" "uint a - uint b < 268435456"
    using uint_ge_0 [of a] uint_ge_0 [of b] by linarith+
  have "uint (a - b) = take_bit 64 (uint a - uint b)"
    by (simp add: uint_word_ariths(2) take_bit_eq_mod)
  then have "sint (ucast (a - b) :: 32 word) = signed_take_bit 31 (uint a - uint b)"
    by (simp add: sint_uint unsigned_ucast_eq signed_take_bit_take_bit)
  also have "\<dots> = uint a - uint b"
    using diff by (intro signed_take_bit_int_eq_self) simp_all
  finally show ?thesis using diff by (simp add: abs_if)
qed

definition tagged_blocks :: "pf_conf \<Rightarrow> base_pf \<Rightarrow> Packet \<Rightarrow> Addr \<Rightarrow> Addr list" where
  "tagged_blocks cf b pkt blk =
     (if pc_useContextId cf \<and> \<not> req_hasContextId (p_req pkt) then []
      else page_cut (pf_pageStop b) blk (stride_stream blk (pf_blkSize b) 1 (pc_degree cf)))"

lemma tagged_calc_eq:
  assumes "getAddr pkt = Inr a" and "0 \<le> pf_blkSize b" and "pc_degree cf * pf_blkSize b < 2 ^ 31"
  obtains n where "tagged_calculatePrefetch cf b e pkt =
    (let new = tagged_blocks cf b pkt (a AND NOT (word_of_int (pf_blkSize b - 1)))
     in Inr (span_page n b, e, new, replicate (length new) (pc_latency cf)))"
proof (cases "pc_useContextId cf \<and> \<not> req_hasContextId (p_req pkt)")
  case True
  with assms show thesis
    by (intro that [of 0]) (simp add: tagged_calculatePrefetch_def tagged_blocks_def span_page_0)
next
  case False
  have bound: "- (2 ^ 31) \<le> k * pf_blkSize b \<and> k * pf_blkSize b < 2 ^ 31"
    if "1 \<le> k" "k \<le> pc_degree cf" for k
    using that assms(2,3) mult_right_mono [of k "pc_degree cf" "pf_blkSize b"]
      mult_nonneg_nonneg [of k "pf_blkSize b"] by linarith
  note spec = degree_loop_spec [where s = "pf_blkSize b" and cf = cf and d = 1, OF bound]
  show thesis
    using False assms(1)
    by (intro that) (auto simp: tagged_calculatePrefetch_def tagged_blocks_def spec Let_def)
qed


interpretation tagged: prefetch_engine "tagged_calculatePrefetch cf" "\<lambda>_. True"
  "\<lambda>b _. pc_degree cf * pf_blkSize b < 2 ^ 31" for cf
proof
  fix b e pkt a
  assume b: "pf_inv b" and deg: "pc_degree cf * pf_blkSize b < 2 ^ 31" and a: "getAddr pkt = Inr a"
  from pf_inv_blkSize [OF b] obtain k where k: "pf_blkSize b = 2 ^ k" by metis
  define blk where "blk = a AND NOT (word_of_int (pf_blkSize b - 1))"
  have blk: "2 ^ k dvd blk" using blk_aligned_align [of k a] by (simp add: blk_aligned_iff k blk_def)
  from tagged_calc_eq [OF a _ deg] k obtain n where n: "tagged_calculatePrefetch cf b e pkt =
    (let new = tagged_blocks cf b pkt blk
     in Inr (span_page n b, e, new, replicate (length new) (pc_latency cf)))"
    by (metis blk_def zero_le_power zero_le_numeral)
  have "blk_aligned (pf_blkSize b) x" if "x \<in> set (tagged_blocks cf b pkt blk)" for x
    using that stride_multiple_aligned [OF blk, of "2 ^ k"]
    by (auto simp: tagged_blocks_def stride_stream_def k split: if_splits
        dest!: subsetD [OF page_cut_subset])
  then show "\<exists>b' e' as ds. tagged_calculatePrefetch cf b e pkt = Inr (b', e', as, ds) \<and>
      same_queue b b' \<and> True \<and> length as = length ds \<and> (\<forall>x \<in> set as. blk_aligned (pf_blkSize b) x)"
    unfolding n by (simp add: Let_def span_page_same)
qed simp

text \<open>
  The strides of the global-history and stride prefetchers do not overflow an \<open>int\<close> when
  addresses are those of the simulated memory and the degree is at most 7.
\<close>

definition pf_addr_ok :: "int \<Rightarrow> Addr \<Rightarrow> bool" where
  "pf_addr_ok bs a \<longleftrightarrow> blk_aligned bs a \<and> a < 2 ^ 28"

definition ctx_pre :: "pf_conf \<Rightarrow> int \<Rightarrow> base_pf \<Rightarrow> Packet \<Rightarrow> bool" where
  "ctx_pre cf bs b pkt \<longleftrightarrow> pf_blkSize b = bs \<and> pc_degree cf \<le> 7 \<and> p_addr pkt < 2 ^ 28 \<and>
     (pc_useContextId cf \<and> req_hasContextId (p_req pkt) \<longrightarrow> is_ok (pf_ctx_id cf pkt))"

lemma pf_ctx_id_less: "pf_ctx_id cf pkt = Inr c \<Longrightarrow> nat c < 64"
  by (auto simp: pf_ctx_id_def res_simps Max_Contexts_def split: if_splits)

lemma ctx_pre_ctx:
  assumes "ctx_pre cf bs b pkt" and "\<not> (pc_useContextId cf \<and> \<not> req_hasContextId (p_req pkt))"
  obtains c where "pf_ctx_id cf pkt = Inr c" "nat c < 64"
proof -
  have "is_ok (pf_ctx_id cf pkt)"
    using assms by (cases "pc_useContextId cf") (auto simp: ctx_pre_def pf_ctx_id_def Max_Contexts_def)
  then show thesis using that pf_ctx_id_less by (auto simp: is_ok_iff)
qed

lemma pf_addr_ok_align:
  assumes "a < 2 ^ 28"
  shows "pf_addr_ok (2 ^ k) (a AND NOT (word_of_int (2 ^ k - 1)))"
  using assms blk_aligned_align [of k a] word_and_le2 [of a "NOT (word_of_int (2 ^ k - 1))"]
  by (simp add: pf_addr_ok_def order.strict_trans1)

lemma stride_loop_ok:
  assumes "pf_addr_ok (2 ^ k) a" and "pf_addr_ok (2 ^ k) m" and "k < 31" and "pc_degree cf \<le> 7"
  obtains n new where
    "degree_loop cf (sint (ucast (a - m) :: 32 word)) a 1 [] [] b =
      Inr (span_page n b, new, replicate (length new) (pc_latency cf))"
    "new = page_cut (pf_pageStop b) a
      (stride_stream a (sint (ucast (a - m) :: 32 word)) 1 (pc_degree cf))"
    "\<forall>x \<in> set new. blk_aligned (2 ^ k) x"
proof -
  let ?s = "sint (ucast (a - m) :: 32 word)"
  have am: "2 ^ k dvd a" "2 ^ k dvd m" "a < 2 ^ 28" "m < 2 ^ 28"
    using assms(1,2) by (simp_all add: pf_addr_ok_def blk_aligned_iff)
  have bound: "- (2 ^ 31) \<le> j * ?s \<and> j * ?s < 2 ^ 31" if "1 \<le> j" "j \<le> pc_degree cf" for j
    using multiples_bound [OF stride_bound [OF am(3,4)] that(1)] that(2) assms(4) by linarith
  have "2 ^ k dvd ?s" by (intro stride_dvd dvd_diff am assms(3))
  then have al: "\<forall>x \<in> set (page_cut (pf_pageStop b) a (stride_stream a ?s 1 (pc_degree cf))).
      blk_aligned (2 ^ k) x"
    using stride_stream_aligned [OF am(1)] page_cut_subset by blast
  show thesis
    by (rule that [OF _ refl al]) (simp add: degree_loop_spec [where d = 1, OF bound] Let_def)
qed


definition ghb_inv :: "int \<Rightarrow> ghb_pf \<Rightarrow> bool" where
  "ghb_inv bs g \<longleftrightarrow> length (lastMissAddr g) = 64 \<and> length (secondLastMissAddr g) = 64 \<and>
     (\<forall>a \<in> set (lastMissAddr g). pf_addr_ok bs a)"

lemma pf_addr_ok_update:
  assumes "\<forall>a \<in> set xs. pf_addr_ok bs a" and "pf_addr_ok bs x"
  shows "\<forall>a \<in> set (xs[i := x]). pf_addr_ok bs a"
  using assms set_update_subset_insert by fastforce

lemma ghb_calc_eq:
  assumes "\<not> (pc_useContextId cf \<and> \<not> req_hasContextId (p_req pkt))" and "getAddr pkt = Inr a"
    and "pf_ctx_id cf pkt = Inr c" and "blk = a AND NOT (word_of_int (pf_blkSize b - 1))"
    and "m = lastMissAddr g ! nat c"
    and "g' = g\<lparr>secondLastMissAddr := (secondLastMissAddr g)[nat c := m],
                 lastMissAddr := (lastMissAddr g)[nat c := blk]\<rparr>"
  shows "ghb_calculatePrefetch cf b g pkt =
    (if (ucast (blk - m) :: 32 word) = ucast (m - secondLastMissAddr g ! nat c)
     then bind_res (degree_loop cf (sint (ucast (blk - m) :: 32 word)) blk 1 [] [] b)
            (\<lambda>(b, as, ds). Inr (b, g', as, ds))
     else Inr (b, g', [], []))"
  by (simp only: ghb_calculatePrefetch_def Let_def bind_res.simps if_False assms)

interpretation ghb: prefetch_engine "ghb_calculatePrefetch cf" "ghb_inv bs" "ctx_pre cf bs" for cf bs
proof
  fix b g pkt a
  assume b: "pf_inv b" and g: "ghb_inv bs g" and pre: "ctx_pre cf bs b pkt" and a: "getAddr pkt = Inr a"
  from pf_inv_blkSize [OF b] obtain k where k: "k < 31" "pf_blkSize b = 2 ^ k" by metis
  have bs: "bs = 2 ^ k" and deg: "pc_degree cf \<le> 7" and lt: "a < 2 ^ 28"
    using pre k a by (auto simp: ctx_pre_def getAddr_def res_simps)
  define blk where "blk = a AND NOT (word_of_int (2 ^ k - 1))"
  have blk: "pf_addr_ok (2 ^ k) blk" unfolding blk_def by (rule pf_addr_ok_align [OF lt])
  show "\<exists>b' g' as ds. ghb_calculatePrefetch cf b g pkt = Inr (b', g', as, ds) \<and>
      same_queue b b' \<and> ghb_inv bs g' \<and> length as = length ds \<and> (\<forall>x \<in> set as. blk_aligned (pf_blkSize b) x)"
  proof (cases "pc_useContextId cf \<and> \<not> req_hasContextId (p_req pkt)")
    case True
    then show ?thesis using g by (simp add: ghb_calculatePrefetch_def same_queue_refl)
  next
    case False
    from ctx_pre_ctx [OF pre this] obtain c where c: "pf_ctx_id cf pkt = Inr c" "nat c < 64" by blast
    define m where "m = lastMissAddr g ! nat c"
    define g' where "g' = g\<lparr>secondLastMissAddr := (secondLastMissAddr g)[nat c := m],
      lastMissAddr := (lastMissAddr g)[nat c := blk]\<rparr>"
    have m: "pf_addr_ok (2 ^ k) m" using g c(2) by (simp add: ghb_inv_def m_def bs)
    have g': "ghb_inv bs g'"
      using g pf_addr_ok_update [of "lastMissAddr g", OF _ blk] by (simp add: ghb_inv_def g'_def bs)
    obtain n new where loop:
      "degree_loop cf (sint (ucast (blk - m) :: 32 word)) blk 1 [] [] b =
        Inr (span_page n b, new, replicate (length new) (pc_latency cf))"
      "\<forall>x \<in> set new. blk_aligned (2 ^ k) x"
      by (rule stride_loop_ok [OF blk m k(1) deg, of b]) blast
    have "ghb_calculatePrefetch cf b g pkt =
        (if (ucast (blk - m) :: 32 word) = ucast (m - secondLastMissAddr g ! nat c)
         then Inr (span_page n b, g', new, replicate (length new) (pc_latency cf))
         else Inr (b, g', [], []))"
      unfolding ghb_calc_eq [OF False a c(1) blk_def [folded k(2)] m_def g'_def] loop(1) by simp
    then show ?thesis
      using g' loop(2) k(2) by (simp add: same_queue_refl span_page_same)
  qed
qed (simp add: ctx_pre_def)

definition stride_entry_ok :: "int \<Rightarrow> StrideEntry \<Rightarrow> bool" where
  "stride_entry_ok bs x \<longleftrightarrow> pf_addr_ok bs (se_missAddr x) \<and> 0 \<le> se_confidence x \<and>
     se_confidence x \<le> Max_Conf"

definition stride_tab_ok :: "int \<Rightarrow> StrideEntry list \<Rightarrow> bool" where
  "stride_tab_ok bs tab \<longleftrightarrow> length tab \<le> 256 \<and> distinct (map se_instAddr tab) \<and>
     (\<forall>x \<in> set tab. stride_entry_ok bs x)"

definition stride_inv :: "int \<Rightarrow> stride_pf \<Rightarrow> bool" where
  "stride_inv bs table \<longleftrightarrow> length table = 64 \<and> (\<forall>tab \<in> set table. stride_tab_ok bs tab)"

lemma stride_find_Some:
  "stride_find pc tab = Some i \<Longrightarrow> i < length tab \<and> se_instAddr (tab ! i) = pc"
  by (induction tab arbitrary: i) (auto split: if_splits)

lemma stride_find_None: "stride_find pc tab = None \<longleftrightarrow> pc \<notin> se_instAddr ` set tab"
  by (induction tab) (auto split: if_splits)

lemma stride_hit_ok:
  assumes "stride_entry_ok bs x" and "pf_addr_ok bs a"
  shows "stride_entry_ok bs (stride_hit s a x)" "se_instAddr (stride_hit s a x) = se_instAddr x"
  using assms by (auto simp: stride_entry_ok_def stride_hit_def Max_Conf_def Let_def)

lemma stride_tab_update:
  assumes "stride_tab_ok bs tab" and "i < length tab" and "stride_entry_ok bs x"
    and "se_instAddr x = se_instAddr (tab ! i)"
  shows "stride_tab_ok bs (tab[i := x])"
proof -
  have "map se_instAddr (tab[i := x]) = map se_instAddr tab"
    using assms(2,4) by (simp add: map_update list_update_same_conv)
  then show ?thesis using assms set_update_subset_insert [of tab i x]
    by (auto simp: stride_tab_ok_def)
qed

text \<open>The position found is the first one of least confidence.\<close>

definition first_min :: "StrideEntry list \<Rightarrow> nat \<Rightarrow> bool" where
  "first_min xs p \<longleftrightarrow> p < length xs \<and> (\<forall>j < p. se_confidence (xs ! p) < se_confidence (xs ! j)) \<and>
     (\<forall>j < length xs. se_confidence (xs ! p) \<le> se_confidence (xs ! j))"

lemma first_min_snoc:
  assumes "first_min xs p"
  shows "first_min (xs @ [x]) (if se_confidence x < se_confidence (xs ! p) then length xs else p)"
  using assms by (auto simp: first_min_def nth_append less_Suc_eq intro: order.strict_trans1 order.trans)

lemma min_conf_pos_first_min:
  "first_min xs p \<Longrightarrow> first_min (xs @ ys) (min_conf_pos ys (length xs) p (se_confidence (xs ! p)))"
proof (induction ys arbitrary: xs p)
  case (Cons y ys)
  have p: "p < length xs" using Cons.prems by (simp add: first_min_def)
  show ?case
    using Cons.IH [OF first_min_snoc [OF Cons.prems, of y]] p
    by (auto simp: nth_append split: if_splits)
qed simp

lemma first_min_hd: "first_min (x # xs) (min_conf_pos xs 1 0 (se_confidence x))"
  using min_conf_pos_first_min [of "[x]" 0 xs] by (simp add: first_min_def)

lemma stride_evict_full:
  assumes "length tab \<ge> 256"
  obtains p where "stride_evict tab = erase_at p tab" "first_min tab p"
  using assms first_min_hd by (cases tab) (auto simp: stride_evict_def)

lemma stride_evict_ok:
  assumes "stride_tab_ok bs tab"
  shows "length (stride_evict tab) < 256 \<and> distinct (map se_instAddr (stride_evict tab)) \<and>
    set (stride_evict tab) \<subseteq> set tab"
proof (cases "length tab \<ge> 256")
  case False
  with assms show ?thesis by (simp add: stride_evict_def stride_tab_ok_def)
next
  case True
  from stride_evict_full [OF this] obtain p where p: "stride_evict tab = erase_at p tab" "first_min tab p" .
  have len: "p < length tab" "length tab \<le> 256"
    using p(2) assms by (simp_all add: first_min_def stride_tab_ok_def)
  have d: "distinct (map se_instAddr tab)" using assms by (simp add: stride_tab_ok_def)
  have "distinct (erase_at p (map se_instAddr tab))"
    using erase_at_distinct [OF d, of p] d len(1) by (simp add: distinct_removeAll)
  moreover have "length (erase_at p tab) < 256" using len by (simp add: erase_at_def)
  ultimately show ?thesis using p(1) erase_at_subset(1) [of p tab] by (simp add: map_erase_at)
qed


definition stride_step ::
  "pf_conf \<Rightarrow> base_pf \<Rightarrow> Addr \<Rightarrow> Addr \<Rightarrow> StrideEntry list \<Rightarrow>
    (base_pf \<times> StrideEntry list \<times> Addr list \<times> Tick list) res" where
  "stride_step cf b pc blk tab =
     (case stride_find pc tab of
        Some i \<Rightarrow>
          let new_stride = (ucast (blk - se_missAddr (tab ! i)) :: 32 word);
              x = stride_hit new_stride blk (tab ! i);
              tab = tab[i := x]
          in if se_confidence x \<le> 0 then Inr (b, tab, [], [])
             else bind_res (degree_loop cf (sint new_stride) blk 1 [] [] b)
                    (\<lambda>(b, as, ds). Inr (b, tab, as, ds))
      | None \<Rightarrow>
          Inr (b, stride_evict tab @ [\<lparr>se_instAddr = pc, se_missAddr = blk, se_stride = 0,
                                        se_confidence = 0\<rparr>], [], []))"

lemma stride_calc_eq:
  assumes "req_hasPC (p_req pkt)" and "\<not> (pc_useContextId cf \<and> \<not> req_hasContextId (p_req pkt))"
    and "getAddr pkt = Inr a" and "pf_ctx_id cf pkt = Inr c"
    and "blk = a AND NOT (word_of_int (pf_blkSize b - 1))"
  shows "stride_calculatePrefetch cf b table pkt =
    bind_res (stride_step cf b (r_pc (p_req pkt)) blk (table ! nat c))
      (\<lambda>(b, tab, as, ds). Inr (b, table[nat c := tab], as, ds))"
proof -
  have pc: "req_getPC (p_req pkt) = Inr (r_pc (p_req pkt))"
    using assms(1) by (simp add: req_getPC_def req_hasPC_def)
  have bind: "bind_res (bind_res m f) g = bind_res m (\<lambda>x. bind_res (f x) g)"
    for m :: "'x res" and f :: "'x \<Rightarrow> 'y res" and g :: "'y \<Rightarrow> 'z res"
    by (cases m) simp_all
  show ?thesis
    unfolding stride_calculatePrefetch_def stride_step_def Let_def
    by (simp add: assms pc bind split_def split: option.split)
qed

lemma stride_step_ok:
  assumes "stride_tab_ok (2 ^ k) tab" and "pf_addr_ok (2 ^ k) blk" and "k < 31" and "pc_degree cf \<le> 7"
  shows "\<exists>b' tab' as ds. stride_step cf b pc blk tab = Inr (b', tab', as, ds) \<and> same_queue b b' \<and>
    stride_tab_ok (2 ^ k) tab' \<and> length as = length ds \<and> (\<forall>x \<in> set as. blk_aligned (2 ^ k) x)"
proof (cases "stride_find pc tab")
  case None
  let ?x = "\<lparr>se_instAddr = pc, se_missAddr = blk, se_stride = 0, se_confidence = 0\<rparr>"
  have "stride_tab_ok (2 ^ k) (stride_evict tab @ [?x])"
    using stride_evict_ok [OF assms(1)] assms(1,2) None
    by (auto simp: stride_tab_ok_def stride_entry_ok_def Max_Conf_def stride_find_None)
  with None show ?thesis by (simp add: stride_step_def same_queue_refl)
next
  case (Some i)
  define m where "m = se_missAddr (tab ! i)"
  define x where "x = stride_hit (ucast (blk - m)) blk (tab ! i)"
  have i: "i < length tab" "stride_entry_ok (2 ^ k) (tab ! i)"
    using stride_find_Some [OF Some] assms(1) by (simp_all add: stride_tab_ok_def)
  have m: "pf_addr_ok (2 ^ k) m" using i by (simp add: stride_entry_ok_def m_def)
  have tab: "stride_tab_ok (2 ^ k) (tab[i := x])"
    unfolding x_def using stride_hit_ok [OF i(2) assms(2)] by (intro stride_tab_update assms(1) i(1)) auto
  obtain n new where loop:
    "degree_loop cf (sint (ucast (blk - m) :: 32 word)) blk 1 [] [] b =
      Inr (span_page n b, new, replicate (length new) (pc_latency cf))"
    "\<forall>x \<in> set new. blk_aligned (2 ^ k) x"
    by (rule stride_loop_ok [OF assms(2) m assms(3,4), of b]) blast
  have "stride_step cf b pc blk tab =
      (if se_confidence x \<le> 0 then Inr (b, tab[i := x], [], [])
       else Inr (span_page n b, tab[i := x], new, replicate (length new) (pc_latency cf)))"
    unfolding stride_step_def using Some loop(1) by (simp add: Let_def m_def x_def)
  then show ?thesis using tab loop(2) by (simp add: same_queue_refl span_page_same)
qed

interpretation stride: prefetch_engine "stride_calculatePrefetch cf" "stride_inv bs" "ctx_pre cf bs" for cf bs
proof
  fix b table pkt a
  assume b: "pf_inv b" and t: "stride_inv bs table" and pre: "ctx_pre cf bs b pkt"
    and a: "getAddr pkt = Inr a"
  from pf_inv_blkSize [OF b] obtain k where k: "k < 31" "pf_blkSize b = 2 ^ k" by metis
  have bs: "bs = 2 ^ k" and deg: "pc_degree cf \<le> 7" and lt: "a < 2 ^ 28"
    using pre k a by (auto simp: ctx_pre_def getAddr_def res_simps)
  define blk where "blk = a AND NOT (word_of_int (2 ^ k - 1))"
  have blk: "pf_addr_ok (2 ^ k) blk" unfolding blk_def by (rule pf_addr_ok_align [OF lt])
  show "\<exists>b' table' as ds. stride_calculatePrefetch cf b table pkt = Inr (b', table', as, ds) \<and>
      same_queue b b' \<and> stride_inv bs table' \<and> length as = length ds \<and>
      (\<forall>x \<in> set as. blk_aligned (pf_blkSize b) x)"
  proof (cases "req_hasPC (p_req pkt) \<and> \<not> (pc_useContextId cf \<and> \<not> req_hasContextId (p_req pkt))")
    case False
    then have "stride_calculatePrefetch cf b table pkt = Inr (b, table, [], [])"
      by (auto simp: stride_calculatePrefetch_def)
    then show ?thesis using t by (simp add: same_queue_refl)
  next
    case True
    from ctx_pre_ctx [OF pre conjunct2 [OF True]] obtain c where c: "pf_ctx_id cf pkt = Inr c" "nat c < 64"
      by blast
    have "stride_tab_ok (2 ^ k) (table ! nat c)" using t c(2) by (simp add: stride_inv_def bs)
    from stride_step_ok [OF this blk k(1) deg, of b "r_pc (p_req pkt)"]
    obtain b' tab as ds where st: "stride_step cf b (r_pc (p_req pkt)) blk (table ! nat c) = Inr (b', tab, as, ds)"
      "same_queue b b'" "stride_tab_ok (2 ^ k) tab" "length as = length ds" "\<forall>x \<in> set as. blk_aligned (2 ^ k) x"
      by blast
    have "stride_calculatePrefetch cf b table pkt = Inr (b', table[nat c := tab], as, ds)"
      unfolding stride_calc_eq [OF conjunct1 [OF True] conjunct2 [OF True] a c(1) blk_def [folded k(2)]]
      by (simp add: st(1))
    moreover have "stride_inv bs (table[nat c := tab])"
      using t st(3) bs by (auto simp: stride_inv_def dest!: subsetD [OF set_update_subset_insert])
    ultimately show ?thesis using st k(2) by simp
  qed
qed (simp add: ctx_pre_def)


text \<open>
  The interface prefetcher passes the addresses of its client on unchanged, so it meets
  the contract only for block-aligned accesses.
\<close>

definition if_inv :: "int \<Rightarrow> if_pf \<Rightarrow> bool" where
  "if_inv bs f \<longleftrightarrow> if_prefetcher f \<in> {None, Some bs}"

lemma outer_loop_ok:
  assumes "\<forall>i \<in> set is. - (2 ^ 31) \<le> bs * i \<and> bs * i < 2 ^ 31" and "if_lists f = Some (as, ds)"
  shows "outer_loop cf a bs is f =
    Inr (f\<lparr>if_lists := Some (as @ map (\<lambda>i. a + word_of_int (bs * i)) is,
                              ds @ replicate (length is) (pc_latency cf))\<rparr>)"
  using assms
proof (induction "is" arbitrary: f as ds)
  case (Cons i rest)
  let ?f = "f\<lparr>if_lists := Some (as @ [a + word_of_int (bs * i)], ds @ [pc_latency cf])\<rparr>"
  have "outer_loop cf a bs (i # rest) f = outer_loop cf a bs rest ?f"
    using Cons.prems by (simp add: int_mul_def if_queuePrefetch_def)
  also have "\<dots> = Inr (f\<lparr>if_lists := Some (as @ map (\<lambda>i. a + word_of_int (bs * i)) (i # rest),
      ds @ replicate (length (i # rest)) (pc_latency cf))\<rparr>)"
    using Cons.IH [of ?f "as @ [a + word_of_int (bs * i)]" "ds @ [pc_latency cf]"] Cons.prems(1) by simp
  finally show ?case .
qed simp

interpretation outer: prefetch_engine "if_calculatePrefetch ops cache cf" "if_inv bs"
  "\<lambda>b pkt. pf_blkSize b = bs \<and> bs \<le> 2 ^ 20 \<and> blk_aligned bs (p_addr pkt)"
  for ops :: "'c cache_ops" and cache :: 'c and cf bs
proof
  fix b f pkt a
  assume b: "pf_inv b" and f: "if_inv bs f"
    and pre: "pf_blkSize b = bs \<and> bs \<le> 2 ^ 20 \<and> blk_aligned bs (p_addr pkt)"
    and a: "getAddr pkt = Inr a"
  from pf_inv_blkSize [OF b] pre obtain k where k: "pf_blkSize b = 2 ^ k" "bs = 2 ^ k" by metis
  have al: "2 ^ k dvd a" using a pre k by (auto simp: getAddr_def res_simps blk_aligned_iff)
  have rng: "\<forall>i \<in> set [1..8]. - (2 ^ 31) \<le> bs * i \<and> bs * i < 2 ^ 31"
  proof
    fix i :: int assume "i \<in> set [1..8]"
    then have i: "0 \<le> i" "i \<le> 8" "0 \<le> bs" using k(2) by simp_all
    then have "0 \<le> bs * i" by simp
    moreover have "bs * i \<le> 2 ^ 20 * 8" using i pre by (intro mult_mono) simp_all
    ultimately show "- (2 ^ 31) \<le> bs * i \<and> bs * i < 2 ^ 31" by simp
  qed
  show "\<exists>b' f' as ds. if_calculatePrefetch ops cache cf b f pkt = Inr (b', f', as, ds) \<and>
      same_queue b b' \<and> if_inv bs f' \<and> length as = length ds \<and> (\<forall>x \<in> set as. blk_aligned (pf_blkSize b) x)"
  proof (cases "(pc_useContextId cf \<and> \<not> req_hasContextId (p_req pkt)) \<or> \<not> req_hasPC (p_req pkt)")
    case True
    then have "if_calculatePrefetch ops cache cf b f pkt = Inr (b, f, [], [])"
      by (auto simp: if_calculatePrefetch_def)
    then show ?thesis using f by (simp add: same_queue_refl)
  next
    case False
    define new where "new = (if co_inCache ops cache a then [] else map (\<lambda>i. a + word_of_int (bs * i)) [1..8])"
    have bs: "(case if_prefetcher f of None \<Rightarrow> pf_blkSize b | Some n \<Rightarrow> n) = bs"
      using f pre by (auto simp: if_inv_def)
    have "if_calculatePrefetch ops cache cf b f pkt =
        Inr (b, f\<lparr>if_prefetcher := Some bs, if_lists := None\<rparr>, new, replicate (length new) (pc_latency cf))"
      unfolding if_calculatePrefetch_def bs Let_def using False a
      by (auto simp: outer_notify_def outer_loop_ok [OF rng] new_def req_getPC_def req_hasPC_def
          simp del: of_int_mult upto.simps)
    moreover have "blk_aligned bs x" if "x \<in> set new" for x
      using that stride_multiple_aligned [OF al, of bs] k(2)
      by (auto simp: new_def mult.commute simp del: of_int_mult split: if_splits)
    ultimately show ?thesis using pre by (simp add: same_queue_refl if_inv_def)
  qed
qed simp

section \<open>Properties\<close>

text \<open>
  C5: Notifying the queue of a cacheable access through the tagged prefetcher always
  succeeds, keeps the queue well formed (no duplicate and no unaligned entry, at most
  \<open>size\<close> entries), and leaves exactly this queue: the accessed block is taken out, then
  the next \<open>degree\<close> blocks, cut at the page boundary when \<open>pageStop\<close> is set, are appended
  in order, each unless it is queued already, the oldest entry making room when the queue
  is full.
\<close>

theorem tagged_notify_queue:
  assumes "pf_inv b" and "getAddr pkt = Inr a" and "ctx_ok pkt" and "\<not> pf_serialSquash b"
    and "\<not> pf_onlyData b" and "\<not> req_isUncacheable (p_req pkt)"
    and "pc_degree cf * pf_blkSize b < 2 ^ 31"
  shows "\<exists>r b'. notify (tagged_calculatePrefetch cf) now pkt tm b () = Inr (r, b', ()) \<and> pf_inv b' \<and>
    pf_queue b' =
      (let blk = a AND NOT (word_of_int (pf_blkSize b - 1))
       in fold (enqueue (pf_size b)) (tagged_blocks cf b pkt blk) (removeAll blk (pf_queue b)))"
proof -
  let ?blk = "a AND NOT (word_of_int (pf_blkSize b - 1))"
  obtain as ds b1 b2 e' r b' where n:
    "same_queue (b\<lparr>pf := pf b1\<rparr>) b1" "pf_queue b1 = removeAll ?blk (pf_queue b)"
    "tagged_calculatePrefetch cf b1 () pkt = Inr (b2, e', as, ds)"
    "notify (tagged_calculatePrefetch cf) now pkt tm b () = Inr (r, b', e')" "pf_inv b'"
    "pf_queue b' = fold (enqueue (pf_size b)) as (pf_queue b1)"
    by (rule tagged.notify_refines [where e = "()" and t = now and tm = tm,
          OF assms(1) TrueI assms(7,2,3,4,6,5)]) blast
  have b1: "pf_blkSize b1 = pf_blkSize b" "pf_pageStop b1 = pf_pageStop b"
    using n(1) by (simp_all add: same_queue_def)
  have "0 \<le> pf_blkSize b1" "pc_degree cf * pf_blkSize b1 < 2 ^ 31"
    using assms(1,7) b1 by (auto simp: pf_inv_def)
  then have "as = tagged_blocks cf b1 pkt ?blk"
    by (rule tagged_calc_eq [OF assms(2), where e = "()"]) (use n(3) b1 in \<open>simp add: Let_def\<close>)
  then show ?thesis using n b1 by (simp add: tagged_blocks_def Let_def)
qed


text \<open>A read of the word at \<open>a\<close> by the instruction at \<open>pc\<close>, and an empty queue of four.\<close>

definition demo_pkt :: "Addr \<Rightarrow> Addr \<Rightarrow> Packet" where
  "demo_pkt a pc = Packet_new 0
     (Request_new\<lparr>r_paddr := a, r_size := 8, r_pc := pc,
        r_privateFlags := REQ_VALID_PADDR OR REQ_VALID_SIZE OR REQ_VALID_PC\<rparr>) ReadReq Broadcast"

definition demo_queue :: base_pf where
  "demo_queue = pf_setCache 64 (BasePrefetcher
     \<lparr>prefetcher_size = 4, prefetch_past_page = False, prefetch_serial_squash = False,
      prefetch_data_accesses_only = False, prefetch_degree = 4, prefetch_latency = 10,
      prefetch_use_cpu_id = False\<rparr>)"

definition demo_conf :: pf_conf where
  "demo_conf = \<lparr>pc_latency = 10, pc_degree = 4, pc_useContextId = False\<rparr>"

lemma demo_pkt_simps:
  "getAddr (demo_pkt a pc) = Inr a" "p_addr (demo_pkt a pc) = a" "ctx_ok (demo_pkt a pc)"
  "\<not> req_isUncacheable (p_req (demo_pkt a pc))" "\<not> req_hasContextId (p_req (demo_pkt a pc))"
  "req_hasPC (p_req (demo_pkt a pc))" "r_pc (p_req (demo_pkt a pc)) = pc"
  by (simp_all add: demo_pkt_def Packet_new_def Packet_base_def Let_def getAddr_def Request_new_def
      ctx_ok_def req_accessor_defs req_flag_defs pkt_flag_defs flag_simps flags_set_def)

lemma demo_queue_inv: "pf_inv demo_queue"
  by (auto simp: demo_queue_def pf_setCache_def BasePrefetcher_def pf_inv_def intro: exI [of _ 6])

theorem tagged_notify_queue_witness:
  "\<exists>r b'. notify (tagged_calculatePrefetch demo_conf) 0 (demo_pkt 8000 0) 0 demo_queue () = Inr (r, b', ()) \<and>
     pf_inv b' \<and> pf_queue b' = [8064, 8128]"
proof -
  have b: "pf_blkSize demo_queue = 64" "pf_queue demo_queue = []" "\<not> pf_serialSquash demo_queue"
    "\<not> pf_onlyData demo_queue" "pc_degree demo_conf * pf_blkSize demo_queue < 2 ^ 31" "pf_size demo_queue = 4"
    by (simp_all add: demo_queue_def pf_setCache_def BasePrefetcher_def demo_conf_def pf_queue_def)
  have "tagged_blocks demo_conf demo_queue (demo_pkt 8000 0) 8000 = [8064, 8128]"
    by (simp add: tagged_blocks_def demo_conf_def demo_queue_def pf_setCache_def BasePrefetcher_def
        page_cut_def stride_stream_def upto_rec1 samePage_def roundDown_def VMPageSize_def Let_def)
  then show ?thesis
    using tagged_notify_queue [OF demo_queue_inv demo_pkt_simps(1) [of 8000 0] demo_pkt_simps(3) b(3,4)
        demo_pkt_simps(4) b(5), of 0 0] b
    by (simp add: Let_def enqueue_def)
qed

section \<open>Learning a stride\<close>

definition stride_entry_at :: "stride_pf \<Rightarrow> nat \<Rightarrow> Addr \<Rightarrow> StrideEntry option" where
  "stride_entry_at table c pc = map_option (\<lambda>i. table ! c ! i) (stride_find pc (table ! c))"

lemma stride_find_append_new:
  "stride_find pc tab = None \<Longrightarrow> se_instAddr x = pc \<Longrightarrow> stride_find pc (tab @ [x]) = Some (length tab)"
  by (induction tab) (auto split: if_splits)

lemma stride_find_update:
  "stride_find pc tab = Some i \<Longrightarrow> se_instAddr x = pc \<Longrightarrow> stride_find pc (tab[i := x]) = Some i"
  by (induction tab arbitrary: i) (auto split: if_splits nat.splits)

lemma stride_evict_absent: "stride_find pc tab = None \<Longrightarrow> stride_find pc (stride_evict tab) = None"
proof -
  have "set (stride_evict tab) \<subseteq> set tab"
    using erase_at_subset(1) [of _ tab] by (cases tab) (auto simp: stride_evict_def)
  then show "stride_find pc tab = None \<Longrightarrow> ?thesis" by (auto simp: stride_find_None)
qed

lemma stride_step_miss:
  assumes "stride_find pc tab = None"
  obtains tab' i where "stride_step cf b pc blk tab = Inr (b, tab', [], [])" "stride_find pc tab' = Some i"
    "tab' ! i = \<lparr>se_instAddr = pc, se_missAddr = blk, se_stride = 0, se_confidence = 0\<rparr>"
proof -
  let ?x = "\<lparr>se_instAddr = pc, se_missAddr = blk, se_stride = 0, se_confidence = 0\<rparr>"
  have "stride_find pc (stride_evict tab @ [?x]) = Some (length (stride_evict tab))"
    using stride_evict_absent [OF assms] by (intro stride_find_append_new) simp_all
  then show thesis using assms
    by (intro that [of "stride_evict tab @ [?x]" "length (stride_evict tab)"]) (simp_all add: stride_step_def)
qed

lemma stride_step_hit:
  assumes "stride_find pc tab = Some i" and "s = ucast (blk - se_missAddr (tab ! i))"
  shows "stride_step cf b pc blk tab =
    (let x = stride_hit s blk (tab ! i); tab' = tab[i := x]
     in if se_confidence x \<le> 0 then Inr (b, tab', [], [])
        else bind_res (degree_loop cf (sint s) blk 1 [] [] b) (\<lambda>(b, as, ds). Inr (b, tab', as, ds)))"
  and "stride_find pc (tab[i := stride_hit s blk (tab ! i)]) = Some i"
  using assms stride_find_Some [OF assms(1)]
  by (simp_all add: stride_step_def Let_def stride_find_update stride_hit_def)


text \<open>
  The stride prefetcher learns a stride from three accesses of one instruction.  An
  instruction that is not in the table and reads the blocks \<open>x\<close>, \<open>x + s\<close> and \<open>x + 2s\<close>
  (\<open>s\<close> not zero, all inside the simulated memory) gets no prefetch from the first two
  accesses; the third proposes \<open>x + 3s\<close>, \<open>x + 4s\<close>, ... up to the degree, cut at the page
  boundary when \<open>pageStop\<close> is set.
\<close>

theorem stride_learns:
  assumes table: "nat c < length table" "stride_find pc (table ! nat c) = None"
    and size: "pf_blkSize b = 2 ^ k" "k < 31" and deg: "pc_degree cf \<le> 7"
    and acc: "\<forall>p \<in> {p1, p2, p3}. req_hasPC (p_req p) \<and> r_pc (p_req p) = pc \<and>
      \<not> (pc_useContextId cf \<and> \<not> req_hasContextId (p_req p)) \<and> pf_ctx_id cf p = Inr c"
    and addr: "getAddr p1 = Inr x" "getAddr p2 = Inr (x + s)" "getAddr p3 = Inr (x + 2 * s)"
    and blk: "\<forall>a \<in> {x, x + s, x + 2 * s}. pf_addr_ok (2 ^ k) a" and nz: "(ucast s :: 32 word) \<noteq> 0"
  shows "\<exists>t1 t2 t3 b' ds.
    stride_calculatePrefetch cf b table p1 = Inr (b, t1, [], []) \<and>
    stride_calculatePrefetch cf b t1 p2 = Inr (b, t2, [], []) \<and>
    stride_calculatePrefetch cf b t2 p3 = Inr (b', t3,
      page_cut (pf_pageStop b) (x + 2 * s)
        (stride_stream (x + 2 * s) (sint (ucast s :: 32 word)) 1 (pc_degree cf)), ds)"
proof -
  have al: "a = a AND NOT (word_of_int (pf_blkSize b - 1))" if "a \<in> {x, x + s, x + 2 * s}" for a
    using blk that by (auto simp: size pf_addr_ok_def blk_aligned_def)
  note calc = stride_calc_eq [of p1 cf x c, OF _ _ addr(1) _ al]
    stride_calc_eq [of p2 cf "x + s" c, OF _ _ addr(2) _ al]
    stride_calc_eq [of p3 cf "x + 2 * s" c, OF _ _ addr(3) _ al]
  let ?s = "ucast s :: 32 word"
  obtain tab1 i where 1: "stride_step cf b pc x (table ! nat c) = Inr (b, tab1, [], [])"
    "stride_find pc tab1 = Some i"
    "tab1 ! i = \<lparr>se_instAddr = pc, se_missAddr = x, se_stride = 0, se_confidence = 0\<rparr>"
    by (rule stride_step_miss [OF table(2)])
  have i: "i < length tab1" using stride_find_Some [OF 1(2)] by simp
  define tab2 where "tab2 = tab1[i := stride_hit ?s (x + s) (tab1 ! i)]"
  have x2: "tab2 ! i = \<lparr>se_instAddr = pc, se_missAddr = x + s, se_stride = ?s, se_confidence = 0\<rparr>"
    using i 1(3) nz by (simp add: tab2_def stride_hit_def Min_Conf_def)
  have 2: "stride_step cf b pc (x + s) tab1 = Inr (b, tab2, [], [])" "stride_find pc tab2 = Some i"
    using stride_step_hit [OF 1(2), of ?s "x + s"] 1(3) x2 i
    by (simp_all add: tab2_def Let_def)
  define tab3 where "tab3 = tab2[i := stride_hit ?s (x + 2 * s) (tab2 ! i)]"
  obtain n new where loop: "degree_loop cf (sint ?s) (x + 2 * s) 1 [] [] b =
      Inr (span_page n b, new, replicate (length new) (pc_latency cf))"
    "new = page_cut (pf_pageStop b) (x + 2 * s) (stride_stream (x + 2 * s) (sint ?s) 1 (pc_degree cf))"
    by (rule stride_loop_ok [of k "x + 2 * s" "x + s" cf b]) (use blk size deg in auto)
  have 3: "stride_step cf b pc (x + 2 * s) tab2 =
      Inr (span_page n b, tab3, new, replicate (length new) (pc_latency cf))"
    using stride_step_hit(1) [OF 2(2), of ?s "x + 2 * s"] x2 nz loop(1)
    by (simp add: tab3_def Let_def stride_hit_def Max_Conf_def)
  show ?thesis
    using calc acc 1(1) 2(1) 3 table(1) unfolding loop(2) [symmetric] by auto
qed


theorem stride_learns_witness:
  "\<exists>t1 t2 t3 b' ds.
    stride_calculatePrefetch demo_conf demo_queue (replicate 64 []) (demo_pkt 7680 9) = Inr (demo_queue, t1, [], []) \<and>
    stride_calculatePrefetch demo_conf demo_queue t1 (demo_pkt 7808 9) = Inr (demo_queue, t2, [], []) \<and>
    stride_calculatePrefetch demo_conf demo_queue t2 (demo_pkt 7936 9) = Inr (b', t3, [8064], ds)"
proof -
  have c: "pf_ctx_id demo_conf p = Inr 0" for p
    by (simp add: pf_ctx_id_def demo_conf_def Max_Contexts_def)
  have b: "pf_blkSize demo_queue = 2 ^ 6" "pf_pageStop demo_queue" "pc_degree demo_conf = 4"
    "\<not> pc_useContextId demo_conf"
    by (simp_all add: demo_queue_def pf_setCache_def BasePrefetcher_def demo_conf_def)
  have ok: "\<forall>a \<in> {7680, 7680 + 128, 7680 + 2 * 128}. pf_addr_ok (2 ^ 6) a"
    by (simp add: pf_addr_ok_def blk_aligned_def)
  have new: "page_cut (pf_pageStop demo_queue) 7936 (stride_stream 7936 128 1 4) = [8064]"
    using b(2) by (simp add: page_cut_def stride_stream_def upto_rec1 samePage_def roundDown_def VMPageSize_def Let_def)
  show ?thesis
    using stride_learns [of 0 "replicate 64 []" 9 demo_queue 6 demo_conf "demo_pkt 7680 9" "demo_pkt 7808 9"
        "demo_pkt 7936 9" 7680 128, OF _ _ b(1)] c b(3,4) ok new demo_pkt_simps
    by simp
qed

end
