(* ===== verification/DCPT.thy ===== *)
theory DCPT
  imports Prefetch_Interface
begin

unbundle bit_operations_syntax

text \<open>
  The group's delta-correlating prediction table prefetcher, \<open>prefetcher/prefetcher.cc\<close>.

  A \<open>Delta\<close> is a C \<open>int\<close>, here a 32-bit word read as a signed number: the 64-bit
  difference of two addresses is truncated to it, and adding a delta to an address
  sign-extends it.  The global table is a list of \<open>TABLE_SIZE\<close> entries, the global
  \<open>std::set\<close> \<open>in_flight\<close> a set of block addresses.  Reverse iteration over the deque
  is recursion over the reversed list.
\<close>

section \<open>Constants\<close>

definition NUM_DELTAS :: nat where "NUM_DELTAS = 19"
definition TABLE_SIZE :: Addr where "TABLE_SIZE = 98"
definition DELTA_BITS :: nat where "DELTA_BITS = 12"
definition MAX_DEGREE :: nat where "MAX_DEGREE = NUM_DELTAS"
definition DELTA_MIN :: int where "DELTA_MIN = - (2 ^ (DELTA_BITS - 1))"
definition DELTA_MAX :: int where "DELTA_MAX = 2 ^ (DELTA_BITS - 1) - 1"

lemmas dcpt_consts = NUM_DELTAS_def TABLE_SIZE_def DELTA_BITS_def MAX_DEGREE_def DELTA_MIN_def
  DELTA_MAX_def

section \<open>State\<close>

type_synonym Delta = "32 word"

record Entry =
  e_pc :: Addr
  e_last_address :: Addr
  e_last_prefetch :: Addr
  e_deltas :: "Delta list"

definition Entry_new :: "Addr \<Rightarrow> Addr \<Rightarrow> Entry" where
  "Entry_new pc addr =
     \<lparr>e_pc = pc, e_last_address = addr, e_last_prefetch = 0, e_deltas = []\<rparr>"

definition insert_delta :: "Delta \<Rightarrow> Entry \<Rightarrow> Entry" where
  "insert_delta delta e =
     (if sint delta < DELTA_MIN \<or> sint delta > DELTA_MAX then e
      else (let ds = e_deltas e @ [delta]
            in e\<lparr>e_deltas := if length ds > NUM_DELTAS then tl ds else ds\<rparr>))"

record dcpt =
  table :: "Entry list"
  in_flight :: "Addr set"

definition dcpt_start :: dcpt where
  "dcpt_start = \<lparr>table = replicate (unat TABLE_SIZE) (Entry_new 0 0), in_flight = {}\<rparr>"

definition to_block :: "Addr \<Rightarrow> Addr" where
  "to_block addr = (addr div BLOCK_SIZE) * BLOCK_SIZE"

definition table_index :: "Addr \<Rightarrow> nat" where
  "table_index pc = unat (pc mod TABLE_SIZE)"

definition table_lookup :: "dcpt \<Rightarrow> Addr \<Rightarrow> Entry" where
  "table_lookup d pc = table d ! table_index pc"

section \<open>Delta correlation\<close>

text \<open>The inner loop: replay the deltas from \<open>w\<close> on; result: the last address and the
  candidates pushed.\<close>

fun replay :: "Addr \<Rightarrow> Delta list \<Rightarrow> Addr \<times> Addr list" where
  "replay address [] = (address, [])"
| "replay address (w # ws) =
     (let address = address + scast w;
          (last, cs) = replay address ws
      in (last, address # cs))"

text \<open>The outer loop: the list starts at \<open>*u\<close>, its second element is \<open>*v\<close>.\<close>

fun correlate :: "Delta \<Rightarrow> Delta \<Rightarrow> Addr \<Rightarrow> Delta list \<Rightarrow> Addr list" where
  "correlate d1 d2 address (u # v # rest) =
     (if u = d1 \<and> v = d2
      then (let (address, cs) = replay address (v # rest)
            in cs @ correlate d1 d2 address (v # rest))
      else correlate d1 d2 address (v # rest))"
| "correlate d1 d2 address _ = []"

definition delta_correlation :: "Entry \<Rightarrow> Addr list" where
  "delta_correlation entry =
     (case rev (e_deltas entry) of
        u # v # rest \<Rightarrow> correlate u v (e_last_address entry) (v # rest)
      | _ \<Rightarrow> [])"

section \<open>Filtering and issuing\<close>

fun filter_loop ::
  "'c cache_ops \<Rightarrow> 'c pf_sim \<Rightarrow> Entry \<Rightarrow> Addr list \<Rightarrow> Addr list \<times> Addr set \<Rightarrow> Addr list \<times> Addr set"
where
  "filter_loop ops s entry [] acc = acc"
| "filter_loop ops s entry (i # is) (prefetches, inflight) =
     (let (prefetches, inflight) =
            (if i \<le> MAX_PHYS_MEM_ADDR \<and> to_block i \<notin> inflight \<and>
                \<not> in_mshr_queue ops i s \<and> \<not> in_cache ops i s
             then (if card inflight < MAX_QUEUE_SIZE
                   then (prefetches @ [i], insert (to_block i) inflight)
                   else (prefetches, inflight))
             else (prefetches, inflight));
          prefetches = (if i = e_last_prefetch entry then [] else prefetches)
      in filter_loop ops s entry is (prefetches, inflight))"

definition prefetch_filter ::
  "'c cache_ops \<Rightarrow> 'c pf_sim \<Rightarrow> Entry \<Rightarrow> Addr list \<Rightarrow> Addr set \<Rightarrow> Addr list \<times> Addr set" where
  "prefetch_filter ops s entry candidates inflight =
     filter_loop ops s entry candidates ([], inflight)"

fun issue_loop :: "nat \<Rightarrow> Addr list \<Rightarrow> 'c pf_sim \<Rightarrow> 'c pf_sim res" where
  "issue_loop issued [] s = Inr s"
| "issue_loop issued (i # is) s =
     (if current_queue_size s \<ge> MAX_QUEUE_SIZE \<or> issued \<ge> MAX_DEGREE then Inr s
      else bind_res (issue_prefetch i s) (\<lambda>s. issue_loop (Suc issued) is s))"

definition issue_prefetches :: "Addr list \<Rightarrow> 'c pf_sim \<Rightarrow> 'c pf_sim res" where
  "issue_prefetches prefetches s = issue_loop 0 prefetches s"

section \<open>The callbacks of the simulator\<close>

definition dcpt_prefetch_complete :: "Addr \<Rightarrow> dcpt \<Rightarrow> dcpt" where
  "dcpt_prefetch_complete addr d = d\<lparr>in_flight := in_flight d - {to_block addr}\<rparr>"

definition dcpt_prefetch_init :: "dcpt \<Rightarrow> dcpt" where
  "dcpt_prefetch_init d = d"

definition dcpt_prefetch_access ::
  "'c cache_ops \<Rightarrow> AccessStat \<Rightarrow> dcpt \<Rightarrow> 'c pf_sim \<Rightarrow> (dcpt \<times> 'c pf_sim) res" where
  "dcpt_prefetch_access ops stat d s =
     (let pc = st_pc stat; addr = st_mem_addr stat;
          entry = table_lookup d pc
      in if e_pc entry \<noteq> pc
         then Inr (d\<lparr>table := (table d)[table_index pc := Entry_new pc addr]\<rparr>, s)
         else if st_mem_addr stat \<noteq> e_last_address entry
         then (let entry = insert_delta (ucast (addr - e_last_address entry)) entry;
                   entry = entry\<lparr>e_last_address := addr\<rparr>;
                   candidates = delta_correlation entry;
                   (prefetches, inflight) = prefetch_filter ops s entry candidates (in_flight d)
               in bind_res (issue_prefetches prefetches s)
                    (\<lambda>s. Inr (d\<lparr>table := (table d)[table_index pc := entry],
                                 in_flight := inflight\<rparr>, s)))
         else Inr (d, s))"

section \<open>Invariant\<close>

definition entry_inv :: "Entry \<Rightarrow> bool" where
  "entry_inv e \<longleftrightarrow> length (e_deltas e) \<le> NUM_DELTAS \<and>
     (\<forall>x \<in> set (e_deltas e). DELTA_MIN \<le> sint x \<and> sint x \<le> DELTA_MAX) \<and>
     e_last_prefetch e = 0"

definition flight_inv :: "Addr set \<Rightarrow> bool" where
  "flight_inv F \<longleftrightarrow> finite F \<and> card F \<le> MAX_QUEUE_SIZE \<and>
     (\<forall>b \<in> F. to_block b = b \<and> b \<le> MAX_PHYS_MEM_ADDR)"

definition dcpt_inv :: "dcpt \<Rightarrow> bool" where
  "dcpt_inv d \<longleftrightarrow> length (table d) = unat TABLE_SIZE \<and> (\<forall>e \<in> set (table d). entry_inv e) \<and>
     flight_inv (in_flight d)"

lemma to_block_align: "to_block a = a AND NOT (mask 6)"
  using align_div_mult [of a 6] by (simp add: to_block_def BLOCK_SIZE_def)

lemma to_block_idem [simp]: "to_block (to_block a) = to_block a"
  by (simp add: to_block_align align_idem)

lemma to_block_le: "to_block a \<le> a"
  by (simp add: to_block_align align_le)

lemma table_index_less: "table_index pc < unat TABLE_SIZE"
  by (simp add: table_index_def TABLE_SIZE_def unat_mod)

lemma entry_inv_new: "entry_inv (Entry_new pc addr)"
  by (simp add: entry_inv_def Entry_new_def)

lemma entry_inv_insert:
  assumes "entry_inv e"
  shows "entry_inv (insert_delta x e)"
proof -
  have "set (tl (e_deltas e @ [x])) \<subseteq> set (e_deltas e @ [x])"
    by (cases "e_deltas e") auto
  with assms show ?thesis by (auto simp: entry_inv_def insert_delta_def Let_def)
qed

lemma dcpt_inv_start: "dcpt_inv dcpt_start"
  by (simp add: dcpt_inv_def dcpt_start_def flight_inv_def entry_inv_new)

lemma dcpt_inv_entry: "dcpt_inv d \<Longrightarrow> entry_inv (table_lookup d pc)"
  using table_index_less [of pc] by (simp add: dcpt_inv_def table_lookup_def)

lemma dcpt_inv_update:
  assumes "dcpt_inv d" and "entry_inv e" and "flight_inv F"
  shows "dcpt_inv (d\<lparr>table := (table d)[i := e], in_flight := F\<rparr>)"
  using assms by (auto simp: dcpt_inv_def dest: subsetD [OF set_update_subset_insert])

section \<open>What correlation computes\<close>

definition delta_sum :: "Delta list \<Rightarrow> Addr" where
  "delta_sum ds = sum_list (map scast ds)"

fun matched_deltas :: "Delta \<Rightarrow> Delta \<Rightarrow> Delta list \<Rightarrow> Delta list" where
  "matched_deltas d1 d2 (u # v # rest) =
     (if u = d1 \<and> v = d2 then (v # rest) @ matched_deltas d1 d2 (v # rest)
      else matched_deltas d1 d2 (v # rest))"
| "matched_deltas d1 d2 _ = []"

lemma replay_Cons [simp]:
  "replay a (w # ws) =
     (fst (replay (a + scast w) ws), (a + scast w) # snd (replay (a + scast w) ws))"
  by (simp add: Let_def case_prod_beta)

declare replay.simps(2) [simp del]

lemma replay_append:
  "replay a (xs @ ys) =
     (fst (replay (fst (replay a xs)) ys), snd (replay a xs) @ snd (replay (fst (replay a xs)) ys))"
  by (induction xs arbitrary: a) simp_all

lemma replay_length: "length (snd (replay a ds)) = length ds"
  by (induction ds arbitrary: a) simp_all

lemma replay_last: "fst (replay a ds) = a + delta_sum ds"
  by (induction ds arbitrary: a) (simp_all add: delta_sum_def)

lemma replay_nth:
  "i < length ds \<Longrightarrow> snd (replay a ds) ! i = a + delta_sum (take (Suc i) ds)"
proof (induction ds arbitrary: a i)
  case Nil
  then show ?case by simp
next
  case (Cons w ws)
  then show ?case
    by (cases i) (simp_all add: delta_sum_def)
qed

lemma correlate_replay: "correlate d1 d2 a rs = snd (replay a (matched_deltas d1 d2 rs))"
proof (induction d1 d2 rs arbitrary: a rule: matched_deltas.induct)
  case (1 d1 d2 u v rest)
  show ?case
  proof (cases "u = d1 \<and> v = d2")
    case True
    have "correlate d1 d2 a (u # v # rest) =
        snd (replay a (v # rest)) @ correlate d1 d2 (fst (replay a (v # rest))) (v # rest)"
      using True by (simp add: case_prod_beta)
    also have "\<dots> = snd (replay a ((v # rest) @ matched_deltas d1 d2 (v # rest)))"
      using 1(1) [OF True] by (simp only: replay_append snd_conv)
    finally show ?thesis using True by simp
  next
    case False
    then have "matched_deltas d1 d2 (u # v # rest) = matched_deltas d1 d2 (v # rest)"
      and "correlate d1 d2 a (u # v # rest) = correlate d1 d2 a (v # rest)" by auto
    then show ?thesis using 1(2) [OF False] by simp
  qed
qed simp_all

lemma matched_deltas_replicate:
  "length (matched_deltas x x (replicate n x)) = n * (n - 1) div 2 \<and>
   set (matched_deltas x x (replicate n x)) \<subseteq> {x}"
proof (induction n)
  case (Suc n)
  show ?case
  proof (cases n)
    case (Suc m)
    have "matched_deltas x x (replicate (Suc n) x) =
        replicate n x @ matched_deltas x x (replicate n x)"
      using Suc by simp
    moreover have "n + n * (n - 1) div 2 = Suc n * n div 2"
      using Suc by (simp add: algebra_simps)
    ultimately show ?thesis using Suc.IH by auto
  qed simp
qed simp

section \<open>What filtering and issuing guarantee\<close>

text \<open>
  The loop invariant of \<open>prefetch_filter\<close> relative to the in-flight set \<open>F0\<close> at entry:
  every kept address is fetchable, its block is newly marked in flight, and no block is
  kept twice.
\<close>

definition filter_state ::
  "'c cache_ops \<Rightarrow> 'c pf_sim \<Rightarrow> Addr set \<Rightarrow> Addr list \<times> Addr set \<Rightarrow> bool" where
  "filter_state ops s F0 = (\<lambda>(P, F). flight_inv F \<and> F0 \<subseteq> F \<and> distinct (map to_block P) \<and>
     (\<forall>x \<in> set P. x \<le> MAX_PHYS_MEM_ADDR \<and> \<not> in_mshr_queue ops x s \<and> \<not> in_cache ops x s \<and>
        to_block x \<in> F - F0))"

lemma flight_inv_insert:
  assumes "flight_inv F" and "card F < MAX_QUEUE_SIZE" and "x \<le> MAX_PHYS_MEM_ADDR"
  shows "flight_inv (insert (to_block x) F)"
  using assms order_trans [OF to_block_le [of x]]
  by (auto simp: flight_inv_def card_insert_if)

lemma filter_loop_state:
  "filter_state ops s F0 acc \<Longrightarrow> filter_state ops s F0 (filter_loop ops s e cs acc)"
proof (induction ops s e cs acc rule: filter_loop.induct)
  case (2 ops s e i rest P F)
  define PF where "PF = (if i \<le> MAX_PHYS_MEM_ADDR \<and> to_block i \<notin> F \<and>
      \<not> in_mshr_queue ops i s \<and> \<not> in_cache ops i s \<and> card F < MAX_QUEUE_SIZE
    then (P @ [i], insert (to_block i) F) else (P, F))"
  have st: "filter_state ops s F0 PF"
    using 2(2) by (auto simp: filter_state_def PF_def flight_inv_insert)
  have step: "filter_loop ops s e (i # rest) (P, F) =
      filter_loop ops s e rest (if i = e_last_prefetch e then [] else fst PF, snd PF)"
    by (simp add: PF_def Let_def)
  have "filter_state ops s F0 (if i = e_last_prefetch e then [] else fst PF, snd PF)"
    using st by (cases PF) (auto simp: filter_state_def)
  with 2(1) show ?case unfolding step PF_def
    by (simp add: Let_def split: if_splits)
qed simp

lemma prefetch_filter_state:
  assumes "flight_inv F"
  shows "filter_state ops s F (prefetch_filter ops s e cs F)"
  using assms unfolding prefetch_filter_def
  by (intro filter_loop_state) (simp add: filter_state_def)

lemma issue_loop_eq:
  assumes "\<forall>x \<in> set P. x \<le> MAX_PHYS_MEM_ADDR" and "sim_lists s = Some (as, ds)"
  shows "issue_loop n P s =
    (let Q = (if current_queue_size s \<ge> MAX_QUEUE_SIZE then [] else take (MAX_DEGREE - n) P)
     in Inr (s\<lparr>sim_lists := Some (as @ map to_block Q, ds @ replicate (length Q) (sim_latency s))\<rparr>))"
  using assms
proof (induction P arbitrary: n s as ds)
  case Nil
  then show ?case by simp
next
  case (Cons x P)
  show ?case
  proof (cases "current_queue_size s \<ge> MAX_QUEUE_SIZE \<or> n \<ge> MAX_DEGREE")
    case True
    then show ?thesis using Cons.prems by (auto simp: Let_def)
  next
    case False
    define s1 where "s1 = s\<lparr>sim_lists := Some (as @ [to_block x], ds @ [sim_latency s])\<rparr>"
    have "issue_prefetch x s = Inr s1"
      using Cons.prems by (simp add: issue_prefetch_ok s1_def to_block_align)
    then have "issue_loop n (x # P) s = issue_loop (Suc n) P s1" using False by simp
    also have "\<dots> = (let Q = (if current_queue_size s1 \<ge> MAX_QUEUE_SIZE then []
                               else take (MAX_DEGREE - Suc n) P)
        in Inr (s1\<lparr>sim_lists := Some ((as @ [to_block x]) @ map to_block Q,
             (ds @ [sim_latency s]) @ replicate (length Q) (sim_latency s1))\<rparr>))"
      by (rule Cons.IH) (use Cons.prems in \<open>simp_all add: s1_def\<close>)
    also have "\<dots> = Inr (s\<lparr>sim_lists := Some (as @ map to_block (x # take (MAX_DEGREE - Suc n) P),
        ds @ replicate (Suc (length (take (MAX_DEGREE - Suc n) P))) (sim_latency s))\<rparr>)"
      using False by (simp add: s1_def Let_def)
    finally have eq: "issue_loop n (x # P) s = \<dots>" .
    have "MAX_DEGREE - n = Suc (MAX_DEGREE - Suc n)" using False by auto
    then show ?thesis using False eq by (simp add: Let_def del: issue_loop.simps)
  qed
qed

lemma callback_block [simp]:
  "in_cache ops (to_block a) s = in_cache ops a s"
  "in_mshr_queue ops (to_block a) s = in_mshr_queue ops a s"
  by (simp_all add: in_cache_def in_mshr_queue_def to_block_align block_mask_eq align_idem)

text \<open>The blocks an access hands to the simulator, given the filter's result.\<close>

definition issued :: "'c pf_sim \<Rightarrow> Addr list \<Rightarrow> Addr list" where
  "issued s P = map to_block
     (if current_queue_size s \<ge> MAX_QUEUE_SIZE then [] else take MAX_DEGREE P)"

lemma issue_prefetches_eq:
  assumes "\<forall>x \<in> set P. x \<le> MAX_PHYS_MEM_ADDR" and "sim_lists s = Some (as, ds)"
  shows "issue_prefetches P s =
    Inr (s\<lparr>sim_lists := Some (as @ issued s P, ds @ replicate (length (issued s P)) (sim_latency s))\<rparr>)"
  unfolding issue_prefetches_def issued_def using issue_loop_eq [OF assms, of 0]
  by (simp add: Let_def split: if_splits)

lemma issued_sound:
  assumes "filter_state ops s F0 (P, F)" and "b \<in> set (issued s P)"
  shows "b \<le> MAX_PHYS_MEM_ADDR" "to_block b = b" "b \<in> F" "b \<notin> F0"
    "\<not> in_cache ops b s" "\<not> in_mshr_queue ops b s"
  using assms order_trans [OF to_block_le]
  by (auto simp: filter_state_def issued_def split: if_splits dest!: in_set_takeD)

lemma issued_distinct: "filter_state ops s F0 (P, F) \<Longrightarrow> distinct (issued s P)"
  by (simp add: filter_state_def issued_def take_map [symmetric])

lemma issued_length: "length (issued s P) \<le> MAX_DEGREE"
  by (simp add: issued_def)

text \<open>The three outcomes of an access, for the proofs below.\<close>

lemma dcpt_access_cases:
  assumes "dcpt_inv d" and "sim_lists s = Some (as, ds)"
  obtains (replace) "dcpt_prefetch_access ops stat d s =
      Inr (d\<lparr>table := (table d)[table_index (st_pc stat) :=
             Entry_new (st_pc stat) (st_mem_addr stat)]\<rparr>, s)"
  | (same) "dcpt_prefetch_access ops stat d s = Inr (d, s)"
  | (predict) e P F where "entry_inv e"
      "prefetch_filter ops s e (delta_correlation e) (in_flight d) = (P, F)"
      "filter_state ops s (in_flight d) (P, F)"
      "dcpt_prefetch_access ops stat d s =
         Inr (d\<lparr>table := (table d)[table_index (st_pc stat) := e], in_flight := F\<rparr>,
              s\<lparr>sim_lists := Some (as @ issued s P,
                                   ds @ replicate (length (issued s P)) (sim_latency s))\<rparr>)"
proof -
  let ?e = "table_lookup d (st_pc stat)"
  consider "e_pc ?e \<noteq> st_pc stat"
    | "e_pc ?e = st_pc stat" "st_mem_addr stat = e_last_address ?e"
    | "e_pc ?e = st_pc stat" "st_mem_addr stat \<noteq> e_last_address ?e" by blast
  then show thesis
  proof cases
    case 1
    then show thesis by (intro replace) (simp add: dcpt_prefetch_access_def Let_def)
  next
    case 2
    then show thesis by (intro same) (simp add: dcpt_prefetch_access_def Let_def)
  next
    case 3
    define e where "e = (insert_delta (ucast (st_mem_addr stat - e_last_address ?e)) ?e)
      \<lparr>e_last_address := st_mem_addr stat\<rparr>"
    obtain P F where PF: "prefetch_filter ops s e (delta_correlation e) (in_flight d) = (P, F)"
      by fastforce
    have inv: "entry_inv e"
      using entry_inv_insert [OF dcpt_inv_entry [OF assms(1), of "st_pc stat"]]
      by (simp add: e_def entry_inv_def)
    have st: "filter_state ops s (in_flight d) (P, F)"
      using prefetch_filter_state [of "in_flight d" ops s e "delta_correlation e"] assms(1) PF
      by (simp add: dcpt_inv_def)
    have "\<forall>x \<in> set P. x \<le> MAX_PHYS_MEM_ADDR" using st by (simp add: filter_state_def)
    from issue_prefetches_eq [OF this assms(2)] 3 PF show thesis
      by (intro predict [OF inv PF st]) (simp add: dcpt_prefetch_access_def Let_def e_def)
  qed
qed

section \<open>Properties of the callbacks\<close>

text \<open>What one access does to the table and to the two lists.\<close>

lemma dcpt_access_effect:
  assumes "dcpt_inv d" and "sim_lists s = Some (as, ds)"
  obtains d' new where
    "dcpt_prefetch_access ops stat d s =
       Inr (d', s\<lparr>sim_lists := Some (as @ new, ds @ replicate (length new) (sim_latency s))\<rparr>)"
    "dcpt_inv d'" "in_flight d \<subseteq> in_flight d'" "distinct new" "length new \<le> MAX_DEGREE"
    "current_queue_size s \<ge> MAX_QUEUE_SIZE \<Longrightarrow> new = []"
    "\<And>b. b \<in> set new \<Longrightarrow> b \<le> MAX_PHYS_MEM_ADDR \<and> to_block b = b \<and> \<not> in_cache ops b s \<and>
       \<not> in_mshr_queue ops b s \<and> b \<notin> in_flight d \<and> b \<in> in_flight d'"
  using assms
proof (cases rule: dcpt_access_cases [where ops = ops and stat = stat])
  case replace
  have "dcpt_inv (d\<lparr>table := (table d)[table_index (st_pc stat) :=
      Entry_new (st_pc stat) (st_mem_addr stat)]\<rparr>)"
    using dcpt_inv_update [OF assms(1) entry_inv_new, of "in_flight d"] assms(1)
    by (simp add: dcpt_inv_def)
  with replace assms(2) show thesis
    by (intro that [where new = "[]" and d' = "d\<lparr>table := (table d)[table_index (st_pc stat) :=
      Entry_new (st_pc stat) (st_mem_addr stat)]\<rparr>"]) simp_all
next
  case same
  with assms show thesis by (intro that [where new = "[]" and d' = d]) simp_all
next
  case (predict e P F)
  show thesis
  proof (rule that [OF predict(4)])
    show "dcpt_inv (d\<lparr>table := (table d)[table_index (st_pc stat) := e], in_flight := F\<rparr>)"
      using predict(1,3) assms(1) by (intro dcpt_inv_update) (auto simp: filter_state_def)
    show "in_flight d \<subseteq> in_flight (d\<lparr>table := (table d)[table_index (st_pc stat) := e], in_flight := F\<rparr>)"
      using predict(3) by (simp add: filter_state_def)
    show "distinct (issued s P)" by (rule issued_distinct [OF predict(3)])
    show "length (issued s P) \<le> MAX_DEGREE" by (rule issued_length)
    show "issued s P = []" if "current_queue_size s \<ge> MAX_QUEUE_SIZE"
      using that by (simp add: issued_def)
    show "b \<le> MAX_PHYS_MEM_ADDR \<and> to_block b = b \<and> \<not> in_cache ops b s \<and>
       \<not> in_mshr_queue ops b s \<and> b \<notin> in_flight d \<and>
       b \<in> in_flight (d\<lparr>table := (table d)[table_index (st_pc stat) := e], in_flight := F\<rparr>)"
      if "b \<in> set (issued s P)" for b
      using issued_sound [OF predict(3) that] by simp
  qed
qed

text \<open>
  C2: \<open>prefetch_access\<close> is safe.  In every state that satisfies the table invariant and
  during any call of the simulator, it never stops the simulation, keeps the invariant,
  leaves the simulator's state alone except for appending to the two lists, and what it
  appends are at most \<open>MAX_DEGREE\<close> distinct block addresses with one delay each; every one
  is a block inside physical memory that is neither cached nor in the miss queue, was not
  in flight before and is in flight afterwards.  With a full prefetch queue it appends
  nothing.
\<close>

theorem dcpt_access_safe:
  assumes "dcpt_inv d" and "sim_lists s = Some (as, ds)"
  shows "\<exists>d' new. dcpt_prefetch_access ops stat d s =
      Inr (d', s\<lparr>sim_lists := Some (as @ new, ds @ replicate (length new) (sim_latency s))\<rparr>) \<and>
    dcpt_inv d' \<and> in_flight d \<subseteq> in_flight d' \<and> distinct new \<and> length new \<le> MAX_DEGREE \<and>
    (current_queue_size s \<ge> MAX_QUEUE_SIZE \<longrightarrow> new = []) \<and>
    (\<forall>b \<in> set new. b \<le> MAX_PHYS_MEM_ADDR \<and> to_block b = b \<and> \<not> in_cache ops b s \<and>
       \<not> in_mshr_queue ops b s \<and> b \<notin> in_flight d \<and> b \<in> in_flight d')"
  by (rule dcpt_access_effect [OF assms, of ops stat]) blast

definition no_cache :: "unit cache_ops" where
  "no_cache = \<lparr>co_inCache = (\<lambda>_ _. False), co_inMissQueue = (\<lambda>_ _. False),
     co_getPrefetchBit = (\<lambda>_ _. False), co_setPrefetchBit = (\<lambda>_ c. c),
     co_clearPrefetchBit = (\<lambda>_ c. c)\<rparr>"

definition idle_sim :: "nat \<Rightarrow> unit pf_sim" where
  "idle_sim n = \<lparr>sim_cache = (), sim_queue = n, sim_latency = 1, sim_lists = Some ([], [])\<rparr>"

theorem dcpt_access_safe_witness:
  "\<exists>d' new. dcpt_prefetch_access no_cache \<lparr>st_pc = 0, st_mem_addr = 64, st_time = 0, st_miss = True\<rparr>
      dcpt_start (idle_sim 0) = Inr (d', (idle_sim 0)\<lparr>sim_lists := Some (new, replicate (length new) 1)\<rparr>) \<and>
    dcpt_inv d' \<and> length new \<le> MAX_DEGREE"
proof -
  have l: "sim_lists (idle_sim 0) = Some ([], [])" and t: "sim_latency (idle_sim 0) = 1"
    by (simp_all add: idle_sim_def)
  show ?thesis
    using dcpt_access_safe [OF dcpt_inv_start l, of no_cache
        "\<lparr>st_pc = 0, st_mem_addr = 64, st_time = 0, st_miss = True\<rparr>"] t
    by auto
qed

text \<open>
  Reachable states: any number of accesses, each during a call of the simulator with
  arbitrary cache contents and queue length, and any completions.
\<close>

inductive dcpt_reach :: "'c cache_ops \<Rightarrow> dcpt \<Rightarrow> bool" for ops where
  start: "dcpt_reach ops (dcpt_prefetch_init dcpt_start)"
| access: "dcpt_reach ops d \<Longrightarrow> sim_lists s = Some l \<Longrightarrow>
    dcpt_prefetch_access ops stat d s = Inr (d', s') \<Longrightarrow> dcpt_reach ops d'"
| complete: "dcpt_reach ops d \<Longrightarrow> dcpt_reach ops (dcpt_prefetch_complete addr d)"

lemma dcpt_inv_complete: "dcpt_inv d \<Longrightarrow> dcpt_inv (dcpt_prefetch_complete addr d)"
  using card_Diff1_le [of "in_flight d" "to_block addr"]
  by (auto simp: dcpt_inv_def flight_inv_def dcpt_prefetch_complete_def)

lemma dcpt_reach_inv: "dcpt_reach ops d \<Longrightarrow> dcpt_inv d"
proof (induction rule: dcpt_reach.induct)
  case start
  show ?case by (simp add: dcpt_prefetch_init_def dcpt_inv_start)
next
  case (access d s l stat d' s')
  obtain as ds where l: "sim_lists s = Some (as, ds)" using access(2) by (cases l) simp
  from dcpt_access_effect [OF access.IH l, of ops stat] access(3) show ?case by auto
next
  case (complete d addr)
  from complete.IH show ?case by (rule dcpt_inv_complete)
qed

text \<open>
  C3: in every state the prefetcher can reach, by any sequence of accesses and
  completions, the table has \<open>TABLE_SIZE\<close> rows, no row holds more than \<open>NUM_DELTAS\<close>
  deltas, every stored delta fits in \<open>DELTA_BITS\<close> signed bits, and at most
  \<open>MAX_QUEUE_SIZE\<close> blocks, all aligned and inside physical memory, are marked in flight.
\<close>

theorem dcpt_reachable_bounds:
  assumes "dcpt_reach ops d"
  shows "length (table d) = 98 \<and>
    (\<forall>e \<in> set (table d). length (e_deltas e) \<le> 19 \<and>
       (\<forall>x \<in> set (e_deltas e). -2048 \<le> sint x \<and> sint x \<le> 2047)) \<and>
    finite (in_flight d) \<and> card (in_flight d) \<le> 100 \<and>
    (\<forall>b \<in> in_flight d. to_block b = b \<and> b \<le> MAX_PHYS_MEM_ADDR)"
  using dcpt_reach_inv [OF assms]
  by (auto simp: dcpt_inv_def flight_inv_def entry_inv_def dcpt_consts MAX_QUEUE_SIZE_def)

theorem dcpt_reachable_bounds_witness:
  "dcpt_reach no_cache dcpt_start \<and> length (table dcpt_start) = 98"
proof -
  have r: "dcpt_reach no_cache dcpt_start"
    using dcpt_reach.start [of no_cache] by (simp add: dcpt_prefetch_init_def)
  show ?thesis using r dcpt_reachable_bounds [OF r] by simp
qed

text \<open>The ring buffer: inserting in-range deltas keeps the most recent ones in order.\<close>

lemma insert_delta_recent:
  assumes "DELTA_MIN \<le> sint x" and "sint x \<le> DELTA_MAX" and "e_deltas e = drop (length xs - NUM_DELTAS) xs"
  shows "e_deltas (insert_delta x e) = drop (length (xs @ [x]) - NUM_DELTAS) (xs @ [x])"
proof (cases "length xs < NUM_DELTAS")
  case True
  with assms show ?thesis by (simp add: insert_delta_def)
next
  case False
  then have "xs \<noteq> []" and "drop (length xs - NUM_DELTAS) xs \<noteq> []"
    by (auto simp: NUM_DELTAS_def)
  with False assms show ?thesis
    by (simp add: insert_delta_def Let_def Suc_diff_le drop_Suc tl_drop)
qed

text \<open>
  C6: the deltas of an entry are a ring buffer of its history.  After any sequence of
  deltas has been inserted into a fresh entry, the entry holds exactly the last
  \<open>NUM_DELTAS\<close> of those that fit in \<open>DELTA_BITS\<close> bits, oldest first.
\<close>

theorem insert_deltas_history:
  "e_deltas (fold insert_delta xs (Entry_new pc addr)) =
     (let ys = filter (\<lambda>x. DELTA_MIN \<le> sint x \<and> sint x \<le> DELTA_MAX) xs
      in drop (length ys - NUM_DELTAS) ys)"
proof (induction xs rule: rev_induct)
  case Nil
  then show ?case by (simp add: Entry_new_def)
next
  case (snoc x xs)
  show ?case
  proof (cases "DELTA_MIN \<le> sint x \<and> sint x \<le> DELTA_MAX")
    case True
    then show ?thesis
      using insert_delta_recent [OF _ _ snoc.IH [unfolded Let_def]] by (simp add: Let_def)
  next
    case False
    then have "insert_delta x e = e" for e by (auto simp: insert_delta_def)
    then show ?thesis using snoc.IH False by (auto simp: Let_def)
  qed
qed

text \<open>Histories that repeat a period.  The deltas are read newest first, so \<open>q\<close> below is the period reversed.\<close>

lemma matched_deltas_skip: "d1 \<notin> set zs \<Longrightarrow> matched_deltas d1 d2 (zs @ xs) = matched_deltas d1 d2 xs"
proof (induction zs)
  case (Cons z zs)
  then show ?case by (cases "zs @ xs") auto
qed simp

lemma matched_deltas_period:
  assumes "distinct q" "q \<noteq> []" "d1 = hd q" "d2 = (if length q = 1 then d1 else q ! 1)" "xs = [] \<or> hd xs = d1"
  shows "matched_deltas d1 d2 (q @ xs) = tl (q @ xs) @ matched_deltas d1 d2 xs"
proof (cases "tl q")
  case Nil
  then have "q = [d1]" "d2 = d1" using assms by (cases q; simp)+
  then show ?thesis using assms(5) by (cases xs) auto
next
  case (Cons z zs)
  then have q: "q = d1 # d2 # zs" "d1 \<notin> set (d2 # zs)" using assms by (cases q; auto)+
  have "matched_deltas d1 d2 ((d2 # zs) @ xs) = matched_deltas d1 d2 xs" by (rule matched_deltas_skip [OF q(2)])
  then show ?thesis using q(1) by simp
qed

lemma matched_deltas_periods:
  assumes "distinct q" "q \<noteq> []" "d1 = hd q" "d2 = (if length q = 1 then d1 else q ! 1)"
  shows "matched_deltas d1 d2 (concat (replicate n q)) = concat (map (\<lambda>j. tl (concat (replicate j q))) (rev [1..<Suc n]))"
proof (induction n)
  case (Suc n)
  have "concat (replicate n q) = [] \<or> hd (concat (replicate n q)) = d1" using assms(2,3) by (cases n) simp_all
  from matched_deltas_period [OF assms this] Suc show ?case by simp
qed simp

lemma rev_concat_replicate: "rev (concat (replicate n p)) = concat (replicate n (rev p))"
  by (simp add: rev_concat)

lemma matched_deltas_newest:
  assumes "distinct q" "q \<noteq> []" "d1 = hd q" "d2 = (if length q = 1 then d1 else q ! 1)" "concat (replicate (Suc n) q) = d1 # d2 # older"
  shows "matched_deltas d1 d2 (d2 # older) = matched_deltas d1 d2 (concat (replicate n q))"
proof -
  have q: "q = d1 # tl q" using assms(2,3) by simp
  then have "d2 # older = tl q @ concat (replicate n q)" using assms(5) by (cases q) auto
  moreover have "d1 \<notin> set (tl q)" using assms(1) q by (metis distinct.simps(2))
  ultimately show ?thesis by (simp add: matched_deltas_skip)
qed

lemma delta_scast_inject: "(scast (x :: Delta) :: Addr) = scast y \<longleftrightarrow> x = y"
proof
  assume "(scast x :: Addr) = scast y"
  then have "(scast (scast x :: Addr) :: Delta) = scast (scast y :: Addr)" by simp
  then show "x = y" by (simp add: scast_up_scast_id is_up)
qed simp

text \<open>
  The deltas that are replayed for \<open>k\<close> repetitions of the period \<open>p\<close>: for every earlier end of a period,
  from the newest to the oldest, the history before its last delta, backwards.
\<close>

definition replayed :: "nat \<Rightarrow> Delta list \<Rightarrow> Delta list" where
  "replayed k p = concat (map (\<lambda>j. rev (butlast (concat (replicate j p)))) (rev [1..<k]))"

lemma delta_correlation_replayed:
  assumes "e_deltas e = concat (replicate k p)" "distinct p" "p \<noteq> []" "2 \<le> k"
  shows "delta_correlation e = snd (replay (e_last_address e) (replayed k p))"
proof -
  define q where "q = rev p"
  define d1 where "d1 = hd q"
  define d2 where "d2 = (if length q = 1 then d1 else q ! 1)"
  obtain n where k: "k = Suc (Suc n)" using assms(4) by (metis Suc_le_D numeral_2_eq_2 Suc_le_mono)
  have q: "distinct q" "q \<noteq> []" using assms(2,3) by (simp_all add: q_def)
  have "\<exists>older. concat (replicate k q) = d1 # d2 # older"
    using q(2) unfolding k d1_def d2_def by (cases q; cases "tl q") auto
  then obtain older where older: "concat (replicate (Suc (Suc n)) q) = d1 # d2 # older" by (auto simp: k)
  have "rev (e_deltas e) = d1 # d2 # older" using older unfolding assms(1) rev_concat_replicate k q_def .
  moreover have "matched_deltas d1 d2 (d2 # older) = concat (map (\<lambda>j. tl (concat (replicate j q))) (rev [1..<Suc (Suc n)]))"
    unfolding matched_deltas_newest [OF q d1_def d2_def older] by (rule matched_deltas_periods [OF q d1_def d2_def])
  moreover have "tl (concat (replicate j q)) = rev (butlast (concat (replicate j p)))" for j
    by (simp add: q_def flip: rev_concat_replicate butlast_rev) (metis butlast_rev rev_swap)
  ultimately show ?thesis by (simp add: delta_correlation_def correlate_replay replayed_def k)
qed

lemma hd_replayed:
  assumes "p \<noteq> []" "2 \<le> k" "2 < k * length p"
  shows "replayed k p \<noteq> [] \<and> hd (replayed k p) = p ! (length p - (if length p = 1 then 1 else 2))"
proof -
  obtain n where k: "k = Suc (Suc n)" using assms(2) by (metis Suc_le_D numeral_2_eq_2 Suc_le_mono)
  define h where "h = concat (replicate (Suc n) p)"
  have r: "replayed k p = rev (butlast h) @ replayed (Suc n) p" by (simp add: replayed_def k h_def)
  have h: "h = concat (replicate n p) @ p" by (simp add: h_def flip: replicate_append_same)
  have "butlast h \<noteq> [] \<and> last (butlast h) = p ! (length p - (if length p = 1 then 1 else 2))"
  proof (cases "length p = 1")
    case True
    then obtain x m where "p = [x]" "n = Suc m" using assms(3) k by (cases p; cases n) auto
    then show ?thesis by (simp add: h_def flip: replicate_append_same)
  next
    case False
    then have l: "2 \<le> length p" using assms(1) by (cases p; cases "tl p") auto
    have b: "butlast h = concat (replicate n p) @ butlast p" using assms(1) h by (simp add: butlast_append)
    have "butlast p \<noteq> []" using l by (cases p; cases "tl p") auto
    moreover from this have "last (butlast p) = p ! (length p - 2)" using l by (simp add: last_conv_nth nth_butlast numeral_2_eq_2)
    ultimately show ?thesis using b False by simp
  qed
  then show ?thesis using r by (simp add: hd_append hd_rev)
qed

text \<open>
  C4: which patterns \<open>delta_correlation\<close> predicts.  Let the deltas of an instruction be a period of distinct
  deltas, repeated at least twice, with at least three deltas in all, so that the next access
  is the last address plus the first delta of the period.  The candidates are the running sums of
  the replayed history, which for each earlier end of a period, newest first, goes from the delta before it back to the
  oldest one.  So the first candidate is the next access exactly if the period has
  one delta (a constant stride) or two; for every longer period it is wrong.  The report (\<open>report/background.tex\<close>) has the
  pattern that follows the longest match added forward, which would be right for every period.
\<close>

theorem delta_correlation_periodic:
  assumes "e_deltas e = concat (replicate k p)" "distinct p" "p \<noteq> []" "2 \<le> k" "2 < k * length p"
  shows "length (delta_correlation e) = length (replayed k p) \<and>
    (\<forall>i < length (replayed k p). delta_correlation e ! i = e_last_address e + delta_sum (take (Suc i) (replayed k p))) \<and>
    delta_correlation e \<noteq> [] \<and> (hd (delta_correlation e) = e_last_address e + scast (hd p) \<longleftrightarrow> length p \<le> 2)"
proof -
  have c: "delta_correlation e = snd (replay (e_last_address e) (replayed k p))" by (rule delta_correlation_replayed [OF assms(1-4)])
  obtain r rs where r: "replayed k p = r # rs" "r = p ! (length p - (if length p = 1 then 1 else 2))"
    using hd_replayed [OF assms(3-5)] by (cases "replayed k p") auto
  have "hd (delta_correlation e) = e_last_address e + scast r" by (simp add: c r(1))
  moreover have "r = hd p \<longleftrightarrow> length p \<le> 2"
    using assms(2,3) r(2) by (auto simp: hd_conv_nth nth_eq_iff_index_eq split: if_splits)
  ultimately have "hd (delta_correlation e) = e_last_address e + scast (hd p) \<longleftrightarrow> length p \<le> 2" by (simp add: delta_scast_inject)
  moreover have "\<forall>i < length (replayed k p). delta_correlation e ! i = e_last_address e + delta_sum (take (Suc i) (replayed k p))"
    by (simp add: c replay_nth)
  moreover have "length (delta_correlation e) = length (replayed k p)" by (simp add: c replay_length)
  ultimately show ?thesis using r(1) by force
qed

definition stride_entry :: Entry where
  "stride_entry = \<lparr>e_pc = 0, e_last_address = 192, e_last_prefetch = 0, e_deltas = [64, 64, 64]\<rparr>"

theorem delta_correlation_periodic_witness:
  "hd (delta_correlation stride_entry) = 192 + scast (64 :: Delta) \<and>
   hd (delta_correlation (stride_entry\<lparr>e_deltas := [64, 128, 192, 64, 128, 192]\<rparr>)) \<noteq> 192 + scast (64 :: Delta)"
proof -
  have "e_deltas stride_entry = concat (replicate 3 [64])"
    "e_deltas (stride_entry\<lparr>e_deltas := [64, 128, 192, 64, 128, 192]\<rparr>) = concat (replicate 2 [64, 128, 192])"
    by (simp_all add: stride_entry_def numeral_eq_Suc)
  from this [THEN delta_correlation_periodic] show ?thesis by (simp add: stride_entry_def)
qed

text \<open>
  Constant strides are predicted correctly.  When the last \<open>n\<close> deltas of an
  instruction are all \<open>x\<close>, the candidates are the next \<open>(n-1)(n-2)/2\<close> addresses of
  the stream, in order and without gaps.
\<close>

theorem delta_correlation_stride:
  assumes "e_deltas e = replicate n x" and "n \<ge> 2"
  shows "delta_correlation e =
    map (\<lambda>k. e_last_address e + of_nat k * scast x) [1..<Suc ((n - 1) * (n - 2) div 2)]"
proof -
  obtain m where n: "n = Suc (Suc m)" using assms(2) by (cases n rule: nat.exhaust) (auto simp: Suc_le_D dest: Suc_le_D)
  define ms where "ms = matched_deltas x x (replicate (Suc m) x)"
  have len: "length ms = (n - 1) * (n - 2) div 2" and all: "set ms \<subseteq> {x}"
    using matched_deltas_replicate [of x "Suc m"] by (simp_all add: ms_def n)
  have ms: "ms = replicate (length ms) x"
    using all by (intro replicate_eqI) auto
  have "rev (e_deltas e) = x # x # replicate m x"
    unfolding assms(1) rev_replicate n by simp
  then have cor: "delta_correlation e = snd (replay (e_last_address e) ms)"
    by (simp add: delta_correlation_def correlate_replay ms_def)
  show ?thesis
  proof (rule nth_equalityI)
    show "length (delta_correlation e) = length (map (\<lambda>k. e_last_address e + of_nat k * scast x)
        [1..<Suc ((n - 1) * (n - 2) div 2)])"
      by (simp add: cor replay_length len)
  next
    fix i assume "i < length (delta_correlation e)"
    then have i: "i < length ms" by (simp add: cor replay_length)
    have "take (Suc i) ms = replicate (Suc i) x"
      using i by (subst ms) (simp add: min_absorb1 del: replicate_Suc)
    then have "delta_correlation e ! i = e_last_address e + of_nat (Suc i) * scast x"
      using i by (simp add: cor replay_nth delta_sum_def sum_list_replicate del: replicate_Suc of_nat_Suc)
    then show "delta_correlation e ! i = map (\<lambda>k. e_last_address e + of_nat k * scast x)
        [1..<Suc ((n - 1) * (n - 2) div 2)] ! i"
      using i len by (simp del: of_nat_Suc upt_Suc)
  qed
qed

theorem delta_correlation_stride_witness:
  "delta_correlation stride_entry = map (\<lambda>k. 192 + of_nat k * scast (64 :: Delta)) [1..<2]"
proof -
  have "e_deltas stride_entry = replicate 3 64" "(3::nat) \<ge> 2" "e_last_address stride_entry = 192"
    by (simp_all add: stride_entry_def numeral_eq_Suc)
  with delta_correlation_stride [of stride_entry 3 64] show ?thesis by (simp add: numeral_eq_Suc)
qed

section \<open>The in-flight set\<close>

lemma filter_loop_full:
  "card F \<ge> MAX_QUEUE_SIZE \<Longrightarrow> filter_loop ops s e cs ([], F) = ([], F)"
  by (induction cs) (simp_all add: Let_def)

text \<open>
  C7: a full in-flight set silences the prefetcher.  Once \<open>MAX_QUEUE_SIZE\<close> blocks are
  marked in flight, no access issues anything or changes the set, whatever the state of
  the cache and of the prefetch queue: only a completion can make room.
\<close>

theorem dcpt_full_in_flight_silent:
  assumes "dcpt_inv d" and "sim_lists s = Some (as, ds)" and "card (in_flight d) = MAX_QUEUE_SIZE"
  shows "\<exists>d'. dcpt_prefetch_access ops stat d s = Inr (d', s) \<and> in_flight d' = in_flight d"
  using assms(1,2)
proof (cases rule: dcpt_access_cases [where ops = ops and stat = stat])
  case (predict e P F)
  have "(P, F) = ([], in_flight d)"
    using predict(2) assms(3) by (simp add: prefetch_filter_def filter_loop_full)
  then show ?thesis using predict(4) assms(2) by (simp add: issued_def)
qed simp_all

definition full_dcpt :: dcpt where
  "full_dcpt = dcpt_start\<lparr>in_flight := (\<lambda>k. of_nat (64 * k)) ` {..<100}\<rparr>"

lemma full_dcpt_inj: "inj_on (\<lambda>k. of_nat (64 * k) :: Addr) {..<100}"
proof (rule inj_onI)
  fix x y :: nat assume "x \<in> {..<100}" "y \<in> {..<100}" "(of_nat (64 * x) :: Addr) = of_nat (64 * y)"
  then have "unat (of_nat (64 * x) :: Addr) = unat (of_nat (64 * y) :: Addr)"
    and "x < 100" "y < 100" by simp_all
  then show "x = y" by (simp add: unat_of_nat del: of_nat_mult)
qed

lemma full_dcpt_block:
  assumes "k < 100"
  shows "to_block (of_nat (64 * k)) = of_nat (64 * k)" "(of_nat (64 * k) :: Addr) \<le> MAX_PHYS_MEM_ADDR"
proof -
  have u: "unat (of_nat (64 * k) :: Addr) = 64 * k" using assms by (simp add: unat_of_nat del: of_nat_mult)
  have "(of_nat (64 * k) :: Addr) div 64 = of_nat k"
    by (rule word_unat_eq_iff [THEN iffD2]) (use assms in \<open>simp add: unat_div u unat_of_nat del: of_nat_mult\<close>)
  then show "to_block (of_nat (64 * k)) = of_nat (64 * k)"
    by (simp add: to_block_def BLOCK_SIZE_def mult.commute)
  show "(of_nat (64 * k) :: Addr) \<le> MAX_PHYS_MEM_ADDR"
    using assms by (simp add: word_le_nat_alt u MAX_PHYS_MEM_ADDR_def del: of_nat_mult)
qed

lemma full_dcpt_inv: "dcpt_inv full_dcpt" and full_dcpt_card: "card (in_flight full_dcpt) = MAX_QUEUE_SIZE"
proof -
  show c: "card (in_flight full_dcpt) = MAX_QUEUE_SIZE"
    using full_dcpt_inj by (simp add: full_dcpt_def card_image MAX_QUEUE_SIZE_def)
  have "finite (in_flight full_dcpt)" by (simp add: full_dcpt_def)
  then have "flight_inv (in_flight full_dcpt)"
    unfolding flight_inv_def c using full_dcpt_block by (auto simp: full_dcpt_def simp del: of_nat_mult)
  then show "dcpt_inv full_dcpt"
    using dcpt_inv_start by (simp add: dcpt_inv_def full_dcpt_def)
qed

theorem dcpt_full_in_flight_silent_witness:
  "\<exists>d'. dcpt_prefetch_access no_cache \<lparr>st_pc = 0, st_mem_addr = 64, st_time = 0, st_miss = True\<rparr>
      full_dcpt (idle_sim 0) = Inr (d', idle_sim 0) \<and> in_flight d' = in_flight full_dcpt"
proof -
  have l: "sim_lists (idle_sim 0) = Some ([], [])" by (simp add: idle_sim_def)
  show ?thesis by (rule dcpt_full_in_flight_silent [OF full_dcpt_inv l full_dcpt_card])
qed

lemma dcpt_access_hit:
  assumes "table_lookup d (st_pc stat) = e" and "e_pc e = st_pc stat"
    and "st_mem_addr stat \<noteq> e_last_address e"
    and "e' = (insert_delta (ucast (st_mem_addr stat - e_last_address e)) e)
           \<lparr>e_last_address := st_mem_addr stat\<rparr>"
    and "prefetch_filter ops s e' (delta_correlation e') (in_flight d) = (P, F)"
    and "issue_prefetches P s = Inr s'"
  shows "dcpt_prefetch_access ops stat d s =
    Inr (d\<lparr>table := (table d)[table_index (st_pc stat) := e'], in_flight := F\<rparr>, s')"
  using assms by (simp add: dcpt_prefetch_access_def Let_def)

text \<open>
  Row 0 after \<open>n\<close> accesses of the instruction at address 0 to the addresses 64, 128,
  and so on, and the access that comes next.
\<close>

definition stride_row :: "nat \<Rightarrow> Addr set \<Rightarrow> dcpt" where
  "stride_row n F = \<lparr>table = (table dcpt_start)[0 := \<lparr>e_pc = 0, e_last_address = of_nat (64 * n),
     e_last_prefetch = 0, e_deltas = replicate n 64\<rparr>], in_flight = F\<rparr>"

definition stride_stat :: "nat \<Rightarrow> AccessStat" where
  "stride_stat n = \<lparr>st_pc = 0, st_mem_addr = of_nat (64 * n), st_time = 0, st_miss = True\<rparr>"

lemma stride_row_access:
  assumes "n < 3"
  shows "dcpt_prefetch_access no_cache (stride_stat (Suc n)) (stride_row n {}) (idle_sim 100) =
    Inr (stride_row (Suc n) (if n = 2 then {256} else {}), idle_sim 100)"
proof -
  define e where "e = \<lparr>e_pc = 0, e_last_address = of_nat (64 * n), e_last_prefetch = 0,
    e_deltas = replicate n (64 :: Delta)\<rparr>"
  define e' where "e' = \<lparr>e_pc = 0, e_last_address = of_nat (64 * Suc n), e_last_prefetch = 0,
    e_deltas = replicate (Suc n) (64 :: Delta)\<rparr>"
  have idx: "table_index 0 = 0" by (simp add: table_index_def)
  have n: "n = 0 \<or> n = 1 \<or> n = 2" using assms by auto
  have lk: "table_lookup (stride_row n {}) (st_pc (stride_stat (Suc n))) = e"
    by (simp add: table_lookup_def idx stride_row_def stride_stat_def e_def dcpt_start_def TABLE_SIZE_def)
  have ins: "e' = (insert_delta (ucast (st_mem_addr (stride_stat (Suc n)) - e_last_address e)) e)
      \<lparr>e_last_address := st_mem_addr (stride_stat (Suc n))\<rparr>"
    using n by (auto simp: e_def e'_def insert_delta_def stride_stat_def dcpt_consts
        replicate_append_same)
  have cand: "delta_correlation e' = (if n = 2 then [256] else [])"
    using n by (auto simp: e'_def delta_correlation_def numeral_eq_Suc)
  have filt: "prefetch_filter no_cache (idle_sim 100) e' (delta_correlation e') {} =
      (if n = 2 then ([256], {256}) else ([], {}))"
    unfolding cand
    by (simp add: prefetch_filter_def in_mshr_queue_def in_cache_def no_cache_def e'_def
        MAX_QUEUE_SIZE_def MAX_PHYS_MEM_ADDR_def to_block_def BLOCK_SIZE_def)
  have iss: "issue_prefetches (if n = 2 then [256] else []) (idle_sim 100) = Inr (idle_sim 100)"
    by (simp add: issue_prefetches_def current_queue_size_def idle_sim_def MAX_QUEUE_SIZE_def)
  have "dcpt_prefetch_access no_cache (stride_stat (Suc n)) (stride_row n {}) (idle_sim 100) =
    Inr ((stride_row n {})\<lparr>table := (table (stride_row n {}))[table_index (st_pc (stride_stat (Suc n))) := e'],
         in_flight := (if n = 2 then {256} else {})\<rparr>, idle_sim 100)"
    using lk ins filt iss n
    by (intro dcpt_access_hit [where e = e and e' = e' and P = "if n = 2 then [256] else []"])
      (auto simp: e_def stride_stat_def stride_row_def)
  then show ?thesis by (simp add: stride_row_def e'_def idx stride_stat_def)
qed

text \<open>
  Runs with the prefetches under way: an access, during any call of the simulator with empty lists, adds the blocks it
  issues to those under way, and only a block that is under way completes.
\<close>

inductive flight_step :: "'c cache_ops \<Rightarrow> dcpt \<times> Addr set \<Rightarrow> dcpt \<times> Addr set \<Rightarrow> bool" for ops where
  access: "sim_lists s = Some ([], []) \<Longrightarrow> dcpt_prefetch_access ops stat d s = Inr (d', s') \<Longrightarrow> sim_lists s' = Some (new, ds) \<Longrightarrow>
    flight_step ops (d, U) (d', U \<union> set new)"
| complete: "b \<in> U \<Longrightarrow> flight_step ops (d, U) (dcpt_prefetch_complete b d, U - {b})"

inductive_cases flight_stepE: "flight_step ops (d, U) (d', U')"

text \<open>What is under way is marked in flight.\<close>

definition flight_ok :: "dcpt \<times> Addr set \<Rightarrow> bool" where
  "flight_ok = (\<lambda>(d, U). dcpt_inv d \<and> U \<subseteq> in_flight d)"

lemma flight_step_access:
  assumes "dcpt_inv d" "sim_lists s = Some ([], [])" "dcpt_prefetch_access ops stat d s = Inr (d', s')" "sim_lists s' = Some (new, ds)"
  shows "dcpt_inv d' \<and> in_flight d \<subseteq> in_flight d' \<and> set new \<subseteq> in_flight d' - in_flight d"
  by (rule dcpt_access_effect [OF assms(1,2), of ops stat]) (use assms(3,4) in auto)

lemma flight_step_ok: "flight_step ops x y \<Longrightarrow> flight_ok x \<Longrightarrow> flight_ok y"
proof (induction rule: flight_step.induct)
  case (access s stat d d' s' new ds U)
  then show ?case using flight_step_access [OF _ access(1-3)] by (auto simp: flight_ok_def)
next
  case (complete b U d)
  then have "to_block b = b" by (auto simp: flight_ok_def dcpt_inv_def flight_inv_def)
  then have "in_flight (dcpt_prefetch_complete b d) = in_flight d - {b}" by (simp add: dcpt_prefetch_complete_def)
  then show ?case using complete by (auto simp: flight_ok_def dcpt_inv_complete)
qed

definition leaked :: "Addr \<Rightarrow> dcpt \<times> Addr set \<Rightarrow> bool" where
  "leaked b = (\<lambda>(d, U). b \<in> in_flight d \<and> b \<notin> U)"

lemma flight_step_leaked: "flight_step ops x y \<Longrightarrow> flight_ok x \<Longrightarrow> leaked b x \<Longrightarrow> leaked b y"
proof (induction rule: flight_step.induct)
  case (access s stat d d' s' new ds U)
  then show ?case using flight_step_access [OF _ access(1-3)] by (auto simp: flight_ok_def leaked_def)
next
  case (complete c U d)
  then have "to_block c = c" by (auto simp: flight_ok_def dcpt_inv_def flight_inv_def)
  then show ?case using complete by (auto simp: leaked_def dcpt_prefetch_complete_def)
qed

lemma flight_steps_leaked:
  "(flight_step ops)\<^sup>*\<^sup>* x y \<Longrightarrow> flight_ok x \<Longrightarrow> leaked b x \<Longrightarrow> flight_ok y \<and> leaked b y"
  by (induction rule: rtranclp_induct) (blast intro: flight_step_ok flight_step_leaked)+

lemma flight_steps_ok: "(flight_step ops)\<^sup>*\<^sup>* x y \<Longrightarrow> flight_ok x \<Longrightarrow> flight_ok y"
  by (induction rule: rtranclp_induct) (blast intro: flight_step_ok)+

text \<open>
  C8: blocks leak into the in-flight set.  In any run from the initial state, let an access mark a block that
  it does not issue.  Then however the run goes on, with any accesses and with the completion of any
  prefetches that are under way, the block stays marked and is never issued.  So it is with every block
  that an access marks while the prefetch queue is full, when nothing is issued.
\<close>

theorem dcpt_in_flight_leak:
  assumes "(flight_step ops)\<^sup>*\<^sup>* (dcpt_start, {}) (d, U)"
    and "sim_lists s = Some ([], [])" "dcpt_prefetch_access ops stat d s = Inr (d1, s1)" "sim_lists s1 = Some (new, ds)"
    and "b \<in> in_flight d1" "b \<notin> in_flight d" "b \<notin> set new"
    and "(flight_step ops)\<^sup>*\<^sup>* (d1, U \<union> set new) (d2, U2)"
  shows "b \<in> in_flight d2 \<and> b \<notin> U2"
proof -
  have "flight_ok (dcpt_start, {})" by (simp add: flight_ok_def dcpt_inv_start)
  then have ok: "flight_ok (d, U)" by (rule flight_steps_ok [OF assms(1)])
  have "leaked b (d1, U \<union> set new)" using assms(5-7) ok by (auto simp: leaked_def flight_ok_def)
  moreover have "flight_ok (d1, U \<union> set new)" by (rule flight_step_ok [OF flight_step.access [OF assms(2-4)] ok])
  ultimately show ?thesis using flight_steps_leaked [OF assms(8)] by (simp add: leaked_def)
qed

text \<open>Three accesses of one instruction at stride 64 with the prefetch queue full mark the block 256.\<close>

lemma stride_run:
  "(flight_step no_cache)\<^sup>*\<^sup>* (dcpt_start, {}) (stride_row 2 {}, {})"
proof -
  have l: "sim_lists (idle_sim 100) = Some ([], [])" by (simp add: idle_sim_def)
  have s0: "stride_row 0 {} = dcpt_start"
    by (simp add: stride_row_def dcpt_start_def Entry_new_def list_update_same_conv TABLE_SIZE_def)
  have "flight_step no_cache (stride_row n {}, {}) (stride_row (Suc n) {}, {})" if "n < 2" for n
    using flight_step.access [OF l _ l, of no_cache "stride_stat (Suc n)" "stride_row n {}" "stride_row (Suc n) {}" "{}"]
      stride_row_access [of n] that by simp
  from this [of 0] this [of 1] show ?thesis by (simp add: s0 numeral_2_eq_2)
qed

definition other_stat :: AccessStat where
  "other_stat = \<lparr>st_pc = 98, st_mem_addr = 0, st_time = 0, st_miss = True\<rparr>"

definition other_row :: dcpt where
  "other_row = \<lparr>table = (table dcpt_start)[0 := Entry_new 98 0], in_flight = {256}\<rparr>"

text \<open>The block stays marked after an access of another instruction has taken over the entry that predicted it.\<close>

theorem dcpt_in_flight_leak_witness:
  "dcpt_prefetch_access no_cache (stride_stat 3) (stride_row 2 {}) (idle_sim 100) = Inr (stride_row 3 {256}, idle_sim 100) \<and>
   dcpt_prefetch_access no_cache other_stat (stride_row 3 {256}) (idle_sim 100) = Inr (other_row, idle_sim 100) \<and>
   256 \<in> in_flight other_row \<and> 256 \<notin> ({} :: Addr set)"
proof -
  have l: "sim_lists (idle_sim 100) = Some ([], [])" by (simp add: idle_sim_def)
  have a: "dcpt_prefetch_access no_cache (stride_stat 3) (stride_row 2 {}) (idle_sim 100) = Inr (stride_row 3 {256}, idle_sim 100)"
    using stride_row_access [of 2] by (simp add: numeral_eq_Suc)
  have b: "dcpt_prefetch_access no_cache other_stat (stride_row 3 {256}) (idle_sim 100) = Inr (other_row, idle_sim 100)"
    by (simp add: dcpt_prefetch_access_def other_stat_def other_row_def table_lookup_def table_index_def stride_row_def dcpt_start_def
        TABLE_SIZE_def Let_def)
  have m: "256 \<in> in_flight (stride_row 3 {256})" "256 \<notin> in_flight (stride_row 2 {})" "256 \<notin> set ([] :: Addr list)"
    by (simp_all add: stride_row_def)
  have "flight_step no_cache (stride_row 3 {256}, {}) (other_row, {})" using flight_step.access [OF l b l, of "{}"] by simp
  then have "(flight_step no_cache)\<^sup>*\<^sup>* (stride_row 3 {256}, {} \<union> set []) (other_row, {})" by simp
  from dcpt_in_flight_leak [OF stride_run l a l m this] a b show ?thesis by blast
qed

end
