(* ===== verification/Proxy.thy ===== *)
theory Proxy
  imports Prefetchers DCPT
begin

unbundle bit_operations_syntax

text \<open>
  \<open>mem/cache/prefetch/proxy.cc\<close>: the subclass of \<open>BasePrefetcher\<close> that hands every access
  to a user-written prefetcher, and the two user prefetchers of the repository,
  \<open>prefetcher/ts_54.cc\<close> (here) and \<open>prefetcher/prefetcher.cc\<close> (theory \<open>DCPT\<close>).

  The three functions a user prefetcher defines are a record of functions over its own
  globals and the simulator.  \<open>calculatePrefetch\<close> leaves \<open>_addresses\<close> and
  \<open>_delays\<close> pointing at lists that die with the call; they are \<open>None\<close> outside it.
\<close>

section \<open>The functions of a user prefetcher\<close>

record ('c, 'u) user_pf =
  up_init :: "'u \<Rightarrow> 'u"
  up_access :: "AccessStat \<Rightarrow> 'u \<Rightarrow> 'c pf_sim \<Rightarrow> ('u \<times> 'c pf_sim) res"
  up_complete :: "Addr \<Rightarrow> 'u \<Rightarrow> 'c pf_sim \<Rightarrow> 'u \<times> 'c pf_sim"

section \<open>The proxy\<close>

record ('c, 'u) proxy_pf =
  px_isInitialized :: bool
  px_user :: 'u
  px_cache :: 'c

definition ProxyPrefetcher :: "'u \<Rightarrow> 'c \<Rightarrow> ('c, 'u) proxy_pf" where
  "ProxyPrefetcher u c = \<lparr>px_isInitialized = False, px_user = u, px_cache = c\<rparr>"

definition proxy_sim :: "Tick \<Rightarrow> base_pf \<Rightarrow> ('c, 'u) proxy_pf \<Rightarrow> (Addr list \<times> Tick list) option \<Rightarrow> 'c pf_sim" where
  "proxy_sim latency b x ls =
     \<lparr>sim_cache = px_cache x, sim_queue = currentQueueSize b, sim_latency = latency, sim_lists = ls\<rparr>"

definition proxy_calculatePrefetch ::
  "'c cache_ops \<Rightarrow> ('c, 'u) user_pf \<Rightarrow> Tick \<Rightarrow> ('c, 'u) proxy_pf calc" where
  "proxy_calculatePrefetch ops up latency b x pkt =
     (if \<not> req_hasPC (p_req pkt) then Inr (b, x, [], [])
      else if \<not> req_hasContextId (p_req pkt) then Inr (b, x, [], [])
      else (let x = (if \<not> px_isInitialized x
                     then x\<lparr>px_isInitialized := True, px_user := up_init up (px_user x)\<rparr> else x)
            in bind_res (getAddr pkt) (\<lambda>addr.
               bind_res (req_getPC (p_req pkt)) (\<lambda>pc.
                 let stat = \<lparr>st_pc = pc, st_mem_addr = addr, st_time = p_time pkt,
                              st_miss = (\<not> co_inCache ops (px_cache x) addr)\<rparr>
                 in bind_res (up_access up stat (px_user x) (proxy_sim latency b x (Some ([], []))))
                      (\<lambda>(u, s). case sim_lists s of
                          None \<Rightarrow> Inl Undefined
                        | Some (as, ds) \<Rightarrow>
                            Inr (b, x\<lparr>px_user := u, px_cache := sim_cache s\<rparr>, as, ds))))))"

definition proxy_prefetchComplete ::
  "('c, 'u) user_pf \<Rightarrow> Tick \<Rightarrow> Packet \<Rightarrow> base_pf \<Rightarrow> ('c, 'u) proxy_pf \<Rightarrow> ('c, 'u) proxy_pf res" where
  "proxy_prefetchComplete up latency pkt b x =
     guard_res AssertFail (px_isInitialized x)
       (bind_res (getAddr pkt) (\<lambda>a.
          let (u, s) = up_complete up a (px_user x) (proxy_sim latency b x None)
          in Inr (x\<lparr>px_user := u, px_cache := sim_cache s\<rparr>)))"

section \<open>The tagged sequential prefetcher \<open>ts_54.cc\<close>\<close>

definition DEGREE :: nat where "DEGREE = 5"
definition DISTANCE :: nat where "DISTANCE = 3"

fun prefetch_several_loop :: "'c cache_ops \<Rightarrow> Addr \<Rightarrow> nat list \<Rightarrow> 'c pf_sim \<Rightarrow> 'c pf_sim res" where
  "prefetch_several_loop ops address [] s = Inr s"
| "prefetch_several_loop ops address (i # is) s =
     (let pf_addr = address + BLOCK_SIZE * of_nat (i + DISTANCE)
      in bind_res (if \<not> in_cache ops pf_addr s then issue_prefetch pf_addr s else Inr s)
           (prefetch_several_loop ops address is))"

definition prefetch_several :: "'c cache_ops \<Rightarrow> Addr \<Rightarrow> 'c pf_sim \<Rightarrow> 'c pf_sim res" where
  "prefetch_several ops address s = prefetch_several_loop ops address [0..<DEGREE] s"

definition ts_prefetch_init :: "unit \<Rightarrow> unit" where
  "ts_prefetch_init u = u"

definition ts_prefetch_access :: "'c cache_ops \<Rightarrow> AccessStat \<Rightarrow> unit \<Rightarrow> 'c pf_sim \<Rightarrow> (unit \<times> 'c pf_sim) res" where
  "ts_prefetch_access ops stat u s =
     bind_res (if st_miss stat then prefetch_several ops (st_mem_addr stat) s
               else if \<not> st_miss stat \<and> get_prefetch_bit ops (st_mem_addr stat) s
               then prefetch_several ops (st_mem_addr stat) s
               else Inr s)
       (\<lambda>s. Inr (u, s))"

definition ts_prefetch_complete :: "'c cache_ops \<Rightarrow> Addr \<Rightarrow> unit \<Rightarrow> 'c pf_sim \<Rightarrow> unit \<times> 'c pf_sim" where
  "ts_prefetch_complete ops addr u s = (u, set_prefetch_bit ops addr s)"

definition ts_user :: "'c cache_ops \<Rightarrow> ('c, unit) user_pf" where
  "ts_user ops = \<lparr>up_init = ts_prefetch_init, up_access = ts_prefetch_access ops,
     up_complete = ts_prefetch_complete ops\<rparr>"

definition dcpt_user :: "'c cache_ops \<Rightarrow> ('c, dcpt) user_pf" where
  "dcpt_user ops = \<lparr>up_init = dcpt_prefetch_init, up_access = dcpt_prefetch_access ops,
     up_complete = (\<lambda>a d s. (dcpt_prefetch_complete a d, s))\<rparr>"

section \<open>The contract of a user prefetcher\<close>

text \<open>
  What the simulator relies on: initialisation, access and completion keep the
  prefetcher's invariant; an access whose statistics satisfy \<open>upre\<close> returns, leaves the
  cache as it is and only appends block addresses with the configured latency.
\<close>

definition proxy_pre :: "(AccessStat \<Rightarrow> bool) \<Rightarrow> base_pf \<Rightarrow> Packet \<Rightarrow> bool" where
  "proxy_pre upre b pkt \<longleftrightarrow> pf_blkSize b = 64 \<and>
     (\<forall>pc tm miss. upre \<lparr>st_pc = pc, st_mem_addr = p_addr pkt, st_time = tm, st_miss = miss\<rparr>)"

locale user_prefetcher =
  fixes up :: "('c, 'u) user_pf" and uinv :: "'u \<Rightarrow> bool" and upre :: "AccessStat \<Rightarrow> bool"
  assumes init_ok: "uinv u \<Longrightarrow> uinv (up_init up u)"
  and access_ok: "uinv u \<Longrightarrow> upre stat \<Longrightarrow> sim_lists s = Some (as, ds) \<Longrightarrow>
    \<exists>u' new. up_access up stat u s =
        Inr (u', s\<lparr>sim_lists := Some (as @ new, ds @ replicate (length new) (sim_latency s))\<rparr>) \<and>
      uinv u' \<and> (\<forall>a \<in> set new. to_block a = a)"
  and complete_ok: "uinv u \<Longrightarrow> uinv (fst (up_complete up a u s))"
begin

lemma proxy_calc:
  assumes "uinv (px_user x)" and "proxy_pre upre b pkt" and "getAddr pkt = Inr a"
  shows "\<exists>x' as ds. proxy_calculatePrefetch ops up latency b x pkt = Inr (b, x', as, ds) \<and>
    px_cache x' = px_cache x \<and> uinv (px_user x') \<and> length as = length ds \<and> (\<forall>a \<in> set as. to_block a = a)"
proof (cases "req_hasPC (p_req pkt) \<and> req_hasContextId (p_req pkt)")
  case False
  then show ?thesis using assms(1) by (auto simp: proxy_calculatePrefetch_def)
next
  case True
  define x1 where "x1 = (if \<not> px_isInitialized x
    then x\<lparr>px_isInitialized := True, px_user := up_init up (px_user x)\<rparr> else x)"
  have x1: "uinv (px_user x1)" "px_cache x1 = px_cache x"
    using assms(1) init_ok by (simp_all add: x1_def)
  define stat where "stat = \<lparr>st_pc = r_pc (p_req pkt), st_mem_addr = a, st_time = p_time pkt,
    st_miss = (\<not> co_inCache ops (px_cache x1) a)\<rparr>"
  have "upre stat"
    using assms(2,3) by (auto simp: proxy_pre_def stat_def getAddr_def res_simps)
  from access_ok [OF x1(1) this, of "proxy_sim latency b x1 (Some ([], []))" "[]" "[]"]
  obtain u' new where u: "up_access up stat (px_user x1) (proxy_sim latency b x1 (Some ([], []))) =
      Inr (u', (proxy_sim latency b x1 (Some ([], [])))\<lparr>sim_lists := Some (new, replicate (length new) latency)\<rparr>)"
    "uinv u'" "\<forall>a \<in> set new. to_block a = a"
    by (auto simp: proxy_sim_def)
  have "proxy_calculatePrefetch ops up latency b x pkt =
      Inr (b, x1\<lparr>px_user := u', px_cache := px_cache x1\<rparr>, new, replicate (length new) latency)"
    using True assms(3) u(1) unfolding proxy_calculatePrefetch_def x1_def [symmetric] Let_def
    by (simp add: req_getPC_def req_hasPC_def stat_def) (simp add: proxy_sim_def)
  then show ?thesis using u x1 by simp
qed

lemma complete_keeps:
  assumes "uinv (px_user x)" and "px_isInitialized x" and "getAddr pkt = Inr a"
  obtains x' where "proxy_prefetchComplete up latency pkt b x = Inr x'" "uinv (px_user x')" "px_isInitialized x'"
proof -
  obtain u s where c: "up_complete up a (px_user x) (proxy_sim latency b x None) = (u, s)" by force
  then have "uinv u" using complete_ok [OF assms(1), of a] by (metis fst_conv)
  with c assms show thesis
    by (intro that [of "x\<lparr>px_user := u, px_cache := sim_cache s\<rparr>"])
      (simp_all add: proxy_prefetchComplete_def)
qed

end

lemma to_block_aligned: "to_block a = a \<longleftrightarrow> blk_aligned 64 a"
  by (simp add: to_block_align blk_aligned_def mask_eq_exp_minus_1)

sublocale user_prefetcher \<subseteq> engine: prefetch_engine "proxy_calculatePrefetch ops up latency"
  "\<lambda>x. uinv (px_user x)" "proxy_pre upre" for ops latency
proof
  fix b pkt a and x :: "('c, 'u) proxy_pf"
  assume "uinv (px_user x)" and pre: "proxy_pre upre b pkt" and "getAddr pkt = Inr a"
  from proxy_calc [OF this, of ops latency] obtain x' as ds where
    "proxy_calculatePrefetch ops up latency b x pkt = Inr (b, x', as, ds)" "uinv (px_user x')"
    "length as = length ds" "\<forall>a \<in> set as. to_block a = a" by blast
  then show "\<exists>b' x' as ds. proxy_calculatePrefetch ops up latency b x pkt = Inr (b', x', as, ds) \<and>
      same_queue b b' \<and> uinv (px_user x') \<and> length as = length ds \<and>
      (\<forall>x \<in> set as. blk_aligned (pf_blkSize b) x)"
    using pre by (simp add: same_queue_refl to_block_aligned proxy_pre_def)
qed (simp add: proxy_pre_def)

section \<open>Both user prefetchers meet the contract\<close>

interpretation dcpt: user_prefetcher "dcpt_user ops" dcpt_inv "\<lambda>_. True" for ops :: "'c cache_ops"
proof
  fix u stat and s :: "'c pf_sim" and as ds
  assume "dcpt_inv u" "sim_lists s = Some (as, ds)"
  then show "\<exists>u' new. up_access (dcpt_user ops) stat u s =
      Inr (u', s\<lparr>sim_lists := Some (as @ new, ds @ replicate (length new) (sim_latency s))\<rparr>) \<and>
      dcpt_inv u' \<and> (\<forall>a \<in> set new. to_block a = a)"
    unfolding dcpt_user_def by (rule dcpt_access_effect [where ops = ops and stat = stat]) auto
next
  fix u a s
  assume "dcpt_inv u"
  then show "dcpt_inv (fst (up_complete (dcpt_user ops) a u s))"
    by (auto simp: dcpt_user_def dcpt_inv_def dcpt_prefetch_complete_def flight_inv_def
        intro: order.trans [OF card_mono])
qed (simp add: dcpt_user_def dcpt_prefetch_init_def)

text \<open>The sequence of blocks an access of \<open>ts_54.cc\<close> asks for.\<close>

definition ts_blocks :: "'c cache_ops \<Rightarrow> 'c pf_sim \<Rightarrow> Addr \<Rightarrow> Addr list" where
  "ts_blocks ops s a = map to_block (filter (\<lambda>x. \<not> in_cache ops x s)
     (map (\<lambda>i. a + BLOCK_SIZE * of_nat (i + DISTANCE)) [0..<DEGREE]))"

lemma prefetch_several_loop_ok:
  assumes "sim_lists s = Some (as, ds)"
    and "\<forall>i \<in> set is. a + BLOCK_SIZE * of_nat (i + DISTANCE) \<le> MAX_PHYS_MEM_ADDR"
  shows "prefetch_several_loop ops a is s =
    (let new = map to_block (filter (\<lambda>x. \<not> in_cache ops x s)
                 (map (\<lambda>i. a + BLOCK_SIZE * of_nat (i + DISTANCE)) is))
     in Inr (s\<lparr>sim_lists := Some (as @ new, ds @ replicate (length new) (sim_latency s))\<rparr>))"
  using assms
proof (induction "is" arbitrary: s as ds)
  case (Cons i rest)
  define x where "x = a + BLOCK_SIZE * of_nat (i + DISTANCE)"
  show ?case
  proof (cases "in_cache ops x s")
    case True
    then show ?thesis
      using Cons by (simp add: x_def [symmetric] Let_def del: of_nat_add)
  next
    case False
    let ?s = "s\<lparr>sim_lists := Some (as @ [to_block x], ds @ [sim_latency s])\<rparr>"
    have x: "issue_prefetch x s = Inr ?s"
      using issue_prefetch_ok [OF Cons.prems(1)] Cons.prems(2) by (simp add: x_def to_block_align)
    then show ?thesis
      using False Cons.IH [of ?s "as @ [to_block x]" "ds @ [sim_latency s]"] Cons.prems(2)
      by (simp add: x_def [symmetric] Let_def replicate_app_Cons_same del: of_nat_add)
  qed
qed simp

definition ts_pre :: "AccessStat \<Rightarrow> bool" where
  "ts_pre stat \<longleftrightarrow> st_mem_addr stat \<le> MAX_PHYS_MEM_ADDR - 448"

lemma ts_pre_bound:
  assumes "a \<le> MAX_PHYS_MEM_ADDR - 448" and "i < DEGREE"
  shows "a + BLOCK_SIZE * of_nat (i + DISTANCE) \<le> MAX_PHYS_MEM_ADDR"
proof -
  have "i \<in> {0, 1, 2, 3, 4}" using assms(2) by (auto simp: DEGREE_def)
  moreover have "uint a \<le> 268435007" using assms(1) by (simp add: MAX_PHYS_MEM_ADDR_def word_le_def)
  ultimately show ?thesis using uint_ge_0 [of a]
    by (auto simp: word_le_def MAX_PHYS_MEM_ADDR_def BLOCK_SIZE_def DISTANCE_def uint_word_ariths(1))
qed

lemma prefetch_several_ok:
  assumes "sim_lists s = Some (as, ds)" and "a \<le> MAX_PHYS_MEM_ADDR - 448"
  shows "prefetch_several ops a s =
    Inr (s\<lparr>sim_lists := Some (as @ ts_blocks ops s a, ds @ replicate (length (ts_blocks ops s a)) (sim_latency s))\<rparr>)"
  using prefetch_several_loop_ok [OF assms(1), of "[0..<DEGREE]" a ops] ts_pre_bound [OF assms(2)]
  by (simp add: prefetch_several_def ts_blocks_def Let_def)

lemma ts_blocks_aligned: "b \<in> set (ts_blocks ops s a) \<Longrightarrow> to_block b = b"
  by (auto simp: ts_blocks_def)

interpretation ts: user_prefetcher "ts_user ops" "\<lambda>_. True" ts_pre for ops :: "'c cache_ops"
proof
  fix u stat and s :: "'c pf_sim" and as ds
  assume s: "ts_pre stat" "sim_lists s = Some (as, ds)"
  define new where "new = (if st_miss stat \<or> get_prefetch_bit ops (st_mem_addr stat) s
    then ts_blocks ops s (st_mem_addr stat) else [])"
  have "up_access (ts_user ops) stat u s =
      Inr (u, s\<lparr>sim_lists := Some (as @ new, ds @ replicate (length new) (sim_latency s))\<rparr>)"
    using prefetch_several_ok [OF s(2)] s by (simp add: ts_user_def ts_prefetch_access_def new_def ts_pre_def)
  moreover have "\<forall>a \<in> set new. to_block a = a" using ts_blocks_aligned by (auto simp: new_def)
  ultimately show "\<exists>u' new. up_access (ts_user ops) stat u s =
      Inr (u', s\<lparr>sim_lists := Some (as @ new, ds @ replicate (length new) (sim_latency s))\<rparr>) \<and>
      True \<and> (\<forall>a \<in> set new. to_block a = a)" by blast
qed simp_all

section \<open>Properties\<close>

lemma proxy_calc_dcpt:
  assumes "dcpt_inv (px_user x)" and "getAddr pkt = Inr a"
    and "proxy_calculatePrefetch ops (dcpt_user ops) latency b x pkt = Inr (b2, x', as, ds)"
  shows "px_cache x' = px_cache x \<and> length as \<le> MAX_DEGREE \<and> distinct as \<and>
    (MAX_QUEUE_SIZE \<le> currentQueueSize b \<longrightarrow> as = []) \<and>
    (\<forall>c \<in> set as. c \<le> MAX_PHYS_MEM_ADDR \<and> to_block c = c \<and> c \<notin> in_flight (px_user x) \<and>
       c \<in> in_flight (px_user x') \<and> \<not> co_inCache ops (px_cache x) c \<and> \<not> co_inMissQueue ops (px_cache x) c)"
proof (cases "req_hasPC (p_req pkt) \<and> req_hasContextId (p_req pkt)")
  case False
  then show ?thesis using assms(3) by (auto simp: proxy_calculatePrefetch_def split: if_splits)
next
  case True
  define s where "s = proxy_sim latency b x (Some ([], []))"
  define stat where "stat = \<lparr>st_pc = r_pc (p_req pkt), st_mem_addr = a, st_time = p_time pkt,
    st_miss = (\<not> co_inCache ops (px_cache x) a)\<rparr>"
  have s: "sim_lists s = Some ([], [])" "current_queue_size s = currentQueueSize b"
    by (simp_all add: s_def proxy_sim_def current_queue_size_def)
  have view: "in_cache ops c s = co_inCache ops (px_cache x) c"
    "in_mshr_queue ops c s = co_inMissQueue ops (px_cache x) c" if "to_block c = c" for c
    using that by (simp_all add: in_cache_def in_mshr_queue_def s_def proxy_sim_def to_block_align block_mask_eq)
  obtain d' new where d: "dcpt_prefetch_access ops stat (px_user x) s =
      Inr (d', s\<lparr>sim_lists := Some (new, replicate (length new) (sim_latency s))\<rparr>)"
    "distinct new" "length new \<le> MAX_DEGREE" "current_queue_size s \<ge> MAX_QUEUE_SIZE \<Longrightarrow> new = []"
    "\<And>c. c \<in> set new \<Longrightarrow> c \<le> MAX_PHYS_MEM_ADDR \<and> to_block c = c \<and> \<not> in_cache ops c s \<and>
       \<not> in_mshr_queue ops c s \<and> c \<notin> in_flight (px_user x) \<and> c \<in> in_flight d'"
    by (rule dcpt_access_effect [OF assms(1) s(1), of ops stat]) auto
  have "proxy_calculatePrefetch ops (dcpt_user ops) latency b x pkt =
      Inr (b, x\<lparr>px_isInitialized := True, px_user := d', px_cache := px_cache x\<rparr>, new,
           replicate (length new) (sim_latency s))"
    using True assms(2) d(1) unfolding proxy_calculatePrefetch_def Let_def
    by (cases "px_isInitialized x")
      (simp_all add: req_getPC_def req_hasPC_def stat_def [symmetric] dcpt_user_def
        dcpt_prefetch_init_def s_def proxy_sim_def)
  then show ?thesis using assms(3) d(2-5) s(2) view by (auto)
qed

text \<open>
  C1: The delta-correlating prefetcher in the simulator.  A cacheable access with a
  program counter and a context, handed to \<open>prefetcher.cc\<close> through the proxy, always
  completes: the prefetch queue stays well formed, the table and the in-flight set keep
  their invariant, the cache is not changed, and the queue afterwards is the queue
  without the accessed block with at most 19 new, distinct block addresses appended, each
  inside the simulated memory, newly in flight, and neither in the cache nor in its miss
  queue; with 100 entries queued nothing is added.
\<close>

theorem dcpt_notify_safe:
  assumes "pf_inv b" and "pf_blkSize b = 64" and "dcpt_inv (px_user x)" and "getAddr pkt = Inr a"
    and "ctx_ok pkt" and "\<not> pf_serialSquash b" and "\<not> pf_onlyData b" and "\<not> req_isUncacheable (p_req pkt)"
  shows "\<exists>r b' x' q new. notify (proxy_calculatePrefetch ops (dcpt_user ops) latency) now pkt tm b x = Inr (r, b', x') \<and>
    pf_inv b' \<and> dcpt_inv (px_user x') \<and> px_cache x' = px_cache x \<and>
    q = removeAll (to_block a) (pf_queue b) \<and>
    pf_queue b' = fold (enqueue (pf_size b)) new q \<and> length new \<le> MAX_DEGREE \<and> distinct new \<and>
    (MAX_QUEUE_SIZE \<le> length q \<longrightarrow> new = []) \<and>
    (\<forall>c \<in> set new. c \<le> MAX_PHYS_MEM_ADDR \<and> to_block c = c \<and> c \<notin> in_flight (px_user x) \<and>
       c \<in> in_flight (px_user x') \<and> \<not> co_inCache ops (px_cache x) c \<and> \<not> co_inMissQueue ops (px_cache x) c)"
proof -
  have pre: "proxy_pre (\<lambda>_. True) b pkt" using assms(2) by (simp add: proxy_pre_def)
  have blk: "a AND NOT (word_of_int (pf_blkSize b - 1)) = to_block a"
    using assms(2) by (simp add: to_block_align mask_eq_exp_minus_1)
  obtain as ds b1 b2 x' r b' where n:
    "pf_queue b1 = removeAll (to_block a) (pf_queue b)"
    "proxy_calculatePrefetch ops (dcpt_user ops) latency b1 x pkt = Inr (b2, x', as, ds)"
    "notify (proxy_calculatePrefetch ops (dcpt_user ops) latency) now pkt tm b x = Inr (r, b', x')"
    "pf_inv b'" "dcpt_inv (px_user x')" "pf_queue b' = fold (enqueue (pf_size b)) as (pf_queue b1)"
    by (rule dcpt.engine.notify_refines [where t = now and tm = tm and latency = latency and ops = ops
        and opsa = ops, OF assms(1,3) pre assms(4,5,6,8,7)]) (unfold blk, blast)
  have q: "currentQueueSize b1 = length (pf_queue b1)"
    by (simp add: currentQueueSize_def pf_queue_def)
  note e = proxy_calc_dcpt [OF assms(3,4) n(2), unfolded q]
  show ?thesis
    by (intro exI conjI, rule n(3), rule n(4), rule n(5), rule conjunct1 [OF e], rule n(1), rule n(6))
      (use e in blast)+
qed


definition demo_ctx_pkt :: "Addr \<Rightarrow> Addr \<Rightarrow> Packet" where
  "demo_ctx_pkt a pc = (demo_pkt a pc)\<lparr>p_req := req_setThreadContext 0 0 (p_req (demo_pkt a pc))\<rparr>"

lemma demo_ctx_pkt_simps:
  "getAddr (demo_ctx_pkt a pc) = Inr a" "ctx_ok (demo_ctx_pkt a pc)"
  "\<not> req_isUncacheable (p_req (demo_ctx_pkt a pc))" "req_hasContextId (p_req (demo_ctx_pkt a pc))"
  by (simp_all add: demo_ctx_pkt_def demo_pkt_def Packet_new_def Packet_base_def Let_def getAddr_def
      Request_new_def req_setThreadContext_def ctx_ok_def req_accessor_defs req_flag_defs pkt_flag_defs
      flag_simps flags_set_def)

theorem dcpt_notify_safe_witness:
  "\<exists>r b' x' new. notify (proxy_calculatePrefetch no_cache (dcpt_user no_cache) 10) 0 (demo_ctx_pkt 8000 4) 0
       demo_queue (ProxyPrefetcher dcpt_start ()) = Inr (r, b', x') \<and>
     pf_inv b' \<and> dcpt_inv (px_user x') \<and> pf_queue b' = fold (enqueue 4) new [] \<and> length new \<le> 19"
proof -
  have b: "pf_blkSize demo_queue = 64" "\<not> pf_serialSquash demo_queue" "\<not> pf_onlyData demo_queue"
    "pf_queue demo_queue = []" "pf_size demo_queue = 4"
    by (simp_all add: demo_queue_def pf_setCache_def BasePrefetcher_def pf_queue_def)
  have d: "dcpt_inv (px_user (ProxyPrefetcher dcpt_start ()))"
    by (simp add: ProxyPrefetcher_def dcpt_inv_start)
  show ?thesis
    using dcpt_notify_safe [OF demo_queue_inv b(1) d demo_ctx_pkt_simps(1,2) b(2,3) demo_ctx_pkt_simps(3),
        of no_cache 10 0 8000 4 0] b(4,5)
    unfolding MAX_DEGREE_def NUM_DELTAS_def by (elim exE conjE) auto
qed

text \<open>
  The tagged sequential prefetcher \<open>ts_54.cc\<close>.  For an access that leaves at least
  seven blocks of memory behind it: a miss, or the first kind of hit the scheme reacts to
  (a block whose prefetch bit is set), asks for the blocks at distance 3 to 7 that are not
  in the cache, in order, and any other hit asks for nothing.
\<close>

theorem ts_access_spec:
  assumes "sim_lists s = Some (as, ds)" and "st_mem_addr stat \<le> MAX_PHYS_MEM_ADDR - 448"
  shows "ts_prefetch_access ops stat u s =
    (let new = (if st_miss stat \<or> get_prefetch_bit ops (st_mem_addr stat) s
                then map to_block (filter (\<lambda>x. \<not> in_cache ops x s)
                       (map (\<lambda>i. st_mem_addr stat + 64 * i) [3, 4, 5, 6, 7]))
                else [])
     in Inr (u, s\<lparr>sim_lists := Some (as @ new, ds @ replicate (length new) (sim_latency s))\<rparr>))"
proof -
  have "[0..<DEGREE] = [0, 1, 2, 3, 4]" by (simp add: DEGREE_def upt_rec)
  then have "ts_blocks ops s (st_mem_addr stat) = map to_block (filter (\<lambda>x. \<not> in_cache ops x s)
      (map (\<lambda>i. st_mem_addr stat + 64 * i) [3, 4, 5, 6, 7]))"
    by (simp add: ts_blocks_def BLOCK_SIZE_def DISTANCE_def)
  then show ?thesis
    using prefetch_several_ok [OF assms(1,2), of ops] assms(1) by (simp add: ts_prefetch_access_def Let_def)
qed

theorem ts_access_spec_witness:
  "ts_prefetch_access no_cache \<lparr>st_pc = 4, st_mem_addr = 1000, st_time = 0, st_miss = True\<rparr> () (idle_sim 0) =
     Inr ((), (idle_sim 0)\<lparr>sim_lists := Some ([1152, 1216, 1280, 1344, 1408], [1, 1, 1, 1, 1])\<rparr>)"
proof -
  have s: "sim_lists (idle_sim 0) = Some ([], [])" "sim_latency (idle_sim 0) = 1"
    by (simp_all add: idle_sim_def)
  have "\<not> in_cache no_cache a (idle_sim 0)" for a by (simp add: in_cache_def no_cache_def)
  then show ?thesis
    using ts_access_spec [OF s(1), of "\<lparr>st_pc = 4, st_mem_addr = 1000, st_time = 0, st_miss = True\<rparr>" no_cache "()"] s
    by (simp add: MAX_PHYS_MEM_ADDR_def to_block_def BLOCK_SIZE_def)
qed

text \<open>
  \<open>ts_54.cc\<close> does not bound its addresses.  A miss in the last block of the simulated
  memory, with nothing cached, asks for a block outside it and the simulator stops with a
  fatal error.
\<close>

theorem ts_fatal_at_end_of_memory:
  "ts_prefetch_access no_cache \<lparr>st_pc = 4, st_mem_addr = MAX_PHYS_MEM_ADDR, st_time = 0, st_miss = True\<rparr> ()
     (idle_sim 0) = Inl Fatal"
proof -
  have "[0..<DEGREE] = [0, 1, 2, 3, 4]" by (simp add: DEGREE_def upt_rec)
  then show ?thesis
    by (simp add: ts_prefetch_access_def prefetch_several_def in_cache_def no_cache_def issue_prefetch_def
        idle_sim_def MAX_PHYS_MEM_ADDR_def BLOCK_SIZE_def DISTANCE_def)
qed

end
