(* ===== verification/Cache_Timing.thy ===== *)
theory Cache_Timing
  imports Cache_Access Proxy
begin

unbundle bit_operations_syntax

text \<open>
  The timing mode of the cache, \<open>mem/cache/cache_impl.hh\<close>: requests from the processor
  side, the choice of the next request to send, responses and snoops from the memory
  side, and the hand-over of accesses to the prefetcher.

  The prefetcher is a base object, the state of its subclass, and its two virtual methods
  (\<open>pf_methods\<close>), which may read and change the cache through the callbacks of
  \<open>Prefetch_Interface\<close>.  A \<open>ForwardResponseRecord\<close> is an entry of \<open>cs_records\<close> whose key,
  beyond the register indexes, is the \<open>senderState\<close> of the packet.  \<open>cs_snoops\<close> are the
  express snoops sent to the memory side.  The latency statistics are not modelled.
\<close>

section \<open>State\<close>

record 'e pf_methods =
  pm_notify :: "Tick \<Rightarrow> Packet \<Rightarrow> Tick \<Rightarrow> Cache \<Rightarrow> base_pf \<Rightarrow> 'e \<Rightarrow> (Tick \<times> Cache \<times> base_pf \<times> 'e) res"
  pm_complete :: "Packet \<Rightarrow> Cache \<Rightarrow> base_pf \<Rightarrow> 'e \<Rightarrow> (Cache \<times> base_pf \<times> 'e) res"

record 'e CacheSys =
  cs_cache :: Cache
  cs_prefetcher :: "(base_pf \<times> 'e) option"
  cs_prefetchOnAccess :: bool
  cs_records :: "(nat \<times> nat option \<times> int) list"
  cs_snoops :: "Packet list"

text \<open>The methods of a prefetcher that only has \<open>calculatePrefetch\<close>, and of the proxy.\<close>

definition engine_methods :: "'e calc \<Rightarrow> 'e pf_methods" where
  "engine_methods calc =
     \<lparr>pm_notify = (\<lambda>now pkt t c b e. bind_res (notify calc now pkt t b e) (\<lambda>(t, b, e). Inr (t, c, b, e))),
      pm_complete = (\<lambda>pkt c b e. Inr (c, base_prefetchComplete pkt b, e))\<rparr>"

definition proxy_methods :: "(Cache, 'u) user_pf \<Rightarrow> Tick \<Rightarrow> (Cache, 'u) proxy_pf pf_methods" where
  "proxy_methods up latency =
     \<lparr>pm_notify = (\<lambda>now pkt t c b x.
        bind_res (notify (proxy_calculatePrefetch cache_prefetch_ops up latency) now pkt t b (x\<lparr>px_cache := c\<rparr>))
          (\<lambda>(t, b, x). Inr (t, px_cache x, b, x))),
      pm_complete = (\<lambda>pkt c b x.
        bind_res (proxy_prefetchComplete up latency pkt b (x\<lparr>px_cache := c\<rparr>)) (\<lambda>x. Inr (px_cache x, b, x)))\<rparr>"

definition on_base :: "(BaseCache \<Rightarrow> BaseCache res) \<Rightarrow> 'e CacheSys \<Rightarrow> 'e CacheSys res" where
  "on_base f s = bind_res (f (cc_base (cs_cache s))) (\<lambda>b. Inr (s\<lparr>cs_cache := (cs_cache s)\<lparr>cc_base := b\<rparr>\<rparr>))"

definition upd_base :: "(BaseCache \<Rightarrow> BaseCache) \<Rightarrow> 'e CacheSys \<Rightarrow> 'e CacheSys" where
  "upd_base f s = s\<lparr>cs_cache := (cs_cache s)\<lparr>cc_base := f (cc_base (cs_cache s))\<rparr>\<rparr>"

definition cs_heap :: "'e CacheSys \<Rightarrow> heap" where
  "cs_heap s = c_heap (cc_base (cs_cache s))"

definition upd_ptr :: "BlkPtr \<Rightarrow> (CacheBlk \<Rightarrow> CacheBlk) \<Rightarrow> 'e CacheSys \<Rightarrow> 'e CacheSys" where
  "upd_ptr p f s = s\<lparr>cs_cache := set_blk p f (cs_cache s)\<rparr>"

definition invalidate :: "BlkPtr option \<Rightarrow> 'e CacheSys \<Rightarrow> 'e CacheSys res" where
  "invalidate blk s =
     (case blk of
        None \<Rightarrow> Inr s
      | Some p \<Rightarrow> bind_res (invalidate_ptr p (cs_cache s)) (\<lambda>c. Inr (s\<lparr>cs_cache := c\<rparr>)))"

section \<open>Helpers of the access path\<close>

definition write_buffer :: "Tick \<Rightarrow> Packet \<Rightarrow> Tick \<Rightarrow> 'e CacheSys \<Rightarrow> 'e CacheSys res" where
  "write_buffer curTick pkt time s =
     on_base (\<lambda>b. bind_res (allocateWriteBuffer curTick pkt time True b) (\<lambda>(_, b). Inr b)) s"

fun copy_writebacks :: "Tick \<Rightarrow> Tick \<Rightarrow> Packet list \<Rightarrow> 'e CacheSys \<Rightarrow> 'e CacheSys res" where
  "copy_writebacks curTick time [] s = Inr s"
| "copy_writebacks curTick time (wb # wbs) s =
     bind_res (write_buffer curTick wb time s) (copy_writebacks curTick time wbs)"

definition notify_prefetcher :: "'e pf_methods \<Rightarrow> Tick \<Rightarrow> Packet \<Rightarrow> Tick \<Rightarrow> 'e CacheSys \<Rightarrow> (Tick \<times> 'e CacheSys) res" where
  "notify_prefetcher pm curTick pkt time s =
     (case cs_prefetcher s of
        None \<Rightarrow> Inl Undefined
      | Some (b, e) \<Rightarrow>
          bind_res (pm_notify pm curTick pkt time (cs_cache s) b e) (\<lambda>(t, c, b, e).
            Inr (t, s\<lparr>cs_cache := c, cs_prefetcher := Some (b, e)\<rparr>)))"

definition cpu_respond :: "Tick \<Rightarrow> Tick \<Rightarrow> Packet \<Rightarrow> Tick \<Rightarrow> 'e CacheSys \<Rightarrow> 'e CacheSys res" where
  "cpu_respond ms curTick pkt time s =
     on_base (\<lambda>b. bind_res (respond ms curTick pkt time (c_cpuSidePort b)) (\<lambda>p. Inr (b\<lparr>c_cpuSidePort := p\<rparr>))) s"

definition mem_respond :: "Tick \<Rightarrow> Tick \<Rightarrow> Packet \<Rightarrow> Tick \<Rightarrow> 'e CacheSys \<Rightarrow> 'e CacheSys res" where
  "mem_respond ms curTick pkt time s =
     on_base (\<lambda>b. bind_res (respond ms curTick pkt time (c_memSidePort b)) (\<lambda>p. Inr (b\<lparr>c_memSidePort := p\<rparr>))) s"

definition was_prefetched :: "BlkPtr option \<Rightarrow> Cache \<Rightarrow> bool" where
  "was_prefetched blk c = (case blk of None \<Rightarrow> False | Some p \<Rightarrow> blk_wasPrefetched (the_blk p c))"

section \<open>\<open>timingAccess\<close>\<close>

text \<open>A satisfied access.\<close>

definition timing_hit ::
  "'e pf_methods \<Rightarrow> Tick \<Rightarrow> Tick \<Rightarrow> Tick \<Rightarrow> bool \<Rightarrow> BlkPtr option \<Rightarrow> int \<Rightarrow> Packet \<Rightarrow> 'e CacheSys \<Rightarrow> (Tick \<times> 'e CacheSys) res" where
  "timing_hit pm ms curTick time needsResponse blk lat pkt s =
     bind_res
       (if cs_prefetcher s \<noteq> None \<and> (cs_prefetchOnAccess s \<or> was_prefetched blk (cs_cache s))
        then bind_res (notify_prefetcher pm curTick pkt time s) (\<lambda>(t, s).
               Inr (t, if was_prefetched blk (cs_cache s)
                       then upd_base (\<lambda>b. b\<lparr>c_prefetchHits := c_prefetchHits b + 1\<rparr>)
                              (upd_ptr (the blk) (\<lambda>k. k\<lparr>blk_status := blk_status k AND NOT BlkHWPrefetched\<rparr>) s)
                       else s))
        else Inr (0, s)) (\<lambda>(next_pf_time, s).
     bind_res
       (if needsResponse
        then bind_res (makeTimingResponse pkt) (\<lambda>pkt. cpu_respond ms curTick pkt (curTick + lat) s)
        else Inr s) (\<lambda>s.
     Inr (next_pf_time, s)))"

text \<open>A miss: it joins the register of its block, or gets a register or a write buffer.\<close>

definition join_mshr :: "Tick \<Rightarrow> nat \<Rightarrow> Packet \<Rightarrow> Tick \<Rightarrow> 'e CacheSys \<Rightarrow> 'e CacheSys res" where
  "join_mshr curTick m pkt time s =
     on_base (\<lambda>b.
       let b = b\<lparr>c_mshr_hits := (c_mshr_hits b)(p_cmd pkt := c_mshr_hits b (p_cmd pkt) + 1)\<rparr>;
           h = (if m_threadNum (c_heap b ! m) \<noteq> 0 then upd_mshr m (\<lambda>k. k\<lparr>m_threadNum := -1\<rparr>) (c_heap b) else c_heap b)
       in bind_res (mshr_allocateTarget curTick m pkt time (c_order b) h) (\<lambda>h.
          let b = b\<lparr>c_heap := h, c_order := c_order b + 1\<rparr>
          in if getNumTargets (h ! m) = c_numTarget b
             then setBlocked curTick Blocked_NoTargets (b\<lparr>c_noTargetMSHR := Some m\<rparr>)
             else Inr b)) s"

definition new_miss :: "Tick \<Rightarrow> Packet \<Rightarrow> Tick \<Rightarrow> BlkPtr option \<Rightarrow> 'e CacheSys \<Rightarrow> 'e CacheSys res" where
  "new_miss curTick pkt time blk s =
     (let s = upd_base (\<lambda>b. b\<lparr>c_mshr_misses := (c_mshr_misses b)(p_cmd pkt := c_mshr_misses b (p_cmd pkt) + 1)\<rparr>) s
      in if p_cmd pkt = Writeback then write_buffer curTick pkt time s
         else bind_res
           (case blk of
              None \<Rightarrow> Inr s
            | Some p \<Rightarrow>
                if blk_isValid (the_blk p (cs_cache s))
                then guard_res AssertFail (pkt_needsExclusive pkt \<and> \<not> blk_isWritable (the_blk p (cs_cache s)))
                       (Inr (upd_ptr p (\<lambda>k. k\<lparr>blk_status := blk_status k AND NOT BlkReadable\<rparr>) s))
                else Inr s)
           (on_base (\<lambda>b. bind_res (allocateMissBuffer curTick pkt time True b) (\<lambda>(_, b). Inr b))))"

definition timing_miss ::
  "'e pf_methods \<Rightarrow> Tick \<Rightarrow> Tick \<Rightarrow> BlkPtr option \<Rightarrow> Packet \<Rightarrow> 'e CacheSys \<Rightarrow> (Tick \<times> 'e CacheSys) res" where
  "timing_miss pm curTick time blk pkt s =
     bind_res (getAddr pkt) (\<lambda>addr.
       case q_findMatch (cs_heap s) (blockAlign (cc_base (cs_cache s)) addr) (c_mshrQueue (cc_base (cs_cache s))) of
         Some m \<Rightarrow> bind_res (join_mshr curTick m pkt time s) (\<lambda>s. Inr (0, s))
       | None \<Rightarrow>
           bind_res (new_miss curTick pkt time blk s) (\<lambda>s.
             if cs_prefetcher s \<noteq> None then notify_prefetcher pm curTick pkt time s else Inr (0, s)))"

text \<open>The packet goes on: an uncacheable request, or the access itself.\<close>

definition uncached_access :: "Tick \<Rightarrow> Packet \<Rightarrow> Tick \<Rightarrow> 'e CacheSys \<Rightarrow> 'e CacheSys res" where
  "uncached_access curTick pkt time s =
     bind_res
       (if pkt_isWrite pkt \<and> \<not> pkt_isRead pkt then write_buffer curTick pkt time s
        else on_base (\<lambda>b. bind_res (allocateUncachedReadBuffer curTick pkt time True b) (\<lambda>(_, b). Inr b)) s) (\<lambda>s.
     guard_res AssertFail (pkt_needsResponse pkt) (Inr s))"

definition cached_access :: "'e pf_methods \<Rightarrow> Tick \<Rightarrow> Tick \<Rightarrow> Packet \<Rightarrow> Tick \<Rightarrow> 'e CacheSys \<Rightarrow> 'e CacheSys res" where
  "cached_access pm ms curTick pkt time s =
     bind_res (cache_access curTick pkt (cs_cache s)) (\<lambda>r.
       let s = s\<lparr>cs_cache := ar_cache r\<rparr>; pkt = ar_pkt r; needsResponse = pkt_needsResponse pkt
       in bind_res
            (if ar_satisfied r then timing_hit pm ms curTick time needsResponse (ar_blk r) (ar_lat r) pkt s
             else timing_miss pm curTick time (ar_blk r) pkt s) (\<lambda>(next_pf_time, s).
          bind_res
            (if next_pf_time \<noteq> 0 then on_base (requestMemSideBus curTick (max time next_pf_time)) s else Inr s)
            (copy_writebacks curTick time (ar_writebacks r))))"

definition timingAccess :: "'e pf_methods \<Rightarrow> Tick \<Rightarrow> Tick \<Rightarrow> Packet \<Rightarrow> 'e CacheSys \<Rightarrow> (bool \<times> 'e CacheSys) res" where
  "timingAccess pm ms curTick pkt s =
     (let time = curTick + c_hitLatency (cc_base (cs_cache s))
      in if pkt_isResponse pkt
         then (case p_senderState pkt of
                 None \<Rightarrow> Inl AssertFail
               | Some k \<Rightarrow>
                   case map_of (cs_records s) k of
                     None \<Rightarrow> Inl AssertFail
                   | Some (prevSenderState, prevSrc) \<Rightarrow>
                       let pkt = setDest prevSrc (pkt\<lparr>p_senderState := prevSenderState\<rparr>);
                           s = s\<lparr>cs_records := filter (\<lambda>r. fst r \<noteq> k) (cs_records s)\<rparr>
                       in bind_res (mem_respond ms curTick pkt time s) (\<lambda>s. Inr (True, s)))
         else guard_res AssertFail (pkt_isRequest pkt)
           (if memInhibitAsserted pkt
            then guard_res AssertFail (\<not> req_isUncacheable (p_req pkt))
                   (Inr (True, if pkt_needsExclusive pkt \<and> \<not> isSupplyExclusive pkt
                               then s\<lparr>cs_snoops := cs_snoops s @
                                        [assertMemInhibit (setExpressSnoop (Packet_copy curTick pkt True))]\<rparr>
                               else s))
            else if req_isUncacheable (p_req pkt)
            then bind_res (uncached_access curTick pkt time s) (\<lambda>s. Inr (True, s))
            else bind_res (cached_access pm ms curTick pkt time s) (\<lambda>s. Inr (True, s))))"

text \<open>\<open>CpuSidePort::recvTiming\<close>\<close>

definition cpu_recvTiming :: "'e pf_methods \<Rightarrow> Tick \<Rightarrow> Tick \<Rightarrow> Packet \<Rightarrow> 'e CacheSys \<Rightarrow> (bool \<times> 'e CacheSys) res" where
  "cpu_recvTiming pm ms curTick pkt s =
     (if pkt_isRequest pkt \<and> \<not> memInhibitAsserted pkt \<and> cp_blocked (c_cpuSidePort (cc_base (cs_cache s)))
      then Inr (False, upd_base (\<lambda>b. b\<lparr>c_cpuSidePort := (c_cpuSidePort b)\<lparr>cp_mustSendRetry := True\<rparr>\<rparr>) s)
      else bind_res (timingAccess pm ms curTick pkt s) (\<lambda>(_, s). Inr (True, s)))"

section \<open>Choosing the next request\<close>

text \<open>A register of one of the two queues.\<close>

type_synonym mshr_ref = "MSHRQueueIndex \<times> nat"

text \<open>Between a ready miss and a ready write.\<close>

definition choose_pending :: "nat option \<Rightarrow> nat option \<Rightarrow> BaseCache \<Rightarrow> mshr_ref option" where
  "choose_pending miss_mshr write_mshr b =
     (let h = c_heap b
      in case (miss_mshr, write_mshr) of
           (Some m, None) \<Rightarrow> Some (MSHRQueue_MSHRs, m)
         | (None, Some w) \<Rightarrow> Some (MSHRQueue_WriteBuffer, w)
         | (None, None) \<Rightarrow> None
         | (Some m, Some w) \<Rightarrow>
             if q_isFull (c_writeBuffer b) \<and> q_inServiceEntries (c_writeBuffer b) = 0
             then (case q_findPending h (m_addr (h ! w)) (m_size (h ! w)) (c_mshrQueue b) of
                     Some k \<Rightarrow> if m_order (h ! k) < m_order (h ! w) then Some (MSHRQueue_MSHRs, k)
                                else Some (MSHRQueue_WriteBuffer, w)
                   | None \<Rightarrow> Some (MSHRQueue_WriteBuffer, w))
             else (case q_findPending h (m_addr (h ! m)) (m_size (h ! m)) (c_writeBuffer b) of
                     Some k \<Rightarrow> Some (MSHRQueue_WriteBuffer, k)
                   | None \<Rightarrow> Some (MSHRQueue_MSHRs, m)))"

text \<open>
  The loop over the prefetch queue.  Every round takes a packet out of the queue, so the
  number of queued packets bounds the rounds.
\<close>

function issue_prefetch_loop :: "Tick \<Rightarrow> 'e CacheSys \<Rightarrow> (mshr_ref option \<times> 'e CacheSys) res" where
  "issue_prefetch_loop curTick s =
     (case cs_prefetcher s of
        None \<Rightarrow> Inr (None, s)
      | Some (b, e) \<Rightarrow>
          if nextPrefetchReadyTime b \<le> curTick
          then (case getPacket b of
                  (None, b) \<Rightarrow> Inr (None, s\<lparr>cs_prefetcher := Some (b, e)\<rparr>)
                | (Some pkt, b) \<Rightarrow>
                    let s = s\<lparr>cs_prefetcher := Some (b, e)\<rparr>
                    in bind_res (getAddr pkt) (\<lambda>a.
                         let pf_addr = blockAlign (cc_base (cs_cache s)) a
                         in if \<not> cache_inCache (cs_cache s) pf_addr \<and> \<not> cache_inMissQueue (cs_cache s) pf_addr
                            then (let c = cs_cache s;
                                      c = c\<lparr>cc_base := (cc_base c)\<lparr>c_mshr_misses :=
                                        (c_mshr_misses (cc_base c))(p_cmd pkt := c_mshr_misses (cc_base c) (p_cmd pkt) + 1)\<rparr>\<rparr>
                                  in bind_res (allocateMissBuffer curTick pkt curTick False (cc_base c)) (\<lambda>(i, base).
                                       Inr (Some (MSHRQueue_MSHRs, i), s\<lparr>cs_cache := c\<lparr>cc_base := base\<rparr>\<rparr>)))
                            else issue_prefetch_loop curTick s))
          else Inr (None, s))"
  by pat_completeness auto

termination issue_prefetch_loop
  by (relation "measure (\<lambda>(t, s). case cs_prefetcher s of None \<Rightarrow> 0 | Some (b, e) \<Rightarrow> length (pf b))")
    (auto simp: getPacket_def split: list.splits)

declare issue_prefetch_loop.simps [simp del]

definition getNextMSHR :: "Tick \<Rightarrow> 'e CacheSys \<Rightarrow> (mshr_ref option \<times> 'e CacheSys) res" where
  "getNextMSHR curTick s =
     (let b = cc_base (cs_cache s);
          miss_mshr = q_getNextMSHR curTick (c_heap b) (c_mshrQueue b);
          write_mshr = q_getNextMSHR curTick (c_heap b) (c_writeBuffer b)
      in case choose_pending miss_mshr write_mshr b of
           Some r \<Rightarrow> Inr (Some r, s)
         | None \<Rightarrow>
             if cs_prefetcher s \<noteq> None \<and> \<not> q_isFull (c_mshrQueue b) then issue_prefetch_loop curTick s
             else Inr (None, s))"

definition nextMSHRReadyTime :: "'e CacheSys \<Rightarrow> Tick" where
  "nextMSHRReadyTime s =
     (let b = cc_base (cs_cache s);
          t = min (q_nextMSHRReadyTime (c_heap b) (c_mshrQueue b)) (q_nextMSHRReadyTime (c_heap b) (c_writeBuffer b))
      in case cs_prefetcher s of None \<Rightarrow> t | Some (p, e) \<Rightarrow> min t (nextPrefetchReadyTime p))"

definition cache_markInService :: "Tick \<Rightarrow> mshr_ref \<Rightarrow> 'e CacheSys \<Rightarrow> 'e CacheSys res" where
  "cache_markInService curTick r s = on_base (markInServiceInternal curTick (fst r) (snd r)) s"

definition cache_squash :: "Tick \<Rightarrow> int \<Rightarrow> BaseCache \<Rightarrow> BaseCache res" where
  "cache_squash curTick threadNum b =
     (let (unblock, cause, b) =
            (case c_noTargetMSHR b of
               Some m \<Rightarrow> if m_threadNum (c_heap b ! m) = threadNum
                          then (True, Blocked_NoTargets, b\<lparr>c_noTargetMSHR := None\<rparr>)
                          else (False, NUM_BLOCKED_CAUSES, b)
             | None \<Rightarrow> (False, NUM_BLOCKED_CAUSES, b));
          (unblock, cause) = (if q_isFull (c_mshrQueue b) then (True, Blocked_NoMSHRs) else (unblock, cause))
      in bind_res (q_squash threadNum (c_mshrQueue b) (c_heap b)) (\<lambda>(q, h).
         let b = b\<lparr>c_mshrQueue := q, c_heap := h\<rparr>
         in if unblock \<and> \<not> q_isFull q then clearBlocked curTick cause b else Inr b))"

section \<open>Snoops\<close>

definition doTimingSupplyResponse ::
  "Tick \<Rightarrow> Tick \<Rightarrow> Packet \<Rightarrow> pkt_data \<Rightarrow> bool \<Rightarrow> bool \<Rightarrow> 'e CacheSys \<Rightarrow> 'e CacheSys res" where
  "doTimingSupplyResponse ms curTick req_pkt data already_copied pending_inval s =
     (let pkt = (if already_copied then req_pkt else Packet_copy curTick req_pkt False);
          b = cc_base (cs_cache s)
      in guard_res AssertFail (pkt_isInvalidate req_pkt \<or> sharedAsserted pkt)
         (bind_res (allocate pkt) (\<lambda>pkt.
          bind_res (makeTimingResponse pkt) (\<lambda>pkt.
          bind_res (if pkt_isRead pkt then setDataFromBlock data (int (c_blkSize b)) pkt else Inr pkt) (\<lambda>pkt.
            let pkt = (if p_cmd pkt = ReadResp \<and> pending_inval then pkt\<lparr>p_cmd := ReadRespWithInvalidate\<rparr> else pkt)
            in mem_respond ms curTick pkt (curTick + c_hitLatency b) s)))))"

text \<open>
  Forwarding a snoop upward.  \<open>up\<close> is what the caches above do to the packet; a record is
  kept when one of them will respond.
\<close>

definition fresh_record :: "'e CacheSys \<Rightarrow> nat" where
  "fresh_record s = Suc (fold max (map fst (cs_records s)) (length (cs_heap s)))"

definition forward_snoop ::
  "(Packet \<Rightarrow> Packet) \<Rightarrow> Tick \<Rightarrow> bool \<Rightarrow> Packet \<Rightarrow> 'e CacheSys \<Rightarrow> (Packet \<times> 'e CacheSys) res" where
  "forward_snoop up curTick is_timing pkt s =
     (let alreadyResponded = memInhibitAsserted pkt
      in if is_timing
         then bind_res (getSrc pkt) (\<lambda>src.
              let k = fresh_record s;
                  snoopPkt = up ((setExpressSnoop (Packet_copy curTick pkt True))\<lparr>p_senderState := Some k\<rparr>);
                  r = (k, p_senderState pkt, src)
              in bind_res
                   (if memInhibitAsserted snoopPkt
                    then guard_res AssertFail (\<not> alreadyResponded)
                           (Inr (assertMemInhibit pkt, s\<lparr>cs_records := r # cs_records s\<rparr>))
                    else Inr (pkt, s)) (\<lambda>(pkt, s).
                 Inr (if sharedAsserted snoopPkt then assertShared pkt else pkt, s)))
         else bind_res (getSrc pkt) (\<lambda>origSrc.
              let pkt = up pkt
              in guard_res AssertFail (\<not> alreadyResponded \<and> memInhibitAsserted pkt \<longrightarrow> pkt_isResponse pkt)
                   (Inr (setSrc origSrc pkt, s))))"

definition cache_handleSnoop ::
  "(Packet \<Rightarrow> Packet) \<Rightarrow> Tick \<Rightarrow> Tick \<Rightarrow> Packet \<Rightarrow> BlkPtr option \<Rightarrow> bool \<Rightarrow> bool \<Rightarrow> bool \<Rightarrow> 'e CacheSys \<Rightarrow>
     (Packet \<times> 'e CacheSys) res" where
  "cache_handleSnoop up ms curTick pkt blk is_timing is_deferred pending_inval s =
     guard_res AssertFail (\<not> (is_deferred \<and> \<not> is_timing))
     (guard_res AssertFail (\<not> (pending_inval \<and> \<not> is_deferred))
     (guard_res AssertFail (pkt_isRequest pkt)
     (bind_res
        (if c_forwardSnoops (cc_base (cs_cache s)) then forward_snoop up curTick is_timing pkt s else Inr (pkt, s)) (\<lambda>(pkt, s).
      case blk of
        None \<Rightarrow> Inr (pkt, s)
      | Some p \<Rightarrow>
          let b = the_blk p (cs_cache s)
          in if \<not> blk_isValid b then Inr (pkt, s)
             else
               let wants = blk_isDirty b \<and> pkt_needsResponse pkt; have_exclusive = blk_isWritable b;
                   inval = pkt_isInvalidate pkt
               in bind_res
                    (if pkt_isRead pkt \<and> \<not> pkt_isInvalidate pkt
                     then guard_res AssertFail (\<not> pkt_needsExclusive pkt)
                            (Inr (assertShared pkt, upd_ptr p (\<lambda>k. k\<lparr>blk_status := blk_status k AND NOT BlkWritable\<rparr>) s))
                     else Inr (pkt, s)) (\<lambda>(pkt, s).
                  bind_res
                    (if wants
                     then guard_res AssertFail (\<not> memInhibitAsserted pkt)
                       (let pkt = assertMemInhibit pkt;
                            pkt = (if have_exclusive then setSupplyExclusive pkt else pkt)
                        in if is_timing
                           then bind_res (doTimingSupplyResponse ms curTick pkt (blk_data (the_blk p (cs_cache s)))
                                            is_deferred pending_inval s) (\<lambda>s. Inr (pkt, s))
                           else bind_res (makeAtomicResponse pkt) (\<lambda>pkt.
                                bind_res (setDataFromBlock (blk_data (the_blk p (cs_cache s)))
                                            (int (c_blkSize (cc_base (cs_cache s)))) pkt) (\<lambda>pkt.
                                  Inr (pkt, s))))
                     else Inr (pkt, s)) (\<lambda>(pkt, s).
                  bind_res (if inval then invalidate (Some p) s else Inr s) (\<lambda>s. Inr (pkt, s)))))))) "

definition snoopAtomic ::
  "(Packet \<Rightarrow> Packet) \<Rightarrow> Tick \<Rightarrow> Tick \<Rightarrow> Packet \<Rightarrow> 'e CacheSys \<Rightarrow> (int \<times> Packet \<times> 'e CacheSys) res" where
  "snoopAtomic up ms curTick pkt s =
     (let lat = c_hitLatency (cc_base (cs_cache s))
      in if req_isUncacheable (p_req pkt) \<or> p_cmd pkt = Writeback then Inr (lat, pkt, s)
         else bind_res (getAddr pkt) (\<lambda>a.
              bind_res (cache_handleSnoop up ms curTick pkt (cache_findBlock (cs_cache s) a) False False False s)
                (\<lambda>(pkt, s). Inr (lat, pkt, s))))"

text \<open>
  \<open>snoopTiming\<close>: the register of the block may take the snoop over, a buffered writeback of
  the block may answer it, and the block itself is snooped last.  The first matching
  writeback is the only one looked at.
\<close>

definition snoop_writeback ::
  "Tick \<Rightarrow> Tick \<Rightarrow> nat \<Rightarrow> Packet \<Rightarrow> 'e CacheSys \<Rightarrow> (Packet \<times> 'e CacheSys) res" where
  "snoop_writeback ms curTick w pkt s =
     (let m = cs_heap s ! w
      in guard_res AssertFail (\<not> m_isUncacheable m)
        (guard_res AssertFail (getNumTargets m = 1)
        (bind_res (getTarget m) (\<lambda>tgt.
           guard_res AssertFail (p_cmd (t_pkt tgt) = Writeback)
          (guard_res AssertFail (\<not> memInhibitAsserted pkt)
          (let pkt = assertMemInhibit pkt
           in bind_res
                (if \<not> pkt_needsExclusive pkt then Inr (assertShared pkt)
                 else guard_res AssertFail (pkt_isInvalidate pkt) (Inr pkt)) (\<lambda>pkt.
              bind_res (getPtr (t_pkt tgt)) (\<lambda>data.
              bind_res (doTimingSupplyResponse ms curTick pkt data False False s) (\<lambda>s.
              bind_res
                (if pkt_isInvalidate pkt then cache_markInService curTick (MSHRQueue_WriteBuffer, w) s else Inr s) (\<lambda>s.
              Inr (pkt, s)))))))))))"

definition snoopTiming ::
  "(Packet \<Rightarrow> Packet) \<Rightarrow> Tick \<Rightarrow> Tick \<Rightarrow> Packet \<Rightarrow> 'e CacheSys \<Rightarrow> (Packet \<times> 'e CacheSys) res" where
  "snoopTiming up ms curTick pkt s =
     (if req_isUncacheable (p_req pkt) \<or> p_cmd pkt = Writeback then Inr (pkt, s)
      else bind_res (getAddr pkt) (\<lambda>a.
        let blk = cache_findBlock (cs_cache s) a; blk_addr = blockAlign (cc_base (cs_cache s)) a
        in bind_res
             (case q_findMatch (cs_heap s) blk_addr (c_mshrQueue (cc_base (cs_cache s))) of
                None \<Rightarrow> Inr (False, pkt, s)
              | Some m \<Rightarrow>
                  bind_res (mshr_handleSnoop curTick m pkt (c_order (cc_base (cs_cache s))) (cs_heap s)) (\<lambda>(taken, pkt, h).
                    Inr (taken, pkt, upd_base (\<lambda>b. b\<lparr>c_heap := h, c_order := c_order b + 1\<rparr>) s))) (\<lambda>(taken, pkt, s).
           if taken then Inr (pkt, s)
           else bind_res
                  (case snd (q_findMatches (cs_heap s) blk_addr (c_writeBuffer (cc_base (cs_cache s)))) of
                     [] \<Rightarrow> Inr (pkt, s)
                   | w # _ \<Rightarrow> snoop_writeback ms curTick w pkt s) (\<lambda>(pkt, s).
                cache_handleSnoop up ms curTick pkt blk True False False s))))"

section \<open>Responses\<close>

definition mshr_queue_of :: "nat \<Rightarrow> BaseCache \<Rightarrow> MSHRQueueIndex" where
  "mshr_queue_of i b = (if i < nat (q_numEntries (c_mshrQueue b)) then MSHRQueue_MSHRs else MSHRQueue_WriteBuffer)"

text \<open>What the response \<open>pkt\<close> does for a request of the processor side that waited for it.\<close>

definition answer_target ::
  "Packet \<Rightarrow> bool \<Rightarrow> bool \<Rightarrow> BlkPtr option \<Rightarrow> int \<Rightarrow> Packet \<Rightarrow> Cache \<Rightarrow> (Tick \<times> Packet \<times> Cache) res" where
  "answer_target pkt is_fill is_error blk initial_offset tpkt c =
     (let lat = int (getHitLatency (cc_tags c)); blkSize = int (c_blkSize (cc_base c))
      in bind_res
           (if is_fill
            then (case blk of
                    None \<Rightarrow> Inl AssertFail
                  | Some p \<Rightarrow>
                      bind_res (satisfyCpuSideRequest p tpkt c) (\<lambda>(tpkt, c).
                      bind_res (getOffset blkSize tpkt) (\<lambda>off.
                        let transfer_offset = uint off - initial_offset;
                            transfer_offset = (if transfer_offset < 0 then transfer_offset + blkSize else transfer_offset);
                            completion_time = lat + (if transfer_offset \<noteq> 0 then p_finishTime pkt else p_firstWordTime pkt)
                        in guard_res AssertFail (\<not> req_isUncacheable (p_req tpkt)) (Inr (completion_time, tpkt, c)))))
            else if p_cmd tpkt = StoreCondReq \<and> p_cmd pkt = UpgradeFailResp
            then Inr (lat + p_finishTime pkt, tpkt\<lparr>p_req := req_setExtraData 0 (p_req tpkt)\<rparr>, c)
            else bind_res
                   (if pkt_isRead pkt \<and> \<not> is_error
                    then bind_res (getPtr pkt) (\<lambda>d. setData d 0 tpkt) else Inr tpkt) (\<lambda>tpkt.
                 Inr (lat + p_finishTime pkt, tpkt, c))) (\<lambda>(completion_time, tpkt, c).
         bind_res (makeTimingResponse tpkt) (\<lambda>tpkt.
         bind_res (if is_error then copyError pkt tpkt else Inr tpkt) (\<lambda>tpkt.
         bind_res
           (if pkt_isInvalidate pkt
            then guard_res AssertFail (p_cmd tpkt = ReadResp)
                   (guard_res AssertFail (p_cmd pkt = ReadRespWithInvalidate)
                      (Inr (tpkt\<lparr>p_cmd := ReadRespWithInvalidate\<rparr>)))
            else Inr tpkt) (\<lambda>tpkt.
         Inr (completion_time, tpkt, c))))))"

definition serve_target ::
  "'e pf_methods \<Rightarrow> (Packet \<Rightarrow> Packet) \<Rightarrow> Tick \<Rightarrow> Tick \<Rightarrow> nat \<Rightarrow> Packet \<Rightarrow> bool \<Rightarrow> bool \<Rightarrow> BlkPtr option \<Rightarrow> int \<Rightarrow>
     Target \<Rightarrow> 'e CacheSys \<Rightarrow> 'e CacheSys res" where
  "serve_target pm up ms curTick i pkt is_fill is_error blk initial_offset tgt s =
     (case t_source tgt of
        FromCPU \<Rightarrow>
          bind_res (answer_target pkt is_fill is_error blk initial_offset (t_pkt tgt) (cs_cache s)) (\<lambda>(t, tpkt, c).
            cpu_respond ms curTick tpkt t (s\<lparr>cs_cache := c\<rparr>))
      | FromPrefetcher \<Rightarrow>
          guard_res AssertFail (p_cmd (t_pkt tgt) = HardPFReq)
            (case blk of
               None \<Rightarrow> Inr s
             | Some p \<Rightarrow>
                 let s = upd_ptr p (\<lambda>k. k\<lparr>blk_status := blk_status k OR BlkHWPrefetched\<rparr>) s
                 in case cs_prefetcher s of
                      None \<Rightarrow> Inl Undefined
                    | Some (b, e) \<Rightarrow>
                        bind_res (pm_complete pm (t_pkt tgt) (cs_cache s) b e) (\<lambda>(c, b, e).
                          Inr (s\<lparr>cs_cache := c, cs_prefetcher := Some (b, e)\<rparr>)))
      | FromSnoop \<Rightarrow>
          guard_res AssertFail (\<not> is_error)
            (bind_res (cache_handleSnoop up ms curTick (t_pkt tgt) blk True True
                         (m_pendingInvalidate (cs_heap s ! i) \<or> pkt_isInvalidate pkt) s) (\<lambda>(_, s). Inr s)))"

text \<open>The loop over the targets; nothing it calls adds a target to the register.\<close>

fun serve_targets ::
  "'e pf_methods \<Rightarrow> (Packet \<Rightarrow> Packet) \<Rightarrow> Tick \<Rightarrow> Tick \<Rightarrow> nat \<Rightarrow> Packet \<Rightarrow> bool \<Rightarrow> bool \<Rightarrow> BlkPtr option \<Rightarrow> int \<Rightarrow>
     Target list \<Rightarrow> 'e CacheSys \<Rightarrow> 'e CacheSys res" where
  "serve_targets pm up ms curTick i pkt is_fill is_error blk initial_offset [] s = Inr s"
| "serve_targets pm up ms curTick i pkt is_fill is_error blk initial_offset (tgt # tgts) s =
     bind_res (serve_target pm up ms curTick i pkt is_fill is_error blk initial_offset tgt s) (\<lambda>s.
     bind_res (popTarget (cs_heap s ! i)) (\<lambda>m.
       serve_targets pm up ms curTick i pkt is_fill is_error blk initial_offset tgts
         (upd_base (\<lambda>b. b\<lparr>c_heap := (c_heap b)[i := m]\<rparr>) s)))"

text \<open>After the targets: the register waits again for its deferred targets, or is freed.\<close>

definition retire_mshr :: "Tick \<Rightarrow> nat \<Rightarrow> bool \<Rightarrow> Packet \<Rightarrow> BlkPtr option \<Rightarrow> 'e CacheSys \<Rightarrow> 'e CacheSys res" where
  "retire_mshr curTick i wasFull pkt blk s =
     (let ix = mshr_queue_of i (cc_base (cs_cache s))
      in bind_res (mshr_promoteDeferredTargets curTick (cs_heap s ! i)) (\<lambda>(promoted, m).
         let s = upd_base (\<lambda>b. b\<lparr>c_heap := (c_heap b)[i := m]\<rparr>) s
         in if promoted
            then (case blk of
                    None \<Rightarrow> Inl Undefined
                  | Some p \<Rightarrow>
                      on_base (\<lambda>b.
                        bind_res (q_markPending i (c_queue ix b) (c_heap b)) (\<lambda>(q, h).
                          requestMemSideBus curTick (p_finishTime pkt) (c_set_queue ix q (b\<lparr>c_heap := h\<rparr>))))
                        (upd_ptr p (\<lambda>k. k\<lparr>blk_status := blk_status k AND NOT BlkReadable\<rparr>) s))
            else on_base (\<lambda>b.
                   bind_res (q_deallocate i (c_queue ix b) (c_heap b)) (\<lambda>(q, h).
                     let b = c_set_queue ix q (b\<lparr>c_heap := h\<rparr>)
                     in if wasFull \<and> \<not> q_isFull q then clearBlocked curTick (queue_cause ix) b else Inr b)) s))"

definition handleResponse ::
  "'e pf_methods \<Rightarrow> (Packet \<Rightarrow> Packet) \<Rightarrow> Tick \<Rightarrow> Tick \<Rightarrow> Packet \<Rightarrow> 'e CacheSys \<Rightarrow> 'e CacheSys res" where
  "handleResponse pm up ms curTick pkt s =
     (let time = curTick + c_hitLatency (cc_base (cs_cache s)); is_error = pkt_isError pkt
      in case sender_mshr pkt (cs_heap s) of
           None \<Rightarrow> Inl AssertFail
         | Some i \<Rightarrow>
             if wasNacked pkt then Inr s
             else
               let ix = mshr_queue_of i (cc_base (cs_cache s));
                   wasFull = q_isFull (c_queue ix (cc_base (cs_cache s)))
               in bind_res
                    (if c_noTargetMSHR (cc_base (cs_cache s)) = Some i
                     then on_base (\<lambda>b. bind_res (clearBlocked curTick Blocked_NoTargets b) (\<lambda>b. Inr (b\<lparr>c_noTargetMSHR := None\<rparr>))) s
                     else Inr s) (\<lambda>s.
                  bind_res (getTarget (cs_heap s ! i)) (\<lambda>_.
                  bind_res (getAddr pkt) (\<lambda>a.
                    let blk = cache_findBlock (cs_cache s) a;
                        is_fill = (\<not> m_isForward (cs_heap s ! i) \<and> (pkt_isRead pkt \<or> p_cmd pkt = UpgradeResp))
                    in bind_res
                         (if is_fill \<and> \<not> is_error
                          then bind_res (mshr_handleFill i pkt (cs_heap s)) (\<lambda>(pkt, h).
                               let s = upd_base (\<lambda>b. b\<lparr>c_heap := h\<rparr>) s
                               in bind_res (handleFill curTick pkt blk (cs_cache s)) (\<lambda>(p, wbs, c).
                                    Inr (pkt, Some p, wbs, s\<lparr>cs_cache := c\<rparr>)))
                          else Inr (pkt, blk, [], s)) (\<lambda>(pkt, blk, wbs, s).
                       bind_res
                         (case tl_list (m_targets (cs_heap s ! i)) of
                            [] \<Rightarrow> Inr 0
                          | t # _ \<Rightarrow> bind_res (getOffset (int (c_blkSize (cc_base (cs_cache s)))) (t_pkt t)) (\<lambda>off. Inr (uint off)))
                         (\<lambda>initial_offset.
                       bind_res (serve_targets pm up ms curTick i pkt is_fill is_error blk initial_offset
                                   (tl_list (m_targets (cs_heap s ! i))) s) (\<lambda>s.
                       bind_res (if pkt_isInvalidate pkt then invalidate blk s else Inr s) (\<lambda>s.
                       bind_res (retire_mshr curTick i wasFull pkt blk s) (\<lambda>s.
                       bind_res (copy_writebacks curTick time wbs s) (\<lambda>s.
                         if blk = Some TempBlk
                         then bind_res
                                (if blk_isDirty (cc_tempBlock (cs_cache s))
                                 then bind_res (writebackBlk curTick TempBlk (cs_cache s)) (\<lambda>(wb, c).
                                        write_buffer curTick wb time (s\<lparr>cs_cache := c\<rparr>))
                                 else Inr s) (invalidate blk)
                         else Inr s)))))))))) "

section \<open>Sending\<close>

text \<open>
  \<open>getTimingPacket\<close>.  A request that expects no response is sent as it is, so that its
  \<open>senderState\<close> is also the one of the packet the register holds.
\<close>

definition set_first_sender :: "nat \<Rightarrow> MSHR \<Rightarrow> MSHR" where
  "set_first_sender i m =
     (case tl_list (m_targets m) of
        [] \<Rightarrow> m
      | t # ts \<Rightarrow> m\<lparr>m_targets := (m_targets m)\<lparr>tl_list := t\<lparr>t_pkt := (t_pkt t)\<lparr>p_senderState := Some i\<rparr>\<rparr> # ts\<rparr>\<rparr>)"

definition drop_cached_prefetch :: "mshr_ref \<Rightarrow> BaseCache \<Rightarrow> BaseCache res" where
  "drop_cached_prefetch r b =
     bind_res (popTarget (c_heap b ! snd r)) (\<lambda>m.
       let b = b\<lparr>c_heap := (c_heap b)[snd r := m]\<rparr>
       in if \<not> hasTargets m
          then bind_res (q_deallocate (snd r) (c_queue (fst r) b) (c_heap b)) (\<lambda>(q, h).
                 Inr (c_set_queue (fst r) q (b\<lparr>c_heap := h\<rparr>)))
          else Inr b)"

definition bus_packet_for ::
  "Tick \<Rightarrow> mshr_ref \<Rightarrow> Packet \<Rightarrow> BlkPtr option \<Rightarrow> 'e CacheSys \<Rightarrow> (Packet \<times> 'e CacheSys) res" where
  "bus_packet_for curTick r tgt_pkt blk s =
     bind_res (getBusPacket curTick tgt_pkt blk (m_needsExclusive (cs_heap s ! snd r)) (cs_cache s)) (\<lambda>p.
       let s = upd_base (\<lambda>b. b\<lparr>c_heap := upd_mshr (snd r) (\<lambda>m. m\<lparr>m_isForward := (p = None)\<rparr>) (c_heap b)\<rparr>) s
       in case p of
            Some pkt \<Rightarrow> Inr (pkt, s)
          | None \<Rightarrow>
              bind_res (allocate (Packet_copy curTick tgt_pkt False)) (\<lambda>pkt.
              bind_res (if pkt_isWrite pkt then bind_res (getPtr tgt_pkt) (\<lambda>d. setData d 0 pkt) else Inr pkt) (\<lambda>pkt.
                Inr (pkt, s))))"

definition getTimingPacket ::
  "'e pf_methods \<Rightarrow> (Packet \<Rightarrow> Packet) \<Rightarrow> Tick \<Rightarrow> Tick \<Rightarrow> 'e CacheSys \<Rightarrow> ((Packet \<times> mshr_ref) option \<times> 'e CacheSys) res" where
  "getTimingPacket pm up ms curTick s =
     bind_res (getNextMSHR curTick s) (\<lambda>(r, s).
       case r of
         None \<Rightarrow> Inr (None, s)
       | Some r \<Rightarrow>
           let i = snd r; m = cs_heap s ! i
           in bind_res (getTarget m) (\<lambda>tgt.
              let tgt_pkt = t_pkt tgt
              in if p_cmd tgt_pkt = SCUpgradeFailReq
                 then bind_res (handleResponse pm up ms curTick
                        ((Packet_copy curTick tgt_pkt False)\<lparr>p_cmd := UpgradeFailResp, p_senderState := Some i,
                           p_finishTime := curTick, p_firstWordTime := curTick\<rparr>) s) (\<lambda>s. Inr (None, s))
                 else bind_res (isForwardNoResponse m) (\<lambda>fwd.
                   if fwd
                   then guard_res AssertFail (\<not> cache_inCache (cs_cache s) (m_addr m))
                          (Inr (Some (tgt_pkt\<lparr>p_senderState := Some i\<rparr>, r),
                             upd_base (\<lambda>b. b\<lparr>c_heap := upd_mshr i (set_first_sender i) (c_heap b)\<rparr>) s))
                   else (let blk = cache_findBlock (cs_cache s) (m_addr m)
                         in if (case blk of None \<Rightarrow> False | Some p \<Rightarrow> blk_isValid (the_blk p (cs_cache s))) \<and>
                               p_cmd tgt_pkt = HardPFReq
                            then bind_res (on_base (drop_cached_prefetch r) s) (\<lambda>s. Inr (None, s))
                            else bind_res (bus_packet_for curTick r tgt_pkt blk s) (\<lambda>(pkt, s).
                                   Inr (Some (pkt\<lparr>p_senderState := Some i\<rparr>, r), s))))))"

text \<open>
  \<open>MemSidePort::sendPacket\<close>; \<open>accept\<close> is the peer's answer to a packet.
\<close>

definition mem_port :: "'e CacheSys \<Rightarrow> SimpleTimingPort" where
  "mem_port s = cp_port (c_memSidePort (cc_base (cs_cache s)))"

definition upd_mem_port :: "(SimpleTimingPort \<Rightarrow> SimpleTimingPort) \<Rightarrow> 'e CacheSys \<Rightarrow> 'e CacheSys" where
  "upd_mem_port f s =
     upd_base (\<lambda>b. b\<lparr>c_memSidePort := (c_memSidePort b)\<lparr>cp_port := f (cp_port (c_memSidePort b))\<rparr>\<rparr>) s"

definition send_one ::
  "'e pf_methods \<Rightarrow> (Packet \<Rightarrow> Packet) \<Rightarrow> (Packet \<Rightarrow> bool) \<Rightarrow> Tick \<Rightarrow> Tick \<Rightarrow> 'e CacheSys \<Rightarrow> 'e CacheSys res" where
  "send_one pm up accept ms curTick s =
     (if deferredPacketReady curTick (mem_port s)
      then (let success = accept (snd (hd (tp_transmitList (mem_port s))))
            in Inr (upd_mem_port (\<lambda>p. p\<lparr>tp_transmitList := (if success then tl (tp_transmitList p) else tp_transmitList p),
                                         tp_waitingOnRetry := \<not> success\<rparr>) s))
      else bind_res (getTimingPacket pm up ms curTick s) (\<lambda>(p, s).
             case p of
               None \<Rightarrow> Inr (upd_mem_port (\<lambda>p. p\<lparr>tp_waitingOnRetry := False\<rparr>) s)
             | Some (pkt, r) \<Rightarrow>
                 let success = accept pkt;
                     s = upd_mem_port (\<lambda>p. p\<lparr>tp_waitingOnRetry := \<not> success\<rparr>) s
                 in if success then cache_markInService curTick r s else Inr s))"

definition sendPacket ::
  "'e pf_methods \<Rightarrow> (Packet \<Rightarrow> Packet) \<Rightarrow> (Packet \<Rightarrow> bool) \<Rightarrow> Tick \<Rightarrow> Tick \<Rightarrow> 'e CacheSys \<Rightarrow> 'e CacheSys res" where
  "sendPacket pm up accept ms curTick s =
     bind_res (send_one pm up accept ms curTick s) (\<lambda>s.
       if \<not> tp_waitingOnRetry (mem_port s)
       then (let nextReady = min (deferredPacketReadyTime (mem_port s)) (nextMSHRReadyTime s)
             in if nextReady \<noteq> MaxTick
                then on_base (\<lambda>b. bind_res (tp_schedule curTick (max nextReady (curTick + 1)) (cp_port (c_memSidePort b)))
                       (\<lambda>p. Inr (b\<lparr>c_memSidePort := (c_memSidePort b)\<lparr>cp_port := p\<rparr>\<rparr>))) s
                else Inr (upd_mem_port (\<lambda>p. if tp_drainEvent p \<and> tp_sendEvent p = None
                       then p\<lparr>tp_drained := tp_drained p + 1, tp_drainEvent := False\<rparr> else p) s))
       else Inr s)"

definition mem_recvRetry ::
  "'e pf_methods \<Rightarrow> (Packet \<Rightarrow> Packet) \<Rightarrow> (Packet \<Rightarrow> bool) \<Rightarrow> Tick \<Rightarrow> Tick \<Rightarrow> 'e CacheSys \<Rightarrow> 'e CacheSys res" where
  "mem_recvRetry pm up accept ms curTick s =
     guard_res AssertFail (tp_waitingOnRetry (mem_port s)) (sendPacket pm up accept ms curTick s)"

definition mem_processSendEvent ::
  "'e pf_methods \<Rightarrow> (Packet \<Rightarrow> Packet) \<Rightarrow> (Packet \<Rightarrow> bool) \<Rightarrow> Tick \<Rightarrow> Tick \<Rightarrow> 'e CacheSys \<Rightarrow> 'e CacheSys res" where
  "mem_processSendEvent pm up accept ms curTick s =
     guard_res AssertFail (\<not> tp_waitingOnRetry (mem_port s)) (sendPacket pm up accept ms curTick s)"

definition mem_recvTiming ::
  "'e pf_methods \<Rightarrow> (Packet \<Rightarrow> Packet) \<Rightarrow> Tick \<Rightarrow> Tick \<Rightarrow> Packet \<Rightarrow> 'e CacheSys \<Rightarrow> (bool \<times> 'e CacheSys) res" where
  "mem_recvTiming pm up ms curTick pkt s =
     (if wasNacked pkt then Inl Panic
      else if pkt_isRequest pkt \<and> cp_blocked (c_memSidePort (cc_base (cs_cache s)))
      then Inr (False, upd_base (\<lambda>b. b\<lparr>c_memSidePort := (c_memSidePort b)\<lparr>cp_mustSendRetry := True\<rparr>\<rparr>) s)
      else if pkt_isResponse pkt then bind_res (handleResponse pm up ms curTick pkt s) (\<lambda>s. Inr (True, s))
      else bind_res (snoopTiming up ms curTick pkt s) (\<lambda>(_, s). Inr (True, s)))"

section \<open>Atomic accesses\<close>

text \<open>
  \<open>below\<close> is \<open>sendAtomic\<close> on the memory side: the latency, the packet as the next level
  leaves it, and the state of that level.
\<close>

type_synonym 'm atomic_level = "Packet \<Rightarrow> 'm \<Rightarrow> int \<times> Packet \<times> 'm"

fun atomic_writebacks :: "'m atomic_level \<Rightarrow> Packet list \<Rightarrow> 'm \<Rightarrow> 'm" where
  "atomic_writebacks below [] mem = mem"
| "atomic_writebacks below (wb # wbs) mem = atomic_writebacks below wbs (snd (snd (below wb mem)))"

definition atomic_miss ::
  "'m atomic_level \<Rightarrow> Tick \<Rightarrow> Packet \<Rightarrow> BlkPtr option \<Rightarrow> int \<Rightarrow> Cache \<Rightarrow> 'm \<Rightarrow>
     (int \<times> Packet \<times> Packet list \<times> Cache \<times> 'm) res" where
  "atomic_miss below curTick pkt blk lat c mem =
     bind_res (getBusPacket curTick pkt blk (pkt_needsExclusive pkt) c) (\<lambda>p.
       let (d, bus_pkt, mem) = below (case p of None \<Rightarrow> pkt | Some b \<Rightarrow> b) mem; lat = lat + d
       in guard_res AssertFail (\<not> wasNacked bus_pkt)
          (if p = None then Inr (lat, bus_pkt, [], c, mem)
           else if pkt_needsResponse pkt
           then guard_res AssertFail (pkt_isResponse bus_pkt)
             (if pkt_isError bus_pkt
              then bind_res (makeAtomicResponse pkt) (\<lambda>pkt.
                   bind_res (copyError bus_pkt pkt) (\<lambda>pkt. Inr (lat, pkt, [], c, mem)))
              else if pkt_isRead bus_pkt \<or> p_cmd bus_pkt = UpgradeResp
              then bind_res (handleFill curTick bus_pkt blk c) (\<lambda>(q, wbs, c).
                   bind_res (satisfyCpuSideRequest q pkt c) (\<lambda>(pkt, c). Inr (lat, pkt, wbs, c, mem)))
              else bind_res (makeAtomicResponse pkt) (\<lambda>pkt. Inr (lat, pkt, [], c, mem)))
           else Inr (lat, pkt, [], c, mem)))"

definition atomicAccess ::
  "'m atomic_level \<Rightarrow> Tick \<Rightarrow> Packet \<Rightarrow> Cache \<Rightarrow> 'm \<Rightarrow> (int \<times> Packet \<times> Cache \<times> 'm) res" where
  "atomicAccess below curTick pkt c mem =
     (if memInhibitAsserted pkt
      then guard_res AssertFail (\<not> req_isUncacheable (p_req pkt))
        (if pkt_isInvalidate pkt
         then bind_res (getAddr pkt) (\<lambda>a.
              bind_res
                (case cache_findBlock c a of
                   None \<Rightarrow> Inr c
                 | Some p \<Rightarrow> if blk_isValid (the_blk p c) then invalidate_ptr p c else Inr c) (\<lambda>c.
                let (d, pkt, mem) = below pkt mem in Inr (c_hitLatency (cc_base c) + d, pkt, c, mem)))
         else Inr (c_hitLatency (cc_base c), pkt, c, mem))
      else
        bind_res (cache_access curTick pkt c) (\<lambda>r.
        bind_res
          (if ar_satisfied r then Inr (ar_lat r, ar_pkt r, [], ar_cache r, mem)
           else atomic_miss below curTick (ar_pkt r) (ar_blk r) (ar_lat r) (ar_cache r) mem) (\<lambda>(lat, pkt, wbs, c, mem).
          let mem = atomic_writebacks below (ar_writebacks r @ wbs) mem
          in if pkt_needsResponse pkt
             then bind_res (makeAtomicResponse pkt) (\<lambda>pkt. Inr (lat, pkt, c, mem))
             else Inr (lat, pkt, c, mem))))"

section \<open>Functional accesses\<close>

text \<open>
  A functional access looks in the block, in the port it came through, in the two queues
  and in the port of the other side, until one of them has the data.  The ports are named
  by a flag: \<open>from_cpu\<close> says that the request came through the processor side.
\<close>

fun side_port :: "bool \<Rightarrow> BaseCache \<Rightarrow> CachePort" where
  "side_port True b = c_cpuSidePort b"
| "side_port False b = c_memSidePort b"

fun set_side_port :: "bool \<Rightarrow> CachePort \<Rightarrow> BaseCache \<Rightarrow> BaseCache" where
  "set_side_port True p b = b\<lparr>c_cpuSidePort := p\<rparr>"
| "set_side_port False p b = b\<lparr>c_memSidePort := p\<rparr>"

type_synonym functional_check = "Packet \<Rightarrow> Cache \<Rightarrow> (bool \<times> Packet \<times> Cache) res"

definition or_else :: "functional_check \<Rightarrow> functional_check \<Rightarrow> functional_check" where
  "or_else f g pkt c = bind_res (f pkt c) (\<lambda>(done, pkt, c). if done then Inr (True, pkt, c) else g pkt c)"

definition check_blk :: "BlkPtr option \<Rightarrow> Addr \<Rightarrow> functional_check" where
  "check_blk blk blk_addr pkt c =
     (case blk of
        None \<Rightarrow> Inr (False, pkt, c)
      | Some p \<Rightarrow>
          bind_res (checkFunctional pkt blk_addr (int (c_blkSize (cc_base c))) (Some (blk_data (the_blk p c))))
            (\<lambda>(done, pkt, data, _).
             Inr (done, pkt, case data of None \<Rightarrow> c | Some d \<Rightarrow> set_blk p (\<lambda>b. b\<lparr>blk_data := d\<rparr>) c)))"

definition check_port :: "bool \<Rightarrow> functional_check" where
  "check_port from_cpu pkt c =
     bind_res (cp_checkFunctional pkt (side_port from_cpu (cc_base c))) (\<lambda>(done, pkt, p).
       Inr (done, pkt, c\<lparr>cc_base := set_side_port from_cpu p (cc_base c)\<rparr>))"

definition check_queue :: "MSHRQueueIndex \<Rightarrow> Addr \<Rightarrow> functional_check" where
  "check_queue ix blk_addr pkt c =
     bind_res (q_checkFunctional pkt blk_addr (c_queue ix (cc_base c)) (c_heap (cc_base c))) (\<lambda>(done, pkt, h).
       Inr (done, pkt, c\<lparr>cc_base := (cc_base c)\<lparr>c_heap := h\<rparr>\<rparr>))"

definition functionalAccess ::
  "(Packet \<Rightarrow> 'm \<Rightarrow> Packet \<times> 'm) \<Rightarrow> bool \<Rightarrow> Packet \<Rightarrow> Cache \<Rightarrow> 'm \<Rightarrow> (Packet \<times> Cache \<times> 'm) res" where
  "functionalAccess beyond from_cpu pkt c mem =
     bind_res (getAddr pkt) (\<lambda>a.
       let blk_addr = blockAlign (cc_base c) a; blk = cache_findBlock c a
       in bind_res
            (or_else (check_blk blk blk_addr)
            (or_else (check_port from_cpu)
            (or_else (check_queue MSHRQueue_MSHRs blk_addr)
            (or_else (check_queue MSHRQueue_WriteBuffer blk_addr)
                     (check_port (\<not> from_cpu))))) pkt c) (\<lambda>(done, pkt, c).
          if \<not> done then (let (pkt, mem) = beyond pkt mem in Inr (pkt, c, mem)) else Inr (pkt, c, mem)))"

end
