(* ===== verification/Cache_Issue.thy ===== *)
theory Cache_Issue
  imports Cache_Timing
begin

text \<open>
  What the cache sends next (\<open>Cache::getNextMSHR\<close>, \<open>getTimingPacket\<close>): pending misses and
  writes in a safe order, and, when nothing is pending, prefetches of blocks the cache
  neither holds nor waits for.
\<close>

section \<open>The prefetch loop\<close>

definition pf_block :: "Cache \<Rightarrow> Packet \<Rightarrow> Addr" where
  "pf_block c p = blockAlign (cc_base c) (p_addr p)"

definition useful :: "Cache \<Rightarrow> Packet \<Rightarrow> bool" where
  "useful c p \<longleftrightarrow> \<not> cache_inCache c (pf_block c p) \<and> \<not> cache_inMissQueue c (pf_block c p)"

text \<open>The packets the loop throws away, and the queue it leaves.\<close>

definition stale :: "Tick \<Rightarrow> Cache \<Rightarrow> Packet \<Rightarrow> bool" where
  "stale now c p \<longleftrightarrow> p_time p \<le> now \<and> \<not> useful c p"

definition advance :: "nat \<Rightarrow> base_pf \<Rightarrow> base_pf" where
  "advance n b = b\<lparr>pf := drop n (pf b), pfIssued := pfIssued b + n\<rparr>"

definition count_miss_of :: "Packet \<Rightarrow> BaseCache \<Rightarrow> BaseCache" where
  "count_miss_of p b = b\<lparr>c_mshr_misses := (c_mshr_misses b)(p_cmd p := c_mshr_misses b (p_cmd p) + 1)\<rparr>"

text \<open>The loop without the loop.\<close>

definition issue_reference :: "Tick \<Rightarrow> base_pf \<Rightarrow> 'e \<Rightarrow> 'e CacheSys \<Rightarrow> (mshr_ref option \<times> 'e CacheSys) res" where
  "issue_reference now b e s =
     (let n = length (takeWhile (stale now (cs_cache s)) (pf b))
      in case drop n (pf b) of
           [] \<Rightarrow> Inr (None, s\<lparr>cs_prefetcher := Some (advance n b, e)\<rparr>)
         | p # _ \<Rightarrow>
             if p_time p \<le> now
             then bind_res (allocateMissBuffer now p now False (count_miss_of p (cc_base (cs_cache s)))) (\<lambda>(i, base).
                    Inr (Some (MSHRQueue_MSHRs, i),
                         s\<lparr>cs_prefetcher := Some (advance (Suc n) b, e), cs_cache := (cs_cache s)\<lparr>cc_base := base\<rparr>\<rparr>))
             else Inr (None, s\<lparr>cs_prefetcher := Some (advance n b, e)\<rparr>))"

lemma advance_0 [simp]: "advance 0 b = b"
  by (simp add: advance_def)

lemma issue_prefetch_loop_spec:
  assumes "cs_prefetcher s = Some (b, e)" and "\<forall>p \<in> set (pf b). getAddr p = Inr (p_addr p)"
  shows "issue_prefetch_loop now s = issue_reference now b e s"
  using assms
proof (induction "pf b" arbitrary: b s)
  case Nil
  then have "s\<lparr>cs_prefetcher := Some (b, e)\<rparr> = s" by simp
  then show ?case using Nil by (subst issue_prefetch_loop.simps) (simp add: issue_reference_def getPacket_def)
next
  case (Cons p ps)
  let ?b = "b\<lparr>pf := ps, pfIssued := Suc (pfIssued b)\<rparr>"
  let ?s = "s\<lparr>cs_prefetcher := Some (?b, e)\<rparr>"
  have pf: "pf b = p # ps" using Cons.hyps(2) by simp
  have s: "s\<lparr>cs_prefetcher := Some (b, e)\<rparr> = s" using Cons.prems(1) by simp
  have adv: "advance n ?b = advance (Suc n) b" for n by (simp add: advance_def pf)
  have step: "issue_prefetch_loop now s =
      (if p_time p \<le> now
       then if useful (cs_cache s) p
            then bind_res (allocateMissBuffer now p now False (count_miss_of p (cc_base (cs_cache s)))) (\<lambda>(i, base).
                   Inr (Some (MSHRQueue_MSHRs, i), ?s\<lparr>cs_cache := (cs_cache s)\<lparr>cc_base := base\<rparr>\<rparr>))
            else issue_prefetch_loop now ?s
       else Inr (None, s))"
    using Cons.prems pf
    by (subst issue_prefetch_loop.simps)
      (simp add: nextPrefetchReadyTime_def getPacket_def useful_def pf_block_def count_miss_of_def Let_def)
  show ?case
  proof (cases "stale now (cs_cache s) p")
    case True
    have "issue_prefetch_loop now ?s = issue_reference now ?b e ?s"
      by (rule Cons.hyps(1)) (use Cons.prems(2) pf in auto)
    also have "\<dots> = issue_reference now b e s"
      using True by (simp add: issue_reference_def pf adv Let_def split: list.split)
    finally show ?thesis using step True by (simp add: stale_def)
  next
    case False
    then show ?thesis using step s adv [of 0] by (auto simp: issue_reference_def pf stale_def Let_def)
  qed
qed

section \<open>Pending requests\<close>

lemma findPending_mem: "findPending h a n is = Some k \<Longrightarrow> k \<in> set is"
  by (induction "is") (auto simp: Let_def split: if_splits)

lemma next_mshr_mem: "q_getNextMSHR now h q = Some i \<Longrightarrow> i \<in> set (q_readyList q)"
  by (auto simp: q_getNextMSHR_def split: list.splits if_splits)

definition none_ready :: "Tick \<Rightarrow> BaseCache \<Rightarrow> bool" where
  "none_ready now b \<longleftrightarrow> (\<forall>ix. q_getNextMSHR now (c_heap b) (c_queue ix b) = None)"

lemma choose_pending_None:
  "choose_pending (q_getNextMSHR now (c_heap b) (c_mshrQueue b)) (q_getNextMSHR now (c_heap b) (c_writeBuffer b)) b = None
     \<longleftrightarrow> none_ready now b"
  unfolding none_ready_def all_queues by (auto simp: choose_pending_def Let_def split: option.splits)

lemma choose_pending_mem:
  assumes "choose_pending (q_getNextMSHR now (c_heap b) (c_mshrQueue b)) (q_getNextMSHR now (c_heap b) (c_writeBuffer b)) b
      = Some (ix, i)"
  shows "i \<in> set (q_readyList (c_queue ix b))"
  using assms
  by (auto simp: choose_pending_def Let_def q_findPending_def split: option.splits if_splits dest: next_mshr_mem findPending_mem)

lemma ready_allocated:
  "cache_ok b \<Longrightarrow> i \<in> set (q_readyList (c_queue ix b)) \<Longrightarrow> i \<in> set (q_allocatedList (c_queue ix b))"
  unfolding cache_ok_def queues_ok_def q_inv_def by blast

section \<open>Safety\<close>

definition prefetcher_ok :: "'e CacheSys \<Rightarrow> bool" where
  "prefetcher_ok s = (case cs_prefetcher s of None \<Rightarrow> True | Some (b, e) \<Rightarrow> pf_inv b)"

text \<open>What a chosen request and the state after the choice satisfy.\<close>

definition issue_safe :: "Tick \<Rightarrow> 'e CacheSys \<Rightarrow> mshr_ref option \<Rightarrow> 'e CacheSys \<Rightarrow> bool" where
  "issue_safe now s r s' \<longleftrightarrow> cache_ok (cc_base (cs_cache s')) \<and> prefetcher_ok s' \<and>
    (case r of
       None \<Rightarrow> none_ready now (cc_base (cs_cache s)) \<and> cs_cache s' = cs_cache s
     | Some (ix, i) \<Rightarrow> i \<in> set (q_allocatedList (c_queue ix (cc_base (cs_cache s')))) \<and>
         (if none_ready now (cc_base (cs_cache s))
          then ix = MSHRQueue_MSHRs \<and> (\<exists>b e p. cs_prefetcher s = Some (b, e) \<and> p \<in> set (pf b) \<and> p_time p \<le> now \<and>
            \<not> cache_inCache (cs_cache s) (pf_block (cs_cache s) p) \<and>
            \<not> cache_inMissQueue (cs_cache s) (pf_block (cs_cache s) p) \<and>
            m_addr (cs_heap s' ! i) = pf_block (cs_cache s) p)
          else s' = s))"

lemma pf_inv_advance: "pf_inv b \<Longrightarrow> pf_inv (advance n b)"
  by (auto simp: pf_inv_def advance_def drop_map [symmetric] dest: in_set_dropD)

lemma pf_inv_addr: "pf_inv b \<Longrightarrow> p \<in> set (pf b) \<Longrightarrow> getAddr p = Inr (p_addr p)"
  by (auto simp: pf_inv_def pf_pkt_ok_def getAddr_def)

lemma count_miss_of_ok: "cache_ok b \<Longrightarrow> cache_ok (count_miss_of p b)"
  unfolding count_miss_of_def cache_ok_def queues_ok_def blocked_ok_def all_queues
  by (simp add: blocked_for_def isBlocked_def)

lemma count_miss_of_view [simp]:
  "c_queue ix (count_miss_of p b) = c_queue ix b" "c_heap (count_miss_of p b) = c_heap b"
  "blockAlign (count_miss_of p b) a = blockAlign b a" "c_blkSize (count_miss_of p b) = c_blkSize b"
  by (cases ix; simp add: count_miss_of_def blockAlign_def)+

lemma prefetch_register:
  assumes "cache_ok b" and "\<not> q_isFull (c_mshrQueue b)" and "pf_pkt_ok bs p"
  obtains i b' where "allocateMissBuffer now p now False (count_miss_of p b) = Inr (i, b')" "cache_ok b'"
    "m_addr (c_heap b' ! i) = blockAlign b (p_addr p)" "i \<in> set (q_allocatedList (c_mshrQueue b'))"
proof -
  let ?b = "count_miss_of p b"
  note ok = count_miss_of_ok [OF assms(1), of p]
  have p: "\<not> req_isUncacheable (p_req p)" "getAddr p = Inr (p_addr p)" "upstream_idle p (c_heap ?b)"
    using assms(3) by (simp_all add: pf_pkt_ok_def getAddr_def upstream_idle_def sender_mshr_def)
  have free: "q_freeList (c_queue MSHRQueue_MSHRs ?b) \<noteq> []"
    by (rule free_register [OF ok]) (use assms(2) in \<open>simp add: count_miss_of_def\<close>)
  obtain i b' where al: "allocateBufferInternal now MSHRQueue_MSHRs (blockAlign ?b (p_addr p)) (int (c_blkSize ?b)) p now False ?b
      = Inr (i, b')"
    by (rule allocateBufferInternal_total [OF ok free p(3) order_refl])
  then show thesis
    using allocateBufferInternal_ok [OF ok al] p by (intro that) (simp_all add: allocateMissBuffer_def)
qed

lemma issue_reference_safe:
  assumes "cache_ok (cc_base (cs_cache s))" and "cs_prefetcher s = Some (b, e)" and "pf_inv b"
    and "\<not> q_isFull (c_mshrQueue (cc_base (cs_cache s)))" and "none_ready now (cc_base (cs_cache s))"
  shows "\<exists>r s'. issue_reference now b e s = Inr (r, s') \<and> issue_safe now s r s'"
proof -
  define n where "n = length (takeWhile (stale now (cs_cache s)) (pf b))"
  show ?thesis
  proof (cases "\<exists>p ps. drop n (pf b) = p # ps \<and> p_time p \<le> now")
    case True
    then obtain p ps where p: "drop n (pf b) = p # ps" "p_time p \<le> now" by blast
    then have "dropWhile (stale now (cs_cache s)) (pf b) = p # ps" by (simp add: n_def dropWhile_eq_drop)
    then have "\<not> stale now (cs_cache s) p" by (simp add: dropWhile_eq_Cons_conv)
    then have u: "useful (cs_cache s) p" using p(2) by (simp add: stale_def)
    have mem: "p \<in> set (pf b)" using p(1) by (metis in_set_dropD list.set_intros(1))
    then have pk: "pf_pkt_ok (pf_blkSize b) p" using assms(3) by (simp add: pf_inv_def)
    obtain i b' where al: "allocateMissBuffer now p now False (count_miss_of p (cc_base (cs_cache s))) = Inr (i, b')"
      "cache_ok b'" "m_addr (c_heap b' ! i) = blockAlign (cc_base (cs_cache s)) (p_addr p)"
      "i \<in> set (q_allocatedList (c_mshrQueue b'))"
      by (rule prefetch_register [OF assms(1,4) pk])
    have "issue_reference now b e s = Inr (Some (MSHRQueue_MSHRs, i),
        s\<lparr>cs_prefetcher := Some (advance (Suc n) b, e), cs_cache := (cs_cache s)\<lparr>cc_base := b'\<rparr>\<rparr>)"
      using p al(1) by (simp add: issue_reference_def n_def [symmetric] Let_def)
    then show ?thesis
      using al assms(2,5) mem p(2) u pf_inv_advance [OF assms(3)]
      by (simp add: issue_safe_def prefetcher_ok_def cs_heap_def pf_block_def useful_def) blast
  next
    case False
    then have "issue_reference now b e s = Inr (None, s\<lparr>cs_prefetcher := Some (advance n b, e)\<rparr>)"
      by (auto simp: issue_reference_def n_def [symmetric] Let_def split: list.splits)
    then show ?thesis using assms(1,5) pf_inv_advance [OF assms(3)] by (simp add: issue_safe_def prefetcher_ok_def)
  qed
qed

text \<open>
  C18: Choosing the next request is safe and always returns.  If the queues and the prefetch
  queue are well formed, \<open>getNextMSHR\<close> ends without an error and keeps them so.  It answers
  with nothing only if no queued request is ready; a ready request is chosen without any
  change to the state; and only if none is ready a register is made for a prefetch, whose
  packet was queued and ready and whose block is neither cached nor being fetched.
\<close>

theorem next_request_safe:
  assumes "cache_ok (cc_base (cs_cache s))" and "prefetcher_ok s"
  shows "\<exists>r s'. getNextMSHR now s = Inr (r, s') \<and> cache_ok (cc_base (cs_cache s')) \<and> prefetcher_ok s' \<and>
    (case r of
       None \<Rightarrow> none_ready now (cc_base (cs_cache s)) \<and> cs_cache s' = cs_cache s
     | Some (ix, i) \<Rightarrow> i \<in> set (q_allocatedList (c_queue ix (cc_base (cs_cache s')))) \<and>
         (if none_ready now (cc_base (cs_cache s))
          then ix = MSHRQueue_MSHRs \<and> (\<exists>b e p. cs_prefetcher s = Some (b, e) \<and> p \<in> set (pf b) \<and> p_time p \<le> now \<and>
            \<not> cache_inCache (cs_cache s) (pf_block (cs_cache s) p) \<and>
            \<not> cache_inMissQueue (cs_cache s) (pf_block (cs_cache s) p) \<and>
            m_addr (cs_heap s' ! i) = pf_block (cs_cache s) p)
          else s' = s))"
proof -
  let ?b = "cc_base (cs_cache s)"
  let ?ch = "choose_pending (q_getNextMSHR now (c_heap ?b) (c_mshrQueue ?b)) (q_getNextMSHR now (c_heap ?b) (c_writeBuffer ?b)) ?b"
  show ?thesis
  proof (cases ?ch)
    case (Some r)
    obtain ix i where r: "r = (ix, i)" by (cases r)
    have "i \<in> set (q_allocatedList (c_queue ix ?b))"
      using choose_pending_mem ready_allocated [OF assms(1)] Some unfolding r by blast
    moreover have "\<not> none_ready now ?b" using Some choose_pending_None [of now ?b] by simp
    ultimately show ?thesis using Some assms by (simp add: getNextMSHR_def r)
  next
    case None
    then have nr: "none_ready now ?b" by (simp add: choose_pending_None)
    show ?thesis
    proof (cases "cs_prefetcher s \<noteq> None \<and> \<not> q_isFull (c_mshrQueue ?b)")
      case True
      then obtain b e where pf: "cs_prefetcher s = Some (b, e)" by auto
      then have inv: "pf_inv b" using assms(2) by (simp add: prefetcher_ok_def)
      have loop: "getNextMSHR now s = issue_reference now b e s"
        using None True issue_prefetch_loop_spec [OF pf] pf_inv_addr [OF inv] by (simp add: getNextMSHR_def)
      have nf: "\<not> q_isFull (c_mshrQueue ?b)" using True by simp
      show ?thesis using issue_reference_safe [OF assms(1) pf inv nf nr] by (simp add: loop issue_safe_def)
    next
      case False
      then have "getNextMSHR now s = Inr (None, s)" using None by (auto simp: getNextMSHR_def)
      then show ?thesis using assms nr by simp
    qed
  qed
qed

section \<open>Prefetches of blocks that were cached meanwhile\<close>

lemma drop_single_target:
  assumes "cache_ok b" and "i \<in> set (q_readyList (c_mshrQueue b))" and "tl_list (m_targets (c_heap b ! i)) = [t]"
  obtains q h where "drop_cached_prefetch (MSHRQueue_MSHRs, i) b = Inr (b\<lparr>c_heap := h, c_mshrQueue := q\<rparr>)"
    "q_allocated q = q_allocated (c_mshrQueue b) - 1" "q_numEntries q = q_numEntries (c_mshrQueue b)"
    "q_numReserve q = q_numReserve (c_mshrQueue b)" "i \<notin> set (q_allocatedList q)"
proof -
  have inv: "q_inv (c_regs MSHRQueue_MSHRs b) (c_mshrQueue b) (c_heap b)"
    using assms(1) unfolding cache_ok_def queues_ok_def all_queues by simp
  have i: "i \<in> set (q_allocatedList (c_queue MSHRQueue_MSHRs b))" "\<not> m_inService (c_heap b ! i)"
    using inv assms(2) by (auto simp: q_inv_def)
  then have none: "tl_list (m_deferredTargets (c_heap b ! i)) = []"
    using q_inv_alloc(2) [OF inv] by (auto simp: mshr_ok_def)
  obtain m q h where d: "popTarget (c_heap b ! i) = Inr m" "tl_list (m_targets m) = []"
    "q_deallocate i (c_queue MSHRQueue_MSHRs b) ((c_heap b)[i := m]) = Inr (q, h)"
    "q_numEntries q = q_numEntries (c_mshrQueue b)" "q_numReserve q = q_numReserve (c_mshrQueue b)"
    "q_allocated q = q_allocated (c_mshrQueue b) - 1" "i \<notin> set (q_allocatedList q)"
    by (rule release_register [OF assms(1) i(1) assms(3) none]) simp
  have "drop_cached_prefetch (MSHRQueue_MSHRs, i) b = Inr (b\<lparr>c_heap := h, c_mshrQueue := q\<rparr>)"
    using d(1-3) by (simp add: drop_cached_prefetch_def hasTargets_def Let_def)
  then show thesis by (rule that) (use d in auto)
qed

text \<open>
  C19: A dropped prefetch leaves the cache blocked.  When the request chosen next is the
  prefetch of a block that is cached by now, \<open>getTimingPacket\<close> frees its register.  If the
  miss queue was just full, a register is available afterwards, but the cache still counts
  as blocked for want of one and its processor-side port goes on refusing requests: the
  register is freed without the \<open>clearBlocked\<close> that every other release performs.
\<close>

theorem dropped_prefetch_stays_blocked:
  assumes "cache_ok (cc_base (cs_cache s))" and "getNextMSHR now s = Inr (Some (MSHRQueue_MSHRs, i), s)"
    and "i \<in> set (q_readyList (c_mshrQueue (cc_base (cs_cache s))))" and "tl_list (m_targets (cs_heap s ! i)) = [t]"
    and "t_source t = FromPrefetcher" and "p_cmd (t_pkt t) = HardPFReq"
    and "cache_findBlock (cs_cache s) (m_addr (cs_heap s ! i)) = Some p" and "blk_isValid (the_blk p (cs_cache s))"
    and "q_allocated (c_mshrQueue (cc_base (cs_cache s))) =
      q_numEntries (c_mshrQueue (cc_base (cs_cache s))) - q_numReserve (c_mshrQueue (cc_base (cs_cache s))) + 1"
  shows "\<exists>s'. getTimingPacket pm up ms now s = Inr (None, s') \<and>
    \<not> q_isFull (c_mshrQueue (cc_base (cs_cache s'))) \<and>
    blocked_for Blocked_NoMSHRs (cc_base (cs_cache s')) \<and> cp_blocked (c_cpuSidePort (cc_base (cs_cache s')))"
proof -
  let ?b = "cc_base (cs_cache s)"
  have tl: "tl_list (m_targets (c_heap ?b ! i)) = [t]" using assms(4) by (simp add: cs_heap_def)
  obtain q h where d: "drop_cached_prefetch (MSHRQueue_MSHRs, i) ?b = Inr (?b\<lparr>c_heap := h, c_mshrQueue := q\<rparr>)"
    "q_allocated q = q_allocated (c_mshrQueue ?b) - 1" "q_numEntries q = q_numEntries (c_mshrQueue ?b)"
    "q_numReserve q = q_numReserve (c_mshrQueue ?b)"
    by (rule drop_single_target [OF assms(1,3) tl])
  have "q_isFull (c_mshrQueue ?b)" using assms(9) by (simp add: q_isFull_def)
  then have blocked: "blocked_for Blocked_NoMSHRs ?b"
    using assms(1) unfolding cache_ok_def blocked_ok_iff all_queues by simp
  then have "cp_blocked (c_cpuSidePort ?b)"
    using assms(1) by (auto simp: cache_ok_def blocked_ok_iff bits_ok_def isBlocked_def blocked_for_def)
  moreover have "getTimingPacket pm up ms now s = Inr (None, upd_base (\<lambda>_. ?b\<lparr>c_heap := h, c_mshrQueue := q\<rparr>) s)"
    using assms(2,4-8) d(1)
    by (simp add: getTimingPacket_def getTarget_def hasTargets_def isForwardNoResponse_def on_base_def upd_base_def Let_def)
  moreover have "\<not> q_isFull q" using d assms(9) by (simp add: q_isFull_def)
  ultimately show ?thesis using blocked by (auto simp: upd_base_def blocked_for_def)
qed

section \<open>Witnesses\<close>

text \<open>
  A cache whose miss queue is full with one register, a pending prefetch of the cached
  block at address 8.
\<close>

definition demo_prefetch :: Packet where
  "demo_prefetch = demo_packet HardPFReq 8 4 (replicate 4 None)"

definition demo_register :: MSHR where
  "demo_register = MSHR_new\<lparr>m_addr := 8, m_size := 4, m_ntargets := 1,
     m_targets := TargetList_new\<lparr>tl_list := [Target_new 0 demo_prefetch 0 0 FromPrefetcher True]\<rparr>\<rparr>"

definition demo_full_base :: BaseCache where
  "demo_full_base = (cc_base demo_cache)\<lparr>
     c_cpuSidePort := CachePort_new\<lparr>cp_blocked := True\<rparr>, c_blocked := 1,
     c_mshrQueue := \<lparr>q_allocatedList = [0], q_readyList = [0], q_freeList = [1], q_numEntries = 2, q_numReserve = 2,
       q_allocated = 1, q_inServiceEntries = 0, q_index = 0\<rparr>,
     c_writeBuffer := MSHRQueue_new 2 1 2 1,
     c_heap := [demo_register, MSHR_new, MSHR_new, MSHR_new]\<rparr>"

definition demo_full_sys :: "unit CacheSys" where
  "demo_full_sys = \<lparr>cs_cache = demo_cache\<lparr>cc_base := demo_full_base\<rparr>, cs_prefetcher = None, cs_prefetchOnAccess = False,
     cs_records = [], cs_snoops = []\<rparr>"

lemma demo_prefetch_simps: "p_cmd demo_prefetch = HardPFReq" "\<not> pkt_needsExclusive demo_prefetch"
  "\<not> pkt_isUpgrade demo_prefetch"
  by (simp_all add: demo_prefetch_def demo_packet_def Packet_new_def Packet_base_def Let_def pkt_query_defs cmd_defs)

lemma demo_full_ok: "cache_ok demo_full_base"
proof -
  have regs: "reg_free MSHR_new" "few_targets MSHR_new" "mshr_ok MSHR_new" "few_targets demo_register" "mshr_ok demo_register"
    using mshr_ok_new demo_prefetch_simps
    by (simp_all add: reg_free_def few_targets_def MSHR_new_def TargetList_new_def tl_isReset_def demo_register_def mshr_ok_def
        excl_ok_def upg_ok_def Target_new_def)
  have "\<not> m_inService demo_register" by (simp add: demo_register_def MSHR_new_def)
  moreover have "{..<2::nat} = {0, 1}" "{2..<4::nat} = {2, 3}" by auto
  moreover have "[2..<4] = [2, 3::nat]" by (simp add: upt_rec)
  ultimately have "queues_ok demo_full_base"
    using regs unfolding queues_ok_def all_queues
    by (simp add: demo_full_base_def q_inv_def MSHRQueue_new_def) auto
  moreover have "blocked_ok demo_full_base"
    unfolding blocked_ok_iff all_queues
    by (simp add: demo_full_base_def bits_ok_def isBlocked_def blocked_for_def q_isFull_def MSHRQueue_new_def
        mask_eq_exp_minus_1 demo_cache_def Cache_new_def BaseCache_new_def Let_def)
  ultimately show ?thesis by (simp add: cache_ok_def)
qed

lemma demo_full_choice: "getNextMSHR 0 demo_full_sys = Inr (Some (MSHRQueue_MSHRs, 0), demo_full_sys)"
  by (simp add: getNextMSHR_def demo_full_sys_def demo_full_base_def q_getNextMSHR_def MSHRQueue_new_def choose_pending_def
      demo_register_def MSHR_new_def)

theorem dropped_prefetch_stays_blocked_witness:
  "\<exists>s'. getTimingPacket (engine_methods (\<lambda>b e pkt. Inr (b, e, [], []))) (\<lambda>pkt. pkt) 0 0 demo_full_sys = Inr (None, s') \<and>
    \<not> q_isFull (c_mshrQueue (cc_base (cs_cache s'))) \<and> cp_blocked (c_cpuSidePort (cc_base (cs_cache s')))"
proof -
  have ok: "cache_ok (cc_base (cs_cache demo_full_sys))" using demo_full_ok by (simp add: demo_full_sys_def)
  have blk: "cache_findBlock (cs_cache demo_full_sys) 8 = Some (TagBlk 1)"
    "blk_isValid (the_blk (TagBlk 1) (cs_cache demo_full_sys))"
    using demo_lookup(2)
    by (simp_all add: demo_full_sys_def cache_findBlock_def demo_cache_simps demo_tags_def demo_blk_def CacheBlk_new_def
        blk_isValid_def BlkValid_def flag_simps)
  have reg: "cs_heap demo_full_sys ! 0 = demo_register" "0 \<in> set (q_readyList (c_mshrQueue (cc_base (cs_cache demo_full_sys))))"
    "q_allocated (c_mshrQueue (cc_base (cs_cache demo_full_sys))) = 1"
    "q_numEntries (c_mshrQueue (cc_base (cs_cache demo_full_sys))) = 2" "q_numReserve (c_mshrQueue (cc_base (cs_cache demo_full_sys))) = 2"
    by (simp_all add: cs_heap_def demo_full_sys_def demo_full_base_def)
  have tgt: "tl_list (m_targets demo_register) = [Target_new 0 demo_prefetch 0 0 FromPrefetcher True]" "m_addr demo_register = 8"
    by (simp_all add: demo_register_def)
  show ?thesis
    using dropped_prefetch_stays_blocked [OF ok demo_full_choice reg(2), unfolded reg tgt, OF refl _ _ blk, of "engine_methods (\<lambda>b e pkt. Inr (b, e, [], []))" "\<lambda>pkt. pkt" 0]
    by (auto simp: Target_new_def demo_prefetch_simps)
qed

text \<open>A cache with nothing pending and one queued prefetch.\<close>

definition demo_idle_sys :: "unit CacheSys" where
  "demo_idle_sys = \<lparr>cs_cache = demo_cache, cs_prefetcher = Some (demo_queue\<lparr>pf := [demo_packet HardPFReq 64 4 [None, None, None, None]]\<rparr>, ()),
     cs_prefetchOnAccess = False, cs_records = [], cs_snoops = []\<rparr>"

theorem next_request_safe_witness:
  "\<exists>r s'. getNextMSHR 0 demo_idle_sys = Inr (r, s') \<and> cache_ok (cc_base (cs_cache s')) \<and> prefetcher_ok s' \<and>
    none_ready 0 (cc_base (cs_cache demo_idle_sys))"
proof -
  have ok: "cache_ok (cc_base (cs_cache demo_idle_sys))"
    unfolding demo_idle_sys_def demo_cache_def Cache_new_def using BaseCache_new_ok by (simp add: params_ok_def)
  have "pf_inv (demo_queue\<lparr>pf := [demo_packet HardPFReq 64 4 [None, None, None, None]]\<rparr>)"
    by (auto simp: demo_queue_def pf_setCache_def BasePrefetcher_def pf_inv_def pf_pkt_ok_def demo_packet_def Packet_new_def
        Packet_base_def Let_def flag_simps pkt_flag_defs blk_aligned_def req_isUncacheable_def req_flag_defs Request_new_def
        req_hasPaddr_def req_hasSize_def intro: exI [of _ 6])
  then have pf: "prefetcher_ok demo_idle_sys" by (simp add: prefetcher_ok_def demo_idle_sys_def)
  have "none_ready 0 (cc_base (cs_cache demo_idle_sys))"
    unfolding none_ready_def all_queues
    by (simp add: demo_idle_sys_def demo_cache_def Cache_new_def BaseCache_new_def Let_def MSHRQueue_new_def q_getNextMSHR_def)
  then show ?thesis using next_request_safe [OF ok pf, of 0] by blast
qed

end
