(* ===== verification/Cache_Snoop.thy ===== *)
theory Cache_Snoop
  imports Cache_Timing
begin

unbundle bit_operations_syntax

text \<open>
  Snoops (\<open>Cache::handleSnoop\<close>) and the coherence of two caches on one bus: a request of one
  cache, snooped by the other, and the fill from the response.
\<close>

section \<open>Packets\<close>

lemma makeResponse_keeps:
  assumes "makeResponse p = Inr p'"
  shows "sharedAsserted p' = sharedAsserted p" "memInhibitAsserted p' = memInhibitAsserted p" "p_data p' = p_data p"
    "pkt_at a n p' = pkt_at a n p" "p_req p' = p_req p" "p_cmd p' = responseCommand (p_cmd p)"
proof -
  obtain v where p': "p' = p\<lparr>p_origCmd := p_cmd p, p_cmd := responseCommand (p_cmd p), p_dest := p_src p,
     p_flags := flags_clear (flags_set_val (flags_clear (p_flags p) PKT_EXPRESS_SNOOP) PKT_VALID_DST v) PKT_VALID_SRC\<rparr>"
    using assms by (auto simp: makeResponse_def res_simps Let_def)
  show "sharedAsserted p' = sharedAsserted p" "memInhibitAsserted p' = memInhibitAsserted p" "p_data p' = p_data p"
    "pkt_at a n p' = pkt_at a n p" "p_req p' = p_req p" "p_cmd p' = responseCommand (p_cmd p)"
    by (simp_all add: p' snoop_defs pkt_at_def getAddr_def getSize_def getPtr_def flag_simps pkt_flag_defs)
qed

lemma flags_isSet_masked: "flags_isSet (x AND m) f = flags_isSet x (m AND f)"
  by (simp add: flags_isSet_def and.assoc)

section \<open>What a snoop does to a block\<close>

text \<open>The bytes of a block that a packet asks for.\<close>

lemma data_supplies:
  assumes "tags_ok c" and "pkt_at a n pkt" and "fits c a n" and "length data = lru_blkSize (cc_tags c)"
  shows "setDataFromBlock data (int (c_blkSize (cc_base c))) pkt = Inr (pkt\<lparr>p_data := Some (take n (drop (extractBlkOffset (cc_tags c) a) data))\<rparr>)"
proof -
  obtain d where d: "getPtr pkt = Inr d" "length d = n" using assms(2) by (auto simp: pkt_at_def)
  show ?thesis
    using in_block_guard [OF assms(1,2)] pkt_at_size [OF assms(2)] assms(2-4) d
    by (simp add: setDataFromBlock_def setData_def fits_def pkt_at_def memcpy_at_def extractBlkOffset_def)
qed

lemma block_supplies:
  assumes "tags_ok c" and "pkt_at a n pkt" and "fits c a n" and "i < length (lru_blks (cc_tags c))"
    and "blk_data b = blk_data (lru_blks (cc_tags c) ! i)"
  shows "setDataFromBlock (blk_data b) (int (c_blkSize (cc_base c))) pkt = Inr (pkt\<lparr>p_data := Some (bytes_at c i a n)\<rparr>)"
  using data_supplies [OF assms(1-3), of "blk_data b"] assms(1,4,5) by (simp add: bytes_at_def tags_ok_def blocks_ok_def)

text \<open>An owner answers: the packet becomes the response with the data of the block.\<close>

definition owner_reply :: "bool \<Rightarrow> Packet \<Rightarrow> Packet" where
  "owner_reply excl pkt = (if excl then setSupplyExclusive (assertMemInhibit pkt) else assertMemInhibit pkt)"

lemma owner_reply_keeps:
  "memInhibitAsserted (owner_reply e pkt)" "sharedAsserted (owner_reply e pkt) = sharedAsserted pkt"
  "pkt_at a n (owner_reply e pkt) = pkt_at a n pkt" "p_cmd (owner_reply e pkt) = p_cmd pkt"
  by (simp_all add: owner_reply_def snoop_defs pkt_at_def getAddr_def getSize_def getPtr_def flag_simps pkt_flag_defs)

lemma owner_answers:
  assumes "tags_ok c" and "pkt_at a n pkt" and "fits c a n" and "i < length (lru_blks (cc_tags c))"
    and "blk_data b = blk_data (lru_blks (cc_tags c) ! i)" and "p_cmd pkt \<in> {ReadReq, ReadExReq}"
  obtains pkt' where
    "bind_res (makeAtomicResponse (owner_reply e pkt)) (\<lambda>pkt.
       bind_res (setDataFromBlock (blk_data b) (int (c_blkSize (cc_base c))) pkt) (\<lambda>pkt. Inr (pkt, s))) = Inr (pkt', s)"
    "sharedAsserted pkt' = sharedAsserted pkt" "memInhibitAsserted pkt'" "pkt_isResponse pkt'"
    "p_data pkt' = Some (bytes_at c i a n)"
proof -
  have "pkt_needsResponse (owner_reply e pkt)" "pkt_isRequest (owner_reply e pkt)"
    using assms(6) by (auto simp: owner_reply_keeps(4) pkt_query_defs cmd_defs)
  then obtain p where p: "makeResponse (owner_reply e pkt) = Inr p" using makeResponse_total by blast
  note k = makeResponse_keeps [OF p]
  have "pkt_at a n p" using assms(2) owner_reply_keeps(3) by (simp add: k(4))
  note sup = block_supplies [OF assms(1) this assms(3,4,5)]
  have "pkt_isResponse p" using assms(6) k(6) by (auto simp: owner_reply_keeps pkt_query_defs cmd_defs)
  then show thesis
    using p sup k owner_reply_keeps(1,2)
    by (intro that [of "p\<lparr>p_data := Some (bytes_at c i a n)\<rparr>"]) (simp_all add: makeAtomicResponse_def snoop_defs pkt_query_defs)
qed

section \<open>Atomic snoops\<close>

text \<open>
  What a cache and a packet look like after a snoop of \<open>pkt\<close> hit the block \<open>i\<close>: a read leaves a
  shared copy, a request for ownership none; and, in atomic mode, the owner of dirty data has answered.
\<close>

definition left_by :: "Packet \<Rightarrow> Addr \<Rightarrow> nat \<Rightarrow> Cache \<Rightarrow> Packet \<Rightarrow> Cache \<Rightarrow> bool" where
  "left_by pkt a i c pkt' c' \<longleftrightarrow> lru_inv (cc_tags c') \<and>
     (\<forall>j. j \<noteq> i \<longrightarrow> lru_blks (cc_tags c') ! j = lru_blks (cc_tags c) ! j) \<and>
     (if p_cmd pkt = ReadReq
      then sharedAsserted pkt' \<and> lru_findBlock (cc_tags c') a = Some i \<and> lru_blks (cc_tags c') ! i = downgrade (lru_blks (cc_tags c) ! i)
      else lru_findBlock (cc_tags c') a = None)"

definition snooped :: "Packet \<Rightarrow> Addr \<Rightarrow> nat \<Rightarrow> nat \<Rightarrow> Cache \<Rightarrow> Packet \<Rightarrow> Cache \<Rightarrow> bool" where
  "snooped pkt a n i c pkt' c' \<longleftrightarrow>
     (blk_isDirty (lru_blks (cc_tags c) ! i) \<longrightarrow>
        memInhibitAsserted pkt' \<and> pkt_isResponse pkt' \<and> p_data pkt' = Some (bytes_at c i a n)) \<and>
     left_by pkt a i c pkt' c'"

text \<open>
  A cache that forwards snoops asks the caches above it first.  If none of them answers, the packet
  comes back as it was, or with the shared line set.
\<close>

definition quiet_above :: "(Packet \<Rightarrow> Packet) \<Rightarrow> bool" where
  "quiet_above up \<longleftrightarrow> (\<forall>p. up p \<in> {p, assertShared p})"

definition forwarded :: "(Packet \<Rightarrow> Packet) \<Rightarrow> Tick \<Rightarrow> bool \<Rightarrow> Packet \<Rightarrow> 'e CacheSys \<Rightarrow> Packet \<Rightarrow> bool" where
  "forwarded up now is_timing orig s pkt \<longleftrightarrow> p_cmd orig = p_cmd pkt \<and>
     (if c_forwardSnoops (cc_base (cs_cache s)) then forward_snoop up now is_timing orig s else Inr (orig, s)) = Inr (pkt, s)"

lemma forwarded_quiet:
  assumes "c_forwardSnoops (cc_base (cs_cache s)) \<longrightarrow> quiet_above up \<and> (\<exists>src. getSrc orig = Inr src)" "pkt_at a n orig" "\<not> memInhibitAsserted orig"
  obtains pkt where "forwarded up now is_timing orig s pkt" "pkt_at a n pkt" "\<not> memInhibitAsserted pkt" "p_cmd pkt = p_cmd orig"
proof (cases "c_forwardSnoops (cc_base (cs_cache s))")
  case True
  then obtain src where src: "getSrc orig = Inr src" using assms(1) by blast
  have up: "up p \<in> {p, assertShared p}" for p using assms(1) True by (simp add: quiet_above_def)
  define k where "k = (setExpressSnoop (Packet_copy now orig True))\<lparr>p_senderState := Some (fresh_record s)\<rparr>"
  define q where "q = (if \<not> is_timing then setSrc src (up orig) else if sharedAsserted (up k) then assertShared orig else orig)"
  have "\<not> memInhibitAsserted k" by (simp add: k_def Packet_copy_def Let_def flags_isSet_masked setExpressSnoop_def snoop_defs flag_simps pkt_flag_defs)
  then have quiet: "\<not> memInhibitAsserted (up k)" using up [of k] by (auto simp: snoop_defs flag_simps pkt_flag_defs)
  have keep: "pkt_at a n q" "\<not> memInhibitAsserted q" "\<not> memInhibitAsserted (up orig)" "p_cmd q = p_cmd orig"
    using up [of orig] assms(2,3)
    by (auto simp: q_def snoop_defs pkt_at_def getAddr_def getSize_def getPtr_def setSrc_def flag_simps pkt_flag_defs)
  have "forwarded up now is_timing orig s q"
    using True src keep quiet by (simp add: forwarded_def forward_snoop_def Let_def q_def k_def [symmetric])
  then show thesis using that keep by blast
qed (use assms that in \<open>simp add: forwarded_def\<close>)

lemma snoop_read:
  assumes "tags_ok (cs_cache s)" and "lru_findBlock (cc_tags (cs_cache s)) a = Some i" and "forwarded up now False orig s pkt"
    and "pkt_at a n pkt" and "fits (cs_cache s) a n" and "p_cmd pkt = ReadReq" and "\<not> memInhibitAsserted pkt"
  shows "\<exists>pkt' s'. cache_handleSnoop up ms now orig (Some (TagBlk i)) False False False s = Inr (pkt', s') \<and>
    snooped pkt a n i (cs_cache s) pkt' (cs_cache s')"
proof -
  let ?c = "cs_cache s" and ?b = "lru_blks (cc_tags (cs_cache s)) ! i"
  have inv: "lru_inv (cc_tags ?c)" using assms(1) by (simp add: tags_ok_def)
  note fnd = lru_findBlock_valid [OF inv assms(2)]
  define s1 where "s1 = upd_ptr (TagBlk i) downgrade s"
  have keep: "keeps_identity (the_blk (TagBlk i) ?c) (downgrade (the_blk (TagBlk i) ?c))" by (rule downgrade_keeps(5))
  note ok1 = set_blk_ok [where f = downgrade, OF assms(1) keep]
  have c1: "tags_ok (cs_cache s1)" "lru_findBlock (cc_tags (cs_cache s1)) a = Some i"
    "lru_blks (cc_tags (cs_cache s1)) ! i = downgrade ?b" "\<And>j. j \<noteq> i \<Longrightarrow> lru_blks (cc_tags (cs_cache s1)) ! j = lru_blks (cc_tags ?c) ! j"
    "cc_base (cs_cache s1) = cc_base ?c"
    using ok1 assms(2) fnd(1) by (simp_all add: s1_def upd_ptr_def nth_upd_blk upd_blk_other)
  have kinds: "pkt_isRequest pkt" "pkt_isRead pkt" "\<not> pkt_isInvalidate pkt" "\<not> pkt_needsExclusive pkt" "pkt_needsResponse pkt"
    using assms(6) by (simp_all add: pkt_query_defs cmd_defs)
  let ?p = "assertShared pkt" and ?e = "blk_isWritable ?b"
  have sh: "sharedAsserted ?p" "pkt_at a n ?p" "p_cmd ?p = ReadReq" "\<not> memInhibitAsserted ?p"
    using assms(4,6,7) by (simp_all add: snoop_defs pkt_at_def getAddr_def getSize_def getPtr_def flag_simps pkt_flag_defs)
  have data: "blk_data (the_blk (TagBlk i) (cs_cache s1)) = blk_data ?b" using c1(3) by (simp add: downgrade_def)
  obtain pkt' where "(if blk_isDirty ?b
      then bind_res (makeAtomicResponse (owner_reply ?e ?p)) (\<lambda>pkt.
        bind_res (setDataFromBlock (blk_data (the_blk (TagBlk i) (cs_cache s1))) (int (c_blkSize (cc_base ?c))) pkt) (\<lambda>pkt. Inr (pkt, s1)))
      else Inr (?p, s1)) = Inr (pkt', s1)" and pkt': "sharedAsserted pkt'"
      "blk_isDirty ?b \<longrightarrow> memInhibitAsserted pkt' \<and> pkt_isResponse pkt' \<and> p_data pkt' = Some (bytes_at ?c i a n)"
    by (cases "blk_isDirty ?b", use sh in \<open>auto intro: owner_answers [where e = ?e and s = s1, OF assms(1) sh(2) assms(5) fnd(1) data]\<close>)
  moreover have "pkt_isRequest orig" using assms(3) kinds(1) by (simp add: forwarded_def pkt_query_defs)
  ultimately have "cache_handleSnoop up ms now orig (Some (TagBlk i)) False False False s = Inr (pkt', s1)"
    using assms(3) fnd(2) kinds sh(4) c1(5)
    by (simp add: cache_handleSnoop_def forwarded_def downgrade_fun s1_def [symmetric] owner_reply_def Let_def split: if_splits)
  then show ?thesis
    using c1 pkt' assms(6) by (auto simp: snooped_def left_by_def tags_ok_def)
qed

lemma snoop_readex:
  assumes "tags_ok (cs_cache s)" and "lru_findBlock (cc_tags (cs_cache s)) a = Some i" and "forwarded up now False orig s pkt"
    and "pkt_at a n pkt" and "fits (cs_cache s) a n" and "p_cmd pkt = ReadExReq" and "\<not> memInhibitAsserted pkt"
  shows "\<exists>pkt' s'. cache_handleSnoop up ms now orig (Some (TagBlk i)) False False False s = Inr (pkt', s') \<and>
    snooped pkt a n i (cs_cache s) pkt' (cs_cache s')"
proof -
  let ?c = "cs_cache s" and ?b = "lru_blks (cc_tags (cs_cache s)) ! i"
  let ?e = "blk_isWritable ?b"
  have inv: "lru_inv (cc_tags ?c)" using assms(1) by (simp add: tags_ok_def)
  note fnd = lru_findBlock_valid [OF inv assms(2)]
  have kinds: "pkt_isRequest pkt" "pkt_isInvalidate pkt" "pkt_needsResponse pkt"
    using assms(6) by (simp_all add: pkt_query_defs cmd_defs)
  have data: "blk_data (the_blk (TagBlk i) ?c) = blk_data ?b" by simp
  obtain pkt' where ans: "(if blk_isDirty ?b
      then bind_res (makeAtomicResponse (owner_reply ?e pkt)) (\<lambda>pkt.
        bind_res (setDataFromBlock (blk_data (the_blk (TagBlk i) ?c)) (int (c_blkSize (cc_base ?c))) pkt) (\<lambda>pkt. Inr (pkt, s)))
      else Inr (pkt, s)) = Inr (pkt', s)" and pkt':
      "blk_isDirty ?b \<longrightarrow> memInhibitAsserted pkt' \<and> pkt_isResponse pkt' \<and> p_data pkt' = Some (bytes_at ?c i a n)"
    by (cases "blk_isDirty ?b", use assms(6) in \<open>auto intro: owner_answers [where e = ?e and s = s, OF assms(1,4,5) fnd(1) data]\<close>)
  obtain l' where l': "lru_invalidateBlk (Some i) (cc_tags ?c) = Inr l'" "lru_inv l'" "lru_findBlock l' a = None"
    "\<And>j. j \<noteq> i \<Longrightarrow> lru_blks l' ! j = lru_blks (cc_tags ?c) ! j"
    by (rule lru_invalidate_found [OF inv assms(2)]) blast
  have "pkt_isRequest orig" using assms(3) kinds(1) by (simp add: forwarded_def pkt_query_defs)
  then have "cache_handleSnoop up ms now orig (Some (TagBlk i)) False False False s = Inr (pkt', s\<lparr>cs_cache := ?c\<lparr>cc_tags := l'\<rparr>\<rparr>)"
    using assms(3,7) fnd(2) kinds ans l'(1)
    by (simp add: cache_handleSnoop_def forwarded_def owner_reply_def invalidate_def Let_def split: if_splits)
  then show ?thesis using l' pkt' assms(6) by (auto simp: snooped_def left_by_def)
qed

section \<open>Timing snoops\<close>

text \<open>The packet of a timing response: a copy of the request, with room for the data.\<close>

lemma copy_allocates:
  assumes "pkt_at a n pkt"
  obtains q where "allocate (Packet_copy now pkt False) = Inr q" "pkt_at a n q" "p_cmd q = p_cmd pkt" "sharedAsserted q = sharedAsserted pkt"
proof -
  let ?c = "Packet_copy now pkt False"
  have c: "getAddr ?c = getAddr pkt" "getSize ?c = getSize pkt" "p_cmd ?c = p_cmd pkt" "sharedAsserted ?c = sharedAsserted pkt"
    by (simp_all add: Packet_copy_def Let_def flags_isSet_masked snoop_defs getAddr_def getSize_def flag_simps pkt_flag_defs)
  show thesis
  proof (cases "flags_isSet (p_flags pkt) PKT_STATIC_DATA")
    case True
    obtain d where d: "p_data pkt = Some d" "length d = n" using assms by (auto simp: pkt_at_def getPtr_def res_simps split: option.splits)
    have f: "flags_isSet (p_flags ?c) (PKT_STATIC_DATA OR PKT_DYNAMIC_DATA)" "p_data ?c = Some d"
      using True d(1) by (simp_all add: Packet_copy_def Let_def flags_isSet_masked flag_simps pkt_flag_defs)
    show thesis by (rule that [of ?c]) (use f c d assms in \<open>simp_all add: allocate_def pkt_at_def getPtr_def\<close>)
  next
    case False
    then have f: "flags_noneSet (p_flags ?c) (PKT_STATIC_DATA OR PKT_DYNAMIC_DATA)" "p_data ?c = None"
      by (simp_all add: Packet_copy_def Let_def flags_isSet_masked flag_simps pkt_flag_defs)
    let ?q = "?c\<lparr>p_flags := flags_set (p_flags ?c) (PKT_DYNAMIC_DATA OR PKT_ARRAY_DATA), p_data := Some (replicate n None)\<rparr>"
    have s: "getSize ?c = Inr (of_nat n)" "unat (of_nat n :: 32 word) = n" using c(2) assms pkt_at_size [OF assms] by (simp_all add: pkt_at_def)
    have "getAddr ?q = getAddr ?c" "getSize ?q = getSize ?c" "getPtr ?q = Inr (replicate n None)" "sharedAsserted ?q = sharedAsserted ?c"
      by (simp_all add: snoop_defs getAddr_def getSize_def getPtr_def flag_simps pkt_flag_defs)
    then show thesis using that [of ?q] f s c assms by (simp add: allocate_def pkt_at_def)
  qed
qed

lemma supply_ok:
  assumes "tags_ok (cs_cache s)" and "pkt_at a n pkt" and "fits (cs_cache s) a n" and "p_cmd pkt \<in> {ReadReq, ReadExReq}"
    and "pkt_isInvalidate pkt \<or> sharedAsserted pkt" and "length data = lru_blkSize (cc_tags (cs_cache s))"
    and "event_ok now (cp_port (c_memSidePort (cc_base (cs_cache s))))"
    and "0 < c_hitLatency (cc_base (cs_cache s))" and "c_hitLatency (cc_base (cs_cache s)) < ms"
  obtains r p where "doTimingSupplyResponse ms now pkt data False False s =
      Inr (s\<lparr>cs_cache := (cs_cache s)\<lparr>cc_base := (cc_base (cs_cache s))\<lparr>c_memSidePort := p\<rparr>\<rparr>\<rparr>)"
    "(now + c_hitLatency (cc_base (cs_cache s)), r) \<in> set (tp_transmitList (cp_port p))" "pkt_isResponse r" "sharedAsserted r = sharedAsserted pkt"
    "p_data r = Some (take n (drop (extractBlkOffset (cc_tags (cs_cache s)) a) data))"
proof -
  let ?c = "cs_cache s" and ?p = "c_memSidePort (cc_base (cs_cache s))" and ?t = "now + c_hitLatency (cc_base (cs_cache s))"
  obtain q where q: "allocate (Packet_copy now pkt False) = Inr q" "pkt_at a n q" "p_cmd q = p_cmd pkt" "sharedAsserted q = sharedAsserted pkt"
    by (rule copy_allocates [OF assms(2)])
  have "pkt_needsResponse q" using assms(4) q(3) by (auto simp: pkt_query_defs cmd_defs)
  then obtain k where k: "makeResponse q = Inr k" using makeResponse_total by blast
  note kk = makeResponse_keeps [OF k]
  have kinds: "pkt_isRead k" "pkt_isResponse k" using assms(4) kk(6) q(3) by (auto simp: pkt_query_defs cmd_defs)
  define r where "r = k\<lparr>p_data := Some (take n (drop (extractBlkOffset (cc_tags ?c) a) data))\<rparr>"
  have sup: "setDataFromBlock data (int (c_blkSize (cc_base ?c))) k = Inr r"
    using data_supplies [OF assms(1) _ assms(3,6), of k] kk(4) q(2) by (simp add: r_def)
  have sh: "sharedAsserted (Packet_copy now pkt False) = sharedAsserted pkt"
    by (simp add: Packet_copy_def Let_def flags_isSet_masked snoop_defs flag_simps pkt_flag_defs)
  have t: "now < ?t" "?t < now + ms" using assms(8,9) by simp_all
  obtain x where x: "schedSendTiming ms now r ?t (cp_port ?p) = Inr x" "tp_transmitList x = insert_packet ?t r (tp_transmitList (cp_port ?p))"
    by (rule schedSendTiming_spec [OF assms(7) t])
  have "doTimingSupplyResponse ms now pkt data False False s =
      Inr (s\<lparr>cs_cache := ?c\<lparr>cc_base := (cc_base ?c)\<lparr>c_memSidePort := ?p\<lparr>cp_port := x\<rparr>\<rparr>\<rparr>\<rparr>)"
    using assms(5) q(1) k sup kinds(1) x(1) sh
    by (simp add: doTimingSupplyResponse_def makeTimingResponse_def Let_def mem_respond_def on_base_def respond_def)
  then show thesis by (rule that [where r = r]) (use x(2) kinds(2) kk(1) q(4) in \<open>simp_all add: insert_packet_def r_def pkt_query_defs snoop_defs\<close>)
qed

text \<open>A cache whose registers and buffered writebacks do not concern the block, and whose memory-side port can take a response.\<close>

definition snoop_idle :: "Tick \<Rightarrow> Tick \<Rightarrow> Addr \<Rightarrow> 'e CacheSys \<Rightarrow> bool" where
  "snoop_idle ms now a s \<longleftrightarrow> (let b = cc_base (cs_cache s); x = blockAlign b a
     in q_findMatch (cs_heap s) x (c_mshrQueue b) = None \<and> snd (q_findMatches (cs_heap s) x (c_writeBuffer b)) = [] \<and>
        event_ok now (cp_port (c_memSidePort b)) \<and> 0 < c_hitLatency b \<and> c_hitLatency b < ms)"

definition answered :: "Tick \<Rightarrow> Addr \<Rightarrow> nat \<Rightarrow> nat \<Rightarrow> 'e CacheSys \<Rightarrow> Packet \<Rightarrow> 'e CacheSys \<Rightarrow> bool" where
  "answered now a n i s pkt' s' \<longleftrightarrow> memInhibitAsserted pkt' \<and>
     (\<exists>r. (now + c_hitLatency (cc_base (cs_cache s)), r) \<in> set (tp_transmitList (cp_port (c_memSidePort (cc_base (cs_cache s'))))) \<and>
        pkt_isResponse r \<and> sharedAsserted r = sharedAsserted pkt' \<and> p_data r = Some (bytes_at (cs_cache s) i a n))"

lemma timing_snoop_read:
  assumes "tags_ok (cs_cache s)" and "lru_findBlock (cc_tags (cs_cache s)) a = Some i" and "forwarded up now True orig s pkt"
    and "pkt_at a n pkt" and "fits (cs_cache s) a n" and "p_cmd pkt = ReadReq" and "\<not> memInhibitAsserted pkt" and "snoop_idle ms now a s"
  shows "\<exists>pkt' s'. cache_handleSnoop up ms now orig (Some (TagBlk i)) True False False s = Inr (pkt', s') \<and>
    (blk_isDirty (lru_blks (cc_tags (cs_cache s)) ! i) \<longrightarrow> answered now a n i s pkt' s') \<and> left_by pkt a i (cs_cache s) pkt' (cs_cache s')"
proof -
  let ?c = "cs_cache s" and ?b = "lru_blks (cc_tags (cs_cache s)) ! i"
  have inv: "lru_inv (cc_tags ?c)" using assms(1) by (simp add: tags_ok_def)
  note fnd = lru_findBlock_valid [OF inv assms(2)]
  define s1 where "s1 = upd_ptr (TagBlk i) downgrade s"
  have keep: "keeps_identity (the_blk (TagBlk i) ?c) (downgrade (the_blk (TagBlk i) ?c))" by (rule downgrade_keeps(5))
  note ok1 = set_blk_ok [where f = downgrade, OF assms(1) keep]
  have c1: "tags_ok (cs_cache s1)" "lru_findBlock (cc_tags (cs_cache s1)) a = Some i"
    "lru_blks (cc_tags (cs_cache s1)) ! i = downgrade ?b" "\<And>j. j \<noteq> i \<Longrightarrow> lru_blks (cc_tags (cs_cache s1)) ! j = lru_blks (cc_tags ?c) ! j"
    "cc_base (cs_cache s1) = cc_base ?c" "lru_blkSize (cc_tags (cs_cache s1)) = lru_blkSize (cc_tags ?c)"
    "extractBlkOffset (cc_tags (cs_cache s1)) a = extractBlkOffset (cc_tags ?c) a"
    using ok1 assms(2) fnd(1) by (simp_all add: s1_def upd_ptr_def nth_upd_blk upd_blk_other upd_blk_def extractBlkOffset_def)
  have kinds: "pkt_isRequest pkt" "pkt_isRead pkt" "\<not> pkt_isInvalidate pkt" "\<not> pkt_needsExclusive pkt" "pkt_needsResponse pkt"
    using assms(6) by (simp_all add: pkt_query_defs cmd_defs)
  have orig: "pkt_isRequest orig" using assms(3) kinds(1) by (simp add: forwarded_def pkt_query_defs)
  let ?p = "assertShared pkt"
  have sh: "sharedAsserted ?p" "pkt_at a n ?p" "p_cmd ?p = ReadReq" "\<not> memInhibitAsserted ?p"
    using assms(4,6,7) by (simp_all add: snoop_defs pkt_at_def getAddr_def getSize_def getPtr_def flag_simps pkt_flag_defs)
  let ?q = "owner_reply (blk_isWritable ?b) ?p" and ?d = "blk_data (the_blk (TagBlk i) (cs_cache s1))"
  have q: "pkt_at a n ?q" "p_cmd ?q \<in> {ReadReq, ReadExReq}" "pkt_isInvalidate ?q \<or> sharedAsserted ?q" "fits (cs_cache s1) a n"
    using sh assms(5) c1(6,7) owner_reply_keeps by (simp_all add: fits_def)
  have d: "?d = blk_data ?b" "length ?d = lru_blkSize (cc_tags (cs_cache s1))"
    using c1(1,3,6) assms(1) fnd(1) by (simp_all add: downgrade_def tags_ok_def blocks_ok_def)
  have idle: "event_ok now (cp_port (c_memSidePort (cc_base (cs_cache s1))))" "0 < c_hitLatency (cc_base (cs_cache s1))" "c_hitLatency (cc_base (cs_cache s1)) < ms"
    using assms(8) c1(5) by (simp_all add: snoop_idle_def Let_def)
  obtain r k where k: "doTimingSupplyResponse ms now ?q ?d False False s1 =
      Inr (s1\<lparr>cs_cache := (cs_cache s1)\<lparr>cc_base := (cc_base (cs_cache s1))\<lparr>c_memSidePort := k\<rparr>\<rparr>\<rparr>)"
    "(now + c_hitLatency (cc_base (cs_cache s1)), r) \<in> set (tp_transmitList (cp_port k))" "pkt_isResponse r" "sharedAsserted r = sharedAsserted ?q"
    "p_data r = Some (take n (drop (extractBlkOffset (cc_tags (cs_cache s1)) a) ?d))"
    by (rule supply_ok [OF c1(1) q(1,4,2,3) d(2) idle])
  let ?s2 = "s1\<lparr>cs_cache := (cs_cache s1)\<lparr>cc_base := (cc_base (cs_cache s1))\<lparr>c_memSidePort := k\<rparr>\<rparr>\<rparr>"
  have inv1: "lru_inv (cc_tags (cs_cache s1))" using c1(1) by (simp add: tags_ok_def)
  show ?thesis
  proof (cases "blk_isDirty ?b")
    case True
    have "cache_handleSnoop up ms now orig (Some (TagBlk i)) True False False s = Inr (?q, ?s2)"
      using assms(3) fnd(2) kinds sh(4) orig k(1) True
      by (simp add: cache_handleSnoop_def forwarded_def downgrade_fun s1_def [symmetric] owner_reply_def Let_def split: if_splits)
    moreover have "answered now a n i s ?q ?s2" using k(2-5) owner_reply_keeps(1) c1(5,7) d(1) by (auto simp: answered_def bytes_at_def)
    moreover have "left_by pkt a i ?c ?q (cs_cache ?s2)" using c1(2-4) sh(1) owner_reply_keeps(2) inv1 assms(6) by (simp add: left_by_def)
    ultimately show ?thesis by blast
  next
    case False
    have "cache_handleSnoop up ms now orig (Some (TagBlk i)) True False False s = Inr (?p, s1)"
      using assms(3) fnd(2) kinds sh(4) orig False
      by (simp add: cache_handleSnoop_def forwarded_def downgrade_fun s1_def [symmetric] Let_def split: if_splits)
    moreover have "left_by pkt a i ?c ?p (cs_cache s1)" using c1(2-4) sh(1) inv1 assms(6) by (simp add: left_by_def)
    ultimately show ?thesis using False by blast
  qed
qed

lemma timing_snoop_readex:
  assumes "tags_ok (cs_cache s)" and "lru_findBlock (cc_tags (cs_cache s)) a = Some i" and "forwarded up now True orig s pkt"
    and "pkt_at a n pkt" and "fits (cs_cache s) a n" and "p_cmd pkt = ReadExReq" and "\<not> memInhibitAsserted pkt" and "snoop_idle ms now a s"
  shows "\<exists>pkt' s'. cache_handleSnoop up ms now orig (Some (TagBlk i)) True False False s = Inr (pkt', s') \<and>
    (blk_isDirty (lru_blks (cc_tags (cs_cache s)) ! i) \<longrightarrow> answered now a n i s pkt' s') \<and> left_by pkt a i (cs_cache s) pkt' (cs_cache s')"
proof -
  let ?c = "cs_cache s" and ?b = "lru_blks (cc_tags (cs_cache s)) ! i"
  let ?q = "owner_reply (blk_isWritable ?b) pkt" and ?d = "blk_data (the_blk (TagBlk i) (cs_cache s))"
  have inv: "lru_inv (cc_tags ?c)" using assms(1) by (simp add: tags_ok_def)
  note fnd = lru_findBlock_valid [OF inv assms(2)]
  have kinds: "pkt_isRequest pkt" "pkt_isInvalidate pkt" "pkt_needsResponse pkt"
    using assms(6) by (simp_all add: pkt_query_defs cmd_defs)
  have orig: "pkt_isRequest orig" using assms(3) kinds(1) by (simp add: forwarded_def pkt_query_defs)
  have q: "pkt_at a n ?q" "p_cmd ?q \<in> {ReadReq, ReadExReq}" "pkt_isInvalidate ?q \<or> sharedAsserted ?q"
    using assms(4,6) kinds(2) owner_reply_keeps by (simp_all add: pkt_query_defs)
  have d: "length ?d = lru_blkSize (cc_tags ?c)" using assms(1) fnd(1) by (simp add: tags_ok_def blocks_ok_def)
  have idle: "event_ok now (cp_port (c_memSidePort (cc_base ?c)))" "0 < c_hitLatency (cc_base ?c)" "c_hitLatency (cc_base ?c) < ms"
    using assms(8) by (simp_all add: snoop_idle_def Let_def)
  obtain r k where k: "doTimingSupplyResponse ms now ?q ?d False False s = Inr (s\<lparr>cs_cache := ?c\<lparr>cc_base := (cc_base ?c)\<lparr>c_memSidePort := k\<rparr>\<rparr>\<rparr>)"
    "(now + c_hitLatency (cc_base ?c), r) \<in> set (tp_transmitList (cp_port k))" "pkt_isResponse r" "sharedAsserted r = sharedAsserted ?q"
    "p_data r = Some (take n (drop (extractBlkOffset (cc_tags ?c) a) ?d))"
    by (rule supply_ok [OF assms(1) q(1) assms(5) q(2,3) d idle])
  obtain l' where l': "lru_invalidateBlk (Some i) (cc_tags ?c) = Inr l'" "lru_inv l'" "lru_findBlock l' a = None"
    "\<And>j. j \<noteq> i \<Longrightarrow> lru_blks l' ! j = lru_blks (cc_tags ?c) ! j"
    by (rule lru_invalidate_found [OF inv assms(2)]) blast
  let ?s2 = "s\<lparr>cs_cache := ?c\<lparr>cc_base := (cc_base ?c)\<lparr>c_memSidePort := k\<rparr>, cc_tags := l'\<rparr>\<rparr>"
  show ?thesis
  proof (cases "blk_isDirty ?b")
    case True
    have "cache_handleSnoop up ms now orig (Some (TagBlk i)) True False False s = Inr (?q, ?s2)"
      using assms(3,7) fnd(2) kinds orig k(1) l'(1) True
      by (simp add: cache_handleSnoop_def forwarded_def owner_reply_def invalidate_def Let_def split: if_splits)
    moreover have "answered now a n i s ?q ?s2" using k(2-5) owner_reply_keeps(1) by (auto simp: answered_def bytes_at_def)
    moreover have "left_by pkt a i ?c ?q (cs_cache ?s2)" using l' assms(6) by (simp add: left_by_def)
    ultimately show ?thesis by blast
  next
    case False
    have "cache_handleSnoop up ms now orig (Some (TagBlk i)) True False False s = Inr (pkt, s\<lparr>cs_cache := ?c\<lparr>cc_tags := l'\<rparr>\<rparr>)"
      using assms(3,7) fnd(2) kinds orig l'(1) False by (simp add: cache_handleSnoop_def forwarded_def invalidate_def Let_def split: if_splits)
    moreover have "left_by pkt a i ?c pkt (?c\<lparr>cc_tags := l'\<rparr>)" using l' assms(6) by (simp add: left_by_def)
    ultimately show ?thesis using False by (intro exI [of _ pkt] exI [of _ "s\<lparr>cs_cache := ?c\<lparr>cc_tags := l'\<rparr>\<rparr>"]) simp
  qed
qed

section \<open>Two caches\<close>

text \<open>A packet with the data of the block at \<open>a\<close> that a cache can take as a fill.\<close>

definition data_response :: "Addr \<Rightarrow> Cache \<Rightarrow> Packet \<Rightarrow> bool" where
  "data_response a c f \<longleftrightarrow> getAddr f = Inr a \<and> pkt_isRead f \<and> pkt_hasData f \<and>
     (\<exists>d. getPtr f = Inr d \<and> length d = lru_blkSize (cc_tags c)) \<and>
     (\<exists>cid. request_ctx (p_req f) = Inr cid \<and> -1 \<le> cid)"

text \<open>
  The holder has no writable copy left, and a cache that is filled with a response with the shared line as
  in \<open>pkt'\<close> finds the block; if it may write its copy, the holder has none.
\<close>

definition one_writer :: "Tick \<Rightarrow> Addr \<Rightarrow> nat \<Rightarrow> Packet list \<Rightarrow> Cache \<Rightarrow> Packet \<Rightarrow> Cache \<Rightarrow> bool" where
  "one_writer now a j wbs c pkt' h \<longleftrightarrow>
     (\<forall>k. lru_findBlock (cc_tags h) a = Some k \<longrightarrow> \<not> blk_isWritable (lru_blks (cc_tags h) ! k)) \<and>
     (\<forall>f. data_response a c f \<and> sharedAsserted f = sharedAsserted pkt' \<longrightarrow>
        (\<exists>c'. handleFill now f None c = Inr (TagBlk j, wbs, c') \<and> lru_findBlock (cc_tags c') a = Some j \<and>
           (blk_isWritable (lru_blks (cc_tags c') ! j) \<longrightarrow> lru_findBlock (cc_tags h) a = None)))"

lemma left_by_one_writer:
  assumes "left_by q a i h0 pkt' h" "p_cmd q \<in> {ReadReq, ReadExReq}"
    and "tags_ok c" "lru_findBlock (cc_tags c) a = None" "allocateBlock now a c = Inr (Some j, wbs, c1)"
  shows "one_writer now a j wbs c pkt' h"
proof -
  have "\<exists>c'. handleFill now f None c = Inr (TagBlk j, wbs, c') \<and> lru_findBlock (cc_tags c') a = Some j \<and>
      (blk_isWritable (lru_blks (cc_tags c') ! j) \<longrightarrow> lru_findBlock (cc_tags h) a = None)"
    if f: "data_response a c f" "sharedAsserted f = sharedAsserted pkt'" for f
  proof -
    obtain d cid where r: "getAddr f = Inr a" "pkt_isRead f" "pkt_hasData f" "getPtr f = Inr d" "length d = lru_blkSize (cc_tags c)"
      "request_ctx (p_req f) = Inr cid" "-1 \<le> cid" using f(1) by (auto simp: data_response_def)
    obtain c' where c': "handleFill now f None c = Inr (TagBlk j, wbs, c')" "lru_findBlock (cc_tags c') a = Some j"
      "blk_status (lru_blks (cc_tags c') ! j) = fill_status f"
      by (rule handleFill_new [OF assms(3,4) r assms(5)]) blast
    have "blk_isWritable (lru_blks (cc_tags c') ! j) \<longleftrightarrow> \<not> sharedAsserted pkt'"
      using c'(3) fill_status_flags(3) f(2) by (simp add: blk_isWritable_def)
    then show ?thesis using c' assms(1) by (auto simp: left_by_def split: if_splits)
  qed
  moreover have "\<not> blk_isWritable (lru_blks (cc_tags h) ! k)" if "lru_findBlock (cc_tags h) a = Some k" for k
    using that assms(1) downgrade_keeps(2) by (auto simp: left_by_def split: if_splits)
  ultimately show ?thesis by (simp add: one_writer_def)
qed

text \<open>
  C20: One writer.  A cache misses on a block that another cache holds; its cacheable read, or its
  request for ownership, which no cache answered so far, is snooped there, atomically or in timing mode.  The holder may forward the snoop to the
  caches above it, which is the default, as long as none of them answers it; for a timing snoop it has no register
  and no buffered writeback for the block, its memory-side port is consistent and its hit latency is
  positive and below the bound on scheduling.  The snoop completes, and if the holder's
  copy is dirty the holder answers with its data, in the packet itself or, in timing mode, in a response with the
  same shared line that is queued for the hit latency later.  When the requester is then filled, in a frame it can allocate, with a
  response that carries the shared line as the snoop left it, the block is found there, and
  the two caches never both have a copy while one of them may write: if the new copy is
  writable the other cache has lost the block, and a copy the other cache keeps is not
  writable.  Upgrades of a copy that the requester has are not covered.
\<close>

theorem single_writer:
  assumes "tags_ok (cs_cache s)" and "lru_findBlock (cc_tags (cs_cache s)) a = Some i"
    and "c_forwardSnoops (cc_base (cs_cache s)) \<longrightarrow> quiet_above up \<and> (\<exists>src. getSrc pkt = Inr src)" and "pkt_at a n pkt" and "fits (cs_cache s) a n"
    and "p_cmd pkt \<in> {ReadReq, ReadExReq}" and "\<not> memInhibitAsserted pkt" and "\<not> req_isUncacheable (p_req pkt)"
    and "tags_ok c" and "lru_findBlock (cc_tags c) a = None" and "allocateBlock now a c = Inr (Some j, wbs, c1)"
  shows "(\<exists>lat pkt' s'. snoopAtomic up ms now pkt s = Inr (lat, pkt', s') \<and>
      (blk_isDirty (lru_blks (cc_tags (cs_cache s)) ! i) \<longrightarrow>
         pkt_isResponse pkt' \<and> p_data pkt' = Some (bytes_at (cs_cache s) i a n)) \<and>
      one_writer now a j wbs c pkt' (cs_cache s')) \<and>
    (snoop_idle ms now a s \<longrightarrow>
      (\<exists>pkt' s'. snoopTiming up ms now pkt s = Inr (pkt', s') \<and>
         (blk_isDirty (lru_blks (cc_tags (cs_cache s)) ! i) \<longrightarrow> answered now a n i s pkt' s') \<and>
         one_writer now a j wbs c pkt' (cs_cache s')))"
proof (intro conjI impI)
  have ga: "getAddr pkt = Inr a" using assms(4) by (simp add: pkt_at_def)
  obtain q where q: "forwarded up now False pkt s q" "pkt_at a n q" "\<not> memInhibitAsserted q" "p_cmd q = p_cmd pkt"
    by (rule forwarded_quiet [OF assms(3,4,7)])
  obtain pkt' s' where h: "cache_handleSnoop up ms now pkt (Some (TagBlk i)) False False False s = Inr (pkt', s')"
    and sn: "snooped q a n i (cs_cache s) pkt' (cs_cache s')"
    using snoop_read [OF assms(1,2) q(1,2) assms(5) _ q(3), of ms] snoop_readex [OF assms(1,2) q(1,2) assms(5) _ q(3), of ms] assms(6)
    unfolding q(4) by blast
  have "snoopAtomic up ms now pkt s = Inr (c_hitLatency (cc_base (cs_cache s)), pkt', s')"
    using h ga assms(2,6,8) by (auto simp: snoopAtomic_def cache_findBlock_def)
  moreover have "one_writer now a j wbs c pkt' (cs_cache s')"
    by (rule left_by_one_writer [OF _ _ assms(9-11), of q i "cs_cache s"]) (use sn assms(6) q(4) in \<open>auto simp: snooped_def\<close>)
  moreover have "blk_isDirty (lru_blks (cc_tags (cs_cache s)) ! i) \<longrightarrow> pkt_isResponse pkt' \<and> p_data pkt' = Some (bytes_at (cs_cache s) i a n)"
    using sn by (simp add: snooped_def)
  ultimately show "\<exists>lat pkt' s'. snoopAtomic up ms now pkt s = Inr (lat, pkt', s') \<and>
      (blk_isDirty (lru_blks (cc_tags (cs_cache s)) ! i) \<longrightarrow> pkt_isResponse pkt' \<and> p_data pkt' = Some (bytes_at (cs_cache s) i a n)) \<and>
      one_writer now a j wbs c pkt' (cs_cache s')" by blast
next
  assume idle: "snoop_idle ms now a s"
  have ga: "getAddr pkt = Inr a" using assms(4) by (simp add: pkt_at_def)
  obtain q where q: "forwarded up now True pkt s q" "pkt_at a n q" "\<not> memInhibitAsserted q" "p_cmd q = p_cmd pkt"
    by (rule forwarded_quiet [OF assms(3,4,7)])
  obtain pkt' s' where h: "cache_handleSnoop up ms now pkt (Some (TagBlk i)) True False False s = Inr (pkt', s')"
    and sn: "blk_isDirty (lru_blks (cc_tags (cs_cache s)) ! i) \<longrightarrow> answered now a n i s pkt' s'" "left_by q a i (cs_cache s) pkt' (cs_cache s')"
    using timing_snoop_read [OF assms(1,2) q(1,2) assms(5) _ q(3) idle] timing_snoop_readex [OF assms(1,2) q(1,2) assms(5) _ q(3) idle] assms(6)
    unfolding q(4) by blast
  have "snoopTiming up ms now pkt s = Inr (pkt', s')"
    using h ga assms(2,6,8) idle by (auto simp: snoopTiming_def cache_findBlock_def snoop_idle_def Let_def)
  moreover have "one_writer now a j wbs c pkt' (cs_cache s')"
    using left_by_one_writer [OF sn(2) _ assms(9-11)] assms(6) q(4) by simp
  ultimately show "\<exists>pkt' s'. snoopTiming up ms now pkt s = Inr (pkt', s') \<and>
      (blk_isDirty (lru_blks (cc_tags (cs_cache s)) ! i) \<longrightarrow> answered now a n i s pkt' s') \<and> one_writer now a j wbs c pkt' (cs_cache s')"
    using sn(1) by blast
qed

section \<open>Witness\<close>

text \<open>The cache of the examples, with forwarding, holds the address 8; its neighbour holds 4 and 12.\<close>

definition demo_neighbour :: Cache where
  "demo_neighbour = demo_cache\<lparr>cc_tags := demo_tags\<lparr>lru_blks := [demo_blk 1 17, demo_blk 3 51]\<rparr>\<rparr>"

definition demo_holder :: "unit CacheSys" where
  "demo_holder = \<lparr>cs_cache = demo_cache\<lparr>cc_base := (cc_base demo_cache)\<lparr>c_forwardSnoops := True\<rparr>\<rparr>, cs_prefetcher = None, cs_prefetchOnAccess = False, cs_records = [], cs_snoops = []\<rparr>"

lemma demo_neighbour_ok: "tags_ok demo_neighbour"
proof -
  let ?l = "demo_tags\<lparr>lru_blks := [demo_blk 1 17, demo_blk 3 51]\<rparr>"
  have g: "same_geom demo_tags ?l" by (simp add: same_geom_def demo_tags_def)
  have r: "set_range ?l 0 = {0, 1}" by (auto simp: demo_tags_def set_range_def)
  have "lru_geom ?l" using demo_tags_inv same_geom_addr(4) [OF g] by (simp add: lru_inv_def)
  then have "lru_inv ?l"
    using r unfolding lru_inv_def by (auto simp: demo_tags_def demo_blk_def tagv_def CacheBlk_new_def)
  moreover have "blocks_ok ?l"
    by (auto simp: blocks_ok_def demo_tags_def demo_blk_def less_Suc_eq numeral_2_eq_2)
  ultimately show ?thesis
    using demo_cache_simps unfolding tags_ok_def demo_neighbour_def by (simp add: demo_tags_def)
qed

theorem single_writer_witness:
  "(\<exists>lat pkt' s'. snoopAtomic (\<lambda>p. p) 100 0 (setSrc 0 (demo_packet ReadExReq 8 4 [None, None, None, None])) demo_holder = Inr (lat, pkt', s') \<and>
     p_data pkt' = Some [Some 34, Some 34, Some 34, Some 34] \<and>
     (\<forall>k. lru_findBlock (cc_tags (cs_cache s')) 8 = Some k \<longrightarrow> \<not> blk_isWritable (lru_blks (cc_tags (cs_cache s')) ! k))) \<and>
   (\<exists>pkt' s'. snoopTiming (\<lambda>p. p) 100 0 (setSrc 0 (demo_packet ReadExReq 8 4 [None, None, None, None])) demo_holder = Inr (pkt', s') \<and>
     (\<exists>r. (1, r) \<in> set (tp_transmitList (cp_port (c_memSidePort (cc_base (cs_cache s'))))) \<and>
        p_data r = Some [Some 34, Some 34, Some 34, Some 34]) \<and>
     (\<forall>k. lru_findBlock (cc_tags (cs_cache s')) 8 = Some k \<longrightarrow> \<not> blk_isWritable (lru_blks (cc_tags (cs_cache s')) ! k)))"
proof -
  let ?p = "setSrc 0 (demo_packet ReadExReq 8 4 [None, None, None, None])"
  have nb: "lru_findBlock (cc_tags demo_neighbour) 8 = None" "lru_findBlock (cc_tags demo_neighbour) 12 = Some 1"
    "1 = last (lru_sets (cc_tags demo_neighbour) ! extractSet (cc_tags demo_neighbour) 8)"
    "\<not> cache_inMissQueue demo_neighbour (blkAlign (cc_tags demo_neighbour) 12)"
    by (simp_all add: demo_neighbour_def lru_findBlock_def extractTag_def extractSet_def demo_tags_def demo_blk_def CacheBlk_new_def
        blk_isValid_def flag_simps BlkValid_def drop_bit_eq_div cache_inMissQueue_def q_findMatch_def demo_cache_simps)
  obtain wbs c1 where al: "allocateBlock 0 8 demo_neighbour = Inr (Some 1, wbs, c1)"
    by (rule allocateBlock_ok [OF demo_neighbour_ok nb(2,3,4), of 0])
  have pk: "pkt_at 8 4 ?p" "p_cmd ?p = ReadExReq" using demo_packet_at [of "[None, None, None, None]" 4]
    by (simp_all add: setSrc_def pkt_at_def getAddr_def getSize_def getPtr_def flag_simps pkt_flag_defs)
  have fl: "\<not> memInhibitAsserted ?p" "\<not> req_isUncacheable (p_req ?p)"
    by (simp_all add: demo_packet_def setSrc_def snoop_defs Packet_new_def Packet_base_def Let_def flag_simps pkt_flag_defs req_isUncacheable_def
        req_flag_defs Request_new_def)
  have hold: "tags_ok (cs_cache demo_holder)" "lru_findBlock (cc_tags (cs_cache demo_holder)) 8 = Some 1"
    "fits (cs_cache demo_holder) 8 4"
    "blk_isDirty (lru_blks (cc_tags (cs_cache demo_holder)) ! 1)"
    using demo_cache_ok demo_lookup(2)
    by (simp_all add: demo_holder_def demo_cache_simps tags_ok_def fits_def extractBlkOffset_def demo_tags_def demo_blk_def
        CacheBlk_new_def blk_isDirty_def flags_isSet_def blk_flag_defs)
  have fwd: "c_forwardSnoops (cc_base (cs_cache demo_holder)) \<longrightarrow> quiet_above (\<lambda>p. p) \<and> (\<exists>src. getSrc ?p = Inr src)"
    by (simp add: quiet_above_def getSrc_def setSrc_def flag_simps pkt_flag_defs)
  have bytes: "bytes_at (cs_cache demo_holder) 1 8 4 = [Some 34, Some 34, Some 34, Some 34]"
    by (simp add: demo_holder_def demo_cache_simps bytes_at_def extractBlkOffset_def demo_tags_def demo_blk_def numeral_eq_Suc)
  have lat: "c_hitLatency (cc_base (cs_cache demo_holder)) = 1"
    by (simp add: demo_holder_def demo_cache_def Cache_new_def BaseCache_new_def Let_def)
  have idle: "snoop_idle 100 0 8 demo_holder"
    by (simp add: snoop_idle_def demo_holder_def demo_cache_def Cache_new_def BaseCache_new_def Let_def q_findMatch_def q_findMatches_def
        MSHRQueue_new_def CachePort_new_def SimpleTimingPort_new_def event_ok_def by_time_def)
  show ?thesis
    using single_writer [OF hold(1,2) fwd pk(1) hold(3) _ fl demo_neighbour_ok nb(1) al, of 100] pk(2) hold(4) bytes idle lat
    by (auto simp: one_writer_def answered_def)
qed

end
