(* ===== verification/Cache_Response.thy ===== *)
theory Cache_Response
  imports Cache_Issue Cache_Snoop
begin

unbundle bit_operations_syntax

text \<open>
  The end of a miss (\<open>Cache::handleResponse\<close>): the block is filled, the waiting request is
  answered, the register is freed and the block that had to go is written back.
\<close>

section \<open>Steps that do not touch the queues\<close>

lemma cache_ok_port:
  assumes "cache_ok b" and "cp_blocked p = cp_blocked (c_cpuSidePort b)"
  shows "cache_ok (b\<lparr>c_cpuSidePort := p\<rparr>)"
  using assms unfolding cache_ok_def queues_ok_def blocked_ok_def all_queues by (simp add: blocked_for_def isBlocked_def)

lemma cache_ok_same_config: "same_config b b' \<Longrightarrow> cache_ok b \<Longrightarrow> cache_ok b'"
  unfolding same_config_def cache_ok_def queues_ok_def blocked_ok_def all_queues by (auto simp: blocked_for_def isBlocked_def)

lemma cpu_respond_ok:
  assumes "event_ok now (cp_port (c_cpuSidePort (cc_base (cs_cache s))))" and "now < t" and "t < now + ms"
  obtains p where "cpu_respond ms now pkt t s =
      Inr (s\<lparr>cs_cache := (cs_cache s)\<lparr>cc_base := (cc_base (cs_cache s))\<lparr>c_cpuSidePort := p\<rparr>\<rparr>\<rparr>)"
    "cp_blocked p = cp_blocked (c_cpuSidePort (cc_base (cs_cache s)))" "(t, pkt) \<in> set (tp_transmitList (cp_port p))"
proof -
  let ?p = "c_cpuSidePort (cc_base (cs_cache s))"
  obtain q where q: "schedSendTiming ms now pkt t (cp_port ?p) = Inr q"
    "tp_transmitList q = insert_packet t pkt (tp_transmitList (cp_port ?p))"
    by (rule schedSendTiming_spec [OF assms])
  show thesis
    by (rule that [of "?p\<lparr>cp_port := q\<rparr>"])
      (use q in \<open>simp_all add: cpu_respond_def on_base_def respond_def insert_packet_def\<close>)
qed

section \<open>Answering the request\<close>

text \<open>A read that waited for the block gets its bytes at the time of the first word.\<close>

lemma answer_read:
  assumes "tags_ok c" and "length (blk_data (the_blk p c)) = lru_blkSize (cc_tags c)" and "pkt_at a n r" and "fits c a n"
    and "p_cmd r = ReadReq" and "\<not> req_isUncacheable (p_req r)" and "p_cmd f = ReadResp"
  obtains r' c' where
    "answer_target f True False (Some p) (uint (a AND lru_blkMask (cc_tags c))) r c =
       Inr (int (getHitLatency (cc_tags c)) + p_firstWordTime f, r', c')"
    "p_cmd r' = ReadResp" "p_data r' = Some (take n (drop (extractBlkOffset (cc_tags c) a) (blk_data (the_blk p c))))"
    "c' \<in> {c, set_blk p downgrade c}"
proof -
  obtain r1 c' where sat: "satisfyCpuSideRequest p r c = Inr (r1, c')"
    "p_data r1 = Some (take n (drop (extractBlkOffset (cc_tags c) a) (blk_data (the_blk p c))))"
    "p_cmd r1 = ReadReq" "pkt_at a n r1" "p_req r1 = p_req r" "c' \<in> {c, set_blk p downgrade c}"
    by (rule satisfy_read_ptr [OF assms(1,3,4,5,2)])
  have off: "getOffset (int (c_blkSize (cc_base c))) r1 = Inr (a AND lru_blkMask (cc_tags c))"
    by (rule in_block_guard(1) [OF assms(1) sat(4)]) (use assms(4) in \<open>simp add: fits_def\<close>)
  have "pkt_needsResponse r1" using sat(3) by (simp add: pkt_query_defs cmd_defs)
  then obtain r' where r': "makeResponse r1 = Inr r'" using makeResponse_total by blast
  note k = makeResponse_keeps [OF r']
  have "\<not> pkt_isInvalidate f" using assms(7) by (simp add: pkt_query_defs cmd_defs)
  then have "answer_target f True False (Some p) (uint (a AND lru_blkMask (cc_tags c))) r c =
      Inr (int (getHitLatency (cc_tags c)) + p_firstWordTime f, r', c')"
    using sat(1,5) off r' assms(6) by (simp add: answer_target_def makeTimingResponse_def Let_def)
  then show thesis by (rule that) (use k sat in \<open>simp_all add: cmd_defs\<close>)
qed

section \<open>Writebacks\<close>

definition buffered_ok :: "Packet \<Rightarrow> bool" where
  "buffered_ok wb \<longleftrightarrow> p_cmd wb = Writeback \<and> (\<exists>a. getAddr wb = Inr a) \<and> (\<exists>n. getSize wb = Inr n) \<and> p_senderState wb = None"

lemma allocateBlock_writebacks:
  assumes "tags_ok c" and "allocateBlock now a c = Inr (v, wbs, c')"
  shows "wbs = [] \<or> (\<exists>wb. wbs = [wb] \<and> buffered_ok wb)"
proof -
  have inv: "lru_inv (cc_tags c)" using assms(1) by (simp add: tags_ok_def)
  obtain k l' where l': "lru_findVictim a (cc_tags c) = Inr (k, l')" "k \<in> set_range (cc_tags c) (extractSet (cc_tags c) a)"
    "lru_inv l'" "same_geom (cc_tags c) l'"
    using lru_findVictim_ok [OF inv, of a] by metis
  have ok1: "tags_ok (c\<lparr>cc_tags := l'\<rparr>)"
    by (rule tags_ok_cong [OF assms(1) l'(3,4)]) (use lru_findVictim_payload [OF l'(1)] in \<open>auto simp: same_payload_def\<close>)
  have k: "k < length (lru_blks l')"
    using lru_set_member [OF inv _ l'(2)] inv extractSet_less l'(4) by (simp add: lru_inv_def same_geom_def)
  let ?b = "lru_blks l' ! k"
  have "wbs = [] \<or> (\<exists>wb. wbs = [wb] \<and> blk_isValid ?b \<and> blk_isDirty ?b \<and> writebackBlk now (TagBlk k) (c\<lparr>cc_tags := l'\<rparr>) = Inr (wb, c'))"
    using assms(2) l'(1) by (auto simp: allocateBlock_def res_simps Let_def split: if_splits option.splits)
  then show ?thesis
  proof (elim disjE exE conjE)
    fix wb assume wb: "wbs = [wb]" "blk_isValid ?b" "blk_isDirty ?b" "writebackBlk now (TagBlk k) (c\<lparr>cc_tags := l'\<rparr>) = Inr (wb, c')"
    have len: "length (blk_data (the_blk (TagBlk k) (c\<lparr>cc_tags := l'\<rparr>))) = c_blkSize (cc_base (c\<lparr>cc_tags := l'\<rparr>))"
      "c_blkSize (cc_base (c\<lparr>cc_tags := l'\<rparr>)) < 2 ^ 31"
      using ok1 k by (simp_all add: tags_ok_def blocks_ok_def)
    obtain wb' c1 where "writebackBlk now (TagBlk k) (c\<lparr>cc_tags := l'\<rparr>) = Inr (wb', c1)" "buffered_ok wb'"
      by (rule writebackBlk_ok [OF len, of now]) (use wb in \<open>auto simp: buffered_ok_def\<close>)
    then show ?thesis using wb by simp
  qed simp
qed

lemma copy_writebacks_ok:
  assumes "cache_ok (cc_base (cs_cache s))" and "q_freeList (c_writeBuffer (cc_base (cs_cache s))) \<noteq> []" and "now \<le> t"
    and "wbs = [] \<or> (\<exists>wb. wbs = [wb] \<and> buffered_ok wb)"
  obtains b' where "copy_writebacks now t wbs s = Inr (s\<lparr>cs_cache := (cs_cache s)\<lparr>cc_base := b'\<rparr>\<rparr>)" "cache_ok b'"
    "c_mshrQueue b' = c_mshrQueue (cc_base (cs_cache s))"
    "cp_port (c_cpuSidePort b') = cp_port (c_cpuSidePort (cc_base (cs_cache s)))"
    "c_blkSize b' = c_blkSize (cc_base (cs_cache s))" "wbs = [] \<Longrightarrow> b' = cc_base (cs_cache s)"
  using assms(4)
proof (elim disjE exE conjE)
  assume "wbs = []"
  then show thesis using that [of "cc_base (cs_cache s)"] assms(1) by simp
next
  fix wb assume wb: "wbs = [wb]" "buffered_ok wb"
  let ?b = "cc_base (cs_cache s)"
  obtain a n where an: "getAddr wb = Inr a" "getSize wb = Inr n" "p_cmd wb = Writeback" "p_senderState wb = None"
    using wb(2) by (auto simp: buffered_ok_def)
  have kind: "pkt_isWrite wb \<and> \<not> pkt_isRead wb" using an(3) by (simp add: pkt_query_defs cmd_defs)
  have free: "q_freeList (c_queue MSHRQueue_WriteBuffer ?b) \<noteq> []" using assms(2) by simp
  have idle: "upstream_idle wb (c_heap ?b)" using an(4) by (simp add: upstream_idle_def sender_mshr_def)
  obtain i b' where al: "allocateBufferInternal now MSHRQueue_WriteBuffer a (sint n) wb t True ?b = Inr (i, b')"
    by (rule allocateBufferInternal_total [OF assms(1) free idle assms(3)])
  have "copy_writebacks now t wbs s = Inr (s\<lparr>cs_cache := (cs_cache s)\<lparr>cc_base := b'\<rparr>\<rparr>)"
    using wb(1) an kind al by (simp add: write_buffer_def on_base_def allocateWriteBuffer_def)
  moreover have "c_mshrQueue b' = c_mshrQueue ?b" "cp_port (c_cpuSidePort b') = cp_port (c_cpuSidePort ?b)" "c_blkSize b' = c_blkSize ?b"
    using al by (auto simp: allocateBufferInternal_def setBlocked_def cp_setBlocked_def requestMemSideBus_def res_simps Let_def
        split: if_splits)
  ultimately show thesis using that allocateBufferInternal_ok(1) [OF assms(1) al] wb(1) by blast
qed

section \<open>Freeing the register\<close>

lemma clearBlocked_port:
  "clearBlocked now x c = Inr c' \<Longrightarrow> cp_port (c_cpuSidePort c') = cp_port (c_cpuSidePort c) \<and> c_blkSize c' = c_blkSize c"
  by (auto simp: clearBlocked_def cp_clearBlocked_def res_simps Let_def split: if_splits)

lemma retire_single:
  assumes "cache_ok (cc_base (cs_cache s))" and "i \<in> set (q_allocatedList (c_mshrQueue (cc_base (cs_cache s))))"
    and "tl_list (m_targets (cs_heap s ! i)) = [t]" and "tl_list (m_deferredTargets (cs_heap s ! i)) = []"
  obtains m b' where "popTarget (cs_heap s ! i) = Inr m"
    "retire_mshr now i (q_isFull (c_mshrQueue (cc_base (cs_cache s)))) pkt blk
       (upd_base (\<lambda>b. b\<lparr>c_heap := (c_heap b)[i := m]\<rparr>) s) = Inr (s\<lparr>cs_cache := (cs_cache s)\<lparr>cc_base := b'\<rparr>\<rparr>)"
    "cache_ok b'" "i \<notin> set (q_allocatedList (c_mshrQueue b'))" "c_writeBuffer b' = c_writeBuffer (cc_base (cs_cache s))"
    "cp_port (c_cpuSidePort b') = cp_port (c_cpuSidePort (cc_base (cs_cache s)))" "c_blkSize b' = c_blkSize (cc_base (cs_cache s))"
proof -
  let ?b = "cc_base (cs_cache s)" and ?ix = MSHRQueue_MSHRs
  have reg: "i \<in> set (q_allocatedList (c_queue ?ix ?b))" "tl_list (m_targets (c_heap ?b ! i)) = [t]"
    "tl_list (m_deferredTargets (c_heap ?b ! i)) = []" using assms(2-4) by (simp_all add: cs_heap_def)
  obtain m q h where rel: "popTarget (c_heap ?b ! i) = Inr m" "tl_list (m_targets m) = []" "tl_list (m_deferredTargets m) = []"
    "q_deallocate i (c_queue ?ix ?b) ((c_heap ?b)[i := m]) = Inr (q, h)" "q_inv (c_regs ?ix ?b) q h" "touches (c_regs ?ix ?b) (c_heap ?b) h"
    "q_numEntries q = q_numEntries (c_queue ?ix ?b)" "q_numReserve q = q_numReserve (c_queue ?ix ?b)"
    "q_allocated q = q_allocated (c_queue ?ix ?b) - 1" "i \<notin> set (q_allocatedList q)"
    by (rule release_register [OF assms(1) reg])
  have inv: "q_inv (c_regs ?ix ?b) (c_queue ?ix ?b) (c_heap ?b)" using assms(1) unfolding cache_ok_def queues_ok_def by blast
  then have "set (q_allocatedList (c_queue ?ix ?b)) \<subseteq> c_regs ?ix ?b" by (auto simp: q_inv_def simp del: c_regs.simps)
  then have i: "i \<in> c_regs ?ix ?b" "i < length (c_heap ?b)" using reg(1) q_inv_less [OF inv] by blast+
  have le: "q_allocated q \<le> q_allocated (c_queue ?ix ?b)" using rel(9) by simp
  obtain b' where b': "(if q_isFull (c_queue ?ix ?b) \<and> \<not> q_isFull q
      then clearBlocked now (queue_cause ?ix) (c_set_queue ?ix q (?b\<lparr>c_heap := h\<rparr>))
      else Inr (c_set_queue ?ix q (?b\<lparr>c_heap := h\<rparr>))) = Inr b'" "cache_ok b'" "same_queues (c_set_queue ?ix q (?b\<lparr>c_heap := h\<rparr>)) b'"
    by (rule release_queue [OF assms(1) rel(5-8) le, of now])
  have prom: "mshr_promoteDeferredTargets now m = Inr (False, m)" using rel(2,3) by (simp add: mshr_promoteDeferredTargets_def)
  have mq: "mshr_queue_of i (?b\<lparr>c_heap := x\<rparr>) = ?ix" for x using i(1) by (simp add: mshr_queue_of_def)
  have "retire_mshr now i (q_isFull (c_mshrQueue ?b)) pkt blk (upd_base (\<lambda>b. b\<lparr>c_heap := (c_heap b)[i := m]\<rparr>) s)
      = Inr (s\<lparr>cs_cache := (cs_cache s)\<lparr>cc_base := b'\<rparr>\<rparr>)"
    using b'(1) rel(4) prom mq i(2) by (auto simp: retire_mshr_def upd_base_def cs_heap_def on_base_def Let_def split: if_splits)
  moreover have "cp_port (c_cpuSidePort b') = cp_port (c_cpuSidePort ?b)" "c_blkSize b' = c_blkSize ?b"
    using b'(1) by (auto split: if_splits dest!: clearBlocked_port)
  moreover have "c_mshrQueue b' = q" "c_writeBuffer b' = c_writeBuffer ?b"
    using b'(3) unfolding same_queues_def all_queues by simp_all
  ultimately show thesis using that [of m b'] rel(1,10) b'(2) by (simp add: cs_heap_def)
qed

section \<open>A read miss completes\<close>

text \<open>A register that waits for the block of one read of the processor side.\<close>

definition waits_for_read :: "nat \<Rightarrow> Addr \<Rightarrow> nat \<Rightarrow> Target \<Rightarrow> 'e CacheSys \<Rightarrow> bool" where
  "waits_for_read i a n t s \<longleftrightarrow>
     i \<in> set (q_allocatedList (c_mshrQueue (cc_base (cs_cache s)))) \<and> c_noTargetMSHR (cc_base (cs_cache s)) \<noteq> Some i \<and>
     tl_list (m_targets (cs_heap s ! i)) = [t] \<and> tl_list (m_deferredTargets (cs_heap s ! i)) = [] \<and>
     \<not> m_isForward (cs_heap s ! i) \<and> t_source t = FromCPU \<and> p_cmd (t_pkt t) = ReadReq \<and>
     pkt_at a n (t_pkt t) \<and> fits (cs_cache s) a n \<and> \<not> req_isUncacheable (p_req (t_pkt t))"

text \<open>The response of the memory side with the data \<open>d\<close> of the block.\<close>

definition brings_block :: "nat \<Rightarrow> Addr \<Rightarrow> pkt_data \<Rightarrow> Packet \<Rightarrow> Cache \<Rightarrow> bool" where
  "brings_block i a d f c \<longleftrightarrow> p_senderState f = Some i \<and> p_cmd f = ReadResp \<and> getAddr f = Inr (blkAlign (cc_tags c) a) \<and>
     getPtr f = Inr d \<and> length d = lru_blkSize (cc_tags c) \<and> (\<exists>cid. request_ctx (p_req f) = Inr cid \<and> -1 \<le> cid)"

lemma shared_keeps:
  "getAddr (assertShared f) = getAddr f" "getPtr (assertShared f) = getPtr f" "p_req (assertShared f) = p_req f"
  "p_cmd (assertShared f) = p_cmd f" "p_firstWordTime (assertShared f) = p_firstWordTime f"
  by (simp_all add: snoop_defs getAddr_def getPtr_def flag_simps pkt_flag_defs)

lemma brings_block_shared: "brings_block i a d f c \<Longrightarrow> brings_block i a d (if b then assertShared f else f) c"
  by (simp add: brings_block_def shared_keeps) (simp add: assertShared_def)

lemma mshr_fill_plain:
  assumes "mshr_ok (h ! i)" and "tl_list (m_deferredTargets (h ! i)) = []"
  shows "mshr_handleFill i f h = Inr (if m_pendingShared (h ! i) then assertShared f else f, h)"
  using assms by (simp add: mshr_handleFill_def mshr_ok_def tl_isReset_def Let_def)

lemma find_aligned: "lru_inv l \<Longrightarrow> lru_findBlock l (blkAlign l a) = lru_findBlock l a"
  by (simp add: lru_findBlock_def lru_regenerate)

text \<open>
  The frame a block is filled into: one of the tag store, or the temporary block if the victim is itself
  waiting for an answer.  Between responses the temporary block is not valid.
\<close>

definition frame :: "nat option \<Rightarrow> BlkPtr" where
  "frame v = (case v of Some j \<Rightarrow> TagBlk j | None \<Rightarrow> TempBlk)"

definition temp_free :: "Cache \<Rightarrow> bool" where
  "temp_free c \<longleftrightarrow> \<not> blk_isValid (cc_tempBlock c) \<and> -1 \<le> blk_contextSrc (cc_tempBlock c)"

lemma allocateBlock_none: "allocateBlock now a c = Inr (None, wbs, c0) \<Longrightarrow> wbs = [] \<and> cc_base c0 = cc_base c \<and> cc_tempBlock c0 = cc_tempBlock c"
  by (auto simp: allocateBlock_def res_simps Let_def split: if_splits option.splits)

lemma handleFill_temp:
  assumes "tags_ok c" and "getAddr f = Inr a" and "pkt_isRead f" and "pkt_hasData f" and "getPtr f = Inr d"
    and "length d = lru_blkSize (cc_tags c)" and "allocateBlock now a c = Inr (None, wbs, c0)" and "temp_free c"
  obtains c' where "handleFill now f None c = Inr (TempBlk, [], c')" "tags_ok c'" "blk_data (cc_tempBlock c') = d"
    "blk_isValid (cc_tempBlock c')" "-1 \<le> blk_contextSrc (cc_tempBlock c')" "cc_base c' = cc_base c" "same_geom (cc_tags c) (cc_tags c')"
    "\<And>x. lru_findBlock (cc_tags c') x = lru_findBlock (cc_tags c) x"
proof -
  note al = allocateBlock_keeps [OF assms(1,7)] and n = allocateBlock_none [OF assms(7)]
  have geo: "lru_blkSize (cc_tags c0) = lru_blkSize (cc_tags c)" using al(3) by (simp add: same_geom_def)
  have len: "length (blk_data (cc_tempBlock c0)) = length d" "c_blkSize (cc_base c0) = length d" using al(1) geo assms(6) by (simp_all add: tags_ok_def)
  define b where "b = (cc_tempBlock c0)\<lparr>blk_set := int (extractSet (cc_tags c0) a), blk_tag := extractTag (cc_tags c0) a,
     blk_status := fill_status f, blk_data := d, blk_whenReady := p_finishTime f\<rparr>"
  have "handleFill now f None c = Inr (TempBlk, [], c0\<lparr>cc_tempBlock := b\<rparr>)"
    unfolding handleFill_def fill_status_def [symmetric] Let_def
    using assms(2-5,7,8) n len by (simp add: b_def memcpy_at_def temp_free_def fill_status_def Let_def)
  moreover have "tags_ok (c0\<lparr>cc_tempBlock := b\<rparr>)" using al(1) len by (simp add: tags_ok_def b_def)
  moreover have "blk_isValid b" using fill_status_flags(1) [of f] by (simp add: b_def blk_isValid_def)
  ultimately show thesis using that [of "c0\<lparr>cc_tempBlock := b\<rparr>"] al n assms(8) by (simp add: b_def temp_free_def)
qed

lemma fill_frame:
  assumes "tags_ok c" and "lru_findBlock (cc_tags c) a = None" and "brings_block i a d f c"
    and "allocateBlock now (blkAlign (cc_tags c) a) c = Inr (v, wbs, c0)" and "temp_free c"
  obtains c1 where "handleFill now f None c = Inr (frame v, wbs, c1)" "tags_ok c1" "blk_data (the_blk (frame v) c1) = d"
    "same_config (cc_base c) (cc_base c1)" "same_geom (cc_tags c) (cc_tags c1)" "lru_findBlock (cc_tags c1) a = v"
    "v = None \<longrightarrow> blk_isValid (cc_tempBlock c1) \<and> -1 \<le> blk_contextSrc (cc_tempBlock c1)"
proof -
  let ?ba = "blkAlign (cc_tags c) a"
  have inv: "lru_inv (cc_tags c)" using assms(1) by (simp add: tags_ok_def)
  obtain cid where f: "getAddr f = Inr ?ba" "getPtr f = Inr d" "length d = lru_blkSize (cc_tags c)" "p_cmd f = ReadResp"
    "request_ctx (p_req f) = Inr cid" "-1 \<le> cid" using assms(3) by (auto simp: brings_block_def)
  have kind: "pkt_isRead f" "pkt_hasData f" using f(4) by (simp_all add: pkt_query_defs cmd_defs)
  have none: "lru_findBlock (cc_tags c) ?ba = None" using assms(2) find_aligned [OF inv] by simp
  show thesis
  proof (cases v)
    case (Some j)
    obtain c1 where c1: "handleFill now f None c = Inr (TagBlk j, wbs, c1)" "tags_ok c1" "lru_findBlock (cc_tags c1) ?ba = Some j"
      "blk_data (lru_blks (cc_tags c1) ! j) = d" "same_config (cc_base c) (cc_base c1)" "same_geom (cc_tags c) (cc_tags c1)"
      by (rule handleFill_new [OF assms(1) none f(1) kind f(2,3,5,6) assms(4) [unfolded Some]]) blast
    have "lru_findBlock (cc_tags c1) a = Some j"
      using c1(2,3,6) find_aligned [of "cc_tags c1" a] by (simp add: tags_ok_def same_geom_def blkAlign_def)
    then show thesis using that [of c1] c1 Some by (simp add: frame_def)
  next
    case None
    obtain c1 where c1: "handleFill now f None c = Inr (TempBlk, [], c1)" "tags_ok c1" "blk_data (cc_tempBlock c1) = d"
      "blk_isValid (cc_tempBlock c1)" "-1 \<le> blk_contextSrc (cc_tempBlock c1)" "cc_base c1 = cc_base c" "same_geom (cc_tags c) (cc_tags c1)"
      "\<And>x. lru_findBlock (cc_tags c1) x = lru_findBlock (cc_tags c) x"
      by (rule handleFill_temp [OF assms(1) f(1) kind f(2,3) assms(4) [unfolded None] assms(5)]) blast
    then show thesis using that [of c1] allocateBlock_none [OF assms(4) [unfolded None]] assms(2) None by (simp add: frame_def)
  qed
qed

text \<open>The fill and the answer, up to the freeing of the register.\<close>

lemma downgrade_frame:
  assumes "tags_ok c" "lru_findBlock (cc_tags c) a = v" "blk_data (the_blk (frame v) c) = d" "c' \<in> {c, set_blk (frame v) downgrade c}"
    and "v = None \<longrightarrow> blk_isValid (cc_tempBlock c) \<and> -1 \<le> blk_contextSrc (cc_tempBlock c)"
  shows "tags_ok c' \<and> cc_base c' = cc_base c \<and> lru_findBlock (cc_tags c') a = v \<and> blk_data (the_blk (frame v) c') = d \<and>
    (v = None \<longrightarrow> blk_isValid (cc_tempBlock c') \<and> -1 \<le> blk_contextSrc (cc_tempBlock c'))"
proof (cases "c' = c")
  case False
  then have c': "c' = set_blk (frame v) downgrade c" using assms(4) by simp
  have keep: "keeps_identity (the_blk (frame v) c) (downgrade (the_blk (frame v) c))" by (rule downgrade_keeps(5))
  note set_blk_ok [where f = downgrade, OF assms(1) keep]
  moreover have "j < length (lru_blks (cc_tags c))" if "v = Some j" for j
    using lru_findBlock_valid(1) assms(1,2) that by (auto simp: tags_ok_def)
  ultimately show ?thesis using assms(2,3,5) c' downgrade_keeps(1,5)
    by (cases v) (auto simp: frame_def nth_upd_blk downgrade_def keeps_identity_def)
qed (use assms in simp)

lemma fill_and_answer:
  assumes "tags_ok (cs_cache s)" and "lru_findBlock (cc_tags (cs_cache s)) a = None" and "waits_for_read i a n t s"
    and "brings_block i a d f (cs_cache s)"
    and "allocateBlock now (blkAlign (cc_tags (cs_cache s)) a) (cs_cache s) = Inr (v, wbs, c0)" and "temp_free (cs_cache s)"
    and "event_ok now (cp_port (c_cpuSidePort (cc_base (cs_cache s))))"
    and "now < int (getHitLatency (cc_tags (cs_cache s))) + p_firstWordTime f"
    and "int (getHitLatency (cc_tags (cs_cache s))) + p_firstWordTime f < now + ms"
  obtains c1 s2 r where "handleFill now f None (cs_cache s) = Inr (frame v, wbs, c1)"
    "getOffset (int (c_blkSize (cc_base c1))) (t_pkt t) = Inr (a AND lru_blkMask (cc_tags c1))"
    "serve_target pm up ms now i f True False (Some (frame v)) (uint (a AND lru_blkMask (cc_tags c1))) t (s\<lparr>cs_cache := c1\<rparr>) = Inr s2"
    "(int (getHitLatency (cc_tags (cs_cache s))) + p_firstWordTime f, r) \<in> set (tp_transmitList (cp_port (c_cpuSidePort (cc_base (cs_cache s2)))))"
    "p_cmd r = ReadResp" "p_data r = Some (take n (drop (extractBlkOffset (cc_tags (cs_cache s)) a) d))"
    "tags_ok (cs_cache s2)" "lru_findBlock (cc_tags (cs_cache s2)) a = v" "blk_data (the_blk (frame v) (cs_cache s2)) = d"
    "v = None \<longrightarrow> blk_isValid (cc_tempBlock (cs_cache s2)) \<and> -1 \<le> blk_contextSrc (cc_tempBlock (cs_cache s2))"
    "cache_ok (cc_base (cs_cache s)) \<Longrightarrow> cache_ok (cc_base (cs_cache s2))"
    "\<And>ix. c_queue ix (cc_base (cs_cache s2)) = c_queue ix (cc_base (cs_cache s))" "cs_heap s2 = cs_heap s"
    "c_hitLatency (cc_base (cs_cache s2)) = c_hitLatency (cc_base (cs_cache s))" "same_config (cc_base (cs_cache s)) (cc_base c1)"
proof -
  let ?c = "cs_cache s"
  have f: "p_cmd f = ReadResp" "length d = lru_blkSize (cc_tags ?c)" using assms(4) by (simp_all add: brings_block_def)
  obtain c1 where c1: "handleFill now f None ?c = Inr (frame v, wbs, c1)" "tags_ok c1" "blk_data (the_blk (frame v) c1) = d"
    "same_config (cc_base ?c) (cc_base c1)" "same_geom (cc_tags ?c) (cc_tags c1)" "lru_findBlock (cc_tags c1) a = v"
    "v = None \<longrightarrow> blk_isValid (cc_tempBlock c1) \<and> -1 \<le> blk_contextSrc (cc_tempBlock c1)"
    by (rule fill_frame [OF assms(1,2,4,5,6)])
  have geo: "extractBlkOffset (cc_tags c1) a = extractBlkOffset (cc_tags ?c) a" "lru_blkSize (cc_tags c1) = lru_blkSize (cc_tags ?c)"
    "int (getHitLatency (cc_tags c1)) = int (getHitLatency (cc_tags ?c))"
    using c1(5) by (simp_all add: same_geom_def extractBlkOffset_def getHitLatency_def)
  have t: "pkt_at a n (t_pkt t)" "fits c1 a n" "p_cmd (t_pkt t) = ReadReq" "\<not> req_isUncacheable (p_req (t_pkt t))" "t_source t = FromCPU"
    using assms(3) geo by (simp_all add: waits_for_read_def fits_def)
  have off: "getOffset (int (c_blkSize (cc_base c1))) (t_pkt t) = Inr (a AND lru_blkMask (cc_tags c1))"
    by (rule in_block_guard(1) [OF c1(2) t(1)]) (use t(2) in \<open>simp add: fits_def\<close>)
  define T where "T = int (getHitLatency (cc_tags ?c)) + p_firstWordTime f"
  have len: "length (blk_data (the_blk (frame v) c1)) = lru_blkSize (cc_tags c1)" using c1(3) f(2) geo(2) by simp
  obtain r c2 where ans: "answer_target f True False (Some (frame v)) (uint (a AND lru_blkMask (cc_tags c1))) (t_pkt t) c1 = Inr (T, r, c2)"
    "p_cmd r = ReadResp" "p_data r = Some (take n (drop (extractBlkOffset (cc_tags ?c) a) d))" "c2 \<in> {c1, set_blk (frame v) downgrade c1}"
    using answer_read [OF c1(2) len t(1-4) f(1)] unfolding geo T_def c1(3) by metis
  note c2 = downgrade_frame [OF c1(2,6,3) ans(4) c1(7)]
  obtain n' where b1: "cc_base c1 = (cc_base ?c)\<lparr>c_writebacks := n'\<rparr>" using c1(4) by (auto simp: same_config_def)
  have ev: "event_ok now (cp_port (c_cpuSidePort (cc_base (cs_cache (s\<lparr>cs_cache := c2\<rparr>)))))" using assms(7) c2 by (simp add: b1)
  obtain p where p: "cpu_respond ms now r T (s\<lparr>cs_cache := c2\<rparr>) = Inr (s\<lparr>cs_cache := c2\<lparr>cc_base := (cc_base c1)\<lparr>c_cpuSidePort := p\<rparr>\<rparr>\<rparr>)"
    "cp_blocked p = cp_blocked (c_cpuSidePort (cc_base c1))" "(T, r) \<in> set (tp_transmitList (cp_port p))"
    by (rule cpu_respond_ok [OF ev assms(8,9) [folded T_def], of r]) (use c2 in simp)
  let ?s2 = "s\<lparr>cs_cache := c2\<lparr>cc_base := (cc_base c1)\<lparr>c_cpuSidePort := p\<rparr>\<rparr>\<rparr>"
  have serve: "serve_target pm up ms now i f True False (Some (frame v)) (uint (a AND lru_blkMask (cc_tags c1))) t (s\<lparr>cs_cache := c1\<rparr>) = Inr ?s2"
    using ans(1) p(1) t(5) by (simp add: serve_target_def)
  have "cache_ok (cc_base ?c) \<Longrightarrow> cache_ok (cc_base (cs_cache ?s2))"
    using cache_ok_port [OF cache_ok_same_config [OF c1(4)] p(2)] by simp
  moreover have "c_queue ix (cc_base (cs_cache ?s2)) = c_queue ix (cc_base ?c)" for ix by (cases ix) (simp_all add: b1)
  moreover have "tags_ok (cs_cache ?s2)" "blk_data (the_blk (frame v) (cs_cache ?s2)) = d"
    using c2 by (cases v; simp add: tags_ok_def frame_def)+
  ultimately show thesis
    using c1(1,4) off serve p(3) ans(2,3) c2 by (intro that [of c1 ?s2 r]) (simp_all add: T_def cs_heap_def b1)
qed

text \<open>The end of a response that went to the temporary block: it is written back if it is dirty, and dropped.\<close>

definition drop_temp :: "Tick \<Rightarrow> Tick \<Rightarrow> nat option \<Rightarrow> 'e CacheSys \<Rightarrow> 'e CacheSys res" where
  "drop_temp now time v s =
     (if frame v = TempBlk
      then bind_res
             (if blk_isDirty (cc_tempBlock (cs_cache s))
              then bind_res (writebackBlk now TempBlk (cs_cache s)) (\<lambda>(wb, c). write_buffer now wb time (s\<lparr>cs_cache := c\<rparr>))
              else Inr s) (invalidate (Some (frame v)))
      else Inr s)"

lemma invalidate_temp:
  assumes "lru_inv (cc_tags (cs_cache s))" and "-1 \<le> blk_contextSrc (cc_tempBlock (cs_cache s))"
  obtains l b where "invalidate (Some TempBlk) s = Inr (s\<lparr>cs_cache := (cs_cache s)\<lparr>cc_tags := l, cc_tempBlock := b\<rparr>\<rparr>)"
    "\<not> blk_isValid b" "\<forall>x. lru_findBlock l x = lru_findBlock (cc_tags (cs_cache s)) x"
proof -
  let ?c = "cs_cache s" and ?src = "blk_contextSrc (cc_tempBlock (cs_cache s))"
  let ?l = "(cc_tags ?c)\<lparr>lru_tagsInUse := lru_tagsInUse (cc_tags ?c) - 1\<rparr>"
  obtain o' where o': "add_occupancy ?src (-1) ?l = Inr (?l\<lparr>lru_occupancies := o'\<rparr>)"
    using assms by (auto simp: add_occupancy_def Let_def lru_inv_def)
  let ?b = "clearLoadLocks ((cc_tempBlock ?c)\<lparr>blk_status := 0, blk_isTouched := False\<rparr>)"
  let ?b' = "if ?src \<noteq> -1 then ?b\<lparr>blk_contextSrc := -1\<rparr> else ?b"
  have "invalidate (Some TempBlk) s = Inr (s\<lparr>cs_cache := ?c\<lparr>cc_tags := ?l\<lparr>lru_occupancies := o'\<rparr>, cc_tempBlock := ?b'\<rparr>\<rparr>)"
    using o' by (simp add: invalidate_def Let_def)
  then show thesis
    by (rule that) (auto simp: blk_isValid_def clearLoadLocks_def flags_isSet_def lru_findBlock_def extractTag_def extractSet_def)
qed

lemma drop_temp_ok:
  assumes "cache_ok (cc_base (cs_cache s))" and "tags_ok (cs_cache s)" and "now \<le> t"
    and "v = None \<longrightarrow> q_freeList (c_writeBuffer (cc_base (cs_cache s))) \<noteq> [] \<and>
      blk_isValid (cc_tempBlock (cs_cache s)) \<and> -1 \<le> blk_contextSrc (cc_tempBlock (cs_cache s))"
  obtains s' where "drop_temp now t v s = Inr s'" "cache_ok (cc_base (cs_cache s'))"
    "c_mshrQueue (cc_base (cs_cache s')) = c_mshrQueue (cc_base (cs_cache s))"
    "cp_port (c_cpuSidePort (cc_base (cs_cache s'))) = cp_port (c_cpuSidePort (cc_base (cs_cache s)))"
    "\<forall>x. lru_findBlock (cc_tags (cs_cache s')) x = lru_findBlock (cc_tags (cs_cache s)) x"
    "v = None \<longrightarrow> \<not> blk_isValid (cc_tempBlock (cs_cache s'))"
    "v \<noteq> None \<longrightarrow> s' = s"
proof (cases v)
  case (Some j')
  then show thesis using that [of s] assms(1) by (simp add: drop_temp_def frame_def)
next
  case None
  let ?c = "cs_cache s"
  note n = assms(4) [rule_format, OF None]
  have "\<exists>b c. (if blk_isDirty (cc_tempBlock ?c)
       then bind_res (writebackBlk now TempBlk ?c) (\<lambda>(wb, c). write_buffer now wb t (s\<lparr>cs_cache := c\<rparr>)) else Inr s) = Inr (s\<lparr>cs_cache := c\<lparr>cc_base := b\<rparr>\<rparr>) \<and>
     cache_ok b \<and> c_mshrQueue b = c_mshrQueue (cc_base ?c) \<and> cp_port (c_cpuSidePort b) = cp_port (c_cpuSidePort (cc_base ?c)) \<and>
     cc_tags c = cc_tags ?c \<and> -1 \<le> blk_contextSrc (cc_tempBlock c)"
  proof (cases "blk_isDirty (cc_tempBlock ?c)")
    case True
    let ?k = "?c\<lparr>cc_base := (cc_base ?c)\<lparr>c_writebacks := c_writebacks (cc_base ?c) + 1\<rparr>\<rparr>"
    let ?d = "set_blk TempBlk (\<lambda>b. b\<lparr>blk_status := blk_status b AND NOT BlkDirty\<rparr>) ?k"
    have len: "length (blk_data (the_blk TempBlk ?c)) = c_blkSize (cc_base ?c)" "c_blkSize (cc_base ?c) < 2 ^ 31"
      using assms(2) by (simp_all add: tags_ok_def)
    obtain wb where wb: "writebackBlk now TempBlk ?c = Inr (wb, ?d)" "buffered_ok wb"
      by (rule writebackBlk_ok [OF len, of now]) (use n True in \<open>auto simp: buffered_ok_def\<close>)
    have ok: "cache_ok (cc_base (cs_cache (s\<lparr>cs_cache := ?d\<rparr>)))"
      using cache_ok_same_config [OF _ assms(1), of "cc_base ?d"] by (auto simp: same_config_def)
    have fr: "q_freeList (c_writeBuffer (cc_base (cs_cache (s\<lparr>cs_cache := ?d\<rparr>)))) \<noteq> []" using n by simp
    have bo: "[wb] = [] \<or> (\<exists>w. [wb] = [w] \<and> buffered_ok w)" using wb(2) by simp
    obtain b where b: "copy_writebacks now t [wb] (s\<lparr>cs_cache := ?d\<rparr>) = Inr (s\<lparr>cs_cache := ?d\<lparr>cc_base := b\<rparr>\<rparr>)" "cache_ok b"
      "c_mshrQueue b = c_mshrQueue (cc_base ?c)" "cp_port (c_cpuSidePort b) = cp_port (c_cpuSidePort (cc_base ?c))"
      by (rule copy_writebacks_ok [OF ok fr assms(3) bo]) simp
    have "write_buffer now wb t (s\<lparr>cs_cache := ?d\<rparr>) = Inr (s\<lparr>cs_cache := ?d\<lparr>cc_base := b\<rparr>\<rparr>)"
      using b(1) by (auto simp: res_simps)
    then show ?thesis using True wb(1) b(2-4) n by (intro exI [of _ b] exI [of _ ?d]) simp
  next
    case False
    then show ?thesis using assms(1) n by (intro exI [of _ "cc_base ?c"] exI [of _ ?c]) simp
  qed
  then obtain b c where w: "(if blk_isDirty (cc_tempBlock ?c)
       then bind_res (writebackBlk now TempBlk ?c) (\<lambda>(wb, c). write_buffer now wb t (s\<lparr>cs_cache := c\<rparr>)) else Inr s) = Inr (s\<lparr>cs_cache := c\<lparr>cc_base := b\<rparr>\<rparr>)"
    "cache_ok b" "c_mshrQueue b = c_mshrQueue (cc_base ?c)" "cp_port (c_cpuSidePort b) = cp_port (c_cpuSidePort (cc_base ?c))"
    "cc_tags c = cc_tags ?c" "-1 \<le> blk_contextSrc (cc_tempBlock c)" by blast
  let ?s1 = "s\<lparr>cs_cache := c\<lparr>cc_base := b\<rparr>\<rparr>"
  have "lru_inv (cc_tags (cs_cache ?s1))" "-1 \<le> blk_contextSrc (cc_tempBlock (cs_cache ?s1))" using assms(2) w(5,6) by (simp_all add: tags_ok_def)
  then obtain l k where i: "invalidate (Some TempBlk) ?s1 = Inr (?s1\<lparr>cs_cache := (cs_cache ?s1)\<lparr>cc_tags := l, cc_tempBlock := k\<rparr>\<rparr>)"
    "\<not> blk_isValid k" "\<forall>x. lru_findBlock l x = lru_findBlock (cc_tags (cs_cache ?s1)) x" by (rule invalidate_temp)
  have "drop_temp now t v s = Inr (?s1\<lparr>cs_cache := (cs_cache ?s1)\<lparr>cc_tags := l, cc_tempBlock := k\<rparr>\<rparr>)"
    using w(1) i(1) None by (simp add: drop_temp_def frame_def)
  then show thesis by (rule that) (use w(2-5) i(2,3) None in simp_all)
qed

text \<open>Freeing the register, writing the victim back and dropping the temporary block, in that order.\<close>

lemma finish_response:
  assumes "cache_ok (cc_base (cs_cache s))" and "tags_ok (cs_cache s)" and "now \<le> time"
    and "i \<in> set (q_allocatedList (c_mshrQueue (cc_base (cs_cache s))))"
    and "tl_list (m_targets (cs_heap s ! i)) = [t]" and "tl_list (m_deferredTargets (cs_heap s ! i)) = []"
    and "q_freeList (c_writeBuffer (cc_base (cs_cache s))) \<noteq> []" and "wbs = [] \<or> (\<exists>wb. wbs = [wb] \<and> buffered_ok wb)"
    and "v = None \<longrightarrow> wbs = [] \<and> blk_isValid (cc_tempBlock (cs_cache s)) \<and> -1 \<le> blk_contextSrc (cc_tempBlock (cs_cache s))"
  obtains m s' where "popTarget (cs_heap s ! i) = Inr m"
    "bind_res (retire_mshr now i (q_isFull (c_mshrQueue (cc_base (cs_cache s)))) pkt blk (upd_base (\<lambda>b. b\<lparr>c_heap := (c_heap b)[i := m]\<rparr>) s))
       (\<lambda>s'. bind_res (copy_writebacks now time wbs s') (drop_temp now time v)) = Inr s'"
    "cache_ok (cc_base (cs_cache s'))" "i \<notin> set (q_allocatedList (c_mshrQueue (cc_base (cs_cache s'))))"
    "cp_port (c_cpuSidePort (cc_base (cs_cache s'))) = cp_port (c_cpuSidePort (cc_base (cs_cache s)))"
    "\<forall>x. lru_findBlock (cc_tags (cs_cache s')) x = lru_findBlock (cc_tags (cs_cache s)) x"
    "v = None \<longrightarrow> \<not> blk_isValid (cc_tempBlock (cs_cache s'))" "v \<noteq> None \<longrightarrow> cc_tags (cs_cache s') = cc_tags (cs_cache s)"
proof -
  obtain m b3 where m: "popTarget (cs_heap s ! i) = Inr m"
    "retire_mshr now i (q_isFull (c_mshrQueue (cc_base (cs_cache s)))) pkt blk
       (upd_base (\<lambda>b. b\<lparr>c_heap := (c_heap b)[i := m]\<rparr>) s) = Inr (s\<lparr>cs_cache := (cs_cache s)\<lparr>cc_base := b3\<rparr>\<rparr>)"
    "cache_ok b3" "i \<notin> set (q_allocatedList (c_mshrQueue b3))" "c_writeBuffer b3 = c_writeBuffer (cc_base (cs_cache s))"
    "cp_port (c_cpuSidePort b3) = cp_port (c_cpuSidePort (cc_base (cs_cache s)))" "c_blkSize b3 = c_blkSize (cc_base (cs_cache s))"
    by (rule retire_single [OF assms(1,4-6), of now pkt blk])
  let ?s3 = "s\<lparr>cs_cache := (cs_cache s)\<lparr>cc_base := b3\<rparr>\<rparr>"
  have ok3: "cache_ok (cc_base (cs_cache ?s3))" "q_freeList (c_writeBuffer (cc_base (cs_cache ?s3))) \<noteq> []" using m(3,5) assms(7) by simp_all
  obtain b4 where b4: "copy_writebacks now time wbs ?s3 = Inr (?s3\<lparr>cs_cache := (cs_cache ?s3)\<lparr>cc_base := b4\<rparr>\<rparr>)" "cache_ok b4"
    "c_mshrQueue b4 = c_mshrQueue b3" "cp_port (c_cpuSidePort b4) = cp_port (c_cpuSidePort b3)" "c_blkSize b4 = c_blkSize b3" "wbs = [] \<Longrightarrow> b4 = b3"
    by (rule copy_writebacks_ok [OF ok3 assms(3,8)]) simp
  let ?s4 = "s\<lparr>cs_cache := (cs_cache s)\<lparr>cc_base := b4\<rparr>\<rparr>"
  have ok4: "cache_ok (cc_base (cs_cache ?s4))" "tags_ok (cs_cache ?s4)" using b4(2,5) m(7) assms(2) by (simp_all add: tags_ok_def)
  have n4: "v = None \<longrightarrow> q_freeList (c_writeBuffer (cc_base (cs_cache ?s4))) \<noteq> [] \<and>
      blk_isValid (cc_tempBlock (cs_cache ?s4)) \<and> -1 \<le> blk_contextSrc (cc_tempBlock (cs_cache ?s4))"
    using assms(9) b4(6) ok3(2) by auto
  obtain s5 where s5: "drop_temp now time v ?s4 = Inr s5" "cache_ok (cc_base (cs_cache s5))"
    "c_mshrQueue (cc_base (cs_cache s5)) = c_mshrQueue b4" "cp_port (c_cpuSidePort (cc_base (cs_cache s5))) = cp_port (c_cpuSidePort b4)"
    "\<forall>x. lru_findBlock (cc_tags (cs_cache s5)) x = lru_findBlock (cc_tags (cs_cache s)) x"
    "v = None \<longrightarrow> \<not> blk_isValid (cc_tempBlock (cs_cache s5))" "v \<noteq> None \<longrightarrow> s5 = ?s4"
    by (rule drop_temp_ok [OF ok4 assms(3) n4]) simp
  show thesis by (rule that [OF m(1), of s5]) (use m(2,4,6) b4(1,3,4) s5 in auto)
qed

lemma handleResponse_single:
  assumes "cache_ok (cc_base (cs_cache s))" and "lru_inv (cc_tags (cs_cache s))"
    and "lru_findBlock (cc_tags (cs_cache s)) a = None" and "waits_for_read i a n t s"
    and "brings_block i a d f (cs_cache s)" and "g = (if m_pendingShared (cs_heap s ! i) then assertShared f else f)"
    and "handleFill now g None (cs_cache s) = Inr (frame v, wbs, c1)" and "c_heap (cc_base c1) = cs_heap s"
    and "getOffset (int (c_blkSize (cc_base c1))) (t_pkt t) = Inr off"
    and "serve_target pm up ms now i g True False (Some (frame v)) (uint off) t (s\<lparr>cs_cache := c1\<rparr>) = Inr s2"
    and "popTarget (cs_heap s2 ! i) = Inr m"
  shows "handleResponse pm up ms now f s =
    bind_res (retire_mshr now i (q_isFull (c_mshrQueue (cc_base (cs_cache s)))) g (Some (frame v))
      (upd_base (\<lambda>b. b\<lparr>c_heap := (c_heap b)[i := m]\<rparr>) s2))
      (\<lambda>s'. bind_res (copy_writebacks now (now + c_hitLatency (cc_base (cs_cache s))) wbs s')
              (drop_temp now (now + c_hitLatency (cc_base (cs_cache s))) v))"
proof -
  let ?b = "cc_base (cs_cache s)"
  have w: "i \<in> set (q_allocatedList (c_queue MSHRQueue_MSHRs ?b))" "c_noTargetMSHR ?b \<noteq> Some i" "tl_list (m_targets (cs_heap s ! i)) = [t]"
    "tl_list (m_deferredTargets (cs_heap s ! i)) = []" "\<not> m_isForward (cs_heap s ! i)"
    using assms(4) by (simp_all add: waits_for_read_def)
  have inv: "q_inv (c_regs MSHRQueue_MSHRs ?b) (c_queue MSHRQueue_MSHRs ?b) (c_heap ?b)"
    using assms(1) unfolding cache_ok_def queues_ok_def by blast
  note alloc = q_inv_alloc [OF inv w(1)]
  have mq: "mshr_queue_of i ?b = MSHRQueue_MSHRs" using inv w(1) by (auto simp: mshr_queue_of_def q_inv_def)
  have fill: "mshr_handleFill i f (cs_heap s) = Inr (g, cs_heap s)"
    using mshr_fill_plain [of "cs_heap s" i] alloc(2) w(4) by (simp add: cs_heap_def assms(6))
  have same: "upd_base (\<lambda>b. b\<lparr>c_heap := cs_heap s\<rparr>) s = s" by (simp add: upd_base_def cs_heap_def)
  have f: "p_senderState f = Some i" "p_cmd f = ReadResp" "getAddr f = Inr (blkAlign (cc_tags (cs_cache s)) a)"
    using assms(5) by (simp_all add: brings_block_def)
  have cg: "p_cmd g = ReadResp" using f(2) by (simp add: assms(6) shared_keeps)
  have kinds: "\<not> pkt_isError f" "\<not> wasNacked f" "pkt_isRead f" "\<not> pkt_isInvalidate g"
    using f(2) cg by (simp_all add: pkt_query_defs cmd_defs wasNacked_def)
  have snd: "sender_mshr f (cs_heap s) = Some i" using f(1) alloc(1) by (simp add: sender_mshr_def cs_heap_def)
  have none: "cache_findBlock (cs_cache s) (blkAlign (cc_tags (cs_cache s)) a) = None"
    using assms(3) find_aligned [OF assms(2)] by (simp add: cache_findBlock_def)
  have h1: "cs_heap (s\<lparr>cs_cache := c1\<rparr>) = cs_heap s" using assms(8) by (simp add: cs_heap_def)
  show ?thesis
    using snd kinds mq w f(3) none fill assms(7,9,10,11) same h1
    by (simp add: handleResponse_def getTarget_def hasTargets_def Let_def drop_temp_def [abs_def])
qed

text \<open>
  C21: A read miss completes.  The data of a block that is not cached arrives for a
  register that holds one read of the processor side.  Assume that the allocation of a frame does not fail an
  assertion, that the temporary block is not in use, that the write buffer has a free entry, that the queue of the processor-side
  port is consistent with its send event, that the hit latency is not negative, and that
  the time of the first word plus the hit latency is after the present and within the bound on scheduling.  Then the response is handled
  without an error: the register is free again, the queues are well formed, and a response with the bytes the
  read asked for is queued for the processor at the time the first word is there.  If a frame was allocated the block is
  cached in it with exactly the data that arrived; if none was, because the victim is itself waiting for an upgrade,
  the read is answered from the temporary block, and the block is not cached afterwards.
\<close>

theorem read_miss_completes:
  assumes "cache_ok (cc_base (cs_cache s))" and "tags_ok (cs_cache s)" and "lru_findBlock (cc_tags (cs_cache s)) a = None"
    and "waits_for_read i a n t s" and "brings_block i a d f (cs_cache s)"
    and "allocateBlock now (blkAlign (cc_tags (cs_cache s)) a) (cs_cache s) = Inr (v, wbs, c0)" and "temp_free (cs_cache s)"
    and "event_ok now (cp_port (c_cpuSidePort (cc_base (cs_cache s))))"
    and "now < int (getHitLatency (cc_tags (cs_cache s))) + p_firstWordTime f"
    and "int (getHitLatency (cc_tags (cs_cache s))) + p_firstWordTime f < now + ms"
    and "q_freeList (c_writeBuffer (cc_base (cs_cache s))) \<noteq> []" and "0 \<le> c_hitLatency (cc_base (cs_cache s))"
  shows "\<exists>s'. handleResponse pm up ms now f s = Inr s' \<and> cache_ok (cc_base (cs_cache s')) \<and>
    (case v of
       Some j \<Rightarrow> lru_findBlock (cc_tags (cs_cache s')) a = Some j \<and> blk_data (lru_blks (cc_tags (cs_cache s')) ! j) = d
     | None \<Rightarrow> lru_findBlock (cc_tags (cs_cache s')) a = None \<and> \<not> blk_isValid (cc_tempBlock (cs_cache s'))) \<and>
    i \<notin> set (q_allocatedList (c_mshrQueue (cc_base (cs_cache s')))) \<and>
    (\<exists>r. (int (getHitLatency (cc_tags (cs_cache s))) + p_firstWordTime f, r)
            \<in> set (tp_transmitList (cp_port (c_cpuSidePort (cc_base (cs_cache s'))))) \<and>
       p_cmd r = ReadResp \<and> p_data r = Some (take n (drop (extractBlkOffset (cc_tags (cs_cache s)) a) d)))"
proof -
  define g where "g = (if m_pendingShared (cs_heap s ! i) then assertShared f else f)"
  let ?time = "now + c_hitLatency (cc_base (cs_cache s))"
  have g: "brings_block i a d g (cs_cache s)" "p_firstWordTime g = p_firstWordTime f"
    using brings_block_shared [OF assms(5)] shared_keeps(5) by (simp_all add: g_def)
  obtain c1 s2 r where st: "handleFill now g None (cs_cache s) = Inr (frame v, wbs, c1)"
    "getOffset (int (c_blkSize (cc_base c1))) (t_pkt t) = Inr (a AND lru_blkMask (cc_tags c1))"
    "serve_target pm up ms now i g True False (Some (frame v)) (uint (a AND lru_blkMask (cc_tags c1))) t (s\<lparr>cs_cache := c1\<rparr>) = Inr s2"
    and r: "(int (getHitLatency (cc_tags (cs_cache s))) + p_firstWordTime g, r) \<in> set (tp_transmitList (cp_port (c_cpuSidePort (cc_base (cs_cache s2)))))"
    "p_cmd r = ReadResp" "p_data r = Some (take n (drop (extractBlkOffset (cc_tags (cs_cache s)) a) d))"
    and s2: "tags_ok (cs_cache s2)" "lru_findBlock (cc_tags (cs_cache s2)) a = v" "blk_data (the_blk (frame v) (cs_cache s2)) = d"
    "v = None \<longrightarrow> blk_isValid (cc_tempBlock (cs_cache s2)) \<and> -1 \<le> blk_contextSrc (cc_tempBlock (cs_cache s2))"
    "cache_ok (cc_base (cs_cache s2))" "\<And>ix. c_queue ix (cc_base (cs_cache s2)) = c_queue ix (cc_base (cs_cache s))" "cs_heap s2 = cs_heap s"
    "same_config (cc_base (cs_cache s)) (cc_base c1)"
    by (rule fill_and_answer [OF assms(2,3,4) g(1) assms(6,7,8), unfolded g(2), OF assms(9,10), where pm = pm and up = up])
      (use assms(1) in \<open>simp add: g(2)\<close>)
  have q2: "c_mshrQueue (cc_base (cs_cache s2)) = c_mshrQueue (cc_base (cs_cache s))"
    "c_writeBuffer (cc_base (cs_cache s2)) = c_writeBuffer (cc_base (cs_cache s))"
    using s2(6) [of MSHRQueue_MSHRs] s2(6) [of MSHRQueue_WriteBuffer] by simp_all
  have reg: "i \<in> set (q_allocatedList (c_mshrQueue (cc_base (cs_cache s2))))" "tl_list (m_targets (cs_heap s2 ! i)) = [t]"
    "tl_list (m_deferredTargets (cs_heap s2 ! i)) = []" "q_freeList (c_writeBuffer (cc_base (cs_cache s2))) \<noteq> []"
    using assms(4,11) by (simp_all add: waits_for_read_def s2(7) q2)
  have wbs: "wbs = [] \<or> (\<exists>wb. wbs = [wb] \<and> buffered_ok wb)" by (rule allocateBlock_writebacks [OF assms(2,6)])
  have temp: "v = None \<longrightarrow> wbs = [] \<and> blk_isValid (cc_tempBlock (cs_cache s2)) \<and> -1 \<le> blk_contextSrc (cc_tempBlock (cs_cache s2))"
    using s2(4) allocateBlock_none assms(6) by blast
  have tm: "now \<le> ?time" using assms(12) by simp
  obtain m s5 where s5: "popTarget (cs_heap s2 ! i) = Inr m"
    "bind_res (retire_mshr now i (q_isFull (c_mshrQueue (cc_base (cs_cache s)))) g (Some (frame v)) (upd_base (\<lambda>b. b\<lparr>c_heap := (c_heap b)[i := m]\<rparr>) s2))
       (\<lambda>s'. bind_res (copy_writebacks now ?time wbs s') (drop_temp now ?time v)) = Inr s5"
    "cache_ok (cc_base (cs_cache s5))" "i \<notin> set (q_allocatedList (c_mshrQueue (cc_base (cs_cache s5))))"
    "cp_port (c_cpuSidePort (cc_base (cs_cache s5))) = cp_port (c_cpuSidePort (cc_base (cs_cache s2)))"
    "\<forall>x. lru_findBlock (cc_tags (cs_cache s5)) x = lru_findBlock (cc_tags (cs_cache s2)) x"
    "v = None \<longrightarrow> \<not> blk_isValid (cc_tempBlock (cs_cache s5))" "v \<noteq> None \<longrightarrow> cc_tags (cs_cache s5) = cc_tags (cs_cache s2)"
    by (rule finish_response [OF s2(5,1) tm reg wbs temp, of g "Some (frame v)"]) (simp add: q2)
  have inv: "lru_inv (cc_tags (cs_cache s))" using assms(2) by (simp add: tags_ok_def)
  have h1: "c_heap (cc_base c1) = cs_heap s" using same_config_view(3) [OF s2(8)] by (simp add: cs_heap_def)
  have "handleResponse pm up ms now f s = Inr s5"
    using handleResponse_single [OF assms(1) inv assms(3,4,5) g_def st(1) h1 st(2,3) s5(1)] s5(2) by simp
  moreover have "case v of
       Some j \<Rightarrow> lru_findBlock (cc_tags (cs_cache s5)) a = Some j \<and> blk_data (lru_blks (cc_tags (cs_cache s5)) ! j) = d
     | None \<Rightarrow> lru_findBlock (cc_tags (cs_cache s5)) a = None \<and> \<not> blk_isValid (cc_tempBlock (cs_cache s5))"
    using s2(2,3) s5(6-8) by (cases v) (simp_all add: frame_def)
  ultimately show ?thesis using s5(3-5) r g(2) by (auto intro!: exI [of _ r])
qed

section \<open>Witness\<close>

text \<open>A read of two bytes at address 17 waits for the block at 16.\<close>

definition demo_read_register :: MSHR where
  "demo_read_register = MSHR_new\<lparr>m_addr := 16, m_size := 4, m_inService := True, m_ntargets := 1,
     m_targets := TargetList_new\<lparr>tl_list := [Target_new 0 (demo_packet ReadReq 17 2 [None, None]) 0 0 FromCPU True]\<rparr>\<rparr>"

definition demo_wait_base :: BaseCache where
  "demo_wait_base = (cc_base demo_cache)\<lparr>
     c_mshrQueue := \<lparr>q_allocatedList = [0], q_readyList = [], q_freeList = [1, 2], q_numEntries = 3, q_numReserve = 2,
       q_allocated = 1, q_inServiceEntries = 1, q_index = 0\<rparr>,
     c_writeBuffer := MSHRQueue_new 3 1 2 1,
     c_heap := [demo_read_register, MSHR_new, MSHR_new, MSHR_new, MSHR_new]\<rparr>"

definition demo_wait_sys :: "unit CacheSys" where
  "demo_wait_sys = \<lparr>cs_cache = demo_cache\<lparr>cc_base := demo_wait_base\<rparr>, cs_prefetcher = None, cs_prefetchOnAccess = False,
     cs_records = [], cs_snoops = []\<rparr>"

definition demo_data :: Packet where
  "demo_data = (demo_packet ReadResp 16 4 [Some 1, Some 2, Some 3, Some 4])\<lparr>p_senderState := Some 0, p_firstWordTime := 5\<rparr>"

lemma demo_wait_ok: "cache_ok demo_wait_base"
proof -
  have ne: "\<not> pkt_needsExclusive (demo_packet ReadReq 17 2 [None, None])"
    by (simp add: demo_packet_def Packet_new_def Packet_base_def Let_def pkt_query_defs cmd_defs)
  have regs: "reg_free MSHR_new" "few_targets MSHR_new" "mshr_ok MSHR_new" "few_targets demo_read_register" "mshr_ok demo_read_register"
    using mshr_ok_new ne
    by (simp_all add: reg_free_def few_targets_def MSHR_new_def TargetList_new_def tl_isReset_def demo_read_register_def mshr_ok_def
        excl_ok_def upg_ok_def Target_new_def)
  have sv: "m_inService demo_read_register" by (simp add: demo_read_register_def)
  have sets: "{..<3::nat} = {0, 1, 2}" "{3..<5::nat} = {3, 4}" "[3..<5] = [3, 4::nat]" by (auto simp: upt_rec)
  have "queues_ok demo_wait_base"
    using regs sv sets unfolding queues_ok_def all_queues
    by (simp add: demo_wait_base_def q_inv_def MSHRQueue_new_def) auto
  moreover have "blocked_ok demo_wait_base"
    unfolding blocked_ok_iff all_queues
    by (simp add: demo_wait_base_def bits_ok_def isBlocked_def blocked_for_def q_isFull_def MSHRQueue_new_def
        mask_eq_exp_minus_1 demo_cache_def Cache_new_def BaseCache_new_def CachePort_new_def Let_def)
  ultimately show ?thesis by (simp add: cache_ok_def)
qed

theorem read_miss_completes_witness:
  "\<exists>s'. handleResponse (engine_methods (\<lambda>b e pkt. Inr (b, e, [], []))) (\<lambda>pkt. pkt) 100 0 demo_data demo_wait_sys = Inr s' \<and>
     blk_data (lru_blks (cc_tags (cs_cache s')) ! 1) = [Some 1, Some 2, Some 3, Some 4] \<and>
     (\<exists>r. (6, r) \<in> set (tp_transmitList (cp_port (c_cpuSidePort (cc_base (cs_cache s'))))) \<and> p_data r = Some [Some 2, Some 3])"
proof -
  let ?s = demo_wait_sys and ?t = "Target_new 0 (demo_packet ReadReq 17 2 [None, None]) 0 0 FromCPU True"
  have base: "cs_cache ?s = demo_cache\<lparr>cc_base := demo_wait_base\<rparr>" by (simp add: demo_wait_sys_def)
  have tags: "cc_tags (cs_cache ?s) = demo_tags" by (simp add: base demo_cache_simps)
  have ok: "cache_ok (cc_base (cs_cache ?s))" using demo_wait_ok by (simp add: base)
  have tok: "tags_ok (cs_cache ?s)"
    using demo_cache_ok by (simp add: base tags_ok_def demo_wait_base_def)
  have look: "lru_findBlock demo_tags 17 = None" "blkAlign demo_tags 17 = 16" "extractBlkOffset demo_tags 17 = 1"
    by (simp_all add: lru_findBlock_def extractTag_def extractSet_def extractBlkOffset_def blkAlign_def demo_tags_def demo_blk_def
      CacheBlk_new_def blk_isValid_def flag_simps BlkValid_def drop_bit_eq_div)
  have at: "pkt_at 17 2 (demo_packet ReadReq 17 2 [None, None])" "p_cmd (demo_packet ReadReq 17 2 [None, None]) = ReadReq"
    "\<not> req_isUncacheable (p_req (demo_packet ReadReq 17 2 [None, None]))"
    using demo_packet_at(1,2,6) [where d = "[None, None]" and n = 2 and a = 17 and cmd = ReadReq] by (simp_all add: countable_pkt_def)
  have waits: "waits_for_read 0 17 2 ?t ?s"
    using at look(3) tags unfolding waits_for_read_def
    by (simp add: cs_heap_def base demo_wait_base_def demo_read_register_def MSHR_new_def TargetList_new_def Target_new_def fits_def
        demo_cache_def Cache_new_def BaseCache_new_def Let_def) (simp add: demo_tags_def)
  have brings: "brings_block 0 17 [Some 1, Some 2, Some 3, Some 4] demo_data (cs_cache ?s)"
    using demo_packet_at [where d = "[Some 1, Some 2, Some 3, Some 4]" and n = 4 and a = 16 and cmd = ReadResp] look(2) tags
    by (simp add: brings_block_def demo_data_def pkt_at_def getAddr_def getPtr_def) (simp add: demo_tags_def)
  have vic: "lru_findBlock (cc_tags (cs_cache ?s)) 8 = Some 1"
    "1 = last (lru_sets (cc_tags (cs_cache ?s)) ! extractSet (cc_tags (cs_cache ?s)) 16)"
    "\<not> cache_inMissQueue (cs_cache ?s) (blkAlign (cc_tags (cs_cache ?s)) 8)"
    using demo_lookup unfolding tags
    by (simp_all add: base cache_inMissQueue_def q_findMatch_def demo_wait_base_def demo_read_register_def)
      (simp_all add: demo_tags_def)
  obtain wbs c0 where al: "allocateBlock 0 (blkAlign (cc_tags (cs_cache ?s)) 17) (cs_cache ?s) = Inr (Some 1, wbs, c0)"
    unfolding tags look(2) by (rule allocateBlock_ok [OF tok vic, of 0])
  have ev: "event_ok 0 (cp_port (c_cpuSidePort (cc_base (cs_cache ?s))))"
    by (simp add: base demo_wait_base_def demo_cache_def Cache_new_def BaseCache_new_def Let_def CachePort_new_def
        SimpleTimingPort_new_def event_ok_def by_time_def)
  have cfg: "int (getHitLatency (cc_tags (cs_cache ?s))) + p_firstWordTime demo_data = 6" "0 \<le> c_hitLatency (cc_base (cs_cache ?s))"
    "q_freeList (c_writeBuffer (cc_base (cs_cache ?s))) \<noteq> []"
    by (simp_all add: tags getHitLatency_def demo_tags_def demo_data_def base demo_wait_base_def demo_cache_def Cache_new_def
        BaseCache_new_def Let_def MSHRQueue_new_def)
  have cfg': "int (getHitLatency demo_tags) + p_firstWordTime demo_data = 6" using cfg(1) by (simp add: tags)
  have bytes: "take 2 (drop 1 [Some 1, Some 2, Some 3, Some 4]) = [Some 2, Some (3 :: 8 word)]" by (simp add: numeral_eq_Suc)
  have temp: "temp_free (cs_cache ?s)"
    by (simp add: temp_free_def base demo_cache_def Cache_new_def Let_def CacheBlk_new_def blk_isValid_def flags_isSet_def)
  show ?thesis
    using read_miss_completes [OF ok tok _ waits brings al temp ev _ _ cfg(3,2), unfolded tags look cfg' bytes, where ms = 100
        and pm = "engine_methods (\<lambda>b e pkt. Inr (b, e, [], []))" and up = "\<lambda>pkt. pkt"]
    by auto
qed

end
