(* ===== verification/Event_Queue.thy ===== *)
theory Event_Queue
  imports Prelude "HOL-Library.Product_Lexorder"
begin

unbundle bit_operations_syntax

text \<open>
  The event queue of the simulator, \<open>sim/eventq.{hh,cc}\<close>: a linked list of bins, one for each
  time and priority, each bin a stack of events linked through \<open>nextInBin\<close>.  Only the top of
  a bin has a meaningful \<open>nextBin\<close>; the others may be stale.

  Events live in a store, a function from pointers to their contents, because the queue is
  made of pointers inside the events.  A pointer that is \<open>NULL\<close> is \<open>None\<close>.  A loop that
  follows pointers may not end on a malformed store, so it is a partial function, and
  \<open>None\<close> as its result means that it does not return.  What an event does (\<open>process\<close>) is an
  argument.  A priority is an 8-bit number on which the code does no arithmetic, so it is an
  integer.  Checkpoint streams, debug output and the fields kept for debugging only
  (\<open>instance\<close>, \<open>queue\<close>, \<open>whenScheduled\<close>) are not modelled.
\<close>

section \<open>Events\<close>

record Event =
  ev_nextBin :: "nat option"
  ev_nextInBin :: "nat option"
  ev_when :: Tick
  ev_priority :: int
  ev_flags :: "16 word"

type_synonym ev_store = "nat \<Rightarrow> Event"

definition EV_Squashed :: "16 word" where "EV_Squashed = 0x0001"
definition EV_Scheduled :: "16 word" where "EV_Scheduled = 0x0002"
definition EV_AutoDelete :: "16 word" where "EV_AutoDelete = 0x0004"
definition EV_AutoSerialize :: "16 word" where "EV_AutoSerialize = 0x0008"
definition EV_IsExitEvent :: "16 word" where "EV_IsExitEvent = 0x0010"
definition EV_IsMainQueue :: "16 word" where "EV_IsMainQueue = 0x0020"
definition EV_Initialized :: "16 word" where "EV_Initialized = 0x7a40"
definition EV_InitMask :: "16 word" where "EV_InitMask = 0xffc0"
definition EV_PublicWrite :: "16 word" where "EV_PublicWrite = 0x001d"
definition EV_PublicRead :: "16 word" where "EV_PublicRead = 0x003f"

lemmas ev_flag_defs = EV_Squashed_def EV_Scheduled_def EV_AutoDelete_def EV_AutoSerialize_def EV_IsExitEvent_def
  EV_IsMainQueue_def EV_Initialized_def EV_InitMask_def EV_PublicWrite_def

definition Event_new :: "int \<Rightarrow> Tick \<Rightarrow> Event" where
  "Event_new p when0 = \<lparr>ev_nextBin = None, ev_nextInBin = None, ev_when = when0, ev_priority = p, ev_flags = EV_Initialized\<rparr>"

definition ev_initialized :: "Event \<Rightarrow> bool" where
  "ev_initialized e \<longleftrightarrow> ev_flags e AND EV_InitMask = EV_Initialized"

definition ev_scheduled :: "Event \<Rightarrow> bool" where
  "ev_scheduled e = flags_isSet (ev_flags e) EV_Scheduled"

definition ev_squashed :: "Event \<Rightarrow> bool" where
  "ev_squashed e = flags_isSet (ev_flags e) EV_Squashed"

definition ev_isExitEvent :: "Event \<Rightarrow> bool" where
  "ev_isExitEvent e = flags_isSet (ev_flags e) EV_IsExitEvent"

definition ev_squash :: "Event \<Rightarrow> Event" where
  "ev_squash e = e\<lparr>ev_flags := flags_set (ev_flags e) EV_Squashed\<rparr>"

definition ev_getFlags :: "Event \<Rightarrow> 16 word" where
  "ev_getFlags e = ev_flags e AND EV_PublicRead"

definition ev_getFlags_of :: "16 word \<Rightarrow> Event \<Rightarrow> bool res" where
  "ev_getFlags_of f e = guard_res AssertFail (flags_noneSet f (NOT EV_PublicRead)) (Inr (flags_isSet (ev_flags e) f))"

definition ev_allFlags :: "16 word \<Rightarrow> Event \<Rightarrow> bool res" where
  "ev_allFlags f e = guard_res AssertFail (flags_noneSet f (NOT EV_PublicRead)) (Inr (flags_allSet (ev_flags e) f))"

definition ev_setFlags :: "16 word \<Rightarrow> Event \<Rightarrow> Event res" where
  "ev_setFlags f e = guard_res AssertFail (flags_noneSet f (NOT EV_PublicWrite)) (Inr (e\<lparr>ev_flags := flags_set (ev_flags e) f\<rparr>))"

definition ev_clearFlags :: "16 word \<Rightarrow> Event \<Rightarrow> Event res" where
  "ev_clearFlags f e = guard_res AssertFail (flags_noneSet f (NOT EV_PublicWrite)) (Inr (e\<lparr>ev_flags := flags_clear (ev_flags e) f\<rparr>))"

definition ev_clearAllFlags :: "Event \<Rightarrow> Event" where
  "ev_clearAllFlags e = e\<lparr>ev_flags := flags_clear (ev_flags e) EV_PublicWrite\<rparr>"

text \<open>The destructor: the flags of a deleted event are zero.\<close>

definition ev_delete :: "Event \<Rightarrow> Event res" where
  "ev_delete e = guard_res AssertFail (\<not> ev_scheduled e) (Inr (e\<lparr>ev_flags := 0\<rparr>))"

text \<open>The comparison operators.\<close>

definition ev_less :: "Event \<Rightarrow> Event \<Rightarrow> bool" where
  "ev_less l r \<longleftrightarrow> ev_when l < ev_when r \<or> (ev_when l = ev_when r \<and> ev_priority l < ev_priority r)"

definition ev_leq :: "Event \<Rightarrow> Event \<Rightarrow> bool" where
  "ev_leq l r \<longleftrightarrow> ev_when l < ev_when r \<or> (ev_when l = ev_when r \<and> ev_priority l \<le> ev_priority r)"

definition ev_eq :: "Event \<Rightarrow> Event \<Rightarrow> bool" where
  "ev_eq l r \<longleftrightarrow> ev_when l = ev_when r \<and> ev_priority l = ev_priority r"

definition ev_greater :: "Event \<Rightarrow> Event \<Rightarrow> bool" where
  "ev_greater l r \<longleftrightarrow> ev_when l > ev_when r \<or> (ev_when l = ev_when r \<and> ev_priority l > ev_priority r)"

definition ev_geq :: "Event \<Rightarrow> Event \<Rightarrow> bool" where
  "ev_geq l r \<longleftrightarrow> ev_when l > ev_when r \<or> (ev_when l = ev_when r \<and> ev_priority l \<ge> ev_priority r)"

definition ev_neq :: "Event \<Rightarrow> Event \<Rightarrow> bool" where
  "ev_neq l r \<longleftrightarrow> ev_when l \<noteq> ev_when r \<or> ev_priority l \<noteq> ev_priority r"

definition priority_compare :: "Event \<Rightarrow> Event \<Rightarrow> bool" where
  "priority_compare l r \<longleftrightarrow> ev_when l \<ge> ev_when r \<or> ev_priority l \<ge> ev_priority r"

section \<open>Operations on the bins\<close>

record EventQueue =
  eq_head :: "nat option"
  eq_store :: ev_store
  eq_isMain :: bool

definition EventQueue_new :: "ev_store \<Rightarrow> bool \<Rightarrow> EventQueue" where
  "EventQueue_new st main = \<lparr>eq_head = None, eq_store = st, eq_isMain = main\<rparr>"

definition insertBefore :: "nat \<Rightarrow> nat option \<Rightarrow> ev_store \<Rightarrow> ev_store" where
  "insertBefore event cur st =
     (case cur of
        None \<Rightarrow> st(event := (st event)\<lparr>ev_nextBin := None, ev_nextInBin := None\<rparr>)
      | Some c \<Rightarrow>
          if ev_less (st event) (st c)
          then st(event := (st event)\<lparr>ev_nextBin := Some c, ev_nextInBin := None\<rparr>)
          else st(event := (st event)\<lparr>ev_nextBin := ev_nextBin (st c), ev_nextInBin := Some c\<rparr>))"

text \<open>The search for the bin, shared by \<open>insert\<close> and \<open>remove\<close>, on the pair of \<open>prev\<close> and \<open>curr\<close>.\<close>

partial_function (option) find_bin :: "ev_store \<Rightarrow> Event \<Rightarrow> nat \<times> nat option \<Rightarrow> (nat \<times> nat option) option" where
  "find_bin st event pc =
     (case snd pc of
        None \<Rightarrow> Some pc
      | Some c \<Rightarrow> if ev_less (st c) event then find_bin st event (c, ev_nextBin (st c)) else Some pc)"

definition eq_insert :: "nat \<Rightarrow> EventQueue \<Rightarrow> EventQueue option" where
  "eq_insert event q =
     (let st = eq_store q
      in case eq_head q of
           None \<Rightarrow> Some (q\<lparr>eq_store := insertBefore event None st, eq_head := Some event\<rparr>)
         | Some h \<Rightarrow>
             if ev_leq (st event) (st h)
             then Some (q\<lparr>eq_store := insertBefore event (Some h) st, eq_head := Some event\<rparr>)
             else Option.bind (find_bin st (st event) (h, ev_nextBin (st h))) (\<lambda>(prev, cur).
                    let st = insertBefore event cur st
                    in Some (q\<lparr>eq_store := st(prev := (st prev)\<lparr>ev_nextBin := Some event\<rparr>)\<rparr>)))"

partial_function (option) unlink_loop :: "nat \<Rightarrow> ev_store \<Rightarrow> nat \<times> nat option \<Rightarrow> (ev_store res) option" where
  "unlink_loop event st cn =
     (if snd cn = Some event
      then Some (Inr (st(fst cn := (st (fst cn))\<lparr>ev_nextInBin := ev_nextInBin (st event)\<rparr>)))
      else (case snd cn of
              None \<Rightarrow> Some (Inl Panic)
            | Some n \<Rightarrow> unlink_loop event st (n, ev_nextInBin (st n))))"

text \<open>The new top of the bin, and the store.\<close>

definition removeItem :: "nat \<Rightarrow> nat \<Rightarrow> ev_store \<Rightarrow> ((nat option \<times> ev_store) res) option" where
  "removeItem event tp st =
     (if event = tp
      then Some (Inr (case ev_nextInBin (st tp) of
             None \<Rightarrow> (ev_nextBin (st tp), st)
           | Some next \<Rightarrow> (Some next, st(next := (st next)\<lparr>ev_nextBin := ev_nextBin (st tp)\<rparr>))))
      else map_option (\<lambda>r. bind_res r (\<lambda>st. Inr (Some tp, st))) (unlink_loop event st (tp, ev_nextInBin (st tp))))"

definition eq_remove :: "nat \<Rightarrow> EventQueue \<Rightarrow> (EventQueue res) option" where
  "eq_remove event q =
     (let st = eq_store q
      in case eq_head q of
           None \<Rightarrow> Some (Inl Panic)
         | Some h \<Rightarrow>
             if ev_eq (st h) (st event)
             then map_option (\<lambda>r. bind_res r (\<lambda>(p, st). Inr (q\<lparr>eq_store := st, eq_head := p\<rparr>))) (removeItem event h st)
             else Option.bind (find_bin st (st event) (h, ev_nextBin (st h))) (\<lambda>(prev, cur).
                    case cur of
                      None \<Rightarrow> Some (Inl Panic)
                    | Some c \<Rightarrow>
                        if \<not> ev_eq (st c) (st event) then Some (Inl Panic)
                        else map_option (\<lambda>r. bind_res r (\<lambda>(p, st).
                               Inr (q\<lparr>eq_store := st(prev := (st prev)\<lparr>ev_nextBin := p\<rparr>)\<rparr>))) (removeItem event c st)))"

section \<open>Scheduling\<close>

definition upd_event :: "nat \<Rightarrow> (Event \<Rightarrow> Event) \<Rightarrow> EventQueue \<Rightarrow> EventQueue" where
  "upd_event e f q = q\<lparr>eq_store := (eq_store q)(e := f (eq_store q e))\<rparr>"

definition mark_main :: "bool \<Rightarrow> Event \<Rightarrow> Event" where
  "mark_main main e =
     e\<lparr>ev_flags := (if main then flags_set (ev_flags e) EV_IsMainQueue else flags_clear (ev_flags e) EV_IsMainQueue)\<rparr>"

text \<open>\<open>schedule\<close> compares the times as unsigned numbers, \<open>reschedule\<close> as signed ones.\<close>

definition eq_schedule :: "Tick \<Rightarrow> nat \<Rightarrow> Tick \<Rightarrow> EventQueue \<Rightarrow> (EventQueue res) option" where
  "eq_schedule curTick event when q =
     (if \<not> (word_of_int curTick :: 64 word) \<le> word_of_int when \<or> ev_scheduled (eq_store q event) \<or>
         \<not> ev_initialized (eq_store q event)
      then Some (Inl AssertFail)
      else map_option (\<lambda>q.
             Inr (upd_event event (\<lambda>e. mark_main (eq_isMain q) (e\<lparr>ev_flags := flags_set (ev_flags e) EV_Scheduled\<rparr>)) q))
             (eq_insert event (upd_event event (\<lambda>e. e\<lparr>ev_when := when\<rparr>) q)))"

definition eq_deschedule :: "nat \<Rightarrow> EventQueue \<Rightarrow> (EventQueue res) option" where
  "eq_deschedule event q =
     (if \<not> ev_scheduled (eq_store q event) \<or> \<not> ev_initialized (eq_store q event) then Some (Inl AssertFail)
      else map_option (\<lambda>r. bind_res r (\<lambda>q.
             let q = upd_event event (\<lambda>e. e\<lparr>ev_flags := flags_clear (flags_clear (ev_flags e) EV_Squashed) EV_Scheduled\<rparr>) q
             in if flags_isSet (ev_flags (eq_store q event)) EV_AutoDelete
                then bind_res (ev_delete (eq_store q event)) (\<lambda>e. Inr (upd_event event (\<lambda>_. e) q))
                else Inr q))
             (eq_remove event q))"

definition eq_reschedule :: "Tick \<Rightarrow> nat \<Rightarrow> Tick \<Rightarrow> bool \<Rightarrow> EventQueue \<Rightarrow> (EventQueue res) option" where
  "eq_reschedule curTick event when always q =
     (if \<not> curTick \<le> when \<or> \<not> (always \<or> ev_scheduled (eq_store q event)) \<or> \<not> ev_initialized (eq_store q event)
      then Some (Inl AssertFail)
      else Option.bind (if ev_scheduled (eq_store q event) then eq_remove event q else Some (Inr q)) (\<lambda>r.
             case r of
               Inl err \<Rightarrow> Some (Inl err)
             | Inr q \<Rightarrow>
                 map_option (\<lambda>q. Inr (upd_event event (\<lambda>e. mark_main (eq_isMain q)
                     (e\<lparr>ev_flags := flags_set (flags_clear (ev_flags e) EV_Squashed) EV_Scheduled\<rparr>)) q))
                   (eq_insert event (upd_event event (\<lambda>e. e\<lparr>ev_when := when\<rparr>) q))))"

text \<open>What a checkpoint holds of an event, and the restoration of it on the main queue.\<close>

definition ev_serialize :: "Event \<Rightarrow> Tick \<times> int \<times> 16 word" where
  "ev_serialize e = (ev_when e, ev_priority e, ev_flags e)"

definition ev_unserialize :: "Tick \<Rightarrow> nat \<Rightarrow> Tick \<times> int \<times> 16 word \<Rightarrow> EventQueue \<Rightarrow> (EventQueue res) option" where
  "ev_unserialize curTick event cp q =
     (case cp of (when, priority, flags) \<Rightarrow>
       Option.bind (if ev_scheduled (eq_store q event) then eq_deschedule event q else Some (Inr q)) (\<lambda>r.
         case r of
           Inl err \<Rightarrow> Some (Inl err)
         | Inr q \<Rightarrow>
             if \<not> ev_initialized (eq_store q event) then Some (Inl AssertFail)
             else let flags = flags_set flags EV_Initialized;
                      wasScheduled = flags_isSet flags EV_Scheduled \<and> \<not> flags_isSet flags EV_Squashed;
                      q = upd_event event (\<lambda>e. e\<lparr>ev_when := when, ev_priority := priority,
                            ev_flags := flags_clear flags (EV_Squashed OR EV_Scheduled)\<rparr>) q
                  in if wasScheduled then eq_schedule curTick event when q else Some (Inr q)))"

section \<open>Service\<close>

definition eq_empty :: "EventQueue \<Rightarrow> bool" where
  "eq_empty q \<longleftrightarrow> eq_head q = None"

definition eq_nextTick :: "EventQueue \<Rightarrow> Tick res" where
  "eq_nextTick q = (case eq_head q of None \<Rightarrow> Inl Undefined | Some h \<Rightarrow> Inr (ev_when (eq_store q h)))"

definition eq_nextEventTime :: "Tick \<Rightarrow> EventQueue \<Rightarrow> Tick" where
  "eq_nextEventTime curTick q = (case eq_head q of None \<Rightarrow> curTick | Some h \<Rightarrow> ev_when (eq_store q h))"

text \<open>\<open>serviceOne\<close> takes the first event off the queue, \<open>eq_pop\<close>, before it acts.\<close>

definition eq_pop :: "nat \<Rightarrow> EventQueue \<Rightarrow> EventQueue" where
  "eq_pop event q =
     (let q = upd_event event (\<lambda>e. e\<lparr>ev_flags := flags_clear (ev_flags e) EV_Scheduled\<rparr>) q
      in case ev_nextInBin (eq_store q event) of
           Some next \<Rightarrow> (upd_event next (\<lambda>e. e\<lparr>ev_nextBin := ev_nextBin (eq_store q event)\<rparr>) q)\<lparr>eq_head := Some next\<rparr>
         | None \<Rightarrow> q\<lparr>eq_head := ev_nextBin (eq_store q event)\<rparr>)"

definition auto_delete :: "nat \<Rightarrow> EventQueue \<Rightarrow> EventQueue res" where
  "auto_delete event q =
     (let e = eq_store q event
      in if flags_isSet (ev_flags e) EV_AutoDelete \<and> \<not> ev_scheduled e
         then bind_res (ev_delete e) (\<lambda>e. Inr (upd_event event (\<lambda>_. e) q)) else Inr q)"

definition serviceOne :: "(nat \<Rightarrow> EventQueue \<Rightarrow> EventQueue res) \<Rightarrow> EventQueue \<Rightarrow> (nat option \<times> EventQueue) res" where
  "serviceOne process q =
     (case eq_head q of
        None \<Rightarrow> Inl Undefined
      | Some event \<Rightarrow>
          let q = eq_pop event q
          in if \<not> ev_squashed (eq_store q event)
             then bind_res (process event q) (\<lambda>q.
                    if ev_isExitEvent (eq_store q event)
                    then guard_res AssertFail (\<not> flags_isSet (ev_flags (eq_store q event)) EV_AutoDelete)
                           (Inr (Some event, q))
                    else bind_res (auto_delete event q) (\<lambda>q. Inr (None, q)))
             else bind_res (auto_delete event
                    (upd_event event (\<lambda>e. e\<lparr>ev_flags := flags_clear (ev_flags e) EV_Squashed\<rparr>) q)) (\<lambda>q. Inr (None, q)))"

partial_function (option) serviceEvents ::
  "(nat \<Rightarrow> EventQueue \<Rightarrow> EventQueue res) \<Rightarrow> Tick \<Rightarrow> EventQueue \<Rightarrow> (EventQueue res) option" where
  "serviceEvents process when q =
     (case eq_head q of
        None \<Rightarrow> Some (Inr q)
      | Some h \<Rightarrow>
          if ev_when (eq_store q h) > when then Some (Inr q)
          else (case serviceOne process q of
                  Inl err \<Rightarrow> Some (Inl err)
                | Inr (_, q) \<Rightarrow> serviceEvents process when q))"

section \<open>Walking over the queue\<close>

text \<open>
  The two nested loops of \<open>serialize\<close> and \<open>dump\<close>: the events in the order in which they will
  be serviced; \<open>serialize\<close> writes those that ask for it.
\<close>

partial_function (option) walk_bin :: "ev_store \<Rightarrow> nat option \<Rightarrow> (nat list) option" where
  "walk_bin st p =
     (case p of None \<Rightarrow> Some [] | Some x \<Rightarrow> Option.bind (walk_bin st (ev_nextInBin (st x))) (\<lambda>xs. Some (x # xs)))"

partial_function (option) walk_bins :: "ev_store \<Rightarrow> nat option \<Rightarrow> (nat list) option" where
  "walk_bins st p =
     (case p of
        None \<Rightarrow> Some []
      | Some x \<Rightarrow> Option.bind (walk_bin st (Some x)) (\<lambda>xs.
          Option.bind (walk_bins st (ev_nextBin (st x))) (\<lambda>ys. Some (xs @ ys))))"

definition eq_serialize :: "EventQueue \<Rightarrow> (nat list) option" where
  "eq_serialize q =
     map_option (filter (\<lambda>x. flags_isSet (ev_flags (eq_store q x)) EV_AutoSerialize)) (walk_bins (eq_store q) (eq_head q))"

text \<open>
  \<open>debugVerify\<close>: the variables of its loops, the checks of one event, and the two loops as one
  that goes on in a bin, or to the next bin at the end of one.
\<close>

record verify_state =
  vs_time :: Tick
  vs_priority :: int
  vs_seen :: "nat list"
  vs_nextBin :: "nat option"
  vs_nextInBin :: "nat option"

definition verify_event :: "ev_store \<Rightarrow> verify_state \<Rightarrow> nat \<Rightarrow> bool" where
  "verify_event st v x \<longleftrightarrow>
     \<not> ev_when (st x) < vs_time v \<and> \<not> (ev_when (st x) = vs_time v \<and> ev_priority (st x) < vs_priority v) \<and> x \<notin> set (vs_seen v)"

partial_function (option) verify_loop :: "ev_store \<Rightarrow> verify_state \<Rightarrow> bool option" where
  "verify_loop st v =
     (case vs_nextInBin v of
        Some x \<Rightarrow>
          if \<not> verify_event st v x then Some False
          else verify_loop st (v\<lparr>vs_time := ev_when (st x), vs_priority := ev_priority (st x), vs_seen := x # vs_seen v,
                 vs_nextInBin := ev_nextInBin (st x)\<rparr>)
      | None \<Rightarrow>
          (case vs_nextBin v of
             None \<Rightarrow> Some True
           | Some b \<Rightarrow> verify_loop st (v\<lparr>vs_nextBin := ev_nextBin (st b), vs_nextInBin := ev_nextBin (st b)\<rparr>)))"

definition debugVerify :: "EventQueue \<Rightarrow> bool option" where
  "debugVerify q =
     verify_loop (eq_store q) \<lparr>vs_time = 0, vs_priority = 0, vs_seen = [], vs_nextBin = eq_head q, vs_nextInBin = eq_head q\<rparr>"

section \<open>The list a queue stands for\<close>

definition ev_key :: "Event \<Rightarrow> int \<times> int" where
  "ev_key e = (ev_when e, ev_priority e)"

lemma ev_less_key: "ev_less l r \<longleftrightarrow> ev_key l < ev_key r"
  by (auto simp: ev_less_def ev_key_def)

lemma ev_leq_key: "ev_leq l r \<longleftrightarrow> ev_key l \<le> ev_key r"
  by (auto simp: ev_leq_def ev_key_def)

lemma ev_greater_less: "ev_greater l r = ev_less r l" "ev_geq l r = ev_leq r l" "ev_neq l r \<longleftrightarrow> \<not> ev_eq l r"
  by (auto simp: ev_greater_def ev_less_def ev_geq_def ev_leq_def ev_neq_def ev_eq_def)

text \<open>
  The comparison for heaps of events is no order: two events can each come before the other,
  and every event comes before itself.
\<close>

lemma priority_compare_not_antisym:
  "ev_when l < ev_when r \<Longrightarrow> ev_priority r < ev_priority l \<Longrightarrow> priority_compare l r \<and> priority_compare r l"
  "priority_compare e e"
  by (simp_all add: priority_compare_def)

lemma ev_eq_key: "ev_eq l r \<longleftrightarrow> ev_key l = ev_key r"
  by (auto simp: ev_eq_def ev_key_def)

text \<open>The events of a bin from a pointer on, and the bins of a queue.\<close>

fun in_bin :: "ev_store \<Rightarrow> nat option \<Rightarrow> nat list \<Rightarrow> bool" where
  "in_bin st p [] \<longleftrightarrow> p = None"
| "in_bin st p (x # xs) \<longleftrightarrow> p = Some x \<and> in_bin st (ev_nextInBin (st x)) xs"

fun in_bins :: "ev_store \<Rightarrow> nat option \<Rightarrow> nat list list \<Rightarrow> bool" where
  "in_bins st p [] \<longleftrightarrow> p = None"
| "in_bins st p (b # bs) \<longleftrightarrow> b \<noteq> [] \<and> in_bin st p b \<and> in_bins st (ev_nextBin (st (hd b))) bs"

fun bins_ok :: "(nat \<Rightarrow> 'k::linorder) \<Rightarrow> nat list list \<Rightarrow> bool" where
  "bins_ok k [] \<longleftrightarrow> True"
| "bins_ok k (b # bs) \<longleftrightarrow> b \<noteq> [] \<and> distinct b \<and> (\<forall>x \<in> set b. k x = k (hd b)) \<and>
     (\<forall>y \<in> set (concat bs). k (hd b) < k y) \<and> bins_ok k bs"

text \<open>As a rewrite rule, the third conjunct of the second equation would loop.\<close>

declare bins_ok.simps(2) [simp del]

lemma bins_okD:
  assumes "bins_ok k (b # bs)"
  shows "b \<noteq> []" "distinct b" "x \<in> set b \<Longrightarrow> k x = k (hd b)" "y \<in> set (concat bs) \<Longrightarrow> k (hd b) < k y" "bins_ok k bs"
  using assms unfolding bins_ok.simps by blast+

lemma bins_okI:
  assumes "b \<noteq> []" "distinct b" "\<And>x. x \<in> set b \<Longrightarrow> k x = c" "\<And>y. y \<in> set (concat bs) \<Longrightarrow> c < k y" "bins_ok k bs"
  shows "bins_ok k (b # bs)"
proof -
  have "k (hd b) = c" using assms(1,3) by simp
  then show ?thesis unfolding bins_ok.simps using assms by blast
qed

lemma in_bin_cong: "\<forall>x \<in> set b. ev_nextInBin (st' x) = ev_nextInBin (st x) \<Longrightarrow> in_bin st' p b = in_bin st p b"
  by (induction b arbitrary: p) auto

lemma in_bin_hd: "in_bin st p b \<Longrightarrow> b \<noteq> [] \<Longrightarrow> p = Some (hd b)"
  by (cases b) auto

lemma in_bins_cong:
  "\<forall>x \<in> set (concat bs). ev_nextInBin (st' x) = ev_nextInBin (st x) \<and> ev_nextBin (st' x) = ev_nextBin (st x) \<Longrightarrow>
   in_bins st' p bs = in_bins st p bs"
proof (induction bs arbitrary: p)
  case (Cons b bs)
  have "in_bin st' p b = in_bin st p b" by (rule in_bin_cong) (use Cons.prems in auto)
  moreover have "b \<noteq> [] \<Longrightarrow> ev_nextBin (st' (hd b)) = ev_nextBin (st (hd b))" using Cons.prems by simp
  ultimately show ?case using Cons by auto
qed simp

lemma bins_ok_disjoint: "bins_ok k (b # bs) \<Longrightarrow> x \<in> set b \<Longrightarrow> x \<notin> set (concat bs)"
  using bins_okD(3,4) by (metis less_irrefl)

lemma bins_ok_distinct: "bins_ok k bs \<Longrightarrow> distinct (concat bs)"
proof (induction bs)
  case (Cons b bs)
  then show ?case using bins_okD(2,5) [OF Cons.prems] bins_ok_disjoint [OF Cons.prems] by auto
qed simp

lemma bins_ok_sorted: "bins_ok k bs \<Longrightarrow> sorted (map k (concat bs))"
proof (induction bs)
  case (Cons b bs)
  note b = bins_okD [OF Cons.prems]
  have "map k b = map (\<lambda>_. k (hd b)) b" by (rule map_cong [OF refl]) (rule b(3))
  then have "sorted (map k b)" by (simp add: map_replicate_const)
  moreover have "k x \<le> k y" if "x \<in> set b" "y \<in> set (concat bs)" for x y
    using b(3) [OF that(1)] b(4) [OF that(2)] by simp
  ultimately show ?case using Cons.IH [OF b(5)] by (simp add: sorted_append del: set_concat)
qed simp

lemma bins_ok_cong: "\<forall>x \<in> set (concat bs). k' x = k x \<Longrightarrow> bins_ok k bs \<Longrightarrow> bins_ok k' bs"
proof (induction bs)
  case (Cons b bs)
  note b = bins_okD [OF Cons.prems(2)]
  have eq: "x \<in> set b \<Longrightarrow> k' x = k x" "y \<in> set (concat bs) \<Longrightarrow> k' y = k y" for x y using Cons.prems(1) by auto
  show ?case
  proof (rule bins_okI [where c = "k (hd b)"])
    show "bins_ok k' bs" by (rule Cons.IH) (use eq(2) b(5) in auto)
  qed (use b eq in metis)+
qed simp

text \<open>Insertion: on top of the bin with the same key, or in a bin of its own.\<close>

fun ins_bins :: "(nat \<Rightarrow> 'k::linorder) \<Rightarrow> nat \<Rightarrow> nat list list \<Rightarrow> nat list list" where
  "ins_bins k e [] = [[e]]"
| "ins_bins k e (b # bs) =
     (if k e < k (hd b) then [e] # b # bs
      else if k e = k (hd b) then (e # b) # bs
      else b # ins_bins k e bs)"

lemma set_ins_bins: "set (concat (ins_bins k e bs)) = insert e (set (concat bs))"
  by (induction bs) auto

lemma ins_bins_ok: "bins_ok k bs \<Longrightarrow> e \<notin> set (concat bs) \<Longrightarrow> bins_ok k (ins_bins k e bs)"
proof (induction bs)
  case Nil
  show ?case by (simp add: bins_ok.simps)
next
  case (Cons b bs)
  note b = bins_okD [OF Cons.prems(1)]
  have e: "e \<notin> set b" "e \<notin> set (concat bs)" using Cons.prems(2) by auto
  consider "k e < k (hd b)" | "k e = k (hd b)" | "k (hd b) < k e" by (rule linorder_cases)
  then show ?case
  proof cases
    case 1
    have "k e < k y" if y: "y \<in> set (concat (b # bs))" for y
    proof (cases "y \<in> set b")
      case True
      then show ?thesis using 1 b(3) by metis
    next
      case False
      then have "k (hd b) < k y" using y b(4) by simp
      with 1 show ?thesis by (rule order_less_trans)
    qed
    then have "bins_ok k ([e] # b # bs)" using Cons.prems(1) by (simp add: bins_ok.simps(2) [of _ "[e]"])
    then show ?thesis using 1 by simp
  next
    case 2
    have "bins_ok k ((e # b) # bs)"
    proof (rule bins_okI [where c = "k e"])
      show "distinct (e # b)" using b(2) e(1) by simp
      show "k x = k e" if "x \<in> set (e # b)" for x using that b(3) 2 by (metis set_ConsD)
      show "k e < k y" if "y \<in> set (concat bs)" for y using b(4) [OF that] 2 by simp
    qed (simp_all add: b(5))
    then show ?thesis using 2 by simp
  next
    case 3
    have "bins_ok k (b # ins_bins k e bs)"
    proof (rule bins_okI [where c = "k (hd b)"])
      show "k (hd b) < k y" if "y \<in> set (concat (ins_bins k e bs))" for y
        using that 3 b(4) unfolding set_ins_bins by blast
      show "bins_ok k (ins_bins k e bs)" using Cons.IH b(5) e(2) by blast
    qed (rule b; assumption)+
    then show ?thesis using less_not_sym [OF 3] less_imp_neq [OF 3] by auto
  qed
qed

text \<open>On the list, an event goes before those that are due no earlier.\<close>

definition enlist :: "(nat \<Rightarrow> 'k::linorder) \<Rightarrow> nat \<Rightarrow> nat list \<Rightarrow> nat list" where
  "enlist k e es = takeWhile (\<lambda>x. k x < k e) es @ e # dropWhile (\<lambda>x. k x < k e) es"

lemma concat_ins_bins: "bins_ok k bs \<Longrightarrow> concat (ins_bins k e bs) = enlist k e (concat bs)"
proof (induction bs)
  case (Cons b bs)
  note b = bins_okD [OF Cons.prems]
  show ?case
  proof (cases "k (hd b) < k e")
    case True
    then have "k x < k e" if "x \<in> set b" for x using b(3) [OF that] by simp
    then have "enlist k e (b @ concat bs) = b @ enlist k e (concat bs)"
      by (simp add: enlist_def takeWhile_append2 dropWhile_append2 del: set_concat)
    then show ?thesis using True Cons.IH b(5) by auto
  next
    case False
    have e: "enlist k e (concat (b # bs)) = e # concat (b # bs)" using False b(1) by (cases b) (simp_all add: enlist_def)
    show ?thesis unfolding e using False by simp
  qed
qed (simp add: enlist_def)

section \<open>Insertion refines the list\<close>

lemma insertBefore_other: "x \<noteq> e \<Longrightarrow> insertBefore e p st x = st x"
  by (simp add: insertBefore_def split: option.split)

lemma insertBefore_self:
  "\<exists>nb ni. insertBefore e p st e = (st e)\<lparr>ev_nextBin := nb, ev_nextInBin := ni\<rparr>"
  by (auto simp: insertBefore_def split: option.split)

lemma in_bins_insertBefore_other: "e \<notin> set (concat bs) \<Longrightarrow> in_bins (insertBefore e p st) p' bs = in_bins st p' bs"
  by (rule in_bins_cong) (metis insertBefore_other)

text \<open>In front of the first bin, or on top of it.\<close>

lemma in_bins_insertBefore:
  assumes "in_bins st p bs" "e \<notin> set (concat bs)" "bs \<noteq> [] \<Longrightarrow> ev_key (st e) \<le> ev_key (st (hd (hd bs)))"
  shows "in_bins (insertBefore e p st) (Some e) (ins_bins (\<lambda>x. ev_key (st x)) e bs)"
proof (cases bs)
  case Nil
  then show ?thesis using assms(1) by (simp add: insertBefore_def)
next
  case (Cons b bs')
  then have b: "b \<noteq> []" "in_bin st p b" and p: "p = Some (hd b)" using assms(1) in_bin_hd by auto
  have e: "e \<notin> set b" "e \<notin> set (concat bs')" using assms(2) Cons by auto
  then have other: "in_bin (insertBefore e p st) p' b = in_bin st p' b" for p'
    by (intro in_bin_cong) (metis insertBefore_other)
  have hd: "hd b \<noteq> e" using b(1) e(1) by (metis list.set_sel(1))
  show ?thesis
  proof (cases "ev_key (st e) < ev_key (st (hd b))")
    case True
    then have "insertBefore e p st e = (st e)\<lparr>ev_nextBin := p, ev_nextInBin := None\<rparr>"
      by (simp add: insertBefore_def p ev_less_key)
    then show ?thesis using True assms(1) Cons in_bins_insertBefore_other [OF assms(2)] by simp
  next
    case False
    then have k: "ev_key (st e) = ev_key (st (hd b))" using assms(3) Cons by simp
    have "insertBefore e p st e = (st e)\<lparr>ev_nextBin := ev_nextBin (st (hd b)), ev_nextInBin := p\<rparr>"
      using False by (simp add: insertBefore_def p ev_less_key)
    moreover have "in_bins (insertBefore e p st) p' bs' = in_bins st p' bs'" for p'
      using e(2) by (rule in_bins_insertBefore_other)
    ultimately show ?thesis using k assms(1) Cons other b by simp
  qed
qed

abbreviation link_after :: "nat \<Rightarrow> nat option \<Rightarrow> ev_store \<Rightarrow> ev_store" where
  "link_after prev p st \<equiv> st(prev := (st prev)\<lparr>ev_nextBin := p\<rparr>)"

text \<open>What follows a bin is the queue that the \<open>nextBin\<close> of its top starts.\<close>

lemma in_bins_link_after:
  assumes "in_bin st (Some (hd b)) b" "b \<noteq> []" "in_bins st p bs" "hd b \<notin> set (concat bs)"
  shows "in_bins (link_after (hd b) p st) (Some (hd b)) (b # bs)"
proof -
  have "in_bin (link_after (hd b) p st) (Some (hd b)) b = in_bin st (Some (hd b)) b" by (rule in_bin_cong) simp
  moreover have "in_bins (link_after (hd b) p st) p bs = in_bins st p bs" by (rule in_bins_cong) (use assms(4) in auto)
  ultimately show ?thesis using assms by simp
qed

lemma hd_bin_notin: "bins_ok k (b # bs) \<Longrightarrow> hd b \<notin> set (concat bs)"
  by (metis bins_okD(1) bins_ok_disjoint list.set_sel(1))

lemma insert_here:
  assumes "in_bins st (Some (hd b)) (b # bs)" "bins_ok (\<lambda>x. ev_key (st x)) (b # bs)" "e \<notin> set (concat (b # bs))"
    "bs \<noteq> [] \<Longrightarrow> ev_key (st e) \<le> ev_key (st (hd (hd bs)))"
  defines "cur \<equiv> ev_nextBin (st (hd b))"
  shows "in_bins (link_after (hd b) (Some e) (insertBefore e cur st)) (Some (hd b)) (b # ins_bins (\<lambda>x. ev_key (st x)) e bs)"
proof (rule in_bins_link_after)
  have b: "b \<noteq> []" "in_bin st (Some (hd b)) b" "in_bins st cur bs" "e \<notin> set b" "e \<notin> set (concat bs)"
    using assms by auto
  show "b \<noteq> []" by (rule b(1))
  show "in_bin (insertBefore e cur st) (Some (hd b)) b"
    using b(2) in_bin_cong [of b "insertBefore e cur st" st] insertBefore_other b(4) by metis
  show "in_bins (insertBefore e cur st) (Some e) (ins_bins (\<lambda>x. ev_key (st x)) e bs)"
    using b(3,5) assms(4) by (rule in_bins_insertBefore)
  show "hd b \<notin> set (concat (ins_bins (\<lambda>x. ev_key (st x)) e bs))"
    unfolding set_ins_bins using hd_bin_notin [OF assms(2)] b(1,4) by (metis insertE list.set_sel(1))
qed

text \<open>The search from a bin that is due earlier: it returns, and the insertion is the one on the bins.\<close>

lemma insert_after:
  assumes "in_bins st (Some (hd b)) (b # bs)" "bins_ok (\<lambda>x. ev_key (st x)) (b # bs)" "e \<notin> set (concat (b # bs))"
    "ev_key (st (hd b)) < ev_key (st e)"
  shows "\<exists>prev cur. find_bin st (st e) (hd b, ev_nextBin (st (hd b))) = Some (prev, cur) \<and> prev \<in> set (concat (b # bs)) \<and>
     in_bins (link_after prev (Some e) (insertBefore e cur st)) (Some (hd b)) (b # ins_bins (\<lambda>x. ev_key (st x)) e bs)"
  using assms
proof (induction bs arbitrary: b)
  case Nil
  then have "find_bin st (st e) (hd b, ev_nextBin (st (hd b))) = Some (hd b, ev_nextBin (st (hd b)))"
    by (simp add: find_bin.simps)
  moreover have "hd b \<in> set (concat [b])" using Nil.prems(1) by simp
  ultimately show ?case using insert_here [OF Nil.prems(1-3)] by blast
next
  case (Cons c bs)
  let ?k = "\<lambda>x. ev_key (st x)" and ?cur = "ev_nextBin (st (hd b))"
  have b: "b \<noteq> []" "in_bin st (Some (hd b)) b" "in_bins st ?cur (c # bs)" using Cons.prems(1) by auto
  have c: "?cur = Some (hd c)" using b(3) in_bin_hd by auto
  show ?case
  proof (cases "?k (hd c) < ?k e")
    case False
    then have "find_bin st (st e) (hd b, ?cur) = Some (hd b, ?cur)" by (simp add: find_bin.simps c ev_less_key)
    moreover have "hd b \<in> set (concat (b # c # bs))" using b(1) by simp
    moreover have "?k e \<le> ?k (hd (hd (c # bs)))" using False by simp
    ultimately show ?thesis using insert_here [OF Cons.prems(1-3)] by blast
  next
    case True
    have e: "e \<notin> set (concat (c # bs))" "e \<notin> set b" using Cons.prems(3) by auto
    obtain prev cur where f: "find_bin st (st e) (hd c, ev_nextBin (st (hd c))) = Some (prev, cur)"
      and prev: "prev \<in> set (concat (c # bs))"
      and ins: "in_bins (link_after prev (Some e) (insertBefore e cur st)) (Some (hd c)) (c # ins_bins ?k e bs)" (is "in_bins ?st _ _")
      using Cons.IH [OF b(3) [unfolded c] bins_okD(5) [OF Cons.prems(2)] e(1) True] by blast
    have "find_bin st (st e) (hd b, ?cur) = Some (prev, cur)" using True f by (subst find_bin.simps) (simp add: c ev_less_key)
    moreover have "prev \<in> set (concat (b # c # bs))" using prev by auto
    moreover have "in_bins ?st (Some (hd b)) (b # ins_bins ?k e (c # bs))"
    proof -
      have ne: "prev \<noteq> hd b" "e \<noteq> hd b"
        using hd_bin_notin [OF Cons.prems(2)] prev e(2) b(1) by (metis, metis list.set_sel(1))
      have "insertBefore e cur st x = st x" if "x \<in> set b" for x
        by (rule insertBefore_other) (use that e(2) in blast)
      then have "ev_nextInBin (?st x) = ev_nextInBin (st x)" if "x \<in> set b" for x
        using that by (cases "x = prev") simp_all
      then have 1: "in_bin ?st (Some (hd b)) b" using b(2) in_bin_cong [of b ?st st] by blast
      have 2: "ev_nextBin (?st (hd b)) = Some (hd c)" using ne c insertBefore_other [of "hd b" e] by simp
      have 3: "ins_bins ?k e (c # bs) = c # ins_bins ?k e bs"
        using True less_not_sym [OF True] less_imp_neq [OF True] by auto
      show ?thesis unfolding in_bins.simps(2) [of _ _ b] 2 3 using ins 1 b(1) by blast
    qed
    ultimately show ?thesis by blast
  qed
qed

text \<open>An operation on the links keeps what an event is and when it is due.\<close>

definition links_only :: "ev_store \<Rightarrow> ev_store \<Rightarrow> bool" where
  "links_only st st' \<longleftrightarrow> (\<forall>x. ev_when (st' x) = ev_when (st x) \<and> ev_priority (st' x) = ev_priority (st x) \<and>
     ev_flags (st' x) = ev_flags (st x))"

lemma links_only_refl [simp]: "links_only st st"
  by (simp add: links_only_def)

lemma links_only_trans [trans]: "links_only a b \<Longrightarrow> links_only b c \<Longrightarrow> links_only a c"
  by (simp add: links_only_def)

lemma links_only_upd [simp]:
  "links_only st (st(x := (st x)\<lparr>ev_nextBin := nb\<rparr>))" "links_only st (st(x := (st x)\<lparr>ev_nextInBin := ni\<rparr>))"
  by (simp_all add: links_only_def)

lemma links_only_key: "links_only st st' \<Longrightarrow> ev_key (st' x) = ev_key (st x)"
  by (simp add: links_only_def ev_key_def)

lemma links_only_insertBefore [simp]: "links_only st (insertBefore e p st)"
  unfolding links_only_def
proof
  fix x
  show "ev_when (insertBefore e p st x) = ev_when (st x) \<and> ev_priority (insertBefore e p st x) = ev_priority (st x) \<and>
    ev_flags (insertBefore e p st x) = ev_flags (st x)"
    using insertBefore_self [of e p st] insertBefore_other [of x e p st] by (cases "x = e") auto
qed

lemma eq_insert_ok:
  assumes q: "in_bins (eq_store q) (eq_head q) bs" "bins_ok (\<lambda>x. ev_key (eq_store q x)) bs" "e \<notin> set (concat bs)"
  shows "\<exists>q'. eq_insert e q = Some q' \<and> in_bins (eq_store q') (eq_head q') (ins_bins (\<lambda>x. ev_key (eq_store q x)) e bs) \<and>
     links_only (eq_store q) (eq_store q') \<and> eq_isMain q' = eq_isMain q"
proof -
  let ?st = "eq_store q"
  let ?k = "\<lambda>x. ev_key (?st x)"
  consider "bs \<noteq> [] \<Longrightarrow> ?k e \<le> ?k (hd (hd bs))" | b bs' where "bs = b # bs'" "?k (hd b) < ?k e" 
    by (cases bs) (simp, metis list.sel(1) not_le)
  then show ?thesis
  proof cases
    case 1
    have "eq_insert e q = Some (q\<lparr>eq_store := insertBefore e (eq_head q) ?st, eq_head := Some e\<rparr>)"
    proof (cases bs)
      case (Cons b bs')
      then have "eq_head q = Some (hd b)" using q(1) in_bin_hd by auto
      then show ?thesis using 1 Cons by (simp add: eq_insert_def ev_leq_key)
    qed (use q(1) in \<open>simp add: eq_insert_def\<close>)
    then show ?thesis using in_bins_insertBefore [OF q(1,3)] 1 by simp
  next
    case 2
    then have h: "eq_head q = Some (hd b)" using q(1) in_bin_hd by auto
    obtain prev cur where f: "find_bin ?st (?st e) (hd b, ev_nextBin (?st (hd b))) = Some (prev, cur)"
      and ins: "in_bins (link_after prev (Some e) (insertBefore e cur ?st)) (Some (hd b)) (b # ins_bins ?k e bs')"
      using insert_after [OF q(1) [unfolded h 2(1)] q(2,3) [unfolded 2(1)] 2(2)] by blast
    have bs: "ins_bins ?k e bs = b # ins_bins ?k e bs'" using 2 less_not_sym less_imp_neq by force
    have "eq_insert e q = Some (q\<lparr>eq_store := link_after prev (Some e) (insertBefore e cur ?st)\<rparr>)"
      using h f 2(2) by (simp add: eq_insert_def ev_leq_key Let_def not_le [symmetric])
    moreover have "links_only ?st (link_after prev (Some e) (insertBefore e cur ?st))"
      by (rule links_only_trans [OF links_only_insertBefore links_only_upd(1)])
    ultimately show ?thesis using ins h unfolding bs by (simp del: fun_upd_apply in_bins.simps)
  qed
qed

section \<open>Removal refines the list\<close>

fun rem_bins :: "nat \<Rightarrow> nat list list \<Rightarrow> nat list list" where
  "rem_bins e [] = []"
| "rem_bins e (b # bs) = (if e \<in> set b then if b = [e] then bs else remove1 e b # bs else b # rem_bins e bs)"

lemma concat_rem_bins: "concat (rem_bins e bs) = remove1 e (concat bs)"
  by (induction bs) (auto simp: remove1_append)

lemma set_rem_bins: "x \<in> set (concat (rem_bins e bs)) \<Longrightarrow> x \<in> set (concat bs)"
  unfolding concat_rem_bins by (metis notin_set_remove1)

lemma rem_bins_ok: "bins_ok k bs \<Longrightarrow> bins_ok k (rem_bins e bs)"
proof (induction bs)
  case (Cons b bs)
  note b = bins_okD [OF Cons.prems]
  consider "e \<notin> set b" | "b = [e]" | "e \<in> set b" "b \<noteq> [e]" by blast
  then show ?case
  proof cases
    case 1
    have "bins_ok k (b # rem_bins e bs)"
      by (rule bins_okI [where c = "k (hd b)"]) (use b Cons.IH set_rem_bins in blast)+
    then show ?thesis using 1 by simp
  next
    case 2
    then show ?thesis using b(5) by simp
  next
    case 3
    have "bins_ok k (remove1 e b # bs)"
    proof (rule bins_okI [where c = "k (hd b)"])
      show "remove1 e b \<noteq> []" using 3 by (cases b) auto
      show "k x = k (hd b)" if "x \<in> set (remove1 e b)" for x using that b(3) notin_set_remove1 by metis
    qed (use b(2,4,5) in \<open>simp_all\<close>)
    then show ?thesis using 3 by simp
  qed
qed simp

lemma unlink_ok:
  assumes "in_bin st (Some c) (c # xs)" "e \<in> set xs" "distinct (c # xs)"
  shows "\<exists>d ni. unlink_loop e st (c, ev_nextInBin (st c)) = Some (Inr (st(d := (st d)\<lparr>ev_nextInBin := ni\<rparr>))) \<and>
     d \<in> set (c # xs) \<and> in_bin (st(d := (st d)\<lparr>ev_nextInBin := ni\<rparr>)) (Some c) (c # remove1 e xs)"
  using assms
proof (induction xs arbitrary: c)
  case (Cons y xs)
  have y: "ev_nextInBin (st c) = Some y" "in_bin st (Some y) (y # xs)" using Cons.prems(1) by auto
  show ?case
  proof (cases "y = e")
    case True
    let ?st = "st(c := (st c)\<lparr>ev_nextInBin := ev_nextInBin (st e)\<rparr>)"
    have "unlink_loop e st (c, ev_nextInBin (st c)) = Some (Inr ?st)"
      using True y(1) by (simp add: unlink_loop.simps)
    moreover have "in_bin ?st (ev_nextInBin (st e)) xs = in_bin st (ev_nextInBin (st e)) xs"
      by (rule in_bin_cong) (use Cons.prems(3) in auto)
    then have "in_bin ?st (Some c) (c # remove1 e (y # xs))" using True y(2) by simp
    ultimately show ?thesis by (meson list.set_intros(1))
  next
    case False
    have "e \<in> set xs" "distinct (y # xs)" using False Cons.prems(2,3) by auto
    then obtain d ni where u: "unlink_loop e st (y, ev_nextInBin (st y)) = Some (Inr (st(d := (st d)\<lparr>ev_nextInBin := ni\<rparr>)))"
      and d: "d \<in> set (y # xs)" and ins: "in_bin (st(d := (st d)\<lparr>ev_nextInBin := ni\<rparr>)) (Some y) (y # remove1 e xs)"
      using Cons.IH [OF y(2)] by blast
    let ?st = "st(d := (st d)\<lparr>ev_nextInBin := ni\<rparr>)"
    have "unlink_loop e st (c, ev_nextInBin (st c)) = Some (Inr ?st)"
      using False y(1) u by (subst unlink_loop.simps) simp
    moreover have "ev_nextInBin (?st c) = Some y" using d y(1) Cons.prems(3) by auto
    then have "in_bin ?st (Some c) (c # remove1 e (y # xs))" using False ins by simp
    ultimately show ?thesis using d by (meson list.set_intros(2))
  qed
qed simp

lemma removeItem_ok:
  assumes "in_bins st (Some (hd b)) (b # bs)" "bins_ok k (b # bs)" "e \<in> set b"
  shows "\<exists>p st'. removeItem e (hd b) st = Some (Inr (p, st')) \<and> in_bins st' p (rem_bins e (b # bs)) \<and>
     links_only st st' \<and> (\<forall>x. x \<notin> set b \<longrightarrow> st' x = st x)"
proof -
  obtain c xs where b: "b = c # xs" using assms(3) by (cases b) auto
  have c: "in_bin st (Some c) (c # xs)" "in_bins st (ev_nextBin (st c)) bs" "distinct (c # xs)"
    using assms(1) bins_okD(2) [OF assms(2)] b by auto
  have disj: "x \<in> set b \<Longrightarrow> x \<notin> set (concat bs)" for x by (rule bins_ok_disjoint [OF assms(2)])
  consider "e = c" "xs = []" | y ys where "e = c" "xs = y # ys" | "e \<noteq> c" "e \<in> set xs"
    using assms(3) b by (cases xs) auto
  then show ?thesis
  proof cases
    case 1
    then show ?thesis using b c by (auto simp: removeItem_def)
  next
    case 2
    let ?st = "link_after y (ev_nextBin (st e)) st"
    have "removeItem e (hd b) st = Some (Inr (Some y, ?st))" using 2 b c(1) by (simp add: removeItem_def)
    moreover have "in_bins ?st (Some y) ((y # ys) # bs)"
      by (rule in_bins_link_after [where b = "y # ys", unfolded list.sel]) (use 2 b c disj [of y] in auto)
    moreover have "rem_bins e (b # bs) = (y # ys) # bs" using 2 b by simp
    moreover have "\<forall>x. x \<notin> set b \<longrightarrow> ?st x = st x" using 2 b by simp
    ultimately show ?thesis by (metis links_only_upd(1))
  next
    case 3
    obtain d ni where u: "unlink_loop e st (c, ev_nextInBin (st c)) = Some (Inr (st(d := (st d)\<lparr>ev_nextInBin := ni\<rparr>)))"
      and d: "d \<in> set (c # xs)" and ins: "in_bin (st(d := (st d)\<lparr>ev_nextInBin := ni\<rparr>)) (Some c) (c # remove1 e xs)"
      using unlink_ok [OF c(1) 3(2) c(3)] by blast
    let ?st = "st(d := (st d)\<lparr>ev_nextInBin := ni\<rparr>)"
    have "removeItem e (hd b) st = Some (Inr (Some c, ?st))" using 3(1) b u by (simp add: removeItem_def del: fun_upd_apply)
    moreover have "in_bins ?st (ev_nextBin (st c)) bs = in_bins st (ev_nextBin (st c)) bs"
      by (rule in_bins_cong) (use d b disj in auto)
    then have "in_bins ?st (Some c) ((c # remove1 e xs) # bs)" using c(2) ins by (cases "c = d") simp_all
    moreover have "rem_bins e (b # bs) = (c # remove1 e xs) # bs" using 3 b by auto
    moreover have "\<forall>x. x \<notin> set b \<longrightarrow> ?st x = st x" using d b by auto
    ultimately show ?thesis by (metis links_only_upd(2))
  qed
qed

text \<open>The bin of a removed event comes after the one that \<open>prev\<close> is the top of.\<close>

lemma in_bins_relink:
  assumes "in_bin st (Some (hd b)) b" "b \<noteq> []" "in_bins st' p bs" "hd b \<notin> set (concat bs)" "\<forall>x \<in> set b. st' x = st x"
  shows "in_bins (link_after (hd b) p st') (Some (hd b)) (b # bs)"
proof (rule in_bins_link_after)
  show "in_bin st' (Some (hd b)) b" using assms(1,5) in_bin_cong [of b st' st] by auto
qed (use assms in auto)

lemma remove_after:
  assumes "in_bins st (Some (hd b)) (b # bs)" "bins_ok (\<lambda>x. ev_key (st x)) (b # bs)" "e \<in> set (concat bs)"
  shows "\<exists>prev c p st'. find_bin st (st e) (hd b, ev_nextBin (st (hd b))) = Some (prev, Some c) \<and>
     ev_key (st c) = ev_key (st e) \<and> removeItem e c st = Some (Inr (p, st')) \<and> links_only st st' \<and>
     prev \<in> set (concat (b # bs)) \<and> (\<forall>x. x \<notin> set (concat bs) \<longrightarrow> st' x = st x) \<and>
     in_bins (link_after prev p st') (Some (hd b)) (b # rem_bins e bs)"
  using assms
proof (induction bs arbitrary: b)
  case (Cons c bs)
  let ?k = "\<lambda>x. ev_key (st x)" and ?cur = "ev_nextBin (st (hd b))"
  have b: "b \<noteq> []" "in_bin st (Some (hd b)) b" "in_bins st ?cur (c # bs)" using Cons.prems(1) by auto
  have c: "?cur = Some (hd c)" using b(3) in_bin_hd by auto
  note ok = bins_okD [OF Cons.prems(2)]
  note okc = bins_okD [OF ok(5)]
  have disj: "x \<notin> set (concat (c # bs))" if "x \<in> set b" for x by (rule bins_ok_disjoint [OF Cons.prems(2) that])
  have hd: "hd b \<notin> set (concat (c # bs))" by (rule hd_bin_notin [OF Cons.prems(2)])
  show ?case
  proof (cases "e \<in> set c")
    case True
    have k: "?k (hd c) = ?k e" using okc(3) [OF True] by simp
    obtain p st' where r: "removeItem e (hd c) st = Some (Inr (p, st'))" "in_bins st' p (rem_bins e (c # bs))"
      "links_only st st'" "\<forall>x. x \<notin> set c \<longrightarrow> st' x = st x"
      using removeItem_ok [OF b(3) [unfolded c] ok(5) True] by blast
    have "find_bin st (st e) (hd b, ?cur) = Some (hd b, Some (hd c))" using k by (simp add: find_bin.simps c ev_less_key)
    moreover have "in_bins (link_after (hd b) p st') (Some (hd b)) (b # rem_bins e (c # bs))"
    proof (rule in_bins_relink [OF b(2,1) r(2)])
      show "hd b \<notin> set (concat (rem_bins e (c # bs)))" using hd set_rem_bins by blast
      show "\<forall>x \<in> set b. st' x = st x" using r(4) disj by auto
    qed
    moreover have "hd b \<in> set (concat (b # c # bs))" using b(1) by simp
    moreover have "\<forall>x. x \<notin> set (concat (c # bs)) \<longrightarrow> st' x = st x" using r(4) by auto
    ultimately show ?thesis using k r(1,3) by blast
  next
    case False
    then have e: "e \<in> set (concat bs)" using Cons.prems(3) by auto
    obtain prev d p st' where f: "find_bin st (st e) (hd c, ev_nextBin (st (hd c))) = Some (prev, Some d)"
      and r: "ev_key (st d) = ev_key (st e)" "removeItem e d st = Some (Inr (p, st'))" "links_only st st'"
      and prev: "prev \<in> set (concat (c # bs))" and fr: "\<forall>x. x \<notin> set (concat bs) \<longrightarrow> st' x = st x"
      and ins: "in_bins (link_after prev p st') (Some (hd c)) (c # rem_bins e bs)"
      using Cons.IH [OF b(3) [unfolded c] ok(5) e] by blast
    have "find_bin st (st e) (hd b, ?cur) = Some (prev, Some d)"
      using f okc(4) [OF e] by (subst find_bin.simps) (simp add: c ev_less_key)
    moreover have "in_bins (link_after prev p st') (Some (hd b)) (b # rem_bins e (c # bs))"
    proof -
      let ?st = "link_after prev p st'"
      have x: "?st x = st x" if "x \<in> set b" for x using disj [OF that] fr prev by auto
      then have 1: "in_bin ?st (Some (hd b)) b" using b(2) in_bin_cong [of b ?st st] by metis
      have 2: "ev_nextBin (?st (hd b)) = Some (hd c)" using x [of "hd b"] b(1) c by simp
      have 3: "rem_bins e (c # bs) = c # rem_bins e bs" using False by simp
      show ?thesis unfolding in_bins.simps(2) [of _ _ b] 2 3 using ins 1 b(1) by blast
    qed
    moreover have "prev \<in> set (concat (b # c # bs))" "\<forall>x. x \<notin> set (concat (c # bs)) \<longrightarrow> st' x = st x" using prev fr by auto
    ultimately show ?thesis using r by blast
  qed
qed simp

lemma eq_remove_ok:
  assumes q: "in_bins (eq_store q) (eq_head q) bs" "bins_ok (\<lambda>x. ev_key (eq_store q x)) bs" "e \<in> set (concat bs)"
  shows "\<exists>q'. eq_remove e q = Some (Inr q') \<and> in_bins (eq_store q') (eq_head q') (rem_bins e bs) \<and>
     links_only (eq_store q) (eq_store q') \<and> eq_isMain q' = eq_isMain q"
proof -
  let ?st = "eq_store q"
  obtain b bs' where bs: "bs = b # bs'" using q(3) by (cases bs) auto
  have h: "eq_head q = Some (hd b)" using q(1) bs in_bin_hd by auto
  note q' = q(1) [unfolded h bs] q(2) [unfolded bs]
  note ok = bins_okD [OF q'(2)]
  show ?thesis
  proof (cases "e \<in> set b")
    case True
    obtain p st' where r: "removeItem e (hd b) ?st = Some (Inr (p, st'))" "in_bins st' p (rem_bins e bs)" "links_only ?st st'"
      using removeItem_ok [OF q' True] bs by blast
    have "eq_remove e q = Some (Inr (q\<lparr>eq_store := st', eq_head := p\<rparr>))"
      using h r(1) ok(3) [OF True] by (simp add: eq_remove_def ev_eq_key)
    then show ?thesis using r by simp
  next
    case False
    then have e: "e \<in> set (concat bs')" using q(3) bs by auto
    obtain prev c p st' where f: "find_bin ?st (?st e) (hd b, ev_nextBin (?st (hd b))) = Some (prev, Some c)"
      and r: "ev_key (?st c) = ev_key (?st e)" "removeItem e c ?st = Some (Inr (p, st'))" "links_only ?st st'"
      and ins: "in_bins (link_after prev p st') (Some (hd b)) (b # rem_bins e bs')"
      using remove_after [OF q' e] by blast
    have "eq_remove e q = Some (Inr (q\<lparr>eq_store := link_after prev p st'\<rparr>))"
      using h f r(1,2) less_imp_neq [OF ok(4) [OF e]] by (simp add: eq_remove_def ev_eq_key Let_def)
    moreover have "links_only ?st (link_after prev p st')" by (rule links_only_trans [OF r(3) links_only_upd(1)])
    ultimately show ?thesis using ins h False bs by (simp del: fun_upd_apply in_bins.simps)
  qed
qed

text \<open>A change of the flags alone leaves the bins as they are.\<close>

definition binned :: "EventQueue \<Rightarrow> nat list list \<Rightarrow> bool" where
  "binned q bs \<longleftrightarrow> in_bins (eq_store q) (eq_head q) bs \<and> bins_ok (\<lambda>x. ev_key (eq_store q x)) bs"

lemma binned_upd_event:
  assumes "\<And>x. ev_nextBin (f x) = ev_nextBin x" "\<And>x. ev_nextInBin (f x) = ev_nextInBin x"
    "\<And>x. ev_when (f x) = ev_when x" "\<And>x. ev_priority (f x) = ev_priority x"
  shows "binned (upd_event e f q) bs = binned q bs"
proof -
  have "in_bins (eq_store (upd_event e f q)) p bs = in_bins (eq_store q) p bs" for p
    by (rule in_bins_cong) (simp add: upd_event_def assms)
  moreover have "ev_key (eq_store (upd_event e f q) x) = ev_key (eq_store q x)" for x
    by (simp add: upd_event_def ev_key_def assms)
  moreover have "eq_head (upd_event e f q) = eq_head q" by (simp add: upd_event_def)
  ultimately show ?thesis by (simp add: binned_def)
qed

text \<open>Insertion at a new time.\<close>

lemma insert_at_ok:
  fixes t :: Tick
  assumes "binned q bs" "e \<notin> set (concat bs)"
  defines "st0 \<equiv> (eq_store q)(e := (eq_store q e)\<lparr>ev_when := t\<rparr>)"
  shows "\<exists>q'. eq_insert e (upd_event e (\<lambda>x. x\<lparr>ev_when := t\<rparr>) q) = Some q' \<and> links_only st0 (eq_store q') \<and>
     eq_isMain q' = eq_isMain q \<and> binned q' (ins_bins (\<lambda>x. ev_key (st0 x)) e bs)"
proof -
  let ?q = "upd_event e (\<lambda>x. x\<lparr>ev_when := t\<rparr>) q"
  have st: "eq_store ?q = st0" "eq_head ?q = eq_head q" "eq_isMain ?q = eq_isMain q" by (simp_all add: upd_event_def st0_def)
  have 1: "in_bins st0 (eq_head q) bs = in_bins (eq_store q) (eq_head q) bs" by (rule in_bins_cong) (simp add: st0_def)
  have 2: "bins_ok (\<lambda>x. ev_key (st0 x)) bs"
    by (rule bins_ok_cong [where k = "\<lambda>x. ev_key (eq_store q x)"]) (use assms in \<open>auto simp: binned_def st0_def\<close>)
  obtain q' where q': "eq_insert e ?q = Some q'" "in_bins (eq_store q') (eq_head q') (ins_bins (\<lambda>x. ev_key (st0 x)) e bs)"
    "links_only st0 (eq_store q')" "eq_isMain q' = eq_isMain q"
    using eq_insert_ok [of ?q bs e] 1 2 assms(1,2) unfolding st binned_def by blast
  have "bins_ok (\<lambda>x. ev_key (eq_store q' x)) (ins_bins (\<lambda>x. ev_key (st0 x)) e bs)"
    using ins_bins_ok [OF 2 assms(2)] links_only_key [OF q'(3)] by simp
  then show ?thesis using q' by (auto simp: binned_def)
qed

lemma eq_pop_ok:
  assumes q: "in_bins (eq_store q) (eq_head q) bs" "bins_ok k bs" "bs \<noteq> []"
  defines "e \<equiv> hd (concat bs)"
  shows "eq_head q = Some e \<and> in_bins (eq_store (eq_pop e q)) (eq_head (eq_pop e q)) (rem_bins e bs) \<and>
     links_only ((eq_store q)(e := (eq_store q e)\<lparr>ev_flags := flags_clear (ev_flags (eq_store q e)) EV_Scheduled\<rparr>)) (eq_store (eq_pop e q)) \<and>
     eq_isMain (eq_pop e q) = eq_isMain q"
proof -
  obtain b bs' where bs: "bs = b # bs'" using q(3) by (cases bs) auto
  obtain xs where b: "b = e # xs" using bs q(1) by (cases b) (auto simp: e_def)
  let ?st = "(eq_store q)(e := (eq_store q e)\<lparr>ev_flags := flags_clear (ev_flags (eq_store q e)) EV_Scheduled\<rparr>)"
  have h: "eq_head q = Some e" using q(1) bs b by simp
  have "in_bins ?st (Some e) (b # bs') = in_bins (eq_store q) (Some e) (b # bs')" by (rule in_bins_cong) simp
  then have ins: "in_bins ?st (Some (hd b)) (b # bs')" using q(1) bs b h by simp
  obtain p st' where r: "removeItem e (hd b) ?st = Some (Inr (p, st'))" "in_bins st' p (rem_bins e bs)" "links_only ?st st'"
    using removeItem_ok [OF ins q(2) [unfolded bs], of e] bs b list.set_intros(1) by metis
  have "eq_pop e q = q\<lparr>eq_store := st', eq_head := p\<rparr>"
    using r(1) b by (auto simp: eq_pop_def upd_event_def removeItem_def Let_def split: option.splits)
  then show ?thesis using r h by simp
qed

section \<open>The list of a queue\<close>

definition queued :: "EventQueue \<Rightarrow> nat list \<Rightarrow> bool" where
  "queued q es \<longleftrightarrow> (\<exists>bs. binned q bs \<and> es = concat bs \<and> (\<forall>x. ev_scheduled (eq_store q x) \<longleftrightarrow> x \<in> set es))"

lemma queued_sorted: "queued q es \<Longrightarrow> sorted (map (\<lambda>x. ev_key (eq_store q x)) es)"
  by (auto simp: queued_def binned_def intro: bins_ok_sorted)

lemma queued_distinct: "queued q es \<Longrightarrow> distinct es"
  by (auto simp: queued_def binned_def intro: bins_ok_distinct)

lemma queued_scheduled: "queued q es \<Longrightarrow> ev_scheduled (eq_store q x) \<longleftrightarrow> x \<in> set es"
  by (auto simp: queued_def)

lemma queued_head: "queued q es \<Longrightarrow> eq_head q = (if es = [] then None else Some (hd es))"
proof -
  assume "queued q es"
  then obtain bs where bs: "in_bins (eq_store q) (eq_head q) bs" "es = concat bs" by (auto simp: queued_def binned_def)
  then show ?thesis by (cases bs) (auto dest: in_bin_hd)
qed

text \<open>The walk of \<open>serialize\<close>, \<open>dump\<close> and \<open>debugVerify\<close> ends and finds the list.\<close>

lemma walk_bin_ok: "in_bin st p b \<Longrightarrow> walk_bin st p = Some b"
  by (induction b arbitrary: p) (auto simp: walk_bin.simps)

lemma walk_bins_ok: "in_bins st p bs \<Longrightarrow> walk_bins st p = Some (concat bs)"
proof (induction bs arbitrary: p)
  case (Cons b bs)
  then have p: "p = Some (hd b)" using in_bin_hd by auto
  have "walk_bin st p = Some b" using Cons.prems by (auto intro: walk_bin_ok)
  moreover have "walk_bins st (ev_nextBin (st (hd b))) = Some (concat bs)" using Cons by auto
  ultimately show ?case using p by (subst walk_bins.simps) simp
qed (simp add: walk_bins.simps)

lemma queued_walk: "queued q es \<Longrightarrow> walk_bins (eq_store q) (eq_head q) = Some es"
  by (auto simp: queued_def binned_def intro: walk_bins_ok)

lemma ev_scheduled_flags [simp]:
  "ev_scheduled (e\<lparr>ev_flags := flags_set f EV_Scheduled\<rparr>)"
  "\<not> ev_scheduled (e\<lparr>ev_flags := flags_clear f EV_Scheduled\<rparr>)"
  "ev_scheduled (mark_main m e) = ev_scheduled e"
  by (simp_all add: ev_scheduled_def mark_main_def ev_flag_defs flag_simps)

lemma mark_main_sel [simp]:
  "ev_nextBin (mark_main m e) = ev_nextBin e" "ev_nextInBin (mark_main m e) = ev_nextInBin e"
  "ev_when (mark_main m e) = ev_when e" "ev_priority (mark_main m e) = ev_priority e"
  by (simp_all add: mark_main_def)

lemma upd_event_sel [simp]:
  "eq_store (upd_event e f q) x = (if x = e then f (eq_store q e) else eq_store q x)"
  "eq_head (upd_event e f q) = eq_head q" "eq_isMain (upd_event e f q) = eq_isMain q"
  by (simp_all add: upd_event_def)

text \<open>The events whose time, priority and flags stay.\<close>

definition untouched :: "nat set \<Rightarrow> EventQueue \<Rightarrow> EventQueue \<Rightarrow> bool" where
  "untouched A q q' \<longleftrightarrow> (\<forall>x. x \<notin> A \<longrightarrow> ev_when (eq_store q' x) = ev_when (eq_store q x) \<and>
     ev_priority (eq_store q' x) = ev_priority (eq_store q x) \<and> ev_flags (eq_store q' x) = ev_flags (eq_store q x))"

lemma untouched_refl [simp]: "untouched A q q"
  by (simp add: untouched_def)

lemma untouched_trans: "untouched A p q \<Longrightarrow> untouched A q r \<Longrightarrow> untouched A p r"
  by (simp add: untouched_def)

lemma untouched_upd [simp]: "e \<in> A \<Longrightarrow> untouched A q (upd_event e f q)"
  by (auto simp: untouched_def)

lemma untouched_links: "links_only (eq_store q) (eq_store q') \<Longrightarrow> untouched A q q'"
  by (simp add: untouched_def links_only_def)

lemma untouched_key: "untouched A q q' \<Longrightarrow> x \<notin> A \<Longrightarrow> ev_key (eq_store q' x) = ev_key (eq_store q x)"
  by (simp add: untouched_def ev_key_def)

lemma untouched_scheduled: "untouched A q q' \<Longrightarrow> x \<notin> A \<Longrightarrow> ev_scheduled (eq_store q' x) = ev_scheduled (eq_store q x)"
  by (simp add: untouched_def ev_scheduled_def)

lemma enlist_cong: "\<forall>x \<in> insert e (set es). k x = k' x \<Longrightarrow> enlist k e es = enlist k' e es"
  by (simp add: enlist_def cong: takeWhile_cong dropWhile_cong)

lemma set_enlist: "set (enlist k e es) = insert e (set es)"
  unfolding enlist_def by (metis Un_insert_right list.simps(15) set_append takeWhile_dropWhile_id)

text \<open>
  Putting an event that is in no bin on the queue: \<open>setWhen\<close>, \<open>insert\<close>, and the change of
  flags at the end of \<open>schedule\<close> and \<open>reschedule\<close>.
\<close>

lemma enqueue_ok:
  fixes t :: Tick
  assumes q: "binned q bs" "e \<notin> set (concat bs)" and sched: "\<And>x. x \<noteq> e \<Longrightarrow> ev_scheduled (eq_store q x) \<longleftrightarrow> x \<in> set (concat bs)"
    and f: "\<And>x. ev_scheduled (f x)" "\<And>x. ev_nextBin (f x) = ev_nextBin x" "\<And>x. ev_nextInBin (f x) = ev_nextInBin x"
      "\<And>x. ev_when (f x) = ev_when x" "\<And>x. ev_priority (f x) = ev_priority x"
  shows "\<exists>q1. eq_insert e (upd_event e (\<lambda>x. x\<lparr>ev_when := t\<rparr>) q) = Some q1 \<and> eq_isMain q1 = eq_isMain q \<and>
     queued (upd_event e f q1) (enlist (\<lambda>x. ev_key (eq_store (upd_event e f q1) x)) e (concat bs)) \<and>
     ev_when (eq_store (upd_event e f q1) e) = t \<and> ev_priority (eq_store (upd_event e f q1) e) = ev_priority (eq_store q e) \<and>
     untouched {e} q (upd_event e f q1)"
proof -
  let ?st = "(eq_store q)(e := (eq_store q e)\<lparr>ev_when := t\<rparr>)"
  obtain q1 where i: "eq_insert e (upd_event e (\<lambda>x. x\<lparr>ev_when := t\<rparr>) q) = Some q1" and l: "links_only ?st (eq_store q1)"
    and m: "eq_isMain q1 = eq_isMain q" and b: "binned q1 (ins_bins (\<lambda>x. ev_key (?st x)) e bs)"
    using insert_at_ok [OF q, of t] by blast
  let ?q = "upd_event e f q1"
  have b': "binned ?q (ins_bins (\<lambda>x. ev_key (?st x)) e bs)" using b by (simp only: binned_upd_event f)
  have k: "ev_key (eq_store ?q x) = ev_key (?st x)" for x
    using links_only_key [OF l, of x] by (cases "x = e") (simp_all add: ev_key_def f)
  have u: "untouched {e} q ?q" using l by (auto simp: untouched_def links_only_def)
  have ok: "bins_ok (\<lambda>x. ev_key (?st x)) bs"
    by (rule bins_ok_cong [where k = "\<lambda>x. ev_key (eq_store q x)"]) (use q in \<open>auto simp: binned_def\<close>)
  have c: "concat (ins_bins (\<lambda>x. ev_key (?st x)) e bs) = enlist (\<lambda>x. ev_key (eq_store ?q x)) e (concat bs)"
    unfolding concat_ins_bins [OF ok] using k by simp
  have "ev_scheduled (eq_store ?q x) \<longleftrightarrow> x \<in> set (enlist (\<lambda>x. ev_key (eq_store ?q x)) e (concat bs))" for x
    unfolding set_enlist using f(1) sched untouched_scheduled [OF u, of x] by (cases "x = e") simp_all
  then have "queued ?q (enlist (\<lambda>x. ev_key (eq_store ?q x)) e (concat bs))"
    using b' c by (auto simp: queued_def)
  moreover have "ev_when (eq_store ?q e) = t" "ev_priority (eq_store ?q e) = ev_priority (eq_store q e)"
    using l by (simp_all add: links_only_def f)
  ultimately show ?thesis using i m u by blast
qed

lemma schedule_ok:
  assumes q: "queued q es" and e: "\<not> ev_scheduled (eq_store q e)" "ev_initialized (eq_store q e)"
    and t: "(word_of_int curTick :: 64 word) \<le> word_of_int t"
  shows "\<exists>q'. eq_schedule curTick e t q = Some (Inr q') \<and> queued q' (enlist (\<lambda>x. ev_key (eq_store q' x)) e es) \<and>
     ev_when (eq_store q' e) = t \<and> ev_priority (eq_store q' e) = ev_priority (eq_store q e) \<and> untouched {e} q q'"
proof -
  let ?f = "\<lambda>e. mark_main (eq_isMain q) (e\<lparr>ev_flags := flags_set (ev_flags e) EV_Scheduled\<rparr>)"
  obtain bs where bs: "binned q bs" "es = concat bs" using q by (auto simp: queued_def)
  have "e \<notin> set (concat bs)" using queued_scheduled [OF q] e(1) bs(2) by simp
  then obtain q1 where q1: "eq_insert e (upd_event e (\<lambda>x. x\<lparr>ev_when := t\<rparr>) q) = Some q1" "eq_isMain q1 = eq_isMain q"
    "queued (upd_event e ?f q1) (enlist (\<lambda>x. ev_key (eq_store (upd_event e ?f q1) x)) e es)"
    "ev_when (eq_store (upd_event e ?f q1) e) = t" "ev_priority (eq_store (upd_event e ?f q1) e) = ev_priority (eq_store q e)"
    "untouched {e} q (upd_event e ?f q1)"
    using enqueue_ok [OF bs(1), of e ?f t] queued_scheduled [OF q] bs(2) by auto
  then have "eq_schedule curTick e t q = Some (Inr (upd_event e ?f q1))" using e t by (simp add: eq_schedule_def)
  then show ?thesis using q1(3-6) by blast
qed

lemma queued_upd_flags:
  assumes "queued q es" "\<And>x. ev_nextBin (f x) = ev_nextBin x" "\<And>x. ev_nextInBin (f x) = ev_nextInBin x"
    "\<And>x. ev_when (f x) = ev_when x" "\<And>x. ev_priority (f x) = ev_priority x"
    "ev_scheduled (f (eq_store q e)) = ev_scheduled (eq_store q e)"
  shows "queued (upd_event e f q) es"
proof -
  obtain bs where bs: "binned q bs" "es = concat bs" using assms(1) by (auto simp: queued_def)
  have "binned (upd_event e f q) bs" using bs(1) by (simp only: binned_upd_event assms)
  moreover have "ev_scheduled (eq_store (upd_event e f q) x) \<longleftrightarrow> x \<in> set es" for x
    using assms(6) queued_scheduled [OF assms(1)] by simp
  ultimately show ?thesis using bs(2) by (auto simp: queued_def)
qed

lemma queued_put_flags:
  assumes "queued q es" "x = (eq_store q e)\<lparr>ev_flags := g\<rparr>" "ev_scheduled x = ev_scheduled (eq_store q e)"
  shows "queued (upd_event e (\<lambda>_. x) q) es"
proof -
  have "upd_event e (\<lambda>_. x) q = upd_event e (\<lambda>y. y\<lparr>ev_flags := g\<rparr>) q" by (simp add: upd_event_def assms(2))
  then show ?thesis using queued_upd_flags [OF assms(1)] assms(2,3) by simp
qed

lemma queued_delete: "queued q es \<Longrightarrow> ev_delete (eq_store q e) = Inr x \<Longrightarrow> queued (upd_event e (\<lambda>_. x) q) es"
  by (rule queued_put_flags [where g = 0]) (auto simp: ev_delete_def guard_res_def ev_scheduled_def split: if_splits)

text \<open>Taking an event off the queue, without its flags.\<close>

lemma remove_ok:
  assumes q: "queued q es" and e: "ev_scheduled (eq_store q e)"
  shows "\<exists>q' bs. eq_remove e q = Some (Inr q') \<and> binned q' bs \<and> concat bs = remove1 e es \<and> untouched {} q q' \<and>
     eq_isMain q' = eq_isMain q"
proof -
  obtain bs where bs: "binned q bs" "es = concat bs" using q by (auto simp: queued_def)
  have "e \<in> set (concat bs)" using queued_scheduled [OF q] e bs(2) by simp
  then obtain q' where r: "eq_remove e q = Some (Inr q')" "in_bins (eq_store q') (eq_head q') (rem_bins e bs)"
    "links_only (eq_store q) (eq_store q')" "eq_isMain q' = eq_isMain q"
    using eq_remove_ok bs(1) unfolding binned_def by blast
  have "binned q' (rem_bins e bs)"
    using bs(1) r(2) links_only_key [OF r(3)] by (simp add: binned_def rem_bins_ok)
  then show ?thesis using r bs(2) concat_rem_bins untouched_links by blast
qed

lemma removed_scheduled:
  assumes "queued q es" "untouched {} q q'" "x \<noteq> e"
  shows "ev_scheduled (eq_store q' x) \<longleftrightarrow> x \<in> set (remove1 e es)"
  using queued_scheduled [OF assms(1)] untouched_scheduled [OF assms(2), of x] queued_distinct [OF assms(1)] assms(3)
  by simp

lemma deschedule_ok:
  assumes q: "queued q es" and e: "ev_scheduled (eq_store q e)" "ev_initialized (eq_store q e)"
  shows "\<exists>q'. eq_deschedule e q = Some (Inr q') \<and> queued q' (remove1 e es) \<and> untouched {e} q q'"
proof -
  let ?f = "\<lambda>e. e\<lparr>ev_flags := flags_clear (flags_clear (ev_flags e) EV_Squashed) EV_Scheduled\<rparr>"
  obtain q1 bs where r: "eq_remove e q = Some (Inr q1)" "binned q1 bs" "concat bs = remove1 e es" "untouched {} q q1"
    using remove_ok [OF q e(1)] by blast
  let ?q = "upd_event e ?f q1"
  have "binned ?q bs" using binned_upd_event [of ?f e q1 bs] r(2) by simp
  moreover have "ev_scheduled (eq_store ?q x) \<longleftrightarrow> x \<in> set (remove1 e es)" for x
    using removed_scheduled [OF q r(4)] queued_distinct [OF q] by (cases "x = e") simp_all
  ultimately have qd: "queued ?q (remove1 e es)" using r(3) by (auto simp: queued_def)
  have u: "untouched {e} q ?q" by (rule untouched_trans [of _ _ q1]) (use r(4) in \<open>auto simp: untouched_def\<close>)
  obtain x where x: "ev_delete (eq_store ?q e) = Inr x" by (simp add: ev_delete_def guard_res_def)
  have "queued (upd_event e (\<lambda>_. x) ?q) (remove1 e es)" by (rule queued_delete [OF qd x])
  moreover have "untouched {e} q (upd_event e (\<lambda>_. x) ?q)" using u by (auto simp: untouched_def)
  moreover have "eq_deschedule e q = Some (Inr (if flags_isSet (ev_flags (eq_store ?q e)) EV_AutoDelete
    then upd_event e (\<lambda>_. x) ?q else ?q))" using e r(1) x by (simp add: eq_deschedule_def Let_def del: upd_event_sel)
  ultimately show ?thesis using qd u
    by (cases "flags_isSet (ev_flags (eq_store ?q e)) EV_AutoDelete") (simp_all del: upd_event_sel)
qed

lemma reschedule_ok:
  assumes q: "queued q es" and e: "always \<or> ev_scheduled (eq_store q e)" "ev_initialized (eq_store q e)" and t: "curTick \<le> t"
  shows "\<exists>q'. eq_reschedule curTick e t always q = Some (Inr q') \<and>
     queued q' (enlist (\<lambda>x. ev_key (eq_store q' x)) e (remove1 e es)) \<and>
     ev_when (eq_store q' e) = t \<and> ev_priority (eq_store q' e) = ev_priority (eq_store q e) \<and> untouched {e} q q'"
proof -
  let ?f = "\<lambda>e. mark_main (eq_isMain q) (e\<lparr>ev_flags := flags_set (flags_clear (ev_flags e) EV_Squashed) EV_Scheduled\<rparr>)"
  let ?rem = "if ev_scheduled (eq_store q e) then eq_remove e q else Some (Inr q)"
  obtain q1 bs where r: "?rem = Some (Inr q1)" "binned q1 bs" "concat bs = remove1 e es" "untouched {} q q1" "eq_isMain q1 = eq_isMain q"
  proof (cases "ev_scheduled (eq_store q e)")
    case False
    then have "remove1 e es = es" using queued_scheduled [OF q] by (simp add: remove1_idem)
    then show ?thesis using that [of q] q False by (auto simp: queued_def)
  qed (use remove_ok [OF q] that in auto)
  have "e \<notin> set (concat bs)" using r(3) queued_distinct [OF q] by simp
  then obtain q2 where q2: "eq_insert e (upd_event e (\<lambda>x. x\<lparr>ev_when := t\<rparr>) q1) = Some q2" "eq_isMain q2 = eq_isMain q1"
    "queued (upd_event e ?f q2) (enlist (\<lambda>x. ev_key (eq_store (upd_event e ?f q2) x)) e (remove1 e es))"
    "ev_when (eq_store (upd_event e ?f q2) e) = t" "ev_priority (eq_store (upd_event e ?f q2) e) = ev_priority (eq_store q1 e)"
    "untouched {e} q1 (upd_event e ?f q2)"
    using enqueue_ok [OF r(2), of e ?f t] removed_scheduled [OF q r(4)] unfolding r(3) by auto
  have "eq_reschedule curTick e t always q = Some (Inr (upd_event e ?f q2))"
    using e t r(1,5) q2(1,2) by (simp add: eq_reschedule_def)
  moreover have "untouched {e} q (upd_event e ?f q2)" by (rule untouched_trans [OF _ q2(6)]) (use r(4) in \<open>simp add: untouched_def\<close>)
  moreover have "ev_priority (eq_store q1 e) = ev_priority (eq_store q e)" using r(4) by (simp add: untouched_def)
  ultimately show ?thesis using q2(3-5) by (simp del: upd_event_sel)
qed

lemma pop_ok:
  assumes q: "queued q (e # es)"
  shows "queued (eq_pop e q) es" "untouched {e} q (eq_pop e q)"
proof -
  let ?st = "(eq_store q)(e := (eq_store q e)\<lparr>ev_flags := flags_clear (ev_flags (eq_store q e)) EV_Scheduled\<rparr>)"
  obtain bs where bs: "binned q bs" "e # es = concat bs" using q by (auto simp: queued_def)
  have ne: "bs \<noteq> []" using bs(2) by (cases bs) simp_all
  have e: "hd (concat bs) = e" by (simp flip: bs(2))
  note p = eq_pop_ok [OF bs(1) [unfolded binned_def, THEN conjunct1] bs(1) [unfolded binned_def, THEN conjunct2] ne, unfolded e]
  then have l: "links_only ?st (eq_store (eq_pop e q))" by blast
  show u: "untouched {e} q (eq_pop e q)" using l by (auto simp: untouched_def links_only_def)
  have "ev_key (eq_store (eq_pop e q) x) = ev_key (eq_store q x)" for x
    using links_only_key [OF l, of x] by (cases "x = e") (simp_all add: ev_key_def)
  then have "binned (eq_pop e q) (rem_bins e bs)" using p bs(1) by (simp add: binned_def rem_bins_ok)
  moreover have "concat (rem_bins e bs) = es" using bs(2) by (simp add: concat_rem_bins flip: bs(2))
  moreover have "ev_flags (eq_store (eq_pop e q) e) = flags_clear (ev_flags (eq_store q e)) EV_Scheduled"
    using l by (simp add: links_only_def)
  then have "\<not> ev_scheduled (eq_store (eq_pop e q) e)" by (simp add: ev_scheduled_def ev_flag_defs flag_simps)
  then have "ev_scheduled (eq_store (eq_pop e q) x) \<longleftrightarrow> x \<in> set es" for x
    using untouched_scheduled [OF u, of x] queued_scheduled [OF q] queued_distinct [OF q] by (cases "x = e") auto
  ultimately show "queued (eq_pop e q) es" by (auto simp: queued_def)
qed

text \<open>Nothing on the queue depends on an event that is not scheduled.\<close>

lemma queued_upd_idle:
  assumes q: "queued q es" and e: "\<not> ev_scheduled (eq_store q e)" "\<not> ev_scheduled (f (eq_store q e))"
  shows "queued (upd_event e f q) es"
proof -
  obtain bs where bs: "binned q bs" "es = concat bs" using q by (auto simp: queued_def)
  have ne: "e \<notin> set (concat bs)" using queued_scheduled [OF q] e(1) bs(2) by simp
  have "in_bins (eq_store (upd_event e f q)) p bs = in_bins (eq_store q) p bs" for p
    by (rule in_bins_cong) (use ne in auto)
  moreover have "bins_ok (\<lambda>x. ev_key (eq_store (upd_event e f q) x)) bs"
    by (rule bins_ok_cong [where k = "\<lambda>x. ev_key (eq_store q x)"]) (use ne bs(1) in \<open>auto simp: binned_def\<close>)
  ultimately have "binned (upd_event e f q) bs" using bs(1) by (simp add: binned_def)
  moreover have "ev_scheduled (eq_store (upd_event e f q) x) \<longleftrightarrow> x \<in> set es" for x
    using queued_scheduled [OF q] e by auto
  ultimately show ?thesis using bs(2) by (auto simp: queued_def)
qed

text \<open>
  The restoration of a scheduled event from what \<open>serialize\<close> wrote puts it back on the queue
  with the same time and priority.
\<close>

lemma unserialize_serialize:
  assumes q: "queued q es" and e: "\<not> ev_scheduled (eq_store q e)" "ev_initialized (eq_store q e)"
    and x: "ev_scheduled x" "\<not> ev_squashed x" "ev_initialized x" and t: "(word_of_int curTick :: 64 word) \<le> word_of_int (ev_when x)"
  shows "\<exists>q'. ev_unserialize curTick e (ev_serialize x) q = Some (Inr q') \<and>
     queued q' (enlist (\<lambda>y. ev_key (eq_store q' y)) e es) \<and> ev_key (eq_store q' e) = ev_key x \<and> untouched {e} q q'"
proof -
  let ?fl = "flags_set (ev_flags x) EV_Initialized"
  let ?f = "\<lambda>e. e\<lparr>ev_when := ev_when x, ev_priority := ev_priority x, ev_flags := flags_clear ?fl (EV_Squashed OR EV_Scheduled)\<rparr>"
  let ?q = "upd_event e ?f q"
  have was: "flags_isSet ?fl EV_Scheduled" "\<not> flags_isSet ?fl EV_Squashed"
    using x by (simp_all add: ev_scheduled_def ev_squashed_def ev_flag_defs flag_simps)
  have idle: "\<not> ev_scheduled (?f (eq_store q e))" by (simp add: ev_scheduled_def ev_flag_defs flag_simps)
  have "ev_flags x AND EV_InitMask = EV_Initialized" using x(3) by (simp add: ev_initialized_def)
  then have "ev_initialized (?f (eq_store q e))"
    by (simp add: ev_initialized_def flags_set_def flags_clear_def ev_flag_defs ac_simps bit.conj_disj_distrib bit.conj_disj_distrib2)
  then have init: "ev_initialized (eq_store ?q e)" by simp
  have idle_q: "queued ?q es" by (rule queued_upd_idle [where f = ?f, OF q e(1) idle])
  obtain q' where q': "eq_schedule curTick e (ev_when x) ?q = Some (Inr q')"
    "queued q' (enlist (\<lambda>y. ev_key (eq_store q' y)) e es)" "ev_when (eq_store q' e) = ev_when x"
    "ev_priority (eq_store q' e) = ev_priority (eq_store ?q e)" "untouched {e} ?q q'"
    using schedule_ok [OF idle_q _ init t] idle by auto
  have "ev_unserialize curTick e (ev_serialize x) q = Some (Inr q')"
    using e was q'(1) by (simp add: ev_unserialize_def ev_serialize_def Let_def)
  moreover have "untouched {e} q q'" using q'(5) by (auto simp: untouched_def)
  ultimately show ?thesis using q'(2-4) by (auto simp: ev_key_def)
qed

section \<open>What the clients of the queue rely on\<close>

text \<open>
  The interface that service relies on: a queue has a list of events in the order of their
  keys, \<open>top_of\<close> is its first, and \<open>pop\<close> takes that off and keeps the keys.
\<close>

locale agenda =
  fixes content :: "'q \<Rightarrow> nat list \<Rightarrow> bool" and key :: "'q \<Rightarrow> nat \<Rightarrow> 'k::linorder"
    and top_of :: "'q \<Rightarrow> nat option" and pop :: "nat \<Rightarrow> 'q \<Rightarrow> 'q"
  assumes content_sorted: "content q es \<Longrightarrow> sorted (map (key q) es)"
    and content_distinct: "content q es \<Longrightarrow> distinct es"
    and top_content: "content q es \<Longrightarrow> top_of q = (if es = [] then None else Some (hd es))"
    and pop_content: "content q (e # es) \<Longrightarrow> content (pop e q) es"
    and pop_key: "content q (e # es) \<Longrightarrow> x \<noteq> e \<Longrightarrow> key (pop e q) x = key q x"
begin

lemma content_unique_top: "content q es \<Longrightarrow> content q es' \<Longrightarrow> es = [] \<longleftrightarrow> es' = []"
  using top_content by (metis option.distinct(1))

lemma top_min:
  assumes "content q es" "top_of q = Some e"
  shows "e \<in> set es" "x \<in> set es \<Longrightarrow> key q e \<le> key q x"
proof -
  obtain xs where "es = e # xs" using assms top_content by (cases es) (auto split: if_splits)
  then show "e \<in> set es" "x \<in> set es \<Longrightarrow> key q e \<le> key q x" using content_sorted [OF assms(1)] by auto
qed

text \<open>The list is determined by the queue: it is what repeated \<open>pop\<close> brings out.\<close>

lemma content_unique: "content q es \<Longrightarrow> content q es' \<Longrightarrow> es = es'"
proof (induction es arbitrary: q es')
  case (Cons e es)
  then obtain xs where xs: "es' = e # xs" using top_content [of q "e # es"] top_content [of q es'] by (cases es') auto
  then show ?case using Cons.IH [of "pop e q" xs] Cons.prems pop_content by simp
qed (use content_unique_top in blast)

lemma pop_due:
  assumes "content q (e # es)"
  shows "length (filter (\<lambda>x. P (key (pop e q) x)) es) = length (filter (\<lambda>x. P (key q x)) es)"
proof -
  have "filter (\<lambda>x. P (key (pop e q) x)) es = filter (\<lambda>x. P (key q x)) es"
    by (rule filter_cong [OF refl]) (use assms content_distinct pop_key in \<open>metis distinct.simps(2)\<close>)
  then show ?thesis by simp
qed

end

interpretation eventq: agenda queued "\<lambda>q x. ev_key (eq_store q x)" eq_head eq_pop
  by unfold_locales
    (auto simp: queued_head intro: queued_sorted queued_distinct pop_ok(1) untouched_key [OF pop_ok(2)])

text \<open>The checks of \<open>debugVerify\<close> along a list.\<close>

fun verified :: "(nat \<Rightarrow> 'k::linorder) \<Rightarrow> 'k \<Rightarrow> nat list \<Rightarrow> nat list \<Rightarrow> bool" where
  "verified k lo seen [] \<longleftrightarrow> True"
| "verified k lo seen (x # xs) \<longleftrightarrow> lo \<le> k x \<and> x \<notin> set seen \<and> verified k (k x) (x # seen) xs"

lemma verified_iff: "verified k lo seen es \<longleftrightarrow> sorted (lo # map k es) \<and> distinct es \<and> set es \<inter> set seen = {}"
proof (induction es arbitrary: lo seen)
  case (Cons x es)
  then show ?case unfolding verified.simps list.map sorted2 by auto
qed simp

lemma verify_event_key:
  "verify_event st v x \<longleftrightarrow> (vs_time v, vs_priority v) \<le> ev_key (st x) \<and> x \<notin> set (vs_seen v)"
  by (auto simp: verify_event_def ev_key_def)

text \<open>In a bin, with the bins \<open>bs\<close> to come.\<close>

lemma verify_loop_bins:
  "in_bin st (vs_nextInBin v) xs \<Longrightarrow> in_bins st (Option.bind (vs_nextBin v) (\<lambda>b. ev_nextBin (st b))) bs \<Longrightarrow>
   verify_loop st v = Some (verified (\<lambda>x. ev_key (st x)) (vs_time v, vs_priority v) (vs_seen v) (xs @ concat bs))"
proof (induction bs arbitrary: v xs)
  case Nil
  then show ?case
  proof (induction xs arbitrary: v)
    case Nil
    then show ?case by (cases "vs_nextBin v") (simp_all add: verify_loop.simps)
  next
    case (Cons x xs)
    then show ?case by (subst verify_loop.simps) (simp add: verify_event_key ev_key_def)
  qed
next
  case (Cons b bs)
  note outer = Cons.IH
  show ?case using Cons.prems
  proof (induction xs arbitrary: v)
    case Nil
    then obtain c where c: "vs_nextBin v = Some c" "b \<noteq> []" "in_bin st (ev_nextBin (st c)) b"
      "in_bins st (ev_nextBin (st (hd b))) bs" by (cases "vs_nextBin v") (auto dest: in_bin_hd)
    moreover have "ev_nextBin (st c) = Some (hd b)" using c(2,3) in_bin_hd by blast
    ultimately show ?case using Nil.prems(1) outer [where xs = b] by (subst verify_loop.simps) simp
  next
    case (Cons x xs)
    then show ?case by (subst verify_loop.simps) (simp add: verify_event_key ev_key_def)
  qed
qed

lemma debugVerify_queued:
  assumes "queued q es"
  shows "debugVerify q = Some (es \<noteq> [] \<longrightarrow> (0, 0) \<le> ev_key (eq_store q (hd es)))"
proof -
  obtain bs where bs: "binned q bs" "es = concat bs" using assms by (auto simp: queued_def)
  have "debugVerify q = Some (verified (\<lambda>x. ev_key (eq_store q x)) (0, 0) [] es)"
  proof (cases bs)
    case Nil
    then show ?thesis using bs by (simp add: debugVerify_def binned_def verify_loop.simps)
  next
    case (Cons b bs')
    then have "eq_head q = Some (hd b)" using bs(1) in_bin_hd by (auto simp: binned_def)
    then show ?thesis using bs Cons by (simp add: debugVerify_def binned_def verify_loop_bins [where xs = b and bs = bs'])
  qed
  also have "verified (\<lambda>x. ev_key (eq_store q x)) (0, 0) [] es \<longleftrightarrow> (es \<noteq> [] \<longrightarrow> (0, 0) \<le> ev_key (eq_store q (hd es)))"
    unfolding verified_iff using queued_sorted [OF assms] queued_distinct [OF assms]
    by (cases es) (auto simp: sorted2 simp del: sorted_simps(2) less_eq_prod_simp)
  finally show ?thesis .
qed

section \<open>Reachable queues\<close>

text \<open>
  What can happen to a queue: the calls of its operations at any time, the pop and the deletion
  of \<open>serviceOne\<close>, and the changes of flags open to the owner of an event.
\<close>

inductive eq_step :: "EventQueue \<Rightarrow> EventQueue \<Rightarrow> bool" where
  schedule: "eq_schedule curTick e t q = Some (Inr q') \<Longrightarrow> eq_step q q'"
| deschedule: "eq_deschedule e q = Some (Inr q') \<Longrightarrow> eq_step q q'"
| reschedule: "eq_reschedule curTick e t always q = Some (Inr q') \<Longrightarrow> eq_step q q'"
| pop: "eq_head q = Some e \<Longrightarrow> eq_step q (eq_pop e q)"
| delete: "auto_delete e q = Inr q' \<Longrightarrow> eq_step q q'"
| squash: "eq_step q (upd_event e ev_squash q)"
| unsquash: "eq_step q (upd_event e (\<lambda>e. e\<lparr>ev_flags := flags_clear (ev_flags e) EV_Squashed\<rparr>) q)"
| unserialize: "ev_unserialize curTick e cp q = Some (Inr q') \<Longrightarrow> eq_step q q'"
| clearAllFlags: "eq_step q (upd_event e ev_clearAllFlags q)"
| setFlags: "ev_setFlags f (eq_store q e) = Inr x \<Longrightarrow> eq_step q (upd_event e (\<lambda>_. x) q)"
| clearFlags: "ev_clearFlags f (eq_store q e) = Inr x \<Longrightarrow> eq_step q (upd_event e (\<lambda>_. x) q)"

lemma auto_delete_total: "\<exists>q'. auto_delete e q = Inr q'"
  by (simp add: auto_delete_def ev_delete_def guard_res_def Let_def)

lemma queued_auto_delete: "queued q es \<Longrightarrow> auto_delete e q = Inr q' \<Longrightarrow> queued q' es"
  by (auto simp: auto_delete_def ev_delete_def guard_res_def Let_def split: if_splits
      intro!: queued_delete [unfolded ev_delete_def guard_res_def])

lemma public_flags_scheduled:
  assumes "flags_noneSet f (NOT EV_PublicWrite)"
  shows "flags_isSet (flags_set g f) EV_Scheduled = flags_isSet g EV_Scheduled"
    "flags_isSet (flags_clear g f) EV_Scheduled = flags_isSet g EV_Scheduled"
proof -
  have "f AND EV_Scheduled = (f AND NOT EV_PublicWrite) AND EV_Scheduled" by (simp add: ev_flag_defs ac_simps)
  also have "f AND NOT EV_PublicWrite = 0" using assms by (simp add: flags_noneSet_def)
  finally have f: "f AND EV_Scheduled = 0" by simp
  have "EV_Scheduled = (f AND EV_Scheduled) OR (EV_Scheduled AND NOT f)" by (rule bit_eqI) (auto simp: bit_simps)
  then have "EV_Scheduled AND NOT f = EV_Scheduled" unfolding f by simp
  then show "flags_isSet (flags_set g f) EV_Scheduled = flags_isSet g EV_Scheduled"
    "flags_isSet (flags_clear g f) EV_Scheduled = flags_isSet g EV_Scheduled"
    using f by (simp_all add: flags_isSet_set flags_isSet_clear) (simp add: flags_isSet_def)
qed

lemma schedule_queued: "eq_schedule curTick e t q = Some (Inr q') \<Longrightarrow> queued q es \<Longrightarrow> \<exists>es'. queued q' es'"
  using schedule_ok [of q es e curTick t] by (fastforce simp: eq_schedule_def split: if_splits)

lemma deschedule_queued:
  assumes "eq_deschedule e q = Some (Inr q')" "queued q es"
  shows "queued q' (remove1 e es) \<and> \<not> ev_scheduled (eq_store q' e)"
proof -
  have "ev_scheduled (eq_store q e)" "ev_initialized (eq_store q e)"
    using assms(1) by (auto simp: eq_deschedule_def split: if_splits)
  then have q': "queued q' (remove1 e es)" using deschedule_ok [OF assms(2), of e] assms(1) by auto
  then show ?thesis using queued_scheduled [OF q'] queued_distinct [OF assms(2)] by simp
qed

lemma unserialize_queued:
  assumes "ev_unserialize curTick e cp q = Some (Inr q')" "queued q es"
  shows "\<exists>es'. queued q' es'"
proof -
  obtain t p fl where cp: "cp = (t, p, fl)" by (cases cp)
  let ?fl = "flags_set fl EV_Initialized"
  let ?rem = "if ev_scheduled (eq_store q e) then eq_deschedule e q else Some (Inr q)"
  let ?f = "\<lambda>e. e\<lparr>ev_when := t, ev_priority := p, ev_flags := flags_clear ?fl (EV_Squashed OR EV_Scheduled)\<rparr>"
  obtain q1 where r: "?rem = Some (Inr q1)"
    and q': "upd_event e ?f q1 = q' \<or> eq_schedule curTick e t (upd_event e ?f q1) = Some (Inr q')"
  proof (cases ?rem)
    case (Some r)
    then show ?thesis using assms(1) that unfolding ev_unserialize_def cp
      by (cases r) (auto simp: Let_def split: if_splits)
  qed (use assms(1) in \<open>simp add: ev_unserialize_def cp\<close>)
  obtain es1 where es1: "queued q1 es1" "\<not> ev_scheduled (eq_store q1 e)"
    using r assms(2) deschedule_queued [of e q q1 es] that by (cases "ev_scheduled (eq_store q e)") auto
  have "queued (upd_event e ?f q1) es1"
    by (rule queued_upd_idle [OF es1]) (simp add: ev_scheduled_def ev_flag_defs flag_simps)
  then show ?thesis using q' schedule_queued by blast
qed

lemma eq_step_queued:
  assumes "eq_step q q'" "queued q es"
  shows "\<exists>es'. queued q' es'"
  using assms
proof (induction rule: eq_step.induct)
  case (schedule curTick e t q q')
  then show ?case by (rule schedule_queued)
next
  case (deschedule e q q')
  then show ?case using deschedule_queued by blast
next
  case (reschedule curTick e t always q q')
  then show ?case using reschedule_ok [of q es always e curTick t] by (fastforce simp: eq_reschedule_def split: if_splits)
next
  case (pop q e)
  then show ?case using queued_head [of q es] pop_ok(1) [of q e "tl es"] by (cases es) auto
next
  case (delete e q q')
  then show ?case using queued_auto_delete by blast
next
  case (squash q e)
  then show ?case using queued_upd_flags [of q es ev_squash e]
    by (auto simp: ev_squash_def ev_scheduled_def ev_flag_defs flag_simps)
next
  case (unsquash q e)
  then show ?case using queued_upd_flags [of q es "\<lambda>e. e\<lparr>ev_flags := flags_clear (ev_flags e) EV_Squashed\<rparr>" e]
    by (auto simp: ev_scheduled_def ev_flag_defs flag_simps)
next
  case (unserialize curTick e cp q q')
  then show ?case using unserialize_queued by blast
next
  case (clearAllFlags q e)
  then show ?case using queued_upd_flags [of q es ev_clearAllFlags e]
    by (auto simp: ev_clearAllFlags_def ev_scheduled_def ev_flag_defs flag_simps)
next
  case (setFlags f q e x)
  then show ?case using queued_put_flags [where q = q and es = es and x = x and e = e] public_flags_scheduled(1)
    by (auto simp: ev_setFlags_def ev_scheduled_def guard_res_def split: if_splits)
next
  case (clearFlags f q e x)
  then show ?case using queued_put_flags [where q = q and es = es and x = x and e = e] public_flags_scheduled(2)
    by (auto simp: ev_clearFlags_def ev_scheduled_def guard_res_def split: if_splits)
qed

lemma eq_steps_queued: "eq_step\<^sup>*\<^sup>* q q' \<Longrightarrow> queued q es \<Longrightarrow> \<exists>es'. queued q' es'"
  by (induction rule: rtranclp_induct) (auto dest: eq_step_queued)

lemma queued_new: "\<forall>x. \<not> ev_scheduled (st x) \<Longrightarrow> queued (EventQueue_new st m) []"
  by (auto simp: queued_def binned_def EventQueue_new_def intro!: exI [where x = "[]"])

text \<open>If what an event does is a sequence of such steps, then so is its service.\<close>

lemma serviceOne_steps:
  assumes "\<And>e q q'. process e q = Inr q' \<Longrightarrow> eq_step\<^sup>*\<^sup>* q q'" "serviceOne process q = Inr (r, q')"
  shows "eq_step\<^sup>*\<^sup>* q q'"
proof -
  obtain e where e: "eq_head q = Some e" using assms(2) by (auto simp: serviceOne_def split: option.splits)
  have pop: "eq_step\<^sup>*\<^sup>* q (eq_pop e q)" using e by (auto intro: eq_step.pop)
  show ?thesis
  proof (cases "ev_squashed (eq_store (eq_pop e q) e)")
    case True
    then have "auto_delete e (upd_event e (\<lambda>e. e\<lparr>ev_flags := flags_clear (ev_flags e) EV_Squashed\<rparr>) (eq_pop e q)) = Inr q'"
      using assms(2) e by (auto simp: serviceOne_def Let_def res_simps)
    then show ?thesis using pop eq_step.unsquash eq_step.delete by (meson rtranclp.rtrancl_into_rtrancl)
  next
    case False
    then obtain q1 where q1: "process e (eq_pop e q) = Inr q1" "q' = q1 \<or> auto_delete e q1 = Inr q'"
      using assms(2) e by (auto simp: serviceOne_def guard_res_def Let_def res_simps split: if_splits)
    have "eq_step\<^sup>*\<^sup>* q q1" using pop assms(1) [OF q1(1)] by simp
    then show ?thesis using q1(2) eq_step.delete by (meson rtranclp.rtrancl_into_rtrancl)
  qed
qed

section \<open>Service of all that is due\<close>

definition num_due :: "Tick \<Rightarrow> EventQueue \<Rightarrow> nat list \<Rightarrow> nat" where
  "num_due t q es = length (filter (\<lambda>x. ev_when (eq_store q x) \<le> t) es)"

text \<open>An event that ends the simulation is not deleted by the queue.\<close>

definition exits_kept :: "EventQueue \<Rightarrow> bool" where
  "exits_kept q \<longleftrightarrow> (\<forall>x. ev_isExitEvent (eq_store q x) \<longrightarrow> \<not> flags_isSet (ev_flags (eq_store q x)) EV_AutoDelete)"

text \<open>
  What an event does may change the queue as it likes, as long as it does not fail and leaves no
  more events due by \<open>t\<close> than it found.
\<close>

definition settles :: "Tick \<Rightarrow> (nat \<Rightarrow> EventQueue \<Rightarrow> EventQueue res) \<Rightarrow> bool" where
  "settles t process \<longleftrightarrow> (\<forall>e q es. queued q es \<longrightarrow> exits_kept q \<longrightarrow>
     (\<exists>q' es'. process e q = Inr q' \<and> queued q' es' \<and> exits_kept q' \<and> num_due t q' es' \<le> num_due t q es))"

lemma num_due_key: "num_due t q es = length (filter (\<lambda>x. fst (ev_key (eq_store q x)) \<le> t) es)"
  by (simp add: num_due_def ev_key_def)

lemma eq_pop_flags:
  "ev_flags (eq_store (eq_pop e q) x) = (if x = e then flags_clear (ev_flags (eq_store q e)) EV_Scheduled else ev_flags (eq_store q x))"
  by (simp add: eq_pop_def Let_def split: option.split)

lemma exits_kept_pop: "exits_kept q \<Longrightarrow> exits_kept (eq_pop e q)"
  by (simp add: exits_kept_def ev_isExitEvent_def eq_pop_flags ev_flag_defs flag_simps)

lemma auto_delete_settles:
  assumes "queued q es" "exits_kept q"
  shows "\<exists>q'. auto_delete e q = Inr q' \<and> queued q' es \<and> exits_kept q' \<and> num_due t q' es = num_due t q es"
proof -
  obtain q' where q': "auto_delete e q = Inr q'" using auto_delete_total by blast
  have "q' = q \<or> q' = upd_event e (\<lambda>x. x\<lparr>ev_flags := 0\<rparr>) q"
    using q' by (auto simp: auto_delete_def ev_delete_def guard_res_def Let_def upd_event_def split: if_splits)
  then have "exits_kept q'" "num_due t q' es = num_due t q es"
    using assms(2) by (auto simp: exits_kept_def ev_isExitEvent_def num_due_def intro!: arg_cong [where f = length] filter_cong split: if_splits)
  then show ?thesis using q' queued_auto_delete [OF assms(1) q'] by blast
qed

lemma serviceOne_settles:
  assumes q: "queued q (e # es)" "exits_kept q" and p: "settles t process"
  shows "\<exists>r q' es'. serviceOne process q = Inr (r, q') \<and> queued q' es' \<and> exits_kept q' \<and> num_due t q' es' \<le> num_due t q es"
proof -
  let ?q = "eq_pop e q"
  have h: "eq_head q = Some e" using queued_head [OF q(1)] by simp
  have pop: "queued ?q es" "exits_kept ?q" "num_due t ?q es = num_due t q es"
    using pop_ok(1) [OF q(1)] exits_kept_pop [OF q(2)] eventq.pop_due [OF q(1), of "\<lambda>k. fst k \<le> t"]
    by (simp_all add: num_due_key)
  show ?thesis
  proof (cases "ev_squashed (eq_store ?q e)")
    case True
    let ?r = "upd_event e (\<lambda>e. e\<lparr>ev_flags := flags_clear (ev_flags e) EV_Squashed\<rparr>) ?q"
    have "queued ?r es" by (rule queued_upd_flags [OF pop(1)]) (simp_all add: ev_scheduled_def ev_flag_defs flag_simps)
    moreover have "exits_kept ?r" using pop(2) by (simp add: exits_kept_def ev_isExitEvent_def ev_flag_defs flag_simps)
    ultimately obtain q' where "auto_delete e ?r = Inr q'" "queued q' es" "exits_kept q'" "num_due t q' es = num_due t ?r es"
      using auto_delete_settles by blast
    moreover have "num_due t ?r es = num_due t ?q es"
      by (auto simp: num_due_def intro!: arg_cong [where f = length] filter_cong)
    ultimately show ?thesis using True h pop(3) by (auto simp: serviceOne_def Let_def)
  next
    case False
    obtain q1 es1 where q1: "process e ?q = Inr q1" "queued q1 es1" "exits_kept q1" "num_due t q1 es1 \<le> num_due t ?q es"
      using p pop(1,2) unfolding settles_def by blast
    obtain q2 where q2: "auto_delete e q1 = Inr q2" "queued q2 es1" "exits_kept q2" "num_due t q2 es1 = num_due t q1 es1"
      using auto_delete_settles [OF q1(2,3)] by blast
    have "\<not> flags_isSet (ev_flags (eq_store q1 e)) EV_AutoDelete" if "ev_isExitEvent (eq_store q1 e)"
      using q1(3) that by (simp add: exits_kept_def)
    then have "serviceOne process q = Inr (if ev_isExitEvent (eq_store q1 e) then (Some e, q1) else (None, q2))"
      using False h q1(1) q2(1) by (simp add: serviceOne_def Let_def guard_res_def)
    then show ?thesis using q1 q2 pop(3) by (cases "ev_isExitEvent (eq_store q1 e)") auto
  qed
qed

lemma serviceEvents_settles:
  assumes "queued q es" "exits_kept q" "settles t process"
  shows "\<exists>q' es'. serviceEvents process t q = Some (Inr q') \<and> queued q' es' \<and> (\<forall>x \<in> set es'. t < ev_when (eq_store q' x))"
  using assms(1,2)
proof (induction "num_due t q es" arbitrary: q es rule: less_induct)
  case less
  show ?case
  proof (cases es)
    case Nil
    then have "serviceEvents process t q = Some (Inr q)" using queued_head [OF less.prems(1)] by (simp add: serviceEvents.simps)
    then show ?thesis using less.prems(1) Nil by (intro exI [of _ q] exI [of _ es]) simp
  next
    case (Cons e es')
    have h: "eq_head q = Some e" using queued_head [OF less.prems(1)] Cons by simp
    show ?thesis
    proof (cases "t < ev_when (eq_store q e)")
      case True
      have "t < ev_when (eq_store q x)" if "x \<in> set es" for x
        using eventq.top_min(2) [OF less.prems(1) h that] True by (auto simp: ev_key_def)
      moreover have "serviceEvents process t q = Some (Inr q)" using h True by (simp add: serviceEvents.simps)
      ultimately show ?thesis using less.prems(1) by blast
    next
      case False
      obtain r q1 es1 where s: "serviceOne process q = Inr (r, q1)" "queued q1 es1" "exits_kept q1" "num_due t q1 es1 \<le> num_due t q es'"
        using serviceOne_settles [OF less.prems(1) [unfolded Cons] less.prems(2) assms(3)] by blast
      have "num_due t q1 es1 < num_due t q es" using s(4) False Cons by (simp add: num_due_def)
      then obtain q' es2 where "serviceEvents process t q1 = Some (Inr q')" "queued q' es2" "\<forall>x \<in> set es2. t < ev_when (eq_store q' x)"
        using less.hyps [OF _ s(2,3)] by blast
      moreover have "serviceEvents process t q = serviceEvents process t q1"
        using h False s(1) by (subst serviceEvents.simps) simp
      ultimately show ?thesis by auto
    qed
  qed
qed

section \<open>The properties of the queue\<close>

text \<open>
  C22: Scheduling an event that is initialised and not scheduled, for a time that is not before
  the current one as an unsigned number, always returns.  The queue then stands for the old list
  with the event put before all those that are due no earlier, so the events of one time and
  priority are a stack; nothing else about any other event changes.
\<close>

theorem schedule_refines_list:
  assumes "queued q es" "\<not> ev_scheduled (eq_store q e)" "ev_initialized (eq_store q e)"
    "(word_of_int curTick :: 64 word) \<le> word_of_int t"
  shows "\<exists>q'. eq_schedule curTick e t q = Some (Inr q') \<and> queued q' (enlist (\<lambda>x. ev_key (eq_store q' x)) e es) \<and>
     ev_when (eq_store q' e) = t \<and> ev_priority (eq_store q' e) = ev_priority (eq_store q e) \<and> untouched {e} q q'"
  using assms by (rule schedule_ok)

text \<open>A queue of three events, two of them at one time; the \<open>nextBin\<close> of the lower one is stale.\<close>

definition sample_store :: ev_store where
  "sample_store x =
     (if x = 1 then \<lparr>ev_nextBin = None, ev_nextInBin = None, ev_when = 10, ev_priority = 0, ev_flags = 0x7a62\<rparr>
      else if x = 2 then \<lparr>ev_nextBin = Some 3, ev_nextInBin = Some 1, ev_when = 10, ev_priority = 0, ev_flags = 0x7a62\<rparr>
      else if x = 3 then \<lparr>ev_nextBin = None, ev_nextInBin = None, ev_when = 20, ev_priority = 0, ev_flags = 0x7a62\<rparr>
      else Event_new 0 0)"

definition sample_queue :: EventQueue where
  "sample_queue = \<lparr>eq_head = Some 2, eq_store = sample_store, eq_isMain = True\<rparr>"

lemma sample_queued: "queued sample_queue [2, 1, 3]"
proof -
  have "binned sample_queue [[2, 1], [3]]"
    by (auto simp: binned_def sample_queue_def sample_store_def bins_ok.simps ev_key_def)
  moreover have "ev_scheduled (sample_store x) \<longleftrightarrow> x \<in> {2, 1, 3}" for x
    by (simp add: sample_store_def Event_new_def ev_scheduled_def ev_flag_defs flags_isSet_def)
  ultimately show ?thesis unfolding queued_def by (intro exI [of _ "[[2, 1], [3]]"]) (simp add: sample_queue_def)
qed

lemma sample_flags:
  "ev_initialized (eq_store sample_queue 1)" "ev_scheduled (eq_store sample_queue 1)"
  "ev_initialized (eq_store sample_queue 4)" "\<not> ev_scheduled (eq_store sample_queue 4)"
  "exits_kept sample_queue"
  by (simp_all add: sample_queue_def sample_store_def Event_new_def exits_kept_def ev_isExitEvent_def ev_scheduled_def
      ev_initialized_def ev_flag_defs flags_isSet_def)

lemma sample_keys:
  assumes "untouched {e} sample_queue q"
  shows "e \<noteq> 1 \<Longrightarrow> ev_key (eq_store q 1) = (10, 0)" "e \<noteq> 2 \<Longrightarrow> ev_key (eq_store q 2) = (10, 0)"
    "e \<noteq> 3 \<Longrightarrow> ev_key (eq_store q 3) = (20, 0)"
  using untouched_key [OF assms] by (simp_all add: sample_queue_def sample_store_def ev_key_def)

theorem schedule_refines_list_witness:
  "\<exists>q'. eq_schedule 5 4 20 sample_queue = Some (Inr q') \<and> queued q' [2, 1, 4, 3]"
proof -
  obtain q' where q': "eq_schedule 5 4 20 sample_queue = Some (Inr q')" "queued q' (enlist (\<lambda>x. ev_key (eq_store q' x)) 4 [2, 1, 3])"
    "ev_when (eq_store q' 4) = 20" "ev_priority (eq_store q' 4) = ev_priority (eq_store sample_queue 4)" "untouched {4} sample_queue q'"
    using schedule_refines_list [OF sample_queued sample_flags(4,3), of 5 20] by auto
  have "ev_key (eq_store q' 4) = (20, 0)" using q'(3,4) by (simp add: ev_key_def sample_queue_def sample_store_def Event_new_def)
  then show ?thesis using q'(1,2) sample_keys [OF q'(5)] by (simp add: enlist_def)
qed

text \<open>
  Descheduling a scheduled event always returns, however deep the event is in its bin: no
  panic and no endless search.  The queue then stands for the old list without the event, and no
  other event changes.
\<close>

theorem deschedule_refines_list:
  assumes "queued q es" "ev_scheduled (eq_store q e)" "ev_initialized (eq_store q e)"
  shows "\<exists>q'. eq_deschedule e q = Some (Inr q') \<and> queued q' (remove1 e es) \<and> untouched {e} q q'"
  using assms by (rule deschedule_ok)

theorem deschedule_refines_list_witness: "\<exists>q'. eq_deschedule 1 sample_queue = Some (Inr q') \<and> queued q' [2, 3]"
  using deschedule_refines_list [OF sample_queued sample_flags(2,1)] by auto

text \<open>
  Rescheduling to a time that is not past always returns, for a scheduled event and, with
  \<open>always\<close>, for any initialised one: the queue stands for the list with the event moved to its
  new place.
\<close>

theorem reschedule_refines_list:
  assumes "queued q es" "always \<or> ev_scheduled (eq_store q e)" "ev_initialized (eq_store q e)" "curTick \<le> t"
  shows "\<exists>q'. eq_reschedule curTick e t always q = Some (Inr q') \<and>
     queued q' (enlist (\<lambda>x. ev_key (eq_store q' x)) e (remove1 e es)) \<and>
     ev_when (eq_store q' e) = t \<and> ev_priority (eq_store q' e) = ev_priority (eq_store q e) \<and> untouched {e} q q'"
  using assms by (rule reschedule_ok)

theorem reschedule_refines_list_witness:
  "\<exists>q'. eq_reschedule 5 1 30 False sample_queue = Some (Inr q') \<and> queued q' [2, 3, 1]"
proof -
  obtain q' where q': "eq_reschedule 5 1 30 False sample_queue = Some (Inr q')"
    "queued q' (enlist (\<lambda>x. ev_key (eq_store q' x)) 1 [2, 3])"
    "ev_when (eq_store q' 1) = 30" "ev_priority (eq_store q' 1) = ev_priority (eq_store sample_queue 1)" "untouched {1} sample_queue q'"
    using reschedule_refines_list [OF sample_queued disjI2 [OF sample_flags(2)] sample_flags(1), of 5 30 False] by auto
  have "ev_key (eq_store q' 1) = (30, 0)" using q'(3,4) by (simp add: ev_key_def sample_queue_def sample_store_def)
  then show ?thesis using q'(1,2) sample_keys [OF q'(5)] by (simp add: enlist_def)
qed

text \<open>
  C23: In every state of a queue that any sequence of calls, services and changes of flags can
  lead to, the walk over the bins ends and finds every scheduled event once, in the order of time
  and priority; every initialised scheduled event can be descheduled; and the self check of the
  queue returns true exactly if its first event is not before tick 0, priority 0, where the check
  starts to compare.
\<close>

theorem event_queue_reachable:
  assumes "\<forall>x. \<not> ev_scheduled (st x)" "eq_step\<^sup>*\<^sup>* (EventQueue_new st main) q"
  shows "\<exists>es. walk_bins (eq_store q) (eq_head q) = Some es \<and> distinct es \<and> set es = {x. ev_scheduled (eq_store q x)} \<and>
     sorted (map (\<lambda>x. ev_key (eq_store q x)) es) \<and>
     (\<forall>e \<in> set es. ev_initialized (eq_store q e) \<longrightarrow> (\<exists>q'. eq_deschedule e q = Some (Inr q'))) \<and>
     debugVerify q = Some (es \<noteq> [] \<longrightarrow> (0, 0) \<le> ev_key (eq_store q (hd es)))"
proof -
  obtain es where es: "queued q es" using eq_steps_queued [OF assms(2) queued_new [OF assms(1)]] by blast
  have "\<exists>q'. eq_deschedule e q = Some (Inr q')" if "e \<in> set es" "ev_initialized (eq_store q e)" for e
    using deschedule_ok [OF es] queued_scheduled [OF es] that by blast
  then show ?thesis
    using queued_walk [OF es] queued_distinct [OF es] queued_scheduled [OF es] queued_sorted [OF es] debugVerify_queued [OF es] by blast
qed

theorem event_queue_reachable_witness:
  "\<exists>q es. eq_schedule 0 1 7 (EventQueue_new (\<lambda>_. Event_new 0 0) True) = Some (Inr q) \<and>
     walk_bins (eq_store q) (eq_head q) = Some es \<and> distinct es \<and> set es = {x. ev_scheduled (eq_store q x)}"
proof -
  let ?st = "\<lambda>_::nat. Event_new 0 0"
  have st: "\<forall>x. \<not> ev_scheduled (?st x)" "ev_initialized (?st 1)"
    by (simp_all add: Event_new_def ev_scheduled_def ev_initialized_def ev_flag_defs flags_isSet_def)
  obtain q where q: "eq_schedule 0 1 7 (EventQueue_new ?st True) = Some (Inr q)"
    using schedule_ok [OF queued_new [OF st(1), of True], of 1 0 7] st by (auto simp: EventQueue_new_def)
  then have "eq_step\<^sup>*\<^sup>* (EventQueue_new ?st True) q" by (blast intro: eq_step.schedule)
  from event_queue_reachable [OF st(1) this] q show ?thesis by blast
qed

text \<open>
  C24: \<open>serviceEvents\<close> returns, and leaves no event that is due, whatever the events do to the
  queue, as long as what they do does not fail, sets no event that ends the simulation to be
  deleted, and leaves no more events due than it finds.
\<close>

theorem serviceEvents_returns:
  assumes "queued q es" "exits_kept q" "settles t process"
  shows "\<exists>q' es'. serviceEvents process t q = Some (Inr q') \<and> queued q' es' \<and> (\<forall>x \<in> set es'. t < ev_when (eq_store q' x))"
  using assms by (rule serviceEvents_settles)

theorem serviceEvents_returns_witness:
  "\<exists>q' es'. serviceEvents (\<lambda>e q. Inr q) 10 sample_queue = Some (Inr q') \<and> queued q' es' \<and> (\<forall>x \<in> set es'. 10 < ev_when (eq_store q' x))"
proof (rule serviceEvents_returns [OF sample_queued sample_flags(5)])
  show "settles 10 (\<lambda>e q. Inr q)" unfolding settles_def by auto
qed

end
