(* ===== verification/Range_Map.thy ===== *)
theory Range_Map
  imports Prelude
begin

text \<open>
  Address ranges, \<open>base/range.hh\<close>, and the map from ranges to values, \<open>base/range_map.hh\<close>.  Both
  ends of a range belong to it.  The underlying \<open>std::map\<close> orders ranges by their start, so it is
  an association list in that order, with one range per start.  An iterator is the pair it
  points to, and \<open>end()\<close> is \<open>None\<close>.

  \<open>find\<close> of an empty map reads the pair behind \<open>end()\<close>, but returns \<open>end()\<close> whatever it finds
  there.
\<close>

section \<open>Ranges\<close>

record range =
  rg_start :: Addr
  rg_end :: Addr

definition Range_invalid :: range where
  "Range_invalid = \<lparr>rg_start = 1, rg_end = 0\<rparr>"

definition range_size :: "range \<Rightarrow> Addr" where
  "range_size r = rg_end r - rg_start r + 1"

definition range_valid :: "range \<Rightarrow> bool" where
  "range_valid r \<longleftrightarrow> rg_start r < rg_end r"

definition RangeEx :: "Addr \<Rightarrow> Addr \<Rightarrow> range" where
  "RangeEx s e = \<lparr>rg_start = s, rg_end = e - 1\<rparr>"

definition RangeIn :: "Addr \<Rightarrow> Addr \<Rightarrow> range" where
  "RangeIn s e = \<lparr>rg_start = s, rg_end = e\<rparr>"

definition RangeSize :: "Addr \<Rightarrow> Addr \<Rightarrow> range" where
  "RangeSize s n = \<lparr>rg_start = s, rg_end = s + n - 1\<rparr>"

definition range_less :: "range \<Rightarrow> range \<Rightarrow> bool" where
  "range_less a b \<longleftrightarrow> rg_start a < rg_start b"

definition in_range :: "Addr \<Rightarrow> range \<Rightarrow> bool" where
  "in_range a r \<longleftrightarrow> a \<ge> rg_start r \<and> a \<le> rg_end r"

section \<open>The map\<close>

type_synonym 'v range_map = "(range \<times> 'v) list"

text \<open>The test of \<open>find\<close>: the range at the iterator meets the one looked for.\<close>

definition meets :: "range \<Rightarrow> range \<Rightarrow> bool" where
  "meets x r \<longleftrightarrow> rg_start x \<le> rg_end r \<and> rg_end x \<ge> rg_start r"

definition rm_find :: "range \<Rightarrow> 'v range_map \<Rightarrow> (range \<times> 'v) option" where
  "rm_find r t =
     (let before = takeWhile (\<lambda>x. \<not> range_less r (fst x)) t
      in if before = []
         then (case t of [] \<Rightarrow> None | i # _ \<Rightarrow> if meets (fst i) r then Some i else None)
         else let i = last before in if meets (fst i) r then Some i else None)"

definition rm_find_pos :: "Addr \<Rightarrow> 'v range_map \<Rightarrow> (range \<times> 'v) option" where
  "rm_find_pos a t = rm_find (RangeSize a 1) t"

definition rm_intersect :: "range \<Rightarrow> 'v range_map \<Rightarrow> bool" where
  "rm_intersect r t \<longleftrightarrow> rm_find r t \<noteq> None"

text \<open>\<open>std::map::insert\<close> keeps what is there under the same start.\<close>

fun tree_insert :: "range \<Rightarrow> 'v \<Rightarrow> 'v range_map \<Rightarrow> 'v range_map" where
  "tree_insert r d [] = [(r, d)]"
| "tree_insert r d (x # t) =
     (if range_less r (fst x) then (r, d) # x # t
      else if range_less (fst x) r then x # tree_insert r d t
      else x # t)"

text \<open>The map after an insertion, \<open>None\<close> if it returned \<open>end()\<close>.\<close>

definition rm_insert :: "range \<Rightarrow> 'v \<Rightarrow> 'v range_map \<Rightarrow> 'v range_map option" where
  "rm_insert r d t = (if rm_intersect r t then None else Some (tree_insert r d t))"

section \<open>Maps of disjoint ranges\<close>

text \<open>Ranges in order, each ending before the next one starts.\<close>

fun rm_ok :: "'v range_map \<Rightarrow> bool" where
  "rm_ok [] \<longleftrightarrow> True"
| "rm_ok (x # t) \<longleftrightarrow> rg_start (fst x) \<le> rg_end (fst x) \<and> (\<forall>y \<in> set t. rg_end (fst x) < rg_start (fst y)) \<and> rm_ok t"

lemma rm_ok_nonempty: "rm_ok t \<Longrightarrow> x \<in> set t \<Longrightarrow> rg_start (fst x) \<le> rg_end (fst x)"
  by (induction t) auto

lemma RangeSize_one [simp]: "rg_start (RangeSize a 1) = a" "rg_end (RangeSize a 1) = a"
  by (simp_all add: RangeSize_def)

lemma meets_pos: "meets x (RangeSize a 1) = in_range a x"
  by (auto simp: meets_def in_range_def)

text \<open>An address lies in one range at most.\<close>

lemma in_range_unique: "rm_ok t \<Longrightarrow> x \<in> set t \<Longrightarrow> y \<in> set t \<Longrightarrow> in_range a (fst x) \<Longrightarrow> in_range a (fst y) \<Longrightarrow> x = y"
proof (induction t)
  case (Cons z t)
  have no: False if "w \<in> set t" "in_range a (fst z)" "in_range a (fst w)" for w
  proof -
    have "rg_end (fst z) < rg_start (fst w)" using Cons.prems(1) that(1) by simp
    then show False using that(2,3) by (meson in_range_def leD order_trans)
  qed
  consider "x = z" "y = z" | "x = z" "y \<in> set t" | "x \<in> set t" "y = z" | "x \<in> set t" "y \<in> set t" using Cons.prems(2,3) by auto
  then show ?case using no Cons.prems Cons.IH by cases (blast, blast, blast, simp)
qed simp

lemma rm_find_pos_member: "rm_find_pos a t = Some x \<Longrightarrow> x \<in> set t \<and> in_range a (fst x)"
proof -
  assume f: "rm_find_pos a t = Some x"
  let ?b = "takeWhile (\<lambda>x. \<not> range_less (RangeSize a 1) (fst x)) t"
  show ?thesis
  proof (cases "?b = []")
    case True
    then show ?thesis using f by (auto simp: rm_find_pos_def rm_find_def meets_pos split: list.splits if_splits)
  next
    case False
    then have "last ?b \<in> set t" using set_takeWhileD last_in_set by metis
    then show ?thesis using f False by (auto simp: rm_find_pos_def rm_find_def Let_def meets_pos split: if_splits)
  qed
qed

lemma last_takeWhile_max:
  assumes "rm_ok t" "x \<in> set t" "rg_start (fst x) \<le> a" "a \<le> rg_end (fst x)"
  shows "takeWhile (\<lambda>y. rg_start (fst y) \<le> a) t \<noteq> [] \<and> last (takeWhile (\<lambda>y. rg_start (fst y) \<le> a) t) = x"
  using assms
proof (induction t)
  case (Cons z t)
  show ?case
  proof (cases "x = z")
    case True
    have "takeWhile (\<lambda>y. rg_start (fst y) \<le> a) t = []"
      using Cons.prems(1,4) True by (cases t) auto
    then show ?thesis using True Cons.prems(3) by simp
  next
    case False
    then have x: "x \<in> set t" using Cons.prems(2) by simp
    then have "rg_end (fst z) < rg_start (fst x)" using Cons.prems(1) by simp
    then have "rg_start (fst z) \<le> a" using Cons.prems(1,3) by (meson less_imp_le order_trans rm_ok.simps(2))
    then show ?thesis using Cons.IH x Cons.prems by simp
  qed
qed simp

lemma rm_find_pos_iff: "rm_ok t \<Longrightarrow> rm_find_pos a t = Some x \<longleftrightarrow> x \<in> set t \<and> in_range a (fst x)"
proof
  assume ok: "rm_ok t" and x: "x \<in> set t \<and> in_range a (fst x)"
  have "(\<lambda>y. \<not> range_less (RangeSize a 1) (fst y)) = (\<lambda>y::range \<times> 'a. rg_start (fst y) \<le> a)"
    by (auto simp: range_less_def)
  then show "rm_find_pos a t = Some x"
    using last_takeWhile_max [OF ok, of x a] x by (simp add: rm_find_pos_def rm_find_def Let_def meets_pos in_range_def)
qed (rule rm_find_pos_member)

lemma set_tree_insert: "set (tree_insert r d t) \<subseteq> insert (r, d) (set t)"
  by (induction t) auto

lemma rm_ok_tree_insert:
  assumes "rm_ok t" "rg_start r \<le> rg_end r" "\<forall>x \<in> set t. \<not> meets (fst x) r"
  shows "rm_ok (tree_insert r d t)" "(r, d) \<in> set (tree_insert r d t)" "set t \<subseteq> set (tree_insert r d t)"
proof -
  have "rm_ok (tree_insert r d t) \<and> (r, d) \<in> set (tree_insert r d t) \<and> set t \<subseteq> set (tree_insert r d t)"
    using assms
  proof (induction t)
    case (Cons x t)
    have x: "rg_start (fst x) \<le> rg_end (fst x)" "\<forall>y \<in> set t. rg_end (fst x) < rg_start (fst y)" using Cons.prems(1) by simp_all
    have dis: "\<not> meets (fst x) r" using Cons.prems(3) by simp
    consider "rg_start r < rg_start (fst x)" | "rg_start (fst x) < rg_start r" | "rg_start r = rg_start (fst x)" by (rule linorder_cases)
    then show ?case
    proof cases
      case 1
      then have e: "rg_end r < rg_start (fst x)" using dis x(1) by (auto simp: meets_def)
      then have "\<forall>y \<in> set t. rg_end r < rg_start (fst y)" using x by fastforce
      then show ?thesis using 1 e Cons.prems by (auto simp: range_less_def)
    next
      case 2
      have "rg_end (fst x) < rg_start r" using 2 dis Cons.prems(2) by (auto simp: meets_def)
      then show ?thesis using 2 x Cons set_tree_insert [of r d t] by (auto simp: range_less_def)
    next
      case 3
      then show ?thesis using dis x(1) Cons.prems(2) by (auto simp: meets_def)
    qed
  qed simp
  then show "rm_ok (tree_insert r d t)" "(r, d) \<in> set (tree_insert r d t)" "set t \<subseteq> set (tree_insert r d t)" by blast+
qed

lemma rm_find_meets: "rm_find r t = Some x \<Longrightarrow> x \<in> set t \<and> meets (fst x) r"
proof -
  assume f: "rm_find r t = Some x"
  let ?b = "takeWhile (\<lambda>x. \<not> range_less r (fst x)) t"
  show ?thesis
  proof (cases "?b = []")
    case True
    then show ?thesis using f by (auto simp: rm_find_def split: list.splits if_splits)
  next
    case False
    then have "last ?b \<in> set t" using set_takeWhileD last_in_set by metis
    then show ?thesis using f False by (auto simp: rm_find_def Let_def split: if_splits)
  qed
qed

lemma rm_insert_disjoint:
  assumes "rm_ok t" "rg_start r \<le> rg_end r" "\<forall>x \<in> set t. \<not> meets (fst x) r"
  shows "rm_insert r d t = Some (tree_insert r d t)"
  using assms(3) rm_find_meets [of r t] by (auto simp: rm_insert_def rm_intersect_def)

lemma rm_ok_filter: "rm_ok t \<Longrightarrow> rm_ok (filter P t)"
  by (induction t) auto

text \<open>
  An insertion only compares with the range before the new one: a range that starts before
  another and reaches into it is put into the map.
\<close>

lemma rm_insert_overlap:
  "rm_insert (RangeIn 25 35) (3::int) [(RangeIn 10 20, 1), (RangeIn 30 40, 2)] =
     Some [(RangeIn 10 20, 1), (RangeIn 25 35, 3), (RangeIn 30 40, 2)] \<and> meets (RangeIn 25 35) (RangeIn 30 40)"
  by (simp add: rm_insert_def rm_intersect_def rm_find_def range_less_def meets_def RangeIn_def)

end
