(* ===== verification/Bus.thy ===== *)
theory Bus
  imports Packet Range_Map "HOL-Library.Signed_Division"
begin

text \<open>
  The bus between the caches and memory, \<open>mem/bus.{hh,cc}\<close>: the routing of addresses to ports with
  its small caches, the timing of packets, arbitration with the list of ports that wait for a
  retry, snoops, and the atomic and functional paths.

  A \<open>BusPort\<close> is its identifier, since every port has one of its own; what a port keeps,
  whether it is on the retry list, is in the map of the interfaces.  An identifier that is not in
  that map is a null pointer, and using it is undefined.  The peers of the ports are an
  argument: what \<open>sendTiming\<close>, \<open>sendAtomic\<close> and \<open>sendFunctional\<close> of a port do to a packet and to
  the rest of the system \<open>'w\<close>, and the packet that a peer sends when it is told to retry.  A
  peer does not call this bus back while it handles a packet.  The event \<open>busIdle\<close> is
  the tick it is scheduled for.
\<close>

section \<open>State\<close>

record PortCache =
  pc_valid :: bool
  pc_id :: int
  pc_start :: Addr
  pc_end :: Addr

record BusCache =
  bc_valid :: bool
  bc_id :: int
  bc_port :: int

record Bus =
  clock :: int
  headerCycles :: int
  width :: int
  tickNextIdle :: Tick
  drainEvent :: "nat option"
  portMap :: "int range_map"
  defaultRange :: "range list"
  snoopPorts :: "int list"
  portCache :: "PortCache list"
  busIdle :: "Tick option"
  inRetry :: bool
  inRecvStatusChange :: "int set"
  maxId :: int
  interfaces :: "int \<Rightarrow> bool option"
  retryList :: "int list"
  defaultPort :: "bool option"
  funcPort :: bool
  funcPortId :: int
  responderSet :: bool
  defaultBlockSize :: nat
  cachedBlockSize :: nat
  cachedBlockSizeValid :: bool
  busCache :: "BusCache list"

definition defaultId :: int where "defaultId = -3"

section \<open>Ports\<close>

text \<open>The flag of the port behind a pointer.\<close>

definition onRetryList :: "int \<Rightarrow> Bus \<Rightarrow> bool res" where
  "onRetryList p b =
     (case (if p = defaultId then defaultPort b else interfaces b p) of None \<Rightarrow> Inl Undefined | Some f \<Rightarrow> Inr f)"

definition set_onRetryList :: "int \<Rightarrow> bool \<Rightarrow> Bus \<Rightarrow> Bus res" where
  "set_onRetryList p v b =
     (if p = defaultId
      then (case defaultPort b of None \<Rightarrow> Inl Undefined | Some _ \<Rightarrow> Inr (b\<lparr>defaultPort := Some v\<rparr>))
      else (case interfaces b p of None \<Rightarrow> Inl Undefined | Some _ \<Rightarrow> Inr (b\<lparr>interfaces := (interfaces b)(p \<mapsto> v)\<rparr>)))"

fun check_bus_cache :: "int \<Rightarrow> BusCache list \<Rightarrow> int option" where
  "check_bus_cache i [] = None"
| "check_bus_cache i (c # cs) = (if bc_valid c \<and> i = bc_id c then Some (bc_port c) else check_bus_cache i cs)"

definition checkBusCache :: "int \<Rightarrow> Bus \<Rightarrow> int option" where
  "checkBusCache i b = check_bus_cache i (busCache b)"

text \<open>The new entry comes first, and the last of the three is dropped.\<close>

definition updateBusCache :: "int \<Rightarrow> int \<Rightarrow> Bus \<Rightarrow> Bus" where
  "updateBusCache i p b = b\<lparr>busCache := \<lparr>bc_valid = True, bc_id = i, bc_port = p\<rparr> # butlast (busCache b)\<rparr>"

definition clearBusCache :: "Bus \<Rightarrow> Bus" where
  "clearBusCache b = b\<lparr>busCache := map (\<lambda>c. c\<lparr>bc_valid := False\<rparr>) (busCache b)\<rparr>"

text \<open>\<open>interfaces[id]\<close>, for an identifier that has a port.\<close>

definition interface :: "int \<Rightarrow> Bus \<Rightarrow> int res" where
  "interface i b = (if interfaces b i = None then Inl Undefined else Inr i)"

definition cached_port :: "int \<Rightarrow> Bus \<Rightarrow> (int \<times> Bus) res" where
  "cached_port i b =
     (if i = defaultId then Inr (defaultId, b)
      else (case checkBusCache i b of
              Some p \<Rightarrow> Inr (p, b)
            | None \<Rightarrow> bind_res (interface i b) (\<lambda>p. Inr (p, updateBusCache i p b))))"

definition plain_port :: "int \<Rightarrow> Bus \<Rightarrow> int res" where
  "plain_port i b = (if i = defaultId then Inr defaultId else interface i b)"

text \<open>Sending through the default port when none is connected dereferences a null pointer.\<close>

definition has_port :: "int \<Rightarrow> Bus \<Rightarrow> bool" where
  "has_port p b \<longleftrightarrow> (p = defaultId \<longrightarrow> defaultPort b \<noteq> None)"

text \<open>The ports a bus hands out; the name decides which.\<close>

datatype port_name = Default | Functional | Other

definition getPort :: "port_name \<Rightarrow> Bus \<Rightarrow> (int \<times> Bus) res" where
  "getPort n b =
     (case n of
        Default \<Rightarrow>
          if defaultPort b = None then Inr (defaultId, b\<lparr>defaultPort := Some False, cachedBlockSizeValid := False\<rparr>) else Inl Fatal
      | Functional \<Rightarrow>
          if funcPort b then Inr (funcPortId b, b)
          else Inr (maxId b, b\<lparr>maxId := maxId b + 1, funcPort := True, funcPortId := maxId b,
                 interfaces := (interfaces b)(maxId b \<mapsto> False)\<rparr>)
      | Other \<Rightarrow>
          guard_res AssertFail (maxId b + 1 < 0x7fff)
            (Inr (maxId b, b\<lparr>maxId := maxId b + 1, interfaces := (interfaces b)(maxId b \<mapsto> False), cachedBlockSizeValid := False\<rparr>)))"

definition deletePortRefs :: "int \<Rightarrow> Bus \<Rightarrow> Bus" where
  "deletePortRefs p b =
     (if funcPort b \<and> p = funcPortId b then b else clearBusCache (b\<lparr>interfaces := (interfaces b)(p := None)\<rparr>))"

section \<open>Routing\<close>

fun check_port_cache :: "Addr \<Rightarrow> PortCache list \<Rightarrow> int" where
  "check_port_cache a [] = -1"
| "check_port_cache a (c # cs) =
     (if pc_valid c \<and> a \<ge> pc_start c \<and> a < pc_end c then pc_id c else check_port_cache a cs)"

definition checkPortCache :: "Addr \<Rightarrow> Bus \<Rightarrow> int" where
  "checkPortCache a b = check_port_cache a (portCache b)"

definition updatePortCache :: "int \<Rightarrow> Addr \<Rightarrow> Addr \<Rightarrow> Bus \<Rightarrow> Bus" where
  "updatePortCache i s e b =
     b\<lparr>portCache := \<lparr>pc_valid = True, pc_id = i, pc_start = s, pc_end = e\<rparr> # butlast (portCache b)\<rparr>"

definition clearPortCache :: "Bus \<Rightarrow> Bus" where
  "clearPortCache b = b\<lparr>portCache := map (\<lambda>c. c\<lparr>pc_valid := False\<rparr>) (portCache b)\<rparr>"

definition findPort :: "Addr \<Rightarrow> Bus \<Rightarrow> (int \<times> Bus) res" where
  "findPort addr b =
     (let (dest_id, b) =
            (if checkPortCache addr b = -1
             then (case rm_find_pos addr (portMap b) of
                     None \<Rightarrow> (-1, b)
                   | Some (r, i) \<Rightarrow> (i, updatePortCache i (rg_start r) (rg_end r) b))
             else (checkPortCache addr b, b))
      in if dest_id = -1
         then if \<exists>r \<in> set (defaultRange b). in_range addr r then Inr (defaultId, b)
              else if responderSet b then Inl Panic
              else Inr (defaultId, b)
         else Inr (dest_id, b))"

section \<open>Timing and arbitration\<close>

definition calcPacketTiming :: "Tick \<Rightarrow> Packet \<Rightarrow> Bus \<Rightarrow> (Tick \<times> Packet \<times> Bus) res" where
  "calcPacketTiming curTick pkt b =
     (let b = (if tickNextIdle b < curTick
               then b\<lparr>tickNextIdle := (if curTick mod clock b \<noteq> 0 then curTick - curTick mod clock b + clock b else curTick)\<rparr>
               else b);
          headerTime = tickNextIdle b + headerCycles b * clock b
      in bind_res (if pkt_hasData pkt
                   then bind_res (getSize pkt) (\<lambda>sz. Inr (sint sz sdiv width b + (if sint sz smod width b \<noteq> 0 then 1 else 0)))
                   else Inr 0) (\<lambda>numCycles.
           Inr (headerTime, pkt\<lparr>p_firstWordTime := headerTime + clock b, p_finishTime := headerTime + numCycles * clock b\<rparr>, b)))"

definition bus_reschedule :: "Tick \<Rightarrow> Tick \<Rightarrow> Bus \<Rightarrow> Bus res" where
  "bus_reschedule curTick t b = guard_res AssertFail (t \<ge> curTick) (Inr (b\<lparr>busIdle := Some t\<rparr>))"

definition occupyBus :: "Tick \<Rightarrow> Tick \<Rightarrow> Bus \<Rightarrow> Bus res" where
  "occupyBus curTick until b = (if until = 0 then Inr b else bus_reschedule curTick until (b\<lparr>tickNextIdle := until\<rparr>))"

definition addToRetryList :: "int \<Rightarrow> Bus \<Rightarrow> Bus res" where
  "addToRetryList p b =
     bind_res (onRetryList p b) (\<lambda>on.
       if \<not> inRetry b
       then guard_res AssertFail (\<not> on) (bind_res (set_onRetryList p True b) (\<lambda>b. Inr (b\<lparr>retryList := retryList b @ [p]\<rparr>)))
       else if on
            then (case retryList b of
                    [] \<Rightarrow> Inl Undefined
                  | f # _ \<Rightarrow> guard_res AssertFail (p = f) (Inr (b\<lparr>inRetry := False\<rparr>)))
            else bind_res (set_onRetryList p True b) (\<lambda>b. Inr (b\<lparr>retryList := retryList b @ [p]\<rparr>)))"

text \<open>The front of the list leaves it, at the end of a retry.\<close>

definition pop_retry :: "Bus \<Rightarrow> Bus res" where
  "pop_retry b =
     (case retryList b of
        [] \<Rightarrow> Inl Undefined
      | p # ps \<Rightarrow> bind_res (set_onRetryList p False b) (\<lambda>b. Inr (b\<lparr>retryList := ps, inRetry := False\<rparr>)))"

type_synonym 'w send = "int \<Rightarrow> Packet \<Rightarrow> 'w \<Rightarrow> bool \<times> Packet \<times> 'w"

text \<open>The snoops of a broadcast: no cache may refuse one.\<close>

fun snoop_timing :: "'w send \<Rightarrow> int \<Rightarrow> int \<Rightarrow> int list \<Rightarrow> Packet \<Rightarrow> 'w \<Rightarrow> (Packet \<times> 'w) res" where
  "snoop_timing sendf dest src [] pkt w = Inr (pkt, w)"
| "snoop_timing sendf dest src (p # ps) pkt w =
     (if p \<noteq> dest \<and> p \<noteq> src
      then (case sendf p pkt w of (success, pkt, w) \<Rightarrow> guard_res AssertFail success (snoop_timing sendf dest src ps pkt w))
      else snoop_timing sendf dest src ps pkt w)"

text \<open>The port a packet goes to, after the snoops if it is a broadcast.\<close>

definition route_timing :: "'w send \<Rightarrow> int \<Rightarrow> int \<Rightarrow> Packet \<Rightarrow> Bus \<Rightarrow> 'w \<Rightarrow> (int \<times> Packet \<times> Bus \<times> 'w) res" where
  "route_timing sendf src src_port pkt b w =
     bind_res (getDest pkt) (\<lambda>dest.
       if dest = Broadcast
       then bind_res (getAddr pkt) (\<lambda>addr.
              bind_res (findPort addr b) (\<lambda>(dest_port_id, b).
                bind_res (plain_port dest_port_id b) (\<lambda>dest_port.
                  bind_res (snoop_timing sendf dest_port src_port (snoopPorts b) pkt w) (\<lambda>(pkt, w).
                    Inr (dest_port, pkt, b, w)))))
       else guard_res AssertFail (dest < maxId b) (guard_res AssertFail (dest \<noteq> src)
              (bind_res (plain_port dest b) (\<lambda>dest_port. Inr (dest_port, pkt, b, w)))))"

definition finish_timing :: "Tick \<Rightarrow> Tick \<Rightarrow> Bus \<Rightarrow> Bus res" where
  "finish_timing curTick until b =
     bind_res (occupyBus curTick until b) (\<lambda>b. if inRetry b then pop_retry b else Inr b)"

text \<open>What happens to a packet once it has the bus.\<close>

definition deliver :: "'w send \<Rightarrow> Tick \<Rightarrow> int \<Rightarrow> int \<Rightarrow> Packet \<Rightarrow> Bus \<Rightarrow> 'w \<Rightarrow> (bool \<times> Packet \<times> Bus \<times> 'w) res" where
  "deliver sendf curTick src src_port pkt b w =
     bind_res (if isExpressSnoop pkt then Inr (0, 0, pkt, b)
               else bind_res (calcPacketTiming curTick pkt b) (\<lambda>(header, pkt, b). Inr (header, p_finishTime pkt, pkt, b)))
       (\<lambda>(headerFinishTime, packetFinishTime, pkt, b).
     bind_res (getDest pkt) (\<lambda>dest.
     bind_res (route_timing sendf src src_port pkt b w) (\<lambda>(dest_port, pkt, b, w).
       if dest_port = src
       then guard_res AssertFail (dest = Broadcast)
              (bind_res (finish_timing curTick packetFinishTime b) (\<lambda>b. Inr (True, pkt, b, w)))
       else guard_res Undefined (has_port dest_port b) (case sendf dest_port pkt w of (accepted, pkt', w) \<Rightarrow>
              if accepted
              then bind_res (finish_timing curTick packetFinishTime b) (\<lambda>b. Inr (True, pkt', b, w))
              else guard_res AssertFail (\<not> pkt_isResponse pkt') (guard_res AssertFail (\<not> memInhibitAsserted pkt')
                     (bind_res (addToRetryList src_port b) (\<lambda>b.
                      bind_res (occupyBus curTick headerFinishTime b) (\<lambda>b. Inr (False, pkt', b, w)))))))))"

definition recvTiming :: "'w send \<Rightarrow> Tick \<Rightarrow> Packet \<Rightarrow> Bus \<Rightarrow> 'w \<Rightarrow> (bool \<times> Packet \<times> Bus \<times> 'w) res" where
  "recvTiming sendf curTick pkt b w =
     bind_res (getSrc pkt) (\<lambda>src.
     bind_res (cached_port src b) (\<lambda>(src_port, b).
       if \<not> isExpressSnoop pkt \<and>
          (tickNextIdle b > curTick \<or> (retryList b \<noteq> [] \<and> (\<not> inRetry b \<or> src_port \<noteq> hd (retryList b))))
       then bind_res (addToRetryList src_port b) (\<lambda>b. Inr (False, pkt, b, w))
       else deliver sendf curTick src src_port pkt b w))"

text \<open>\<open>BusPort::recvTiming\<close>: the port stamps its identifier on the packet.\<close>

definition port_recvTiming :: "'w send \<Rightarrow> int \<Rightarrow> Tick \<Rightarrow> Packet \<Rightarrow> Bus \<Rightarrow> 'w \<Rightarrow> (bool \<times> Packet \<times> Bus \<times> 'w) res" where
  "port_recvTiming sendf i curTick pkt b w = recvTiming sendf curTick (setSrc i pkt) b w"

text \<open>
  The loop that brings \<open>tickNextIdle\<close> up to the present; with a clock that is not positive it would
  not end, and the constructor refuses such a clock.
\<close>

function catch_up :: "int \<Rightarrow> Tick \<Rightarrow> Tick \<Rightarrow> Tick" where
  "catch_up clk curTick t = (if t < curTick \<and> 0 < clk then catch_up clk curTick (t + clk) else t)"
  by auto
termination by (relation "measure (\<lambda>(clk, curTick, t). nat (curTick - t))") auto

text \<open>The packet that a peer sends when it is told to retry, if it sends one.\<close>

type_synonym 'w retry = "int \<Rightarrow> 'w \<Rightarrow> Packet option \<times> 'w"

definition missed_grant :: "Tick \<Rightarrow> Bus \<Rightarrow> Bus res" where
  "missed_grant curTick b =
     bind_res (pop_retry b) (\<lambda>b.
       let t = catch_up (clock b) curTick (tickNextIdle b) + clock b
       in bus_reschedule curTick t (b\<lparr>tickNextIdle := t\<rparr>))"

definition grant_retry :: "'w send \<Rightarrow> 'w retry \<Rightarrow> Tick \<Rightarrow> Bus \<Rightarrow> 'w \<Rightarrow> (Bus \<times> 'w) res" where
  "grant_retry sendf rty curTick b w =
     (let b = b\<lparr>inRetry := True\<rparr>
      in case rty (hd (retryList b)) w of (sent, w) \<Rightarrow>
           bind_res (case sent of
               None \<Rightarrow> Inr (b, w)
             | Some pkt \<Rightarrow> bind_res (port_recvTiming sendf (hd (retryList b)) curTick pkt b w) (\<lambda>(_, _, b, w). Inr (b, w)))
             (\<lambda>(b, w). bind_res (if inRetry b then missed_grant curTick b else Inr b) (\<lambda>b. Inr (b, w))))"

text \<open>The last component is the drain event, if it is processed.\<close>

definition recvRetry :: "'w send \<Rightarrow> 'w retry \<Rightarrow> Tick \<Rightarrow> Bus \<Rightarrow> 'w \<Rightarrow> (Bus \<times> 'w \<times> nat option) res" where
  "recvRetry sendf rty curTick b w =
     bind_res (if retryList b \<noteq> [] \<and> curTick \<ge> tickNextIdle b then grant_retry sendf rty curTick b w else Inr (b, w)) (\<lambda>(b, w).
       if drainEvent b \<noteq> None \<and> retryList b = [] \<and> curTick \<ge> tickNextIdle b
       then Inr (b\<lparr>drainEvent := None\<rparr>, w, drainEvent b)
       else Inr (b, w, None))"

text \<open>\<open>BusFreeEvent::process\<close>; an event that is serviced is no longer scheduled.\<close>

definition busIdle_process :: "'w send \<Rightarrow> 'w retry \<Rightarrow> Tick \<Rightarrow> Bus \<Rightarrow> 'w \<Rightarrow> (Bus \<times> 'w \<times> nat option) res" where
  "busIdle_process sendf rty curTick b w = recvRetry sendf rty curTick (b\<lparr>busIdle := None\<rparr>) w"

definition bus_drain :: "nat \<Rightarrow> Tick \<Rightarrow> Bus \<Rightarrow> nat \<times> Bus" where
  "bus_drain de curTick b =
     (if retryList b \<noteq> [] \<or> (curTick < tickNextIdle b \<and> busIdle b \<noteq> None) then (1, b\<lparr>drainEvent := Some de\<rparr>) else (0, b))"

definition bus_startup :: "Tick \<Rightarrow> Bus \<Rightarrow> Bus" where
  "bus_startup curTick b =
     (if tickNextIdle b < curTick then b\<lparr>tickNextIdle := (curTick div clock b) * clock b + clock b\<rparr> else b)"

definition Bus_new :: "int \<Rightarrow> int \<Rightarrow> int \<Rightarrow> bool \<Rightarrow> nat \<Rightarrow> Bus res" where
  "Bus_new clk hdr wid resp bs =
     guard_res Fatal (wid > 0) (guard_res Fatal (clk > 0) (guard_res Fatal (hdr > 0)
       (Inr (clearPortCache (clearBusCache
         \<lparr>clock = clk, headerCycles = hdr, width = wid, tickNextIdle = 0, drainEvent = None, portMap = [], defaultRange = [],
          snoopPorts = [], portCache = replicate 3 \<lparr>pc_valid = False, pc_id = 0, pc_start = 0, pc_end = 0\<rparr>, busIdle = None,
          inRetry = False, inRecvStatusChange = {}, maxId = 0, interfaces = (\<lambda>_. None), retryList = [], defaultPort = None,
          funcPort = False, funcPortId = -4, responderSet = resp, defaultBlockSize = bs, cachedBlockSize = 0,
          cachedBlockSizeValid = False, busCache = replicate 3 \<lparr>bc_valid = False, bc_id = 0, bc_port = 0\<rparr>\<rparr>)))))"

section \<open>Atomic and functional accesses\<close>

type_synonym 'w send_atomic = "int \<Rightarrow> Packet \<Rightarrow> 'w \<Rightarrow> Tick \<times> Packet \<times> 'w"

text \<open>
  The snoops of an atomic request.  The accumulator is the response of a snooper, if there was
  one, with its latency; the packet is restored for the snoopers that follow.
\<close>

fun snoop_atomic ::
  "'w send_atomic \<Rightarrow> int \<Rightarrow> Command \<Rightarrow> int \<Rightarrow> int list \<Rightarrow> (Command \<times> Tick) option \<Rightarrow> Packet \<Rightarrow> 'w \<Rightarrow>
   ((Command \<times> Tick) option \<times> Packet \<times> 'w) res" where
  "snoop_atomic sendf target orig_cmd orig_src [] resp pkt w = Inr (resp, pkt, w)"
| "snoop_atomic sendf target orig_cmd orig_src (p # ps) resp pkt w =
     guard_res AssertFail (p \<noteq> target)
       (bind_res (getSrc pkt) (\<lambda>src.
          if p \<noteq> src
          then (case sendf p pkt w of (latency, pkt, w) \<Rightarrow>
                 if pkt_isResponse pkt
                 then guard_res AssertFail (p_cmd pkt \<noteq> orig_cmd)
                        (guard_res AssertFail (memInhibitAsserted pkt)
                          (guard_res AssertFail (resp = None)
                            (snoop_atomic sendf target orig_cmd orig_src ps (Some (p_cmd pkt, latency))
                              (setDest Broadcast (setSrc orig_src (pkt\<lparr>p_cmd := orig_cmd\<rparr>))) w)))
                 else snoop_atomic sendf target orig_cmd orig_src ps resp pkt w)
          else snoop_atomic sendf target orig_cmd orig_src ps resp pkt w))"

definition recvAtomic :: "'w send_atomic \<Rightarrow> Tick \<Rightarrow> Packet \<Rightarrow> Bus \<Rightarrow> 'w \<Rightarrow> (Tick \<times> Packet \<times> Bus \<times> 'w) res" where
  "recvAtomic sendf curTick pkt b w =
     bind_res (getDest pkt) (\<lambda>dest.
     guard_res AssertFail (dest = Broadcast) (guard_res AssertFail (pkt_isRequest pkt)
     (bind_res (getSrc pkt) (\<lambda>orig_src.
      bind_res (getAddr pkt) (\<lambda>addr.
      bind_res (findPort addr b) (\<lambda>(target_port_id, b).
      bind_res (cached_port target_port_id b) (\<lambda>(target_port, b).
      bind_res (snoop_atomic sendf target_port (p_cmd pkt) orig_src (snoopPorts b) None pkt w) (\<lambda>(resp, pkt', w).
      bind_res (getSrc pkt') (\<lambda>src.
      guard_res Undefined (target_port_id \<noteq> src \<longrightarrow> has_port target_port b)
       (let (latency, pkt', w) = (if target_port_id \<noteq> src then sendf target_port pkt' w else (0, pkt', w))
        in case resp of
             None \<Rightarrow> Inr (latency, pkt'\<lparr>p_finishTime := curTick + latency\<rparr>, b, w)
           | Some (cmd, lat) \<Rightarrow>
               guard_res AssertFail (\<not> pkt_isResponse pkt') (guard_res AssertFail (p_cmd pkt' = p_cmd pkt)
                 (Inr (lat, pkt'\<lparr>p_cmd := cmd, p_finishTime := curTick + lat\<rparr>, b, w)))))))))))))"

type_synonym 'w send_functional = "int \<Rightarrow> Packet \<Rightarrow> 'w \<Rightarrow> Packet \<times> 'w"

fun snoop_functional :: "'w send_functional \<Rightarrow> int \<Rightarrow> int \<Rightarrow> int list \<Rightarrow> Packet \<Rightarrow> 'w \<Rightarrow> Packet \<times> 'w" where
  "snoop_functional sendf port src_id [] pkt w = (pkt, w)"
| "snoop_functional sendf port src_id (p # ps) pkt w =
     (let (pkt, w) = (if p \<noteq> port \<and> p \<noteq> src_id then sendf p pkt w else (pkt, w))
      in if pkt_isResponse pkt then (pkt, w) else snoop_functional sendf port src_id ps (setSrc src_id pkt) w)"

definition recvFunctional :: "'w send_functional \<Rightarrow> Packet \<Rightarrow> Bus \<Rightarrow> 'w \<Rightarrow> (Packet \<times> Bus \<times> 'w) res" where
  "recvFunctional sendf pkt b w =
     bind_res (getDest pkt) (\<lambda>dest.
     guard_res AssertFail (dest = Broadcast)
     (bind_res (getAddr pkt) (\<lambda>addr.
      bind_res (findPort addr b) (\<lambda>(port_id, b).
      bind_res (plain_port port_id b) (\<lambda>port.
      bind_res (getSrc pkt) (\<lambda>src_id.
      guard_res AssertFail (pkt_isRequest pkt)
        (case snoop_functional sendf port src_id (snoopPorts b) pkt w of (pkt, w) \<Rightarrow>
         if pkt_isResponse pkt then Inr (pkt, b, w)
         else bind_res (getSrc pkt) (\<lambda>src.
                if port_id \<noteq> src then guard_res Undefined (has_port port b) (case sendf port pkt w of (pkt, w) \<Rightarrow> Inr (pkt, b, w)) else Inr (pkt, b, w)))))))))"

section \<open>Address ranges\<close>

text \<open>What the peer of a port answers when it is asked for its ranges.\<close>

type_synonym 'w ask_ranges = "int \<Rightarrow> 'w \<Rightarrow> range list \<times> bool"

fun add_ranges :: "range list \<Rightarrow> int \<Rightarrow> int range_map \<Rightarrow> (int range_map) res" where
  "add_ranges [] i t = Inr t"
| "add_ranges (r # rs) i t = (case rm_insert r i t of None \<Rightarrow> Inl Fatal | Some t \<Rightarrow> add_ranges rs i t)"

definition update_ranges :: "'w ask_ranges \<Rightarrow> int \<Rightarrow> Bus \<Rightarrow> 'w \<Rightarrow> Bus res" where
  "update_ranges ask i b w =
     (if i = defaultId
      then if responderSet b
           then (case ask defaultId w of (ranges, snoops) \<Rightarrow>
                   guard_res AssertFail (\<not> snoops) (Inr (b\<lparr>defaultRange := ranges\<rparr>)))
           else Inr (b\<lparr>defaultRange := []\<rparr>)
      else guard_res AssertFail (i < maxId b \<and> i \<ge> 0)
             (bind_res (interface i b) (\<lambda>port.
                case ask port w of (ranges, snoops) \<Rightarrow>
                  let snoopers = filter (\<lambda>p. p \<noteq> i) (snoopPorts b) @ (if snoops then [port] else [])
                  in bind_res (add_ranges ranges i (filter (\<lambda>x. snd x \<noteq> i) (portMap b))) (\<lambda>t.
                       Inr (b\<lparr>portMap := t, snoopPorts := snoopers\<rparr>)))))"

text \<open>The ports that are told, in the order in which the table of interfaces yields them.\<close>

definition recvStatusChange :: "'w ask_ranges \<Rightarrow> (int \<Rightarrow> 'w \<Rightarrow> 'w) \<Rightarrow> int list \<Rightarrow> int \<Rightarrow> Bus \<Rightarrow> 'w \<Rightarrow> (Bus \<times> 'w) res" where
  "recvStatusChange ask tell order i b w =
     (if i \<in> inRecvStatusChange b then Inr (b, w)
      else let b = clearPortCache (b\<lparr>inRecvStatusChange := insert i (inRecvStatusChange b)\<rparr>)
           in bind_res (update_ranges ask i b w) (\<lambda>b.
                let w = fold tell (filter (\<lambda>p. p \<noteq> i \<and> p \<noteq> funcPortId b) order) w;
                    w = (if i \<noteq> defaultId \<and> defaultPort b \<noteq> None then tell defaultId w else w)
                in Inr (b\<lparr>inRecvStatusChange := inRecvStatusChange b - {i}\<rparr>, w)))"

definition bus_init :: "(int \<Rightarrow> 'w \<Rightarrow> 'w) \<Rightarrow> int list \<Rightarrow> 'w \<Rightarrow> 'w" where
  "bus_init tell order w = fold tell order w"

text \<open>A range against one range of the default port: a range may not reach over its borders.\<close>

definition crosses :: "range \<Rightarrow> range \<Rightarrow> bool" where
  "crosses r d \<longleftrightarrow> (rg_start r < rg_start d \<and> rg_end r \<ge> rg_start d) \<or> (rg_start r < rg_end d \<and> rg_end r \<ge> rg_end d)"

definition covered_by :: "range \<Rightarrow> range \<Rightarrow> bool" where
  "covered_by r d \<longleftrightarrow> rg_start r \<ge> rg_start d \<and> rg_end r \<le> rg_end d"

definition addressRanges :: "int \<Rightarrow> Bus \<Rightarrow> (range list \<times> bool) res" where
  "addressRanges i b =
     guard_res Fatal (\<forall>x \<in> set (portMap b). \<forall>d \<in> set (defaultRange b). \<not> crosses (fst x) d)
       (Inr (defaultRange b @ map fst (filter (\<lambda>x. snd x \<noteq> i \<and> \<not> (\<exists>d \<in> set (defaultRange b). covered_by (fst x) d)) (portMap b)),
             \<exists>p \<in> set (snoopPorts b). p \<noteq> i))"

definition findBlockSize :: "(int \<Rightarrow> nat) \<Rightarrow> Bus \<Rightarrow> nat \<times> Bus" where
  "findBlockSize peerBlockSize b =
     (if cachedBlockSizeValid b then (cachedBlockSize b, b)
      else let m = foldl (\<lambda>m p. max m (peerBlockSize p)) 0 (map snd (portMap b) @ snoopPorts b);
               m = (if m = 0 then defaultBlockSize b else m)
           in (m, b\<lparr>cachedBlockSize := m, cachedBlockSizeValid := True\<rparr>))"

section \<open>Facts about routing\<close>

text \<open>Without the cache: the port whose range holds the address, or else the default port.\<close>

definition owner :: "Addr \<Rightarrow> Bus \<Rightarrow> int option" where
  "owner a b = map_option snd (find (\<lambda>x. in_range a (fst x)) (portMap b))"

definition destination :: "Addr \<Rightarrow> Bus \<Rightarrow> int res" where
  "destination a b =
     (case owner a b of
        Some i \<Rightarrow> Inr i
      | None \<Rightarrow> if responderSet b \<and> \<not> (\<exists>r \<in> set (defaultRange b). in_range a r) then Inl Panic else Inr defaultId)"

definition route_ok :: "Bus \<Rightarrow> bool" where
  "route_ok b \<longleftrightarrow> rm_ok (portMap b) \<and> (\<forall>x \<in> set (portMap b). snd x \<noteq> -1) \<and>
     (\<forall>c \<in> set (portCache b). pc_valid c \<longrightarrow>
        (\<exists>r. (r, pc_id c) \<in> set (portMap b) \<and> pc_start c = rg_start r \<and> pc_end c = rg_end r))"

lemma find_SomeD: "find P xs = Some y \<Longrightarrow> y \<in> set xs \<and> P y"
  by (induction xs) (auto split: if_splits)

lemma find_ex: "x \<in> set xs \<Longrightarrow> P x \<Longrightarrow> \<exists>y. find P xs = Some y"
  by (induction xs) auto

lemma owner_eq: "rm_ok (portMap b) \<Longrightarrow> x \<in> set (portMap b) \<Longrightarrow> in_range a (fst x) \<Longrightarrow> owner a b = Some (snd x)"
proof -
  assume ok: "rm_ok (portMap b)" and x: "x \<in> set (portMap b)" "in_range a (fst x)"
  then obtain y where y: "find (\<lambda>x. in_range a (fst x)) (portMap b) = Some y"
    using find_ex [of x "portMap b" "\<lambda>x. in_range a (fst x)"] by blast
  then have "y \<in> set (portMap b)" "in_range a (fst y)" by (auto dest: find_SomeD)
  then have "y = x" using in_range_unique [OF ok] x by blast
  then show ?thesis using y by (simp add: owner_def)
qed

lemma owner_find_pos: "rm_ok (portMap b) \<Longrightarrow> owner a b = map_option snd (rm_find_pos a (portMap b))"
proof (cases "rm_find_pos a (portMap b)")
  case None
  assume ok: "rm_ok (portMap b)"
  have "\<not> in_range a (fst x)" if "x \<in> set (portMap b)" for x using rm_find_pos_iff [OF ok, of a x] None that by simp
  then show ?thesis using None by (auto simp: owner_def find_None_iff)
next
  case (Some x)
  assume "rm_ok (portMap b)"
  then show ?thesis using owner_eq rm_find_pos_member [OF Some] Some by simp
qed

lemma check_port_cache_hit:
  "check_port_cache a cs \<noteq> -1 \<Longrightarrow> \<exists>c \<in> set cs. pc_valid c \<and> pc_id c = check_port_cache a cs \<and> pc_start c \<le> a \<and> a < pc_end c"
  by (induction cs) auto

lemma cached_owner:
  assumes "route_ok b" "checkPortCache a b \<noteq> -1"
  shows "owner a b = Some (checkPortCache a b)"
proof -
  obtain c where c: "c \<in> set (portCache b)" "pc_valid c" "pc_id c = checkPortCache a b" "pc_start c \<le> a" "a < pc_end c"
    using check_port_cache_hit assms(2) unfolding checkPortCache_def by blast
  then obtain r where r: "(r, checkPortCache a b) \<in> set (portMap b)" "pc_start c = rg_start r" "pc_end c = rg_end r"
    using assms(1) unfolding route_ok_def by metis
  then have "in_range a r" using c(4,5) by (simp add: in_range_def)
  then show ?thesis using owner_eq [of b "(r, checkPortCache a b)" a] assms(1) r(1) by (simp add: route_ok_def)
qed

lemma route_ok_update:
  assumes "route_ok b" "(r, i) \<in> set (portMap b)"
  shows "route_ok (updatePortCache i (rg_start r) (rg_end r) b)"
  using assms by (auto simp: route_ok_def updatePortCache_def dest: in_set_butlastD)

lemma owner_id: "route_ok b \<Longrightarrow> owner a b = Some i \<Longrightarrow> i \<noteq> -1"
  unfolding route_ok_def owner_def using find_SomeD [of _ "portMap b"] by fastforce

lemma findPort_ok:
  assumes "route_ok b"
  shows "case destination a b of
      Inl err \<Rightarrow> findPort a b = Inl err
    | Inr i \<Rightarrow> \<exists>cs. findPort a b = Inr (i, b\<lparr>portCache := cs\<rparr>) \<and> route_ok (b\<lparr>portCache := cs\<rparr>)"
proof (cases "checkPortCache a b = -1")
  case False
  then have "findPort a b = Inr (checkPortCache a b, b)" by (simp add: findPort_def)
  then show ?thesis using cached_owner [OF assms False] assms by (auto simp: destination_def intro!: exI [of _ "portCache b"])
next
  case miss: True
  have ok: "rm_ok (portMap b)" using assms by (simp add: route_ok_def)
  show ?thesis
  proof (cases "rm_find_pos a (portMap b)")
    case None
    then have "owner a b = None" using owner_find_pos [OF ok] by simp
    moreover have "findPort a b = (if \<exists>r \<in> set (defaultRange b). in_range a r then Inr (defaultId, b)
        else if responderSet b then Inl Panic else Inr (defaultId, b))" using miss None by (simp add: findPort_def)
    ultimately show ?thesis using assms by (auto simp: destination_def intro!: exI [of _ "portCache b"])
  next
    case (Some x)
    obtain r i where x: "x = (r, i)" by (cases x)
    have o: "owner a b = Some i" using owner_find_pos [OF ok] Some x by simp
    have "findPort a b = Inr (i, updatePortCache i (rg_start r) (rg_end r) b)"
      using miss Some x owner_id [OF assms o] by (simp add: findPort_def)
    moreover have "route_ok (updatePortCache i (rg_start r) (rg_end r) b)"
      using route_ok_update [OF assms] rm_find_pos_member [OF Some] x by blast
    ultimately show ?thesis using o by (auto simp: destination_def updatePortCache_def)
  qed
qed

text \<open>New ranges that keep clear of each other and of those of the other ports are all entered.\<close>

fun clear_of :: "int range_map \<Rightarrow> range list \<Rightarrow> bool" where
  "clear_of t [] \<longleftrightarrow> True"
| "clear_of t (r # rs) \<longleftrightarrow> rg_start r \<le> rg_end r \<and> (\<forall>x \<in> set t. \<not> meets (fst x) r) \<and> (\<forall>q \<in> set rs. \<not> meets r q) \<and> clear_of t rs"

lemma clear_of_insert: "clear_of t rs \<Longrightarrow> \<forall>q \<in> set rs. \<not> meets r q \<Longrightarrow> clear_of (tree_insert r i t) rs"
  using set_tree_insert [of r i t] by (induction rs) fastforce+

lemma add_ranges_ok:
  assumes "rm_ok t" "clear_of t rs"
  shows "\<exists>t'. add_ranges rs i t = Inr t' \<and> rm_ok t' \<and> set t \<subseteq> set t' \<and> set t' \<subseteq> set t \<union> (\<lambda>r. (r, i)) ` set rs \<and>
     (\<forall>r \<in> set rs. (r, i) \<in> set t')"
  using assms
proof (induction rs arbitrary: t)
  case (Cons r rs)
  have r: "rg_start r \<le> rg_end r" "\<forall>x \<in> set t. \<not> meets (fst x) r" using Cons.prems(2) by simp_all
  note ins = rm_ok_tree_insert [OF Cons.prems(1) r, of i]
  have "clear_of (tree_insert r i t) rs" using clear_of_insert Cons.prems(2) by simp
  then obtain t' where t': "add_ranges rs i (tree_insert r i t) = Inr t'" "rm_ok t'" "set (tree_insert r i t) \<subseteq> set t'"
    "set t' \<subseteq> set (tree_insert r i t) \<union> (\<lambda>r. (r, i)) ` set rs" "\<forall>r \<in> set rs. (r, i) \<in> set t'"
    using Cons.IH [OF ins(1)] by blast
  have "add_ranges (r # rs) i t = Inr t'" using t'(1) rm_insert_disjoint [OF Cons.prems(1) r] by simp
  moreover have "set t' \<subseteq> set t \<union> (\<lambda>r. (r, i)) ` set (r # rs)" using t'(4) set_tree_insert [of r i t] by auto
  ultimately show ?case using t'(2,3,5) ins(2,3) by auto
qed simp

lemma clearPortCache_invalid: "c \<in> set (portCache (clearPortCache b)) \<Longrightarrow> \<not> pc_valid c"
  by (auto simp: clearPortCache_def)

lemma recvStatusChange_ok:
  assumes ok: "route_ok b" and i: "0 \<le> i" "i < maxId b" "interfaces b i \<noteq> None" "i \<notin> inRecvStatusChange b"
    and ask: "ask i w = (rs, snoops)" and clr: "clear_of (filter (\<lambda>x. snd x \<noteq> i) (portMap b)) rs"
  shows "\<exists>b' w'. recvStatusChange ask tell order i b w = Inr (b', w') \<and> route_ok b' \<and>
     (\<forall>r \<in> set rs. \<forall>a. in_range a r \<longrightarrow> destination a b' = Inr i) \<and> (snoops \<longleftrightarrow> i \<in> set (snoopPorts b')) \<and>
     snoopPorts b' = filter (\<lambda>p. p \<noteq> i) (snoopPorts b) @ (if snoops then [i] else []) \<and>
     (\<exists>t sp pc st. b' = b\<lparr>portMap := t, snoopPorts := sp, portCache := pc, inRecvStatusChange := st\<rparr>) \<and>
     ((\<forall>p x. tell p x = x) \<longrightarrow> w' = w)"
proof -
  have idle: "fold tell ps x = x" if "\<forall>p x. tell p x = x" for ps x using that by (induction ps) auto
  let ?b = "clearPortCache (b\<lparr>inRecvStatusChange := insert i (inRecvStatusChange b)\<rparr>)"
  have sel: "portMap ?b = portMap b" "snoopPorts ?b = snoopPorts b" "maxId ?b = maxId b" "interfaces ?b = interfaces b"
    by (simp_all add: clearPortCache_def)
  have "rm_ok (filter (\<lambda>x. snd x \<noteq> i) (portMap b))" using ok by (simp add: route_ok_def rm_ok_filter)
  then obtain t where t: "add_ranges rs i (filter (\<lambda>x. snd x \<noteq> i) (portMap b)) = Inr t" "rm_ok t"
    "set t \<subseteq> set (filter (\<lambda>x. snd x \<noteq> i) (portMap b)) \<union> (\<lambda>r. (r, i)) ` set rs" "\<forall>r \<in> set rs. (r, i) \<in> set t"
    using add_ranges_ok [OF _ clr, of i] by blast
  let ?s = "filter (\<lambda>p. p \<noteq> i) (snoopPorts b) @ (if snoops then [i] else [])"
  let ?b' = "?b\<lparr>portMap := t, snoopPorts := ?s\<rparr>"
  have "update_ranges ask i ?b w = Inr ?b'"
    using i ask t(1) sel by (simp add: update_ranges_def defaultId_def interface_def)
  then obtain w' where r: "recvStatusChange ask tell order i b w = Inr (?b'\<lparr>inRecvStatusChange := inRecvStatusChange ?b' - {i}\<rparr>, w')" (is "_ = Inr (?c, _)")
    and w': "(\<forall>p x. tell p x = x) \<longrightarrow> w' = w"
    using i(4) idle by (simp add: recvStatusChange_def Let_def)
  have c: "portMap ?c = t" "portCache ?c = portCache ?b" "snoopPorts ?c = ?s" by simp_all
  have "\<forall>x \<in> set t. snd x \<noteq> -1" using t(3) ok i(1) by (auto simp: route_ok_def)
  then have "route_ok ?c" using t(2) clearPortCache_invalid c unfolding route_ok_def by metis
  moreover have "destination a ?c = Inr i" if "r \<in> set rs" "in_range a r" for a r
    using owner_eq [of ?c "(r, i)" a] t(2,4) c(1) that by (simp add: destination_def)
  moreover have "snoops \<longleftrightarrow> i \<in> set (snoopPorts ?c)" using c(3) by simp
  moreover have "?c = b\<lparr>portMap := t, snoopPorts := ?s, portCache := portCache ?b, inRecvStatusChange := inRecvStatusChange ?b - {i}\<rparr>"
    by (simp add: clearPortCache_def)
  ultimately show ?thesis using r w' c(3) by blast
qed

section \<open>Facts about arbitration\<close>

definition port_flag :: "int \<Rightarrow> Bus \<Rightarrow> bool option" where
  "port_flag p b = (if p = defaultId then defaultPort b else interfaces b p)"

lemma port_flag_upd [simp]:
  "port_flag p (b\<lparr>retryList := rl\<rparr>) = port_flag p b" "port_flag p (b\<lparr>inRetry := v\<rparr>) = port_flag p b"
  "port_flag p (b\<lparr>tickNextIdle := t\<rparr>) = port_flag p b" "port_flag p (b\<lparr>busIdle := t'\<rparr>) = port_flag p b"
  "port_flag p (b\<lparr>busCache := bc\<rparr>) = port_flag p b" "port_flag p (b\<lparr>portCache := pc\<rparr>) = port_flag p b"
  "port_flag p (b\<lparr>drainEvent := de\<rparr>) = port_flag p b" "port_flag p (b\<lparr>portMap := pm\<rparr>) = port_flag p b"
  "port_flag p (b\<lparr>snoopPorts := sp\<rparr>) = port_flag p b" "port_flag p (b\<lparr>inRecvStatusChange := st\<rparr>) = port_flag p b"
  by (simp_all add: port_flag_def)

text \<open>
  The parameters are positive, the list of waiting ports has no repetition and holds those whose
  flag is set, the cache of interfaces holds ports under their identifiers, and the identifiers
  that are not handed out yet have no port.
\<close>

definition bus_wf :: "Bus \<Rightarrow> bool" where
  "bus_wf b \<longleftrightarrow> 0 < clock b \<and> 0 < headerCycles b \<and> 0 < width b \<and> distinct (retryList b) \<and>
     (\<forall>p. p \<in> set (retryList b) \<longleftrightarrow> port_flag p b = Some True) \<and>
     (\<forall>c \<in> set (busCache b). bc_valid c \<longrightarrow> bc_port c = bc_id c) \<and>
     0 \<le> maxId b \<and> (\<forall>p \<ge> maxId b. port_flag p b = None)"

lemma bus_wf_sel:
  assumes "bus_wf b"
  shows "0 < clock b" "0 < headerCycles b" "0 < width b" "distinct (retryList b)"
    "p \<in> set (retryList b) \<longleftrightarrow> port_flag p b = Some True"
  using assms by (simp_all add: bus_wf_def)

lemma onRetryList_flag: "onRetryList p b = Inr f \<longleftrightarrow> port_flag p b = Some f"
  by (auto simp: onRetryList_def port_flag_def split: option.splits)

text \<open>What the flags of two states have to do with each other, the rest being equal.\<close>

definition flagged :: "int \<Rightarrow> bool \<Rightarrow> Bus \<Rightarrow> Bus \<Rightarrow> bool" where
  "flagged p v b b' \<longleftrightarrow> b' = b\<lparr>interfaces := interfaces b', defaultPort := defaultPort b'\<rparr> \<and>
     port_flag p b \<noteq> None \<and> (\<forall>q. port_flag q b' = (if q = p then Some v else port_flag q b))"

lemma set_onRetryList_flagged: "set_onRetryList p v b = Inr b' \<Longrightarrow> flagged p v b b'"
  by (auto simp: set_onRetryList_def flagged_def port_flag_def split: if_splits option.splits)

lemma flagged_sel:
  assumes "flagged p v b b'"
  shows "clock b' = clock b" "headerCycles b' = headerCycles b" "width b' = width b" "retryList b' = retryList b"
    "busCache b' = busCache b" "inRetry b' = inRetry b" "tickNextIdle b' = tickNextIdle b" "busIdle b' = busIdle b"
    "maxId b' = maxId b" "port_flag p b \<noteq> None"
    "port_flag q b' = (if q = p then Some v else port_flag q b)"
proof -
  have eq: "b' = b\<lparr>interfaces := interfaces b', defaultPort := defaultPort b'\<rparr>" using assms by (simp add: flagged_def)
  show "clock b' = clock b" "headerCycles b' = headerCycles b" "width b' = width b" "retryList b' = retryList b"
    "busCache b' = busCache b" "inRetry b' = inRetry b" "tickNextIdle b' = tickNextIdle b" "busIdle b' = busIdle b"
    "maxId b' = maxId b" by (subst eq, simp)+
  show "port_flag p b \<noteq> None" "port_flag q b' = (if q = p then Some v else port_flag q b)" using assms by (simp_all add: flagged_def)
qed

text \<open>Putting a port at the end of the list, and taking the front off.\<close>

lemma bus_wf_enlist:
  assumes "bus_wf b" "p \<notin> set (retryList b)" "flagged p True b b'"
  shows "bus_wf (b'\<lparr>retryList := retryList b @ [p]\<rparr>)"
  using assms(1,2) flagged_sel [OF assms(3)] by (auto simp: bus_wf_def)

lemma bus_wf_delist:
  assumes "bus_wf b" "retryList b = p # ps" "flagged p False b b'"
  shows "bus_wf (b'\<lparr>retryList := ps, inRetry := False\<rparr>)"
proof -
  note f = flagged_sel [OF assms(3)]
  have "p \<notin> set ps" "distinct ps" using assms(1,2) by (auto simp: bus_wf_def)
  moreover have "q \<in> set ps \<longleftrightarrow> port_flag q b' = Some True" for q
    using assms(1,2) f(11) [of q] \<open>p \<notin> set ps\<close> by (auto simp: bus_wf_def)
  moreover have "\<not> maxId b \<le> p" using assms(1) f(10) by (auto simp: bus_wf_def)
  ultimately show ?thesis using assms(1) f by (simp add: bus_wf_def)
qed

lemma pop_retry_ok:
  assumes "bus_wf b" "pop_retry b = Inr b'"
  shows "bus_wf b' \<and> \<not> inRetry b' \<and> retryList b' = tl (retryList b) \<and> tickNextIdle b' = tickNextIdle b \<and> busIdle b' = busIdle b"
proof -
  obtain p ps c where c: "retryList b = p # ps" "set_onRetryList p False b = Inr c" "b' = c\<lparr>retryList := ps, inRetry := False\<rparr>"
    using assms(2) by (auto simp: pop_retry_def res_simps split: list.splits)
  have f: "flagged p False b c" by (rule set_onRetryList_flagged [OF c(2)])
  show ?thesis using bus_wf_delist [OF assms(1) c(1) f] flagged_sel [OF f] c(1,3) by simp
qed

lemma addToRetryList_ok:
  assumes wf: "bus_wf b" and turn: "inRetry b \<Longrightarrow> retryList b \<noteq> [] \<and> hd (retryList b) = p" and r: "addToRetryList p b = Inr b'"
  shows "bus_wf b' \<and> \<not> inRetry b' \<and> p \<in> set (retryList b') \<and> tickNextIdle b' = tickNextIdle b \<and> busIdle b' = busIdle b"
proof (cases "inRetry b")
  case True
  then have p: "p \<in> set (retryList b)" using turn by auto
  then have "onRetryList p b = Inr True" using bus_wf_sel(5) [OF wf] by (simp add: onRetryList_flag)
  then have "b' = b\<lparr>inRetry := False\<rparr>"
    using r True by (auto simp: addToRetryList_def res_simps split: list.splits)
  then show ?thesis using wf p by (auto simp: bus_wf_def)
next
  case False
  then obtain c where c: "onRetryList p b = Inr False" "set_onRetryList p True b = Inr c" "b' = c\<lparr>retryList := retryList c @ [p]\<rparr>"
    using r by (auto simp: addToRetryList_def res_simps)
  have f: "flagged p True b c" by (rule set_onRetryList_flagged [OF c(2)])
  have "p \<notin> set (retryList b)" using c(1) bus_wf_sel(5) [OF wf] by (simp add: onRetryList_flag)
  then show ?thesis using bus_wf_enlist [OF wf _ f] flagged_sel [OF f] c(3) False by simp
qed

lemma finish_timing_ok:
  assumes wf: "bus_wf b" and turn: "inRetry b \<Longrightarrow> retryList b \<noteq> []" and r: "finish_timing curTick t b = Inr b'" and t: "t \<noteq> 0"
  shows "bus_wf b' \<and> \<not> inRetry b' \<and> busIdle b' = Some (tickNextIdle b') \<and> curTick \<le> tickNextIdle b'"
proof -
  let ?b = "b\<lparr>tickNextIdle := t, busIdle := Some t\<rparr>"
  have "bus_wf ?b" using wf by (simp add: bus_wf_def)
  moreover have "curTick \<le> t" "(if inRetry b then pop_retry ?b else Inr ?b) = Inr b'"
    using r t by (auto simp: finish_timing_def occupyBus_def bus_reschedule_def res_simps)
  ultimately show ?thesis using pop_retry_ok [of ?b b'] by (cases "inRetry b") auto
qed

lemma sdiv_nonneg: "0 \<le> a \<Longrightarrow> 0 < c \<Longrightarrow> 0 \<le> (a::int) sdiv c"
  by (cases "a = 0") (simp_all add: signed_divide_int_def pos_imp_zdiv_nonneg_iff)

lemma round_up: "0 < (c::int) \<Longrightarrow> t \<le> t - t mod c + c"
  using pos_mod_bound [of c t] by linarith

text \<open>A packet that is not an express snoop ends, even its header, after the present.\<close>

lemma calcPacketTiming_ok:
  assumes wf: "bus_wf b" and sz: "0 \<le> sint (p_size pkt)" and r: "calcPacketTiming curTick pkt b = Inr (h, pkt', b')"
  shows "curTick < h \<and> h \<le> p_finishTime pkt' \<and> b' = b\<lparr>tickNextIdle := tickNextIdle b'\<rparr>"
proof -
  let ?b = "if tickNextIdle b < curTick
     then b\<lparr>tickNextIdle := (if curTick mod clock b \<noteq> 0 then curTick - curTick mod clock b + clock b else curTick)\<rparr> else b"
  note pos = bus_wf_sel(1-3) [OF wf]
  have b: "clock ?b = clock b" "headerCycles ?b = headerCycles b" "width ?b = width b" "?b = b\<lparr>tickNextIdle := tickNextIdle ?b\<rparr>" by simp_all
  have idle: "curTick \<le> tickNextIdle ?b" using round_up [OF pos(1), of curTick] by simp
  obtain n where n: "(if pkt_hasData pkt then bind_res (getSize pkt) (\<lambda>sz. Inr (sint sz sdiv width b + (if sint sz smod width b \<noteq> 0 then 1 else 0)))
      else Inr 0) = Inr n" "h = tickNextIdle ?b + headerCycles b * clock b" "p_finishTime pkt' = h + n * clock b" "b' = ?b"
    using r unfolding calcPacketTiming_def Let_def b(1-3) by (auto simp: bind_res_Inr)
  have "0 \<le> n" using n(1) sdiv_nonneg [OF sz pos(3)] by (auto simp: getSize_def res_simps split: if_splits)
  then have "0 \<le> n * clock b" "0 < headerCycles b * clock b" using pos by simp_all
  then have "curTick < h" "h \<le> p_finishTime pkt'" using idle n(2,3) by linarith+
  moreover have "b' = b\<lparr>tickNextIdle := tickNextIdle b'\<rparr>" unfolding n(4) by (rule b(4))
  ultimately show ?thesis by blast
qed

text \<open>The caches are the only thing that looking up ports changes.\<close>

lemma cached_port_ok:
  assumes "bus_wf b" "cached_port i b = Inr (p, b')"
  shows "p = i \<and> bus_wf b' \<and> b' = b\<lparr>busCache := busCache b'\<rparr>"
proof -
  have hit: "check_bus_cache i cs = Some p \<Longrightarrow> \<forall>c \<in> set cs. bc_valid c \<longrightarrow> bc_port c = bc_id c \<Longrightarrow> p = i" for cs
    by (induction cs) (auto split: if_splits)
  have "bus_wf (updateBusCache i i b)" using assms(1) by (auto simp: bus_wf_def updateBusCache_def dest: in_set_butlastD)
  then show ?thesis using assms hit [of "busCache b"]
    by (auto simp: cached_port_def checkBusCache_def interface_def updateBusCache_def bus_wf_def split: if_splits option.splits)
qed

lemma findPort_caches: "findPort a b = Inr (i, b') \<Longrightarrow> b' = b\<lparr>portCache := portCache b'\<rparr>"
  by (auto simp: findPort_def updatePortCache_def Let_def split: if_splits option.splits)

lemma bus_wf_portCache: "bus_wf (b\<lparr>portCache := pc\<rparr>) = bus_wf b"
  by (simp add: bus_wf_def)

lemma route_timing_caches: "route_timing sendf src p pkt b w = Inr (d, pkt', b', w') \<Longrightarrow> b' = b\<lparr>portCache := portCache b'\<rparr>"
  by (auto simp: route_timing_def res_simps split: if_splits dest!: findPort_caches)

text \<open>The bus is taken, and its event is scheduled for the time it gets free.\<close>

definition taken :: "Tick \<Rightarrow> Bus \<Rightarrow> bool" where
  "taken curTick b \<longleftrightarrow> bus_wf b \<and> \<not> inRetry b \<and> busIdle b = Some (tickNextIdle b) \<and> curTick \<le> tickNextIdle b"

lemma occupyBus_taken:
  assumes "bus_wf b" "\<not> inRetry b" "occupyBus curTick t b = Inr b'" "t \<noteq> 0"
  shows "taken curTick b' \<and> retryList b' = retryList b"
  using assms by (auto simp: taken_def occupyBus_def bus_reschedule_def bus_wf_def res_simps)

lemma deliver_ok:
  assumes wf: "bus_wf b" and now: "0 \<le> curTick" and turn: "inRetry b \<Longrightarrow> retryList b \<noteq> [] \<and> hd (retryList b) = p"
    and pkt: "\<not> isExpressSnoop pkt" "0 \<le> sint (p_size pkt)" and r: "deliver sendf curTick src p pkt b w = Inr (ok, pkt', b', w')"
  shows "taken curTick b' \<and> (\<not> ok \<longrightarrow> p \<in> set (retryList b'))"
proof -
  obtain h pkt1 b1 dest d pkt2 b2 w2 where
    c: "calcPacketTiming curTick pkt b = Inr (h, pkt1, b1)" and rt: "route_timing sendf src p pkt1 b1 w = Inr (d, pkt2, b2, w2)"
    and rest: "(if d = src then guard_res AssertFail (dest = Broadcast)
          (bind_res (finish_timing curTick (p_finishTime pkt1) b2) (\<lambda>b. Inr (True, pkt2, b, w2)))
        else guard_res Undefined (has_port d b2) (case sendf d pkt2 w2 of (accepted, pkt', w) \<Rightarrow>
              if accepted then bind_res (finish_timing curTick (p_finishTime pkt1) b2) (\<lambda>b. Inr (True, pkt', b, w))
              else guard_res AssertFail (\<not> pkt_isResponse pkt') (guard_res AssertFail (\<not> memInhibitAsserted pkt')
                     (bind_res (addToRetryList p b2) (\<lambda>b.
                      bind_res (occupyBus curTick h b) (\<lambda>b. Inr (False, pkt', b, w))))))) = Inr (ok, pkt', b', w')"
    using r pkt(1) unfolding deliver_def by (auto simp: bind_res_Inr)
  have t: "0 < h" "0 < p_finishTime pkt1" "b1 = b\<lparr>tickNextIdle := tickNextIdle b1\<rparr>"
    using calcPacketTiming_ok [OF wf pkt(2) c] now by auto
  have "b2 = b\<lparr>tickNextIdle := tickNextIdle b1, portCache := portCache b2\<rparr>"
    using route_timing_caches [OF rt] t(3) by metis
  then obtain x y where b2: "b2 = b\<lparr>tickNextIdle := x, portCache := y\<rparr>" by blast
  have wf2: "bus_wf b2" "inRetry b2 = inRetry b" "retryList b2 = retryList b" using wf unfolding b2 by (simp_all add: bus_wf_def)
  have fin: "taken curTick b'" if "finish_timing curTick (p_finishTime pkt1) b2 = Inr b'"
    using finish_timing_ok [OF wf2(1) _ that] t(2) turn wf2(2,3) by (auto simp: taken_def)
  have add: "taken curTick b' \<and> p \<in> set (retryList b')" if "addToRetryList p b2 = Inr b3" "occupyBus curTick h b3 = Inr b'" for b3
    using addToRetryList_ok [OF wf2(1) _ that(1)] occupyBus_taken [OF _ _ that(2)] t(1) turn wf2(2,3) by auto
  obtain acc pkt3 w3 where sd: "sendf d pkt2 w2 = (acc, pkt3, w3)" by (cases "sendf d pkt2 w2")
  show ?thesis
    using rest fin add unfolding sd by (cases "d = src"; cases acc) (auto simp: res_simps)
qed

lemma recvTiming_taken:
  assumes wf: "bus_wf b" and now: "0 \<le> curTick" and pkt: "\<not> isExpressSnoop pkt" "0 \<le> sint (p_size pkt)"
    and idle: "tickNextIdle b > curTick \<or> retryList b \<noteq> [] \<Longrightarrow> inRetry b \<or> busIdle b = Some (tickNextIdle b)"
    and time: "\<not> inRetry b \<Longrightarrow> busIdle b = Some (tickNextIdle b) \<Longrightarrow> curTick \<le> tickNextIdle b"
    and turn: "inRetry b \<Longrightarrow> retryList b \<noteq> [] \<and> hd (retryList b) = i \<and> tickNextIdle b \<le> curTick"
    and r: "port_recvTiming sendf i curTick pkt b w = Inr (ok, pkt', b', w')"
  shows "taken curTick b' \<and> (\<not> ok \<longrightarrow> i \<in> set (retryList b'))"
proof -
  let ?pkt = "setSrc i pkt"
  have p: "isExpressSnoop ?pkt = isExpressSnoop pkt" "p_size ?pkt = p_size pkt" "getSrc ?pkt = Inr i"
    by (simp_all add: isExpressSnoop_def setSrc_def getSrc_def PKT_EXPRESS_SNOOP_def PKT_VALID_SRC_def flag_simps guard_res_def)
  let ?busy = "\<lambda>b. tickNextIdle b > curTick \<or> (retryList b \<noteq> [] \<and> (\<not> inRetry b \<or> i \<noteq> hd (retryList b)))"
  obtain q b1 where cp: "cached_port i b = Inr (q, b1)"
    using r p(3) by (cases "cached_port i b") (auto simp: port_recvTiming_def recvTiming_def)
  have "q = i" using cached_port_ok [OF wf cp] by blast
  then have rest: "(if ?busy b1 then bind_res (addToRetryList i b1) (\<lambda>b. Inr (False, ?pkt, b, w))
      else deliver sendf curTick i i ?pkt b1 w) = Inr (ok, pkt', b', w')"
    using r pkt(1) p cp by (simp add: port_recvTiming_def recvTiming_def)
  have b1: "bus_wf b1" "b1 = b\<lparr>busCache := busCache b1\<rparr>" using cached_port_ok [OF wf cp] by auto
  have sel: "tickNextIdle b1 = tickNextIdle b" "retryList b1 = retryList b" "inRetry b1 = inRetry b" "busIdle b1 = busIdle b"
    by (subst b1(2), simp)+
  show ?thesis
  proof (cases "?busy b1")
    case True
    then have "\<not> inRetry b" using turn sel by auto
    moreover have "busIdle b = Some (tickNextIdle b)" using idle True sel \<open>\<not> inRetry b\<close> by auto
    moreover have "addToRetryList i b1 = Inr b'" "\<not> ok" using rest True by (auto simp: res_simps)
    ultimately show ?thesis using addToRetryList_ok [OF b1(1)] sel time by (auto simp: taken_def)
  next
    case False
    then show ?thesis using deliver_ok [OF b1(1) now, of i ?pkt sendf i w] turn sel rest pkt p by auto
  qed
qed

text \<open>A port that is told to retry gets its turn: afterwards the bus is taken in any case.\<close>

lemma missed_grant_ok:
  assumes "bus_wf b" "missed_grant curTick b = Inr b'"
  shows "taken curTick b'"
proof -
  obtain c where c: "pop_retry b = Inr c" and r: "bus_reschedule curTick (catch_up (clock c) curTick (tickNextIdle c) + clock c)
      (c\<lparr>tickNextIdle := catch_up (clock c) curTick (tickNextIdle c) + clock c\<rparr>) = Inr b'"
    using assms(2) by (auto simp: missed_grant_def res_simps Let_def)
  show ?thesis using pop_retry_ok [OF assms(1) c] r by (auto simp: taken_def bus_reschedule_def bus_wf_def res_simps)
qed

definition answers_ok :: "'w retry \<Rightarrow> bool" where
  "answers_ok rty \<longleftrightarrow> (\<forall>p w pkt. fst (rty p w) = Some pkt \<longrightarrow> \<not> isExpressSnoop pkt \<and> 0 \<le> sint (p_size pkt))"

lemma grant_retry_taken:
  assumes wf: "bus_wf b" and now: "0 \<le> curTick" and b: "retryList b \<noteq> []" "tickNextIdle b \<le> curTick"
    and ans: "answers_ok rty" and r: "grant_retry sendf rty curTick b w = Inr (b', w')"
  shows "taken curTick b'"
proof -
  let ?b = "b\<lparr>inRetry := True\<rparr>" and ?p = "hd (retryList b)"
  have wf': "bus_wf ?b" using wf by (simp add: bus_wf_def)
  obtain sent w1 where s: "rty ?p w = (sent, w1)" by (cases "rty ?p w")
  show ?thesis
  proof (cases sent)
    case None
    then have "missed_grant curTick ?b = Inr b'" using r s by (auto simp: grant_retry_def res_simps)
    then show ?thesis by (rule missed_grant_ok [OF wf'])
  next
    case (Some pkt)
    obtain ok pkt' b1 w2 where rt: "port_recvTiming sendf ?p curTick pkt ?b w1 = Inr (ok, pkt', b1, w2)"
      and rest: "(if inRetry b1 then missed_grant curTick b1 else Inr b1) = Inr b'"
      using r s Some by (auto simp: grant_retry_def res_simps)
    have pkt: "\<not> isExpressSnoop pkt" "0 \<le> sint (p_size pkt)" using ans s Some unfolding answers_ok_def by (metis fst_conv)+
    have "taken curTick b1" using recvTiming_taken [OF wf' now pkt _ _ _ rt] b by auto
    then show ?thesis using rest by (auto simp: taken_def)
  qed
qed

text \<open>An express snoop passes by the arbitration; no port may refuse it.\<close>

definition accepts_express :: "'w send \<Rightarrow> bool" where
  "accepts_express sendf \<longleftrightarrow> (\<forall>p pkt w. isExpressSnoop pkt \<longrightarrow> fst (sendf p pkt w) \<and> isExpressSnoop (fst (snd (sendf p pkt w))))"

lemma snoop_timing_express:
  "accepts_express sendf \<Longrightarrow> isExpressSnoop pkt \<Longrightarrow> snoop_timing sendf d src ps pkt w = Inr (pkt', w') \<Longrightarrow> isExpressSnoop pkt'"
proof (induction ps arbitrary: pkt w)
  case (Cons p ps)
  obtain ok pkt1 w1 where s: "sendf p pkt w = (ok, pkt1, w1)" by (cases "sendf p pkt w")
  then have "isExpressSnoop pkt1" using Cons.prems(1,2) unfolding accepts_express_def by (metis fst_conv snd_conv)
  then show ?case using Cons s by (auto simp: res_simps split: if_splits)
qed simp

lemma route_timing_express:
  assumes "accepts_express sendf" "isExpressSnoop pkt" "route_timing sendf src p pkt b w = Inr (d, pkt', b', w')"
  shows "isExpressSnoop pkt'"
  using assms snoop_timing_express by (fastforce simp: route_timing_def res_simps split: if_splits)

lemma recvTiming_express:
  assumes acc: "accepts_express sendf" and pkt: "isExpressSnoop pkt" and wf: "bus_wf b" and b: "\<not> inRetry b"
    and r: "port_recvTiming sendf i curTick pkt b w = Inr (ok, pkt', b', w')"
  shows "ok \<and> (\<exists>bc pc. b' = b\<lparr>busCache := bc, portCache := pc\<rparr>) \<and> bus_wf b'"
proof -
  let ?pkt = "setSrc i pkt"
  have p: "isExpressSnoop ?pkt" "getSrc ?pkt = Inr i"
    using pkt by (simp_all add: isExpressSnoop_def setSrc_def getSrc_def PKT_EXPRESS_SNOOP_def PKT_VALID_SRC_def flag_simps guard_res_def)
  obtain q b1 where cp: "cached_port i b = Inr (q, b1)"
    using r p(2) by (cases "cached_port i b") (auto simp: port_recvTiming_def recvTiming_def)
  have b1: "bus_wf b1" "b1 = b\<lparr>busCache := busCache b1\<rparr>" using cached_port_ok [OF wf cp] by auto
  have del: "deliver sendf curTick i q ?pkt b1 w = Inr (ok, pkt', b', w')"
    using r p cp by (simp add: port_recvTiming_def recvTiming_def)
  obtain d pkt2 b2 w2 where rt: "route_timing sendf i q ?pkt b1 w = Inr (d, pkt2, b2, w2)"
    and rest: "(d = i \<and> ok \<and> finish_timing curTick 0 b2 = Inr b') \<or> (\<not> fst (sendf d pkt2 w2)) \<or> (ok \<and> finish_timing curTick 0 b2 = Inr b')"
    using del p(1) unfolding deliver_def by (auto simp: res_simps split: if_splits prod.splits)
  have "fst (sendf d pkt2 w2)" using acc route_timing_express [OF acc p(1) rt] by (simp add: accepts_express_def)
  then have fin: "ok" "finish_timing curTick 0 b2 = Inr b'" using rest by auto
  have b2: "b2 = b\<lparr>busCache := busCache b1, portCache := portCache b2\<rparr>" using route_timing_caches [OF rt] b1(2) by metis
  have "\<not> inRetry b2" using b by (subst b2) simp
  then have "b' = b2" using fin(2) by (simp add: finish_timing_def occupyBus_def)
  moreover have "bus_wf b2" using b1(1) route_timing_caches [OF rt] by (metis bus_wf_portCache)
  ultimately show ?thesis using fin(1) b2 by metis
qed

text \<open>A busy bus, or one with ports that wait, refuses a packet and puts its port at the end.\<close>

lemma cached_port_total: "port_flag i b \<noteq> None \<Longrightarrow> \<exists>p b'. cached_port i b = Inr (p, b')"
  by (cases "i = defaultId") (auto simp: cached_port_def port_flag_def interface_def split: option.split)

lemma addToRetryList_last:
  assumes "port_flag p b = Some False" "\<not> inRetry b"
  shows "\<exists>b'. addToRetryList p b = Inr b' \<and> retryList b' = retryList b @ [p] \<and> inRetry b' = inRetry b \<and> busIdle b' = busIdle b"
proof -
  obtain c where c: "set_onRetryList p True b = Inr c"
    using assms(1) by (cases "p = defaultId") (auto simp: set_onRetryList_def port_flag_def)
  note f = flagged_sel [OF set_onRetryList_flagged [OF c]]
  have "onRetryList p b = Inr False" using assms(1) by (simp add: onRetryList_flag)
  then have "addToRetryList p b = Inr (c\<lparr>retryList := retryList c @ [p]\<rparr>)" using assms(2) c by (simp add: addToRetryList_def)
  then show ?thesis using f by simp
qed

lemma busy_refuses:
  assumes wf: "bus_wf b" and b: "\<not> inRetry b" "t < tickNextIdle b \<or> retryList b \<noteq> []" and i: "port_flag i b = Some False"
    and pkt: "\<not> isExpressSnoop pkt"
  shows "\<exists>b'. port_recvTiming sendf i t pkt b w = Inr (False, setSrc i pkt, b', w) \<and> retryList b' = retryList b @ [i] \<and>
     \<not> inRetry b' \<and> busIdle b' = busIdle b \<and> bus_wf b'"
proof -
  let ?pkt = "setSrc i pkt"
  have p: "\<not> isExpressSnoop ?pkt" "getSrc ?pkt = Inr i"
    using pkt by (simp_all add: isExpressSnoop_def setSrc_def getSrc_def PKT_EXPRESS_SNOOP_def PKT_VALID_SRC_def flag_simps guard_res_def)
  obtain q c where cp: "cached_port i b = Inr (q, c)" using cached_port_total i by blast
  have c: "q = i" "bus_wf c" "c = b\<lparr>busCache := busCache c\<rparr>" using cached_port_ok [OF wf cp] by auto
  have sel: "inRetry c = inRetry b" "retryList c = retryList b" "busIdle c = busIdle b" "tickNextIdle c = tickNextIdle b"
    "port_flag i c = port_flag i b" by (subst c(3), simp)+
  obtain b' where b': "addToRetryList i c = Inr b'" "retryList b' = retryList b @ [i]" "\<not> inRetry b'" "busIdle b' = busIdle b"
    using addToRetryList_last [of i c] i b(1) sel by auto
  moreover have "bus_wf b'" using addToRetryList_ok [OF c(2) _ b'(1)] sel b(1) by auto
  moreover have "port_recvTiming sendf i t pkt b w = Inr (False, ?pkt, b', w)"
    using p cp b'(1) b sel unfolding c(1) by (simp add: port_recvTiming_def recvTiming_def)
  ultimately show ?thesis by blast
qed

lemma bus_startup_busy: "bus_wf b \<Longrightarrow> tickNextIdle b < t \<Longrightarrow> t < tickNextIdle (bus_startup t b)"
proof -
  assume "bus_wf b" "tickNextIdle b < t"
  moreover have "t - t mod clock b = t div clock b * clock b" by (simp add: minus_mod_eq_div_mult)
  moreover have "t mod clock b < clock b" using \<open>bus_wf b\<close> by (simp add: bus_wf_def)
  ultimately show ?thesis by (simp add: bus_startup_def)
qed

section \<open>The bus in time\<close>

text \<open>
  The state is the tick, the bus and the rest of the system.  Ports are connected and announce their
  ranges; \<open>startup\<close> runs at tick 0, as in a simulation that does not start from a checkpoint; packets arrive at ports; the event
  \<open>busIdle\<close> is serviced at its tick; a target that refused a packet tells the bus to retry; time
  goes on, but not past a scheduled event; the rest of the system does what it likes.
\<close>

inductive bus_step :: "'w send \<Rightarrow> 'w retry \<Rightarrow> Tick \<times> Bus \<times> 'w \<Rightarrow> Tick \<times> Bus \<times> 'w \<Rightarrow> bool" for sendf rty where
  port: "getPort n b = Inr (i, b') \<Longrightarrow> bus_step sendf rty (t, b, w) (t, b', w)"
| startup: "bus_step sendf rty (0, b, w) (0, bus_startup 0 b, w)"
| ranges: "recvStatusChange ask tell order i b w = Inr (b', w') \<Longrightarrow> bus_step sendf rty (t, b, w) (t, b', w')"
| packet: "\<not> isExpressSnoop pkt \<Longrightarrow> 0 \<le> sint (p_size pkt) \<Longrightarrow> port_recvTiming sendf i t pkt b w = Inr (ok, pkt', b', w') \<Longrightarrow>
    bus_step sendf rty (t, b, w) (t, b', w')"
| snoop: "isExpressSnoop pkt \<Longrightarrow> port_recvTiming sendf i t pkt b w = Inr (ok, pkt', b', w') \<Longrightarrow>
    bus_step sendf rty (t, b, w) (t, b', w')"
| idle: "busIdle b = Some t \<Longrightarrow> busIdle_process sendf rty t b w = Inr (b', w', d) \<Longrightarrow> bus_step sendf rty (t, b, w) (t, b', w')"
| retry: "recvRetry sendf rty t b w = Inr (b', w', d) \<Longrightarrow> bus_step sendf rty (t, b, w) (t, b', w')"
| wait: "t \<le> t' \<Longrightarrow> (case busIdle b of None \<Rightarrow> True | Some u \<Rightarrow> t' \<le> u) \<Longrightarrow> bus_step sendf rty (t, b, w) (t', b, w)"
| drain: "bus_drain de t b = (n, b') \<Longrightarrow> bus_step sendf rty (t, b, w) (t, b', w)"
| others: "bus_step sendf rty (t, b, w) (t, b, w')"

text \<open>
  While the bus is busy or a port is waiting, the event is scheduled, for the tick at which the bus
  gets free, which is never before tick 0.
\<close>

definition bus_inv :: "Tick \<Rightarrow> Bus \<Rightarrow> bool" where
  "bus_inv t b \<longleftrightarrow> bus_wf b \<and> \<not> inRetry b \<and> 0 \<le> t \<and> 0 \<le> tickNextIdle b \<and> (t < tickNextIdle b \<or> retryList b \<noteq> [] \<longrightarrow> busIdle b \<noteq> None) \<and>
     (\<forall>u. busIdle b = Some u \<longrightarrow> u = tickNextIdle b \<and> t \<le> u)"

lemma taken_inv: "taken t b \<Longrightarrow> 0 \<le> t \<Longrightarrow> bus_inv t b"
  by (simp add: taken_def bus_inv_def)

lemma recvRetry_inv:
  assumes wf: "bus_wf b" "\<not> inRetry b" and now: "0 \<le> t" and ans: "answers_ok rty"
    and b: "retryList b = [] \<or> t < tickNextIdle b \<Longrightarrow> bus_inv t b" and r: "recvRetry sendf rty t b w = Inr (b', w', d)"
  shows "bus_inv t b'"
proof -
  obtain b1 w1 where g: "(if retryList b \<noteq> [] \<and> t \<ge> tickNextIdle b then grant_retry sendf rty t b w else Inr (b, w)) = Inr (b1, w1)"
    and b': "b' = b1 \<or> b' = b1\<lparr>drainEvent := None\<rparr>"
    using r unfolding recvRetry_def by (auto simp: bind_res_Inr split: if_splits)
  have "bus_inv t b1"
  proof (cases "retryList b \<noteq> [] \<and> t \<ge> tickNextIdle b")
    case True
    then show ?thesis using grant_retry_taken [OF wf(1) now _ _ ans] g taken_inv now by auto
  next
    case False
    then show ?thesis using b g by auto
  qed
  then show ?thesis using b' by (auto simp: bus_inv_def bus_wf_def)
qed

lemma recvStatusChange_keeps:
  assumes "recvStatusChange ask tell order i b w = Inr (b', w')"
  shows "\<exists>pm pc dr sp ir. b' = b\<lparr>portMap := pm, portCache := pc, defaultRange := dr, snoopPorts := sp, inRecvStatusChange := ir\<rparr>"
proof (cases "i \<in> inRecvStatusChange b")
  case True
  then have "b' = b\<lparr>portMap := portMap b, portCache := portCache b, defaultRange := defaultRange b, snoopPorts := snoopPorts b,
    inRecvStatusChange := inRecvStatusChange b\<rparr>" using assms by (simp add: recvStatusChange_def)
  then show ?thesis by blast
next
  case False
  define c where "c = clearPortCache (b\<lparr>inRecvStatusChange := insert i (inRecvStatusChange b)\<rparr>)"
  obtain d where d: "update_ranges ask i c w = Inr d" "b' = d\<lparr>inRecvStatusChange := inRecvStatusChange d - {i}\<rparr>"
    using assms False by (auto simp: recvStatusChange_def res_simps c_def Let_def)
  have "d = c\<lparr>portMap := portMap d, defaultRange := defaultRange d, snoopPorts := snoopPorts d\<rparr>"
    using d(1) by (cases "ask i w"; cases "ask defaultId w") (auto simp: update_ranges_def interface_def res_simps Let_def split: if_splits)
  then obtain pm dr sp where "d = c\<lparr>portMap := pm, defaultRange := dr, snoopPorts := sp\<rparr>" by blast
  then have "b' = b\<lparr>portMap := pm, portCache := portCache c, defaultRange := dr, snoopPorts := sp, inRecvStatusChange := inRecvStatusChange d - {i}\<rparr>"
    using d(2) by (simp add: c_def clearPortCache_def)
  then show ?thesis by blast
qed

lemma recvStatusChange_inv:
  assumes "recvStatusChange ask tell order i b w = Inr (b', w')"
  shows "bus_inv t b' = bus_inv t b"
  using recvStatusChange_keeps [OF assms] by (auto simp: bus_inv_def bus_wf_def port_flag_def)

lemma bus_inv_new_port:
  assumes inv: "bus_inv t b" and p: "\<And>p. port_flag p b' = (if p = q then Some False else port_flag p b)" "port_flag q b = None"
    and m: "maxId b \<le> maxId b'" "q < maxId b'"
    and eq: "clock b' = clock b" "headerCycles b' = headerCycles b" "width b' = width b" "retryList b' = retryList b"
      "busCache b' = busCache b" "inRetry b' = inRetry b" "tickNextIdle b' = tickNextIdle b" "busIdle b' = busIdle b"
  shows "bus_inv t b'"
proof -
  have wf: "bus_wf b" using inv by (simp add: bus_inv_def)
  have "\<forall>r. r \<in> set (retryList b') \<longleftrightarrow> port_flag r b' = Some True" using bus_wf_sel(5) [OF wf] p eq(4) by simp
  moreover have "\<forall>r \<ge> maxId b'. port_flag r b' = None" using wf m p(1) by (auto simp: bus_wf_def)
  ultimately have "bus_wf b'" using wf eq m(1) unfolding bus_wf_def by simp
  then show ?thesis using inv eq by (simp add: bus_inv_def)
qed

lemma getPort_inv:
  assumes inv: "bus_inv t b" and r: "getPort n b = Inr (i, b')"
  shows "bus_inv t b'"
proof -
  have m: "0 \<le> maxId b" "port_flag (maxId b) b = None" using inv by (simp_all add: bus_inv_def bus_wf_def)
  show ?thesis
  proof (cases n)
    case Default
    then have "b' = b\<lparr>defaultPort := Some False, cachedBlockSizeValid := False\<rparr>" "defaultPort b = None"
      using r by (auto simp: getPort_def split: if_splits)
    then show ?thesis using m by (intro bus_inv_new_port [OF inv, of b' defaultId]) (auto simp: port_flag_def defaultId_def)
  next
    case Functional
    then consider "b' = b" | "b' = b\<lparr>maxId := maxId b + 1, funcPort := True, funcPortId := maxId b, interfaces := (interfaces b)(maxId b \<mapsto> False)\<rparr>"
      using r by (auto simp: getPort_def split: if_splits)
    then show ?thesis
    proof cases
      case 2
      then show ?thesis using m by (intro bus_inv_new_port [OF inv, of b' "maxId b"]) (auto simp: port_flag_def defaultId_def)
    qed (use inv in simp)
  next
    case Other
    then have "b' = b\<lparr>maxId := maxId b + 1, interfaces := (interfaces b)(maxId b \<mapsto> False), cachedBlockSizeValid := False\<rparr>"
      using r by (auto simp: getPort_def res_simps)
    then show ?thesis using m by (intro bus_inv_new_port [OF inv, of b' "maxId b"]) (auto simp: port_flag_def defaultId_def)
  qed
qed

lemma bus_step_inv:
  assumes "bus_step sendf rty s s'" "accepts_express sendf" "answers_ok rty" "bus_inv (fst s) (fst (snd s))"
  shows "bus_inv (fst s') (fst (snd s'))"
  using assms
proof (induction rule: bus_step.induct)
  case (port n b i b' t w)
  then show ?case using getPort_inv by auto
next
  case (startup b w)
  then show ?case by (simp add: bus_startup_def bus_inv_def)
next
  case (ranges ask tell order i b w b' w' t)
  then show ?case using recvStatusChange_inv [OF ranges(1)] by simp
next
  case (packet pkt i t b w ok pkt' b' w')
  have inv: "bus_inv t b" using packet.prems(3) by simp
  then have b: "bus_wf b" "0 \<le> t" "\<not> inRetry b" by (simp_all add: bus_inv_def)
  have "taken t b'"
    by (rule recvTiming_taken [OF b(1,2) packet(1,2) _ _ _ packet(3), THEN conjunct1]) (use inv b(3) in \<open>auto simp: bus_inv_def\<close>)
  then show ?case using taken_inv b(2) by simp
next
  case (snoop pkt i t b w ok pkt' b' w')
  then show ?case using recvTiming_express [of sendf pkt b i t w ok pkt' b' w'] by (auto simp: bus_inv_def)
next
  case (idle b t w b' w' d)
  let ?b = "b\<lparr>busIdle := None\<rparr>"
  have "tickNextIdle b = t" "bus_wf ?b" "\<not> inRetry ?b" "0 \<le> t" using idle by (auto simp: bus_inv_def bus_wf_def)
  then have "bus_inv t b'"
    using recvRetry_inv [of ?b t rty sendf w b' w' d] idle by (auto simp: busIdle_process_def bus_inv_def)
  then show ?case by simp
next
  case (retry t b w b' w' d)
  then show ?case using recvRetry_inv [of b t rty sendf w b' w' d] by (auto simp: bus_inv_def)
next
  case (wait t t' b w)
  then show ?case by (auto simp: bus_inv_def split: option.splits)
next
  case (drain de t b n b' w)
  then show ?case by (auto simp: bus_inv_def bus_wf_def bus_drain_def split: if_splits)
qed simp

lemma Bus_new_inv: "Bus_new clk hdr wid resp bs = Inr b \<Longrightarrow> bus_inv 0 b"
  by (auto simp: Bus_new_def bus_inv_def bus_wf_def clearPortCache_def clearBusCache_def port_flag_def res_simps)

lemma bus_steps_inv:
  assumes "(bus_step sendf rty)\<^sup>*\<^sup>* s s'" "accepts_express sendf" "answers_ok rty" "bus_inv (fst s) (fst (snd s))"
  shows "bus_inv (fst s') (fst (snd s'))"
  using assms by (induction rule: rtranclp_induct) (auto intro: bus_step_inv)

section \<open>The properties of the bus\<close>

text \<open>
  C26: \<open>findPort\<close>, with its cache of three ranges, finds the same port as a search through the
  ranges of all ports, falls back to the default port in the same cases and panics in the same
  cases; it changes nothing but the cache, which stays consistent with the ranges.
\<close>

theorem findPort_is_destination:
  assumes "route_ok b"
  shows "case destination a b of
      Inl err \<Rightarrow> findPort a b = Inl err
    | Inr i \<Rightarrow> \<exists>cs. findPort a b = Inr (i, b\<lparr>portCache := cs\<rparr>) \<and> route_ok (b\<lparr>portCache := cs\<rparr>)"
  using assms by (rule findPort_ok)

text \<open>A bus with two ports, one of which answers for the addresses up to 4095.\<close>

definition sample_bus :: Bus where
  "sample_bus = \<lparr>clock = 1000, headerCycles = 1, width = 64, tickNextIdle = 0, drainEvent = None,
     portMap = [(RangeIn 0 4095, 1)], defaultRange = [], snoopPorts = [0],
     portCache = replicate 3 \<lparr>pc_valid = False, pc_id = 0, pc_start = 0, pc_end = 0\<rparr>, busIdle = None,
     inRetry = False, inRecvStatusChange = {}, maxId = 2, interfaces = [0 \<mapsto> False, 1 \<mapsto> False], retryList = [],
     defaultPort = None, funcPort = False, funcPortId = -4, responderSet = False, defaultBlockSize = 64,
     cachedBlockSize = 0, cachedBlockSizeValid = False, busCache = replicate 3 \<lparr>bc_valid = False, bc_id = 0, bc_port = 0\<rparr>\<rparr>"

lemma sample_bus_ok: "route_ok sample_bus" "bus_inv 0 sample_bus"
  by (auto simp: route_ok_def bus_inv_def bus_wf_def sample_bus_def port_flag_def RangeIn_def defaultId_def)

theorem findPort_is_destination_witness: "\<exists>cs. findPort 4095 sample_bus = Inr (1, sample_bus\<lparr>portCache := cs\<rparr>)"
proof -
  have "destination 4095 sample_bus = Inr 1"
    by (simp add: destination_def owner_def sample_bus_def in_range_def RangeIn_def)
  then show ?thesis using findPort_is_destination [OF sample_bus_ok(1), of 4095] by auto
qed

text \<open>
  When a port announces ranges that are not empty and keep clear of each other and of those of
  the other ports, the bus takes them without an error, replacing the old ranges of the port, and
  from then on routes every address in them to that port.
\<close>

theorem status_change_routes:
  assumes "route_ok b" "0 \<le> i" "i < maxId b" "interfaces b i \<noteq> None" "i \<notin> inRecvStatusChange b"
    "ask i w = (rs, snoops)" "clear_of (filter (\<lambda>x. snd x \<noteq> i) (portMap b)) rs"
  shows "\<exists>b' w'. recvStatusChange ask tell order i b w = Inr (b', w') \<and> route_ok b' \<and> (snoops \<longleftrightarrow> i \<in> set (snoopPorts b')) \<and>
     (\<forall>r \<in> set rs. \<forall>a. in_range a r \<longrightarrow> (\<exists>b''. findPort a b' = Inr (i, b'')))"
proof -
  obtain b' w' where r: "recvStatusChange ask tell order i b w = Inr (b', w')" "route_ok b'"
    "\<forall>r \<in> set rs. \<forall>a. in_range a r \<longrightarrow> destination a b' = Inr i" "snoops \<longleftrightarrow> i \<in> set (snoopPorts b')"
    using recvStatusChange_ok [of b i ask w rs snoops tell order] assms by blast
  have "\<exists>b''. findPort a b' = Inr (i, b'')" if "r \<in> set rs" "in_range a r" for a r
    using findPort_ok [OF r(2), of a] r(3) that by auto
  then show ?thesis using r by blast
qed

theorem status_change_routes_witness:
  "\<exists>b' w'. recvStatusChange (\<lambda>p w. ([RangeIn 8192 12287], False)) (\<lambda>p w. w) [] 0 sample_bus () = Inr (b', w') \<and>
     (\<exists>b''. findPort 9000 b' = Inr (0, b''))"
proof -
  let ?ask = "\<lambda>(p::int) (w::unit). ([RangeIn 8192 12287], False)"
  have "0 \<le> (0::int)" "0 < maxId sample_bus" "interfaces sample_bus 0 \<noteq> None" "0 \<notin> inRecvStatusChange sample_bus"
    "?ask 0 () = ([RangeIn 8192 12287], False)" "clear_of (filter (\<lambda>x. snd x \<noteq> 0) (portMap sample_bus)) [RangeIn 8192 12287]"
    by (simp_all add: sample_bus_def RangeIn_def meets_def)
  from status_change_routes [where ask = ?ask and tell = "\<lambda>p w. w" and order = "[]", OF sample_bus_ok(1) this]
  show ?thesis by (auto simp: in_range_def RangeIn_def)
qed

text \<open>
  C25: The bus is never stuck in a simulation that starts at tick 0.  From its construction on, with \<open>startup\<close> run
  at tick 0, whatever ports are connected, ranges announced, packets and retries received and drains begun,
  as long as no port refuses an express snoop and no port answers a retry with one, every port that
  is waiting for a retry is on the list once, and while one is waiting, or the bus is busy, the
  event that sends the next retry is scheduled for the tick at which the bus gets free.  A \<open>startup\<close> at a later
  tick, as after a checkpoint, is not covered: it can strand the ports, as shown below.
\<close>

theorem bus_never_stuck:
  assumes "Bus_new clk hdr wid resp bs = Inr b0" "accepts_express sendf" "answers_ok rty"
    "(bus_step sendf rty)\<^sup>*\<^sup>* (0, b0, w0) (t, b, w)"
  shows "(retryList b \<noteq> [] \<or> t < tickNextIdle b \<longrightarrow> busIdle b = Some (tickNextIdle b)) \<and> distinct (retryList b) \<and>
     (\<forall>p. p \<in> set (retryList b) \<longleftrightarrow> port_flag p b = Some True)"
proof -
  have "bus_inv t b" using bus_steps_inv [OF assms(4,2,3)] Bus_new_inv [OF assms(1)] by simp
  then show ?thesis by (auto simp: bus_inv_def bus_wf_def)
qed

definition sample_packet :: Packet where
  "sample_packet = \<lparr>p_flags = 0x0b00, p_cmd = ReadReq, p_req = Request_new, p_data = None, p_addr = 0x1040, p_size = 8, p_src = 0,
     p_dest = Broadcast, p_origCmd = InvalidCmd, p_time = 0, p_finishTime = 0, p_firstWordTime = 0, p_senderState = None\<rparr>"

lemma sample_packet_ok: "\<not> isExpressSnoop sample_packet" "0 \<le> sint (p_size sample_packet)"
  by (simp_all add: isExpressSnoop_def sample_packet_def PKT_EXPRESS_SNOOP_def flag_simps)

lemma replicate_3: "replicate 3 x = [x, x, x]"
  by (simp add: numeral_3_eq_3)

lemmas bus_eval = replicate_3 port_recvTiming_def recvTiming_def deliver_def route_timing_def calcPacketTiming_def cached_port_def checkBusCache_def
  interface_def updateBusCache_def plain_port_def findPort_def checkPortCache_def addToRetryList_def onRetryList_def set_onRetryList_def
  occupyBus_def bus_reschedule_def has_port_def rm_find_pos_def rm_find_def getSrc_def getDest_def getAddr_def getSize_def setSrc_def
  isExpressSnoop_def memInhibitAsserted_def pkt_isResponse_def pkt_hasData_def cmd_defs Broadcast_def defaultId_def
  PKT_EXPRESS_SNOOP_def PKT_VALID_SRC_def PKT_VALID_DST_def PKT_VALID_ADDR_def PKT_VALID_SIZE_def PKT_MEM_INHIBIT_def

lemma sample_refused:
  "\<exists>b0 b. Bus_new 1000 1 64 False 64 = Inr b0 \<and>
     (bus_step (\<lambda>p pkt w. (isExpressSnoop pkt, pkt, w)) (\<lambda>p w. (None, w)))\<^sup>*\<^sup>* (0, b0, ()) (0, b, ()) \<and> retryList b = [0]"
proof -
  let ?send = "\<lambda>(p::int) pkt (w::unit). (isExpressSnoop pkt, pkt, w)" and ?rty = "\<lambda>(p::int) (w::unit). (None, w)"
  let ?step = "bus_step ?send ?rty"
  obtain b0 where b0: "Bus_new 1000 1 64 False 64 = Inr b0" by (simp add: Bus_new_def)
  obtain b1 where b1: "getPort Default b0 = Inr (defaultId, b1)" using b0 by (auto simp: Bus_new_def getPort_def clearPortCache_def clearBusCache_def)
  obtain b2 where b2: "getPort Other b1 = Inr (0, b2)" using b0 b1 by (auto simp: Bus_new_def getPort_def clearPortCache_def clearBusCache_def)
  have "\<exists>pkt' b3. port_recvTiming ?send 0 0 sample_packet b2 () = Inr (False, pkt', b3, ()) \<and> retryList b3 = [0]"
    using b0 b1 b2 by (auto simp: Bus_new_def getPort_def clearPortCache_def clearBusCache_def bus_eval sample_packet_def flag_simps guard_res_def simp del: not_None_eq)
  then obtain pkt' b3 where r: "port_recvTiming ?send 0 0 sample_packet b2 () = Inr (False, pkt', b3, ())" "retryList b3 = [0]"
    by blast
  have "?step (0, b0, ()) (0, b1, ())" by (rule bus_step.port [OF b1])
  moreover have "?step (0, b1, ()) (0, b2, ())" by (rule bus_step.port [OF b2])
  moreover have "?step (0, b2, ()) (0, b3, ())" by (rule bus_step.packet [OF sample_packet_ok r(1)])
  ultimately have "?step\<^sup>*\<^sup>* (0, b0, ()) (0, b3, ())" by (meson converse_rtranclp_into_rtranclp rtranclp.rtrancl_refl)
  then show ?thesis using b0 r(2) by blast
qed

theorem bus_never_stuck_witness:
  "\<exists>b0 b. Bus_new 1000 1 64 False 64 = Inr b0 \<and>
     (bus_step (\<lambda>p pkt w. (isExpressSnoop pkt, pkt, w)) (\<lambda>p w. (None, w)))\<^sup>*\<^sup>* (0, b0, ()) (0, b, ()) \<and> retryList b = [0] \<and>
     busIdle b = Some (tickNextIdle b)"
proof -
  let ?send = "\<lambda>(p::int) pkt (w::unit). (isExpressSnoop pkt, pkt, w)" and ?rty = "\<lambda>(p::int) (w::unit). (None, w)"
  obtain b0 b where s: "Bus_new 1000 1 64 False 64 = Inr b0" "(bus_step ?send ?rty)\<^sup>*\<^sup>* (0, b0, ()) (0, b, ())" "retryList b = [0]"
    using sample_refused by blast
  have "accepts_express ?send" "answers_ok ?rty" by (simp_all add: accepts_express_def answers_ok_def)
  from bus_never_stuck [OF s(1) this s(2)] s show ?thesis by auto
qed

text \<open>
  C27: \<open>startup\<close> can make a bus that does not deliver anything.  When it runs after the tick at
  which the bus gets free, as on a start from a checkpoint, it moves that tick to the next cycle
  but schedules no event; a packet that arrives before then puts its port on the retry list, and
  from then on every packet of every other port, at any time, is refused as well, and still no
  event is scheduled.
\<close>

theorem startup_strands_ports:
  assumes "bus_wf b" "retryList b = []" "\<not> inRetry b" "busIdle b = None" "tickNextIdle b < t"
    "port_flag i b = Some False" "\<not> isExpressSnoop pkt"
  shows "\<exists>pkt' b'. port_recvTiming sendf i t pkt (bus_startup t b) w = Inr (False, pkt', b', w) \<and> retryList b' = [i] \<and> busIdle b' = None \<and>
     (\<forall>j t' pkt2. port_flag j b' = Some False \<longrightarrow> \<not> isExpressSnoop pkt2 \<longrightarrow>
        (\<exists>pkt3 b''. port_recvTiming sendf j t' pkt2 b' w = Inr (False, pkt3, b'', w) \<and> busIdle b'' = None))"
proof -
  let ?b = "bus_startup t b"
  have b: "bus_wf ?b" "\<not> inRetry ?b" "retryList ?b = []" "busIdle ?b = None" "port_flag i ?b = Some False"
    using assms by (auto simp: bus_startup_def bus_wf_def)
  obtain b' where b': "port_recvTiming sendf i t pkt ?b w = Inr (False, setSrc i pkt, b', w)" "retryList b' = [i]"
    "\<not> inRetry b'" "busIdle b' = None" "bus_wf b'"
    using busy_refuses [OF b(1,2) disjI1 b(5) assms(7), where sendf = sendf and w = w] bus_startup_busy [OF assms(1,5)] b(3,4) by auto
  have "\<exists>pkt3 b''. port_recvTiming sendf j t' pkt2 b' w = Inr (False, pkt3, b'', w) \<and> busIdle b'' = None"
    if "port_flag j b' = Some False" "\<not> isExpressSnoop pkt2" for j t' pkt2
    using busy_refuses [OF b'(5,3) disjI2 that, where t = t' and sendf = sendf and w = w] b'(2,4) by auto
  then show ?thesis using b'(1,2,4) by blast
qed

theorem startup_strands_ports_witness:
  "\<exists>pkt' b'. port_recvTiming (\<lambda>p pkt w. (True, pkt, w)) 0 1500 sample_packet (bus_startup 1500 sample_bus) () = Inr (False, pkt', b', ()) \<and>
     retryList b' = [0] \<and> busIdle b' = None"
proof -
  have "bus_wf sample_bus" using sample_bus_ok(2) by (simp add: bus_inv_def)
  moreover have "retryList sample_bus = []" "\<not> inRetry sample_bus" "busIdle sample_bus = None" "tickNextIdle sample_bus < 1500"
    "port_flag 0 sample_bus = Some False" by (simp_all add: sample_bus_def port_flag_def defaultId_def)
  ultimately show ?thesis
    using startup_strands_ports [of sample_bus 1500 0 sample_packet "\<lambda>p pkt w. (True, pkt, w)" "()"] sample_packet_ok(1) by auto
qed

end
