(* ===== verification/Physical_Memory.thy ===== *)
theory Physical_Memory
  imports Timing_Port Range_Map
begin

unbundle bit_operations_syntax

text \<open>
  Memory, \<open>mem/physical.{hh,cc}\<close>: the bytes, the reservations of load-locked accesses, atomic and
  functional accesses, and the ports.  The contents are a list of bytes, or \<open>None\<close> for the
  configuration without contents (\<open>pmemAddr\<close> is null).  The random part of the latency is an
  argument, as is the size of pages, which belong to the instruction set.  The host that compares
  the bytes of a conditional swap is little-endian.  The compressed checkpoint file and the
  printing of a byte are not modelled.
\<close>

section \<open>State\<close>

record LockedAddr =
  la_addr :: Addr
  la_contextId :: int

record PhysicalMemory =
  pm_locked :: "LockedAddr list"
  pm_mem :: "pkt_data option"
  pm_pagePtr :: int
  pm_lat :: Tick
  pm_lat_var :: Tick
  pm_ports :: "SimpleTimingPort option list"
  pm_size :: Addr
  pm_start :: Addr

definition la_mask :: "Addr \<Rightarrow> Addr" where
  "la_mask a = a AND NOT 0xf"

definition LockedAddr_new :: "Request \<Rightarrow> LockedAddr res" where
  "LockedAddr_new r =
     bind_res (req_getPaddr r) (\<lambda>a. bind_res (req_contextId r) (\<lambda>c. Inr \<lparr>la_addr = la_mask a, la_contextId = c\<rparr>))"

text \<open>The contents of fresh memory are an argument: they are zero only if the configuration asks for it.\<close>

definition PhysicalMemory_new :: "range \<Rightarrow> Addr \<Rightarrow> bool \<Rightarrow> bool \<Rightarrow> pkt_data \<Rightarrow> Tick \<Rightarrow> Tick \<Rightarrow> PhysicalMemory res" where
  "PhysicalMemory_new r pageBytes null zero fresh lat lat_var =
     guard_res Panic (range_size r mod pageBytes = 0)
       (Inr \<lparr>pm_locked = [],
             pm_mem = (if null then None else Some (if zero then replicate (unat (range_size r)) (Some 0) else fresh)),
             pm_pagePtr = 0, pm_lat = lat, pm_lat_var = lat_var, pm_ports = [], pm_size = range_size r, pm_start = rg_start r\<rparr>)"

text \<open>The shift is one of 32-bit signed integers: a page whose offset does not fit is undefined behaviour.\<close>

definition new_page :: "nat \<Rightarrow> PhysicalMemory \<Rightarrow> (Addr \<times> PhysicalMemory) res" where
  "new_page logVMPageSize m =
     guard_res Undefined (0 \<le> pm_pagePtr m \<and> pm_pagePtr m * 2 ^ logVMPageSize < 2 ^ 31)
       (Inr (word_of_int (pm_pagePtr m * 2 ^ logVMPageSize) + pm_start m, m\<lparr>pm_pagePtr := pm_pagePtr m + 1\<rparr>))"

definition pm_deviceBlockSize :: nat where
  "pm_deviceBlockSize = 0"

definition calculateLatency :: "Tick \<Rightarrow> PhysicalMemory \<Rightarrow> Tick" where
  "calculateLatency rnd m = (if pm_lat_var m \<noteq> 0 then pm_lat m + rnd else pm_lat m)"

section \<open>Reservations\<close>

fun update_lock :: "int \<Rightarrow> Addr \<Rightarrow> LockedAddr list \<Rightarrow> LockedAddr list option" where
  "update_lock c a [] = None"
| "update_lock c a (l # ls) =
     (if la_contextId l = c then Some (l\<lparr>la_addr := a\<rparr> # ls) else map_option ((#) l) (update_lock c a ls))"

definition pm_trackLoadLocked :: "Packet \<Rightarrow> PhysicalMemory \<Rightarrow> PhysicalMemory res" where
  "pm_trackLoadLocked pkt m =
     bind_res (req_getPaddr (p_req pkt)) (\<lambda>a.
     bind_res (req_contextId (p_req pkt)) (\<lambda>c.
       case update_lock c (la_mask a) (pm_locked m) of
         Some ls \<Rightarrow> Inr (m\<lparr>pm_locked := ls\<rparr>)
       | None \<Rightarrow> bind_res (LockedAddr_new (p_req pkt)) (\<lambda>l. Inr (m\<lparr>pm_locked := l # pm_locked m\<rparr>))))"

text \<open>The loop of \<open>checkLockedAddrList\<close>: whether a store conditional succeeds, and the records left.\<close>

fun check_locks :: "bool \<Rightarrow> Request \<Rightarrow> Addr \<Rightarrow> bool \<Rightarrow> LockedAddr list \<Rightarrow> (bool \<times> LockedAddr list) res" where
  "check_locks isLLSC r a success [] = Inr (success, [])"
| "check_locks isLLSC r a success (l # ls) =
     (if la_addr l = a
      then bind_res (if isLLSC then bind_res (req_contextId r) (\<lambda>c. Inr (la_contextId l = c)) else Inr False) (\<lambda>mine.
             check_locks isLLSC r a (success \<or> mine) ls)
      else bind_res (check_locks isLLSC r a success ls) (\<lambda>(s, ls). Inr (s, l # ls)))"

definition set_sc_result :: "bool \<Rightarrow> Packet \<Rightarrow> Packet" where
  "set_sc_result success pkt = pkt\<lparr>p_req := req_setExtraData (if success then 1 else 0) (p_req pkt)\<rparr>"

definition checkLockedAddrList :: "Packet \<Rightarrow> PhysicalMemory \<Rightarrow> (bool \<times> Packet \<times> PhysicalMemory) res" where
  "checkLockedAddrList pkt m =
     bind_res (req_getPaddr (p_req pkt)) (\<lambda>a.
     bind_res (check_locks (pkt_isLLSC pkt) (p_req pkt) (la_mask a) (\<not> pkt_isLLSC pkt) (pm_locked m)) (\<lambda>(success, ls).
       Inr (success, if pkt_isLLSC pkt then set_sc_result success pkt else pkt, m\<lparr>pm_locked := ls\<rparr>)))"

definition writeOK :: "Packet \<Rightarrow> PhysicalMemory \<Rightarrow> (bool \<times> Packet \<times> PhysicalMemory) res" where
  "writeOK pkt m =
     (if pm_locked m = []
      then Inr (\<not> pkt_isLLSC pkt, if pkt_isLLSC pkt then set_sc_result False pkt else pkt, m)
      else checkLockedAddrList pkt m)"

section \<open>Accesses\<close>

text \<open>The assertion that an access lies in memory is on 64-bit sums.\<close>

definition in_memory :: "Packet \<Rightarrow> PhysicalMemory \<Rightarrow> bool res" where
  "in_memory pkt m =
     bind_res (getAddr pkt) (\<lambda>a. bind_res (getSize pkt) (\<lambda>n.
       Inr (a \<ge> pm_start m \<and> a + ucast n \<le> pm_start m + pm_size m)))"

definition host_offset :: "Packet \<Rightarrow> PhysicalMemory \<Rightarrow> nat" where
  "host_offset pkt m = unat (p_addr pkt - pm_start m)"

definition read_into :: "Packet \<Rightarrow> PhysicalMemory \<Rightarrow> Packet res" where
  "read_into pkt m = (case pm_mem m of None \<Rightarrow> Inr pkt | Some bytes \<Rightarrow> setData bytes (host_offset pkt m) pkt)"

definition write_from :: "Packet \<Rightarrow> PhysicalMemory \<Rightarrow> PhysicalMemory res" where
  "write_from pkt m =
     (case pm_mem m of
        None \<Rightarrow> Inr m
      | Some bytes \<Rightarrow> bind_res (writeData bytes (host_offset pkt m) pkt) (\<lambda>bytes. Inr (m\<lparr>pm_mem := Some bytes\<rparr>)))"

definition le_bytes :: "nat \<Rightarrow> 64 word \<Rightarrow> pkt_data" where
  "le_bytes n v = map (\<lambda>i. Some (ucast (drop_bit (8 * i) v))) [0..<n]"

text \<open>Whether a swap overwrites memory: the bytes there against the condition of the request.\<close>

definition swap_overwrites :: "Packet \<Rightarrow> pkt_data \<Rightarrow> nat \<Rightarrow> bool res" where
  "swap_overwrites pkt bytes off =
     (if req_isCondSwap (p_req pkt)
      then if p_size pkt = 8 \<or> p_size pkt = 4
           then bind_res (req_getExtraData (p_req pkt)) (\<lambda>v.
                  let n = unat (p_size pkt) in Inr (take n (drop off bytes) = le_bytes n v))
           else Inl Panic
      else Inr True)"

definition do_swap :: "Packet \<Rightarrow> PhysicalMemory \<Rightarrow> (Packet \<times> PhysicalMemory) res" where
  "do_swap pkt m =
     (case pm_mem m of
        None \<Rightarrow> Inl Panic
      | Some bytes \<Rightarrow>
          guard_res AssertFail (p_size pkt \<le> 8)
            (bind_res (read_into pkt m) (\<lambda>pkt'.
             bind_res (swap_overwrites pkt bytes (host_offset pkt m)) (\<lambda>overwrite.
             bind_res (if overwrite then write_from pkt m else Inr m) (\<lambda>m.
             guard_res AssertFail (\<not> req_isInstFetch (p_req pkt)) (Inr (pkt', m)))))))"

definition do_access :: "Packet \<Rightarrow> PhysicalMemory \<Rightarrow> (Packet \<times> PhysicalMemory) res" where
  "do_access pkt m =
     (if p_cmd pkt = SwapReq then do_swap pkt m
      else if pkt_isRead pkt
      then guard_res AssertFail (\<not> pkt_isWrite pkt)
             (bind_res (if pkt_isLLSC pkt then pm_trackLoadLocked pkt m else Inr m) (\<lambda>m.
              bind_res (read_into pkt m) (\<lambda>pkt. Inr (pkt, m))))
      else if pkt_isWrite pkt
      then bind_res (writeOK pkt m) (\<lambda>(ok, pkt, m).
             if ok
             then bind_res (write_from pkt m) (\<lambda>m. guard_res AssertFail (\<not> req_isInstFetch (p_req pkt)) (Inr (pkt, m)))
             else Inr (pkt, m))
      else if pkt_isInvalidate pkt
      then bind_res (if pkt_needsResponse pkt then makeAtomicResponse pkt else Inr pkt) (\<lambda>pkt. Inr (pkt, m))
      else Inl Panic)"

definition doAtomicAccess :: "Tick \<Rightarrow> Packet \<Rightarrow> PhysicalMemory \<Rightarrow> (Tick \<times> Packet \<times> PhysicalMemory) res" where
  "doAtomicAccess rnd pkt m =
     bind_res (in_memory pkt m) (\<lambda>ok. guard_res AssertFail ok
       (if memInhibitAsserted pkt then Inr (0, pkt, m)
        else bind_res (do_access pkt m) (\<lambda>(pkt, m).
             bind_res (if pkt_needsResponse pkt then makeAtomicResponse pkt else Inr pkt) (\<lambda>pkt.
               Inr (calculateLatency rnd m, pkt, m)))))"

definition doFunctionalAccess :: "Packet \<Rightarrow> PhysicalMemory \<Rightarrow> (Packet \<times> PhysicalMemory) res" where
  "doFunctionalAccess pkt m =
     bind_res (in_memory pkt m) (\<lambda>ok. guard_res AssertFail ok
       (if pkt_isRead pkt
        then bind_res (read_into pkt m) (\<lambda>pkt. bind_res (makeAtomicResponse pkt) (\<lambda>pkt. Inr (pkt, m)))
        else if pkt_isWrite pkt
        then bind_res (write_from pkt m) (\<lambda>m. bind_res (makeAtomicResponse pkt) (\<lambda>pkt. Inr (pkt, m)))
        else if pkt_isPrint pkt then Inr (pkt, m)
        else Inl Panic))"

section \<open>Ports\<close>

datatype mem_port_name = FunctionalPort | MemPort nat | UnknownPort

text \<open>The port at an index, \<open>None\<close> for one outside the table (\<open>functional\<close>).\<close>

definition pm_getPort :: "mem_port_name \<Rightarrow> PhysicalMemory \<Rightarrow> (nat option \<times> PhysicalMemory) res" where
  "pm_getPort n m =
     (case n of
        FunctionalPort \<Rightarrow> Inr (None, m)
      | UnknownPort \<Rightarrow> Inl Panic
      | MemPort idx \<Rightarrow>
          let ports = pm_ports m @ replicate (idx + 1 - length (pm_ports m)) None
          in if ports ! idx \<noteq> None then Inl Panic
             else Inr (Some idx, m\<lparr>pm_ports := ports[idx := Some SimpleTimingPort_new]\<rparr>))"

definition getAddressRanges :: "PhysicalMemory \<Rightarrow> range list \<times> bool" where
  "getAddressRanges m = ([RangeSize (pm_start m) (pm_size m)], False)"

text \<open>\<open>MemoryPort::recvFunctional\<close>: packets that wait in the port are looked at first.\<close>

definition mem_recvFunctional :: "nat \<Rightarrow> Packet \<Rightarrow> PhysicalMemory \<Rightarrow> (Packet \<times> PhysicalMemory) res" where
  "mem_recvFunctional idx pkt m =
     (case pm_ports m ! idx of
        None \<Rightarrow> Inl Undefined
      | Some s \<Rightarrow>
          bind_res (tp_checkFunctional pkt s) (\<lambda>(done, pkt, s).
            let m = m\<lparr>pm_ports := (pm_ports m)[idx := Some s]\<rparr>
            in if done then Inr (pkt, m) else doFunctionalAccess pkt m))"

text \<open>The count of ports that have something to send; a missing port is a null pointer.\<close>

fun drain_ports :: "SimpleTimingPort option list \<Rightarrow> (nat \<times> SimpleTimingPort option list) res" where
  "drain_ports [] = Inr (0, [])"
| "drain_ports (None # ps) = Inl Undefined"
| "drain_ports (Some s # ps) =
     (case tp_drain s of (n, s) \<Rightarrow> bind_res (drain_ports ps) (\<lambda>(k, ps). Inr (n + k, Some s # ps)))"

definition pm_drain :: "PhysicalMemory \<Rightarrow> (nat \<times> PhysicalMemory) res" where
  "pm_drain m = bind_res (drain_ports (pm_ports m)) (\<lambda>(k, ps). Inr (k, m\<lparr>pm_ports := ps\<rparr>))"

text \<open>\<open>init\<close> stops if nothing is connected, and otherwise tells the peer of every port.\<close>

definition pm_init :: "(nat \<Rightarrow> 'w \<Rightarrow> 'w) \<Rightarrow> PhysicalMemory \<Rightarrow> 'w \<Rightarrow> 'w res" where
  "pm_init tell m w =
     guard_res Fatal (pm_ports m \<noteq> []) (Inr (fold tell (filter (\<lambda>i. pm_ports m ! i \<noteq> None) [0..<length (pm_ports m)]) w))"

section \<open>The table of reservations\<close>

text \<open>
  Every context has one reservation at most: a table from contexts to blocks of 16 bytes.  What a
  packet is to do to the table: a load-locked enters the block, and whatever writes takes away every reservation of
  its block, as the comment at \<open>writeOK\<close> asks of all stores.
\<close>

definition lock_of :: "LockedAddr list \<Rightarrow> int \<Rightarrow> Addr option" where
  "lock_of ls = map_of (map (\<lambda>l. (la_contextId l, la_addr l)) ls)"

definition req_block :: "Packet \<Rightarrow> Addr" where
  "req_block pkt = la_mask (r_paddr (p_req pkt))"

definition reserve :: "Packet \<Rightarrow> (int \<Rightarrow> Addr option) \<Rightarrow> int \<Rightarrow> Addr option" where
  "reserve pkt T =
     (if memInhibitAsserted pkt then T
      else if pkt_isRead pkt \<and> pkt_isLLSC pkt then T(r_contextId (p_req pkt) \<mapsto> req_block pkt)
      else if pkt_isWrite pkt then (\<lambda>c. if T c = Some (req_block pkt) then None else T c)
      else T)"

lemma update_lock_table:
  "(case update_lock c a ls of None \<Rightarrow> lock_of ls c = None
    | Some ls' \<Rightarrow> lock_of ls' = (lock_of ls)(c \<mapsto> a) \<and> map la_contextId ls' = map la_contextId ls)"
  by (induction ls) (auto simp: lock_of_def fun_eq_iff split: option.splits)

lemma lock_of_dom: "lock_of ls c = None \<longleftrightarrow> c \<notin> la_contextId ` set ls"
  by (induction ls) (auto simp: lock_of_def)

lemma trackLoadLocked_table:
  assumes "pm_trackLoadLocked pkt m = Inr m'" "distinct (map la_contextId (pm_locked m))"
  shows "lock_of (pm_locked m') = (lock_of (pm_locked m))(r_contextId (p_req pkt) \<mapsto> req_block pkt) \<and>
     distinct (map la_contextId (pm_locked m')) \<and> m' = m\<lparr>pm_locked := pm_locked m'\<rparr>"
proof -
  let ?c = "r_contextId (p_req pkt)" and ?a = "req_block pkt"
  have r: "req_getPaddr (p_req pkt) = Inr (r_paddr (p_req pkt))" "req_contextId (p_req pkt) = Inr ?c"
    using assms(1) by (auto simp: pm_trackLoadLocked_def res_simps req_getPaddr_def req_contextId_def)
  show ?thesis
  proof (cases "update_lock ?c ?a (pm_locked m)")
    case (Some ls)
    then have "m' = m\<lparr>pm_locked := ls\<rparr>" using assms(1) r by (simp add: pm_trackLoadLocked_def req_block_def)
    then show ?thesis using update_lock_table [where c = ?c and a = ?a and ls = "pm_locked m"] Some assms(2) by simp
  next
    case None
    then have m': "m' = m\<lparr>pm_locked := \<lparr>la_addr = ?a, la_contextId = ?c\<rparr> # pm_locked m\<rparr>"
      using assms(1) r by (auto simp: pm_trackLoadLocked_def LockedAddr_new_def req_block_def)
    have "?c \<notin> la_contextId ` set (pm_locked m)"
      using update_lock_table [where c = ?c and a = ?a and ls = "pm_locked m"] None by (simp add: lock_of_dom)
    then show ?thesis using m' assms(2) by (simp add: lock_of_def)
  qed
qed

text \<open>The loop keeps the records of other blocks, and finds out whether the context had one here.\<close>

lemma check_locks_spec:
  assumes "check_locks sc r a success ls = Inr (s, ls')"
  shows "ls' = filter (\<lambda>l. la_addr l \<noteq> a) ls \<and>
     (s \<longleftrightarrow> success \<or> (sc \<and> (\<exists>l \<in> set ls. la_addr l = a \<and> la_contextId l = r_contextId r)))"
  using assms
proof (induction ls arbitrary: success ls')
  case (Cons l ls)
  show ?case
  proof (cases "la_addr l = a")
    case True
    then obtain mine where m: "(if sc then bind_res (req_contextId r) (\<lambda>c. Inr (la_contextId l = c)) else Inr False) = Inr mine"
      "check_locks sc r a (success \<or> mine) ls = Inr (s, ls')" using Cons.prems by (auto simp: bind_res_Inr)
    have "mine \<longleftrightarrow> sc \<and> la_contextId l = r_contextId r" using m(1) by (auto simp: res_simps req_contextId_def split: if_splits)
    then show ?thesis using Cons.IH [OF m(2)] True by auto
  next
    case False
    then obtain ls2 where "check_locks sc r a success ls = Inr (s, ls2)" "ls' = l # ls2" using Cons.prems by (auto simp: res_simps)
    then show ?thesis using Cons.IH False by auto
  qed
qed simp

lemma lock_of_filter:
  "distinct (map la_contextId ls) \<Longrightarrow>
   lock_of (filter (\<lambda>l. la_addr l \<noteq> a) ls) = (\<lambda>c. if lock_of ls c = Some a then None else lock_of ls c)"
proof (induction ls)
  case (Cons l ls)
  have "lock_of ls (la_contextId l) = None" using Cons.prems lock_of_dom by auto
  then have n: "lock_of (filter (\<lambda>l. la_addr l \<noteq> a) ls) (la_contextId l) = None" using Cons by simp
  show ?case
  proof
    fix c
    show "lock_of (filter (\<lambda>l. la_addr l \<noteq> a) (l # ls)) c = (if lock_of (l # ls) c = Some a then None else lock_of (l # ls) c)"
      using Cons n by (cases "c = la_contextId l") (auto simp: lock_of_def)
  qed
qed (simp add: lock_of_def)

lemma lock_of_member:
  "distinct (map la_contextId ls) \<Longrightarrow> lock_of ls c = Some a \<longleftrightarrow> (\<exists>l \<in> set ls. la_addr l = a \<and> la_contextId l = c)"
  by (induction ls) (auto simp: lock_of_def rev_image_eqI)

lemma writeOK_table:
  assumes "writeOK pkt m = Inr (ok, pkt', m')" "distinct (map la_contextId (pm_locked m))"
  shows "lock_of (pm_locked m') = (\<lambda>c. if lock_of (pm_locked m) c = Some (req_block pkt) then None else lock_of (pm_locked m) c) \<and>
     distinct (map la_contextId (pm_locked m')) \<and> m' = m\<lparr>pm_locked := pm_locked m'\<rparr> \<and>
     (ok \<longleftrightarrow> pkt_isLLSC pkt \<longrightarrow> lock_of (pm_locked m) (r_contextId (p_req pkt)) = Some (req_block pkt)) \<and>
     pkt' = (if pkt_isLLSC pkt then set_sc_result ok pkt else pkt)"
proof (cases "pm_locked m = []")
  case True
  then show ?thesis using assms by (auto simp: writeOK_def lock_of_def)
next
  case False
  let ?a = "la_mask (r_paddr (p_req pkt))" and ?sc = "pkt_isLLSC pkt"
  obtain ls where c: "check_locks ?sc (p_req pkt) ?a (\<not> ?sc) (pm_locked m) = Inr (ok, ls)" "m' = m\<lparr>pm_locked := ls\<rparr>"
    "pkt' = (if ?sc then set_sc_result ok pkt else pkt)"
    using assms(1) False by (auto simp: writeOK_def checkLockedAddrList_def req_getPaddr_def res_simps)
  note s = check_locks_spec [OF c(1)]
  show ?thesis
    using s c(2,3) lock_of_filter [OF assms(2)] lock_of_member [OF assms(2)] assms(2) by (auto simp: req_block_def distinct_map_filter)
qed

text \<open>Nothing but a load-locked and a store changes the table, and the ports and limits stay.\<close>

lemma makeAtomicResponse_keeps: "makeAtomicResponse pkt = Inr pkt' \<Longrightarrow> p_data pkt' = p_data pkt \<and> p_req pkt' = p_req pkt"
  by (auto simp: makeAtomicResponse_def makeResponse_def res_simps Let_def)

lemma respond_keeps:
  "(if pkt_needsResponse pkt then makeAtomicResponse pkt else Inr pkt) = Inr pkt' \<Longrightarrow> p_data pkt' = p_data pkt \<and> p_req pkt' = p_req pkt"
  using makeAtomicResponse_keeps by (auto split: if_splits)

lemma read_into_keeps: "read_into pkt m = Inr pkt' \<Longrightarrow> p_req pkt' = p_req pkt"
  by (auto simp: read_into_def setData_def res_simps split: option.splits)

lemma write_from_keeps: "write_from pkt m = Inr m' \<Longrightarrow> m' = m\<lparr>pm_mem := pm_mem m'\<rparr>"
  by (auto simp: write_from_def res_simps split: option.splits)

lemma do_swap_keeps: "do_swap pkt m = Inr (pkt', m') \<Longrightarrow> pm_locked m' = pm_locked m"
  by (auto simp: do_swap_def res_simps split: option.splits if_splits dest!: write_from_keeps) (metis PhysicalMemory.select_convs(1) PhysicalMemory.surjective PhysicalMemory.update_convs(2))

lemma doAtomicAccess_table:
  assumes r: "doAtomicAccess rnd pkt m = Inr (l, pkt', m')" and d: "distinct (map la_contextId (pm_locked m))" and swap: "p_cmd pkt \<noteq> SwapReq"
  shows "lock_of (pm_locked m') = reserve pkt (lock_of (pm_locked m)) \<and> distinct (map la_contextId (pm_locked m'))"
proof (cases "memInhibitAsserted pkt")
  case True
  then show ?thesis using r d by (auto simp: doAtomicAccess_def res_simps reserve_def)
next
  case False
  then obtain pkt1 where a: "do_access pkt m = Inr (pkt1, m')" using r by (auto simp: doAtomicAccess_def res_simps)
  consider "pkt_isRead pkt" "pkt_isLLSC pkt" | "pkt_isRead pkt" "\<not> pkt_isLLSC pkt"
    | "\<not> pkt_isRead pkt" "pkt_isWrite pkt" | "\<not> pkt_isRead pkt" "\<not> pkt_isWrite pkt" by blast
  then show ?thesis
  proof cases
    case 1
    then have "pm_trackLoadLocked pkt m = Inr m'" using a swap by (auto simp: do_access_def res_simps)
    then show ?thesis using trackLoadLocked_table d 1 False by (auto simp: reserve_def)
  next
    case 2
    then show ?thesis using a d swap by (auto simp: do_access_def reserve_def res_simps)
  next
    case 3
    then obtain ok pkt2 m2 where w: "writeOK pkt m = Inr (ok, pkt2, m2)" and m': "m' = m2 \<or> write_from pkt2 m2 = Inr m'"
      using a swap by (auto simp: do_access_def res_simps split: if_splits)
    have "pm_locked m' = pm_locked m2"
      using m' write_from_keeps by (metis PhysicalMemory.select_convs(1) PhysicalMemory.surjective PhysicalMemory.update_convs(2))
    then show ?thesis using writeOK_table [OF w d] 3 False by (auto simp: reserve_def)
  next
    case 4
    then show ?thesis using a d swap by (auto simp: do_access_def reserve_def res_simps split: if_splits)
  qed
qed

text \<open>A swap writes memory without \<open>writeOK\<close>: it leaves the table alone.\<close>

lemma swap_keeps_reservations:
  assumes "doAtomicAccess rnd pkt m = Inr (l, pkt', m')" "p_cmd pkt = SwapReq"
  shows "pm_locked m' = pm_locked m"
  using assms do_swap_keeps by (auto simp: doAtomicAccess_def do_access_def res_simps split: if_splits)

text \<open>A sequence of accesses, each with the random part of its latency.\<close>

fun run_accesses :: "(Tick \<times> Packet) list \<Rightarrow> PhysicalMemory \<Rightarrow> PhysicalMemory res" where
  "run_accesses [] m = Inr m"
| "run_accesses ((rnd, pkt) # ps) m = bind_res (doAtomicAccess rnd pkt m) (\<lambda>(_, _, m). run_accesses ps m)"

lemma run_accesses_table:
  "run_accesses ps m = Inr m' \<Longrightarrow> distinct (map la_contextId (pm_locked m)) \<Longrightarrow> \<forall>p \<in> set ps. p_cmd (snd p) \<noteq> SwapReq \<Longrightarrow>
   lock_of (pm_locked m') = fold (\<lambda>p. reserve (snd p)) ps (lock_of (pm_locked m)) \<and> distinct (map la_contextId (pm_locked m'))"
proof (induction ps arbitrary: m)
  case (Cons p ps)
  obtain rnd pkt where p: "p = (rnd, pkt)" by (cases p)
  then obtain l pkt' m1 where a: "doAtomicAccess rnd pkt m = Inr (l, pkt', m1)" "run_accesses ps m1 = Inr m'"
    using Cons.prems(1) by (auto simp: res_simps)
  show ?case using Cons.IH [OF a(2)] doAtomicAccess_table [OF a(1) Cons.prems(2)] Cons.prems(3) p by simp
qed simp

section \<open>Reading and writing\<close>

text \<open>Memory whose bytes are there, and an access inside it, without wrap-around.\<close>

definition mem_ok :: "PhysicalMemory \<Rightarrow> bool" where
  "mem_ok m \<longleftrightarrow> (case pm_mem m of None \<Rightarrow> False | Some bytes \<Rightarrow> length bytes = unat (pm_size m)) \<and>
     unat (pm_start m) + unat (pm_size m) < 2 ^ 64 \<and> distinct (map la_contextId (pm_locked m))"

definition access_ok :: "Packet \<Rightarrow> PhysicalMemory \<Rightarrow> bool" where
  "access_ok pkt m \<longleftrightarrow> flags_isSet (p_flags pkt) PKT_VALID_ADDR \<and> flags_isSet (p_flags pkt) PKT_VALID_SIZE \<and>
     flags_isSet (p_flags pkt) (PKT_STATIC_DATA OR PKT_DYNAMIC_DATA) \<and>
     (case p_data pkt of None \<Rightarrow> False | Some d \<Rightarrow> length d = unat (p_size pkt)) \<and>
     \<not> memInhibitAsserted pkt \<and> req_hasPaddr (p_req pkt) \<and> \<not> req_isInstFetch (p_req pkt) \<and>
     unat (pm_start m) \<le> unat (p_addr pkt) \<and> unat (p_addr pkt) + unat (p_size pkt) \<le> unat (pm_start m) + unat (pm_size m)"

lemma access_ok_sel:
  assumes "access_ok pkt m"
  shows "getAddr pkt = Inr (p_addr pkt)" "getSize pkt = Inr (p_size pkt)" "req_getPaddr (p_req pkt) = Inr (r_paddr (p_req pkt))"
    "\<exists>d. getPtr pkt = Inr d \<and> p_data pkt = Some d \<and> length d = unat (p_size pkt)" "\<not> memInhibitAsserted pkt"
    "\<not> req_isInstFetch (p_req pkt)"
  using assms by (auto simp: access_ok_def getAddr_def getSize_def getPtr_def req_getPaddr_def req_hasPaddr_def split: option.splits)

lemma unat_ucast_32_64: "unat (ucast (x :: 32 word) :: 64 word) = unat x"
  by transfer (simp add: take_bit_eq_mod)

lemma in_memory_ok:
  assumes "mem_ok m" "access_ok pkt m"
  shows "in_memory pkt m = Inr True" "host_offset pkt m + unat (p_size pkt) \<le> unat (pm_size m)"
proof -
  have r: "unat (pm_start m) \<le> unat (p_addr pkt)" "unat (p_addr pkt) + unat (p_size pkt) \<le> unat (pm_start m) + unat (pm_size m)"
    "unat (pm_start m) + unat (pm_size m) < 2 ^ 64" using assms by (auto simp: access_ok_def mem_ok_def)
  have sz: "unat (ucast (p_size pkt) :: 64 word) = unat (p_size pkt)" by (rule unat_ucast_32_64)
  have "unat (p_addr pkt + ucast (p_size pkt)) = unat (p_addr pkt) + unat (p_size pkt)"
    using r sz by (subst unat_add_lem [THEN iffD1]) simp_all
  moreover have "unat (pm_start m + pm_size m) = unat (pm_start m) + unat (pm_size m)"
    using r(3) by (subst unat_add_lem [THEN iffD1]) simp_all
  ultimately show "in_memory pkt m = Inr True"
    using r access_ok_sel(1,2) [OF assms(2)] by (simp add: in_memory_def word_le_nat_alt)
  have "host_offset pkt m = unat (p_addr pkt) - unat (pm_start m)"
    using r(1) by (simp add: host_offset_def unat_sub word_le_nat_alt)
  then show "host_offset pkt m + unat (p_size pkt) \<le> unat (pm_size m)" using r by simp
qed

lemma do_write:
  assumes m: "mem_ok m" and w: "access_ok w m" "p_cmd w = WriteReq"
  shows "\<exists>l w' m' bytes d. doAtomicAccess rnd w m = Inr (l, w', m') \<and> pm_mem m = Some bytes \<and> p_data w = Some d \<and>
     pm_mem m' = Some (take (host_offset w m) bytes @ d @ drop (host_offset w m + length d) bytes) \<and>
     pm_start m' = pm_start m \<and> pm_size m' = pm_size m \<and> mem_ok m'"
proof -
  note a = access_ok_sel [OF w(1)]
  obtain bytes where bytes: "pm_mem m = Some bytes" "length bytes = unat (pm_size m)" using m by (auto simp: mem_ok_def split: option.splits)
  obtain d where d: "getPtr w = Inr d" "p_data w = Some d" "length d = unat (p_size w)" using a(4) by blast
  have kind: "\<not> pkt_isRead w" "pkt_isWrite w" "\<not> pkt_isLLSC w" "pkt_needsResponse w" "pkt_isRequest w"
    using w(2) by (simp_all add: pkt_query_defs cmd_defs)
  have dist: "distinct (map la_contextId (pm_locked m))" using m by (simp add: mem_ok_def)
  have plain: "\<exists>ls'. check_locks False r x True ls = Inr (True, ls')" for r x ls by (induction ls) auto
  obtain m1 where ok: "writeOK w m = Inr (True, w, m1)"
    using plain [of "p_req w" "la_mask (r_paddr (p_req w))" "pm_locked m"] kind(3) a(3)
    by (cases "pm_locked m = []") (auto simp: writeOK_def checkLockedAddrList_def)
  have eq: "m1 = m\<lparr>pm_locked := pm_locked m1\<rparr>" and dist1: "distinct (map la_contextId (pm_locked m1))"
    using writeOK_table [OF ok dist] by auto
  have m1: "pm_mem m1 = pm_mem m" "pm_start m1 = pm_start m" "pm_size m1 = pm_size m" by (subst eq, simp)+
  have off: "host_offset w m1 = host_offset w m" using m1(2) by (simp add: host_offset_def)
  let ?bytes = "take (host_offset w m) bytes @ d @ drop (host_offset w m + length d) bytes"
  have len: "host_offset w m + length d \<le> length bytes" using in_memory_ok(2) [OF m w(1)] d(3) bytes(2) by simp
  then have "writeData bytes (host_offset w m) w = Inr ?bytes" using d a(2) by (simp add: writeData_def memcpy_at_def)
  then have "write_from w m1 = Inr (m1\<lparr>pm_mem := Some ?bytes\<rparr>)" using m1(1) bytes(1) off by (simp add: write_from_def)
  moreover have "p_cmd w \<noteq> SwapReq" using w(2) by simp
  ultimately have acc: "do_access w m = Inr (w, m1\<lparr>pm_mem := Some ?bytes\<rparr>)" using kind(1,2) ok a(6) by (simp add: do_access_def)
  obtain w' where resp: "makeAtomicResponse w = Inr w'" using kind(4,5) by (auto simp: makeAtomicResponse_def makeResponse_def Let_def)
  have "doAtomicAccess rnd w m = Inr (calculateLatency rnd (m1\<lparr>pm_mem := Some ?bytes\<rparr>), w', m1\<lparr>pm_mem := Some ?bytes\<rparr>)"
    using in_memory_ok(1) [OF m w(1)] a(5) acc kind(4) resp by (simp add: doAtomicAccess_def)
  moreover have "mem_ok (m1\<lparr>pm_mem := Some ?bytes\<rparr>)" using m m1 bytes len dist1 by (simp add: mem_ok_def)
  ultimately show ?thesis using bytes(1) d(2) m1 by simp
qed

lemma do_read:
  assumes m: "mem_ok m" and r: "access_ok r m" "p_cmd r = ReadReq" and bytes: "pm_mem m = Some bytes"
  shows "\<exists>l r'. doAtomicAccess rnd r m = Inr (l, r', m) \<and> p_data r' = Some (take (unat (p_size r)) (drop (host_offset r m) bytes)) \<and> pkt_isResponse r'"
proof -
  note a = access_ok_sel [OF r(1)]
  obtain d where d: "getPtr r = Inr d" "length d = unat (p_size r)" using a(4) by blast
  have kind: "pkt_isRead r" "\<not> pkt_isWrite r" "\<not> pkt_isLLSC r" "pkt_needsResponse r" "pkt_isRequest r"
    using r(2) by (simp_all add: pkt_query_defs cmd_defs)
  let ?r = "r\<lparr>p_data := Some (take (unat (p_size r)) (drop (host_offset r m) bytes))\<rparr>"
  have "host_offset r m + unat (p_size r) \<le> length bytes" using in_memory_ok(2) [OF m r(1)] m bytes by (simp add: mem_ok_def)
  then have "read_into r m = Inr ?r" using d a(2) bytes by (simp add: read_into_def setData_def memcpy_at_def)
  moreover have "p_cmd r \<noteq> SwapReq" using r(2) by simp
  ultimately have acc: "do_access r m = Inr (?r, m)" using kind(1-3) by (simp add: do_access_def)
  have needs: "pkt_needsResponse ?r" "pkt_isRequest ?r" using kind by (simp_all add: pkt_query_defs)
  obtain r' where resp: "makeAtomicResponse ?r = Inr r'" "p_data r' = p_data ?r" "p_cmd r' = responseCommand ReadReq"
    using needs r(2) by (auto simp: makeAtomicResponse_def makeResponse_def Let_def)
  have "doAtomicAccess rnd r m = Inr (calculateLatency rnd m, r', m)"
    using in_memory_ok(1) [OF m r(1)] a(5) acc needs(1) resp(1) by (simp add: doAtomicAccess_def)
  moreover have "pkt_isResponse r'" using resp(3) by (simp add: pkt_query_defs cmd_defs responseCommand_def)
  ultimately show ?thesis using resp(2) by simp
qed

lemma write_from_sc:
  "write_from (set_sc_result s pkt) (m\<lparr>pm_locked := ls\<rparr>) = Inr m' \<Longrightarrow>
   write_from pkt m = Inr (m\<lparr>pm_mem := pm_mem m'\<rparr>) \<and> pm_locked m' = ls"
  by (auto simp: write_from_def set_sc_result_def writeData_def getPtr_def getSize_def host_offset_def res_simps split: option.splits)

section \<open>The properties of memory\<close>

text \<open>
  Memory returns what was written.  A write that lies in memory, whatever reservations there
  are, always completes; a read of the same place then completes and its response carries the
  bytes of the write; the bytes outside the place are as before.
\<close>

theorem memory_write_then_read:
  assumes "mem_ok m" "access_ok w m" "p_cmd w = WriteReq" "access_ok r m" "p_cmd r = ReadReq" "p_addr r = p_addr w" "p_size r = p_size w"
  shows "\<exists>l w' m' l' r'. doAtomicAccess rnd w m = Inr (l, w', m') \<and> doAtomicAccess rnd' r m' = Inr (l', r', m') \<and>
     p_data r' = p_data w \<and> pkt_isResponse r' \<and>
     (\<forall>bytes bytes' i. pm_mem m = Some bytes \<longrightarrow> pm_mem m' = Some bytes' \<longrightarrow>
        i < host_offset w m \<or> (host_offset w m + unat (p_size w) \<le> i \<and> i < length bytes) \<longrightarrow> bytes' ! i = bytes ! i)"
proof -
  obtain l w' m' bytes d where w: "doAtomicAccess rnd w m = Inr (l, w', m')" "pm_mem m = Some bytes" "p_data w = Some d"
    "pm_mem m' = Some (take (host_offset w m) bytes @ d @ drop (host_offset w m + length d) bytes)"
    "pm_start m' = pm_start m" "pm_size m' = pm_size m" "mem_ok m'"
    using do_write [OF assms(1-3)] by blast
  have r: "access_ok r m'" using assms(4) w(5,6) by (simp add: access_ok_def)
  have d: "length d = unat (p_size w)" using access_ok_sel(4) [OF assms(2)] w(3) by auto
  have len: "host_offset w m + length d \<le> length bytes"
    using in_memory_ok(2) [OF assms(1,2)] assms(1) w(2) d by (simp add: mem_ok_def)
  have off: "host_offset r m' = host_offset w m" using assms(6) w(5) by (simp add: host_offset_def)
  obtain l' r' where rd: "doAtomicAccess rnd' r m' = Inr (l', r', m')" "pkt_isResponse r'"
    "p_data r' = Some (take (unat (p_size r)) (drop (host_offset r m') (take (host_offset w m) bytes @ d @ drop (host_offset w m + length d) bytes)))"
    using do_read [OF w(7) r assms(5) w(4)] by blast
  have "p_data r' = p_data w" using rd(3) w(3) off len d assms(7) by simp
  moreover have "bytes' ! i = bytes0 ! i" if "pm_mem m = Some bytes0" "pm_mem m' = Some bytes'"
    "i < host_offset w m \<or> (host_offset w m + unat (p_size w) \<le> i \<and> i < length bytes0)" for bytes0 bytes' i
    using that w(2,4) len d by (auto simp: nth_append)
  ultimately show ?thesis using w(1) rd(1,2) by blast
qed

text \<open>A memory of 64 bytes, and a write and a read of two bytes in it.\<close>

definition sample_memory :: PhysicalMemory where
  "sample_memory = \<lparr>pm_locked = [], pm_mem = Some (replicate 64 (Some 0)), pm_pagePtr = 0, pm_lat = 30, pm_lat_var = 0,
     pm_ports = [], pm_size = 64, pm_start = 0\<rparr>"

definition sample_access :: "Command \<Rightarrow> int \<Rightarrow> pkt_data \<Rightarrow> Packet" where
  "sample_access cmd c d = \<lparr>p_flags = 0x2b00, p_cmd = cmd,
     p_req = req_setThreadContext c 0 (Request_new\<lparr>r_paddr := 0x12, r_size := 2, r_privateFlags := 3\<rparr>), p_data = Some d,
     p_addr = 0x12, p_size = 2, p_src = 0, p_dest = Broadcast, p_origCmd = InvalidCmd, p_time = 0, p_finishTime = 0,
     p_firstWordTime = 0, p_senderState = None\<rparr>"

lemma sample_memory_ok: "mem_ok sample_memory" "length d = 2 \<Longrightarrow> access_ok (sample_access cmd c d) sample_memory"
  by (simp_all add: mem_ok_def access_ok_def sample_memory_def sample_access_def pkt_flag_defs req_flag_defs flag_simps memInhibitAsserted_def
      req_setThreadContext_def Request_new_def req_hasPaddr_def req_isInstFetch_def)

theorem memory_write_then_read_witness:
  "\<exists>l w' m' l' r'. doAtomicAccess 0 (sample_access WriteReq 0 [Some 7, Some 9]) sample_memory = Inr (l, w', m') \<and>
     doAtomicAccess 0 (sample_access ReadReq 1 [None, None]) m' = Inr (l', r', m') \<and> p_data r' = Some [Some 7, Some 9]"
proof -
  let ?w = "sample_access WriteReq 0 [Some 7, Some 9]" and ?r = "sample_access ReadReq 1 [None, None]"
  have "access_ok ?w sample_memory" "access_ok ?r sample_memory" by (rule sample_memory_ok, simp)+
  moreover have "p_cmd ?w = WriteReq" "p_cmd ?r = ReadReq" "p_addr ?r = p_addr ?w" "p_size ?r = p_size ?w"
    "p_data ?w = Some [Some 7, Some 9]" by (simp_all add: sample_access_def)
  ultimately show ?thesis using memory_write_then_read [OF sample_memory_ok(1), of ?w ?r 0 0] by metis
qed

text \<open>
  C28: After any sequence of accesses without swaps, a store conditional writes memory, and reports success,
  exactly if the last load-locked of its context was to its block of 16 bytes and no packet that writes,
  store or store conditional, to that block came after it.  Afterwards no context has a
  reservation of that block.  Swaps are excluded because they write without clearing reservations,
  against the comment at \<open>writeOK\<close> (\<open>swap_keeps_reservations\<close>).
\<close>

theorem memory_store_conditional:
  assumes "pm_locked m0 = []" "run_accesses ps m0 = Inr m" "\<forall>p \<in> set ps. p_cmd (snd p) \<noteq> SwapReq" "p_cmd sc = StoreCondReq" "\<not> memInhibitAsserted sc"
    "doAtomicAccess rnd sc m = Inr (l, sc', m')"
  shows "(let ok = (fold (\<lambda>p. reserve (snd p)) ps (\<lambda>_. None) (r_contextId (p_req sc)) = Some (req_block sc))
     in r_extraData (p_req sc') = (if ok then 1 else 0) \<and> (if ok then write_from sc m = Inr (m\<lparr>pm_mem := pm_mem m'\<rparr>) else pm_mem m' = pm_mem m)) \<and>
     (\<forall>c. lock_of (pm_locked m') c \<noteq> Some (req_block sc))"
proof -
  let ?ok = "lock_of (pm_locked m) (r_contextId (p_req sc)) = Some (req_block sc)"
  have T: "lock_of (pm_locked m) = fold (\<lambda>p. reserve (snd p)) ps (\<lambda>_. None)" "distinct (map la_contextId (pm_locked m))"
    using run_accesses_table [OF assms(2) _ assms(3)] assms(1) by (simp_all add: lock_of_def)
  have kind: "\<not> pkt_isRead sc" "pkt_isWrite sc" "pkt_isLLSC sc" "p_cmd sc \<noteq> SwapReq" using assms(4) by (simp_all add: pkt_query_defs cmd_defs)
  obtain pkt1 where acc: "do_access sc m = Inr (pkt1, m')" and resp: "(if pkt_needsResponse pkt1 then makeAtomicResponse pkt1 else Inr pkt1) = Inr sc'"
    using assms(5,6) by (auto simp: doAtomicAccess_def res_simps)
  obtain ok pkt2 m2 where w: "writeOK sc m = Inr (ok, pkt2, m2)"
    and rest: "pkt1 = pkt2" "if ok then write_from pkt2 m2 = Inr m' else m' = m2"
    using acc kind by (auto simp: do_access_def res_simps split: if_splits)
  note t = writeOK_table [OF w T(2)]
  have ok: "ok = ?ok" and pkt2: "pkt2 = set_sc_result ok sc" using t kind(3) by auto
  have m2: "m2 = m\<lparr>pm_locked := pm_locked m2\<rparr>" using t by blast
  have "r_extraData (p_req sc') = (if ?ok then 1 else 0)"
    using respond_keeps [OF resp] rest(1) pkt2 ok by (simp add: set_sc_result_def req_setExtraData_def)
  moreover have "write_from sc m = Inr (m\<lparr>pm_mem := pm_mem m'\<rparr>) \<and> pm_locked m' = pm_locked m2" if ok
    using write_from_sc [where s = ok and pkt = sc and m = m and ls = "pm_locked m2" and m' = m'] rest(2) that pkt2 m2 by metis
  moreover have "pm_mem m2 = pm_mem m" by (subst m2) simp
  moreover have "lock_of (pm_locked m2) c \<noteq> Some (req_block sc)" for c using t by simp
  ultimately show ?thesis using rest(2) ok unfolding Let_def T(1) [symmetric] by (cases ok) simp_all
qed

lemma sample_sc_completes:
  "is_ok (bind_res (run_accesses [(0, sample_access LoadLockedReq 1 [None, None])] sample_memory) (\<lambda>m.
     doAtomicAccess 0 (sample_access StoreCondReq 1 [Some 7, Some 9]) m))"
  by code_simp

theorem memory_store_conditional_witness:
  "\<exists>m l sc' m'. run_accesses [(0, sample_access LoadLockedReq 1 [None, None])] sample_memory = Inr m \<and>
     doAtomicAccess 0 (sample_access StoreCondReq 1 [Some 7, Some 9]) m = Inr (l, sc', m') \<and> r_extraData (p_req sc') = 1"
proof -
  let ?ll = "sample_access LoadLockedReq 1 [None, None]" and ?sc = "sample_access StoreCondReq 1 [Some 7, Some 9]"
  obtain m l sc' m' where r: "run_accesses [(0, ?ll)] sample_memory = Inr m" "doAtomicAccess 0 ?sc m = Inr (l, sc', m')"
    using sample_sc_completes by (auto simp: is_ok_iff res_simps)
  have "pm_locked sample_memory = []" "p_cmd ?sc = StoreCondReq" "\<not> memInhibitAsserted ?sc"
    by (simp_all add: sample_memory_def sample_access_def memInhibitAsserted_def pkt_flag_defs flag_simps)
  note sc = memory_store_conditional [OF this(1) r(1) _ this(2,3) r(2)]
  have "reserve ?ll (\<lambda>_. None) (r_contextId (p_req ?sc)) = Some (req_block ?sc)"
    by (simp add: reserve_def sample_access_def memInhibitAsserted_def pkt_flag_defs flag_simps pkt_query_defs cmd_defs req_block_def
        req_setThreadContext_def Request_new_def)
  moreover have "p_cmd ?ll \<noteq> SwapReq" by (simp add: sample_access_def)
  ultimately have "r_extraData (p_req sc') = 1" using sc by (simp add: Let_def)
  then show ?thesis using r by blast
qed

end
