(* ===== verification/Memory_System.thy ===== *)
theory Memory_System
  imports Bus Physical_Memory
begin

text \<open>
  The bus and memory together: memory announces its range to the bus, the bus routes the atomic
  requests of a cache to memory, and what a cache writes it reads back.
\<close>

section \<open>Memory as the peer of a port\<close>

text \<open>
  The rest of the system is memory at the port \<open>i\<close>, or the error that stopped it.  Other ports
  have peers that do not answer.
\<close>

definition memory_at :: "int \<Rightarrow> (PhysicalMemory res) send_atomic" where
  "memory_at i p pkt w =
     (case w of
        Inl err \<Rightarrow> (0, pkt, Inl err)
      | Inr m \<Rightarrow>
          if p = i
          then (case doAtomicAccess 0 pkt m of Inl err \<Rightarrow> (0, pkt, Inl err) | Inr (l, pkt, m) \<Rightarrow> (l, pkt, Inr m))
          else (0, pkt, Inr m))"

definition ask_memory :: "int \<Rightarrow> (PhysicalMemory res) ask_ranges" where
  "ask_memory i p w = (case w of Inl _ \<Rightarrow> ([], False) | Inr m \<Rightarrow> if p = i then getAddressRanges m else ([], False))"

section \<open>A request without snoopers\<close>

text \<open>Only the port the request comes from snoops, so the request goes straight to its target.\<close>

lemma snoop_atomic_skip:
  "\<forall>p \<in> set ps. p = src \<Longrightarrow> src \<noteq> target \<Longrightarrow> getSrc pkt = Inr src \<Longrightarrow>
   snoop_atomic sendf target cmd src ps None pkt w = Inr (None, pkt, w)"
  by (induction ps) auto

definition request_ok :: "int \<Rightarrow> Packet \<Rightarrow> bool" where
  "request_ok src pkt \<longleftrightarrow> getDest pkt = Inr Broadcast \<and> getSrc pkt = Inr src \<and> pkt_isRequest pkt \<and> getAddr pkt = Inr (p_addr pkt)"

lemma recvAtomic_direct:
  assumes b: "route_ok b" "bus_wf b" "interfaces b i \<noteq> None" "i \<noteq> defaultId" "\<forall>p \<in> set (snoopPorts b). p = src" "src \<noteq> i"
    and dest: "destination (p_addr pkt) b = Inr i" and pkt: "request_ok src pkt" and s: "sendf i pkt w = (l, pkt', w')"
  shows "\<exists>pc bc. recvAtomic sendf curTick pkt b w =
       Inr (l, pkt'\<lparr>p_finishTime := curTick + l\<rparr>, b\<lparr>portCache := pc, busCache := bc\<rparr>, w') \<and>
     route_ok (b\<lparr>portCache := pc, busCache := bc\<rparr>) \<and> bus_wf (b\<lparr>portCache := pc, busCache := bc\<rparr>)"
proof -
  obtain pc where f: "findPort (p_addr pkt) b = Inr (i, b\<lparr>portCache := pc\<rparr>)" "route_ok (b\<lparr>portCache := pc\<rparr>)"
    using findPort_ok [OF b(1), of "p_addr pkt"] dest by auto
  let ?b = "b\<lparr>portCache := pc\<rparr>"
  have wf: "bus_wf ?b" using b(2) by (simp add: bus_wf_portCache)
  have "port_flag i ?b \<noteq> None" using b(3,4) by (simp add: port_flag_def)
  then obtain p b2 where c: "cached_port i ?b = Inr (p, b2)" using cached_port_total by blast
  have b2: "p = i" "bus_wf b2" "b2 = ?b\<lparr>busCache := busCache b2\<rparr>" using cached_port_ok [OF wf c] by auto
  define bc where "bc = busCache b2"
  have e: "b2 = b\<lparr>portCache := pc, busCache := bc\<rparr>" using b2(3) by (simp add: bc_def)
  have sn: "snoop_atomic sendf i (p_cmd pkt) src (snoopPorts b2) None pkt w = Inr (None, pkt, w)"
    by (rule snoop_atomic_skip) (use b(5,6) pkt e in \<open>auto simp: request_ok_def\<close>)
  have "recvAtomic sendf curTick pkt b w = Inr (l, pkt'\<lparr>p_finishTime := curTick + l\<rparr>, b2, w')"
    using pkt f(1) c b2(1) sn b(4,6) s by (simp add: recvAtomic_def request_ok_def has_port_def)
  moreover have "route_ok b2" using f(2) unfolding e by (simp add: route_ok_def)
  ultimately show ?thesis using b2(2) unfolding e by blast
qed

text \<open>The range of memory, and the addresses of accesses in it.\<close>

lemma memory_range:
  assumes m: "mem_ok m" "pm_size m \<noteq> 0"
  shows "pm_start m \<le> pm_start m + pm_size m - 1" "access_ok pkt m \<Longrightarrow> p_size pkt \<noteq> 0 \<Longrightarrow> in_range (p_addr pkt) (RangeSize (pm_start m) (pm_size m))"
proof -
  have sum: "unat (pm_start m + pm_size m) = unat (pm_start m) + unat (pm_size m)"
    using m(1) by (subst unat_add_lem [THEN iffD1]) (simp_all add: mem_ok_def)
  have pos: "0 < unat (pm_size m)" using m(2) by (simp add: unat_gt_0)
  then have "pm_start m + pm_size m \<noteq> 0" using sum by (metis add_gr_0 less_numeral_extra(3) unat_0)
  then have e: "unat (pm_start m + pm_size m - 1) = unat (pm_start m) + unat (pm_size m) - 1" using sum by (simp add: unat_minus_one)
  then show "pm_start m \<le> pm_start m + pm_size m - 1" using pos by (simp add: word_le_nat_alt)
  show "in_range (p_addr pkt) (RangeSize (pm_start m) (pm_size m))" if "access_ok pkt m" "p_size pkt \<noteq> 0"
  proof -
    have "0 < unat (p_size pkt)" using that(2) by (simp add: unat_gt_0)
    moreover have "unat (pm_start m) \<le> unat (p_addr pkt)" "unat (p_addr pkt) + unat (p_size pkt) \<le> unat (pm_start m) + unat (pm_size m)"
      using that(1) by (simp_all add: access_ok_def)
    ultimately have "unat (p_addr pkt) \<le> unat (pm_start m) + unat (pm_size m) - 1" by linarith
    then show ?thesis using \<open>unat (pm_start m) \<le> _\<close> e by (simp add: in_range_def RangeSize_def word_le_nat_alt)
  qed
qed

lemma destination_caches [simp]: "destination a (b\<lparr>portCache := pc, busCache := bc\<rparr>) = destination a b"
proof -
  have "owner a (b\<lparr>portCache := pc, busCache := bc\<rparr>) = owner a b" by (simp add: owner_def)
  then show ?thesis by (cases "owner a b") (simp_all add: destination_def)
qed

section \<open>The properties of bus and memory\<close>

text \<open>
  C29: Once memory has announced its range to the bus, the bus routes every address of memory to
  it, and a cache that is the only one to snoop and writes to memory with an atomic request
  reads the same bytes back with another.
\<close>

theorem bus_memory_write_then_read:
  assumes b: "route_ok b" "bus_wf b" "0 \<le> i" "i < maxId b" "interfaces b i \<noteq> None" "i \<notin> inRecvStatusChange b"
      "portMap b = []" "snoopPorts b = [src]" "src \<noteq> i"
    and m: "mem_ok m" "pm_size m \<noteq> 0"
    and w: "access_ok w m" "request_ok src w" "p_cmd w = WriteReq" "p_size w \<noteq> 0"
    and r: "access_ok r m" "request_ok src r" "p_cmd r = ReadReq" "p_addr r = p_addr w" "p_size r = p_size w"
  shows "\<exists>b1 w1 l w' b2 w2 l' r' b3. recvStatusChange (ask_memory i) (\<lambda>_ x. x) [] i b (Inr m) = Inr (b1, w1) \<and>
     recvAtomic (memory_at i) t w b1 w1 = Inr (l, w', b2, w2) \<and> recvAtomic (memory_at i) t' r b2 w2 = Inr (l', r', b3, w2) \<and>
     pkt_isResponse r' \<and> p_data r' = p_data w"
proof -
  let ?rs = "[RangeSize (pm_start m) (pm_size m)]"
  have ask: "ask_memory i i (Inr m) = (?rs, False)" by (simp add: ask_memory_def getAddressRanges_def)
  have clr: "clear_of (filter (\<lambda>x. snd x \<noteq> i) (portMap b)) ?rs" using memory_range(1) [OF m] b(7) by (simp add: RangeSize_def)
  obtain b1 w1 tm sp pc st where b1: "recvStatusChange (ask_memory i) (\<lambda>_ x. x) [] i b (Inr m) = Inr (b1, w1)" "route_ok b1"
    "\<forall>r \<in> set ?rs. \<forall>a. in_range a r \<longrightarrow> destination a b1 = Inr i" "snoopPorts b1 = [src]" "w1 = Inr m"
    "b1 = b\<lparr>portMap := tm, snoopPorts := sp, portCache := pc, inRecvStatusChange := st\<rparr>"
    using recvStatusChange_ok [where ask = "ask_memory i" and tell = "\<lambda>_ x. x" and order = "[]", OF b(1,3-6) ask clr] b(8,9) by auto
  have b1': "bus_wf b1" "interfaces b1 i \<noteq> None" using b(2,5) unfolding b1(6) by (simp_all add: bus_wf_def)
  have i: "i \<noteq> defaultId" "\<forall>p \<in> set (snoopPorts b1). p = src" using b(3) b1(4) by (simp_all add: defaultId_def)
  have dest: "destination (p_addr w) b1 = Inr i" using b1(3) memory_range(2) [OF m w(1,4)] by simp
  obtain l w' m' bytes d where wr: "doAtomicAccess 0 w m = Inr (l, w', m')" "pm_mem m = Some bytes" "p_data w = Some d"
    "pm_mem m' = Some (take (host_offset w m) bytes @ d @ drop (host_offset w m + length d) bytes)"
    "pm_start m' = pm_start m" "pm_size m' = pm_size m" "mem_ok m'"
    using do_write [OF m(1) w(1,3)] by blast
  have s1: "memory_at i i w w1 = (l, w', Inr m')" using wr(1) b1(5) by (simp add: memory_at_def)
  obtain pc2 bc2 where a1: "recvAtomic (memory_at i) t w b1 w1 = Inr (l, w'\<lparr>p_finishTime := t + l\<rparr>, b1\<lparr>portCache := pc2, busCache := bc2\<rparr>, Inr m')"
    "route_ok (b1\<lparr>portCache := pc2, busCache := bc2\<rparr>)" "bus_wf (b1\<lparr>portCache := pc2, busCache := bc2\<rparr>)"
    using recvAtomic_direct [where sendf = "memory_at i", OF b1(2) b1' i b(9) dest w(2) s1] by blast
  let ?b2 = "b1\<lparr>portCache := pc2, busCache := bc2\<rparr>"
  have ra: "access_ok r m'" using r(1) wr(5,6) by (simp add: access_ok_def)
  have dlen: "length d = unat (p_size w)" using access_ok_sel(4) [OF w(1)] wr(3) by auto
  have len: "host_offset w m + length d \<le> length bytes" using in_memory_ok(2) [OF m(1) w(1)] m(1) wr(2) dlen by (simp add: mem_ok_def)
  have off: "host_offset r m' = host_offset w m" using r(4) wr(5) by (simp add: host_offset_def)
  obtain l' r' where rd: "doAtomicAccess 0 r m' = Inr (l', r', m')" "pkt_isResponse r'"
    "p_data r' = Some (take (unat (p_size r)) (drop (host_offset r m') (take (host_offset w m) bytes @ d @ drop (host_offset w m + length d) bytes)))"
    using do_read [OF wr(7) ra r(3) wr(4)] by blast
  have s2: "memory_at i i r (Inr m') = (l', r', Inr m')" using rd(1) by (simp add: memory_at_def)
  have "destination (p_addr r) ?b2 = Inr i" using dest r(4) by simp
  then obtain b3 where a2: "recvAtomic (memory_at i) t' r ?b2 (Inr m') = Inr (l', r'\<lparr>p_finishTime := t' + l'\<rparr>, b3, Inr m')"
    using recvAtomic_direct [where sendf = "memory_at i", OF a1(2,3) _ i(1) _ b(9) _ r(2) s2] b1'(2) i(2) by auto
  have "p_data (r'\<lparr>p_finishTime := t' + l'\<rparr>) = p_data w" using rd(3) wr(3) off len dlen r(5) by simp
  moreover have "pkt_isResponse (r'\<lparr>p_finishTime := t' + l'\<rparr>)" using rd(2) by (simp add: pkt_isResponse_def)
  ultimately show ?thesis using b1(1) a1(1) a2 by blast
qed

text \<open>A bus with a cache at port 0 and memory at port 1.\<close>

definition sample_system :: Bus where
  "sample_system = sample_bus\<lparr>portMap := [], snoopPorts := [0]\<rparr>"

definition sample_request :: "Command \<Rightarrow> pkt_data \<Rightarrow> Packet" where
  "sample_request cmd d = setSrc 0 (sample_access cmd 0 d)"

lemma sample_request_ok:
  assumes "length d = 2" "cmd = WriteReq \<or> cmd = ReadReq"
  shows "access_ok (sample_request cmd d) sample_memory" "request_ok 0 (sample_request cmd d)"
  using assms sample_memory_ok(2) [OF assms(1), of cmd 0]
  by (auto simp: sample_request_def access_ok_def request_ok_def setSrc_def sample_access_def getDest_def getSrc_def getAddr_def guard_res_def
      memInhibitAsserted_def pkt_flag_defs flag_simps pkt_query_defs cmd_defs)

theorem bus_memory_write_then_read_witness:
  "\<exists>b1 w1 l w' b2 w2 l' r' b3. recvStatusChange (ask_memory 1) (\<lambda>_ x. x) [] 1 sample_system (Inr sample_memory) = Inr (b1, w1) \<and>
     recvAtomic (memory_at 1) 0 (sample_request WriteReq [Some 7, Some 9]) b1 w1 = Inr (l, w', b2, w2) \<and>
     recvAtomic (memory_at 1) 50 (sample_request ReadReq [None, None]) b2 w2 = Inr (l', r', b3, w2) \<and> p_data r' = Some [Some 7, Some 9]"
proof -
  let ?w = "sample_request WriteReq [Some 7, Some 9]" and ?r = "sample_request ReadReq [None, None]"
  have b: "route_ok sample_system" "bus_wf sample_system" "(0::int) \<le> 1" "1 < maxId sample_system" "interfaces sample_system 1 \<noteq> None"
    "1 \<notin> inRecvStatusChange sample_system" "portMap sample_system = []" "snoopPorts sample_system = [0]" "(0::int) \<noteq> 1"
    by (auto simp: sample_system_def bus_wf_def route_ok_def sample_bus_def port_flag_def defaultId_def)
  have m: "mem_ok sample_memory" "pm_size sample_memory \<noteq> 0" using sample_memory_ok by (simp_all add: sample_memory_def)
  have p: "access_ok ?w sample_memory" "request_ok 0 ?w" "access_ok ?r sample_memory" "request_ok 0 ?r" by (rule sample_request_ok; simp)+
  have f: "p_cmd ?w = WriteReq" "p_size ?w \<noteq> 0" "p_cmd ?r = ReadReq" "p_addr ?r = p_addr ?w" "p_size ?r = p_size ?w"
    "p_data ?w = Some [Some 7, Some 9]" by (simp_all add: sample_request_def sample_access_def setSrc_def)
  from bus_memory_write_then_read [OF b m p(1,2) f(1,2) p(3,4) f(3-5), of 0 50] f(6) show ?thesis by metis
qed

end
