(* ===== verification/Bridge.thy ===== *)
theory Bridge
  imports Packet Range_Map
begin

text \<open>
  The bridge between two buses, \<open>mem/bridge.{hh,cc}\<close>: each of its two ports receives packets for
  the other one, holds the packets that it has to send until they are ready, reserves room for the
  responses of the requests it lets through, and sends a request back as a nack when there is no
  room.

  A packet buffer is also the \<open>senderState\<close> of the request that it forwards, so buffers live in an
  explicit heap.  The address of a new buffer is an argument of the operations that allocate one.
  A \<open>senderState\<close> that is not in the heap is a state of another class, for which the assertion fails,
  or a buffer that has been deleted; the model gives both the value \<open>Undefined\<close>.
  \<open>sendEvent\<close> is the tick the event of a port is scheduled for.  The peers of the ports are
  arguments; they do not call the bridge back while they handle a packet.  Labels are for
  printing only.
\<close>

section \<open>State\<close>

record PacketBuffer =
  pb_ready :: Tick
  pb_pkt :: "Packet option"
  pb_nackedHere :: bool
  pb_origSenderState :: "nat option"
  pb_origSrc :: int
  pb_expectResponse :: bool

type_synonym buffers = "nat \<Rightarrow> PacketBuffer option"

record BridgePort =
  bp_delay :: Tick
  bp_nackDelay :: Tick
  bp_filterRanges :: "range list"
  bp_sendQueue :: "nat list"
  bp_outstandingResponses :: int
  bp_queuedRequests :: int
  bp_inRetry :: bool
  bp_reqQueueLimit :: int
  bp_respQueueLimit :: int
  bp_sendEvent :: "Tick option"

record Bridge =
  br_portA :: BridgePort
  br_portB :: BridgePort
  br_heap :: buffers

datatype side = SideA | SideB

fun other :: "side \<Rightarrow> side" where
  "other SideA = SideB"
| "other SideB = SideA"

fun port :: "side \<Rightarrow> Bridge \<Rightarrow> BridgePort" where
  "port SideA b = br_portA b"
| "port SideB b = br_portB b"

fun set_port :: "side \<Rightarrow> BridgePort \<Rightarrow> Bridge \<Rightarrow> Bridge" where
  "set_port SideA p b = b\<lparr>br_portA := p\<rparr>"
| "set_port SideB p b = b\<lparr>br_portB := p\<rparr>"

definition BridgePort_new :: "Tick \<Rightarrow> Tick \<Rightarrow> int \<Rightarrow> int \<Rightarrow> range list \<Rightarrow> BridgePort" where
  "BridgePort_new delay nack_delay req_limit resp_limit filter_ranges =
     \<lparr>bp_delay = delay, bp_nackDelay = nack_delay, bp_filterRanges = filter_ranges, bp_sendQueue = [],
      bp_outstandingResponses = 0, bp_queuedRequests = 0, bp_inRetry = False, bp_reqQueueLimit = req_limit,
      bp_respQueueLimit = resp_limit, bp_sendEvent = None\<rparr>"

definition Bridge_new ::
  "Tick \<Rightarrow> Tick \<Rightarrow> int \<Rightarrow> int \<Rightarrow> range list \<Rightarrow> int \<Rightarrow> int \<Rightarrow> range list \<Rightarrow> bool \<Rightarrow> Bridge res" where
  "Bridge_new delay nack_delay req_a resp_a filter_a req_b resp_b filter_b write_ack =
     guard_res Panic (\<not> write_ack)
       (Inr \<lparr>br_portA = BridgePort_new delay nack_delay req_a resp_a filter_a,
             br_portB = BridgePort_new delay nack_delay req_b resp_b filter_b, br_heap = (\<lambda>_. None)\<rparr>)"

text \<open>\<open>peer\<close> tells of each port whether a peer other than the default port is connected to it.\<close>

definition bridge_getPort :: "(side \<Rightarrow> bool) \<Rightarrow> string \<Rightarrow> side option res" where
  "bridge_getPort peer if_name =
     (if if_name = ''side_a'' then guard_res Panic (\<not> peer SideA) (Inr (Some SideA))
      else if if_name = ''side_b'' then guard_res Panic (\<not> peer SideB) (Inr (Some SideB))
      else Inr None)"

definition bridge_init :: "(side \<Rightarrow> bool) \<Rightarrow> (side \<Rightarrow> nat) \<Rightarrow> unit res" where
  "bridge_init peer peerBlockSize =
     guard_res Fatal (peer SideA \<and> peer SideB)
       (guard_res Fatal (peerBlockSize SideA = peerBlockSize SideB) (Inr ()))"

section \<open>Room and packet buffers\<close>

definition respQueueFull :: "BridgePort \<Rightarrow> bool res" where
  "respQueueFull p =
     guard_res AssertFail (0 \<le> bp_outstandingResponses p \<and> bp_outstandingResponses p \<le> bp_respQueueLimit p)
       (Inr (bp_respQueueLimit p \<le> bp_outstandingResponses p))"

definition reqQueueFull :: "BridgePort \<Rightarrow> bool res" where
  "reqQueueFull p =
     guard_res AssertFail (0 \<le> bp_queuedRequests p \<and> bp_queuedRequests p \<le> bp_reqQueueLimit p)
       (Inr (bp_reqQueueLimit p \<le> bp_queuedRequests p))"

text \<open>The buffer at the address \<open>k\<close>; it becomes the sender state of a request that is passed on.\<close>

definition PacketBuffer_new :: "nat \<Rightarrow> Packet \<Rightarrow> Tick \<Rightarrow> bool \<Rightarrow> PacketBuffer res" where
  "PacketBuffer_new k pkt t nack =
     bind_res (if nack then getDest pkt else getSrc pkt) (\<lambda>src.
       Inr \<lparr>pb_ready = t,
            pb_pkt = Some (if \<not> pkt_isResponse pkt \<and> \<not> nack then pkt\<lparr>p_senderState := Some k\<rparr> else pkt),
            pb_nackedHere = nack, pb_origSenderState = p_senderState pkt, pb_origSrc = src,
            pb_expectResponse = (pkt_needsResponse pkt \<and> \<not> nack)\<rparr>)"

definition fixResponse :: "nat \<Rightarrow> PacketBuffer \<Rightarrow> Packet \<Rightarrow> Packet res" where
  "fixResponse this buf pkt =
     guard_res AssertFail (p_senderState pkt = Some this)
       (Inr ((setDest (pb_origSrc buf) pkt)\<lparr>p_senderState := pb_origSenderState buf\<rparr>))"

definition buf_at :: "buffers \<Rightarrow> nat \<Rightarrow> PacketBuffer res" where
  "buf_at h j = (case h j of None \<Rightarrow> Inl Undefined | Some buf \<Rightarrow> Inr buf)"

definition bp_schedule :: "Tick \<Rightarrow> Tick \<Rightarrow> BridgePort \<Rightarrow> BridgePort res" where
  "bp_schedule curTick t p =
     guard_res AssertFail (curTick \<le> t)
       (guard_res AssertFail (bp_sendEvent p = None) (Inr (p\<lparr>bp_sendEvent := Some t\<rparr>)))"

definition bp_reschedule :: "Tick \<Rightarrow> Tick \<Rightarrow> BridgePort \<Rightarrow> BridgePort res" where
  "bp_reschedule curTick t p =
     guard_res AssertFail (curTick \<le> t)
       (guard_res AssertFail (bp_sendEvent p \<noteq> None) (Inr (p\<lparr>bp_sendEvent := Some t\<rparr>)))"

section \<open>Timing accesses\<close>

text \<open>The loop of \<open>nackRequest\<close>: before the first packet that is ready later.\<close>

fun insert_buffer :: "buffers \<Rightarrow> Tick \<Rightarrow> nat \<Rightarrow> nat list \<Rightarrow> nat list res" where
  "insert_buffer h t k [] = Inl AssertFail"
| "insert_buffer h t k (j # js) =
     bind_res (buf_at h j) (\<lambda>buf.
       if t < pb_ready buf then Inr (k # j # js) else bind_res (insert_buffer h t k js) (\<lambda>js. Inr (j # js)))"

definition queue_nack :: "buffers \<Rightarrow> Tick \<Rightarrow> Tick \<Rightarrow> nat \<Rightarrow> BridgePort \<Rightarrow> BridgePort res" where
  "queue_nack h curTick t k p =
     (if bp_sendQueue p = []
      then guard_res AssertFail (bp_sendEvent p = None)
             (bind_res (bp_schedule curTick t p) (\<lambda>p. Inr (p\<lparr>bp_sendQueue := [k]\<rparr>)))
      else guard_res AssertFail (bp_sendEvent p \<noteq> None \<or> bp_inRetry p)
             (bind_res (buf_at h (last (bp_sendQueue p))) (\<lambda>back.
              if t \<ge> pb_ready back then Inr (p\<lparr>bp_sendQueue := bp_sendQueue p @ [k]\<rparr>)
              else bind_res (insert_buffer h t k (bp_sendQueue p)) (\<lambda>q.
                   bind_res (if hd q = k then bp_reschedule curTick t p else Inr p) (\<lambda>p.
                     Inr (p\<lparr>bp_sendQueue := q\<rparr>))))))"

definition nackRequest :: "side \<Rightarrow> Tick \<Rightarrow> nat \<Rightarrow> Packet \<Rightarrow> Bridge \<Rightarrow> Bridge res" where
  "nackRequest s curTick k pkt b =
     bind_res (makeTimingResponse pkt) (\<lambda>pkt.
     bind_res (setNacked pkt) (\<lambda>pkt.
     let readyTime = curTick + bp_nackDelay (port s b)
     in bind_res (PacketBuffer_new k pkt readyTime True) (\<lambda>buf.
        bind_res (queue_nack (br_heap b) curTick readyTime k (port s b)) (\<lambda>p.
          Inr ((set_port s p b)\<lparr>br_heap := (br_heap b)(k \<mapsto> buf)\<rparr>)))))"

text \<open>A response finds the buffer of its request, which is deleted.\<close>

definition take_response :: "Packet \<Rightarrow> Bridge \<Rightarrow> (Packet \<times> Bridge) res" where
  "take_response pkt b =
     (case p_senderState pkt of
        None \<Rightarrow> Inl AssertFail
      | Some j \<Rightarrow>
          bind_res (buf_at (br_heap b) j) (\<lambda>buf.
          bind_res (fixResponse j buf pkt) (\<lambda>pkt. Inr (pkt, b\<lparr>br_heap := (br_heap b)(j := None)\<rparr>))))"

definition enqueue_packet :: "side \<Rightarrow> Tick \<Rightarrow> nat \<Rightarrow> Packet \<Rightarrow> Bridge \<Rightarrow> Bridge res" where
  "enqueue_packet s curTick k pkt b =
     (let p = port s b;
          p = (if pkt_isRequest pkt then p\<lparr>bp_queuedRequests := bp_queuedRequests p + 1\<rparr> else p);
          readyTime = curTick + bp_delay p
      in bind_res (PacketBuffer_new k pkt readyTime False) (\<lambda>buf.
         bind_res (if bp_sendQueue p = [] then bp_schedule curTick readyTime p else Inr p) (\<lambda>p.
           Inr ((set_port s (p\<lparr>bp_sendQueue := bp_sendQueue p @ [k]\<rparr>) b)\<lparr>br_heap := (br_heap b)(k \<mapsto> buf)\<rparr>))))"

definition queueForSendTiming :: "side \<Rightarrow> Tick \<Rightarrow> nat \<Rightarrow> Packet \<Rightarrow> Bridge \<Rightarrow> Bridge res" where
  "queueForSendTiming s curTick k pkt b =
     bind_res (if pkt_isResponse pkt then take_response pkt b else Inr (pkt, b)) (\<lambda>(pkt, b). enqueue_packet s curTick k pkt b)"

definition bridge_recvTiming :: "side \<Rightarrow> Tick \<Rightarrow> nat \<Rightarrow> Packet \<Rightarrow> Bridge \<Rightarrow> (bool \<times> Bridge) res" where
  "bridge_recvTiming s curTick k pkt b =
     bind_res (if pkt_isRequest pkt then reqQueueFull (port (other s) b) else Inr False) (\<lambda>full.
     if full then bind_res (nackRequest s curTick k pkt b) (\<lambda>b. Inr (True, b))
     else bind_res (if pkt_needsResponse pkt then respQueueFull (port s b) else Inr False) (\<lambda>full.
       if full then bind_res (nackRequest s curTick k pkt b) (\<lambda>b. Inr (True, b))
       else let p = port s b;
                b = (if pkt_needsResponse pkt
                     then set_port s (p\<lparr>bp_outstandingResponses := bp_outstandingResponses p + 1\<rparr>) b else b)
            in bind_res (queueForSendTiming (other s) curTick k pkt b) (\<lambda>b. Inr (True, b))))"

text \<open>
  \<open>trySend\<close>.  \<open>sendf\<close> is the peer of each port: whether it takes the packet, the packet as it
  leaves it, and its own state.
\<close>

type_synonym 'w bridge_send = "side \<Rightarrow> Packet \<Rightarrow> 'w \<Rightarrow> bool \<times> Packet \<times> 'w"

definition sent_port :: "bool \<Rightarrow> bool \<Rightarrow> nat list \<Rightarrow> BridgePort \<Rightarrow> BridgePort" where
  "sent_port wasReq was_nacked_here q p =
     (let p = p\<lparr>bp_sendQueue := q\<rparr>
      in if wasReq then p\<lparr>bp_queuedRequests := bp_queuedRequests p - 1\<rparr>
         else if \<not> was_nacked_here then p\<lparr>bp_outstandingResponses := bp_outstandingResponses p - 1\<rparr>
         else p)"

definition schedule_next :: "buffers \<Rightarrow> Tick \<Rightarrow> BridgePort \<Rightarrow> BridgePort res" where
  "schedule_next h curTick p =
     (case bp_sendQueue p of
        [] \<Rightarrow> Inr p
      | j # _ \<Rightarrow> bind_res (buf_at h j) (\<lambda>buf. bp_schedule curTick (max (pb_ready buf) (curTick + 1)) p))"

definition trySend :: "'w bridge_send \<Rightarrow> side \<Rightarrow> Tick \<Rightarrow> Bridge \<Rightarrow> 'w \<Rightarrow> (Bridge \<times> 'w) res" where
  "trySend sendf s curTick b w =
     (case bp_sendQueue (port s b) of
        [] \<Rightarrow> Inl AssertFail
      | j # js \<Rightarrow>
          bind_res (buf_at (br_heap b) j) (\<lambda>buf.
          guard_res AssertFail (pb_ready buf \<le> curTick)
            (case pb_pkt buf of
               None \<Rightarrow> Inl Undefined
             | Some pkt \<Rightarrow>
                 let wasReq = pkt_isRequest pkt;
                     old = p_senderState pkt;
                     pkt = (if wasReq \<and> \<not> pb_expectResponse buf then pkt\<lparr>p_senderState := None\<rparr> else pkt)
                 in case sendf s pkt w of (sent, pkt, w) \<Rightarrow>
                      if sent
                      then let h = (br_heap b)(j := (if pb_expectResponse buf then Some (buf\<lparr>pb_pkt := None\<rparr>) else None))
                           in bind_res (schedule_next h curTick (sent_port wasReq (pb_nackedHere buf) js (port s b))) (\<lambda>p.
                                Inr ((set_port s p b)\<lparr>br_heap := h\<rparr>, w))
                      else Inr ((set_port s ((port s b)\<lparr>bp_inRetry := True\<rparr>) b)
                                  \<lparr>br_heap := (br_heap b)(j \<mapsto> buf\<lparr>pb_pkt := Some (pkt\<lparr>p_senderState := old\<rparr>)\<rparr>)\<rparr>, w))))"

text \<open>The event is no longer scheduled when its action runs.\<close>

definition bridge_process :: "'w bridge_send \<Rightarrow> side \<Rightarrow> Tick \<Rightarrow> Bridge \<Rightarrow> 'w \<Rightarrow> (Bridge \<times> 'w) res" where
  "bridge_process sendf s curTick b w = trySend sendf s curTick (set_port s ((port s b)\<lparr>bp_sendEvent := None\<rparr>) b) w"

definition bridge_recvRetry :: "'w bridge_send \<Rightarrow> side \<Rightarrow> Tick \<Rightarrow> Bridge \<Rightarrow> 'w \<Rightarrow> (Bridge \<times> 'w) res" where
  "bridge_recvRetry sendf s curTick b w =
     (let p = (port s b)\<lparr>bp_inRetry := False\<rparr>;
          b = set_port s p b
      in case bp_sendQueue p of
           [] \<Rightarrow> Inl Undefined
         | j # _ \<Rightarrow>
             bind_res (buf_at (br_heap b) j) (\<lambda>buf.
               if pb_ready buf \<le> curTick then trySend sendf s curTick b w
               else bind_res (bp_schedule curTick (pb_ready buf) p) (\<lambda>p. Inr (set_port s p b, w))))"

section \<open>Other accesses\<close>

definition bridge_recvAtomic :: "(side \<Rightarrow> Packet \<Rightarrow> 'w \<Rightarrow> Tick \<times> Packet \<times> 'w) \<Rightarrow> side \<Rightarrow> Packet \<Rightarrow> Bridge \<Rightarrow> 'w \<Rightarrow> Tick \<times> Packet \<times> 'w" where
  "bridge_recvAtomic sendAtomic s pkt b w =
     (case sendAtomic (other s) pkt w of (l, pkt, w) \<Rightarrow> (bp_delay (port s b) + l, pkt, w))"

fun check_buffers :: "nat list \<Rightarrow> Packet \<Rightarrow> buffers \<Rightarrow> (bool \<times> Packet \<times> buffers) res" where
  "check_buffers [] pkt h = Inr (False, pkt, h)"
| "check_buffers (j # js) pkt h =
     bind_res (buf_at h j) (\<lambda>buf.
       case pb_pkt buf of
         None \<Rightarrow> Inl Undefined
       | Some target \<Rightarrow>
           bind_res (checkFunctional_pkt pkt target) (\<lambda>(done, pkt, target, _).
             let h = h(j \<mapsto> buf\<lparr>pb_pkt := Some target\<rparr>)
             in if done then Inr (True, pkt, h) else check_buffers js pkt h))"

definition bridge_recvFunctional :: "(side \<Rightarrow> Packet \<Rightarrow> 'w \<Rightarrow> Packet \<times> 'w) \<Rightarrow> side \<Rightarrow> Packet \<Rightarrow> Bridge \<Rightarrow> 'w \<Rightarrow> (Packet \<times> Bridge \<times> 'w) res" where
  "bridge_recvFunctional sendFunctional s pkt b w =
     bind_res (check_buffers (bp_sendQueue (port s b)) pkt (br_heap b)) (\<lambda>(done, pkt, h).
       let b = b\<lparr>br_heap := h\<rparr>
       in if done then Inr (pkt, b, w)
          else case sendFunctional (other s) pkt w of (pkt, w) \<Rightarrow> Inr (pkt, b, w))"

definition bridge_recvStatusChange :: "(side \<Rightarrow> 'w \<Rightarrow> 'w) \<Rightarrow> side \<Rightarrow> 'w \<Rightarrow> 'w" where
  "bridge_recvStatusChange tell s w = tell (other s) w"

text \<open>\<open>FilterRangeList\<close>: for each filter, erase the ranges of which it has an end.\<close>

definition FilterRangeList :: "range list \<Rightarrow> range list \<Rightarrow> range list" where
  "FilterRangeList filter_list range_list =
     fold (\<lambda>f rs. filter (\<lambda>r. \<not> (in_range (rg_start r) f \<or> in_range (rg_end r) f)) rs) filter_list range_list"

definition bridge_getDeviceAddressRanges :: "(side \<Rightarrow> range list \<times> bool) \<Rightarrow> side \<Rightarrow> Bridge \<Rightarrow> range list \<times> bool" where
  "bridge_getDeviceAddressRanges ask s b = (FilterRangeList (bp_filterRanges (port s b)) (fst (ask (other s))), False)"

lemma FilterRangeList_eq:
  "FilterRangeList fs rs = filter (\<lambda>r. \<forall>f \<in> set fs. \<not> in_range (rg_start r) f \<and> \<not> in_range (rg_end r) f) rs"
  by (induction fs arbitrary: rs) (auto simp: FilterRangeList_def intro!: filter_cong)

section \<open>Ports and counts\<close>

lemma other_simps [simp]: "other (other s) = s" "other s \<noteq> s" "s \<noteq> other s"
  by (cases s; simp)+

lemma side_cases: "t \<noteq> s \<Longrightarrow> t = other s"
  by (cases s; cases t; simp)

lemma port_set_port [simp]: "port t (set_port s p b) = (if t = s then p else port t b)"
  "br_heap (set_port s p b) = br_heap b" "port t (b\<lparr>br_heap := h\<rparr>) = port t b"
  by (cases s; cases t; simp)+

definition queues :: "Bridge \<Rightarrow> side \<Rightarrow> nat list" where
  "queues b s = bp_sendQueue (port s b)"

lemma queues_simps [simp]: "queues (set_port s p b) = (queues b)(s := bp_sendQueue p)" "queues (b\<lparr>br_heap := h\<rparr>) = queues b"
  by (auto simp: queues_def fun_eq_iff)

definition cnt :: "(PacketBuffer \<Rightarrow> bool) \<Rightarrow> buffers \<Rightarrow> nat list \<Rightarrow> int" where
  "cnt P h q = int (length (filter (\<lambda>j. case h j of None \<Rightarrow> False | Some buf \<Rightarrow> P buf) q))"

lemma cnt_simps [simp]: "cnt P h [] = 0" "0 \<le> cnt P h q"
  "cnt P h (j # q) = (case h j of None \<Rightarrow> 0 | Some buf \<Rightarrow> if P buf then 1 else 0) + cnt P h q"
  "cnt P h (q @ r) = cnt P h q + cnt P h r"
  by (auto simp: cnt_def split: option.splits)

lemma cnt_heap: "k \<notin> set q \<Longrightarrow> cnt P (h(k := x)) q = cnt P h q"
  unfolding cnt_def by (intro arg_cong [where f = int] arg_cong [where f = length] filter_cong) auto

lemma cnt_same: "h j = Some buf \<Longrightarrow> P buf' = P buf \<Longrightarrow> cnt P (h(j \<mapsto> buf')) q = cnt P h q"
  unfolding cnt_def by (intro arg_cong [where f = int] arg_cong [where f = length] filter_cong) auto

text \<open>What the buffers in a queue are: requests that are passed on, responses, and nacks.\<close>

definition is_req :: "PacketBuffer \<Rightarrow> bool" where
  "is_req buf \<longleftrightarrow> (case pb_pkt buf of None \<Rightarrow> False | Some pkt \<Rightarrow> pkt_isRequest pkt)"

definition is_resp :: "PacketBuffer \<Rightarrow> bool" where
  "is_resp buf \<longleftrightarrow> \<not> is_req buf \<and> \<not> pb_nackedHere buf"

definition queued_ok :: "PacketBuffer \<Rightarrow> bool" where
  "queued_ok buf \<longleftrightarrow> pb_pkt buf \<noteq> None \<and> (is_req buf \<longrightarrow> \<not> pb_nackedHere buf) \<and> (pb_expectResponse buf \<longrightarrow> is_req buf)"

text \<open>
  Every buffer is in one queue, or belongs to a request that port \<open>s\<close> sent and that has not been
  answered, \<open>aw s\<close>.
\<close>

definition ledger :: "(side \<Rightarrow> nat list) \<Rightarrow> buffers \<Rightarrow> (side \<Rightarrow> nat set) \<Rightarrow> bool" where
  "ledger Q h aw \<longleftrightarrow> (\<forall>s. distinct (Q s)) \<and> (\<forall>s. finite (aw s)) \<and>
     (\<forall>s t j. j \<in> set (Q s) \<longrightarrow> j \<in> set (Q t) \<longrightarrow> s = t) \<and> (\<forall>s t j. j \<in> aw s \<longrightarrow> j \<in> aw t \<longrightarrow> s = t) \<and>
     (\<forall>s t j. j \<in> set (Q s) \<longrightarrow> j \<notin> aw t) \<and>
     (\<forall>s. \<forall>j \<in> set (Q s). \<exists>buf. h j = Some buf \<and> queued_ok buf) \<and>
     (\<forall>s. \<forall>j \<in> aw s. \<exists>buf. h j = Some buf \<and> pb_pkt buf = None) \<and>
     (\<forall>j. h j \<noteq> None \<longrightarrow> (\<exists>s. j \<in> set (Q s) \<or> j \<in> aw s))"

lemma ledgerD:
  assumes "ledger Q h aw"
  shows "distinct (Q s)" "finite (aw s)" "j \<in> set (Q s) \<Longrightarrow> j \<in> set (Q t) \<Longrightarrow> s = t" "j \<in> aw s \<Longrightarrow> j \<in> aw t \<Longrightarrow> s = t"
    "j \<in> set (Q s) \<Longrightarrow> j \<notin> aw t" "j \<in> set (Q s) \<Longrightarrow> \<exists>buf. h j = Some buf \<and> queued_ok buf"
    "j \<in> aw s \<Longrightarrow> \<exists>buf. h j = Some buf \<and> pb_pkt buf = None" "h j \<noteq> None \<Longrightarrow> \<exists>s. j \<in> set (Q s) \<or> j \<in> aw s"
  using assms unfolding ledger_def by blast+

lemma ledger_fresh: "ledger Q h aw \<Longrightarrow> h k = None \<Longrightarrow> k \<notin> set (Q s) \<and> k \<notin> aw s"
  using ledgerD(6,7) by fastforce

lemma ledger_put:
  assumes "ledger Q h aw" "h k = None" "queued_ok buf" "set q = insert k (set (Q s))" "distinct q"
  shows "ledger (Q(s := q)) (h(k \<mapsto> buf)) aw"
proof -
  have f: "\<And>t. k \<notin> set (Q t)" "\<And>t. k \<notin> aw t" using ledger_fresh [OF assms(1,2)] by blast+
  show ?thesis using assms(3-5) f assms(1) unfolding ledger_def by (auto split: if_splits; metis)
qed

lemma ledger_answer: "ledger Q h aw \<Longrightarrow> j \<in> aw s \<Longrightarrow> ledger Q (h(j := None)) (aw(s := aw s - {j}))"
  unfolding ledger_def by (auto split: if_splits; metis)

lemma ledger_sent:
  assumes "ledger Q h aw" "Q s = j # js" "h j = Some buf"
  shows "ledger (Q(s := js)) (h(j \<mapsto> buf\<lparr>pb_pkt := None\<rparr>)) (aw(s := insert j (aw s)))"
    "ledger (Q(s := js)) (h(j := None)) aw"
proof -
  have j: "j \<in> set (Q s)" "\<And>t. t \<noteq> s \<Longrightarrow> j \<notin> set (Q t)" "\<And>t. j \<notin> aw t" "j \<notin> set js" "distinct js"
    using ledgerD [OF assms(1)] assms(2) by (auto, metis list.set_intros(1), metis distinct.simps(2), metis distinct.simps(2))
  have q: "set js \<subseteq> set (Q s)" using assms(2) by auto
  show "ledger (Q(s := js)) (h(j \<mapsto> buf\<lparr>pb_pkt := None\<rparr>)) (aw(s := insert j (aw s)))"
    using j q assms unfolding ledger_def by (auto split: if_splits; metis set_ConsD subsetD list.set_intros)
  show "ledger (Q(s := js)) (h(j := None)) aw"
    using j q assms unfolding ledger_def by (auto split: if_splits; metis set_ConsD subsetD list.set_intros)
qed

lemma ledger_refused: "ledger Q h aw \<Longrightarrow> j \<in> set (Q s) \<Longrightarrow> queued_ok buf \<Longrightarrow> ledger Q (h(j \<mapsto> buf)) aw"
  unfolding ledger_def by (auto split: if_splits; metis)

text \<open>The responses port \<open>s\<close> has reserved room for: those it holds, and those that are still to come.\<close>

definition owed :: "(side \<Rightarrow> nat list) \<Rightarrow> buffers \<Rightarrow> (side \<Rightarrow> nat set) \<Rightarrow> side \<Rightarrow> int" where
  "owed Q h aw s = cnt is_resp h (Q s) + cnt pb_expectResponse h (Q (other s)) + int (card (aw (other s)))"

definition put_in :: "buffers \<Rightarrow> nat \<Rightarrow> PacketBuffer \<Rightarrow> nat list \<Rightarrow> nat list \<Rightarrow> bool" where
  "put_in h k buf q q' \<longleftrightarrow> set q' = insert k (set q) \<and> distinct q' \<and>
     (\<forall>P. cnt P (h(k \<mapsto> buf)) q' = cnt P h q + (if P buf then 1 else 0))"

lemma put_in_append: "k \<notin> set q \<Longrightarrow> distinct q \<Longrightarrow> put_in h k buf q (q @ [k])"
  by (simp add: put_in_def cnt_heap)

lemma owed_put:
  assumes "ledger Q h aw" "h k = None" "put_in h k buf (Q s) q"
  shows "owed (Q(s := q)) (h(k \<mapsto> buf)) aw t =
     owed Q h aw t + (if t = s \<and> is_resp buf then 1 else 0) + (if t = other s \<and> pb_expectResponse buf then 1 else 0)"
proof -
  have "k \<notin> set (Q t)" for t using ledger_fresh [OF assms(1,2)] by blast
  then show ?thesis using assms(3) by (cases "t = s") (auto simp: owed_def put_in_def cnt_heap dest!: side_cases)
qed

lemma owed_answer:
  assumes "ledger Q h aw" "j \<in> aw s"
  shows "owed Q (h(j := None)) (aw(s := aw s - {j})) t = owed Q h aw t - (if t = other s then 1 else 0)"
proof -
  have "j \<notin> set (Q t)" for t using ledgerD(5) [OF assms(1)] assms(2) by blast
  moreover have "int (card (aw s - {j})) = int (card (aw s)) - 1"
    using ledgerD(2) [OF assms(1), of s] assms(2) by (simp add: card_Diff_singleton) (metis Suc_pred card_gt_0_iff empty_iff of_nat_Suc add_diff_cancel_left' of_nat_diff Suc_leI One_nat_def of_nat_1)
  ultimately show ?thesis by (cases "t = s") (auto simp: owed_def cnt_heap dest!: side_cases)
qed

lemma owed_sent:
  assumes "ledger Q h aw" "Q s = j # js" "h j = Some buf"
  shows "pb_expectResponse buf \<Longrightarrow> owed (Q(s := js)) (h(j \<mapsto> buf\<lparr>pb_pkt := None\<rparr>)) (aw(s := insert j (aw s))) t = owed Q h aw t"
    "\<not> pb_expectResponse buf \<Longrightarrow> owed (Q(s := js)) (h(j := None)) aw t = owed Q h aw t - (if t = s \<and> is_resp buf then 1 else 0)"
proof -
  have j: "j \<notin> set js" "j \<notin> set (Q (other s))" "j \<notin> aw s" "finite (aw s)" "queued_ok buf"
    using ledgerD [OF assms(1)] assms(2,3) by (metis distinct.simps(2), metis list.set_intros(1) other_simps(3), metis list.set_intros(1),
      metis, metis list.set_intros(1) option.inject)
  show "owed (Q(s := js)) (h(j \<mapsto> buf\<lparr>pb_pkt := None\<rparr>)) (aw(s := insert j (aw s))) t = owed Q h aw t" if "pb_expectResponse buf"
    using that j assms(2,3) by (cases "t = s") (auto simp: owed_def cnt_heap queued_ok_def is_resp_def dest!: side_cases)
  show "owed (Q(s := js)) (h(j := None)) aw t = owed Q h aw t - (if t = s \<and> is_resp buf then 1 else 0)" if "\<not> pb_expectResponse buf"
    using that j assms(2,3) by (cases "t = s") (auto simp: owed_def cnt_heap dest!: side_cases)
qed

lemma owed_same:
  "h j = Some buf \<Longrightarrow> is_req buf' = is_req buf \<Longrightarrow> pb_nackedHere buf' = pb_nackedHere buf \<Longrightarrow>
   pb_expectResponse buf' = pb_expectResponse buf \<Longrightarrow> owed Q (h(j \<mapsto> buf')) aw t = owed Q h aw t"
  by (simp add: owed_def cnt_same is_resp_def)

section \<open>Events\<close>

text \<open>
  A port with packets waits for a retry, the first packet being due, or has its event scheduled for
  the tick at which the first packet is ready, at the latest for the next tick.
\<close>

definition events_ok :: "Tick \<Rightarrow> buffers \<Rightarrow> BridgePort \<Rightarrow> bool" where
  "events_ok now h p \<longleftrightarrow>
     (if bp_sendQueue p = [] then bp_sendEvent p = None \<and> \<not> bp_inRetry p
      else case h (hd (bp_sendQueue p)) of
             None \<Rightarrow> False
           | Some buf \<Rightarrow>
               if bp_inRetry p then bp_sendEvent p = None \<and> pb_ready buf \<le> now
               else (case bp_sendEvent p of
                       None \<Rightarrow> False
                     | Some t \<Rightarrow> now \<le> t \<and> pb_ready buf \<le> t \<and> t \<le> max (pb_ready buf) (now + 1)))"

lemma events_heap: "k \<notin> set (bp_sendQueue p) \<Longrightarrow> events_ok now (h(k := x)) p = events_ok now h p"
  by (cases "bp_sendQueue p") (auto simp: events_ok_def)

lemma events_counts [simp]:
  "events_ok now h (p\<lparr>bp_outstandingResponses := n\<rparr>) = events_ok now h p" "events_ok now h (p\<lparr>bp_queuedRequests := n\<rparr>) = events_ok now h p"
  by (auto simp: events_ok_def split: option.splits)

lemma buf_at_Some: "h j = Some buf \<Longrightarrow> buf_at h j = Inr buf"
  by (simp add: buf_at_def)

lemma insert_buffer_ok:
  assumes "\<forall>j \<in> set q. h j \<noteq> None" "q \<noteq> []" "\<exists>buf. h (last q) = Some buf \<and> t < pb_ready buf"
  shows "\<exists>l r. q = l @ r \<and> insert_buffer h t k q = Inr (l @ k # r) \<and> (l = [] \<longrightarrow> (\<exists>buf. h (hd q) = Some buf \<and> t < pb_ready buf))"
  using assms
proof (induction q)
  case (Cons j js)
  obtain buf where b: "h j = Some buf" using Cons.prems(1) by auto
  show ?case
  proof (cases "t < pb_ready buf")
    case True
    then show ?thesis using b by (intro exI [of _ "[]"] exI [of _ "j # js"]) (simp add: buf_at_Some)
  next
    case False
    then have "js \<noteq> []" using Cons.prems(3) b by auto
    then obtain l r where lr: "js = l @ r" "insert_buffer h t k js = Inr (l @ k # r)" using Cons by auto
    then show ?thesis using False b by (intro exI [of _ "j # l"] exI [of _ r]) (simp add: buf_at_Some)
  qed
qed simp

lemma put_in_middle: "q = l @ r \<Longrightarrow> k \<notin> set q \<Longrightarrow> distinct q \<Longrightarrow> put_in h k buf q (l @ k # r)"
  by (auto simp: put_in_def cnt_heap)

text \<open>A nack gets its place in the queue; none of the assertions fails.\<close>

lemma queue_nack_ok:
  assumes e: "events_ok now h p" and q: "\<forall>j \<in> set (bp_sendQueue p). h j \<noteq> None" "k \<notin> set (bp_sendQueue p)" "distinct (bp_sendQueue p)"
    and buf: "now \<le> pb_ready buf"
  shows "\<exists>q ev. queue_nack h now (pb_ready buf) k p = Inr (p\<lparr>bp_sendQueue := q, bp_sendEvent := ev\<rparr>) \<and> put_in h k buf (bp_sendQueue p) q \<and>
     events_ok now (h(k \<mapsto> buf)) (p\<lparr>bp_sendQueue := q, bp_sendEvent := ev\<rparr>)"
proof (cases "bp_sendQueue p = []")
  case True
  then show ?thesis using e buf
    by (intro exI [of _ "[k]"] exI [of _ "Some (pb_ready buf)"])
      (auto simp: queue_nack_def bp_schedule_def events_ok_def put_in_def intro!: BridgePort.equality)
next
  case False
  let ?q = "bp_sendQueue p" and ?t = "pb_ready buf"
  obtain bk hdb where bk: "h (last ?q) = Some bk" "h (hd ?q) = Some hdb" using False q(1) by (meson hd_in_set last_in_set not_None_eq)
  have hk: "hd ?q \<noteq> k" using False q(2) by (metis hd_in_set)
  have g: "bp_sendEvent p \<noteq> None \<or> bp_inRetry p" using e False bk(2) by (auto simp: events_ok_def split: if_splits option.splits)
  show ?thesis
  proof (cases "?t \<ge> pb_ready bk")
    case True
    have "queue_nack h now ?t k p = Inr (p\<lparr>bp_sendQueue := ?q @ [k], bp_sendEvent := bp_sendEvent p\<rparr>)"
      using True False g bk(1) by (simp add: queue_nack_def buf_at_Some)
    moreover have "events_ok now (h(k \<mapsto> buf)) (p\<lparr>bp_sendQueue := ?q @ [k], bp_sendEvent := bp_sendEvent p\<rparr>)"
      using e False hk bk(2) by (simp add: events_ok_def)
    ultimately show ?thesis using put_in_append [OF q(2,3)] by blast
  next
    case later: False
    then obtain l r where lr: "?q = l @ r" "insert_buffer h ?t k ?q = Inr (l @ k # r)" "l = [] \<longrightarrow> ?t < pb_ready hdb"
      using insert_buffer_ok [OF q(1) False, of ?t k] bk by auto
    note put = put_in_middle [OF lr(1) q(2,3), of h buf]
    show ?thesis
    proof (cases "l = []")
      case True
      then have t: "?t < pb_ready hdb" using lr(3) by blast
      then obtain u where u: "\<not> bp_inRetry p" "bp_sendEvent p = Some u"
        using e False bk(2) buf by (auto simp: events_ok_def split: if_splits option.splits)
      have "queue_nack h now ?t k p = Inr (p\<lparr>bp_sendQueue := l @ k # r, bp_sendEvent := Some ?t\<rparr>)"
        using True False g bk(1) later lr(2) u buf by (simp add: queue_nack_def buf_at_Some bp_reschedule_def)
      moreover have "events_ok now (h(k \<mapsto> buf)) (p\<lparr>bp_sendQueue := l @ k # r, bp_sendEvent := Some ?t\<rparr>)"
        using True u(1) buf by (simp add: events_ok_def)
      ultimately show ?thesis using put by blast
    next
      case F: False
      have hd: "hd (l @ k # r) = hd ?q" using F lr(1) by simp
      have "queue_nack h now ?t k p = Inr (p\<lparr>bp_sendQueue := l @ k # r, bp_sendEvent := bp_sendEvent p\<rparr>)"
        using False g bk(1) later lr(2) hd hk by (simp add: queue_nack_def buf_at_Some)
      moreover have "events_ok now (h(k \<mapsto> buf)) (p\<lparr>bp_sendQueue := l @ k # r, bp_sendEvent := bp_sendEvent p\<rparr>)"
        using e False hk hd bk(2) by (simp add: events_ok_def)
      ultimately show ?thesis using put by blast
    qed
  qed
qed

section \<open>Invariant\<close>

text \<open>
  The counters of the ports agree with the buffers, up to \<open>d\<close>: between its steps an operation has
  reserved room for a response that is not in the books yet.
\<close>

definition port_book :: "int \<Rightarrow> BridgePort \<Rightarrow> int \<Rightarrow> int \<Rightarrow> bool" where
  "port_book d p reqs resps \<longleftrightarrow> 0 \<le> bp_delay p \<and> 0 \<le> bp_nackDelay p \<and> bp_queuedRequests p = reqs \<and> reqs \<le> bp_reqQueueLimit p \<and>
     bp_outstandingResponses p = resps + d \<and> bp_outstandingResponses p \<le> bp_respQueueLimit p"

definition book :: "(side \<Rightarrow> int) \<Rightarrow> Bridge \<Rightarrow> (side \<Rightarrow> nat set) \<Rightarrow> bool" where
  "book d b aw \<longleftrightarrow> ledger (queues b) (br_heap b) aw \<and>
     (\<forall>s. port_book (d s) (port s b) (cnt is_req (br_heap b) (queues b s)) (owed (queues b) (br_heap b) aw s))"

definition bridge_inv :: "Tick \<Rightarrow> Bridge \<Rightarrow> (side \<Rightarrow> nat set) \<Rightarrow> bool" where
  "bridge_inv now b aw \<longleftrightarrow> book (\<lambda>_. 0) b aw \<and> (\<forall>s. events_ok now (br_heap b) (port s b))"

lemma bookD:
  assumes "book d b aw"
  shows "ledger (queues b) (br_heap b) aw"
    "port_book (d t) (port t b) (cnt is_req (br_heap b) (queues b t)) (owed (queues b) (br_heap b) aw t)"
  using assms by (simp_all add: book_def)

lemma kind_of_packet:
  "pkt_needsResponse pkt \<Longrightarrow> pkt_isRequest pkt" "pkt_isRequest pkt \<Longrightarrow> \<not> pkt_isResponse pkt" "pkt_isResponse pkt \<Longrightarrow> \<not> pkt_isRequest pkt"
  by (cases "p_cmd pkt"; simp add: pkt_query_defs cmd_defs)+

text \<open>A buffer enters the queue of the port \<open>u\<close>, whose count of requests is adapted.\<close>

lemma book_put:
  assumes b: "book d b aw" "br_heap b k = None" and buf: "queued_ok buf" "put_in (br_heap b) k buf (queues b u) q"
    and p: "p = (port u b)\<lparr>bp_sendQueue := q, bp_sendEvent := ev, bp_queuedRequests := bp_queuedRequests (port u b) + (if is_req buf then 1 else 0)\<rparr>"
      "is_req buf \<Longrightarrow> bp_queuedRequests (port u b) < bp_reqQueueLimit (port u b)"
  shows "book (\<lambda>t. d t - (if t = u \<and> is_resp buf then 1 else 0) - (if t = other u \<and> pb_expectResponse buf then 1 else 0))
     ((set_port u p b)\<lparr>br_heap := (br_heap b)(k \<mapsto> buf)\<rparr>) aw"
proof -
  have L: "ledger (queues b) (br_heap b) aw" using b(1) by (simp add: book_def)
  have k: "k \<notin> set (queues b t)" for t using ledger_fresh [OF L b(2)] by blast
  have q: "bp_sendQueue p = q" by (simp add: p(1))
  have "ledger ((queues b)(u := q)) ((br_heap b)(k \<mapsto> buf)) aw"
    using ledger_put [OF L b(2) buf(1)] buf(2) by (simp add: put_in_def)
  moreover have "port_book (d t - (if t = u \<and> is_resp buf then 1 else 0) - (if t = other u \<and> pb_expectResponse buf then 1 else 0))
      (if t = u then p else port t b) (cnt is_req ((br_heap b)(k \<mapsto> buf)) (((queues b)(u := q)) t))
      (owed ((queues b)(u := q)) ((br_heap b)(k \<mapsto> buf)) aw t)" for t
    using bookD(2) [OF b(1), of t] buf(2) p(2) k unfolding owed_put [OF L b(2) buf(2)]
    by (cases "t = u") (auto simp: p(1) port_book_def put_in_def cnt_heap)
  ultimately show ?thesis using q by (simp add: book_def)
qed

lemma events_put:
  assumes "\<forall>t. events_ok now (br_heap b) (port t b)" "k \<notin> set (queues b (other u))" "events_ok now ((br_heap b)(k \<mapsto> buf)) p"
  shows "\<forall>t. events_ok now ((br_heap b)(k \<mapsto> buf)) (port t (set_port u p b))"
  using assms by (auto simp: queues_def events_heap dest!: side_cases)

lemma events_append:
  assumes "events_ok now h p" "k \<notin> set (bp_sendQueue p)" "now \<le> pb_ready buf"
  shows "events_ok now (h(k \<mapsto> buf)) (p\<lparr>bp_sendQueue := bp_sendQueue p @ [k],
    bp_sendEvent := (if bp_sendQueue p = [] then Some (pb_ready buf) else bp_sendEvent p), bp_queuedRequests := n\<rparr>)"
  using assms by (cases "bp_sendQueue p") (auto simp: events_ok_def split: option.splits if_splits)

lemma enqueue_packet_ok:
  assumes b: "book d b aw" "\<forall>t. events_ok now (br_heap b) (port t b)" "br_heap b k = None"
    and pkt: "isSrcValid pkt" "pkt_isRequest pkt \<noteq> pkt_isResponse pkt"
      "pkt_isRequest pkt \<longrightarrow> bp_queuedRequests (port u b) < bp_reqQueueLimit (port u b)"
  shows "\<exists>b' buf. enqueue_packet u now k pkt b = Inr b' \<and>
     book (\<lambda>t. d t - (if t = u \<and> pkt_isResponse pkt then 1 else 0) - (if t = other u \<and> pkt_needsResponse pkt then 1 else 0)) b' aw \<and>
     (\<forall>t. events_ok now (br_heap b') (port t b')) \<and> br_heap b' = (br_heap b)(k \<mapsto> buf) \<and> queues b' = (queues b)(u := queues b u @ [k]) \<and>
     pb_pkt buf = Some (if pkt_isResponse pkt then pkt else pkt\<lparr>p_senderState := Some k\<rparr>) \<and> pb_origSrc buf = p_src pkt \<and>
     pb_origSenderState buf = p_senderState pkt \<and> pb_expectResponse buf = pkt_needsResponse pkt"
proof -
  let ?p = "port u b" and ?q = "queues b u"
  let ?t = "now + bp_delay ?p"
  define buf where "buf = \<lparr>pb_ready = ?t, pb_pkt = Some (if \<not> pkt_isResponse pkt then pkt\<lparr>p_senderState := Some k\<rparr> else pkt),
     pb_nackedHere = False, pb_origSenderState = p_senderState pkt, pb_origSrc = p_src pkt, pb_expectResponse = pkt_needsResponse pkt\<rparr>"
  have new: "PacketBuffer_new k pkt ?t False = Inr buf"
    using pkt(1) by (simp add: PacketBuffer_new_def buf_def getSrc_def isSrcValid_def)
  have tb: "pb_ready buf = ?t" by (simp add: buf_def)
  have L: "ledger (queues b) (br_heap b) aw" "0 \<le> bp_delay ?p" using b(1) by (auto simp: book_def port_book_def)
  have k: "k \<notin> set (queues b t)" for t using ledger_fresh [OF L(1) b(3)] by blast
  have isr: "is_req buf = pkt_isRequest pkt" "is_resp buf = pkt_isResponse pkt" "queued_ok buf"
    using pkt(2) kind_of_packet [of pkt] by (auto simp: is_req_def is_resp_def queued_ok_def buf_def pkt_query_defs)
  define p where "p = ?p\<lparr>bp_sendQueue := ?q @ [k], bp_sendEvent := (if ?q = [] then Some ?t else bp_sendEvent ?p),
     bp_queuedRequests := bp_queuedRequests ?p + (if is_req buf then 1 else 0)\<rparr>"
  have ev: "?q = [] \<Longrightarrow> bp_sendEvent ?p = None" using b(2) [rule_format, of u] by (simp add: events_ok_def queues_def)
  have "enqueue_packet u now k pkt b = Inr ((set_port u p b)\<lparr>br_heap := (br_heap b)(k \<mapsto> buf)\<rparr>)"
    using ev new isr(1) L(2) by (auto simp: enqueue_packet_def Let_def bp_schedule_def p_def queues_def
        intro!: arg_cong [where f = "\<lambda>p. (set_port u p b)\<lparr>br_heap := (br_heap b)(k \<mapsto> buf)\<rparr>"] BridgePort.equality)
  moreover have "book (\<lambda>t. d t - (if t = u \<and> is_resp buf then 1 else 0) - (if t = other u \<and> pb_expectResponse buf then 1 else 0))
      ((set_port u p b)\<lparr>br_heap := (br_heap b)(k \<mapsto> buf)\<rparr>) aw"
    by (rule book_put [OF b(1,3) isr(3) put_in_append p_def]) (use k L ledgerD(1) pkt(3) isr(1) in auto)
  moreover have "events_ok now ((br_heap b)(k \<mapsto> buf)) p"
    unfolding p_def queues_def tb [symmetric] by (rule events_append) (use b(2) k [of u] L(2) tb in \<open>simp_all add: queues_def\<close>)
  then have "\<forall>t. events_ok now ((br_heap b)(k \<mapsto> buf)) (port t (set_port u p b))" using events_put [OF b(2) k] by blast
  ultimately show ?thesis using isr(2)
    by (intro exI [of _ "(set_port u p b)\<lparr>br_heap := (br_heap b)(k \<mapsto> buf)\<rparr>"] exI [of _ buf]) (auto simp: buf_def p_def)
qed

section \<open>Receiving\<close>

text \<open>Whether there is room for a request, and what becomes of it: it is passed on, or it is nacked.\<close>

definition has_room :: "side \<Rightarrow> Packet \<Rightarrow> Bridge \<Rightarrow> bool" where
  "has_room s pkt b \<longleftrightarrow> bp_queuedRequests (port (other s) b) < bp_reqQueueLimit (port (other s) b) \<and>
     (pkt_needsResponse pkt \<longrightarrow> bp_outstandingResponses (port s b) < bp_respQueueLimit (port s b))"

definition passed_on :: "side \<Rightarrow> nat \<Rightarrow> Packet \<Rightarrow> Bridge \<Rightarrow> Bridge \<Rightarrow> bool" where
  "passed_on s k pkt b b' \<longleftrightarrow> queues b' = (queues b)(other s := queues b (other s) @ [k]) \<and>
     (\<exists>buf. br_heap b' = (br_heap b)(k \<mapsto> buf) \<and> pb_pkt buf = Some (pkt\<lparr>p_senderState := Some k\<rparr>) \<and> pb_origSrc buf = p_src pkt \<and>
        pb_origSenderState buf = p_senderState pkt \<and> pb_expectResponse buf = pkt_needsResponse pkt)"

definition nacked :: "side \<Rightarrow> nat \<Rightarrow> Packet \<Rightarrow> Bridge \<Rightarrow> Bridge \<Rightarrow> bool" where
  "nacked s k pkt b b' \<longleftrightarrow> (\<exists>q buf n. queues b' = (queues b)(s := q) \<and> set q = insert k (set (queues b s)) \<and> distinct q \<and>
     br_heap b' = (br_heap b)(k \<mapsto> buf) \<and> pb_pkt buf = Some n \<and> wasNacked n \<and> getDest n = Inr (p_src pkt) \<and>
     p_senderState n = p_senderState pkt \<and> p_origCmd n = p_cmd pkt)"

lemma nackRequest_ok:
  assumes b: "bridge_inv now b aw" "br_heap b k = None" and pkt: "pkt_needsResponse pkt" "isSrcValid pkt"
  shows "\<exists>b'. nackRequest s now k pkt b = Inr b' \<and> bridge_inv now b' aw \<and> nacked s k pkt b b'"
proof -
  let ?p = "port s b" and ?h = "br_heap b"
  obtain r where r: "makeResponse pkt = Inr r" using makeResponse_total [OF pkt(1)] by blast
  note rf = makeResponse_ok [OF r]
  define n where "n = r\<lparr>p_cmd := NetworkNackError\<rparr>"
  have resp: "pkt_isResponse r" using pkt(1) rf(2) cmd_table_response by (simp add: pkt_query_defs)
  have dest: "getDest n = Inr (p_src pkt)" using rf(6,7) pkt(2) by (simp add: n_def getDest_def isDestValid_def)
  define buf where "buf = \<lparr>pb_ready = now + bp_nackDelay ?p, pb_pkt = Some n, pb_nackedHere = True, pb_origSenderState = p_senderState n,
     pb_origSrc = p_src pkt, pb_expectResponse = False\<rparr>"
  have tb: "pb_ready buf = now + bp_nackDelay ?p" by (simp add: buf_def)
  have new: "PacketBuffer_new k n (now + bp_nackDelay ?p) True = Inr buf" using dest by (simp add: PacketBuffer_new_def buf_def)
  have isr: "\<not> is_req buf" "\<not> is_resp buf" "queued_ok buf"
    by (simp_all add: is_req_def is_resp_def queued_ok_def buf_def n_def pkt_query_defs cmd_defs)
  have bk: "book (\<lambda>_. 0) b aw" "\<forall>t. events_ok now ?h (port t b)" using b(1) by (simp_all add: bridge_inv_def)
  have L: "ledger (queues b) ?h aw" "0 \<le> bp_nackDelay ?p" using bk(1) by (auto simp: book_def port_book_def)
  have k: "k \<notin> set (queues b t)" for t using ledger_fresh [OF L(1) b(2)] by blast
  have h: "\<forall>j \<in> set (queues b s). ?h j \<noteq> None" using ledgerD(6) [OF L(1)] by blast
  obtain q ev where q: "queue_nack ?h now (pb_ready buf) k ?p = Inr (?p\<lparr>bp_sendQueue := q, bp_sendEvent := ev\<rparr>)"
    "put_in ?h k buf (queues b s) q" "events_ok now (?h(k \<mapsto> buf)) (?p\<lparr>bp_sendQueue := q, bp_sendEvent := ev\<rparr>)"
    using queue_nack_ok [OF bk(2) [rule_format, of s], where k = k and buf = buf] h k [of s] ledgerD(1) [OF L(1), of s] L(2) tb
    by (auto simp: queues_def)
  define p where "p = ?p\<lparr>bp_sendQueue := q, bp_sendEvent := ev\<rparr>"
  let ?b = "(set_port s p b)\<lparr>br_heap := ?h(k \<mapsto> buf)\<rparr>"
  have "nackRequest s now k pkt b = Inr ?b"
    using r resp new q(1) tb by (simp add: nackRequest_def makeTimingResponse_def setNacked_def n_def p_def)
  moreover have "book (\<lambda>t. 0 - (if t = s \<and> is_resp buf then 1 else 0) - (if t = other s \<and> pb_expectResponse buf then 1 else 0)) ?b aw"
    by (rule book_put [OF bk(1) b(2) isr(3) q(2), where ev = ev]) (use isr(1) in \<open>simp_all add: p_def\<close>)
  then have "book (\<lambda>_. 0) ?b aw" using isr(2) by (simp add: buf_def cong: if_cong)
  moreover have "\<forall>t. events_ok now (?h(k \<mapsto> buf)) (port t (set_port s p b))"
    by (rule events_put [OF bk(2) k]) (use q(3) in \<open>simp add: p_def\<close>)
  moreover have "nacked s k pkt b ?b"
    unfolding nacked_def by (intro exI [of _ q] exI [of _ buf] exI [of _ n])
      (use q(2) rf(3,12) dest in \<open>simp add: put_in_def buf_def p_def n_def wasNacked_def\<close>)
  ultimately show ?thesis by (auto simp: bridge_inv_def)
qed

lemma limits_ok:
  assumes "bridge_inv now b aw"
  shows "reqQueueFull (port s b) = Inr (bp_reqQueueLimit (port s b) \<le> bp_queuedRequests (port s b))"
    "respQueueFull (port s b) = Inr (bp_respQueueLimit (port s b) \<le> bp_outstandingResponses (port s b))"
proof -
  have "port_book 0 (port s b) (cnt is_req (br_heap b) (queues b s)) (owed (queues b) (br_heap b) aw s)"
    using assms by (simp add: bridge_inv_def book_def)
  then show "reqQueueFull (port s b) = Inr (bp_reqQueueLimit (port s b) \<le> bp_queuedRequests (port s b))"
    "respQueueFull (port s b) = Inr (bp_respQueueLimit (port s b) \<le> bp_outstandingResponses (port s b))"
    by (auto simp: reqQueueFull_def respQueueFull_def port_book_def owed_def)
qed

lemma book_reserve:
  assumes "book d b aw" "bp_outstandingResponses (port s b) < bp_respQueueLimit (port s b)"
  shows "book (\<lambda>t. d t + (if t = s then 1 else 0)) (set_port s ((port s b)\<lparr>bp_outstandingResponses := bp_outstandingResponses (port s b) + 1\<rparr>) b) aw"
proof -
  have "(queues b)(s := bp_sendQueue (port s b)) = queues b" by (auto simp: queues_def)
  moreover have "port_book (d t + (if t = s then 1 else 0))
      (if t = s then (port s b)\<lparr>bp_outstandingResponses := bp_outstandingResponses (port s b) + 1\<rparr> else port t b)
      (cnt is_req (br_heap b) (queues b t)) (owed (queues b) (br_heap b) aw t)" for t
    using bookD(2) [OF assms(1), of t] assms(2) by (auto simp: port_book_def)
  ultimately show ?thesis using bookD(1) [OF assms(1)] by (simp add: book_def)
qed

lemma recv_request_ok:
  assumes b: "bridge_inv now b aw" "br_heap b k = None" and pkt: "pkt_isRequest pkt" "isSrcValid pkt" "pkt_needsResponse pkt \<or> has_room s pkt b"
  shows "\<exists>b'. bridge_recvTiming s now k pkt b = Inr (True, b') \<and> bridge_inv now b' aw \<and>
     (if has_room s pkt b then passed_on s k pkt b b' else nacked s k pkt b b')"
proof (cases "has_room s pkt b")
  case False
  then obtain b' where "nackRequest s now k pkt b = Inr b'" "bridge_inv now b' aw" "nacked s k pkt b b'"
    using nackRequest_ok [OF b] pkt by blast
  then show ?thesis using False pkt limits_ok [OF b(1)] by (auto simp: bridge_recvTiming_def has_room_def)
next
  case True
  have nr: "\<not> pkt_isResponse pkt" using kind_of_packet pkt(1) by blast
  define b1 where "b1 = (if pkt_needsResponse pkt
     then set_port s ((port s b)\<lparr>bp_outstandingResponses := bp_outstandingResponses (port s b) + 1\<rparr>) b else b)"
  have bk: "book (\<lambda>_. 0) b aw" "\<forall>t. events_ok now (br_heap b) (port t b)" using b(1) by (simp_all add: bridge_inv_def)
  have q: "queues b1 = queues b" "br_heap b1 = br_heap b" "port (other s) b1 = port (other s) b" by (auto simp: b1_def queues_def)
  have f1: "book (\<lambda>t. 0 + (if t = s \<and> pkt_needsResponse pkt then 1 else 0)) b1 aw"
    using book_reserve [OF bk(1), of s] bk(1) True by (auto simp: has_room_def b1_def)
  have f2: "\<forall>t. events_ok now (br_heap b1) (port t b1)" using bk(2) by (simp add: b1_def)
  have f3: "br_heap b1 k = None" "pkt_isRequest pkt \<noteq> pkt_isResponse pkt" using b(2) q pkt(1) nr by simp_all
  have f4: "pkt_isRequest pkt \<longrightarrow> bp_queuedRequests (port (other s) b1) < bp_reqQueueLimit (port (other s) b1)" using True q by (simp add: has_room_def)
  obtain b' buf where b': "enqueue_packet (other s) now k pkt b1 = Inr b'"
    "book (\<lambda>t. 0 + (if t = s \<and> pkt_needsResponse pkt then 1 else 0) - (if t = other s \<and> pkt_isResponse pkt then 1 else 0) -
       (if t = other (other s) \<and> pkt_needsResponse pkt then 1 else 0)) b' aw"
    "\<forall>t. events_ok now (br_heap b') (port t b')" "br_heap b' = (br_heap b1)(k \<mapsto> buf)"
    "queues b' = (queues b1)(other s := queues b1 (other s) @ [k])"
    "pb_pkt buf = Some (if pkt_isResponse pkt then pkt else pkt\<lparr>p_senderState := Some k\<rparr>)" "pb_origSrc buf = p_src pkt"
    "pb_origSenderState buf = p_senderState pkt" "pb_expectResponse buf = pkt_needsResponse pkt"
    using enqueue_packet_ok [OF f1 f2 f3(1) pkt(2) f3(2) f4] by (elim exE conjE) (rule that)
  have "bridge_inv now b' aw" using b'(2,3) nr by (simp add: bridge_inv_def cong: if_cong)
  moreover have "bridge_recvTiming s now k pkt b = Inr (True, b')"
    using True limits_ok [OF b(1)] b'(1) pkt(1) nr by (auto simp: bridge_recvTiming_def has_room_def queueForSendTiming_def b1_def)
  moreover have "passed_on s k pkt b b'" using b'(4-9) q nr by (auto simp: passed_on_def)
  ultimately show ?thesis using True by (intro exI [of _ b']) simp
qed

text \<open>A response to a request that port \<open>s\<close> sent goes to the other port, addressed as the request was.\<close>

definition returned :: "side \<Rightarrow> nat \<Rightarrow> nat \<Rightarrow> Packet \<Rightarrow> Bridge \<Rightarrow> Bridge \<Rightarrow> bool" where
  "returned s k j pkt b b' \<longleftrightarrow> queues b' = (queues b)(other s := queues b (other s) @ [k]) \<and>
     (\<exists>buf buf'. br_heap b j = Some buf \<and> br_heap b' = ((br_heap b)(j := None))(k \<mapsto> buf') \<and>
        pb_pkt buf' = Some ((setDest (pb_origSrc buf) pkt)\<lparr>p_senderState := pb_origSenderState buf\<rparr>))"

lemma recv_response_ok:
  assumes b: "bridge_inv now b aw" "br_heap b k = None \<or> k = j" "j \<in> aw s"
    and pkt: "pkt_isResponse pkt" "isSrcValid pkt" "p_senderState pkt = Some j"
  shows "\<exists>b'. bridge_recvTiming s now k pkt b = Inr (True, b') \<and> bridge_inv now b' (aw(s := aw s - {j})) \<and> returned s k j pkt b b'"
proof -
  have bk: "book (\<lambda>_. 0) b aw" "\<forall>t. events_ok now (br_heap b) (port t b)" using b(1) by (simp_all add: bridge_inv_def)
  note L = bookD(1) [OF bk(1)]
  obtain buf where buf: "br_heap b j = Some buf" using ledgerD(7) [OF L b(3)] by blast
  have j: "j \<notin> set (queues b t)" for t using ledgerD(5) [OF L] b(3) by blast
  define b1 where "b1 = b\<lparr>br_heap := (br_heap b)(j := None)\<rparr>"
  define pkt1 where "pkt1 = (setDest (pb_origSrc buf) pkt)\<lparr>p_senderState := pb_origSenderState buf\<rparr>"
  have take: "take_response pkt b = Inr (pkt1, b1)"
    using pkt(3) buf by (simp add: take_response_def buf_at_Some fixResponse_def pkt1_def b1_def)
  have kind: "isSrcValid pkt1" "pkt_isResponse pkt1" "\<not> pkt_isRequest pkt1" "\<not> pkt_needsResponse pkt1" "\<not> pkt_isRequest pkt" "\<not> pkt_needsResponse pkt"
    using pkt(1,2) kind_of_packet [of pkt] by (auto simp: pkt1_def setDest_def isSrcValid_def pkt_query_defs flag_simps pkt_flag_defs)
  have f1: "book (\<lambda>t. 0 + (if t = other s then 1 else 0)) b1 (aw(s := aw s - {j}))"
    unfolding book_def
  proof (intro conjI allI)
    show "ledger (queues b1) (br_heap b1) (aw(s := aw s - {j}))" using ledger_answer [OF L b(3)] by (simp add: b1_def)
    show "port_book (0 + (if t = other s then 1 else 0)) (port t b1) (cnt is_req (br_heap b1) (queues b1 t))
        (owed (queues b1) (br_heap b1) (aw(s := aw s - {j})) t)" for t
      using bookD(2) [OF bk(1), of t] owed_answer [OF L b(3), of t] j by (auto simp: b1_def port_book_def cnt_heap)
  qed
  have f2: "\<forall>t. events_ok now (br_heap b1) (port t b1)" using bk(2) j by (simp add: b1_def events_heap queues_def)
  have f3: "br_heap b1 k = None" "pkt_isRequest pkt1 \<noteq> pkt_isResponse pkt1" using b(2) kind by (auto simp: b1_def)
  have f4: "pkt_isRequest pkt1 \<longrightarrow> bp_queuedRequests (port (other s) b1) < bp_reqQueueLimit (port (other s) b1)" using kind by blast
  obtain b' buf' where b': "enqueue_packet (other s) now k pkt1 b1 = Inr b'"
    "book (\<lambda>t. 0 + (if t = other s then 1 else 0) - (if t = other s \<and> pkt_isResponse pkt1 then 1 else 0) -
       (if t = other (other s) \<and> pkt_needsResponse pkt1 then 1 else 0)) b' (aw(s := aw s - {j}))"
    "\<forall>t. events_ok now (br_heap b') (port t b')" "br_heap b' = (br_heap b1)(k \<mapsto> buf')"
    "queues b' = (queues b1)(other s := queues b1 (other s) @ [k])"
    "pb_pkt buf' = Some (if pkt_isResponse pkt1 then pkt1 else pkt1\<lparr>p_senderState := Some k\<rparr>)" "pb_origSrc buf' = p_src pkt1"
    "pb_origSenderState buf' = p_senderState pkt1" "pb_expectResponse buf' = pkt_needsResponse pkt1"
    using enqueue_packet_ok [OF f1 f2 f3(1) kind(1) f3(2) f4] by (elim exE conjE) (rule that)
  have "bridge_inv now b' (aw(s := aw s - {j}))" using b'(2,3) kind by (simp add: bridge_inv_def cong: if_cong)
  moreover have "bridge_recvTiming s now k pkt b = Inr (True, b')"
    using take b'(1) pkt(1) kind by (simp add: bridge_recvTiming_def queueForSendTiming_def)
  moreover have "returned s k j pkt b b'"
    unfolding returned_def using b'(4-6) kind(2) buf by (auto simp: b1_def pkt1_def intro!: exI [of _ buf'])
  ultimately show ?thesis by blast
qed

section \<open>Sending\<close>

text \<open>A peer that refuses a packet leaves its command alone.\<close>

definition peer_keeps :: "'w bridge_send \<Rightarrow> bool" where
  "peer_keeps sendf \<longleftrightarrow> (\<forall>s pkt w pkt' w'. sendf s pkt w = (False, pkt', w') \<longrightarrow> p_cmd pkt' = p_cmd pkt)"

text \<open>The buffers that leave the queue of \<open>s\<close> and stay, since their requests expect responses.\<close>

definition sent_now :: "side \<Rightarrow> Bridge \<Rightarrow> Bridge \<Rightarrow> nat set" where
  "sent_now s b b' = {j \<in> set (queues b s). j \<notin> set (queues b' s) \<and> br_heap b' j \<noteq> None}"

lemma schedule_next_ok:
  assumes "\<forall>j \<in> set (bp_sendQueue p). h j \<noteq> None" "bp_sendEvent p = None" "\<not> bp_inRetry p"
  shows "\<exists>ev. schedule_next h now p = Inr (p\<lparr>bp_sendEvent := ev\<rparr>) \<and> events_ok now h (p\<lparr>bp_sendEvent := ev\<rparr>)"
proof (cases "bp_sendQueue p")
  case Nil
  then show ?thesis using assms by (intro exI [of _ None]) (simp add: schedule_next_def events_ok_def)
next
  case (Cons j js)
  then obtain buf where "h j = Some buf" using assms(1) by auto
  then show ?thesis using assms Cons by (intro exI [of _ "Some (max (pb_ready buf) (now + 1))"])
    (simp add: schedule_next_def events_ok_def buf_at_Some bp_schedule_def max_def)
qed

lemma book_sent:
  assumes b: "book (\<lambda>_. 0) b aw" "queues b s = j # js" "br_heap b j = Some buf"
    and p: "p = (sent_port (is_req buf) (pb_nackedHere buf) js (port s b))\<lparr>bp_sendEvent := ev\<rparr>"
  shows "pb_expectResponse buf \<Longrightarrow>
      book (\<lambda>_. 0) ((set_port s p b)\<lparr>br_heap := (br_heap b)(j \<mapsto> buf\<lparr>pb_pkt := None\<rparr>)\<rparr>) (aw(s := insert j (aw s)))"
    "\<not> pb_expectResponse buf \<Longrightarrow> book (\<lambda>_. 0) ((set_port s p b)\<lparr>br_heap := (br_heap b)(j := None)\<rparr>) aw"
proof -
  note L = bookD(1) [OF b(1)]
  have q: "bp_sendQueue p = js" by (simp add: p sent_port_def Let_def)
  have d: "j \<notin> set js" "\<And>t. t \<noteq> s \<Longrightarrow> j \<notin> set (queues b t)" "queued_ok buf"
    using ledgerD [OF L] b(2,3) by (metis distinct.simps(2), metis list.set_intros(1), metis list.set_intros(1) option.inject)
  have c: "cnt is_req (br_heap b) (queues b s) = (if is_req buf then 1 else 0) + cnt is_req (br_heap b) js" using b(2,3) by simp
  have pb: "port_book 0 (if t = s then p else port t b) (cnt is_req ((br_heap b)(j := x)) (((queues b)(s := js)) t))
      (owed (queues b) (br_heap b) aw t - (if t = s \<and> is_resp buf then 1 else 0))" for t x
    using bookD(2) [OF b(1), of t] d c
    by (cases "t = s") (auto simp: port_book_def cnt_heap p sent_port_def Let_def is_resp_def queued_ok_def split: if_splits)
  show "book (\<lambda>_. 0) ((set_port s p b)\<lparr>br_heap := (br_heap b)(j \<mapsto> buf\<lparr>pb_pkt := None\<rparr>)\<rparr>) (aw(s := insert j (aw s)))"
    if e: "pb_expectResponse buf"
  proof -
    have "\<not> is_resp buf" using e d(3) by (simp add: queued_ok_def is_resp_def)
    then show ?thesis using ledger_sent(1) [OF L b(2,3)] owed_sent(1) [OF L b(2,3) e] pb q by (simp add: book_def)
  qed
  show "book (\<lambda>_. 0) ((set_port s p b)\<lparr>br_heap := (br_heap b)(j := None)\<rparr>) aw" if e: "\<not> pb_expectResponse buf"
    using ledger_sent(2) [OF L b(2,3)] owed_sent(2) [OF L b(2,3) e] pb q by (simp add: book_def)
qed

text \<open>A port whose first packet is due sends it, or waits for a retry; none of the assertions fails.\<close>

lemma trySend_ok:
  assumes b: "book (\<lambda>_. 0) b aw" "events_ok now (br_heap b) (port (other s) b)" "queues b s = j # js" "br_heap b j = Some buf"
      "pb_ready buf \<le> now" "bp_sendEvent (port s b) = None" "\<not> bp_inRetry (port s b)"
    and peer: "peer_keeps sendf"
  shows "\<exists>b' w'. trySend sendf s now b w = Inr (b', w') \<and> bridge_inv now b' (aw(s := aw s \<union> sent_now s b b'))"
proof -
  let ?h = "br_heap b"
  note L = bookD(1) [OF b(1)]
  have q: "bp_sendQueue (port s b) = j # js" using b(3) by (simp add: queues_def)
  have d: "j \<notin> set js" "j \<notin> set (queues b (other s))" "queued_ok buf" "\<forall>i \<in> set js. ?h i \<noteq> None"
    using ledgerD [OF L] b(3,4) by (metis distinct.simps(2), metis list.set_intros(1) other_simps(2), metis list.set_intros(1) option.inject,
      metis list.set_intros(2) option.distinct(1))
  obtain pkt where pkt: "pb_pkt buf = Some pkt" using d(3) by (auto simp: queued_ok_def)
  have req: "is_req buf = pkt_isRequest pkt" using pkt by (simp add: is_req_def)
  let ?pkt = "if is_req buf \<and> \<not> pb_expectResponse buf then pkt\<lparr>p_senderState := None\<rparr> else pkt"
  obtain sent pkt' w' where send: "sendf s ?pkt w = (sent, pkt', w')" by (metis prod_cases3)
  have others: "events_ok now (?h(j := x)) (port (other s) b)" for x using b(2) d(2) by (simp add: events_heap queues_def)
  show ?thesis
  proof (cases sent)
    case True
    define h where "h = ?h(j := (if pb_expectResponse buf then Some (buf\<lparr>pb_pkt := None\<rparr>) else None))"
    define p0 where "p0 = sent_port (is_req buf) (pb_nackedHere buf) js (port s b)"
    have p0: "bp_sendQueue p0 = js" "bp_sendEvent p0 = None" "\<not> bp_inRetry p0" using b(6,7) by (auto simp: p0_def sent_port_def Let_def)
    have hs: "\<forall>i \<in> set (bp_sendQueue p0). h i \<noteq> None" using p0(1) d(1,4) by (auto simp: h_def)
    obtain ev where ev: "schedule_next h now p0 = Inr (p0\<lparr>bp_sendEvent := ev\<rparr>)" "events_ok now h (p0\<lparr>bp_sendEvent := ev\<rparr>)"
      using schedule_next_ok [OF hs p0(2,3)] by blast
    let ?b = "(set_port s (p0\<lparr>bp_sendEvent := ev\<rparr>) b)\<lparr>br_heap := h\<rparr>"
    have "trySend sendf s now b w = Inr (?b, w')"
      using q b(4,5) pkt send True ev(1) req by (simp add: trySend_def buf_at_Some h_def p0_def)
    moreover have "book (\<lambda>_. 0) ?b (aw(s := aw s \<union> sent_now s b ?b))"
    proof (cases "pb_expectResponse buf")
      case e: True
      have "sent_now s b ?b = {j}" using d(1) b(3) p0(1) e by (auto simp: sent_now_def h_def)
      then show ?thesis using book_sent(1) [OF b(1,3,4) refl e, of ev] e by (simp add: p0_def h_def)
    next
      case e: False
      have "sent_now s b ?b = {}" using d(1) b(3) p0(1) e by (auto simp: sent_now_def h_def)
      then show ?thesis using book_sent(2) [OF b(1,3,4) refl e, of ev] e by (simp add: p0_def h_def)
    qed
    moreover have "\<forall>t. events_ok now (br_heap ?b) (port t ?b)" using ev(2) others by (auto simp: h_def dest!: side_cases)
    ultimately show ?thesis unfolding bridge_inv_def by blast
  next
    case False
    let ?buf = "buf\<lparr>pb_pkt := Some (pkt'\<lparr>p_senderState := p_senderState pkt\<rparr>)\<rparr>"
    let ?b = "(set_port s ((port s b)\<lparr>bp_inRetry := True\<rparr>) b)\<lparr>br_heap := ?h(j \<mapsto> ?buf)\<rparr>"
    have "sendf s ?pkt w = (False, pkt', w')" using send False by simp
    then have "p_cmd pkt' = p_cmd ?pkt" using peer unfolding peer_keeps_def by blast
    then have r: "is_req ?buf = is_req buf" using pkt by (simp add: is_req_def pkt_isRequest_def split: if_splits)
    have "trySend sendf s now b w = Inr (?b, w')"
      using q b(4,5) pkt send False req by (simp add: trySend_def buf_at_Some)
    moreover have "sent_now s b ?b = {}" using q by (auto simp: sent_now_def queues_def)
    moreover have "book (\<lambda>_. 0) ?b aw"
      unfolding book_def
    proof (intro conjI allI)
      have qs: "queues ?b = queues b" by (auto simp: queues_def)
      show "ledger (queues ?b) (br_heap ?b) aw"
        using ledger_refused [OF L, of j s ?buf] d(3) r b(3) qs by (simp add: queued_ok_def)
      show "port_book 0 (port t ?b) (cnt is_req (br_heap ?b) (queues ?b t)) (owed (queues ?b) (br_heap ?b) aw t)" for t
        using bookD(2) [OF b(1), of t] owed_same [where h = ?h, OF b(4) r] cnt_same [where P = is_req and h = ?h, OF b(4) r] unfolding qs
        by (auto simp: port_book_def)
    qed
    moreover have "events_ok now (br_heap ?b) (port s ?b)" using b(5,6) q by (simp add: events_ok_def)
    then have "\<forall>t. events_ok now (br_heap ?b) (port t ?b)" using others by (auto dest!: side_cases)
    ultimately show ?thesis unfolding bridge_inv_def by (intro exI [of _ ?b] exI [of _ w']) simp
  qed
qed

section \<open>Runs\<close>

text \<open>
  The states a bridge can reach, with the buffers whose requests are on their way: requests come from
  anywhere, responses answer requests that the port sent, events fire when they are due, and a
  retry comes only to a port that waits for one.  Every packet comes with a valid source, which the
  bus sets.
\<close>

inductive bridge_step :: "'w bridge_send \<Rightarrow> Tick \<times> Bridge \<times> (side \<Rightarrow> nat set) \<times> 'w \<Rightarrow> Tick \<times> Bridge \<times> (side \<Rightarrow> nat set) \<times> 'w \<Rightarrow> bool"
  for sendf where
  time: "now \<le> now' \<Longrightarrow> \<forall>s t. bp_sendEvent (port s b) = Some t \<longrightarrow> now' \<le> t \<Longrightarrow> bridge_step sendf (now, b, aw, w) (now', b, aw, w)"
| request: "pkt_isRequest pkt \<Longrightarrow> isSrcValid pkt \<Longrightarrow> br_heap b k = None \<Longrightarrow> bridge_recvTiming s now k pkt b = Inr (r, b') \<Longrightarrow>
    bridge_step sendf (now, b, aw, w) (now, b', aw, w)"
| response: "pkt_isResponse pkt \<Longrightarrow> isSrcValid pkt \<Longrightarrow> p_senderState pkt = Some j \<Longrightarrow> j \<in> aw s \<Longrightarrow> br_heap b k = None \<or> k = j \<Longrightarrow>
    bridge_recvTiming s now k pkt b = Inr (r, b') \<Longrightarrow> bridge_step sendf (now, b, aw, w) (now, b', aw(s := aw s - {j}), w)"
| fire: "bp_sendEvent (port s b) = Some now \<Longrightarrow> bridge_process sendf s now b w = Inr (b', w') \<Longrightarrow>
    bridge_step sendf (now, b, aw, w) (now, b', aw(s := aw s \<union> sent_now s b b'), w')"
| retry: "bp_inRetry (port s b) \<Longrightarrow> bridge_recvRetry sendf s now b w = Inr (b', w') \<Longrightarrow>
    bridge_step sendf (now, b, aw, w) (now, b', aw(s := aw s \<union> sent_now s b b'), w')"

text \<open>A request that needs no response cannot be nacked.\<close>

lemma recv_no_room:
  assumes "bridge_inv now b aw" "pkt_isRequest pkt" "\<not> pkt_needsResponse pkt" "\<not> has_room s pkt b"
  shows "bridge_recvTiming s now k pkt b = Inl AssertFail"
  using assms(2-4) limits_ok(1) [OF assms(1), of "other s"]
  by (simp add: bridge_recvTiming_def has_room_def nackRequest_def makeTimingResponse_def makeResponse_def)

lemma recvTiming_inv:
  assumes "bridge_inv now b aw" "br_heap b k = None" "pkt_isRequest pkt" "isSrcValid pkt" "bridge_recvTiming s now k pkt b = Inr (r, b')"
  shows "bridge_inv now b' aw"
proof -
  have "pkt_needsResponse pkt \<or> has_room s pkt b" using assms(3,5) recv_no_room [OF assms(1)] by fastforce
  from recv_request_ok [OF assms(1-4) this] show ?thesis using assms(5) by auto
qed

lemma quiet_port:
  assumes "book d b aw" "p = port s b\<lparr>bp_sendEvent := ev, bp_inRetry := r\<rparr>"
  shows "book d (set_port s p b) aw"
proof -
  have q: "(queues b)(s := bp_sendQueue p) = queues b" by (auto simp: queues_def assms(2))
  have "port_book (d t) (if t = s then p else port t b) (cnt is_req (br_heap b) (queues b t)) (owed (queues b) (br_heap b) aw t)" for t
    using bookD(2) [OF assms(1), of t] by (auto simp: port_book_def assms(2))
  then show ?thesis using bookD(1) [OF assms(1)] q by (simp add: book_def)
qed

lemma events_okD:
  assumes "events_ok now h p"
  shows "bp_sendEvent p = Some t \<Longrightarrow> \<not> bp_inRetry p \<and> (\<exists>j js buf. bp_sendQueue p = j # js \<and> h j = Some buf \<and> pb_ready buf \<le> t)"
    "bp_inRetry p \<Longrightarrow> bp_sendEvent p = None \<and> (\<exists>j js buf. bp_sendQueue p = j # js \<and> h j = Some buf \<and> pb_ready buf \<le> now)"
  using assms by (cases "bp_sendQueue p"; auto simp: events_ok_def split: if_splits option.splits)+

lemma events_time: "events_ok now h p \<Longrightarrow> now \<le> now' \<Longrightarrow> \<forall>t. bp_sendEvent p = Some t \<longrightarrow> now' \<le> t \<Longrightarrow> events_ok now' h p"
  by (auto simp: events_ok_def split: if_splits option.splits)

lemma process_ok:
  assumes b: "bridge_inv now b aw" "bp_sendEvent (port s b) = Some now" and peer: "peer_keeps sendf"
  shows "\<exists>b' w'. bridge_process sendf s now b w = Inr (b', w') \<and> bridge_inv now b' (aw(s := aw s \<union> sent_now s b b'))"
proof -
  let ?b = "set_port s ((port s b)\<lparr>bp_sendEvent := None\<rparr>) b"
  have bk: "book (\<lambda>_. 0) b aw" "\<forall>t. events_ok now (br_heap b) (port t b)" using b(1) by (simp_all add: bridge_inv_def)
  obtain j js buf where q: "\<not> bp_inRetry (port s b)" "bp_sendQueue (port s b) = j # js" "br_heap b j = Some buf" "pb_ready buf \<le> now"
    using events_okD(1) [OF bk(2) [rule_format] b(2)] by blast
  have "book (\<lambda>_. 0) ?b aw" by (rule quiet_port [OF bk(1), where r = False and ev = None]) (use q(1) in simp)
  moreover have "events_ok now (br_heap ?b) (port (other s) ?b)" using bk(2) by simp
  moreover have "queues ?b s = j # js" using q(2) by simp
  ultimately have "\<exists>b' w'. trySend sendf s now ?b w = Inr (b', w') \<and> bridge_inv now b' (aw(s := aw s \<union> sent_now s ?b b'))"
    using trySend_ok [where b = ?b and w = w] q peer by auto
  moreover have "sent_now s ?b b' = sent_now s b b'" for b' by (simp add: sent_now_def queues_def)
  ultimately show ?thesis by (simp add: bridge_process_def)
qed

lemma recvRetry_ok:
  assumes b: "bridge_inv now b aw" "bp_inRetry (port s b)" and peer: "peer_keeps sendf"
  shows "\<exists>b' w'. bridge_recvRetry sendf s now b w = Inr (b', w') \<and> bridge_inv now b' (aw(s := aw s \<union> sent_now s b b'))"
proof -
  let ?b = "set_port s ((port s b)\<lparr>bp_inRetry := False\<rparr>) b"
  have bk: "book (\<lambda>_. 0) b aw" "\<forall>t. events_ok now (br_heap b) (port t b)" using b(1) by (simp_all add: bridge_inv_def)
  obtain j js buf where q: "bp_sendEvent (port s b) = None" "bp_sendQueue (port s b) = j # js" "br_heap b j = Some buf" "pb_ready buf \<le> now"
    using events_okD(2) [OF bk(2) [rule_format] b(2)] by blast
  have "book (\<lambda>_. 0) ?b aw" by (rule quiet_port [OF bk(1), where r = False and ev = None]) (use q(1) in simp)
  moreover have "events_ok now (br_heap ?b) (port (other s) ?b)" using bk(2) by simp
  moreover have "queues ?b s = j # js" using q(2) by simp
  ultimately have "\<exists>b' w'. trySend sendf s now ?b w = Inr (b', w') \<and> bridge_inv now b' (aw(s := aw s \<union> sent_now s ?b b'))"
    using trySend_ok [where b = ?b and w = w] q peer by auto
  moreover have "sent_now s ?b b' = sent_now s b b'" for b' by (simp add: sent_now_def queues_def)
  ultimately show ?thesis using q by (simp add: bridge_recvRetry_def buf_at_Some)
qed

lemma bridge_step_inv:
  assumes "bridge_step sendf (now, b, aw, w) (now', b', aw', w')" "peer_keeps sendf" "bridge_inv now b aw"
  shows "bridge_inv now' b' aw'"
  using assms(1)
proof (cases rule: bridge_step.cases)
  case time
  have "events_ok now' (br_heap b) (port s b)" for s
    using assms(3) time(4,5) events_time [of now "br_heap b" "port s b" now'] by (simp add: bridge_inv_def)
  then show ?thesis using assms(3) time by (simp add: bridge_inv_def)
next
  case (request pkt k s r)
  then show ?thesis using recvTiming_inv [OF assms(3)] by blast
next
  case (response pkt j s k r)
  then have "\<exists>b2. bridge_recvTiming s now k pkt b = Inr (True, b2) \<and> bridge_inv now b2 (aw(s := aw s - {j}))"
    using recv_response_ok [OF assms(3), of k j s pkt] by blast
  then show ?thesis using response by auto
next
  case (fire s)
  then show ?thesis using process_ok [OF assms(3) _ assms(2), of s w] by auto
next
  case (retry s)
  then show ?thesis using recvRetry_ok [OF assms(3) _ assms(2), of s w] by auto
qed

definition state_inv :: "Tick \<times> Bridge \<times> (side \<Rightarrow> nat set) \<times> 'w \<Rightarrow> bool" where
  "state_inv S \<longleftrightarrow> (case S of (now, b, aw, _) \<Rightarrow> bridge_inv now b aw)"

lemma bridge_steps_inv:
  assumes "(bridge_step sendf)\<^sup>*\<^sup>* S S'" "peer_keeps sendf" "state_inv S"
  shows "state_inv S'"
  using assms(1)
proof (induction rule: rtranclp_induct)
  case (step T U)
  then show ?case using bridge_step_inv [OF _ assms(2)] by (cases T; cases U) (auto simp: state_inv_def)
qed (rule assms(3))

text \<open>A bridge as its parameters allow it, before anything has happened.\<close>

definition fresh_bridge :: "Bridge \<Rightarrow> bool" where
  "fresh_bridge b \<longleftrightarrow> (\<exists>delay nack_delay req_a resp_a filter_a req_b resp_b filter_b.
     Bridge_new delay nack_delay req_a resp_a filter_a req_b resp_b filter_b False = Inr b \<and>
     0 \<le> delay \<and> 0 \<le> nack_delay \<and> 0 \<le> req_a \<and> 0 \<le> resp_a \<and> 0 \<le> req_b \<and> 0 \<le> resp_b)"

lemma fresh_bridge_inv:
  assumes "fresh_bridge b"
  shows "bridge_inv now b (\<lambda>_. {})"
proof -
  have "queues b t = [] \<and> br_heap b = (\<lambda>_. None) \<and> port_book 0 (port t b) 0 0 \<and> events_ok now (br_heap b) (port t b)" for t
    using assms by (cases t) (auto simp: fresh_bridge_def Bridge_new_def BridgePort_new_def queues_def port_book_def events_ok_def)
  then have "\<forall>t. queues b t = []" "br_heap b = (\<lambda>_. None)" "\<forall>t. port_book 0 (port t b) 0 0" "\<forall>t. events_ok now (br_heap b) (port t b)"
    by blast+
  then show ?thesis unfolding bridge_inv_def book_def by (simp add: ledger_def owed_def)
qed

lemma reachable_inv:
  assumes "fresh_bridge b0" "peer_keeps sendf" "(bridge_step sendf)\<^sup>*\<^sup>* (t0, b0, \<lambda>_. {}, w0) (now, b, aw, w)"
  shows "bridge_inv now b aw"
  using bridge_steps_inv [OF assms(3,2)] fresh_bridge_inv [OF assms(1)] by (simp add: state_inv_def)

text \<open>The buffer of a request that is in the queue of \<open>u\<close> or on its way keeps what it saved of the request.\<close>

definition pending :: "side \<Rightarrow> nat \<Rightarrow> Tick \<times> Bridge \<times> (side \<Rightarrow> nat set) \<times> 'w \<Rightarrow> bool" where
  "pending u k S \<longleftrightarrow> (case S of (_, b, aw, _) \<Rightarrow> k \<in> set (queues b u) \<or> k \<in> aw u)"

definition saved :: "buffers \<Rightarrow> nat \<Rightarrow> (int \<times> nat option) option" where
  "saved h k = map_option (\<lambda>buf. (pb_origSrc buf, pb_origSenderState buf)) (h k)"

lemma trySend_saved:
  assumes "trySend sendf s now b w = Inr (b', w')" "br_heap b' k \<noteq> None"
  shows "saved (br_heap b') k = saved (br_heap b) k"
proof -
  obtain j js where q: "bp_sendQueue (port s b) = j # js" using assms(1) by (cases "bp_sendQueue (port s b)") (auto simp: trySend_def)
  then obtain buf pkt where h: "br_heap b j = Some buf" "pb_pkt buf = Some pkt"
    using assms(1) by (auto simp: trySend_def buf_at_def guard_res_def split: option.splits if_splits)
  show ?thesis using assms q h
    by (auto simp: trySend_def buf_at_def saved_def res_simps Let_def split: prod.splits if_splits)
qed

lemma recvRetry_saved:
  assumes "bridge_recvRetry sendf s now b w = Inr (b', w')" "br_heap b' k \<noteq> None"
  shows "saved (br_heap b') k = saved (br_heap b) k"
proof -
  let ?b = "set_port s ((port s b)\<lparr>bp_inRetry := False\<rparr>) b"
  have "trySend sendf s now ?b w = Inr (b', w') \<or> br_heap b' = br_heap b"
    using assms(1) by (auto simp: bridge_recvRetry_def Let_def res_simps split: list.splits if_splits)
  then show ?thesis using trySend_saved [of sendf s now ?b w b' w' k] assms(2) by auto
qed

lemma bridge_step_saved:
  assumes "bridge_step sendf (now, b, aw, w) (now', b', aw', w')" "peer_keeps sendf" "bridge_inv now b aw"
    "pending u k (now, b, aw, w)" "pending u k (now', b', aw', w')"
  shows "saved (br_heap b') k = saved (br_heap b) k"
proof -
  have L: "ledger (queues b) (br_heap b) aw" "ledger (queues b') (br_heap b') aw'"
    using assms(3) bridge_step_inv [OF assms(1-3)] by (simp_all add: bridge_inv_def book_def)
  have k: "br_heap b k \<noteq> None" "br_heap b' k \<noteq> None"
    using ledgerD(6,7) [OF L(1)] ledgerD(6,7) [OF L(2)] assms(4,5) unfolding pending_def by (metis case_prod_conv option.distinct(1))+
  show ?thesis
    using assms(1)
  proof (cases rule: bridge_step.cases)
    case (request pkt k' s r)
    have "pkt_needsResponse pkt \<or> has_room s pkt b" using request recv_no_room [OF assms(3)] by fastforce
    then obtain buf where "br_heap b' = (br_heap b)(k' \<mapsto> buf)"
      using recv_request_ok [OF assms(3), of k' pkt s] request by (auto simp: passed_on_def nacked_def split: if_splits)
    then show ?thesis using k(1) request by (auto simp: saved_def)
  next
    case (response pkt j s k' r)
    have "\<exists>b2. bridge_recvTiming s now k' pkt b = Inr (True, b2) \<and> returned s k' j pkt b b2"
      using recv_response_ok [OF assms(3), of k' j s pkt] response by blast
    then have ret: "returned s k' j pkt b b'" using response by auto
    have "j \<noteq> k"
    proof
      assume jk: "j = k"
      then have "u = s" "k \<notin> set (queues b u)" using assms(4) response ledgerD(4,5) [OF L(1)] by (auto simp: pending_def)
      then show False using assms(5) ret response jk by (auto simp: pending_def returned_def)
    qed
    then show ?thesis using ret response k(1) by (auto simp: saved_def returned_def)
  next
    case (fire s)
    then show ?thesis using trySend_saved k(2) by (force simp: bridge_process_def)
  next
    case (retry s)
    then show ?thesis using recvRetry_saved [of sendf s now b w b' w' k] k(2) by simp
  qed simp
qed

lemma bridge_steps_saved:
  assumes "(\<lambda>S S'. bridge_step sendf S S' \<and> pending u k S')\<^sup>*\<^sup>* S S'" "peer_keeps sendf" "state_inv S" "pending u k S"
  shows "state_inv S' \<and> pending u k S' \<and> saved (br_heap (fst (snd S'))) k = saved (br_heap (fst (snd S))) k"
  using assms(1)
proof (induction rule: rtranclp_induct)
  case (step T U)
  obtain t1 b1 aw1 w1 t2 b2 aw2 w2 where TU: "T = (t1, b1, aw1, w1)" "U = (t2, b2, aw2, w2)" by (cases T; cases U)
  have st: "bridge_step sendf (t1, b1, aw1, w1) (t2, b2, aw2, w2)" "bridge_inv t1 b1 aw1" using step TU by (simp_all add: state_inv_def)
  show ?case using bridge_step_inv [OF st(1) assms(2) st(2)] bridge_step_saved [OF st(1) assms(2) st(2), of u k] step.IH step.hyps(2) TU
    by (simp add: state_inv_def)
qed (use assms in simp)

text \<open>A bridge with room for one request, and a read that crosses it from side A.\<close>

definition sample_bridge :: Bridge where
  "sample_bridge = \<lparr>br_portA = BridgePort_new 0 0 1 1 [], br_portB = BridgePort_new 0 0 1 1 [], br_heap = (\<lambda>_. None)\<rparr>"

definition crossing_packet :: "Command \<Rightarrow> nat option \<Rightarrow> Packet" where
  "crossing_packet cmd st = \<lparr>p_flags = 0x0f00, p_cmd = cmd, p_req = Request_new, p_data = None, p_addr = 0x1040, p_size = 8, p_src = 3,
     p_dest = Broadcast, p_origCmd = InvalidCmd, p_time = 0, p_finishTime = 0, p_firstWordTime = 0, p_senderState = st\<rparr>"

definition taking_peer :: "unit bridge_send" where
  "taking_peer s pkt w = (True, pkt, w)"

definition sample_asked :: Bridge where
  "sample_asked = (case bridge_recvTiming SideA 0 7 (crossing_packet ReadReq (Some 42)) sample_bridge of Inr (_, b) \<Rightarrow> b | Inl _ \<Rightarrow> sample_bridge)"

definition sample_sent :: Bridge where
  "sample_sent = (case bridge_process taking_peer SideB 0 sample_asked () of Inr (b, _) \<Rightarrow> b | Inl _ \<Rightarrow> sample_bridge)"

lemma sample_bridge_fresh: "fresh_bridge sample_bridge" "peer_keeps taking_peer"
  unfolding fresh_bridge_def by (rule exI [of _ 0], rule exI [of _ 0], rule exI [of _ 1], rule exI [of _ 1], rule exI [of _ "[]"],
    rule exI [of _ 1], rule exI [of _ 1], rule exI [of _ "[]"], simp add: Bridge_new_def sample_bridge_def)
   (simp add: peer_keeps_def taking_peer_def)

lemma crossing_packet_ok: "isSrcValid (crossing_packet cmd st)" "p_cmd (crossing_packet cmd st) = cmd" "p_senderState (crossing_packet cmd st) = st"
  "p_src (crossing_packet cmd st) = 3" "pkt_needsResponse (crossing_packet ReadReq st)" "pkt_isResponse (crossing_packet ReadResp st)"
  "pkt_isRequest (crossing_packet ReadReq st)"
  by (simp_all add: crossing_packet_def isSrcValid_def flag_simps pkt_flag_defs pkt_query_defs cmd_defs)

lemma sample_asked_eq:
  "bridge_recvTiming SideA 0 7 (crossing_packet ReadReq (Some 42)) sample_bridge = Inr (True, sample_asked)"
  "has_room SideA (crossing_packet ReadReq (Some 42)) sample_bridge"
proof -
  show "has_room SideA (crossing_packet ReadReq (Some 42)) sample_bridge"
    by (simp add: has_room_def sample_bridge_def BridgePort_new_def)
  show "bridge_recvTiming SideA 0 7 (crossing_packet ReadReq (Some 42)) sample_bridge = Inr (True, sample_asked)"
    using recv_request_ok [OF fresh_bridge_inv [OF sample_bridge_fresh(1)], of 7 "crossing_packet ReadReq (Some 42)" SideA 0] crossing_packet_ok
    by (auto simp: sample_asked_def sample_bridge_def)
qed

lemma sample_asked_facts:
  "bp_sendEvent (port SideB sample_asked) = Some 0" "bp_sendQueue (port SideB sample_asked) = [7]" "bp_queuedRequests (port SideB sample_asked) = 1"
  "bp_reqQueueLimit (port SideB sample_asked) = 1" "br_heap sample_asked 8 = None" "bp_inRetry (port SideB sample_asked) = False"
  by code_simp+

lemma sample_asked_step: "bridge_step taking_peer (0, sample_bridge, \<lambda>_. {}, ()) (0, sample_asked, \<lambda>_. {}, ())"
  by (rule bridge_step.request [OF crossing_packet_ok(7,1) _ sample_asked_eq(1)]) (simp add: sample_bridge_def)

lemma sample_asked_reached: "(bridge_step taking_peer)\<^sup>*\<^sup>* (0, sample_bridge, \<lambda>_. {}, ()) (0, sample_asked, \<lambda>_. {}, ())"
  by (rule r_into_rtranclp [where r = "bridge_step taking_peer", OF sample_asked_step])

lemma sample_sent_facts: "queues sample_sent SideB = []" "br_heap sample_sent 7 \<noteq> None" "br_heap sample_sent 9 = None"
  by code_simp+

lemma sample_sent_step:
  "bridge_step taking_peer (0, sample_asked, \<lambda>_. {}, ()) (0, sample_sent, (\<lambda>_. {})(SideB := {7}), ())"
proof -
  have "bridge_inv 0 sample_asked (\<lambda>_. {})"
    using bridge_step_inv [OF sample_asked_step sample_bridge_fresh(2) fresh_bridge_inv [OF sample_bridge_fresh(1)]] .
  then have "bridge_process taking_peer SideB 0 sample_asked () = Inr (sample_sent, ())"
    using process_ok [OF _ sample_asked_facts(1) sample_bridge_fresh(2), of "\<lambda>_. {}" "()"] by (auto simp: sample_sent_def)
  moreover have "sent_now SideB sample_asked sample_sent = {7}"
    using sample_asked_facts(2) sample_sent_facts by (auto simp: sent_now_def queues_def)
  ultimately show ?thesis using bridge_step.fire [OF sample_asked_facts(1), of taking_peer "()" sample_sent "()" "\<lambda>_. {}"] by simp
qed

section \<open>Properties\<close>

text \<open>
  C30: Whatever happened before, and whatever the buses accept, the bridge handles what it is given:
  a request that needs a response is taken, and is passed on if there is room for it and for its
  response and otherwise goes back to its source as a nack; a response to a request that was passed
  on is taken; and the events and retries of both ports run to their ends.  None of the assertions
  fails.
\<close>

theorem bridge_handles_packets:
  assumes "fresh_bridge b0" "peer_keeps sendf" "(bridge_step sendf)\<^sup>*\<^sup>* (t0, b0, \<lambda>_. {}, w0) (now, b, aw, w)"
  shows "(\<forall>s k pkt. br_heap b k = None \<longrightarrow> pkt_needsResponse pkt \<longrightarrow> isSrcValid pkt \<longrightarrow>
        (\<exists>b'. bridge_recvTiming s now k pkt b = Inr (True, b') \<and> (if has_room s pkt b then passed_on s k pkt b b' else nacked s k pkt b b'))) \<and>
     (\<forall>s k j pkt. br_heap b k = None \<longrightarrow> j \<in> aw s \<longrightarrow> pkt_isResponse pkt \<longrightarrow> isSrcValid pkt \<longrightarrow> p_senderState pkt = Some j \<longrightarrow>
        (\<exists>b'. bridge_recvTiming s now k pkt b = Inr (True, b') \<and> returned s k j pkt b b')) \<and>
     (\<forall>s. bp_sendEvent (port s b) = Some now \<longrightarrow> is_ok (bridge_process sendf s now b w)) \<and>
     (\<forall>s. bp_inRetry (port s b) \<longrightarrow> is_ok (bridge_recvRetry sendf s now b w))"
proof -
  note inv = reachable_inv [OF assms]
  show ?thesis
  proof (intro conjI allI impI)
    show "\<exists>b'. bridge_recvTiming s now k pkt b = Inr (True, b') \<and> (if has_room s pkt b then passed_on s k pkt b b' else nacked s k pkt b b')"
      if "br_heap b k = None" "pkt_needsResponse pkt" "isSrcValid pkt" for s k pkt
      using recv_request_ok [OF inv that(1) kind_of_packet(1) [OF that(2)] that(3), of s] that(2) by blast
    show "\<exists>b'. bridge_recvTiming s now k pkt b = Inr (True, b') \<and> returned s k j pkt b b'"
      if "br_heap b k = None" "j \<in> aw s" "pkt_isResponse pkt" "isSrcValid pkt" "p_senderState pkt = Some j" for s k j pkt
      using recv_response_ok [OF inv _ that(2-5), of k] that(1) by blast
    show "is_ok (bridge_process sendf s now b w)" if "bp_sendEvent (port s b) = Some now" for s
      using process_ok [OF inv that assms(2), of w] by (auto simp: is_ok_iff)
    show "is_ok (bridge_recvRetry sendf s now b w)" if "bp_inRetry (port s b)" for s
      using recvRetry_ok [OF inv that assms(2), of w] by (auto simp: is_ok_iff)
  qed
qed

theorem bridge_handles_packets_witness:
  "is_ok (bridge_process taking_peer SideB 0 sample_asked ()) \<and>
   (\<exists>b'. bridge_recvTiming SideA 0 8 (crossing_packet ReadReq None) sample_asked = Inr (True, b') \<and>
      nacked SideA 8 (crossing_packet ReadReq None) sample_asked b')"
proof -
  note h = bridge_handles_packets [OF sample_bridge_fresh sample_asked_reached]
  have "\<not> has_room SideA (crossing_packet ReadReq None) sample_asked" using sample_asked_facts(3,4) by (simp add: has_room_def)
  moreover have "is_ok (bridge_process taking_peer SideB 0 sample_asked ())" using h sample_asked_facts(1) by blast
  moreover have "\<exists>b'. bridge_recvTiming SideA 0 8 (crossing_packet ReadReq None) sample_asked = Inr (True, b') \<and>
      (if has_room SideA (crossing_packet ReadReq None) sample_asked then passed_on SideA 8 (crossing_packet ReadReq None) sample_asked b'
       else nacked SideA 8 (crossing_packet ReadReq None) sample_asked b')"
    using h sample_asked_facts(5) crossing_packet_ok(1,5) by blast
  ultimately show ?thesis by simp
qed

text \<open>
  C31: The books of the bridge.  In every state it can reach, the counter of queued requests of a port
  is the number of requests in its queue and is within the limit; the counter of outstanding responses
  is the number of responses the port holds, of requests the other port holds that expect a response,
  and of those that are on their way, and is within the limit; no buffer is lost, for each belongs to
  one queue or to a request on its way; and a packet is not forgotten: a port that holds one waits for
  a retry, or its event is scheduled for when the first packet is ready, at the latest for the
  next tick.
\<close>

theorem bridge_accounts:
  assumes "fresh_bridge b0" "peer_keeps sendf" "(bridge_step sendf)\<^sup>*\<^sup>* (t0, b0, \<lambda>_. {}, w0) (now, b, aw, w)"
  shows "bp_queuedRequests (port s b) = cnt is_req (br_heap b) (bp_sendQueue (port s b)) \<and>
     bp_queuedRequests (port s b) \<le> bp_reqQueueLimit (port s b) \<and>
     bp_outstandingResponses (port s b) = cnt is_resp (br_heap b) (bp_sendQueue (port s b)) +
        cnt pb_expectResponse (br_heap b) (bp_sendQueue (port (other s) b)) + int (card (aw (other s))) \<and>
     bp_outstandingResponses (port s b) \<le> bp_respQueueLimit (port s b) \<and>
     dom (br_heap b) = set (bp_sendQueue (br_portA b) @ bp_sendQueue (br_portB b)) \<union> aw SideA \<union> aw SideB \<and>
     distinct (bp_sendQueue (br_portA b) @ bp_sendQueue (br_portB b)) \<and>
     (bp_sendQueue (port s b) \<noteq> [] \<longrightarrow> (\<exists>buf. br_heap b (hd (bp_sendQueue (port s b))) = Some buf \<and>
        (if bp_inRetry (port s b) then pb_ready buf \<le> now
         else \<exists>t. bp_sendEvent (port s b) = Some t \<and> now \<le> t \<and> t \<le> max (pb_ready buf) (now + 1))))"
proof -
  have bk: "book (\<lambda>_. 0) b aw" "events_ok now (br_heap b) (port s b)" using reachable_inv [OF assms] by (simp_all add: bridge_inv_def)
  note L = bookD(1) [OF bk(1)]
  have d: "distinct (queues b SideA @ queues b SideB)" using ledgerD(1) [OF L] ledgerD(3) [OF L, of _ SideA SideB] by auto
  have m: "dom (br_heap b) = set (queues b SideA @ queues b SideB) \<union> aw SideA \<union> aw SideB"
  proof (intro equalityI subsetI)
    fix j assume "j \<in> dom (br_heap b)"
    then obtain s where "j \<in> set (queues b s) \<or> j \<in> aw s" using ledgerD(8) [OF L] by blast
    then show "j \<in> set (queues b SideA @ queues b SideB) \<union> aw SideA \<union> aw SideB" by (cases s) auto
  qed (use ledgerD(6,7) [OF L] in fastforce)
  have e: "bp_sendQueue (port s b) \<noteq> [] \<longrightarrow> (\<exists>buf. br_heap b (hd (bp_sendQueue (port s b))) = Some buf \<and>
        (if bp_inRetry (port s b) then pb_ready buf \<le> now
         else \<exists>t. bp_sendEvent (port s b) = Some t \<and> now \<le> t \<and> t \<le> max (pb_ready buf) (now + 1)))"
    using bk(2) by (auto simp: events_ok_def split: option.splits if_splits)
  show ?thesis using bookD(2) [OF bk(1), of s] d m e by (simp add: port_book_def owed_def queues_def)
qed

theorem bridge_accounts_witness:
  "bp_sendQueue (port SideB sample_asked) = [7] \<and> cnt is_req (br_heap sample_asked) [7] = 1 \<and> dom (br_heap sample_asked) = {7}"
proof -
  note a = bridge_accounts [OF sample_bridge_fresh sample_asked_reached, of SideB]
  have "bp_sendQueue (br_portA sample_asked) = []" by code_simp
  then show ?thesis using a sample_asked_facts(2,3) by simp
qed

text \<open>
  C32: Responses find their way back.  A request that the bridge passed on at port \<open>s\<close> has its buffer as
  its sender state; when, after any further steps, a response with that sender state comes to the other
  port, it is put at the end of the queue of \<open>s\<close>, with the source of the request as its
  destination and the sender state the request came with.
\<close>

theorem bridge_response_roundtrip:
  assumes "fresh_bridge b0" "peer_keeps sendf" "(bridge_step sendf)\<^sup>*\<^sup>* (t0, b0, \<lambda>_. {}, w0) (now, b, aw, w)"
    and req: "br_heap b k = None" "pkt_needsResponse pkt" "isSrcValid pkt" "has_room s pkt b" "bridge_recvTiming s now k pkt b = Inr (r, b1)"
    and run: "(\<lambda>S S'. bridge_step sendf S S' \<and> pending (other s) k S')\<^sup>*\<^sup>* (now, b1, aw, w) (now2, b2, aw2, w2)" "k \<in> aw2 (other s)"
    and resp: "pkt_isResponse rpkt" "isSrcValid rpkt" "p_senderState rpkt = Some k" "br_heap b2 k2 = None"
  shows "\<exists>b3 buf. bridge_recvTiming (other s) now2 k2 rpkt b2 = Inr (True, b3) \<and>
     bp_sendQueue (port s b3) = bp_sendQueue (port s b2) @ [k2] \<and> br_heap b3 k2 = Some buf \<and>
     pb_pkt buf = Some ((setDest (p_src pkt) rpkt)\<lparr>p_senderState := p_senderState pkt\<rparr>)"
proof -
  have "bridge_inv now b1 aw" "passed_on s k pkt b b1"
    using recv_request_ok [OF reachable_inv [OF assms(1-3)] req(1) kind_of_packet(1) [OF req(2)] req(3), of s] req(2,4,5) by auto
  then have s1: "state_inv (now, b1, aw, w)" "pending (other s) k (now, b1, aw, w)" "saved (br_heap b1) k = Some (p_src pkt, p_senderState pkt)"
    by (auto simp: state_inv_def pending_def passed_on_def saved_def)
  have s2: "bridge_inv now2 b2 aw2" "saved (br_heap b2) k = Some (p_src pkt, p_senderState pkt)"
    using bridge_steps_saved [OF run(1) assms(2) s1(1,2)] s1(3) by (simp_all add: state_inv_def)
  obtain b3 where b3: "bridge_recvTiming (other s) now2 k2 rpkt b2 = Inr (True, b3)" "returned (other s) k2 k rpkt b2 b3"
    using recv_response_ok [OF s2(1) _ run(2) resp(1-3), of k2] resp(4) by blast
  have "queues b3 s = queues b2 s @ [k2]" using b3(2) by (simp add: returned_def)
  moreover obtain buf where "br_heap b3 k2 = Some buf" "pb_pkt buf = Some ((setDest (p_src pkt) rpkt)\<lparr>p_senderState := p_senderState pkt\<rparr>)"
    using b3(2) s2(2) by (auto simp: returned_def saved_def)
  ultimately show ?thesis using b3(1) by (simp add: queues_def)
qed

theorem bridge_response_roundtrip_witness:
  "\<exists>b3 buf. bridge_recvTiming SideB 0 9 (crossing_packet ReadResp (Some 7)) sample_sent = Inr (True, b3) \<and> br_heap b3 9 = Some buf \<and>
     pb_pkt buf = Some ((setDest 3 (crossing_packet ReadResp (Some 7)))\<lparr>p_senderState := Some 42\<rparr>)"
proof -
  let ?pkt = "crossing_packet ReadReq (Some 42)" and ?r = "crossing_packet ReadResp (Some 7)"
  have k: "br_heap sample_bridge 7 = None" by (simp add: sample_bridge_def)
  have run: "(\<lambda>S S'. bridge_step taking_peer S S' \<and> pending (other SideA) 7 S')\<^sup>*\<^sup>* (0, sample_asked, \<lambda>_. {}, ())
      (0, sample_sent, (\<lambda>_. {})(SideB := {7}), ())"
    by (rule r_into_rtranclp) (use sample_sent_step in \<open>simp add: pending_def\<close>)
  have aw: "7 \<in> ((\<lambda>_. {})(SideB := {7})) (other SideA)" by simp
  from bridge_response_roundtrip [OF sample_bridge_fresh rtranclp.rtrancl_refl k crossing_packet_ok(5,1) sample_asked_eq(2,1) run aw
      crossing_packet_ok(6,1,3) sample_sent_facts(3)]
  show ?thesis by (auto simp: crossing_packet_ok)
qed

text \<open>
  C33: A request that needs no response, such as a writeback, stops the simulator when the queue of
  requests of the other port is full: there is no response to turn it into.
\<close>

theorem bridge_full_writeback_fails:
  assumes "fresh_bridge b0" "peer_keeps sendf" "(bridge_step sendf)\<^sup>*\<^sup>* (t0, b0, \<lambda>_. {}, w0) (now, b, aw, w)"
    and "bp_queuedRequests (port (other s) b) = bp_reqQueueLimit (port (other s) b)" "p_cmd pkt = Writeback"
  shows "bridge_recvTiming s now k pkt b = Inl AssertFail"
proof -
  have "pkt_isRequest pkt" "\<not> pkt_needsResponse pkt" using assms(5) by (simp_all add: pkt_query_defs cmd_defs)
  then show ?thesis using recv_no_room [OF reachable_inv [OF assms(1-3)]] assms(4) by (simp add: has_room_def)
qed

theorem bridge_full_writeback_fails_witness:
  "bridge_recvTiming SideA 0 8 (crossing_packet Writeback None) sample_asked = Inl AssertFail"
  using bridge_full_writeback_fails [OF sample_bridge_fresh sample_asked_reached, of SideA] sample_asked_facts(3,4)
    crossing_packet_ok(2) by simp

end
