(* ===== verification/FA_LRU.thy ===== *)
theory FA_LRU
  imports Cache_Blk Bitmath
begin

unbundle bit_operations_syntax

text \<open>
  The fully associative tag store, \<open>mem/cache/tags/fa_lru.{hh,cc}\<close>.  All blocks are on one doubly
  linked list, the most recently used first, and a hash table leads from block addresses to blocks.
  Besides its own hits the store counts the hits that smaller caches of the sizes 128K, 256K, ... would
  have: a pointer per size marks the last block that such a cache holds, and a bit per size in each
  block tells whether it is in that part of the list.

  The array of blocks is a function from indexes, pointers are optional indexes, and following a null
  pointer is \<open>Undefined\<close>.  Sizes are naturals; the masks are 32-bit words.  \<open>isTouched\<close> is never read,
  and the fields the constructor leaves without a value are given one here.  For a cache smaller
  than 128K the unsigned count of sizes wraps around and the arrays are useless (\<open>Undefined\<close>).
\<close>

section \<open>State\<close>

record FALRUBlk =
  fb_blk :: CacheBlk
  fb_prev :: "nat option"
  fb_next :: "nat option"
  fb_isTouched :: bool
  fb_inCache :: "32 word"

record FALRU =
  fa_blkSize :: nat
  fa_size :: nat
  fa_hitLatency :: nat
  fa_cacheBoundaries :: "nat option list"
  fa_cacheMask :: "32 word"
  fa_numCaches :: nat
  fa_numBlocks :: nat
  fa_blks :: "nat \<Rightarrow> FALRUBlk"
  fa_head :: nat
  fa_tail :: nat
  fa_tagHash :: "Addr \<Rightarrow> nat option"
  fa_hits :: "nat \<Rightarrow> nat"
  fa_misses :: "nat \<Rightarrow> nat"
  fa_accesses :: nat
  fa_warmedUp :: bool
  fa_warmupBound :: int
  fa_warmupCycle :: Tick
  fa_tagsInUse :: int
  fa_replacements :: nat

definition fa_upd :: "nat \<Rightarrow> (FALRUBlk \<Rightarrow> FALRUBlk) \<Rightarrow> FALRU \<Rightarrow> FALRU" where
  "fa_upd i g f = f\<lparr>fa_blks := (fa_blks f)(i := g (fa_blks f i))\<rparr>"

text \<open>The loop of the constructor, over the indexes that are left.\<close>

fun init_blocks :: "nat list \<Rightarrow> nat \<Rightarrow> nat \<Rightarrow> 32 word \<Rightarrow> FALRU \<Rightarrow> (nat \<times> nat \<times> FALRU) res" where
  "init_blocks [] j index flags f = Inr (j, index, f)"
| "init_blocks (i # is) j index flags f =
     (let f = fa_upd i (\<lambda>b. b\<lparr>fb_inCache := flags, fb_prev := Some (i - 1), fb_next := Some (i + 1), fb_isTouched := False\<rparr>) f
      in if i = index - 1
         then guard_res Undefined (j < length (fa_cacheBoundaries f))
                (init_blocks is (j + 1) (index * 2) (flags AND NOT (push_bit j 1))
                   (f\<lparr>fa_cacheBoundaries := (fa_cacheBoundaries f)[j := Some i]\<rparr>))
         else init_blocks is j index flags f)"

definition FALRU_new :: "nat \<Rightarrow> nat \<Rightarrow> nat \<Rightarrow> FALRU res" where
  "FALRU_new blkSize sz hit_latency =
     guard_res Fatal (isPowerOf2 (of_nat blkSize))
     (guard_res Fatal (hit_latency > 0)
     (guard_res Fatal (isPowerOf2 (of_nat sz))
     (bind_res (floorLog2 (of_nat sz)) (\<lambda>l.
      let numCaches = l - 17;
          numBlocks = sz div blkSize;
          cacheMask = mask numCaches
      in guard_res Undefined (17 \<le> l \<and> 2 \<le> numBlocks)
         (bind_res (init_blocks [1..<numBlocks - 1] 0 (2 ^ 17 div blkSize) cacheMask
            \<lparr>fa_blkSize = blkSize, fa_size = sz, fa_hitLatency = hit_latency,
             fa_cacheBoundaries = replicate numCaches None, fa_cacheMask = cacheMask, fa_numCaches = numCaches,
             fa_numBlocks = numBlocks,
             fa_blks = (\<lambda>i. \<lparr>fb_blk = CacheBlk_new, fb_prev = (if i = 0 then None else Some (numBlocks - 2)),
                             fb_next = (if i = 0 then Some 1 else None), fb_isTouched = False,
                             fb_inCache = (if i = 0 then cacheMask else 0)\<rparr>),
             fa_head = 0, fa_tail = numBlocks - 1, fa_tagHash = (\<lambda>_. None), fa_hits = (\<lambda>_. 0), fa_misses = (\<lambda>_. 0),
             fa_accesses = 0, fa_warmedUp = False, fa_warmupBound = int (sz div blkSize), fa_warmupCycle = 0,
             fa_tagsInUse = 0, fa_replacements = 0\<rparr>) (\<lambda>(j, index, f).
          guard_res AssertFail (j = numCaches) (guard_res AssertFail (index = numBlocks) (Inr f))))))))"

section \<open>Addresses\<close>

definition fa_blkAlign :: "FALRU \<Rightarrow> Addr \<Rightarrow> Addr" where
  "fa_blkAlign f addr = addr AND NOT (of_nat (fa_blkSize f) - 1)"

definition fa_extractTag :: "FALRU \<Rightarrow> Addr \<Rightarrow> Addr" where
  "fa_extractTag f addr = fa_blkAlign f addr"

definition fa_extractSet :: "Addr \<Rightarrow> int" where
  "fa_extractSet addr = 0"

definition fa_extractBlkOffset :: "FALRU \<Rightarrow> Addr \<Rightarrow> int" where
  "fa_extractBlkOffset f addr = uint (addr AND (of_nat (fa_blkSize f) - 1))"

definition fa_regenerateBlkAddr :: "Addr \<Rightarrow> int \<Rightarrow> Addr" where
  "fa_regenerateBlkAddr tag st = tag"

section \<open>Operations\<close>

definition fa_hashLookup :: "Addr \<Rightarrow> FALRU \<Rightarrow> nat option" where
  "fa_hashLookup addr f = fa_tagHash f addr"

definition fa_invalidateBlk :: "nat option \<Rightarrow> FALRU \<Rightarrow> FALRU" where
  "fa_invalidateBlk blk f =
     (case blk of
        None \<Rightarrow> f
      | Some b \<Rightarrow> (fa_upd b (\<lambda>x. x\<lparr>fb_blk := (fb_blk x)\<lparr>blk_status := 0\<rparr>, fb_isTouched := False\<rparr>) f)
                     \<lparr>fa_tagsInUse := fa_tagsInUse f - 1\<rparr>)"

text \<open>The loop of \<open>moveToHead\<close>: the parts of the list that the block enters lose their last block.\<close>

fun move_boundaries :: "nat list \<Rightarrow> 32 word \<Rightarrow> nat \<Rightarrow> FALRU \<Rightarrow> FALRU res" where
  "move_boundaries [] updateMask blk f = Inr f"
| "move_boundaries (i # is) updateMask blk f =
     (if push_bit i 1 AND updateMask \<noteq> 0
      then (case fa_cacheBoundaries f ! i of
              None \<Rightarrow> Inl Undefined
            | Some c \<Rightarrow>
                let f = fa_upd c (\<lambda>b. b\<lparr>fb_inCache := fb_inCache b AND NOT (push_bit i 1)\<rparr>) f
                in move_boundaries is updateMask blk
                     (f\<lparr>fa_cacheBoundaries := (fa_cacheBoundaries f)[i := fb_prev (fa_blks f c)]\<rparr>))
      else if fa_cacheBoundaries f ! i = Some blk
      then move_boundaries is updateMask blk
             (f\<lparr>fa_cacheBoundaries := (fa_cacheBoundaries f)[i := fb_prev (fa_blks f blk)]\<rparr>)
      else move_boundaries is updateMask blk f)"

definition fa_unlink :: "nat \<Rightarrow> FALRU \<Rightarrow> FALRU res" where
  "fa_unlink blk f =
     (if blk = fa_tail f
      then guard_res AssertFail (fb_next (fa_blks f blk) = None)
             (case fb_prev (fa_blks f blk) of
                None \<Rightarrow> Inl Undefined
              | Some p \<Rightarrow> Inr (fa_upd p (\<lambda>b. b\<lparr>fb_next := None\<rparr>) (f\<lparr>fa_tail := p\<rparr>)))
      else (case (fb_prev (fa_blks f blk), fb_next (fa_blks f blk)) of
              (Some p, Some n) \<Rightarrow>
                (let f = fa_upd p (\<lambda>b. b\<lparr>fb_next := Some n\<rparr>) f
                 in Inr (fa_upd n (\<lambda>b. b\<lparr>fb_prev := fb_prev (fa_blks f blk)\<rparr>) f))
            | _ \<Rightarrow> Inl Undefined))"

definition fa_moveToHead :: "nat \<Rightarrow> FALRU \<Rightarrow> FALRU res" where
  "fa_moveToHead blk f =
     bind_res (move_boundaries [0..<fa_numCaches f] (fb_inCache (fa_blks f blk) XOR fa_cacheMask f) blk f) (\<lambda>f.
     let f = fa_upd blk (\<lambda>b. b\<lparr>fb_inCache := fa_cacheMask f\<rparr>) f
     in if blk \<noteq> fa_head f
        then bind_res (fa_unlink blk f) (\<lambda>f.
               let f = fa_upd blk (\<lambda>b. b\<lparr>fb_next := Some (fa_head f), fb_prev := None\<rparr>) f;
                   f = fa_upd (fa_head f) (\<lambda>b. b\<lparr>fb_prev := Some blk\<rparr>) f
               in Inr (f\<lparr>fa_head := blk\<rparr>))
        else Inr f)"

definition fa_findBlock :: "Addr \<Rightarrow> FALRU \<Rightarrow> nat option res" where
  "fa_findBlock addr f =
     (case fa_hashLookup (fa_blkAlign f addr) f of
        None \<Rightarrow> Inr None
      | Some b \<Rightarrow>
          if blk_isValid (fb_blk (fa_blks f b))
          then guard_res AssertFail (blk_tag (fb_blk (fa_blks f b)) = fa_blkAlign f addr) (Inr (Some b))
          else Inr None)"

text \<open>Counting an access in every tracked sz, and in the whole cache.\<close>

definition fa_count_hit :: "32 word \<Rightarrow> FALRU \<Rightarrow> FALRU" where
  "fa_count_hit inCache f =
     f\<lparr>fa_hits := (\<lambda>i. if i = fa_numCaches f \<or> (i < fa_numCaches f \<and> push_bit i 1 AND inCache \<noteq> 0) then fa_hits f i + 1 else fa_hits f i),
       fa_misses := (\<lambda>i. if i < fa_numCaches f \<and> push_bit i 1 AND inCache = 0 then fa_misses f i + 1 else fa_misses f i)\<rparr>"

definition fa_count_miss :: "FALRU \<Rightarrow> FALRU" where
  "fa_count_miss f = f\<lparr>fa_misses := (\<lambda>i. if i \<le> fa_numCaches f then fa_misses f i + 1 else fa_misses f i)\<rparr>"

text \<open>The block, the latency, the sizes that have the block, and the store.\<close>

definition fa_accessBlock :: "Addr \<Rightarrow> FALRU \<Rightarrow> (nat option \<times> nat \<times> 32 word \<times> FALRU) res" where
  "fa_accessBlock addr f =
     bind_res (fa_findBlock addr f) (\<lambda>found.
     let f = f\<lparr>fa_accesses := fa_accesses f + 1\<rparr>
     in case found of
          None \<Rightarrow> Inr (None, fa_hitLatency f, 0, fa_count_miss f)
        | Some b \<Rightarrow>
            let inCache = fb_inCache (fa_blks f b); f = fa_count_hit inCache f
            in bind_res (if b \<noteq> fa_head f then fa_moveToHead b f else Inr f) (\<lambda>f. Inr (Some b, fa_hitLatency f, inCache, f)))"

definition fa_findVictim :: "Tick \<Rightarrow> Addr \<Rightarrow> FALRU \<Rightarrow> (nat \<times> FALRU) res" where
  "fa_findVictim curTick addr f =
     (let blk = fa_tail f
      in guard_res AssertFail (fb_inCache (fa_blks f blk) = 0)
           (bind_res (fa_moveToHead blk f) (\<lambda>f.
            let b = fb_blk (fa_blks f blk);
                f = f\<lparr>fa_tagHash := ((fa_tagHash f)(blk_tag b := None))(fa_blkAlign f addr \<mapsto> blk)\<rparr>
            in if blk_isValid b then Inr (blk, f\<lparr>fa_replacements := fa_replacements f + 1\<rparr>)
               else let f = fa_upd blk (\<lambda>x. x\<lparr>fb_isTouched := True\<rparr>) (f\<lparr>fa_tagsInUse := fa_tagsInUse f + 1\<rparr>)
                    in Inr (blk, if \<not> fa_warmedUp f \<and> fa_tagsInUse f \<ge> fa_warmupBound f
                                 then f\<lparr>fa_warmedUp := True, fa_warmupCycle := curTick\<rparr> else f))))"

definition fa_insertBlock :: "FALRU \<Rightarrow> FALRU" where
  "fa_insertBlock f = f"

text \<open>\<open>check\<close> follows the list; not returning is \<open>None\<close>.\<close>

partial_function (option) fa_check_loop :: "FALRU \<Rightarrow> nat option \<Rightarrow> nat \<Rightarrow> nat \<Rightarrow> nat \<Rightarrow> 32 word \<Rightarrow> bool res option" where
  "fa_check_loop f blk sz boundary j flags =
     (case blk of
        None \<Rightarrow> Some (Inr True)
      | Some b \<Rightarrow>
          let sz = sz + fa_blkSize f
          in if fb_inCache (fa_blks f b) \<noteq> flags then Some (Inr False)
             else if sz = boundary \<and> b \<noteq> fa_tail f
             then if length (fa_cacheBoundaries f) \<le> j then Some (Inl Undefined)
                  else if fa_cacheBoundaries f ! j \<noteq> Some b then Some (Inr False)
                  else fa_check_loop f (fb_next (fa_blks f b)) sz (boundary * 2) (j + 1) (flags AND NOT (push_bit j 1))
             else fa_check_loop f (fb_next (fa_blks f b)) sz boundary j flags)"

definition fa_check :: "FALRU \<Rightarrow> bool res option" where
  "fa_check f = fa_check_loop f (Some (fa_head f)) 0 (2 ^ 17) 0 (fa_cacheMask f)"

section \<open>Linked lists\<close>

fun dll :: "(nat \<Rightarrow> FALRUBlk) \<Rightarrow> nat option \<Rightarrow> nat list \<Rightarrow> nat option \<Rightarrow> bool" where
  "dll st p [] q = True"
| "dll st p (x # xs) q \<longleftrightarrow> fb_prev (st x) = p \<and> fb_next (st x) = (if xs = [] then q else Some (hd xs)) \<and> dll st (Some x) xs q"

lemma dll_append:
  "dll st p (xs @ ys) q \<longleftrightarrow> dll st p xs (if ys = [] then q else Some (hd ys)) \<and> dll st (if xs = [] then p else Some (last xs)) ys q"
  by (induction xs arbitrary: p) auto

lemma dll_cong:
  "\<forall>x \<in> set xs. fb_prev (st' x) = fb_prev (st x) \<and> fb_next (st' x) = fb_next (st x) \<Longrightarrow> dll st' p xs q = dll st p xs q"
  by (induction xs arbitrary: p) auto

lemma dll_outside: "x \<notin> set xs \<Longrightarrow> dll (st(x := b)) p xs q = dll st p xs q"
  by (rule dll_cong) auto

lemma dll_set_first: "dll st p xs q \<Longrightarrow> xs \<noteq> [] \<Longrightarrow> distinct xs \<Longrightarrow> dll (st(hd xs := (st (hd xs))\<lparr>fb_prev := p'\<rparr>)) p' xs q"
  by (cases xs) (auto simp: dll_outside)

lemma dll_set_last:
  assumes "dll st p xs q" "xs \<noteq> []" "distinct xs"
  shows "dll (st(last xs := (st (last xs))\<lparr>fb_next := q'\<rparr>)) p xs q'"
proof -
  obtain ys y where "xs = ys @ [y]" using assms(2) by (metis append_butlast_last_id)
  then show ?thesis using assms by (auto simp: dll_append dll_outside)
qed

lemma dll_prev: "dll st p xs q \<Longrightarrow> 0 < k \<Longrightarrow> k < length xs \<Longrightarrow> fb_prev (st (xs ! k)) = Some (xs ! (k - 1))"
proof (induction xs arbitrary: p k)
  case (Cons x xs)
  then show ?case by (cases xs; cases "k - 1") (auto simp: nth_Cons split: nat.splits)
qed simp

text \<open>Taking a block out of the list and putting it before the head.\<close>

lemma fa_unlink_ok:
  assumes d: "dll (fa_blks f) None (l @ b # r) None" "distinct (l @ b # r)" "l \<noteq> []" "fa_tail f = last (l @ b # r)"
  shows "\<exists>st. fa_unlink b f = Inr (f\<lparr>fa_blks := st, fa_tail := last (l @ r)\<rparr>) \<and> dll st None (l @ r) None \<and>
     (\<forall>x. fb_blk (st x) = fb_blk (fa_blks f x) \<and> fb_inCache (st x) = fb_inCache (fa_blks f x))"
proof -
  let ?st = "fa_blks f" and ?p = "last l"
  have dl: "dll ?st None l (Some b)" "fb_prev (?st b) = Some ?p" "fb_next (?st b) = (if r = [] then None else Some (hd r))"
    "dll ?st (Some b) r None" using d(1,3) by (auto simp: dll_append split: if_splits)
  have pin: "?p \<in> set l" "?p \<noteq> b" "?p \<notin> set r" using d(2,3) last_in_set [OF d(3)] by (auto dest: disjoint_iff [THEN iffD1])
  show ?thesis
  proof (cases "r = []")
    case True
    let ?st' = "?st(?p := (?st ?p)\<lparr>fb_next := None\<rparr>)"
    have "fa_unlink b f = Inr (f\<lparr>fa_blks := ?st', fa_tail := ?p\<rparr>)"
      using True d(4) dl(2,3) by (simp add: fa_unlink_def fa_upd_def)
    moreover have "dll ?st' None l None" using dll_set_last [OF dl(1) d(3)] d(2) by simp
    ultimately show ?thesis using True by (intro exI [of _ ?st']) simp
  next
    case False
    let ?n = "hd r"
    have n: "?n \<in> set r" "?n \<noteq> b" "?n \<noteq> ?p" "?n \<notin> set l"
      using hd_in_set [OF False] d(2) pin by (auto dest: disjoint_iff [THEN iffD1])
    have tl: "b \<noteq> fa_tail f" using d(2,4) False by (auto simp: last_append dest: last_in_set)
    let ?st1 = "?st(?p := (?st ?p)\<lparr>fb_next := Some ?n\<rparr>)"
    let ?st' = "?st1(?n := (?st1 ?n)\<lparr>fb_prev := Some ?p\<rparr>)"
    have "fa_unlink b f = Inr (f\<lparr>fa_blks := ?st'\<rparr>)"
      using False tl dl(2,3) pin n by (simp add: fa_unlink_def fa_upd_def)
    moreover have "f\<lparr>fa_blks := ?st'\<rparr> = f\<lparr>fa_blks := ?st', fa_tail := last (l @ r)\<rparr>" using d(4) False by simp
    moreover have "dll ?st' None l (Some ?n)"
      using dll_set_last [OF dl(1) d(3), of "Some ?n"] d(2) n(4) by (simp add: dll_outside)
    moreover have "dll ?st1 (Some b) r None" using dl(4) pin(3) by (simp add: dll_outside)
    then have "dll ?st' (Some ?p) r None" using dll_set_first [of ?st1 _ r None "Some ?p"] False d(2) by simp
    ultimately have "fa_unlink b f = Inr (f\<lparr>fa_blks := ?st', fa_tail := last (l @ r)\<rparr>)" "dll ?st' None (l @ r) None"
      using False d(3) by (simp_all add: dll_append)
    then show ?thesis by (intro exI [of _ ?st']) simp
  qed
qed

lemma relink_ok:
  assumes "dll st None xs None" "xs \<noteq> []" "distinct (b # xs)"
  shows "dll ((st(b := (st b)\<lparr>fb_next := Some (hd xs), fb_prev := None\<rparr>))(hd xs := (st (hd xs))\<lparr>fb_prev := Some b\<rparr>)) None (b # xs) None"
proof -
  have h: "hd xs \<noteq> b" "b \<notin> set xs" using assms by auto
  moreover have "dll ((st(hd xs := (st (hd xs))\<lparr>fb_prev := Some b\<rparr>))(b := (st b)\<lparr>fb_next := Some (hd xs), fb_prev := None\<rparr>)) (Some b) xs None"
    using dll_set_first [OF assms(1,2), of "Some b"] assms(3) by (simp add: dll_outside)
  ultimately show ?thesis using assms(2) by (simp add: fun_upd_twist [OF h(1)])
qed

section \<open>The boundaries\<close>

lemma test_bit: "2 ^ i AND (u :: 32 word) = 0 \<longleftrightarrow> \<not> bit u i"
  by (simp add: and.commute [of "2 ^ i"] and_exp_eq_0_iff_not_bit)

lemma clear_bit: "bit (m AND NOT (2 ^ i)) n \<longleftrightarrow> bit (m :: 32 word) n \<and> n \<noteq> i"
  by (auto simp: bit_simps dest: bit_imp_le_length)

text \<open>What the loop does to the boundaries and to the bits; the links stay.\<close>

lemma move_boundaries_ok:
  assumes "distinct is" "\<forall>i \<in> set is. i < length (fa_cacheBoundaries f) \<and> fa_cacheBoundaries f ! i \<noteq> None"
  shows "\<exists>bs m. move_boundaries is u blk f =
       Inr (f\<lparr>fa_cacheBoundaries := bs, fa_blks := (\<lambda>x. (fa_blks f x)\<lparr>fb_inCache := m x\<rparr>)\<rparr>) \<and>
     length bs = length (fa_cacheBoundaries f) \<and>
     (\<forall>i < length bs. bs ! i = (if i \<in> set is
        then if bit u i then fb_prev (fa_blks f (the (fa_cacheBoundaries f ! i)))
             else if fa_cacheBoundaries f ! i = Some blk then fb_prev (fa_blks f blk) else fa_cacheBoundaries f ! i
        else fa_cacheBoundaries f ! i)) \<and>
     (\<forall>x i. bit (m x) i \<longleftrightarrow> bit (fb_inCache (fa_blks f x)) i \<and> \<not> (i \<in> set is \<and> bit u i \<and> fa_cacheBoundaries f ! i = Some x))"
  using assms
proof (induction "is" arbitrary: f)
  case Nil
  show ?case by (intro exI [of _ "fa_cacheBoundaries f"] exI [of _ "\<lambda>x. fb_inCache (fa_blks f x)"]) simp
next
  case (Cons i "is")
  let ?cb = "fa_cacheBoundaries f"
  have i: "i < length ?cb" "?cb ! i \<noteq> None" "i \<notin> set is" using Cons.prems by auto
  then obtain c where c: "?cb ! i = Some c" by blast
  define g where "g = (if bit u i
     then (fa_upd c (\<lambda>b. b\<lparr>fb_inCache := fb_inCache b AND NOT (push_bit i 1)\<rparr>) f)\<lparr>fa_cacheBoundaries := ?cb[i := fb_prev (fa_blks f c)]\<rparr>
     else if c = blk then f\<lparr>fa_cacheBoundaries := ?cb[i := fb_prev (fa_blks f blk)]\<rparr> else f)"
  have step: "move_boundaries (i # is) u blk f = move_boundaries is u blk g"
    using c by (auto simp: test_bit g_def fa_upd_def)
  have cb: "length (fa_cacheBoundaries g) = length ?cb" "\<And>n. n \<noteq> i \<Longrightarrow> fa_cacheBoundaries g ! n = ?cb ! n"
    "fa_cacheBoundaries g ! i = (if bit u i then fb_prev (fa_blks f c) else if c = blk then fb_prev (fa_blks f blk) else ?cb ! i)"
    using i(1) by (auto simp: g_def fa_upd_def)
  have lk: "fb_prev (fa_blks g x) = fb_prev (fa_blks f x)" for x by (simp add: g_def fa_upd_def)
  have bits: "bit (fb_inCache (fa_blks g x)) n \<longleftrightarrow> bit (fb_inCache (fa_blks f x)) n \<and> \<not> (n = i \<and> bit u i \<and> x = c)" for x n
    by (auto simp: g_def fa_upd_def clear_bit)
  have same: "g\<lparr>fa_cacheBoundaries := bs, fa_blks := \<lambda>x. (fa_blks g x)\<lparr>fb_inCache := m x\<rparr>\<rparr> =
      f\<lparr>fa_cacheBoundaries := bs, fa_blks := \<lambda>x. (fa_blks f x)\<lparr>fb_inCache := m x\<rparr>\<rparr>" for bs m
    by (auto simp: g_def fa_upd_def fun_eq_iff)
  have "distinct is" "\<forall>i \<in> set is. i < length (fa_cacheBoundaries g) \<and> fa_cacheBoundaries g ! i \<noteq> None"
    using Cons.prems i(3) cb(1,2) by (auto, metis option.distinct(1))
  from Cons.IH [OF this] obtain bs m where ih: "move_boundaries is u blk g =
       Inr (f\<lparr>fa_cacheBoundaries := bs, fa_blks := (\<lambda>x. (fa_blks f x)\<lparr>fb_inCache := m x\<rparr>)\<rparr>)"
     "length bs = length (fa_cacheBoundaries g)"
     "\<forall>n < length bs. bs ! n = (if n \<in> set is
        then if bit u n then fb_prev (fa_blks g (the (fa_cacheBoundaries g ! n)))
             else if fa_cacheBoundaries g ! n = Some blk then fb_prev (fa_blks g blk) else fa_cacheBoundaries g ! n
        else fa_cacheBoundaries g ! n)"
     "\<forall>x n. bit (m x) n \<longleftrightarrow> bit (fb_inCache (fa_blks g x)) n \<and> \<not> (n \<in> set is \<and> bit u n \<and> fa_cacheBoundaries g ! n = Some x)"
    unfolding same by blast
  show ?case
  proof (intro exI [of _ bs] exI [of _ m] conjI allI impI)
    show "move_boundaries (i # is) u blk f = Inr (f\<lparr>fa_cacheBoundaries := bs, fa_blks := (\<lambda>x. (fa_blks f x)\<lparr>fb_inCache := m x\<rparr>)\<rparr>)"
      using ih(1) step by simp
    show "length bs = length ?cb" using ih(2) cb(1) by simp
    show "bs ! n = (if n \<in> set (i # is)
        then if bit u n then fb_prev (fa_blks f (the (?cb ! n)))
             else if ?cb ! n = Some blk then fb_prev (fa_blks f blk) else ?cb ! n
        else ?cb ! n)" if "n < length bs" for n
      using ih(3) that cb c i(3) lk by (cases "n = i") auto
    show "bit (m x) n \<longleftrightarrow> bit (fb_inCache (fa_blks f x)) n \<and> \<not> (n \<in> set (i # is) \<and> bit u n \<and> ?cb ! n = Some x)" for x n
      using ih(4) bits cb(2) c i(3) by (cases "n = i") auto
  qed
qed

section \<open>Invariant\<close>

text \<open>The number of blocks of the tracked cache \<open>i\<close>, which has \<open>2^(17 + i)\<close> bytes.\<close>

definition fa_bound :: "FALRU \<Rightarrow> nat \<Rightarrow> nat" where
  "fa_bound f i = 2 ^ 17 div fa_blkSize f * 2 ^ i"

text \<open>
  The list of blocks is \<open>xs\<close>, most recent first; the boundary of a size is the last block of the part
  of that length, and the bits of a block tell in which of these parts it is.
\<close>

definition fa_links :: "FALRU \<Rightarrow> nat list \<Rightarrow> bool" where
  "fa_links f xs \<longleftrightarrow> distinct xs \<and> set xs = {..<fa_numBlocks f} \<and> 2 \<le> length xs \<and> dll (fa_blks f) None xs None \<and>
     fa_head f = hd xs \<and> fa_tail f = last xs"

definition fa_parts :: "FALRU \<Rightarrow> nat list \<Rightarrow> bool" where
  "fa_parts f xs \<longleftrightarrow> length (fa_cacheBoundaries f) = fa_numCaches f \<and> fa_cacheMask f = mask (fa_numCaches f) \<and> fa_numCaches f \<le> 32 \<and>
     fa_bound f (fa_numCaches f) = length xs \<and> 2 ^ 17 div fa_blkSize f * fa_blkSize f = 2 ^ 17 \<and>
     (\<forall>i < fa_numCaches f. 2 \<le> fa_bound f i \<and> fa_bound f i < length xs \<and> fa_cacheBoundaries f ! i = Some (xs ! (fa_bound f i - 1))) \<and>
     (\<forall>k < length xs. \<forall>i. bit (fb_inCache (fa_blks f (xs ! k))) i \<longleftrightarrow> i < fa_numCaches f \<and> k < fa_bound f i)"

definition fa_inv :: "FALRU \<Rightarrow> nat list \<Rightarrow> bool" where
  "fa_inv f xs \<longleftrightarrow> fa_links f xs \<and> fa_parts f xs"

lemma fa_invD:
  assumes "fa_inv f xs"
  shows "distinct xs" "set xs = {..<fa_numBlocks f}" "2 \<le> length xs" "xs \<noteq> []" "dll (fa_blks f) None xs None" "fa_head f = hd xs" "fa_tail f = last xs"
    "length (fa_cacheBoundaries f) = fa_numCaches f" "fa_cacheMask f = mask (fa_numCaches f)" "fa_numCaches f \<le> 32"
    "fa_bound f (fa_numCaches f) = length xs" "2 ^ 17 div fa_blkSize f * fa_blkSize f = 2 ^ 17"
    "i < fa_numCaches f \<Longrightarrow> 2 \<le> fa_bound f i \<and> fa_bound f i < length xs \<and> fa_cacheBoundaries f ! i = Some (xs ! (fa_bound f i - 1))"
    "k < length xs \<Longrightarrow> bit (fb_inCache (fa_blks f (xs ! k))) i \<longleftrightarrow> i < fa_numCaches f \<and> k < fa_bound f i"
proof -
  have l: "fa_links f xs" and p: "fa_parts f xs" using assms by (simp_all add: fa_inv_def)
  show "distinct xs" "set xs = {..<fa_numBlocks f}" and n: "2 \<le> length xs" and "dll (fa_blks f) None xs None" "fa_head f = hd xs" "fa_tail f = last xs"
    using l unfolding fa_links_def by - (elim conjE, assumption)+
  show "xs \<noteq> []" using n by auto
  show "length (fa_cacheBoundaries f) = fa_numCaches f" "fa_cacheMask f = mask (fa_numCaches f)" "fa_numCaches f \<le> 32"
    "fa_bound f (fa_numCaches f) = length xs" "2 ^ 17 div fa_blkSize f * fa_blkSize f = 2 ^ 17"
    using p unfolding fa_parts_def by - (elim conjE, assumption)+
  show "i < fa_numCaches f \<Longrightarrow> 2 \<le> fa_bound f i \<and> fa_bound f i < length xs \<and> fa_cacheBoundaries f ! i = Some (xs ! (fa_bound f i - 1))"
    "k < length xs \<Longrightarrow> bit (fb_inCache (fa_blks f (xs ! k))) i \<longleftrightarrow> i < fa_numCaches f \<and> k < fa_bound f i"
    using p unfolding fa_parts_def by - (elim conjE, blast)+
qed

section \<open>Moving a block to the front\<close>

definition to_front :: "nat \<Rightarrow> 'a list \<Rightarrow> 'a list" where
  "to_front m xs = xs ! m # take m xs @ drop (Suc m) xs"

lemma to_front_nth:
  "m < length xs \<Longrightarrow> k < length xs \<Longrightarrow> to_front m xs ! k = (if k = 0 then xs ! m else if k \<le> m then xs ! (k - 1) else xs ! k)"
  by (cases k) (auto simp: to_front_def nth_append min_def)

lemma to_front_split: "m < length xs \<Longrightarrow> xs = take m xs @ xs ! m # drop (Suc m) xs"
  by (simp add: id_take_nth_drop)

lemma to_front_simps:
  assumes "m < length xs"
  shows "length (to_front m xs) = length xs" "set (to_front m xs) = set xs" "distinct xs \<Longrightarrow> distinct (to_front m xs)" "hd (to_front m xs) = xs ! m"
proof -
  have e: "xs = take m xs @ xs ! m # drop (Suc m) xs" by (rule to_front_split [OF assms])
  show "length (to_front m xs) = length xs" "hd (to_front m xs) = xs ! m" using assms by (simp_all add: to_front_def)
  show "set (to_front m xs) = set xs" by (subst (2) e) (simp only: to_front_def set_append set_simps Un_insert_right)
  show "distinct (to_front m xs)" if "distinct xs"
  proof -
    have "distinct (take m xs @ xs ! m # drop (Suc m) xs)" using that e by simp
    then show ?thesis unfolding to_front_def by auto
  qed
qed

text \<open>The boundaries and bits after the move fit the list after the move.\<close>

lemma parts_moved:
  assumes inv: "fa_inv f xs" and m: "m < length xs"
    and u: "u = fb_inCache (fa_blks f (xs ! m)) XOR fa_cacheMask f"
    and bs: "\<forall>i < fa_numCaches f. bs ! i = (if bit u i then fb_prev (fa_blks f (the (fa_cacheBoundaries f ! i)))
       else if fa_cacheBoundaries f ! i = Some (xs ! m) then fb_prev (fa_blks f (xs ! m)) else fa_cacheBoundaries f ! i)"
    and bits: "\<forall>x i. bit (c x) i \<longleftrightarrow> (if x = xs ! m then i < fa_numCaches f
       else bit (fb_inCache (fa_blks f x)) i \<and> \<not> (i < fa_numCaches f \<and> bit u i \<and> fa_cacheBoundaries f ! i = Some x))"
  shows "\<forall>i < fa_numCaches f. bs ! i = Some (to_front m xs ! (fa_bound f i - 1))"
    "\<forall>k < length xs. \<forall>i. bit (c (to_front m xs ! k)) i \<longleftrightarrow> i < fa_numCaches f \<and> k < fa_bound f i"
proof -
  let ?B = "fa_bound f" and ?n = "fa_numCaches f"
  have d: "distinct xs" "dll (fa_blks f) None xs None" using inv by (simp_all add: fa_inv_def fa_links_def)
  have p: "fa_cacheMask f = mask ?n" "?n \<le> 32" "\<And>i. i < ?n \<Longrightarrow> 2 \<le> ?B i \<and> ?B i < length xs \<and> fa_cacheBoundaries f ! i = Some (xs ! (?B i - 1))"
    "\<And>k i. k < length xs \<Longrightarrow> bit (fb_inCache (fa_blks f (xs ! k))) i \<longleftrightarrow> i < ?n \<and> k < ?B i"
    using inv by (auto simp: fa_inv_def fa_parts_def)
  have ub: "bit u i \<longleftrightarrow> i < ?n \<and> ?B i \<le> m" for i
    using p(4) [OF m, of i] p(2) by (auto simp: u p(1) bit_xor_iff bit_mask_iff)
  have prev: "fb_prev (fa_blks f (xs ! k)) = Some (xs ! (k - 1))" if "0 < k" "k < length xs" for k using dll_prev [OF d(2) that] .
  have ix: "xs ! a = xs ! k \<longleftrightarrow> a = k" if "a < length xs" "k < length xs" for a k using nth_eq_iff_index_eq [OF d(1) that] .
  have cbi: "fa_cacheBoundaries f ! i = Some (xs ! a) \<longleftrightarrow> ?B i - 1 = a" if "i < ?n" "a < length xs" for i a
  proof -
    have "?B i - 1 < length xs" using p(3) [OF that(1)] by linarith
    then show ?thesis using p(3) [OF that(1)] ix [OF _ that(2)] by simp
  qed
  show "\<forall>i < ?n. bs ! i = Some (to_front m xs ! (?B i - 1))"
  proof (intro allI impI)
    fix i assume i: "i < ?n"
    have B: "2 \<le> ?B i" "?B i - 1 < length xs" "fa_cacheBoundaries f ! i = Some (xs ! (?B i - 1))" using p(3) [OF i] by auto
    have pb: "fb_prev (fa_blks f (xs ! (?B i - 1))) = Some (xs ! (?B i - 1 - 1))" using B(1,2) by (intro prev) auto
    have bi: "bs ! i = (if ?B i \<le> m \<or> ?B i - 1 = m then Some (xs ! (?B i - 1 - 1)) else Some (xs ! (?B i - 1)))"
      using bs [rule_format, OF i] ub [of i] i cbi [OF i m] pb B(3) by auto
    show "bs ! i = Some (to_front m xs ! (?B i - 1))"
      using bi to_front_nth [OF m B(2)] B(1) by (auto split: if_splits)
  qed
  show "\<forall>k < length xs. \<forall>i. bit (c (to_front m xs ! k)) i \<longleftrightarrow> i < ?n \<and> k < ?B i"
  proof (intro allI impI)
    fix k i assume k: "k < length xs"
    consider "k = 0" | "0 < k" "k \<le> m" | "m < k" by linarith
    then show "bit (c (to_front m xs ! k)) i \<longleftrightarrow> i < ?n \<and> k < ?B i"
    proof cases
      case 1
      then show ?thesis using bits to_front_nth [OF m k] p(3) [of i] by auto
    next
      case 2
      then have e: "to_front m xs ! k = xs ! (k - 1)" "xs ! (k - 1) \<noteq> xs ! m" using to_front_nth [OF m k] ix m by auto
      have b: "i < ?n \<Longrightarrow> fa_cacheBoundaries f ! i = Some (xs ! (k - 1)) \<longleftrightarrow> ?B i = k" using cbi [of i "k - 1"] p(3) [of i] 2(1) k by linarith
      show ?thesis using bits e p(4) [of "k - 1" i] ub [of i] b 2 k by auto
    next
      case 3
      then have e: "to_front m xs ! k = xs ! k" "xs ! k \<noteq> xs ! m" using to_front_nth [OF m k] ix k m by auto
      show ?thesis using bits e p(4) [OF k, of i] ub [of i] cbi [of i k] k 3 by auto
    qed
  qed
qed

text \<open>The blocks after the loop over the boundaries, with all bits set in the block that moves.\<close>

lemma moved_blocks:
  assumes inv: "fa_inv f xs" and m: "m < length xs"
  shows "\<exists>bs c. move_boundaries [0..<fa_numCaches f] (fb_inCache (fa_blks f (xs ! m)) XOR fa_cacheMask f) (xs ! m) f =
       Inr (f\<lparr>fa_cacheBoundaries := bs, fa_blks := (\<lambda>x. (fa_blks f x)\<lparr>fb_inCache := c x\<rparr>)\<rparr>) \<and> length bs = fa_numCaches f \<and>
     (\<forall>i < fa_numCaches f. bs ! i = Some (to_front m xs ! (fa_bound f i - 1))) \<and>
     (\<forall>k < length xs. \<forall>i. bit ((c(xs ! m := fa_cacheMask f)) (to_front m xs ! k)) i \<longleftrightarrow> i < fa_numCaches f \<and> k < fa_bound f i)"
proof -
  let ?u = "fb_inCache (fa_blks f (xs ! m)) XOR fa_cacheMask f" and ?n = "fa_numCaches f"
  have p: "length (fa_cacheBoundaries f) = ?n" "fa_cacheMask f = mask ?n" "?n \<le> 32" "\<forall>i < ?n. fa_cacheBoundaries f ! i \<noteq> None"
    using inv by (auto simp: fa_inv_def fa_parts_def)
  obtain bs c where l: "move_boundaries [0..<?n] ?u (xs ! m) f = Inr (f\<lparr>fa_cacheBoundaries := bs, fa_blks := (\<lambda>x. (fa_blks f x)\<lparr>fb_inCache := c x\<rparr>)\<rparr>)"
    "length bs = ?n"
    "\<forall>i < length bs. bs ! i = (if i \<in> set [0..<?n]
        then if bit ?u i then fb_prev (fa_blks f (the (fa_cacheBoundaries f ! i)))
             else if fa_cacheBoundaries f ! i = Some (xs ! m) then fb_prev (fa_blks f (xs ! m)) else fa_cacheBoundaries f ! i
        else fa_cacheBoundaries f ! i)"
    "\<forall>x i. bit (c x) i \<longleftrightarrow> bit (fb_inCache (fa_blks f x)) i \<and> \<not> (i \<in> set [0..<?n] \<and> bit ?u i \<and> fa_cacheBoundaries f ! i = Some x)"
    using move_boundaries_ok [of "[0..<?n]" f ?u "xs ! m"] p(1,4) by auto
  have "\<forall>i < ?n. bs ! i = (if bit ?u i then fb_prev (fa_blks f (the (fa_cacheBoundaries f ! i)))
       else if fa_cacheBoundaries f ! i = Some (xs ! m) then fb_prev (fa_blks f (xs ! m)) else fa_cacheBoundaries f ! i)"
    using l(2,3) by simp
  moreover have "\<forall>x i. bit ((c(xs ! m := fa_cacheMask f)) x) i \<longleftrightarrow> (if x = xs ! m then i < ?n
       else bit (fb_inCache (fa_blks f x)) i \<and> \<not> (i < ?n \<and> bit ?u i \<and> fa_cacheBoundaries f ! i = Some x))"
    using l(4) p(2,3) by (auto simp: bit_mask_iff)
  ultimately show ?thesis using l(1,2) parts_moved [OF inv m refl] by blast
qed

lemma moveToHead_ok:
  assumes inv: "fa_inv f xs" and m: "m < length xs"
  shows "\<exists>f'. fa_moveToHead (xs ! m) f = Inr f' \<and> fa_inv f' (to_front m xs) \<and> (\<forall>x. fb_blk (fa_blks f' x) = fb_blk (fa_blks f x)) \<and>
     f' = f\<lparr>fa_cacheBoundaries := fa_cacheBoundaries f', fa_blks := fa_blks f', fa_head := fa_head f', fa_tail := fa_tail f'\<rparr>"
proof -
  let ?b = "xs ! m" and ?n = "fa_numCaches f" and ?xs = "to_front m xs"
  obtain bs c where l: "move_boundaries [0..<?n] (fb_inCache (fa_blks f ?b) XOR fa_cacheMask f) ?b f =
       Inr (f\<lparr>fa_cacheBoundaries := bs, fa_blks := (\<lambda>x. (fa_blks f x)\<lparr>fb_inCache := c x\<rparr>)\<rparr>)" "length bs = ?n"
     "\<forall>i < ?n. bs ! i = Some (?xs ! (fa_bound f i - 1))"
     "\<forall>k < length xs. \<forall>i. bit ((c(?b := fa_cacheMask f)) (?xs ! k)) i \<longleftrightarrow> i < ?n \<and> k < fa_bound f i"
    using moved_blocks [OF inv m] by blast
  define st where "st = (\<lambda>x. (fa_blks f x)\<lparr>fb_inCache := (c(?b := fa_cacheMask f)) x\<rparr>)"
  define f2 where "f2 = f\<lparr>fa_cacheBoundaries := bs, fa_blks := st\<rparr>"
  have f2: "fa_upd ?b (\<lambda>b. b\<lparr>fb_inCache := fa_cacheMask f\<rparr>) (f\<lparr>fa_cacheBoundaries := bs, fa_blks := (\<lambda>x. (fa_blks f x)\<lparr>fb_inCache := c x\<rparr>)\<rparr>) = f2"
    by (auto simp: fa_upd_def f2_def st_def fun_eq_iff)
  have lk: "distinct xs" "set xs = {..<fa_numBlocks f}" "2 \<le> length xs" "dll (fa_blks f) None xs None" "fa_head f = hd xs" "fa_tail f = last xs"
    using inv by (simp_all add: fa_inv_def fa_links_def)
  have d2: "dll st None xs None" using lk(4) dll_cong [of xs st "fa_blks f"] by (simp add: st_def)
  have parts: "fa_parts g ?xs" if g: "g = f2\<lparr>fa_blks := st', fa_head := h, fa_tail := t\<rparr>" "\<forall>x. fb_inCache (st' x) = fb_inCache (st x)" for g st' h t
    using inv l(2-4) g to_front_simps(1) [OF m] by (simp add: fa_parts_def fa_inv_def f2_def st_def fa_bound_def)
  note tf = to_front_simps [OF m]
  show ?thesis
  proof (cases "m = 0")
    case True
    then have e: "?xs = xs" "?b = fa_head f" using lk(3,5) by (cases xs; simp add: to_front_def hd_conv_nth)+
    have run: "fa_moveToHead ?b f = Inr f2" using l(1) f2 e(2) by (simp add: fa_moveToHead_def f2_def)
    have "f2 = f2\<lparr>fa_blks := st, fa_head := fa_head f, fa_tail := fa_tail f\<rparr>" by (simp add: f2_def)
    from parts [OF this] have "fa_parts f2 ?xs" by simp
    moreover have "fa_links f2 ?xs" using lk d2 e(1) by (simp add: fa_links_def f2_def)
    ultimately show ?thesis using run by (intro exI [of _ f2]) (simp add: fa_inv_def f2_def st_def)
  next
    case False
    let ?l = "take m xs" and ?r = "drop (Suc m) xs"
    have ne: "xs \<noteq> []" using lk(3) by auto
    have e: "xs = ?l @ ?b # ?r" by (rule to_front_split [OF m])
    have e': "?l \<noteq> []" "?l @ ?r \<noteq> []" "hd xs = hd (?l @ ?r)" using False ne m by (auto simp: hd_append hd_take)
    have nh: "?b \<noteq> fa_head f" using nth_eq_iff_index_eq [OF lk(1) m, of 0] False ne lk(5) by (simp add: hd_conv_nth)
    obtain st3 where u: "fa_unlink ?b f2 = Inr (f2\<lparr>fa_blks := st3, fa_tail := last (?l @ ?r)\<rparr>)" "dll st3 None (?l @ ?r) None"
      "\<forall>x. fb_blk (st3 x) = fb_blk (st x) \<and> fb_inCache (st3 x) = fb_inCache (st x)"
      using fa_unlink_ok [of f2 ?l ?b ?r] d2 e e'(1) lk(1,6) by (auto simp: f2_def)
    define st4 where "st4 = (st3(?b := (st3 ?b)\<lparr>fb_next := Some (hd (?l @ ?r)), fb_prev := None\<rparr>))
       (hd (?l @ ?r) := (st3 (hd (?l @ ?r)))\<lparr>fb_prev := Some ?b\<rparr>)"
    define f3 where "f3 = f2\<lparr>fa_blks := st4, fa_head := ?b, fa_tail := last (?l @ ?r)\<rparr>"
    have hb: "hd (?l @ ?r) \<noteq> ?b" using nh lk(5) e'(3) by simp
    have run: "fa_moveToHead ?b f = Inr f3"
      using l(1) f2 nh u(1) hb lk(5) e'(3) by (simp add: fa_moveToHead_def f2_def f3_def st4_def fa_upd_def)
    have d4: "dll st4 None ?xs None"
      unfolding st4_def to_front_def by (rule relink_ok [OF u(2) e'(2)]) (use tf(3) lk(1) in \<open>simp add: to_front_def\<close>)
    have "last ?xs = last (?l @ ?r)" by (simp only: to_front_def last_ConsR [OF e'(2)])
    then have "fa_links f3 ?xs" using tf lk d4 by (simp add: fa_links_def f3_def f2_def)
    moreover have c4: "fb_inCache (st4 x) = fb_inCache (st x)" "fb_blk (st4 x) = fb_blk (fa_blks f x)" for x
      using u(3) by (simp_all add: st4_def st_def)
    then have "fa_parts f3 ?xs" using parts [OF f3_def] by blast
    ultimately show ?thesis using run c4 by (intro exI [of _ f3]) (simp add: fa_inv_def f3_def f2_def)
  qed
qed

section \<open>The other operations\<close>

lemma fa_inv_cong:
  assumes "fa_inv f xs" "\<forall>x. fb_prev (fa_blks g x) = fb_prev (fa_blks f x) \<and> fb_next (fa_blks g x) = fb_next (fa_blks f x) \<and>
      fb_inCache (fa_blks g x) = fb_inCache (fa_blks f x)"
    "fa_blkSize g = fa_blkSize f" "fa_cacheBoundaries g = fa_cacheBoundaries f" "fa_cacheMask g = fa_cacheMask f" "fa_numCaches g = fa_numCaches f"
    "fa_numBlocks g = fa_numBlocks f" "fa_head g = fa_head f" "fa_tail g = fa_tail f"
  shows "fa_inv g xs"
  using assms dll_cong [of xs "fa_blks g" "fa_blks f"] by (simp add: fa_inv_def fa_links_def fa_parts_def fa_bound_def)

lemma findVictim_ok:
  assumes inv: "fa_inv f xs"
  shows "\<exists>f'. fa_findVictim now a f = Inr (last xs, f') \<and> fa_inv f' (to_front (length xs - 1) xs) \<and>
     (\<forall>x. fb_blk (fa_blks f' x) = fb_blk (fa_blks f x)) \<and> fa_blkSize f' = fa_blkSize f \<and>
     fa_tagHash f' = ((fa_tagHash f)(blk_tag (fb_blk (fa_blks f (last xs))) := None))(fa_blkAlign f a \<mapsto> last xs)"
proof -
  let ?m = "length xs - 1" and ?b = "last xs"
  have m: "?m < length xs" "xs ! ?m = ?b" "fa_tail f = ?b" using fa_invD(4,7) [OF inv] by (simp_all add: last_conv_nth)
  have "bit (fb_inCache (fa_blks f (xs ! ?m))) i \<longleftrightarrow> False" for i
    using fa_invD(13) [OF inv, of i] fa_invD(14) [OF inv m(1), of i] by auto
  then have z: "fb_inCache (fa_blks f ?b) = 0" unfolding m(2) by (simp add: bit_eq_iff)
  obtain g where g: "fa_moveToHead ?b f = Inr g" "fa_inv g (to_front ?m xs)" "\<forall>x. fb_blk (fa_blks g x) = fb_blk (fa_blks f x)"
    "g = f\<lparr>fa_cacheBoundaries := fa_cacheBoundaries g, fa_blks := fa_blks g, fa_head := fa_head g, fa_tail := fa_tail g\<rparr>"
    using moveToHead_ok [OF inv m(1)] m(2) by auto
  have same: "fa_tagHash g = fa_tagHash f" "fa_blkSize g = fa_blkSize f" by (subst g(4), simp)+
  let ?h = "g\<lparr>fa_tagHash := ((fa_tagHash g)(blk_tag (fb_blk (fa_blks g ?b)) := None))(fa_blkAlign g a \<mapsto> ?b)\<rparr>"
  obtain f' where f': "fa_findVictim now a f = Inr (?b, f')" "fa_tagHash f' = fa_tagHash ?h" "fa_blkSize f' = fa_blkSize g"
    "\<forall>x. fb_blk (fa_blks f' x) = fb_blk (fa_blks g x)" "fa_inv f' (to_front ?m xs)"
  proof (cases "blk_isValid (fb_blk (fa_blks g ?b))")
    case True
    let ?f = "?h\<lparr>fa_replacements := fa_replacements ?h + 1\<rparr>"
    have "fa_inv ?f (to_front ?m xs)" by (rule fa_inv_cong [OF g(2)]) simp_all
    then show thesis using that [of ?f] True z g(1) m(3) by (simp add: fa_findVictim_def Let_def)
  next
    case False
    let ?k = "fa_upd ?b (\<lambda>x. x\<lparr>fb_isTouched := True\<rparr>) (?h\<lparr>fa_tagsInUse := fa_tagsInUse ?h + 1\<rparr>)"
    let ?f = "if \<not> fa_warmedUp ?k \<and> fa_tagsInUse ?k \<ge> fa_warmupBound ?k then ?k\<lparr>fa_warmedUp := True, fa_warmupCycle := now\<rparr> else ?k"
    have "fa_inv ?f (to_front ?m xs)" by (rule fa_inv_cong [OF g(2)]) (simp_all add: fa_upd_def)
    then show thesis using that [of ?f] False z g(1) m(3) by (simp add: fa_findVictim_def Let_def fa_upd_def)
  qed
  then show ?thesis using g(3) same by (intro exI [of _ f']) (simp add: fa_blkAlign_def)
qed

lemma count_hit_simps [simp]: "fa_blks (fa_count_hit c f) = fa_blks f" "fa_head (fa_count_hit c f) = fa_head f" "fa_numCaches (fa_count_hit c f) = fa_numCaches f"
  by (simp_all add: fa_count_hit_def)

lemma accessBlock_ok:
  assumes inv: "fa_inv f xs" and found: "fa_findBlock a f = Inr (Some b)" and b: "b = xs ! m" "m < length xs"
  shows "\<exists>f'. fa_accessBlock a f = Inr (Some b, fa_hitLatency f, fb_inCache (fa_blks f b), f') \<and> fa_inv f' (to_front m xs) \<and>
     (\<forall>i \<le> fa_numCaches f. fa_hits f' i = fa_hits f i + (if m < fa_bound f i then 1 else 0) \<and>
        fa_misses f' i = fa_misses f i + (if m < fa_bound f i then 0 else 1))"
proof -
  let ?c = "fb_inCache (fa_blks f b)"
  define g where "g = fa_count_hit ?c (f\<lparr>fa_accesses := fa_accesses f + 1\<rparr>)"
  have ginv: "fa_inv g xs" by (rule fa_inv_cong [OF inv]) (simp_all add: g_def fa_count_hit_def)
  have bits: "bit ?c i \<longleftrightarrow> i < fa_numCaches f \<and> m < fa_bound f i" for i using fa_invD(14) [OF inv b(2)] b(1) by simp
  have full: "m < fa_bound f (fa_numCaches f)" using fa_invD(11) [OF inv] b(2) by simp
  have counts: "fa_hits g i = fa_hits f i + (if m < fa_bound f i then 1 else 0)" "fa_misses g i = fa_misses f i + (if m < fa_bound f i then 0 else 1)"
    if "i \<le> fa_numCaches f" for i
    using that full by (cases "i = fa_numCaches f"; simp add: g_def fa_count_hit_def test_bit bits)+
  obtain h where h: "fa_moveToHead b g = Inr h" "fa_inv h (to_front m xs)"
    "h = g\<lparr>fa_cacheBoundaries := fa_cacheBoundaries h, fa_blks := fa_blks h, fa_head := fa_head h, fa_tail := fa_tail h\<rparr>"
    using moveToHead_ok [OF ginv b(2)] b(1) by auto
  have hs: "fa_hits h = fa_hits g" "fa_misses h = fa_misses g" "fa_hitLatency h = fa_hitLatency g" by (subst h(3), simp)+
  have lat: "fa_hitLatency g = fa_hitLatency f" by (simp add: g_def fa_count_hit_def)
  show ?thesis
  proof (cases "b = fa_head f")
    case True
    note xs = fa_invD(1,4,6) [OF inv]
    then have "m = 0" using True b nth_eq_iff_index_eq [OF xs(1) b(2), of 0] by (simp add: hd_conv_nth)
    then have "to_front m xs = xs" using xs(2) by (cases xs) (simp_all add: to_front_def)
    moreover have "fa_accessBlock a f = Inr (Some b, fa_hitLatency f, ?c, g)"
      using found True lat by (simp add: fa_accessBlock_def g_def Let_def)
    ultimately show ?thesis using ginv counts by auto
  next
    case False
    then have "fa_accessBlock a f = Inr (Some b, fa_hitLatency f, ?c, h)"
      using found h(1) hs lat by (simp add: fa_accessBlock_def g_def Let_def)
    then show ?thesis using h(2) hs counts by auto
  qed
qed

section \<open>The constructor\<close>

text \<open>
  Before block \<open>i\<close> the loop has set the boundaries of the sizes below \<open>j\<close>, and \<open>flags\<close> has the bits of
  the others.
\<close>

definition init_inv :: "nat \<Rightarrow> nat \<Rightarrow> nat \<Rightarrow> nat \<Rightarrow> nat \<Rightarrow> 32 word \<Rightarrow> bool" where
  "init_inv I0 n i j index flags \<longleftrightarrow> index = I0 * 2 ^ j \<and> i < index \<and> (\<forall>t < j. I0 * 2 ^ t \<le> i) \<and> (\<forall>t. bit flags t \<longleftrightarrow> j \<le> t \<and> t < n)"

lemma init_inv_bits:
  assumes "init_inv I0 n i j index flags"
  shows "bit flags t \<longleftrightarrow> t < n \<and> i < I0 * 2 ^ t"
proof -
  have h: "index = I0 * 2 ^ j" "i < index" "\<forall>t < j. I0 * 2 ^ t \<le> i" "\<forall>t. bit flags t \<longleftrightarrow> j \<le> t \<and> t < n"
    using assms by (simp_all add: init_inv_def)
  have "j \<le> t \<longleftrightarrow> i < I0 * 2 ^ t"
  proof
    assume "j \<le> t"
    then have "I0 * 2 ^ j \<le> I0 * 2 ^ t" by (intro mult_le_mono2 power_increasing) auto
    then show "i < I0 * 2 ^ t" using h(1,2) by linarith
  next
    assume "i < I0 * 2 ^ t"
    then show "j \<le> t" using h(3) by (meson leI not_le)
  qed
  then show ?thesis using h(4) by blast
qed

lemma init_inv_step:
  assumes "init_inv I0 n i j index flags"
  shows "i = index - 1 \<Longrightarrow> init_inv I0 n (Suc i) (Suc j) (index * 2) (flags AND NOT (2 ^ j))"
    "i \<noteq> index - 1 \<Longrightarrow> init_inv I0 n (Suc i) j index flags"
  using assms by (auto simp: init_inv_def clear_bit less_Suc_eq le_SucI)

lemma init_blocks_ok:
  assumes "init_blocks [i..<e] j index flags f = Inr (j', index', f')" "init_inv I0 n i j index flags" "j \<le> n" "length (fa_cacheBoundaries f) = n"
  shows "index' = I0 * 2 ^ j' \<and> j \<le> j' \<and> (\<exists>bs c. f' = f\<lparr>fa_cacheBoundaries := bs, fa_blks := (\<lambda>x. if i \<le> x \<and> x < e
       then (fa_blks f x)\<lparr>fb_inCache := c x, fb_prev := Some (x - 1), fb_next := Some (x + 1), fb_isTouched := False\<rparr> else fa_blks f x)\<rparr> \<and>
     length bs = n \<and> (\<forall>t. j \<le> t \<and> t < j' \<longrightarrow> bs ! t = Some (I0 * 2 ^ t - 1)) \<and> (\<forall>t < j. bs ! t = fa_cacheBoundaries f ! t) \<and>
     (\<forall>x t. i \<le> x \<and> x < e \<longrightarrow> (bit (c x) t \<longleftrightarrow> t < n \<and> x < I0 * 2 ^ t)))"
  using assms
proof (induction "e - i" arbitrary: i j index flags f)
  case 0
  then have "f' = f" "j' = j" "index' = index" "e \<le> i" by auto
  moreover have "(\<lambda>x. if i \<le> x \<and> x < e then g x else fa_blks f x) = fa_blks f" for g using \<open>e \<le> i\<close> by (auto simp: fun_eq_iff)
  ultimately show ?case using "0.prems"(2,4) by (intro conjI exI [of _ "fa_cacheBoundaries f"] exI [of _ "\<lambda>_. 0"]) (auto simp: init_inv_def)
next
  case (Suc d)
  then have ie: "i < e" by simp
  let ?g = "fa_upd i (\<lambda>b. b\<lparr>fb_inCache := flags, fb_prev := Some (i - 1), fb_next := Some (i + 1), fb_isTouched := False\<rparr>) f"
  define hit where "hit = (i = index - 1)"
  define g where "g = (if hit then ?g\<lparr>fa_cacheBoundaries := (fa_cacheBoundaries f)[j := Some i]\<rparr> else ?g)"
  let ?j = "if hit then Suc j else j" and ?index = "if hit then index * 2 else index" and ?flags = "if hit then flags AND NOT (2 ^ j) else flags"
  have r: "init_blocks [Suc i..<e] ?j ?index ?flags g = Inr (j', index', f')" "hit \<Longrightarrow> j < n"
    using Suc.prems(1,4) ie by (auto simp: upt_conv_Cons g_def hit_def fa_upd_def guard_res_Inr split: if_splits)
  have p: "init_inv I0 n (Suc i) ?j ?index ?flags" using init_inv_step [OF Suc.prems(2)] by (simp add: hit_def)
  have p': "?j \<le> n" "length (fa_cacheBoundaries g) = n" "d = e - Suc i" using r(2) Suc by (auto simp: g_def fa_upd_def)
  from Suc.hyps(1) [OF p'(3) r(1) p p'(1,2)] obtain bs c where ih: "index' = I0 * 2 ^ j'" "?j \<le> j'"
    "f' = g\<lparr>fa_cacheBoundaries := bs, fa_blks := (\<lambda>x. if Suc i \<le> x \<and> x < e
       then (fa_blks g x)\<lparr>fb_inCache := c x, fb_prev := Some (x - 1), fb_next := Some (x + 1), fb_isTouched := False\<rparr> else fa_blks g x)\<rparr>"
    "length bs = n" "\<forall>t. ?j \<le> t \<and> t < j' \<longrightarrow> bs ! t = Some (I0 * 2 ^ t - 1)" "\<forall>t < ?j. bs ! t = fa_cacheBoundaries g ! t"
    "\<forall>x t. Suc i \<le> x \<and> x < e \<longrightarrow> (bit (c x) t \<longleftrightarrow> t < n \<and> x < I0 * 2 ^ t)" by blast
  have idx: "hit \<Longrightarrow> i = I0 * 2 ^ j - 1" using Suc.prems(2) by (simp add: hit_def init_inv_def)
  have bj: "hit \<Longrightarrow> bs ! j = Some (I0 * 2 ^ j - 1)" using ih(6) r(2) Suc.prems(4) idx by (simp add: g_def fa_upd_def)
  have old: "\<forall>t < j. bs ! t = fa_cacheBoundaries f ! t" using ih(6) by (auto simp: g_def fa_upd_def)
  have new: "\<forall>t. j \<le> t \<and> t < j' \<longrightarrow> bs ! t = Some (I0 * 2 ^ t - 1)"
    using ih(5) bj by (auto split: if_splits) (metis Suc_leI le_neq_implies_less)
  let ?c = "c(i := flags)"
  have "f' = f\<lparr>fa_cacheBoundaries := bs, fa_blks := (\<lambda>x. if i \<le> x \<and> x < e
       then (fa_blks f x)\<lparr>fb_inCache := ?c x, fb_prev := Some (x - 1), fb_next := Some (x + 1), fb_isTouched := False\<rparr> else fa_blks f x)\<rparr>"
    using ih(3) ie by (auto simp: g_def fa_upd_def fun_eq_iff)
  moreover have "\<forall>x t. i \<le> x \<and> x < e \<longrightarrow> (bit (?c x) t \<longleftrightarrow> t < n \<and> x < I0 * 2 ^ t)"
    using ih(7) init_inv_bits [OF Suc.prems(2)] by (auto simp: Suc_le_eq)
  ultimately show ?case using ih(1,2,4) old new by (intro conjI exI [of _ bs] exI [of _ ?c]) (auto split: if_splits)
qed

text \<open>With blocks of 128K or more the loop finds no boundary.\<close>

lemma init_blocks_none:
  "init_blocks is j index flags f = Inr (j', index', f') \<Longrightarrow> index \<le> 1 \<Longrightarrow> 0 \<notin> set is \<Longrightarrow> index' = index"
  by (induction "is" arbitrary: f) (auto simp: Let_def split: if_splits)

lemma dll_upt:
  "\<forall>x. a \<le> x \<and> x < e \<longrightarrow> fb_prev (st x) = (if x = a then p else Some (x - 1)) \<and> fb_next (st x) = (if Suc x < e then Some (Suc x) else q) \<Longrightarrow>
   dll st p [a..<e] q"
proof (induction "e - a" arbitrary: a p)
  case (Suc d)
  then have "dll st (Some a) [Suc a..<e] q" by (intro Suc.hyps(1)) auto
  then show ?case using Suc by (simp add: upt_conv_Cons)
qed simp

lemma power_of_2:
  assumes "isPowerOf2 (of_nat n)" "n < 2 ^ 64"
  shows "\<exists>c. n = 2 ^ c"
proof -
  have z: "(of_nat n :: 64 word) \<noteq> 0" "unat (of_nat n :: 64 word) = n" "of_nat n AND (of_nat n - 1) = (0 :: 64 word)"
  proof -
    have a: "(of_nat n :: 64 word) \<noteq> 0" "of_nat n AND NOT (of_nat n - 1) = (of_nat n :: 64 word)"
      using assms(1) by (simp_all add: isPowerOf2_def leastSigBit_def)
    then show "(of_nat n :: 64 word) \<noteq> 0" by simp
    show "unat (of_nat n :: 64 word) = n" using assms(2) by (simp add: unat_of_nat)
    have "of_nat n AND (of_nat n - 1) = (of_nat n AND NOT (of_nat n - 1)) AND (of_nat n - 1 :: 64 word)" using a(2) by simp
    then show "of_nat n AND (of_nat n - 1) = (0 :: 64 word)" by (simp add: and.assoc)
  qed
  obtain y where y: "2 ^ y \<le> n" "n < 2 ^ (y + 1)" using floorLog2_aux [OF z(1)] z(2) by auto
  have "n = 2 ^ y"
  proof (rule ccontr)
    assume "n \<noteq> 2 ^ y"
    then have lt: "2 ^ y \<le> n - 1" "2 ^ y < n" using y(1) by auto
    have "n div 2 ^ y = 1" "(n - 1) div 2 ^ y = 1" by (rule div_nat_eqI; use y lt in simp)+
    then have b: "bit n y" "bit (n - 1) y" by (simp_all add: bit_iff_odd)
    have "(of_nat n - 1 :: 64 word) = of_nat (n - 1)" using lt by (simp add: of_nat_diff)
    moreover have "y < 64" using y(1) assms(2) by (metis le_less_trans nat_power_less_imp_less zero_less_numeral)
    ultimately have "bit (of_nat n AND (of_nat n - 1) :: 64 word) y" using b by (simp add: bit_and_iff bit_of_nat_iff)
    then show False using z(3) by simp
  qed
  then show ?thesis by blast
qed

lemma FALRU_new_ok:
  assumes new: "FALRU_new blkSize sz lat = Inr f" and sizes: "blkSize < 2 ^ 32" "sz < 2 ^ 31"
  shows "fa_inv f [0..<sz div blkSize]" "fa_blkSize f = blkSize" "fa_numBlocks f = sz div blkSize" "\<forall>x. fb_blk (fa_blks f x) = CacheBlk_new"
    "fa_tagHash f = (\<lambda>_. None)"
proof -
  let ?n = "sz div blkSize" and ?I0 = "2 ^ 17 div blkSize"
  obtain l where l: "floorLog2 (of_nat sz) = Inr l" "isPowerOf2 (of_nat blkSize)" "isPowerOf2 (of_nat sz)" "17 \<le> l" "2 \<le> ?n"
    using new by (auto simp: FALRU_new_def res_simps Let_def)
  define nc where "nc = l - 17"
  define f0 where "f0 = \<lparr>fa_blkSize = blkSize, fa_size = sz, fa_hitLatency = lat,
     fa_cacheBoundaries = replicate nc None, fa_cacheMask = mask nc, fa_numCaches = nc, fa_numBlocks = ?n,
     fa_blks = (\<lambda>i. \<lparr>fb_blk = CacheBlk_new, fb_prev = (if i = 0 then None else Some (?n - 2)),
       fb_next = (if i = 0 then Some 1 else None), fb_isTouched = False, fb_inCache = (if i = 0 then mask nc else 0)\<rparr>),
     fa_head = 0, fa_tail = ?n - 1, fa_tagHash = (\<lambda>_. None), fa_hits = (\<lambda>_. 0), fa_misses = (\<lambda>_. 0),
     fa_accesses = 0, fa_warmedUp = False, fa_warmupBound = int ?n, fa_warmupCycle = 0, fa_tagsInUse = 0, fa_replacements = 0\<rparr>"
  have run: "init_blocks [1..<?n - 1] 0 ?I0 (mask nc) f0 = Inr (nc, ?n, f)"
    using new l unfolding f0_def nc_def by (auto simp: FALRU_new_def res_simps Let_def)
  have nc: "nc \<le> 32"
  proof -
    have "(of_nat sz :: 64 word) \<noteq> 0" "unat (of_nat sz :: 64 word) = sz" using l(3) sizes(2) by (simp_all add: isPowerOf2_def unat_of_nat)
    then have "2 ^ l \<le> sz" using floorLog2_aux [of "of_nat sz"] l(1) by auto
    then have "(2 :: nat) ^ l < 2 ^ 31" using sizes(2) by linarith
    then have "l < 31" by (rule nat_power_less_imp_less [rotated]) simp
    then show ?thesis by (simp add: nc_def)
  qed
  have I0: "1 < ?I0"
  proof (rule ccontr)
    assume "\<not> 1 < ?I0"
    then have "?n = ?I0" using init_blocks_none [OF run] by simp
    then show False using l(5) \<open>\<not> 1 < ?I0\<close> by linarith
  qed
  have ii: "init_inv ?I0 nc 1 0 ?I0 (mask nc)" using I0 nc by (auto simp: init_inv_def bit_mask_iff)
  have "length (fa_cacheBoundaries f0) = nc" by (simp add: f0_def)
  note ib = init_blocks_ok [OF run ii le0 this]
  obtain bs c where i: "?n = ?I0 * 2 ^ nc" "f = f0\<lparr>fa_cacheBoundaries := bs, fa_blks := (\<lambda>x. if 1 \<le> x \<and> x < ?n - 1
       then (fa_blks f0 x)\<lparr>fb_inCache := c x, fb_prev := Some (x - 1), fb_next := Some (x + 1), fb_isTouched := False\<rparr> else fa_blks f0 x)\<rparr>"
     "length bs = nc" "\<forall>t. 0 \<le> t \<and> t < nc \<longrightarrow> bs ! t = Some (?I0 * 2 ^ t - 1)"
     "\<forall>x t. 1 \<le> x \<and> x < ?n - 1 \<longrightarrow> (bit (c x) t \<longleftrightarrow> t < nc \<and> x < ?I0 * 2 ^ t)"
    using ib by (elim conjE exE) (rule that)
  show fields: "fa_blkSize f = blkSize" "fa_numBlocks f = ?n" "\<forall>x. fb_blk (fa_blks f x) = CacheBlk_new" "fa_tagHash f = (\<lambda>_. None)"
    by (simp_all add: i(2) f0_def)
  have B: "fa_bound f t = ?I0 * 2 ^ t" for t by (simp add: fa_bound_def fields)
  have Bt: "2 \<le> ?I0 * 2 ^ t \<and> ?I0 * 2 ^ t < ?n" if "t < nc" for t
  proof -
    have "(2 :: nat) ^ t < 2 ^ nc" using that by simp
    then have "?I0 * 2 ^ t < ?I0 * 2 ^ nc" using I0 by (intro mult_strict_left_mono) auto
    moreover have "?I0 * 1 \<le> ?I0 * 2 ^ t" by (intro mult_le_mono2) simp
    ultimately show ?thesis using I0 i(1) by linarith
  qed
  have dvd: "?I0 * blkSize = 2 ^ 17"
  proof -
    obtain e where e: "blkSize = 2 ^ e" using power_of_2 [OF l(2)] sizes(1) by auto
    have "e \<le> 17" using I0 e by (metis div_less less_zeroE not_le one_less_numeral_iff power_strict_increasing semiring_norm(76))
    then show ?thesis unfolding e by (intro dvd_div_mult_self le_imp_power_dvd)
  qed
  have "fa_links f [0..<?n]"
    using l(5) by (auto simp: fa_links_def fields i(2) f0_def hd_upt last_conv_nth intro!: dll_upt)
  moreover have "bit (fb_inCache (fa_blks f k)) t \<longleftrightarrow> t < nc \<and> k < ?I0 * 2 ^ t" if kn: "k < ?n" for k t
  proof -
    consider "k = 0" | "1 \<le> k" "k < ?n - 1" | "k = ?n - 1" "k \<noteq> 0" using kn by linarith
    then show ?thesis
    proof cases
      case 1
      then show ?thesis using I0 nc l(5) by (auto simp: i(2) f0_def bit_mask_iff)
    next
      case 2
      then show ?thesis using i(5) by (simp add: i(2))
    next
      case 3
      then show ?thesis using Bt [of t] l(5) by (auto simp: i(2) f0_def)
    qed
  qed
  then have "fa_parts f [0..<?n]"
    unfolding fa_parts_def B using i(1,3,4) nc Bt dvd l(5) by (simp add: fields) (simp add: i(2) f0_def less_imp_diff_less)
  ultimately show "fa_inv f [0..<?n]" by (simp add: fa_inv_def)
qed

section \<open>The check of the list\<close>

lemma dll_next: "dll st p xs q \<Longrightarrow> k < length xs \<Longrightarrow> fb_next (st (xs ! k)) = (if Suc k < length xs then Some (xs ! Suc k) else q)"
proof (induction xs arbitrary: p k)
  case (Cons x xs)
  then show ?case by (cases k) (auto simp: hd_conv_nth)
qed simp

lemma check_loop_ok:
  assumes inv: "fa_inv f xs" and k: "k \<le> length xs" "j \<le> fa_numCaches f" "\<forall>t < j. fa_bound f t \<le> k" "k < length xs \<Longrightarrow> k < fa_bound f j"
    and flags: "\<forall>t. bit flags t \<longleftrightarrow> j \<le> t \<and> t < fa_numCaches f"
  shows "fa_check_loop f (if k < length xs then Some (xs ! k) else None) (k * fa_blkSize f) (2 ^ 17 * 2 ^ j) j flags = Some (Inr True)"
  using k flags
proof (induction "length xs - k" arbitrary: k j flags)
  case 0
  then show ?case by (subst fa_check_loop.simps) simp
next
  case (Suc d)
  let ?b = "xs ! k" and ?n = "fa_numCaches f" and ?B = "fa_bound f"
  have k: "k < length xs" "d = length xs - Suc k" "k < ?B j" using Suc.hyps(2) Suc.prems(4) by auto
  have step: "?B (Suc t) = 2 * ?B t" for t by (simp add: fa_bound_def)
  have bits: "fb_inCache (fa_blks f ?b) = flags"
  proof (rule bit_eqI)
    fix t
    have "j \<le> t \<longleftrightarrow> k < ?B t"
    proof
      assume "j \<le> t"
      then have "?B j \<le> ?B t" unfolding fa_bound_def by (intro mult_le_mono2 power_increasing) auto
      then show "k < ?B t" using k(3) by linarith
    next
      assume "k < ?B t"
      then show "j \<le> t" using Suc.prems(3) by (meson leI not_le)
    qed
    then show "bit (fb_inCache (fa_blks f ?b)) t \<longleftrightarrow> bit flags t" using fa_invD(14) [OF inv k(1)] Suc.prems(5) by blast
  qed
  have sz: "k * fa_blkSize f + fa_blkSize f = Suc k * fa_blkSize f" by simp
  have pos: "0 < fa_blkSize f" using fa_invD(12) [OF inv] by (cases "fa_blkSize f") auto
  have e: "2 ^ 17 * 2 ^ j = ?B j * fa_blkSize f" using fa_invD(12) [OF inv] by (simp add: fa_bound_def mult.assoc mult.left_commute)
  have at: "Suc k * fa_blkSize f = 2 ^ 17 * 2 ^ j \<longleftrightarrow> Suc k = ?B j" by (simp only: e mult_cancel2) (use pos in auto)
  have tl: "?b = fa_tail f \<longleftrightarrow> Suc k = length xs"
    using fa_invD(7) [OF inv] nth_eq_iff_index_eq [OF fa_invD(1) [OF inv] k(1), of "length xs - 1"] k(1) fa_invD(4) [OF inv]
    by (auto simp: last_conv_nth)
  have nx: "fb_next (fa_blks f ?b) = (if Suc k < length xs then Some (xs ! Suc k) else None)" by (rule dll_next [OF fa_invD(5) [OF inv] k(1)])
  show ?case
  proof (cases "Suc k = ?B j \<and> Suc k \<noteq> length xs")
    case True
    then have jn: "j < ?n" using fa_invD(11) [OF inv] Suc.prems(2) by (cases "j = ?n") auto
    have cb: "fa_cacheBoundaries f ! j = Some ?b" using fa_invD(13) [OF inv jn] True by (metis diff_Suc_1)
    have "fa_check_loop f (if Suc k < length xs then Some (xs ! Suc k) else None) (Suc k * fa_blkSize f) (2 ^ 17 * 2 ^ Suc j) (Suc j)
        (flags AND NOT (push_bit j 1)) = Some (Inr True)"
      by (rule Suc.hyps(1) [OF k(2)]) (use Suc.prems jn True k(1) step [of j] in \<open>auto simp: clear_bit less_Suc_eq\<close>)
    then show ?thesis using True k(1) bits at tl cb jn fa_invD(8) [OF inv] nx
      by (subst fa_check_loop.simps) (simp add: Let_def sz mult.commute [of "2 ^ j"] del: mult_Suc)
  next
    case False
    have "fa_check_loop f (if Suc k < length xs then Some (xs ! Suc k) else None) (Suc k * fa_blkSize f) (2 ^ 17 * 2 ^ j) j flags = Some (Inr True)"
      by (rule Suc.hyps(1) [OF k(2)]) (use Suc.prems False k in \<open>auto simp: le_SucI\<close>)
    then show ?thesis using False k(1) bits at tl nx by (subst fa_check_loop.simps) (auto simp: Let_def sz simp del: mult_Suc)
  qed
qed

lemma check_ok:
  assumes "fa_inv f xs"
  shows "fa_check f = Some (Inr True)"
proof -
  have x: "0 < length xs" "hd xs = xs ! 0" using fa_invD(4) [OF assms] by (simp_all add: hd_conv_nth)
  have "0 < fa_bound f 0" using fa_invD(13) [OF assms, of 0] fa_invD(11) [OF assms] x(1) by (cases "fa_numCaches f = 0") auto
  then have "fa_check_loop f (if 0 < length xs then Some (xs ! 0) else None) (0 * fa_blkSize f) (2 ^ 17 * 2 ^ 0) 0 (fa_cacheMask f) = Some (Inr True)"
    using fa_invD(9,10) [OF assms] by (intro check_loop_ok [OF assms]) (auto simp: bit_mask_iff)
  then show ?thesis using x fa_invD(6) [OF assms] by (simp add: fa_check_def)
qed

section \<open>Reachable states\<close>

text \<open>
  The states the store can reach.  Between its calls the cache changes the contents of blocks (tag,
  status, data) as it likes; \<open>xs\<close> is the order in which the blocks were last moved to the front.
\<close>

inductive fa_reach :: "FALRU \<Rightarrow> nat list \<Rightarrow> bool" where
  new: "FALRU_new blkSize sz lat = Inr f \<Longrightarrow> blkSize < 2 ^ 32 \<Longrightarrow> sz < 2 ^ 31 \<Longrightarrow> fa_reach f [0..<sz div blkSize]"
| hit: "fa_reach f xs \<Longrightarrow> fa_accessBlock a f = Inr (Some b, l, c, f') \<Longrightarrow> b = xs ! m \<Longrightarrow> m < length xs \<Longrightarrow> fa_reach f' (to_front m xs)"
| miss: "fa_reach f xs \<Longrightarrow> fa_accessBlock a f = Inr (None, l, c, f') \<Longrightarrow> fa_reach f' xs"
| victim: "fa_reach f xs \<Longrightarrow> fa_findVictim now a f = Inr (b, f') \<Longrightarrow> fa_reach f' (to_front (length xs - 1) xs)"
| invalidate: "fa_reach f xs \<Longrightarrow> fa_reach (fa_invalidateBlk b f) xs"
| contents: "fa_reach f xs \<Longrightarrow> fa_reach (fa_upd b (\<lambda>x. x\<lparr>fb_blk := blk\<rparr>) f) xs"

lemma findBlock_of_access:
  "fa_accessBlock a f = Inr (r, l, c, f') \<Longrightarrow> fa_findBlock a f = Inr r"
  by (auto simp: fa_accessBlock_def Let_def res_simps split: option.splits)

lemma fa_reach_inv: "fa_reach f xs \<Longrightarrow> fa_inv f xs"
proof (induction rule: fa_reach.induct)
  case (new blkSize sz lat f)
  then show ?case by (rule FALRU_new_ok(1))
next
  case (hit f xs a b l c f' m)
  then show ?case using accessBlock_ok [OF hit.IH findBlock_of_access [OF hit.hyps(2)] hit.hyps(3,4)] by auto
next
  case (miss f xs a l c f')
  then have "f' = fa_count_miss (f\<lparr>fa_accesses := fa_accesses f + 1\<rparr>)"
    using findBlock_of_access [OF miss.hyps(2)] by (simp add: fa_accessBlock_def)
  then show ?case by (intro fa_inv_cong [OF miss.IH]) (simp_all add: fa_count_miss_def)
next
  case (victim f xs now a b f')
  then show ?case using findVictim_ok [OF victim.IH, of now a] by auto
next
  case (invalidate f xs b)
  show ?case by (rule fa_inv_cong [OF invalidate.IH]; cases b) (simp_all add: fa_invalidateBlk_def fa_upd_def)
next
  case (contents f xs b blk)
  show ?case by (rule fa_inv_cong [OF contents.IH]) (simp_all add: fa_upd_def)
qed

text \<open>A store of four blocks, in which address 0 is filled.\<close>

definition sample_fa0 :: FALRU where
  "sample_fa0 = (case FALRU_new 65536 262144 1 of Inr f \<Rightarrow> f | Inl _ \<Rightarrow> undefined)"

definition sample_fa1 :: FALRU where
  "sample_fa1 = (case fa_findVictim 0 0 sample_fa0 of Inr (_, f) \<Rightarrow> f | Inl _ \<Rightarrow> undefined)"

definition sample_fa2 :: FALRU where
  "sample_fa2 = fa_upd 3 (\<lambda>x. x\<lparr>fb_blk := CacheBlk_new\<lparr>blk_status := BlkValid\<rparr>\<rparr>) sample_fa1"

lemma sample_fa0_new: "FALRU_new 65536 262144 1 = Inr sample_fa0"
proof -
  have "floorLog2 262144 = Inr 18" by (simp add: floorLog2_def msb_step_def Let_def)
  then have "\<exists>f. FALRU_new 65536 262144 1 = Inr f"
    by (simp add: FALRU_new_def isPowerOf2_def leastSigBit_def upt_rec fa_upd_def Let_def)
  then show ?thesis by (auto simp: sample_fa0_def)
qed

lemma sample_fa0_facts: "fa_reach sample_fa0 [0, 1, 2, 3]" "fa_blkSize sample_fa0 = 65536" "\<forall>x. fb_blk (fa_blks sample_fa0 x) = CacheBlk_new"
  "fa_tagHash sample_fa0 = (\<lambda>_. None)"
proof -
  have "fa_reach sample_fa0 [0..<262144 div 65536]" using sample_fa0_new by (rule fa_reach.new) simp_all
  then show "fa_reach sample_fa0 [0, 1, 2, 3]" by (simp add: upt_rec numeral_2_eq_2 numeral_3_eq_3)
  show "fa_blkSize sample_fa0 = 65536" "\<forall>x. fb_blk (fa_blks sample_fa0 x) = CacheBlk_new" "fa_tagHash sample_fa0 = (\<lambda>_. None)"
    using FALRU_new_ok(2,4,5) [OF sample_fa0_new] by simp_all
qed

lemma sample_fa2_facts:
  "fa_reach sample_fa2 [3, 0, 1, 2]" "fa_blkSize sample_fa2 = 65536" "fa_findBlock 0 sample_fa2 = Inr (Some 3)"
  "\<not> blk_isValid (fb_blk (fa_blks sample_fa2 2))" "blk_tag (fb_blk (fa_blks sample_fa2 2)) = 0"
  and sample_fa2_hash: "\<forall>a b. fa_tagHash sample_fa2 a = Some b \<longrightarrow> b = 3"
proof -
  obtain f where f: "fa_findVictim 0 0 sample_fa0 = Inr (3, f)" "\<forall>x. fb_blk (fa_blks f x) = fb_blk (fa_blks sample_fa0 x)"
    "fa_blkSize f = fa_blkSize sample_fa0"
    "fa_tagHash f = ((fa_tagHash sample_fa0)(blk_tag (fb_blk (fa_blks sample_fa0 3)) := None))(fa_blkAlign sample_fa0 0 \<mapsto> 3)"
    using findVictim_ok [OF fa_reach_inv [OF sample_fa0_facts(1)], of 0 0] by auto
  have f1: "f = sample_fa1" using f(1) by (simp add: sample_fa1_def)
  have "fa_reach f (to_front (length [0, 1, 2, 3 :: nat] - 1) [0, 1, 2, 3])" by (rule fa_reach.victim [OF sample_fa0_facts(1) f(1)])
  then have "fa_reach sample_fa1 [3, 0, 1, 2]" by (simp add: to_front_def f1)
  then show "fa_reach sample_fa2 [3, 0, 1, 2]" unfolding sample_fa2_def by (rule fa_reach.contents)
  show "fa_blkSize sample_fa2 = 65536" "fa_findBlock 0 sample_fa2 = Inr (Some 3)"
    "\<not> blk_isValid (fb_blk (fa_blks sample_fa2 2))" "blk_tag (fb_blk (fa_blks sample_fa2 2)) = 0"
    "\<forall>a b. fa_tagHash sample_fa2 a = Some b \<longrightarrow> b = 3"
    using f(2-4) sample_fa0_facts unfolding f1
    by (simp_all add: sample_fa2_def fa_upd_def fa_findBlock_def fa_hashLookup_def fa_blkAlign_def blk_isValid_def CacheBlk_new_def BlkValid_def
        flag_simps flags_isSet_def)
qed

section \<open>Properties\<close>

text \<open>
  C11: The fully associative store is a stack.  In every state it can reach, with its blocks in the order
  \<open>xs\<close> of their last use: following the links from head to tail finds exactly \<open>xs\<close> and the
  store's own check of the boundaries returns true; a victim is always found, and is the block
  that was not used for longest; and an access that finds the block at position \<open>m\<close> returns, moves
  it to the front, and counts a hit for exactly those tracked cache sizes that have more than \<open>m\<close>
  blocks, and a miss for the others.
\<close>

theorem falru_is_stack:
  assumes "fa_reach f xs"
  shows "dll (fa_blks f) None xs None \<and> fa_head f = hd xs \<and> fa_tail f = last xs \<and> fa_check f = Some (Inr True) \<and>
     (\<forall>now a. \<exists>f'. fa_findVictim now a f = Inr (last xs, f')) \<and>
     (\<forall>a m. m < length xs \<longrightarrow> fa_findBlock a f = Inr (Some (xs ! m)) \<longrightarrow>
        (\<exists>f'. fa_accessBlock a f = Inr (Some (xs ! m), fa_hitLatency f, fb_inCache (fa_blks f (xs ! m)), f') \<and> fa_head f' = xs ! m \<and>
           (\<forall>i \<le> fa_numCaches f. fa_hits f' i = fa_hits f i + (if m < fa_bound f i then 1 else 0) \<and>
              fa_misses f' i = fa_misses f i + (if m < fa_bound f i then 0 else 1))))"
proof -
  note inv = fa_reach_inv [OF assms]
  show ?thesis
  proof (intro conjI allI impI)
    show "dll (fa_blks f) None xs None" "fa_head f = hd xs" "fa_tail f = last xs" using fa_invD(5-7) [OF inv] .
    show "fa_check f = Some (Inr True)" by (rule check_ok [OF inv])
    show "\<exists>f'. fa_findVictim now a f = Inr (last xs, f')" for now a using findVictim_ok [OF inv] by blast
    show "\<exists>f'. fa_accessBlock a f = Inr (Some (xs ! m), fa_hitLatency f, fb_inCache (fa_blks f (xs ! m)), f') \<and> fa_head f' = xs ! m \<and>
        (\<forall>i \<le> fa_numCaches f. fa_hits f' i = fa_hits f i + (if m < fa_bound f i then 1 else 0) \<and>
           fa_misses f' i = fa_misses f i + (if m < fa_bound f i then 0 else 1))"
      if m: "m < length xs" "fa_findBlock a f = Inr (Some (xs ! m))" for a m
    proof -
      obtain f' where f': "fa_accessBlock a f = Inr (Some (xs ! m), fa_hitLatency f, fb_inCache (fa_blks f (xs ! m)), f')" "fa_inv f' (to_front m xs)"
        "\<forall>i \<le> fa_numCaches f. fa_hits f' i = fa_hits f i + (if m < fa_bound f i then 1 else 0) \<and>
           fa_misses f' i = fa_misses f i + (if m < fa_bound f i then 0 else 1)"
        using accessBlock_ok [OF inv m(2) refl m(1)] by (elim exE conjE) (rule that)
      have "fa_head f' = xs ! m" using fa_invD(6) [OF f'(2)] to_front_simps(4) [OF m(1)] by simp
      then show ?thesis using f'(1,3) by blast
    qed
  qed
qed

theorem falru_is_stack_witness:
  "fa_check sample_fa2 = Some (Inr True) \<and>
   (\<exists>l c f'. fa_accessBlock 0 sample_fa2 = Inr (Some 3, l, c, f') \<and> fa_head f' = 3 \<and> fa_hits f' 0 = fa_hits sample_fa2 0 + 1)"
proof -
  note st = falru_is_stack [OF sample_fa2_facts(1)]
  have find: "fa_findBlock 0 sample_fa2 = Inr (Some ([3, 0, 1, 2] ! 0))" using sample_fa2_facts(3) by simp
  have "\<exists>f'. fa_accessBlock 0 sample_fa2 = Inr (Some ([3, 0, 1, 2] ! 0), fa_hitLatency sample_fa2, fb_inCache (fa_blks sample_fa2 ([3, 0, 1, 2] ! 0)), f') \<and>
      fa_head f' = [3, 0, 1, 2] ! 0 \<and>
      (\<forall>i \<le> fa_numCaches sample_fa2. fa_hits f' i = fa_hits sample_fa2 i + (if 0 < fa_bound sample_fa2 i then 1 else 0) \<and>
         fa_misses f' i = fa_misses sample_fa2 i + (if 0 < fa_bound sample_fa2 i then 0 else 1))"
    using st find by blast
  then obtain f' where f': "fa_accessBlock 0 sample_fa2 = Inr (Some 3, fa_hitLatency sample_fa2, fb_inCache (fa_blks sample_fa2 3), f')" "fa_head f' = 3"
    "fa_hits f' 0 = fa_hits sample_fa2 0 + (if 0 < fa_bound sample_fa2 0 then 1 else 0)" by auto
  have "0 < fa_bound sample_fa2 0" using sample_fa2_facts(2) by (simp add: fa_bound_def)
  then show ?thesis using st f' by auto
qed

text \<open>
  C12: A victim can make a live block disappear.  If the least recently used block is not valid, and the
  tag it had is now that of another block, valid and findable, then choosing the victim for a
  different address removes the entry of the other block from the hash table: the block stays valid
  but is not found any more.
\<close>

theorem falru_loses_live_block:
  assumes "fa_reach f xs" "fa_findBlock t f = Inr (Some b)" "b \<noteq> last xs" "\<not> blk_isValid (fb_blk (fa_blks f (last xs)))"
    "blk_tag (fb_blk (fa_blks f (last xs))) = fa_blkAlign f t" "fa_blkAlign f a \<noteq> fa_blkAlign f t"
  shows "\<exists>f'. fa_findVictim now a f = Inr (last xs, f') \<and> fa_findBlock t f' = Inr None \<and>
     blk_isValid (fb_blk (fa_blks f' b)) \<and> blk_tag (fb_blk (fa_blks f' b)) = fa_blkAlign f t"
proof -
  obtain f' where f': "fa_findVictim now a f = Inr (last xs, f')" "\<forall>x. fb_blk (fa_blks f' x) = fb_blk (fa_blks f x)" "fa_blkSize f' = fa_blkSize f"
    "fa_tagHash f' = ((fa_tagHash f)(blk_tag (fb_blk (fa_blks f (last xs))) := None))(fa_blkAlign f a \<mapsto> last xs)"
    using findVictim_ok [OF fa_reach_inv [OF assms(1)], of now a] by blast
  have b: "blk_isValid (fb_blk (fa_blks f b))" "blk_tag (fb_blk (fa_blks f b)) = fa_blkAlign f t"
    using assms(2) by (auto simp: fa_findBlock_def res_simps split: option.splits if_splits)
  have al: "fa_blkAlign f' t = fa_blkAlign f t" using f'(3) by (simp add: fa_blkAlign_def)
  have "fa_findBlock t f' = Inr None" using f'(4) assms(5,6) al by (simp add: fa_findBlock_def fa_hashLookup_def)
  then show ?thesis using f'(1,2) b by auto
qed

theorem falru_loses_live_block_witness:
  "fa_findBlock 0 sample_fa2 = Inr (Some 3) \<and>
   (\<exists>f'. fa_findVictim 0 65536 sample_fa2 = Inr (2, f') \<and> fa_findBlock 0 f' = Inr None \<and> blk_isValid (fb_blk (fa_blks f' 3)))"
  using falru_loses_live_block [OF sample_fa2_facts(1,3), of 65536 0] sample_fa2_facts by (auto simp: fa_blkAlign_def)

end
