(* ===== verification/Tag_Store.thy ===== *)
theory Tag_Store
  imports LRU_Tags FA_LRU
begin

text \<open>
  What a cache relies on of its tag store, whichever it is: an access returns what a lookup finds, and
  changes what no lookup finds.  Both tag stores provide it.
\<close>

text \<open>The results of a sequence of accesses.\<close>

fun access_all :: "(Addr \<Rightarrow> 't \<Rightarrow> (nat option \<times> 't) res) \<Rightarrow> Addr list \<Rightarrow> 't \<Rightarrow> (nat option list \<times> 't) res" where
  "access_all access [] t = Inr ([], t)"
| "access_all access (a # as) t =
     bind_res (access a t) (\<lambda>(r, t). bind_res (access_all access as t) (\<lambda>(rs, t). Inr (r # rs, t)))"

locale tag_store =
  fixes find :: "Addr \<Rightarrow> 't \<Rightarrow> nat option res"
    and access :: "Addr \<Rightarrow> 't \<Rightarrow> (nat option \<times> 't) res"
    and invar :: "'t \<Rightarrow> bool"
  assumes access_find: "invar t \<Longrightarrow> find a t = Inr r \<Longrightarrow> \<exists>t'. access a t = Inr (r, t') \<and> invar t' \<and> (\<forall>x. find x t' = find x t)"
    and access_error: "invar t \<Longrightarrow> find a t = Inl e \<Longrightarrow> access a t = Inl e"
begin

lemma access_iff:
  assumes "invar t"
  shows "(\<exists>t'. access a t = Inr (r, t')) \<longleftrightarrow> find a t = Inr r"
proof
  assume "\<exists>t'. access a t = Inr (r, t')"
  then obtain t' where t': "access a t = Inr (r, t')" by blast
  show "find a t = Inr r"
  proof (cases "find a t")
    case (Inl e)
    then show ?thesis using access_error [OF assms] t' by simp
  next
    case (Inr r')
    then show ?thesis using access_find [OF assms Inr] t' by auto
  qed
qed (use access_find [OF assms] in blast)

lemma access_all_found:
  assumes "invar t" "\<forall>a \<in> set as. find a t = Inr (g a)"
  shows "\<exists>t'. access_all access as t = Inr (map g as, t') \<and> invar t' \<and> (\<forall>x. find x t' = find x t)"
  using assms
proof (induction as arbitrary: t)
  case (Cons a as)
  obtain t1 where t1: "access a t = Inr (g a, t1)" "invar t1" "\<forall>x. find x t1 = find x t" using access_find [OF Cons.prems(1), of a] Cons.prems(2) by auto
  obtain t2 where t2: "access_all access as t1 = Inr (map g as, t2)" "invar t2" "\<forall>x. find x t2 = find x t1"
    using Cons.IH [OF t1(2)] Cons.prems(2) t1(3) by auto
  show ?case using t1 t2 by auto
qed simp

end

section \<open>The stores\<close>

definition lru_find :: "Addr \<Rightarrow> LRU \<Rightarrow> nat option res" where
  "lru_find a l = Inr (lru_findBlock l a)"

definition lru_access :: "Tick \<Rightarrow> Addr \<Rightarrow> LRU \<Rightarrow> (nat option \<times> LRU) res" where
  "lru_access now a l = bind_res (accessBlock now a l) (\<lambda>(r, _, l). Inr (r, l))"

interpretation set_assoc: tag_store lru_find "lru_access now" lru_inv for now
proof
  fix t a r assume t: "lru_inv t" and r: "lru_find a t = Inr r"
  show "\<exists>t'. lru_access now a t = Inr (r, t') \<and> lru_inv t' \<and> (\<forall>x. lru_find x t' = lru_find x t)"
  proof (cases r)
    case None
    then show ?thesis using r t accessBlock_miss [of t a now] by (simp add: lru_find_def lru_access_def)
  next
    case (Some i)
    then have "lru_findBlock t a = Some i" using r by (simp add: lru_find_def)
    then obtain lat l' where l': "accessBlock now a t = Inr (Some i, lat, l')" "lru_inv l'" "same_geom t l'"
      "\<And>j. j < length (lru_blks t) \<Longrightarrow> tagv l' j = tagv t j"
      using accessBlock_hit [OF t, where now = now] by metis
    have "lru_findBlock l' x = lru_findBlock t x" for x by (rule find_same [OF t l'(2-4)])
    then show ?thesis using l'(1,2) Some by (simp add: lru_find_def lru_access_def)
  qed
qed (simp add: lru_find_def)

text \<open>For the fully associative store, also the hash table leads to blocks of the store.\<close>

definition fa_invar :: "FALRU \<Rightarrow> bool" where
  "fa_invar f \<longleftrightarrow> (\<exists>xs. fa_inv f xs \<and> (\<forall>a b. fa_tagHash f a = Some b \<longrightarrow> b \<in> set xs))"

definition fa_access :: "Addr \<Rightarrow> FALRU \<Rightarrow> (nat option \<times> FALRU) res" where
  "fa_access a f = bind_res (fa_accessBlock a f) (\<lambda>(r, _, _, f). Inr (r, f))"

lemma access_keeps_contents:
  assumes "fa_inv f xs" "fa_accessBlock a f = Inr (r, l, c, f')" "\<forall>b. r = Some b \<longrightarrow> b \<in> set xs"
  shows "fa_tagHash f' = fa_tagHash f \<and> fa_blkSize f' = fa_blkSize f \<and> (\<forall>x. fb_blk (fa_blks f' x) = fb_blk (fa_blks f x))"
proof (cases r)
  case None
  then show ?thesis using assms(2) findBlock_of_access [OF assms(2)] by (auto simp: fa_accessBlock_def fa_count_miss_def Let_def)
next
  case (Some b)
  define g where "g = fa_count_hit (fb_inCache (fa_blks f b)) (f\<lparr>fa_accesses := fa_accesses f + 1\<rparr>)"
  have g: "fa_tagHash g = fa_tagHash f" "fa_blkSize g = fa_blkSize f" "fa_blks g = fa_blks f" by (simp_all add: g_def fa_count_hit_def)
  have ginv: "fa_inv g xs" by (rule fa_inv_cong [OF assms(1)]) (simp_all add: g_def fa_count_hit_def)
  have or: "f' = g \<or> fa_moveToHead b g = Inr f'"
    using assms(2) findBlock_of_access [OF assms(2)] Some by (auto simp: fa_accessBlock_def g_def Let_def res_simps split: if_splits)
  obtain m where m: "m < length xs" "b = xs ! m" using assms(3) Some by (metis in_set_conv_nth)
  obtain h where h: "fa_moveToHead b g = Inr h" "\<forall>x. fb_blk (fa_blks h x) = fb_blk (fa_blks g x)"
    "h = g\<lparr>fa_cacheBoundaries := fa_cacheBoundaries h, fa_blks := fa_blks h, fa_head := fa_head h, fa_tail := fa_tail h\<rparr>"
    using moveToHead_ok [OF ginv m(1)] m(2) by auto
  have "fa_tagHash h = fa_tagHash g" "fa_blkSize h = fa_blkSize g" by (subst h(3), simp)+
  then show ?thesis using or h(1,2) g by auto
qed

interpretation fully_assoc: tag_store fa_findBlock fa_access fa_invar
proof
  fix t a r assume t: "fa_invar t" and r: "fa_findBlock a t = Inr r"
  obtain xs where xs: "fa_inv t xs" "\<forall>a b. fa_tagHash t a = Some b \<longrightarrow> b \<in> set xs" using t by (auto simp: fa_invar_def)
  have rb: "\<forall>b. r = Some b \<longrightarrow> b \<in> set xs"
    using r xs(2) by (auto simp: fa_findBlock_def fa_hashLookup_def res_simps split: option.splits if_splits)
  obtain l c t' ys where acc: "fa_accessBlock a t = Inr (r, l, c, t')" "fa_inv t' ys" "set ys = set xs"
  proof (cases r)
    case None
    let ?t = "fa_count_miss (t\<lparr>fa_accesses := fa_accesses t + 1\<rparr>)"
    have "fa_inv ?t xs" by (rule fa_inv_cong [OF xs(1)]) (simp_all add: fa_count_miss_def)
    then show thesis using that [of _ _ ?t xs] r None by (simp add: fa_accessBlock_def)
  next
    case (Some b)
    then obtain m where m: "m < length xs" "b = xs ! m" using rb by (metis in_set_conv_nth)
    then show thesis using accessBlock_ok [OF xs(1) _ m(2,1), of a] r Some that to_front_simps(2) [OF m(1)] by blast
  qed
  note keep = access_keeps_contents [OF xs(1) acc(1) rb]
  have "fa_blkAlign t' = fa_blkAlign t" using keep by (simp add: fun_eq_iff fa_blkAlign_def)
  then have "\<forall>x. fa_findBlock x t' = fa_findBlock x t" using keep by (auto simp: fa_findBlock_def fa_hashLookup_def split: option.splits)
  moreover have "fa_invar t'" using acc(2,3) keep xs(2) by (auto simp: fa_invar_def)
  ultimately show "\<exists>t'. fa_access a t = Inr (r, t') \<and> fa_invar t' \<and> (\<forall>x. fa_findBlock x t' = fa_findBlock x t)"
    using acc(1) by (auto simp: fa_access_def)
next
  fix t a e assume "fa_findBlock a t = Inl e"
  then show "fa_access a t = Inl e" by (simp add: fa_access_def fa_accessBlock_def)
qed

section \<open>Property\<close>

text \<open>
  Accesses do not disturb each other.  In both tag stores any sequence of accesses returns, each
  access gives the block that a lookup finds before the first of them, and afterwards every lookup
  finds what it found before: only the order of replacement changes.  For the set-associative store
  this holds for all addresses, for the fully associative one for the addresses whose blocks
  have the tag under which the hash table knows them, which the store asserts.
\<close>

theorem accesses_return_contents:
  "(lru_inv l \<longrightarrow> (\<exists>l'. access_all (lru_access now) as l = Inr (map (lru_findBlock l) as, l') \<and> (\<forall>x. lru_findBlock l' x = lru_findBlock l x))) \<and>
   (fa_invar f \<and> (\<forall>a \<in> set as. fa_findBlock a f = Inr (g a)) \<longrightarrow>
      (\<exists>f'. access_all fa_access as f = Inr (map g as, f') \<and> (\<forall>x. fa_findBlock x f' = fa_findBlock x f)))"
  using set_assoc.access_all_found [of l as "lru_findBlock l" now] fully_assoc.access_all_found [of f as g] by (auto simp: lru_find_def)

theorem accesses_return_contents_witness:
  "(\<exists>l'. access_all (lru_access 0) [0, 8] demo_lru = Inr (map (lru_findBlock demo_lru) [0, 8], l')) \<and>
   (\<exists>f'. access_all fa_access [0, 8] sample_fa2 = Inr ([Some 3, Some 3], f') \<and> fa_findBlock 0 f' = Inr (Some 3))"
proof -
  have al: "fa_blkAlign sample_fa2 8 = fa_blkAlign sample_fa2 0" using sample_fa2_facts(2) by (simp add: fa_blkAlign_def)
  then have "fa_findBlock 8 sample_fa2 = fa_findBlock 0 sample_fa2" by (auto simp: fa_findBlock_def split: option.splits)
  then have find: "\<forall>a \<in> set [0, 8]. fa_findBlock a sample_fa2 = Inr ((\<lambda>_. Some 3) a)" using sample_fa2_facts(3) by simp
  have "fa_invar sample_fa2"
    unfolding fa_invar_def using fa_reach_inv [OF sample_fa2_facts(1)] sample_fa2_hash by (intro exI [of _ "[3, 0, 1, 2]"]) auto
  then show ?thesis using accesses_return_contents [of demo_lru 0 "[0, 8]" sample_fa2 "\<lambda>_. Some 3"] demo_lru_inv find sample_fa2_facts(3) by auto
qed

end
