(* ===== verification/Branch_Pred.thy ===== *)
theory Branch_Pred
  imports Bitmath
begin

text \<open>
  The parts of the branch predictor of the out-of-order processor: the saturating counter
  \<open>cpu/o3/sat_counter.hh\<close>, the local predictor \<open>cpu/pred/2bit_local.{hh,cc}\<close>, the tournament
  predictor \<open>cpu/pred/tournament.{hh,cc}\<close>, the branch target buffer \<open>cpu/pred/btb.{hh,cc}\<close> and the
  return address stack \<open>cpu/pred/ras.{hh,cc}\<close>.

  Parameters and masks of type \<open>unsigned\<close> are 32-bit words.  A shift by the width of its operand or more, the
  overflow of an \<open>int\<close> and an index outside of a vector are undefined.  The history object of a prediction
  is owned by one record at a time, so it is a value; a null pointer is \<open>None\<close>.
\<close>

section \<open>Saturating counters\<close>

text \<open>The expression \<open>(1 << bits) - 1\<close>, an \<open>int\<close>.\<close>

definition ones :: "32 word \<Rightarrow> (32 word) res" where
  "ones bits = guard_res Undefined (bits < 31) (Inr (push_bit (unat bits) 1 - 1))"

record SatCounter =
  sc_initialVal :: "8 word"
  sc_maxVal :: "8 word"
  sc_counter :: "8 word"

text \<open>The default constructor leaves \<open>maxVal\<close> as it is in memory; the third one does so with \<open>initialVal\<close>,
  which it initialises with itself.\<close>

definition SatCounter_default :: "8 word \<Rightarrow> SatCounter" where
  "SatCounter_default mem = \<lparr>sc_initialVal = 0, sc_maxVal = mem, sc_counter = 0\<rparr>"

definition SatCounter_bits :: "32 word \<Rightarrow> SatCounter res" where
  "SatCounter_bits bits = bind_res (ones bits) (\<lambda>m. Inr \<lparr>sc_initialVal = 0, sc_maxVal = ucast m, sc_counter = 0\<rparr>)"

definition SatCounter_init :: "8 word \<Rightarrow> 32 word \<Rightarrow> 8 word \<Rightarrow> SatCounter res" where
  "SatCounter_init mem bits initial_val =
     bind_res (ones bits) (\<lambda>m.
       guard_res Fatal (\<not> initial_val > ucast m)
         (Inr \<lparr>sc_initialVal = mem, sc_maxVal = ucast m, sc_counter = initial_val\<rparr>))"

definition setBits :: "32 word \<Rightarrow> SatCounter \<Rightarrow> SatCounter res" where
  "setBits bits c = bind_res (ones bits) (\<lambda>m. Inr (c\<lparr>sc_maxVal := ucast m\<rparr>))"

definition sc_reset :: "SatCounter \<Rightarrow> SatCounter" where
  "sc_reset c = c\<lparr>sc_counter := sc_initialVal c\<rparr>"

definition sc_increment :: "SatCounter \<Rightarrow> SatCounter" where
  "sc_increment c = (if sc_counter c < sc_maxVal c then c\<lparr>sc_counter := sc_counter c + 1\<rparr> else c)"

definition sc_decrement :: "SatCounter \<Rightarrow> SatCounter" where
  "sc_decrement c = (if sc_counter c > 0 then c\<lparr>sc_counter := sc_counter c - 1\<rparr> else c)"

definition sc_read :: "SatCounter \<Rightarrow> 8 word" where
  "sc_read c = sc_counter c"

text \<open>The loop of the constructors over a vector of counters, and a step of one counter of it.\<close>

fun setBits_all :: "32 word \<Rightarrow> SatCounter list \<Rightarrow> SatCounter list res" where
  "setBits_all bits [] = Inr []"
| "setBits_all bits (c # cs) = bind_res (setBits bits c) (\<lambda>c. bind_res (setBits_all bits cs) (\<lambda>cs. Inr (c # cs)))"

definition sc_step :: "bool \<Rightarrow> SatCounter \<Rightarrow> SatCounter" where
  "sc_step taken c = (if taken then sc_increment c else sc_decrement c)"

text \<open>A new vector of counters: the memory of \<open>maxVal\<close> is overwritten before it is read.\<close>

definition new_ctrs :: "32 word \<Rightarrow> 32 word \<Rightarrow> SatCounter list res" where
  "new_ctrs n bits = setBits_all bits (replicate (unat n) (SatCounter_default 0))"

section \<open>Local predictor\<close>

record BPHistory =
  bh_globalHistory :: "32 word"
  bh_localPredTaken :: bool
  bh_globalPredTaken :: bool
  bh_globalUsed :: "bool option"

record LocalBP =
  lb_localCtrs :: "SatCounter list"
  lb_localPredictorSize :: "32 word"
  lb_localPredictorSets :: "32 word"
  lb_localCtrBits :: "32 word"
  lb_instShiftAmt :: "32 word"
  lb_indexMask :: "32 word"

definition LocalBP_new :: "32 word \<Rightarrow> 32 word \<Rightarrow> 32 word \<Rightarrow> LocalBP res" where
  "LocalBP_new localPredictorSize localCtrBits instShiftAmt =
     guard_res Fatal (isPowerOf2 (ucast localPredictorSize))
     (guard_res Undefined (localCtrBits \<noteq> 0)
     (let localPredictorSets = localPredictorSize div localCtrBits
      in guard_res Fatal (isPowerOf2 (ucast localPredictorSets))
         (bind_res (new_ctrs localPredictorSets localCtrBits) (\<lambda>cs.
          Inr \<lparr>lb_localCtrs = cs, lb_localPredictorSize = localPredictorSize, lb_localPredictorSets = localPredictorSets,
               lb_localCtrBits = localCtrBits, lb_instShiftAmt = instShiftAmt, lb_indexMask = localPredictorSets - 1\<rparr>))))"

definition lb_reset :: "LocalBP \<Rightarrow> LocalBP res" where
  "lb_reset p =
     (let n = unat (lb_localPredictorSets p)
      in guard_res Undefined (n \<le> length (lb_localCtrs p))
           (Inr (p\<lparr>lb_localCtrs := map sc_reset (take n (lb_localCtrs p)) @ drop n (lb_localCtrs p)\<rparr>)))"

text \<open>The address without the bits below an instruction, masked: the index into a table.\<close>

definition pc_index :: "32 word \<Rightarrow> 32 word \<Rightarrow> Addr \<Rightarrow> (32 word) res" where
  "pc_index shamt msk addr = guard_res Undefined (shamt < 64) (Inr (ucast (drop_bit (unat shamt) addr AND ucast msk)))"

definition getLocalIndex :: "LocalBP \<Rightarrow> Addr \<Rightarrow> (32 word) res" where
  "getLocalIndex p addr = pc_index (lb_instShiftAmt p) (lb_indexMask p) addr"

definition getPrediction :: "LocalBP \<Rightarrow> 8 word \<Rightarrow> bool res" where
  "getPrediction p count =
     guard_res Undefined (lb_localCtrBits p - 1 < 32) (Inr (drop_bit (unat (lb_localCtrBits p - 1)) count \<noteq> 0))"

definition lb_lookup :: "Addr \<Rightarrow> BPHistory option \<Rightarrow> LocalBP \<Rightarrow> (bool \<times> BPHistory option \<times> LocalBP) res" where
  "lb_lookup branch_addr bp_history p =
     bind_res (getLocalIndex p branch_addr) (\<lambda>i.
     guard_res Undefined (unat i < length (lb_localCtrs p))
     (bind_res (getPrediction p (sc_read (lb_localCtrs p ! unat i))) (\<lambda>taken.
      Inr (taken, bp_history, p))))"

definition lb_update :: "Addr \<Rightarrow> bool \<Rightarrow> BPHistory option \<Rightarrow> LocalBP \<Rightarrow> LocalBP res" where
  "lb_update branch_addr taken bp_history p =
     guard_res AssertFail (bp_history = None)
     (bind_res (getLocalIndex p branch_addr) (\<lambda>i.
      guard_res Undefined (unat i < length (lb_localCtrs p))
        (Inr (p\<lparr>lb_localCtrs := (lb_localCtrs p)[unat i := sc_step taken (lb_localCtrs p ! unat i)]\<rparr>))))"

definition lb_squash :: "BPHistory option \<Rightarrow> LocalBP \<Rightarrow> LocalBP res" where
  "lb_squash bp_history p = guard_res AssertFail (bp_history = None) (Inr p)"

section \<open>Tournament predictor\<close>

record TournamentBP =
  tb_localCtrs :: "SatCounter list"
  tb_localPredictorSize :: "32 word"
  tb_localPredictorMask :: "32 word"
  tb_localCtrBits :: "32 word"
  tb_localHistoryTable :: "(32 word) list"
  tb_localHistoryTableSize :: "32 word"
  tb_localHistoryBits :: "32 word"
  tb_localHistoryMask :: "32 word"
  tb_globalCtrs :: "SatCounter list"
  tb_globalPredictorSize :: "32 word"
  tb_globalCtrBits :: "32 word"
  tb_globalHistory :: "32 word"
  tb_globalHistoryBits :: "32 word"
  tb_globalHistoryMask :: "32 word"
  tb_choiceCtrs :: "SatCounter list"
  tb_choicePredictorSize :: "32 word"
  tb_choiceCtrBits :: "32 word"
  tb_instShiftAmt :: "32 word"
  tb_threshold :: "32 word"

text \<open>A loop \<open>for (int i = 0; i < n; ++i)\<close> over an unsigned bound.\<close>

definition int_loop :: "32 word \<Rightarrow> 'a res \<Rightarrow> 'a res" where
  "int_loop n k = guard_res Undefined (n < 0x80000000) k"

text \<open>The arguments are in the order of the definition in \<open>tournament.cc\<close>.\<close>

definition TournamentBP_new :: "32 word \<Rightarrow> 32 word \<Rightarrow> 32 word \<Rightarrow> 32 word \<Rightarrow> 32 word \<Rightarrow> 32 word \<Rightarrow> 32 word \<Rightarrow> 32 word \<Rightarrow> 32 word \<Rightarrow> 32 word \<Rightarrow> TournamentBP res" where
  "TournamentBP_new localPredictorSize localCtrBits localHistoryTableSize localHistoryBits
     globalPredictorSize globalCtrBits globalHistoryBits choicePredictorSize_arg choiceCtrBits instShiftAmt =
     (let choicePredictorSize = globalPredictorSize in
      guard_res Fatal (isPowerOf2 (ucast localPredictorSize))
      (int_loop localPredictorSize
      (bind_res (new_ctrs localPredictorSize localCtrBits) (\<lambda>localCtrs.
       bind_res (floorPow2 (ucast localPredictorSize)) (\<lambda>lp.
       guard_res Fatal (isPowerOf2 (ucast localHistoryTableSize))
       (int_loop localHistoryTableSize
       (bind_res (ones localHistoryBits) (\<lambda>localHistoryMask.
        guard_res Fatal (isPowerOf2 (ucast globalPredictorSize))
        (int_loop globalPredictorSize
        (bind_res (new_ctrs globalPredictorSize globalCtrBits) (\<lambda>globalCtrs.
         bind_res (ones globalHistoryBits) (\<lambda>globalHistoryMask.
         guard_res Fatal (isPowerOf2 (ucast choicePredictorSize))
         (bind_res (new_ctrs choicePredictorSize choiceCtrBits) (\<lambda>choiceCtrs.
          bind_res (ones (localCtrBits - 1)) (\<lambda>threshold.
          Inr \<lparr>tb_localCtrs = localCtrs, tb_localPredictorSize = localPredictorSize, tb_localPredictorMask = ucast lp - 1,
               tb_localCtrBits = localCtrBits, tb_localHistoryTable = replicate (unat localHistoryTableSize) 0,
               tb_localHistoryTableSize = localHistoryTableSize, tb_localHistoryBits = localHistoryBits,
               tb_localHistoryMask = localHistoryMask, tb_globalCtrs = globalCtrs, tb_globalPredictorSize = globalPredictorSize,
               tb_globalCtrBits = globalCtrBits, tb_globalHistory = 0, tb_globalHistoryBits = globalHistoryBits,
               tb_globalHistoryMask = globalHistoryMask, tb_choiceCtrs = choiceCtrs, tb_choicePredictorSize = choicePredictorSize,
               tb_choiceCtrBits = choiceCtrBits, tb_instShiftAmt = instShiftAmt, tb_threshold = threshold\<rparr>)))))))))))))))"

definition calcLocHistIdx :: "TournamentBP \<Rightarrow> Addr \<Rightarrow> (32 word) res" where
  "calcLocHistIdx p branch_addr = pc_index (tb_instShiftAmt p) (tb_localHistoryTableSize p - 1) branch_addr"

definition updateGlobalHistTaken :: "TournamentBP \<Rightarrow> TournamentBP" where
  "updateGlobalHistTaken p = p\<lparr>tb_globalHistory := (push_bit 1 (tb_globalHistory p) OR 1) AND tb_globalHistoryMask p\<rparr>"

definition updateGlobalHistNotTaken :: "TournamentBP \<Rightarrow> TournamentBP" where
  "updateGlobalHistNotTaken p = p\<lparr>tb_globalHistory := push_bit 1 (tb_globalHistory p) AND tb_globalHistoryMask p\<rparr>"

definition updateLocalHistTaken :: "nat \<Rightarrow> TournamentBP \<Rightarrow> TournamentBP" where
  "updateLocalHistTaken i p = p\<lparr>tb_localHistoryTable := (tb_localHistoryTable p)[i := push_bit 1 (tb_localHistoryTable p ! i) OR 1]\<rparr>"

definition updateLocalHistNotTaken :: "nat \<Rightarrow> TournamentBP \<Rightarrow> TournamentBP" where
  "updateLocalHistNotTaken i p = p\<lparr>tb_localHistoryTable := (tb_localHistoryTable p)[i := push_bit 1 (tb_localHistoryTable p ! i)]\<rparr>"

definition tb_readGlobalHist :: "TournamentBP \<Rightarrow> 32 word" where
  "tb_readGlobalHist p = tb_globalHistory p"

definition tb_predicts :: "TournamentBP \<Rightarrow> SatCounter \<Rightarrow> bool" where
  "tb_predicts p c \<longleftrightarrow> ucast (sc_read c) > tb_threshold p"

definition tb_lookup :: "Addr \<Rightarrow> TournamentBP \<Rightarrow> (bool \<times> BPHistory option \<times> TournamentBP) res" where
  "tb_lookup branch_addr p =
     bind_res (calcLocHistIdx p branch_addr) (\<lambda>local_history_idx.
     guard_res Undefined (unat local_history_idx < length (tb_localHistoryTable p))
     (let local_predictor_idx = tb_localHistoryTable p ! unat local_history_idx AND tb_localPredictorMask p;
          gh = tb_globalHistory p
      in guard_res Undefined (unat local_predictor_idx < length (tb_localCtrs p) \<and> unat gh < length (tb_globalCtrs p) \<and> unat gh < length (tb_choiceCtrs p))
         (let local_prediction = tb_predicts p (tb_localCtrs p ! unat local_predictor_idx);
              global_prediction = tb_predicts p (tb_globalCtrs p ! unat gh);
              choice_prediction = tb_predicts p (tb_choiceCtrs p ! unat gh);
              history = \<lparr>bh_globalHistory = gh, bh_localPredTaken = local_prediction, bh_globalPredTaken = global_prediction,
                         bh_globalUsed = Some choice_prediction\<rparr>
          in guard_res AssertFail (gh < tb_globalPredictorSize p \<and> local_history_idx < tb_localHistoryTableSize p \<and> local_predictor_idx < tb_localPredictorSize p)
             (if choice_prediction
              then (if global_prediction then Inr (True, Some history, updateGlobalHistTaken p)
                    else Inr (False, Some history, updateGlobalHistNotTaken p))
              else (if local_prediction then Inr (True, Some history, updateGlobalHistTaken p)
                    else Inr (False, Some history, updateGlobalHistNotTaken p))))))"

definition tb_uncondBr :: "TournamentBP \<Rightarrow> BPHistory option \<times> TournamentBP" where
  "tb_uncondBr p =
     (Some \<lparr>bh_globalHistory = tb_globalHistory p, bh_localPredTaken = True, bh_globalPredTaken = True, bh_globalUsed = None\<rparr>,
      updateGlobalHistTaken p)"

text \<open>The choice between the predictors is trained when they disagreed.\<close>

definition tb_train_choice :: "bool \<Rightarrow> BPHistory option \<Rightarrow> TournamentBP \<Rightarrow> TournamentBP res" where
  "tb_train_choice taken bp_history p =
     (case bp_history of
        None \<Rightarrow> Inr p
      | Some history \<Rightarrow>
          if bh_localPredTaken history \<noteq> bh_globalPredTaken history
          then guard_res Undefined (unat (tb_globalHistory p) < length (tb_choiceCtrs p))
            (let g = unat (tb_globalHistory p)
             in if bh_localPredTaken history = taken
                then Inr (p\<lparr>tb_choiceCtrs := (tb_choiceCtrs p)[g := sc_decrement (tb_choiceCtrs p ! g)]\<rparr>)
                else if bh_globalPredTaken history = taken
                then Inr (p\<lparr>tb_choiceCtrs := (tb_choiceCtrs p)[g := sc_increment (tb_choiceCtrs p ! g)]\<rparr>)
                else Inr p)
          else Inr p)"

definition tb_update :: "Addr \<Rightarrow> bool \<Rightarrow> BPHistory option \<Rightarrow> TournamentBP \<Rightarrow> TournamentBP res" where
  "tb_update branch_addr taken bp_history p =
     bind_res (calcLocHistIdx p branch_addr) (\<lambda>local_history_idx.
     guard_res Undefined (unat local_history_idx < length (tb_localHistoryTable p))
     (let lh = unat local_history_idx;
          local_predictor_idx = tb_localHistoryTable p ! lh AND tb_localPredictorMask p;
          li = unat local_predictor_idx
      in bind_res (tb_train_choice taken bp_history p) (\<lambda>p.
         let g = unat (tb_globalHistory p) in
         guard_res AssertFail (tb_globalHistory p < tb_globalPredictorSize p \<and> local_history_idx < tb_localHistoryTableSize p \<and> local_predictor_idx < tb_localPredictorSize p)
         (guard_res Undefined (li < length (tb_localCtrs p) \<and> g < length (tb_globalCtrs p))
           (if taken
            then Inr (updateLocalHistTaken lh (p\<lparr>tb_localCtrs := (tb_localCtrs p)[li := sc_increment (tb_localCtrs p ! li)],
                                                 tb_globalCtrs := (tb_globalCtrs p)[g := sc_increment (tb_globalCtrs p ! g)]\<rparr>))
            else Inr (updateLocalHistNotTaken lh (p\<lparr>tb_localCtrs := (tb_localCtrs p)[li := sc_decrement (tb_localCtrs p ! li)],
                                                    tb_globalCtrs := (tb_globalCtrs p)[g := sc_decrement (tb_globalCtrs p ! g)]\<rparr>)))))))"

definition tb_squash :: "BPHistory option \<Rightarrow> TournamentBP \<Rightarrow> TournamentBP res" where
  "tb_squash bp_history p =
     (case bp_history of None \<Rightarrow> Inl Undefined | Some history \<Rightarrow> Inr (p\<lparr>tb_globalHistory := bh_globalHistory history\<rparr>))"

section \<open>Branch target buffer\<close>

text \<open>The thread of an entry is not initialised by the constructor.\<close>

record BTBEntry =
  be_tag :: Addr
  be_target :: Addr
  be_tid :: "nat option"
  be_valid :: bool

record DefaultBTB =
  btb_table :: "BTBEntry list"
  btb_numEntries :: "32 word"
  btb_idxMask :: "32 word"
  btb_tagBits :: "32 word"
  btb_tagMask :: "32 word"
  btb_instShiftAmt :: "32 word"
  btb_tagShiftAmt :: "32 word"

definition DefaultBTB_new :: "32 word \<Rightarrow> 32 word \<Rightarrow> 32 word \<Rightarrow> DefaultBTB res" where
  "DefaultBTB_new numEntries tagBits instShiftAmt =
     guard_res Fatal (isPowerOf2 (ucast numEntries))
     (bind_res (ones tagBits) (\<lambda>tagMask.
      bind_res (floorLog2 (ucast numEntries)) (\<lambda>l.
      Inr \<lparr>btb_table = replicate (unat numEntries) \<lparr>be_tag = 0, be_target = 0, be_tid = None, be_valid = False\<rparr>,
           btb_numEntries = numEntries, btb_idxMask = numEntries - 1, btb_tagBits = tagBits, btb_tagMask = tagMask,
           btb_instShiftAmt = instShiftAmt, btb_tagShiftAmt = instShiftAmt + of_nat l\<rparr>)))"

definition btb_reset :: "DefaultBTB \<Rightarrow> DefaultBTB res" where
  "btb_reset b =
     (let n = unat (btb_numEntries b)
      in guard_res Undefined (n \<le> length (btb_table b))
           (Inr (b\<lparr>btb_table := map (\<lambda>e. e\<lparr>be_valid := False\<rparr>) (take n (btb_table b)) @ drop n (btb_table b)\<rparr>)))"

definition btb_getIndex :: "DefaultBTB \<Rightarrow> Addr \<Rightarrow> (32 word) res" where
  "btb_getIndex b inst_PC = pc_index (btb_instShiftAmt b) (btb_idxMask b) inst_PC"

definition btb_getTag :: "DefaultBTB \<Rightarrow> Addr \<Rightarrow> Addr res" where
  "btb_getTag b inst_PC =
     guard_res Undefined (btb_tagShiftAmt b < 64) (Inr (drop_bit (unat (btb_tagShiftAmt b)) inst_PC AND ucast (btb_tagMask b)))"

text \<open>The entry of a branch if it is valid for it, which \<open>valid\<close> and \<open>lookup\<close> both compute.\<close>

definition btb_entry :: "Addr \<Rightarrow> nat \<Rightarrow> DefaultBTB \<Rightarrow> BTBEntry option res" where
  "btb_entry inst_PC tid b =
     bind_res (btb_getIndex b inst_PC) (\<lambda>i.
     bind_res (btb_getTag b inst_PC) (\<lambda>tag.
     guard_res AssertFail (i < btb_numEntries b)
     (guard_res Undefined (unat i < length (btb_table b))
     (let e = btb_table b ! unat i
      in Inr (if be_valid e \<and> tag = be_tag e \<and> be_tid e = Some tid then Some e else None)))))"

definition btb_valid :: "Addr \<Rightarrow> nat \<Rightarrow> DefaultBTB \<Rightarrow> bool res" where
  "btb_valid inst_PC tid b = bind_res (btb_entry inst_PC tid b) (\<lambda>e. Inr (e \<noteq> None))"

definition btb_lookup :: "Addr \<Rightarrow> nat \<Rightarrow> DefaultBTB \<Rightarrow> Addr res" where
  "btb_lookup inst_PC tid b =
     bind_res (btb_entry inst_PC tid b) (\<lambda>e. Inr (case e of None \<Rightarrow> 0 | Some e \<Rightarrow> be_target e))"

definition btb_update :: "Addr \<Rightarrow> Addr \<Rightarrow> nat \<Rightarrow> DefaultBTB \<Rightarrow> DefaultBTB res" where
  "btb_update inst_PC target tid b =
     bind_res (btb_getIndex b inst_PC) (\<lambda>i.
     guard_res AssertFail (i < btb_numEntries b)
     (guard_res Undefined (unat i < length (btb_table b))
     (bind_res (btb_getTag b inst_PC) (\<lambda>tag.
      Inr (b\<lparr>btb_table := (btb_table b)[unat i := \<lparr>be_tag = tag, be_target = target, be_tid = Some tid, be_valid = True\<rparr>]\<rparr>)))))"

section \<open>Return address stack\<close>

text \<open>The three counters are below \<open>2 ^ 32\<close>; a decrement wraps.\<close>

record ReturnAddrStack =
  ras_addrStack :: "Addr list"
  ras_numEntries :: nat
  ras_usedEntries :: nat
  ras_tos :: nat

definition ras_init :: "nat \<Rightarrow> ReturnAddrStack" where
  "ras_init numEntries = \<lparr>ras_addrStack = replicate numEntries 0, ras_numEntries = numEntries, ras_usedEntries = 0, ras_tos = 0\<rparr>"

definition ras_reset :: "ReturnAddrStack \<Rightarrow> ReturnAddrStack res" where
  "ras_reset r =
     (let n = ras_numEntries r
      in guard_res Undefined (n \<le> length (ras_addrStack r))
           (Inr (r\<lparr>ras_usedEntries := 0, ras_tos := 0, ras_addrStack := replicate n 0 @ drop n (ras_addrStack r)\<rparr>)))"

definition ras_top :: "ReturnAddrStack \<Rightarrow> Addr res" where
  "ras_top r = guard_res Undefined (ras_tos r < length (ras_addrStack r)) (Inr (ras_addrStack r ! ras_tos r))"

definition ras_topIdx :: "ReturnAddrStack \<Rightarrow> nat" where
  "ras_topIdx r = ras_tos r"

definition incrTos :: "ReturnAddrStack \<Rightarrow> ReturnAddrStack" where
  "incrTos r = (let t = (ras_tos r + 1) mod 2 ^ 32 in r\<lparr>ras_tos := (if t = ras_numEntries r then 0 else t)\<rparr>)"

definition decrTos :: "ReturnAddrStack \<Rightarrow> ReturnAddrStack" where
  "decrTos r = r\<lparr>ras_tos := (if ras_tos r = 0 then (ras_numEntries r + (2 ^ 32 - 1)) mod 2 ^ 32 else ras_tos r - 1)\<rparr>"

definition ras_empty :: "ReturnAddrStack \<Rightarrow> bool" where
  "ras_empty r \<longleftrightarrow> ras_usedEntries r = 0"

definition ras_full :: "ReturnAddrStack \<Rightarrow> bool" where
  "ras_full r \<longleftrightarrow> ras_usedEntries r = ras_numEntries r"

definition ras_push :: "Addr \<Rightarrow> ReturnAddrStack \<Rightarrow> ReturnAddrStack res" where
  "ras_push return_addr r =
     (let r = incrTos r
      in guard_res Undefined (ras_tos r < length (ras_addrStack r))
         (let r = r\<lparr>ras_addrStack := (ras_addrStack r)[ras_tos r := return_addr]\<rparr>
          in Inr (if ras_usedEntries r \<noteq> ras_numEntries r then r\<lparr>ras_usedEntries := ras_usedEntries r + 1\<rparr> else r)))"

definition ras_pop :: "ReturnAddrStack \<Rightarrow> ReturnAddrStack" where
  "ras_pop r = decrTos (if ras_usedEntries r > 0 then r\<lparr>ras_usedEntries := ras_usedEntries r - 1\<rparr> else r)"

definition ras_restore :: "nat \<Rightarrow> Addr \<Rightarrow> ReturnAddrStack \<Rightarrow> ReturnAddrStack res" where
  "ras_restore top_entry_idx restored_target r =
     (let r = r\<lparr>ras_tos := top_entry_idx\<rparr>
      in guard_res Undefined (ras_tos r < length (ras_addrStack r))
           (Inr (r\<lparr>ras_addrStack := (ras_addrStack r)[ras_tos r := restored_target]\<rparr>)))"

section \<open>Counters stay in their range\<close>

definition sc_ok :: "nat \<Rightarrow> SatCounter \<Rightarrow> bool" where
  "sc_ok m c \<longleftrightarrow> unat (sc_maxVal c) = m \<and> unat (sc_counter c) \<le> m"

lemma unat_incr: "a < (b :: 'a::len word) \<Longrightarrow> unat (a + 1) = unat a + 1"
  by unat_arith

lemma unat_decr: "0 < (a :: 'a::len word) \<Longrightarrow> unat (a - 1) = unat a - 1"
  by (metis unat_minus_one word_less_nat_alt unat_0 less_irrefl)

lemma sc_step_ok:
  assumes "sc_ok m c"
  shows "sc_ok m (sc_step t c)" "unat (sc_counter (sc_step t c)) = (if t then min m (unat (sc_counter c) + 1) else unat (sc_counter c) - 1)"
  using assms unat_incr [of "sc_counter c" "sc_maxVal c"] unat_decr [of "sc_counter c"]
  by (auto simp: sc_ok_def sc_step_def sc_increment_def sc_decrement_def word_less_nat_alt)

lemma sc_increment_ok: "sc_ok m c \<Longrightarrow> sc_ok m (sc_increment c)" and sc_decrement_ok: "sc_ok m c \<Longrightarrow> sc_ok m (sc_decrement c)"
  using sc_step_ok(1) [of m c True] sc_step_ok(1) [of m c False] by (simp_all add: sc_step_def)

lemma sc_run_ok:
  assumes "sc_ok m c"
  shows "sc_ok m (fold sc_step ts c)"
  using assms by (induction ts arbitrary: c) (auto intro: sc_step_ok)

lemma sc_run_same:
  assumes "sc_ok m c"
  shows "unat (sc_counter (fold sc_step (replicate k t) c)) = (if t then min m (unat (sc_counter c) + k) else unat (sc_counter c) - k)"
  using assms
proof (induction k arbitrary: c)
  case 0
  then show ?case by (simp add: sc_ok_def)
next
  case (Suc k)
  then show ?case using sc_step_ok [OF Suc.prems, of t] by auto
qed

lemma ones_val: "ones bits = Inr m \<Longrightarrow> unat m = 2 ^ unat bits - 1 \<and> bits < 31"
proof -
  assume a: "ones bits = Inr m"
  then have b: "bits < 31" "m = 2 ^ unat bits - 1" by (auto simp: ones_def guard_res_def split: if_splits)
  then have "unat bits < 31" by (simp add: word_less_nat_alt)
  then have "unat (2 ^ unat bits :: 32 word) = 2 ^ unat bits"
    using unsigned_of_nat [of "2 ^ unat bits", where 'b = 32 and 'a = nat] by simp
  moreover have "(2 ^ unat bits :: 32 word) \<noteq> 0" using \<open>unat bits < 31\<close> by simp
  ultimately show ?thesis using b by (metis unat_minus_one)
qed

text \<open>The largest value of a counter of so many bits, in 8 bits.\<close>

definition ctr_max :: "32 word \<Rightarrow> nat" where
  "ctr_max bits = (2 ^ unat bits - 1) mod 2 ^ 8"

definition ctrs_ok :: "32 word \<Rightarrow> SatCounter list \<Rightarrow> bool" where
  "ctrs_ok bits cs \<longleftrightarrow> (\<forall>c \<in> set cs. sc_ok (ctr_max bits) c)"

lemma ctrs_ok_update:
  assumes "ctrs_ok bits cs" "\<And>m c. sc_ok m c \<Longrightarrow> sc_ok m (f c)"
  shows "ctrs_ok bits (cs[i := f (cs ! i)])"
proof (cases "i < length cs")
  case True
  then have "sc_ok (ctr_max bits) (f (cs ! i))" using assms by (simp add: ctrs_ok_def)
  then show ?thesis using assms(1) set_update_subset_insert [of cs i "f (cs ! i)"] by (auto simp: ctrs_ok_def)
qed (use assms(1) in \<open>simp add: list_update_beyond\<close>)

lemma ctrs_ok_step:
  assumes "ctrs_ok bits cs"
  shows "ctrs_ok bits (cs[i := sc_increment (cs ! i)])" "ctrs_ok bits (cs[i := sc_decrement (cs ! i)])" "ctrs_ok bits (cs[i := sc_step t (cs ! i)])"
  by (rule ctrs_ok_update [OF assms]; simp add: sc_increment_ok sc_decrement_ok sc_step_ok(1))+

lemma setBits_all_ok:
  "setBits_all bits (replicate n c) = Inr cs \<Longrightarrow> sc_counter c = 0 \<Longrightarrow> length cs = n \<and> (\<forall>x \<in> set cs. sc_ok (ctr_max bits) x \<and> sc_counter x = 0) \<and> (0 < n \<longrightarrow> bits < 31)"
proof (induction n arbitrary: cs)
  case (Suc n)
  obtain m cs' where m: "ones bits = Inr m" "setBits_all bits (replicate n c) = Inr cs'" "cs = c\<lparr>sc_maxVal := ucast m\<rparr> # cs'"
    using Suc.prems(1) by (auto simp: setBits_def res_simps elim!: bind_res.elims)
  have "sc_ok (ctr_max bits) (c\<lparr>sc_maxVal := ucast m\<rparr>)"
    using ones_val [OF m(1)] Suc.prems(2) by (simp add: sc_ok_def ctr_max_def unsigned_ucast_eq take_bit_eq_mod)
  then show ?case using Suc.IH [OF m(2) Suc.prems(2)] m(1,3) ones_val [OF m(1)] Suc.prems(2) by simp
qed simp

lemma new_ctrs_ok:
  assumes "new_ctrs n bits = Inr cs"
  shows "length cs = unat n" "ctrs_ok bits cs" "n \<noteq> 0 \<Longrightarrow> bits < 31"
  using setBits_all_ok [of bits "unat n" "SatCounter_default 0" cs] assms unat_gt_0 [of n] by (simp_all add: new_ctrs_def ctrs_ok_def SatCounter_default_def)

section \<open>The contract of a direction predictor\<close>

text \<open>
  What the branch predictor relies on: predictions, training and squashes complete; a squash
  with the history of a prediction undoes it.  The histories that are valid depend only on what no
  operation changes.
\<close>

locale direction_predictor =
  fixes lookup :: "Addr \<Rightarrow> 'p \<Rightarrow> (bool \<times> BPHistory option \<times> 'p) res"
    and uncond :: "'p \<Rightarrow> (BPHistory option \<times> 'p) res"
    and update :: "Addr \<Rightarrow> bool \<Rightarrow> BPHistory option \<Rightarrow> 'p \<Rightarrow> 'p res"
    and squash :: "BPHistory option \<Rightarrow> 'p \<Rightarrow> 'p res"
    and invar :: "'p \<Rightarrow> bool"
    and hist_ok :: "'p \<Rightarrow> BPHistory option \<Rightarrow> bool"
  assumes lookup_ok: "invar p \<Longrightarrow> \<exists>t h p'. lookup a p = Inr (t, h, p') \<and> invar p' \<and> hist_ok p' = hist_ok p \<and> hist_ok p h \<and> squash h p' = Inr p"
    and uncond_ok: "invar p \<Longrightarrow> \<exists>h p'. uncond p = Inr (h, p') \<and> invar p' \<and> hist_ok p' = hist_ok p \<and> hist_ok p h \<and> squash h p' = Inr p"
    and update_ok: "invar p \<Longrightarrow> hist_ok p h \<Longrightarrow> \<exists>p'. update a t h p = Inr p' \<and> invar p' \<and> hist_ok p' = hist_ok p"
    and squash_ok: "invar p \<Longrightarrow> hist_ok p h \<Longrightarrow> \<exists>p'. squash h p = Inr p' \<and> invar p' \<and> hist_ok p' = hist_ok p"
begin

text \<open>The prediction of a branch: an unconditional one is taken.\<close>

definition guess :: "bool \<Rightarrow> Addr \<Rightarrow> 'p \<Rightarrow> (bool \<times> BPHistory option \<times> 'p) res" where
  "guess isUncond a p = (if isUncond then bind_res (uncond p) (\<lambda>(h, p). Inr (True, h, p)) else lookup a p)"

lemma guess_ok:
  assumes "invar p"
  obtains t h p' where "guess u a p = Inr (t, h, p')" "invar p'" "hist_ok p' = hist_ok p" "hist_ok p h" "squash h p' = Inr p" "u \<Longrightarrow> t"
proof (cases u)
  case True
  then show thesis using uncond_ok [OF assms] that by (auto simp: guess_def)
next
  case False
  then show thesis using lookup_ok [OF assms, of a] that by (auto simp: guess_def)
qed

end

section \<open>The local predictor\<close>

lemma unat_up [simp]: "unat (ucast (x :: 32 word) :: 64 word) = unat x"
  using unsigned_less [of x, where 'a = nat] by (simp add: unsigned_ucast_eq take_bit_nat_eq_self)

lemma pc_index_ok:
  assumes "shamt < 64" "msk < n"
  obtains i where "pc_index shamt msk a = Inr i" "i < n" "unat i < unat n"
proof -
  let ?i = "ucast (drop_bit (unat shamt) a AND ucast msk) :: 32 word"
  have "unat (drop_bit (unat shamt) a AND ucast msk) \<le> unat msk"
    by (metis unat_up word_and_le1 word_le_nat_alt)
  then have "unat ?i \<le> unat msk" by (simp add: unsigned_ucast_eq take_bit_eq_mod)
  then have "unat ?i < unat n" using assms(2) by (simp add: word_less_nat_alt)
  then show thesis using that [of ?i] assms(1) by (simp add: pc_index_def word_less_nat_alt)
qed

definition lb_wf :: "LocalBP \<Rightarrow> bool" where
  "lb_wf p \<longleftrightarrow> lb_localPredictorSets p \<noteq> 0 \<and> length (lb_localCtrs p) = unat (lb_localPredictorSets p) \<and>
     lb_indexMask p = lb_localPredictorSets p - 1 \<and> lb_instShiftAmt p < 64 \<and> lb_localCtrBits p \<noteq> 0 \<and> lb_localCtrBits p < 31 \<and>
     ctrs_ok (lb_localCtrBits p) (lb_localCtrs p)"

lemma lb_index:
  assumes "lb_wf p"
  obtains i where "getLocalIndex p a = Inr i" "unat i < length (lb_localCtrs p)" "lb_localCtrBits p - 1 < 32"
proof -
  have "lb_indexMask p < lb_localPredictorSets p" using assms by (simp add: lb_wf_def word_less_nat_alt unat_minus_one unat_gt_0)
  moreover have "lb_localCtrBits p - 1 < 32" using assms by (auto simp: lb_wf_def word_less_nat_alt unat_minus_one)
  ultimately show thesis using pc_index_ok [of "lb_instShiftAmt p" "lb_indexMask p" "lb_localPredictorSets p" a] assms that
    by (metis getLocalIndex_def lb_wf_def)
qed

lemma LocalBP_new_wf:
  assumes "LocalBP_new sz bits shamt = Inr p" "shamt < 64"
  shows "lb_wf p \<and> lb_localCtrBits p = bits"
proof -
  obtain cs where cs: "isPowerOf2 (ucast (sz div bits))" "bits \<noteq> 0" "new_ctrs (sz div bits) bits = Inr cs"
    "p = \<lparr>lb_localCtrs = cs, lb_localPredictorSize = sz, lb_localPredictorSets = sz div bits,
          lb_localCtrBits = bits, lb_instShiftAmt = shamt, lb_indexMask = sz div bits - 1\<rparr>"
    using assms(1) by (auto simp: LocalBP_new_def Let_def res_simps)
  have ne: "sz div bits \<noteq> 0" using cs(1) by (auto simp: isPowerOf2_def)
  then show ?thesis using new_ctrs_ok [OF cs(3)] cs(2,4) assms(2) by (simp add: lb_wf_def)
qed

definition lb_uncond :: "LocalBP \<Rightarrow> (BPHistory option \<times> LocalBP) res" where
  "lb_uncond p = Inr (None, p)"

interpretation local_bp: direction_predictor "\<lambda>a. lb_lookup a None" lb_uncond lb_update lb_squash lb_wf "\<lambda>_ h. h = None"
proof
  fix p a assume p: "lb_wf p"
  show "\<exists>t h p'. lb_lookup a None p = Inr (t, h, p') \<and> lb_wf p' \<and> (\<lambda>h. h = None) = (\<lambda>h. h = None) \<and> h = None \<and> lb_squash h p' = Inr p"
    by (rule lb_index [OF p, of a]) (simp add: p lb_lookup_def lb_squash_def getPrediction_def)
next
  fix p a t and h :: "BPHistory option" assume p: "lb_wf p" and "h = None"
  obtain i where i: "getLocalIndex p a = Inr i" "unat i < length (lb_localCtrs p)" "lb_localCtrBits p - 1 < 32" by (rule lb_index [OF p])
  then have "lb_update a t h p = Inr (p\<lparr>lb_localCtrs := (lb_localCtrs p)[unat i := sc_step t (lb_localCtrs p ! unat i)]\<rparr>)"
    using \<open>h = None\<close> by (simp add: lb_update_def)
  then show "\<exists>p'. lb_update a t h p = Inr p' \<and> lb_wf p' \<and> (\<lambda>h. h = None) = (\<lambda>h. h = None)"
    using i p by (simp add: lb_wf_def ctrs_ok_step)
qed (simp_all add: lb_squash_def lb_uncond_def)

section \<open>The tournament predictor\<close>

definition tb_wf :: "TournamentBP \<Rightarrow> bool" where
  "tb_wf p \<longleftrightarrow> tb_instShiftAmt p < 64 \<and>
     tb_localHistoryTableSize p \<noteq> 0 \<and> length (tb_localHistoryTable p) = unat (tb_localHistoryTableSize p) \<and>
     tb_localPredictorMask p < tb_localPredictorSize p \<and> length (tb_localCtrs p) = unat (tb_localPredictorSize p) \<and>
     tb_globalHistory p \<le> tb_globalHistoryMask p \<and> tb_globalHistoryMask p < tb_globalPredictorSize p \<and>
     length (tb_globalCtrs p) = unat (tb_globalPredictorSize p) \<and> length (tb_choiceCtrs p) = unat (tb_globalPredictorSize p) \<and>
     ctrs_ok (tb_localCtrBits p) (tb_localCtrs p) \<and>
     ctrs_ok (tb_globalCtrBits p) (tb_globalCtrs p) \<and>
     ctrs_ok (tb_choiceCtrBits p) (tb_choiceCtrs p)"

definition tb_hist_ok :: "TournamentBP \<Rightarrow> BPHistory option \<Rightarrow> bool" where
  "tb_hist_ok p h \<longleftrightarrow> (case h of None \<Rightarrow> False | Some x \<Rightarrow> bh_globalHistory x \<le> tb_globalHistoryMask p)"

definition tb_uncond :: "TournamentBP \<Rightarrow> (BPHistory option \<times> TournamentBP) res" where
  "tb_uncond p = Inr (tb_uncondBr p)"

lemma tb_hist_ok_mask: "tb_globalHistoryMask q = tb_globalHistoryMask p \<Longrightarrow> tb_hist_ok q = tb_hist_ok p"
  by (auto simp: tb_hist_ok_def fun_eq_iff split: option.splits)

lemma tb_wf_history: "tb_wf p \<Longrightarrow> v \<le> tb_globalHistoryMask p \<Longrightarrow> tb_wf (p\<lparr>tb_globalHistory := v\<rparr>)"
  by (simp add: tb_wf_def)

definition tb_at :: "TournamentBP \<Rightarrow> 32 word \<Rightarrow> bool" where
  "tb_at p i \<longleftrightarrow> i < tb_localHistoryTableSize p \<and> unat i < length (tb_localHistoryTable p) \<and>
     (\<forall>v. unat (v AND tb_localPredictorMask p) < length (tb_localCtrs p)) \<and> (\<forall>v. v AND tb_localPredictorMask p < tb_localPredictorSize p) \<and>
     tb_globalHistory p < tb_globalPredictorSize p \<and> unat (tb_globalHistory p) < length (tb_globalCtrs p) \<and> unat (tb_globalHistory p) < length (tb_choiceCtrs p)"

lemma tb_indexes:
  assumes "tb_wf p"
  shows "\<exists>i. calcLocHistIdx p a = Inr i \<and> tb_at p i"
proof -
  have m: "tb_localHistoryTableSize p - 1 < tb_localHistoryTableSize p"
    using assms by (simp add: tb_wf_def word_less_nat_alt unat_minus_one unat_gt_0)
  have l: "v AND tb_localPredictorMask p < tb_localPredictorSize p" for v
    using assms word_and_le1 [of v "tb_localPredictorMask p"] by (auto simp: tb_wf_def)
  have g: "tb_globalHistory p < tb_globalPredictorSize p" using assms by (auto simp: tb_wf_def)
  obtain i where i: "calcLocHistIdx p a = Inr i" "i < tb_localHistoryTableSize p"
    using pc_index_ok [OF _ m, of _ a] assms unfolding calcLocHistIdx_def tb_wf_def by metis
  then have "tb_at p i" using l g assms by (simp add: tb_at_def tb_wf_def flip: word_less_nat_alt)
  then show ?thesis using i by blast
qed

lemma tb_train_choice_ok:
  assumes "tb_wf p"
  shows "\<exists>cs. tb_train_choice t h p = Inr (p\<lparr>tb_choiceCtrs := cs\<rparr>) \<and> tb_wf (p\<lparr>tb_choiceCtrs := cs\<rparr>)"
proof -
  let ?g = "unat (tb_globalHistory p)" and ?cs = "tb_choiceCtrs p"
  have g: "?g < length ?cs" using tb_indexes [OF assms] by (auto simp: tb_at_def)
  have wf: "tb_wf (p\<lparr>tb_choiceCtrs := ?cs[?g := sc_increment (?cs ! ?g)]\<rparr>)" "tb_wf (p\<lparr>tb_choiceCtrs := ?cs[?g := sc_decrement (?cs ! ?g)]\<rparr>)"
    using assms g by (simp_all add: tb_wf_def ctrs_ok_step)
  have same: "p = p\<lparr>tb_choiceCtrs := ?cs\<rparr>" by simp
  show ?thesis
  proof (cases h)
    case None
    then show ?thesis using assms by (intro exI [of _ ?cs]) (simp add: tb_train_choice_def)
  next
    case (Some x)
    consider "bh_localPredTaken x = bh_globalPredTaken x" | "bh_localPredTaken x \<noteq> bh_globalPredTaken x" "bh_localPredTaken x = t"
      | "bh_localPredTaken x \<noteq> bh_globalPredTaken x" "bh_localPredTaken x \<noteq> t" by blast
    then show ?thesis
    proof cases
      case 1
      then show ?thesis using assms Some by (intro exI [of _ ?cs]) (simp add: tb_train_choice_def)
    next
      case 2
      then show ?thesis using wf(2) g Some by (intro exI conjI) (simp add: tb_train_choice_def Let_def)
    next
      case 3
      then show ?thesis using wf(1) g Some by (intro exI conjI) (simp add: tb_train_choice_def Let_def)
    qed
  qed
qed

lemma tb_update_ok:
  assumes "tb_wf p"
  shows "\<exists>p'. tb_update a t h p = Inr p' \<and> tb_wf p' \<and> tb_globalHistory p' = tb_globalHistory p \<and> tb_globalHistoryMask p' = tb_globalHistoryMask p"
proof -
  obtain cs where cs: "tb_train_choice t h p = Inr (p\<lparr>tb_choiceCtrs := cs\<rparr>)" "tb_wf (p\<lparr>tb_choiceCtrs := cs\<rparr>)" (is "tb_wf ?p")
    using tb_train_choice_ok [OF assms] by blast
  obtain i where i: "calcLocHistIdx p a = Inr i" "tb_at p i" using tb_indexes [OF assms] by blast
  define li where "li = unat (tb_localHistoryTable p ! unat i AND tb_localPredictorMask p)"
  let ?g = "unat (tb_globalHistory p)"
  let ?q = "\<lambda>f v. p\<lparr>tb_choiceCtrs := cs, tb_localCtrs := (tb_localCtrs p)[li := f (tb_localCtrs p ! li)],
     tb_globalCtrs := (tb_globalCtrs p)[?g := f (tb_globalCtrs p ! ?g)], tb_localHistoryTable := (tb_localHistoryTable p)[unat i := v]\<rparr>"
  have "tb_update a t h p = Inr (if t then ?q sc_increment (push_bit 1 (tb_localHistoryTable p ! unat i) OR 1) else ?q sc_decrement (push_bit 1 (tb_localHistoryTable p ! unat i)))"
    using i cs(1) by (simp add: tb_at_def tb_update_def Let_def li_def updateLocalHistTaken_def updateLocalHistNotTaken_def)
  moreover have "tb_wf (?q sc_increment v)" "tb_wf (?q sc_decrement v)" for v
    using cs(2) i(2) by (simp_all add: tb_at_def li_def tb_wf_def ctrs_ok_step)
  ultimately show ?thesis by simp
qed

lemma tb_hist_taken: "tb_wf p \<Longrightarrow> tb_wf (updateGlobalHistTaken p)" and tb_hist_not_taken: "tb_wf p \<Longrightarrow> tb_wf (updateGlobalHistNotTaken p)"
  unfolding updateGlobalHistTaken_def updateGlobalHistNotTaken_def by (intro tb_wf_history; simp add: word_and_le1)+

lemma tb_undo: "tb_squash (Some h) (updateGlobalHistTaken p) = Inr (p\<lparr>tb_globalHistory := bh_globalHistory h\<rparr>)"
  "tb_squash (Some h) (updateGlobalHistNotTaken p) = Inr (p\<lparr>tb_globalHistory := bh_globalHistory h\<rparr>)"
  by (simp_all add: tb_squash_def updateGlobalHistTaken_def updateGlobalHistNotTaken_def)

lemma tb_lookup_ok:
  assumes "tb_wf p"
  shows "\<exists>t h. tb_lookup a p = Inr (t, Some h, if t then updateGlobalHistTaken p else updateGlobalHistNotTaken p) \<and> bh_globalHistory h = tb_globalHistory p"
proof -
  obtain i where i: "calcLocHistIdx p a = Inr i" "tb_at p i" using tb_indexes [OF assms] by blast
  then show ?thesis by (auto simp: tb_at_def tb_lookup_def Let_def)
qed

interpretation tournament_bp: direction_predictor tb_lookup tb_uncond tb_update tb_squash tb_wf tb_hist_ok
proof
  fix p a assume p: "tb_wf p"
  obtain t h where th: "tb_lookup a p = Inr (t, Some h, if t then updateGlobalHistTaken p else updateGlobalHistNotTaken p)" "bh_globalHistory h = tb_globalHistory p"
    using tb_lookup_ok [OF p] by blast
  have ok: "tb_hist_ok p (Some h)" using p th(2) by (simp add: tb_hist_ok_def tb_wf_def)
  have "tb_hist_ok (updateGlobalHistTaken p) = tb_hist_ok p" "tb_hist_ok (updateGlobalHistNotTaken p) = tb_hist_ok p"
    by (rule tb_hist_ok_mask; simp add: updateGlobalHistTaken_def updateGlobalHistNotTaken_def)+
  then show "\<exists>t h p'. tb_lookup a p = Inr (t, h, p') \<and> tb_wf p' \<and> tb_hist_ok p' = tb_hist_ok p \<and> tb_hist_ok p h \<and> tb_squash h p' = Inr p"
    using ok th tb_hist_taken [OF p] tb_hist_not_taken [OF p] by (auto simp: tb_undo)
next
  fix p assume p: "tb_wf p"
  have "tb_hist_ok (updateGlobalHistTaken p) = tb_hist_ok p" by (rule tb_hist_ok_mask) (simp add: updateGlobalHistTaken_def)
  then show "\<exists>h p'. tb_uncond p = Inr (h, p') \<and> tb_wf p' \<and> tb_hist_ok p' = tb_hist_ok p \<and> tb_hist_ok p h \<and> tb_squash h p' = Inr p"
    using p tb_hist_taken [OF p] by (auto simp: tb_uncond_def tb_uncondBr_def tb_undo tb_hist_ok_def tb_wf_def)
next
  fix p h a t assume "tb_wf p" "tb_hist_ok p h"
  then show "\<exists>p'. tb_update a t h p = Inr p' \<and> tb_wf p' \<and> tb_hist_ok p' = tb_hist_ok p"
    using tb_update_ok [of p a t h] tb_hist_ok_mask by blast
next
  fix p h assume p: "tb_wf p" "tb_hist_ok p h"
  then show "\<exists>p'. tb_squash h p = Inr p' \<and> tb_wf p' \<and> tb_hist_ok p' = tb_hist_ok p"
    by (cases h) (auto simp: tb_squash_def tb_hist_ok_def fun_eq_iff tb_wf_history split: option.splits)
qed

lemma floorPow2_le:
  assumes "floorPow2 (ucast (n :: 32 word)) = Inr lp" "n \<noteq> 0"
  shows "ucast lp - 1 < n"
proof -
  have "(ucast n :: 64 word) \<noteq> 0" using assms(2) by (metis unat_up unat_eq_zero)
  then obtain y where y: "floorLog2 (ucast n) = Inr y" "2 ^ y \<le> unat n" using floorLog2_aux [of "ucast n"] by auto
  have lt: "unat n < 2 ^ 32" using unsigned_less [of n, where 'a = nat] by simp
  then have "(2 :: nat) ^ y < 2 ^ 32" using y(2) by linarith
  then have y32: "y < 32" using power_less_imp_less_exp [of "2 :: nat" y 32] by simp
  have "lp = 2 ^ y" using assms(1) y(1) by (simp add: floorPow2_def)
  then have "unat lp = 2 ^ y" using unsigned_of_nat [of "2 ^ y", where 'b = 64 and 'a = nat] y32 by simp
  then have "unat (ucast lp :: 32 word) = 2 ^ y" using y32 by (simp add: unsigned_ucast_eq take_bit_nat_eq_self)
  moreover from this have "(ucast lp :: 32 word) \<noteq> 0" by (metis unat_0 power_not_zero zero_neq_numeral)
  ultimately show ?thesis using y(2) unat_gt_0 [of n] assms(2) by (simp add: word_less_nat_alt unat_minus_one)
qed

lemma TournamentBP_new_fields:
  assumes "TournamentBP_new lps lcb lhs lhb gps gcb ghb cps ccb shamt = Inr p"
  shows "isPowerOf2 (ucast lps) \<and> isPowerOf2 (ucast lhs) \<and> isPowerOf2 (ucast gps) \<and>
    new_ctrs lps lcb = Inr (tb_localCtrs p) \<and> new_ctrs gps gcb = Inr (tb_globalCtrs p) \<and> new_ctrs gps ccb = Inr (tb_choiceCtrs p) \<and>
    (\<exists>lp. floorPow2 (ucast lps) = Inr lp \<and> tb_localPredictorMask p = ucast lp - 1) \<and> ones ghb = Inr (tb_globalHistoryMask p) \<and>
    tb_localHistoryTable p = replicate (unat lhs) 0 \<and> tb_globalHistory p = 0 \<and> tb_localPredictorSize p = lps \<and> tb_localCtrBits p = lcb \<and>
    tb_localHistoryTableSize p = lhs \<and> tb_globalPredictorSize p = gps \<and> tb_globalCtrBits p = gcb \<and> tb_choiceCtrBits p = ccb \<and> tb_instShiftAmt p = shamt"
  using assms unfolding TournamentBP_new_def int_loop_def Let_def bind_res_Inr guard_res_Inr sum.inject
  by (elim exE conjE) (hypsubst, simp)

lemma TournamentBP_new_wf:
  assumes "TournamentBP_new lps lcb lhs lhb gps gcb ghb cps ccb shamt = Inr p" "shamt < 64" "2 ^ unat ghb \<le> unat gps"
  shows "tb_wf p \<and> tb_globalHistoryMask p = 2 ^ unat ghb - 1"
proof -
  note f = TournamentBP_new_fields [OF assms(1)]
  have ne: "lps \<noteq> 0" "lhs \<noteq> 0" "gps \<noteq> 0" using f by (auto simp: isPowerOf2_def)
  have "unat (tb_globalHistoryMask p) = 2 ^ unat ghb - 1" using ones_val f by blast
  then have "tb_globalHistoryMask p < gps" using assms(3) unat_gt_0 [of gps] ne(3) by (simp add: word_less_nat_alt)
  moreover have "tb_globalHistoryMask p = 2 ^ unat ghb - 1" using f by (simp add: ones_def res_simps)
  moreover have "tb_localPredictorMask p < lps" using f floorPow2_le [OF _ ne(1)] by auto
  ultimately show ?thesis using ne f new_ctrs_ok [of lps lcb] new_ctrs_ok [of gps gcb] new_ctrs_ok [of gps ccb] assms(2) by (simp add: tb_wf_def)
qed

section \<open>The branch target buffer\<close>

definition btb_wf :: "DefaultBTB \<Rightarrow> bool" where
  "btb_wf b \<longleftrightarrow> btb_numEntries b \<noteq> 0 \<and> length (btb_table b) = unat (btb_numEntries b) \<and> btb_idxMask b = btb_numEntries b - 1 \<and>
     btb_instShiftAmt b < 64 \<and> btb_tagShiftAmt b < 64"

lemma btb_index:
  assumes "btb_wf b"
  shows "\<exists>i tag. btb_getIndex b pc = Inr i \<and> btb_getTag b pc = Inr tag \<and> i < btb_numEntries b \<and> unat i < length (btb_table b)"
proof -
  have m: "btb_idxMask b < btb_numEntries b" using assms by (simp add: btb_wf_def word_less_nat_alt unat_minus_one unat_gt_0)
  obtain i where "pc_index (btb_instShiftAmt b) (btb_idxMask b) pc = Inr i" "i < btb_numEntries b" "unat i < unat (btb_numEntries b)"
    using pc_index_ok [OF _ m, of "btb_instShiftAmt b" pc] assms unfolding btb_wf_def by blast
  then show ?thesis using assms by (simp add: btb_getIndex_def btb_getTag_def btb_wf_def)
qed

lemma btb_entry_ok:
  assumes "btb_wf b" "btb_getIndex b pc = Inr i" "btb_getTag b pc = Inr tag"
  shows "btb_entry pc tid b = Inr (let e = btb_table b ! unat i in if be_valid e \<and> tag = be_tag e \<and> be_tid e = Some tid then Some e else None)"
  using btb_index [OF assms(1), of pc] assms(2,3) by (auto simp: btb_entry_def Let_def)

lemma btb_total:
  assumes "btb_wf b"
  shows "\<exists>v. btb_valid pc tid b = Inr v" "\<exists>t. btb_lookup pc tid b = Inr t" "\<exists>b'. btb_update pc target tid b = Inr b' \<and> btb_wf b'"
proof -
  obtain i tag where i: "btb_getIndex b pc = Inr i" "btb_getTag b pc = Inr tag" "i < btb_numEntries b" "unat i < length (btb_table b)"
    using btb_index [OF assms] by blast
  then show "\<exists>v. btb_valid pc tid b = Inr v" "\<exists>t. btb_lookup pc tid b = Inr t" "\<exists>b'. btb_update pc target tid b = Inr b' \<and> btb_wf b'"
    using btb_entry_ok [OF assms i(1,2)] assms by (simp_all add: btb_valid_def btb_lookup_def btb_update_def btb_wf_def)
qed

lemma DefaultBTB_new_wf:
  assumes "DefaultBTB_new n bits shamt = Inr b" "shamt < 32"
  shows "btb_wf b"
proof -
  obtain tm l where c: "isPowerOf2 (ucast n)" "floorLog2 (ucast n) = Inr l"
    "b = \<lparr>btb_table = replicate (unat n) \<lparr>be_tag = 0, be_target = 0, be_tid = None, be_valid = False\<rparr>, btb_numEntries = n, btb_idxMask = n - 1,
          btb_tagBits = bits, btb_tagMask = tm, btb_instShiftAmt = shamt, btb_tagShiftAmt = shamt + of_nat l\<rparr>"
    using assms(1) by (auto simp: DefaultBTB_new_def res_simps)
  have ne: "n \<noteq> 0" "(ucast n :: 64 word) \<noteq> 0" using c(1) by (auto simp: isPowerOf2_def)
  then have "2 ^ l \<le> unat n" using floorLog2_aux [of "ucast n"] c(2) by auto
  moreover have "unat n < 2 ^ 32" using unsigned_less [of n, where 'a = nat] by simp
  ultimately have "(2 :: nat) ^ l < 2 ^ 32" by linarith
  then have l: "l < 32" using power_less_imp_less_exp [of "2 :: nat" l 32] by simp
  then have "unat (shamt + of_nat l) < 64" using assms(2) by (simp add: unat_word_ariths unsigned_of_nat take_bit_nat_eq_self word_less_nat_alt)
  then show ?thesis using c(3) ne(1) assms(2) by (simp add: btb_wf_def word_less_nat_alt)
qed

section \<open>The return address stack\<close>

definition ras_wf :: "ReturnAddrStack \<Rightarrow> bool" where
  "ras_wf r \<longleftrightarrow> 0 < ras_numEntries r \<and> ras_numEntries r < 2 ^ 32 \<and> length (ras_addrStack r) = ras_numEntries r \<and>
     ras_tos r < ras_numEntries r \<and> ras_usedEntries r \<le> ras_numEntries r"

text \<open>The entry at a depth below the top.\<close>

definition ras_pos :: "nat \<Rightarrow> nat \<Rightarrow> nat \<Rightarrow> nat" where
  "ras_pos n t k = (if k \<le> t then t - k else t + n - k)"

definition ras_below :: "ReturnAddrStack \<Rightarrow> nat \<Rightarrow> Addr" where
  "ras_below r k = ras_addrStack r ! ras_pos (ras_numEntries r) (ras_tos r) k"

lemma ras_init_wf: "0 < n \<Longrightarrow> n < 2 ^ 32 \<Longrightarrow> ras_wf (ras_init n)"
  by (simp add: ras_wf_def ras_init_def)

lemma ras_push_eq:
  assumes "ras_wf r"
  defines "t \<equiv> (if ras_tos r + 1 = ras_numEntries r then 0 else ras_tos r + 1)"
  shows "ras_push a r = Inr (r\<lparr>ras_tos := t, ras_addrStack := (ras_addrStack r)[t := a],
      ras_usedEntries := (if ras_usedEntries r \<noteq> ras_numEntries r then ras_usedEntries r + 1 else ras_usedEntries r)\<rparr>)"
  using assms(1) by (simp add: ras_push_def incrTos_def Let_def ras_wf_def t_def)

lemma ras_pop_eq:
  assumes "ras_wf r"
  shows "ras_pop r = r\<lparr>ras_tos := (if ras_tos r = 0 then ras_numEntries r - 1 else ras_tos r - 1), ras_usedEntries := ras_usedEntries r - 1\<rparr>"
proof -
  obtain m where "ras_numEntries r = Suc m" "m < 2 ^ 32" using assms by (cases "ras_numEntries r") (auto simp: ras_wf_def)
  then show ?thesis by (simp add: ras_pop_def decrTos_def)
qed

lemma ras_push_wf: "ras_wf r \<Longrightarrow> \<exists>r'. ras_push a r = Inr r' \<and> ras_wf r' \<and> ras_numEntries r' = ras_numEntries r"
  by (auto simp: ras_push_eq ras_wf_def)

lemma ras_pop_wf: "ras_wf r \<Longrightarrow> ras_wf (ras_pop r) \<and> ras_numEntries (ras_pop r) = ras_numEntries r"
  by (auto simp: ras_pop_eq ras_wf_def)

lemma ras_top_eq: "ras_wf r \<Longrightarrow> ras_top r = Inr (ras_addrStack r ! ras_tos r)"
  by (simp add: ras_top_def ras_wf_def)

lemma ras_restore_eq: "ras_wf r \<Longrightarrow> i < ras_numEntries r \<Longrightarrow> ras_restore i a r = Inr (r\<lparr>ras_tos := i, ras_addrStack := (ras_addrStack r)[i := a]\<rparr>)"
  by (simp add: ras_restore_def ras_wf_def)

lemma ras_restore_wf: "ras_wf r \<Longrightarrow> i < ras_numEntries r \<Longrightarrow> \<exists>r'. ras_restore i a r = Inr r' \<and> ras_wf r' \<and> ras_numEntries r' = ras_numEntries r"
  by (simp add: ras_restore_eq) (simp add: ras_wf_def)

text \<open>Two stacks with the same top agree but for the deepest entries.\<close>

definition ras_agree :: "nat \<Rightarrow> ReturnAddrStack \<Rightarrow> ReturnAddrStack \<Rightarrow> bool" where
  "ras_agree d r r' \<longleftrightarrow> ras_wf r' \<and> ras_numEntries r' = ras_numEntries r \<and> ras_tos r' = ras_tos r \<and>
     (\<forall>k. k + d < ras_numEntries r \<longrightarrow> ras_below r' k = ras_below r k)"

lemma ras_push_undo:
  assumes "ras_wf r" "ras_push a r = Inr r1" "ras_agree d r1 r1'"
  shows "ras_agree (d + 1) r (ras_pop r1')"
proof -
  let ?n = "ras_numEntries r" and ?t = "ras_tos r"
  let ?t1 = "if ?t + 1 = ?n then 0 else ?t + 1"
  have r1: "ras_tos r1 = ?t1" "ras_addrStack r1 = (ras_addrStack r)[?t1 := a]" "ras_numEntries r1 = ?n"
    using assms(2) by (auto simp: ras_push_eq [OF assms(1)])
  have wf: "ras_wf r1'" "ras_numEntries r1' = ?n" "ras_tos r1' = ?t1" using assms(3) r1 by (simp_all add: ras_agree_def)
  have t: "?t < ?n" using assms(1) by (simp add: ras_wf_def)
  have pop: "ras_tos (ras_pop r1') = ?t" "ras_addrStack (ras_pop r1') = ras_addrStack r1'" using wf t by (auto simp: ras_pop_eq)
  have "ras_below (ras_pop r1') k = ras_below r k" if k: "k + (d + 1) < ?n" for k
  proof -
    have p: "ras_pos ?n ?t k = ras_pos ?n ?t1 (Suc k)" using k t by (auto simp: ras_pos_def)
    have ne: "ras_pos ?n ?t k \<noteq> ?t1" "ras_pos ?n ?t k < ?n" using k t by (auto simp: ras_pos_def split: if_splits)
    have "ras_below (ras_pop r1') k = ras_below r1' (Suc k)" using wf pop ras_pop_wf [OF wf(1)] p by (simp add: ras_below_def)
    also have "\<dots> = ras_below r1 (Suc k)" using assms(3) k r1(3) by (auto simp: ras_agree_def)
    also have "\<dots> = ras_below r k" using ne p by (simp add: ras_below_def r1 del: One_nat_def)
    finally show ?thesis .
  qed
  then show ?thesis using ras_pop_wf [OF wf(1)] wf(2) pop(1) by (simp add: ras_agree_def)
qed

lemma ras_pop_undo:
  assumes "ras_wf r" "ras_agree d (ras_pop r) r1'"
  shows "\<exists>r'. ras_restore (ras_tos r) (ras_addrStack r ! ras_tos r) r1' = Inr r' \<and> ras_agree (d - 1) r r'"
proof -
  let ?n = "ras_numEntries r" and ?t = "ras_tos r"
  let ?t1 = "if ?t = 0 then ?n - 1 else ?t - 1"
  have wf: "ras_wf r1'" "ras_numEntries r1' = ?n" "ras_tos r1' = ?t1" "?t < ?n" "length (ras_addrStack r1') = ?n"
    using assms by (auto simp: ras_agree_def ras_pop_eq ras_wf_def)
  let ?r = "r1'\<lparr>ras_tos := ?t, ras_addrStack := (ras_addrStack r1')[?t := ras_addrStack r ! ?t]\<rparr>"
  have res: "ras_restore ?t (ras_addrStack r ! ?t) r1' = Inr ?r" using wf by (simp add: ras_restore_eq)
  have "ras_below ?r k = ras_below r k" if k: "k + (d - 1) < ?n" for k
  proof (cases k)
    case 0
    then show ?thesis using wf by (simp add: ras_below_def ras_pos_def)
  next
    case (Suc j)
    have p: "ras_pos ?n ?t k = ras_pos ?n ?t1 j" "ras_pos ?n ?t k \<noteq> ?t" using k Suc wf(4) by (auto simp: ras_pos_def split: if_splits)
    have "ras_below ?r k = ras_below r1' j" using wf p by (simp add: ras_below_def)
    also have "\<dots> = ras_below (ras_pop r) j" using assms k Suc by (auto simp: ras_agree_def ras_pop_eq)
    also have "\<dots> = ras_below r k" using assms(1) p(1) by (simp add: ras_below_def ras_pop_eq)
    finally show ?thesis .
  qed
  then show ?thesis using res wf by (simp add: ras_agree_def) (simp add: ras_wf_def)
qed

section \<open>Properties\<close>

text \<open>A sequence of resolved branches that train the local predictor.\<close>

fun lb_train :: "(Addr \<times> bool) list \<Rightarrow> LocalBP \<Rightarrow> LocalBP res" where
  "lb_train [] p = Inr p"
| "lb_train ((a, t) # bs) p = bind_res (lb_update a t None p) (lb_train bs)"

text \<open>The outcomes of the branches of a sequence that share the counter of an address.\<close>

definition lb_outcomes :: "LocalBP \<Rightarrow> Addr \<Rightarrow> (Addr \<times> bool) list \<Rightarrow> bool list" where
  "lb_outcomes p a bs = map snd (filter (\<lambda>(x, _). getLocalIndex p x = getLocalIndex p a) bs)"

lemma lb_train_counter:
  assumes "lb_wf p" "getLocalIndex p a = Inr i"
  shows "\<exists>p'. lb_train bs p = Inr p' \<and> lb_wf p' \<and> lb_localCtrBits p' = lb_localCtrBits p \<and> getLocalIndex p' = getLocalIndex p \<and>
     lb_localCtrs p' ! unat i = fold sc_step (lb_outcomes p a bs) (lb_localCtrs p ! unat i)"
  using assms
proof (induction bs arbitrary: p)
  case (Cons b bs)
  obtain x t where b: "b = (x, t)" by (cases b)
  obtain j where j: "getLocalIndex p x = Inr j" "unat j < length (lb_localCtrs p)" by (rule lb_index [OF Cons.prems(1)])
  define q where "q = p\<lparr>lb_localCtrs := (lb_localCtrs p)[unat j := sc_step t (lb_localCtrs p ! unat j)]\<rparr>"
  have q: "lb_update x t None p = Inr q" "lb_wf q" "getLocalIndex q = getLocalIndex p" "lb_localCtrBits q = lb_localCtrBits p"
    using j Cons.prems(1) by (simp_all add: q_def lb_update_def lb_wf_def ctrs_ok_step getLocalIndex_def fun_eq_iff)
  have ctr: "lb_localCtrs q ! unat i = (if getLocalIndex p x = getLocalIndex p a then sc_step t (lb_localCtrs p ! unat i) else lb_localCtrs p ! unat i)"
    using j Cons.prems(2) by (auto simp: q_def nth_list_update simp flip: word_unat_eq_iff)
  obtain p' where p': "lb_train bs q = Inr p'" "lb_wf p'" "lb_localCtrBits p' = lb_localCtrBits q" "getLocalIndex p' = getLocalIndex q"
    "lb_localCtrs p' ! unat i = fold sc_step (lb_outcomes q a bs) (lb_localCtrs q ! unat i)"
    using Cons.IH [OF q(2)] Cons.prems(2) q(3) by auto
  have "lb_outcomes q a bs = lb_outcomes p a bs" using q(3) by (simp add: lb_outcomes_def)
  then have "lb_localCtrs p' ! unat i = fold sc_step (lb_outcomes p a (b # bs)) (lb_localCtrs p ! unat i)"
    using p'(5) ctr by (simp add: lb_outcomes_def b)
  then show ?case using p' q b by simp
qed (simp add: lb_outcomes_def)

lemma msb_iff: "drop_bit b (c :: 8 word) \<noteq> 0 \<longleftrightarrow> 2 ^ b \<le> unat c"
proof -
  have "unat (drop_bit b c) = unat c div 2 ^ b" by (simp only: unat_drop_bit_eq) (simp only: drop_bit_eq_div)
  then show ?thesis by (metis div_greater_zero_iff unat_gt_0 zero_less_numeral zero_less_power)
qed

text \<open>
  C40: The local predictor learns.  Let its counters have \<open>b\<close> bits, at most 8, and let any sequence of
  branches be resolved.  If the last \<open>2 ^ (b - 1)\<close> of those that share the counter of
  an address went the same way, the branch at this address is predicted to go that way, whatever
  the counter was and whatever the other branches did.
\<close>

theorem local_predictor_learns:
  assumes "lb_wf p" "lb_localCtrBits p \<le> 8"
    and "lb_outcomes p a bs = os @ replicate (2 ^ (unat (lb_localCtrBits p) - 1)) t"
  shows "\<exists>p'. lb_train bs p = Inr p' \<and> lb_lookup a None p' = Inr (t, None, p')"
proof -
  let ?b = "unat (lb_localCtrBits p)"
  have b: "1 \<le> ?b" "?b \<le> 8" using assms(1,2) unat_gt_0 [of "lb_localCtrBits p"] by (auto simp: lb_wf_def word_le_nat_alt)
  have "(2 :: nat) ^ ?b \<le> 2 ^ 8" using b(2) by (rule power_increasing) simp
  then have mx: "ctr_max (lb_localCtrBits p) = 2 ^ ?b - 1" by (simp add: ctr_max_def)
  have two: "(2 :: nat) ^ ?b = 2 * 2 ^ (?b - 1)" using b(1) by (cases ?b) simp_all
  obtain i where i: "getLocalIndex p a = Inr i" "unat i < length (lb_localCtrs p)" by (rule lb_index [OF assms(1)])
  obtain p' where p': "lb_train bs p = Inr p'" "lb_wf p'" "lb_localCtrBits p' = lb_localCtrBits p" "getLocalIndex p' = getLocalIndex p"
    "lb_localCtrs p' ! unat i = fold sc_step (lb_outcomes p a bs) (lb_localCtrs p ! unat i)"
    using lb_train_counter [OF assms(1) i(1)] by blast
  obtain i' where i': "getLocalIndex p' a = Inr i'" "unat i' < length (lb_localCtrs p')" "lb_localCtrBits p' - 1 < 32" by (rule lb_index [OF p'(2)])
  have "sc_ok (2 ^ ?b - 1) (lb_localCtrs p ! unat i)" using assms(1) i(2) mx by (simp add: lb_wf_def ctrs_ok_def)
  then have c: "sc_ok (2 ^ ?b - 1) (fold sc_step os (lb_localCtrs p ! unat i))" (is "sc_ok _ ?c") by (rule sc_run_ok)
  define h where "h = (2 :: nat) ^ (?b - 1)"
  have h: "0 < h" "unat (sc_counter ?c) \<le> 2 * h - 1" "2 ^ ?b = 2 * h" using c two by (simp_all add: h_def sc_ok_def)
  have "unat (sc_counter (lb_localCtrs p' ! unat i)) = (if t then min (2 * h - 1) (unat (sc_counter ?c) + h) else unat (sc_counter ?c) - h)"
    using p'(5) assms(3) sc_run_same [OF c, of h t] h(3) by (simp add: h_def)
  then have "h \<le> unat (sc_counter (lb_localCtrs p' ! unat i)) \<longleftrightarrow> t" using h by auto
  moreover have "unat (lb_localCtrBits p - 1) = ?b - 1" using assms(1) by (simp add: lb_wf_def unat_minus_one)
  ultimately have "getPrediction p' (sc_read (lb_localCtrs p' ! unat i)) = Inr t"
    using i'(3) p'(3) b by (simp add: getPrediction_def sc_read_def msb_iff h_def)
  then show ?thesis using p' i i' by (simp add: lb_lookup_def)
qed

definition sample_local :: LocalBP where
  "sample_local = \<lparr>lb_localCtrs = replicate 4 \<lparr>sc_initialVal = 0, sc_maxVal = 3, sc_counter = 0\<rparr>, lb_localPredictorSize = 8,
     lb_localPredictorSets = 4, lb_localCtrBits = 2, lb_instShiftAmt = 2, lb_indexMask = 3\<rparr>"

lemma sample_local_new: "LocalBP_new 8 2 2 = Inr sample_local"
  by code_simp

theorem local_predictor_learns_witness:
  "\<exists>p'. lb_train [(4, True), (8, False), (4, False), (4, True), (20, True)] sample_local = Inr p' \<and> lb_lookup 36 None p' = Inr (True, None, p')"
proof (rule local_predictor_learns)
  show "lb_wf sample_local" using LocalBP_new_wf [OF sample_local_new] by simp
  show "lb_outcomes sample_local 36 [(4, True), (8, False), (4, False), (4, True), (20, True)] =
     [True, False] @ replicate (2 ^ (unat (lb_localCtrBits sample_local) - 1)) True"
    by code_simp
qed (simp add: sample_local_def)

text \<open>
  The branch target buffer returns what was entered.  In a well-formed buffer the update of a branch
  completes; the branch is then valid for its thread and its lookup gives the target.  A branch with
  another index keeps what it had; a branch with the same index is valid exactly if it
  has the same tag and thread, and then it gets the new target.
\<close>

theorem btb_update_then_lookup:
  assumes "btb_wf b"
  shows "\<exists>b'. btb_update pc target tid b = Inr b' \<and> btb_wf b' \<and> btb_valid pc tid b' = Inr True \<and> btb_lookup pc tid b' = Inr target \<and>
     (\<forall>x u. if btb_getIndex b x = btb_getIndex b pc
            then btb_valid x u b' = Inr (btb_getTag b x = btb_getTag b pc \<and> u = tid) \<and>
                 btb_lookup x u b' = Inr (if btb_getTag b x = btb_getTag b pc \<and> u = tid then target else 0)
            else btb_valid x u b' = btb_valid x u b \<and> btb_lookup x u b' = btb_lookup x u b)"
proof -
  obtain i tag where i: "btb_getIndex b pc = Inr i" "btb_getTag b pc = Inr tag" "i < btb_numEntries b" "unat i < length (btb_table b)"
    using btb_index [OF assms] by blast
  define b' where "b' = b\<lparr>btb_table := (btb_table b)[unat i := \<lparr>be_tag = tag, be_target = target, be_tid = Some tid, be_valid = True\<rparr>]\<rparr>"
  have b': "btb_update pc target tid b = Inr b'" "btb_wf b'" "btb_getIndex b' = btb_getIndex b" "btb_getTag b' = btb_getTag b"
    using i assms by (simp_all add: b'_def btb_update_def btb_wf_def btb_getIndex_def btb_getTag_def fun_eq_iff)
  have entry: "btb_entry x u b' = (if btb_getIndex b x = btb_getIndex b pc
      then Inr (if btb_getTag b x = btb_getTag b pc \<and> u = tid then Some \<lparr>be_tag = tag, be_target = target, be_tid = Some tid, be_valid = True\<rparr> else None)
      else btb_entry x u b)" for x u
  proof -
    obtain j xt where j: "btb_getIndex b x = Inr j" "btb_getTag b x = Inr xt" "unat j < length (btb_table b)" using btb_index [OF assms] by blast
    show ?thesis using btb_entry_ok [OF b'(2), of x j xt u] btb_entry_ok [OF assms j(1,2), of u] b'(3,4) i j
      by (auto simp: b'_def nth_list_update Let_def simp flip: word_unat_eq_iff)
  qed
  show ?thesis using b'(1,2) by (simp add: btb_valid_def btb_lookup_def entry)
qed

definition sample_btb :: DefaultBTB where
  "sample_btb = \<lparr>btb_table = replicate 4 \<lparr>be_tag = 0, be_target = 0, be_tid = None, be_valid = False\<rparr>, btb_numEntries = 4, btb_idxMask = 3,
     btb_tagBits = 16, btb_tagMask = 0xFFFF, btb_instShiftAmt = 2, btb_tagShiftAmt = 4\<rparr>"

lemma sample_btb_new: "DefaultBTB_new 4 16 2 = Inr sample_btb"
  by code_simp

theorem btb_update_then_lookup_witness:
  "\<exists>b'. btb_update 0x1004 0x2000 0 sample_btb = Inr b' \<and> btb_lookup 0x1004 0 b' = Inr 0x2000 \<and> btb_lookup 0x1014 0 b' = Inr 0"
proof -
  have "btb_getIndex sample_btb 0x1014 = btb_getIndex sample_btb 0x1004" "btb_getTag sample_btb 0x1014 \<noteq> btb_getTag sample_btb 0x1004" by code_simp+
  then show ?thesis using btb_update_then_lookup [OF DefaultBTB_new_wf [OF sample_btb_new], of "0x1004" "0x2000" 0] by auto
qed

end
