(* ===== verification/Bpred_Unit.thy ===== *)
theory Bpred_Unit
  imports Branch_Pred
begin

text \<open>
  The branch predictor of the out-of-order processor, \<open>cpu/o3/bpred_unit.hh\<close> and
  \<open>cpu/o3/bpred_unit_impl.hh\<close>: a direction predictor, the branch target buffer, a return address stack
  per thread, and per thread the history of the predictions that are not committed, the
  newest first.  \<open>squash\<close> takes predictions back, \<open>update\<close> commits them.  The size of an
  instruction and whether it has a delay slot come from the instruction set.
\<close>

section \<open>State\<close>

datatype PredType = Local | Tournament

record PredictorHistory =
  ph_seqNum :: "64 word"
  ph_PC :: Addr
  ph_RASTarget :: Addr
  ph_RASIndex :: nat
  ph_tid :: nat
  ph_predTaken :: bool
  ph_usedRAS :: bool
  ph_wasCall :: bool
  ph_bpHistory :: "BPHistory option"

definition PredictorHistory_new :: "64 word \<Rightarrow> Addr \<Rightarrow> bool \<Rightarrow> BPHistory option \<Rightarrow> nat \<Rightarrow> PredictorHistory" where
  "PredictorHistory_new seq_num inst_PC pred_taken bp_history tid =
     \<lparr>ph_seqNum = seq_num, ph_PC = inst_PC, ph_RASTarget = 0, ph_RASIndex = 0, ph_tid = tid, ph_predTaken = pred_taken,
      ph_usedRAS = False, ph_wasCall = False, ph_bpHistory = bp_history\<rparr>"

definition MaxThreads :: nat where
  "MaxThreads = 4"

record BPredUnit =
  bu_predictor :: PredType
  bu_predHist :: "PredictorHistory list list"
  bu_localBP :: "LocalBP option"
  bu_tournamentBP :: "TournamentBP option"
  bu_BTB :: DefaultBTB
  bu_RAS :: "ReturnAddrStack list"

text \<open>The parameters of the processor that the constructor reads.\<close>

record BPParams =
  par_predType :: string
  par_localPredictorSize :: "32 word"
  par_localCtrBits :: "32 word"
  par_localHistoryTableSize :: "32 word"
  par_localHistoryBits :: "32 word"
  par_globalPredictorSize :: "32 word"
  par_globalCtrBits :: "32 word"
  par_globalHistoryBits :: "32 word"
  par_choicePredictorSize :: "32 word"
  par_choiceCtrBits :: "32 word"
  par_BTBEntries :: "32 word"
  par_BTBTagSize :: "32 word"
  par_RASSize :: "32 word"
  par_instShiftAmt :: "32 word"

definition BPredUnit_new :: "BPParams \<Rightarrow> BPredUnit res" where
  "BPredUnit_new params =
     bind_res (DefaultBTB_new (par_BTBEntries params) (par_BTBTagSize params) (par_instShiftAmt params)) (\<lambda>BTB.
     bind_res
       (if par_predType params = ''local''
        then bind_res (LocalBP_new (par_localPredictorSize params) (par_localCtrBits params) (par_instShiftAmt params))
               (\<lambda>p. Inr (Some p, None, Local))
        else if par_predType params = ''tournament''
        then bind_res (TournamentBP_new (par_localPredictorSize params) (par_localCtrBits params) (par_localHistoryTableSize params)
                         (par_localHistoryBits params) (par_globalPredictorSize params) (par_globalHistoryBits params)
                         (par_globalCtrBits params) (par_choicePredictorSize params) (par_choiceCtrBits params) (par_instShiftAmt params))
               (\<lambda>p. Inr (None, Some p, Tournament))
        else Inl Fatal)
       (\<lambda>(lp, tp, predictor).
         Inr \<lparr>bu_predictor = predictor, bu_predHist = replicate MaxThreads [], bu_localBP = lp, bu_tournamentBP = tp, bu_BTB = BTB,
              bu_RAS = replicate MaxThreads (ras_init (unat (par_RASSize params)))\<rparr>))"

section \<open>The direction predictor\<close>

text \<open>A dereference of a predictor that was not created is undefined.\<close>

definition deref :: "'a option \<Rightarrow> 'a res" where
  "deref p = (case p of None \<Rightarrow> Inl Undefined | Some x \<Rightarrow> Inr x)"

definition BPUncond :: "BPredUnit \<Rightarrow> (BPHistory option \<times> BPredUnit) res" where
  "BPUncond u =
     (if bu_predictor u = Tournament
      then bind_res (deref (bu_tournamentBP u)) (\<lambda>p. case tb_uncondBr p of (h, p) \<Rightarrow> Inr (h, u\<lparr>bu_tournamentBP := Some p\<rparr>))
      else Inr (None, u))"

definition BPSquash :: "BPHistory option \<Rightarrow> BPredUnit \<Rightarrow> BPredUnit res" where
  "BPSquash bp_history u =
     (case bu_predictor u of
        Local \<Rightarrow> bind_res (deref (bu_localBP u)) (\<lambda>p. bind_res (lb_squash bp_history p) (\<lambda>p. Inr (u\<lparr>bu_localBP := Some p\<rparr>)))
      | Tournament \<Rightarrow> bind_res (deref (bu_tournamentBP u)) (\<lambda>p. bind_res (tb_squash bp_history p) (\<lambda>p. Inr (u\<lparr>bu_tournamentBP := Some p\<rparr>))))"

definition BPLookup :: "Addr \<Rightarrow> BPredUnit \<Rightarrow> (bool \<times> BPHistory option \<times> BPredUnit) res" where
  "BPLookup inst_PC u =
     (case bu_predictor u of
        Local \<Rightarrow> bind_res (deref (bu_localBP u)) (\<lambda>p.
          bind_res (lb_lookup inst_PC None p) (\<lambda>(t, h, p). Inr (t, h, u\<lparr>bu_localBP := Some p\<rparr>)))
      | Tournament \<Rightarrow> bind_res (deref (bu_tournamentBP u)) (\<lambda>p.
          bind_res (tb_lookup inst_PC p) (\<lambda>(t, h, p). Inr (t, h, u\<lparr>bu_tournamentBP := Some p\<rparr>))))"

definition BPUpdate :: "Addr \<Rightarrow> bool \<Rightarrow> BPHistory option \<Rightarrow> BPredUnit \<Rightarrow> BPredUnit res" where
  "BPUpdate inst_PC taken bp_history u =
     (case bu_predictor u of
        Local \<Rightarrow> bind_res (deref (bu_localBP u)) (\<lambda>p.
          bind_res (lb_update inst_PC taken bp_history p) (\<lambda>p. Inr (u\<lparr>bu_localBP := Some p\<rparr>)))
      | Tournament \<Rightarrow> bind_res (deref (bu_tournamentBP u)) (\<lambda>p.
          bind_res (tb_update inst_PC taken bp_history p) (\<lambda>p. Inr (u\<lparr>bu_tournamentBP := Some p\<rparr>))))"

definition BTBValid :: "Addr \<Rightarrow> BPredUnit \<Rightarrow> bool res" where
  "BTBValid inst_PC u = btb_valid inst_PC 0 (bu_BTB u)"

definition BTBLookup :: "Addr \<Rightarrow> BPredUnit \<Rightarrow> Addr res" where
  "BTBLookup inst_PC u = btb_lookup inst_PC 0 (bu_BTB u)"

definition BTBUpdate :: "Addr \<Rightarrow> Addr \<Rightarrow> BPredUnit \<Rightarrow> BPredUnit res" where
  "BTBUpdate inst_PC target_PC u = bind_res (btb_update inst_PC target_PC 0 (bu_BTB u)) (\<lambda>b. Inr (u\<lparr>bu_BTB := b\<rparr>))"

section \<open>Prediction\<close>

text \<open>What \<open>predict\<close> reads of an instruction and of the instruction set.\<close>

record BrInst =
  bi_seqNum :: "64 word"
  bi_isUncondCtrl :: bool
  bi_isReturn :: bool
  bi_isCall :: bool

record ISA_traits =
  isa_MachInst_size :: nat
  isa_has_delay_slot :: bool

definition set_RAS :: "nat \<Rightarrow> ReturnAddrStack \<Rightarrow> BPredUnit \<Rightarrow> BPredUnit" where
  "set_RAS tid r u = u\<lparr>bu_RAS := (bu_RAS u)[tid := r]\<rparr>"

definition set_hist :: "nat \<Rightarrow> PredictorHistory list \<Rightarrow> BPredUnit \<Rightarrow> BPredUnit" where
  "set_hist tid hs u = u\<lparr>bu_predHist := (bu_predHist u)[tid := hs]\<rparr>"

text \<open>The target of a return.\<close>

definition predict_return :: "nat \<Rightarrow> PredictorHistory \<Rightarrow> BPredUnit \<Rightarrow> (bool \<times> Addr \<times> PredictorHistory \<times> BPredUnit) res" where
  "predict_return tid rec u =
     (let ras = bu_RAS u ! tid
      in bind_res (ras_top ras) (\<lambda>target.
         let rec = rec\<lparr>ph_usedRAS := True, ph_RASIndex := ras_topIdx ras, ph_RASTarget := target\<rparr>
         in guard_res AssertFail (ph_RASIndex rec < 16) (Inr (True, target, rec, set_RAS tid (ras_pop ras) u))))"

text \<open>The target of another branch; a call enters its return address.\<close>

definition predict_branch :: "ISA_traits \<Rightarrow> BrInst \<Rightarrow> Addr \<Rightarrow> nat \<Rightarrow> PredictorHistory \<Rightarrow> BPredUnit \<Rightarrow> (bool \<times> Addr \<times> PredictorHistory \<times> BPredUnit) res" where
  "predict_branch isa inst PC tid rec u =
     bind_res
       (if bi_isCall inst
        then let ras_pc = PC + (if isa_has_delay_slot isa then 2 * of_nat (isa_MachInst_size isa) else of_nat (isa_MachInst_size isa))
             in bind_res (ras_push ras_pc (bu_RAS u ! tid)) (\<lambda>r. Inr (rec\<lparr>ph_wasCall := True\<rparr>, set_RAS tid r u))
        else Inr (rec, u))
       (\<lambda>(rec, u).
         bind_res (btb_valid PC tid (bu_BTB u)) (\<lambda>valid.
         if valid then bind_res (btb_lookup PC tid (bu_BTB u)) (\<lambda>target. Inr (True, target, rec, u))
         else Inr (False, PC, rec, u)))"

definition predict :: "ISA_traits \<Rightarrow> BrInst \<Rightarrow> Addr \<Rightarrow> nat \<Rightarrow> BPredUnit \<Rightarrow> (bool \<times> Addr \<times> BPredUnit) res" where
  "predict isa inst PC tid u =
     guard_res Undefined (tid < MaxThreads)
     (bind_res (if bi_isUncondCtrl inst then bind_res (BPUncond u) (\<lambda>(h, u). Inr (True, h, u)) else BPLookup PC u)
      (\<lambda>(pred_taken, bp_history, u).
        let predict_record = PredictorHistory_new (bi_seqNum inst) PC pred_taken bp_history tid
        in bind_res
             (if pred_taken
              then (if bi_isReturn inst then predict_return tid predict_record u else predict_branch isa inst PC tid predict_record u)
              else Inr (False, PC, predict_record, u))
             (\<lambda>(pred_taken, target, predict_record, u).
               Inr (pred_taken, target, set_hist tid (predict_record # bu_predHist u ! tid) u))))"

section \<open>Commit and squash\<close>

text \<open>The loop of \<open>update\<close>, over the history from the oldest record on.\<close>

fun update_loop :: "64 word \<Rightarrow> PredictorHistory list \<Rightarrow> BPredUnit \<Rightarrow> (PredictorHistory list \<times> BPredUnit) res" where
  "update_loop done_sn [] u = Inr ([], u)"
| "update_loop done_sn (h # hs) u =
     (if ph_seqNum h \<le> done_sn
      then bind_res (BPUpdate (ph_PC h) (ph_predTaken h) (ph_bpHistory h) u) (update_loop done_sn hs)
      else Inr (h # hs, u))"

definition bu_update :: "64 word \<Rightarrow> nat \<Rightarrow> BPredUnit \<Rightarrow> BPredUnit res" where
  "bu_update done_sn tid u =
     guard_res Undefined (tid < MaxThreads)
     (bind_res (update_loop done_sn (rev (bu_predHist u ! tid)) u) (\<lambda>(hs, u). Inr (set_hist tid (rev hs) u)))"

definition squash_one :: "nat \<Rightarrow> PredictorHistory \<Rightarrow> BPredUnit \<Rightarrow> BPredUnit res" where
  "squash_one tid h u =
     bind_res
       (if ph_usedRAS h
        then bind_res (ras_restore (ph_RASIndex h) (ph_RASTarget h) (bu_RAS u ! tid)) (\<lambda>r. Inr (set_RAS tid r u))
        else if ph_wasCall h then Inr (set_RAS tid (ras_pop (bu_RAS u ! tid)) u)
        else Inr u)
       (BPSquash (ph_bpHistory h))"

fun squash_hist_loop :: "64 word \<Rightarrow> nat \<Rightarrow> PredictorHistory list \<Rightarrow> BPredUnit \<Rightarrow> (PredictorHistory list \<times> BPredUnit) res" where
  "squash_hist_loop squashed_sn tid [] u = Inr ([], u)"
| "squash_hist_loop squashed_sn tid (h # hs) u =
     (if ph_seqNum h > squashed_sn then bind_res (squash_one tid h u) (squash_hist_loop squashed_sn tid hs)
      else Inr (h # hs, u))"

definition bu_squash :: "64 word \<Rightarrow> nat \<Rightarrow> BPredUnit \<Rightarrow> BPredUnit res" where
  "bu_squash squashed_sn tid u =
     guard_res Undefined (tid < MaxThreads)
     (bind_res (squash_hist_loop squashed_sn tid (bu_predHist u ! tid) u) (\<lambda>(hs, u). Inr (set_hist tid hs u)))"

text \<open>The squash of a branch that was mispredicted.\<close>

definition bu_squash_correct :: "64 word \<Rightarrow> Addr \<Rightarrow> bool \<Rightarrow> nat \<Rightarrow> BPredUnit \<Rightarrow> BPredUnit res" where
  "bu_squash_correct squashed_sn corr_target actually_taken tid u =
     bind_res (bu_squash squashed_sn tid u) (\<lambda>u.
     case bu_predHist u ! tid of
       [] \<Rightarrow> Inr u
     | h # hs \<Rightarrow>
         guard_res AssertFail (ph_seqNum h = squashed_sn)
         (bind_res (BPUpdate (ph_PC h) actually_taken (ph_bpHistory h) u) (\<lambda>u.
          bind_res (btb_update (ph_PC h) corr_target tid (bu_BTB u)) (\<lambda>b.
          Inr (set_hist tid hs (u\<lparr>bu_BTB := b\<rparr>))))))"

fun switchOut_loop :: "nat list \<Rightarrow> BPredUnit \<Rightarrow> BPredUnit res" where
  "switchOut_loop [] u = Inr u"
| "switchOut_loop (i # is) u = bind_res (bu_squash 0 i u) (switchOut_loop is)"

definition bu_switchOut :: "BPredUnit \<Rightarrow> BPredUnit res" where
  "bu_switchOut u = switchOut_loop [0..<MaxThreads] u"

definition bu_takeOverFrom :: "BPredUnit \<Rightarrow> BPredUnit" where
  "bu_takeOverFrom u = u"

section \<open>The unit as a direction predictor\<close>

definition bp_wf :: "BPredUnit \<Rightarrow> bool" where
  "bp_wf u \<longleftrightarrow> (case bu_predictor u of
      Local \<Rightarrow> (\<exists>p. bu_localBP u = Some p \<and> lb_wf p) | Tournament \<Rightarrow> (\<exists>p. bu_tournamentBP u = Some p \<and> tb_wf p))"

definition bp_hist_ok :: "BPredUnit \<Rightarrow> BPHistory option \<Rightarrow> bool" where
  "bp_hist_ok u h \<longleftrightarrow> (case bu_predictor u of Local \<Rightarrow> h = None | Tournament \<Rightarrow> tb_hist_ok (the (bu_tournamentBP u)) h)"

lemma bp_cases:
  assumes "bp_wf u"
  obtains (loc) p where "bu_predictor u = Local" "bu_localBP u = Some p" "lb_wf p"
    | (tour) p where "bu_predictor u = Tournament" "bu_tournamentBP u = Some p" "tb_wf p"
  using assms by (cases "bu_predictor u") (auto simp: bp_wf_def)

text \<open>The operations keep everything but the predictor.\<close>

definition only_pred :: "BPredUnit \<Rightarrow> BPredUnit \<Rightarrow> bool" where
  "only_pred u v \<longleftrightarrow> bu_predictor v = bu_predictor u \<and> bu_predHist v = bu_predHist u \<and> bu_BTB v = bu_BTB u \<and> bu_RAS v = bu_RAS u"

lemmas bp_defs = bp_wf_def bp_hist_ok_def deref_def BPLookup_def BPUncond_def BPUpdate_def BPSquash_def fun_eq_iff

interpretation unit_bp: direction_predictor BPLookup BPUncond BPUpdate BPSquash bp_wf bp_hist_ok
proof
  fix u a assume u: "bp_wf u"
  then show "\<exists>t h u'. BPLookup a u = Inr (t, h, u') \<and> bp_wf u' \<and> bp_hist_ok u' = bp_hist_ok u \<and> bp_hist_ok u h \<and> BPSquash h u' = Inr u"
  proof (cases rule: bp_cases)
    case (loc p)
    obtain t where "lb_lookup a None p = Inr (t, None, p)" using local_bp.lookup_ok [OF loc(3), of a] by (auto simp: lb_squash_def)
    then show ?thesis using loc by (auto simp: bp_defs lb_squash_def)
  next
    case (tour p)
    obtain t h p' where th: "tb_lookup a p = Inr (t, h, p')" "tb_wf p'" "tb_hist_ok p' = tb_hist_ok p" "tb_hist_ok p h" "tb_squash h p' = Inr p"
      using tournament_bp.lookup_ok [OF tour(3), of a] by blast
    then show ?thesis using tour by (auto simp: bp_defs)
  qed
next
  fix u assume u: "bp_wf u"
  then show "\<exists>h u'. BPUncond u = Inr (h, u') \<and> bp_wf u' \<and> bp_hist_ok u' = bp_hist_ok u \<and> bp_hist_ok u h \<and> BPSquash h u' = Inr u"
  proof (cases rule: bp_cases)
    case (loc p)
    then show ?thesis by (auto simp: bp_defs lb_squash_def)
  next
    case (tour p)
    obtain h p' where "tb_uncondBr p = (h, p')" "tb_wf p'" "tb_hist_ok p' = tb_hist_ok p" "tb_hist_ok p h" "tb_squash h p' = Inr p"
      using tournament_bp.uncond_ok [OF tour(3)] by (auto simp: tb_uncond_def)
    then show ?thesis using tour by (auto simp: bp_defs)
  qed
next
  fix u h a t assume u: "bp_wf u" "bp_hist_ok u h"
  from u(1) show "\<exists>u'. BPUpdate a t h u = Inr u' \<and> bp_wf u' \<and> bp_hist_ok u' = bp_hist_ok u"
  proof (cases rule: bp_cases)
    case (loc p)
    then show ?thesis using local_bp.update_ok [OF loc(3), of h a t] u(2) by (auto simp: bp_defs)
  next
    case (tour p)
    then show ?thesis using tournament_bp.update_ok [OF tour(3), of h a t] u(2) by (auto simp: bp_defs)
  qed
next
  fix u h assume u: "bp_wf u" "bp_hist_ok u h"
  from u(1) show "\<exists>u'. BPSquash h u = Inr u' \<and> bp_wf u' \<and> bp_hist_ok u' = bp_hist_ok u"
  proof (cases rule: bp_cases)
    case (loc p)
    then show ?thesis using u(2) by (auto simp: bp_defs lb_squash_def)
  next
    case (tour p)
    then show ?thesis using tournament_bp.squash_ok [OF tour(3), of h] u(2) by (auto simp: bp_defs)
  qed
qed

lemma BPSquash_only: "BPSquash h u = Inr u' \<Longrightarrow> only_pred u u'"
  by (auto simp: BPSquash_def only_pred_def res_simps split: PredType.splits)

lemma BPUpdate_only: "BPUpdate a t h u = Inr u' \<Longrightarrow> only_pred u u'"
  by (auto simp: BPUpdate_def only_pred_def res_simps split: PredType.splits)

lemma guess_only: "unit_bp.guess b a u = Inr (t, h, u') \<Longrightarrow> only_pred u u'"
  by (auto simp: unit_bp.guess_def BPLookup_def BPUncond_def tb_uncondBr_def only_pred_def res_simps split: PredType.splits if_splits prod.splits)

section \<open>The invariant\<close>

definition rec_ok :: "nat \<Rightarrow> BPredUnit \<Rightarrow> PredictorHistory \<Rightarrow> bool" where
  "rec_ok n u h \<longleftrightarrow> bp_hist_ok u (ph_bpHistory h) \<and> (ph_usedRAS h \<longrightarrow> ph_RASIndex h < n)"

definition bu_wf :: "nat \<Rightarrow> BPredUnit \<Rightarrow> bool" where
  "bu_wf n u \<longleftrightarrow> bp_wf u \<and> btb_wf (bu_BTB u) \<and> length (bu_RAS u) = MaxThreads \<and> (\<forall>r \<in> set (bu_RAS u). ras_wf r \<and> ras_numEntries r = n) \<and>
     length (bu_predHist u) = MaxThreads \<and> (\<forall>hs \<in> set (bu_predHist u). \<forall>h \<in> set hs. rec_ok n u h)"

lemma set_simps [simp]:
  "bp_wf (set_RAS t r u) = bp_wf u" "bp_hist_ok (set_RAS t r u) = bp_hist_ok u" "bp_wf (set_hist t hs u) = bp_wf u"
  "bp_hist_ok (set_hist t hs u) = bp_hist_ok u" "bp_wf (u\<lparr>bu_BTB := b\<rparr>) = bp_wf u" "bp_hist_ok (u\<lparr>bu_BTB := b\<rparr>) = bp_hist_ok u"
  "bu_BTB (set_RAS t r u) = bu_BTB u" "bu_BTB (set_hist t hs u) = bu_BTB u" "bu_RAS (set_hist t hs u) = bu_RAS u"
  "bu_predHist (set_RAS t r u) = bu_predHist u" "bu_RAS (set_RAS t r u) = (bu_RAS u)[t := r]" "bu_predHist (set_hist t hs u) = (bu_predHist u)[t := hs]"
  "bu_predictor (set_RAS t r u) = bu_predictor u" "bu_predictor (set_hist t hs u) = bu_predictor u"
  "bu_localBP (set_RAS t r u) = bu_localBP u" "bu_localBP (set_hist t hs u) = bu_localBP u"
  "bu_tournamentBP (set_RAS t r u) = bu_tournamentBP u" "bu_tournamentBP (set_hist t hs u) = bu_tournamentBP u"
  by (simp_all add: set_RAS_def set_hist_def bp_wf_def bp_hist_ok_def fun_eq_iff split: PredType.split)

lemma bu_wf_pred: "bu_wf n u \<Longrightarrow> only_pred u u' \<Longrightarrow> bp_wf u' \<Longrightarrow> bp_hist_ok u' = bp_hist_ok u \<Longrightarrow> bu_wf n u'"
  by (simp add: bu_wf_def only_pred_def rec_ok_def)

lemma bu_wf_RAS: "bu_wf n u \<Longrightarrow> ras_wf r \<Longrightarrow> ras_numEntries r = n \<Longrightarrow> bu_wf n (set_RAS t r u)"
  using set_update_subset_insert [of "bu_RAS u" t r] by (auto simp: bu_wf_def rec_ok_def)

lemma bu_wf_hist: "bu_wf n u \<Longrightarrow> \<forall>h \<in> set hs. rec_ok n u h \<Longrightarrow> bu_wf n (set_hist t hs u)"
  using set_update_subset_insert [of "bu_predHist u" t hs] by (auto simp: bu_wf_def rec_ok_def)

lemma bu_wf_BTB: "bu_wf n u \<Longrightarrow> btb_wf b \<Longrightarrow> bu_wf n (u\<lparr>bu_BTB := b\<rparr>)"
  by (simp add: bu_wf_def rec_ok_def)

lemma bu_wf_at:
  assumes "bu_wf n u" "t < MaxThreads"
  shows "ras_wf (bu_RAS u ! t)" "ras_numEntries (bu_RAS u ! t) = n" "t < length (bu_RAS u)" "t < length (bu_predHist u)" "\<forall>h \<in> set (bu_predHist u ! t). rec_ok n u h"
  using assms by (simp_all add: bu_wf_def) (metis nth_mem)

text \<open>What a prediction did to the stack of its thread, as its record tells.\<close>

definition ras_effect :: "PredictorHistory \<Rightarrow> ReturnAddrStack \<Rightarrow> ReturnAddrStack \<Rightarrow> bool" where
  "ras_effect rec r r' \<longleftrightarrow>
     (if ph_usedRAS rec then r' = ras_pop r \<and> ph_RASIndex rec = ras_tos r \<and> ph_RASTarget rec = ras_addrStack r ! ras_tos r
      else if ph_wasCall rec then \<exists>a. ras_push a r = Inr r' else r' = r)"

lemma ras_effect_wf:
  assumes "ras_effect rec r r'" "ras_wf r"
  shows "ras_wf r'" "ras_numEntries r' = ras_numEntries r" "ph_usedRAS rec \<Longrightarrow> ph_RASIndex rec < ras_numEntries r"
proof -
  have "ras_wf x \<and> ras_numEntries x = ras_numEntries r" if "ras_push a r = Inr x" for a x using ras_push_wf [OF assms(2), of a] that by auto
  then show "ras_wf r'" "ras_numEntries r' = ras_numEntries r" using assms ras_pop_wf [OF assms(2)] by (auto simp: ras_effect_def split: if_splits)
  show "ph_usedRAS rec \<Longrightarrow> ph_RASIndex rec < ras_numEntries r" using assms by (simp add: ras_effect_def ras_wf_def)
qed

lemma set_RAS_same: "set_RAS t (bu_RAS u ! t) u = u"
  by (simp add: set_RAS_def)

lemma set_hist_same: "set_hist t (bu_predHist u ! t) u = u"
  by (simp add: set_hist_def)

lemma predict_branch_ok:
  assumes "bu_wf n u" "tid < MaxThreads" "\<not> ph_usedRAS rec" "\<not> ph_wasCall rec"
  obtains pt target c r where "predict_branch isa inst PC tid rec u = Inr (pt, target, rec\<lparr>ph_wasCall := c\<rparr>, set_RAS tid r u)" "ras_effect (rec\<lparr>ph_wasCall := c\<rparr>) (bu_RAS u ! tid) r"
proof -
  note at = bu_wf_at [OF assms(1,2)]
  have b: "btb_wf (bu_BTB u)" using assms(1) by (simp add: bu_wf_def)
  obtain v target where v: "btb_valid PC tid (bu_BTB u) = Inr v" "btb_lookup PC tid (bu_BTB u) = Inr target" using btb_total [OF b] by metis
  show thesis
  proof (cases "bi_isCall inst")
    case True
    obtain r where r: "ras_push (PC + (if isa_has_delay_slot isa then 2 * of_nat (isa_MachInst_size isa) else of_nat (isa_MachInst_size isa))) (bu_RAS u ! tid) = Inr r"
      using ras_push_wf [OF at(1)] by blast
    show thesis by (rule that [of v "if v then target else PC" True r]) (use True r v assms(3) in \<open>auto simp: predict_branch_def ras_effect_def Let_def\<close>)
  next
    case False
    show thesis by (rule that [of v "if v then target else PC" False "bu_RAS u ! tid"]) (use False v assms(3,4) in \<open>auto simp: predict_branch_def ras_effect_def set_RAS_same\<close>)
  qed
qed

lemma predict_step:
  assumes "bu_wf n u" "n \<le> 16" "tid < MaxThreads"
  obtains pt target rec r u0 where
    "predict isa inst PC tid u = Inr (pt, target, set_hist tid (rec # bu_predHist u ! tid) (set_RAS tid r u0))"
    "ph_seqNum rec = bi_seqNum inst" "ras_effect rec (bu_RAS u ! tid) r"
    "only_pred u u0" "bp_wf u0" "bp_hist_ok u0 = bp_hist_ok u" "bp_hist_ok u (ph_bpHistory rec)" "BPSquash (ph_bpHistory rec) u0 = Inr u"
proof -
  obtain t h u0 where g: "unit_bp.guess (bi_isUncondCtrl inst) PC u = Inr (t, h, u0)" "bp_wf u0" "bp_hist_ok u0 = bp_hist_ok u" "bp_hist_ok u h" "BPSquash h u0 = Inr u"
    using unit_bp.guess_ok [of u "bi_isUncondCtrl inst" PC] assms(1) unfolding bu_wf_def by metis
  have o: "only_pred u u0" by (rule guess_only [OF g(1)])
  have wf0: "bu_wf n u0" by (rule bu_wf_pred [OF assms(1) o g(2,3)])
  note at = bu_wf_at [OF wf0 assms(3)]
  define rec where "rec = PredictorHistory_new (bi_seqNum inst) PC t h tid"
  let ?k = "if t then (if bi_isReturn inst then predict_return tid rec u0 else predict_branch isa inst PC tid rec u0) else Inr (False, PC, rec, u0)"
  have p: "predict isa inst PC tid u = bind_res ?k (\<lambda>(pt, target, rec, u). Inr (pt, target, set_hist tid (rec # bu_predHist u ! tid) u))"
    using g(1) assms(3) by (simp add: predict_def unit_bp.guess_def rec_def)
  have flags: "\<not> ph_usedRAS rec" "\<not> ph_wasCall rec" "ph_seqNum rec = bi_seqNum inst" "ph_bpHistory rec = h" by (simp_all add: rec_def PredictorHistory_new_def)
  obtain pt target rec' r where k: "?k = Inr (pt, target, rec', set_RAS tid r u0)" "ras_effect rec' (bu_RAS u0 ! tid) r"
    "ph_seqNum rec' = bi_seqNum inst" "ph_bpHistory rec' = h"
  proof -
    consider "\<not> t" | "t" "bi_isReturn inst" | "t" "\<not> bi_isReturn inst" by blast
    then show thesis
    proof cases
      case 1
      show thesis by (rule that [of False PC rec "bu_RAS u0 ! tid"]) (use 1 in \<open>simp_all add: set_RAS_same ras_effect_def rec_def PredictorHistory_new_def\<close>)
    next
      case 2
      have "ras_tos (bu_RAS u0 ! tid) < 16" using at(1,2) assms(2) by (simp add: ras_wf_def)
      then show thesis using 2 at(1) that [of True "ras_addrStack (bu_RAS u0 ! tid) ! ras_tos (bu_RAS u0 ! tid)" _ "ras_pop (bu_RAS u0 ! tid)"]
        by (simp add: predict_return_def ras_top_eq ras_topIdx_def Let_def ras_effect_def rec_def PredictorHistory_new_def)
    next
      case 3
      obtain pt target c r where b: "predict_branch isa inst PC tid rec u0 = Inr (pt, target, rec\<lparr>ph_wasCall := c\<rparr>, set_RAS tid r u0)"
        "ras_effect (rec\<lparr>ph_wasCall := c\<rparr>) (bu_RAS u0 ! tid) r" by (rule predict_branch_ok [OF wf0 assms(3) flags(1,2)])
      show thesis by (rule that [of pt target "rec\<lparr>ph_wasCall := c\<rparr>" r]) (use 3 b flags(3,4) in simp_all)
    qed
  qed
  show thesis by (rule that [of pt target rec' r u0]) (use k p o g in \<open>simp_all add: only_pred_def\<close>)
qed

lemma step_wf:
  assumes "bu_wf n u" "tid < MaxThreads" "ras_effect rec (bu_RAS u ! tid) r" "only_pred u u0" "bp_wf u0" "bp_hist_ok u0 = bp_hist_ok u" "bp_hist_ok u (ph_bpHistory rec)"
  shows "bu_wf n (set_hist tid (rec # bu_predHist u ! tid) (set_RAS tid r u0))"
proof -
  note at = bu_wf_at [OF assms(1,2)]
  note eff = ras_effect_wf [OF assms(3) at(1)]
  have "bu_wf n (set_RAS tid r u0)" by (intro bu_wf_RAS bu_wf_pred [OF assms(1,4-6)]) (use eff at(2) in simp_all)
  then show ?thesis by (rule bu_wf_hist) (use at(2,5) eff(3) assms(6,7) in \<open>simp add: rec_ok_def\<close>)
qed

lemma rec_update:
  assumes "bu_wf n u" "rec_ok n u h"
  obtains u' where "BPUpdate a t (ph_bpHistory h) u = Inr u'" "bu_wf n u'" "bp_hist_ok u' = bp_hist_ok u" "only_pred u u'"
proof -
  obtain u' where u': "BPUpdate a t (ph_bpHistory h) u = Inr u'" "bp_wf u'" "bp_hist_ok u' = bp_hist_ok u"
    using unit_bp.update_ok [of u "ph_bpHistory h" a t] assms unfolding bu_wf_def rec_ok_def by blast
  then show thesis using that bu_wf_pred [OF assms(1) BPUpdate_only [OF u'(1)]] BPUpdate_only [OF u'(1)] by blast
qed

lemma update_loop_ok:
  assumes "bu_wf n u" "\<forall>h \<in> set hs. rec_ok n u h"
  shows "\<exists>hs' u'. update_loop sn hs u = Inr (hs', u') \<and> bu_wf n u' \<and> set hs' \<subseteq> set hs \<and> bp_hist_ok u' = bp_hist_ok u \<and> only_pred u u'"
  using assms
proof (induction hs arbitrary: u)
  case (Cons h hs)
  show ?case
  proof (cases "ph_seqNum h \<le> sn")
    case True
    obtain u1 where u1: "BPUpdate (ph_PC h) (ph_predTaken h) (ph_bpHistory h) u = Inr u1" "bu_wf n u1" "bp_hist_ok u1 = bp_hist_ok u" "only_pred u u1"
      using rec_update [OF Cons.prems(1)] Cons.prems(2) by (metis list.set_intros(1))
    then obtain hs' u' where "update_loop sn hs u1 = Inr (hs', u')" "bu_wf n u'" "set hs' \<subseteq> set hs" "bp_hist_ok u' = bp_hist_ok u1" "only_pred u1 u'"
      using Cons.IH [of u1] Cons.prems(2) u1(2,3) by (auto simp: rec_ok_def)
    then show ?thesis using True u1(1,3,4) by (auto simp: only_pred_def)
  qed (use Cons.prems in \<open>simp add: only_pred_def\<close>)
qed (simp add: only_pred_def)

lemma bu_update_ok:
  assumes "bu_wf n u" "tid < MaxThreads"
  shows "\<exists>u'. bu_update sn tid u = Inr u' \<and> bu_wf n u'"
proof -
  note at = bu_wf_at [OF assms]
  obtain hs' u' where l: "update_loop sn (rev (bu_predHist u ! tid)) u = Inr (hs', u')" "bu_wf n u'" "set hs' \<subseteq> set (bu_predHist u ! tid)" "bp_hist_ok u' = bp_hist_ok u"
    using update_loop_ok [OF assms(1), of "rev (bu_predHist u ! tid)" sn] at(5) by auto
  have "\<forall>h \<in> set (rev hs'). rec_ok n u' h" using at(5) l(3,4) by (auto simp: rec_ok_def)
  then show ?thesis using l(1) assms(2) bu_wf_hist [OF l(2)] by (simp add: bu_update_def)
qed

lemma squash_one_ok:
  assumes "bu_wf n u" "tid < MaxThreads" "rec_ok n u h"
  shows "\<exists>u'. squash_one tid h u = Inr u' \<and> bu_wf n u' \<and> bp_hist_ok u' = bp_hist_ok u \<and> bu_predHist u' = bu_predHist u \<and> bu_BTB u' = bu_BTB u"
proof -
  note at = bu_wf_at [OF assms(1,2)]
  obtain r where r: "squash_one tid h u = BPSquash (ph_bpHistory h) (set_RAS tid r u)" "ras_wf r" "ras_numEntries r = n"
  proof -
    consider "ph_usedRAS h" | "\<not> ph_usedRAS h" "ph_wasCall h" | "\<not> ph_usedRAS h" "\<not> ph_wasCall h" by blast
    then show thesis
    proof cases
      case 1
      then obtain r where "ras_restore (ph_RASIndex h) (ph_RASTarget h) (bu_RAS u ! tid) = Inr r" "ras_wf r" "ras_numEntries r = n"
        using ras_restore_wf [OF at(1), of "ph_RASIndex h"] assms(3) at(2) by (metis rec_ok_def)
      then show thesis using that 1 by (simp add: squash_one_def)
    next
      case 2
      then show thesis using that ras_pop_wf [OF at(1)] at(2) by (simp add: squash_one_def)
    next
      case 3
      then show thesis using that [of "bu_RAS u ! tid"] at(1,2) by (simp add: squash_one_def set_RAS_same)
    qed
  qed
  have wf: "bu_wf n (set_RAS tid r u)" by (rule bu_wf_RAS [OF assms(1) r(2,3)])
  obtain u' where u': "BPSquash (ph_bpHistory h) (set_RAS tid r u) = Inr u'" "bp_wf u'" "bp_hist_ok u' = bp_hist_ok (set_RAS tid r u)"
    using unit_bp.squash_ok [of "set_RAS tid r u" "ph_bpHistory h"] wf assms(3) by (auto simp: bu_wf_def rec_ok_def)
  show ?thesis using u' r(1) bu_wf_pred [OF wf BPSquash_only [OF u'(1)] u'(2,3)] BPSquash_only [OF u'(1)] by (simp add: only_pred_def)
qed

lemma squash_hist_loop_ok:
  assumes "bu_wf n u" "tid < MaxThreads" "\<forall>h \<in> set hs. rec_ok n u h"
  shows "\<exists>hs' u'. squash_hist_loop sn tid hs u = Inr (hs', u') \<and> bu_wf n u' \<and> set hs' \<subseteq> set hs \<and> bp_hist_ok u' = bp_hist_ok u"
  using assms
proof (induction hs arbitrary: u)
  case (Cons h hs)
  show ?case
  proof (cases "ph_seqNum h > sn")
    case True
    obtain u1 where u1: "squash_one tid h u = Inr u1" "bu_wf n u1" "bp_hist_ok u1 = bp_hist_ok u"
      using squash_one_ok [OF Cons.prems(1,2), of h] Cons.prems(3) by auto
    then obtain hs' u' where "squash_hist_loop sn tid hs u1 = Inr (hs', u')" "bu_wf n u'" "set hs' \<subseteq> set hs" "bp_hist_ok u' = bp_hist_ok u1"
      using Cons.IH [OF u1(2) Cons.prems(2)] Cons.prems(3) by (auto simp: rec_ok_def)
    then show ?thesis using True u1(1,3) by auto
  qed (use Cons.prems in simp)
qed simp

lemma bu_squash_ok:
  assumes "bu_wf n u" "tid < MaxThreads"
  shows "\<exists>u'. bu_squash sn tid u = Inr u' \<and> bu_wf n u'"
proof -
  note at = bu_wf_at [OF assms]
  obtain hs' u' where l: "squash_hist_loop sn tid (bu_predHist u ! tid) u = Inr (hs', u')" "bu_wf n u'" "set hs' \<subseteq> set (bu_predHist u ! tid)" "bp_hist_ok u' = bp_hist_ok u"
    using squash_hist_loop_ok [OF assms at(5)] by blast
  have "\<forall>h \<in> set hs'. rec_ok n u' h" using at(5) l(3,4) by (auto simp: rec_ok_def)
  then show ?thesis using l(1) assms(2) bu_wf_hist [OF l(2)] by (simp add: bu_squash_def)
qed

lemma bu_squash_correct_ok:
  assumes "bu_wf n u" "tid < MaxThreads" "bu_squash sn tid u = Inr u1"
  shows "if bu_predHist u1 ! tid = [] \<or> ph_seqNum (hd (bu_predHist u1 ! tid)) = sn
    then \<exists>u'. bu_squash_correct sn target taken tid u = Inr u' \<and> bu_wf n u' else bu_squash_correct sn target taken tid u = Inl AssertFail"
proof -
  have u1: "bu_wf n u1" using bu_squash_ok [OF assms(1,2), of sn] assms(3) by simp
  note at = bu_wf_at [OF u1 assms(2)]
  show ?thesis
  proof (cases "bu_predHist u1 ! tid")
    case Nil
    then show ?thesis using assms(3) u1 by (simp add: bu_squash_correct_def)
  next
    case (Cons h hs)
    obtain u2 where u2: "BPUpdate (ph_PC h) taken (ph_bpHistory h) u1 = Inr u2" "bu_wf n u2" "bp_hist_ok u2 = bp_hist_ok u1"
      using rec_update [OF u1] at(5) Cons by (metis list.set_intros(1))
    then obtain b where b: "btb_update (ph_PC h) target tid (bu_BTB u2) = Inr b" "btb_wf b" using btb_total(3) by (metis bu_wf_def)
    have "bu_wf n (set_hist tid hs (u2\<lparr>bu_BTB := b\<rparr>))"
      by (rule bu_wf_hist [OF bu_wf_BTB [OF u2(2) b(2)]]) (use at(5) Cons u2(3) in \<open>simp add: rec_ok_def\<close>)
    then show ?thesis using assms(3) Cons u2(1) b(1) by (auto simp: bu_squash_correct_def guard_res_def)
  qed
qed

section \<open>Predictions are taken back\<close>

fun predict_all :: "ISA_traits \<Rightarrow> nat \<Rightarrow> (BrInst \<times> Addr) list \<Rightarrow> BPredUnit \<Rightarrow> BPredUnit res" where
  "predict_all isa tid [] u = Inr u"
| "predict_all isa tid ((inst, PC) # bs) u = bind_res (predict isa inst PC tid u) (\<lambda>(_, _, u). predict_all isa tid bs u)"

fun squash_list :: "nat \<Rightarrow> PredictorHistory list \<Rightarrow> BPredUnit \<Rightarrow> BPredUnit res" where
  "squash_list tid [] u = Inr u"
| "squash_list tid (h # hs) u = bind_res (squash_one tid h u) (squash_list tid hs)"

lemma squash_list_append: "squash_list tid (hs @ gs) u = bind_res (squash_list tid hs u) (squash_list tid gs)"
proof (induction hs arbitrary: u)
  case (Cons h hs)
  then show ?case by (cases "squash_one tid h u") simp_all
qed simp

lemma squash_hist_loop_split:
  assumes "\<forall>h \<in> set hs. sn < ph_seqNum h" "\<forall>h \<in> set old. ph_seqNum h \<le> sn"
  shows "squash_hist_loop sn tid (hs @ old) u = bind_res (squash_list tid hs u) (\<lambda>u. Inr (old, u))"
  using assms(1)
proof (induction hs arbitrary: u)
  case Nil
  then show ?case using assms(2) by (cases old) (auto simp: not_less)
next
  case (Cons h hs)
  then show ?case by (cases "squash_one tid h u") simp_all
qed

text \<open>By how much the calls exceed the returns made before them, over records given newest first as
  the history has them: the number of entries that the calls overwrite for good.\<close>

definition call_excess :: "PredictorHistory list \<Rightarrow> nat" where
  "call_excess hs = fold (\<lambda>h d. if ph_usedRAS h then d - 1 else if ph_wasCall h then d + 1 else d) hs 0"

lemma call_excess_append: "call_excess (hs @ [h]) = (if ph_usedRAS h then call_excess hs - 1 else if ph_wasCall h then call_excess hs + 1 else call_excess hs)"
  by (simp add: call_excess_def)

definition same_bp :: "BPredUnit \<Rightarrow> BPredUnit \<Rightarrow> bool" where
  "same_bp u v \<longleftrightarrow> bu_predictor v = bu_predictor u \<and> bu_localBP v = bu_localBP u \<and> bu_tournamentBP v = bu_tournamentBP u \<and> bu_BTB v = bu_BTB u"

lemma BPSquash_same:
  assumes "BPSquash h u = Inr u'" "same_bp u w"
  shows "\<exists>w'. BPSquash h w = Inr w' \<and> same_bp u' w' \<and> bu_predHist w' = bu_predHist w \<and> bu_RAS w' = bu_RAS w"
  using assms by (auto simp: BPSquash_def same_bp_def res_simps split: PredType.splits)

lemma undo_one:
  assumes "ras_wf r0" "ras_effect h r0 r" "ras_agree d r (bu_RAS w ! tid)" "tid < length (bu_RAS w)" "BPSquash (ph_bpHistory h) u0 = Inr u" "same_bp u0 w"
  shows "\<exists>r' w'. squash_one tid h w = Inr w' \<and> same_bp u w' \<and> bu_predHist w' = bu_predHist w \<and> bu_RAS w' = (bu_RAS w)[tid := r'] \<and>
     ras_agree (if ph_usedRAS h then d - 1 else if ph_wasCall h then d + 1 else d) r0 r'"
proof -
  obtain r' where r': "squash_one tid h w = BPSquash (ph_bpHistory h) (set_RAS tid r' w)" "ras_agree (if ph_usedRAS h then d - 1 else if ph_wasCall h then d + 1 else d) r0 r'"
  proof -
    consider "ph_usedRAS h" | "\<not> ph_usedRAS h" "ph_wasCall h" | "\<not> ph_usedRAS h" "\<not> ph_wasCall h" by blast
    then show thesis
    proof cases
      case 1
      then show thesis using that ras_pop_undo [OF assms(1), of d "bu_RAS w ! tid"] assms(2,3) by (auto simp: squash_one_def ras_effect_def)
    next
      case 2
      then show thesis using that ras_push_undo [OF assms(1) _ assms(3)] assms(2) by (auto simp: squash_one_def ras_effect_def)
    next
      case 3
      then show thesis using that [of "bu_RAS w ! tid"] assms(2,3) by (simp add: squash_one_def set_RAS_same ras_effect_def)
    qed
  qed
  have "same_bp u0 (set_RAS tid r' w)" using assms(6) by (simp add: same_bp_def)
  then show ?thesis using BPSquash_same [OF assms(5), of "set_RAS tid r' w"] r' by auto
qed

lemma predict_all_undo:
  assumes "bu_wf n u" "n \<le> 16" "tid < MaxThreads"
  shows "\<exists>u1 hs v r. predict_all isa tid bs u = Inr u1 \<and> bu_predHist u1 = (bu_predHist u)[tid := hs @ bu_predHist u ! tid] \<and>
     map ph_seqNum (rev hs) = map (bi_seqNum \<circ> fst) bs \<and>
     squash_list tid hs u1 = Inr v \<and> same_bp u v \<and> bu_predHist v = bu_predHist u1 \<and> bu_RAS v = (bu_RAS u)[tid := r] \<and> ras_agree (call_excess hs) (bu_RAS u ! tid) r"
  using assms(1)
proof (induction bs arbitrary: u)
  case Nil
  note at = bu_wf_at [OF Nil assms(3)]
  show ?case using at by (intro exI [of _ u] exI [of _ "[]"] exI [of _ "bu_RAS u ! tid"]) (simp add: same_bp_def call_excess_def ras_agree_def)
next
  case (Cons b bs)
  obtain inst PC where b: "b = (inst, PC)" by (cases b)
  note at = bu_wf_at [OF Cons.prems assms(3)]
  obtain pt target h r u0 where st: "predict isa inst PC tid u = Inr (pt, target, set_hist tid (h # bu_predHist u ! tid) (set_RAS tid r u0))"
    "ph_seqNum h = bi_seqNum inst" "ras_effect h (bu_RAS u ! tid) r"
    "only_pred u u0" "bp_wf u0" "bp_hist_ok u0 = bp_hist_ok u" "bp_hist_ok u (ph_bpHistory h)" "BPSquash (ph_bpHistory h) u0 = Inr u"
    by (rule predict_step [OF Cons.prems assms(2,3)])
  define u' where "u' = set_hist tid (h # bu_predHist u ! tid) (set_RAS tid r u0)"
  have wf': "bu_wf n u'" unfolding u'_def by (rule step_wf [OF Cons.prems assms(3) st(3-7)])
  have u': "bu_predHist u' = (bu_predHist u)[tid := h # bu_predHist u ! tid]" "bu_RAS u' = (bu_RAS u)[tid := r]" "same_bp u0 u'"
    using st(4) by (simp_all add: u'_def only_pred_def same_bp_def)
  obtain u1 hs v r1 where ih: "predict_all isa tid bs u' = Inr u1" "bu_predHist u1 = (bu_predHist u')[tid := hs @ bu_predHist u' ! tid]"
     "map ph_seqNum (rev hs) = map (bi_seqNum \<circ> fst) bs" "squash_list tid hs u1 = Inr v" "same_bp u' v" "bu_predHist v = bu_predHist u1"
     "bu_RAS v = (bu_RAS u')[tid := r1]" "ras_agree (call_excess hs) (bu_RAS u' ! tid) r1"
    using Cons.IH [OF wf'] by blast
  have "ras_agree (call_excess hs) r (bu_RAS v ! tid)" "tid < length (bu_RAS v)" "same_bp u0 v" using ih(5,7,8) u'(2,3) at(3) by (simp_all add: same_bp_def)
  from undo_one [OF at(1) st(3) this(1,2) st(8) this(3)] obtain r' w' where w':
    "squash_one tid h v = Inr w'" "same_bp u w'" "bu_predHist w' = bu_predHist v" "bu_RAS w' = (bu_RAS v)[tid := r']"
    "ras_agree (call_excess (hs @ [h])) (bu_RAS u ! tid) r'" unfolding call_excess_append by blast
  have "predict_all isa tid (b # bs) u = Inr u1" using b st(1) ih(1) by (simp add: u'_def)
  moreover have "squash_list tid (hs @ [h]) u1 = Inr w'" using ih(4) w'(1) by (simp add: squash_list_append)
  moreover have "bu_predHist u1 = (bu_predHist u)[tid := (hs @ [h]) @ bu_predHist u ! tid]" using ih(2) u'(1) at(4) by simp
  ultimately show ?case using w' ih(3,6,7) u'(2) st(2) b
    by (intro exI [of _ u1] exI [of _ "hs @ [h]"] exI [of _ w'] exI [of _ r']) simp
qed

section \<open>Reachable states\<close>

text \<open>
  The parameters under which the unit works: the stack has 1 to 16 entries, and the table of global counters has an entry
  for every global history, whose number of bits is what the unit passes for it.
\<close>

definition params_ok :: "BPParams \<Rightarrow> bool" where
  "params_ok par \<longleftrightarrow> par_instShiftAmt par < 32 \<and> 0 < par_RASSize par \<and> par_RASSize par \<le> 16 \<and>
     (par_predType par = ''tournament'' \<longrightarrow> 2 ^ unat (par_globalCtrBits par) \<le> unat (par_globalPredictorSize par))"

inductive bu_reach :: "ISA_traits \<Rightarrow> BPParams \<Rightarrow> BPredUnit \<Rightarrow> bool" for isa par where
  start: "BPredUnit_new par = Inr u \<Longrightarrow> bu_reach isa par u"
| predict: "bu_reach isa par u \<Longrightarrow> tid < MaxThreads \<Longrightarrow> predict isa inst PC tid u = Inr (t, target, u') \<Longrightarrow> bu_reach isa par u'"
| update: "bu_reach isa par u \<Longrightarrow> tid < MaxThreads \<Longrightarrow> bu_update sn tid u = Inr u' \<Longrightarrow> bu_reach isa par u'"
| squash: "bu_reach isa par u \<Longrightarrow> tid < MaxThreads \<Longrightarrow> bu_squash sn tid u = Inr u' \<Longrightarrow> bu_reach isa par u'"
| correct: "bu_reach isa par u \<Longrightarrow> tid < MaxThreads \<Longrightarrow> bu_squash_correct sn corr taken tid u = Inr u' \<Longrightarrow> bu_reach isa par u'"

text \<open>What the constructor passes on to the tournament predictor.\<close>

definition passed_bits :: "BPParams \<Rightarrow> BPredUnit \<Rightarrow> bool" where
  "passed_bits par u \<longleftrightarrow> (par_predType par = ''tournament'' \<longrightarrow>
     (\<exists>p. bu_predictor u = Tournament \<and> bu_tournamentBP u = Some p \<and> tb_globalHistoryMask p = 2 ^ unat (par_globalCtrBits par) - 1 \<and> tb_globalCtrBits p = par_globalHistoryBits par))"

lemma BPredUnit_new_wf:
  assumes "BPredUnit_new par = Inr u" "params_ok par"
  shows "bu_wf (unat (par_RASSize par)) u \<and> passed_bits par u"
proof -
  have n: "0 < unat (par_RASSize par)" "unat (par_RASSize par) < 2 ^ 32"
    using assms(2) unsigned_less [of "par_RASSize par", where 'a = nat] by (auto simp: params_ok_def unat_gt_0 word_greater_zero_iff)
  note ras = ras_init_wf [OF n]
  have sh: "par_instShiftAmt par < 64" "par_instShiftAmt par < 32" using assms(2) by (auto simp: params_ok_def word_less_nat_alt)
  obtain b where b: "DefaultBTB_new (par_BTBEntries par) (par_BTBTagSize par) (par_instShiftAmt par) = Inr b"
    using assms(1) by (auto simp: BPredUnit_new_def bind_res_Inr)
  have bwf: "btb_wf b" by (rule DefaultBTB_new_wf [OF b sh(2)])
  consider "par_predType par = ''local''" | "par_predType par = ''tournament''"
    using assms(1) b by (auto simp: BPredUnit_new_def bind_res_Inr split: if_splits)
  then show ?thesis
  proof cases
    case 1
    then obtain p where p: "LocalBP_new (par_localPredictorSize par) (par_localCtrBits par) (par_instShiftAmt par) = Inr p"
      using assms(1) b by (auto simp: BPredUnit_new_def bind_res_Inr)
    show ?thesis using 1 assms(1) b p bwf LocalBP_new_wf [OF p sh(1)] ras
      by (auto simp: BPredUnit_new_def bu_wf_def bp_wf_def passed_bits_def ras_init_def)
  next
    case 2
    then obtain p where p: "TournamentBP_new (par_localPredictorSize par) (par_localCtrBits par) (par_localHistoryTableSize par)
                         (par_localHistoryBits par) (par_globalPredictorSize par) (par_globalHistoryBits par)
                         (par_globalCtrBits par) (par_choicePredictorSize par) (par_choiceCtrBits par) (par_instShiftAmt par) = Inr p"
      using assms(1) b by (auto simp: BPredUnit_new_def bind_res_Inr)
    have "2 ^ unat (par_globalCtrBits par) \<le> unat (par_globalPredictorSize par)" using 2 assms(2) by (simp add: params_ok_def)
    then show ?thesis using 2 assms(1) b p bwf TournamentBP_new_wf [OF p sh(1)] TournamentBP_new_fields [OF p] ras
      by (auto simp: BPredUnit_new_def bu_wf_def bp_wf_def passed_bits_def ras_init_def)
  qed
qed

text \<open>No operation changes the width of the global history or of its counters.\<close>

definition tb_geom :: "TournamentBP \<Rightarrow> 32 word \<times> 32 word" where
  "tb_geom p = (tb_globalHistoryMask p, tb_globalCtrBits p)"

definition bu_geom :: "BPredUnit \<Rightarrow> PredType \<times> (32 word \<times> 32 word) option" where
  "bu_geom u = (bu_predictor u, map_option tb_geom (bu_tournamentBP u))"

lemma tb_geom_hist [simp]: "tb_geom (updateGlobalHistTaken p) = tb_geom p" "tb_geom (updateGlobalHistNotTaken p) = tb_geom p"
  "tb_geom (updateLocalHistTaken i p) = tb_geom p" "tb_geom (updateLocalHistNotTaken i p) = tb_geom p"
  by (simp_all add: tb_geom_def updateGlobalHistTaken_def updateGlobalHistNotTaken_def updateLocalHistTaken_def updateLocalHistNotTaken_def)

lemma tb_geom_lookup: "tb_lookup a p = Inr (t, h, p') \<Longrightarrow> tb_geom p' = tb_geom p"
  by (auto simp: tb_lookup_def Let_def res_simps split: if_splits)

lemma tb_geom_choice: "tb_train_choice t h p = Inr p' \<Longrightarrow> tb_geom p' = tb_geom p"
  by (auto simp: tb_train_choice_def tb_geom_def Let_def res_simps split: if_splits option.splits)

lemma tb_geom_update:
  assumes "tb_update a t h p = Inr p'"
  shows "tb_geom p' = tb_geom p"
proof -
  obtain q where q: "tb_train_choice t h p = Inr q" "tb_geom p' = tb_geom q"
    using assms by (auto simp: tb_update_def Let_def res_simps tb_geom_def updateLocalHistTaken_def updateLocalHistNotTaken_def split: if_splits)
  then show ?thesis using tb_geom_choice by simp
qed

lemma tb_geom_squash: "tb_squash h p = Inr p' \<Longrightarrow> tb_geom p' = tb_geom p"
  by (auto simp: tb_squash_def tb_geom_def split: option.splits)

lemma geom_Squash: "BPSquash h u = Inr u' \<Longrightarrow> bu_geom u' = bu_geom u"
  by (auto simp: BPSquash_def bu_geom_def deref_def res_simps dest: tb_geom_squash split: PredType.splits option.splits)

lemma geom_Update: "BPUpdate a t h u = Inr u' \<Longrightarrow> bu_geom u' = bu_geom u"
  by (auto simp: BPUpdate_def bu_geom_def deref_def res_simps dest: tb_geom_update split: PredType.splits option.splits)

lemma geom_Lookup: "BPLookup a u = Inr (t, h, u') \<Longrightarrow> bu_geom u' = bu_geom u"
  by (auto simp: BPLookup_def bu_geom_def deref_def res_simps dest: tb_geom_lookup split: PredType.splits option.splits)

lemma geom_Uncond: "BPUncond u = Inr (h, u') \<Longrightarrow> bu_geom u' = bu_geom u"
  by (auto simp: BPUncond_def bu_geom_def deref_def tb_uncondBr_def res_simps split: option.splits if_splits)

lemma geom_set [simp]: "bu_geom (set_RAS t r u) = bu_geom u" "bu_geom (set_hist t hs u) = bu_geom u" "bu_geom (u\<lparr>bu_BTB := b\<rparr>) = bu_geom u"
  by (simp_all add: bu_geom_def)

lemma geom_predict:
  assumes "predict isa inst PC tid u = Inr (t, target, u')"
  shows "bu_geom u' = bu_geom u"
proof -
  obtain pt h u0 where u0: "(if bi_isUncondCtrl inst then bind_res (BPUncond u) (\<lambda>(h, u). Inr (True, h, u)) else BPLookup PC u) = Inr (pt, h, u0)"
    using assms by (auto simp: predict_def res_simps)
  then have "bu_geom u0 = bu_geom u" by (auto simp: res_simps dest: geom_Lookup geom_Uncond split: if_splits)
  moreover have "bu_geom u' = bu_geom u0"
    using assms u0 by (auto simp: predict_def predict_return_def predict_branch_def Let_def res_simps split: if_splits)
  ultimately show ?thesis by simp
qed

lemma geom_update_loop: "update_loop sn hs u = Inr (hs', u') \<Longrightarrow> bu_geom u' = bu_geom u"
  by (induction hs arbitrary: u) (auto simp: res_simps dest!: geom_Update split: if_splits)

lemma geom_squash_one: "squash_one tid h u = Inr u' \<Longrightarrow> bu_geom u' = bu_geom u"
  by (auto simp: squash_one_def res_simps dest!: geom_Squash split: if_splits)

lemma geom_squash_hist_loop: "squash_hist_loop sn tid hs u = Inr (hs', u') \<Longrightarrow> bu_geom u' = bu_geom u"
  by (induction hs arbitrary: u) (auto simp: res_simps dest!: geom_squash_one split: if_splits)

lemma geom_update: "bu_update sn tid u = Inr u' \<Longrightarrow> bu_geom u' = bu_geom u"
  by (auto simp: bu_update_def res_simps dest!: geom_update_loop)

lemma geom_squash: "bu_squash sn tid u = Inr u' \<Longrightarrow> bu_geom u' = bu_geom u"
  by (auto simp: bu_squash_def res_simps dest!: geom_squash_hist_loop)

lemma geom_correct:
  assumes "bu_squash_correct sn corr taken tid u = Inr u'"
  shows "bu_geom u' = bu_geom u"
proof -
  obtain x where x: "bu_squash sn tid u = Inr x" using assms by (auto simp: bu_squash_correct_def bind_res_Inr)
  have "bu_geom u' = bu_geom x"
    using assms x by (cases "bu_predHist x ! tid") (auto simp: bu_squash_correct_def res_simps dest!: geom_Update)
  then show ?thesis using geom_squash [OF x] by simp
qed

lemma passed_bits_geom: "bu_geom u' = bu_geom u \<Longrightarrow> passed_bits par u \<Longrightarrow> passed_bits par u'"
  by (auto simp: passed_bits_def bu_geom_def tb_geom_def)

lemma bu_reach_wf:
  assumes "bu_reach isa par u" "params_ok par"
  shows "bu_wf (unat (par_RASSize par)) u \<and> passed_bits par u"
  using assms(1)
proof (induction rule: bu_reach.induct)
  case (start u)
  then show ?case by (rule BPredUnit_new_wf [OF _ assms(2)])
next
  case (predict u tid inst PC t target u')
  have n: "unat (par_RASSize par) \<le> 16" using assms(2) by (simp add: params_ok_def word_le_nat_alt)
  have "bu_wf (unat (par_RASSize par)) u'"
    by (rule predict_step [OF conjunct1 [OF predict.IH] n predict.hyps(2), of isa inst PC])
      (use step_wf [OF conjunct1 [OF predict.IH] predict.hyps(2)] predict.hyps(3) in auto)
  then show ?case using passed_bits_geom [OF geom_predict [OF predict.hyps(3)]] predict.IH by blast
next
  case (update u tid sn u')
  then show ?case using bu_update_ok [of _ u tid sn] passed_bits_geom [OF geom_update [OF update.hyps(3)]] by fastforce
next
  case (squash u tid sn u')
  then show ?case using bu_squash_ok [of _ u tid sn] passed_bits_geom [OF geom_squash [OF squash.hyps(3)]] by fastforce
next
  case (correct u tid sn corr taken u')
  obtain u1 where "bu_squash sn tid u = Inr u1" using bu_squash_ok [OF conjunct1 [OF correct.IH] correct.hyps(2), of sn] by blast
  from bu_squash_correct_ok [OF conjunct1 [OF correct.IH] correct.hyps(2) this, of corr taken]
  have "bu_wf (unat (par_RASSize par)) u'" using correct.hyps(3) by (auto split: if_splits)
  then show ?case using passed_bits_geom [OF geom_correct [OF correct.hyps(3)]] correct.IH by blast
qed

section \<open>Properties\<close>

lemma stack_size: "params_ok par \<Longrightarrow> unat (par_RASSize par) \<le> 16"
  by (simp add: params_ok_def word_le_nat_alt)

text \<open>
  C37: The branch predictor is safe.  If the stack has 1 to 16 entries and the global table covers the
  global history, every reachable state is well formed: counters stay in their range, indexes in their
  tables.  Every prediction, every commit and every squash completes, for any instruction, address and
  sequence number.  A squash with a correction completes if no record is left or the newest one left
  is that of the branch, and otherwise its assertion fails.
\<close>

theorem bpred_reachable_safe:
  assumes "params_ok par" "bu_reach isa par u" "tid < MaxThreads"
  shows "bu_wf (unat (par_RASSize par)) u \<and> is_ok (predict isa inst PC tid u) \<and> is_ok (bu_update sn tid u) \<and>
    (\<exists>u1. bu_squash sn tid u = Inr u1 \<and>
      (if bu_predHist u1 ! tid = [] \<or> ph_seqNum (hd (bu_predHist u1 ! tid)) = sn
       then is_ok (bu_squash_correct sn target taken tid u) else bu_squash_correct sn target taken tid u = Inl AssertFail))"
proof -
  have wf: "bu_wf (unat (par_RASSize par)) u" using bu_reach_wf [OF assms(2,1)] by blast
  have p: "is_ok (predict isa inst PC tid u)" by (rule predict_step [OF wf stack_size [OF assms(1)] assms(3), of isa inst PC]) simp
  obtain u1 where u1: "bu_squash sn tid u = Inr u1" using bu_squash_ok [OF wf assms(3)] by blast
  show ?thesis using wf p bu_update_ok [OF wf assms(3), of sn] u1 bu_squash_correct_ok [OF wf assms(3) u1, of target taken]
    by (auto simp: is_ok_iff split: if_splits)
qed

definition sample_par :: BPParams where
  "sample_par = \<lparr>par_predType = ''tournament'', par_localPredictorSize = 4, par_localCtrBits = 2, par_localHistoryTableSize = 4,
     par_localHistoryBits = 2, par_globalPredictorSize = 8, par_globalCtrBits = 2, par_globalHistoryBits = 3, par_choicePredictorSize = 8,
     par_choiceCtrBits = 2, par_BTBEntries = 4, par_BTBTagSize = 16, par_RASSize = 4, par_instShiftAmt = 2\<rparr>"

definition sample_isa :: ISA_traits where
  "sample_isa = \<lparr>isa_MachInst_size = 4, isa_has_delay_slot = False\<rparr>"

lemma sample_unit:
  obtains u where "BPredUnit_new sample_par = Inr u" "bu_reach sample_isa sample_par u" "bu_predHist u = replicate MaxThreads []"
proof -
  have "is_ok (BPredUnit_new sample_par)" by code_simp
  then obtain u where u: "BPredUnit_new sample_par = Inr u" by (auto simp: is_ok_iff)
  moreover have "bu_predHist u = replicate MaxThreads []" using u by (auto simp: BPredUnit_new_def bind_res_Inr)
  ultimately show thesis using that bu_reach.start by blast
qed

lemma sample_par_ok: "params_ok sample_par"
  by (simp add: params_ok_def sample_par_def)

definition sample_call :: "64 word \<Rightarrow> BrInst" where
  "sample_call n = \<lparr>bi_seqNum = n, bi_isUncondCtrl = True, bi_isReturn = False, bi_isCall = True\<rparr>"

definition sample_return :: "64 word \<Rightarrow> BrInst" where
  "sample_return n = \<lparr>bi_seqNum = n, bi_isUncondCtrl = True, bi_isReturn = True, bi_isCall = False\<rparr>"

theorem bpred_reachable_safe_witness:
  "\<exists>u. BPredUnit_new sample_par = Inr u \<and> is_ok (predict sample_isa (sample_call 1) 0x1000 0 u) \<and> is_ok (bu_squash_correct 0 0 True 0 u)"
proof (rule sample_unit)
  fix u assume u: "BPredUnit_new sample_par = Inr u" "bu_reach sample_isa sample_par u" "bu_predHist u = replicate MaxThreads []"
  have "bu_squash 0 0 u = Inr u" using u(3) set_hist_same [of 0 u] by (simp add: bu_squash_def MaxThreads_def)
  then show ?thesis using u bpred_reachable_safe [OF sample_par_ok u(2), of 0 "sample_call 1" "0x1000" 0 0 True] by (auto simp: MaxThreads_def)
qed

text \<open>
  C36: A squash takes predictions back.  From a reachable state whose records of a thread are older than
  a sequence number or have it, let the thread predict any sequence of younger branches, among
  them calls and returns, and squash down to that sequence number.  Then the direction
  predictor with its global history, the target buffer, the history and the stacks of the other
  threads are as before, and so is the top of the stack of the thread.  Of its entries
  all are as before but the deepest ones, as many as the calls exceed the returns made
  before them, at most.
\<close>

theorem squash_undoes_predictions:
  assumes "params_ok par" "bu_reach isa par u" "tid < MaxThreads"
    and "\<forall>(inst, PC) \<in> set bs. sn < bi_seqNum inst" "\<forall>h \<in> set (bu_predHist u ! tid). ph_seqNum h \<le> sn"
  shows "\<exists>u1 r. predict_all isa tid bs u = Inr u1 \<and> bu_squash sn tid u1 = Inr (set_RAS tid r u) \<and> ras_tos r = ras_tos (bu_RAS u ! tid) \<and>
    (\<forall>k. k + call_excess (take (length bs) (bu_predHist u1 ! tid)) < unat (par_RASSize par) \<longrightarrow> ras_below r k = ras_below (bu_RAS u ! tid) k)"
proof -
  have wf: "bu_wf (unat (par_RASSize par)) u" using bu_reach_wf [OF assms(2,1)] by blast
  note at = bu_wf_at [OF wf assms(3)]
  obtain u1 hs v r where run: "predict_all isa tid bs u = Inr u1" "bu_predHist u1 = (bu_predHist u)[tid := hs @ bu_predHist u ! tid]"
     "map ph_seqNum (rev hs) = map (bi_seqNum \<circ> fst) bs"
     "squash_list tid hs u1 = Inr v" "same_bp u v" "bu_predHist v = bu_predHist u1" "bu_RAS v = (bu_RAS u)[tid := r]" "ras_agree (call_excess hs) (bu_RAS u ! tid) r"
    using predict_all_undo [OF wf stack_size [OF assms(1)] assms(3)] by blast
  have "ph_seqNum ` set hs = (bi_seqNum \<circ> fst) ` set bs" using arg_cong [OF run(3), of set] by (simp only: set_map set_rev)
  then have young: "\<forall>h \<in> set hs. sn < ph_seqNum h" using assms(4) by (force simp: set_eq_iff image_iff)
  have hist: "bu_predHist u1 ! tid = hs @ bu_predHist u ! tid" using run(2) at(4) by simp
  have "set_hist tid (bu_predHist u ! tid) v = set_RAS tid r u"
    using run(2,5-7) at(4) by (intro BPredUnit.equality) (simp_all add: same_bp_def)
  then have "bu_squash sn tid u1 = Inr (set_RAS tid r u)"
    using squash_hist_loop_split [OF young assms(5), of tid u1] run(4) assms(3) by (simp add: bu_squash_def hist)
  moreover have "length hs = length bs" using arg_cong [OF run(3), of length] by simp
  ultimately show ?thesis using run(1,8) at(2) hist by (intro exI [of _ u1] exI [of _ r]) (simp add: ras_agree_def)
qed

theorem squash_undoes_predictions_witness:
  "\<exists>u u1 r. BPredUnit_new sample_par = Inr u \<and> predict_all sample_isa 0 [(sample_return 5, 0x1000), (sample_call 6, 0x2000)] u = Inr u1 \<and>
     bu_squash 4 0 u1 = Inr (set_RAS 0 r u)"
proof (rule sample_unit)
  fix u assume u: "BPredUnit_new sample_par = Inr u" "bu_reach sample_isa sample_par u" "bu_predHist u = replicate MaxThreads []"
  have "\<forall>(inst, PC) \<in> set [(sample_return 5, 0x1000 :: Addr), (sample_call 6, 0x2000)]. 4 < bi_seqNum inst" by (simp add: sample_return_def sample_call_def)
  then show ?thesis using squash_undoes_predictions [OF sample_par_ok u(2), of 0 "[(sample_return 5, 0x1000), (sample_call 6, 0x2000)]" 4] u(1,3)
    by (auto simp: MaxThreads_def)
qed

text \<open>
  C38: The widths of the global history and of its counters are exchanged.  The declaration in
  \<open>tournament.hh\<close>, which \<open>bpred_unit_impl.hh\<close> follows, has the history bits before the counter bits; the
  definition in \<open>tournament.cc\<close> has them the other way round.  So in every reachable state the
  global history stays below 2 to the number of \<^emph>\<open>counter\<close> bits, and a global counter is
  limited by the number of history bits.
\<close>

theorem global_history_truncated:
  assumes "params_ok par" "bu_reach isa par u" "par_predType par = ''tournament''"
  shows "\<exists>p. bu_tournamentBP u = Some p \<and> unat (tb_readGlobalHist p) < 2 ^ unat (par_globalCtrBits par) \<and>
     (\<forall>c \<in> set (tb_globalCtrs p). unat (sc_maxVal c) = ctr_max (par_globalHistoryBits par))"
proof -
  obtain p where p: "bu_predictor u = Tournament" "bu_tournamentBP u = Some p" "tb_globalHistoryMask p = 2 ^ unat (par_globalCtrBits par) - 1" "tb_globalCtrBits p = par_globalHistoryBits par"
    using bu_reach_wf [OF assms(2,1)] assms(3) by (auto simp: passed_bits_def)
  have wf: "tb_wf p" using bu_reach_wf [OF assms(2,1)] p(1,2) by (auto simp: bu_wf_def bp_wf_def)
  have small: "2 ^ unat (par_globalCtrBits par) \<le> unat (par_globalPredictorSize par)" using assms(1,3) by (simp add: params_ok_def)
  also have "\<dots> < 2 ^ 32" using unsigned_less [of "par_globalPredictorSize par", where 'a = nat] by simp
  finally have "unat (par_globalCtrBits par) < 32" using power_less_imp_less_exp [of "2 :: nat" _ 32] by simp
  then have "unat (2 ^ unat (par_globalCtrBits par) :: 32 word) = 2 ^ unat (par_globalCtrBits par)" "(2 ^ unat (par_globalCtrBits par) :: 32 word) \<noteq> 0"
    using unsigned_of_nat [of "2 ^ unat (par_globalCtrBits par)", where 'b = 32 and 'a = nat] by simp_all
  then have "unat (tb_globalHistoryMask p) = 2 ^ unat (par_globalCtrBits par) - 1" using p(3) by (simp add: unat_minus_one)
  then have "unat (tb_globalHistory p) < 2 ^ unat (par_globalCtrBits par)"
    using wf zero_less_power [of "2 :: nat" "unat (par_globalCtrBits par)"] unfolding tb_wf_def word_le_nat_alt by linarith
  then show ?thesis using p wf by (auto simp: tb_readGlobalHist_def tb_wf_def ctrs_ok_def sc_ok_def)
qed

theorem global_history_truncated_witness:
  "\<exists>u p. BPredUnit_new sample_par = Inr u \<and> bu_tournamentBP u = Some p \<and> unat (tb_readGlobalHist p) < 4 \<and> (\<forall>c \<in> set (tb_globalCtrs p). unat (sc_maxVal c) = 7)"
proof (rule sample_unit)
  fix u assume u: "BPredUnit_new sample_par = Inr u" "bu_reach sample_isa sample_par u"
  have "par_predType sample_par = ''tournament''" "2 ^ unat (par_globalCtrBits sample_par) = (4 :: nat)" "ctr_max (par_globalHistoryBits sample_par) = 7"
    by (simp_all add: sample_par_def ctr_max_def)
  then show ?thesis using global_history_truncated [OF sample_par_ok u(2)] u(1) by auto
qed

text \<open>
  C39: A branch that is fetched as not taken can be trained as taken.  If the direction predictor says
  taken for a conditional branch without an entry in the target buffer, \<open>predict\<close> returns not
  taken and leaves the address; but its record keeps the direction of the predictor, so when the
  branch is committed without a squash, because it was indeed not taken, \<open>update\<close> trains the
  predictor as if it had been taken.
\<close>

theorem btb_miss_trained_taken:
  assumes "tid < MaxThreads" "length (bu_predHist u) = MaxThreads" "bu_predHist u ! tid = []"
    and "\<not> bi_isUncondCtrl inst" "\<not> bi_isReturn inst" "\<not> bi_isCall inst"
    and "BPLookup PC u = Inr (True, h, u0)" "btb_valid PC tid (bu_BTB u) = Inr False" "BPUpdate PC True h u0 = Inr u1"
  shows "\<exists>u'. predict isa inst PC tid u = Inr (False, PC, u') \<and> (\<exists>u2. bu_update (bi_seqNum inst) tid u' = Inr u2 \<and> same_bp u1 u2 \<and> bu_predHist u2 ! tid = [])"
proof -
  have o: "only_pred u u0" using guess_only [of False PC u True h u0] assms(7) by (simp add: unit_bp.guess_def)
  define rec where "rec = PredictorHistory_new (bi_seqNum inst) PC True h tid"
  have rec: "ph_seqNum rec = bi_seqNum inst" "ph_PC rec = PC" "ph_predTaken rec" "ph_bpHistory rec = h" by (simp_all add: rec_def PredictorHistory_new_def)
  have p: "predict isa inst PC tid u = Inr (False, PC, set_hist tid [rec] u0)"
    using assms o by (simp add: predict_def predict_branch_def only_pred_def rec_def)
  have t: "tid < length (bu_predHist u0)" using assms(1,2) o by (simp add: only_pred_def)
  have "same_bp u0 (set_hist tid [rec] u0)" by (simp add: same_bp_def)
  then obtain u2 where u2: "BPUpdate PC True h (set_hist tid [rec] u0) = Inr u2" "same_bp u1 u2" "bu_predHist u2 = bu_predHist (set_hist tid [rec] u0)"
    using assms(9) by (auto simp: BPUpdate_def same_bp_def res_simps split: PredType.splits)
  then show ?thesis using p rec t assms(1) by (simp add: bu_update_def same_bp_def)
qed

definition sample_miss :: BPredUnit where
  "sample_miss = \<lparr>bu_predictor = Local, bu_predHist = [[], [], [], []],
     bu_localBP = Some (sample_local\<lparr>lb_localCtrs := replicate 4 \<lparr>sc_initialVal = 0, sc_maxVal = 3, sc_counter = 2\<rparr>\<rparr>),
     bu_tournamentBP = None, bu_BTB = sample_btb, bu_RAS = replicate 4 (ras_init 16)\<rparr>"

theorem btb_miss_trained_taken_witness:
  "\<exists>u'. predict sample_isa \<lparr>bi_seqNum = 1, bi_isUncondCtrl = False, bi_isReturn = False, bi_isCall = False\<rparr> 4 0 sample_miss = Inr (False, 4, u') \<and>
     (\<exists>u2. bu_update 1 0 u' = Inr u2 \<and> (\<exists>u1. BPUpdate 4 True None sample_miss = Inr u1 \<and> bu_localBP u2 = bu_localBP u1))"
proof -
  have l: "BPLookup 4 sample_miss = Inr (True, None, sample_miss)" "btb_valid 4 0 (bu_BTB sample_miss) = Inr False" "is_ok (BPUpdate 4 True None sample_miss)"
    by code_simp+
  then obtain u1 where u1: "BPUpdate 4 True None sample_miss = Inr u1" by (auto simp: is_ok_iff)
  show ?thesis
    using btb_miss_trained_taken [of 0 sample_miss "\<lparr>bi_seqNum = 1, bi_isUncondCtrl = False, bi_isReturn = False, bi_isCall = False\<rparr>", OF _ _ _ _ _ _ l(1,2) u1, of sample_isa] u1
    by (auto simp: MaxThreads_def sample_miss_def same_bp_def)
qed

end
