(* ===== verification/Register_Rename.thy ===== *)
theory Register_Rename
  imports Prelude "HOL-Library.Multiset"
begin

text \<open>
  Register renaming of the out-of-order processor: the free list \<open>cpu/o3/free_list.{hh,cc}\<close>, the
  scoreboard \<open>cpu/o3/scoreboard.{hh,cc}\<close>, the rename map \<open>cpu/o3/rename_map.{hh,cc}\<close>, what \<open>cpu/o3/rename_impl.hh\<close>
  does with them (renaming of an instruction, its commit and its squash with the history buffer)
  and what \<open>cpu/o3/cpu.cc\<close> does with them (construction, insertion and removal of a thread).

  Register numbers are naturals: with fewer than 32768 registers no \<open>short\<close> overflows.  The numbers of
  registers of the instruction set and its zero register are arguments, as is the flattening of
  register indexes by the thread context.  A history buffer is a list with the newest record first.
  \<open>removeFromHistory\<close> decrements the iterator to its first element; as in the circular lists of the
  library this gives the end.
\<close>

record RenameISA =
  ri_alpha :: bool
  ri_ZeroReg :: nat
  ri_NumIntRegs :: nat
  ri_NumFloatRegs :: nat
  ri_NumMiscRegs :: nat
  ri_FP_Base_DepTag :: nat
  ri_Ctrl_Base_DepTag :: nat

section \<open>Free list\<close>

record SimpleFreeList =
  fl_freeIntRegs :: "nat list"
  fl_freeFloatRegs :: "nat list"
  fl_numLogicalIntRegs :: nat
  fl_numPhysicalIntRegs :: nat
  fl_numLogicalFloatRegs :: nat
  fl_numPhysicalFloatRegs :: nat
  fl_numPhysicalRegs :: nat

definition SimpleFreeList_new :: "nat \<Rightarrow> nat \<Rightarrow> nat \<Rightarrow> nat \<Rightarrow> nat \<Rightarrow> SimpleFreeList" where
  "SimpleFreeList_new activeThreads numLogicalIntRegs numPhysicalIntRegs numLogicalFloatRegs numPhysicalFloatRegs =
     (let numPhysicalRegs = numPhysicalIntRegs + numPhysicalFloatRegs
      in \<lparr>fl_freeIntRegs = [numLogicalIntRegs * activeThreads..<numPhysicalIntRegs],
          fl_freeFloatRegs = [numPhysicalIntRegs + numLogicalFloatRegs * activeThreads..<numPhysicalRegs],
          fl_numLogicalIntRegs = numLogicalIntRegs, fl_numPhysicalIntRegs = numPhysicalIntRegs,
          fl_numLogicalFloatRegs = numLogicalFloatRegs, fl_numPhysicalFloatRegs = numPhysicalFloatRegs,
          fl_numPhysicalRegs = numPhysicalRegs\<rparr>)"

definition getIntReg :: "SimpleFreeList \<Rightarrow> (nat \<times> SimpleFreeList) res" where
  "getIntReg f = (case fl_freeIntRegs f of [] \<Rightarrow> Inl Panic | r # rs \<Rightarrow> Inr (r, f\<lparr>fl_freeIntRegs := rs\<rparr>))"

definition getFloatReg :: "SimpleFreeList \<Rightarrow> (nat \<times> SimpleFreeList) res" where
  "getFloatReg f = (case fl_freeFloatRegs f of [] \<Rightarrow> Inl Panic | r # rs \<Rightarrow> Inr (r, f\<lparr>fl_freeFloatRegs := rs\<rparr>))"

definition addIntReg :: "nat \<Rightarrow> SimpleFreeList \<Rightarrow> SimpleFreeList" where
  "addIntReg freed_reg f = f\<lparr>fl_freeIntRegs := fl_freeIntRegs f @ [freed_reg]\<rparr>"

definition addFloatReg :: "nat \<Rightarrow> SimpleFreeList \<Rightarrow> SimpleFreeList" where
  "addFloatReg freed_reg f = f\<lparr>fl_freeFloatRegs := fl_freeFloatRegs f @ [freed_reg]\<rparr>"

definition addReg :: "RenameISA \<Rightarrow> nat \<Rightarrow> SimpleFreeList \<Rightarrow> SimpleFreeList" where
  "addReg isa freed_reg f =
     (if freed_reg < fl_numPhysicalIntRegs f
      then (if freed_reg \<noteq> ri_ZeroReg isa then f\<lparr>fl_freeIntRegs := fl_freeIntRegs f @ [freed_reg]\<rparr> else f)
      else if freed_reg < fl_numPhysicalRegs f
      then (if \<not> ri_alpha isa \<or> freed_reg \<noteq> ri_ZeroReg isa + fl_numPhysicalIntRegs f
            then f\<lparr>fl_freeFloatRegs := fl_freeFloatRegs f @ [freed_reg]\<rparr> else f)
      else f)"

definition hasFreeIntRegs :: "SimpleFreeList \<Rightarrow> bool" where
  "hasFreeIntRegs f \<longleftrightarrow> fl_freeIntRegs f \<noteq> []"

definition hasFreeFloatRegs :: "SimpleFreeList \<Rightarrow> bool" where
  "hasFreeFloatRegs f \<longleftrightarrow> fl_freeFloatRegs f \<noteq> []"

definition numFreeIntRegs :: "SimpleFreeList \<Rightarrow> nat" where
  "numFreeIntRegs f = length (fl_freeIntRegs f)"

definition numFreeFloatRegs :: "SimpleFreeList \<Rightarrow> nat" where
  "numFreeFloatRegs f = length (fl_freeFloatRegs f)"

section \<open>Scoreboard\<close>

record Scoreboard =
  sb_regScoreBoard :: "bool list"
  sb_numLogicalIntRegs :: nat
  sb_numPhysicalIntRegs :: nat
  sb_numLogicalFloatRegs :: nat
  sb_numPhysicalFloatRegs :: nat
  sb_numMiscRegs :: nat
  sb_numLogicalRegs :: nat
  sb_numPhysicalRegs :: nat
  sb_zeroRegIdx :: nat

definition set_ready :: "nat list \<Rightarrow> bool list \<Rightarrow> bool list" where
  "set_ready is bs = fold (\<lambda>i bs. bs[i := True]) is bs"

definition Scoreboard_new :: "nat \<Rightarrow> nat \<Rightarrow> nat \<Rightarrow> nat \<Rightarrow> nat \<Rightarrow> nat \<Rightarrow> nat \<Rightarrow> Scoreboard res" where
  "Scoreboard_new activeThreads numLogicalIntRegs numPhysicalIntRegs numLogicalFloatRegs numPhysicalFloatRegs numMiscRegs zeroRegIdx =
     (let numPhysicalRegs = numPhysicalIntRegs + numPhysicalFloatRegs;
          n = numPhysicalRegs + numMiscRegs * activeThreads
      in guard_res Undefined (numLogicalIntRegs * activeThreads \<le> n \<and> numPhysicalIntRegs + numLogicalFloatRegs * activeThreads \<le> n)
         (Inr \<lparr>sb_regScoreBoard =
                 set_ready [numPhysicalRegs..<n]
                   (set_ready [numPhysicalIntRegs..<numPhysicalIntRegs + numLogicalFloatRegs * activeThreads]
                     (set_ready [0..<numLogicalIntRegs * activeThreads] (replicate n False))),
               sb_numLogicalIntRegs = numLogicalIntRegs, sb_numPhysicalIntRegs = numPhysicalIntRegs,
               sb_numLogicalFloatRegs = numLogicalFloatRegs, sb_numPhysicalFloatRegs = numPhysicalFloatRegs,
               sb_numMiscRegs = numMiscRegs, sb_numLogicalRegs = numLogicalIntRegs + numLogicalFloatRegs,
               sb_numPhysicalRegs = numPhysicalRegs, sb_zeroRegIdx = zeroRegIdx\<rparr>))"

definition sb_is_zero :: "RenameISA \<Rightarrow> Scoreboard \<Rightarrow> nat \<Rightarrow> bool" where
  "sb_is_zero isa b phys_reg \<longleftrightarrow>
     phys_reg = sb_zeroRegIdx b \<or> ri_alpha isa \<and> phys_reg = sb_zeroRegIdx b + sb_numPhysicalIntRegs b"

definition getReg :: "RenameISA \<Rightarrow> nat \<Rightarrow> Scoreboard \<Rightarrow> bool res" where
  "getReg isa phys_reg b =
     (if sb_is_zero isa b phys_reg then Inr True
      else guard_res Undefined (phys_reg < length (sb_regScoreBoard b)) (Inr (sb_regScoreBoard b ! phys_reg)))"

definition setReg :: "nat \<Rightarrow> Scoreboard \<Rightarrow> Scoreboard res" where
  "setReg phys_reg b =
     guard_res Undefined (phys_reg < length (sb_regScoreBoard b))
       (Inr (b\<lparr>sb_regScoreBoard := (sb_regScoreBoard b)[phys_reg := True]\<rparr>))"

definition unsetReg :: "RenameISA \<Rightarrow> nat \<Rightarrow> Scoreboard \<Rightarrow> Scoreboard res" where
  "unsetReg isa ready_reg b =
     (if sb_is_zero isa b ready_reg then Inr b
      else guard_res Undefined (ready_reg < length (sb_regScoreBoard b))
             (Inr (b\<lparr>sb_regScoreBoard := (sb_regScoreBoard b)[ready_reg := False]\<rparr>)))"

section \<open>Rename map\<close>

record RenameEntry =
  re_physical_reg :: nat
  re_valid :: bool

definition RenameEntry_new :: RenameEntry where
  "RenameEntry_new = \<lparr>re_physical_reg = 0, re_valid = False\<rparr>"

record SimpleRenameMap =
  rmap_id :: nat
  rmap_numLogicalIntRegs :: nat
  rmap_numPhysicalIntRegs :: nat
  rmap_numLogicalFloatRegs :: nat
  rmap_numPhysicalFloatRegs :: nat
  rmap_numMiscRegs :: nat
  rmap_numLogicalRegs :: nat
  rmap_numPhysicalRegs :: nat
  rmap_intZeroReg :: nat
  rmap_floatZeroReg :: nat
  rmap_intRenameMap :: "RenameEntry list"
  rmap_floatRenameMap :: "RenameEntry list"

definition bind_entry :: "nat \<Rightarrow> RenameEntry \<Rightarrow> RenameEntry" where
  "bind_entry r e = e\<lparr>re_physical_reg := r\<rparr>"

text \<open>A loop that binds the entries at some indexes to registers from a number on.\<close>

fun bind_loop :: "nat list \<Rightarrow> nat \<Rightarrow> RenameEntry list \<Rightarrow> RenameEntry list \<times> nat" where
  "bind_loop [] r es = (es, r)"
| "bind_loop (i # is) r es = bind_loop is (r + 1) (es[i := bind_entry r (es ! i)])"

text \<open>The map with the two register counters that are passed by reference; only a map that binds moves them.\<close>

definition rmap_init :: "nat \<Rightarrow> nat \<Rightarrow> nat \<Rightarrow> nat \<Rightarrow> nat \<Rightarrow> nat \<Rightarrow> nat \<Rightarrow> nat \<Rightarrow> nat \<Rightarrow> nat \<Rightarrow> bool \<Rightarrow> SimpleRenameMap \<times> nat \<times> nat" where
  "rmap_init numLogicalIntRegs numPhysicalIntRegs ireg_idx numLogicalFloatRegs numPhysicalFloatRegs freg_idx numMiscRegs intZeroReg floatZeroReg map_id bindRegs =
     (let numLogicalRegs = numLogicalIntRegs + numLogicalFloatRegs;
          (ints, ireg) = bind_loop [0..<numLogicalIntRegs] ireg_idx (replicate numLogicalIntRegs RenameEntry_new);
          (floats, freg) = bind_loop [numLogicalIntRegs..<numLogicalRegs] freg_idx (replicate numLogicalRegs RenameEntry_new);
          m = \<lparr>rmap_id = map_id, rmap_numLogicalIntRegs = numLogicalIntRegs, rmap_numPhysicalIntRegs = numPhysicalIntRegs,
               rmap_numLogicalFloatRegs = numLogicalFloatRegs, rmap_numPhysicalFloatRegs = numPhysicalFloatRegs,
               rmap_numMiscRegs = numMiscRegs, rmap_numLogicalRegs = numLogicalRegs,
               rmap_numPhysicalRegs = numPhysicalIntRegs + numPhysicalFloatRegs, rmap_intZeroReg = intZeroReg,
               rmap_floatZeroReg = floatZeroReg, rmap_intRenameMap = ints, rmap_floatRenameMap = floats\<rparr>
      in if bindRegs then (m, ireg, freg) else (m, ireg_idx, freg_idx))"

definition rmap_lookup :: "nat \<Rightarrow> SimpleRenameMap \<Rightarrow> nat" where
  "rmap_lookup arch_reg m =
     (if arch_reg < rmap_numLogicalIntRegs m then re_physical_reg (rmap_intRenameMap m ! arch_reg)
      else if arch_reg < rmap_numLogicalRegs m then re_physical_reg (rmap_floatRenameMap m ! arch_reg)
      else rmap_numPhysicalRegs m + (arch_reg - rmap_numLogicalRegs m))"

definition rmap_setEntry :: "nat \<Rightarrow> nat \<Rightarrow> SimpleRenameMap \<Rightarrow> SimpleRenameMap" where
  "rmap_setEntry arch_reg renamed_reg m =
     (if arch_reg < rmap_numLogicalIntRegs m
      then m\<lparr>rmap_intRenameMap := (rmap_intRenameMap m)[arch_reg := bind_entry renamed_reg (rmap_intRenameMap m ! arch_reg)]\<rparr>
      else if arch_reg < rmap_numLogicalIntRegs m + rmap_numLogicalFloatRegs m
      then m\<lparr>rmap_floatRenameMap := (rmap_floatRenameMap m)[arch_reg := bind_entry renamed_reg (rmap_floatRenameMap m ! arch_reg)]\<rparr>
      else m)"

definition rmap_rename :: "RenameISA \<Rightarrow> nat \<Rightarrow> SimpleRenameMap \<Rightarrow> SimpleFreeList \<Rightarrow> ((nat \<times> nat) \<times> SimpleRenameMap \<times> SimpleFreeList) res" where
  "rmap_rename isa arch_reg m f =
     (if arch_reg < rmap_numLogicalIntRegs m then
        let prev_reg = re_physical_reg (rmap_intRenameMap m ! arch_reg)
        in if arch_reg \<noteq> rmap_intZeroReg m
           then bind_res (getIntReg f) (\<lambda>(renamed_reg, f).
                let m = m\<lparr>rmap_intRenameMap := (rmap_intRenameMap m)[arch_reg := bind_entry renamed_reg (rmap_intRenameMap m ! arch_reg)]\<rparr>
                in guard_res AssertFail (renamed_reg < rmap_numPhysicalIntRegs m) (Inr ((renamed_reg, prev_reg), m, f)))
           else Inr ((rmap_intZeroReg m, prev_reg), m, f)
      else if arch_reg < rmap_numLogicalRegs m then
        let prev_reg = re_physical_reg (rmap_floatRenameMap m ! arch_reg)
        in if \<not> ri_alpha isa \<or> arch_reg \<noteq> rmap_floatZeroReg m
           then bind_res (getFloatReg f) (\<lambda>(renamed_reg, f).
                let m = m\<lparr>rmap_floatRenameMap := (rmap_floatRenameMap m)[arch_reg := bind_entry renamed_reg (rmap_floatRenameMap m ! arch_reg)]\<rparr>
                in guard_res AssertFail (renamed_reg < rmap_numPhysicalRegs m \<and> rmap_numPhysicalIntRegs m \<le> renamed_reg) (Inr ((renamed_reg, prev_reg), m, f)))
           else Inr ((rmap_floatZeroReg m, prev_reg), m, f)
      else
        let renamed_reg = (arch_reg - rmap_numLogicalRegs m) + rmap_numPhysicalRegs m
        in Inr ((renamed_reg, renamed_reg), m, f))"

definition rmap_numFreeEntries :: "SimpleFreeList \<Rightarrow> nat" where
  "rmap_numFreeEntries f = (if numFreeIntRegs f < numFreeFloatRegs f then numFreeIntRegs f else numFreeFloatRegs f)"

section \<open>The rename stage\<close>

record RenameHistory =
  rh_instSeqNum :: "64 word"
  rh_archReg :: nat
  rh_newPhysReg :: nat
  rh_prevPhysReg :: nat

record DefaultRename =
  rn_renameMap :: "SimpleRenameMap list"
  rn_freeList :: SimpleFreeList
  rn_scoreboard :: Scoreboard
  rn_historyBuffer :: "RenameHistory list list"
  rn_maxPhysicalRegs :: nat

definition set_rmap :: "nat \<Rightarrow> SimpleRenameMap \<Rightarrow> DefaultRename \<Rightarrow> DefaultRename" where
  "set_rmap tid m s = s\<lparr>rn_renameMap := (rn_renameMap s)[tid := m]\<rparr>"

definition set_hbuf :: "nat \<Rightarrow> RenameHistory list \<Rightarrow> DefaultRename \<Rightarrow> DefaultRename" where
  "set_hbuf tid hs s = s\<lparr>rn_historyBuffer := (rn_historyBuffer s)[tid := hs]\<rparr>"

text \<open>The body of the loops of \<open>doSquash\<close> and \<open>switchOut\<close>.\<close>

definition undo_rename :: "RenameISA \<Rightarrow> nat \<Rightarrow> RenameHistory \<Rightarrow> DefaultRename \<Rightarrow> DefaultRename res" where
  "undo_rename isa tid h s =
     (let s = set_rmap tid (rmap_setEntry (rh_archReg h) (rh_prevPhysReg h) (rn_renameMap s ! tid)) s;
          s = s\<lparr>rn_freeList := addReg isa (rh_newPhysReg h) (rn_freeList s)\<rparr>
      in if rh_newPhysReg h \<ge> rn_maxPhysicalRegs s
         then bind_res (setReg (rh_newPhysReg h) (rn_scoreboard s)) (\<lambda>b. Inr (s\<lparr>rn_scoreboard := b\<rparr>))
         else Inr s)"

fun doSquash_loop :: "RenameISA \<Rightarrow> 64 word \<Rightarrow> nat \<Rightarrow> RenameHistory list \<Rightarrow> DefaultRename \<Rightarrow> (RenameHistory list \<times> DefaultRename) res" where
  "doSquash_loop isa sn tid [] s = Inr ([], s)"
| "doSquash_loop isa sn tid (h # hs) s =
     (if rh_instSeqNum h > sn then bind_res (undo_rename isa tid h s) (doSquash_loop isa sn tid hs) else Inr (h # hs, s))"

definition doSquash :: "RenameISA \<Rightarrow> 64 word \<Rightarrow> nat \<Rightarrow> DefaultRename \<Rightarrow> DefaultRename res" where
  "doSquash isa squashed_seq_num tid s =
     bind_res (doSquash_loop isa squashed_seq_num tid (rn_historyBuffer s ! tid) s) (\<lambda>(hs, s). Inr (set_hbuf tid hs s))"

fun undo_all :: "RenameISA \<Rightarrow> nat \<Rightarrow> RenameHistory list \<Rightarrow> DefaultRename \<Rightarrow> DefaultRename res" where
  "undo_all isa tid [] s = Inr s"
| "undo_all isa tid (h # hs) s = bind_res (undo_rename isa tid h s) (undo_all isa tid hs)"

fun rn_switchOut :: "RenameISA \<Rightarrow> nat list \<Rightarrow> DefaultRename \<Rightarrow> DefaultRename res" where
  "rn_switchOut isa [] s = Inr s"
| "rn_switchOut isa (tid # tids) s =
     bind_res (undo_all isa tid (rn_historyBuffer s ! tid) s) (\<lambda>s. rn_switchOut isa tids (set_hbuf tid [] s))"

text \<open>The loop of \<open>removeFromHistory\<close>, from the oldest record on.\<close>

fun commit_loop :: "RenameISA \<Rightarrow> 64 word \<Rightarrow> RenameHistory list \<Rightarrow> SimpleFreeList \<Rightarrow> RenameHistory list \<times> SimpleFreeList" where
  "commit_loop isa sn [] f = ([], f)"
| "commit_loop isa sn (h # hs) f =
     (if rh_instSeqNum h \<le> sn then commit_loop isa sn hs (addReg isa (rh_prevPhysReg h) f) else (h # hs, f))"

definition removeFromHistory :: "RenameISA \<Rightarrow> 64 word \<Rightarrow> nat \<Rightarrow> DefaultRename \<Rightarrow> DefaultRename" where
  "removeFromHistory isa inst_seq_num tid s =
     (case commit_loop isa inst_seq_num (rev (rn_historyBuffer s ! tid)) (rn_freeList s) of
        (hs, f) \<Rightarrow> set_hbuf tid (rev hs) (s\<lparr>rn_freeList := f\<rparr>))"

definition flat_src :: "RenameISA \<Rightarrow> (nat \<Rightarrow> nat) \<Rightarrow> (nat \<Rightarrow> nat) \<Rightarrow> nat \<Rightarrow> nat" where
  "flat_src isa flattenInt flattenFloat src_reg =
     (if src_reg < ri_FP_Base_DepTag isa then flattenInt src_reg
      else if src_reg < ri_Ctrl_Base_DepTag isa then flattenFloat (src_reg - ri_FP_Base_DepTag isa) + ri_NumIntRegs isa
      else src_reg - ri_FP_Base_DepTag isa + ri_NumIntRegs isa)"

definition flat_dest :: "RenameISA \<Rightarrow> (nat \<Rightarrow> nat) \<Rightarrow> nat \<Rightarrow> nat" where
  "flat_dest isa flattenInt dest_reg =
     (if dest_reg < ri_FP_Base_DepTag isa then flattenInt dest_reg
      else dest_reg - ri_FP_Base_DepTag isa + ri_NumIntRegs isa)"

text \<open>For each source the register it was renamed to and whether it is ready.\<close>

fun renameSrcRegs :: "RenameISA \<Rightarrow> nat list \<Rightarrow> nat \<Rightarrow> DefaultRename \<Rightarrow> (nat \<times> bool) list res" where
  "renameSrcRegs isa [] tid s = Inr []"
| "renameSrcRegs isa (r # rs) tid s =
     (let renamed_reg = rmap_lookup r (rn_renameMap s ! tid)
      in bind_res (getReg isa renamed_reg (rn_scoreboard s)) (\<lambda>ready.
         bind_res (renameSrcRegs isa rs tid s) (\<lambda>xs. Inr ((renamed_reg, ready) # xs))))"

text \<open>For each destination, already flattened, its new and its previous register.\<close>

fun renameDestRegs :: "RenameISA \<Rightarrow> 64 word \<Rightarrow> nat list \<Rightarrow> nat \<Rightarrow> DefaultRename \<Rightarrow> ((nat \<times> nat) list \<times> DefaultRename) res" where
  "renameDestRegs isa seqNum [] tid s = Inr ([], s)"
| "renameDestRegs isa seqNum (r # rs) tid s =
     bind_res (rmap_rename isa r (rn_renameMap s ! tid) (rn_freeList s)) (\<lambda>((new, prev), m, f).
     bind_res (unsetReg isa new (rn_scoreboard s)) (\<lambda>b.
     let s = (set_rmap tid m s)\<lparr>rn_freeList := f, rn_scoreboard := b\<rparr>;
         s = set_hbuf tid (\<lparr>rh_instSeqNum = seqNum, rh_archReg = r, rh_newPhysReg = new, rh_prevPhysReg = prev\<rparr> # rn_historyBuffer s ! tid) s
     in bind_res (renameDestRegs isa seqNum rs tid s) (\<lambda>(xs, s). Inr ((new, prev) # xs, s))))"

text \<open>What \<open>renameInsts\<close> does with one instruction; \<open>None\<close> if it blocks for lack of registers.\<close>

record RenameInst =
  rin_seqNum :: "64 word"
  rin_srcs :: "nat list"
  rin_dests :: "nat list"

definition rename_inst :: "RenameISA \<Rightarrow> (nat \<Rightarrow> nat) \<Rightarrow> (nat \<Rightarrow> nat) \<Rightarrow> RenameInst \<Rightarrow> nat \<Rightarrow> DefaultRename \<Rightarrow> (((nat \<times> bool) list \<times> (nat \<times> nat) list) option \<times> DefaultRename) res" where
  "rename_inst isa flattenInt flattenFloat inst tid s =
     (if rmap_numFreeEntries (rn_freeList s) < length (rin_dests inst) then Inr (None, s)
      else bind_res (renameSrcRegs isa (map (flat_src isa flattenInt flattenFloat) (rin_srcs inst)) tid s) (\<lambda>srcs.
           bind_res (renameDestRegs isa (rin_seqNum inst) (map (flat_dest isa flattenInt) (rin_dests inst)) tid s) (\<lambda>(dests, s).
           Inr (Some (srcs, dests), s))))"

section \<open>Construction and threads\<close>

text \<open>The loop of the constructor of the processor over its threads; the map of the commit stage, which does
  not bind, leaves the counters as they are.\<close>

fun init_maps :: "RenameISA \<Rightarrow> nat \<Rightarrow> nat \<Rightarrow> nat \<Rightarrow> nat list \<Rightarrow> nat \<Rightarrow> nat \<Rightarrow> SimpleRenameMap list" where
  "init_maps isa npi npf active [] lreg freg = []"
| "init_maps isa npi npf active (tid # tids) lreg freg =
     (case rmap_init (ri_NumIntRegs isa) npi lreg (ri_NumFloatRegs isa) npf freg (ri_NumMiscRegs isa) (ri_ZeroReg isa) (ri_ZeroReg isa) tid (tid < active) of
        (m, lreg, freg) \<Rightarrow> m # init_maps isa npi npf active tids lreg freg)"

definition rename_setup :: "RenameISA \<Rightarrow> nat \<Rightarrow> nat \<Rightarrow> nat \<Rightarrow> nat \<Rightarrow> DefaultRename res" where
  "rename_setup isa numPhysIntRegs numPhysFloatRegs numThreads active_threads =
     bind_res (Scoreboard_new numThreads (ri_NumIntRegs isa) numPhysIntRegs (ri_NumFloatRegs isa) numPhysFloatRegs (ri_NumMiscRegs isa * numThreads) (ri_ZeroReg isa)) (\<lambda>b.
     guard_res AssertFail (numPhysIntRegs \<ge> numThreads * ri_NumIntRegs isa)
     (guard_res AssertFail (numPhysFloatRegs \<ge> numThreads * ri_NumFloatRegs isa)
       (Inr \<lparr>rn_renameMap = init_maps isa numPhysIntRegs numPhysFloatRegs active_threads [0..<numThreads] 0 numPhysIntRegs,
             rn_freeList = SimpleFreeList_new numThreads (ri_NumIntRegs isa) numPhysIntRegs (ri_NumFloatRegs isa) numPhysFloatRegs,
             rn_scoreboard = b, rn_historyBuffer = replicate numThreads [], rn_maxPhysicalRegs = numPhysIntRegs + numPhysFloatRegs\<rparr>)))"

text \<open>The registers in \<open>insertThread\<close> and \<open>removeThread\<close>.\<close>

fun bind_ints :: "nat list \<Rightarrow> nat \<Rightarrow> DefaultRename \<Rightarrow> DefaultRename res" where
  "bind_ints [] tid s = Inr s"
| "bind_ints (r # rs) tid s =
     bind_res (getIntReg (rn_freeList s)) (\<lambda>(p, f).
     bind_res (setReg p (rn_scoreboard s)) (\<lambda>b.
     bind_ints rs tid ((set_rmap tid (rmap_setEntry r p (rn_renameMap s ! tid)) s)\<lparr>rn_freeList := f, rn_scoreboard := b\<rparr>)))"

fun bind_floats :: "nat list \<Rightarrow> nat \<Rightarrow> DefaultRename \<Rightarrow> DefaultRename res" where
  "bind_floats [] tid s = Inr s"
| "bind_floats (r # rs) tid s =
     bind_res (getFloatReg (rn_freeList s)) (\<lambda>(p, f).
     bind_res (setReg p (rn_scoreboard s)) (\<lambda>b.
     bind_floats rs tid ((set_rmap tid (rmap_setEntry r p (rn_renameMap s ! tid)) s)\<lparr>rn_freeList := f, rn_scoreboard := b\<rparr>)))"

definition insertThread_regs :: "RenameISA \<Rightarrow> nat \<Rightarrow> DefaultRename \<Rightarrow> DefaultRename res" where
  "insertThread_regs isa tid s = bind_res (bind_ints [0..<ri_NumIntRegs isa] tid s) (bind_floats [0..<ri_NumFloatRegs isa] tid)"

fun unbind_regs :: "RenameISA \<Rightarrow> nat list \<Rightarrow> nat \<Rightarrow> DefaultRename \<Rightarrow> DefaultRename res" where
  "unbind_regs isa [] tid s = Inr s"
| "unbind_regs isa (r # rs) tid s =
     (let p = rmap_lookup r (rn_renameMap s ! tid)
      in bind_res (unsetReg isa p (rn_scoreboard s)) (\<lambda>b.
         unbind_regs isa rs tid (s\<lparr>rn_scoreboard := b, rn_freeList := addReg isa p (rn_freeList s)\<rparr>)))"

definition removeThread_regs :: "RenameISA \<Rightarrow> nat \<Rightarrow> DefaultRename \<Rightarrow> DefaultRename res" where
  "removeThread_regs isa tid s =
     bind_res (unbind_regs isa [0..<ri_NumIntRegs isa] tid s) (unbind_regs isa [ri_NumIntRegs isa..<ri_NumFloatRegs isa] tid)"

section \<open>Maps as functions\<close>

definition rmap_ok :: "RenameISA \<Rightarrow> nat \<Rightarrow> nat \<Rightarrow> SimpleRenameMap \<Rightarrow> bool" where
  "rmap_ok isa npi npf m \<longleftrightarrow> rmap_numLogicalIntRegs m = ri_NumIntRegs isa \<and> rmap_numLogicalFloatRegs m = ri_NumFloatRegs isa \<and>
     rmap_numLogicalRegs m = ri_NumIntRegs isa + ri_NumFloatRegs isa \<and> rmap_numPhysicalIntRegs m = npi \<and> rmap_numPhysicalRegs m = npi + npf \<and>
     rmap_intZeroReg m = ri_ZeroReg isa \<and> rmap_floatZeroReg m = ri_ZeroReg isa \<and>
     length (rmap_intRenameMap m) = ri_NumIntRegs isa \<and> length (rmap_floatRenameMap m) = ri_NumIntRegs isa + ri_NumFloatRegs isa"

lemma setEntry_ok [simp]: "rmap_ok isa npi npf (rmap_setEntry a r m) = rmap_ok isa npi npf m"
  by (simp add: rmap_ok_def rmap_setEntry_def)

lemma lookup_setEntry:
  assumes "rmap_ok isa npi npf m"
  shows "rmap_lookup b (rmap_setEntry a r m) = (if b = a \<and> a < ri_NumIntRegs isa + ri_NumFloatRegs isa then r else rmap_lookup b m)"
  using assms by (auto simp: rmap_ok_def rmap_lookup_def rmap_setEntry_def bind_entry_def nth_list_update)

lemma setEntry_undo:
  assumes "rmap_ok isa npi npf m" "p = rmap_lookup a m"
  shows "rmap_setEntry a p (rmap_setEntry a r m) = m"
proof -
  have e: "bind_entry (re_physical_reg e) (bind_entry r e) = e" for e by (simp add: bind_entry_def)
  show ?thesis using assms by (auto simp: rmap_ok_def rmap_lookup_def rmap_setEntry_def e)
qed

lemma lookup_misc: "rmap_ok isa npi npf m \<Longrightarrow> ri_NumIntRegs isa + ri_NumFloatRegs isa \<le> a \<Longrightarrow> npi + npf \<le> rmap_lookup a m"
  by (simp add: rmap_ok_def rmap_lookup_def)

lemma setEntry_misc: "rmap_ok isa npi npf m \<Longrightarrow> ri_NumIntRegs isa + ri_NumFloatRegs isa \<le> a \<Longrightarrow> rmap_setEntry a r m = m"
  by (simp add: rmap_ok_def rmap_setEntry_def)

text \<open>The registers of a kind, integer or floating point: its logical ones, its physical ones, those that are free,
  mapped, or waiting in the history buffer for the commit of the instruction that replaced them.\<close>

definition logical :: "RenameISA \<Rightarrow> bool \<Rightarrow> nat list" where
  "logical isa k = (if k then [0..<ri_NumIntRegs isa] else [ri_NumIntRegs isa..<ri_NumIntRegs isa + ri_NumFloatRegs isa])"

definition physical :: "nat \<Rightarrow> nat \<Rightarrow> bool \<Rightarrow> nat list" where
  "physical npi npf k = (if k then [0..<npi] else [npi..<npi + npf])"

definition free_regs :: "bool \<Rightarrow> SimpleFreeList \<Rightarrow> nat list" where
  "free_regs k f = (if k then fl_freeIntRegs f else fl_freeFloatRegs f)"

definition mapped :: "RenameISA \<Rightarrow> bool \<Rightarrow> SimpleRenameMap \<Rightarrow> nat list" where
  "mapped isa k m = map (\<lambda>a. rmap_lookup a m) (logical isa k)"

definition waiting :: "RenameISA \<Rightarrow> bool \<Rightarrow> RenameHistory list \<Rightarrow> nat list" where
  "waiting isa k hs = map rh_prevPhysReg (filter (\<lambda>h. rh_archReg h \<in> set (logical isa k)) hs)"

definition owned :: "RenameISA \<Rightarrow> bool \<Rightarrow> DefaultRename \<Rightarrow> nat list" where
  "owned isa k s = free_regs k (rn_freeList s) @ concat (map (mapped isa k) (rn_renameMap s)) @ concat (map (waiting isa k) (rn_historyBuffer s))"

lemma mset_map_fun_upd:
  assumes "distinct xs" "b \<in> set xs"
  shows "mset (map (f(b := r)) xs) + {#f b#} = mset (map f xs) + {#r#}"
  using assms
proof (induction xs)
  case (Cons x xs)
  show ?case
  proof (cases "x = b")
    case True
    then have "map (f(b := r)) xs = map f xs" using Cons.prems(1) by auto
    then have "mset (map (f(b := r)) xs) = mset (map f xs)" by (rule arg_cong)
    then show ?thesis using True by (simp add: fun_upd_def del: mset_map)
  next
    case False
    then show ?thesis using Cons by (simp del: mset_map)
  qed
qed simp

lemma mapped_setEntry:
  assumes "rmap_ok isa npi npf m"
  shows "a \<in> set (logical isa k) \<Longrightarrow> mset (mapped isa k (rmap_setEntry a r m)) + {#rmap_lookup a m#} = mset (mapped isa k m) + {#r#}"
    "a \<notin> set (logical isa k) \<Longrightarrow> mapped isa k (rmap_setEntry a r m) = mapped isa k m"
proof -
  have d: "distinct (logical isa k)" by (simp add: logical_def)
  assume a: "a \<in> set (logical isa k)"
  then have "a < ri_NumIntRegs isa + ri_NumFloatRegs isa" by (auto simp: logical_def split: if_splits)
  then have "(\<lambda>b. rmap_lookup b (rmap_setEntry a r m)) = (\<lambda>b. rmap_lookup b m)(a := r)" by (auto simp: lookup_setEntry [OF assms])
  then show "mset (mapped isa k (rmap_setEntry a r m)) + {#rmap_lookup a m#} = mset (mapped isa k m) + {#r#}"
    using mset_map_fun_upd [OF d a, of "\<lambda>b. rmap_lookup b m" r] by (simp add: mapped_def)
next
  assume "a \<notin> set (logical isa k)"
  then show "mapped isa k (rmap_setEntry a r m) = mapped isa k m" by (auto simp: mapped_def lookup_setEntry [OF assms])
qed

lemma mset_concat_update:
  assumes "t < length xs"
  shows "mset (concat (map g (xs[t := y]))) + mset (g (xs ! t)) = mset (concat (map g xs)) + mset (g y)"
  using assms
proof (induction xs arbitrary: t)
  case (Cons x xs)
  show ?case
  proof (cases t)
    case 0
    then show ?thesis by (simp add: ac_simps)
  next
    case (Suc n)
    then show ?thesis using Cons.IH [of n] Cons.prems by (simp add: add.assoc)
  qed
qed simp

section \<open>The invariant\<close>

text \<open>A register that an instruction may write: the decoder turns instructions that write a zero
  register into instructions without a destination.\<close>

definition writable :: "RenameISA \<Rightarrow> nat \<Rightarrow> bool" where
  "writable isa a \<longleftrightarrow> a < ri_NumIntRegs isa + ri_NumFloatRegs isa + ri_NumMiscRegs isa \<and> a \<noteq> ri_ZeroReg isa \<and>
     (ri_alpha isa \<longrightarrow> a \<noteq> ri_NumIntRegs isa + ri_ZeroReg isa)"

text \<open>The records of a history, newest first, lead back from the current map to the map at commit.\<close>

fun chain :: "RenameISA \<Rightarrow> SimpleRenameMap \<Rightarrow> RenameHistory list \<Rightarrow> bool" where
  "chain isa m [] = True"
| "chain isa m (h # hs) \<longleftrightarrow> writable isa (rh_archReg h) \<and> rmap_lookup (rh_archReg h) m = rh_newPhysReg h \<and>
     (ri_NumIntRegs isa + ri_NumFloatRegs isa \<le> rh_archReg h \<longrightarrow> rh_prevPhysReg h = rh_newPhysReg h) \<and>
     chain isa (rmap_setEntry (rh_archReg h) (rh_prevPhysReg h) m) hs"

definition rn_wf :: "RenameISA \<Rightarrow> nat \<Rightarrow> nat \<Rightarrow> DefaultRename \<Rightarrow> bool" where
  "rn_wf isa npi npf s \<longleftrightarrow> (\<forall>m \<in> set (rn_renameMap s). rmap_ok isa npi npf m) \<and> length (rn_historyBuffer s) = length (rn_renameMap s) \<and>
     fl_numPhysicalIntRegs (rn_freeList s) = npi \<and> fl_numPhysicalRegs (rn_freeList s) = npi + npf \<and> rn_maxPhysicalRegs s = npi + npf \<and>
     npi + npf + ri_NumMiscRegs isa \<le> length (sb_regScoreBoard (rn_scoreboard s))"

definition zeros_kept :: "RenameISA \<Rightarrow> nat \<Rightarrow> DefaultRename \<Rightarrow> bool" where
  "zeros_kept isa npi s \<longleftrightarrow> rn_renameMap s \<noteq> [] \<and> ri_ZeroReg isa < ri_NumIntRegs isa \<and> rmap_lookup (ri_ZeroReg isa) (rn_renameMap s ! 0) = ri_ZeroReg isa \<and>
     (ri_alpha isa \<longrightarrow> ri_ZeroReg isa < ri_NumFloatRegs isa \<and> rmap_lookup (ri_NumIntRegs isa + ri_ZeroReg isa) (rn_renameMap s ! 0) = npi + ri_ZeroReg isa)"

definition rn_inv :: "RenameISA \<Rightarrow> nat \<Rightarrow> nat \<Rightarrow> DefaultRename \<Rightarrow> bool" where
  "rn_inv isa npi npf s \<longleftrightarrow> rn_wf isa npi npf s \<and> zeros_kept isa npi s \<and> (\<forall>k. mset (owned isa k s) = mset (physical npi npf k)) \<and>
     (\<forall>t < length (rn_renameMap s). chain isa (rn_renameMap s ! t) (rn_historyBuffer s ! t))"

text \<open>The state of a thread replaced, with the free list and the scoreboard.\<close>

definition put_thread :: "nat \<Rightarrow> SimpleRenameMap \<Rightarrow> RenameHistory list \<Rightarrow> SimpleFreeList \<Rightarrow> Scoreboard \<Rightarrow> DefaultRename \<Rightarrow> DefaultRename" where
  "put_thread t m hs f b s = s\<lparr>rn_renameMap := (rn_renameMap s)[t := m], rn_historyBuffer := (rn_historyBuffer s)[t := hs], rn_freeList := f, rn_scoreboard := b\<rparr>"

lemma put_thread_eq: "set_hbuf t hs ((set_rmap t m s)\<lparr>rn_freeList := f, rn_scoreboard := b\<rparr>) = put_thread t m hs f b s"
  by (cases s) (simp add: set_hbuf_def set_rmap_def put_thread_def)

lemma mset_exchange:
  fixes A B :: "'a multiset"
  assumes "A' + a = A + a'" "B' + b = B + b'" "f' + a' + b' = f + a + b"
  shows "f' + (A' + B') = f + (A + B)"
proof (rule multiset_eqI)
  fix x
  have "count A' x + count a x = count A x + count a' x" "count B' x + count b x = count B x + count b' x"
    "count f' x + count a' x + count b' x = count f x + count a x + count b x"
    using assms by (metis count_union)+
  then show "count (f' + (A' + B')) x = count (f + (A + B)) x" by simp
qed

lemma put_thread_owned:
  assumes "t < length (rn_renameMap s)" "length (rn_historyBuffer s) = length (rn_renameMap s)"
    and "mset (free_regs k f) + mset (mapped isa k m) + mset (waiting isa k hs) =
         mset (free_regs k (rn_freeList s)) + mset (mapped isa k (rn_renameMap s ! t)) + mset (waiting isa k (rn_historyBuffer s ! t))"
  shows "mset (owned isa k (put_thread t m hs f b s)) = mset (owned isa k s)"
  using mset_exchange [OF mset_concat_update [of t "rn_renameMap s" "mapped isa k" m] mset_concat_update [of t "rn_historyBuffer s" "waiting isa k" hs] assms(3)] assms(1,2)
  by (simp add: owned_def put_thread_def)

lemma put_thread_inv:
  assumes "rn_inv isa npi npf s" "t < length (rn_renameMap s)" "rmap_ok isa npi npf m" "chain isa m hs"
    and "fl_numPhysicalIntRegs f = npi" "fl_numPhysicalRegs f = npi + npf" "length (sb_regScoreBoard b) = length (sb_regScoreBoard (rn_scoreboard s))"
    and "rmap_lookup (ri_ZeroReg isa) m = rmap_lookup (ri_ZeroReg isa) (rn_renameMap s ! t)"
    and "ri_alpha isa \<longrightarrow> rmap_lookup (ri_NumIntRegs isa + ri_ZeroReg isa) m = rmap_lookup (ri_NumIntRegs isa + ri_ZeroReg isa) (rn_renameMap s ! t)"
    and "\<forall>k. mset (free_regs k f) + mset (mapped isa k m) + mset (waiting isa k hs) =
         mset (free_regs k (rn_freeList s)) + mset (mapped isa k (rn_renameMap s ! t)) + mset (waiting isa k (rn_historyBuffer s ! t))"
  shows "rn_inv isa npi npf (put_thread t m hs f b s)"
proof -
  have wf: "rn_wf isa npi npf s" using assms(1) by (simp add: rn_inv_def)
  have lens: "length (rn_historyBuffer s) = length (rn_renameMap s)" using wf by (simp add: rn_wf_def)
  have "rn_wf isa npi npf (put_thread t m hs f b s)"
    using wf assms(3,5-7) set_update_subset_insert [of "rn_renameMap s" t m] by (auto simp: rn_wf_def put_thread_def)
  moreover have "zeros_kept isa npi (put_thread t m hs f b s)"
    using assms(1,2,8,9) by (cases "t = 0") (auto simp: rn_inv_def zeros_kept_def put_thread_def nth_list_update)
  moreover have "\<forall>k. mset (owned isa k (put_thread t m hs f b s)) = mset (physical npi npf k)"
    using put_thread_owned [OF assms(2) lens] assms(1,10) by (simp add: rn_inv_def)
  moreover have "chain isa (rn_renameMap (put_thread t m hs f b s) ! i) (rn_historyBuffer (put_thread t m hs f b s) ! i)"
    if "i < length (rn_renameMap (put_thread t m hs f b s))" for i
    using that assms(1,2,4) lens by (auto simp: put_thread_def nth_list_update rn_inv_def)
  ultimately show ?thesis by (simp add: rn_inv_def)
qed

section \<open>Steps keep the invariant\<close>

lemma rn_invD:
  assumes "rn_inv isa npi npf s" "t < length (rn_renameMap s)"
  shows "rmap_ok isa npi npf (rn_renameMap s ! t)" "t < length (rn_historyBuffer s)" "chain isa (rn_renameMap s ! t) (rn_historyBuffer s ! t)"
    "fl_numPhysicalIntRegs (rn_freeList s) = npi" "fl_numPhysicalRegs (rn_freeList s) = npi + npf" "rn_maxPhysicalRegs s = npi + npf"
    "npi + npf + ri_NumMiscRegs isa \<le> length (sb_regScoreBoard (rn_scoreboard s))" "mset (owned isa k s) = mset (physical npi npf k)"
  using assms by (simp_all add: rn_inv_def rn_wf_def)

lemma owned_set: "rn_inv isa npi npf s \<Longrightarrow> set (owned isa k s) = set (physical npi npf k)"
  unfolding rn_inv_def by (metis set_mset_mset)

lemma free_in_range: "rn_inv isa npi npf s \<Longrightarrow> r \<in> set (free_regs k (rn_freeList s)) \<Longrightarrow> r \<in> set (physical npi npf k)"
  using owned_set [of isa npi npf s k] by (auto simp: owned_def)

lemma waiting_Cons: "waiting isa k (h # hs) = (if rh_archReg h \<in> set (logical isa k) then [rh_prevPhysReg h] else []) @ waiting isa k hs"
  by (simp add: waiting_def)

lemma logical_kinds: "a \<in> set (logical isa True) \<longleftrightarrow> a < ri_NumIntRegs isa"
  "a \<in> set (logical isa False) \<longleftrightarrow> ri_NumIntRegs isa \<le> a \<and> a < ri_NumIntRegs isa + ri_NumFloatRegs isa"
  by (auto simp: logical_def)

text \<open>The renaming of one destination: which register it takes.\<close>

definition takes :: "RenameISA \<Rightarrow> nat \<Rightarrow> nat \<Rightarrow> SimpleRenameMap \<Rightarrow> SimpleFreeList \<Rightarrow> nat \<Rightarrow> nat \<Rightarrow> SimpleFreeList \<Rightarrow> bool" where
  "takes isa npi npf m f0 a new f \<longleftrightarrow>
     rmap_rename isa a m f0 = Inr ((new, rmap_lookup a m), rmap_setEntry a new m, f) \<and> new < npi + npf + ri_NumMiscRegs isa \<and>
     rmap_lookup a (rmap_setEntry a new m) = new \<and> (ri_NumIntRegs isa + ri_NumFloatRegs isa \<le> a \<longrightarrow> rmap_lookup a m = new) \<and>
     fl_numPhysicalIntRegs f = npi \<and> fl_numPhysicalRegs f = npi + npf \<and>
     (\<forall>k. free_regs k f0 = (if a \<in> set (logical isa k) then [new] else []) @ free_regs k f)"

lemma rmap_rename_takes:
  assumes "rn_inv isa npi npf s" "t < length (rn_renameMap s)" "writable isa a" "\<forall>k. a \<in> set (logical isa k) \<longrightarrow> free_regs k (rn_freeList s) \<noteq> []"
  shows "\<exists>new f. takes isa npi npf (rn_renameMap s ! t) (rn_freeList s) a new f"
proof -
  let ?m = "rn_renameMap s ! t" and ?f = "rn_freeList s"
  note d = rn_invD [OF assms(1,2)]
  have m: "rmap_numLogicalIntRegs ?m = ri_NumIntRegs isa" "rmap_numLogicalRegs ?m = ri_NumIntRegs isa + ri_NumFloatRegs isa" "rmap_numLogicalFloatRegs ?m = ri_NumFloatRegs isa"
    "rmap_numPhysicalIntRegs ?m = npi" "rmap_numPhysicalRegs ?m = npi + npf" "rmap_intZeroReg ?m = ri_ZeroReg isa" "rmap_floatZeroReg ?m = ri_ZeroReg isa"
    using d(1) by (simp_all add: rmap_ok_def)
  note look = lookup_setEntry [OF d(1)]
  have a: "a < ri_NumIntRegs isa + ri_NumFloatRegs isa + ri_NumMiscRegs isa" "a \<noteq> ri_ZeroReg isa" using assms(3) by (simp_all add: writable_def)
  consider (int) "a < ri_NumIntRegs isa" | (float) "ri_NumIntRegs isa \<le> a" "a < ri_NumIntRegs isa + ri_NumFloatRegs isa" | (misc) "ri_NumIntRegs isa + ri_NumFloatRegs isa \<le> a" by linarith
  then show ?thesis
  proof cases
    case int
    then obtain r rs where r: "fl_freeIntRegs ?f = r # rs" using assms(4) [rule_format, of True] by (cases "fl_freeIntRegs ?f") (auto simp: logical_kinds free_regs_def)
    have lt: "r < npi" using free_in_range [OF assms(1), of r True] r by (simp add: free_regs_def physical_def)
    have "rmap_rename isa a ?m ?f = Inr ((r, rmap_lookup a ?m), rmap_setEntry a r ?m, ?f\<lparr>fl_freeIntRegs := rs\<rparr>)"
      using int a m r lt by (simp add: rmap_rename_def getIntReg_def rmap_lookup_def rmap_setEntry_def)
    then have "takes isa npi npf ?m ?f a r (?f\<lparr>fl_freeIntRegs := rs\<rparr>)" using int r lt d(4,5) look by (simp add: takes_def free_regs_def logical_def)
    then show ?thesis by blast
  next
    case float
    then obtain r rs where r: "fl_freeFloatRegs ?f = r # rs" using assms(4) [rule_format, of False] by (cases "fl_freeFloatRegs ?f") (auto simp: logical_kinds free_regs_def)
    have lt: "npi \<le> r" "r < npi + npf" using free_in_range [OF assms(1), of r False] r by (simp_all add: free_regs_def physical_def)
    have "rmap_rename isa a ?m ?f = Inr ((r, rmap_lookup a ?m), rmap_setEntry a r ?m, ?f\<lparr>fl_freeFloatRegs := rs\<rparr>)"
      using float a m r lt by (simp add: rmap_rename_def getFloatReg_def rmap_lookup_def rmap_setEntry_def)
    then have "takes isa npi npf ?m ?f a r (?f\<lparr>fl_freeFloatRegs := rs\<rparr>)" using float r lt d(4,5) look by (simp add: takes_def free_regs_def logical_def)
    then show ?thesis by blast
  next
    case misc
    let ?r = "(a - (ri_NumIntRegs isa + ri_NumFloatRegs isa)) + (npi + npf)"
    have l: "rmap_lookup a ?m = ?r" "rmap_setEntry a ?r ?m = ?m" using misc m setEntry_misc [OF d(1) misc] by (simp_all add: rmap_lookup_def)
    then have "rmap_rename isa a ?m ?f = Inr ((?r, rmap_lookup a ?m), rmap_setEntry a ?r ?m, ?f)" using misc m by (simp add: rmap_rename_def Let_def)
    then have "takes isa npi npf ?m ?f a ?r ?f" using misc a l d(4,5) by (simp add: takes_def logical_def)
    then show ?thesis by blast
  qed
qed

lemma unsetReg_ok: "r < length (sb_regScoreBoard b) \<Longrightarrow> \<exists>b'. unsetReg isa r b = Inr b' \<and> length (sb_regScoreBoard b') = length (sb_regScoreBoard b)"
  by (auto simp: unsetReg_def)

definition renamed :: "RenameISA \<Rightarrow> 64 word \<Rightarrow> nat \<Rightarrow> nat \<Rightarrow> nat \<Rightarrow> SimpleFreeList \<Rightarrow> Scoreboard \<Rightarrow> DefaultRename \<Rightarrow> DefaultRename" where
  "renamed isa sn t a new f b s = put_thread t (rmap_setEntry a new (rn_renameMap s ! t))
     (\<lparr>rh_instSeqNum = sn, rh_archReg = a, rh_newPhysReg = new, rh_prevPhysReg = rmap_lookup a (rn_renameMap s ! t)\<rparr> # rn_historyBuffer s ! t) f b s"

lemma renamed_inv:
  assumes "rn_inv isa npi npf s" "t < length (rn_renameMap s)" "writable isa a" "takes isa npi npf (rn_renameMap s ! t) (rn_freeList s) a new f"
    and "length (sb_regScoreBoard b) = length (sb_regScoreBoard (rn_scoreboard s))"
  shows "rn_inv isa npi npf (renamed isa sn t a new f b s)"
proof -
  let ?m = "rn_renameMap s ! t" and ?h = "\<lparr>rh_instSeqNum = sn, rh_archReg = a, rh_newPhysReg = new, rh_prevPhysReg = rmap_lookup a (rn_renameMap s ! t)\<rparr>"
  note d = rn_invD [OF assms(1,2)]
  have ch: "chain isa (rmap_setEntry a new ?m) (?h # rn_historyBuffer s ! t)"
    using assms(3,4) d(3) setEntry_undo [OF d(1) refl] by (simp add: takes_def)
  have "mset (free_regs k f) + mset (mapped isa k (rmap_setEntry a new ?m)) + mset (waiting isa k (?h # rn_historyBuffer s ! t)) =
      mset (free_regs k (rn_freeList s)) + mset (mapped isa k ?m) + mset (waiting isa k (rn_historyBuffer s ! t))" for k
  proof -
    have "free_regs k (rn_freeList s) = (if a \<in> set (logical isa k) then [new] else []) @ free_regs k f" using assms(4) unfolding takes_def by blast
    then show ?thesis using mapped_setEntry [OF d(1), of a k new] by (cases "a \<in> set (logical isa k)") (simp_all add: waiting_Cons ac_simps)
  qed
  moreover have "rmap_lookup (ri_ZeroReg isa) (rmap_setEntry a new ?m) = rmap_lookup (ri_ZeroReg isa) ?m"
    "ri_alpha isa \<longrightarrow> rmap_lookup (ri_NumIntRegs isa + ri_ZeroReg isa) (rmap_setEntry a new ?m) = rmap_lookup (ri_NumIntRegs isa + ri_ZeroReg isa) ?m"
    using assms(3) by (auto simp: writable_def lookup_setEntry [OF d(1)])
  ultimately show ?thesis unfolding renamed_def
    by (intro put_thread_inv [OF assms(1,2) _ ch]) (use assms(4,5) d(1) in \<open>simp_all add: takes_def\<close>)
qed

lemma rename_one:
  assumes "rn_inv isa npi npf s" "t < length (rn_renameMap s)" "writable isa a" "\<forall>k. a \<in> set (logical isa k) \<longrightarrow> free_regs k (rn_freeList s) \<noteq> []"
  shows "\<exists>new f b. takes isa npi npf (rn_renameMap s ! t) (rn_freeList s) a new f \<and> rn_inv isa npi npf (renamed isa sn t a new f b s) \<and>
    length (sb_regScoreBoard b) = length (sb_regScoreBoard (rn_scoreboard s)) \<and>
    (\<forall>as. renameDestRegs isa sn (a # as) t s =
      bind_res (renameDestRegs isa sn as t (renamed isa sn t a new f b s)) (\<lambda>(xs, s'). Inr ((new, rmap_lookup a (rn_renameMap s ! t)) # xs, s')))"
proof -
  let ?m = "rn_renameMap s ! t"
  note d = rn_invD [OF assms(1,2)]
  obtain new f where n: "takes isa npi npf ?m (rn_freeList s) a new f" using rmap_rename_takes [OF assms] by blast
  obtain b where b: "unsetReg isa new (rn_scoreboard s) = Inr b" "length (sb_regScoreBoard b) = length (sb_regScoreBoard (rn_scoreboard s))"
    using unsetReg_ok [of new "rn_scoreboard s" isa] n d(7) by (auto simp: takes_def)
  have "renameDestRegs isa sn (a # as) t s =
      bind_res (renameDestRegs isa sn as t (renamed isa sn t a new f b s)) (\<lambda>(xs, s'). Inr ((new, rmap_lookup a ?m) # xs, s'))" for as
    using n b(1) by (simp add: takes_def renamed_def Let_def put_thread_eq) (simp add: set_rmap_def)
  then show ?thesis using n renamed_inv [OF assms(1-3) n b(2)] b(2) by blast
qed

lemma distinct_concat_nth:
  assumes "distinct (concat xss)" "i < length xss" "j < length xss" "x \<in> set (xss ! i)" "x \<in> set (xss ! j)"
  shows "i = j"
  using assms
proof (induction xss arbitrary: i j)
  case (Cons xs xss)
  have d: "set xs \<inter> set (concat xss) = {}" "distinct (concat xss)" using Cons.prems(1) by auto
  have in_rest: "x \<in> set (concat xss)" if "n < length xss" "x \<in> set (xss ! n)" for n using that by (auto intro: nth_mem)
  show ?case using Cons.IH [OF d(2)] Cons.prems(2-5) d(1) in_rest by (cases i; cases j) auto
qed simp

lemma distinct_concat_member: "distinct (concat xss) \<Longrightarrow> xs \<in> set xss \<Longrightarrow> distinct xs"
  by (induction xss) auto

lemma owned_distinct: "rn_inv isa npi npf s \<Longrightarrow> distinct (owned isa k s)"
  unfolding rn_inv_def using mset_eq_imp_distinct_iff [of "owned isa k s" "physical npi npf k"] by (simp add: physical_def)

text \<open>No two logical registers of a kind share a physical one.\<close>

lemma lookup_inj:
  assumes "rn_inv isa npi npf s" "t < length (rn_renameMap s)" "u < length (rn_renameMap s)" "a \<in> set (logical isa k)" "b \<in> set (logical isa k)"
    and "rmap_lookup a (rn_renameMap s ! t) = rmap_lookup b (rn_renameMap s ! u)"
  shows "t = u" "a = b"
proof -
  have d: "distinct (concat (map (mapped isa k) (rn_renameMap s)))" using owned_distinct [OF assms(1), of k] by (simp add: owned_def)
  have i: "rmap_lookup a (rn_renameMap s ! t) \<in> set (map (mapped isa k) (rn_renameMap s) ! t)" "rmap_lookup a (rn_renameMap s ! t) \<in> set (map (mapped isa k) (rn_renameMap s) ! u)"
    using assms(2-5) by (simp add: mapped_def, simp add: assms(6) mapped_def)
  show "t = u" using distinct_concat_nth [OF d _ _ i] assms(2,3) by simp
  have "distinct (mapped isa k (rn_renameMap s ! t))" by (rule distinct_concat_member [OF d]) (use assms(2) in simp)
  then show "a = b" using assms(4-6) \<open>t = u\<close> by (auto simp: mapped_def distinct_map inj_on_def)
qed

lemma mapped_in_range:
  assumes "rn_inv isa npi npf s" "t < length (rn_renameMap s)" "a \<in> set (logical isa k)"
  shows "rmap_lookup a (rn_renameMap s ! t) \<in> set (physical npi npf k)"
proof -
  have "rmap_lookup a (rn_renameMap s ! t) \<in> set (mapped isa k (rn_renameMap s ! t))" using assms(3) by (simp add: mapped_def)
  then have "rmap_lookup a (rn_renameMap s ! t) \<in> set (owned isa k s)" using assms(2) by (auto simp: owned_def intro: nth_mem)
  then show ?thesis using owned_set [OF assms(1)] by simp
qed

text \<open>The register that stands for zero of a kind, which is never freed.\<close>

definition pinned :: "RenameISA \<Rightarrow> nat \<Rightarrow> bool \<Rightarrow> nat \<Rightarrow> bool" where
  "pinned isa npi k r \<longleftrightarrow> (if k then r = ri_ZeroReg isa else ri_alpha isa \<and> r = ri_ZeroReg isa + npi)"

lemma pinned_mapped:
  assumes "rn_inv isa npi npf s" "pinned isa npi k r"
  obtains z where "z \<in> set (logical isa k)" "\<not> writable isa z" "rmap_lookup z (rn_renameMap s ! 0) = r" "0 < length (rn_renameMap s)"
proof -
  have z: "zeros_kept isa npi s" using assms(1) by (simp add: rn_inv_def)
  show thesis
  proof (cases k)
    case True
    then show thesis using that [of "ri_ZeroReg isa"] z assms(2) by (simp add: zeros_kept_def pinned_def logical_kinds writable_def)
  next
    case False
    then show thesis using that [of "ri_NumIntRegs isa + ri_ZeroReg isa"] z assms(2) by (simp add: zeros_kept_def pinned_def logical_kinds writable_def add.commute)
  qed
qed

lemma mapped_not_pinned:
  assumes "rn_inv isa npi npf s" "t < length (rn_renameMap s)" "a \<in> set (logical isa k)" "writable isa a"
  shows "\<not> pinned isa npi k (rmap_lookup a (rn_renameMap s ! t))"
  using pinned_mapped [OF assms(1)] lookup_inj [OF assms(1,2) _ assms(3)] assms(4) by metis

lemma waiting_not_pinned:
  assumes "rn_inv isa npi npf s" "t < length (rn_renameMap s)" "r \<in> set (waiting isa k (rn_historyBuffer s ! t))"
  shows "\<not> pinned isa npi k r" "r \<in> set (physical npi npf k)"
proof -
  have "t < length (rn_historyBuffer s)" using rn_invD(2) [OF assms(1,2)] .
  then have w: "r \<in> set (concat (map (waiting isa k) (rn_historyBuffer s)))" using assms(3) by (auto intro: nth_mem)
  then show "r \<in> set (physical npi npf k)" using owned_set [OF assms(1), of k] by (auto simp: owned_def)
  show "\<not> pinned isa npi k r"
  proof
    assume "pinned isa npi k r"
    then obtain z where z: "z \<in> set (logical isa k)" "rmap_lookup z (rn_renameMap s ! 0) = r" "0 < length (rn_renameMap s)" using pinned_mapped [OF assms(1)] by metis
    have "r \<in> set (mapped isa k (rn_renameMap s ! 0))" using z(1,2) by (auto simp: mapped_def)
    then have "r \<in> set (concat (map (mapped isa k) (rn_renameMap s)))" using z(3) by (auto intro: nth_mem)
    then show False using w owned_distinct [OF assms(1), of k] by (auto simp: owned_def)
  qed
qed

lemma addReg_free:
  assumes "fl_numPhysicalIntRegs f = npi" "fl_numPhysicalRegs f = npi + npf"
  shows "r \<in> set (physical npi npf k) \<Longrightarrow> \<not> pinned isa npi k r \<Longrightarrow> free_regs j (addReg isa r f) = free_regs j f @ (if j = k then [r] else [])"
    "npi + npf \<le> r \<Longrightarrow> addReg isa r f = f"
    "fl_numPhysicalIntRegs (addReg isa r f) = npi" "fl_numPhysicalRegs (addReg isa r f) = npi + npf"
  using assms by (auto simp: addReg_def free_regs_def physical_def pinned_def split: if_splits)

lemma logical_unique: "a \<in> set (logical isa j) \<Longrightarrow> a \<in> set (logical isa k) \<Longrightarrow> j = k"
  by (auto simp: logical_def split: if_splits)

text \<open>Taking a rename back, while its record is still in the buffer.\<close>

lemma undo_rename_one:
  assumes "rn_inv isa npi npf (set_hbuf t (h # hs) s)" "t < length (rn_renameMap s)" "t < length (rn_historyBuffer s)"
  shows "\<exists>b. undo_rename isa t h s = Inr (put_thread t (rmap_setEntry (rh_archReg h) (rh_prevPhysReg h) (rn_renameMap s ! t)) (rn_historyBuffer s ! t)
           (addReg isa (rh_newPhysReg h) (rn_freeList s)) b s) \<and>
         rn_inv isa npi npf (put_thread t (rmap_setEntry (rh_archReg h) (rh_prevPhysReg h) (rn_renameMap s ! t)) hs (addReg isa (rh_newPhysReg h) (rn_freeList s)) b s)"
proof -
  let ?S = "set_hbuf t (h # hs) s" and ?m = "rn_renameMap s ! t" and ?a = "rh_archReg h" and ?new = "rh_newPhysReg h"
  have S: "rn_renameMap ?S = rn_renameMap s" "rn_historyBuffer ?S ! t = h # hs" "rn_freeList ?S = rn_freeList s" "rn_scoreboard ?S = rn_scoreboard s" "rn_maxPhysicalRegs ?S = rn_maxPhysicalRegs s"
    using assms(3) by (simp_all add: set_hbuf_def)
  have t: "t < length (rn_renameMap ?S)" using assms(2) S by simp
  note d = rn_invD [OF assms(1) t, unfolded S]
  have h: "writable isa ?a" "rmap_lookup ?a ?m = ?new" "chain isa (rmap_setEntry ?a (rh_prevPhysReg h) ?m) hs" using d(3) by simp_all
  have sb: "?new < length (sb_regScoreBoard (rn_scoreboard s)) \<or> ?new < npi + npf"
  proof (cases "\<exists>j. ?a \<in> set (logical isa j)")
    case True
    then show ?thesis using mapped_in_range [OF assms(1) t] S(1) h(2) by (fastforce simp: physical_def split: if_splits)
  next
    case False
    then have "ri_NumIntRegs isa + ri_NumFloatRegs isa \<le> ?a" by (metis logical_kinds not_le_imp_less)
    then show ?thesis using h(1,2) d(1,7) by (auto simp: writable_def rmap_ok_def rmap_lookup_def)
  qed
  then obtain b where b: "(if npi + npf \<le> ?new then setReg ?new (rn_scoreboard s) else Inr (rn_scoreboard s)) = Inr b" "length (sb_regScoreBoard b) = length (sb_regScoreBoard (rn_scoreboard s))"
    by (cases "npi + npf \<le> ?new") (auto simp: setReg_def)
  have u: "undo_rename isa t h s = Inr (put_thread t (rmap_setEntry ?a (rh_prevPhysReg h) ?m) (rn_historyBuffer s ! t) (addReg isa ?new (rn_freeList s)) b s)"
    using b(1) d(6) by (auto simp: undo_rename_def set_rmap_def put_thread_def Let_def split: if_splits)
  have eq: "put_thread t m hs f b ?S = put_thread t m hs f b s" for m f by (simp add: put_thread_def set_hbuf_def)
  note f = addReg_free [OF d(4,5)]
  have ms: "mset (free_regs k (addReg isa ?new (rn_freeList s))) + mset (mapped isa k (rmap_setEntry ?a (rh_prevPhysReg h) ?m)) + mset (waiting isa k hs) =
    mset (free_regs k (rn_freeList s)) + mset (mapped isa k ?m) + mset (waiting isa k (h # hs))" for k
  proof (cases "\<exists>j. ?a \<in> set (logical isa j)")
    case True
    then obtain j where j: "?a \<in> set (logical isa j)" by blast
    have r: "?new \<in> set (physical npi npf j)" "\<not> pinned isa npi j ?new"
      using mapped_in_range [OF assms(1) t j] mapped_not_pinned [OF assms(1) t j h(1)] S(1) h(2) by simp_all
    show ?thesis
    proof (cases "k = j")
      case True
      then show ?thesis using mapped_setEntry(1) [OF d(1) j, of "rh_prevPhysReg h"] h(2) f(1) [OF r] j by (simp add: waiting_Cons ac_simps)
    next
      case False
      then have "?a \<notin> set (logical isa k)" using logical_unique [OF j] by blast
      then show ?thesis using mapped_setEntry(2) [OF d(1), of ?a k] f(1) [OF r] False by (simp add: waiting_Cons)
    qed
  next
    case False
    then have mi: "ri_NumIntRegs isa + ri_NumFloatRegs isa \<le> ?a" by (metis logical_kinds not_le_imp_less)
    then have "npi + npf \<le> ?new" using h(2) d(1) by (simp add: rmap_ok_def rmap_lookup_def split: if_splits)
    then show ?thesis using False mapped_setEntry(2) [OF d(1), of ?a k] f(2) by (simp add: waiting_Cons)
  qed
  have z: "rmap_lookup (ri_ZeroReg isa) (rmap_setEntry ?a (rh_prevPhysReg h) ?m) = rmap_lookup (ri_ZeroReg isa) ?m"
    "ri_alpha isa \<longrightarrow> rmap_lookup (ri_NumIntRegs isa + ri_ZeroReg isa) (rmap_setEntry ?a (rh_prevPhysReg h) ?m) = rmap_lookup (ri_NumIntRegs isa + ri_ZeroReg isa) ?m"
    using h(1) by (auto simp: writable_def lookup_setEntry [OF d(1)])
  have "rn_inv isa npi npf (put_thread t (rmap_setEntry ?a (rh_prevPhysReg h) ?m) hs (addReg isa ?new (rn_freeList s)) b ?S)"
    by (rule put_thread_inv [OF assms(1) t]) (use d(1) h(3) f(3,4) b(2) z ms S in \<open>simp_all\<close>)
  then show ?thesis using u unfolding eq by blast
qed

lemma set_hbuf_same: "set_hbuf t (rn_historyBuffer s ! t) s = s"
  by (simp add: set_hbuf_def)

lemma set_hbuf_put: "set_hbuf t hs' (put_thread t m hs f b s) = put_thread t m hs' f b s"
  by (simp add: set_hbuf_def put_thread_def)

lemma put_thread_lengths [simp]: "length (rn_renameMap (put_thread t m hs f b s)) = length (rn_renameMap s)"
  "length (rn_historyBuffer (put_thread t m hs f b s)) = length (rn_historyBuffer s)"
  by (simp_all add: put_thread_def)

lemma doSquash_loop_ok:
  assumes "rn_inv isa npi npf (set_hbuf t hs s)" "t < length (rn_renameMap s)" "t < length (rn_historyBuffer s)"
  shows "\<exists>hs' s'. doSquash_loop isa sn t hs s = Inr (hs', s') \<and> rn_inv isa npi npf (set_hbuf t hs' s') \<and> length (rn_renameMap s') = length (rn_renameMap s)"
  using assms
proof (induction hs arbitrary: s)
  case (Cons h hs)
  show ?case
  proof (cases "rh_instSeqNum h > sn")
    case True
    obtain b where b: "undo_rename isa t h s = Inr (put_thread t (rmap_setEntry (rh_archReg h) (rh_prevPhysReg h) (rn_renameMap s ! t)) (rn_historyBuffer s ! t)
           (addReg isa (rh_newPhysReg h) (rn_freeList s)) b s)" (is "_ = Inr ?s")
      "rn_inv isa npi npf (put_thread t (rmap_setEntry (rh_archReg h) (rh_prevPhysReg h) (rn_renameMap s ! t)) hs (addReg isa (rh_newPhysReg h) (rn_freeList s)) b s)"
      using undo_rename_one [OF Cons.prems] by blast
    then show ?thesis using Cons.IH [of ?s] Cons.prems(2,3) True by (simp add: set_hbuf_put)
  qed (use Cons.prems in auto)
qed auto

lemma doSquash_ok:
  assumes "rn_inv isa npi npf s" "t < length (rn_renameMap s)"
  shows "\<exists>s'. doSquash isa sn t s = Inr s' \<and> rn_inv isa npi npf s' \<and> length (rn_renameMap s') = length (rn_renameMap s)"
proof -
  obtain hs' s' where "doSquash_loop isa sn t (rn_historyBuffer s ! t) s = Inr (hs', s')" "rn_inv isa npi npf (set_hbuf t hs' s')" "length (rn_renameMap s') = length (rn_renameMap s)"
    using doSquash_loop_ok [of isa npi npf t "rn_historyBuffer s ! t" s sn] assms rn_invD(2) [OF assms] by (auto simp: set_hbuf_same)
  then show ?thesis by (simp add: doSquash_def set_hbuf_def)
qed

lemma chain_last:
  assumes "chain isa m (hs @ [h])" "rmap_ok isa npi npf m"
  shows "\<exists>m'. rmap_ok isa npi npf m' \<and> chain isa m' [h]" "chain isa m hs"
  using assms by (induction hs arbitrary: m) auto

lemma waiting_append: "waiting isa k (hs @ hs') = waiting isa k hs @ waiting isa k hs'"
  by (simp add: waiting_def)

lemma commit_one:
  assumes "rn_inv isa npi npf s" "t < length (rn_renameMap s)" "rn_historyBuffer s ! t = hs @ [h]"
  shows "rn_inv isa npi npf (put_thread t (rn_renameMap s ! t) hs (addReg isa (rh_prevPhysReg h) (rn_freeList s)) (rn_scoreboard s) s)"
proof -
  let ?a = "rh_archReg h" and ?p = "rh_prevPhysReg h"
  note d = rn_invD [OF assms(1,2)]
  have ch: "chain isa (rn_renameMap s ! t) (hs @ [h])" using d(3) assms(3) by simp
  obtain m' where m': "rmap_ok isa npi npf m'" "chain isa m' [h]" using chain_last(1) [OF ch d(1)] by blast
  note f = addReg_free [OF d(4,5)]
  have "mset (free_regs k (addReg isa ?p (rn_freeList s))) + mset (waiting isa k hs) = mset (free_regs k (rn_freeList s)) + mset (waiting isa k (hs @ [h]))" for k
  proof (cases "\<exists>j. ?a \<in> set (logical isa j)")
    case True
    then obtain j where j: "?a \<in> set (logical isa j)" by blast
    then have "?p \<in> set (waiting isa j (rn_historyBuffer s ! t))" using assms(3) by (simp add: waiting_append waiting_Cons)
    note r = waiting_not_pinned [OF assms(1,2) this]
    show ?thesis
    proof (cases "k = j")
      case True
      then show ?thesis using f(1) [OF r(2,1)] j by (simp add: waiting_append waiting_Cons waiting_def)
    next
      case False
      then have "?a \<notin> set (logical isa k)" using logical_unique [OF j] by blast
      then show ?thesis using f(1) [OF r(2,1)] False by (simp add: waiting_append waiting_Cons waiting_def)
    qed
  next
    case False
    then have mi: "ri_NumIntRegs isa + ri_NumFloatRegs isa \<le> ?a" by (metis logical_kinds not_le_imp_less)
    then have "npi + npf \<le> ?p" using m' by (auto simp: rmap_ok_def rmap_lookup_def split: if_splits)
    then show ?thesis using False f(2) by (simp add: waiting_append waiting_def)
  qed
  then have "\<forall>k. mset (free_regs k (addReg isa ?p (rn_freeList s))) + mset (mapped isa k (rn_renameMap s ! t)) + mset (waiting isa k hs) =
    mset (free_regs k (rn_freeList s)) + mset (mapped isa k (rn_renameMap s ! t)) + mset (waiting isa k (rn_historyBuffer s ! t))"
    using assms(3) by (simp add: add.assoc add.left_commute)
  then show ?thesis by (intro put_thread_inv [OF assms(1,2) d(1) chain_last(2) [OF ch d(1)]]) (use f(3,4) in simp_all)
qed

lemma commit_loop_ok:
  assumes "rn_inv isa npi npf s" "t < length (rn_renameMap s)" "rn_historyBuffer s ! t = rev gs" "commit_loop isa sn gs (rn_freeList s) = (gs', f)"
  shows "rn_inv isa npi npf (set_hbuf t (rev gs') (s\<lparr>rn_freeList := f\<rparr>))"
  using assms
proof (induction gs arbitrary: s)
  case Nil
  then have "set_hbuf t (rev gs') (s\<lparr>rn_freeList := f\<rparr>) = s" using set_hbuf_same [of t s] by auto
  then show ?case using Nil.prems(1) by simp
next
  case (Cons h gs)
  show ?case
  proof (cases "rh_instSeqNum h \<le> sn")
    case True
    let ?s = "put_thread t (rn_renameMap s ! t) (rev gs) (addReg isa (rh_prevPhysReg h) (rn_freeList s)) (rn_scoreboard s) s"
    have l: "t < length (rn_historyBuffer s)" using rn_invD(2) [OF Cons.prems(1,2)] .
    have "rn_inv isa npi npf ?s" by (rule commit_one) (use Cons.prems in simp_all)
    then have "rn_inv isa npi npf (set_hbuf t (rev gs') (?s\<lparr>rn_freeList := f\<rparr>))"
      using Cons.IH [of ?s] Cons.prems(2,4) True l by (simp add: put_thread_def)
    then show ?thesis by (simp add: put_thread_def set_hbuf_def)
  next
    case False
    then have "set_hbuf t (rev gs') (s\<lparr>rn_freeList := f\<rparr>) = s" using Cons.prems(3,4) set_hbuf_same [of t s] by auto
    then show ?thesis using Cons.prems(1) by simp
  qed
qed

lemma removeFromHistory_ok:
  assumes "rn_inv isa npi npf s" "t < length (rn_renameMap s)"
  shows "rn_inv isa npi npf (removeFromHistory isa sn t s)" "length (rn_renameMap (removeFromHistory isa sn t s)) = length (rn_renameMap s)"
proof -
  obtain gs' f where c: "commit_loop isa sn (rev (rn_historyBuffer s ! t)) (rn_freeList s) = (gs', f)" by (cases "commit_loop isa sn (rev (rn_historyBuffer s ! t)) (rn_freeList s)")
  then show "rn_inv isa npi npf (removeFromHistory isa sn t s)" using commit_loop_ok [OF assms, of "rev (rn_historyBuffer s ! t)" sn gs' f] by (simp add: removeFromHistory_def)
  show "length (rn_renameMap (removeFromHistory isa sn t s)) = length (rn_renameMap s)" using c by (simp add: removeFromHistory_def set_hbuf_def)
qed

section \<open>The start\<close>

lemma bind_loop_upt:
  assumes "i \<le> j" "j \<le> length es"
  shows "snd (bind_loop [i..<j] r es) = r + (j - i) \<and> length (fst (bind_loop [i..<j] r es)) = length es \<and>
    (\<forall>k < length es. re_physical_reg (fst (bind_loop [i..<j] r es) ! k) = (if i \<le> k \<and> k < j then r + (k - i) else re_physical_reg (es ! k)))"
  using assms
proof (induction "j - i" arbitrary: i r es)
  case 0
  then show ?case by auto
next
  case (Suc n)
  then have "i < j" by simp
  then have "bind_loop [i..<j] r es = bind_loop [Suc i..<j] (r + 1) (es[i := bind_entry r (es ! i)])" by (simp add: upt_conv_Cons)
  then show ?case using Suc.hyps(1) [of "Suc i" "es[i := bind_entry r (es ! i)]" "r + 1"] Suc.hyps(2) Suc.prems
    by (auto simp: nth_list_update bind_entry_def)
qed

lemma rmap_init_ok:
  assumes "rmap_init (ri_NumIntRegs isa) npi lreg (ri_NumFloatRegs isa) npf freg (ri_NumMiscRegs isa) (ri_ZeroReg isa) (ri_ZeroReg isa) tid bd = (m, lreg', freg')"
  shows "rmap_ok isa npi npf m" "mapped isa True m = [lreg..<lreg + ri_NumIntRegs isa]" "mapped isa False m = [freg..<freg + ri_NumFloatRegs isa]"
    "bd \<Longrightarrow> lreg' = lreg + ri_NumIntRegs isa \<and> freg' = freg + ri_NumFloatRegs isa"
proof -
  let ?ni = "ri_NumIntRegs isa" and ?nf = "ri_NumFloatRegs isa"
  note i = bind_loop_upt [of 0 ?ni "replicate ?ni RenameEntry_new" lreg]
  note f = bind_loop_upt [of ?ni "?ni + ?nf" "replicate (?ni + ?nf) RenameEntry_new" freg]
  show ok: "rmap_ok isa npi npf m" using assms i f by (auto simp: rmap_init_def Let_def rmap_ok_def split: prod.splits if_splits)
  have li: "\<forall>a < ?ni. rmap_lookup a m = lreg + a" using assms i by (auto simp: rmap_init_def Let_def rmap_lookup_def split: prod.splits if_splits)
  have lf: "\<forall>a. ?ni \<le> a \<and> a < ?ni + ?nf \<longrightarrow> rmap_lookup a m = freg + (a - ?ni)"
    using assms f by (auto simp: rmap_init_def Let_def rmap_lookup_def split: prod.splits if_splits)
  show "mapped isa True m = [lreg..<lreg + ?ni]" using li by (intro nth_equalityI) (simp_all add: mapped_def logical_def)
  show "mapped isa False m = [freg..<freg + ?nf]" using lf by (intro nth_equalityI) (simp_all add: mapped_def logical_def)
  show "bd \<Longrightarrow> lreg' = lreg + ?ni \<and> freg' = freg + ?nf" using assms i f by (auto simp: rmap_init_def Let_def split: prod.splits if_splits)
qed

lemma init_maps_ok:
  assumes "\<forall>t \<in> set ts. t < active"
  shows "length (init_maps isa npi npf active ts lreg freg) = length ts \<and> (\<forall>m \<in> set (init_maps isa npi npf active ts lreg freg). rmap_ok isa npi npf m) \<and>
    concat (map (mapped isa True) (init_maps isa npi npf active ts lreg freg)) = [lreg..<lreg + length ts * ri_NumIntRegs isa] \<and>
    concat (map (mapped isa False) (init_maps isa npi npf active ts lreg freg)) = [freg..<freg + length ts * ri_NumFloatRegs isa]"
  using assms
proof (induction ts arbitrary: lreg freg)
  case (Cons t ts)
  obtain m l' f' where m: "rmap_init (ri_NumIntRegs isa) npi lreg (ri_NumFloatRegs isa) npf freg (ri_NumMiscRegs isa) (ri_ZeroReg isa) (ri_ZeroReg isa) t (t < active) = (m, l', f')"
    by (metis prod_cases3)
  note i = rmap_init_ok [OF m]
  have b: "l' = lreg + ri_NumIntRegs isa" "f' = freg + ri_NumFloatRegs isa" using i(4) Cons.prems by simp_all
  show ?case using Cons.IH [of l' f'] Cons.prems i(1-3) m
    by (simp add: b upt_add_eq_append [symmetric] add.assoc [symmetric] del: upt_Suc)
qed simp

lemma length_set_ready [simp]: "length (set_ready is bs) = length bs"
  by (induction "is" arbitrary: bs) (simp_all add: set_ready_def)

definition isa_ok :: "RenameISA \<Rightarrow> bool" where
  "isa_ok isa \<longleftrightarrow> ri_ZeroReg isa < ri_NumIntRegs isa \<and> (ri_alpha isa \<longrightarrow> ri_ZeroReg isa < ri_NumFloatRegs isa)"

lemma rename_setup_inv:
  assumes "rename_setup isa npi npf n active = Inr s" "isa_ok isa" "0 < n" "n \<le> active"
  shows "rn_inv isa npi npf s \<and> length (rn_renameMap s) = n"
proof -
  let ?maps = "init_maps isa npi npf active [0..<n] 0 npi"
  have en: "n * ri_NumIntRegs isa \<le> npi" "n * ri_NumFloatRegs isa \<le> npf" using assms(1) by (auto simp: rename_setup_def res_simps)
  have s: "rn_renameMap s = ?maps" "rn_freeList s = SimpleFreeList_new n (ri_NumIntRegs isa) npi (ri_NumFloatRegs isa) npf" "rn_historyBuffer s = replicate n []" "rn_maxPhysicalRegs s = npi + npf"
    "length (sb_regScoreBoard (rn_scoreboard s)) = npi + npf + ri_NumMiscRegs isa * n * n"
    using assms(1) by (auto simp: rename_setup_def Scoreboard_new_def Let_def res_simps)
  have m: "length ?maps = n" "\<forall>m \<in> set ?maps. rmap_ok isa npi npf m" "concat (map (mapped isa True) ?maps) = [0..<n * ri_NumIntRegs isa]"
    "concat (map (mapped isa False) ?maps) = [npi..<npi + n * ri_NumFloatRegs isa]"
    using init_maps_ok [of "[0..<n]" active isa npi npf 0 npi] assms(4) by auto
  have "ri_NumMiscRegs isa \<le> ri_NumMiscRegs isa * (n * n)" using assms(3) by simp
  then have wf: "rn_wf isa npi npf s" using s m by (simp add: rn_wf_def SimpleFreeList_new_def Let_def mult.assoc)
  have w: "concat (map (waiting isa k) (rn_historyBuffer s)) = []" for k by (simp add: s(3) waiting_def)
  have i: "mset (owned isa True s) = mset (physical npi npf True)"
    using upt_add_eq_append [of 0 "n * ri_NumIntRegs isa" "npi - n * ri_NumIntRegs isa"] en(1)
    by (simp add: owned_def w s(1,2) m(3) free_regs_def SimpleFreeList_new_def Let_def physical_def mult.commute del: mset_upt)
  have f: "mset (owned isa False s) = mset (physical npi npf False)"
    using upt_add_eq_append [of npi "npi + n * ri_NumFloatRegs isa" "npf - n * ri_NumFloatRegs isa"] en(2)
    by (simp add: owned_def w s(1,2) m(4) free_regs_def SimpleFreeList_new_def Let_def physical_def mult.commute del: mset_upt)
  have own: "mset (owned isa k s) = mset (physical npi npf k)" for k using i f by (cases k) simp_all
  obtain m0 l f where first: "rmap_init (ri_NumIntRegs isa) npi 0 (ri_NumFloatRegs isa) npf npi (ri_NumMiscRegs isa) (ri_ZeroReg isa) (ri_ZeroReg isa) 0 (0 < active) = (m0, l, f)"
    by (metis prod_cases3)
  have "m0 = ?maps ! 0" using first assms(3) by (simp add: upt_conv_Cons)
  note r = rmap_init_ok [OF first, unfolded this]
  have "rmap_lookup (ri_ZeroReg isa) (?maps ! 0) = mapped isa True (?maps ! 0) ! ri_ZeroReg isa"
    "ri_alpha isa \<Longrightarrow> rmap_lookup (ri_NumIntRegs isa + ri_ZeroReg isa) (?maps ! 0) = mapped isa False (?maps ! 0) ! ri_ZeroReg isa"
    using assms(2) by (simp_all add: mapped_def logical_def isa_ok_def)
  then have "zeros_kept isa npi s" using assms(2,3) m(1) r(2,3) s(1) by (auto simp: zeros_kept_def isa_ok_def)
  then show ?thesis using wf own m(1) s(1,3) by (simp add: rn_inv_def)
qed

section \<open>Instructions\<close>

lemma renameDestRegs_ok:
  assumes "rn_inv isa npi npf s" "t < length (rn_renameMap s)" "\<forall>a \<in> set as. writable isa a" "\<forall>k. length as \<le> length (free_regs k (rn_freeList s))"
  shows "\<exists>xs s'. renameDestRegs isa sn as t s = Inr (xs, s') \<and> rn_inv isa npi npf s' \<and> length (rn_renameMap s') = length (rn_renameMap s)"
  using assms
proof (induction as arbitrary: s)
  case (Cons a as)
  have ne: "\<forall>k. a \<in> set (logical isa k) \<longrightarrow> free_regs k (rn_freeList s) \<noteq> []" using Cons.prems(4) by (metis le_zero_eq length_0_conv list.discI)
  have wa: "writable isa a" using Cons.prems(3) by simp
  obtain new f b where n: "takes isa npi npf (rn_renameMap s ! t) (rn_freeList s) a new f" "rn_inv isa npi npf (renamed isa sn t a new f b s)"
    "\<forall>as. renameDestRegs isa sn (a # as) t s =
      bind_res (renameDestRegs isa sn as t (renamed isa sn t a new f b s)) (\<lambda>(xs, s'). Inr ((new, rmap_lookup a (rn_renameMap s ! t)) # xs, s'))"
    using rename_one [OF Cons.prems(1,2) wa ne, of sn] by blast
  let ?s = "renamed isa sn t a new f b s"
  have len: "length (rn_renameMap ?s) = length (rn_renameMap s)" by (simp add: renamed_def)
  have "length as \<le> length (free_regs k (rn_freeList ?s))" for k
  proof -
    have "free_regs k (rn_freeList s) = (if a \<in> set (logical isa k) then [new] else []) @ free_regs k f" using n(1) unfolding takes_def by blast
    then have "length (free_regs k (rn_freeList s)) \<le> Suc (length (free_regs k f))" by auto
    then show ?thesis using Cons.prems(4) by (simp add: renamed_def put_thread_def) (meson Suc_le_mono le_trans)
  qed
  then obtain xs s' where "renameDestRegs isa sn as t ?s = Inr (xs, s')" "rn_inv isa npi npf s'" "length (rn_renameMap s') = length (rn_renameMap ?s)"
    using Cons.IH [OF n(2)] Cons.prems(2,3) len by auto
  then show ?case using n(3) len by auto
qed auto

definition inst_ok :: "RenameISA \<Rightarrow> (nat \<Rightarrow> nat) \<Rightarrow> (nat \<Rightarrow> nat) \<Rightarrow> RenameInst \<Rightarrow> bool" where
  "inst_ok isa fi ff inst \<longleftrightarrow> (\<forall>r \<in> set (rin_srcs inst). flat_src isa fi ff r < ri_NumIntRegs isa + ri_NumFloatRegs isa + ri_NumMiscRegs isa) \<and>
     (\<forall>r \<in> set (rin_dests inst). writable isa (flat_dest isa fi r))"

lemma renameSrcRegs_ok:
  assumes "rn_inv isa npi npf s" "t < length (rn_renameMap s)" "\<forall>a \<in> set as. a < ri_NumIntRegs isa + ri_NumFloatRegs isa + ri_NumMiscRegs isa"
  shows "\<exists>xs. renameSrcRegs isa as t s = Inr xs \<and> map fst xs = map (\<lambda>a. rmap_lookup a (rn_renameMap s ! t)) as"
  using assms(3)
proof (induction as)
  case (Cons a as)
  note d = rn_invD [OF assms(1,2)]
  have "rmap_lookup a (rn_renameMap s ! t) < length (sb_regScoreBoard (rn_scoreboard s))"
  proof (cases "\<exists>j. a \<in> set (logical isa j)")
    case True
    then obtain j where "a \<in> set (logical isa j)" by blast
    then show ?thesis using mapped_in_range [OF assms(1,2)] d(7) by (fastforce simp: physical_def split: if_splits)
  next
    case False
    then have "ri_NumIntRegs isa + ri_NumFloatRegs isa \<le> a" by (metis logical_kinds not_le_imp_less)
    then show ?thesis using Cons.prems d(1,7) by (auto simp: rmap_ok_def rmap_lookup_def)
  qed
  then show ?case using Cons by (auto simp: getReg_def Let_def)
qed simp

lemma rename_inst_ok:
  assumes "rn_inv isa npi npf s" "t < length (rn_renameMap s)" "inst_ok isa fi ff inst"
  shows "\<exists>x s'. rename_inst isa fi ff inst t s = Inr (x, s') \<and> rn_inv isa npi npf s' \<and> length (rn_renameMap s') = length (rn_renameMap s)"
proof (cases "rmap_numFreeEntries (rn_freeList s) < length (rin_dests inst)")
  case True
  then show ?thesis using assms(1) by (simp add: rename_inst_def)
next
  case False
  obtain xs where xs: "renameSrcRegs isa (map (flat_src isa fi ff) (rin_srcs inst)) t s = Inr xs"
    using renameSrcRegs_ok [OF assms(1,2), of "map (flat_src isa fi ff) (rin_srcs inst)"] assms(3) by (auto simp: inst_ok_def)
  have "length (rin_dests inst) \<le> length (free_regs k (rn_freeList s))" for k
    using False by (cases k) (auto simp: rmap_numFreeEntries_def numFreeIntRegs_def numFreeFloatRegs_def free_regs_def split: if_splits)
  then obtain ys s' where "renameDestRegs isa (rin_seqNum inst) (map (flat_dest isa fi) (rin_dests inst)) t s = Inr (ys, s')" "rn_inv isa npi npf s'" "length (rn_renameMap s') = length (rn_renameMap s)"
    using renameDestRegs_ok [OF assms(1,2), of "map (flat_dest isa fi) (rin_dests inst)" "rin_seqNum inst"] assms(3) by (auto simp: inst_ok_def)
  then show ?thesis using False xs by (auto simp: rename_inst_def)
qed

inductive rn_reach :: "RenameISA \<Rightarrow> nat \<Rightarrow> nat \<Rightarrow> nat \<Rightarrow> DefaultRename \<Rightarrow> bool" for isa npi npf n where
  start: "rename_setup isa npi npf n active = Inr s \<Longrightarrow> n \<le> active \<Longrightarrow> rn_reach isa npi npf n s"
| rename: "rn_reach isa npi npf n s \<Longrightarrow> t < n \<Longrightarrow> inst_ok isa fi ff inst \<Longrightarrow> rename_inst isa fi ff inst t s = Inr (x, s') \<Longrightarrow> rn_reach isa npi npf n s'"
| commit: "rn_reach isa npi npf n s \<Longrightarrow> t < n \<Longrightarrow> rn_reach isa npi npf n (removeFromHistory isa sn t s)"
| squash: "rn_reach isa npi npf n s \<Longrightarrow> t < n \<Longrightarrow> doSquash isa sn t s = Inr s' \<Longrightarrow> rn_reach isa npi npf n s'"

lemma rn_reach_inv:
  assumes "rn_reach isa npi npf n s" "isa_ok isa" "0 < n"
  shows "rn_inv isa npi npf s \<and> length (rn_renameMap s) = n"
  using assms(1)
proof (induction rule: rn_reach.induct)
  case (start active s)
  then show ?case using rename_setup_inv assms(2,3) by blast
next
  case (rename s t fi ff inst x s')
  then show ?case using rename_inst_ok [of isa npi npf s t fi ff inst] by auto
next
  case (commit s t sn)
  then show ?case using removeFromHistory_ok [of isa npi npf s t sn] by simp
next
  case (squash s t sn s')
  then show ?case using doSquash_ok [of isa npi npf s t sn] by auto
qed

section \<open>Renames are taken back\<close>

text \<open>Two states that agree on the maps and on which registers are free.\<close>

definition same_regs :: "DefaultRename \<Rightarrow> DefaultRename \<Rightarrow> bool" where
  "same_regs s s' \<longleftrightarrow> rn_renameMap s' = rn_renameMap s \<and> (\<forall>k. mset (free_regs k (rn_freeList s')) = mset (free_regs k (rn_freeList s))) \<and>
     fl_numPhysicalIntRegs (rn_freeList s') = fl_numPhysicalIntRegs (rn_freeList s) \<and> fl_numPhysicalRegs (rn_freeList s') = fl_numPhysicalRegs (rn_freeList s) \<and>
     rn_maxPhysicalRegs s' = rn_maxPhysicalRegs s \<and> length (sb_regScoreBoard (rn_scoreboard s')) = length (sb_regScoreBoard (rn_scoreboard s))"

lemma undo_renamed:
  assumes "rn_inv isa npi npf s" "t < length (rn_renameMap s)" "writable isa a" "takes isa npi npf (rn_renameMap s ! t) (rn_freeList s) a new f"
    and "length (sb_regScoreBoard b) = length (sb_regScoreBoard (rn_scoreboard s))" "same_regs (renamed isa sn t a new f b s) s2"
  shows "\<exists>s3. undo_rename isa t \<lparr>rh_instSeqNum = sn, rh_archReg = a, rh_newPhysReg = new, rh_prevPhysReg = rmap_lookup a (rn_renameMap s ! t)\<rparr> s2 = Inr s3 \<and>
     same_regs s s3 \<and> rn_historyBuffer s3 = rn_historyBuffer s2"
proof -
  let ?m = "rn_renameMap s ! t"
  note d = rn_invD [OF assms(1,2)]
  have inv': "rn_inv isa npi npf (renamed isa sn t a new f b s)" by (rule renamed_inv [OF assms(1-5)])
  have t': "t < length (rn_renameMap (renamed isa sn t a new f b s))" using assms(2) by (simp add: renamed_def)
  have new: "rmap_lookup a (rn_renameMap (renamed isa sn t a new f b s) ! t) = new" "new < npi + npf + ri_NumMiscRegs isa" "fl_numPhysicalIntRegs f = npi" "fl_numPhysicalRegs f = npi + npf"
    using assms(2,4) by (simp_all add: renamed_def put_thread_def takes_def)
  have s2: "rn_renameMap s2 = (rn_renameMap s)[t := rmap_setEntry a new ?m]" "\<forall>k. mset (free_regs k (rn_freeList s2)) = mset (free_regs k f)"
    "fl_numPhysicalIntRegs (rn_freeList s2) = npi" "fl_numPhysicalRegs (rn_freeList s2) = npi + npf" "rn_maxPhysicalRegs s2 = npi + npf"
    "length (sb_regScoreBoard (rn_scoreboard s2)) = length (sb_regScoreBoard (rn_scoreboard s))"
    using assms(5,6) new(3,4) d(6) by (simp_all add: same_regs_def renamed_def put_thread_def)
  have map: "rmap_setEntry a (rmap_lookup a ?m) (rn_renameMap s2 ! t) = ?m" using s2(1) assms(2) setEntry_undo [OF d(1) refl] by simp
  note f = addReg_free [OF s2(3,4)]
  have free: "mset (free_regs k (addReg isa new (rn_freeList s2))) = mset (free_regs k (rn_freeList s))" for k
  proof -
    have k: "free_regs k (rn_freeList s) = (if a \<in> set (logical isa k) then [new] else []) @ free_regs k f" using assms(4) unfolding takes_def by blast
    show ?thesis
    proof (cases "\<exists>j. a \<in> set (logical isa j)")
      case True
      then obtain j where j: "a \<in> set (logical isa j)" by blast
      have "new \<in> set (physical npi npf j)" "\<not> pinned isa npi j new"
        using mapped_in_range [OF inv' t' j] mapped_not_pinned [OF inv' t' j assms(3)] new(1) by simp_all
      then have "free_regs k (addReg isa new (rn_freeList s2)) = free_regs k (rn_freeList s2) @ (if k = j then [new] else [])" by (rule f(1))
      moreover have "a \<in> set (logical isa k) \<longleftrightarrow> k = j" using j logical_unique by blast
      ultimately show ?thesis using k s2(2) by simp
    next
      case False
      then have "ri_NumIntRegs isa + ri_NumFloatRegs isa \<le> a" by (metis logical_kinds not_le_imp_less)
      then have "npi + npf \<le> new" using assms(4) lookup_misc [OF d(1), of a] by (simp add: takes_def)
      then show ?thesis using f(2) k s2(2) False by simp
    qed
  qed
  have "new < length (sb_regScoreBoard (rn_scoreboard s2))" using new(2) d(7) s2(6) by linarith
  then obtain b' where b': "(if npi + npf \<le> new then setReg new (rn_scoreboard s2) else Inr (rn_scoreboard s2)) = Inr b'" "length (sb_regScoreBoard b') = length (sb_regScoreBoard (rn_scoreboard s2))"
    by (cases "npi + npf \<le> new") (simp_all add: setReg_def)
  let ?s3 = "s2\<lparr>rn_renameMap := (rn_renameMap s2)[t := ?m], rn_freeList := addReg isa new (rn_freeList s2), rn_scoreboard := b'\<rparr>"
  have "undo_rename isa t \<lparr>rh_instSeqNum = sn, rh_archReg = a, rh_newPhysReg = new, rh_prevPhysReg = rmap_lookup a ?m\<rparr> s2 = Inr ?s3"
    using b'(1) s2(5) by (cases "npi + npf \<le> new") (simp_all add: undo_rename_def set_rmap_def Let_def map)
  moreover have "same_regs s ?s3" using free f(3,4) s2(1,5,6) b'(2) d(4-6) by (simp add: same_regs_def)
  ultimately show ?thesis by simp
qed

text \<open>A run of renames in a thread: its records, and that undoing them in turn leads back.\<close>

definition undoes :: "RenameISA \<Rightarrow> nat \<Rightarrow> DefaultRename \<Rightarrow> RenameHistory list \<Rightarrow> DefaultRename \<Rightarrow> bool" where
  "undoes isa t s hs s1 \<longleftrightarrow> rn_historyBuffer s1 = (rn_historyBuffer s)[t := hs @ rn_historyBuffer s ! t] \<and>
     (\<exists>s2. undo_all isa t hs s1 = Inr s2 \<and> same_regs s s2 \<and> rn_historyBuffer s2 = rn_historyBuffer s1)"

lemma undo_all_append: "undo_all isa t (hs @ gs) s = bind_res (undo_all isa t hs s) (undo_all isa t gs)"
proof (induction hs arbitrary: s)
  case (Cons h hs)
  then show ?case by (cases "undo_rename isa t h s") simp_all
qed simp

lemma renameDestRegs_undoes:
  assumes "rn_inv isa npi npf s" "t < length (rn_renameMap s)" "\<forall>a \<in> set as. writable isa a" "renameDestRegs isa sn as t s = Inr (xs, s1)"
    "\<forall>k. length as \<le> length (free_regs k (rn_freeList s))"
  shows "\<exists>hs. undoes isa t s hs s1 \<and> (\<forall>h \<in> set hs. rh_instSeqNum h = sn)"
  using assms
proof (induction as arbitrary: s xs)
  case Nil
  then show ?case by (intro exI [of _ "[]"]) (simp add: undoes_def same_regs_def)
next
  case (Cons a as)
  have l: "t < length (rn_historyBuffer s)" using rn_invD(2) [OF Cons.prems(1,2)] .
  have ne: "\<forall>k. a \<in> set (logical isa k) \<longrightarrow> free_regs k (rn_freeList s) \<noteq> []" using Cons.prems(5) by (metis le_zero_eq length_0_conv list.discI)
  have wa: "writable isa a" using Cons.prems(3) by simp
  obtain new f b where n: "takes isa npi npf (rn_renameMap s ! t) (rn_freeList s) a new f" "rn_inv isa npi npf (renamed isa sn t a new f b s)"
    "\<forall>as. renameDestRegs isa sn (a # as) t s =
      bind_res (renameDestRegs isa sn as t (renamed isa sn t a new f b s)) (\<lambda>(xs, s'). Inr ((new, rmap_lookup a (rn_renameMap s ! t)) # xs, s'))"
    "length (sb_regScoreBoard b) = length (sb_regScoreBoard (rn_scoreboard s))"
    using rename_one [OF Cons.prems(1,2) wa ne, of sn] by blast
  let ?s = "renamed isa sn t a new f b s" and ?h = "\<lparr>rh_instSeqNum = sn, rh_archReg = a, rh_newPhysReg = new, rh_prevPhysReg = rmap_lookup a (rn_renameMap s ! t)\<rparr>"
  obtain ys where ys: "renameDestRegs isa sn as t ?s = Inr (ys, s1)" using n(3) Cons.prems(4) by (auto simp: res_simps)
  have s': "rn_historyBuffer ?s = (rn_historyBuffer s)[t := ?h # rn_historyBuffer s ! t]" "length (rn_renameMap ?s) = length (rn_renameMap s)" "rn_freeList ?s = f"
    by (simp_all add: renamed_def put_thread_def)
  have len: "length as \<le> length (free_regs k f)" for k
  proof -
    have "free_regs k (rn_freeList s) = (if a \<in> set (logical isa k) then [new] else []) @ free_regs k f" using n(1) unfolding takes_def by blast
    then have "length (free_regs k (rn_freeList s)) \<le> Suc (length (free_regs k f))" by auto
    then show ?thesis using Cons.prems(5) by (metis Suc_le_mono le_trans length_Cons)
  qed
  obtain hs where hs: "undoes isa t ?s hs s1" "\<forall>h \<in> set hs. rh_instSeqNum h = sn"
    using Cons.IH [OF n(2) _ _ ys] Cons.prems(2,3) s'(2,3) len by auto
  then obtain s2 where s2: "undo_all isa t hs s1 = Inr s2" "same_regs ?s s2" "rn_historyBuffer s2 = rn_historyBuffer s1" by (auto simp: undoes_def)
  obtain s3 where "undo_rename isa t ?h s2 = Inr s3" "same_regs s s3" "rn_historyBuffer s3 = rn_historyBuffer s2"
    using undo_renamed [OF Cons.prems(1,2) wa n(1,4) s2(2)] by blast
  then have "undoes isa t s (hs @ [?h]) s1" using hs(1) s2 s'(1) l by (simp add: undoes_def undo_all_append)
  then show ?case using hs(2) by (intro exI [of _ "hs @ [?h]"]) simp
qed

text \<open>A run of instructions of one thread; one that blocks leaves the state as it is.\<close>

fun rename_all :: "RenameISA \<Rightarrow> (nat \<Rightarrow> nat) \<Rightarrow> (nat \<Rightarrow> nat) \<Rightarrow> nat \<Rightarrow> RenameInst list \<Rightarrow> DefaultRename \<Rightarrow> DefaultRename res" where
  "rename_all isa fi ff t [] s = Inr s"
| "rename_all isa fi ff t (i # is) s = bind_res (rename_inst isa fi ff i t s) (\<lambda>(_, s). rename_all isa fi ff t is s)"

lemma undo_rename_cong:
  assumes "same_regs s s'" "undo_rename isa t h s = Inr s1"
  shows "\<exists>s1'. undo_rename isa t h s' = Inr s1' \<and> same_regs s1 s1' \<and> rn_historyBuffer s1' = rn_historyBuffer s'"
proof -
  have a: "mset (free_regs k (addReg isa r (rn_freeList s'))) = mset (free_regs k (addReg isa r (rn_freeList s)))" for k r
  proof -
    have "mset (free_regs True (rn_freeList s')) = mset (free_regs True (rn_freeList s))" "mset (free_regs False (rn_freeList s')) = mset (free_regs False (rn_freeList s))"
      and n: "fl_numPhysicalIntRegs (rn_freeList s') = fl_numPhysicalIntRegs (rn_freeList s)" "fl_numPhysicalRegs (rn_freeList s') = fl_numPhysicalRegs (rn_freeList s)"
      using assms(1) unfolding same_regs_def by blast+
    then show ?thesis by (simp add: addReg_def free_regs_def)
  qed
  have g: "fl_numPhysicalIntRegs (addReg isa r f) = fl_numPhysicalIntRegs f" "fl_numPhysicalRegs (addReg isa r f) = fl_numPhysicalRegs f" for r f
    by (simp_all add: addReg_def)
  show ?thesis using assms by (auto simp: undo_rename_def set_rmap_def same_regs_def setReg_def Let_def a g res_simps split: if_splits)
qed

lemma undo_all_cong:
  assumes "same_regs s s'" "undo_all isa t hs s = Inr s1"
  shows "\<exists>s1'. undo_all isa t hs s' = Inr s1' \<and> same_regs s1 s1' \<and> rn_historyBuffer s1' = rn_historyBuffer s'"
  using assms
proof (induction hs arbitrary: s s')
  case (Cons h hs)
  obtain s2 where s2: "undo_rename isa t h s = Inr s2" "undo_all isa t hs s2 = Inr s1" using Cons.prems(2) by (auto simp: res_simps)
  obtain s2' where s2': "undo_rename isa t h s' = Inr s2'" "same_regs s2 s2'" "rn_historyBuffer s2' = rn_historyBuffer s'"
    using undo_rename_cong [OF Cons.prems(1) s2(1)] by blast
  then show ?case using Cons.IH [OF s2'(2) s2(2)] by auto
qed simp

lemma same_regs_trans: "same_regs s s' \<Longrightarrow> same_regs s' s'' \<Longrightarrow> same_regs s s''"
  by (simp add: same_regs_def)

lemma undoes_trans:
  assumes "undoes isa t s hs s1" "undoes isa t s1 gs s2" "t < length (rn_historyBuffer s)"
  shows "undoes isa t s (gs @ hs) s2"
proof -
  obtain v where v: "undo_all isa t hs s1 = Inr v" "same_regs s v" using assms(1) by (auto simp: undoes_def)
  obtain w where w: "undo_all isa t gs s2 = Inr w" "same_regs s1 w" "rn_historyBuffer w = rn_historyBuffer s2" using assms(2) by (auto simp: undoes_def)
  obtain v' where "undo_all isa t hs w = Inr v'" "same_regs v v'" "rn_historyBuffer v' = rn_historyBuffer w" using undo_all_cong [OF w(2) v(1)] by blast
  then show ?thesis using assms v w same_regs_trans [OF v(2)] by (auto simp: undoes_def undo_all_append)
qed

lemma rename_inst_undoes:
  assumes "rn_inv isa npi npf s" "t < length (rn_renameMap s)" "inst_ok isa fi ff inst" "rename_inst isa fi ff inst t s = Inr (x, s1)"
  shows "\<exists>hs. undoes isa t s hs s1 \<and> (\<forall>h \<in> set hs. rh_instSeqNum h = rin_seqNum inst)"
proof (cases "rmap_numFreeEntries (rn_freeList s) < length (rin_dests inst)")
  case True
  then show ?thesis using assms(4) by (intro exI [of _ "[]"]) (simp add: rename_inst_def undoes_def same_regs_def)
next
  case False
  then obtain ys where ys: "renameDestRegs isa (rin_seqNum inst) (map (flat_dest isa fi) (rin_dests inst)) t s = Inr (ys, s1)"
    using assms(4) by (auto simp: rename_inst_def res_simps)
  have "\<forall>k. length (map (flat_dest isa fi) (rin_dests inst)) \<le> length (free_regs k (rn_freeList s))"
    using False by (auto simp: rmap_numFreeEntries_def numFreeIntRegs_def numFreeFloatRegs_def free_regs_def split: if_splits)
  then show ?thesis using renameDestRegs_undoes [OF assms(1,2) _ ys] assms(3) by (simp add: inst_ok_def)
qed

lemma rename_all_undoes:
  assumes "rn_inv isa npi npf s" "t < length (rn_renameMap s)" "\<forall>i \<in> set is. inst_ok isa fi ff i \<and> sn < rin_seqNum i"
  shows "\<exists>s1 hs. rename_all isa fi ff t is s = Inr s1 \<and> undoes isa t s hs s1 \<and> (\<forall>h \<in> set hs. sn < rh_instSeqNum h)"
  using assms
proof (induction "is" arbitrary: s)
  case Nil
  show ?case by (intro exI [of _ s] exI [of _ "[]"]) (simp add: undoes_def same_regs_def)
next
  case (Cons i "is")
  obtain x s1 where s1: "rename_inst isa fi ff i t s = Inr (x, s1)" "rn_inv isa npi npf s1" "length (rn_renameMap s1) = length (rn_renameMap s)"
    using rename_inst_ok [OF Cons.prems(1,2)] Cons.prems(3) by fastforce
  obtain hs where hs: "undoes isa t s hs s1" "\<forall>h \<in> set hs. rh_instSeqNum h = rin_seqNum i"
    using rename_inst_undoes [OF Cons.prems(1,2) _ s1(1)] Cons.prems(3) by auto
  obtain s2 gs where gs: "rename_all isa fi ff t is s1 = Inr s2" "undoes isa t s1 gs s2" "\<forall>h \<in> set gs. sn < rh_instSeqNum h"
    using Cons.IH [OF s1(2)] Cons.prems(2,3) s1(3) by auto
  have "undoes isa t s (gs @ hs) s2" by (rule undoes_trans [OF hs(1) gs(2) rn_invD(2) [OF Cons.prems(1,2)]])
  then show ?case using s1(1) gs(1,3) hs(2) Cons.prems(3) by (intro exI [of _ s2] exI [of _ "gs @ hs"]) auto
qed

lemma doSquash_loop_split:
  assumes "\<forall>h \<in> set hs. sn < rh_instSeqNum h" "\<forall>h \<in> set old. rh_instSeqNum h \<le> sn"
  shows "doSquash_loop isa sn t (hs @ old) s = bind_res (undo_all isa t hs s) (\<lambda>s. Inr (old, s))"
  using assms(1)
proof (induction hs arbitrary: s)
  case Nil
  then show ?case using assms(2) by (cases old) (auto simp: not_less)
next
  case (Cons h hs)
  then show ?case by (cases "undo_rename isa t h s") simp_all
qed

section \<open>Properties\<close>

text \<open>
  C34: No physical register is lost or used twice.  In every reachable state of the rename stage, with any number of threads that are
  all active from the start, after instructions that write no zero register,
  each physical integer register is exactly once on the free list, or in a rename map, or
  in a history buffer as the previous register of a rename that is not committed; so is each
  floating point register.  Hence an instruction that writes no zero register is renamed or blocks
  for lack of registers, and every squash completes; neither the panic of the free list nor an
  assertion of the map is reached.  The counts of the instruction set are those of \<open>isa_ok\<close>.
\<close>

theorem registers_partitioned:
  assumes "isa_ok isa" "0 < n" "rn_reach isa npi npf n s"
  shows "distinct (owned isa True s) \<and> set (owned isa True s) = {0..<npi} \<and>
    distinct (owned isa False s) \<and> set (owned isa False s) = {npi..<npi + npf} \<and>
    (\<forall>t < n. is_ok (doSquash isa sn t s) \<and> (\<forall>fi ff inst. inst_ok isa fi ff inst \<longrightarrow> is_ok (rename_inst isa fi ff inst t s)))"
proof -
  have inv: "rn_inv isa npi npf s" "length (rn_renameMap s) = n" using rn_reach_inv [OF assms(3,1,2)] by simp_all
  have "is_ok (doSquash isa sn t s)" "inst_ok isa fi ff inst \<Longrightarrow> is_ok (rename_inst isa fi ff inst t s)" if "t < n" for t fi ff inst
    using doSquash_ok [OF inv(1), of t sn] rename_inst_ok [OF inv(1), of t fi ff inst] that inv(2) by (auto simp: is_ok_iff)
  moreover have "set (owned isa True s) = {0..<npi}" "set (owned isa False s) = {npi..<npi + npf}" using owned_set [OF inv(1)] by (simp_all add: physical_def)
  ultimately show ?thesis using owned_distinct [OF inv(1)] by simp
qed

definition sample_risa :: RenameISA where
  "sample_risa = \<lparr>ri_alpha = True, ri_ZeroReg = 1, ri_NumIntRegs = 2, ri_NumFloatRegs = 2, ri_NumMiscRegs = 1, ri_FP_Base_DepTag = 2, ri_Ctrl_Base_DepTag = 4\<rparr>"

lemma sample_risa_ok: "isa_ok sample_risa"
  by (simp add: isa_ok_def sample_risa_def)

lemma sample_stage:
  obtains s where "rename_setup sample_risa 5 5 2 2 = Inr s" "rn_reach sample_risa 5 5 2 s" "rn_historyBuffer s = [[], []]"
proof -
  have "case rename_setup sample_risa 5 5 2 2 of Inr s \<Rightarrow> rn_historyBuffer s = [[], []] | Inl _ \<Rightarrow> False" by code_simp
  then obtain s where "rename_setup sample_risa 5 5 2 2 = Inr s" "rn_historyBuffer s = [[], []]" by (auto split: sum.splits)
  then show thesis using that rn_reach.start by blast
qed

theorem registers_partitioned_witness:
  "\<exists>s. rename_setup sample_risa 5 5 2 2 = Inr s \<and> set (owned sample_risa True s) = {0..<5} \<and> distinct (owned sample_risa True s) \<and>
     is_ok (rename_inst sample_risa id id \<lparr>rin_seqNum = 7, rin_srcs = [0, 3], rin_dests = [0]\<rparr> 1 s)"
proof (rule sample_stage)
  fix s assume s: "rename_setup sample_risa 5 5 2 2 = Inr s" "rn_reach sample_risa 5 5 2 s"
  have "inst_ok sample_risa id id \<lparr>rin_seqNum = 7, rin_srcs = [0, 3], rin_dests = [0]\<rparr>" by code_simp
  then show ?thesis using registers_partitioned [OF sample_risa_ok _ s(2)] s(1) by auto
qed

text \<open>
  C35: A squash takes renames back.  From a reachable state whose records of a thread are at most as young as a
  sequence number, let the thread rename any younger instructions that write no zero register,
  and squash down to that sequence number.  Both complete, and then all rename maps and
  history buffers are as before and the same registers are free.
\<close>

theorem squash_restores_map:
  assumes "isa_ok isa" "rn_reach isa npi npf n s" "t < n"
    and "\<forall>i \<in> set is. inst_ok isa fi ff i \<and> sn < rin_seqNum i" "\<forall>h \<in> set (rn_historyBuffer s ! t). rh_instSeqNum h \<le> sn"
  shows "\<exists>s1 s2. rename_all isa fi ff t is s = Inr s1 \<and> doSquash isa sn t s1 = Inr s2 \<and> rn_renameMap s2 = rn_renameMap s \<and> rn_historyBuffer s2 = rn_historyBuffer s \<and>
    mset (fl_freeIntRegs (rn_freeList s2)) = mset (fl_freeIntRegs (rn_freeList s)) \<and> mset (fl_freeFloatRegs (rn_freeList s2)) = mset (fl_freeFloatRegs (rn_freeList s))"
proof -
  have inv: "rn_inv isa npi npf s" "t < length (rn_renameMap s)" using rn_reach_inv [OF assms(2,1)] assms(3) by auto
  have l: "t < length (rn_historyBuffer s)" using rn_invD(2) [OF inv] .
  obtain s1 hs where run: "rename_all isa fi ff t is s = Inr s1" "undoes isa t s hs s1" "\<forall>h \<in> set hs. sn < rh_instSeqNum h"
    using rename_all_undoes [OF inv assms(4)] by blast
  then obtain s2 where s2: "undo_all isa t hs s1 = Inr s2" "same_regs s s2" "rn_historyBuffer s2 = rn_historyBuffer s1" "rn_historyBuffer s1 = (rn_historyBuffer s)[t := hs @ rn_historyBuffer s ! t]"
    by (auto simp: undoes_def)
  have "doSquash isa sn t s1 = Inr (set_hbuf t (rn_historyBuffer s ! t) s2)"
    using doSquash_loop_split [OF run(3) assms(5), of isa t s1] s2(1,4) l by (simp add: doSquash_def)
  moreover have "rn_historyBuffer (set_hbuf t (rn_historyBuffer s ! t) s2) = rn_historyBuffer s" using s2(3,4) by (simp add: set_hbuf_def)
  moreover have "mset (free_regs True (rn_freeList s2)) = mset (free_regs True (rn_freeList s))" "mset (free_regs False (rn_freeList s2)) = mset (free_regs False (rn_freeList s))"
    using s2(2) unfolding same_regs_def by blast+
  ultimately show ?thesis using run(1) s2(2) by (auto simp: same_regs_def set_hbuf_def free_regs_def)
qed

theorem squash_restores_map_witness:
  "\<exists>s s1 s2. rename_setup sample_risa 5 5 2 2 = Inr s \<and>
     rename_all sample_risa id id 1 [\<lparr>rin_seqNum = 7, rin_srcs = [0], rin_dests = [0]\<rparr>, \<lparr>rin_seqNum = 8, rin_srcs = [0], rin_dests = [2]\<rparr>] s = Inr s1 \<and>
     doSquash sample_risa 6 1 s1 = Inr s2 \<and> rn_renameMap s2 = rn_renameMap s"
proof (rule sample_stage)
  let ?is = "[\<lparr>rin_seqNum = 7, rin_srcs = [0], rin_dests = [0]\<rparr>, \<lparr>rin_seqNum = 8, rin_srcs = [0], rin_dests = [2]\<rparr>]"
  fix s assume s: "rename_setup sample_risa 5 5 2 2 = Inr s" "rn_reach sample_risa 5 5 2 s" "rn_historyBuffer s = [[], []]"
  have i: "\<forall>i \<in> set ?is. inst_ok sample_risa id id i \<and> 6 < rin_seqNum i" by code_simp
  have h: "\<forall>h \<in> set (rn_historyBuffer s ! 1). rh_instSeqNum h \<le> 6" using s(3) by simp
  have "(1 :: nat) < 2" by simp
  then show ?thesis using squash_restores_map [OF sample_risa_ok s(2) _ i h] s(1) by blast
qed

text \<open>
  A zero register of a later thread is freed while it is mapped.  In every reachable state the integer zero
  register of a thread other than the first is mapped to another physical register than that of the first.
  If an instruction that writes it is renamed and committed, \<open>rename\<close> keeps the mapping but reports it as
  previous register, and the commit puts it on the free list: the next integer rename that takes it
  shares it with the zero register.
\<close>

theorem zero_register_freed_while_mapped:
  assumes "isa_ok isa" "rn_reach isa npi npf n s" "t < n" "t \<noteq> 0" "rn_historyBuffer s ! t = []"
  shows "\<exists>s1 p. renameDestRegs isa sn [ri_ZeroReg isa] t s = Inr ([(ri_ZeroReg isa, p)], s1) \<and>
     p \<in> set (fl_freeIntRegs (rn_freeList (removeFromHistory isa sn t s1))) \<and>
     rmap_lookup (ri_ZeroReg isa) (rn_renameMap (removeFromHistory isa sn t s1) ! t) = p"
proof -
  let ?z = "ri_ZeroReg isa" and ?p = "rmap_lookup (ri_ZeroReg isa) (rn_renameMap s ! t)"
  have inv: "rn_inv isa npi npf s" "t < length (rn_renameMap s)" "0 < length (rn_renameMap s)" using rn_reach_inv [OF assms(2,1)] assms(3) by auto
  note d = rn_invD [OF inv(1,2)]
  have z: "?z < ri_NumIntRegs isa" "rmap_lookup ?z (rn_renameMap s ! 0) = ?z" using inv(1) by (simp_all add: rn_inv_def zeros_kept_def)
  have zl: "?z \<in> set (logical isa True)" using z(1) by (simp add: logical_kinds)
  have p: "?p \<noteq> ?z" using lookup_inj(1) [OF inv(1) inv(2,3) zl zl] z(2) assms(4) by auto
  have lt: "?p < npi" using mapped_in_range [OF inv(1,2) zl] by (simp add: physical_def)
  have npi: "?z < npi" using mapped_in_range [OF inv(1) inv(3) zl] z(2) by (simp add: physical_def)
  have r: "rmap_rename isa ?z (rn_renameMap s ! t) (rn_freeList s) = Inr ((?z, ?p), rn_renameMap s ! t, rn_freeList s)"
    using d(1) z(1) by (simp add: rmap_rename_def rmap_ok_def rmap_lookup_def Let_def)
  obtain b where b: "unsetReg isa ?z (rn_scoreboard s) = Inr b" using unsetReg_ok [of ?z "rn_scoreboard s" isa] npi d(7) by auto
  let ?h = "\<lparr>rh_instSeqNum = sn, rh_archReg = ?z, rh_newPhysReg = ?z, rh_prevPhysReg = ?p\<rparr>"
  have s1: "renameDestRegs isa sn [?z] t s = Inr ([(?z, ?p)], put_thread t (rn_renameMap s ! t) (?h # rn_historyBuffer s ! t) (rn_freeList s) b s)"
    using r b by (simp add: Let_def put_thread_eq) (simp add: set_rmap_def)
  have c: "removeFromHistory isa sn t (put_thread t (rn_renameMap s ! t) (?h # rn_historyBuffer s ! t) (rn_freeList s) b s) =
     put_thread t (rn_renameMap s ! t) [] (addReg isa ?p (rn_freeList s)) b s"
    using assms(5) d(2) by (simp add: removeFromHistory_def put_thread_def set_hbuf_def)
  have "?p \<in> set (fl_freeIntRegs (addReg isa ?p (rn_freeList s)))" using p lt d(4) by (simp add: addReg_def)
  then have "?p \<in> set (fl_freeIntRegs (rn_freeList (put_thread t (rn_renameMap s ! t) [] (addReg isa ?p (rn_freeList s)) b s)))"
    "rmap_lookup ?z (rn_renameMap (put_thread t (rn_renameMap s ! t) [] (addReg isa ?p (rn_freeList s)) b s) ! t) = ?p" using inv(2) by (simp_all add: put_thread_def)
  then show ?thesis using s1 unfolding c [symmetric] by blast
qed

theorem zero_register_freed_while_mapped_witness:
  "\<exists>s s1 p. rename_setup sample_risa 5 5 2 2 = Inr s \<and> renameDestRegs sample_risa 7 [ri_ZeroReg sample_risa] 1 s = Inr ([(ri_ZeroReg sample_risa, p)], s1) \<and>
     p \<in> set (fl_freeIntRegs (rn_freeList (removeFromHistory sample_risa 7 1 s1)))"
proof (rule sample_stage)
  fix s assume s: "rename_setup sample_risa 5 5 2 2 = Inr s" "rn_reach sample_risa 5 5 2 s" "rn_historyBuffer s = [[], []]"
  have "rn_historyBuffer s ! 1 = []" using s(3) by simp
  then show ?thesis using zero_register_freed_while_mapped [OF sample_risa_ok s(2), of 1 7] s(1) by auto
qed

lemma bind_floats_lookup:
  assumes "\<forall>m \<in> set (rn_renameMap s). rmap_ok isa npi npf m" "t < length (rn_renameMap s)" "bind_floats rs t s = Inr s'"
    and "set rs \<subseteq> {0..<ri_NumIntRegs isa}" "distinct rs" "set (fl_freeFloatRegs (rn_freeList s)) \<subseteq> {npi..<npi + npf}"
  shows "(\<forall>r \<in> set rs. npi \<le> rmap_lookup r (rn_renameMap s' ! t)) \<and> (\<forall>r. r \<notin> set rs \<longrightarrow> rmap_lookup r (rn_renameMap s' ! t) = rmap_lookup r (rn_renameMap s ! t))"
  using assms
proof (induction rs arbitrary: s)
  case (Cons r rs)
  obtain p f b where p: "getFloatReg (rn_freeList s) = Inr (p, f)" "setReg p (rn_scoreboard s) = Inr b"
    "bind_floats rs t ((set_rmap t (rmap_setEntry r p (rn_renameMap s ! t)) s)\<lparr>rn_freeList := f, rn_scoreboard := b\<rparr>) = Inr s'" (is "bind_floats rs t ?s = Inr s'")
    using Cons.prems(3) by (auto simp: res_simps)
  have f: "p \<in> {npi..<npi + npf}" "set (fl_freeFloatRegs f) \<subseteq> {npi..<npi + npf}"
    using p(1) Cons.prems(6) by (auto simp: getFloatReg_def split: list.splits)
  have m: "rmap_ok isa npi npf (rn_renameMap s ! t)" using Cons.prems(1,2) by simp
  have "\<forall>m \<in> set (rn_renameMap ?s). rmap_ok isa npi npf m"
    using Cons.prems(1) m set_update_subset_insert [of "rn_renameMap s" t] by (fastforce simp: set_rmap_def)
  then have ih: "(\<forall>r \<in> set rs. npi \<le> rmap_lookup r (rn_renameMap s' ! t)) \<and> (\<forall>r. r \<notin> set rs \<longrightarrow> rmap_lookup r (rn_renameMap s' ! t) = rmap_lookup r (rn_renameMap ?s ! t))"
    using Cons.IH [of ?s] Cons.prems(2,4,5) p(3) f(2) by (simp add: set_rmap_def)
  have "rn_renameMap ?s ! t = rmap_setEntry r p (rn_renameMap s ! t)" using Cons.prems(2) by (simp add: set_rmap_def)
  then show ?case using ih f(1) Cons.prems(4,5) lookup_setEntry [OF m] by auto
qed simp

lemma bind_ints_ok:
  assumes "\<forall>m \<in> set (rn_renameMap s). rmap_ok isa npi npf m" "bind_ints rs t s = Inr s'" "t < length (rn_renameMap s)"
  shows "(\<forall>m \<in> set (rn_renameMap s'). rmap_ok isa npi npf m) \<and> length (rn_renameMap s') = length (rn_renameMap s) \<and> fl_freeFloatRegs (rn_freeList s') = fl_freeFloatRegs (rn_freeList s)"
  using assms
proof (induction rs arbitrary: s)
  case (Cons r rs)
  obtain p f b where p: "getIntReg (rn_freeList s) = Inr (p, f)"
    "bind_ints rs t ((set_rmap t (rmap_setEntry r p (rn_renameMap s ! t)) s)\<lparr>rn_freeList := f, rn_scoreboard := b\<rparr>) = Inr s'" (is "bind_ints rs t ?s = Inr s'")
    using Cons.prems(2) by (auto simp: res_simps)
  have "fl_freeFloatRegs f = fl_freeFloatRegs (rn_freeList s)" using p(1) by (auto simp: getIntReg_def split: list.splits)
  moreover have "\<forall>m \<in> set (rn_renameMap ?s). rmap_ok isa npi npf m"
    using Cons.prems(1,3) set_update_subset_insert [of "rn_renameMap s" t] by (fastforce simp: set_rmap_def)
  ultimately show ?case using Cons.IH [of ?s] Cons.prems(3) p(2) by (simp add: set_rmap_def)
qed simp

text \<open>
  A thread that is inserted reads floating point registers as integers.  \<open>insertThread\<close> binds the
  floating point registers it takes at the indexes from 0 on instead of behind the integer registers.
  So if it completes in a reachable state, the first integer registers of the thread,
  as many as there are floating point registers, are mapped to physical floating point registers.
\<close>

theorem insertThread_misbinds:
  assumes "isa_ok isa" "0 < n" "rn_reach isa npi npf n s" "t < n" "ri_NumFloatRegs isa \<le> ri_NumIntRegs isa" "insertThread_regs isa t s = Inr s'"
  shows "\<forall>r < ri_NumFloatRegs isa. npi \<le> rmap_lookup r (rn_renameMap s' ! t)"
proof -
  have inv: "rn_inv isa npi npf s" "length (rn_renameMap s) = n" using rn_reach_inv [OF assms(3,1,2)] by simp_all
  have ok: "\<forall>m \<in> set (rn_renameMap s). rmap_ok isa npi npf m" using inv(1) by (simp add: rn_inv_def rn_wf_def)
  obtain s1 where s1: "bind_ints [0..<ri_NumIntRegs isa] t s = Inr s1" "bind_floats [0..<ri_NumFloatRegs isa] t s1 = Inr s'"
    using assms(6) by (auto simp: insertThread_regs_def res_simps)
  note b = bind_ints_ok [OF ok s1(1)]
  have "set (fl_freeFloatRegs (rn_freeList s)) \<subseteq> {npi..<npi + npf}" using free_in_range [OF inv(1), of _ False] by (auto simp: free_regs_def physical_def)
  then show ?thesis using bind_floats_lookup [OF _ _ s1(2), of isa npi npf] b inv(2) assms(4,5) by auto
qed

theorem insertThread_misbinds_witness:
  "\<exists>s s'. rename_setup sample_risa 8 8 2 2 = Inr s \<and> insertThread_regs sample_risa 1 s = Inr s' \<and> 8 \<le> rmap_lookup 0 (rn_renameMap s' ! 1)"
proof -
  have "is_ok (bind_res (rename_setup sample_risa 8 8 2 2) (insertThread_regs sample_risa 1))" by code_simp
  then obtain s s' where s: "rename_setup sample_risa 8 8 2 2 = Inr s" "insertThread_regs sample_risa 1 s = Inr s'" by (auto simp: is_ok_iff res_simps)
  have "rn_reach sample_risa 8 8 2 s" using rn_reach.start [OF s(1)] by simp
  then have "8 \<le> rmap_lookup 0 (rn_renameMap s' ! 1)"
    using insertThread_misbinds [OF sample_risa_ok _ _ _ _ s(2), of 2 8 8] by (simp add: sample_risa_def)
  then show ?thesis using s by blast
qed

end
