(* ===== verification/Spec2Isabelle.thy ===== *)
theory Spec2Isabelle
  imports Cache_Response Event_Queue Memory_System Bridge Tag_Store Bpred_Unit Register_Rename
begin

text \<open>
  Verification of the TDT4260 prefetcher and of the parts of the M5 simulator it runs in.

  \<^bold>\<open>The program.\<close>  The project is a hardware prefetcher for the level-2 cache of a simulated
  processor, \<open>src/prefetcher/prefetcher.cc\<close>, written against a small C interface,
  \<open>src/prefetcher/interface.hh\<close>, and compiled into the M5 simulator under \<open>src/m5\<close>.  A request
  of the processor arrives at a port of a cache; the cache looks it up in its tag store, answers
  it after the hit latency through the queue of a timing port, or allocates a miss status holding
  register that its memory-side port sends on.  On every access the cache notifies its
  prefetcher, which computes candidate addresses and puts them on a prefetch queue; when the
  memory-side port has nothing else to send, the head of that queue becomes a miss of its own.
  The response fills a block, evicts another and wakes the targets of the register; other
  caches are kept coherent by snoops.  The bus routes packets between the caches and memory.  The
  event queue drives all of it.

  \<^bold>\<open>The theories\<close>, each of which imports the ones it calls:

  \<^item> \<open>Prelude\<close>: addresses, ticks, errors as values (an assertion that fails, a panic, a fatal
    error, and undefined behaviour are four values of one type), \<open>base/flags.hh\<close>, and the shared
    rewrite collections \<open>res_simps\<close> and \<open>flag_simps\<close>.
  \<^item> \<open>Bitmath\<close>: \<open>base/bitfield.hh\<close>, \<open>base/intmath.{hh,cc}\<close> on 64-bit words.
  \<^item> \<open>Request\<close>, \<open>Packet\<close>: \<open>mem/request.hh\<close>, \<open>mem/packet.{hh,cc}\<close>: the command table, packets
    with their flags and bytes, responses, nacks, and functional access between packets.
  \<^item> \<open>Prefetch_Interface\<close>, \<open>DCPT\<close>, \<open>Proxy\<close>: the C interface, the delta-correlating prediction
    table prefetcher with its table, in-flight list and filter, the glue class
    \<open>mem/cache/prefetch/proxy.cc\<close>, and the tagged sequential prefetcher \<open>prefetcher/ts_54.cc\<close>.
  \<^item> \<open>Prefetch_Base\<close>, \<open>Prefetchers\<close>: the prefetch queue \<open>mem/cache/prefetch/base.cc\<close> and the
    prefetchers that come with the simulator.
  \<^item> \<open>Cache_Blk\<close>, \<open>LRU_Tags\<close>: \<open>mem/cache/blk.hh\<close>, \<open>mem/cache/tags/lru.{hh,cc}\<close>.
  \<^item> \<open>FA_LRU\<close>: \<open>mem/cache/tags/fa_lru.{hh,cc}\<close>, the fully associative store: one doubly linked
    list of blocks in an explicit store, a boundary per tracked cache size, and the hash table.
  \<^item> \<open>Tag_Store\<close>: what a cache relies on of a tag store, for both stores.
  \<^item> \<open>Mshr\<close>, \<open>Mshr_Queue\<close>: \<open>mem/cache/mshr.{hh,cc}\<close>, \<open>mshr_queue.{hh,cc}\<close>.
  \<^item> \<open>Timing_Port\<close>: \<open>mem/tport.{hh,cc}\<close>.
  \<^item> \<open>Cache_Base\<close>: \<open>mem/cache/base.{hh,cc}\<close>, the queues and the blocking of the ports.
  \<^item> \<open>Cache\<close>, \<open>Cache_Access\<close>, \<open>Cache_Timing\<close>, \<open>Cache_Issue\<close>, \<open>Cache_Snoop\<close>, \<open>Cache_Response\<close>:
    \<open>mem/cache/cache_impl.hh\<close>; the operations are in \<open>Cache\<close> (lookup, hits, fills,
    writebacks) and \<open>Cache_Timing\<close> (the timing, atomic and functional accesses, the choice of
    the next request, responses, snoops, both ports), the other four hold theorems.
  \<^item> \<open>Event_Queue\<close>: \<open>sim/eventq.{hh,cc}\<close>.
  \<^item> \<open>Range_Map\<close>, \<open>Bus\<close>: \<open>base/range.hh\<close> and \<open>base/range_map.hh\<close>, the map from address ranges
    to ports; \<open>mem/bus.{hh,cc}\<close>, with the caches of its routing, the list of ports to retry, the
    event that ends an occupancy, and the exchange of address ranges.
  \<^item> \<open>Physical_Memory\<close>: \<open>mem/physical.{hh,cc}\<close>, the bytes, the reservations of load-locked
    accesses, atomic and functional accesses and the ports.
  \<^item> \<open>Memory_System\<close>: memory as the peer of a port of the bus.
  \<^item> \<open>Bridge\<close>: \<open>mem/bridge.{hh,cc}\<close> and \<open>base/range_ops.hh\<close>, the link between two buses; its packet
    buffers, which are the sender states of the requests it forwards, are in an explicit heap.

  \<^item> \<open>Branch_Pred\<close>, \<open>Bpred_Unit\<close>: the branch predictor of the out-of-order processor, \<open>cpu/pred\<close>,
    \<open>cpu/o3/sat_counter.hh\<close> and \<open>cpu/o3/bpred_unit{.hh,_impl.hh}\<close>: saturating counters, the local and the
    tournament predictor, the target buffer, the return address stack, and the unit that
    predicts, commits and squashes.
  \<^item> \<open>Register_Rename\<close>: register renaming of that processor, \<open>cpu/o3/free_list.{hh,cc}\<close>,
    \<open>cpu/o3/scoreboard.{hh,cc}\<close>, \<open>cpu/o3/rename_map.{hh,cc}\<close>, the history buffer of \<open>cpu/o3/rename_impl.hh\<close>
    (renaming of an instruction, commit, squash) and the register loops of \<open>cpu/o3/cpu.cc\<close>.

  \<^bold>\<open>State and operations.\<close>  A class is a record with the fields of the class under their names
  (with a prefix where two classes share one); an operation is a function from the state to a
  result, with the guards and early returns of the code as branches.  Code that can stop the
  simulator returns \<open>'a res\<close>, \<open>Inl\<close> of the error or \<open>Inr\<close> of the result.  Arrays and lists of
  blocks and registers are lists with indices for pointers; the event queue, whose pointers are
  inside the events, has an explicit store.  Addresses, flags and bit fields are machine words;
  a tick is an integer, and where the code compares ticks as unsigned the model does so.

  \<^bold>\<open>Interfaces\<close> are locales.  \<open>prefetch_cache\<close> is what a prefetcher sees of the cache, interpreted
  on the LRU cache; \<open>prefetch_engine\<close> is what the prefetch queue relies on of a prefetcher,
  interpreted on the sequential, tagged, GHB, stride and outer prefetchers; \<open>user_prefetcher\<close> is
  the contract of a prefetcher behind the C interface, from which a sublocale gives
  \<open>prefetch_engine\<close>, interpreted on DCPT and on the tagged sequential prefetcher; \<open>agenda\<close> is
  what service relies on of the event queue, interpreted on the list of bins; \<open>tag_store\<close> is what
  lookups and accesses promise each other, interpreted on the set-associative and on the fully
  associative store; \<open>direction_predictor\<close> is what the branch predictor relies on of its direction
  predictor, interpreted on the local one, the tournament one, and the choice of the two.

  \<^bold>\<open>What is shown.\<close>  For the prefetcher: an access never stops the simulator, keeps the
  invariant of table and in-flight list, issues at most 19 distinct blocks none of which is
  cached or being fetched; which candidates the correlation has for a history that repeats a
  period, where the first one is right for periods of one and two deltas only, against the report; that a block which is marked and
  not issued stays marked; and the circumstances in which it issues nothing more.  For the prefetch queue: it refines an
  abstract bounded queue.  For the tag store: the order of a set is the order of last use, a
  filled address is found, addresses and tags determine each other; the fully associative store is an LRU stack that counts
  hits per tracked size, and it can lose a live block.  For the miss queue and the
  ports: the invariants of the reachable states, no port gets stuck, the cache is blocked
  exactly when it has no room.  For the cache: writes are read back, fills are found, dirty
  victims are written back, the choice of a request returns and prefers demand misses, a read
  miss completes with the bytes of the response, from a frame or from the temporary block, and atomic and
  timing snoops of a read or a request for ownership leave at most one writer.  For the
  event queue: each operation refines one on the sorted list of events, loops end, and service
  reaches everything that is due.  For the bus: in every state of a simulation from tick 0 a port that waits will
  get its retry, routing through the port cache equals the search through the ranges, ranges that
  are announced are routed to their port, and a startup in the middle of a cycle can strand the
  ports.  For memory: writes are read back, directly and through the bus, and a store conditional
  succeeds exactly if the history of load-locked accesses and stores allows it, as long as no swap, which
  leaves reservations standing, is among them.  For the bridge:
  in every reachable state its counters agree with its buffers and no assertion fails, except that
  a writeback which meets a full queue stops the simulator; responses return to where their
  requests came from.  For the branch predictor: it never fails in a reachable state, a squash
  takes back what was predicted, counters learn, and two faults of the code are shown.  For register
  renaming: in every reachable state, with any number of threads, no physical register is lost or
  used twice, and a squash restores the maps and the free registers; a thread that is inserted gets floating point
  registers as integers, and a zero register can be freed while it is mapped.

  \<^bold>\<open>Loops.\<close>  Loops over lists are structural recursion; the loop that looks for a prefetch
  (\<open>issue_prefetch_loop\<close>) takes the length of the prefetch queue as its measure, since every
  round removes its head.  The loops of \<open>isPrime\<close>, \<open>prevPrime\<close> and the logarithms terminate by
  a measure on their argument.  The loop that catches the bus up with the clock terminates since
  every round moves it one cycle on.  The loops of the event queue follow pointers and are partial
  functions whose result \<open>None\<close> means that they do not return; the theorems show that they
  return in every reachable state; so is the loop of \<open>check\<close> in the fully associative store.

  \<^bold>\<open>Parameters.\<close>  What lies outside the modelled classes is an argument: the processor or upper
  cache that may accept a packet (\<open>accept\<close>), the answer of the levels above and below to a
  forwarded snoop or atomic access (\<open>up\<close>, \<open>below\<close>, \<open>beyond\<close>), the methods of a prefetcher as
  the cache calls them (\<open>pf_methods\<close>), what an event does (\<open>process\<close>), the peers of the ports of
  the bus and the bridge (\<open>sendf\<close> for packets, \<open>rty\<close> for retries, \<open>ask\<close> and \<open>tell\<close> for address ranges), which do
  not call back while they handle a packet, the addresses of new packet buffers, the random part of the latency of memory, and
  the page size, the register counts and the flattening of register indexes of the instruction set.

  \<^bold>\<open>Not modelled.\<close>  Statistics other than the counters the code decides on, debug output and the
  printing of packets; checkpoint streams and the checkpoint file of memory; the indirect-index tag store (\<open>iic\<close>), which
  the configuration does not use; DRAM and the Ruby memory system below the
  caches; the pipelines of the processor models but for branch prediction and register renaming, instruction sets, devices and system emulation; the Python
  configuration.  They reach the modelled code only through packets, events and the parameters
  above.
\<close>

end
